(* ===== verification/Prelude.thy ===== *)
theory Prelude
  imports Main "HOL-Library.Word" "HOL-Library.Multiset"
begin

text \<open>
  What the components share: Python's exceptions as a datatype, an operation that may raise
  as a function from the state to a result and the new state (a raise does not undo the
  writes before it), the standard library's \<open>bisect\<close> on sorted lists, and the generic
  facts about lists and maps the component proofs use.

  \<^item> \<open>exn\<close> lists the exceptions the modelled code raises or catches; \<open>Blocks\<close> stands for a call
    that never comes back, which no handler catches.
  \<^item> \<open>act\<close> is the type of a state-changing operation, with \<open>ret\<close>, \<open>raise\<close>, \<open>bindA\<close>
    (sequencing), \<open>catchA\<close> (\<open>try/except\<close>) and \<open>finallyA\<close> (\<open>try/finally\<close>).
  \<^item> \<open>wp m Q E s\<close> says that running \<open>m\<close> from \<open>s\<close> ends in \<open>Q\<close> when it returns and
    in \<open>E\<close> when it raises. The rules \<open>wp_simps\<close> compute it over the combinators.
\<close>

unbundle bit_operations_syntax

section \<open>Exceptions and results\<close>

datatype exn =
    AssertionError | ValueError | TypeError | KeyError | IndexError | AttributeError
  | ZeroDivisionError | RuntimeError | NotImplementedError | MemoryError | EOFError
  | OSError int                \<comment> \<open>with its \<open>errno\<close>, 0 when it only has a message\<close>
  | StructError                \<comment> \<open>\<open>struct.error\<close>\<close>
  | SystemExit int
  | KeyboardInterrupt
  | StopIteration | CoroStop | TimeoutError
  | AuthenticationError | BufferTooShort "8 word list" | RemoteError | QueueFull | QueueEmpty
  | RestartFreqExceeded | WorkersJoined
  | TimeLimitExceeded | SoftTimeLimitExceeded | WorkerLostError int | Terminated int
  | MaybeEncodingError
  | ExceptionWithTraceback exn \<comment> \<open>\<open>einfo.ExceptionWithTraceback\<close> around an exception\<close>
  | Blocks                     \<comment> \<open>no exception: the call waits and nothing wakes it\<close>
  | UserError nat              \<comment> \<open>an exception of the user's code, named by a number\<close>

type_synonym ('s, 'a) act = "'s \<Rightarrow> (exn + 'a) \<times> 's"

text \<open>\<open>except Exception\<close> does not catch \<open>SystemExit\<close> and \<open>KeyboardInterrupt\<close>.\<close>

fun is_Exception :: "exn \<Rightarrow> bool" where
  "is_Exception (SystemExit _) = False"
| "is_Exception KeyboardInterrupt = False"
| "is_Exception Blocks = False"
| "is_Exception _ = True"

section \<open>Operations that change a state and may raise\<close>

definition ret :: "'a \<Rightarrow> ('s, 'a) act" where
  "ret a s = (Inr a, s)"

definition raise :: "exn \<Rightarrow> ('s, 'a) act" where
  "raise e s = (Inl e, s)"

definition bindA :: "('s, 'a) act \<Rightarrow> ('a \<Rightarrow> ('s, 'b) act) \<Rightarrow> ('s, 'b) act" where
  "bindA m f s = (case m s of (Inl e, s') \<Rightarrow> (Inl e, s') | (Inr a, s') \<Rightarrow> f a s')"

definition catchA :: "('s, 'a) act \<Rightarrow> (exn \<Rightarrow> ('s, 'a) act) \<Rightarrow> ('s, 'a) act" where
  "catchA m h s = (case m s of (Inl e, s') \<Rightarrow> h e s' | (Inr a, s') \<Rightarrow> (Inr a, s'))"

definition finallyA :: "('s, 'a) act \<Rightarrow> ('s, unit) act \<Rightarrow> ('s, 'a) act" where
  "finallyA m fin s =
     (case m s of (r, s') \<Rightarrow>
       (case fin s' of (Inl e, s'') \<Rightarrow> (Inl e, s'') | (Inr _, s'') \<Rightarrow> (r, s'')))"

definition modifyA :: "('s \<Rightarrow> 's) \<Rightarrow> ('s, unit) act" where
  "modifyA f s = (Inr (), f s)"

definition getsA :: "('s \<Rightarrow> 'a) \<Rightarrow> ('s, 'a) act" where
  "getsA f s = (Inr (f s), s)"

definition assertA :: "('s \<Rightarrow> bool) \<Rightarrow> exn \<Rightarrow> ('s, unit) act" where
  "assertA P e s = (if P s then (Inr (), s) else (Inl e, s))"

text \<open>Continuing with an operation chosen from the current state, and a statement under an \<open>if\<close>.\<close>

definition readA :: "('s \<Rightarrow> ('s, 'a) act) \<Rightarrow> ('s, 'a) act" where
  "readA f s = f s s"

definition whenA :: "bool \<Rightarrow> ('s, unit) act \<Rightarrow> ('s, unit) act" where
  "whenA b m = (if b then m else ret ())"

text \<open>Reading an optional value of the state, raising when it is not there.\<close>

definition fetchA :: "('s \<Rightarrow> 'a option) \<Rightarrow> exn \<Rightarrow> ('s, 'a) act" where
  "fetchA f e s = (case f s of None \<Rightarrow> (Inl e, s) | Some a \<Rightarrow> (Inr a, s))"

lemmas act_defs = ret_def raise_def bindA_def catchA_def finallyA_def modifyA_def getsA_def
  assertA_def fetchA_def readA_def whenA_def

definition wp :: "('s, 'a) act \<Rightarrow> ('a \<Rightarrow> 's \<Rightarrow> bool) \<Rightarrow> (exn \<Rightarrow> 's \<Rightarrow> bool) \<Rightarrow> 's \<Rightarrow> bool" where
  "wp m Q E s = (case m s of (Inl e, s') \<Rightarrow> E e s' | (Inr a, s') \<Rightarrow> Q a s')"

named_theorems wp_simps

lemma wp_ret [wp_simps]: "wp (ret a) Q E = Q a"
  by (simp add: wp_def ret_def fun_eq_iff)

lemma wp_raise [wp_simps]: "wp (raise e) Q E = E e"
  by (simp add: wp_def raise_def fun_eq_iff)

lemma wp_bind [wp_simps]: "wp (bindA m f) Q E s = wp m (\<lambda>a. wp (f a) Q E) E s"
  by (simp add: wp_def bindA_def split: prod.split sum.split)

lemma wp_catch [wp_simps]: "wp (catchA m h) Q E s = wp m Q (\<lambda>e. wp (h e) Q E) s"
  by (simp add: wp_def catchA_def split: prod.split sum.split)

lemma wp_finally [wp_simps]:
  "wp (finallyA m fin) Q E s =
     wp m (\<lambda>a. wp fin (\<lambda>_. Q a) E) (\<lambda>e. wp fin (\<lambda>_. E e) E) s"
  by (simp add: wp_def finallyA_def split: prod.split sum.split)

lemma wp_modify [wp_simps]: "wp (modifyA f) Q E s = Q () (f s)"
  by (simp add: wp_def modifyA_def)

lemma wp_gets [wp_simps]: "wp (getsA f) Q E s = Q (f s) s"
  by (simp add: wp_def getsA_def)

lemma wp_assert [wp_simps]: "wp (assertA P e) Q E s = (if P s then Q () s else E e s)"
  by (simp add: wp_def assertA_def)

lemma wp_fetch [wp_simps]:
  "wp (fetchA f e) Q E s = (case f s of None \<Rightarrow> E e s | Some a \<Rightarrow> Q a s)"
  by (simp add: wp_def fetchA_def split: option.split)

lemma wp_if [wp_simps]: "wp (if b then m else n) Q E s = (if b then wp m Q E s else wp n Q E s)"
  by simp

lemma wp_read [wp_simps]: "wp (readA f) Q E s = wp (f s) Q E s"
  by (simp add: wp_def readA_def)

lemma wp_when [wp_simps]: "wp (whenA b m) Q E s = (if b then wp m Q E s else Q () s)"
  by (simp add: whenA_def wp_ret)

lemma wp_mono:
  "wp m Q E s \<Longrightarrow> (\<And>a t. Q a t \<Longrightarrow> Q' a t) \<Longrightarrow> (\<And>e t. E e t \<Longrightarrow> E' e t) \<Longrightarrow> wp m Q' E' s"
  by (auto simp: wp_def split: prod.splits sum.splits)

lemma wp_conj: "wp m Q E s \<Longrightarrow> wp m Q' E' s \<Longrightarrow>
    wp m (\<lambda>a t. Q a t \<and> Q' a t) (\<lambda>e t. E e t \<and> E' e t) s"
  by (auto simp: wp_def split: prod.splits sum.splits)

text \<open>Total correctness: \<open>m\<close> returns, and what it returns satisfies \<open>Q\<close>.\<close>

lemma wp_total: "wp m Q (\<lambda>_ _. False) s \<longleftrightarrow> (\<exists>a t. m s = (Inr a, t) \<and> Q a t)"
  by (auto simp: wp_def split: prod.splits sum.splits)

lemma wp_run_Inr: "wp m Q E s \<Longrightarrow> m s = (Inr a, t) \<Longrightarrow> Q a t"
  by (simp add: wp_def)

lemma wp_run_Inl: "wp m Q E s \<Longrightarrow> m s = (Inl e, t) \<Longrightarrow> E e t"
  by (simp add: wp_def)

section \<open>Sorted lists: the standard library's bisect\<close>

text \<open>
  \<open>bisect.bisect_left(a, x)\<close> is the index that splits a sorted list into the elements
  less than \<open>x\<close> and the others; \<open>bisect.insort(a, x)\<close> inserts to the right of the
  elements equal to \<open>x\<close>. \<open>del a[i]\<close> removes one element by index.
\<close>

definition bisect_left :: "int list \<Rightarrow> int \<Rightarrow> nat" where
  "bisect_left xs x = length (takeWhile (\<lambda>y. y < x) xs)"

definition insort_right :: "int \<Rightarrow> int list \<Rightarrow> int list" where
  "insort_right x xs = takeWhile (\<lambda>y. y \<le> x) xs @ x # dropWhile (\<lambda>y. y \<le> x) xs"

definition del_nth :: "nat \<Rightarrow> 'a list \<Rightarrow> 'a list" where
  "del_nth i xs = take i xs @ drop (Suc i) xs"

lemma bisect_left_le: "bisect_left xs x \<le> length xs"
  by (simp add: bisect_left_def length_takeWhile_le)

lemma bisect_left_all_less:
  "bisect_left xs x = length xs \<Longrightarrow> y \<in> set xs \<Longrightarrow> y < x"
  unfolding bisect_left_def by (metis takeWhile_eq_take take_all order_refl set_takeWhileD)

lemma bisect_left_hit: "bisect_left xs x < length xs \<Longrightarrow> x \<le> xs ! bisect_left xs x"
  unfolding bisect_left_def using nth_length_takeWhile by force

lemma bisect_left_least:
  assumes "sorted xs" "bisect_left xs x < length xs" "y \<in> set xs" "x \<le> y"
  shows "xs ! bisect_left xs x \<le> y"
proof -
  let ?n = "bisect_left xs x"
  from assms(3) obtain j where j: "j < length xs" "xs ! j = y" by (auto simp: in_set_conv_nth)
  have "\<not> j < ?n"
  proof
    assume "j < ?n"
    then have "xs ! j \<in> set (takeWhile (\<lambda>y. y < x) xs)"
      unfolding bisect_left_def by (metis nth_mem takeWhile_nth)
    then show False using j(2) assms(4) by (auto dest: set_takeWhileD)
  qed
  then show ?thesis using assms(1) j by (metis not_less sorted_nth_mono)
qed

lemma set_insort_right [simp]: "set (insort_right x xs) = insert x (set xs)"
  unfolding insort_right_def
  by (metis insert_is_Un list.simps(15) set_append sup_left_commute takeWhile_dropWhile_id)

lemma sorted_insort_right:
  assumes "sorted xs"
  shows "sorted (insort_right x xs)"
proof -
  have 1: "sorted (takeWhile (\<lambda>y. y \<le> x) xs)" "sorted (dropWhile (\<lambda>y. y \<le> x) xs)"
    using assms by (auto simp: sorted_dropWhile sorted_takeWhile)
  have 2: "y \<le> x" if "y \<in> set (takeWhile (\<lambda>y. y \<le> x) xs)" for y
    using that by (auto dest: set_takeWhileD)
  have 3: "x \<le> y" if "y \<in> set (dropWhile (\<lambda>y. y \<le> x) xs)" for y
  proof (cases "dropWhile (\<lambda>y. y \<le> x) xs")
    case Nil
    show ?thesis using that unfolding Nil by simp
  next
    case (Cons z zs)
    then have "\<not> z \<le> x" using hd_dropWhile [of "\<lambda>y. y \<le> x" xs] by (metis list.distinct(1) list.sel(1))
    moreover have "z \<le> y" using that 1(2) unfolding Cons by auto
    ultimately show ?thesis by simp
  qed
  show ?thesis
    unfolding insort_right_def using 1 2 3 by (fastforce simp: sorted_append)
qed

lemma distinct_insort_right:
  assumes "distinct xs" "x \<notin> set xs"
  shows "distinct (insort_right x xs)"
proof -
  have "mset (insort_right x xs) = mset (x # xs)"
    unfolding insort_right_def
    by (metis mset_append mset.simps(2) takeWhile_dropWhile_id union_mset_add_mset_right)
  then show ?thesis using assms by (metis distinct.simps(2) mset_eq_imp_distinct_iff)
qed

lemma del_nth_props:
  assumes "i < length xs" "distinct xs"
  shows "set (del_nth i xs) = set xs - {xs ! i}" "distinct (del_nth i xs)"
    "sorted xs \<Longrightarrow> sorted (del_nth i xs)"
proof -
  have eq: "xs = take i xs @ xs ! i # drop (Suc i) xs"
    using assms(1) by (simp add: id_take_nth_drop)
  have "distinct (take i xs @ xs ! i # drop (Suc i) xs)" using eq assms(2) by simp
  then have d: "xs ! i \<notin> set (take i xs)" "xs ! i \<notin> set (drop (Suc i) xs)"
    "distinct (take i xs)" "distinct (drop (Suc i) xs)"
    "set (take i xs) \<inter> set (drop (Suc i) xs) = {}" by auto
  have "set xs = set (take i xs) \<union> {xs ! i} \<union> set (drop (Suc i) xs)"
    by (subst eq) auto
  then show "set (del_nth i xs) = set xs - {xs ! i}" using d by (auto simp: del_nth_def)
  show "distinct (del_nth i xs)" using d by (auto simp: del_nth_def)
  show "sorted (del_nth i xs)" if "sorted xs"
  proof -
    have "sorted (take i xs @ xs ! i # drop (Suc i) xs)" using eq that by simp
    then show ?thesis by (auto simp: del_nth_def sorted_append)
  qed
qed

end
