(* ===== verification/Shm_Heap.thy ===== *)
theory Shm_Heap
  imports Prelude
begin

text \<open>
  The shared-memory allocator \<open>Heap\<close> of \<open>billiard/heap.py\<close>: arenas are mmaps, a block is an
  arena with a start and a stop offset. Free blocks are indexed three ways (by length, by
  start, by stop), a request takes the last block of the smallest length that is large
  enough, and a freed block is merged with the free blocks next to it.

  \<^item> The operations are translated one by one. The page size, \<open>sys.maxsize\<close>, the process
    id and whether a new mmap can be had come from the operating system and are parameters.
  \<^item> The locale \<open>free_index\<close> states what the rest of the allocator needs from the three
    indices; it is interpreted on \<open>heap_absorb\<close>, \<open>heap_register\<close> and \<open>heap_take\<close>.
  \<^item> \<open>heap_inv\<close> says that the blocks, free and allocated, tile the arenas without overlap
    and that no two free blocks touch. \<open>malloc\<close> and \<open>free\<close> keep it; their interleavings are in theory
    Heap_Interleaving.
\<close>

section \<open>State\<close>

text \<open>An arena object is named by a number; \<open>h_next\<close> supplies names never used before.\<close>

type_synonym block = "nat \<times> int \<times> int"

record heap =
  h_lastpid :: int
  h_lock :: bool
  h_size :: int
  h_lengths :: "int list"
  h_len_to_seq :: "int \<rightharpoonup> block list"
  h_start_to_block :: "(nat \<times> int) \<rightharpoonup> block"
  h_stop_to_block :: "(nat \<times> int) \<rightharpoonup> block"
  h_allocated :: "block set"
  h_arenas :: "(nat \<times> int) list"
  h_pending :: "block list"
  h_next :: nat

definition heap_init :: "int \<Rightarrow> int \<Rightarrow> nat \<Rightarrow> heap" where
  "heap_init pagesize pid nxt =
     \<lparr>h_lastpid = pid, h_lock = False, h_size = pagesize, h_lengths = [],
      h_len_to_seq = Map.empty, h_start_to_block = Map.empty, h_stop_to_block = Map.empty,
      h_allocated = {}, h_arenas = [], h_pending = [], h_next = nxt\<rparr>"

section \<open>Operations\<close>

definition roundup :: "int \<Rightarrow> int \<Rightarrow> int" where
  "roundup n alignment = (let mask = alignment - 1 in (n + mask) AND NOT mask)"

definition alignment :: int where
  "alignment = 8"

text \<open>\<open>del d[k]\<close> on the two dictionaries indexed by a block's ends.\<close>

definition del_start :: "nat \<times> int \<Rightarrow> (heap, unit) act" where
  "del_start k s = (case h_start_to_block s k of None \<Rightarrow> (Inl KeyError, s)
     | Some _ \<Rightarrow> (Inr (), s\<lparr>h_start_to_block := (h_start_to_block s)(k := None)\<rparr>))"

definition del_stop :: "nat \<times> int \<Rightarrow> (heap, unit) act" where
  "del_stop k s = (case h_stop_to_block s k of None \<Rightarrow> (Inl KeyError, s)
     | Some _ \<Rightarrow> (Inr (), s\<lparr>h_stop_to_block := (h_stop_to_block s)(k := None)\<rparr>))"

text \<open>The \<open>else\<close> branch of \<open>_malloc\<close>: pop a block of the chosen length.\<close>

definition heap_pop :: "nat \<Rightarrow> (heap, block) act" where
  "heap_pop i s =
     (let len = h_lengths s ! i in
      case h_len_to_seq s len of None \<Rightarrow> (Inl KeyError, s)
      | Some seq \<Rightarrow>
          if seq = [] then (Inl IndexError, s)
          else (Inr (last seq),
                if butlast seq = []
                then s\<lparr>h_len_to_seq := (h_len_to_seq s)(len := None),
                       h_lengths := del_nth i (h_lengths s)\<rparr>
                else s\<lparr>h_len_to_seq := (h_len_to_seq s)(len \<mapsto> butlast seq)\<rparr>))"

definition heap_take :: "nat \<Rightarrow> (heap, block) act" where
  "heap_take i =
     bindA (heap_pop i) (\<lambda>(arena, start, stop).
     bindA (del_start (arena, start)) (\<lambda>_.
     bindA (del_stop (arena, stop)) (\<lambda>_.
     ret (arena, start, stop))))"

text \<open>
  The new arena of \<open>_malloc\<close>: \<open>mk_arena len\<close> is the error that creating the mmap raises,
  if it raises one. The size has already been doubled when it does.
\<close>

definition heap_new_arena :: "int \<Rightarrow> (int \<Rightarrow> exn option) \<Rightarrow> int \<Rightarrow> (heap, block) act" where
  "heap_new_arena pagesize mk_arena sz s =
     (let len = roundup (max (h_size s) sz) pagesize;
          s1 = s\<lparr>h_size := h_size s * 2\<rparr>
      in case mk_arena len of
           Some e \<Rightarrow> (Inl e, s1)
         | None \<Rightarrow> (Inr (h_next s, 0, len),
                    s1\<lparr>h_arenas := h_arenas s @ [(h_next s, len)], h_next := Suc (h_next s)\<rparr>))"

definition heap_malloc :: "int \<Rightarrow> (int \<Rightarrow> exn option) \<Rightarrow> int \<Rightarrow> (heap, block) act" where
  "heap_malloc pagesize mk_arena sz s =
     (let i = bisect_left (h_lengths s) sz in
      if i = length (h_lengths s) then heap_new_arena pagesize mk_arena sz s
      else heap_take i s)"

definition heap_absorb :: "block \<Rightarrow> (heap, int \<times> int) act" where
  "heap_absorb b = (case b of (arena, start, stop) \<Rightarrow>
     bindA (del_start (arena, start)) (\<lambda>_.
     bindA (del_stop (arena, stop)) (\<lambda>_ s.
       (let len = stop - start in
        case h_len_to_seq s len of None \<Rightarrow> (Inl KeyError, s)
        | Some seq \<Rightarrow>
            if b \<notin> set seq then (Inl ValueError, s)
            else if remove1 b seq = [] then
              (let s1 = s\<lparr>h_len_to_seq := (h_len_to_seq s)(len := None)\<rparr> in
               if len \<in> set (h_lengths s1)
               then (Inr (start, stop), s1\<lparr>h_lengths := remove1 len (h_lengths s1)\<rparr>)
               else (Inl ValueError, s1))
            else (Inr (start, stop), s\<lparr>h_len_to_seq := (h_len_to_seq s)(len \<mapsto> remove1 b seq)\<rparr>)))))"

definition heap_register :: "block \<Rightarrow> heap \<Rightarrow> heap" where
  "heap_register b s = (case b of (arena, start, stop) \<Rightarrow>
     let len = stop - start;
         s1 = (case h_len_to_seq s len of
                 Some seq \<Rightarrow> s\<lparr>h_len_to_seq := (h_len_to_seq s)(len \<mapsto> seq @ [b])\<rparr>
               | None \<Rightarrow> s\<lparr>h_len_to_seq := (h_len_to_seq s)(len \<mapsto> [b]),
                           h_lengths := insort_right len (h_lengths s)\<rparr>)
     in s1\<lparr>h_start_to_block := (h_start_to_block s1)((arena, start) \<mapsto> b),
           h_stop_to_block := (h_stop_to_block s1)((arena, stop) \<mapsto> b)\<rparr>)"

definition heap_free :: "block \<Rightarrow> (heap, unit) act" where
  "heap_free b = (case b of (arena, start, stop) \<Rightarrow>
     bindA (bindA (getsA (\<lambda>s. h_stop_to_block s (arena, start)))
       (\<lambda>prev. case prev of None \<Rightarrow> ret start
         | Some prev_block \<Rightarrow> bindA (heap_absorb prev_block) (\<lambda>(start', _). ret start')))
       (\<lambda>start'.
     bindA (bindA (getsA (\<lambda>s. h_start_to_block s (arena, stop)))
       (\<lambda>nxt. case nxt of None \<Rightarrow> ret stop
         | Some next_block \<Rightarrow> bindA (heap_absorb next_block) (\<lambda>(_, stop'). ret stop')))
       (\<lambda>stop'.
     modifyA (heap_register (arena, start', stop')))))"

text \<open>No operation of the free index touches the allocated set or the pending list.\<close>

definition same_frame :: "heap \<Rightarrow> heap \<Rightarrow> bool" where
  "same_frame s t \<longleftrightarrow> h_pending t = h_pending s \<and> h_allocated t = h_allocated s
     \<and> h_arenas t = h_arenas s \<and> h_next t = h_next s \<and> h_lock t = h_lock s
     \<and> h_lastpid t = h_lastpid s \<and> h_size t = h_size s"

lemma same_frame_refl [simp]: "same_frame s s"
  by (simp add: same_frame_def)

lemma same_frame_trans [trans]: "same_frame s t \<Longrightarrow> same_frame t u \<Longrightarrow> same_frame s u"
  by (simp add: same_frame_def)

lemma same_frame_absorb: "wp (heap_absorb b) (\<lambda>_. same_frame s) (\<lambda>_. same_frame s) s"
  by (auto simp: heap_absorb_def wp_def bindA_def del_start_def del_stop_def same_frame_def Let_def
      split: option.split sum.split prod.split)

lemma same_frame_register [simp]: "same_frame s (heap_register b t) = same_frame s t"
  by (auto simp: heap_register_def same_frame_def Let_def split: option.split prod.split)

lemma same_frame_absorb_from:
  "same_frame s t \<Longrightarrow> wp (heap_absorb b) (\<lambda>_. same_frame s) (\<lambda>_. same_frame s) t"
  by (rule wp_mono [OF same_frame_absorb]) (auto intro: same_frame_trans)

lemma same_frame_free: "wp (heap_free b) (\<lambda>_. same_frame s) (\<lambda>_. same_frame s) s"
proof -
  obtain arena start stop where b: "b = (arena, start, stop)" by (cases b)
  have nxt: "wp (case h_start_to_block t (arena, stop) of None \<Rightarrow> ret stop
         | Some nb \<Rightarrow> bindA (heap_absorb nb) (\<lambda>(_, stop'). ret stop'))
       (\<lambda>stop' u. same_frame s (heap_register (arena, start', stop') u)) (\<lambda>_. same_frame s) t"
    if "same_frame s t" for t start'
    using that
    by (auto simp: wp_simps split: option.split
        intro: wp_mono [OF same_frame_absorb_from [OF that]])
  show ?thesis
    unfolding heap_free_def b
    by (auto simp: wp_simps split: option.split
        intro!: nxt wp_mono [OF same_frame_absorb])
      (auto intro: same_frame_trans)
qed

text \<open>
  The loop of \<open>_free_pending_blocks\<close>: each round pops the last pending block. It ends
  because \<open>heap_free\<close> leaves the pending list alone.
\<close>

lemma heap_free_pending: "heap_free b s = (r, t) \<Longrightarrow> h_pending t = h_pending s"
  using same_frame_free [of b s]
  by (auto simp: wp_def same_frame_def split: sum.splits)

function free_pending_blocks :: "(heap, unit) act" where
  "free_pending_blocks s =
     (if h_pending s = [] then (Inr (), s)
      else
        let b = last (h_pending s); s1 = s\<lparr>h_pending := butlast (h_pending s)\<rparr> in
        if b \<notin> h_allocated s1 then (Inl KeyError, s1)
        else (case heap_free b (s1\<lparr>h_allocated := h_allocated s1 - {b}\<rparr>) of
                (Inl e, s2) \<Rightarrow> (Inl e, s2)
              | (Inr _, s2) \<Rightarrow> free_pending_blocks s2))"
  by pat_completeness auto
termination
  by (relation "measure (\<lambda>s. length (h_pending s))") (auto dest!: heap_free_pending [OF sym])

declare free_pending_blocks.simps [simp del]

text \<open>
  \<open>free\<close>: the trylock. When the lock is held the block is only queued.
\<close>

definition free :: "int \<Rightarrow> block \<Rightarrow> (heap, unit) act" where
  "free pid b =
     bindA (assertA (\<lambda>s. pid = h_lastpid s) AssertionError) (\<lambda>_ s.
       if h_lock s then (Inr (), s\<lparr>h_pending := h_pending s @ [b]\<rparr>)
       else finallyA
         (bindA free_pending_blocks (\<lambda>_.
          bindA (assertA (\<lambda>s. b \<in> h_allocated s) KeyError) (\<lambda>_.
          bindA (modifyA (\<lambda>s. s\<lparr>h_allocated := h_allocated s - {b}\<rparr>)) (\<lambda>_.
          heap_free b))))
         (modifyA (\<lambda>s. s\<lparr>h_lock := False\<rparr>)) (s\<lparr>h_lock := True\<rparr>))"

text \<open>
  \<open>malloc\<close> in the three stretches between which a \<open>free\<close> may run: taking the lock, freeing
  the pending blocks, and cutting the block. \<open>None\<close> is a lock that is held, where the code
  waits.
\<close>

definition malloc_enter :: "int \<Rightarrow> int \<Rightarrow> int \<Rightarrow> int \<Rightarrow> heap \<Rightarrow> ((exn + unit) \<times> heap) option" where
  "malloc_enter pagesize maxsize pid sz s =
     (if \<not> (0 \<le> sz \<and> sz < maxsize) then Some (Inl AssertionError, s)
      else let s1 = (if pid \<noteq> h_lastpid s then heap_init pagesize pid (h_next s) else s)
           in if h_lock s1 then None else Some (Inr (), s1\<lparr>h_lock := True\<rparr>))"

definition unlock :: "(heap, 'a) act \<Rightarrow> (heap, 'a) act" where
  "unlock m = finallyA m (modifyA (\<lambda>s. s\<lparr>h_lock := False\<rparr>))"

definition malloc_cut :: "int \<Rightarrow> (int \<Rightarrow> exn option) \<Rightarrow> int \<Rightarrow> (heap, block) act" where
  "malloc_cut pagesize mk_arena sz =
     (let sz = roundup (max sz 1) alignment in
      bindA (heap_malloc pagesize mk_arena sz) (\<lambda>(arena, start, stop).
      let new_stop = start + sz in
      bindA (if new_stop < stop then heap_free (arena, new_stop, stop) else ret ()) (\<lambda>_.
      bindA (modifyA (\<lambda>s. s\<lparr>h_allocated := insert (arena, start, new_stop) (h_allocated s)\<rparr>)) (\<lambda>_.
      ret (arena, start, new_stop)))))"

definition malloc :: "int \<Rightarrow> int \<Rightarrow> (int \<Rightarrow> exn option) \<Rightarrow> int \<Rightarrow> int \<Rightarrow> heap
    \<Rightarrow> ((exn + block) \<times> heap) option" where
  "malloc pagesize maxsize mk_arena pid sz s =
     (case malloc_enter pagesize maxsize pid sz s of
        None \<Rightarrow> None
      | Some (Inl e, s1) \<Rightarrow> Some (Inl e, s1)
      | Some (Inr _, s1) \<Rightarrow>
          Some (unlock (bindA free_pending_blocks (\<lambda>_. malloc_cut pagesize mk_arena sz)) s1))"


section \<open>The free index: what the rest of the allocator relies on\<close>

abbreviation barena :: "block \<Rightarrow> nat" where "barena b \<equiv> fst b"
abbreviation bstart :: "block \<Rightarrow> int" where "bstart b \<equiv> fst (snd b)"
abbreviation bstop :: "block \<Rightarrow> int" where "bstop b \<equiv> snd (snd b)"
abbreviation blen :: "block \<Rightarrow> int" where "blen b \<equiv> bstop b - bstart b"

text \<open>The blocks filed in the index, and the agreement of its three dictionaries.\<close>

definition free_blocks :: "heap \<Rightarrow> block set" where
  "free_blocks s = {b. \<exists>seq. h_len_to_seq s (blen b) = Some seq \<and> b \<in> set seq}"

definition index_inv :: "heap \<Rightarrow> bool" where
  "index_inv s \<longleftrightarrow> sorted (h_lengths s) \<and> distinct (h_lengths s)
     \<and> set (h_lengths s) = dom (h_len_to_seq s)
     \<and> (\<forall>l seq. h_len_to_seq s l = Some seq \<longrightarrow>
          seq \<noteq> [] \<and> distinct seq \<and> (\<forall>b \<in> set seq. blen b = l))
     \<and> (\<forall>k b. h_start_to_block s k = Some b \<longleftrightarrow> b \<in> free_blocks s \<and> k = (barena b, bstart b))
     \<and> (\<forall>k b. h_stop_to_block s k = Some b \<longleftrightarrow> b \<in> free_blocks s \<and> k = (barena b, bstop b))"

locale free_index =
  fixes inv :: "'s \<Rightarrow> bool"
    and blocks :: "'s \<Rightarrow> block set"
    and at_start :: "'s \<Rightarrow> nat \<times> int \<Rightarrow> block option"
    and at_stop :: "'s \<Rightarrow> nat \<times> int \<Rightarrow> block option"
    and absorb :: "block \<Rightarrow> ('s, int \<times> int) act"
    and register :: "block \<Rightarrow> 's \<Rightarrow> 's"
  assumes at_start_iff: "inv s \<Longrightarrow> at_start s k = Some b \<longleftrightarrow> b \<in> blocks s \<and> k = (barena b, bstart b)"
    and at_stop_iff: "inv s \<Longrightarrow> at_stop s k = Some b \<longleftrightarrow> b \<in> blocks s \<and> k = (barena b, bstop b)"
    and absorb_law: "inv s \<Longrightarrow> b \<in> blocks s \<Longrightarrow>
      wp (absorb b) (\<lambda>r t. r = (bstart b, bstop b) \<and> inv t \<and> blocks t = blocks s - {b})
        (\<lambda>_ _. False) s"
    and register_inv: "inv s \<Longrightarrow> at_start s (barena b, bstart b) = None \<Longrightarrow>
      at_stop s (barena b, bstop b) = None \<Longrightarrow> inv (register b s)"
    and register_blocks: "inv s \<Longrightarrow> blocks (register b s) = insert b (blocks s)"
begin

lemma at_start_None: "inv s \<Longrightarrow>
    at_start s k = None \<longleftrightarrow> (\<forall>b \<in> blocks s. k \<noteq> (barena b, bstart b))"
  using at_start_iff [of s k] by (metis not_None_eq)

lemma at_stop_None: "inv s \<Longrightarrow>
    at_stop s k = None \<longleftrightarrow> (\<forall>b \<in> blocks s. k \<noteq> (barena b, bstop b))"
  using at_stop_iff [of s k] by (metis not_None_eq)

text \<open>Absorbing the neighbour found at a key, or nothing when there is none.\<close>

lemma absorb_stop:
  assumes "inv s"
  shows "wp (bindA (getsA (\<lambda>s. at_stop s (a, st)))
           (\<lambda>p. case p of None \<Rightarrow> ret st | Some pb \<Rightarrow> bindA (absorb pb) (\<lambda>(st', _). ret st')))
         (\<lambda>st' t. inv t \<and>
            (case at_stop s (a, st) of None \<Rightarrow> st' = st \<and> blocks t = blocks s
             | Some pb \<Rightarrow> st' = bstart pb \<and> blocks t = blocks s - {pb}))
         (\<lambda>_ _. False) s"
proof (cases "at_stop s (a, st)")
  case None
  then show ?thesis using assms by (simp add: wp_simps)
next
  case (Some pb)
  with assms have pb: "pb \<in> blocks s" by (simp add: at_stop_iff)
  show ?thesis
    using Some by (simp add: wp_simps)
      (rule wp_mono [OF absorb_law [OF assms pb]]; simp add: wp_simps split_beta)
qed

lemma absorb_start:
  assumes "inv s"
  shows "wp (bindA (getsA (\<lambda>s. at_start s (a, e)))
           (\<lambda>p. case p of None \<Rightarrow> ret e | Some nb \<Rightarrow> bindA (absorb nb) (\<lambda>(_, e'). ret e')))
         (\<lambda>e' t. inv t \<and>
            (case at_start s (a, e) of None \<Rightarrow> e' = e \<and> blocks t = blocks s
             | Some nb \<Rightarrow> e' = bstop nb \<and> blocks t = blocks s - {nb}))
         (\<lambda>_ _. False) s"
proof (cases "at_start s (a, e)")
  case None
  then show ?thesis using assms by (simp add: wp_simps)
next
  case (Some nb)
  with assms have nb: "nb \<in> blocks s" by (simp add: at_start_iff)
  show ?thesis
    using Some by (simp add: wp_simps)
      (rule wp_mono [OF absorb_law [OF assms nb]]; simp add: wp_simps split_beta)
qed

end

lemma free_blocks_upd [simp]:
  "free_blocks (s\<lparr>h_start_to_block := x\<rparr>) = free_blocks s"
  "free_blocks (s\<lparr>h_stop_to_block := x\<rparr>) = free_blocks s"
  "free_blocks (s\<lparr>h_lengths := ls\<rparr>) = free_blocks s"
  "free_blocks (s\<lparr>h_allocated := al\<rparr>) = free_blocks s"
  "free_blocks (s\<lparr>h_pending := ps\<rparr>) = free_blocks s"
  "free_blocks (s\<lparr>h_lock := l\<rparr>) = free_blocks s"
  "free_blocks (s\<lparr>h_size := n\<rparr>) = free_blocks s"
  "free_blocks (s\<lparr>h_arenas := as\<rparr>) = free_blocks s"
  "free_blocks (s\<lparr>h_next := i\<rparr>) = free_blocks s"
  by (simp_all add: free_blocks_def)

lemma index_inv_upd [simp]:
  "index_inv (s\<lparr>h_allocated := al\<rparr>) = index_inv s"
  "index_inv (s\<lparr>h_pending := ps\<rparr>) = index_inv s"
  "index_inv (s\<lparr>h_lock := l\<rparr>) = index_inv s"
  "index_inv (s\<lparr>h_size := n\<rparr>) = index_inv s"
  "index_inv (s\<lparr>h_arenas := as\<rparr>) = index_inv s"
  "index_inv (s\<lparr>h_next := i\<rparr>) = index_inv s"
  by (simp_all add: index_inv_def)

lemma index_start_iff:
  "index_inv s \<Longrightarrow> h_start_to_block s k = Some b \<longleftrightarrow> b \<in> free_blocks s \<and> k = (barena b, bstart b)"
  unfolding index_inv_def by blast

lemma index_stop_iff:
  "index_inv s \<Longrightarrow> h_stop_to_block s k = Some b \<longleftrightarrow> b \<in> free_blocks s \<and> k = (barena b, bstop b)"
  unfolding index_inv_def by blast

lemma index_seq: "index_inv s \<Longrightarrow> h_len_to_seq s l = Some seq \<Longrightarrow>
    seq \<noteq> [] \<and> distinct seq \<and> (\<forall>b \<in> set seq. blen b = l)"
  unfolding index_inv_def by blast

lemma index_lengths: "index_inv s \<Longrightarrow>
    sorted (h_lengths s) \<and> distinct (h_lengths s) \<and> set (h_lengths s) = dom (h_len_to_seq s)"
  unfolding index_inv_def by blast

lemma index_invI:
  assumes "sorted (h_lengths s)" "distinct (h_lengths s)" "set (h_lengths s) = dom (h_len_to_seq s)"
    and "\<And>l seq. h_len_to_seq s l = Some seq \<Longrightarrow>
          seq \<noteq> [] \<and> distinct seq \<and> (\<forall>b \<in> set seq. blen b = l)"
    and "\<And>k b. h_start_to_block s k = Some b \<longleftrightarrow> b \<in> free_blocks s \<and> k = (barena b, bstart b)"
    and "\<And>k b. h_stop_to_block s k = Some b \<longleftrightarrow> b \<in> free_blocks s \<and> k = (barena b, bstop b)"
  shows "index_inv s"
  unfolding index_inv_def using assms by blast

lemma free_blocks_remove:
  assumes "index_inv s" "h_len_to_seq s l = Some seq" "b \<in> set seq"
  shows "free_blocks (s\<lparr>h_len_to_seq := (h_len_to_seq s)(l := if remove1 b seq = [] then None
           else Some (remove1 b seq))\<rparr>) = free_blocks s - {b}"
proof -
  have d: "distinct seq" and l: "blen b = l" "\<And>c. c \<in> set seq \<Longrightarrow> blen c = l"
    using index_seq [OF assms(1,2)] assms(3) by auto
  have r: "set (remove1 b seq) = set seq - {b}" using d by simp
  then have e: "remove1 b seq = [] \<longleftrightarrow> set seq \<subseteq> {b}" by (metis Diff_eq_empty_iff set_empty)
  show ?thesis
  proof (rule set_eqI)
    fix c
    show "c \<in> free_blocks (s\<lparr>h_len_to_seq := (h_len_to_seq s)(l := if remove1 b seq = [] then None
           else Some (remove1 b seq))\<rparr>) \<longleftrightarrow> c \<in> free_blocks s - {b}"
      using e r l assms(2) by (cases "blen c = l") (auto simp: free_blocks_def)
  qed
qed

text \<open>Taking a filed block out of the index leaves a consistent index.\<close>

lemma index_inv_remove:
  assumes "index_inv s" "h_len_to_seq s (blen b) = Some seq" "b \<in> set seq"
    and "set ls = (if remove1 b seq = [] then set (h_lengths s) - {blen b} else set (h_lengths s))"
    and "sorted ls" "distinct ls"
  shows "index_inv (s\<lparr>h_len_to_seq := (h_len_to_seq s)(blen b := if remove1 b seq = [] then None
             else Some (remove1 b seq)),
           h_lengths := ls,
           h_start_to_block := (h_start_to_block s)((barena b, bstart b) := None),
           h_stop_to_block := (h_stop_to_block s)((barena b, bstop b) := None)\<rparr>)"
    (is "index_inv ?t")
proof -
  have f: "free_blocks ?t = free_blocks s - {b}"
    using free_blocks_remove [OF assms(1-3)] by simp
  have b: "b \<in> free_blocks s" using assms(2,3) by (auto simp: free_blocks_def)
  from assms(1) have
    A: "set (h_lengths s) = dom (h_len_to_seq s)"
    and B: "\<And>l seq. h_len_to_seq s l = Some seq \<Longrightarrow>
          seq \<noteq> [] \<and> distinct seq \<and> (\<forall>b \<in> set seq. blen b = l)"
    and C: "\<And>k b. h_start_to_block s k = Some b \<longleftrightarrow> b \<in> free_blocks s \<and> k = (barena b, bstart b)"
    and D: "\<And>k b. h_stop_to_block s k = Some b \<longleftrightarrow> b \<in> free_blocks s \<and> k = (barena b, bstop b)"
    unfolding index_inv_def by blast+
  have C1: "c = b" if "c \<in> free_blocks s" "barena c = barena b" "bstart c = bstart b" for c
    using C [of "(barena b, bstart b)" b] C [of "(barena b, bstart b)" c] that b by simp
  have D1: "c = b" if "c \<in> free_blocks s" "barena c = barena b" "bstop c = bstop b" for c
    using D [of "(barena b, bstop b)" b] D [of "(barena b, bstop b)" c] that b by simp
  have "h_start_to_block ?t k = Some c \<longleftrightarrow> c \<in> free_blocks ?t \<and> k = (barena c, bstart c)" for k c
    unfolding f using C [of k c] C1 [of c] by auto
  moreover have "h_stop_to_block ?t k = Some c \<longleftrightarrow> c \<in> free_blocks ?t \<and> k = (barena c, bstop c)" for k c
    unfolding f using D [of k c] D1 [of c] by auto
  moreover have "set (h_lengths ?t) = dom (h_len_to_seq ?t)"
    using assms(2,4) A by (auto simp: dom_def)
  moreover have "sq \<noteq> [] \<and> distinct sq \<and> (\<forall>c \<in> set sq. blen c = l)"
    if sq: "h_len_to_seq ?t l = Some sq" for l sq
  proof (cases "l = blen b")
    case True
    with sq have "sq \<noteq> []" "sq = remove1 b seq" by (auto split: if_splits)
    then show ?thesis using B [OF assms(2)] True set_remove1_subset [of b seq] by auto
  next
    case False
    with sq B [of l sq] show ?thesis by simp
  qed
  moreover have "sorted (h_lengths ?t)" "distinct (h_lengths ?t)" using assms(5,6) by simp_all
  ultimately show ?thesis by (intro index_invI) blast+
qed

lemma heap_absorb_law:
  assumes inv: "index_inv s" and b: "b \<in> free_blocks s"
  shows "wp (heap_absorb b)
     (\<lambda>r t. r = (bstart b, bstop b) \<and> index_inv t \<and> free_blocks t = free_blocks s - {b})
     (\<lambda>_ _. False) s"
proof -
  obtain seq where seq: "h_len_to_seq s (blen b) = Some seq" "b \<in> set seq"
    using b by (auto simp: free_blocks_def)
  have st: "h_start_to_block s (barena b, bstart b) = Some b"
    "h_stop_to_block s (barena b, bstop b) = Some b"
    using inv b by (simp_all add: index_start_iff index_stop_iff)
  have ln: "blen b \<in> set (h_lengths s)" "sorted (h_lengths s)" "distinct (h_lengths s)"
    using index_lengths [OF inv] seq by auto
  have rm: "set (remove1 (blen b) (h_lengths s)) = set (h_lengths s) - {blen b}"
    "sorted (remove1 (blen b) (h_lengths s))" "distinct (remove1 (blen b) (h_lengths s))"
    using ln by (auto intro: sorted_remove1)
  note inv1 = index_inv_remove [OF inv seq]
  note fr = free_blocks_remove [OF inv seq]
  obtain a x y where bxy: "b = (a, x, y)" by (cases b)
  show ?thesis
  proof (cases "remove1 b seq = []")
    case True
    have "heap_absorb b s = (Inr (bstart b, bstop b),
       s\<lparr>h_len_to_seq := (h_len_to_seq s)(blen b := if remove1 b seq = [] then None
             else Some (remove1 b seq)),
           h_lengths := remove1 (blen b) (h_lengths s),
           h_start_to_block := (h_start_to_block s)((barena b, bstart b) := None),
           h_stop_to_block := (h_stop_to_block s)((barena b, bstop b) := None)\<rparr>)"
      using st seq ln True
      by (simp add: heap_absorb_def bxy bindA_def del_start_def del_stop_def Let_def)
    with True inv1 [of "remove1 (blen b) (h_lengths s)"] rm fr show ?thesis
      by (simp add: wp_def)
  next
    case False
    have "heap_absorb b s = (Inr (bstart b, bstop b),
       s\<lparr>h_len_to_seq := (h_len_to_seq s)(blen b := if remove1 b seq = [] then None
             else Some (remove1 b seq)),
           h_lengths := h_lengths s,
           h_start_to_block := (h_start_to_block s)((barena b, bstart b) := None),
           h_stop_to_block := (h_stop_to_block s)((barena b, bstop b) := None)\<rparr>)"
      using st seq False
      by (simp add: heap_absorb_def bxy bindA_def del_start_def del_stop_def Let_def)
    with False inv1 [of "h_lengths s"] ln fr show ?thesis
      by (simp add: wp_def)
  qed
qed


lemma free_blocks_insert:
  assumes "index_inv s"
  shows "free_blocks (s\<lparr>h_len_to_seq := (h_len_to_seq s)(blen b \<mapsto>
            (case h_len_to_seq s (blen b) of Some seq \<Rightarrow> seq @ [b] | None \<Rightarrow> [b]))\<rparr>)
         = insert b (free_blocks s)"
proof (rule set_eqI)
  fix c
  show "c \<in> free_blocks (s\<lparr>h_len_to_seq := (h_len_to_seq s)(blen b \<mapsto>
            (case h_len_to_seq s (blen b) of Some seq \<Rightarrow> seq @ [b] | None \<Rightarrow> [b]))\<rparr>)
        \<longleftrightarrow> c \<in> insert b (free_blocks s)"
    by (cases "blen c = blen b") (auto simp: free_blocks_def split: option.split)
qed

lemma heap_register_eq:
  "heap_register b s = s\<lparr>
     h_len_to_seq := (h_len_to_seq s)(blen b \<mapsto>
            (case h_len_to_seq s (blen b) of Some seq \<Rightarrow> seq @ [b] | None \<Rightarrow> [b])),
     h_lengths := (if h_len_to_seq s (blen b) = None then insort_right (blen b) (h_lengths s)
                   else h_lengths s),
     h_start_to_block := (h_start_to_block s)((barena b, bstart b) \<mapsto> b),
     h_stop_to_block := (h_stop_to_block s)((barena b, bstop b) \<mapsto> b)\<rparr>"
  by (cases b) (simp add: heap_register_def Let_def split: option.split)

lemma heap_register_blocks:
  assumes "index_inv s"
  shows "free_blocks (heap_register b s) = insert b (free_blocks s)"
  using free_blocks_insert [OF assms, of b] by (simp add: heap_register_eq)

lemma heap_register_inv:
  assumes inv: "index_inv s"
    and st: "h_start_to_block s (barena b, bstart b) = None"
    and sp: "h_stop_to_block s (barena b, bstop b) = None"
  shows "index_inv (heap_register b s)"
proof -
  let ?t = "heap_register b s"
  note f = heap_register_blocks [OF inv, of b]
  note L = index_lengths [OF inv]
  have C1: "\<not> (c \<in> free_blocks s \<and> barena c = barena b \<and> bstart c = bstart b)" for c
    using index_start_iff [OF inv, of "(barena b, bstart b)" c] st by auto
  have D1: "\<not> (c \<in> free_blocks s \<and> barena c = barena b \<and> bstop c = bstop b)" for c
    using index_stop_iff [OF inv, of "(barena b, bstop b)" c] sp by auto
  have nb: "b \<notin> free_blocks s" using C1 by blast
  show ?thesis
  proof (rule index_invI)
    show "sorted (h_lengths ?t)" using L by (simp add: heap_register_eq sorted_insort_right)
    show "distinct (h_lengths ?t)"
      using L by (auto simp: heap_register_eq domIff intro!: distinct_insort_right)
    show "set (h_lengths ?t) = dom (h_len_to_seq ?t)"
      using L by (auto simp: heap_register_eq split: option.split)
    show "sq \<noteq> [] \<and> distinct sq \<and> (\<forall>c \<in> set sq. blen c = l)"
      if sq: "h_len_to_seq ?t l = Some sq" for l sq
    proof (cases "l = blen b")
      case False
      with sq have "h_len_to_seq s l = Some sq" by (simp add: heap_register_eq)
      then show ?thesis by (rule index_seq [OF inv])
    next
      case True
      show ?thesis
      proof (cases "h_len_to_seq s (blen b)")
        case None
        with sq True show ?thesis by (auto simp: heap_register_eq)
      next
        case (Some seq)
        then have "b \<notin> set seq" using nb by (auto simp: free_blocks_def)
        with sq True Some index_seq [OF inv Some] show ?thesis by (auto simp: heap_register_eq)
      qed
    qed
    show "h_start_to_block ?t k = Some c \<longleftrightarrow> c \<in> free_blocks ?t \<and> k = (barena c, bstart c)" for k c
    proof (cases "k = (barena b, bstart b)")
      case True
      then show ?thesis using C1 [of c] unfolding f by (auto simp: heap_register_eq)
    next
      case False
      then show ?thesis
        using index_start_iff [OF inv, of k c] unfolding f by (auto simp: heap_register_eq)
    qed
    show "h_stop_to_block ?t k = Some c \<longleftrightarrow> c \<in> free_blocks ?t \<and> k = (barena c, bstop c)" for k c
    proof (cases "k = (barena b, bstop b)")
      case True
      then show ?thesis using D1 [of c] unfolding f by (auto simp: heap_register_eq)
    next
      case False
      then show ?thesis
        using index_stop_iff [OF inv, of k c] unfolding f by (auto simp: heap_register_eq)
    qed
  qed
qed

interpretation idx: free_index index_inv free_blocks h_start_to_block h_stop_to_block
  heap_absorb heap_register
proof unfold_locales
  fix s k b
  assume i: "index_inv s"
  show "h_start_to_block s k = Some b \<longleftrightarrow> b \<in> free_blocks s \<and> k = (barena b, bstart b)"
    by (rule index_start_iff [OF i])
  show "h_stop_to_block s k = Some b \<longleftrightarrow> b \<in> free_blocks s \<and> k = (barena b, bstop b)"
    by (rule index_stop_iff [OF i])
  show "free_blocks (heap_register b s) = insert b (free_blocks s)"
    by (rule heap_register_blocks [OF i])
qed (fact heap_absorb_law heap_register_inv)+

text \<open>The best fit: the block taken is of the smallest length that is large enough.\<close>

lemma index_length_iff:
  assumes "index_inv s"
  shows "l \<in> set (h_lengths s) \<longleftrightarrow> (\<exists>b \<in> free_blocks s. blen b = l)"
proof
  assume "l \<in> set (h_lengths s)"
  then obtain seq where seq: "h_len_to_seq s l = Some seq" using index_lengths [OF assms] by auto
  with index_seq [OF assms this] obtain b where b: "b \<in> set seq" "blen b = l"
    by (metis list.set_intros(1) neq_Nil_conv)
  with seq have "b \<in> free_blocks s" by (auto simp: free_blocks_def)
  with b(2) show "\<exists>b \<in> free_blocks s. blen b = l" by blast
next
  assume "\<exists>b \<in> free_blocks s. blen b = l"
  then show "l \<in> set (h_lengths s)" using index_lengths [OF assms] by (auto simp: free_blocks_def)
qed

lemma no_fit:
  assumes "index_inv s" "bisect_left (h_lengths s) sz = length (h_lengths s)" "b \<in> free_blocks s"
  shows "blen b < sz"
  using assms index_length_iff [OF assms(1), of "blen b"] bisect_left_all_less by blast

lemma heap_take_law:
  assumes inv: "index_inv s" and i: "i = bisect_left (h_lengths s) sz" "i < length (h_lengths s)"
  shows "wp (heap_take i) (\<lambda>b t. b \<in> free_blocks s \<and> sz \<le> blen b
      \<and> (\<forall>c \<in> free_blocks s. sz \<le> blen c \<longrightarrow> blen b \<le> blen c)
      \<and> index_inv t \<and> free_blocks t = free_blocks s - {b} \<and> same_frame s t) (\<lambda>_ _. False) s"
proof -
  note L = index_lengths [OF inv]
  let ?l = "h_lengths s ! i"
  have l: "?l \<in> set (h_lengths s)" using i(2) by simp
  then obtain seq where seq: "h_len_to_seq s ?l = Some seq" using L by auto
  note S = index_seq [OF inv seq]
  obtain a x y where b: "last seq = (a, x, y)" by (cases "last seq")
  have bs: "(a, x, y) \<in> set seq" using S b by (metis last_in_set)
  have bl: "y - x = ?l" using S bs by fastforce
  have r1: "remove1 (a, x, y) seq = butlast seq"
    using S b by (metis append_butlast_last_id distinct_butlast not_distinct_conv_prefix
        remove1_append remove1_idem remove1.simps(2) append_Nil2)
  have bf: "(a, x, y) \<in> free_blocks s" using seq bs bl by (auto simp: free_blocks_def)
  have st: "h_start_to_block s (a, x) = Some (a, x, y)" "h_stop_to_block s (a, y) = Some (a, x, y)"
    using bf by (simp_all add: index_start_iff [OF inv] index_stop_iff [OF inv])
  let ?ls = "if butlast seq = [] then del_nth i (h_lengths s) else h_lengths s"
  let ?t = "s\<lparr>h_len_to_seq := (h_len_to_seq s)(?l := if butlast seq = [] then None
             else Some (butlast seq)), h_lengths := ?ls,
           h_start_to_block := (h_start_to_block s)((a, x) := None),
           h_stop_to_block := (h_stop_to_block s)((a, y) := None)\<rparr>"
  have run: "heap_take i s = (Inr (a, x, y), ?t)"
    using seq S b st
    by (cases "butlast seq = []")
      (simp_all add: heap_take_def heap_pop_def bindA_def ret_def del_start_def del_stop_def Let_def)
  have seq': "h_len_to_seq s (blen (a, x, y)) = Some seq" using seq bl by simp
  have inv': "index_inv ?t"
  proof -
    have "set ?ls = (if remove1 (a, x, y) seq = [] then set (h_lengths s) - {blen (a, x, y)}
        else set (h_lengths s))" "sorted ?ls" "distinct ?ls"
      using del_nth_props [OF i(2)] L bl r1 by auto
    from index_inv_remove [OF inv seq' bs this] show ?thesis
      using bl r1 by (cases "butlast seq = []") simp_all
  qed
  have fr': "free_blocks ?t = free_blocks s - {(a, x, y)}"
    using free_blocks_remove [OF inv seq bs] r1 by (cases "butlast seq = []") simp_all
  have fit: "sz \<le> ?l" using bisect_left_hit [of "h_lengths s" sz] i by simp
  have best: "?l \<le> blen c" if "c \<in> free_blocks s" "sz \<le> blen c" for c
  proof -
    have "blen c \<in> set (h_lengths s)" using that(1) index_length_iff [OF inv] by blast
    with that(2) L i show ?thesis using bisect_left_least by blast
  qed
  show ?thesis
    using run bf fit best bl inv' fr' by (simp add: wp_def same_frame_def)
qed


section \<open>Blocks tile the arenas\<close>

definition tiles :: "block set \<Rightarrow> (nat \<times> int) list \<Rightarrow> bool" where
  "tiles B arenas \<longleftrightarrow>
     (\<forall>b \<in> B. \<exists>len. (barena b, len) \<in> set arenas \<and> 0 \<le> bstart b \<and> bstart b < bstop b \<and> bstop b \<le> len)
     \<and> (\<forall>b \<in> B. \<forall>c \<in> B. barena b = barena c \<longrightarrow> bstart b < bstop c \<longrightarrow> bstart c < bstop b \<longrightarrow> b = c)
     \<and> (\<forall>(a, len) \<in> set arenas. \<forall>x. 0 \<le> x \<longrightarrow> x < len \<longrightarrow>
          (\<exists>b \<in> B. barena b = a \<and> bstart b \<le> x \<and> x < bstop b))"

definition no_touch :: "block set \<Rightarrow> bool" where
  "no_touch F \<longleftrightarrow> (\<forall>b \<in> F. \<forall>c \<in> F. barena b = barena c \<longrightarrow> bstop b \<noteq> bstart c)"

lemma tiles_bounds: "tiles B ar \<Longrightarrow> b \<in> B \<Longrightarrow>
    \<exists>len. (barena b, len) \<in> set ar \<and> 0 \<le> bstart b \<and> bstart b < bstop b \<and> bstop b \<le> len"
  unfolding tiles_def by blast

lemma tiles_pos: "tiles B ar \<Longrightarrow> b \<in> B \<Longrightarrow> bstart b < bstop b"
  using tiles_bounds by blast

lemma tiles_disj: "tiles B ar \<Longrightarrow> b \<in> B \<Longrightarrow> c \<in> B \<Longrightarrow> barena b = barena c \<Longrightarrow>
    bstart b < bstop c \<Longrightarrow> bstart c < bstop b \<Longrightarrow> b = c"
  unfolding tiles_def by blast

lemma tiles_cover: "tiles B ar \<Longrightarrow> (a, len) \<in> set ar \<Longrightarrow> 0 \<le> x \<Longrightarrow> x < len \<Longrightarrow>
    \<exists>b \<in> B. barena b = a \<and> bstart b \<le> x \<and> x < bstop b"
  unfolding tiles_def by blast

lemma tiles_same_start: "tiles B ar \<Longrightarrow> b \<in> B \<Longrightarrow> c \<in> B \<Longrightarrow> barena b = barena c \<Longrightarrow>
    bstart b = bstart c \<Longrightarrow> b = c"
  using tiles_disj [of B ar b c] tiles_pos [of B ar b] tiles_pos [of B ar c] by simp

lemma tiles_same_stop: "tiles B ar \<Longrightarrow> b \<in> B \<Longrightarrow> c \<in> B \<Longrightarrow> barena b = barena c \<Longrightarrow>
    bstop b = bstop c \<Longrightarrow> b = c"
  using tiles_disj [of B ar b c] tiles_pos [of B ar b] tiles_pos [of B ar c] by simp

text \<open>Cutting one block in two, joining two that touch, adding an arena.\<close>

lemma tiles_split:
  assumes T: "tiles B ar" and b: "(a, x, z) \<in> B" and y: "x < y" "y < z"
  shows "tiles (insert (a, x, y) (insert (a, y, z) (B - {(a, x, z)}))) ar" (is "tiles ?C ar")
  unfolding tiles_def
proof (intro conjI ballI allI impI)
  fix c assume "c \<in> ?C"
  then show "\<exists>len. (barena c, len) \<in> set ar \<and> 0 \<le> bstart c \<and> bstart c < bstop c \<and> bstop c \<le> len"
    using tiles_bounds [OF T b] y tiles_bounds [OF T, of c] by auto
next
  fix c d
  assume c: "c \<in> ?C" and d: "d \<in> ?C"
    and o: "barena c = barena d" "bstart c < bstop d" "bstart d < bstop c"
  have "\<not> (e \<in> B - {(a, x, z)} \<and> barena e = a \<and> bstart e < z \<and> x < bstop e)" for e
    using tiles_disj [OF T b, of e] by auto
  note E = this [of c] this [of d]
  show "c = d" using c d o y E tiles_disj [OF T, of c d] by auto
next
  fix p and u :: int
  assume p: "p \<in> set ar"
  obtain a' len where pp: "p = (a', len)" by (cases p)
  show "case p of (a', len) \<Rightarrow> \<forall>u. 0 \<le> u \<longrightarrow> u < len \<longrightarrow>
      (\<exists>e \<in> ?C. barena e = a' \<and> bstart e \<le> u \<and> u < bstop e)"
    unfolding pp prod.case
  proof (intro allI impI)
    fix u :: int assume "0 \<le> u" "u < len"
    then obtain e where e: "e \<in> B" "barena e = a'" "bstart e \<le> u" "u < bstop e"
      using tiles_cover [OF T p [unfolded pp]] by blast
    show "\<exists>e \<in> ?C. barena e = a' \<and> bstart e \<le> u \<and> u < bstop e"
    proof (cases "e = (a, x, z)")
      case True
      then show ?thesis using e by (cases "u < y") auto
    next
      case False
      then show ?thesis using e by blast
    qed
  qed
qed

lemma tiles_join:
  assumes T: "tiles B ar" and b: "(a, x, y) \<in> B" and c: "(a, y, z) \<in> B"
  shows "tiles (insert (a, x, z) (B - {(a, x, y), (a, y, z)})) ar" (is "tiles ?C ar")
proof -
  have xyz: "x < y" "y < z" using tiles_pos [OF T b] tiles_pos [OF T c] by auto
  have E: "\<not> (e \<in> B - {(a, x, y), (a, y, z)} \<and> barena e = a \<and> bstart e < z \<and> x < bstop e)" for e
  proof
    assume e: "e \<in> B - {(a, x, y), (a, y, z)} \<and> barena e = a \<and> bstart e < z \<and> x < bstop e"
    then have "\<not> bstart e < y" using tiles_disj [OF T b, of e] by auto
    moreover have "\<not> y < bstop e" using e tiles_disj [OF T c, of e] by auto
    ultimately show False using e tiles_pos [OF T, of e] by auto
  qed
  show ?thesis
    unfolding tiles_def
  proof (intro conjI ballI allI impI)
    fix d assume "d \<in> ?C"
    then show "\<exists>len. (barena d, len) \<in> set ar \<and> 0 \<le> bstart d \<and> bstart d < bstop d \<and> bstop d \<le> len"
      using tiles_bounds [OF T b] tiles_bounds [OF T c] xyz tiles_bounds [OF T, of d]
        tiles_cover [OF T] by (auto intro: order_trans)
  next
    fix d e
    assume "d \<in> ?C" "e \<in> ?C"
      and "barena d = barena e" "bstart d < bstop e" "bstart e < bstop d"
    then show "d = e" using E [of d] E [of e] tiles_disj [OF T, of d e] by auto
  next
    fix p assume p: "p \<in> set ar"
    obtain a' len where pp: "p = (a', len)" by (cases p)
    show "case p of (a', len) \<Rightarrow> \<forall>u. 0 \<le> u \<longrightarrow> u < len \<longrightarrow>
        (\<exists>e \<in> ?C. barena e = a' \<and> bstart e \<le> u \<and> u < bstop e)"
      unfolding pp prod.case
    proof (intro allI impI)
      fix u :: int assume "0 \<le> u" "u < len"
      then obtain e where e: "e \<in> B" "barena e = a'" "bstart e \<le> u" "u < bstop e"
        using tiles_cover [OF T p [unfolded pp]] by blast
      show "\<exists>e \<in> ?C. barena e = a' \<and> bstart e \<le> u \<and> u < bstop e"
      proof (cases "e = (a, x, y) \<or> e = (a, y, z)")
        case True
        then show ?thesis using e xyz by auto
      next
        case False
        then show ?thesis using e by blast
      qed
    qed
  qed
qed


lemma tiles_new_arena:
  assumes T: "tiles B ar" and a: "a \<notin> fst ` set ar" and n: "0 < n"
  shows "tiles (insert (a, 0, n) B) (ar @ [(a, n)])"
proof -
  have nb: "b \<in> B \<Longrightarrow> barena b \<noteq> a" for b using tiles_bounds [OF T, of b] a by force
  show ?thesis
    unfolding tiles_def
  proof (intro conjI ballI allI impI)
    fix b assume "b \<in> insert (a, 0, n) B"
    then show "\<exists>len. (barena b, len) \<in> set (ar @ [(a, n)]) \<and> 0 \<le> bstart b
        \<and> bstart b < bstop b \<and> bstop b \<le> len"
      using n tiles_bounds [OF T, of b] by auto
  next
    fix b c assume "b \<in> insert (a, 0, n) B" "c \<in> insert (a, 0, n) B"
      "barena b = barena c" "bstart b < bstop c" "bstart c < bstop b"
    then show "b = c" using tiles_disj [OF T, of b c] nb [of b] nb [of c] by (metis fst_conv insert_iff)
  next
    fix p assume p: "p \<in> set (ar @ [(a, n)])"
    obtain a' len where pp: "p = (a', len)" by (cases p)
    show "case p of (a', len) \<Rightarrow> \<forall>u. 0 \<le> u \<longrightarrow> u < len \<longrightarrow>
        (\<exists>e \<in> insert (a, 0, n) B. barena e = a' \<and> bstart e \<le> u \<and> u < bstop e)"
      using p tiles_cover [OF T, of a' len] unfolding pp by fastforce
  qed
qed

text \<open>
  When every block of an arena is free and no two touch, the arena is one block: nothing is
  lost to fragmentation once everything has been freed.
\<close>

lemma tiles_no_touch_whole:
  assumes T: "tiles F ar" and N: "no_touch F" and a: "(a, n) \<in> set ar" "0 < n"
    and u: "\<And>m. (a, m) \<in> set ar \<Longrightarrow> m = n"
  shows "(a, 0, n) \<in> F"
proof -
  obtain b where b: "b \<in> F" "barena b = a" "bstart b \<le> 0" "0 < bstop b"
    using tiles_cover [OF T a(1), of 0] a(2) by auto
  have bb: "bstart b = 0" "bstop b \<le> n"
    using tiles_bounds [OF T b(1)] b u by auto
  have "bstop b = n"
  proof (rule ccontr)
    assume "bstop b \<noteq> n"
    with bb(2) have lt: "bstop b < n" by simp
    then obtain c where c: "c \<in> F" "barena c = a" "bstart c \<le> bstop b" "bstop b < bstop c"
      using tiles_cover [OF T a(1), of "bstop b"] b(4) by auto
    show False
    proof (cases "bstart c = bstop b")
      case True
      then show False using N b c unfolding no_touch_def by metis
    next
      case False
      then have "b = c" using tiles_disj [OF T b(1) c(1)] b c bb tiles_pos [OF T b(1)] by auto
      then show False using c by simp
    qed
  qed
  then have "b = (a, 0, n)" using b bb by (cases b) simp
  then show ?thesis using b(1) by simp
qed

section \<open>The effect of _free\<close>

text \<open>
  \<open>hole s A b\<close>: the block \<open>b\<close> is neither free nor in \<open>A\<close>, and with it the free blocks and \<open>A\<close>
  tile the arenas: the state in which \<open>_free\<close> is called, \<open>A\<close> being the allocated blocks and
  the one \<open>malloc\<close> is about to hand out. \<open>tidy s A\<close> is the same with no hole.
\<close>

definition hole :: "heap \<Rightarrow> block set \<Rightarrow> block \<Rightarrow> bool" where
  "hole s A b \<longleftrightarrow> index_inv s \<and> no_touch (free_blocks s) \<and> free_blocks s \<inter> A = {}
     \<and> b \<notin> free_blocks s \<and> b \<notin> A
     \<and> tiles (insert b (free_blocks s \<union> A)) (h_arenas s)"

definition tidy :: "heap \<Rightarrow> block set \<Rightarrow> bool" where
  "tidy s A \<longleftrightarrow> index_inv s \<and> no_touch (free_blocks s) \<and> free_blocks s \<inter> A = {}
     \<and> tiles (free_blocks s \<union> A) (h_arenas s)"

text \<open>The two neighbours found and the block they are merged into.\<close>

definition merged :: "heap \<Rightarrow> block \<Rightarrow> block \<times> block set" where
  "merged s b = (case b of (a, x, y) \<Rightarrow>
     ((a, (case h_stop_to_block s (a, x) of None \<Rightarrow> x | Some p \<Rightarrow> bstart p),
          (case h_start_to_block s (a, y) of None \<Rightarrow> y | Some n \<Rightarrow> bstop n)),
      set_option (h_stop_to_block s (a, x)) \<union> set_option (h_start_to_block s (a, y))))"

lemma heap_free_run:
  assumes h: "hole s A b"
  shows "wp (heap_free b) (\<lambda>_ t. free_blocks t = insert (fst (merged s b)) (free_blocks s - snd (merged s b))
            \<and> index_inv t) (\<lambda>_ _. False) s"
proof -
  obtain a x y where b: "b = (a, x, y)" by (cases b)
  have inv: "index_inv s" and T: "tiles (insert b (free_blocks s \<union> A)) (h_arenas s)"
    and nb: "b \<notin> free_blocks s" using h by (simp_all add: hole_def)
  have xy: "x < y" using tiles_pos [OF T, of b] b by simp
  let ?B = "insert b (free_blocks s \<union> A)"
  have reg: "index_inv (heap_register (a, st', e') u)"
    if t: "index_inv t" "case h_stop_to_block s (a, x) of None \<Rightarrow> st' = x \<and> free_blocks t = free_blocks s
             | Some pb \<Rightarrow> st' = bstart pb \<and> free_blocks t = free_blocks s - {pb}"
      and u: "index_inv u" "case h_start_to_block t (a, y) of None \<Rightarrow> e' = y \<and> free_blocks u = free_blocks t
             | Some nb \<Rightarrow> e' = bstop nb \<and> free_blocks u = free_blocks t - {nb}"
    for st' e' t u
  proof -
    have sub: "free_blocks t \<subseteq> free_blocks s" "free_blocks u \<subseteq> free_blocks t"
      using t(2) u(2) by (auto split: option.splits)
    have st': "\<not> (barena c = a \<and> bstart c = st')" if c: "c \<in> free_blocks u" for c
    proof (cases "h_stop_to_block s (a, x)")
      case None
      then have "st' = x" using t(2) by simp
      moreover have "c \<in> ?B" "b \<in> ?B" "c \<noteq> b" using c sub nb by auto
      ultimately show ?thesis using tiles_same_start [OF T, of c b] b by auto
    next
      case (Some p)
      have p: "p \<in> free_blocks s" "barena p = a"
        using index_stop_iff [OF inv, of "(a, x)" p] Some by auto
      have t2: "st' = bstart p" "free_blocks t = free_blocks s - {p}" using t(2) Some by simp_all
      then have "c \<in> ?B" "p \<in> ?B" "c \<noteq> p" using c sub p by auto
      note this t2(1) p(2)
      then show ?thesis using tiles_same_start [OF T, of c p] by auto
    qed
    have e': "\<not> (barena c = a \<and> bstop c = e')" if c: "c \<in> free_blocks u" for c
    proof (cases "h_start_to_block t (a, y)")
      case None
      then have "e' = y" using u(2) by simp
      moreover have "c \<in> ?B" "b \<in> ?B" "c \<noteq> b" using c sub nb by auto
      ultimately show ?thesis using tiles_same_stop [OF T, of c b] b by auto
    next
      case (Some n)
      have n: "n \<in> free_blocks t" "barena n = a"
        using index_start_iff [OF t(1), of "(a, y)" n] Some by auto
      have u2: "e' = bstop n" "free_blocks u = free_blocks t - {n}" using u(2) Some by simp_all
      then have "c \<in> ?B" "n \<in> ?B" "c \<noteq> n" using c sub n by auto
      note this u2(1) n(2)
      then show ?thesis using tiles_same_stop [OF T, of c n] by auto
    qed
    have "h_start_to_block u (a, st') = None"
      unfolding idx.at_start_None [OF u(1)] using st' by blast
    moreover have "h_stop_to_block u (a, e') = None"
      unfolding idx.at_stop_None [OF u(1)] using e' by blast
    ultimately show ?thesis by (intro heap_register_inv [OF u(1)]) simp_all
  qed
  have same: "h_start_to_block t (a, y) = h_start_to_block s (a, y)"
    if t: "index_inv t" "case h_stop_to_block s (a, x) of None \<Rightarrow> st' = x \<and> free_blocks t = free_blocks s
             | Some pb \<Rightarrow> st' = bstart pb \<and> free_blocks t = free_blocks s - {pb}"
    for st' t
  proof -
    have "h_start_to_block t (a, y) = Some n \<longleftrightarrow> h_start_to_block s (a, y) = Some n" for n
    proof (cases "h_stop_to_block s (a, x)")
      case None
      then show ?thesis using t by (simp add: index_start_iff [OF t(1)] index_start_iff [OF inv])
    next
      case (Some p)
      then have "p \<in> free_blocks s" "barena p = a" "bstop p = x"
        using index_stop_iff [OF inv] by auto
      then have "bstart p < y" using tiles_pos [OF T, of p] xy by auto
      then show ?thesis using t Some
        by (auto simp: index_start_iff [OF t(1)] index_start_iff [OF inv])
    qed
    then show ?thesis by (metis not_None_eq)
  qed
  show ?thesis
    unfolding heap_free_def b prod.case
    apply (subst wp_bind, rule wp_mono [OF idx.absorb_stop [OF inv]])
     apply (elim conjE)
     apply (subst wp_bind, rule wp_mono [OF idx.absorb_start], assumption)
      apply (elim conjE)
      apply (simp add: wp_modify reg heap_register_blocks)
      apply (frule (1) same)
      apply (auto simp: merged_def split: option.splits)
    done
qed


text \<open>The same on sets: merging to the left, merging to the right, and filing the result.\<close>

definition hole_sets :: "block set \<Rightarrow> block set \<Rightarrow> (nat \<times> int) list \<Rightarrow> block \<Rightarrow> bool" where
  "hole_sets F A ar b \<longleftrightarrow> no_touch F \<and> F \<inter> A = {} \<and> b \<notin> F \<and> b \<notin> A \<and> tiles (insert b (F \<union> A)) ar"

lemma no_touch_mono: "no_touch F \<Longrightarrow> G \<subseteq> F \<Longrightarrow> no_touch G"
  unfolding no_touch_def by blast

lemma hole_join_left:
  assumes h: "hole_sets F A ar (a, x, y)" and p: "(a, x0, x) \<in> F"
  shows "hole_sets (F - {(a, x0, x)}) A ar (a, x0, y)"
    "\<forall>c \<in> F - {(a, x0, x)}. barena c = a \<longrightarrow> bstop c \<noteq> x0"
proof -
  let ?B = "insert (a, x, y) (F \<union> A)"
  have T: "tiles ?B ar" and d: "F \<inter> A = {}" "(a, x, y) \<notin> F" "(a, x, y) \<notin> A" "no_touch F"
    using h by (auto simp: hole_sets_def)
  have len: "x0 < x" "x < y" using tiles_pos [OF T, of "(a, x0, x)"] tiles_pos [OF T, of "(a, x, y)"] p by auto
  have "tiles (insert (a, x0, y) (?B - {(a, x0, x), (a, x, y)})) ar"
    by (rule tiles_join [OF T]) (use p in auto)
  moreover have "?B - {(a, x0, x), (a, x, y)} = (F - {(a, x0, x)}) \<union> A"
    using d p by auto
  moreover have "(a, x0, y) \<notin> F \<union> A"
    using tiles_disj [OF T, of "(a, x0, y)" "(a, x, y)"] len by auto
  ultimately show "hole_sets (F - {(a, x0, x)}) A ar (a, x0, y)"
    using d no_touch_mono [OF d(4)] by (auto simp: hole_sets_def)
  show "\<forall>c \<in> F - {(a, x0, x)}. barena c = a \<longrightarrow> bstop c \<noteq> x0"
    using d(4) p unfolding no_touch_def by force
qed

lemma hole_join_right:
  assumes h: "hole_sets F A ar (a, x, y)" and n: "(a, y, z) \<in> F"
  shows "hole_sets (F - {(a, y, z)}) A ar (a, x, z)"
    "\<forall>c \<in> F - {(a, y, z)}. barena c = a \<longrightarrow> bstart c \<noteq> z"
proof -
  let ?B = "insert (a, x, y) (F \<union> A)"
  have T: "tiles ?B ar" and d: "F \<inter> A = {}" "(a, x, y) \<notin> F" "(a, x, y) \<notin> A" "no_touch F"
    using h by (auto simp: hole_sets_def)
  have len: "x < y" "y < z" using tiles_pos [OF T, of "(a, y, z)"] tiles_pos [OF T, of "(a, x, y)"] n by auto
  have "tiles (insert (a, x, z) (?B - {(a, x, y), (a, y, z)})) ar"
    by (rule tiles_join [OF T]) (use n in auto)
  moreover have "?B - {(a, x, y), (a, y, z)} = (F - {(a, y, z)}) \<union> A"
    using d n by auto
  moreover have "(a, x, z) \<notin> F \<union> A"
    using tiles_disj [OF T, of "(a, x, z)" "(a, x, y)"] len by auto
  ultimately show "hole_sets (F - {(a, y, z)}) A ar (a, x, z)"
    using d no_touch_mono [OF d(4)] by (auto simp: hole_sets_def)
  show "\<forall>c \<in> F - {(a, y, z)}. barena c = a \<longrightarrow> bstart c \<noteq> z"
    using d(4) n unfolding no_touch_def by force
qed

lemma hole_file:
  assumes h: "hole_sets F A ar (a, x, y)"
    and l: "\<forall>c \<in> F. barena c = a \<longrightarrow> bstop c \<noteq> x"
    and r: "\<forall>c \<in> F. barena c = a \<longrightarrow> bstart c \<noteq> y"
  shows "no_touch (insert (a, x, y) F) \<and> insert (a, x, y) F \<inter> A = {}
     \<and> tiles (insert (a, x, y) F \<union> A) ar"
proof -
  have "x < y" using h tiles_pos [of "insert (a, x, y) (F \<union> A)" ar "(a, x, y)"]
    by (auto simp: hole_sets_def)
  then show ?thesis using assms by (auto simp: hole_sets_def no_touch_def)
qed

lemma hole_iff: "hole s A b \<longleftrightarrow> index_inv s \<and> hole_sets (free_blocks s) (A) (h_arenas s) b"
  by (auto simp: hole_def hole_sets_def)

lemma merged_tidy:
  assumes h: "hole s A b" and M: "merged s b = (m, M)"
  shows "no_touch (insert m (free_blocks s - M)) \<and> insert m (free_blocks s - M) \<inter> A = {}
     \<and> tiles (insert m (free_blocks s - M) \<union> A) (h_arenas s)"
proof -
  let ?F = "free_blocks s" and ?A = A and ?ar = "h_arenas s"
  obtain a x y where b: "b = (a, x, y)" by (cases b)
  have inv: "index_inv s" and H: "hole_sets ?F ?A ?ar (a, x, y)" using h b by (auto simp: hole_iff)
  define x0 where "x0 = (case h_stop_to_block s (a, x) of None \<Rightarrow> x | Some p \<Rightarrow> bstart p)"
  define L where "L = set_option (h_stop_to_block s (a, x))"
  have left: "hole_sets (?F - L) ?A ?ar (a, x0, y) \<and> (\<forall>c \<in> ?F - L. barena c = a \<longrightarrow> bstop c \<noteq> x0)"
  proof (cases "h_stop_to_block s (a, x)")
    case None
    then show ?thesis using H idx.at_stop_None [OF inv, of "(a, x)"] by (auto simp: x0_def L_def)
  next
    case (Some p)
    then have "p \<in> ?F" "p = (a, bstart p, x)" using index_stop_iff [OF inv, of "(a, x)" p] by auto
    then show ?thesis using Some hole_join_left [OF H, of "bstart p"] by (auto simp: x0_def L_def)
  qed
  have ns: "c \<in> L \<Longrightarrow> \<not> (barena c = a \<and> bstart c = y)" for c
  proof -
    assume "c \<in> L"
    then have "c \<in> ?F" "bstop c = x" using index_stop_iff [OF inv, of "(a, x)" c] by (auto simp: L_def)
    moreover have T: "tiles (insert (a, x, y) (?F \<union> ?A)) ?ar" using H by (simp add: hole_sets_def)
    ultimately show "\<not> (barena c = a \<and> bstart c = y)"
      using tiles_pos [OF T, of c] tiles_pos [OF T, of "(a, x, y)"] by auto
  qed
  show ?thesis
  proof (cases "h_start_to_block s (a, y)")
    case None
    then have "m = (a, x0, y)" "M = L" using M by (auto simp: merged_def b x0_def L_def)
    then show ?thesis
      using left None idx.at_start_None [OF inv, of "(a, y)"]
      by (intro hole_file [of "?F - L" ?A ?ar a x0 y, folded \<open>m = (a, x0, y)\<close> \<open>M = L\<close>]) auto
  next
    case (Some n)
    then have n: "n \<in> ?F" "n = (a, y, bstop n)" using index_start_iff [OF inv, of "(a, y)" n] by auto
    have nL: "n \<notin> L" using ns [of n] n(2) by (metis fst_conv snd_conv)
    have mM: "m = (a, x0, bstop n)" "M = insert n L"
      using M Some by (auto simp: merged_def b x0_def L_def)
    have "(a, y, bstop n) \<in> ?F - L" using n nL by simp
    note R = hole_join_right [OF conjunct1 [OF left] this]
    have eq: "?F - L - {n} = ?F - M" using mM by auto
    show ?thesis
      using hole_file [of "?F - M" ?A ?ar a x0 "bstop n"] R left n(2) eq mM by force
  qed
qed

lemma heap_free_tidy:
  assumes "hole s A b"
  shows "wp (heap_free b) (\<lambda>_ t. tidy t A \<and> same_frame s t) (\<lambda>_ _. False) s"
proof -
  obtain m M where M: "merged s b = (m, M)" by (cases "merged s b")
  note T = merged_tidy [OF assms M]
  have "wp (heap_free b) (\<lambda>_ t. (free_blocks t = insert m (free_blocks s - M) \<and> index_inv t)
      \<and> same_frame s t) (\<lambda>_ t. False \<and> same_frame s t) s"
    using wp_conj [OF heap_free_run [OF assms] same_frame_free] M by simp
  then show ?thesis
  proof (rule wp_mono)
    fix u t
    assume "(free_blocks t = insert m (free_blocks s - M) \<and> index_inv t) \<and> same_frame s t"
    then show "tidy t A \<and> same_frame s t" using T by (simp add: tidy_def same_frame_def)
  qed simp
qed


section \<open>The allocator's invariant\<close>

definition aligned :: "block set \<Rightarrow> bool" where
  "aligned B \<longleftrightarrow> (\<forall>b \<in> B. alignment dvd bstart b \<and> alignment dvd bstop b)"

definition heap_inv :: "heap \<Rightarrow> bool" where
  "heap_inv s \<longleftrightarrow> tidy s (h_allocated s) \<and> aligned (free_blocks s \<union> h_allocated s)
     \<and> distinct (map fst (h_arenas s)) \<and> (\<forall>(a, n) \<in> set (h_arenas s). a < h_next s \<and> 0 < n)
     \<and> 0 < h_size s \<and> distinct (h_pending s) \<and> set (h_pending s) \<subseteq> h_allocated s"

lemma and_not_mask: "(x::int) AND NOT (2 ^ k - 1) = 2 ^ k * (x div 2 ^ k)"
proof -
  have "x AND NOT (mask k) = push_bit k (drop_bit k x)"
    by (rule bit_eqI) (auto simp: bit_simps)
  then show ?thesis by (simp add: mask_eq_exp_minus_1 push_bit_eq_mult drop_bit_eq_div)
qed

lemma roundup_eq: "roundup n (2 ^ k) = 2 ^ k * ((n + 2 ^ k - 1) div 2 ^ k)"
  unfolding roundup_def Let_def and_not_mask by (simp add: algebra_simps)

lemma roundup_bounds:
  "2 ^ k dvd roundup n (2 ^ k)" "n \<le> roundup n (2 ^ k)" "roundup n (2 ^ k) < n + 2 ^ k"
proof -
  let ?m = "n + 2 ^ k - 1"
  have p: "(0::int) < 2 ^ k" by simp
  have "?m = 2 ^ k * (?m div 2 ^ k) + ?m mod 2 ^ k" by simp
  moreover have "0 \<le> ?m mod 2 ^ k" "?m mod 2 ^ k < 2 ^ k" using p by simp_all
  ultimately show "n \<le> roundup n (2 ^ k)" "roundup n (2 ^ k) < n + 2 ^ k"
    unfolding roundup_eq by linarith+
  show "2 ^ k dvd roundup n (2 ^ k)" by (simp add: roundup_eq)
qed

lemma roundup_alignment:
  "alignment dvd roundup n alignment" "n \<le> roundup n alignment" "roundup n alignment < n + alignment"
  using roundup_bounds [where k = 3 and n = n] by (simp_all add: alignment_def)

lemma aligned_merged:
  assumes "index_inv s" "aligned (insert b (free_blocks s))"
  shows "aligned {fst (merged s b)}"
proof -
  obtain a x y where b: "b = (a, x, y)" by (cases b)
  have "p \<in> free_blocks s" if "h_stop_to_block s (a, x) = Some p" for p
    using that index_stop_iff [OF assms(1)] by blast
  moreover have "n \<in> free_blocks s" if "h_start_to_block s (a, y) = Some n" for n
    using that index_start_iff [OF assms(1)] by blast
  ultimately show ?thesis
    using assms(2) by (auto simp: b merged_def aligned_def split: option.split)
qed

text \<open>\<open>_free\<close> of a block not in the index keeps everything, whatever the other blocks are.\<close>

lemma heap_free_ok:
  assumes h: "hole s A b" and al: "aligned (insert b (free_blocks s \<union> A))"
  shows "wp (heap_free b) (\<lambda>_ t. tidy t A \<and> aligned (free_blocks t \<union> A) \<and> same_frame s t)
    (\<lambda>_ _. False) s"
proof -
  have "index_inv s" using h by (simp add: hole_def)
  with al have m: "aligned {fst (merged s b)}"
    by (intro aligned_merged) (auto simp: aligned_def)
  show ?thesis
    by (rule wp_mono [OF wp_conj [OF heap_free_run [OF h] heap_free_tidy [OF h]]])
      (use m al in \<open>auto simp: aligned_def\<close>)
qed

lemma hole_alloc: "hole s A b \<Longrightarrow> tidy s (insert b A)"
  by (simp add: hole_def tidy_def insert_commute)

lemma tidy_remove: "tidy s A \<Longrightarrow> b \<in> A \<Longrightarrow> hole s (A - {b}) b"
  by (auto simp: hole_def tidy_def insert_absorb Un_insert_right [symmetric] simp del: Un_insert_right)

lemma tidy_upd [simp]:
  "tidy (s\<lparr>h_allocated := al\<rparr>) A = tidy s A" "tidy (s\<lparr>h_pending := ps\<rparr>) A = tidy s A"
  "tidy (s\<lparr>h_lock := l\<rparr>) A = tidy s A"
  by (simp_all add: tidy_def)

lemma hole_upd [simp]:
  "hole (s\<lparr>h_allocated := al\<rparr>) A b = hole s A b" "hole (s\<lparr>h_pending := ps\<rparr>) A b = hole s A b"
  "hole (s\<lparr>h_lock := l\<rparr>) A b = hole s A b"
  by (simp_all add: hole_def)

text \<open>Freeing an allocated block that is not pending.\<close>

lemma heap_free_inv:
  assumes inv: "heap_inv s" and b: "b \<in> h_allocated s" "b \<notin> set (h_pending s)"
  shows "wp (heap_free b)
     (\<lambda>_ t. heap_inv t \<and> h_allocated t = h_allocated s - {b} \<and> h_pending t = h_pending s
        \<and> h_lock t = h_lock s \<and> h_lastpid t = h_lastpid s \<and> h_arenas t = h_arenas s)
     (\<lambda>_ _. False) (s\<lparr>h_allocated := h_allocated s - {b}\<rparr>)"
proof -
  have h: "hole (s\<lparr>h_allocated := h_allocated s - {b}\<rparr>) (h_allocated s - {b}) b"
    using inv b by (simp add: heap_inv_def tidy_remove)
  have al: "aligned (insert b (free_blocks (s\<lparr>h_allocated := h_allocated s - {b}\<rparr>) \<union> (h_allocated s - {b})))"
    using inv b by (auto simp: heap_inv_def aligned_def)
  show ?thesis
    by (rule wp_mono [OF heap_free_ok [OF h al]])
      (use inv b in \<open>auto simp: heap_inv_def same_frame_def\<close>)
qed


text \<open>
  \<open>kept s t\<close>: what \<open>malloc\<close> and \<open>free\<close> leave alone besides the blocks; the lock and the
  process are only changed by entering and leaving.
\<close>

definition kept :: "heap \<Rightarrow> heap \<Rightarrow> bool" where
  "kept s t \<longleftrightarrow> h_lock t = h_lock s \<and> h_lastpid t = h_lastpid s"

lemma kept_simps [simp]: "kept s s" "kept s (t\<lparr>h_allocated := al\<rparr>) = kept s t"
  "kept s (t\<lparr>h_pending := ps\<rparr>) = kept s t"
  by (simp_all add: kept_def)

lemma kept_trans: "kept s t \<Longrightarrow> kept t u \<Longrightarrow> kept s u"
  by (simp add: kept_def)

lemma same_frame_kept: "same_frame s t \<Longrightarrow> kept s t"
  by (simp add: same_frame_def kept_def)

text \<open>\<open>_free_pending_blocks\<close> frees exactly the pending blocks, and returns.\<close>

lemma free_pending_inv:
  "heap_inv s \<Longrightarrow> wp free_pending_blocks
     (\<lambda>_ t. heap_inv t \<and> h_pending t = [] \<and> h_allocated t = h_allocated s - set (h_pending s)
        \<and> kept s t \<and> h_arenas t = h_arenas s) (\<lambda>_ _. False) s"
proof (induction s rule: free_pending_blocks.induct)
  case (1 s)
  show ?case
  proof (cases "h_pending s = []")
    case True
    with "1.prems" show ?thesis by (simp add: wp_def free_pending_blocks.simps [of s])
  next
    case False
    let ?b = "last (h_pending s)" and ?s1 = "s\<lparr>h_pending := butlast (h_pending s)\<rparr>"
    have p: "h_pending s = butlast (h_pending s) @ [?b]" using False by simp
    have d: "distinct (h_pending s)" "set (h_pending s) \<subseteq> h_allocated s"
      using "1.prems" by (simp_all add: heap_inv_def)
    have nb: "?b \<notin> set (butlast (h_pending s))" using d(1) by (subst (asm) p) simp
    have inb: "?b \<in> h_allocated s" using d(2) False by (metis last_in_set subsetD)
    have set: "set (h_pending s) = insert ?b (set (butlast (h_pending s)))" by (subst p) simp
    have i1: "heap_inv ?s1"
      using "1.prems" d by (auto simp: heap_inv_def distinct_butlast dest: in_set_butlastD)
    from heap_free_inv [OF i1, of ?b] inb nb
    obtain s2 where run: "heap_free ?b (?s1\<lparr>h_allocated := h_allocated ?s1 - {?b}\<rparr>) = (Inr (), s2)"
      and s2: "heap_inv s2" "h_allocated s2 = h_allocated s - {?b}"
        "h_pending s2 = butlast (h_pending s)" "kept s s2" "h_arenas s2 = h_arenas s"
      by (auto simp: wp_total kept_def)
    have step: "free_pending_blocks s = free_pending_blocks s2"
      using False inb run by (simp add: free_pending_blocks.simps [of s] Let_def)
    have IH: "wp free_pending_blocks
     (\<lambda>_ t. heap_inv t \<and> h_pending t = [] \<and> h_allocated t = h_allocated s2 - set (h_pending s2)
        \<and> kept s2 t \<and> h_arenas t = h_arenas s2) (\<lambda>_ _. False) s2"
      using False inb by (intro "1.IH" [OF False refl refl _ run [symmetric]] s2(1)) simp_all
    have "h_allocated s - {?b} - set (butlast (h_pending s)) = h_allocated s - set (h_pending s)"
      unfolding set by blast
    then show ?thesis
      using IH s2 step by (auto simp: wp_total intro: kept_trans)
  qed
qed

lemma heap_new_arena_ok:
  assumes inv: "heap_inv s" and k: "3 \<le> k"
    and big: "\<forall>b \<in> free_blocks s. blen b < sz"
  shows "wp (heap_new_arena (2 ^ k) mk_arena sz)
     (\<lambda>b t. hole t (h_allocated s) b \<and> aligned (insert b (free_blocks t \<union> h_allocated s))
        \<and> sz \<le> blen b \<and> kept s t \<and> h_pending t = h_pending s \<and> h_allocated t = h_allocated s
        \<and> distinct (map fst (h_arenas t)) \<and> (\<forall>(a, n) \<in> set (h_arenas t). a < h_next t \<and> 0 < n)
        \<and> 0 < h_size t)
     (\<lambda>e t. mk_arena (roundup (max (h_size s) sz) (2 ^ k)) = Some e \<and> kept s t
        \<and> t = s\<lparr>h_size := h_size s * 2\<rparr> \<and> heap_inv t) s"
proof -
  let ?n = "roundup (max (h_size s) sz) (2 ^ k)"
  have sz: "0 < h_size s" using inv by (simp add: heap_inv_def)
  have n: "max (h_size s) sz \<le> ?n" "(2::int) ^ k dvd ?n" by (rule roundup_bounds)+
  have "alignment dvd (2::int) ^ k"
    using k le_imp_power_dvd [of 3 k "2::int"] by (simp add: alignment_def)
  then have al: "alignment dvd ?n" using n(2) by (rule dvd_trans)
  have ar: "distinct (map fst (h_arenas s))" "\<forall>(a, m) \<in> set (h_arenas s). a < h_next s \<and> 0 < m"
    and t: "tidy s (h_allocated s)" "aligned (free_blocks s \<union> h_allocated s)"
    using inv by (simp_all add: heap_inv_def)
  have fresh: "h_next s \<notin> fst ` set (h_arenas s)" using ar(2) by auto
  have nin: "b \<in> free_blocks s \<union> h_allocated s \<Longrightarrow> barena b \<noteq> h_next s" for b
    using t(1) tiles_bounds [of "free_blocks s \<union> h_allocated s" "h_arenas s" b] fresh
    by (force simp: tidy_def)
  have T: "tiles (insert (h_next s, 0, ?n) (free_blocks s \<union> h_allocated s)) (h_arenas s @ [(h_next s, ?n)])"
    using t(1) fresh n(1) sz by (intro tiles_new_arena) (auto simp: tidy_def)
  show ?thesis
    using t T al ar n(1) sz fresh nin [of "(h_next s, 0, ?n)"] inv
    by (auto simp: wp_def heap_new_arena_def Let_def hole_def tidy_def kept_def aligned_def
        heap_inv_def split: option.split)
qed

lemma heap_malloc_ok:
  assumes inv: "heap_inv s" and k: "3 \<le> k"
  shows "wp (heap_malloc (2 ^ k) mk_arena sz)
     (\<lambda>b t. hole t (h_allocated s) b \<and> aligned (insert b (free_blocks t \<union> h_allocated s))
        \<and> sz \<le> blen b \<and> kept s t \<and> h_pending t = h_pending s \<and> h_allocated t = h_allocated s
        \<and> distinct (map fst (h_arenas t)) \<and> (\<forall>(a, n) \<in> set (h_arenas t). a < h_next t \<and> 0 < n)
        \<and> 0 < h_size t)
     (\<lambda>e t. mk_arena (roundup (max (h_size s) sz) (2 ^ k)) = Some e \<and> kept s t
        \<and> t = s\<lparr>h_size := h_size s * 2\<rparr> \<and> heap_inv t) s"
proof -
  let ?i = "bisect_left (h_lengths s) sz"
  have idx: "index_inv s" using inv by (simp add: heap_inv_def tidy_def)
  show ?thesis
  proof (cases "?i = length (h_lengths s)")
    case True
    then have "\<forall>b \<in> free_blocks s. blen b < sz" using no_fit [OF idx True] by blast
    from heap_new_arena_ok [OF inv k this] True show ?thesis
      by (simp add: heap_malloc_def wp_def)
  next
    case False
    then have lt: "?i < length (h_lengths s)" using bisect_left_le [of "h_lengths s" sz] by simp
    have "wp (heap_take ?i) (\<lambda>b t. hole t (h_allocated s) b
        \<and> aligned (insert b (free_blocks t \<union> h_allocated s))
        \<and> sz \<le> blen b \<and> kept s t \<and> h_pending t = h_pending s \<and> h_allocated t = h_allocated s
        \<and> distinct (map fst (h_arenas t)) \<and> (\<forall>(a, n) \<in> set (h_arenas t). a < h_next t \<and> 0 < n)
        \<and> 0 < h_size t) (\<lambda>_ _. False) s"
    proof (rule wp_mono [OF heap_take_law [OF idx refl lt]], elim conjE)
      fix b t
      assume b: "b \<in> free_blocks s" "sz \<le> blen b"
        and t: "index_inv t" "free_blocks t = free_blocks s - {b}" "same_frame s t"
      have F: "insert b (free_blocks t \<union> h_allocated s) = free_blocks s \<union> h_allocated s"
        "insert b (free_blocks t) = free_blocks s"
        using b t by auto
      have "hole t (h_allocated s) b"
        using inv t b F no_touch_mono [of "free_blocks s" "free_blocks t"]
        by (auto simp: hole_def heap_inv_def tidy_def same_frame_def)
      then show "hole t (h_allocated s) b
        \<and> aligned (insert b (free_blocks t \<union> h_allocated s))
        \<and> sz \<le> blen b \<and> kept s t \<and> h_pending t = h_pending s \<and> h_allocated t = h_allocated s
        \<and> distinct (map fst (h_arenas t)) \<and> (\<forall>(a, n) \<in> set (h_arenas t). a < h_next t \<and> 0 < n)
        \<and> 0 < h_size t"
        using inv t b F by (simp add: heap_inv_def same_frame_def kept_def)
    qed simp
    then show ?thesis using False by (auto simp: heap_malloc_def wp_def split: prod.splits sum.splits)
  qed
qed


lemma malloc_cut_ok:
  assumes inv: "heap_inv s" and k: "3 \<le> k"
  shows "wp (malloc_cut (2 ^ k) mk_arena sz)
     (\<lambda>b t. heap_inv t \<and> b \<notin> h_allocated s \<and> h_allocated t = insert b (h_allocated s)
        \<and> blen b = roundup (max sz 1) alignment \<and> h_pending t = h_pending s \<and> kept s t)
     (\<lambda>e t. (\<exists>n. mk_arena n = Some e) \<and> heap_inv t \<and> kept s t
        \<and> h_allocated t = h_allocated s \<and> h_pending t = h_pending s) s"
proof -
  let ?r = "roundup (max sz 1) alignment"
  let ?Q = "\<lambda>b t. heap_inv t \<and> b \<notin> h_allocated s \<and> h_allocated t = insert b (h_allocated s)
        \<and> blen b = ?r \<and> h_pending t = h_pending s \<and> kept s t"
  have r: "alignment dvd ?r" "0 < ?r" using roundup_alignment [of "max sz 1"] by auto
  have pend: "distinct (h_pending s)" "set (h_pending s) \<subseteq> h_allocated s"
    using inv by (simp_all add: heap_inv_def)
  have cut: "wp (bindA (if x + ?r < z then heap_free (a, x + ?r, z) else ret ()) (\<lambda>_.
      bindA (modifyA (\<lambda>s. s\<lparr>h_allocated := insert (a, x, x + ?r) (h_allocated s)\<rparr>)) (\<lambda>_.
      ret (a, x, x + ?r)))) ?Q (\<lambda>_ _. False) t"
    if h: "hole t (h_allocated s) (a, x, z)"
      and al: "aligned (insert (a, x, z) (free_blocks t \<union> h_allocated s))"
      and le: "?r \<le> z - x" and t: "kept s t" "h_pending t = h_pending s" "h_allocated t = h_allocated s"
      and ar: "distinct (map fst (h_arenas t))" "\<forall>(a, n) \<in> set (h_arenas t). a < h_next t \<and> 0 < n"
        "0 < h_size t"
    for a x z t
  proof -
    let ?A = "insert (a, x, x + ?r) (h_allocated s)"
    have T: "tiles (insert (a, x, z) (free_blocks t \<union> h_allocated s)) (h_arenas t)"
      using h by (simp add: hole_def)
    have nin: "(a, x, x + ?r) \<notin> free_blocks t \<union> h_allocated s"
    proof
      assume i: "(a, x, x + ?r) \<in> free_blocks t \<union> h_allocated s"
      then have "(a, x, x + ?r) = (a, x, z)"
        using tiles_same_start [OF T, of "(a, x, x + ?r)" "(a, x, z)"] by auto
      then show False using i h by (auto simp: hole_def)
    qed
    have fin: "?Q (a, x, x + ?r) (u\<lparr>h_allocated := insert (a, x, x + ?r) (h_allocated u)\<rparr>)"
      if "tidy u ?A" "aligned (free_blocks u \<union> ?A)" "same_frame t u" for u
      using that t ar nin pend by (auto simp: heap_inv_def same_frame_def kept_def)
    have alx: "aligned (insert (a, x, x + ?r) (insert (a, x + ?r, z) (free_blocks t \<union> h_allocated s)))"
      using al r by (auto simp: aligned_def)
    show ?thesis
    proof (cases "x + ?r < z")
      case True
      have S: "tiles (insert (a, x, x + ?r) (insert (a, x + ?r, z)
          (insert (a, x, z) (free_blocks t \<union> h_allocated s) - {(a, x, z)}))) (h_arenas t)"
        by (rule tiles_split [OF T]) (use True r in auto)
      have eq: "insert (a, x, z) (free_blocks t \<union> h_allocated s) - {(a, x, z)}
          = free_blocks t \<union> h_allocated s"
        using h by (auto simp: hole_def)
      have nin2: "(a, x + ?r, z) \<notin> free_blocks t \<union> h_allocated s"
      proof
        assume i: "(a, x + ?r, z) \<in> free_blocks t \<union> h_allocated s"
        then have "(a, x + ?r, z) = (a, x, z)"
          using tiles_same_stop [OF T, of "(a, x + ?r, z)" "(a, x, z)"] by auto
        then show False using r by simp
      qed
      have H: "hole t ?A (a, x + ?r, z)"
        using h S nin nin2 r unfolding eq by (auto simp: hole_def insert_commute)
      have al2: "aligned (insert (a, x + ?r, z) (free_blocks t \<union> ?A))" using alx by (auto simp: aligned_def)
      show ?thesis
        unfolding if_P [OF True] wp_bind wp_modify wp_ret
        by (rule wp_mono [OF heap_free_ok [OF H al2]]) (elim conjE, rule fin, assumption+)
    next
      case False
      then have z: "z = x + ?r" using le by simp
      have "tidy t ?A" using hole_alloc [OF h] z by simp
      moreover have "aligned (free_blocks t \<union> ?A)" using al z by (simp add: aligned_def)
      ultimately show ?thesis using False fin [of t] t(3) by (simp add: wp_bind wp_modify wp_ret)
    qed
  qed
  show ?thesis
    unfolding malloc_cut_def Let_def wp_bind
  proof (rule wp_mono [OF heap_malloc_ok [OF inv k, of mk_arena ?r]], elim conjE)
    fix b t
    assume h: "hole t (h_allocated s) b" "aligned (insert b (free_blocks t \<union> h_allocated s))"
      "?r \<le> blen b" "kept s t" "h_pending t = h_pending s" "h_allocated t = h_allocated s"
      "distinct (map fst (h_arenas t))" "\<forall>(a, n) \<in> set (h_arenas t). a < h_next t \<and> 0 < n"
      "0 < h_size t"
    obtain a x z where b: "b = (a, x, z)" by (cases b)
    show "wp (case b of (arena, start, stop) \<Rightarrow>
             bindA (if start + ?r < stop then heap_free (arena, start + ?r, stop) else ret ()) (\<lambda>_.
             bindA (modifyA (\<lambda>s. s\<lparr>h_allocated := insert (arena, start, start + ?r) (h_allocated s)\<rparr>)) (\<lambda>_.
             ret (arena, start, start + ?r)))) ?Q
          (\<lambda>e t. (\<exists>n. mk_arena n = Some e) \<and> heap_inv t \<and> kept s t
        \<and> h_allocated t = h_allocated s \<and> h_pending t = h_pending s) t"
      unfolding b prod.case
      by (rule wp_mono [OF cut [OF h(1,2) [unfolded b] _ h(4-9)]]) (use h(3) b in auto)
  qed auto
qed


section \<open>malloc and free\<close>

lemma heap_inv_lock [simp]: "heap_inv (s\<lparr>h_lock := l\<rparr>) = heap_inv s"
  by (simp add: heap_inv_def)

lemma kept_lock: "kept (s\<lparr>h_lock := l\<rparr>) t \<longleftrightarrow> h_lock t = l \<and> h_lastpid t = h_lastpid s"
  by (simp add: kept_def)

lemma heap_inv_init: "0 < pagesize \<Longrightarrow> heap_inv (heap_init pagesize pid n)"
  by (auto simp: heap_inv_def heap_init_def tidy_def index_inv_def free_blocks_def no_touch_def
      tiles_def aligned_def)

text \<open>The locked stretch of \<open>malloc\<close>, from any state with the invariant.\<close>

lemma malloc_locked_ok:
  assumes inv: "heap_inv s" and k: "3 \<le> k"
  shows "wp (unlock (bindA free_pending_blocks (\<lambda>_. malloc_cut (2 ^ k) mk_arena sz)))
     (\<lambda>b t. heap_inv t \<and> \<not> h_lock t \<and> h_lastpid t = h_lastpid s
        \<and> b \<notin> h_allocated s - set (h_pending s)
        \<and> h_allocated t = insert b (h_allocated s - set (h_pending s))
        \<and> blen b = roundup (max sz 1) alignment \<and> h_pending t = [])
     (\<lambda>e t. (\<exists>n. mk_arena n = Some e) \<and> heap_inv t \<and> \<not> h_lock t \<and> h_lastpid t = h_lastpid s
        \<and> h_allocated t = h_allocated s - set (h_pending s) \<and> h_pending t = []) s"
  unfolding unlock_def wp_finally wp_bind wp_modify
proof (rule wp_mono [OF free_pending_inv [OF inv]], elim conjE)
  fix a :: unit and t
  assume t: "heap_inv t" "h_pending t = []" "h_allocated t = h_allocated s - set (h_pending s)"
    "kept s t"
  show "wp (malloc_cut (2 ^ k) mk_arena sz)
     (\<lambda>b t. heap_inv (t\<lparr>h_lock := False\<rparr>) \<and> \<not> h_lock (t\<lparr>h_lock := False\<rparr>)
        \<and> h_lastpid (t\<lparr>h_lock := False\<rparr>) = h_lastpid s
        \<and> b \<notin> h_allocated s - set (h_pending s)
        \<and> h_allocated (t\<lparr>h_lock := False\<rparr>) = insert b (h_allocated s - set (h_pending s))
        \<and> blen b = roundup (max sz 1) alignment \<and> h_pending (t\<lparr>h_lock := False\<rparr>) = [])
     (\<lambda>e t. (\<exists>n. mk_arena n = Some e) \<and> heap_inv (t\<lparr>h_lock := False\<rparr>)
        \<and> \<not> h_lock (t\<lparr>h_lock := False\<rparr>) \<and> h_lastpid (t\<lparr>h_lock := False\<rparr>) = h_lastpid s
        \<and> h_allocated (t\<lparr>h_lock := False\<rparr>) = h_allocated s - set (h_pending s)
        \<and> h_pending (t\<lparr>h_lock := False\<rparr>) = []) t"
    by (rule wp_mono [OF malloc_cut_ok [OF t(1) k]]) (use t in \<open>auto simp: kept_def\<close>)
qed simp

text \<open>
  C3. \<open>malloc\<close> in a process that owns the heap, with the lock free and mmaps to be had,
  returns a block of the requested size rounded up to the alignment; the block was not
  allocated before, the blocks queued for freeing are freed, every other allocated block
  stays, the lock is released and the tiling of the arenas is kept.
\<close>

theorem malloc_ok:
  assumes "heap_inv s" "\<not> h_lock s" "h_lastpid s = pid" "0 \<le> sz" "sz < maxsize" "3 \<le> k"
    and "\<And>n. mk_arena n = None"
  shows "\<exists>b t. malloc (2 ^ k) maxsize mk_arena pid sz s = Some (Inr b, t)
     \<and> heap_inv t \<and> \<not> h_lock t \<and> sz \<le> blen b \<and> blen b = roundup (max sz 1) alignment
     \<and> b \<notin> h_allocated s - set (h_pending s)
     \<and> h_allocated t = insert b (h_allocated s - set (h_pending s)) \<and> h_pending t = []"
proof -
  have r: "sz \<le> roundup (max sz 1) alignment" using roundup_alignment(2) [of "max sz 1"] by simp
  have "wp (unlock (bindA free_pending_blocks (\<lambda>_. malloc_cut (2 ^ k) mk_arena sz)))
     (\<lambda>b t. heap_inv t \<and> \<not> h_lock t \<and> b \<notin> h_allocated s - set (h_pending s)
        \<and> h_allocated t = insert b (h_allocated s - set (h_pending s))
        \<and> blen b = roundup (max sz 1) alignment \<and> h_pending t = []) (\<lambda>_ _. False)
     (s\<lparr>h_lock := True\<rparr>)"
    by (rule wp_mono [OF malloc_locked_ok [of "s\<lparr>h_lock := True\<rparr>" k mk_arena sz]])
      (use assms in auto)
  then show ?thesis using assms r by (auto simp: malloc_def malloc_enter_def wp_total)
qed

text \<open>
  When the mmap cannot be created, \<open>malloc\<close> raises that error and nothing else: the
  tiling is kept, no block is handed out, and the lock is released.
\<close>

theorem malloc_error:
  assumes "heap_inv s" "\<not> h_lock s" "h_lastpid s = pid" "0 \<le> sz" "sz < maxsize" "3 \<le> k"
    and "malloc (2 ^ k) maxsize mk_arena pid sz s = Some (Inl e, t)"
  shows "(\<exists>n. mk_arena n = Some e) \<and> heap_inv t \<and> \<not> h_lock t
     \<and> h_allocated t = h_allocated s - set (h_pending s)"
proof -
  have run: "unlock (bindA free_pending_blocks (\<lambda>_. malloc_cut (2 ^ k) mk_arena sz))
      (s\<lparr>h_lock := True\<rparr>) = (Inl e, t)"
    using assms by (simp add: malloc_def malloc_enter_def)
  show ?thesis
    using wp_run_Inl [OF malloc_locked_ok [of "s\<lparr>h_lock := True\<rparr>" k mk_arena sz] run] assms by simp
qed

text \<open>
  C4. \<open>free\<close> of an allocated block, called with the lock free, returns, takes exactly this
  block and the queued ones out of the allocated set, and keeps the tiling.
\<close>

theorem free_ok:
  assumes "heap_inv s" "\<not> h_lock s" "h_lastpid s = pid"
    and "b \<in> h_allocated s" "b \<notin> set (h_pending s)"
  shows "\<exists>t. free pid b s = (Inr (), t) \<and> heap_inv t \<and> \<not> h_lock t
     \<and> h_allocated t = h_allocated s - insert b (set (h_pending s)) \<and> h_pending t = []"
proof -
  let ?s1 = "s\<lparr>h_lock := True\<rparr>"
  obtain s2 where s2: "free_pending_blocks ?s1 = (Inr (), s2)" "heap_inv s2" "h_pending s2 = []"
      "h_allocated s2 = h_allocated s - set (h_pending s)" "kept ?s1 s2"
    using free_pending_inv [of ?s1] assms(1) by (auto simp: wp_total)
  have b: "b \<in> h_allocated s2" "b \<notin> set (h_pending s2)" using assms s2 by auto
  obtain t where t: "heap_free b (s2\<lparr>h_allocated := h_allocated s2 - {b}\<rparr>) = (Inr (), t)"
      "heap_inv t" "h_allocated t = h_allocated s2 - {b}" "h_pending t = h_pending s2"
    using heap_free_inv [OF s2(2) b] by (auto simp: wp_total)
  have "free pid b s = (Inr (), t\<lparr>h_lock := False\<rparr>)"
    using assms s2 b t by (simp add: free_def act_defs)
  then show ?thesis using s2 t by (auto simp: heap_inv_def)
qed

text \<open>
  \<open>free\<close> of a block that is not allocated (freed before, or inherited over a fork)
  raises \<open>KeyError\<close>; the queued blocks have been freed, nothing else has changed.
\<close>

theorem free_unknown:
  assumes "heap_inv s" "\<not> h_lock s" "h_lastpid s = pid"
    and "b \<notin> h_allocated s - set (h_pending s)"
  shows "\<exists>t. free pid b s = (Inl KeyError, t) \<and> heap_inv t \<and> \<not> h_lock t
     \<and> h_allocated t = h_allocated s - set (h_pending s)"
proof -
  let ?s1 = "s\<lparr>h_lock := True\<rparr>"
  obtain s2 where s2: "free_pending_blocks ?s1 = (Inr (), s2)" "heap_inv s2" "h_pending s2 = []"
      "h_allocated s2 = h_allocated s - set (h_pending s)" "kept ?s1 s2"
    using free_pending_inv [of ?s1] assms(1) by (auto simp: wp_total)
  have "free pid b s = (Inl KeyError, s2\<lparr>h_lock := False\<rparr>)"
    using assms s2 by (auto simp add: free_def act_defs)
  then show ?thesis using s2 by auto
qed

text \<open>
  The block \<open>_malloc\<close> picks when one is large enough is one of the smallest such blocks,
  and no arena is created.
\<close>

theorem malloc_best_fit:
  assumes "heap_inv s" "\<exists>c \<in> free_blocks s. sz \<le> blen c"
  shows "\<exists>b t. heap_malloc pagesize mk_arena sz s = (Inr b, t) \<and> b \<in> free_blocks s \<and> sz \<le> blen b
     \<and> (\<forall>c \<in> free_blocks s. sz \<le> blen c \<longrightarrow> blen b \<le> blen c) \<and> h_arenas t = h_arenas s"
proof -
  let ?i = "bisect_left (h_lengths s) sz"
  have idx: "index_inv s" using assms(1) by (simp add: heap_inv_def tidy_def)
  have "?i \<noteq> length (h_lengths s)" using no_fit [OF idx] assms(2) by (metis not_less)
  then have "?i < length (h_lengths s)" using bisect_left_le [of "h_lengths s" sz] by simp
  from heap_take_law [OF idx refl this] \<open>?i \<noteq> length (h_lengths s)\<close> show ?thesis
    by (auto simp: heap_malloc_def wp_total same_frame_def)
qed

text \<open>
  Nothing is lost: once every block has been freed, the free blocks are the arenas, each
  in one piece.
\<close>

theorem all_freed_whole:
  assumes "heap_inv s" "h_allocated s = {}"
  shows "free_blocks s = {(a, 0, n) | a n. (a, n) \<in> set (h_arenas s)}"
proof -
  have T: "tiles (free_blocks s) (h_arenas s)" "no_touch (free_blocks s)"
    and ar: "distinct (map fst (h_arenas s))" "\<And>a n. (a, n) \<in> set (h_arenas s) \<Longrightarrow> 0 < n"
    using assms by (auto simp: heap_inv_def tidy_def)
  have u: "m = n" if "(a, n) \<in> set (h_arenas s)" "(a, m) \<in> set (h_arenas s)" for a n m
    using that ar(1) eq_key_imp_eq_value by fast
  have 1: "(a, 0, n) \<in> free_blocks s" if "(a, n) \<in> set (h_arenas s)" for a n
    by (rule tiles_no_touch_whole [OF T that ar(2) [OF that] u [OF that]])
  have 2: "\<exists>n. b = (barena b, 0, n) \<and> (barena b, n) \<in> set (h_arenas s)" if b: "b \<in> free_blocks s" for b
  proof -
    obtain n where n: "(barena b, n) \<in> set (h_arenas s)" "0 \<le> bstart b" "bstart b < bstop b" "bstop b \<le> n"
      using tiles_bounds [OF T(1) b] by blast
    have "b = (barena b, 0, n)"
      using tiles_disj [OF T(1) b 1 [OF n(1)]] n by simp
    with n(1) show ?thesis by blast
  qed
  show ?thesis
  proof (intro set_eqI iffI)
    fix b assume "b \<in> free_blocks s"
    from 2 [OF this] show "b \<in> {(a, 0 :: int, n) | a n. (a, n) \<in> set (h_arenas s)}" by blast
  next
    fix b assume "b \<in> {(a, 0 :: int, n) | a n. (a, n) \<in> set (h_arenas s)}"
    then show "b \<in> free_blocks s" using 1 by blast
  qed
qed


text \<open>
  After a fork the child's first \<open>malloc\<close> starts from an empty heap, even when the
  parent held the lock at the fork; the block comes from a new arena, and freeing a block
  inherited from the parent raises \<open>KeyError\<close>.
\<close>

theorem malloc_after_fork:
  assumes inv: "heap_inv s" and pid: "h_lastpid s \<noteq> pid" and sz: "0 \<le> sz" "sz < maxsize"
    and k: "3 \<le> k" and mk: "\<And>n. mk_arena n = None"
  shows "\<exists>b t. malloc (2 ^ k) maxsize mk_arena pid sz s = Some (Inr b, t)
     \<and> heap_inv t \<and> h_allocated t = {b} \<and> h_lastpid t = pid \<and> b \<notin> h_allocated s
     \<and> (\<forall>c \<in> h_allocated s. fst (free pid c t) = Inl KeyError)"
proof -
  let ?s0 = "heap_init (2 ^ k) pid (h_next s)"
  have s0: "heap_inv ?s0" "h_allocated ?s0 = {}" "h_pending ?s0 = []" "h_lastpid ?s0 = pid"
    "\<not> h_lock ?s0" by (rule heap_inv_init) (simp_all add: heap_init_def)
  have eq: "malloc (2 ^ k) maxsize mk_arena pid sz s = malloc (2 ^ k) maxsize mk_arena pid sz ?s0"
    using pid sz s0 by (simp add: malloc_def malloc_enter_def)
  note M = malloc_ok [OF s0(1) s0(5,4) sz k, of mk_arena, OF mk]
  from M obtain b t where
    t: "malloc (2 ^ k) maxsize mk_arena pid sz ?s0 = Some (Inr b, t)" "heap_inv t" "\<not> h_lock t"
      "h_allocated t = {b}" "h_pending t = []"
    unfolding s0(2,3) by auto
  have run: "unlock (bindA free_pending_blocks (\<lambda>_. malloc_cut (2 ^ k) mk_arena sz))
      (?s0\<lparr>h_lock := True\<rparr>) = (Inr b, t)"
    using t(1) sz s0 by (auto simp: malloc_def malloc_enter_def split: if_splits)
  have lp: "h_lastpid t = pid"
    using wp_run_Inr [OF malloc_locked_ok [of "?s0\<lparr>h_lock := True\<rparr>" k mk_arena sz] run] s0 k by simp
  have old: "barena c < h_next s" if "c \<in> h_allocated s" for c
    using inv that tiles_bounds [of "free_blocks s \<union> h_allocated s" "h_arenas s" c]
    by (force simp: heap_inv_def tidy_def)
  have L: "h_lengths ?s0 = []" "h_size ?s0 = 2 ^ k" by (simp_all add: heap_init_def)
  have fp: "free_pending_blocks (?s0\<lparr>h_lock := True\<rparr>) = (Inr (), ?s0\<lparr>h_lock := True\<rparr>)"
    by (simp add: free_pending_blocks.simps heap_init_def)
  have "barena b = h_next s"
    using run fp mk
    by (auto simp: unlock_def finallyA_def bindA_def malloc_cut_def heap_malloc_def
        heap_new_arena_def bisect_left_def heap_init_def Let_def ret_def modifyA_def
        split: prod.splits sum.splits if_splits)
  then have nb: "c \<noteq> b" if "c \<in> h_allocated s" for c using old [OF that] by auto
  have "fst (free pid c t) = Inl KeyError" if "c \<in> h_allocated s" for c
    using free_unknown [OF t(2,3) lp, of c] nb [OF that] t(4) by auto
  moreover have "b \<notin> h_allocated s" using nb by blast
  ultimately show ?thesis unfolding eq using t lp by blast
qed

section \<open>Witnesses\<close>

text \<open>A heap after one \<open>malloc(100)\<close>: 104 bytes handed out, the rest of the page free.\<close>

definition ex_heap :: heap where
  "ex_heap = \<lparr>h_lastpid = 1, h_lock = False, h_size = 8192, h_lengths = [3992],
      h_len_to_seq = [3992 \<mapsto> [(0, 104, 4096)]],
      h_start_to_block = [(0, 104) \<mapsto> (0, 104, 4096)],
      h_stop_to_block = [(0, 4096) \<mapsto> (0, 104, 4096)],
      h_allocated = {(0, 0, 104)}, h_arenas = [(0, 4096)], h_pending = [], h_next = 1\<rparr>"

lemma ex_malloc:
  "malloc (2 ^ 12) 1000000 (\<lambda>_. None) 1 100 (heap_init (2 ^ 12) 1 0) = Some (Inr (0, 0, 104), ex_heap)"
  by (simp add: malloc_def malloc_enter_def unlock_def act_defs free_pending_blocks.simps
      heap_init_def malloc_cut_def roundup_def alignment_def heap_malloc_def heap_new_arena_def
      bisect_left_def heap_free_def heap_register_def insort_right_def ex_heap_def Let_def)


definition ex_heap2 :: heap where
  "ex_heap2 = \<lparr>h_lastpid = 1, h_lock = False, h_size = 8192, h_lengths = [3936],
      h_len_to_seq = [3936 \<mapsto> [(0, 160, 4096)]],
      h_start_to_block = [(0, 160) \<mapsto> (0, 160, 4096)],
      h_stop_to_block = [(0, 4096) \<mapsto> (0, 160, 4096)],
      h_allocated = {(0, 0, 104), (0, 104, 160)}, h_arenas = [(0, 4096)], h_pending = [], h_next = 1\<rparr>"

lemmas heap_eval = malloc_def malloc_enter_def unlock_def act_defs free_pending_blocks.simps
  heap_init_def malloc_cut_def roundup_def alignment_def heap_malloc_def heap_new_arena_def
  heap_take_def heap_pop_def del_start_def del_stop_def del_nth_def
  bisect_left_def heap_free_def heap_register_def insort_right_def Let_def

lemma ex_cut2: "malloc_cut (2 ^ 12) (\<lambda>_. None) 50 (ex_heap\<lparr>h_lock := True\<rparr>)
    = (Inr (0, 104, 160), ex_heap2\<lparr>h_lock := True\<rparr>)"
  by (simp add: heap_eval ex_heap_def ex_heap2_def insert_commute)

lemma ex_malloc2: "malloc (2 ^ 12) 1000000 (\<lambda>_. None) 1 50 ex_heap = Some (Inr (0, 104, 160), ex_heap2)"
proof -
  have "malloc (2 ^ 12) 1000000 (\<lambda>_. None) 1 50 ex_heap = Some (unlock (malloc_cut (2 ^ 12) (\<lambda>_. None) 50) (ex_heap\<lparr>h_lock := True\<rparr>))"
    by (simp add: malloc_def malloc_enter_def unlock_def act_defs free_pending_blocks.simps ex_heap_def)
  then show ?thesis unfolding unlock_def finallyA_def ex_cut2 by (simp add: modifyA_def ex_heap2_def)
qed

text \<open>A successful \<open>malloc\<close> keeps the invariant.\<close>

lemma malloc_inv:
  assumes "heap_inv s" "h_lastpid s = pid" "3 \<le> k" "malloc (2 ^ k) maxsize mk_arena pid sz s = Some (Inr b, t)"
  shows "heap_inv t"
proof -
  have "heap_inv (s\<lparr>h_lock := True\<rparr>)" using assms(1) by simp
  moreover have "unlock (bindA free_pending_blocks (\<lambda>_. malloc_cut (2 ^ k) mk_arena sz)) (s\<lparr>h_lock := True\<rparr>) = (Inr b, t)"
    using assms(2,4) by (auto simp: malloc_def malloc_enter_def Let_def split: if_splits)
  ultimately show ?thesis using wp_run_Inr [OF malloc_locked_ok [OF _ assms(3)]] by blast
qed

lemma ex_inv: "heap_inv ex_heap" "heap_inv ex_heap2"
proof -
  show i: "heap_inv ex_heap"
    using malloc_inv [OF heap_inv_init [of "2 ^ 12" 1 0] _ _ ex_malloc] by (simp add: heap_init_def)
  show "heap_inv ex_heap2" using malloc_inv [OF i _ _ ex_malloc2] by (simp add: ex_heap_def)
qed

theorem malloc_ok_witness:
  "\<exists>b t. malloc (2 ^ 12) 1000000 (\<lambda>_. None) 1 50 ex_heap = Some (Inr b, t) \<and> heap_inv t \<and> blen b = 56
     \<and> h_allocated t = {b, (0, 0, 104)}"
  using malloc_ok [of ex_heap 1 50 1000000 12 "\<lambda>_. None"] ex_inv(1)
  by (auto simp: ex_heap_def roundup_def alignment_def)

theorem malloc_error_witness:
  "\<exists>t. malloc (2 ^ 12) 1000000 (\<lambda>_. Some MemoryError) 1 50 (heap_init (2 ^ 12) 1 0) = Some (Inl MemoryError, t)
     \<and> heap_inv t \<and> \<not> h_lock t"
proof -
  let ?s = "heap_init (2 ^ 12) 1 0"
  have run: "malloc (2 ^ 12) 1000000 (\<lambda>_. Some MemoryError) 1 50 ?s = Some (Inl MemoryError, ?s\<lparr>h_size := 8192\<rparr>)"
    by (simp add: heap_eval)
  have "heap_inv ?s" by (rule heap_inv_init) simp
  from malloc_error [OF this _ _ _ _ _ run] run show ?thesis by (simp add: heap_init_def)
qed

theorem free_ok_witness:
  "\<exists>t. free 1 (0, 0, 104) ex_heap2 = (Inr (), t) \<and> heap_inv t \<and> h_allocated t = {(0, 104, 160)}"
  using free_ok [of ex_heap2 1 "(0, 0, 104)"] ex_inv(2) by (auto simp: ex_heap2_def)

theorem free_unknown_witness:
  "\<exists>t. free 1 (0, 0, 8) ex_heap2 = (Inl KeyError, t) \<and> heap_inv t"
  using free_unknown [of ex_heap2 1 "(0, 0, 8)"] ex_inv(2) by (auto simp: ex_heap2_def)

theorem malloc_best_fit_witness:
  "\<exists>t. heap_malloc (2 ^ 12) (\<lambda>_. None) 56 ex_heap = (Inr (0, 104, 4096), t)"
proof -
  have f: "free_blocks ex_heap = {(0, 104, 4096)}"
    by (auto simp: free_blocks_def ex_heap_def split: if_splits)
  show ?thesis
    using malloc_best_fit [of ex_heap 56 "2 ^ 12" "\<lambda>_. None"] ex_inv(1) unfolding f by auto
qed

theorem all_freed_whole_witness:
  "\<exists>t. free 1 (0, 0, 104) ex_heap = (Inr (), t) \<and> free_blocks t = {(0, 0, 4096)}"
proof -
  obtain t where t: "free 1 (0, 0, 104) ex_heap = (Inr (), t)" "heap_inv t" "h_allocated t = {}"
    using free_ok [of ex_heap 1 "(0, 0, 104)"] ex_inv(1) by (auto simp: ex_heap_def)
  have "h_arenas t = [(0, 4096)]"
    using t(1) by (auto simp: free_def heap_eval heap_absorb_def ex_heap_def)
  with all_freed_whole [OF t(2,3)] t(1) show ?thesis by auto
qed

theorem malloc_after_fork_witness:
  "\<exists>b t. malloc (2 ^ 12) 1000000 (\<lambda>_. None) 2 50 (ex_heap\<lparr>h_lock := True\<rparr>) = Some (Inr b, t)
     \<and> h_allocated t = {b} \<and> fst (free 2 (0, 0, 104) t) = Inl KeyError"
proof -
  let ?s = "ex_heap\<lparr>h_lock := True\<rparr>"
  have h: "heap_inv ?s" "h_lastpid ?s \<noteq> 2" "(0, 0, 104) \<in> h_allocated ?s"
    using ex_inv(1) by (simp, simp_all add: ex_heap_def)
  from malloc_after_fork [OF h(1,2), of 50 1000000 12 "\<lambda>_. None"] h(3) show ?thesis by auto
qed

end
