(* ===== verification/Heap_Interleaving.thy ===== *)
theory Heap_Interleaving
  imports Shm_Heap
begin

text \<open>
  \<open>Heap\<close> of \<open>billiard/heap.py\<close> used by many threads, and by finalizers that the garbage collector runs at any moment, also in the middle of
  \<open>malloc\<close> and \<open>free\<close> on the same thread.

  \<^item> The bodies of \<open>_malloc\<close>, \<open>_free\<close> and \<open>_absorb\<close> are cut into their single operations on a dictionary, a list or a set, each of which is atomic
    under the interpreter's lock. Run without interruption they are the definitions of theory Shm_Heap.
  \<^item> A machine takes one such operation of one thread at a time. A finalizer is a thread of its own (that the thread it has interrupted makes no step
    meanwhile only takes interleavings away). All is in one process; \<open>malloc_after_fork\<close> of theory Shm_Heap has the first call in a forked one.
  \<^item> What makes the interleavings safe is the trylock of \<open>free\<close>: a \<open>free\<close> that finds the lock held, by its own thread or another, only appends to
    the list of pending blocks, which the thread with the lock looks at between two blocks and nowhere else.
\<close>

section \<open>Programs of atomic operations\<close>

datatype 'a prog = Done 'a | Fails exn | Op "heap \<Rightarrow> 'a prog \<times> heap"

primrec run_prog :: "'a prog \<Rightarrow> (heap, 'a) act" where
  "run_prog (Done a) = ret a"
| "run_prog (Fails e) = raise e"
| "run_prog (Op f) = (\<lambda>s. case map_prod run_prog id (f s) of (g, t) \<Rightarrow> g t)"

primrec andthen :: "'a prog \<Rightarrow> ('a \<Rightarrow> 'b prog) \<Rightarrow> 'b prog" where
  "andthen (Done a) k = k a"
| "andthen (Fails e) k = Fails e"
| "andthen (Op f) k = Op (\<lambda>s. map_prod (\<lambda>p. andthen p k) id (f s))"

text \<open>One operation that returns or raises.\<close>

definition op :: "(heap, 'a) act \<Rightarrow> 'a prog" where
  "op m = Op (\<lambda>s. case m s of (Inl e, t) \<Rightarrow> (Fails e, t) | (Inr a, t) \<Rightarrow> (Done a, t))"

lemma run_op [simp]: "run_prog (op m) = m"
  by (auto simp: op_def fun_eq_iff ret_def raise_def split: prod.split sum.split)

lemma run_andthen [simp]: "run_prog (andthen p k) = bindA (run_prog p) (\<lambda>a. run_prog (k a))"
proof (induction p)
  case (Op f)
  have "run_prog (andthen (Op f) k) s = bindA (run_prog (Op f)) (\<lambda>a. run_prog (k a)) s" for s
  proof -
    obtain p t where ft: "f s = (p, t)" by (cases "f s")
    have "(p, t) \<in> range f" using ft by (metis rangeI)
    then have "run_prog (andthen p k) = bindA (run_prog p) (\<lambda>a. run_prog (k a))" using Op [of "(p, t)" p] by simp
    then show ?thesis by (simp add: ft bindA_def)
  qed
  then show ?case by blast
qed (auto simp: fun_eq_iff act_defs)

section \<open>The bodies, operation by operation\<close>

text \<open>\<open>seq = self._len_to_seq[length]\<close>, \<open>seq.pop()\<close>, \<open>seq.remove(block)\<close>, \<open>if not seq: del self._len_to_seq[length]\<close>.\<close>

definition get_seq :: "int \<Rightarrow> (heap, block list) act" where
  "get_seq len = fetchA (\<lambda>s. h_len_to_seq s len) KeyError"

definition set_seq :: "int \<Rightarrow> block list option \<Rightarrow> (heap, unit) act" where
  "set_seq len seq = modifyA (\<lambda>s. s\<lparr>h_len_to_seq := (h_len_to_seq s)(len := seq)\<rparr>)"

definition seq_pop :: "int \<Rightarrow> (heap, block) act" where
  "seq_pop len =
     bindA (get_seq len) (\<lambda>seq.
       if seq = [] then raise IndexError else bindA (set_seq len (Some (butlast seq))) (\<lambda>_. ret (last seq)))"

definition seq_remove :: "int \<Rightarrow> block \<Rightarrow> (heap, unit) act" where
  "seq_remove len b =
     bindA (get_seq len) (\<lambda>seq. if b \<notin> set seq then raise ValueError else set_seq len (Some (remove1 b seq)))"

definition lengths_remove :: "int \<Rightarrow> (heap, unit) act" where
  "lengths_remove len =
     bindA (assertA (\<lambda>s. len \<in> set (h_lengths s)) ValueError) (\<lambda>_. modifyA (\<lambda>s. s\<lparr>h_lengths := remove1 len (h_lengths s)\<rparr>))"

definition absorb_prog :: "block \<Rightarrow> (int \<times> int) prog" where
  "absorb_prog b = (case b of (arena, start, stop) \<Rightarrow>
     let len = stop - start in
     andthen (op (del_start (arena, start))) (\<lambda>_.
     andthen (op (del_stop (arena, stop))) (\<lambda>_.
     andthen (op (get_seq len)) (\<lambda>_.
     andthen (op (seq_remove len b)) (\<lambda>_.
     andthen (op (get_seq len)) (\<lambda>seq.
     if seq \<noteq> [] then Done (start, stop)
     else andthen (op (set_seq len None)) (\<lambda>_.
          andthen (op (lengths_remove len)) (\<lambda>_. Done (start, stop)))))))))"

text \<open>The filing of a free block, from \<open>self._len_to_seq[length].append(block)\<close> on.\<close>

definition register_prog :: "block \<Rightarrow> unit prog" where
  "register_prog b = (case b of (arena, start, stop) \<Rightarrow>
     let len = stop - start in
     andthen (op (getsA (\<lambda>s. h_len_to_seq s len))) (\<lambda>found.
     andthen (case found of
         Some seq \<Rightarrow> op (set_seq len (Some (seq @ [b])))
       | None \<Rightarrow> andthen (op (set_seq len (Some [b]))) (\<lambda>_. op (modifyA (\<lambda>s. s\<lparr>h_lengths := insort_right len (h_lengths s)\<rparr>)))) (\<lambda>_.
     andthen (op (modifyA (\<lambda>s. s\<lparr>h_start_to_block := (h_start_to_block s)((arena, start) \<mapsto> b)\<rparr>))) (\<lambda>_.
     op (modifyA (\<lambda>s. s\<lparr>h_stop_to_block := (h_stop_to_block s)((arena, stop) \<mapsto> b)\<rparr>))))))"

definition free_prog :: "block \<Rightarrow> unit prog" where
  "free_prog b = (case b of (arena, start, stop) \<Rightarrow>
     andthen (andthen (op (getsA (\<lambda>s. h_stop_to_block s (arena, start))))
       (\<lambda>prev. case prev of None \<Rightarrow> Done start
         | Some prev_block \<Rightarrow> andthen (absorb_prog prev_block) (\<lambda>(start', _). Done start'))) (\<lambda>start'.
     andthen (andthen (op (getsA (\<lambda>s. h_start_to_block s (arena, stop))))
       (\<lambda>nxt. case nxt of None \<Rightarrow> Done stop
         | Some next_block \<Rightarrow> andthen (absorb_prog next_block) (\<lambda>(_, stop'). Done stop'))) (\<lambda>stop'.
     register_prog (arena, start', stop'))))"

definition take_prog :: "nat \<Rightarrow> block prog" where
  "take_prog i =
     andthen (op (getsA (\<lambda>s. h_lengths s ! i))) (\<lambda>len.
     andthen (op (seq_pop len)) (\<lambda>(arena, start, stop).
     andthen (op (get_seq len)) (\<lambda>seq.
     andthen (if seq \<noteq> [] then Done ()
              else andthen (op (set_seq len None)) (\<lambda>_. op (modifyA (\<lambda>s. s\<lparr>h_lengths := del_nth i (h_lengths s)\<rparr>)))) (\<lambda>_.
     andthen (op (del_start (arena, start))) (\<lambda>_.
     andthen (op (del_stop (arena, stop))) (\<lambda>_. Done (arena, start, stop)))))))"

text \<open>\<open>Arena(length)\<close> makes a new mmap, or raises.\<close>

definition make_arena :: "(int \<Rightarrow> exn option) \<Rightarrow> int \<Rightarrow> (heap, nat) act" where
  "make_arena mk_arena len = readA (\<lambda>s. case mk_arena len of Some e \<Rightarrow> raise e
     | None \<Rightarrow> bindA (modifyA (\<lambda>s. s\<lparr>h_next := Suc (h_next s)\<rparr>)) (\<lambda>_. ret (h_next s)))"

definition new_arena_prog :: "int \<Rightarrow> (int \<Rightarrow> exn option) \<Rightarrow> int \<Rightarrow> block prog" where
  "new_arena_prog pagesize mk_arena sz =
     andthen (op (getsA (\<lambda>s. roundup (max (h_size s) sz) pagesize))) (\<lambda>len.
     andthen (op (modifyA (\<lambda>s. s\<lparr>h_size := h_size s * 2\<rparr>))) (\<lambda>_.
     andthen (op (make_arena mk_arena len)) (\<lambda>arena.
     andthen (op (modifyA (\<lambda>s. s\<lparr>h_arenas := h_arenas s @ [(arena, len)]\<rparr>))) (\<lambda>_. Done (arena, 0, len)))))"

definition malloc_prog :: "int \<Rightarrow> (int \<Rightarrow> exn option) \<Rightarrow> int \<Rightarrow> block prog" where
  "malloc_prog pagesize mk_arena sz =
     andthen (op (getsA (\<lambda>s. bisect_left (h_lengths s) sz))) (\<lambda>i.
     andthen (op (getsA (\<lambda>s. i = length (h_lengths s)))) (\<lambda>none.
     if none then new_arena_prog pagesize mk_arena sz else take_prog i))"

text \<open>\<open>self._allocated_blocks.remove(block)\<close> and \<open>self._free(block)\<close>, of a pending block and of the block that is freed.\<close>

definition allocated_remove :: "block \<Rightarrow> (heap, unit) act" where
  "allocated_remove b =
     bindA (assertA (\<lambda>s. b \<in> h_allocated s) KeyError) (\<lambda>_. modifyA (\<lambda>s. s\<lparr>h_allocated := h_allocated s - {b}\<rparr>))"

definition release_prog :: "block \<Rightarrow> unit prog" where
  "release_prog b = andthen (op (allocated_remove b)) (\<lambda>_. free_prog b)"

text \<open>The rest of \<open>malloc\<close> once the pending blocks are freed.\<close>

definition cut_prog :: "int \<Rightarrow> (int \<Rightarrow> exn option) \<Rightarrow> int \<Rightarrow> block prog" where
  "cut_prog pagesize mk_arena sz =
     (let sz = roundup (max sz 1) alignment in
      andthen (malloc_prog pagesize mk_arena sz) (\<lambda>(arena, start, stop).
      let new_stop = start + sz in
      andthen (if new_stop < stop then free_prog (arena, new_stop, stop) else Done ()) (\<lambda>_.
      andthen (op (modifyA (\<lambda>s. s\<lparr>h_allocated := insert (arena, start, new_stop) (h_allocated s)\<rparr>))) (\<lambda>_.
      Done (arena, start, new_stop)))))"

lemmas seq_defs = get_seq_def set_seq_def seq_pop_def seq_remove_def lengths_remove_def act_defs

text \<open>Without interruption the programs are the operations of theory Shm_Heap.\<close>

lemma run_absorb: "run_prog (absorb_prog b) = heap_absorb b"
proof -
  obtain a x z where b: "b = (a, x, z)" by (cases b)
  show ?thesis
    unfolding b
    by (auto simp: fun_eq_iff absorb_prog_def heap_absorb_def Let_def seq_defs del_start_def del_stop_def split: option.split sum.split prod.split)
qed

lemma run_register: "run_prog (register_prog b) = modifyA (heap_register b)"
proof -
  obtain a x z where b: "b = (a, x, z)" by (cases b)
  show ?thesis
    unfolding b by (auto simp: fun_eq_iff register_prog_def heap_register_def Let_def seq_defs split: option.split)
qed

lemma run_free: "run_prog (free_prog b) = heap_free b"
proof -
  obtain a x z where b: "b = (a, x, z)" by (cases b)
  have k: "run_prog (case prev of None \<Rightarrow> Done v | Some p \<Rightarrow> andthen (absorb_prog p) g) =
      (case prev of None \<Rightarrow> ret v | Some p \<Rightarrow> bindA (heap_absorb p) (\<lambda>a. run_prog (g a)))" for prev v and g :: "int \<times> int \<Rightarrow> int prog"
    by (cases prev) (simp_all add: run_absorb)
  show ?thesis unfolding b by (simp add: free_prog_def heap_free_def k case_prod_unfold run_register cong: option.case_cong)
qed

lemma run_take: "run_prog (take_prog i) = heap_take i"
  by (auto simp: fun_eq_iff take_prog_def heap_take_def heap_pop_def Let_def seq_defs del_start_def del_stop_def split: option.split sum.split prod.split)

lemma run_malloc: "run_prog (malloc_prog pagesize mk_arena sz) = heap_malloc pagesize mk_arena sz"
  by (auto simp: fun_eq_iff malloc_prog_def heap_malloc_def new_arena_prog_def heap_new_arena_def make_arena_def Let_def act_defs run_take split: option.split)

lemma run_release:
  "run_prog (release_prog b) = bindA (assertA (\<lambda>s. b \<in> h_allocated s) KeyError) (\<lambda>_.
     bindA (modifyA (\<lambda>s. s\<lparr>h_allocated := h_allocated s - {b}\<rparr>)) (\<lambda>_. heap_free b))"
  by (auto simp: release_prog_def run_free allocated_remove_def fun_eq_iff act_defs)

lemma run_cut: "run_prog (cut_prog pagesize mk_arena sz) = malloc_cut pagesize mk_arena sz"
proof -
  have "run_prog (if c then free_prog b else Done ()) = (if c then heap_free b else ret ())" for c b
    by (simp add: run_free)
  then show ?thesis
    by (auto simp: fun_eq_iff cut_prog_def malloc_cut_def run_malloc Let_def bindA_def split: prod.split sum.split)
qed

section \<open>What the programs leave alone\<close>

text \<open>
  A program that neither reads nor writes the list of pending blocks, and leaves the lock and the process alone.
\<close>

definition with_pending :: "block list \<Rightarrow> heap \<Rightarrow> heap" where
  "with_pending ps s = s\<lparr>h_pending := ps\<rparr>"

inductive indifferent :: "'a prog \<Rightarrow> bool" where
  "indifferent (Done a)"
| "indifferent (Fails e)"
| "(\<And>s ps. f (with_pending ps s) = (fst (f s), with_pending ps (snd (f s)))) \<Longrightarrow>
   (\<And>s. h_lock (snd (f s)) = h_lock s \<and> h_lastpid (snd (f s)) = h_lastpid s \<and> h_pending (snd (f s)) = h_pending s) \<Longrightarrow>
   (\<And>s. indifferent (fst (f s))) \<Longrightarrow> indifferent (Op f)"

definition indifferent_op :: "(heap, 'a) act \<Rightarrow> bool" where
  "indifferent_op m \<longleftrightarrow> (\<forall>s ps. m (with_pending ps s) = (fst (m s), with_pending ps (snd (m s)))) \<and>
     (\<forall>s. h_lock (snd (m s)) = h_lock s \<and> h_lastpid (snd (m s)) = h_lastpid s \<and> h_pending (snd (m s)) = h_pending s)"

lemma indifferent_andthen: "indifferent p \<Longrightarrow> (\<And>a. indifferent (k a)) \<Longrightarrow> indifferent (andthen p k)"
proof (induction p rule: indifferent.induct)
  case (3 f)
  then show ?case by (auto simp: map_prod_def case_prod_beta intro!: indifferent.intros(3))
qed (simp_all add: indifferent.intros)

lemma indifferent_run:
  assumes "indifferent p"
  shows "run_prog p (with_pending ps s) = (fst (run_prog p s), with_pending ps (snd (run_prog p s)))"
  using assms
proof (induction p arbitrary: s rule: indifferent.induct)
  case (3 f)
  show ?case using 3(1) [of ps s] 3(4) [of s "snd (f s)"] by (cases "f s") simp
qed (simp_all add: act_defs)

lemma indifferent_op: "indifferent_op m \<Longrightarrow> indifferent (op m)"
  unfolding op_def indifferent_op_def
  by (rule indifferent.intros) (auto split: prod.split sum.split intro: indifferent.intros, (metis fst_conv snd_conv)+)

named_theorems indiff

lemma indifferent_ops [indiff]:
  "indifferent_op (del_start k)" "indifferent_op (del_stop k)" "indifferent_op (get_seq len)" "indifferent_op (set_seq len x)"
  "indifferent_op (seq_pop len)" "indifferent_op (seq_remove len b)" "indifferent_op (lengths_remove len)" "indifferent_op (allocated_remove b)"
  "indifferent_op (make_arena mk_arena len)"
  by (auto simp: indifferent_op_def with_pending_def seq_defs del_start_def del_stop_def allocated_remove_def make_arena_def split: option.splits)

lemma indifferent_gets [indiff]: "(\<And>s ps. g (with_pending ps s) = g s) \<Longrightarrow> indifferent_op (getsA g)"
  by (simp add: indifferent_op_def getsA_def)

lemma indifferent_modify [indiff]:
  "(\<And>s ps. g (with_pending ps s) = with_pending ps (g s)) \<Longrightarrow>
   (\<And>s. h_lock (g s) = h_lock s \<and> h_lastpid (g s) = h_lastpid s \<and> h_pending (g s) = h_pending s) \<Longrightarrow> indifferent_op (modifyA g)"
  by (simp add: indifferent_op_def modifyA_def)

lemma indifferent_case_option: "indifferent p \<Longrightarrow> (\<And>x. indifferent (q x)) \<Longrightarrow> indifferent (case y of None \<Rightarrow> p | Some x \<Rightarrow> q x)"
  by (cases y) simp_all

lemma indifferent_if: "indifferent p \<Longrightarrow> indifferent q \<Longrightarrow> indifferent (if c then p else q)"
  by simp

lemma indifferent_case_prod: "(\<And>x z. indifferent (q x z)) \<Longrightarrow> indifferent (case y of (x, z) \<Rightarrow> q x z)"
  by (cases y) simp

lemmas indifferent_rules = indifferent.intros(1,2) indifferent_andthen indifferent_op indiff indifferent_case_option indifferent_if indifferent_case_prod

lemma indifferent_absorb: "indifferent (absorb_prog b)"
  unfolding absorb_prog_def Let_def by (intro indifferent_rules)

lemma indifferent_register: "indifferent (register_prog b)"
  unfolding register_prog_def Let_def by (intro indifferent_rules) (simp_all add: with_pending_def)

lemma indifferent_free: "indifferent (free_prog b)"
  unfolding free_prog_def by (intro indifferent_rules indifferent_absorb indifferent_register) (simp_all add: with_pending_def)

lemma indifferent_take: "indifferent (take_prog i)"
  unfolding take_prog_def by (intro indifferent_rules) (simp_all add: with_pending_def)

lemma indifferent_malloc: "indifferent (malloc_prog pagesize mk_arena sz)"
  unfolding malloc_prog_def new_arena_prog_def by (intro indifferent_rules indifferent_take) (simp_all add: with_pending_def)

lemma indifferent_release: "indifferent (release_prog b)"
  unfolding release_prog_def by (intro indifferent_rules indifferent_free)

lemma indifferent_cut: "indifferent (cut_prog pagesize mk_arena sz)"
  unfolding cut_prog_def Let_def by (intro indifferent_rules indifferent_malloc indifferent_free) (simp_all add: with_pending_def)

section \<open>Threads and finalizers\<close>

text \<open>
  The call of the thread that holds the lock, and where each thread is: outside; in \<open>malloc\<close> before the lock; in \<open>free\<close> before the trylock, and after one
  that has failed; with the lock, at the next \<open>pop\<close> of \<open>_free_pending_blocks\<close>, in the middle of freeing a pending block, in the rest of the call, and about to leave
  the \<open>with\<close> block or the \<open>finally\<close>, with the result. \<open>hw_live\<close> has the blocks that have been handed out and whose \<open>free\<close> has not been called,
  \<open>hw_raised\<close> the exceptions that have left \<open>malloc\<close> and \<open>free\<close>.
\<close>

datatype hcall = CFree block | CMalloc int

datatype hpc = Outside | Wants int | Trying block | Queueing block
  | Popping hcall | Freeing hcall "unit prog" | Finishing "block option prog" | Leaving "exn + block option"

record hworld =
  hw_heap :: heap
  hw_at :: "nat \<Rightarrow> hpc"
  hw_live :: "block set"
  hw_raised :: "exn list"

fun finish_prog :: "int \<Rightarrow> (int \<Rightarrow> exn option) \<Rightarrow> hcall \<Rightarrow> block option prog" where
  "finish_prog pagesize mk_arena (CFree b) = andthen (release_prog b) (\<lambda>_. Done None)"
| "finish_prog pagesize mk_arena (CMalloc sz) = andthen (cut_prog pagesize mk_arena sz) (\<lambda>b. Done (Some b))"

fun got :: "block option \<Rightarrow> block set" where
  "got None = {}" | "got (Some b) = {b}"

text \<open>The next operation of a thread; \<open>None\<close> when it makes none: it is outside, or waits for the lock, which only \<open>malloc\<close> does.\<close>

fun hgo :: "int \<Rightarrow> (int \<Rightarrow> exn option) \<Rightarrow> nat \<Rightarrow> hpc \<Rightarrow> hworld \<Rightarrow> hworld option" where
  "hgo pagesize mk_arena a Outside w = None"
| "hgo pagesize mk_arena a (Wants sz) w =
     (if h_lock (hw_heap w) then None
      else Some (w\<lparr>hw_heap := (hw_heap w)\<lparr>h_lock := True\<rparr>, hw_at := (hw_at w)(a := Popping (CMalloc sz))\<rparr>))"
| "hgo pagesize mk_arena a (Trying b) w =
     (if h_lock (hw_heap w) then Some (w\<lparr>hw_at := (hw_at w)(a := Queueing b)\<rparr>)
      else Some (w\<lparr>hw_heap := (hw_heap w)\<lparr>h_lock := True\<rparr>, hw_at := (hw_at w)(a := Popping (CFree b))\<rparr>))"
| "hgo pagesize mk_arena a (Queueing b) w =
     Some (w\<lparr>hw_heap := with_pending (h_pending (hw_heap w) @ [b]) (hw_heap w), hw_at := (hw_at w)(a := Outside)\<rparr>)"
| "hgo pagesize mk_arena a (Popping c) w =
     (case rev (h_pending (hw_heap w)) of
        [] \<Rightarrow> Some (w\<lparr>hw_at := (hw_at w)(a := Finishing (finish_prog pagesize mk_arena c))\<rparr>)
      | b # bs \<Rightarrow> Some (w\<lparr>hw_heap := with_pending (rev bs) (hw_heap w), hw_at := (hw_at w)(a := Freeing c (release_prog b))\<rparr>))"
| "hgo pagesize mk_arena a (Freeing c (Op f)) w =
     (case f (hw_heap w) of (p, s) \<Rightarrow> Some (w\<lparr>hw_heap := s, hw_at := (hw_at w)(a := Freeing c p)\<rparr>))"
| "hgo pagesize mk_arena a (Freeing c (Done _)) w = Some (w\<lparr>hw_at := (hw_at w)(a := Popping c)\<rparr>)"
| "hgo pagesize mk_arena a (Freeing c (Fails e)) w = Some (w\<lparr>hw_at := (hw_at w)(a := Leaving (Inl e))\<rparr>)"
| "hgo pagesize mk_arena a (Finishing (Op f)) w =
     (case f (hw_heap w) of (p, s) \<Rightarrow> Some (w\<lparr>hw_heap := s, hw_at := (hw_at w)(a := Finishing p)\<rparr>))"
| "hgo pagesize mk_arena a (Finishing (Done r)) w = Some (w\<lparr>hw_at := (hw_at w)(a := Leaving (Inr r))\<rparr>)"
| "hgo pagesize mk_arena a (Finishing (Fails e)) w = Some (w\<lparr>hw_at := (hw_at w)(a := Leaving (Inl e))\<rparr>)"
| "hgo pagesize mk_arena a (Leaving (Inr r)) w =
     Some (w\<lparr>hw_heap := (hw_heap w)\<lparr>h_lock := False\<rparr>, hw_at := (hw_at w)(a := Outside), hw_live := hw_live w \<union> got r\<rparr>)"
| "hgo pagesize mk_arena a (Leaving (Inl e)) w =
     Some (w\<lparr>hw_heap := (hw_heap w)\<lparr>h_lock := False\<rparr>, hw_at := (hw_at w)(a := Outside), hw_raised := hw_raised w @ [e]\<rparr>)"

text \<open>
  A call of \<open>malloc\<close> with a size that passes its assertion, the call of \<open>free\<close> for a block that has been handed out (from the finalizer of its
  \<open>BufferWrapper\<close>, which runs once), and the next operation of a thread.
\<close>

datatype hevent = HMalloc nat int | HFree nat block | HGo nat

fun hstep :: "int \<Rightarrow> (int \<Rightarrow> exn option) \<Rightarrow> hevent \<Rightarrow> hworld \<Rightarrow> hworld option" where
  "hstep pagesize mk_arena (HMalloc a sz) w =
     (case hw_at w a of Outside \<Rightarrow> if 0 \<le> sz then Some (w\<lparr>hw_at := (hw_at w)(a := Wants sz)\<rparr>) else None | _ \<Rightarrow> None)"
| "hstep pagesize mk_arena (HFree a b) w =
     (case hw_at w a of Outside \<Rightarrow>
        if b \<in> hw_live w then Some (w\<lparr>hw_live := hw_live w - {b}, hw_at := (hw_at w)(a := Trying b)\<rparr>) else None
      | _ \<Rightarrow> None)"
| "hstep pagesize mk_arena (HGo a) w = hgo pagesize mk_arena a (hw_at w a) w"

fun hrun :: "int \<Rightarrow> (int \<Rightarrow> exn option) \<Rightarrow> hevent list \<Rightarrow> hworld \<Rightarrow> hworld option" where
  "hrun pagesize mk_arena [] w = Some w"
| "hrun pagesize mk_arena (e # es) w =
     (case hstep pagesize mk_arena e w of None \<Rightarrow> None | Some w' \<Rightarrow> hrun pagesize mk_arena es w')"

definition new_hworld :: "int \<Rightarrow> int \<Rightarrow> hworld" where
  "new_hworld pagesize pid = \<lparr>hw_heap = heap_init pagesize pid 0, hw_at = (\<lambda>_. Outside), hw_live = {}, hw_raised = []\<rparr>"

section \<open>The invariant\<close>

text \<open>The blocks on their way back: no one has them any more, and the heap does not have them yet.\<close>

fun carries :: "hpc \<Rightarrow> block set" where
  "carries (Trying b) = {b}" | "carries (Queueing b) = {b}"
| "carries (Popping (CFree b)) = {b}" | "carries (Freeing (CFree b) _) = {b}"
| "carries _ = {}"

fun holding :: "hpc \<Rightarrow> bool" where
  "holding (Popping _) = True" | "holding (Freeing _ _) = True" | "holding (Finishing _) = True" | "holding (Leaving _) = True"
| "holding _ = False"

definition taken :: "hworld \<Rightarrow> block set" where
  "taken w = hw_live w \<union> set (h_pending (hw_heap w)) \<union> (\<Union>a. carries (hw_at w a))"

definition apart :: "block set \<Rightarrow> block list \<Rightarrow> (nat \<Rightarrow> hpc) \<Rightarrow> bool" where
  "apart L P f \<longleftrightarrow> distinct P \<and> L \<inter> set P = {} \<and> (\<forall>a. carries (f a) \<inter> (L \<union> set P) = {}) \<and>
     (\<forall>a b. a \<noteq> b \<longrightarrow> carries (f a) \<inter> carries (f b) = {})"

text \<open>The heap with its invariant, whatever is pending, and exactly these blocks allocated.\<close>

definition core :: "heap \<Rightarrow> block set \<Rightarrow> bool" where
  "core s A \<longleftrightarrow> heap_inv (with_pending [] s) \<and> h_allocated s = A"

lemma core_upd [simp]: "core (with_pending ps s) A = core s A" "core (s\<lparr>h_lock := l\<rparr>) A = core s A"
  by (simp_all add: core_def with_pending_def heap_inv_def)

definition arena_error :: "(int \<Rightarrow> exn option) \<Rightarrow> exn \<Rightarrow> bool" where
  "arena_error mk_arena e \<longleftrightarrow> (\<exists>n. mk_arena n = Some e)"

text \<open>
  What is known of the thread with the lock: between two blocks the heap has its invariant; in the middle of a body, the rest of the body leads there.
\<close>

fun ends_well :: "(int \<Rightarrow> exn option) \<Rightarrow> block set \<Rightarrow> heap \<Rightarrow> hpc \<Rightarrow> bool" where
  "ends_well mk_arena A s (Freeing c p) \<longleftrightarrow> indifferent p \<and> wp (run_prog p) (\<lambda>_ t. core t A) (\<lambda>_ _. False) s"
| "ends_well mk_arena A s (Finishing p) \<longleftrightarrow> indifferent p \<and>
     wp (run_prog p) (\<lambda>r t. core t (A \<union> got r) \<and> got r \<inter> A = {}) (\<lambda>e t. core t A \<and> arena_error mk_arena e) s"
| "ends_well mk_arena A s (Leaving (Inr r)) \<longleftrightarrow> core s (A \<union> got r) \<and> got r \<inter> A = {}"
| "ends_well mk_arena A s (Leaving (Inl e)) \<longleftrightarrow> core s A \<and> arena_error mk_arena e"
| "ends_well mk_arena A s _ \<longleftrightarrow> core s A"

lemma wp_pending:
  assumes "indifferent p" "\<And>r t ps. Q r (with_pending ps t) = Q r t" "\<And>e t ps. E e (with_pending ps t) = E e t"
  shows "wp (run_prog p) Q E (with_pending ps s) = wp (run_prog p) Q E s"
  using indifferent_run [OF assms(1), of ps s] by (cases "run_prog p s") (auto simp: wp_def assms(2,3) split: sum.split)

lemma ends_well_pending: "ends_well mk_arena A (with_pending ps s) c = ends_well mk_arena A s c"
  by (cases "(mk_arena, A, s, c)" rule: ends_well.cases) (auto simp: wp_pending)

definition hw_inv :: "(int \<Rightarrow> exn option) \<Rightarrow> hworld \<Rightarrow> bool" where
  "hw_inv mk_arena w \<longleftrightarrow> apart (hw_live w) (h_pending (hw_heap w)) (hw_at w) \<and>
     (h_lock (hw_heap w) \<longleftrightarrow> (\<exists>a. holding (hw_at w a))) \<and>
     (\<forall>a b. holding (hw_at w a) \<longrightarrow> holding (hw_at w b) \<longrightarrow> a = b) \<and>
     (if h_lock (hw_heap w) then \<forall>a. holding (hw_at w a) \<longrightarrow> ends_well mk_arena (taken w) (hw_heap w) (hw_at w a)
      else core (hw_heap w) (taken w)) \<and>
     (\<forall>e \<in> set (hw_raised w). arena_error mk_arena e)"

text \<open>The bodies end well.\<close>

lemma core_without_pending: "heap_inv t \<Longrightarrow> h_pending t = [] \<Longrightarrow> core t (h_allocated t)"
  by (cases t) (simp add: core_def with_pending_def)

lemma release_ends:
  assumes "core s A" "b \<in> A"
  shows "wp (run_prog (release_prog b)) (\<lambda>_ t. core t (A - {b})) (\<lambda>_ _. False) s"
proof -
  define u where "u = with_pending [] s"
  have u: "h_allocated u = A" "h_pending u = []" "heap_inv u" using assms(1) by (simp_all add: core_def with_pending_def u_def)
  have "wp (heap_free b) (\<lambda>_ t. core t (A - {b})) (\<lambda>_ _. False) (u\<lparr>h_allocated := A - {b}\<rparr>)"
  proof (rule wp_mono [OF heap_free_inv [OF u(3), of b, unfolded u(1,2)]], goal_cases)
    case (3 a t)
    then show ?case using core_without_pending [of t] by simp
  qed (use assms(2) in simp_all)
  then have "wp (run_prog (release_prog b)) (\<lambda>_ t. core t (A - {b})) (\<lambda>_ _. False) u"
    using u(1) assms(2) by (simp add: run_release wp_simps)
  then show ?thesis unfolding u_def by (simp add: wp_pending [OF indifferent_release])
qed

lemma cut_ends:
  assumes "core s A" "3 \<le> k"
  shows "wp (run_prog (cut_prog (2 ^ k) mk_arena sz)) (\<lambda>b t. core t (insert b A) \<and> b \<notin> A) (\<lambda>e t. core t A \<and> arena_error mk_arena e) s"
proof -
  define u where "u = with_pending [] s"
  have u: "h_allocated u = A" "h_pending u = []" "heap_inv u" using assms(1) by (simp_all add: core_def with_pending_def u_def)
  have "wp (run_prog (cut_prog (2 ^ k) mk_arena sz)) (\<lambda>b t. core t (insert b A) \<and> b \<notin> A) (\<lambda>e t. core t A \<and> arena_error mk_arena e) u"
    unfolding run_cut
  proof (rule wp_mono [OF malloc_cut_ok [OF u(3) assms(2)]], goal_cases)
    case (1 b t)
    then show ?case using core_without_pending [of t] u(1,2) by simp
  next
    case (2 e t)
    then show ?case using core_without_pending [of t] u(1,2) by (auto simp: arena_error_def)
  qed
  then show ?thesis unfolding u_def by (simp add: wp_pending [OF indifferent_cut])
qed

lemma finish_ends:
  assumes "core s A" "3 \<le> k" "case c of CFree b \<Rightarrow> b \<in> A \<and> A' = A - {b} | CMalloc _ \<Rightarrow> A' = A"
  shows "ends_well mk_arena A' s (Finishing (finish_prog (2 ^ k) mk_arena c))"
proof (cases c)
  case (CFree b)
  with assms have b: "b \<in> A" "A' = A - {b}" by simp_all
  have "wp (run_prog (release_prog b)) (\<lambda>_ t. core t A') (\<lambda>e t. core t A' \<and> arena_error mk_arena e) s"
    unfolding b(2) by (rule wp_mono [OF release_ends [OF assms(1) b(1)]]) auto
  with CFree show ?thesis by (simp add: indifferent_andthen indifferent_release indifferent.intros wp_simps)
next
  case (CMalloc sz)
  with cut_ends [OF assms(1,2), of mk_arena sz] assms(3) show ?thesis
    by (simp add: indifferent_andthen indifferent_cut indifferent.intros wp_simps)
qed

text \<open>What the other threads carry, seen from thread \<open>a\<close>.\<close>

definition elsewhere :: "(nat \<Rightarrow> hpc) \<Rightarrow> nat \<Rightarrow> block set" where
  "elsewhere f a = (\<Union>x \<in> - {a}. carries (f x))"

lemma elsewhere_upd [simp]: "elsewhere (f(a := c)) a = elsewhere f a"
  by (auto simp: elsewhere_def)

lemma taken_split: "taken w = hw_live w \<union> set (h_pending (hw_heap w)) \<union> carries (hw_at w a) \<union> elsewhere (hw_at w) a"
  unfolding taken_def elsewhere_def by blast

lemma apart_elsewhere: "apart L P f \<Longrightarrow> (L \<union> set P \<union> carries (f a)) \<inter> elsewhere f a = {}"
  unfolding apart_def elsewhere_def by blast

lemma apart_own: "apart L P f \<Longrightarrow> distinct P \<and> L \<inter> set P = {} \<and> carries (f a) \<inter> (L \<union> set P) = {}"
  unfolding apart_def by blast

lemma apart_upd:
  assumes "apart L P f" "distinct P'" "L' \<inter> set P' = {}" "carries c \<inter> (L' \<union> set P') = {}" "(L' \<union> set P' \<union> carries c) \<inter> elsewhere f a = {}"
  shows "apart L' P' (f(a := c))"
  using assms unfolding apart_def elsewhere_def by (auto simp: disjoint_iff)

text \<open>A thread without the lock moves a block on.\<close>

lemma inv_without_lock:
  assumes inv: "hw_inv mk_arena w" and a: "\<not> holding (hw_at w a)" "\<not> holding c"
    and own: "distinct P" "L \<inter> set P = {}" "carries c \<inter> (L \<union> set P) = {}"
      "L \<union> set P \<union> carries c = hw_live w \<union> set (h_pending (hw_heap w)) \<union> carries (hw_at w a)"
  shows "hw_inv mk_arena (w\<lparr>hw_heap := with_pending P (hw_heap w), hw_at := (hw_at w)(a := c), hw_live := L\<rparr>)" (is "hw_inv _ ?w")
proof -
  have ap: "apart (hw_live w) (h_pending (hw_heap w)) (hw_at w)" using inv by (simp add: hw_inv_def)
  have t: "taken ?w = taken w" unfolding taken_split [of _ a] using own(4) by (simp add: with_pending_def)
  have "apart L P ((hw_at w)(a := c))"
    by (rule apart_upd [OF ap own(1-3)]) (use own(4) apart_elsewhere [OF ap, of a] in simp)
  moreover have h: "holding (((hw_at w)(a := c)) b) = holding (hw_at w b)" for b using a by simp
  moreover have "((hw_at w)(a := c)) b = hw_at w b" if "holding (hw_at w b)" for b using a(1) that by auto
  ultimately show ?thesis
    using inv unfolding hw_inv_def t by (auto simp: ends_well_pending) (simp_all add: with_pending_def)
qed

text \<open>A thread takes the lock that nobody has.\<close>

lemma inv_take_lock:
  assumes inv: "hw_inv mk_arena w" and "\<not> h_lock (hw_heap w)" and c: "carries (Popping c) = carries (hw_at w a)"
  shows "hw_inv mk_arena (w\<lparr>hw_heap := (hw_heap w)\<lparr>h_lock := True\<rparr>, hw_at := (hw_at w)(a := Popping c)\<rparr>)" (is "hw_inv _ ?w")
proof -
  have ap: "apart (hw_live w) (h_pending (hw_heap w)) (hw_at w)" using inv by (simp add: hw_inv_def)
  have t: "taken ?w = taken w" unfolding taken_split [of _ a] using c by simp
  have "apart (hw_live w) (h_pending (hw_heap w)) ((hw_at w)(a := Popping c))"
    by (rule apart_upd [OF ap]) (use apart_own [OF ap, of a] apart_elsewhere [OF ap, of a] c in simp_all)
  moreover have "\<not> holding (hw_at w b)" "core (hw_heap w) (taken w)" for b using inv assms(2) by (auto simp: hw_inv_def)
  ultimately show ?thesis using inv unfolding hw_inv_def t by auto
qed

text \<open>The thread with the lock goes on.\<close>

lemma inv_with_lock:
  assumes inv: "hw_inv mk_arena w" and a: "holding (hw_at w a)" "holding c"
    and s: "h_lock s = h_lock (hw_heap w)"
    and own: "distinct (h_pending s)" "hw_live w \<inter> set (h_pending s) = {}" "carries c \<inter> (hw_live w \<union> set (h_pending s)) = {}"
      "set (h_pending s) \<union> carries c \<subseteq> hw_live w \<union> set (h_pending (hw_heap w)) \<union> carries (hw_at w a)"
    and ends: "ends_well mk_arena (hw_live w \<union> set (h_pending s) \<union> carries c \<union> elsewhere (hw_at w) a) s c"
  shows "hw_inv mk_arena (w\<lparr>hw_heap := s, hw_at := (hw_at w)(a := c)\<rparr>)" (is "hw_inv _ ?w")
proof -
  have ap: "apart (hw_live w) (h_pending (hw_heap w)) (hw_at w)" using inv by (simp add: hw_inv_def)
  have t: "taken ?w = hw_live w \<union> set (h_pending s) \<union> carries c \<union> elsewhere (hw_at w) a" unfolding taken_split [of _ a] by simp
  have "apart (hw_live w) (h_pending s) ((hw_at w)(a := c))"
    by (rule apart_upd [OF ap own(1-3)]) (use own(4) apart_elsewhere [OF ap, of a] in blast)
  moreover have "h_lock (hw_heap w)" "\<And>b. holding (hw_at w b) \<Longrightarrow> b = a" using inv a(1) by (auto simp: hw_inv_def)
  ultimately show ?thesis using inv a(2) s ends unfolding hw_inv_def t by auto
qed

text \<open>It gives the lock back.\<close>

lemma inv_leave:
  assumes inv: "hw_inv mk_arena w" and a: "hw_at w a = Leaving r"
  shows "hw_inv mk_arena (w\<lparr>hw_heap := (hw_heap w)\<lparr>h_lock := False\<rparr>, hw_at := (hw_at w)(a := Outside),
    hw_live := hw_live w \<union> (case r of Inl _ \<Rightarrow> {} | Inr x \<Rightarrow> got x), hw_raised := hw_raised w @ (case r of Inl e \<Rightarrow> [e] | Inr _ \<Rightarrow> [])\<rparr>)"
    (is "hw_inv _ ?w")
proof -
  let ?new = "case r of Inl _ \<Rightarrow> {} | Inr x \<Rightarrow> got x"
  have ap: "apart (hw_live w) (h_pending (hw_heap w)) (hw_at w)" using inv by (simp add: hw_inv_def)
  have h: "holding (hw_at w a)" using a by simp
  then have l1: "h_lock (hw_heap w)" "\<And>b. holding (hw_at w b) \<Longrightarrow> b = a" using inv unfolding hw_inv_def by blast+
  then have "ends_well mk_arena (taken w) (hw_heap w) (hw_at w a)" using inv h unfolding hw_inv_def by simp
  note l = l1 this [unfolded a]
  then have new: "core (hw_heap w) (taken w \<union> ?new)" "?new \<inter> taken w = {}" and err: "r = Inl e \<Longrightarrow> arena_error mk_arena e" for e
    by (cases r; simp)+
  have t: "taken ?w = taken w \<union> ?new" unfolding taken_split [of _ a] using a by auto
  have "apart (hw_live w \<union> ?new) (h_pending (hw_heap w)) ((hw_at w)(a := Outside))"
  proof (rule apart_upd [OF ap])
    show "distinct (h_pending (hw_heap w))" using apart_own [OF ap] by blast
    show "(hw_live w \<union> ?new) \<inter> set (h_pending (hw_heap w)) = {}" using apart_own [OF ap] new(2) unfolding taken_def by blast
    show "(hw_live w \<union> ?new \<union> set (h_pending (hw_heap w)) \<union> carries Outside) \<inter> elsewhere (hw_at w) a = {}"
      using apart_elsewhere [OF ap, of a] new(2) unfolding taken_split [of _ a] by auto
  qed simp
  moreover have "\<not> holding (((hw_at w)(a := Outside)) b)" for b using l(2) by auto
  ultimately show ?thesis using inv new(1) err unfolding hw_inv_def t by (auto split: sum.splits)
qed

lemma with_same_pending [simp]: "with_pending (h_pending s) s = s"
  by (cases s) (simp add: with_pending_def)

lemma pending_with [simp]: "h_pending (with_pending ps s) = ps" "h_lock (with_pending ps s) = h_lock s"
  by (simp_all add: with_pending_def)

lemma inv_holder:
  assumes "hw_inv mk_arena w" "hw_at w a = c" "holding c"
  shows "h_lock (hw_heap w)" "ends_well mk_arena (taken w) (hw_heap w) c"
proof -
  from assms show "h_lock (hw_heap w)" unfolding hw_inv_def by blast
  with assms show "ends_well mk_arena (taken w) (hw_heap w) c" unfolding hw_inv_def by auto
qed

text \<open>One operation in the middle of a body.\<close>

lemma op_ends:
  assumes "indifferent (Op f)" "wp (run_prog (Op f)) Q E s" "f s = (p, t)"
  shows "indifferent p" "wp (run_prog p) Q E t" "h_pending t = h_pending s" "h_lock t = h_lock s"
proof -
  from assms(1) have "indifferent (fst (f s))" "h_lock (snd (f s)) = h_lock s" "h_pending (snd (f s)) = h_pending s"
    by (auto elim: indifferent.cases)
  with assms(3) show "indifferent p" "h_pending t = h_pending s" "h_lock t = h_lock s" by simp_all
  from assms(2,3) show "wp (run_prog p) Q E t" by (simp add: wp_def)
qed

lemma inv_popping:
  assumes inv: "hw_inv mk_arena w" and k: "3 \<le> k" and a: "hw_at w a = Popping c" and go: "hgo (2 ^ k) mk_arena a (Popping c) w = Some w'"
  shows "hw_inv mk_arena w'"
proof -
  let ?P = "h_pending (hw_heap w)" and ?E = "elsewhere (hw_at w) a" and ?C = "carries (Popping c)"
  have ap: "apart (hw_live w) ?P (hw_at w)" using inv by (simp add: hw_inv_def)
  have lk: "holding (hw_at w a)" "core (hw_heap w) (taken w)" using inv_holder [OF inv a] a by simp_all
  note own = apart_own [OF ap, of a, unfolded a] and els = apart_elsewhere [OF ap, of a, unfolded a]
  have t: "taken w = hw_live w \<union> set ?P \<union> ?C \<union> ?E" using taken_split [of w a] a by simp
  show ?thesis
  proof (cases "rev ?P")
    case Nil
    then have none: "?P = []" by simp
    have w': "w' = w\<lparr>hw_heap := hw_heap w, hw_at := (hw_at w)(a := Finishing (finish_prog (2 ^ k) mk_arena c))\<rparr>"
      using go Nil by simp
    have A: "case c of CFree b \<Rightarrow> b \<in> taken w \<and> hw_live w \<union> set ?P \<union> ?E = taken w - {b} | CMalloc _ \<Rightarrow> hw_live w \<union> set ?P \<union> ?E = taken w"
      using t own els by (cases c) auto
    show ?thesis
      unfolding w'
      by (rule inv_with_lock [OF inv lk(1)]) (use none own finish_ends [OF lk(2) k A] in simp_all)
  next
    case (Cons b bs)
    then have P: "?P = rev bs @ [b]" by (metis rev_rev_ident rev.simps(2))
    have w': "w' = w\<lparr>hw_heap := with_pending (rev bs) (hw_heap w), hw_at := (hw_at w)(a := Freeing c (release_prog b))\<rparr>"
      using go Cons by simp
    have C: "carries (Freeing c (release_prog b)) = ?C" by (cases c) simp_all
    have b: "b \<in> taken w" "hw_live w \<union> set (rev bs) \<union> ?C \<union> ?E = taken w - {b}"
      using t own els unfolding P by auto
    have ends: "ends_well mk_arena (taken w - {b}) (with_pending (rev bs) (hw_heap w)) (Freeing c (release_prog b))"
      using release_ends [of "with_pending (rev bs) (hw_heap w)" "taken w" b] lk(2) b(1) by (simp add: indifferent_release)
    show ?thesis
      unfolding w'
    proof (rule inv_with_lock [OF inv lk(1)])
      show "ends_well mk_arena (hw_live w \<union> set (h_pending (with_pending (rev bs) (hw_heap w))) \<union> carries (Freeing c (release_prog b)) \<union> ?E)
         (with_pending (rev bs) (hw_heap w)) (Freeing c (release_prog b))"
        using ends unfolding C pending_with b(2) .
    qed (use own a in \<open>auto simp: P C\<close>)
  qed
qed

lemma hgo_inv:
  assumes inv: "hw_inv mk_arena w" and k: "3 \<le> k" and go: "hgo (2 ^ k) mk_arena a (hw_at w a) w = Some w'"
  shows "hw_inv mk_arena w'"
proof -
  have ap: "apart (hw_live w) (h_pending (hw_heap w)) (hw_at w)" using inv by (simp add: hw_inv_def)
  note own = apart_own [OF ap, of a]
  have t: "taken w = hw_live w \<union> set (h_pending (hw_heap w)) \<union> carries (hw_at w a) \<union> elsewhere (hw_at w) a" by (rule taken_split)
  show ?thesis
  proof (cases "hw_at w a")
    case Outside
    with go show ?thesis by simp
  next
    case (Wants sz)
    with go have "\<not> h_lock (hw_heap w)"
      "w' = w\<lparr>hw_heap := (hw_heap w)\<lparr>h_lock := True\<rparr>, hw_at := (hw_at w)(a := Popping (CMalloc sz))\<rparr>" by (simp_all split: if_splits)
    with inv_take_lock [OF inv, of "CMalloc sz" a] Wants show ?thesis by simp
  next
    case (Trying b)
    show ?thesis
    proof (cases "h_lock (hw_heap w)")
      case True
      with inv_without_lock [OF inv, of a "Queueing b" "h_pending (hw_heap w)" "hw_live w"] own go Trying show ?thesis by simp
    next
      case False
      with inv_take_lock [OF inv, of "CFree b" a] go Trying show ?thesis by simp
    qed
  next
    case (Queueing b)
    with inv_without_lock [OF inv, of a Outside "h_pending (hw_heap w) @ [b]" "hw_live w"] own go show ?thesis by simp
  next
    case (Popping c)
    with inv_popping [OF inv k] go show ?thesis by simp
  next
    case (Freeing c p)
    note lk = inv_holder [OF inv Freeing]
    have C: "carries (Freeing c q) = carries (Popping c)" for q by (cases c) simp_all
    show ?thesis
    proof (cases p)
      case (Done u)
      with lk have "core (hw_heap w) (taken w)" by (simp add: wp_simps)
      moreover have "set (h_pending (hw_heap w)) \<subseteq> hw_live w \<union> set (h_pending (hw_heap w)) \<union> carries (Popping c)" by blast
      ultimately show ?thesis using inv_with_lock [OF inv, of a "Popping c" "hw_heap w"] own t go Freeing Done C by simp
    next
      case (Fails e)
      with lk show ?thesis by (simp add: wp_simps)
    next
      case (Op f)
      obtain q s where f: "f (hw_heap w) = (q, s)" by (cases "f (hw_heap w)")
      from lk(2) [simplified Op] have i: "indifferent (Op f)" "wp (run_prog (Op f)) (\<lambda>_ t. core t (taken w)) (\<lambda>_ _. False) (hw_heap w)" by simp_all
      note o = op_ends [OF i f]
      have "ends_well mk_arena (taken w) s (Freeing c q)" using o(1,2) by simp
      moreover have "set (h_pending (hw_heap w)) \<subseteq> hw_live w \<union> set (h_pending (hw_heap w)) \<union> carries (Popping c)" by blast
      ultimately show ?thesis using inv_with_lock [OF inv, of a "Freeing c q" s] own t go Freeing Op f o(3,4) C by simp
    qed
  next
    case (Finishing p)
    note lk = inv_holder [OF inv Finishing]
    show ?thesis
    proof (cases p)
      case (Done r)
      with lk have "ends_well mk_arena (taken w) (hw_heap w) (Leaving (Inr r))" by (simp add: wp_simps)
      with inv_with_lock [OF inv, of a "Leaving (Inr r)" "hw_heap w"] own t go Finishing Done show ?thesis by simp
    next
      case (Fails e)
      with lk have "ends_well mk_arena (taken w) (hw_heap w) (Leaving (Inl e))" by (simp add: wp_simps)
      with inv_with_lock [OF inv, of a "Leaving (Inl e)" "hw_heap w"] own t go Finishing Fails show ?thesis by simp
    next
      case (Op f)
      obtain q s where f: "f (hw_heap w) = (q, s)" by (cases "f (hw_heap w)")
      from lk(2) [unfolded Op] have i: "indifferent (Op f)" "wp (run_prog (Op f)) (\<lambda>r t. core t (taken w \<union> got r) \<and> got r \<inter> taken w = {})
          (\<lambda>e t. core t (taken w) \<and> arena_error mk_arena e) (hw_heap w)" by simp_all
      note o = op_ends [OF i f]
      have "ends_well mk_arena (taken w) s (Finishing q)" using o(1,2) by simp
      with inv_with_lock [OF inv, of a "Finishing q" s] own t go Finishing Op f o(3,4) show ?thesis by simp
    qed
  next
    case (Leaving r)
    with inv_leave [OF inv Leaving] go show ?thesis by (cases r) simp_all
  qed
qed

lemma hstep_inv:
  assumes inv: "hw_inv mk_arena w" and k: "3 \<le> k" and step: "hstep (2 ^ k) mk_arena e w = Some w'"
  shows "hw_inv mk_arena w'"
proof (cases e)
  case (HMalloc a sz)
  have ap: "apart (hw_live w) (h_pending (hw_heap w)) (hw_at w)" using inv by (simp add: hw_inv_def)
  from step HMalloc have w': "hw_at w a = Outside" "w' = w\<lparr>hw_at := (hw_at w)(a := Wants sz)\<rparr>" by (simp_all split: if_splits hpc.splits)
  with inv_without_lock [OF inv, of a "Wants sz" "h_pending (hw_heap w)" "hw_live w"] apart_own [OF ap, of a] show ?thesis by simp
next
  case (HFree a b)
  have ap: "apart (hw_live w) (h_pending (hw_heap w)) (hw_at w)" using inv by (simp add: hw_inv_def)
  from step HFree have w': "hw_at w a = Outside" "b \<in> hw_live w"
    "w' = w\<lparr>hw_heap := with_pending (h_pending (hw_heap w)) (hw_heap w), hw_at := (hw_at w)(a := Trying b), hw_live := hw_live w - {b}\<rparr>"
    by (cases w, auto split: if_splits hpc.splits)+
  show ?thesis
    unfolding w'(3)
    by (rule inv_without_lock [OF inv]) (use w'(1,2) apart_own [OF ap, of a] in auto)
next
  case (HGo a)
  with hgo_inv [OF inv k, of a] step show ?thesis by simp
qed

lemma hrun_inv: "hw_inv mk_arena w \<Longrightarrow> 3 \<le> k \<Longrightarrow> hrun (2 ^ k) mk_arena es w = Some w' \<Longrightarrow> hw_inv mk_arena w'"
  by (induction es arbitrary: w) (auto split: option.splits dest: hstep_inv)

lemma new_inv: "hw_inv mk_arena (new_hworld (2 ^ k) pid)"
proof -
  have "heap_inv (heap_init (2 ^ k) pid 0)" by (rule heap_inv_init) simp
  then have "core (heap_init (2 ^ k) pid 0) {}" using core_without_pending [of "heap_init (2 ^ k) pid 0"] by (simp add: heap_init_def)
  then show ?thesis by (simp add: hw_inv_def new_hworld_def apart_def taken_def) (simp add: heap_init_def)
qed

text \<open>At any moment, also in the middle of a body, the blocks that are out, pending or on their way are disjoint.\<close>

lemma taken_disjoint:
  assumes inv: "hw_inv mk_arena w" and b: "b \<in> taken w" "c \<in> taken w" "b \<noteq> c" "barena b = barena c"
  shows "bstop b \<le> bstart c \<or> bstop c \<le> bstart b"
proof -
  have ends: "\<exists>t A. core t A \<and> taken w \<subseteq> A" if "ends_well mk_arena (taken w) s pc" for s pc
    using that
    by (cases "(mk_arena, taken w, s, pc)" rule: ends_well.cases) (auto simp: wp_def split: prod.splits sum.splits)
  have "\<exists>t A. core t A \<and> taken w \<subseteq> A"
  proof (cases "h_lock (hw_heap w)")
    case True
    then obtain a where "holding (hw_at w a)" using inv by (auto simp: hw_inv_def)
    with inv_holder(2) [OF inv refl this] ends show ?thesis by blast
  next
    case False
    with inv show ?thesis unfolding hw_inv_def by auto
  qed
  then obtain t A where t: "heap_inv (with_pending [] t)" "taken w \<subseteq> h_allocated t" by (auto simp: core_def)
  let ?u = "with_pending [] t"
  from t(1) have "tiles (free_blocks ?u \<union> h_allocated ?u) (h_arenas ?u)" by (simp add: heap_inv_def tidy_def)
  from tiles_disj [OF this, of b c] t(2) b show ?thesis by (force simp: with_pending_def)
qed

text \<open>
  C5. Any number of threads call \<open>malloc\<close> and \<open>free\<close> of one heap, and finalizers call \<open>free\<close>, at any moment: every single operation on one of the heap's lists,
  dictionaries and sets may be followed by one of any other thread, also while a block is being cut or merged. Two blocks that have been handed out and not freed since
  never share a byte, nor does one share a byte with a block that is pending or on its way back; the only exceptions that leave a call are those of making an mmap, never
  a \<open>KeyError\<close>, \<open>ValueError\<close> or \<open>IndexError\<close> of the heap's own; and no \<open>free\<close> ever waits: what a thread does next is always possible unless it wants
  the lock for \<open>malloc\<close> and another has it.
\<close>

theorem interleaving_disjoint:
  assumes "hrun (2 ^ k) mk_arena es (new_hworld (2 ^ k) pid) = Some w" "3 \<le> k"
  shows "(\<forall>b \<in> hw_live w. \<forall>c \<in> taken w. b \<noteq> c \<longrightarrow> barena b = barena c \<longrightarrow> bstop b \<le> bstart c \<or> bstop c \<le> bstart b) \<and>
    (\<forall>e \<in> set (hw_raised w). \<exists>n. mk_arena n = Some e) \<and>
    (\<forall>a. hw_at w a \<noteq> Outside \<longrightarrow> hstep (2 ^ k) mk_arena (HGo a) w \<noteq> None \<or>
      (\<exists>sz b. hw_at w a = Wants sz \<and> b \<noteq> a \<and> holding (hw_at w b)))"
proof -
  have inv: "hw_inv mk_arena w" by (rule hrun_inv [OF new_inv assms(2,1)])
  have "hw_live w \<subseteq> taken w" by (auto simp: taken_def)
  then have "\<forall>b \<in> hw_live w. \<forall>c \<in> taken w. b \<noteq> c \<longrightarrow> barena b = barena c \<longrightarrow> bstop b \<le> bstart c \<or> bstop c \<le> bstart b"
    using taken_disjoint [OF inv] by blast
  moreover have "\<forall>e \<in> set (hw_raised w). \<exists>n. mk_arena n = Some e" using inv by (simp add: hw_inv_def arena_error_def)
  moreover have "hstep (2 ^ k) mk_arena (HGo a) w \<noteq> None \<or> (\<exists>sz b. hw_at w a = Wants sz \<and> b \<noteq> a \<and> holding (hw_at w b))"
    if "hw_at w a \<noteq> Outside" for a
  proof (cases "\<exists>sz. hw_at w a = Wants sz \<and> h_lock (hw_heap w)")
    case True
    then obtain sz b where "hw_at w a = Wants sz" "holding (hw_at w b)" using inv by (auto simp: hw_inv_def)
    then show ?thesis by (cases "b = a") auto
  next
    case False
    with that show ?thesis
      by (cases "(2 ^ k :: int, mk_arena, a, hw_at w a, w)" rule: hgo.cases) (auto split: list.split prod.split)
  qed
  ultimately show ?thesis by blast
qed

section \<open>Without interruption\<close>

text \<open>A thread that nobody interrupts makes the calls of theory Shm_Heap.\<close>

definition alone :: "int \<Rightarrow> (int \<Rightarrow> exn option) \<Rightarrow> nat \<Rightarrow> hworld \<Rightarrow> hworld \<Rightarrow> bool" where
  "alone pagesize mk_arena a w w' \<longleftrightarrow> (\<exists>n. hrun pagesize mk_arena (replicate n (HGo a)) w = Some w')"

lemma hrun_append: "hrun ps mk (es @ fs) w = (case hrun ps mk es w of None \<Rightarrow> None | Some w' \<Rightarrow> hrun ps mk fs w')"
  by (induction es arbitrary: w) (auto split: option.split)

lemma alone_refl: "alone ps mk a w w"
  unfolding alone_def by (rule exI [of _ 0]) simp

lemma alone_step: "hstep ps mk (HGo a) w = Some w' \<Longrightarrow> alone ps mk a w' w'' \<Longrightarrow> alone ps mk a w w''"
  unfolding alone_def by (elim exE, rename_tac n, rule_tac x = "Suc n" in exI) simp

lemma alone_trans: "alone ps mk a w w' \<Longrightarrow> alone ps mk a w' w'' \<Longrightarrow> alone ps mk a w w''"
  unfolding alone_def
  by (elim exE, rename_tac m n, rule_tac x = "m + n" in exI) (simp add: replicate_add hrun_append)

lemma finishing_alone:
  "hw_at w a = Finishing p \<Longrightarrow> run_prog p (hw_heap w) = (r, t) \<Longrightarrow>
   alone ps mk a w (w\<lparr>hw_heap := t, hw_at := (hw_at w)(a := Leaving r)\<rparr>)"
proof (induction p arbitrary: w)
  case (Op f)
  obtain q s where f: "f (hw_heap w) = (q, s)" by (cases "f (hw_heap w)")
  let ?w = "w\<lparr>hw_heap := s, hw_at := (hw_at w)(a := Finishing q)\<rparr>"
  have "alone ps mk a ?w (?w\<lparr>hw_heap := t, hw_at := (hw_at ?w)(a := Leaving r)\<rparr>)"
    using Op.prems f rangeI [of f "hw_heap w"] by (intro Op.IH [of "(q, s)" q]) auto
  moreover have "?w\<lparr>hw_heap := t, hw_at := (hw_at ?w)(a := Leaving r)\<rparr> = w\<lparr>hw_heap := t, hw_at := (hw_at w)(a := Leaving r)\<rparr>" by simp
  moreover have "hstep ps mk (HGo a) w = Some ?w" using Op.prems(1) f by simp
  ultimately show ?case using alone_step [of ps mk a w ?w] by metis
qed (auto intro!: alone_step [OF _ alone_refl] simp: ret_def raise_def)

lemma freeing_alone:
  "hw_at w a = Freeing c p \<Longrightarrow> run_prog p (hw_heap w) = (r, t) \<Longrightarrow>
   alone ps mk a w (w\<lparr>hw_heap := t, hw_at := (hw_at w)(a := case r of Inl e \<Rightarrow> Leaving (Inl e) | Inr _ \<Rightarrow> Popping c)\<rparr>)"
proof (induction p arbitrary: w)
  case (Op f)
  obtain q s where f: "f (hw_heap w) = (q, s)" by (cases "f (hw_heap w)")
  let ?w = "w\<lparr>hw_heap := s, hw_at := (hw_at w)(a := Freeing c q)\<rparr>"
  have "alone ps mk a ?w (?w\<lparr>hw_heap := t, hw_at := (hw_at ?w)(a := case r of Inl e \<Rightarrow> Leaving (Inl e) | Inr _ \<Rightarrow> Popping c)\<rparr>)"
    using Op.prems f rangeI [of f "hw_heap w"] by (intro Op.IH [of "(q, s)" q]) auto
  moreover have "?w\<lparr>hw_heap := t, hw_at := (hw_at ?w)(a := case r of Inl e \<Rightarrow> Leaving (Inl e) | Inr _ \<Rightarrow> Popping c)\<rparr> = w\<lparr>hw_heap := t, hw_at := (hw_at w)(a := case r of Inl e \<Rightarrow> Leaving (Inl e) | Inr _ \<Rightarrow> Popping c)\<rparr>" by simp
  moreover have "hstep ps mk (HGo a) w = Some ?w" using Op.prems(1) f by simp
  ultimately show ?case using alone_step [of ps mk a w ?w] by metis
qed (auto intro!: alone_step [OF _ alone_refl] simp: ret_def raise_def)

lemma popping_alone:
  assumes "hw_at w a = Popping c" "bindA free_pending_blocks (\<lambda>_. run_prog (finish_prog ps mk c)) (hw_heap w) = (r, t)"
  shows "alone ps mk a w (w\<lparr>hw_heap := t, hw_at := (hw_at w)(a := Leaving r)\<rparr>)"
  using assms
proof (induction "hw_heap w" arbitrary: w rule: free_pending_blocks.induct)
  case 1
  let ?s = "hw_heap w"
  show ?case
  proof (cases "rev (h_pending ?s)")
    case Nil
    let ?w = "w\<lparr>hw_at := (hw_at w)(a := Finishing (finish_prog ps mk c))\<rparr>"
    have "alone ps mk a ?w (?w\<lparr>hw_heap := t, hw_at := (hw_at ?w)(a := Leaving r)\<rparr>)"
      using 1(3) Nil by (intro finishing_alone [of _ _ "finish_prog ps mk c"]) (simp_all add: bindA_def free_pending_blocks.simps [of ?s])
    with Nil 1(2) show ?thesis by (intro alone_step [of ps mk a w ?w]) simp_all
  next
    case (Cons b bs)
    then have P: "h_pending ?s \<noteq> []" "b = last (h_pending ?s)" "rev bs = butlast (h_pending ?s)" by (metis rev.simps rev_rev_ident append_is_Nil_conv list.distinct(1), metis last_snoc rev.simps(2) rev_rev_ident, metis butlast_snoc rev.simps(2) rev_rev_ident)
    let ?s1 = "with_pending (rev bs) ?s"
    let ?w = "w\<lparr>hw_heap := ?s1, hw_at := (hw_at w)(a := Freeing c (release_prog b))\<rparr>"
    have step: "hstep ps mk (HGo a) w = Some ?w" using Cons 1(2) by simp
    obtain x u where rel: "run_prog (release_prog b) ?s1 = (x, u)" by (cases "run_prog (release_prog b) ?s1")
    have free: "alone ps mk a ?w (?w\<lparr>hw_heap := u, hw_at := (hw_at ?w)(a := case x of Inl e \<Rightarrow> Leaving (Inl e) | Inr _ \<Rightarrow> Popping c)\<rparr>)"
      using rel by (intro freeing_alone) simp_all
    have s1: "?s\<lparr>h_pending := butlast (h_pending ?s)\<rparr> = ?s1" by (simp add: P with_pending_def)
    have rel': "(if b \<notin> h_allocated ?s1 then (Inl KeyError, ?s1) else heap_free b (?s1\<lparr>h_allocated := h_allocated ?s1 - {b}\<rparr>)) = (x, u)"
      using rel by (simp add: run_release act_defs split: if_splits)
    show ?thesis
    proof (cases x)
      case (Inl e)
      then have "free_pending_blocks ?s = (Inl e, u)"
        using P(1) rel' unfolding free_pending_blocks.simps [of ?s] Let_def s1 P(2) [symmetric] by (auto split: if_splits)
      with 1(3) have "r = Inl e" "t = u" by (simp_all add: bindA_def)
      with free Inl show ?thesis by (intro alone_step [OF step]) simp
    next
      case (Inr y)
      then have ok: "b \<in> h_allocated ?s1" "heap_free b (?s1\<lparr>h_allocated := h_allocated ?s1 - {b}\<rparr>) = (Inr (), u)" using rel' by (auto split: if_splits)
      then have go: "free_pending_blocks ?s = free_pending_blocks u"
        using P(1) unfolding free_pending_blocks.simps [of ?s] Let_def s1 P(2) [symmetric] by simp
      let ?v = "?w\<lparr>hw_heap := u, hw_at := (hw_at ?w)(a := Popping c)\<rparr>"
      have "alone ps mk a ?v (?v\<lparr>hw_heap := t, hw_at := (hw_at ?v)(a := Leaving r)\<rparr>)"
        using ok 1(3) go P s1 by (intro 1(1) [OF P(1) refl refl]) (simp_all add: bindA_def)
      with free Inr show ?thesis by (intro alone_step [OF step]) (auto elim: alone_trans)
    qed
  qed
qed

definition leaves_with :: "exn + block option \<Rightarrow> heap \<Rightarrow> hworld \<Rightarrow> hworld" where
  "leaves_with r t w = w\<lparr>hw_heap := t, hw_live := hw_live w \<union> (case r of Inl _ \<Rightarrow> {} | Inr x \<Rightarrow> got x),
     hw_raised := hw_raised w @ (case r of Inl e \<Rightarrow> [e] | Inr _ \<Rightarrow> [])\<rparr>"

lemma locked_alone:
  assumes "hw_at w a = Popping c" "h_lock (hw_heap w)"
    and "bindA free_pending_blocks (\<lambda>_. run_prog (finish_prog ps mk c)) (hw_heap w) = (r, t)"
  shows "alone ps mk a w ((leaves_with r (t\<lparr>h_lock := False\<rparr>) w)\<lparr>hw_at := (hw_at w)(a := Outside)\<rparr>)" (is "alone _ _ _ _ ?w'")
proof -
  let ?v = "w\<lparr>hw_heap := t, hw_at := (hw_at w)(a := Leaving r)\<rparr>"
  have "hstep ps mk (HGo a) ?v = Some ?w'" by (cases r) (simp_all add: leaves_with_def)
  from popping_alone [OF assms(1,3)] alone_step [OF this alone_refl] show ?thesis by (rule alone_trans)
qed

lemma malloc_alone:
  assumes out: "hw_at w a = Outside" and sz: "0 \<le> sz" "sz < maxsize" "h_lastpid (hw_heap w) = pid"
    and run: "malloc ps maxsize mk pid sz (hw_heap w) = Some (r, t)"
  shows "\<exists>n. hrun ps mk (HMalloc a sz # replicate n (HGo a)) w =
    Some (leaves_with (case r of Inl e \<Rightarrow> Inl e | Inr b \<Rightarrow> Inr (Some b)) t w)"
proof -
  let ?s = "(hw_heap w)\<lparr>h_lock := True\<rparr>" and ?r = "case r of Inl e \<Rightarrow> Inl e | Inr b \<Rightarrow> Inr (Some b)"
  have free: "\<not> h_lock (hw_heap w)" "unlock (bindA free_pending_blocks (\<lambda>_. malloc_cut ps mk sz)) ?s = (r, t)"
    using run sz by (auto simp: malloc_def malloc_enter_def Let_def split: if_splits)
  then obtain u where u: "bindA free_pending_blocks (\<lambda>_. malloc_cut ps mk sz) ?s = (r, u)" "t = u\<lparr>h_lock := False\<rparr>"
    by (auto simp: unlock_def finallyA_def modifyA_def split: prod.splits)
  then have body: "bindA free_pending_blocks (\<lambda>_. run_prog (finish_prog ps mk (CMalloc sz))) ?s = (?r, u)"
    by (auto simp: run_cut bindA_def ret_def split: prod.splits sum.splits)
  let ?w1 = "w\<lparr>hw_at := (hw_at w)(a := Wants sz)\<rparr>"
  let ?w2 = "w\<lparr>hw_heap := ?s, hw_at := (hw_at w)(a := Popping (CMalloc sz))\<rparr>"
  have "hw_at w = (hw_at w)(a := Outside)" using out by auto
  then have end1: "(leaves_with ?r (u\<lparr>h_lock := False\<rparr>) ?w2)\<lparr>hw_at := (hw_at ?w2)(a := Outside)\<rparr> = leaves_with ?r t w"
    by (cases w) (simp add: leaves_with_def u(2))
  have "alone ps mk a ?w2 (leaves_with ?r t w)"
    using locked_alone [of ?w2 a "CMalloc sz" ps mk ?r u] body unfolding end1 by simp
  moreover have "hstep ps mk (HGo a) ?w1 = Some ?w2" using free(1) by simp
  ultimately have "alone ps mk a ?w1 (leaves_with ?r t w)" using alone_step by blast
  then show ?thesis using out sz by (auto simp: alone_def)
qed

lemma free_alone:
  assumes out: "hw_at w a = Outside" and b: "b \<in> hw_live w" "\<not> h_lock (hw_heap w)" "h_lastpid (hw_heap w) = pid"
    and run: "free pid b (hw_heap w) = (r, t)"
  shows "\<exists>n. hrun ps mk (HFree a b # replicate n (HGo a)) w =
    Some (leaves_with (case r of Inl e \<Rightarrow> Inl e | Inr _ \<Rightarrow> Inr None) t (w\<lparr>hw_live := hw_live w - {b}\<rparr>))"
proof -
  let ?s = "(hw_heap w)\<lparr>h_lock := True\<rparr>" and ?r = "case r of Inl e \<Rightarrow> Inl e | Inr _ \<Rightarrow> Inr None"
  have "unlock (bindA free_pending_blocks (\<lambda>_. run_prog (release_prog b))) ?s = (r, t)"
    using run b by (simp add: free_def unlock_def run_release act_defs)
  then obtain u where u: "bindA free_pending_blocks (\<lambda>_. run_prog (release_prog b)) ?s = (r, u)" "t = u\<lparr>h_lock := False\<rparr>"
    by (auto simp: unlock_def finallyA_def modifyA_def split: prod.splits)
  then have body: "bindA free_pending_blocks (\<lambda>_. run_prog (finish_prog ps mk (CFree b))) ?s = (?r, u)"
    by (auto simp: bindA_def ret_def split: prod.splits sum.splits)
  let ?w1 = "w\<lparr>hw_live := hw_live w - {b}, hw_at := (hw_at w)(a := Trying b)\<rparr>"
  let ?w2 = "w\<lparr>hw_heap := ?s, hw_live := hw_live w - {b}, hw_at := (hw_at w)(a := Popping (CFree b))\<rparr>"
  have "hw_at w = (hw_at w)(a := Outside)" using out by auto
  then have end1: "(leaves_with ?r (u\<lparr>h_lock := False\<rparr>) ?w2)\<lparr>hw_at := (hw_at ?w2)(a := Outside)\<rparr> = leaves_with ?r t (w\<lparr>hw_live := hw_live w - {b}\<rparr>)"
    by (cases w) (simp add: leaves_with_def u(2))
  have "alone ps mk a ?w2 (leaves_with ?r t (w\<lparr>hw_live := hw_live w - {b}\<rparr>))"
    using locked_alone [of ?w2 a "CFree b" ps mk ?r u] body unfolding end1 by simp
  moreover have "hstep ps mk (HGo a) ?w1 = Some ?w2" using b(2) by (cases w) simp
  ultimately have "alone ps mk a ?w1 (leaves_with ?r t (w\<lparr>hw_live := hw_live w - {b}\<rparr>))" using alone_step by blast
  then show ?thesis using out b(1) by (auto simp: alone_def)
qed

text \<open>
  Two blocks are made; while thread 0 makes a third, and has taken the rest of the page out of the list of its length only, a finalizer frees the first block: it finds
  the lock held, and the block is pending, still where it was.
\<close>

theorem interleaving_disjoint_witness:
  "\<exists>es w. hrun (2 ^ 12) (\<lambda>_. None) es (new_hworld (2 ^ 12) 1) = Some w \<and> h_lock (hw_heap w) \<and> hw_live w = {(0, 104, 160)} \<and>
     h_pending (hw_heap w) = [(0, 0, 104)] \<and> h_len_to_seq (hw_heap w) 3936 = Some [] \<and> h_lengths (hw_heap w) = [3936] \<and>
     ((160 :: int) \<le> 0 \<or> (104 :: int) \<le> 104)"
proof -
  let ?mk = "\<lambda>_. None" and ?w0 = "new_hworld (2 ^ 12) 1"
  define w1 where "w1 = leaves_with (Inr (Some (0, 0, 104))) ex_heap ?w0"
  define w2 where "w2 = leaves_with (Inr (Some (0, 104, 160))) ex_heap2 w1"
  have h: "hw_heap ?w0 = heap_init (2 ^ 12) 1 0" "hw_at ?w0 a = Outside" "hw_heap w1 = ex_heap" "hw_at w1 a = Outside" "hw_heap w2 = ex_heap2"
    "hw_at w2 = (\<lambda>_. Outside)" "hw_live w2 = {(0, 0, 104), (0, 104, 160)}" for a
    by (auto simp: w1_def w2_def leaves_with_def new_hworld_def)
  obtain n1 where n1: "hrun (2 ^ 12) ?mk (HMalloc 0 100 # replicate n1 (HGo 0)) ?w0 = Some w1"
    using malloc_alone [OF h(2), of 100 1000000 1 "2 ^ 12" ?mk, unfolded h(1), OF _ _ _ ex_malloc] by (auto simp: w1_def heap_init_def)
  obtain n2 where n2: "hrun (2 ^ 12) ?mk (HMalloc 0 50 # replicate n2 (HGo 0)) w1 = Some w2"
    using malloc_alone [OF h(4), of 50 1000000 1 "2 ^ 12" ?mk, unfolded h(3), OF _ _ _ ex_malloc2] by (auto simp: w2_def ex_heap_def)
  let ?es = "HMalloc 0 8 # replicate 6 (HGo 0) @ [HFree 1 (0, 0, 104), HGo 1, HGo 1]"
  have "\<exists>w. hrun (2 ^ 12) ?mk ?es w2 = Some w \<and> h_lock (hw_heap w) \<and> hw_live w = {(0, 104, 160)} \<and>
     h_pending (hw_heap w) = [(0, 0, 104)] \<and> h_len_to_seq (hw_heap w) 3936 = Some [] \<and> h_lengths (hw_heap w) = [3936]"
    using h(5-7)
    by (simp add: eval_nat_numeral ex_heap2_def cut_prog_def malloc_prog_def take_prog_def op_def seq_defs Let_def roundup_def alignment_def bisect_left_def with_pending_def)
  then obtain w where w: "hrun (2 ^ 12) ?mk ?es w2 = Some w" "h_lock (hw_heap w)" "hw_live w = {(0, 104, 160)}"
    "h_pending (hw_heap w) = [(0, 0, 104)]" "h_len_to_seq (hw_heap w) 3936 = Some []" "h_lengths (hw_heap w) = [3936]" by blast
  have run: "hrun (2 ^ 12) ?mk ((HMalloc 0 100 # replicate n1 (HGo 0)) @ (HMalloc 0 50 # replicate n2 (HGo 0)) @ ?es) ?w0 = Some w"
    unfolding hrun_append n1 n2 option.case w(1) ..
  have "(0, 104, 160) \<in> hw_live w" "(0, 0, 104) \<in> taken w" using w by (simp_all add: taken_def)
  with interleaving_disjoint [OF run] have "(160 :: int) \<le> 0 \<or> (104 :: int) \<le> 104" by fastforce
  with run w show ?thesis by blast
qed

end
