(* ===== verification/Einfo.thy ===== *)
theory Einfo
  imports Prelude
begin

text \<open>
  \<open>billiard/einfo.py\<close>: what of an exception and its traceback is kept to be sent between
  processes. Code objects, frames and tracebacks are copied into plain objects that hold
  only what the traceback printer needs; the chain of frames is cut after a bound; the
  exception travels in an \<open>ExceptionWithTraceback\<close> that unpickles to the exception itself.
\<close>

section \<open>Code objects and frames\<close>

text \<open>\<open>None\<close> and other objects of a frame's dictionaries are named by numbers.\<close>

record code =
  co_filename :: string
  co_name :: string
  co_argcount :: nat
  co_cellvars :: "string list"
  co_firstlineno :: nat
  co_flags :: nat
  co_freevars :: "string list"
  co_code :: "nat list"
  co_lnotab :: "nat list"
  co_names :: "string list"
  co_nlocals :: nat
  co_stacksize :: nat
  co_varnames :: "string list"
  co_qualname :: string
  co_positions :: "(nat option \<times> nat option \<times> nat option \<times> nat option) list"

definition Code :: "code \<Rightarrow> code" where
  "Code c =
     \<lparr>co_filename = co_filename c, co_name = co_name c, co_argcount = co_argcount c,
      co_cellvars = [], co_firstlineno = co_firstlineno c, co_flags = co_flags c,
      co_freevars = [], co_code = [], co_lnotab = [], co_names = co_names c,
      co_nlocals = co_nlocals c, co_stacksize = co_stacksize c, co_varnames = [],
      co_qualname = co_qualname c, co_positions = co_positions c\<rparr>"

datatype obj = ONone | OStr string | OOther nat

record frame =
  f_builtins :: "string \<rightharpoonup> obj"
  f_globals :: "string \<rightharpoonup> obj"
  f_locals :: "string \<rightharpoonup> obj"
  f_code :: code
  f_lineno :: nat
  f_lasti :: nat

definition get_default :: "(string \<rightharpoonup> obj) \<Rightarrow> string \<Rightarrow> obj \<Rightarrow> obj" where
  "get_default m k d = (case m k of None \<Rightarrow> d | Some v \<Rightarrow> v)"

definition Frame :: "frame \<Rightarrow> frame" where
  "Frame f =
     \<lparr>f_builtins = Map.empty,
      f_globals = [''__file__'' \<mapsto> get_default (f_globals f) ''__file__'' (OStr ''__main__''),
                   ''__name__'' \<mapsto> get_default (f_globals f) ''__name__'' ONone,
                   ''__loader__'' \<mapsto> ONone],
      f_locals = (case f_locals f ''__traceback_hide__'' of None \<Rightarrow> Map.empty
                  | Some v \<Rightarrow> [''__traceback_hide__'' \<mapsto> v]),
      f_code = Code (f_code f), f_lineno = f_lineno f, f_lasti = f_lasti f\<rparr>"

section \<open>Tracebacks\<close>

text \<open>
  A traceback is its frames from the outermost on, each with its line and instruction. The
  copy ends in \<open>Truncated\<close> when the chain is longer than allowed.
\<close>

datatype tb_node = TB frame nat nat | Truncated

fun Traceback :: "(frame \<times> nat \<times> nat) list \<Rightarrow> nat \<Rightarrow> nat \<Rightarrow> tb_node list" where
  "Traceback [] max_frames depth = []"
| "Traceback ((f, lineno, lasti) # tb_next) max_frames depth =
     TB (Frame f) lineno lasti #
       (if tb_next \<noteq> [] then
          if depth \<le> max_frames then Traceback tb_next max_frames (depth + 1)
          else [Truncated]
        else [])"

definition copy_node :: "frame \<times> nat \<times> nat \<Rightarrow> tb_node" where
  "copy_node n = (case n of (f, lineno, lasti) \<Rightarrow> TB (Frame f) lineno lasti)"

lemma Traceback_eq:
  "Traceback tb max_frames depth =
     map copy_node (take (Suc (Suc max_frames - depth)) tb)
       @ (if Suc (Suc max_frames - depth) < length tb then [Truncated] else [])"
proof (induction tb max_frames depth rule: Traceback.induct)
  case (1 max_frames depth)
  then show ?case by simp
next
  case (2 f lineno lasti tb_next max_frames depth)
  show ?case
  proof (cases "tb_next = []")
    case True
    then show ?thesis by (simp add: copy_node_def)
  next
    case False
    show ?thesis
    proof (cases "depth \<le> max_frames")
      case True
      then have "Suc max_frames - depth = Suc (Suc max_frames - (depth + 1))" by simp
      then show ?thesis using "2.IH" [OF False True] False True by (simp add: copy_node_def)
    next
      case F: False
      then show ?thesis using False by (simp add: copy_node_def)
    qed
  qed
qed

text \<open>
  The copy of a traceback keeps, in order, the first \<open>max_frames + 2\<close> frames and
  ends in the truncation marker exactly when there were more, so its length is bounded
  whatever the depth of the stack.
\<close>

theorem traceback_truncated:
  "Traceback tb max_frames 0 =
     map copy_node (take (max_frames + 2) tb)
       @ (if max_frames + 2 < length tb then [Truncated] else [])
   \<and> length (Traceback tb max_frames 0) \<le> max_frames + 3"
  by (simp add: Traceback_eq)

text \<open>
  Copying a frame again changes nothing, and a copied frame holds no local but
  \<open>__traceback_hide__\<close>, no builtins and no bytecode.
\<close>

theorem frame_copy_idem:
  "Frame (Frame f) = Frame f
   \<and> dom (f_locals (Frame f)) \<subseteq> {''__traceback_hide__''}
   \<and> f_builtins (Frame f) = Map.empty \<and> co_code (f_code (Frame f)) = []"
  by (auto simp: Frame_def Code_def get_default_def fun_eq_iff split: option.splits if_splits)

section \<open>ExceptionInfo\<close>

text \<open>
  \<open>exception\<close> is what \<open>get()\<close> raises: made in this process it is the wrapper, and pickling
  the wrapper gives the exception itself (\<open>__reduce__\<close> and \<open>rebuild_exc\<close>).
\<close>

record einfo =
  ei_type :: exn
  ei_exception :: exn
  ei_tb :: "tb_node list"
  ei_internal :: bool

definition DEFAULT_MAX_FRAMES :: nat where
  "DEFAULT_MAX_FRAMES = 1000 div 8"

definition ExceptionInfo :: "exn \<Rightarrow> (frame \<times> nat \<times> nat) list \<Rightarrow> bool \<Rightarrow> einfo" where
  "ExceptionInfo e tb internal =
     \<lparr>ei_type = e, ei_exception = ExceptionWithTraceback e,
      ei_tb = Traceback tb DEFAULT_MAX_FRAMES 0, ei_internal = internal\<rparr>"

fun rebuild_exc :: "exn \<Rightarrow> exn" where
  "rebuild_exc (ExceptionWithTraceback e) = e"
| "rebuild_exc e = e"

end
