(* ===== verification/Lax_Semaphore.thy ===== *)
theory Lax_Semaphore
  imports Prelude
begin

text \<open>
  \<open>LaxBoundedSemaphore\<close> of \<open>billiard/pool.py\<close>: the slots of a pool, a \<open>threading.Semaphore\<close>
  whose releases beyond the initial value are ignored. Every method runs under the semaphore's
  lock; an \<open>acquire\<close> that finds no slot does not return (\<open>Blocks\<close>).
\<close>

record lax_sem =
  ls_value :: int
  ls_initial :: int

definition ls_init :: "int \<Rightarrow> exn + lax_sem" where
  "ls_init n = (if n < 0 then Inl ValueError else Inr \<lparr>ls_value = n, ls_initial = n\<rparr>)"

definition ls_acquire :: "(lax_sem, unit) act" where
  "ls_acquire s = (if ls_value s > 0 then (Inr (), s\<lparr>ls_value := ls_value s - 1\<rparr>) else (Inl Blocks, s))"

definition ls_shrink :: "(lax_sem, unit) act" where
  "ls_shrink = bindA (modifyA (\<lambda>s. s\<lparr>ls_initial := ls_initial s - 1\<rparr>)) (\<lambda>_. ls_acquire)"

definition ls_grow :: "lax_sem \<Rightarrow> lax_sem" where
  "ls_grow s = s\<lparr>ls_initial := ls_initial s + 1, ls_value := ls_value s + 1\<rparr>"

definition ls_release :: "lax_sem \<Rightarrow> lax_sem" where
  "ls_release s = (if ls_value s < ls_initial s then s\<lparr>ls_value := ls_value s + 1\<rparr> else s)"

text \<open>\<open>clear\<close>: the loop adds one slot per round.\<close>

function ls_clear :: "lax_sem \<Rightarrow> lax_sem" where
  "ls_clear s = (if ls_value s < ls_initial s then ls_clear (s\<lparr>ls_value := ls_value s + 1\<rparr>) else s)"
  by auto
termination by (relation "measure (\<lambda>s. nat (ls_initial s - ls_value s))") auto

declare ls_clear.simps [simp del]

lemma ls_clear_eq: "ls_clear s = s\<lparr>ls_value := max (ls_value s) (ls_initial s)\<rparr>"
proof (induction s rule: ls_clear.induct)
  case (1 s)
  then show ?case by (subst ls_clear.simps) (auto simp: max_def)
qed

lemma ls_release_iterate:
  "0 \<le> ls_value s \<Longrightarrow> (ls_release ^^ n) s = s\<lparr>ls_value := max (ls_value s) (min (ls_initial s) (ls_value s + int n))\<rparr>"
proof (induction n)
  case 0
  then show ?case by (simp add: max_def min_def)
next
  case (Suc n)
  then show ?case by (auto simp: ls_release_def max_def min_def)
qed

text \<open>A slot operation of the pool: a release, an acquisition, \<open>grow\<close>, \<open>shrink\<close>, \<open>clear\<close>.\<close>

datatype slot_op = Acquire | Release | Grow | Shrink | Clear

fun run_slot_op :: "slot_op \<Rightarrow> (lax_sem, unit) act" where
  "run_slot_op Acquire = ls_acquire"
| "run_slot_op Release = modifyA ls_release"
| "run_slot_op Grow = modifyA ls_grow"
| "run_slot_op Shrink = ls_shrink"
| "run_slot_op Clear = modifyA ls_clear"

fun slot_ops :: "slot_op list \<Rightarrow> (lax_sem, unit) act" where
  "slot_ops [] = ret ()"
| "slot_ops (x # xs) = bindA (run_slot_op x) (\<lambda>_. slot_ops xs)"

definition slots_ok :: "lax_sem \<Rightarrow> bool" where
  "slots_ok s \<longleftrightarrow> 0 \<le> ls_value s \<and> ls_value s \<le> ls_initial s"

fun size_change :: "slot_op \<Rightarrow> int" where
  "size_change Grow = 1"
| "size_change Shrink = -1"
| "size_change _ = 0"

lemma slot_op_wp:
  "slots_ok s \<Longrightarrow> wp (run_slot_op x) (\<lambda>_ t. slots_ok t \<and> ls_initial t = ls_initial s + size_change x)
     (\<lambda>e _. e = Blocks) s"
  by (cases x) (auto simp: wp_simps slots_ok_def ls_release_def ls_grow_def ls_clear_eq ls_shrink_def
      ls_acquire_def wp_def bindA_def modifyA_def)

lemma slot_ops_wp:
  "slots_ok s \<Longrightarrow> wp (slot_ops xs) (\<lambda>_ t. slots_ok t \<and> ls_initial t = ls_initial s + sum_list (map size_change xs))
     (\<lambda>e _. e = Blocks) s"
proof (induction xs arbitrary: s)
  case Nil
  then show ?case by (simp add: wp_simps)
next
  case (Cons x xs)
  show ?case
    unfolding slot_ops.simps wp_bind
  proof (rule wp_mono [OF slot_op_wp [OF Cons.prems]], goal_cases)
    case (1 a t)
    then show ?case by (intro wp_mono [OF Cons.IH]) auto
  qed simp
qed

text \<open>
  Whatever sequence of acquisitions, releases (too many included), growths, shrinks and
  clears a pool of \<open>n\<close> slots goes through, unless a call blocks the number of free slots stays
  between 0 and the current size, and the size is \<open>n\<close> plus the growths minus the shrinks.
\<close>

theorem slots_bounded:
  assumes "ls_init n = Inr s"
  shows "(\<exists>t. slot_ops xs s = (Inr (), t) \<and> 0 \<le> ls_value t \<and> ls_value t \<le> ls_initial t \<and>
      ls_initial t = n + sum_list (map size_change xs)) \<or> (\<exists>t. slot_ops xs s = (Inl Blocks, t))"
proof -
  have "slots_ok s" "ls_initial s = n" using assms by (auto simp: ls_init_def slots_ok_def split: if_splits)
  from slot_ops_wp [OF this(1), of xs] this(2) show ?thesis
    by (auto simp: wp_def slots_ok_def split: prod.splits sum.splits)
qed

theorem slots_bounded_witness:
  "\<exists>t. slot_ops [Release, Acquire, Grow, Shrink, Clear] \<lparr>ls_value = 2, ls_initial = 2\<rparr> = (Inr (), t) \<and> ls_initial t = 2"
  using slots_bounded [of 2 "\<lparr>ls_value = 2, ls_initial = 2\<rparr>" "[Release, Acquire, Grow, Shrink, Clear]"]
  by (auto simp: ls_init_def bindA_def modifyA_def ls_release_def ls_acquire_def ls_grow_def ls_shrink_def ret_def)

end
