(* ===== verification/Semlock.thy ===== *)
theory Semlock
  imports Prelude
begin

text \<open>
  The semaphore object behind every lock of \<open>billiard/synchronize.py\<close>, as
  \<open>Modules/_billiard/semaphore.c\<close> implements it: one kernel value that all processes share, and in
  each process a count and the thread that acquired last. The constructors of
  \<open>Semaphore\<close>, \<open>BoundedSemaphore\<close>, \<open>Lock\<close> and \<open>RLock\<close>, the search for a free name, and the
  contract \<open>lock_api\<close> that \<open>Condition\<close> and \<open>Event\<close> rely on.
\<close>

section \<open>The semaphore object\<close>

datatype kind = RECURSIVE_MUTEX | SEMAPHORE

text \<open>A thread is named by its process and its number; numbers of threads are unique.\<close>

type_synonym agent = "nat \<times> nat"

record sem =
  sm_kind :: kind
  sm_max :: int
  sm_value :: nat                 \<comment> \<open>the value of the kernel's semaphore\<close>
  sm_count :: "nat \<Rightarrow> int"    \<comment> \<open>\<open>self->count\<close> in each process\<close>
  sm_last :: "nat \<Rightarrow> nat"    \<comment> \<open>\<open>self->last_tid\<close> in each process\<close>

definition is_mine :: "agent \<Rightarrow> sem \<Rightarrow> bool" where
  "is_mine a s \<longleftrightarrow> sm_count s (fst a) > 0 \<and> sm_last s (fst a) = snd a"

text \<open>
  How \<open>acquire\<close> is called: \<open>acquire(False)\<close>, \<open>acquire()\<close>, or with a timeout, which has
  passed or not. The result \<open>None\<close> means that the call waits in this state. \<open>sem_timedwait\<close>
  does not fail with \<open>ETIMEDOUT\<close> while the semaphore can be locked.
\<close>

datatype acq = NoBlock | Block | Timed bool

definition sem_acquire :: "acq \<Rightarrow> agent \<Rightarrow> sem \<Rightarrow> (bool \<times> sem) option" where
  "sem_acquire m a s =
     (if sm_kind s = RECURSIVE_MUTEX \<and> is_mine a s
      then Some (True, s\<lparr>sm_count := (sm_count s)(fst a := sm_count s (fst a) + 1)\<rparr>)
      else if sm_value s > 0
      then Some (True, s\<lparr>sm_value := sm_value s - 1,
                        sm_count := (sm_count s)(fst a := sm_count s (fst a) + 1),
                        sm_last := (sm_last s)(fst a := snd a)\<rparr>)
      else (case m of NoBlock \<Rightarrow> Some (False, s) | Block \<Rightarrow> None
            | Timed passed \<Rightarrow> if passed then Some (False, s) else None))"

definition sem_release :: "agent \<Rightarrow> (sem, unit) act" where
  "sem_release a s =
     (if sm_kind s = RECURSIVE_MUTEX \<and> \<not> is_mine a s then (Inl AssertionError, s)
      else if sm_kind s = RECURSIVE_MUTEX \<and> sm_count s (fst a) > 1
      then (Inr (), s\<lparr>sm_count := (sm_count s)(fst a := sm_count s (fst a) - 1)\<rparr>)
      else if sm_kind s = SEMAPHORE \<and> int (sm_value s) \<ge> sm_max s then (Inl ValueError, s)
      else (Inr (), s\<lparr>sm_value := sm_value s + 1,
                     sm_count := (sm_count s)(fst a := sm_count s (fst a) - 1)\<rparr>))"

definition sem_after_fork :: "nat \<Rightarrow> sem \<Rightarrow> sem" where
  "sem_after_fork child s = s\<lparr>sm_count := (sm_count s)(child := 0)\<rparr>"

section \<open>Constructors\<close>

definition SEM_VALUE_MAX :: int where "SEM_VALUE_MAX = 2147483647"

definition EEXIST :: int where "EEXIST = 17"

definition new_sem :: "kind \<Rightarrow> nat \<Rightarrow> int \<Rightarrow> sem" where
  "new_sem k v m = \<lparr>sm_kind = k, sm_max = m, sm_value = v, sm_count = (\<lambda>_. 0), sm_last = (\<lambda>_. 0)\<rparr>"

text \<open>
  \<open>SemLock.__init__\<close> tries at most 100 random names; \<open>create\<close> gives what \<open>sem_open\<close> answers to
  each attempt. Any error but \<open>EEXIST\<close> is passed on.
\<close>

fun try_names :: "(nat \<Rightarrow> exn option) \<Rightarrow> nat \<Rightarrow> nat \<Rightarrow> exn + nat" where
  "try_names create i 0 = Inl (OSError EEXIST)"
| "try_names create i (Suc n) =
     (case create i of
        None \<Rightarrow> Inr i
      | Some e \<Rightarrow> if e = OSError EEXIST then try_names create (i + 1) n else Inl e)"

definition SemLock :: "(nat \<Rightarrow> exn option) \<Rightarrow> kind \<Rightarrow> nat \<Rightarrow> int \<Rightarrow> exn + sem" where
  "SemLock create k v m = (case try_names create 0 100 of Inl e \<Rightarrow> Inl e | Inr _ \<Rightarrow> Inr (new_sem k v m))"

definition Semaphore :: "(nat \<Rightarrow> exn option) \<Rightarrow> nat \<Rightarrow> exn + sem" where
  "Semaphore create v = SemLock create SEMAPHORE v SEM_VALUE_MAX"

definition BoundedSemaphore :: "(nat \<Rightarrow> exn option) \<Rightarrow> nat \<Rightarrow> exn + sem" where
  "BoundedSemaphore create v = SemLock create SEMAPHORE v (int v)"

definition Lock :: "(nat \<Rightarrow> exn option) \<Rightarrow> exn + sem" where
  "Lock create = SemLock create SEMAPHORE 1 1"

definition RLock :: "(nat \<Rightarrow> exn option) \<Rightarrow> exn + sem" where
  "RLock create = SemLock create RECURSIVE_MUTEX 1 1"

lemma try_names_ok:
  "(\<And>j. j < k \<Longrightarrow> create (i + j) = Some (OSError EEXIST)) \<Longrightarrow> create (i + k) = None \<Longrightarrow> k < n
   \<Longrightarrow> try_names create i n = Inr (i + k)"
proof (induction create i n arbitrary: k rule: try_names.induct)
  case (2 create i n)
  show ?case
  proof (cases k)
    case (Suc k')
    then show ?thesis using 2(1) [of "OSError EEXIST" k'] 2(2) [of 0] 2(2) [of "Suc _"] 2(3,4) by auto
  qed (use 2 in simp)
qed simp

lemma try_names_full: "(\<And>j. j < n \<Longrightarrow> create (i + j) = Some (OSError EEXIST)) \<Longrightarrow>
   try_names create i n = Inl (OSError EEXIST)"
proof (induction create i n rule: try_names.induct)
  case (2 create i n)
  from 2(2) [of 0] have c: "create i = Some (OSError EEXIST)" by simp
  then show ?case using 2(1) [OF c] 2(2) [of "Suc _"] by simp
qed simp

section \<open>What the values do\<close>

text \<open>Semaphores that nobody owns are used for their values only.\<close>

definition counting :: "sem \<Rightarrow> bool" where
  "counting s \<longleftrightarrow> sm_kind s = SEMAPHORE"

lemma counting_acquire:
  assumes "counting s"
  shows "sem_acquire m a s = (if 0 < sm_value s then Some (True, snd (the (sem_acquire NoBlock a s)))
      else case m of NoBlock \<Rightarrow> Some (False, s) | Block \<Rightarrow> None | Timed b \<Rightarrow> if b then Some (False, s) else None)"
    and "sm_value (snd (the (sem_acquire NoBlock a s))) = sm_value s - 1"
    and "sm_max (snd (the (sem_acquire NoBlock a s))) = sm_max s"
    and "counting (snd (the (sem_acquire NoBlock a s)))"
  using assms by (auto simp: sem_acquire_def counting_def)

lemma counting_acquired:
  assumes "counting s" "sem_acquire m a s = Some (ok, s')"
  shows "counting s'" "sm_max s' = sm_max s" "ok = (0 < sm_value s)" "sm_value s' = sm_value s - 1"
  using assms by (auto simp: sem_acquire_def counting_def split: if_splits acq.splits)

lemma counting_release:
  assumes "counting s" "sem_release a s = (Inr (), s')"
  shows "counting s'" "sm_max s' = sm_max s" "sm_value s' = sm_value s + 1" "int (sm_value s') \<le> sm_max s"
  using assms by (auto simp: sem_release_def counting_def split: if_splits)

lemma counting_release_ok:
  assumes "counting s" "int (sm_value s) < sm_max s"
  shows "\<exists>s'. sem_release a s = (Inr (), s')"
  using assms by (auto simp: sem_release_def counting_def)

lemma counting_release_error:
  assumes "counting s" "sem_release a s = (Inl e, s')"
  shows "s' = s" "e = ValueError" "sm_max s \<le> int (sm_value s)"
  using assms by (auto simp: sem_release_def counting_def split: if_splits)

section \<open>The contract of a lock\<close>

text \<open>
  What a client of a lock relies on. \<open>holds s a d\<close>: thread \<open>a\<close> holds the lock, acquired
  \<open>d\<close> times.
\<close>

locale lock_api =
  fixes ok :: "'l \<Rightarrow> bool"
    and free :: "'l \<Rightarrow> bool"
    and holds :: "'l \<Rightarrow> agent \<Rightarrow> int \<Rightarrow> bool"
    and acquire :: "agent \<Rightarrow> 'l \<Rightarrow> (bool \<times> 'l) option"
    and release :: "agent \<Rightarrow> ('l, unit) act"
  assumes holder_unique: "ok s \<Longrightarrow> holds s a d \<Longrightarrow> holds s b e \<Longrightarrow> a = b \<and> d = e"
    and holds_pos: "holds s a d \<Longrightarrow> 0 < d"
    and not_free: "ok s \<Longrightarrow> holds s a d \<Longrightarrow> \<not> free s"
    and acquire_free: "ok s \<Longrightarrow> free s \<Longrightarrow> \<exists>s'. acquire a s = Some (True, s') \<and> ok s' \<and> holds s' a 1"
    and acquire_held: "ok s \<Longrightarrow> acquire a s = Some (r, s') \<Longrightarrow> \<not> free s \<Longrightarrow>
        \<exists>d. holds s a d \<and> r \<and> ok s' \<and> holds s' a (d + 1)"
    and release_held: "ok s \<Longrightarrow> holds s a d \<Longrightarrow>
        \<exists>s'. release a s = (Inr (), s') \<and> ok s' \<and> (if d = 1 then free s' else holds s' a (d - 1))"
begin

lemma acquire_cases:
  assumes "ok s" "acquire a s = Some (r, s')"
  obtains d where "r" "ok s'" "holds s' a (d + 1)" "if d = 0 then free s else holds s a d"
proof (cases "free s")
  case True
  with acquire_free [OF assms(1) True, of a] assms that [of 0] show ?thesis by auto
next
  case False
  with acquire_held [OF assms False] obtain d where "holds s a d" "r" "ok s'" "holds s' a (d + 1)" by blast
  with that [of d] holds_pos [of s a d] show ?thesis by auto
qed

lemma mutual_exclusion:
  assumes "ok s" "acquire a s = Some (r, s')" "holds s b d"
  shows "b = a"
  using assms by (metis acquire_held holder_unique not_free)

lemma others_wait:
  assumes "ok s" "holds s b d" "b \<noteq> a"
  shows "acquire a s = None"
proof (cases "acquire a s")
  case (Some x)
  then show ?thesis using mutual_exclusion [OF assms(1) _ assms(2), of a "fst x" "snd x"] assms(3) by simp
qed

text \<open>Releasing as often as acquired frees the lock, and not before.\<close>

fun releases :: "nat \<Rightarrow> agent \<Rightarrow> ('l, unit) act" where
  "releases 0 a = ret ()"
| "releases (Suc n) a = bindA (release a) (\<lambda>_. releases n a)"

lemma releases_free:
  "ok s \<Longrightarrow> holds s a (int (Suc n)) \<Longrightarrow> \<exists>s'. releases (Suc n) a s = (Inr (), s') \<and> ok s' \<and> free s'"
proof (induction n arbitrary: s)
  case 0
  then show ?case using release_held [of s a 1] by (auto simp: act_defs)
next
  case (Suc n)
  from release_held [OF Suc.prems] obtain s1 where s1: "release a s = (Inr (), s1)" "ok s1" "holds s1 a (int (Suc n))"
    by auto
  from Suc.IH [OF s1(2,3)] s1(1) show ?case by (auto simp: act_defs)
qed

end

text \<open>The two kinds of locks: in each process the count is zero, or the process holds the lock.\<close>

definition lock_ok :: "sem \<Rightarrow> bool" where
  "lock_ok s \<longleftrightarrow> sm_max s = 1 \<and>
     (if sm_value s = 1 then (\<forall>p. sm_count s p = 0)
      else sm_value s = 0 \<and> (\<exists>p. sm_count s p > 0 \<and> (\<forall>q. q \<noteq> p \<longrightarrow> sm_count s q = 0) \<and>
        (sm_kind s = SEMAPHORE \<longrightarrow> sm_count s p = 1)))"

definition lock_free :: "sem \<Rightarrow> bool" where
  "lock_free s \<longleftrightarrow> sm_value s = 1"

definition holds :: "sem \<Rightarrow> agent \<Rightarrow> int \<Rightarrow> bool" where
  "holds s a d \<longleftrightarrow> is_mine a s \<and> sm_count s (fst a) = d"

lemma lock_acquire_free: "lock_ok s \<Longrightarrow> lock_free s \<Longrightarrow>
    \<exists>s'. sem_acquire Block a s = Some (True, s') \<and> lock_ok s' \<and> holds s' a 1"
  by (auto simp: lock_ok_def lock_free_def holds_def is_mine_def sem_acquire_def split: if_splits)

lemma lock_acquire_held:
  assumes "lock_ok s" "sem_acquire Block a s = Some (r, s')" "\<not> lock_free s"
  shows "\<exists>d. holds s a d \<and> r \<and> lock_ok s' \<and> holds s' a (d + 1)"
proof -
  from assms obtain p where p: "sm_value s = 0" "sm_max s = 1" "sm_count s p > 0" "\<forall>q. q \<noteq> p \<longrightarrow> sm_count s q = 0"
    by (auto simp: lock_ok_def lock_free_def split: if_splits)
  from p assms(2) have "sm_kind s = RECURSIVE_MUTEX" "is_mine a s" "r"
    "s' = s\<lparr>sm_count := (sm_count s)(fst a := sm_count s (fst a) + 1)\<rparr>"
    by (auto simp: sem_acquire_def split: if_splits)
  then show ?thesis using p by (auto simp: lock_ok_def holds_def is_mine_def intro!: exI [of _ p])
qed

lemma lock_release_held:
  assumes "lock_ok s" "holds s a d"
  shows "\<exists>s'. sem_release a s = (Inr (), s') \<and> lock_ok s' \<and> (if d = 1 then lock_free s' else holds s' a (d - 1))"
proof -
  from assms obtain p where p: "sm_value s = 0" "sm_max s = 1" "sm_count s p > 0" "\<forall>q. q \<noteq> p \<longrightarrow> sm_count s q = 0"
    "sm_kind s = SEMAPHORE \<longrightarrow> sm_count s p = 1"
    by (auto simp: lock_ok_def holds_def is_mine_def split: if_splits)
  with assms(2) have a: "fst a = p" "sm_count s p = d" "sm_last s p = snd a" "0 < d"
    by (auto simp: holds_def is_mine_def)
  show ?thesis
    using p a by (cases "sm_kind s")
      (auto simp: sem_release_def lock_ok_def lock_free_def holds_def is_mine_def intro!: exI [of _ p])
qed

lemma lock_holder_unique:
  assumes "lock_ok s" "holds s a d" "holds s b e"
  shows "a = b \<and> d = e"
proof -
  from assms obtain p where p: "\<forall>q. q \<noteq> p \<longrightarrow> sm_count s q = 0"
    by (auto simp: lock_ok_def holds_def is_mine_def split: if_splits)
  then have "fst a = p" "fst b = p" using assms(2,3) by (auto simp: holds_def is_mine_def)
  then show ?thesis using assms(2,3) by (simp add: holds_def is_mine_def prod_eq_iff)
qed

interpretation lk: lock_api lock_ok lock_free holds "sem_acquire Block" sem_release
proof unfold_locales
  show "\<not> lock_free s" if "lock_ok s" "holds s a d" for s a d
    using that by (auto simp: lock_ok_def holds_def is_mine_def lock_free_def)
  show "0 < d" if "holds s a d" for s a d using that by (simp add: holds_def is_mine_def)
qed (fact lock_holder_unique lock_acquire_free lock_acquire_held lock_release_held)+

lemma lock_ok_new: "lock_ok (new_sem k 1 1)" "lock_free (new_sem k 1 1)"
  by (simp_all add: lock_ok_def lock_free_def new_sem_def)

section \<open>What a lock shows of itself\<close>

text \<open>The owner and the count in the \<open>__repr__\<close> of \<open>Lock\<close> and \<open>RLock\<close>.\<close>

datatype owner = Me | Nobody | SomeOtherThread | SomeOtherProcess

definition lock_owner :: "agent \<Rightarrow> sem \<Rightarrow> owner" where
  "lock_owner a s =
     (if is_mine a s then Me
      else if sm_value s = 1 then Nobody
      else if sm_count s (fst a) > 0 then SomeOtherThread
      else SomeOtherProcess)"

datatype shown_count = Exactly int | Nonzero

definition rlock_repr :: "agent \<Rightarrow> sem \<Rightarrow> owner \<times> shown_count" where
  "rlock_repr a s =
     (if is_mine a s then (Me, Exactly (sm_count s (fst a)))
      else if sm_value s = 1 then (Nobody, Exactly 0)
      else if sm_count s (fst a) > 0 then (SomeOtherThread, Nonzero)
      else (SomeOtherProcess, Nonzero))"

lemma lock_owner_correct:
  assumes "lock_ok s"
  shows "lock_owner a s = Me \<longleftrightarrow> (\<exists>d. holds s a d)" "lock_owner a s = Nobody \<longleftrightarrow> lock_free s"
    "lock_owner a s = SomeOtherThread \<longleftrightarrow> (\<exists>b d. b \<noteq> a \<and> fst b = fst a \<and> holds s b d)"
    "lock_owner a s = SomeOtherProcess \<longleftrightarrow> (\<exists>b d. fst b \<noteq> fst a \<and> holds s b d)"
proof -
  show "lock_owner a s = Me \<longleftrightarrow> (\<exists>d. holds s a d)" by (auto simp: lock_owner_def holds_def)
  show "lock_owner a s = Nobody \<longleftrightarrow> lock_free s"
    using assms lk.not_free [of s a] by (auto simp: lock_owner_def lock_free_def holds_def)
  show "lock_owner a s = SomeOtherThread \<longleftrightarrow> (\<exists>b d. b \<noteq> a \<and> fst b = fst a \<and> holds s b d)"
  proof
    assume "lock_owner a s = SomeOtherThread"
    then have "\<not> is_mine a s" "sm_count s (fst a) > 0" by (auto simp: lock_owner_def split: if_splits)
    then have "(fst a, sm_last s (fst a)) \<noteq> a" "holds s (fst a, sm_last s (fst a)) (sm_count s (fst a))"
      by (cases a; simp add: is_mine_def holds_def)+
    then show "\<exists>b d. b \<noteq> a \<and> fst b = fst a \<and> holds s b d" by (metis fst_conv)
  next
    assume "\<exists>b d. b \<noteq> a \<and> fst b = fst a \<and> holds s b d"
    then obtain b d where b: "b \<noteq> a" "fst b = fst a" "holds s b d" by blast
    have "\<not> lock_free s" "\<not> is_mine a s"
      using lk.not_free [OF assms b(3)] lk.holder_unique [OF assms b(3), of a] b(1) by (auto simp: holds_def)
    then show "lock_owner a s = SomeOtherThread" using b(2,3)
      by (simp add: lock_owner_def lock_free_def holds_def is_mine_def)
  qed
  show "lock_owner a s = SomeOtherProcess \<longleftrightarrow> (\<exists>b d. fst b \<noteq> fst a \<and> holds s b d)"
  proof
    assume "lock_owner a s = SomeOtherProcess"
    then have "sm_value s \<noteq> 1" "\<not> sm_count s (fst a) > 0" by (auto simp: lock_owner_def split: if_splits)
    with assms obtain p where "sm_count s p > 0" "p \<noteq> fst a" by (auto simp: lock_ok_def split: if_splits)
    then have "holds s (p, sm_last s p) (sm_count s p)" by (simp add: holds_def is_mine_def)
    then show "\<exists>b d. fst b \<noteq> fst a \<and> holds s b d" using \<open>p \<noteq> fst a\<close> by (metis fst_conv)
  next
    assume "\<exists>b d. fst b \<noteq> fst a \<and> holds s b d"
    then obtain b d where b: "fst b \<noteq> fst a" "holds s b d" by blast
    have "\<not> sm_count s (fst a) > 0"
    proof
      assume "sm_count s (fst a) > 0"
      then have "holds s (fst a, sm_last s (fst a)) (sm_count s (fst a))" by (simp add: holds_def is_mine_def)
      from lk.holder_unique [OF assms b(2) this] b(1) show False by auto
    qed
    then show "lock_owner a s = SomeOtherProcess" using lk.not_free [OF assms b(2)]
      by (simp add: lock_owner_def lock_free_def is_mine_def)
  qed
qed

section \<open>Waiting for a predicate\<close>

text \<open>
  \<open>Condition.wait_for\<close>: the value of the predicate at each evaluation with the clock before the
  wait that follows it. The result, and the timeouts passed to \<open>wait\<close>.
\<close>

fun wait_for_loop :: "int option \<Rightarrow> (bool \<times> int) list \<Rightarrow> bool option \<times> int option list" where
  "wait_for_loop endtime [] = (None, [])"
| "wait_for_loop endtime ((result, now) # rs) =
     (if result then (Some True, [])
      else case endtime of
          None \<Rightarrow> (let (r, ts) = wait_for_loop endtime rs in (r, None # ts))
        | Some e \<Rightarrow>
            if e - now \<le> 0 then (Some False, [])
            else (let (r, ts) = wait_for_loop endtime rs in (r, Some (e - now) # ts)))"

definition wait_for :: "int option \<Rightarrow> int \<Rightarrow> (bool \<times> int) list \<Rightarrow> bool option \<times> int option list" where
  "wait_for timeout start rs = wait_for_loop (map_option (\<lambda>t. start + t) timeout) rs"

text \<open>It returns \<open>True\<close> only on a true predicate, and \<open>False\<close> only after the deadline; every wait is positive.\<close>

lemma wait_for_true: "fst (wait_for_loop e rs) = Some True \<Longrightarrow> \<exists>now. (True, now) \<in> set rs"
  by (induction e rs rule: wait_for_loop.induct) (auto split: if_splits option.splits prod.splits)

lemma wait_for_false: "fst (wait_for_loop e rs) = Some False \<Longrightarrow> \<exists>d now. e = Some d \<and> (False, now) \<in> set rs \<and> d \<le> now"
  by (induction e rs rule: wait_for_loop.induct) (auto split: if_splits option.splits prod.splits)

lemma wait_for_timeouts: "Some t \<in> set (snd (wait_for_loop e rs)) \<Longrightarrow> 0 < t"
  by (induction e rs rule: wait_for_loop.induct) (auto split: if_splits option.splits prod.splits)

end
