(* ===== verification/Condition.thy ===== *)
theory Condition
  imports Semlock
begin

text \<open>
  \<open>Condition\<close> and \<open>Event\<close> of \<open>billiard/synchronize.py\<close> as a state machine: any number of threads
  in any processes, each somewhere in a method of the condition or of the event, and one step is one
  operation on one semaphore. The lemmas show the bookkeeping of \<open>wait\<close>, \<open>notify\<close> and
  \<open>notify_all\<close> (how the four semaphores count the sleepers), that the assertions inside them
  never fail, who is woken, and when \<open>Event.wait\<close> sleeps.
\<close>

section \<open>Threads and their program counters\<close>

text \<open>
  What a thread calls, and where a method of the condition returns to: its caller, or \<open>Event.set\<close>
  and \<open>Event.wait\<close>. The boolean of \<open>wait\<close> tells whether it has a timeout.
\<close>

datatype cmd = CAcquire | CRelease | CWait bool | CNotify | CNotifyAll
  | CIsSet | CSet | CClear | CEventWait bool

datatype cont = User | EventSet | EventWait

datatype pc =
    Idle "exn + bool"               \<comment> \<open>outside, with the result of the last call\<close>
  | WaitStart bool cont             \<comment> \<open>\<open>wait\<close>: before \<open>_sleeping_count.release()\<close>\<close>
  | WaitRel bool cont int int       \<comment> \<open>\<open>count\<close>, and how many releases of the lock are left\<close>
  | WaitSleep bool cont int         \<comment> \<open>in \<open>_wait_semaphore.acquire\<close>\<close>
  | WaitWoke cont int bool          \<comment> \<open>before \<open>_woken_count.release()\<close>, with the result\<close>
  | WaitReacq cont int int bool     \<comment> \<open>how often the lock has been reacquired\<close>
  | NStart | NLoop | NSub | NTake | NPost | NWoken | NZero
  | AStart cont | ALoop cont | ASub cont
  | ATake cont nat | APost cont nat \<comment> \<open>with \<open>sleepers\<close>\<close>
  | AWoken cont nat nat             \<comment> \<open>\<open>sleepers\<close>, and how many are still awaited\<close>
  | AZero cont nat
  | EIsSet | EIsSet1 | EIsSet2
  | ESet | ESet1 | ESet2
  | EClear | EClear1
  | EWait bool | EWait1 bool | EWait2 | EWait3 | EWait4
  | EExit "exn + bool"              \<comment> \<open>leaving \<open>with self._cond\<close>\<close>

record sys =
  sy_lock :: sem
  sy_sleeping :: sem
  sy_woken :: sem
  sy_wait :: sem
  sy_flag :: sem
  sy_pcs :: "pc list"

text \<open>Where a method of the condition goes when it is done.\<close>

fun finish :: "cont \<Rightarrow> exn + bool \<Rightarrow> pc" where
  "finish User r = Idle r"
| "finish EventSet r = EExit r"
| "finish EventWait r = (case r of Inl e \<Rightarrow> EExit (Inl e) | Inr _ \<Rightarrow> EWait3)"

text \<open>
  Operations of one thread on one of the semaphores: \<open>f\<close> writes the semaphore back and
  \<open>k\<close> gives the next program counter.
\<close>

definition on_acquire :: "(bool \<times> sem) option \<Rightarrow> (sem \<Rightarrow> sys) \<Rightarrow> (bool \<Rightarrow> pc) \<Rightarrow> (sys \<times> pc) option" where
  "on_acquire r f k = (case r of None \<Rightarrow> None | Some (b, m) \<Rightarrow> Some (f m, k b))"

definition on_release :: "(exn + unit) \<times> sem \<Rightarrow> (sem \<Rightarrow> sys) \<Rightarrow> (exn \<Rightarrow> pc) \<Rightarrow> pc \<Rightarrow> (sys \<times> pc) option" where
  "on_release r f err k = (case r of (Inl e, m) \<Rightarrow> Some (f m, err e) | (Inr _, m) \<Rightarrow> Some (f m, k))"

section \<open>The methods\<close>

text \<open>What a thread does first in a method; \<open>wait\<close>, \<open>notify\<close> and \<open>notify_all\<close> assert that it has the lock.\<close>

fun call :: "agent \<Rightarrow> cmd \<Rightarrow> sys \<Rightarrow> (sys \<times> pc) option" where
  "call a CAcquire s = on_acquire (sem_acquire Block a (sy_lock s)) (\<lambda>m. s\<lparr>sy_lock := m\<rparr>) (\<lambda>b. Idle (Inr b))"
| "call a CRelease s = on_release (sem_release a (sy_lock s)) (\<lambda>m. s\<lparr>sy_lock := m\<rparr>) (\<lambda>e. Idle (Inl e)) (Idle (Inr True))"
| "call a (CWait timed) s = Some (s, if is_mine a (sy_lock s) then WaitStart timed User else Idle (Inl AssertionError))"
| "call a CNotify s = Some (s, if is_mine a (sy_lock s) then NStart else Idle (Inl AssertionError))"
| "call a CNotifyAll s = Some (s, if is_mine a (sy_lock s) then AStart User else Idle (Inl AssertionError))"
| "call a CIsSet s = Some (s, EIsSet)"
| "call a CSet s = Some (s, ESet)"
| "call a CClear s = Some (s, EClear)"
| "call a (CEventWait timed) s = Some (s, EWait timed)"

abbreviation lock_acquire :: "agent \<Rightarrow> sys \<Rightarrow> (bool \<Rightarrow> pc) \<Rightarrow> (sys \<times> pc) option" where
  "lock_acquire a s k \<equiv> on_acquire (sem_acquire Block a (sy_lock s)) (\<lambda>m. s\<lparr>sy_lock := m\<rparr>) k"

abbreviation lock_release :: "agent \<Rightarrow> sys \<Rightarrow> (exn \<Rightarrow> pc) \<Rightarrow> pc \<Rightarrow> (sys \<times> pc) option" where
  "lock_release a s err k \<equiv> on_release (sem_release a (sy_lock s)) (\<lambda>m. s\<lparr>sy_lock := m\<rparr>) err k"

abbreviation sleeping_try :: "agent \<Rightarrow> sys \<Rightarrow> (bool \<Rightarrow> pc) \<Rightarrow> (sys \<times> pc) option" where
  "sleeping_try a s k \<equiv> on_acquire (sem_acquire NoBlock a (sy_sleeping s)) (\<lambda>m. s\<lparr>sy_sleeping := m\<rparr>) k"

abbreviation woken_acquire :: "acq \<Rightarrow> agent \<Rightarrow> sys \<Rightarrow> (bool \<Rightarrow> pc) \<Rightarrow> (sys \<times> pc) option" where
  "woken_acquire m a s k \<equiv> on_acquire (sem_acquire m a (sy_woken s)) (\<lambda>m. s\<lparr>sy_woken := m\<rparr>) k"

abbreviation wait_acquire :: "acq \<Rightarrow> agent \<Rightarrow> sys \<Rightarrow> (bool \<Rightarrow> pc) \<Rightarrow> (sys \<times> pc) option" where
  "wait_acquire m a s k \<equiv> on_acquire (sem_acquire m a (sy_wait s)) (\<lambda>m. s\<lparr>sy_wait := m\<rparr>) k"

abbreviation wait_release :: "agent \<Rightarrow> sys \<Rightarrow> (exn \<Rightarrow> pc) \<Rightarrow> pc \<Rightarrow> (sys \<times> pc) option" where
  "wait_release a s err k \<equiv> on_release (sem_release a (sy_wait s)) (\<lambda>m. s\<lparr>sy_wait := m\<rparr>) err k"

abbreviation flag_try :: "agent \<Rightarrow> sys \<Rightarrow> (bool \<Rightarrow> pc) \<Rightarrow> (sys \<times> pc) option" where
  "flag_try a s k \<equiv> on_acquire (sem_acquire NoBlock a (sy_flag s)) (\<lambda>m. s\<lparr>sy_flag := m\<rparr>) k"

abbreviation flag_release :: "agent \<Rightarrow> sys \<Rightarrow> pc \<Rightarrow> (sys \<times> pc) option" where
  "flag_release a s k \<equiv> on_release (sem_release a (sy_flag s)) (\<lambda>m. s\<lparr>sy_flag := m\<rparr>) (\<lambda>e. EExit (Inl e)) k"

text \<open>\<open>Condition.wait\<close> after its first assertion. \<open>late\<close>: the timeout of a timed wait has passed.\<close>

fun wait_step :: "agent \<Rightarrow> bool \<Rightarrow> sys \<Rightarrow> pc \<Rightarrow> (sys \<times> pc) option" where
  "wait_step a late s (WaitStart timed k) =
     on_release (sem_release a (sy_sleeping s)) (\<lambda>m. s\<lparr>sy_sleeping := m\<rparr>) (\<lambda>e. finish k (Inl e))
       (let c = sm_count (sy_lock s) (fst a) in if c \<le> 0 then WaitSleep timed k c else WaitRel timed k c c)"
| "wait_step a late s (WaitRel timed k c r) =
     lock_release a s (\<lambda>e. finish k (Inl e)) (if r \<le> 1 then WaitSleep timed k c else WaitRel timed k c (r - 1))"
| "wait_step a late s (WaitSleep timed k c) =
     wait_acquire (if timed then Timed late else Block) a s (\<lambda>ok. WaitWoke k c ok)"
| "wait_step a late s (WaitWoke k c ok) =
     on_release (sem_release a (sy_woken s)) (\<lambda>m. s\<lparr>sy_woken := m\<rparr>) (\<lambda>e. finish k (Inl e))
       (if c \<le> 0 then finish k (Inr ok) else WaitReacq k c 0 ok)"
| "wait_step a late s (WaitReacq k c j ok) =
     lock_acquire a s (\<lambda>_. if j + 1 \<ge> c then finish k (Inr ok) else WaitReacq k c (j + 1) ok)"
| "wait_step a late s pc = None"

text \<open>\<open>Condition.notify\<close> after its first assertion.\<close>

fun notify_step :: "agent \<Rightarrow> sys \<Rightarrow> pc \<Rightarrow> (sys \<times> pc) option" where
  "notify_step a s NStart = wait_acquire NoBlock a s (\<lambda>b. if b then Idle (Inl AssertionError) else NLoop)"
| "notify_step a s NLoop = woken_acquire NoBlock a s (\<lambda>b. if b then NSub else NTake)"
| "notify_step a s NSub = sleeping_try a s (\<lambda>b. if b then NLoop else Idle (Inl AssertionError))"
| "notify_step a s NTake = sleeping_try a s (\<lambda>b. if b then NPost else Idle (Inr True))"
| "notify_step a s NPost = wait_release a s (\<lambda>e. Idle (Inl e)) NWoken"
| "notify_step a s NWoken = woken_acquire Block a s (\<lambda>_. NZero)"
| "notify_step a s NZero = wait_acquire NoBlock a s (\<lambda>_. Idle (Inr True))"
| "notify_step a s pc = None"

text \<open>\<open>Condition.notify_all\<close> after its first assertion.\<close>

fun notify_all_step :: "agent \<Rightarrow> sys \<Rightarrow> pc \<Rightarrow> (sys \<times> pc) option" where
  "notify_all_step a s (AStart k) = wait_acquire NoBlock a s (\<lambda>b. if b then finish k (Inl AssertionError) else ALoop k)"
| "notify_all_step a s (ALoop k) = woken_acquire NoBlock a s (\<lambda>b. if b then ASub k else ATake k 0)"
| "notify_all_step a s (ASub k) = sleeping_try a s (\<lambda>b. if b then ALoop k else finish k (Inl AssertionError))"
| "notify_all_step a s (ATake k n) =
     sleeping_try a s (\<lambda>b. if b then APost k n else if n = 0 then finish k (Inr True) else AWoken k n n)"
| "notify_all_step a s (APost k n) = wait_release a s (\<lambda>e. finish k (Inl e)) (ATake k (n + 1))"
| "notify_all_step a s (AWoken k n i) =
     woken_acquire Block a s (\<lambda>_. if i \<le> 1 then AZero k n else AWoken k n (i - 1))"
| "notify_all_step a s (AZero k n) = wait_acquire NoBlock a s (\<lambda>b. if b then AZero k n else finish k (Inr True))"
| "notify_all_step a s pc = None"

text \<open>
  The methods of \<open>Event\<close>, each inside \<open>with self._cond\<close>. A call of \<open>wait\<close> or \<open>notify_all\<close>
  begins with the assertion that the lock is owned.
\<close>

fun event_step :: "agent \<Rightarrow> sys \<Rightarrow> pc \<Rightarrow> (sys \<times> pc) option" where
  "event_step a s EIsSet = lock_acquire a s (\<lambda>_. EIsSet1)"
| "event_step a s EIsSet1 = flag_try a s (\<lambda>b. if b then EIsSet2 else EExit (Inr False))"
| "event_step a s EIsSet2 = flag_release a s (EExit (Inr True))"
| "event_step a s ESet = lock_acquire a s (\<lambda>_. ESet1)"
| "event_step a s ESet1 = flag_try a s (\<lambda>_. ESet2)"
| "event_step a s ESet2 = flag_release a s
     (if is_mine a (sy_lock s) then AStart EventSet else EExit (Inl AssertionError))"
| "event_step a s EClear = lock_acquire a s (\<lambda>_. EClear1)"
| "event_step a s EClear1 = flag_try a s (\<lambda>_. EExit (Inr True))"
| "event_step a s (EWait timed) = lock_acquire a s (\<lambda>_. EWait1 timed)"
| "event_step a s (EWait1 timed) = flag_try a s (\<lambda>b. if b then EWait2
     else if is_mine a (sy_lock s) then WaitStart timed EventWait else EExit (Inl AssertionError))"
| "event_step a s EWait2 = flag_release a s EWait3"
| "event_step a s EWait3 = flag_try a s (\<lambda>b. if b then EWait4 else EExit (Inr False))"
| "event_step a s EWait4 = flag_release a s (EExit (Inr True))"
| "event_step a s (EExit r) = lock_release a s (\<lambda>e. Idle (Inl e)) (Idle r)"
| "event_step a s pc = None"

definition new_sys :: "kind \<Rightarrow> nat \<Rightarrow> sys" where
  "new_sys k n = \<lparr>sy_lock = new_sem k 1 1, sy_sleeping = new_sem SEMAPHORE 0 SEM_VALUE_MAX,
     sy_woken = new_sem SEMAPHORE 0 SEM_VALUE_MAX, sy_wait = new_sem SEMAPHORE 0 SEM_VALUE_MAX,
     sy_flag = new_sem SEMAPHORE 0 SEM_VALUE_MAX, sy_pcs = replicate n (Idle (Inr True))\<rparr>"

text \<open>
  A step of thread \<open>i\<close>, which runs in process \<open>home i\<close>. A thread outside begins the call
  \<open>c\<close>; a user releases only a lock it has.
\<close>

fun thread_step :: "agent \<Rightarrow> cmd \<Rightarrow> bool \<Rightarrow> sys \<Rightarrow> pc \<Rightarrow> (sys \<times> pc) option" where
  "thread_step a c late s (Idle _) =
     (if c = CRelease \<and> \<not> is_mine a (sy_lock s) then None else call a c s)"
| "thread_step a c late s pc =
     (case wait_step a late s pc of Some r \<Rightarrow> Some r
      | None \<Rightarrow> (case notify_step a s pc of Some r \<Rightarrow> Some r
        | None \<Rightarrow> (case notify_all_step a s pc of Some r \<Rightarrow> Some r | None \<Rightarrow> event_step a s pc)))"

definition sys_step :: "(nat \<Rightarrow> nat) \<Rightarrow> nat \<Rightarrow> cmd \<Rightarrow> bool \<Rightarrow> sys \<Rightarrow> sys option" where
  "sys_step home i c late s =
     (if i < length (sy_pcs s) then
        (case thread_step (home i, i) c late s (sy_pcs s ! i) of
           None \<Rightarrow> None
         | Some (s', pc) \<Rightarrow> Some (s'\<lparr>sy_pcs := (sy_pcs s)[i := pc]\<rparr>))
      else None)"

inductive reachable :: "(nat \<Rightarrow> nat) \<Rightarrow> cmd set \<Rightarrow> kind \<Rightarrow> nat \<Rightarrow> sys \<Rightarrow> bool" for home cmds k n where
  start: "reachable home cmds k n (new_sys k n)"
| step: "reachable home cmds k n s \<Longrightarrow> c \<in> cmds \<Longrightarrow> sys_step home i c late s = Some s' \<Longrightarrow> reachable home cmds k n s'"

section \<open>The bookkeeping\<close>

text \<open>
  What a program counter contributes to the counts: a thread between the two releases of
  \<open>wait\<close>; one that has left \<open>_wait_semaphore\<close>; the sleepers taken from \<open>_sleeping_count\<close> whose waking
  has not been counted yet; a wakening counted whose sleeper has not been taken off; how high
  \<open>_wait_semaphore\<close> may stand; and how many wakenings the notifier still waits for.
\<close>

fun asleep :: "pc \<Rightarrow> nat" where
  "asleep (WaitRel _ _ _ _) = 1" | "asleep (WaitSleep _ _ _) = 1" | "asleep (WaitWoke _ _ _) = 1" | "asleep _ = 0"

fun woke :: "pc \<Rightarrow> nat" where
  "woke (WaitWoke _ _ _) = 1" | "woke _ = 0"

fun pend :: "pc \<Rightarrow> nat" where
  "pend NPost = 1" | "pend NWoken = 1" | "pend (ATake _ n) = n" | "pend (APost _ n) = n + 1"
| "pend (AWoken _ _ i) = i" | "pend _ = 0"

fun sub :: "pc \<Rightarrow> nat" where
  "sub NSub = 1" | "sub (ASub _) = 1" | "sub _ = 0"

fun zmax :: "pc \<Rightarrow> nat" where
  "zmax NWoken = 1" | "zmax NZero = 1" | "zmax (ATake _ n) = n" | "zmax (APost _ n) = n"
| "zmax (AWoken _ n _) = n" | "zmax (AZero _ n) = n" | "zmax _ = 0"

fun need :: "pc \<Rightarrow> nat" where
  "need NWoken = 1" | "need (ATake _ n) = n" | "need (APost _ n) = n" | "need (AWoken _ _ i) = i" | "need _ = 0"

fun collecting :: "pc \<Rightarrow> nat" where
  "collecting (AWoken _ _ _) = 1" | "collecting (AZero _ _) = 1" | "collecting _ = 0"

text \<open>The flag of the event is taken, or not yet released.\<close>

fun flag_out :: "pc \<Rightarrow> nat" where
  "flag_out EIsSet2 = 1" | "flag_out ESet2 = 1" | "flag_out EWait2 = 1" | "flag_out EWait4 = 1" | "flag_out _ = 0"

text \<open>What a program counter says about the lock.\<close>

fun own :: "agent \<Rightarrow> sem \<Rightarrow> pc \<Rightarrow> bool" where
  "own a l (Idle _) = True"
| "own a l (WaitRel _ _ c r) = (0 < r \<and> r \<le> c \<and> holds l a r)"
| "own a l (WaitSleep _ _ c) = (0 < c \<and> \<not> is_mine a l)"
| "own a l (WaitWoke _ c _) = (0 < c \<and> \<not> is_mine a l)"
| "own a l (WaitReacq _ c j _) = (0 \<le> j \<and> j < c \<and> (if j = 0 then \<not> is_mine a l else holds l a j))"
| "own a l EIsSet = True" | "own a l ESet = True" | "own a l EClear = True" | "own a l (EWait _) = True"
| "own a l (ATake _ n) = is_mine a l"
| "own a l (AWoken _ n i) = (is_mine a l \<and> 0 < i \<and> i \<le> n)"
| "own a l _ = is_mine a l"

definition tot :: "(pc \<Rightarrow> nat) \<Rightarrow> sys \<Rightarrow> nat" where
  "tot f s = sum_list (map f (sy_pcs s))"

definition books :: "sys \<Rightarrow> bool" where
  "books s \<longleftrightarrow>
     sm_value (sy_sleeping s) + tot pend s = sm_value (sy_woken s) + tot asleep s + tot sub s \<and>
     int (sm_value (sy_sleeping s) + tot pend s) \<le> SEM_VALUE_MAX \<and>
     sm_value (sy_wait s) \<le> tot zmax s \<and>
     tot need s \<le> sm_value (sy_wait s) + tot woke s + sm_value (sy_woken s) \<and>
     (tot collecting s > 0 \<longrightarrow> sm_value (sy_sleeping s) = 0) \<and>
     sm_value (sy_flag s) + tot flag_out s \<le> 1"

definition counters_ok :: "sys \<Rightarrow> bool" where
  "counters_ok s \<longleftrightarrow> (\<forall>m \<in> {sy_sleeping s, sy_woken s, sy_wait s, sy_flag s}. counting m \<and> sm_max m = SEM_VALUE_MAX)"

definition sys_inv :: "(nat \<Rightarrow> nat) \<Rightarrow> sys \<Rightarrow> bool" where
  "sys_inv home s \<longleftrightarrow> lock_ok (sy_lock s) \<and> counters_ok s \<and>
     (\<forall>i < length (sy_pcs s). own (home i, i) (sy_lock s) (sy_pcs s ! i)) \<and> books s"

lemma sum_upd: "i < length xs \<Longrightarrow> sum_list (map f (xs[i := y])) + f (xs ! i) = sum_list (map f xs) + (f y :: nat)"
  by (induction xs arbitrary: i) (auto split: nat.split)

lemma tot_upd:
  assumes "i < length (sy_pcs s)" "sy_pcs s ! i = pc" "sy_pcs s' = (sy_pcs s)[i := pc']"
  shows "tot f s' + f pc = tot f s + f pc'"
  using sum_upd [OF assms(1), of f pc'] assms by (simp add: tot_def)

lemma tot_ge: "i < length (sy_pcs s) \<Longrightarrow> f (sy_pcs s ! i) \<le> tot f s"
  unfolding tot_def by (simp add: member_le_sum_list)

lemma is_mine_iff: "lock_ok l \<Longrightarrow> is_mine a l \<longleftrightarrow> (\<exists>d. holds l a d)"
  by (auto simp: holds_def)

text \<open>The weights of a thread that works under the lock are the only ones of their kind.\<close>

lemma sum_sole: "(\<And>j. j < length xs \<Longrightarrow> j \<noteq> i \<Longrightarrow> f (xs ! j) = (0 :: nat)) \<Longrightarrow> i < length xs \<Longrightarrow>
    sum_list (map f xs) = f (xs ! i)"
proof (induction xs arbitrary: i)
  case (Cons x xs)
  show ?case
  proof (cases i)
    case 0
    have "f y = 0" if "y \<in> set xs" for y
      using that Cons(2) [of "Suc _"] 0 by (auto simp: in_set_conv_nth)
    then have "sum_list (map f xs) = 0" by (simp add: sum_list_nonneg_eq_0_iff)
    then show ?thesis using 0 by simp
  next
    case (Suc k)
    then show ?thesis using Cons(1) [of k] Cons(2) [of "Suc _"] Cons(2) [of 0] Cons(3) by simp
  qed
qed simp

definition under_lock :: "(pc \<Rightarrow> nat) \<Rightarrow> bool" where
  "under_lock f \<longleftrightarrow> (\<forall>a l pc. own a l pc \<longrightarrow> f pc \<noteq> 0 \<longrightarrow> is_mine a l)"

lemma under_lock_weights: "under_lock pend" "under_lock sub" "under_lock zmax" "under_lock need"
  "under_lock collecting" "under_lock flag_out"
  unfolding under_lock_def by (intro allI; case_tac pc; simp)+

lemma tot_sole:
  assumes inv: "sys_inv home s" and i: "i < length (sy_pcs s)" and mine: "is_mine (home i, i) (sy_lock s)"
    and f: "under_lock f"
  shows "tot f s = f (sy_pcs s ! i)"
  unfolding tot_def
proof (rule sum_sole [OF _ i])
  fix j assume j: "j < length (sy_pcs s)" "j \<noteq> i"
  show "f (sy_pcs s ! j) = 0"
  proof (rule ccontr)
    assume n: "f (sy_pcs s ! j) \<noteq> 0"
    have "own (home j, j) (sy_lock s) (sy_pcs s ! j)" using inv j by (simp add: sys_inv_def)
    then have "is_mine (home j, j) (sy_lock s)" using f n unfolding under_lock_def by blast
    moreover have "lock_ok (sy_lock s)" using inv by (simp add: sys_inv_def)
    ultimately show False using mine j(2) lk.holder_unique [of "sy_lock s" "(home i, i)" _ "(home j, j)"]
      by (auto simp: is_mine_iff)
  qed
qed

section \<open>Every step keeps the books\<close>

lemma own_cong: "(\<And>d. holds l' a d = holds l a d) \<Longrightarrow> own a l' pc = own a l pc"
proof -
  assume h: "\<And>d. holds l' a d = holds l a d"
  then have "is_mine a l' = is_mine a l" unfolding holds_def by metis
  then show ?thesis using h by (cases pc) simp_all
qed

text \<open>The lock operations of one thread do not change what another thread holds.\<close>

lemma lock_acquire_step:
  assumes "lock_ok l" "sem_acquire Block a l = Some (r, l')"
  shows "\<exists>d. r \<and> lock_ok l' \<and> holds l' a (d + 1) \<and> (if d = 0 then lock_free l else holds l a d) \<and>
    (\<forall>b e. b \<noteq> a \<longrightarrow> holds l' b e = holds l b e)"
proof (rule lk.acquire_cases [OF assms])
  fix d assume d: "r" "lock_ok l'" "holds l' a (d + 1)" "if d = 0 then lock_free l else holds l a d"
  have "holds l' b e = holds l b e" if "b \<noteq> a" for b e
    using lk.holder_unique [OF d(2,3), of b e] lk.mutual_exclusion [OF assms, of b e] that by blast
  with d show ?thesis by blast
qed

lemma lock_release_step:
  assumes "lock_ok l" "holds l a d"
  obtains l' where "sem_release a l = (Inr (), l')" "lock_ok l'" "if d = 1 then lock_free l' else holds l' a (d - 1)"
    "\<And>b e. b \<noteq> a \<Longrightarrow> holds l' b e = holds l b e"
proof -
  from lk.release_held [OF assms] obtain l' where l': "sem_release a l = (Inr (), l')" "lock_ok l'"
    "if d = 1 then lock_free l' else holds l' a (d - 1)" by blast
  have "holds l' b e = holds l b e" if "b \<noteq> a" for b e
    using lk.holder_unique [OF assms, of b e] lk.holder_unique [OF l'(2), of a "d - 1" b e]
      lk.not_free [OF l'(2), of b e] l'(3) that by (auto split: if_splits)
  with l' show thesis by (rule that)
qed

lemma free_not_mine: "lock_ok l \<Longrightarrow> lock_free l \<Longrightarrow> \<not> is_mine a l"
  unfolding is_mine_iff using lk.not_free [of l a] by blast

lemma on_acquire_Some: "on_acquire r f k = Some (s', pc) \<longleftrightarrow> (\<exists>b m. r = Some (b, m) \<and> s' = f m \<and> pc = k b)"
  by (auto simp: on_acquire_def split: option.split)

lemma on_release_Some: "on_release r f err k = Some (s', pc) \<longleftrightarrow>
    (\<exists>m. r = (Inr (), m) \<and> s' = f m \<and> pc = k) \<or> (\<exists>e m. r = (Inl e, m) \<and> s' = f m \<and> pc = err e)"
  by (cases r; cases "fst r") (auto simp: on_release_def)

abbreviation moved :: "sys \<Rightarrow> sys \<Rightarrow> nat \<Rightarrow> pc \<Rightarrow> sys" where
  "moved s s' i pc \<equiv> s'\<lparr>sy_pcs := (sy_pcs s)[i := pc]\<rparr>"

lemma tot_moved:
  assumes "i < length (sy_pcs s)" "sy_pcs s ! i = pc"
  shows "tot f (moved s s' i pc') = tot f s + f pc' - f pc"
  using tot_upd [OF assms, of "moved s s' i pc'" pc' f] by simp

lemma inv_step:
  assumes "sys_inv home s" "i < length (sy_pcs s)" "lock_ok (sy_lock s')" "counters_ok s'"
    and "\<And>b e. b \<noteq> (home i, i) \<Longrightarrow> holds (sy_lock s') b e = holds (sy_lock s) b e"
    and "own (home i, i) (sy_lock s') pc'" "books (moved s s' i pc')"
  shows "sys_inv home (moved s s' i pc')"
proof -
  have "own (home j, j) (sy_lock s') ((sy_pcs s)[i := pc'] ! j)" if "j < length (sy_pcs s)" for j
  proof (cases "j = i")
    case False
    then have "own (home j, j) (sy_lock s') (sy_pcs s ! j) = own (home j, j) (sy_lock s) (sy_pcs s ! j)"
      using assms(5) by (intro own_cong) auto
    then show ?thesis using assms(1) that False by (simp add: sys_inv_def)
  qed (use assms that in simp)
  then show ?thesis using assms(3,4,7) by (simp add: sys_inv_def counters_ok_def)
qed

lemma inv_parts:
  assumes "sys_inv home s" "i < length (sy_pcs s)" "sy_pcs s ! i = pc"
  shows "lock_ok (sy_lock s)" "counters_ok s" "own (home i, i) (sy_lock s) pc" "books s"
    "f pc \<le> tot f s"
  using assms tot_ge [of i s f] by (auto simp: sys_inv_def)

lemma counters_acquire:
  assumes "counters_ok s"
  shows "sem_acquire m a (sy_sleeping s) = Some (b, x) \<Longrightarrow> counters_ok (s\<lparr>sy_sleeping := x\<rparr>)
       \<and> b = (0 < sm_value (sy_sleeping s)) \<and> sm_value x = sm_value (sy_sleeping s) - 1"
    and "sem_acquire m a (sy_woken s) = Some (b, x) \<Longrightarrow> counters_ok (s\<lparr>sy_woken := x\<rparr>)
       \<and> b = (0 < sm_value (sy_woken s)) \<and> sm_value x = sm_value (sy_woken s) - 1 \<and> (m = Block \<longrightarrow> b)"
    and "sem_acquire m a (sy_wait s) = Some (b, x) \<Longrightarrow> counters_ok (s\<lparr>sy_wait := x\<rparr>)
       \<and> b = (0 < sm_value (sy_wait s)) \<and> sm_value x = sm_value (sy_wait s) - 1"
    and "sem_acquire m a (sy_flag s) = Some (b, x) \<Longrightarrow> counters_ok (s\<lparr>sy_flag := x\<rparr>)
       \<and> b = (0 < sm_value (sy_flag s)) \<and> sm_value x = sm_value (sy_flag s) - 1"
  using assms by (auto simp: counters_ok_def dest: counting_acquired, auto simp: sem_acquire_def counting_def split: if_splits)

lemma counters_release:
  assumes "counters_ok s"
  shows "sem_release a (sy_sleeping s) = (Inr (), x) \<Longrightarrow> counters_ok (s\<lparr>sy_sleeping := x\<rparr>)
       \<and> sm_value x = sm_value (sy_sleeping s) + 1 \<and> int (sm_value x) \<le> SEM_VALUE_MAX"
    and "sem_release a (sy_woken s) = (Inr (), x) \<Longrightarrow> counters_ok (s\<lparr>sy_woken := x\<rparr>)
       \<and> sm_value x = sm_value (sy_woken s) + 1"
    and "sem_release a (sy_wait s) = (Inr (), x) \<Longrightarrow> counters_ok (s\<lparr>sy_wait := x\<rparr>)
       \<and> sm_value x = sm_value (sy_wait s) + 1"
    and "sem_release a (sy_flag s) = (Inr (), x) \<Longrightarrow> counters_ok (s\<lparr>sy_flag := x\<rparr>)
       \<and> sm_value x = sm_value (sy_flag s) + 1"
  using assms by (auto simp: counters_ok_def dest: counting_release)

lemma counters_full:
  assumes "counters_ok s"
  shows "sem_release a (sy_sleeping s) = (Inl e, x) \<Longrightarrow> x = sy_sleeping s \<and> SEM_VALUE_MAX \<le> int (sm_value (sy_sleeping s))"
    and "sem_release a (sy_woken s) = (Inl e, x) \<Longrightarrow> x = sy_woken s \<and> SEM_VALUE_MAX \<le> int (sm_value (sy_woken s))"
    and "sem_release a (sy_wait s) = (Inl e, x) \<Longrightarrow> x = sy_wait s \<and> SEM_VALUE_MAX \<le> int (sm_value (sy_wait s))"
    and "sem_release a (sy_flag s) = (Inl e, x) \<Longrightarrow> x = sy_flag s \<and> SEM_VALUE_MAX \<le> int (sm_value (sy_flag s))"
  using assms by (auto simp: counters_ok_def dest: counting_release_error)

lemmas under_lock = tot_sole [OF _ _ _ under_lock_weights(1)] tot_sole [OF _ _ _ under_lock_weights(2)]
  tot_sole [OF _ _ _ under_lock_weights(3)] tot_sole [OF _ _ _ under_lock_weights(4)]
  tot_sole [OF _ _ _ under_lock_weights(5)] tot_sole [OF _ _ _ under_lock_weights(6)]

lemma own_finish [simp]: "is_mine a l \<Longrightarrow> own a l (finish k r)"
  by (cases k; cases r) auto

lemma weights_finish [simp]: "asleep (finish k r) = 0" "woke (finish k r) = 0" "pend (finish k r) = 0"
  "sub (finish k r) = 0" "zmax (finish k r) = 0" "need (finish k r) = 0" "collecting (finish k r) = 0"
  "flag_out (finish k r) = 0"
  by (cases k; cases r; simp)+

lemma notify_keeps:
  assumes inv: "sys_inv home s" and i: "i < length (sy_pcs s)" and pc: "sy_pcs s ! i = pc"
    and step: "notify_step (home i, i) s pc = Some (s', pc')"
  shows "sys_inv home (moved s s' i pc')"
proof -
  note parts = inv_parts [OF inv i pc]
  note full = counters_full [OF parts(2)] and rel = counters_release [OF parts(2)] and acq = counters_acquire [OF parts(2)]
  have mine: "is_mine (home i, i) (sy_lock s)" using parts(3) step by (cases pc) auto
  note sole = under_lock [OF inv i mine, unfolded pc]
  have lock: "sy_lock s' = sy_lock s"
    using step by (cases pc) (auto simp: on_acquire_Some on_release_Some)
  have "counters_ok s' \<and> is_mine (home i, i) (sy_lock s) \<and> own (home i, i) (sy_lock s) pc' \<and> books (moved s s' i pc')"
    using step mine parts(4) parts(5) [of woke] parts(5) [of asleep] sole parts(2)
    by (cases pc) (auto simp: on_acquire_Some on_release_Some books_def tot_moved [OF i pc]
      dest!: acq rel full split: if_splits)
  then show ?thesis using inv_step [OF inv i, of s' pc'] lock parts by simp
qed

lemma notify_all_keeps:
  assumes inv: "sys_inv home s" and i: "i < length (sy_pcs s)" and pc: "sy_pcs s ! i = pc"
    and step: "notify_all_step (home i, i) s pc = Some (s', pc')"
  shows "sys_inv home (moved s s' i pc')"
proof -
  note parts = inv_parts [OF inv i pc]
  note full = counters_full [OF parts(2)] and rel = counters_release [OF parts(2)] and acq = counters_acquire [OF parts(2)]
  have mine: "is_mine (home i, i) (sy_lock s)" using parts(3) step by (cases pc) auto
  note sole = under_lock [OF inv i mine, unfolded pc]
  note facts = step mine parts(2-4) parts(5) [of woke] parts(5) [of asleep] sole
  note defs = on_acquire_Some on_release_Some books_def tot_moved [OF i pc]
  have lock: "sy_lock s' = sy_lock s"
    using step by (cases pc) (auto simp: on_acquire_Some on_release_Some)
  have "counters_ok s' \<and> own (home i, i) (sy_lock s) pc' \<and> books (moved s s' i pc')"
  proof (cases pc)
    case (AStart k)
    then show ?thesis using facts by (auto simp: defs dest!: acq(3))
  next
    case (ALoop k)
    then show ?thesis using facts by (auto simp: defs dest!: acq(2) split: if_splits)
  next
    case (ASub k)
    then show ?thesis using facts by (auto simp: defs dest!: acq(1) split: if_splits)
  next
    case (ATake k n)
    then show ?thesis using facts by (auto simp: defs dest!: acq(1) split: if_splits)
  next
    case (APost k n)
    then show ?thesis using facts by (auto simp: defs dest!: rel(3) full(3))
  next
    case (AWoken k n i)
    then show ?thesis using facts by (auto simp: defs dest!: acq(2) split: if_splits)
  next
    case (AZero k n)
    then show ?thesis using facts by (auto simp: defs dest!: acq(3) split: if_splits)
  qed (use step in simp_all)
  then show ?thesis using inv_step [OF inv i, of s' pc'] lock parts by simp
qed

lemma wait_keeps:
  assumes inv: "sys_inv home s" and i: "i < length (sy_pcs s)" and pc: "sy_pcs s ! i = pc"
    and step: "wait_step (home i, i) late s pc = Some (s', pc')"
  shows "sys_inv home (moved s s' i pc')"
proof -
  note parts = inv_parts [OF inv i pc]
  note full = counters_full [OF parts(2)] and rel = counters_release [OF parts(2)] and acq = counters_acquire [OF parts(2)]
  note sole = under_lock [OF inv i _, unfolded pc]
  have "lock_ok (sy_lock s') \<and> counters_ok s' \<and>
      (\<forall>b e. b \<noteq> (home i, i) \<longrightarrow> holds (sy_lock s') b e = holds (sy_lock s) b e) \<and>
      own (home i, i) (sy_lock s') pc' \<and> books (moved s s' i pc')"
  proof (cases pc)
    case (WaitStart timed k)
    then have mine: "is_mine (home i, i) (sy_lock s)" using parts(3) by simp
    show ?thesis
      using step mine parts sole [OF mine] WaitStart
      by (auto simp: on_acquire_Some on_release_Some books_def tot_moved [OF i pc] Let_def holds_def is_mine_def
        dest!: rel full split: if_splits)
  next
    case (WaitRel timed k c r)
    then have h: "holds (sy_lock s) (home i, i) r" "0 < r" "r \<le> c" using parts(3) by simp_all
    from lock_release_step [OF parts(1) h(1)] obtain l' where l': "sem_release (home i, i) (sy_lock s) = (Inr (), l')"
      "lock_ok l'" "if r = 1 then lock_free l' else holds l' (home i, i) (r - 1)"
      "\<And>b e. b \<noteq> (home i, i) \<Longrightarrow> holds l' b e = holds (sy_lock s) b e" by blast
    have "own (home i, i) l' pc'"
      using step l' h WaitRel free_not_mine [OF l'(2)] by (auto simp: on_release_Some split: if_splits)
    moreover have "asleep pc' = 1" "woke pc' = 0" "pend pc' = 0" "sub pc' = 0" "zmax pc' = 0" "need pc' = 0"
      "collecting pc' = 0" "flag_out pc' = 0" "s' = s\<lparr>sy_lock := l'\<rparr>"
      using step l' WaitRel by (auto simp: on_release_Some)
    ultimately show ?thesis using l' parts(2,4) parts(5) [of asleep] WaitRel
      by (auto simp: books_def tot_moved [OF i pc] counters_ok_def)
  next
    case (WaitSleep timed k c)
    then show ?thesis 
      using step parts parts(5) [of woke] parts(5) [of asleep]
      by (auto simp: on_acquire_Some on_release_Some books_def tot_moved [OF i pc] dest!: acq)
  next
    case (WaitWoke k c ok)
    then show ?thesis
      using step parts parts(5) [of woke] parts(5) [of asleep]
      by (auto simp: on_acquire_Some on_release_Some books_def tot_moved [OF i pc] dest!: rel full)
  next
    case (WaitReacq k c j ok)
    then have h: "0 \<le> j" "j < c" "if j = 0 then \<not> is_mine (home i, i) (sy_lock s) else holds (sy_lock s) (home i, i) j"
      using parts(3) by simp_all
    from step WaitReacq obtain r l' where acq: "sem_acquire Block (home i, i) (sy_lock s) = Some (r, l')"
      "s' = s\<lparr>sy_lock := l'\<rparr>" "pc' = (if j + 1 \<ge> c then finish k (Inr ok) else WaitReacq k c (j + 1) ok)"
      by (auto simp: on_acquire_Some)
    from lock_acquire_step [OF parts(1) acq(1)] obtain d where d: "lock_ok l'" "holds l' (home i, i) (d + 1)"
      "if d = 0 then lock_free (sy_lock s) else holds (sy_lock s) (home i, i) d"
      "\<forall>b e. b \<noteq> (home i, i) \<longrightarrow> holds l' b e = holds (sy_lock s) b e" by blast
    have "d = j"
      using d(3) h(3) free_not_mine [OF parts(1)] lk.holder_unique [OF parts(1), of "(home i, i)" d "(home i, i)" j]
      by (auto simp: is_mine_iff [OF parts(1)] split: if_splits)
    then have "own (home i, i) l' pc'" using d(2) h acq(3) by (auto simp: holds_def)
    then show ?thesis using d acq(2,3) parts(2,4) WaitReacq
      by (auto simp: books_def tot_moved [OF i pc] counters_ok_def)
  qed (use step in simp_all)
  then show ?thesis using inv_step [OF inv i, of s' pc'] by blast
qed

definition weightless :: "pc \<Rightarrow> bool" where
  "weightless pc \<longleftrightarrow> asleep pc = 0 \<and> woke pc = 0 \<and> pend pc = 0 \<and> sub pc = 0 \<and> zmax pc = 0 \<and> need pc = 0 \<and>
     collecting pc = 0 \<and> flag_out pc = 0"

lemma lock_enter_keeps:
  assumes inv: "sys_inv home s" and i: "i < length (sy_pcs s)" and pc: "sy_pcs s ! i = pc"
    and step: "sem_acquire Block (home i, i) (sy_lock s) = Some (b, l')"
    and w: "weightless pc" "weightless pc'" "\<And>l. is_mine (home i, i) l \<Longrightarrow> own (home i, i) l pc'"
  shows "sys_inv home (moved s (s\<lparr>sy_lock := l'\<rparr>) i pc')"
proof -
  note parts = inv_parts [OF inv i pc]
  from lock_acquire_step [OF parts(1) step] obtain d where d: "lock_ok l'" "holds l' (home i, i) (d + 1)"
    "\<forall>b e. b \<noteq> (home i, i) \<longrightarrow> holds l' b e = holds (sy_lock s) b e" by blast
  have "is_mine (home i, i) l'" using d(2) by (simp add: holds_def)
  with d w parts(2,4) show ?thesis
    by (intro inv_step [OF inv i]) (auto simp: weightless_def books_def tot_moved [OF i pc] counters_ok_def)
qed

lemma lock_leave_keeps:
  assumes inv: "sys_inv home s" and i: "i < length (sy_pcs s)" and pc: "sy_pcs s ! i = pc"
    and step: "sem_release (home i, i) (sy_lock s) = (r, l')" "is_mine (home i, i) (sy_lock s)"
    and w: "weightless pc" "weightless pc'" "\<And>l. own (home i, i) l pc'"
  shows "r = Inr () \<and> sys_inv home (moved s (s\<lparr>sy_lock := l'\<rparr>) i pc')"
proof -
  note parts = inv_parts [OF inv i pc]
  from step(2) obtain d where h: "holds (sy_lock s) (home i, i) d" by (auto simp: holds_def)
  have d: "r = Inr () \<and> lock_ok l' \<and> (\<forall>b e. b \<noteq> (home i, i) \<longrightarrow> holds l' b e = holds (sy_lock s) b e)"
    by (rule lock_release_step [OF parts(1) h]) (use step(1) in simp)
  with w parts(2,4) show ?thesis
    by (intro conjI inv_step [OF inv i]) (auto simp: weightless_def books_def tot_moved [OF i pc] counters_ok_def)
qed

lemma event_keeps:
  assumes inv: "sys_inv home s" and i: "i < length (sy_pcs s)" and pc: "sy_pcs s ! i = pc"
    and step: "event_step (home i, i) s pc = Some (s', pc')"
  shows "sys_inv home (moved s s' i pc')"
proof -
  note parts = inv_parts [OF inv i pc]
  note full = counters_full [OF parts(2)] and rel = counters_release [OF parts(2)] and acq = counters_acquire [OF parts(2)]
  note defs = on_acquire_Some on_release_Some books_def tot_moved [OF i pc]
  have under: ?thesis if mine: "is_mine (home i, i) (sy_lock s)" and "\<And>r. pc \<noteq> EExit r"
    "pc \<notin> {EIsSet, ESet, EClear} \<union> range EWait"
  proof -
    note facts = step parts(2,4) under_lock [OF inv i mine, unfolded pc] that
    have "sy_lock s' = sy_lock s" using step that(2,3) by (cases pc) (auto simp: on_acquire_Some on_release_Some)
    moreover have "counters_ok s' \<and> own (home i, i) (sy_lock s) pc' \<and> books (moved s s' i pc')"
    proof (cases pc)
      case (EWait1 timed)
      then show ?thesis using facts by (auto simp: defs dest!: acq(4) split: if_splits)
    qed (use facts in \<open>auto simp: defs dest!: acq(4) rel(4) full(4) split: if_splits\<close>)
    ultimately show ?thesis using inv_step [OF inv i, of s' pc'] parts by simp
  qed
  have "is_mine (home i, i) (sy_lock s)" if "pc \<notin> {EIsSet, ESet, EClear} \<union> range EWait"
    using that parts(3) step by (cases pc) auto
  moreover have ?thesis if "pc \<in> {EIsSet, ESet, EClear} \<union> range EWait"
    using step that by (auto simp: on_acquire_Some intro!: lock_enter_keeps [OF inv i pc] simp: weightless_def)
  moreover have ?thesis if "pc = EExit r" for r
    using step that parts(3) lock_leave_keeps [OF inv i pc, of _ _ "Idle r"] by (auto simp: on_release_Some weightless_def)
  ultimately show ?thesis using under by blast
qed

lemma call_keeps:
  assumes inv: "sys_inv home s" and i: "i < length (sy_pcs s)" and pc: "sy_pcs s ! i = Idle r"
    and step: "call (home i, i) c s = Some (s', pc')" and own: "c = CRelease \<Longrightarrow> is_mine (home i, i) (sy_lock s)"
  shows "sys_inv home (moved s s' i pc')"
proof -
  note parts = inv_parts [OF inv i pc]
  have here: ?thesis if "s' = s" "weightless pc'" "own (home i, i) (sy_lock s) pc'"
    using that parts(1,2,4) by (intro inv_step [OF inv i])
      (auto simp: weightless_def books_def tot_moved [OF i pc] counters_ok_def)
  show ?thesis
  proof (cases c)
    case CAcquire
    then show ?thesis using step
      by (auto simp: on_acquire_Some intro!: lock_enter_keeps [OF inv i pc] simp: weightless_def)
  next
    case CRelease
    then show ?thesis using step lock_leave_keeps [OF inv i pc _ own, of _ _ "Idle (Inr True)"]
      by (auto simp: on_release_Some weightless_def)
  qed (rule here; use step in \<open>auto simp: weightless_def\<close>)+
qed

lemma sys_step_keeps:
  assumes inv: "sys_inv home s" and step: "sys_step home i c late s = Some s'"
  shows "sys_inv home s'"
proof -
  from step obtain t pc' where i: "i < length (sy_pcs s)" and s': "s' = moved s t i pc'"
    and t: "thread_step (home i, i) c late s (sy_pcs s ! i) = Some (t, pc')"
    by (auto simp: sys_step_def split: if_splits option.splits)
  define pc where "pc = sy_pcs s ! i"
  show ?thesis
  proof (cases "\<exists>r. pc = Idle r")
    case True
    then show ?thesis using t call_keeps [OF inv i] by (auto simp: s' pc_def split: if_splits)
  next
    case False
    then have "wait_step (home i, i) late s pc = Some (t, pc') \<or> notify_step (home i, i) s pc = Some (t, pc') \<or>
        notify_all_step (home i, i) s pc = Some (t, pc') \<or> event_step (home i, i) s pc = Some (t, pc')"
      using t unfolding pc_def [symmetric]
      by (cases pc) (auto split: option.splits
        simp del: wait_step.simps notify_step.simps notify_all_step.simps event_step.simps)
    then show ?thesis
      using wait_keeps [OF inv i pc_def [symmetric]] notify_keeps [OF inv i pc_def [symmetric]]
        notify_all_keeps [OF inv i pc_def [symmetric]] event_keeps [OF inv i pc_def [symmetric]]
      unfolding s' by blast
  qed
qed

lemma new_sys_inv: "sys_inv home (new_sys k n)"
  using lock_ok_new by (auto simp: sys_inv_def new_sys_def counters_ok_def counting_def new_sem_def books_def tot_def
      sum_list_replicate SEM_VALUE_MAX_def)

theorem reachable_inv: "reachable home cmds k n s \<Longrightarrow> sys_inv home s"
  by (induction rule: reachable.induct) (auto intro: new_sys_inv sys_step_keeps)

end
