(* ===== verification/Condition_Properties.thy ===== *)
theory Condition_Properties
  imports Condition
begin

text \<open>
  What the invariant of \<open>Condition\<close> gives: \<open>notify_all\<close> and \<open>Event.set\<close> wake everybody, a notifier is
  never stuck, the methods do not fail, nobody sleeps through a set event; and two executions in which
  the methods do less than one expects.
\<close>

section \<open>Properties of Condition\<close>

lemma step_cases:
  assumes "sys_step home i c late s = Some s'"
  obtains t pc' where "i < length (sy_pcs s)" "thread_step (home i, i) c late s (sy_pcs s ! i) = Some (t, pc')"
    "s' = moved s t i pc'" "sy_pcs s' ! i = pc'"
  using assms by (auto simp: sys_step_def split: if_splits option.splits)

lemma thread_step_nonidle:
  assumes "thread_step a c late s pc = Some r" "\<forall>x. pc \<noteq> Idle x"
  shows "wait_step a late s pc = Some r \<or> notify_step a s pc = Some r \<or> notify_all_step a s pc = Some r \<or> event_step a s pc = Some r"
  using assms by (cases pc) (auto split: option.splits
    simp del: wait_step.simps notify_step.simps notify_all_step.simps event_step.simps)

lemma nobody_asleep: "tot asleep s = 0 \<Longrightarrow> j < length (sy_pcs s) \<Longrightarrow> asleep (sy_pcs s ! j) = 0"
  using tot_ge [of j s asleep] by simp

lemma all_done_asleep:
  assumes "sys_inv home s" "i < length (sy_pcs s)" "sy_pcs s ! i = AZero k m"
  shows "tot asleep s = 0" "sm_value (sy_sleeping s) = 0" "sm_value (sy_woken s) = 0"
proof -
  have "is_mine (home i, i) (sy_lock s)" using inv_parts(3) [OF assms] by simp
  from under_lock [OF assms(1,2) this] show "tot asleep s = 0" "sm_value (sy_sleeping s) = 0" "sm_value (sy_woken s) = 0"
    using inv_parts(4) [OF assms] assms(3) by (auto simp: books_def)
qed

lemma none_to_take:
  assumes "sys_inv home s" "i < length (sy_pcs s)" "sy_pcs s ! i = ATake k 0" "sm_value (sy_sleeping s) = 0"
  shows "tot asleep s = 0"
proof -
  have "is_mine (home i, i) (sy_lock s)" using inv_parts(3) [OF assms(1-3)] by simp
  from under_lock [OF assms(1,2) this] show ?thesis
    using inv_parts(4) [OF assms(1-3)] assms(3,4) by (auto simp: books_def)
qed

text \<open>
  C14. \<open>notify_all\<close> wakes everybody: when it returns, in any interleaving of any number of threads
  that wait (with and without timeouts), notify and use the lock, no thread is asleep in \<open>wait\<close>.
\<close>

theorem notify_all_wakes_all:
  assumes r: "reachable home cmds kind n s" and at: "sy_pcs s ! i = AZero k m \<or> sy_pcs s ! i = ATake k 0"
    and step: "sys_step home i c late s = Some s'" "sy_pcs s' ! i = finish k (Inr True)" and j: "j < length (sy_pcs s')"
  shows "asleep (sy_pcs s' ! j) = 0"
proof -
  note inv = reachable_inv [OF r]
  from step_cases [OF step(1)] obtain t pc' where i: "i < length (sy_pcs s)"
    and t: "thread_step (home i, i) c late s (sy_pcs s ! i) = Some (t, pc')" and s': "s' = moved s t i pc'" "pc' = finish k (Inr True)"
    using step(2) by metis
  have "tot asleep s = 0"
    using at
  proof
    assume at: "sy_pcs s ! i = ATake k 0"
    have "sm_value (sy_sleeping s) = 0"
    proof (rule ccontr)
      assume n: "sm_value (sy_sleeping s) \<noteq> 0"
      from t at obtain b m where "sem_acquire NoBlock (home i, i) (sy_sleeping s) = Some (b, m)" "pc' = (if b then APost k 0 else finish k (Inr True))"
        by (auto simp: on_acquire_Some split: option.splits)
      moreover have "counters_ok s" using inv by (simp add: sys_inv_def)
      ultimately have "pc' = APost k 0" using n counters_acquire(1) by fastforce
      then show False using s'(2) by (cases k) simp_all
    qed
    then show ?thesis by (rule none_to_take [OF inv i at])
  qed (use all_done_asleep [OF inv i] in blast)
  then have "asleep (sy_pcs s ! j) = 0" if "j \<noteq> i" using nobody_asleep j s' by simp
  then show ?thesis using s' i by (cases "j = i") simp_all
qed

text \<open>
  C15. A notifier that waits for a sleeper to wake is never stuck: it can go on, or one of the
  sleepers can, without any timeout having to pass.
\<close>

theorem notifier_not_stuck:
  assumes r: "reachable home cmds kind n s" and i: "i < length (sy_pcs s)"
    and at: "sy_pcs s ! i = NWoken \<or> sy_pcs s ! i = AWoken k m left"
  shows "\<exists>j < length (sy_pcs s). (j = i \<or> woke (sy_pcs s ! j) = 1 \<or> (\<exists>timed k d. sy_pcs s ! j = WaitSleep timed k d))
    \<and> sys_step home j c False s \<noteq> None"
proof -
  note inv = reachable_inv [OF r]
  note parts = inv_parts [OF inv i refl]
  have mine: "is_mine (home i, i) (sy_lock s)" and need: "0 < need (sy_pcs s ! i)" using parts(3) at by auto
  note sole = under_lock [OF inv i mine]
  have "0 < sm_value (sy_wait s) + tot woke s + sm_value (sy_woken s)"
    using parts(4) need sole by (auto simp: books_def)
  then consider (W) "0 < sm_value (sy_woken s)" | (V) "0 < tot woke s"
    | (Z) "0 < sm_value (sy_wait s)" "tot woke s = 0" "sm_value (sy_woken s) = 0" by linarith
  then show ?thesis
  proof cases
    case W
    then have "sys_step home i c False s \<noteq> None"
      using at i by (auto simp: sys_step_def on_acquire_def sem_acquire_def)
    then show ?thesis using i by blast
  next
    case V
    then obtain j where j: "j < length (sy_pcs s)" "woke (sy_pcs s ! j) \<noteq> 0"
      unfolding tot_def by (metis (no_types, lifting) in_set_conv_nth length_map nth_map not_gr_zero sum_list_eq_0_iff)
    then obtain k c' ok where "sy_pcs s ! j = WaitWoke k c' ok" by (cases "sy_pcs s ! j") auto
    then have "sys_step home j c False s \<noteq> None" "woke (sy_pcs s ! j) = 1"
      using j by (auto simp: sys_step_def on_release_def split: prod.splits sum.splits option.splits)
    then show ?thesis using j by blast
  next
    case Z
    have "0 < tot pend s" using sole at need by auto
    then have "0 < tot asleep s" using parts(4) Z sole at by (auto simp: books_def)
    then obtain j where j: "j < length (sy_pcs s)" "asleep (sy_pcs s ! j) \<noteq> 0"
      unfolding tot_def by (metis (no_types, lifting) in_set_conv_nth length_map nth_map not_gr_zero sum_list_eq_0_iff)
    have own: "own (home j, j) (sy_lock s) (sy_pcs s ! j)" using inv j by (simp add: sys_inv_def)
    have "woke (sy_pcs s ! j) = 0" using tot_ge [OF j(1), of woke] Z by simp
    moreover have "sy_pcs s ! j \<noteq> WaitRel timed k' d e" for timed k' d e
    proof
      assume w: "sy_pcs s ! j = WaitRel timed k' d e"
      then have "holds (sy_lock s) (home j, j) e" using own by simp
      then have "j = i" using mine lk.holder_unique [OF parts(1), of "(home i, i)" _ "(home j, j)"] by (auto simp: is_mine_iff [OF parts(1)])
      then show False using at w by auto
    qed
    ultimately obtain timed k' d where w: "sy_pcs s ! j = WaitSleep timed k' d" using j(2) by (cases "sy_pcs s ! j") auto
    then have "sys_step home j c False s \<noteq> None"
      using j Z by (auto simp: sys_step_def on_acquire_def sem_acquire_def split: option.splits)
    then show ?thesis using j w by blast
  qed
qed

lemma failed_iff: "finish k r = Idle (Inl e) \<or> finish k r = EExit (Inl e) \<longleftrightarrow> r = Inl e"
  by (cases k; cases r) auto

definition failed :: "pc \<Rightarrow> bool" where
  "failed pc \<longleftrightarrow> (\<exists>e. pc = Idle (Inl e) \<or> pc = EExit (Inl e))"

lemma failed_simps [simp]: "failed (finish k (Inl e))" "\<not> failed (finish k (Inr b))" "failed (EExit (Inl e))"
  "\<not> failed (EExit (Inr b))" "failed (Idle (Inl e))" "\<not> failed (Idle (Inr b))"
  by (cases k; auto simp: failed_def)+

lemma not_failed [simp]: "\<not> failed (WaitRel x k c r)" "\<not> failed (WaitSleep x k c)" "\<not> failed (WaitStart x k)"
  "\<not> failed (WaitWoke k c b)" "\<not> failed (WaitReacq k c j b)" "\<not> failed NLoop" "\<not> failed NSub" "\<not> failed NTake"
  "\<not> failed NPost" "\<not> failed NWoken" "\<not> failed NZero" "\<not> failed (ALoop k)" "\<not> failed (AStart k)" "\<not> failed (ASub k)"
  "\<not> failed (ATake k n)" "\<not> failed (APost k n)" "\<not> failed (AWoken k n m)" "\<not> failed (AZero k n)" "\<not> failed EIsSet1"
  "\<not> failed EIsSet2" "\<not> failed ESet1" "\<not> failed ESet2" "\<not> failed EClear1" "\<not> failed (EWait1 x)" "\<not> failed EWait2"
  "\<not> failed EWait3" "\<not> failed EWait4"
  by (simp_all add: failed_def)

lemma failed_if [simp]: "failed (if b then x else y) = (if b then failed x else failed y)"
  by simp

lemma notify_ok:
  assumes inv: "sys_inv home s" and i: "i < length (sy_pcs s)" and pc: "sy_pcs s ! i = pc"
    and step: "notify_step (home i, i) s pc = Some (t, pc')"
  shows "\<not> failed pc'"
proof -
  note parts = inv_parts [OF inv i pc]
  have mine: "is_mine (home i, i) (sy_lock s)" using parts(3) step by (cases pc) auto
  show ?thesis
    using step parts(4) under_lock [OF inv i mine, unfolded pc]
    by (cases pc) (auto simp: on_acquire_Some on_release_Some books_def SEM_VALUE_MAX_def
      dest!: counters_acquire(1,3) [OF parts(2)] counters_full(3) [OF parts(2)] split: if_splits)
qed

lemma notify_all_ok:
  assumes inv: "sys_inv home s" and i: "i < length (sy_pcs s)" and pc: "sy_pcs s ! i = pc"
    and step: "notify_all_step (home i, i) s pc = Some (t, pc')"
  shows "\<not> failed pc'"
proof -
  note parts = inv_parts [OF inv i pc]
  have mine: "is_mine (home i, i) (sy_lock s)" using parts(3) step by (cases pc) auto
  show ?thesis
    using step parts(4) under_lock [OF inv i mine, unfolded pc]
    by (cases pc) (auto simp: on_acquire_Some on_release_Some books_def SEM_VALUE_MAX_def
      dest!: counters_acquire(1,3) [OF parts(2)] counters_full(3) [OF parts(2)] split: if_splits)
qed

lemma wait_ok:
  assumes inv: "sys_inv home s" and i: "i < length (sy_pcs s)" and pc: "sy_pcs s ! i = pc"
    and step: "wait_step (home i, i) late s pc = Some (t, pc')" and f: "failed pc'"
  shows "\<exists>timed k. pc = WaitStart timed k \<and> SEM_VALUE_MAX \<le> int (sm_value (sy_sleeping s))"
proof -
  note parts = inv_parts [OF inv i pc]
  show ?thesis
  proof (cases pc)
    case (WaitStart timed k)
    then show ?thesis using step f
      by (auto simp: on_release_Some Let_def dest!: counters_full(1) [OF parts(2)] split: if_splits)
  next
    case (WaitRel timed k c r)
    with parts(3) lk.release_held [OF parts(1), of "(home i, i)" r] show ?thesis
      using step f by (auto simp: on_release_Some split: if_splits)
  next
    case (WaitWoke k c ok)
    then show ?thesis using step f parts(4) parts(5) [of asleep]
      by (auto simp: on_release_Some books_def dest!: counters_full(2) [OF parts(2)] split: if_splits)
  qed (use step f in \<open>auto simp: on_acquire_Some split: if_splits\<close>)
qed

lemma event_ok:
  assumes inv: "sys_inv home s" and i: "i < length (sy_pcs s)" and pc: "sy_pcs s ! i = pc"
    and step: "event_step (home i, i) s pc = Some (t, pc')" and f: "failed pc'"
  shows "failed pc"
proof -
  note parts = inv_parts [OF inv i pc]
  have full: "sem_release a (sy_flag s) \<noteq> (Inl e, m)" for a e m
    using counters_full(4) [OF parts(2), of a e m] parts(4) by (auto simp: books_def SEM_VALUE_MAX_def)
  show ?thesis
  proof (cases pc)
    case (EExit r)
    with parts(3) obtain d where "holds (sy_lock s) (home i, i) d" by (auto simp: holds_def)
    with lk.release_held [OF parts(1) this] step f EExit show ?thesis by (cases r) (auto simp: on_release_Some)
  qed (use step f parts(3) full in \<open>auto simp: on_acquire_Some on_release_Some failed_def split: if_splits\<close>)
qed

text \<open>
  C13. The assertions inside the methods hold: whatever the threads do, no step inside a method of the
  condition or of the event raises, as long as \<open>_sleeping_count\<close> can count one more sleeper.
\<close>

theorem methods_do_not_fail:
  assumes r: "reachable home cmds kind n s" and step: "sys_step home i c late s = Some s'"
    and at: "\<forall>r. sy_pcs s ! i \<noteq> Idle r" "\<not> failed (sy_pcs s ! i)"
    and room: "int (sm_value (sy_sleeping s)) < SEM_VALUE_MAX"
  shows "\<not> failed (sy_pcs s' ! i)"
proof -
  note inv = reachable_inv [OF r]
  from step_cases [OF step] obtain t pc' where i: "i < length (sy_pcs s)"
    and t: "thread_step (home i, i) c late s (sy_pcs s ! i) = Some (t, pc')" and pc': "sy_pcs s' ! i = pc'" by metis
  show ?thesis
    using thread_step_nonidle [OF t at(1)] wait_ok [OF inv i refl] notify_ok [OF inv i refl]
      notify_all_ok [OF inv i refl] event_ok [OF inv i refl] room at(2)
    unfolding pc' by fastforce
qed

text \<open>\<open>wait\<close> returns with the lock held as often as it was on entry.\<close>

lemma wait_restores_lock:
  assumes r: "reachable home cmds kind n s" and i: "i < length (sy_pcs s)" and at: "sy_pcs s ! i = WaitReacq k d j ok"
    and step: "sys_step home i c late s = Some s'" "sy_pcs s' ! i = finish k (Inr ok)"
  shows "holds (sy_lock s') (home i, i) d"
proof -
  note inv = reachable_inv [OF r]
  note parts = inv_parts [OF inv i at]
  from step at i obtain b l' where acq: "sem_acquire Block (home i, i) (sy_lock s) = Some (b, l')" "sy_lock s' = l'"
    "finish k (Inr ok) = (if j + 1 \<ge> d then finish k (Inr ok) else WaitReacq k d (j + 1) ok)"
    by (auto simp: sys_step_def on_acquire_Some split: option.splits)
  then have "d \<le> j + 1" by (cases k) (auto split: if_splits)
  then have d: "d = j + 1" using parts(3) by simp
  from lock_acquire_step [OF parts(1) acq(1)] obtain e where e: "holds l' (home i, i) (e + 1)"
    "if e = 0 then lock_free (sy_lock s) else holds (sy_lock s) (home i, i) e" by blast
  have "e = j"
    using e(2) parts(3) free_not_mine [OF parts(1)] lk.holder_unique [OF parts(1), of "(home i, i)" e "(home i, i)" j]
    by (auto simp: is_mine_iff [OF parts(1)] split: if_splits)
  then show ?thesis using e(1) acq(2) d by simp
qed

section \<open>Properties of Event\<close>

definition event_cmds :: "cmd set" where
  "event_cmds = {CIsSet, CSet, CClear} \<union> range CEventWait"

text \<open>The program counters of threads that use the event only.\<close>

fun in_event :: "pc \<Rightarrow> bool" where
  "in_event (WaitStart _ k) = (k = EventWait)" | "in_event (WaitRel _ k _ _) = (k = EventWait)"
| "in_event (WaitSleep _ k _) = (k = EventWait)" | "in_event (WaitWoke k _ _) = (k = EventWait)"
| "in_event (WaitReacq k _ _ _) = (k = EventWait)"
| "in_event NStart = False" | "in_event NLoop = False" | "in_event NSub = False" | "in_event NTake = False"
| "in_event NPost = False" | "in_event NWoken = False" | "in_event NZero = False"
| "in_event (AStart k) = (k = EventSet)" | "in_event (ALoop k) = (k = EventSet)" | "in_event (ASub k) = (k = EventSet)"
| "in_event (ATake k _) = (k = EventSet)" | "in_event (APost k _) = (k = EventSet)"
| "in_event (AWoken k _ _) = (k = EventSet)" | "in_event (AZero k _) = (k = EventSet)"
| "in_event _ = True"

text \<open>Inside \<open>notify_all\<close>; about to sleep; and with the flag taken by a reader.\<close>

fun waking :: "pc \<Rightarrow> nat" where
  "waking (AStart _) = 1" | "waking (ALoop _) = 1" | "waking (ASub _) = 1" | "waking (ATake _ _) = 1"
| "waking (APost _ _) = 1" | "waking (AWoken _ _ _) = 1" | "waking (AZero _ _) = 1" | "waking _ = 0"

fun dozing :: "pc \<Rightarrow> nat" where
  "dozing (WaitStart _ _) = 1" | "dozing _ = 0"

fun reading :: "pc \<Rightarrow> nat" where
  "reading EIsSet2 = 1" | "reading EWait2 = 1" | "reading EWait4 = 1" | "reading _ = 0"

definition event_inv :: "sys \<Rightarrow> bool" where
  "event_inv s \<longleftrightarrow> (\<forall>pc \<in> set (sy_pcs s). in_event pc) \<and>
     (0 < sm_value (sy_flag s) + tot reading s \<longrightarrow> tot asleep s = 0 \<or> 0 < tot waking s) \<and>
     (0 < tot dozing s \<longrightarrow> sm_value (sy_flag s) + tot reading s = 0)"

lemma under_lock_event: "under_lock waking" "under_lock dozing" "under_lock reading"
  unfolding under_lock_def by (intro allI; case_tac pc; simp)+

lemma set_upd: "i < length xs \<Longrightarrow> \<forall>x \<in> set xs. P x \<Longrightarrow> P y \<Longrightarrow> \<forall>x \<in> set (xs[i := y]). P x"
  using set_update_subset_insert by fast

text \<open>What a step must keep of the three clauses, in terms of the thread that makes it.\<close>

definition event_local :: "sys \<Rightarrow> sys \<Rightarrow> pc \<Rightarrow> pc \<Rightarrow> bool" where
  "event_local s t pc pc' \<longleftrightarrow> in_event pc' \<and>
     (0 < sm_value (sy_flag t) + (tot reading s + reading pc' - reading pc) \<longrightarrow>
        tot asleep s + asleep pc' - asleep pc = 0 \<or> 0 < tot waking s + waking pc' - waking pc) \<and>
     (0 < tot dozing s + dozing pc' - dozing pc \<longrightarrow>
        sm_value (sy_flag t) + (tot reading s + reading pc' - reading pc) = 0)"

lemma event_sole:
  assumes "sys_inv home s" "i < length (sy_pcs s)" "is_mine (home i, i) (sy_lock s)" "sy_pcs s ! i = pc"
  shows "tot waking s = waking pc" "tot dozing s = dozing pc" "tot reading s = reading pc"
    "tot flag_out s = flag_out pc"
  using tot_sole [OF assms(1-3)] under_lock_event under_lock_weights assms(4) by blast+

lemma event_inv_at:
  assumes "event_inv s" "i < length (sy_pcs s)" "sy_pcs s ! i = pc"
  shows "in_event pc" "0 < sm_value (sy_flag s) + tot reading s \<longrightarrow> tot asleep s = 0 \<or> 0 < tot waking s"
    "0 < tot dozing s \<longrightarrow> sm_value (sy_flag s) + tot reading s = 0"
  using assms by (auto simp: event_inv_def)

lemma wait_event:
  assumes ev: "event_inv s" and inv: "sys_inv home s" and i: "i < length (sy_pcs s)" and pc: "sy_pcs s ! i = pc"
    and step: "wait_step (home i, i) late s pc = Some (t, pc')"
  shows "event_local s t pc pc'"
proof -
  note parts = inv_parts [OF inv i pc] and at = event_inv_at [OF ev i pc]
  note defs = on_acquire_Some on_release_Some event_local_def
  show ?thesis
  proof (cases pc)
    case (WaitStart timed k)
    then have "is_mine (home i, i) (sy_lock s)" using parts(3) by simp
    then show ?thesis using step at event_sole [OF inv i _ pc] WaitStart
      by (auto simp: defs Let_def split: if_splits)
  next
    case (WaitRel timed k c r)
    then show ?thesis using step at parts(5) [of asleep] by (auto simp: defs split: if_splits)
  next
    case (WaitSleep timed k c)
    then show ?thesis using step at parts(5) [of asleep] by (auto simp: defs split: if_splits)
  next
    case (WaitWoke k c ok)
    then show ?thesis using step at parts(5) [of asleep] by (auto simp: defs split: if_splits)
  next
    case (WaitReacq k c j ok)
    then show ?thesis using step at by (auto simp: defs split: if_splits)
  qed (use step in simp_all)
qed

lemma notify_all_event:
  assumes ev: "event_inv s" and inv: "sys_inv home s" and i: "i < length (sy_pcs s)" and pc: "sy_pcs s ! i = pc"
    and step: "notify_all_step (home i, i) s pc = Some (t, pc')"
  shows "event_local s t pc pc'"
proof -
  note parts = inv_parts [OF inv i pc] and at = event_inv_at [OF ev i pc]
  have mine: "is_mine (home i, i) (sy_lock s)" using parts(3) step by (cases pc) auto
  note sole = event_sole [OF inv i mine pc]
  have flag: "sy_flag t = sy_flag s" using step by (cases pc) (auto simp: on_acquire_Some on_release_Some)
  have w: "waking pc = 1" "reading pc = 0" "asleep pc = 0" "dozing pc = 0" using step by (cases pc; simp)+
  have ok: "\<not> failed pc'" by (rule notify_all_ok [OF inv i pc step])
  have to: "(in_event pc' \<and> waking pc' = 1 \<and> reading pc' = 0 \<and> asleep pc' = 0 \<and> dozing pc' = 0) \<or>
      (pc' = EExit (Inr True) \<and> tot asleep s = 0)"
  proof (cases pc)
    case (ATake k n)
    show ?thesis
    proof (cases "pc' = EExit (Inr True)")
      case True
      with step ATake have "n = 0" "sm_value (sy_sleeping s) = 0"
        by (auto simp: on_acquire_Some dest!: counters_acquire(1) [OF parts(2)] split: if_splits)
      then show ?thesis using none_to_take [OF inv i] pc ATake True by simp
    next
      case False
      then show ?thesis using step ATake at(1) by (auto simp: on_acquire_Some split: if_splits)
    qed
  next
    case (AZero k n)
    then show ?thesis using all_done_asleep(1) [OF inv i] pc step at(1) by (auto simp: on_acquire_Some split: if_splits)
  qed (use step ok at(1) in \<open>auto simp: on_acquire_Some on_release_Some split: if_splits\<close>)
  then show ?thesis using flag w sole at by (auto simp: event_local_def)
qed

lemma event_event:
  assumes ev: "event_inv s" and inv: "sys_inv home s" and i: "i < length (sy_pcs s)" and pc: "sy_pcs s ! i = pc"
    and step: "event_step (home i, i) s pc = Some (t, pc')"
  shows "event_local s t pc pc'"
proof -
  note parts = inv_parts [OF inv i pc] and at = event_inv_at [OF ev i pc]
  note defs = on_acquire_Some on_release_Some event_local_def
  have full: "sem_release a (sy_flag s) \<noteq> (Inl e, m)" for a e m
    using counters_full(4) [OF parts(2), of a e m] parts(4) by (auto simp: books_def SEM_VALUE_MAX_def)
  show ?thesis
  proof (cases "pc \<in> {EIsSet, ESet, EClear} \<union> range EWait \<union> range EExit")
    case True
    then have "asleep pc = 0" "reading pc = 0" "dozing pc = 0" "waking pc = 0" "sy_flag t = sy_flag s"
      "asleep pc' = 0" "reading pc' = 0" "dozing pc' = 0" "waking pc' = 0" "in_event pc'"
      using step by (auto simp: on_acquire_Some on_release_Some)
    then show ?thesis using at by (simp add: event_local_def)
  next
    case False
    then have mine: "is_mine (home i, i) (sy_lock s)" using parts(3) step by (cases pc) auto
    note facts = step at event_sole [OF inv i mine pc] mine
    note acq = counters_acquire(4) [OF parts(2)] and rel = counters_release(4) [OF parts(2)]
    show ?thesis
    proof (cases pc)
      case EIsSet1
      then show ?thesis using facts by (auto simp: defs dest!: acq split: if_splits)
    next
      case EIsSet2
      then show ?thesis using facts full by (auto simp: defs dest!: rel)
    next
      case ESet1
      then show ?thesis using facts by (auto simp: defs dest!: acq split: if_splits)
    next
      case ESet2
      then show ?thesis using facts full by (auto simp: defs dest!: rel)
    next
      case EClear1
      then show ?thesis using facts by (auto simp: defs dest!: acq split: if_splits)
    next
      case (EWait1 timed)
      then show ?thesis using facts by (auto simp: defs dest!: acq split: if_splits)
    next
      case EWait2
      then show ?thesis using facts full by (auto simp: defs dest!: rel)
    next
      case EWait3
      then show ?thesis using facts by (auto simp: defs dest!: acq split: if_splits)
    next
      case EWait4
      then show ?thesis using facts full by (auto simp: defs dest!: rel)
    qed (use step False in auto)
  qed
qed

lemma event_inv_step:
  assumes ev: "event_inv s" and inv: "sys_inv home s" and i: "i < length (sy_pcs s)" and pc: "sy_pcs s ! i = pc"
    and step: "thread_step (home i, i) c late s pc = Some (t, pc')" and c: "c \<in> event_cmds"
  shows "event_inv (moved s t i pc')"
proof -
  have "event_local s t pc pc'"
  proof (cases "\<exists>r. pc = Idle r")
    case True
    then show ?thesis using step c event_inv_at [OF ev i pc]
      by (auto simp: event_local_def event_cmds_def split: if_splits)
  next
    case False
    have "notify_step (home i, i) s pc = None" using event_inv_at(1) [OF ev i pc] by (cases pc) auto
    then show ?thesis using thread_step_nonidle [OF step] False
      wait_event [OF ev inv i pc] notify_all_event [OF ev inv i pc] event_event [OF ev inv i pc] by fastforce
  qed
  then show ?thesis
    using set_upd [OF i, of in_event pc'] ev tot_moved [OF i pc]
    by (simp add: event_inv_def event_local_def)
qed

lemma reachable_event_inv: "reachable home event_cmds k n s \<Longrightarrow> event_inv s"
proof (induction rule: reachable.induct)
  case start
  show ?case by (simp add: event_inv_def new_sys_def new_sem_def tot_def sum_list_replicate)
next
  case (step s c i late s')
  from step_cases [OF step(3)] obtain t pc' where "i < length (sy_pcs s)"
    "thread_step (home i, i) c late s (sy_pcs s ! i) = Some (t, pc')" "s' = moved s t i pc'" by metis
  then show ?case using event_inv_step [OF step(4) reachable_inv [OF step(1)] _ refl] step(2) by blast
qed

text \<open>
  Nobody sleeps through a set event: when no thread is inside a method (the lock is free) and
  the flag is set, no thread is asleep in \<open>Event.wait\<close>, whatever calls of \<open>set\<close>,
  \<open>clear\<close>, \<open>is_set\<close> and \<open>wait\<close> any number of threads have interleaved.
\<close>

theorem set_event_no_sleeper:
  assumes r: "reachable home event_cmds k n s" and "lock_free (sy_lock s)" "0 < sm_value (sy_flag s)"
    and j: "j < length (sy_pcs s)"
  shows "asleep (sy_pcs s ! j) = 0"
proof -
  note inv = reachable_inv [OF r]
  have "waking pc = 0" if "pc \<in> set (sy_pcs s)" for pc
  proof -
    from that obtain l where l: "l < length (sy_pcs s)" "sy_pcs s ! l = pc" by (auto simp: in_set_conv_nth)
    note parts = inv_parts [OF inv l]
    have "\<not> is_mine (home l, l) (sy_lock s)" using free_not_mine [OF parts(1) assms(2)] .
    then show ?thesis using parts(3) by (cases pc) auto
  qed
  then have "tot waking s = 0" by (simp add: tot_def)
  then have "tot asleep s = 0" using reachable_event_inv [OF r] assms(3) by (simp add: event_inv_def)
  then show ?thesis using nobody_asleep j by blast
qed

section \<open>Two executions\<close>

fun run_sys :: "(nat \<Rightarrow> nat) \<Rightarrow> (nat \<times> cmd \<times> bool) list \<Rightarrow> sys \<Rightarrow> sys option" where
  "run_sys home [] s = Some s"
| "run_sys home ((i, c, late) # es) s =
     (case sys_step home i c late s of None \<Rightarrow> None | Some s' \<Rightarrow> run_sys home es s')"

lemma run_reachable:
  "run_sys home es s = Some s' \<Longrightarrow> reachable home cmds k n s \<Longrightarrow> set (map (fst \<circ> snd) es) \<subseteq> cmds \<Longrightarrow> reachable home cmds k n s'"
  by (induction home es s rule: run_sys.induct) (auto split: option.splits intro: reachable.step)

text \<open>
  Threads 0 and 1 wait, thread 0 with a timeout, and both are asleep when thread 2 calls \<open>notify\<close>.
  The timeout of thread 0 passes; thread 2 takes a sleeper off and posts its wakening; thread 0
  counts itself as woken, thread 2 takes this for the answer and withdraws the wakening.
\<close>

definition lost_before :: "(nat \<times> cmd \<times> bool) list" where
  "lost_before =
     [(0, CAcquire, False), (0, CWait True, False), (0, CAcquire, False), (0, CAcquire, False),
      (1, CAcquire, False), (1, CWait False, False), (1, CAcquire, False), (1, CAcquire, False),
      (2, CAcquire, False), (2, CNotify, False)]"

definition lost_after :: "(nat \<times> cmd \<times> bool) list" where
  "lost_after =
     [(0, CAcquire, True), (2, CAcquire, False), (2, CAcquire, False), (2, CAcquire, False), (2, CAcquire, False),
      (0, CAcquire, False), (2, CAcquire, False), (2, CAcquire, False), (2, CRelease, False), (0, CAcquire, False)]"

lemma lost_runs:
  "\<exists>s t. run_sys id lost_before (new_sys RECURSIVE_MUTEX 3) = Some s \<and> run_sys id lost_after s = Some t \<and>
     sy_pcs s = [WaitSleep True User 1, WaitSleep False User 1, NStart] \<and>
     sy_pcs t = [Idle (Inr False), WaitSleep False User 1, Idle (Inr True)] \<and> sm_value (sy_wait t) = 0"
proof -
  have "case run_sys id lost_before (new_sys RECURSIVE_MUTEX 3) of None \<Rightarrow> False | Some s \<Rightarrow>
      (case run_sys id lost_after s of None \<Rightarrow> False | Some t \<Rightarrow>
         sy_pcs s = [WaitSleep True User 1, WaitSleep False User 1, NStart] \<and>
         sy_pcs t = [Idle (Inr False), WaitSleep False User 1, Idle (Inr True)] \<and> sm_value (sy_wait t) = 0)"
    by code_simp
  then show ?thesis by (auto split: option.splits)
qed

text \<open>
  A notification can be lost. From a reachable state in which two threads are asleep, one of
  them with a timeout, and a third enters \<open>notify\<close>, there is an execution in which \<open>notify\<close> returns,
  the thread with the timeout returns \<open>False\<close>, and the other goes on sleeping with nothing posted to
  wake it.
\<close>

theorem notification_lost:
  "\<exists>s t. reachable id UNIV RECURSIVE_MUTEX 3 s \<and> run_sys id lost_after s = Some t \<and>
     sy_pcs s = [WaitSleep True User 1, WaitSleep False User 1, NStart] \<and>
     sy_pcs t = [Idle (Inr False), WaitSleep False User 1, Idle (Inr True)] \<and> sm_value (sy_wait t) = 0"
  using lost_runs run_reachable [OF _ reachable.start, of id lost_before RECURSIVE_MUTEX 3 _ UNIV] by blast

text \<open>Thread 0 waits for the event without a timeout; thread 1 sets it and clears it again.\<close>

definition clear_run :: "(nat \<times> cmd \<times> bool) list" where
  "clear_run = replicate 5 (0, CEventWait False, False) @ replicate 9 (1, CSet, False) @
     replicate 2 (0, CIsSet, False) @ replicate 3 (1, CSet, False) @ replicate 4 (1, CClear, False) @
     replicate 3 (0, CIsSet, False)"

lemma clear_run_result:
  "\<exists>s. run_sys id clear_run (new_sys SEMAPHORE 2) = Some s \<and> sy_pcs s = [Idle (Inr False), Idle (Inr True)]"
proof -
  have "case run_sys id clear_run (new_sys SEMAPHORE 2) of None \<Rightarrow> False | Some s \<Rightarrow> sy_pcs s = [Idle (Inr False), Idle (Inr True)]"
    by code_simp
  then show ?thesis by (auto split: option.splits)
qed

text \<open>
  \<open>Event.wait\<close> without a timeout can return \<open>False\<close>: it looks at the flag again after it has
  been woken, and a \<open>clear\<close> can come before that.
\<close>

theorem event_wait_false:
  "\<exists>s. reachable id event_cmds SEMAPHORE 2 s \<and> run_sys id clear_run (new_sys SEMAPHORE 2) = Some s \<and>
     sy_pcs s = [Idle (Inr False), Idle (Inr True)]"
proof -
  have "set (map (fst \<circ> snd) clear_run) \<subseteq> event_cmds" by (auto simp: clear_run_def event_cmds_def)
  then show ?thesis
    using clear_run_result run_reachable [OF _ reachable.start, of id clear_run SEMAPHORE 2 _ event_cmds] by blast
qed

section \<open>The theorems on these executions\<close>

text \<open>Thread 1 waits for thread 0 to wake; it has collected the wakening; it has returned from \<open>set\<close>.\<close>

lemma witness_awaits:
  "\<exists>s s'. reachable id event_cmds SEMAPHORE 2 s \<and> sy_pcs s = [WaitSleep False EventWait 1, AWoken EventSet 1 1] \<and>
     sm_value (sy_sleeping s) = 0 \<and> sys_step id 0 CSet False s = Some s'"
proof -
  have "case run_sys id (take 14 clear_run) (new_sys SEMAPHORE 2) of None \<Rightarrow> False | Some s \<Rightarrow>
     sy_pcs s = [WaitSleep False EventWait 1, AWoken EventSet 1 1] \<and> sm_value (sy_sleeping s) = 0 \<and>
     sys_step id 0 CSet False s \<noteq> None" by code_simp
  then obtain s where s: "run_sys id (take 14 clear_run) (new_sys SEMAPHORE 2) = Some s"
    "sy_pcs s = [WaitSleep False EventWait 1, AWoken EventSet 1 1]" "sm_value (sy_sleeping s) = 0"
    "sys_step id 0 CSet False s \<noteq> None" by (auto split: option.splits)
  have "set (map (fst \<circ> snd) (take 14 clear_run)) \<subseteq> event_cmds" by (auto simp: clear_run_def event_cmds_def)
  with s show ?thesis using run_reachable [OF s(1) reachable.start] by blast
qed

lemma witness_collected:
  "\<exists>s s'. reachable id event_cmds SEMAPHORE 2 s \<and> sy_pcs s ! 1 = AZero EventSet 1 \<and>
     sys_step id 1 CSet False s = Some s' \<and> sy_pcs s' = [WaitReacq EventWait 1 0 True, EExit (Inr True)]"
proof -
  have "case run_sys id (take 17 clear_run) (new_sys SEMAPHORE 2) of None \<Rightarrow> False | Some s \<Rightarrow>
     sy_pcs s ! 1 = AZero EventSet 1 \<and> (case sys_step id 1 CSet False s of None \<Rightarrow> False
       | Some s' \<Rightarrow> sy_pcs s' = [WaitReacq EventWait 1 0 True, EExit (Inr True)])" by code_simp
  then obtain s where s: "run_sys id (take 17 clear_run) (new_sys SEMAPHORE 2) = Some s"
    "sy_pcs s ! 1 = AZero EventSet 1" "\<exists>s'. sys_step id 1 CSet False s = Some s' \<and> sy_pcs s' = [WaitReacq EventWait 1 0 True, EExit (Inr True)]"
    by (auto split: option.splits)
  have "set (map (fst \<circ> snd) (take 17 clear_run)) \<subseteq> event_cmds" by (auto simp: clear_run_def event_cmds_def)
  with s show ?thesis using run_reachable [OF s(1) reachable.start] by blast
qed

lemma witness_set:
  "\<exists>s. reachable id event_cmds SEMAPHORE 2 s \<and> sy_pcs s = [WaitReacq EventWait 1 0 True, Idle (Inr True)] \<and>
     lock_free (sy_lock s) \<and> sm_value (sy_flag s) = 1"
proof -
  have "case run_sys id (take 19 clear_run) (new_sys SEMAPHORE 2) of None \<Rightarrow> False | Some s \<Rightarrow>
     sy_pcs s = [WaitReacq EventWait 1 0 True, Idle (Inr True)] \<and> sm_value (sy_lock s) = 1 \<and> sm_value (sy_flag s) = 1"
    by code_simp
  then obtain s where s: "run_sys id (take 19 clear_run) (new_sys SEMAPHORE 2) = Some s"
    "sy_pcs s = [WaitReacq EventWait 1 0 True, Idle (Inr True)]" "sm_value (sy_lock s) = 1" "sm_value (sy_flag s) = 1"
    by (auto split: option.splits)
  have "set (map (fst \<circ> snd) (take 19 clear_run)) \<subseteq> event_cmds" by (auto simp: clear_run_def event_cmds_def)
  with s show ?thesis using run_reachable [OF s(1) reachable.start] unfolding lock_free_def by blast
qed

theorem notify_all_wakes_all_witness:
  "\<exists>s s'. reachable id event_cmds SEMAPHORE 2 s \<and> sys_step id 1 CSet False s = Some s' \<and> asleep (sy_pcs s' ! 0) = 0"
proof -
  from witness_collected obtain s s' where s: "reachable id event_cmds SEMAPHORE 2 s" "sy_pcs s ! 1 = AZero EventSet 1"
    "sys_step id 1 CSet False s = Some s'" "sy_pcs s' = [WaitReacq EventWait 1 0 True, EExit (Inr True)]" by blast
  then have "sy_pcs s' ! 1 = finish EventSet (Inr True)" "0 < length (sy_pcs s')" by simp_all
  from notify_all_wakes_all [OF s(1) disjI1 [OF s(2)] s(3) this] s show ?thesis by blast
qed

theorem notifier_not_stuck_witness:
  "\<exists>s j. reachable id event_cmds SEMAPHORE 2 s \<and> sy_pcs s ! 1 = AWoken EventSet 1 1 \<and> sys_step id j CSet False s \<noteq> None"
proof -
  from witness_awaits obtain s where s: "reachable id event_cmds SEMAPHORE 2 s"
    "sy_pcs s = [WaitSleep False EventWait 1, AWoken EventSet 1 1]" by blast
  then have "1 < length (sy_pcs s)" "sy_pcs s ! 1 = NWoken \<or> sy_pcs s ! 1 = AWoken EventSet 1 1" by simp_all
  from notifier_not_stuck [OF s(1) this, of CSet] obtain j where "sys_step id j CSet False s \<noteq> None" by blast
  with s show ?thesis by (intro exI [of _ s] exI [of _ j]) simp
qed

theorem methods_do_not_fail_witness:
  "\<exists>s s'. sys_step id 0 CSet False s = Some s' \<and> sy_pcs s ! 0 = WaitSleep False EventWait 1 \<and> \<not> failed (sy_pcs s' ! 0)"
proof -
  from witness_awaits obtain s s' where s: "reachable id event_cmds SEMAPHORE 2 s"
    "sy_pcs s = [WaitSleep False EventWait 1, AWoken EventSet 1 1]" "sm_value (sy_sleeping s) = 0"
    "sys_step id 0 CSet False s = Some s'" by blast
  then have "\<forall>r. sy_pcs s ! 0 \<noteq> Idle r" "\<not> failed (sy_pcs s ! 0)" "int (sm_value (sy_sleeping s)) < SEM_VALUE_MAX"
    by (simp_all add: SEM_VALUE_MAX_def)
  from methods_do_not_fail [OF s(1,4) this] s(2,4) show ?thesis by (intro exI [of _ s] exI [of _ s']) simp
qed

theorem set_event_no_sleeper_witness:
  "\<exists>s :: sys. sy_pcs s = [WaitReacq EventWait 1 0 True, Idle (Inr True)] \<and> asleep (sy_pcs s ! 0) = 0 \<and> sm_value (sy_flag s) = 1"
proof -
  from witness_set obtain s where s: "reachable id event_cmds SEMAPHORE 2 s"
    "sy_pcs s = [WaitReacq EventWait 1 0 True, Idle (Inr True)]" "lock_free (sy_lock s)" "sm_value (sy_flag s) = 1" by blast
  then have "0 < sm_value (sy_flag s)" "0 < length (sy_pcs s)" by simp_all
  from set_event_no_sleeper [OF s(1,3) this] s(2,4) show ?thesis by (intro exI [of _ s]) simp
qed

end
