(* ===== verification/Shared_Ctypes.thy ===== *)
theory Shared_Ctypes
  imports Semlock
begin

text \<open>
  \<open>billiard/sharedctypes.py\<close>: objects in shared memory (\<open>RawValue\<close>, \<open>RawArray\<close>, \<open>copy\<close>), the arguments of \<open>Value\<close> and \<open>Array\<close>,
  the choice of the wrapper, the properties of the wrappers, and what comes of threads and processes that use them at once.

  The memory of an object is a list of bytes; what a block of the heap holds when it is handed out is a parameter. \<open>init\<close> is the
  initialisation by \<open>ctypes\<close>: the type, the arguments and the bytes as they are give the bytes as they become.
\<close>

type_synonym mem = "8 word list"

section \<open>Objects in shared memory\<close>

datatype ctype = CSimple string | CArray ctype nat | CStruct string "(string \<times> ctype) list"

text \<open>The codes of types, \<open>typecode_to_type\<close>.\<close>

definition typecode_to_type :: "(string \<times> ctype) list" where
  "typecode_to_type =
     [(''c'', CSimple ''c_char''), (''u'', CSimple ''c_wchar''), (''b'', CSimple ''c_byte''), (''B'', CSimple ''c_ubyte''),
      (''h'', CSimple ''c_short''), (''H'', CSimple ''c_ushort''), (''i'', CSimple ''c_int''), (''I'', CSimple ''c_uint''),
      (''l'', CSimple ''c_long''), (''L'', CSimple ''c_ulong''), (''f'', CSimple ''c_float''), (''d'', CSimple ''c_double'')]"

datatype typearg = Code string | Type ctype

text \<open>\<open>typecode_to_type.get(t, t)\<close>; a string that is no code is used as a type and has no size.\<close>

definition resolve :: "typearg \<Rightarrow> exn + ctype" where
  "resolve t = (case t of Type c \<Rightarrow> Inr c
     | Code s \<Rightarrow> (case map_of typecode_to_type s of Some c \<Rightarrow> Inr c | None \<Rightarrow> Inl TypeError))"

fun size_of :: "(string \<Rightarrow> nat) \<Rightarrow> (string \<Rightarrow> nat) \<Rightarrow> ctype \<Rightarrow> nat" where
  "size_of sz ssz (CSimple s) = sz s"
| "size_of sz ssz (CArray c n) = n * size_of sz ssz c"
| "size_of sz ssz (CStruct s fs) = ssz s"

record cobj =
  co_type :: ctype
  co_mem :: mem

record 'v cenv =
  ce_size :: "ctype \<Rightarrow> nat"
  ce_garbage :: "nat \<Rightarrow> exn + mem"            \<comment> \<open>a block of the heap of this size\<close>
  ce_init :: "ctype \<Rightarrow> 'v list \<Rightarrow> mem \<Rightarrow> exn + mem"

definition new_value :: "'v cenv \<Rightarrow> ctype \<Rightarrow> exn + cobj" where
  "new_value e c = (case ce_garbage e (ce_size e c) of Inl x \<Rightarrow> Inl x | Inr m \<Rightarrow> Inr \<lparr>co_type = c, co_mem = m\<rparr>)"

definition memset0 :: "cobj \<Rightarrow> cobj" where
  "memset0 v = v\<lparr>co_mem := replicate (length (co_mem v)) 0\<rparr>"

definition initialise :: "'v cenv \<Rightarrow> 'v list \<Rightarrow> cobj \<Rightarrow> exn + cobj" where
  "initialise e args v = (case ce_init e (co_type v) args (co_mem v) of Inl x \<Rightarrow> Inl x | Inr m \<Rightarrow> Inr (v\<lparr>co_mem := m\<rparr>))"

definition RawValue :: "'v cenv \<Rightarrow> typearg \<Rightarrow> 'v list \<Rightarrow> exn + cobj" where
  "RawValue e t args =
     (case resolve t of Inl x \<Rightarrow> Inl x
      | Inr c \<Rightarrow> (case new_value e c of Inl x \<Rightarrow> Inl x | Inr v \<Rightarrow> initialise e args (memset0 v)))"

definition RawArray :: "'v cenv \<Rightarrow> typearg \<Rightarrow> int + 'v list \<Rightarrow> exn + cobj" where
  "RawArray e t arg =
     (case resolve t of Inl x \<Rightarrow> Inl x
      | Inr c \<Rightarrow> (case arg of
          Inl n \<Rightarrow> if n < 0 then Inl ValueError
            else (case new_value e (CArray c (nat n)) of Inl x \<Rightarrow> Inl x | Inr v \<Rightarrow> Inr (memset0 v))
        | Inr vs \<Rightarrow> (case new_value e (CArray c (length vs)) of Inl x \<Rightarrow> Inl x | Inr v \<Rightarrow> initialise e vs v)))"

definition copy_obj :: "'v cenv \<Rightarrow> cobj \<Rightarrow> exn + cobj" where
  "copy_obj e v = (case new_value e (co_type v) of Inl x \<Rightarrow> Inl x | Inr v' \<Rightarrow> Inr (v'\<lparr>co_mem := co_mem v\<rparr>))"

text \<open>
  What the blocks have held before does not show: a value is initialised on zeros, an array of a length is zeros, and an array
  from a sequence is what the sequence says when the initialisation sets every item.
\<close>

lemma raw_array_zero:
  assumes "resolve t = Inr c" "0 \<le> n" "ce_garbage e (ce_size e (CArray c (nat n))) = Inr m" "length m = ce_size e (CArray c (nat n))"
  shows "RawArray e t (Inl n) = Inr \<lparr>co_type = CArray c (nat n), co_mem = replicate (ce_size e (CArray c (nat n))) 0\<rparr>"
  using assms by (simp add: RawArray_def new_value_def memset0_def)

lemma raw_objects_hide_garbage:
  assumes g: "\<And>n. ce_garbage e1 n = Inr (m1 n)" "\<And>n. ce_garbage e2 n = Inr (m2 n)"
    and l: "\<And>n. length (m1 n) = n" "\<And>n. length (m2 n) = n" and e: "ce_size e1 = ce_size e2" "ce_init e1 = ce_init e2"
    and all: "\<And>c vs x y. length x = length y \<Longrightarrow> ce_init e1 (CArray c (length vs)) vs x = ce_init e1 (CArray c (length vs)) vs y"
  shows "RawValue e1 t args = RawValue e2 t args" "RawArray e1 t arg = RawArray e2 t arg"
proof -
  show "RawValue e1 t args = RawValue e2 t args"
    using l e by (simp add: RawValue_def new_value_def g memset0_def initialise_def split: sum.split)
  have "ce_init e2 (CArray c (length vs)) vs (m1 n) = ce_init e2 (CArray c (length vs)) vs (m2 n)" for c vs n
    using all [of "m1 n" "m2 n" c vs] l e(2) by simp
  then show "RawArray e1 t arg = RawArray e2 t arg"
    using l e by (simp add: RawArray_def new_value_def g memset0_def initialise_def split: sum.split)
qed

lemma copy_same: "copy_obj e v = Inr v' \<Longrightarrow> co_type v' = co_type v \<and> co_mem v' = co_mem v"
  by (auto simp: copy_obj_def new_value_def split: sum.splits)

section \<open>Value, Array and their wrappers\<close>

text \<open>The argument \<open>lock\<close>: one of the constants, an object that can be acquired, or one that cannot.\<close>

datatype 'l lockarg = LockNone | LockTrue | LockFalse | ALock 'l | NotALock

datatype wrapper = Synchronized | SynchronizedArray | SynchronizedString | SynchronizedStruct "string list"

datatype 'l shared_obj = Raw cobj | Wrapped wrapper cobj 'l

fun wrapper_of :: "ctype \<Rightarrow> wrapper" where
  "wrapper_of (CSimple s) = Synchronized"
| "wrapper_of (CArray c n) = (if c = CSimple ''c_char'' then SynchronizedString else SynchronizedArray)"
| "wrapper_of (CStruct s fs) = SynchronizedStruct (map fst fs)"

text \<open>\<open>mk\<close> is \<open>RLock\<close> of a context, \<open>default_ctx\<close> the one of \<open>get_context()\<close>.\<close>

definition sync_base :: "('c \<Rightarrow> 'l) \<Rightarrow> 'l option \<Rightarrow> 'c option \<Rightarrow> exn + 'l" where
  "sync_base mk lock ctx =
     (case lock of Some l \<Rightarrow> Inr l
      | None \<Rightarrow> (case ctx of Some c \<Rightarrow> Inr (mk c) | None \<Rightarrow> Inl TypeError))"

definition synchronized :: "('c \<Rightarrow> 'l) \<Rightarrow> 'c \<Rightarrow> 'l shared_obj \<Rightarrow> 'l option \<Rightarrow> 'c option \<Rightarrow> exn + 'l shared_obj" where
  "synchronized mk default_ctx v lock ctx =
     (case v of
        Wrapped _ _ _ \<Rightarrow> Inl AssertionError
      | Raw ob \<Rightarrow> (let ctx = (case ctx of None \<Rightarrow> default_ctx | Some c \<Rightarrow> c) in
          case sync_base mk lock (Some ctx) of Inl x \<Rightarrow> Inl x | Inr l \<Rightarrow> Inr (Wrapped (wrapper_of (co_type ob)) ob l)))"

definition with_lock :: "('c \<Rightarrow> 'l) \<Rightarrow> 'c \<Rightarrow> exn + cobj \<Rightarrow> 'l lockarg \<Rightarrow> 'c option \<Rightarrow> string list \<Rightarrow> exn + 'l shared_obj" where
  "with_lock mk default_ctx raw lock ctx kwds =
     (if kwds \<noteq> [] then Inl ValueError
      else case raw of Inl x \<Rightarrow> Inl x
        | Inr ob \<Rightarrow> (case lock of
              LockFalse \<Rightarrow> Inr (Raw ob)
            | NotALock \<Rightarrow> Inl AttributeError
            | ALock l \<Rightarrow> synchronized mk default_ctx (Raw ob) (Some l) ctx
            | _ \<Rightarrow> (let c = (case ctx of None \<Rightarrow> default_ctx | Some c \<Rightarrow> c) in
                synchronized mk default_ctx (Raw ob) (Some (mk c)) (Some c))))"

definition Value :: "('c \<Rightarrow> 'l) \<Rightarrow> 'c \<Rightarrow> 'v cenv \<Rightarrow> typearg \<Rightarrow> 'v list \<Rightarrow> 'l lockarg \<Rightarrow> 'c option \<Rightarrow> string list \<Rightarrow> exn + 'l shared_obj" where
  "Value mk dc e t args lock ctx kwds = with_lock mk dc (RawValue e t args) lock ctx kwds"

definition Array :: "('c \<Rightarrow> 'l) \<Rightarrow> 'c \<Rightarrow> 'v cenv \<Rightarrow> typearg \<Rightarrow> int + 'v list \<Rightarrow> 'l lockarg \<Rightarrow> 'c option \<Rightarrow> string list \<Rightarrow> exn + 'l shared_obj" where
  "Array mk dc e t arg lock ctx kwds = with_lock mk dc (RawArray e t arg) lock ctx kwds"

text \<open>The default context is only asked for when no context is given, and the call \<open>get_context(force=True)\<close>, which raises, is never made here.\<close>

lemma array_of_chars_is_string:
  assumes "RawArray e (Code ''c'') arg = Inr ob" "lock \<noteq> LockFalse" "lock \<noteq> NotALock"
  shows "\<exists>l. Array mk dc e (Code ''c'') arg lock ctx [] = Inr (Wrapped SynchronizedString ob l) \<and>
    l = (case lock of ALock l \<Rightarrow> l | _ \<Rightarrow> mk (case ctx of None \<Rightarrow> dc | Some c \<Rightarrow> c))"
proof -
  have "\<exists>n. co_type ob = CArray (CSimple ''c_char'') n" using assms(1)
    by (auto simp: RawArray_def resolve_def typecode_to_type_def new_value_def memset0_def initialise_def split: sum.splits if_splits)
  then show ?thesis using assms
    by (cases lock) (auto simp: Array_def with_lock_def synchronized_def sync_base_def Let_def)
qed

lemma wrap_once: "synchronized mk dc (Wrapped w ob l) lock ctx = Inl AssertionError"
  by (simp add: synchronized_def)

text \<open>\<open>__reduce__\<close> and what unpickling it gives: the same wrapper on the same memory and lock, only while a process is spawned.\<close>

definition reduce_sync :: "bool \<Rightarrow> 'l shared_obj \<Rightarrow> exn + (cobj \<times> 'l)" where
  "reduce_sync spawning v = (if \<not> spawning then Inl RuntimeError
     else case v of Wrapped w ob l \<Rightarrow> Inr (ob, l) | Raw ob \<Rightarrow> Inl TypeError)"

lemma sync_travels:
  assumes "synchronized mk dc (Raw ob) lock ctx = Inr v"
  shows "\<exists>p. reduce_sync True v = Inr p \<and> synchronized mk' dc' (Raw (fst p)) (Some (snd p)) None = Inr v"
  using assms by (auto simp: synchronized_def sync_base_def reduce_sync_def Let_def split: option.splits)

text \<open>Pickling of the objects themselves: the type of an array is sent as that of its items and the length.\<close>

definition reduce_ctype :: "bool \<Rightarrow> cobj \<Rightarrow> exn + (ctype \<times> mem \<times> nat option)" where
  "reduce_ctype spawning v =
     (if \<not> spawning then Inl RuntimeError
      else case co_type v of CArray c n \<Rightarrow> Inr (c, co_mem v, Some n) | c \<Rightarrow> Inr (c, co_mem v, None))"

fun rebuild_ctype :: "ctype \<times> mem \<times> nat option \<Rightarrow> cobj" where
  "rebuild_ctype (c, m, n) = \<lparr>co_type = (case n of None \<Rightarrow> c | Some k \<Rightarrow> CArray c k), co_mem = m\<rparr>"

lemma ctype_rebuilt: "\<exists>p. reduce_ctype True v = Inr p \<and> rebuild_ctype p = v"
  by (cases v) (simp add: reduce_ctype_def split: ctype.split)

section \<open>Accesses at the same time\<close>

text \<open>
  A property of a wrapper, as the template of \<open>make_property\<close> makes it: the lock is acquired, the field is read or written, the lock
  is released. Every thread of every process has its place in a program of such accesses, how often it is still to run the program, and the
  value it has read.
\<close>

datatype access = Acq | Rel | Read | Write

definition get_value :: "access list" where "get_value = [Acq, Read, Rel]"
definition set_value :: "access list" where "set_value = [Acq, Write, Rel]"

text \<open>\<open>v.value += 1\<close>, alone and under \<open>with v.get_lock()\<close>; a write writes one more than has been read.\<close>

definition increment :: "access list" where "increment = get_value @ set_value"
definition locked_increment :: "access list" where "locked_increment = [Acq] @ increment @ [Rel]"

record 'l shared =
  sh_lock :: 'l
  sh_value :: int
  sh_pc :: "nat \<Rightarrow> nat"
  sh_left :: "nat \<Rightarrow> nat"
  sh_read :: "nat \<Rightarrow> int"

definition advance :: "access list \<Rightarrow> nat \<Rightarrow> 'l shared \<Rightarrow> 'l shared" where
  "advance prog i s =
     (if sh_pc s i + 1 = length prog then s\<lparr>sh_pc := (sh_pc s)(i := 0), sh_left := (sh_left s)(i := sh_left s i - 1)\<rparr>
      else s\<lparr>sh_pc := (sh_pc s)(i := sh_pc s i + 1)\<rparr>)"

definition access_step :: "access list \<Rightarrow> (agent \<Rightarrow> 'l \<Rightarrow> (bool \<times> 'l) option) \<Rightarrow> (agent \<Rightarrow> ('l, unit) act) \<Rightarrow> (nat \<Rightarrow> agent)
    \<Rightarrow> nat \<Rightarrow> 'l shared \<Rightarrow> 'l shared option" where
  "access_step prog acquire release who i s =
     (if sh_left s i = 0 then None
      else case prog ! sh_pc s i of
          Acq \<Rightarrow> (case acquire (who i) (sh_lock s) of None \<Rightarrow> None | Some (_, l) \<Rightarrow> Some ((advance prog i s)\<lparr>sh_lock := l\<rparr>))
        | Rel \<Rightarrow> (case release (who i) (sh_lock s) of (Inl _, _) \<Rightarrow> None | (Inr _, l) \<Rightarrow> Some ((advance prog i s)\<lparr>sh_lock := l\<rparr>))
        | Read \<Rightarrow> Some ((advance prog i s)\<lparr>sh_read := (sh_read s)(i := sh_value s)\<rparr>)
        | Write \<Rightarrow> Some ((advance prog i s)\<lparr>sh_value := sh_read s i + 1\<rparr>))"

fun access_run :: "access list \<Rightarrow> (agent \<Rightarrow> 'l \<Rightarrow> (bool \<times> 'l) option) \<Rightarrow> (agent \<Rightarrow> ('l, unit) act) \<Rightarrow> (nat \<Rightarrow> agent)
    \<Rightarrow> nat list \<Rightarrow> 'l shared \<Rightarrow> 'l shared option" where
  "access_run prog acquire release who [] s = Some s"
| "access_run prog acquire release who (i # is) s =
     (case access_step prog acquire release who i s of None \<Rightarrow> None | Some s' \<Rightarrow> access_run prog acquire release who is s')"

text \<open>How often a thread holds the lock at each place of a locked increment, and what it has done of its work.\<close>

definition depth :: "nat \<Rightarrow> int" where
  "depth k = [0, 1, 2, 2, 1, 2, 2, 1] ! k"

definition done_of :: "'l shared \<Rightarrow> (nat \<Rightarrow> nat) \<Rightarrow> nat \<Rightarrow> int" where
  "done_of s todo i = int (todo i) - int (sh_left s i) + (if sh_pc s i \<ge> 6 then 1 else 0)"

lemma sum_change:
  assumes "i < (n :: nat)" "\<And>j. j \<noteq> i \<Longrightarrow> g j = f j"
  shows "sum g {..<n} = sum f {..<n} + (g i - f i :: int)"
proof -
  have "sum g ({..<n} - {i}) = sum f ({..<n} - {i})" using assms(2) by (intro sum.cong) auto
  then show ?thesis using assms(1) by (simp add: sum.remove [of "{..<n}" i g] sum.remove [of "{..<n}" i f])
qed

lemma less_8: "k < (8 :: nat) \<longleftrightarrow> k = 0 \<or> k = 1 \<or> k = 2 \<or> k = 3 \<or> k = 4 \<or> k = 5 \<or> k = 6 \<or> k = 7"
  by auto

lemma locked_steps:
  "length locked_increment = 8" "locked_increment = [Acq, Acq, Read, Rel, Acq, Write, Rel, Rel]"
  by (simp_all add: locked_increment_def increment_def get_value_def set_value_def)

context lock_api
begin

text \<open>
  The invariant of threads that do locked increments over any lock: who is inside holds the lock as often as its place says, nobody is
  inside when the lock is free, what has been read inside is the value, and the value is what has been done.
\<close>

definition counting :: "nat \<Rightarrow> (nat \<Rightarrow> agent) \<Rightarrow> (nat \<Rightarrow> nat) \<Rightarrow> int \<Rightarrow> 'l shared \<Rightarrow> bool" where
  "counting n who todo v0 s \<longleftrightarrow> ok (sh_lock s) \<and>
     (\<forall>i < n. sh_pc s i < 8 \<and> (0 < sh_pc s i \<longrightarrow> 0 < sh_left s i \<and> holds (sh_lock s) (who i) (depth (sh_pc s i))) \<and>
        (sh_pc s i \<in> {3, 4, 5} \<longrightarrow> sh_read s i = sh_value s)) \<and>
     (free (sh_lock s) \<or> (\<exists>i < n. 0 < sh_pc s i)) \<and>
     sh_value s = v0 + sum (done_of s todo) {..<n}"

lemma counting_alone:
  assumes c: "counting n who todo v0 s" and inj: "inj_on who {..<n}" and i: "i < n" and j: "j < n" "j \<noteq> i"
    and inside: "0 < sh_pc s i \<or> free (sh_lock s)"
  shows "sh_pc s j = 0"
proof (rule ccontr)
  assume "sh_pc s j \<noteq> 0"
  then have h: "holds (sh_lock s) (who j) (depth (sh_pc s j))" and o: "ok (sh_lock s)" using c j(1) by (auto simp: counting_def)
  then have "\<not> free (sh_lock s)" by (rule not_free [rotated])
  then have "holds (sh_lock s) (who i) (depth (sh_pc s i))" using inside c i by (auto simp: counting_def)
  from holder_unique [OF o h this] have "who j = who i" by simp
  then show False using inj i j by (auto dest: inj_onD)
qed

lemma counting_move:
  assumes c: "counting n who todo v0 s" and i: "i < n" and alone: "\<And>j. j < n \<Longrightarrow> j \<noteq> i \<Longrightarrow> sh_pc s j = 0"
    and l: "ok l" and k: "k < 8" "0 < k \<Longrightarrow> 0 < lf \<and> holds l (who i) (depth k)" "k = 0 \<Longrightarrow> free l" "k \<in> {3, 4, 5} \<Longrightarrow> r = v"
    and v: "v - sh_value s = int (sh_left s i) - int lf + (if 6 \<le> k then 1 else 0) - (if 6 \<le> sh_pc s i then 1 else 0)"
  shows "counting n who todo v0 \<lparr>sh_lock = l, sh_value = v, sh_pc = (sh_pc s)(i := k), sh_left = (sh_left s)(i := lf), sh_read = (sh_read s)(i := r)\<rparr>"
proof -
  let ?s = "\<lparr>sh_lock = l, sh_value = v, sh_pc = (sh_pc s)(i := k), sh_left = (sh_left s)(i := lf), sh_read = (sh_read s)(i := r)\<rparr>"
  have "sum (done_of ?s todo) {..<n} = sum (done_of s todo) {..<n} + (done_of ?s todo i - done_of s todo i)"
    by (rule sum_change [OF i]) (simp add: done_of_def)
  moreover have "done_of ?s todo i - done_of s todo i = v - sh_value s" using v by (simp add: done_of_def)
  moreover have "sh_value s = v0 + sum (done_of s todo) {..<n}" using c by (simp add: counting_def)
  ultimately have sum: "v = v0 + sum (done_of ?s todo) {..<n}" by simp
  have others: "((sh_pc s)(i := k)) j = 0" if "j < n" "j \<noteq> i" for j using alone [OF that] that(2) by simp
  have each: "(sh_pc ?s) j < 8 \<and> (0 < sh_pc ?s j \<longrightarrow> 0 < sh_left ?s j \<and> holds l (who j) (depth (sh_pc ?s j))) \<and>
      (sh_pc ?s j \<in> {3, 4, 5} \<longrightarrow> sh_read ?s j = v)" if "j < n" for j
    using k that others [OF that] by (cases "j = i") auto
  have "free l \<or> (\<exists>j < n. 0 < sh_pc ?s j)" using k(3) i by (cases "k = 0") auto
  with each l sum show ?thesis by (simp add: counting_def)
qed

lemma counting_step:
  assumes c: "counting n who todo v0 s" and inj: "inj_on who {..<n}" and i: "i < n"
    and step: "access_step locked_increment acquire release who i s = Some s'"
  shows "counting n who todo v0 s'"
proof -
  let ?k = "sh_pc s i" and ?l = "sh_lock s"
  have o: "ok ?l" using c by (simp add: counting_def)
  have ci: "?k < 8 \<and> (0 < ?k \<longrightarrow> 0 < sh_left s i \<and> holds ?l (who i) (depth ?k)) \<and> (?k \<in> {3, 4, 5} \<longrightarrow> sh_read s i = sh_value s)"
    using c i unfolding counting_def by blast
  then have k8: "?k < 8" and h: "0 < ?k \<Longrightarrow> holds ?l (who i) (depth ?k)" and r: "?k \<in> {3, 4, 5} \<Longrightarrow> sh_read s i = sh_value s" by blast+
  have left: "0 < sh_left s i" using step by (cases "sh_left s i = 0") (simp_all add: access_step_def)
  have entry: "?k = 0 \<Longrightarrow> acquire (who i) ?l = Some x \<Longrightarrow> free ?l" for x
  proof (rule ccontr)
    assume 0: "?k = 0" "acquire (who i) ?l = Some x" and nf: "\<not> free ?l"
    obtain j where j: "j < n" "0 < sh_pc s j" using c nf unfolding counting_def by blast
    then have "holds ?l (who j) (depth (sh_pc s j))" using c unfolding counting_def by blast
    from mutual_exclusion [OF o _ this, of "who i" "fst x" "snd x"] 0(2) have "who j = who i" by simp
    then have "j = i" using inj_onD [OF inj, of j i] i j(1) by simp
    then show False using j(2) 0(1) by simp
  qed
  have alone: "sh_pc s j = 0" if "0 < ?k \<or> free ?l" "j < n" "j \<noteq> i" for j
    using counting_alone [OF c inj i that(2,3,1)] .
  have acq: "ok l' \<and> holds l' (who i) (depth (?k + 1)) \<and> (0 < ?k \<or> free ?l)"
    if a: "acquire (who i) ?l = Some (b, l')" and k: "?k = 0 \<or> ?k = 1 \<or> ?k = 4" for b l'
  proof -
    obtain d where d: "ok l'" "holds l' (who i) (d + 1)" "if d = 0 then free ?l else holds ?l (who i) d"
      using acquire_cases [OF o a] by blast
    show ?thesis
    proof (cases "?k = 0")
      case True
      then have "free ?l" using entry a by blast
      then have "d = 0" using d(3) not_free [OF o, of "who i" d] by (auto split: if_splits)
      then show ?thesis using d True \<open>free ?l\<close> by (simp add: depth_def)
    next
      case False
      then have h1: "holds ?l (who i) 1" using h k by (auto simp: depth_def)
      then have "d = 1" using d(3) not_free [OF o h1] holder_unique [OF o h1, of "who i" d] by (auto split: if_splits)
      then show ?thesis using d False k by (auto simp: depth_def)
    qed
  qed
  have rel: "ok l' \<and> (if ?k = 7 then free l' else holds l' (who i) 1)"
    if "release (who i) ?l = (Inr u, l')" "?k = 3 \<or> ?k = 6 \<or> ?k = 7" for u l'
    using release_held [OF o h] that by (auto simp: depth_def)
  note move = counting_move [OF c i]
  have eq: "s = \<lparr>sh_lock = ?l, sh_value = sh_value s, sh_pc = (sh_pc s)(i := ?k), sh_left = (sh_left s)(i := sh_left s i),
      sh_read = (sh_read s)(i := sh_read s i)\<rparr>" by simp
  consider "?k = 0 \<or> ?k = 1 \<or> ?k = 4" | "?k = 2" | "?k = 3 \<or> ?k = 6" | "?k = 5" | "?k = 7"
    using k8 by (auto simp: less_8)
  then show ?thesis
  proof cases
    case 1
    then obtain b l' where a: "acquire (who i) ?l = Some (b, l')" and s': "s' = \<lparr>sh_lock = l', sh_value = sh_value s,
        sh_pc = (sh_pc s)(i := ?k + 1), sh_left = (sh_left s)(i := sh_left s i), sh_read = (sh_read s)(i := sh_read s i)\<rparr>"
      using step left by (auto simp: access_step_def advance_def locked_steps split: option.splits)
    note a' = acq [OF a 1]
    show ?thesis unfolding s' by (rule move) (use a' alone 1 left r in auto)
  next
    case 2
    then have s': "s' = \<lparr>sh_lock = ?l, sh_value = sh_value s, sh_pc = (sh_pc s)(i := 3), sh_left = (sh_left s)(i := sh_left s i),
        sh_read = (sh_read s)(i := sh_value s)\<rparr>"
      using step left by (auto simp: access_step_def advance_def locked_steps)
    show ?thesis unfolding s' by (rule move) (use 2 alone left o h in \<open>auto simp: depth_def\<close>)
  next
    case 3
    then obtain u l' where a: "release (who i) ?l = (Inr u, l')" and s': "s' = \<lparr>sh_lock = l', sh_value = sh_value s,
        sh_pc = (sh_pc s)(i := ?k + 1), sh_left = (sh_left s)(i := sh_left s i), sh_read = (sh_read s)(i := sh_read s i)\<rparr>"
      using step left by (auto simp: access_step_def advance_def locked_steps split: prod.splits sum.splits)
    have a': "ok l'" "holds l' (who i) 1" using rel [OF a] 3 by auto
    show ?thesis unfolding s' by (rule move) (use a' alone 3 left r in \<open>auto simp: depth_def\<close>)
  next
    case 4
    then have s': "s' = \<lparr>sh_lock = ?l, sh_value = sh_read s i + 1, sh_pc = (sh_pc s)(i := 6), sh_left = (sh_left s)(i := sh_left s i),
        sh_read = (sh_read s)(i := sh_read s i)\<rparr>"
      using step left by (auto simp: access_step_def advance_def locked_steps)
    show ?thesis unfolding s' by (rule move) (use 4 alone left o h r in \<open>auto simp: depth_def\<close>)
  next
    case 5
    then obtain u l' where a: "release (who i) ?l = (Inr u, l')" and s': "s' = \<lparr>sh_lock = l', sh_value = sh_value s,
        sh_pc = (sh_pc s)(i := 0), sh_left = (sh_left s)(i := sh_left s i - 1), sh_read = (sh_read s)(i := sh_read s i)\<rparr>"
      using step left by (auto simp: access_step_def advance_def locked_steps split: prod.splits sum.splits)
    have a': "ok l'" "free l'" using rel [OF a] 5 by auto
    show ?thesis unfolding s' by (rule move) (use a' alone 5 left in \<open>auto simp: of_nat_diff\<close>)
  qed
qed

lemma counting_run:
  "counting n who todo v0 s \<Longrightarrow> inj_on who {..<n} \<Longrightarrow> \<forall>i \<in> set is. i < n \<Longrightarrow>
   access_run locked_increment acquire release who is s = Some s' \<Longrightarrow> counting n who todo v0 s'"
  by (induction "is" arbitrary: s) (auto split: option.splits dest: counting_step)

lemma counting_start:
  assumes "ok l" "free l"
  shows "counting n who todo v0 \<lparr>sh_lock = l, sh_value = v0, sh_pc = (\<lambda>_. 0), sh_left = todo, sh_read = r\<rparr>"
  using assms by (simp add: counting_def done_of_def)

lemma counting_end: "counting n who todo v0 s \<Longrightarrow> \<forall>i < n. sh_left s i = 0 \<Longrightarrow> sh_value s = v0 + (\<Sum>i < n. int (todo i)) \<and> free (sh_lock s)"
proof -
  assume c: "counting n who todo v0 s" and z: "\<forall>i < n. sh_left s i = 0"
  then have "\<forall>i < n. sh_pc s i = 0" by (auto simp: counting_def)
  with c z show ?thesis by (auto simp: counting_def done_of_def intro!: sum.cong)
qed

end


text \<open>A recursive lock lets its holder in again, so that some thread can always move.\<close>

lemma kind_kept:
  "sem_acquire m a s = Some (b, s') \<Longrightarrow> sm_kind s' = sm_kind s"
  "sem_release a s = (r, s') \<Longrightarrow> sm_kind s' = sm_kind s"
  by (auto simp: sem_acquire_def sem_release_def split: if_splits acq.splits)

lemma access_kind:
  "access_step prog (sem_acquire Block) sem_release who i s = Some s' \<Longrightarrow> sm_kind (sh_lock s') = sm_kind (sh_lock s)"
  by (auto simp: access_step_def advance_def kind_kept split: if_splits access.splits option.splits prod.splits sum.splits)

lemma access_run_kind:
  "access_run prog (sem_acquire Block) sem_release who is s = Some s' \<Longrightarrow> sm_kind (sh_lock s') = sm_kind (sh_lock s)"
  by (induction "is" arbitrary: s) (auto split: option.splits dest: access_kind)

lemma counting_progress:
  assumes c: "lk.counting n who todo v0 s" and k: "sm_kind (sh_lock s) = RECURSIVE_MUTEX" and i: "i < n" "0 < sh_left s i"
  shows "\<exists>i < n. access_step locked_increment (sem_acquire Block) sem_release who i s \<noteq> None"
proof (cases "lock_free (sh_lock s)")
  case True
  have o: "lock_ok (sh_lock s)" using c by (simp add: lk.counting_def)
  have "sh_pc s i = 0"
  proof (rule ccontr)
    assume "sh_pc s i \<noteq> 0"
    then have "holds (sh_lock s) (who i) (depth (sh_pc s i))" using c i(1) unfolding lk.counting_def by blast
    then show False using lk.not_free [OF o] True by blast
  qed
  moreover obtain l where "sem_acquire Block (who i) (sh_lock s) = Some (True, l)" using lk.acquire_free [OF o True] by blast
  ultimately show ?thesis using i by (intro exI [of _ i]) (simp add: access_step_def locked_steps)
next
  case False
  then obtain j where j: "j < n" "0 < sh_pc s j" using c unfolding lk.counting_def by blast
  have o: "lock_ok (sh_lock s)" using c by (simp add: lk.counting_def)
  have h: "sh_pc s j < 8" "0 < sh_left s j" "holds (sh_lock s) (who j) (depth (sh_pc s j))"
    using c j unfolding lk.counting_def by blast+
  have "is_mine (who j) (sh_lock s)" using h(3) by (simp add: holds_def)
  then have a: "sem_acquire Block (who j) (sh_lock s) \<noteq> None" using k by (simp add: sem_acquire_def)
  obtain l where r: "sem_release (who j) (sh_lock s) = (Inr (), l)" using lk.release_held [OF o h(3)] by blast
  have "access_step locked_increment (sem_acquire Block) sem_release who j s \<noteq> None"
    using a h(2) by (auto simp: access_step_def r split: access.split)
  then show ?thesis using j(1) by blast
qed

text \<open>
  C26. Counting with a synchronized value: any number of threads in any processes, each adding one under the value's lock as often as it
  is told to, in any interleaving of the single accesses: while one of them has something to do, one of them can go on; and when all are done,
  the value has grown by exactly the number of additions and the lock is free.
\<close>

theorem locked_increments_count:
  assumes who: "inj_on who {..<n}" "\<forall>i \<in> set is. i < n"
    and run: "access_run locked_increment (sem_acquire Block) sem_release who is
      \<lparr>sh_lock = new_sem RECURSIVE_MUTEX 1 1, sh_value = v0, sh_pc = (\<lambda>_. 0), sh_left = todo, sh_read = r\<rparr> = Some s"
  shows "if \<forall>i < n. sh_left s i = 0 then sh_value s = v0 + (\<Sum>i < n. int (todo i)) \<and> lock_free (sh_lock s)
    else \<exists>i < n. access_step locked_increment (sem_acquire Block) sem_release who i s \<noteq> None"
proof -
  from lk.counting_run [OF lk.counting_start [OF lock_ok_new] who run] have c: "lk.counting n who todo v0 s" .
  have k: "sm_kind (sh_lock s) = RECURSIVE_MUTEX" using access_run_kind [OF run] by (simp add: new_sem_def)
  show ?thesis
  proof (cases "\<forall>i < n. sh_left s i = 0")
    case True
    then show ?thesis using lk.counting_end [OF c True] by simp
  next
    case False
    then obtain i where "i < n" "0 < sh_left s i" by auto
    from counting_progress [OF c k this] show ?thesis by (simp only: if_not_P [OF False])
  qed
qed

theorem locked_increments_count_witness:
  "\<exists>s. access_run locked_increment (sem_acquire Block) sem_release (\<lambda>i. (i, 7)) (replicate 8 1 @ replicate 8 0 @ replicate 8 1)
      \<lparr>sh_lock = new_sem RECURSIVE_MUTEX 1 1, sh_value = 5, sh_pc = (\<lambda>_. 0), sh_left = (\<lambda>i. i + 1), sh_read = (\<lambda>_. 0)\<rparr> = Some s \<and> sh_value s = 8"
proof -
  let ?init = "\<lparr>sh_lock = new_sem RECURSIVE_MUTEX 1 1, sh_value = 5, sh_pc = (\<lambda>_. 0), sh_left = (\<lambda>i. i + 1), sh_read = (\<lambda>_. 0)\<rparr>"
  let ?is = "replicate 8 1 @ replicate 8 0 @ replicate 8 1 :: nat list"
  let ?run = "access_run locked_increment (sem_acquire Block) sem_release (\<lambda>i. (i, 7)) ?is"
  have "case ?run ?init of None \<Rightarrow> False | Some s \<Rightarrow> sh_left s 0 = 0 \<and> sh_left s 1 = 0" by code_simp
  then obtain s where s: "?run ?init = Some s" "sh_left s 0 = 0" "sh_left s 1 = 0" by (cases "?run ?init") (simp_all only: option.case)
  have who: "inj_on (\<lambda>i. (i, 7)) {..< 2 :: nat}" "\<forall>i \<in> set ?is. i < (2 :: nat)" by (auto simp: inj_on_def)
  have "\<forall>i < 2. sh_left s i = 0" using s(2,3) by (auto simp: less_2_cases_iff)
  with locked_increments_count [OF who s(1)] have "sh_value s = 5 + (\<Sum>i < 2. int (i + 1))" by simp
  moreover have "(\<Sum>i < 2. int (i + 1)) = 3" by (simp add: numeral_2_eq_2)
  ultimately show ?thesis using s(1) by auto
qed

text \<open>Without holding the lock from the read to the write an addition can be lost, although every access is under the lock.\<close>

lemma unlocked_increments_lose:
  "case access_run increment (sem_acquire Block) sem_release (\<lambda>i. (i, 7)) [0, 0, 0, 1, 1, 1, 0, 0, 0, 1, 1, 1]
      \<lparr>sh_lock = new_sem RECURSIVE_MUTEX 1 1, sh_value = 0, sh_pc = (\<lambda>_. 0), sh_left = (\<lambda>_. 1), sh_read = (\<lambda>_. 0)\<rparr> of
     None \<Rightarrow> False | Some s \<Rightarrow> sh_value s = 1 \<and> sh_left s 0 = 0 \<and> sh_left s 1 = 0"
  by code_simp

end
