(* ===== verification/Connection.thy ===== *)
theory Connection
  imports Prelude
begin

text \<open>
  \<open>Connection\<close> of \<open>billiard/connection.py\<close>: messages framed by a length header over a stream that
  reads and writes in pieces and can be interrupted, the checks of the public methods, the choice of
  an address family, the challenge and response that authenticate both ends, and \<open>wait\<close>.

  The operating system is a script for each direction: what every call of \<open>os.write\<close> and
  \<open>os.read\<close> does. A script that has run out means that the next call waits (\<open>Blocks\<close>). The framing lemmas
  are proved once, in the locale \<open>stream\<close>, over what \<open>_send\<close> and \<open>_recv\<close> promise.
\<close>

type_synonym bytes = "8 word list"

section \<open>Reading and writing in pieces\<close>

definition EINTR :: int where "EINTR = 4"

text \<open>A write takes at least one byte of a nonempty buffer; a read gives at least one unless the stream has ended.\<close>

datatype wres = Accept nat | WErr int

datatype rres = Avail nat | RErr int

record chan =
  ch_out :: bytes           \<comment> \<open>what the kernel has taken\<close>
  ch_in :: bytes            \<comment> \<open>what there is to read\<close>
  ch_eof :: bool            \<comment> \<open>the other end is closed\<close>
  ch_writes :: "wres list"
  ch_reads :: "rres list"

definition os_write :: "bytes \<Rightarrow> ('a chan_scheme, nat) act" where
  "os_write buf s =
     (case ch_writes s of
        [] \<Rightarrow> (Inl Blocks, s)
      | WErr e # ws \<Rightarrow> (Inl (OSError e), s\<lparr>ch_writes := ws\<rparr>)
      | Accept k # ws \<Rightarrow> let n = min (Suc k) (length buf) in
          (Inr n, s\<lparr>ch_writes := ws, ch_out := ch_out s @ take n buf\<rparr>))"

definition os_read :: "nat \<Rightarrow> ('a chan_scheme, bytes) act" where
  "os_read sz s =
     (case ch_reads s of
        [] \<Rightarrow> (Inl Blocks, s)
      | RErr e # rs \<Rightarrow> (Inl (OSError e), s\<lparr>ch_reads := rs\<rparr>)
      | Avail k # rs \<Rightarrow>
          if ch_in s = [] \<and> \<not> ch_eof s then (Inl Blocks, s)
          else let n = min (Suc k) sz in
            (Inr (take n (ch_in s)), s\<lparr>ch_reads := rs, ch_in := drop n (ch_in s)\<rparr>))"

text \<open>\<open>_send\<close>: an interrupted call is repeated.\<close>

function send_all :: "bytes \<Rightarrow> ('a chan_scheme, unit) act" where
  "send_all buf s =
     (case os_write buf s of
        (Inr n, s') \<Rightarrow> if n = length buf then (Inr (), s') else send_all (drop n buf) s'
      | (Inl e, s') \<Rightarrow> if e = OSError EINTR then send_all buf s' else (Inl e, s'))"
  by pat_completeness auto
termination
  by (relation "measure (\<lambda>(buf, s). length (ch_writes s))")
    (auto simp: os_write_def Let_def split: list.splits wres.splits)

declare send_all.simps [simp del]

text \<open>\<open>_recv\<close>: reads until there are \<open>sz\<close> bytes; \<open>got\<close> are those read so far.\<close>

function recv_loop :: "nat \<Rightarrow> bytes \<Rightarrow> ('a chan_scheme, bytes) act" where
  "recv_loop sz got s =
     (if sz \<le> length got then (Inr got, s)
      else case os_read (sz - length got) s of
        (Inr chunk, s') \<Rightarrow>
          if chunk = [] then (Inl (if got = [] then EOFError else OSError 0), s')
          else recv_loop sz (got @ chunk) s'
      | (Inl e, s') \<Rightarrow> if e = OSError EINTR then recv_loop sz got s' else (Inl e, s'))"
  by pat_completeness auto
termination
  by (relation "measure (\<lambda>(sz, got, s). length (ch_reads s))")
    (auto simp: os_read_def Let_def split: list.splits rres.splits if_splits)

declare recv_loop.simps [simp del]

definition recv_all :: "nat \<Rightarrow> ('a chan_scheme, bytes) act" where
  "recv_all sz = recv_loop sz []"

section \<open>The frame of a message\<close>

text \<open>\<open>struct.pack("!i", n)\<close> and its inverse: four bytes, the most significant first.\<close>

definition pack_i :: "int \<Rightarrow> exn + bytes" where
  "pack_i n =
     (if - (2 ^ 31) \<le> n \<and> n < 2 ^ 31
      then Inr [word_of_int (n div 2 ^ 24), word_of_int (n div 2 ^ 16), word_of_int (n div 2 ^ 8), word_of_int n]
      else Inl StructError)"

definition unpack_i :: "bytes \<Rightarrow> int" where
  "unpack_i b =
     (let v = foldl (\<lambda>v x. v * 256 + uint x) 0 b in if v \<ge> 2 ^ 31 then v - 2 ^ 32 else v)"

text \<open>\<open>_send_bytes\<close> and \<open>_recv_bytes\<close> over an operation that sends and one that receives.\<close>

definition send_frame :: "(bytes \<Rightarrow> ('s, unit) act) \<Rightarrow> bytes \<Rightarrow> ('s, unit) act" where
  "send_frame put buf =
     (case pack_i (int (length buf)) of
        Inl e \<Rightarrow> raise e
      | Inr header \<Rightarrow>
          if length buf > 16384 then bindA (put header) (\<lambda>_. put buf)
          else put (header @ buf))"

definition recv_frame :: "(nat \<Rightarrow> ('s, bytes) act) \<Rightarrow> int option \<Rightarrow> ('s, bytes option) act" where
  "recv_frame get maxsize =
     bindA (get 4) (\<lambda>buf.
     let sz = unpack_i buf in
     if (case maxsize of None \<Rightarrow> False | Some m \<Rightarrow> sz > m) then ret None
     else bindA (get (nat sz)) (\<lambda>b. ret (Some b)))"

definition frame :: "bytes \<Rightarrow> bytes" where
  "frame buf = (case pack_i (int (length buf)) of Inr header \<Rightarrow> header @ buf | Inl _ \<Rightarrow> [])"

section \<open>Connections\<close>

record conn = chan +
  cn_handle :: "int option"
  cn_readable :: bool
  cn_writable :: bool
  cn_close_error :: "exn option"   \<comment> \<open>what \<open>os.close\<close> raises\<close>

definition new_conn :: "chan \<Rightarrow> int \<Rightarrow> bool \<Rightarrow> bool \<Rightarrow> exn + conn" where
  "new_conn c handle readable writable =
     (if handle < 0 then Inl ValueError
      else if \<not> readable \<and> \<not> writable then Inl ValueError
      else Inr (chan.extend c \<lparr>cn_handle = Some handle, cn_readable = readable, cn_writable = writable, cn_close_error = None\<rparr>))"

definition check_closed :: "(conn, unit) act" where
  "check_closed = assertA (\<lambda>c. cn_handle c \<noteq> None) (OSError 0)"

definition check_readable :: "(conn, unit) act" where
  "check_readable = assertA cn_readable (OSError 0)"

definition check_writable :: "(conn, unit) act" where
  "check_writable = assertA cn_writable (OSError 0)"

definition conn_close :: "(conn, unit) act" where
  "conn_close c =
     (if cn_handle c = None then (Inr (), c)
      else (case cn_close_error c of None \<Rightarrow> Inr () | Some e \<Rightarrow> Inl e, c\<lparr>cn_handle := None\<rparr>))"

definition bad_message_length :: "(conn, 'a) act" where
  "bad_message_length = readA (\<lambda>c.
     bindA (if cn_writable c then modifyA (\<lambda>c. c\<lparr>cn_readable := False\<rparr>) else conn_close) (\<lambda>_. raise (OSError 0)))"

definition fileno :: "(conn, int) act" where
  "fileno = bindA check_closed (\<lambda>_. getsA (\<lambda>c. the (cn_handle c)))"

definition send_bytes :: "bytes \<Rightarrow> int \<Rightarrow> int option \<Rightarrow> (conn, unit) act" where
  "send_bytes buf offset sz =
     bindA check_closed (\<lambda>_. bindA check_writable (\<lambda>_.
     let n = int (length buf) in
     if offset < 0 then raise ValueError
     else if n < offset then raise ValueError
     else case sz of
         None \<Rightarrow> send_frame send_all (drop (nat offset) buf)
       | Some k \<Rightarrow>
           if k < 0 then raise ValueError
           else if offset + k > n then raise ValueError
           else send_frame send_all (take (nat k) (drop (nat offset) buf))))"

text \<open>\<open>dumps\<close> and \<open>loads\<close> are \<open>ForkingPickler\<close>.\<close>

definition conn_send :: "('o \<Rightarrow> exn + bytes) \<Rightarrow> 'o \<Rightarrow> (conn, unit) act" where
  "conn_send dumps obj =
     bindA check_closed (\<lambda>_. bindA check_writable (\<lambda>_.
     case dumps obj of Inl e \<Rightarrow> raise e | Inr b \<Rightarrow> send_frame send_all b))"

definition recv_bytes :: "int option \<Rightarrow> (conn, bytes) act" where
  "recv_bytes maxlength =
     bindA check_closed (\<lambda>_. bindA check_readable (\<lambda>_.
     if (case maxlength of None \<Rightarrow> False | Some m \<Rightarrow> m < 0) then raise ValueError
     else bindA (recv_frame recv_all maxlength) (\<lambda>r.
       case r of None \<Rightarrow> bad_message_length | Some b \<Rightarrow> ret b)))"

definition conn_recv :: "(bytes \<Rightarrow> exn + 'o) \<Rightarrow> (conn, 'o) act" where
  "conn_recv loads =
     bindA check_closed (\<lambda>_. bindA check_readable (\<lambda>_.
     bindA (recv_frame recv_all None) (\<lambda>r.
       case r of None \<Rightarrow> raise TypeError
       | Some b \<Rightarrow> (case loads b of Inl e \<Rightarrow> raise e | Inr obj \<Rightarrow> ret obj))))"

text \<open>
  \<open>recv_bytes_into\<close> a buffer of items of \<open>itemsize\<close> bytes; the result is the size of the message and
  the buffer. The bounds of the slice are rounded down to whole items.
\<close>

definition recv_bytes_into :: "bytes \<Rightarrow> nat \<Rightarrow> int \<Rightarrow> (conn, nat \<times> bytes) act" where
  "recv_bytes_into buf itemsize offset =
     bindA check_closed (\<lambda>_. bindA check_readable (\<lambda>_.
     let bytesize = int (length buf) in
     if offset < 0 then raise ValueError
     else if offset > bytesize then raise ValueError
     else bindA (recv_frame recv_all None) (\<lambda>r.
       case r of None \<Rightarrow> raise AttributeError
       | Some b \<Rightarrow>
           let sz = length b; o1 = nat offset in
           if bytesize < offset + int sz then raise (BufferTooShort b)
           else let i = o1 div itemsize * itemsize; j = (o1 + sz) div itemsize * itemsize
             in ret (sz, take i buf @ take (j - i) b @ drop (i + length (take (j - i) b)) buf))))"

text \<open>\<open>ready\<close> is the answer of \<open>wait([self], timeout)\<close>.\<close>

definition conn_poll :: "exn + bool \<Rightarrow> (conn, bool) act" where
  "conn_poll ready =
     bindA check_closed (\<lambda>_. bindA check_readable (\<lambda>_. case ready of Inl e \<Rightarrow> raise e | Inr r \<Rightarrow> ret r))"

text \<open>\<open>Pipe\<close>: a pair of connections over the two ends of a pair of sockets or of a pipe.\<close>

definition Pipe :: "bool \<Rightarrow> chan \<Rightarrow> chan \<Rightarrow> int \<Rightarrow> int \<Rightarrow> exn + conn \<times> conn" where
  "Pipe duplex c1 c2 fd1 fd2 =
     (case new_conn c1 fd1 True duplex of Inl e \<Rightarrow> Inl e
      | Inr a \<Rightarrow> (case new_conn c2 fd2 duplex True of Inl e \<Rightarrow> Inl e | Inr b \<Rightarrow> Inr (a, b)))"

section \<open>Framing over a stream\<close>

text \<open>The header is read back as it was written.\<close>

lemma uint_byte: "uint (word_of_int x :: 8 word) = x mod 256"
  by (simp add: uint_word_of_int)

lemma bytes_mod: "((n div 2 ^ 24 mod 256 * 256 + n div 2 ^ 16 mod 256) * 256 + n div 2 ^ 8 mod 256) * 256 + n mod 256
    = n mod (2 ^ 32 :: int)"
proof -
  define a b c where "a = n div 256" and "b = a div 256" and "c = b div 256"
  have d: "n div 2 ^ 8 = a" "n div 2 ^ 16 = b" "n div 2 ^ 24 = c"
    by (simp_all add: a_def b_def c_def zdiv_zmult2_eq [symmetric])
  have e: "n mod 2 ^ 32 = n mod (256 * (256 * (256 * 256)))" by simp
  have 1: "n mod (256 * (256 * (256 * 256))) = 256 * (a mod (256 * (256 * 256))) + n mod 256"
    unfolding a_def by (rule zmod_zmult2_eq) simp
  have 2: "a mod (256 * (256 * 256)) = 256 * (b mod (256 * 256)) + a mod 256"
    unfolding b_def by (rule zmod_zmult2_eq) simp
  have 3: "b mod (256 * 256) = 256 * (c mod 256) + b mod 256"
    unfolding c_def by (rule zmod_zmult2_eq) simp
  show ?thesis unfolding d e 1 2 3 by (simp only: ac_simps)
qed

lemma unpack_pack:
  assumes "pack_i n = Inr b"
  shows "unpack_i b = n" "length b = 4"
proof -
  have n: "- (2 ^ 31) \<le> n" "n < 2 ^ 31" using assms by (auto simp: pack_i_def split: if_splits)
  have b: "b = [word_of_int (n div 2 ^ 24), word_of_int (n div 2 ^ 16), word_of_int (n div 2 ^ 8), word_of_int n]"
    using assms by (simp add: pack_i_def split: if_splits)
  have "foldl (\<lambda>v x. v * 256 + uint x) 0 b = n mod 2 ^ 32"
    unfolding b using bytes_mod [of n] by (simp only: foldl_Cons foldl_Nil uint_byte mult_zero_left add_0)
  moreover have "n mod 2 ^ 32 = (if n < 0 then n + 2 ^ 32 else n)"
  proof (cases "n < 0")
    case True
    have "n mod 2 ^ 32 = (n + 2 ^ 32) mod 2 ^ 32" by simp
    also have "\<dots> = n + 2 ^ 32" by (rule mod_pos_pos_trivial) (use n True in simp_all)
    finally show ?thesis using True by simp
  next
    case False
    then have "n mod 2 ^ 32 = n" by (intro mod_pos_pos_trivial) (use n in simp_all)
    then show ?thesis using False by simp
  qed
  ultimately have v: "foldl (\<lambda>v x. v * 256 + uint x) 0 b = (if n < 0 then n + 2 ^ 32 else n)" by simp
  show "unpack_i b = n" unfolding unpack_i_def v Let_def using n by simp
  show "length b = 4" unfolding b by simp
qed

text \<open>
  What the framing relies on. \<open>can_send n s\<close> and \<open>can_recv n s\<close> say that the system will let
  \<open>n\<close> more bytes through, in whatever pieces and with whatever interruptions.
\<close>

locale stream =
  fixes can_send can_recv :: "nat \<Rightarrow> 's \<Rightarrow> bool"
    and out inp :: "'s \<Rightarrow> bytes"
    and put :: "bytes \<Rightarrow> ('s, unit) act"
    and get :: "nat \<Rightarrow> ('s, bytes) act"
  assumes put: "b \<noteq> [] \<Longrightarrow> can_send (length b + n) s \<Longrightarrow> \<exists>s'. put b s = (Inr (), s') \<and> out s' = out s @ b \<and>
      inp s' = inp s \<and> can_send n s' \<and> (\<forall>m. can_recv m s \<longrightarrow> can_recv m s')"
    and get: "k \<le> length (inp s) \<Longrightarrow> can_recv (k + n) s \<Longrightarrow> \<exists>s'. get k s = (Inr (take k (inp s)), s') \<and>
      inp s' = drop k (inp s) \<and> out s' = out s \<and> can_recv n s' \<and> (\<forall>m. can_send m s \<longrightarrow> can_send m s')"
begin

lemma send_frame:
  assumes h: "pack_i (int (length b)) = Inr h" and s: "can_send (4 + length b + n) s"
  shows "\<exists>s'. send_frame put b s = (Inr (), s') \<and> out s' = out s @ frame b \<and> inp s' = inp s \<and> can_send n s' \<and>
    (\<forall>m. can_recv m s \<longrightarrow> can_recv m s')"
proof (cases "length b > 16384")
  case True
  have "h \<noteq> []" "length h = 4" "b \<noteq> []" using unpack_pack(2) [OF h] True by auto
  with s obtain s1 where s1: "put h s = (Inr (), s1)" "out s1 = out s @ h" "inp s1 = inp s" "can_send (length b + n) s1"
    "\<forall>m. can_recv m s \<longrightarrow> can_recv m s1" using put [of h "length b + n" s] by (auto simp: add.assoc)
  from put [OF \<open>b \<noteq> []\<close> s1(4)] obtain s2 where "put b s1 = (Inr (), s2)" "out s2 = out s1 @ b" "inp s2 = inp s1"
    "can_send n s2" "\<forall>m. can_recv m s1 \<longrightarrow> can_recv m s2" by blast
  then show ?thesis using s1 h True by (auto simp: send_frame_def frame_def act_defs)
next
  case False
  have "h @ b \<noteq> []" "length (h @ b) = 4 + length b" using unpack_pack(2) [OF h] by auto
  then show ?thesis using put [of "h @ b" n s] s h False by (auto simp: send_frame_def frame_def)
qed

lemma recv_frame:
  assumes h: "pack_i (int (length b)) = Inr h" and i: "inp s = frame b @ rest" and s: "can_recv (4 + length b + n) s"
    and m: "\<And>k. m = Some k \<Longrightarrow> int (length b) \<le> k"
  shows "\<exists>s'. recv_frame get m s = (Inr (Some b), s') \<and> inp s' = rest \<and> out s' = out s \<and> can_recv n s' \<and>
    (\<forall>m. can_send m s \<longrightarrow> can_send m s')"
proof -
  have l: "length h = 4" "unpack_i h = int (length b)" using unpack_pack [OF h] by auto
  have i': "inp s = h @ b @ rest" using i h by (simp add: frame_def)
  from get [of 4 s "length b + n"] s i' l obtain s1 where s1: "get 4 s = (Inr h, s1)" "inp s1 = b @ rest" "out s1 = out s"
    "can_recv (length b + n) s1" "\<forall>m. can_send m s \<longrightarrow> can_send m s1" by (auto simp: add.assoc)
  from get [of "length b" s1 n] s1 obtain s2 where "get (length b) s1 = (Inr b, s2)" "inp s2 = rest" "out s2 = out s1"
    "can_recv n s2" "\<forall>m. can_send m s1 \<longrightarrow> can_send m s2" by auto
  then show ?thesis using s1 l m by (cases m) (auto simp: recv_frame_def act_defs Let_def)
qed

lemma recv_frame_too_long:
  assumes h: "pack_i (int (length b)) = Inr h" and i: "inp s = frame b @ rest" and s: "can_recv (4 + n) s"
    and m: "k < int (length b)"
  shows "\<exists>s'. recv_frame get (Some k) s = (Inr None, s') \<and> inp s' = b @ rest \<and> out s' = out s"
proof -
  have l: "length h = 4" "unpack_i h = int (length b)" using unpack_pack [OF h] by auto
  have i': "inp s = h @ b @ rest" using i h by (simp add: frame_def)
  from get [of 4 s n] s i' l obtain s1 where "get 4 s = (Inr h, s1)" "inp s1 = b @ rest" "out s1 = out s" by auto
  then show ?thesis using l m by (auto simp: recv_frame_def act_defs)
qed

end

section \<open>The stream of a connection\<close>

definition is_accept :: "wres \<Rightarrow> bool" where
  "is_accept w = (case w of Accept _ \<Rightarrow> True | WErr _ \<Rightarrow> False)"

definition is_avail :: "rres \<Rightarrow> bool" where
  "is_avail r = (case r of Avail _ \<Rightarrow> True | RErr _ \<Rightarrow> False)"

lemma is_simps [simp]: "is_accept (Accept k)" "\<not> is_accept (WErr e)" "is_avail (Avail k)" "\<not> is_avail (RErr e)"
  by (simp_all add: is_accept_def is_avail_def)

text \<open>Only interruptions, and enough calls: each lets at least one byte through.\<close>

definition can_send :: "nat \<Rightarrow> 'a chan_scheme \<Rightarrow> bool" where
  "can_send n s \<longleftrightarrow> (\<forall>w \<in> set (ch_writes s). is_accept w \<or> w = WErr EINTR) \<and> n \<le> length (filter is_accept (ch_writes s))"

definition can_recv :: "nat \<Rightarrow> 'a chan_scheme \<Rightarrow> bool" where
  "can_recv n s \<longleftrightarrow> (\<forall>r \<in> set (ch_reads s). is_avail r \<or> r = RErr EINTR) \<and> n \<le> length (filter is_avail (ch_reads s))"

lemma send_all_works:
  "b \<noteq> [] \<Longrightarrow> can_send (length b + n) s \<Longrightarrow> \<exists>s'. send_all b s = (Inr (), s') \<and> ch_out s' = ch_out s @ b \<and>
     ch_in s' = ch_in s \<and> ch_eof s' = ch_eof s \<and> ch_reads s' = ch_reads s \<and> chan.more s' = chan.more s \<and> can_send n s'"
proof (induction b s rule: send_all.induct)
  case (1 b s)
  obtain w ws where ws: "ch_writes s = w # ws"
    using 1(3,4) by (cases "ch_writes s") (auto simp: can_send_def)
  show ?case
  proof (cases w)
    case (Accept k)
    let ?n = "min (Suc k) (length b)" and ?s = "s\<lparr>ch_writes := ws, ch_out := ch_out s @ take (min (Suc k) (length b)) b\<rparr>"
    have pos: "Suc 0 \<le> length b" using 1(3) by (cases b) simp_all
    have w: "os_write b s = (Inr ?n, ?s)" using ws Accept by (simp add: os_write_def Let_def)
    show ?thesis
    proof (cases "?n = length b")
      case True
      then show ?thesis using w 1(4) ws Accept pos
        by (subst send_all.simps) (auto simp: can_send_def)
    next
      case False
      have "drop ?n b \<noteq> []" using False by simp
      moreover have "can_send (length (drop ?n b) + n) ?s" using 1(4) ws Accept pos by (auto simp: can_send_def)
      moreover have "ch_out ?s @ drop ?n b = ch_out s @ b" by simp
      ultimately show ?thesis using 1(2) [OF w [symmetric] refl False] w False by (subst send_all.simps) auto
    qed
  next
    case (WErr e)
    then have e: "e = EINTR" using 1(4) ws by (auto simp: can_send_def)
    let ?s = "s\<lparr>ch_writes := ws\<rparr>"
    have w: "os_write b s = (Inl (OSError EINTR), ?s)" using ws WErr e by (simp add: os_write_def)
    have "can_send (length b + n) ?s" using 1(4) ws WErr by (auto simp: can_send_def)
    then show ?thesis using 1(1) [OF w [symmetric] refl refl 1(3)] w by (subst send_all.simps) auto
  qed
qed

lemma take_two: "m \<le> k \<Longrightarrow> take k xs = take m xs @ take (k - m) (drop m xs)"
  by (metis le_add_diff_inverse take_add)

lemma recv_loop_works:
  "length got \<le> k \<Longrightarrow> k - length got \<le> length (ch_in s) \<Longrightarrow> can_recv (k - length got + n) s \<Longrightarrow>
   \<exists>s'. recv_loop k got s = (Inr (got @ take (k - length got) (ch_in s)), s') \<and> ch_in s' = drop (k - length got) (ch_in s) \<and>
     ch_out s' = ch_out s \<and> ch_eof s' = ch_eof s \<and> ch_writes s' = ch_writes s \<and> chan.more s' = chan.more s \<and> can_recv n s'"
proof (induction k got s rule: recv_loop.induct)
  case (1 k got s)
  show ?case
  proof (cases "k \<le> length got")
    case True
    then show ?thesis using 1(3-5) by (subst recv_loop.simps) auto
  next
    case False
    obtain r rs where rs: "ch_reads s = r # rs"
      using 1(5) False by (cases "ch_reads s") (auto simp: can_recv_def)
    have ne: "ch_in s \<noteq> []" using 1(4) False by auto
    show ?thesis
    proof (cases r)
      case (Avail a)
      let ?m = "min (Suc a) (k - length got)"
      let ?c = "take ?m (ch_in s)" and ?s = "s\<lparr>ch_reads := rs, ch_in := drop ?m (ch_in s)\<rparr>"
      have r: "os_read (k - length got) s = (Inr ?c, ?s)" using rs Avail ne by (simp add: os_read_def Let_def)
      have c: "?c \<noteq> []" "length ?c = ?m" using ne False 1(4) by auto
      have A: "length (got @ ?c) \<le> k" "k - length (got @ ?c) \<le> length (ch_in ?s)" using 1(3,4) c(2) by auto
      have B: "can_recv (k - length (got @ ?c) + n) ?s" using 1(5) rs Avail False c(2)
        by (auto simp: can_recv_def)
      have C: "?c @ take (k - length (got @ ?c)) (ch_in ?s) = take (k - length got) (ch_in s)"
        using take_two [of ?m "k - length got" "ch_in s"] c(2) by simp
      have "?m + (k - (length got + ?m)) = k - length got" using False by simp
      then have D: "drop (k - length (got @ ?c)) (ch_in ?s) = drop (k - length got) (ch_in s)"
        using c(2) by (simp add: add.commute)
      have E: "recv_loop k got s = recv_loop k (got @ ?c) ?s"
        using r c(1) False by (subst recv_loop.simps) (simp only: if_False prod.case sum.case)
      have F: "ch_out ?s = ch_out s" "ch_eof ?s = ch_eof s" "ch_writes ?s = ch_writes s" "chan.more ?s = chan.more s"
        by simp_all
      from 1(2) [OF False r [symmetric] refl c(1) A B] show ?thesis
        unfolding E append_assoc C D F .
    next
      case (RErr e)
      then have e: "e = EINTR" using 1(5) rs by (auto simp: can_recv_def)
      let ?s = "s\<lparr>ch_reads := rs\<rparr>"
      have r: "os_read (k - length got) s = (Inl (OSError EINTR), ?s)" using rs RErr e by (simp add: os_read_def)
      have "can_recv (k - length got + n) ?s" using 1(5) rs RErr by (auto simp: can_recv_def)
      moreover have "recv_loop k got s = recv_loop k got ?s" using r False by (subst recv_loop.simps) simp
      ultimately show ?thesis using 1(1) [OF False r [symmetric] refl refl 1(3)] 1(4) by simp
    qed
  qed
qed

lemma can_recv_cong: "ch_reads s' = ch_reads s \<Longrightarrow> can_recv n s' = can_recv n s"
  by (simp add: can_recv_def)

lemma can_send_cong: "ch_writes s' = ch_writes s \<Longrightarrow> can_send n s' = can_send n s"
  by (simp add: can_send_def)

interpretation cs: stream can_send can_recv ch_out ch_in send_all recv_all
proof unfold_locales
  fix b :: bytes and n and s :: "'a chan_scheme"
  assume "b \<noteq> []" "can_send (length b + n) s"
  from send_all_works [OF this] show "\<exists>s'. send_all b s = (Inr (), s') \<and> ch_out s' = ch_out s @ b \<and>
      ch_in s' = ch_in s \<and> can_send n s' \<and> (\<forall>m. can_recv m s \<longrightarrow> can_recv m s')"
    using can_recv_cong by blast
next
  fix k n and s :: "'a chan_scheme"
  assume "k \<le> length (ch_in s)" "can_recv (k + n) s"
  then have "\<exists>s'. recv_loop k [] s = (Inr ([] @ take (k - length ([] :: bytes)) (ch_in s)), s') \<and>
      ch_in s' = drop (k - length ([] :: bytes)) (ch_in s) \<and> ch_out s' = ch_out s \<and> ch_eof s' = ch_eof s \<and>
      ch_writes s' = ch_writes s \<and> chan.more s' = chan.more s \<and> can_recv n s'"
    by (intro recv_loop_works) simp_all
  then obtain s' where "recv_all k s = (Inr (take k (ch_in s)), s')" "ch_in s' = drop k (ch_in s)" "ch_out s' = ch_out s"
    "ch_writes s' = ch_writes s" "can_recv n s'" unfolding recv_all_def by auto
  then show "\<exists>s'. recv_all k s = (Inr (take k (ch_in s)), s') \<and> ch_in s' = drop k (ch_in s) \<and>
      ch_out s' = ch_out s \<and> can_recv n s' \<and> (\<forall>m. can_send m s \<longrightarrow> can_send m s')"
    using can_send_cong by blast
qed

section \<open>Messages over a connection\<close>

definition can_write :: "conn \<Rightarrow> bool" where
  "can_write c \<longleftrightarrow> cn_handle c \<noteq> None \<and> cn_writable c"

definition can_read :: "conn \<Rightarrow> bool" where
  "can_read c \<longleftrightarrow> cn_handle c \<noteq> None \<and> cn_readable c"

fun send_msgs :: "bytes list \<Rightarrow> (conn, unit) act" where
  "send_msgs [] = ret ()"
| "send_msgs (b # bs) = bindA (send_bytes b 0 None) (\<lambda>_. send_msgs bs)"

fun recv_msgs :: "nat \<Rightarrow> (conn, bytes list) act" where
  "recv_msgs 0 = ret []"
| "recv_msgs (Suc n) = bindA (recv_bytes None) (\<lambda>b. bindA (recv_msgs n) (\<lambda>bs. ret (b # bs)))"

definition short :: "bytes \<Rightarrow> bool" where
  "short b \<longleftrightarrow> length b < 2 ^ 31"

lemma short_pack:
  assumes "short b"
  obtains h where "pack_i (int (length b)) = Inr h" "length h = 4" "frame b = h @ b" "length (frame b) = 4 + length b"
proof -
  have "int (length b) < 2 ^ 31" using assms unfolding short_def by (metis of_nat_less_iff of_nat_numeral of_nat_power)
  then obtain h where "pack_i (int (length b)) = Inr h" by (simp add: pack_i_def)
  with that unpack_pack(2) show ?thesis by (simp add: frame_def)
qed

text \<open>The operations of a connection leave its own fields alone.\<close>

lemma send_all_fields: "send_all b s = (r, s') \<Longrightarrow> ch_in s' = ch_in s \<and> ch_reads s' = ch_reads s \<and> ch_eof s' = ch_eof s \<and> chan.more s' = chan.more s"
proof (induction b s arbitrary: r s' rule: send_all.induct)
  case (1 b s)
  obtain x t where w: "os_write b s = (x, t)" by (cases "os_write b s")
  have t: "ch_in t = ch_in s" "ch_reads t = ch_reads s" "ch_eof t = ch_eof s" "chan.more t = chan.more s"
    using w by (auto simp: os_write_def Let_def split: list.splits wres.splits)
  show ?case
  proof (cases x)
    case (Inl e)
    then show ?thesis using 1(3) 1(1) [OF w [symmetric] Inl] w t by (subst (asm) send_all.simps) (auto split: if_splits)
  next
    case (Inr n)
    then show ?thesis using 1(3) 1(2) [OF w [symmetric] Inr] w t by (subst (asm) send_all.simps) (auto split: if_splits)
  qed
qed

lemma recv_loop_fields: "recv_loop k got s = (r, s') \<Longrightarrow> ch_out s' = ch_out s \<and> ch_writes s' = ch_writes s \<and> ch_eof s' = ch_eof s \<and> chan.more s' = chan.more s"
proof (induction k got s arbitrary: r s' rule: recv_loop.induct)
  case (1 k got s)
  obtain x t where w: "os_read (k - length got) s = (x, t)" by (cases "os_read (k - length got) s")
  have t: "ch_out t = ch_out s" "ch_writes t = ch_writes s" "ch_eof t = ch_eof s" "chan.more t = chan.more s"
    using w by (auto simp: os_read_def Let_def split: list.splits rres.splits if_splits)
  show ?case
  proof (cases "k \<le> length got")
    case True
    then show ?thesis using 1(3) by (subst (asm) recv_loop.simps) simp
  next
    case False
    show ?thesis
    proof (cases x)
      case (Inl e)
      then show ?thesis using 1(3) 1(1) [OF False w [symmetric] Inl] w t False by (subst (asm) recv_loop.simps) (auto split: if_splits)
    next
      case (Inr c)
      then show ?thesis using 1(3) 1(2) [OF False w [symmetric] Inr] w t False by (subst (asm) recv_loop.simps) (auto split: if_splits)
    qed
  qed
qed

lemma send_frame_fields:
  assumes "send_frame send_all b s = (r, s')"
  shows "chan.more s' = chan.more s \<and> ch_in s' = ch_in s \<and> ch_reads s' = ch_reads s \<and> ch_eof s' = ch_eof s"
  using assms by (auto simp: send_frame_def act_defs split: sum.splits if_splits prod.splits dest!: send_all_fields)

lemma recv_frame_fields:
  assumes "recv_frame recv_all m s = (r, s')"
  shows "chan.more s' = chan.more s \<and> ch_out s' = ch_out s \<and> ch_writes s' = ch_writes s \<and> ch_eof s' = ch_eof s"
  using assms by (auto simp: recv_frame_def recv_all_def act_defs Let_def split: sum.splits if_splits prod.splits dest!: recv_loop_fields)

lemma more_same:
  assumes "chan.more (s' :: conn) = chan.more s"
  shows "can_write s' = can_write s" "can_read s' = can_read s" "cn_handle s' = cn_handle s" "cn_writable s' = cn_writable s"
    "cn_readable s' = cn_readable s"
  using assms by (cases s; cases s'; simp add: can_write_def can_read_def)+

lemma send_bytes_works:
  assumes "short b" "can_write c" "can_send (length (frame b) + n) c"
  shows "\<exists>c'. send_bytes b 0 None c = (Inr (), c') \<and> ch_out c' = ch_out c @ frame b \<and> can_send n c' \<and>
    ch_in c' = ch_in c \<and> ch_reads c' = ch_reads c \<and> ch_eof c' = ch_eof c \<and> chan.more c' = chan.more c"
proof -
  from short_pack [OF assms(1)] obtain h where h: "pack_i (int (length b)) = Inr h" "length (frame b) = 4 + length b" by metis
  from cs.send_frame [OF h(1)] assms(3) h(2) obtain c' where c': "send_frame send_all b c = (Inr (), c')"
    "ch_out c' = ch_out c @ frame b" "can_send n c'" by metis
  then show ?thesis using send_frame_fields [OF c'(1)] assms(2)
    by (auto simp: send_bytes_def check_closed_def check_writable_def act_defs can_write_def)
qed

lemma recv_bytes_works:
  assumes "short b" "can_read c" "can_recv (length (frame b) + n) c" "ch_in c = frame b @ rest"
    and "\<And>k. m = Some k \<Longrightarrow> int (length b) \<le> k"
  shows "\<exists>c'. recv_bytes m c = (Inr b, c') \<and> ch_in c' = rest \<and> can_recv n c' \<and>
    ch_out c' = ch_out c \<and> ch_writes c' = ch_writes c \<and> ch_eof c' = ch_eof c \<and> chan.more c' = chan.more c"
proof -
  from short_pack [OF assms(1)] obtain h where h: "pack_i (int (length b)) = Inr h" "length (frame b) = 4 + length b" by metis
  from cs.recv_frame [OF h(1) assms(4) _ assms(5)] assms(3) h(2) obtain c' where c': "recv_frame recv_all m c = (Inr (Some b), c')"
    "ch_in c' = rest" "can_recv n c'" by metis
  have "\<not> (case m of None \<Rightarrow> False | Some m \<Rightarrow> m < 0)" using assms(5) [of "the m"] by (cases m) auto
  then show ?thesis using c' recv_frame_fields [OF c'(1)] assms(2)
    by (auto simp: recv_bytes_def check_closed_def check_readable_def act_defs can_read_def)
qed

lemma send_msgs_works:
  "list_all short ms \<Longrightarrow> can_write a \<Longrightarrow> can_send (length (concat (map frame ms)) + n) a \<Longrightarrow>
   \<exists>a'. send_msgs ms a = (Inr (), a') \<and> ch_out a' = ch_out a @ concat (map frame ms) \<and> can_send n a'"
proof (induction ms arbitrary: a)
  case (Cons m ms)
  then obtain a1 where a1: "send_bytes m 0 None a = (Inr (), a1)" "ch_out a1 = ch_out a @ frame m"
    "can_send (length (concat (map frame ms)) + n) a1" "chan.more a1 = chan.more a"
    using send_bytes_works [of m a "length (concat (map frame ms)) + n"] by (auto simp: add.assoc)
  with Cons.IH [of a1] Cons.prems more_same(1) [OF a1(4)] show ?case by (auto simp: act_defs)
qed (simp add: act_defs)

lemma recv_msgs_works:
  "list_all short ms \<Longrightarrow> can_read b \<Longrightarrow> can_recv (length (concat (map frame ms)) + n) b \<Longrightarrow>
   ch_in b = concat (map frame ms) @ rest \<Longrightarrow>
   \<exists>b'. recv_msgs (length ms) b = (Inr ms, b') \<and> ch_in b' = rest \<and> can_recv n b'"
proof (induction ms arbitrary: b)
  case (Cons m ms)
  then obtain b1 where b1: "recv_bytes None b = (Inr m, b1)" "ch_in b1 = concat (map frame ms) @ rest"
    "can_recv (length (concat (map frame ms)) + n) b1" "chan.more b1 = chan.more b"
    using recv_bytes_works [of m b "length (concat (map frame ms)) + n" "concat (map frame ms) @ rest" None]
    by (auto simp: add.assoc)
  with Cons.IH [of b1] Cons.prems more_same(2) [OF b1(4)] show ?case by (auto simp: act_defs)
qed (simp add: act_defs)

text \<open>
  C22. What is sent is what is received: however the system cuts the stream into pieces on either
  side and wherever it interrupts the calls, the other end receives exactly the messages that were
  sent, in their order, and nothing of the rest of the stream is lost.
\<close>

theorem messages_arrive:
  assumes "list_all short ms" "can_write a" "can_send (length (concat (map frame ms))) a" "ch_out a = []"
    and "can_read b" "can_recv (length (concat (map frame ms))) b"
  shows "\<exists>a'. send_msgs ms a = (Inr (), a') \<and>
    (ch_in b = ch_out a' @ rest \<longrightarrow> (\<exists>b'. recv_msgs (length ms) b = (Inr ms, b') \<and> ch_in b' = rest))"
  using send_msgs_works [of ms a 0] recv_msgs_works [of ms b 0 rest] assms by auto

theorem messages_arrive_witness:
  "\<exists>a'. send_msgs [[1, 2], []] (conn.extend (chan.extend \<lparr>ch_out = [], ch_in = [], ch_eof = False,
        ch_writes = WErr EINTR # replicate 10 (Accept 0), ch_reads = []\<rparr>
        \<lparr>cn_handle = Some 3, cn_readable = True, cn_writable = True, cn_close_error = None\<rparr>) ()) = (Inr (), a')"
proof -
  let ?a = "\<lparr>ch_out = [], ch_in = [], ch_eof = False, ch_writes = WErr EINTR # replicate 10 (Accept 0), ch_reads = [],
    cn_handle = Some 3, cn_readable = True, cn_writable = True, cn_close_error = None\<rparr>"
  let ?b = "?a\<lparr>ch_reads := replicate 10 (Avail 1)\<rparr>"
  have l: "length (concat (map frame [[1, 2], []])) = 10" by (simp add: frame_def pack_i_def)
  have "can_write ?a" "can_read ?b" "can_send 10 ?a" "can_recv 10 ?b" "list_all short [[1, 2], []]"
    by (simp_all add: can_write_def can_read_def can_send_def can_recv_def short_def)
  with messages_arrive [of "[[1, 2], []]" ?a ?b "[9]"] l show ?thesis by (auto simp: chan.defs conn.defs)
qed

section \<open>The end of the stream, and messages that are too long\<close>

lemma recv_loop_short:
  "length (ch_in s) < k - length got \<Longrightarrow> ch_eof s \<Longrightarrow> can_recv (length (ch_in s) + 1) s \<Longrightarrow>
   fst (recv_loop k got s) = Inl (if got = [] \<and> ch_in s = [] then EOFError else OSError 0)"
proof (induction k got s rule: recv_loop.induct)
  case (1 k got s)
  have False: "\<not> k \<le> length got" using 1(3) by simp
  obtain r rs where rs: "ch_reads s = r # rs" using 1(5) by (cases "ch_reads s") (auto simp: can_recv_def)
  show ?case
  proof (cases r)
    case (Avail a)
    let ?m = "min (Suc a) (k - length got)"
    let ?c = "take ?m (ch_in s)" and ?s = "s\<lparr>ch_reads := rs, ch_in := drop ?m (ch_in s)\<rparr>"
    have r: "os_read (k - length got) s = (Inr ?c, ?s)" using rs Avail 1(4) by (simp add: os_read_def Let_def)
    show ?thesis
    proof (cases "ch_in s = []")
      case True
      then show ?thesis using r False by (subst recv_loop.simps) simp
    next
      case ne: False
      then have c: "?c \<noteq> []" using False by simp
      have l: "1 \<le> ?m" "Suc 0 \<le> length (ch_in s)" using False ne by (simp, cases "ch_in s") simp_all
      have "length (ch_in ?s) < k - length (got @ ?c)" "ch_eof ?s" using 1(3,4) by auto
      moreover have "can_recv (length (ch_in ?s) + 1) ?s" using 1(5) rs Avail l by (auto simp: can_recv_def)
      moreover have "recv_loop k got s = recv_loop k (got @ ?c) ?s"
        using r c False by (subst recv_loop.simps) (simp only: if_False prod.case sum.case)
      ultimately show ?thesis using 1(2) [OF False r [symmetric] refl c] ne c l(1) by simp
    qed
  next
    case (RErr e)
    then have e: "e = EINTR" using 1(5) rs by (auto simp: can_recv_def)
    let ?s = "s\<lparr>ch_reads := rs\<rparr>"
    have r: "os_read (k - length got) s = (Inl (OSError EINTR), ?s)" using rs RErr e by (simp add: os_read_def)
    have "can_recv (length (ch_in ?s) + 1) ?s" using 1(5) rs RErr by (auto simp: can_recv_def)
    moreover have "recv_loop k got s = recv_loop k got ?s" using r False by (subst recv_loop.simps) simp
    ultimately show ?thesis using 1(1) [OF False r [symmetric] refl refl] 1(3,4) by simp
  qed
qed

text \<open>
  A stream that ends inside a message: the reader gets an error and never a part of the
  message. It is \<open>EOFError\<close>, as at the end of a complete message, when the stream ends before
  the first byte, and also when it ends just after the header; otherwise \<open>OSError\<close>.
\<close>

theorem truncated_message:
  assumes b: "short b" and c: "can_read c" "can_recv (length p + 1) c" "ch_in c = p" "ch_eof c"
    and p: "frame b = p @ q" "q \<noteq> []"
  shows "fst (recv_bytes None c) = Inl (if length p = 0 \<or> length p = 4 then EOFError else OSError 0)"
proof -
  from short_pack [OF b] obtain h where h: "pack_i (int (length b)) = Inr h" "length h = 4" "frame b = h @ b" by metis
  have fst: "fst (recv_bytes None c) = Inl e" if "fst (recv_frame recv_all None c) = Inl e" for e
    using that c(1) by (auto simp: recv_bytes_def check_closed_def check_readable_def act_defs can_read_def split: prod.split)
  show ?thesis
  proof (cases "length p < 4")
    case True
    then have "fst (recv_all 4 c) = Inl (if p = [] then EOFError else OSError 0)"
      using recv_loop_short [of c 4 "[]"] c unfolding recv_all_def by simp
    then have "fst (recv_frame recv_all None c) = Inl (if p = [] then EOFError else OSError 0)"
      by (auto simp: recv_frame_def act_defs split: prod.split)
    from fst [OF this] show ?thesis using True by auto
  next
    case False
    then obtain p' where p': "p = h @ p'" "b = p' @ q"
      using p h by (metis append_eq_append_conv_if append_take_drop_id not_less)
    have i: "take 4 (ch_in c) = h" "drop 4 (ch_in c) = p'" "4 \<le> length (ch_in c)" using c(3) p'(1) h(2) by simp_all
    have "can_recv (4 + (length p' + 1)) c" using c(2) p'(1) h(2) by simp
    from cs.get [OF i(3) this] obtain c1 where "recv_all 4 c = (Inr (take 4 (ch_in c)), c1)"
      "ch_in c1 = drop 4 (ch_in c)" "can_recv (length p' + 1) c1" by (elim exE conjE) (rule that)
    then have c1: "recv_all 4 c = (Inr h, c1)" "ch_in c1 = p'" "can_recv (length p' + 1) c1" using i by simp_all
    have "ch_eof c1" using recv_loop_fields [OF c1(1) [unfolded recv_all_def]] c(4) by simp
    then have "fst (recv_all (length b) c1) = Inl (if p' = [] then EOFError else OSError 0)"
      using recv_loop_short [of c1 "length b" "[]"] c1 p' p(2) unfolding recv_all_def by simp
    then have "fst (recv_frame recv_all None c) = Inl (if p' = [] then EOFError else OSError 0)"
      using c1(1) unpack_pack [OF h(1)] by (auto simp: recv_frame_def act_defs split: prod.split)
    from fst [OF this] show ?thesis using p' h(2) by auto
  qed
qed

text \<open>
  A message longer than the limit poisons the connection: \<open>recv_bytes\<close> raises, and so does
  every later receive, without reading on, so the body of the message is never taken for a header.
\<close>

theorem oversized_message:
  assumes b: "short b" and c: "can_read c" "can_recv (4 + n) c" "ch_in c = frame b @ rest" "cn_close_error c = None"
    and k: "0 \<le> k" "k < int (length b)"
  shows "\<exists>c'. recv_bytes (Some k) c = (Inl (OSError 0), c') \<and> ch_in c' = b @ rest \<and>
    recv_bytes m c' = (Inl (OSError 0), c') \<and> conn_recv loads c' = (Inl (OSError 0), c')"
proof -
  from short_pack [OF b] obtain h where h: "pack_i (int (length b)) = Inr h" by metis
  from cs.recv_frame_too_long [OF h c(3,2) k(2)] obtain c1 where c1: "recv_frame recv_all (Some k) c = (Inr None, c1)"
    "ch_in c1 = b @ rest" by blast
  note same = more_same [of c1 c] recv_frame_fields [OF c1(1)]
  have "cn_close_error c1 = None" using recv_frame_fields [OF c1(1)] c(4) by (cases c; cases c1) simp
  then show ?thesis using c1 same c(1) k(1)
    by (cases "cn_writable c") (auto simp: recv_bytes_def conn_recv_def check_closed_def check_readable_def
      bad_message_length_def conn_close_def act_defs can_read_def)
qed

text \<open>A connection on descriptor 3 with something to read, for the examples.\<close>

definition ex_conn :: "bytes \<Rightarrow> bool \<Rightarrow> nat \<Rightarrow> conn" where
  "ex_conn i eof n = \<lparr>ch_out = [], ch_in = i, ch_eof = eof, ch_writes = replicate n (Accept 2),
     ch_reads = RErr EINTR # replicate n (Avail 1), cn_handle = Some 3, cn_readable = True, cn_writable = True, cn_close_error = None\<rparr>"

lemma ex_conn_ready: "can_read (ex_conn i eof n)" "can_write (ex_conn i eof n)" "can_recv k (ex_conn i eof n) = (k \<le> n)"
  "can_send k (ex_conn i eof n) = (k \<le> n)" "ch_in (ex_conn i eof n) = i" "ch_eof (ex_conn i eof n) = eof"
  "cn_close_error (ex_conn i eof n) = None" "ch_out (ex_conn i eof n) = []"
  by (auto simp: ex_conn_def can_read_def can_write_def can_recv_def can_send_def)

theorem truncated_message_witness:
  "fst (recv_bytes None (ex_conn [0, 0, 0, 2, 7] True 9)) = Inl (OSError 0)"
proof -
  have "frame [7, 8] = [0, 0, 0, 2, 7] @ [8]" "short [7, 8]" by (simp_all add: frame_def pack_i_def short_def)
  from truncated_message [OF this(2) _ _ _ _ this(1), of "ex_conn [0, 0, 0, 2, 7] True 9"] show ?thesis
    by (simp add: ex_conn_ready)
qed

theorem oversized_message_witness:
  "\<exists>c'. recv_bytes (Some 1) (ex_conn [0, 0, 0, 2, 7, 8] False 9) = (Inl (OSError 0), c') \<and>
     recv_bytes None c' = (Inl (OSError 0), c')"
proof -
  have "ch_in (ex_conn [0, 0, 0, 2, 7, 8] False 9) = frame [7, 8] @ []" "short [7, 8]"
    by (simp_all add: frame_def pack_i_def short_def ex_conn_ready)
  from oversized_message [OF this(2) _ _ this(1), of 0 1 None] show ?thesis
    by (auto simp: ex_conn_ready)
qed

end
