(* ===== verification/Authentication.thy ===== *)
theory Authentication
  imports Connection
begin

text \<open>
  The public functions of \<open>billiard/connection.py\<close> above the connection: the families of addresses,
  \<open>Listener\<close> and \<open>Client\<close> with the challenge and response of both ends, accepting under
  interruptions, and \<open>wait\<close>. \<open>hmac\<close> is the keyed digest of the standard library and a parameter, as
  are the random challenges.
\<close>

section \<open>Addresses\<close>

datatype family = AF_INET | AF_UNIX | AF_PIPE | AF_Other string

datatype address = AddrTuple string nat | AddrStr string | AddrOther

record platform =
  pl_win32 :: bool
  pl_has_unix :: bool      \<comment> \<open>\<open>hasattr(socket, 'AF_UNIX')\<close>\<close>

definition default_family :: "platform \<Rightarrow> family" where
  "default_family pl = (if pl_win32 pl then AF_PIPE else if pl_has_unix pl then AF_UNIX else AF_INET)"

text \<open>\<open>temp\<close> gives a fresh name for a family.\<close>

definition arbitrary_address :: "(family \<Rightarrow> string) \<Rightarrow> family \<Rightarrow> exn + address" where
  "arbitrary_address temp f =
     (case f of AF_INET \<Rightarrow> Inr (AddrTuple ''localhost'' 0)
      | AF_UNIX \<Rightarrow> Inr (AddrStr (temp f))
      | AF_PIPE \<Rightarrow> Inr (AddrStr (temp f))
      | _ \<Rightarrow> Inl ValueError)"

definition validate_family :: "platform \<Rightarrow> family \<Rightarrow> exn option" where
  "validate_family pl f =
     (if \<not> pl_win32 pl \<and> f = AF_PIPE then Some ValueError
      else if pl_win32 pl \<and> f = AF_UNIX then (if pl_has_unix pl then None else Some ValueError)
      else None)"

definition address_type :: "address \<Rightarrow> exn + family" where
  "address_type a =
     (case a of AddrTuple _ _ \<Rightarrow> Inr AF_INET
      | AddrStr s \<Rightarrow> if take 2 s = [CHR 0x5C, CHR 0x5C] then Inr AF_PIPE else Inr AF_UNIX
      | AddrOther \<Rightarrow> Inl ValueError)"

section \<open>Challenge and response\<close>

definition ascii :: "string \<Rightarrow> bytes" where
  "ascii s = map of_char s"

definition CHALLENGE :: bytes where "CHALLENGE = ascii ''#CHALLENGE#''"
definition WELCOME :: bytes where "WELCOME = ascii ''#WELCOME#''"
definition FAILURE :: bytes where "FAILURE = ascii ''#FAILURE#''"
definition MESSAGE_LENGTH :: nat where "MESSAGE_LENGTH = 20"

text \<open>\<open>message\<close> is what \<open>os.urandom(MESSAGE_LENGTH)\<close> gives.\<close>

definition deliver_challenge :: "(bytes \<Rightarrow> bytes \<Rightarrow> bytes) \<Rightarrow> bytes \<Rightarrow> bytes \<Rightarrow> (conn, unit) act" where
  "deliver_challenge hmac message authkey =
     bindA (send_bytes (CHALLENGE @ message) 0 None) (\<lambda>_.
     let digest = hmac authkey message in
     bindA (recv_bytes (Some 256)) (\<lambda>response.
       if response = digest then send_bytes WELCOME 0 None
       else bindA (send_bytes FAILURE 0 None) (\<lambda>_. raise AuthenticationError)))"

definition answer_challenge :: "(bytes \<Rightarrow> bytes \<Rightarrow> bytes) \<Rightarrow> bytes \<Rightarrow> (conn, unit) act" where
  "answer_challenge hmac authkey =
     bindA (recv_bytes (Some 256)) (\<lambda>message.
     if take (length CHALLENGE) message \<noteq> CHALLENGE then raise AssertionError
     else
       let digest = hmac authkey (drop (length CHALLENGE) message) in
       bindA (send_bytes digest 0 None) (\<lambda>_.
       bindA (recv_bytes (Some 256)) (\<lambda>response.
         if response \<noteq> WELCOME then raise AuthenticationError else ret ())))"

section \<open>Listener and Client\<close>

record listener =
  li_open :: bool
  li_family :: family
  li_address :: address
  li_authkey :: "bytes option"

text \<open>
  \<open>Listener.__init__\<close>; \<open>bind\<close> gives the error of binding the socket. An \<open>authkey\<close> that is not
  a byte string is \<open>Some None\<close>; the check comes after the socket is bound.
\<close>

definition Listener :: "platform \<Rightarrow> (family \<Rightarrow> string) \<Rightarrow> (family \<Rightarrow> address \<Rightarrow> exn option) \<Rightarrow>
    address option \<Rightarrow> family option \<Rightarrow> bytes option option \<Rightarrow> exn + listener" where
  "Listener pl temp bind address family authkey =
     (case (case family of Some f \<Rightarrow> Inr f
            | None \<Rightarrow> (case address of Some a \<Rightarrow> address_type a | None \<Rightarrow> Inr (default_family pl))) of
        Inl e \<Rightarrow> Inl e
      | Inr f \<Rightarrow> (case (case address of Some a \<Rightarrow> Inr a | None \<Rightarrow> arbitrary_address temp f) of
          Inl e \<Rightarrow> Inl e
        | Inr a \<Rightarrow> (case validate_family pl f of Some e \<Rightarrow> Inl e
          | None \<Rightarrow> (case bind f a of Some e \<Rightarrow> Inl e
            | None \<Rightarrow> (if authkey = Some None then Inl TypeError
                       else Inr \<lparr>li_open = True, li_family = f, li_address = a,
                                 li_authkey = (case authkey of None \<Rightarrow> None | Some k \<Rightarrow> k)\<rparr>)))))"

text \<open>\<open>SocketListener.accept\<close> repeats an interrupted call; the script is what the calls answer.\<close>

fun socket_accept :: "(exn + 'c) list \<Rightarrow> exn + 'c" where
  "socket_accept [] = Inl Blocks"
| "socket_accept (Inr s # _) = Inr s"
| "socket_accept (Inl e # rs) = (if e = OSError EINTR then socket_accept rs else Inl e)"

text \<open>\<open>if self._authkey\<close>: an empty key does not count. The result is what happened to the connection.\<close>

definition authenticate_client :: "(bytes \<Rightarrow> bytes \<Rightarrow> bytes) \<Rightarrow> bytes \<Rightarrow> bytes option \<Rightarrow> (conn, unit) act" where
  "authenticate_client hmac message authkey =
     (case authkey of None \<Rightarrow> ret ()
      | Some k \<Rightarrow> if k = [] then ret ()
          else bindA (deliver_challenge hmac message k) (\<lambda>_. answer_challenge hmac k))"

definition listener_accept :: "(bytes \<Rightarrow> bytes \<Rightarrow> bytes) \<Rightarrow> bytes \<Rightarrow> (exn + conn) list \<Rightarrow> listener \<Rightarrow> exn + (exn + unit) \<times> conn" where
  "listener_accept hmac message calls l =
     (if \<not> li_open l then Inl (OSError 0)
      else (case socket_accept calls of Inl e \<Rightarrow> Inl e
            | Inr c \<Rightarrow> Inr (authenticate_client hmac message (li_authkey l) c)))"

definition listener_close :: "listener \<Rightarrow> listener" where
  "listener_close l = l\<lparr>li_open := False\<rparr>"

definition authenticate_listener :: "(bytes \<Rightarrow> bytes \<Rightarrow> bytes) \<Rightarrow> bytes \<Rightarrow> bytes option \<Rightarrow> (conn, unit) act" where
  "authenticate_listener hmac message authkey =
     (case authkey of None \<Rightarrow> ret ()
      | Some k \<Rightarrow> bindA (answer_challenge hmac k) (\<lambda>_. deliver_challenge hmac message k))"

definition Client :: "platform \<Rightarrow> (bytes \<Rightarrow> bytes \<Rightarrow> bytes) \<Rightarrow> bytes \<Rightarrow> (address \<Rightarrow> exn + conn) \<Rightarrow>
    address \<Rightarrow> family option \<Rightarrow> bytes option option \<Rightarrow> exn + (exn + unit) \<times> conn" where
  "Client pl hmac message connect address family authkey =
     (case (case family of Some f \<Rightarrow> Inr f | None \<Rightarrow> address_type address) of
        Inl e \<Rightarrow> Inl e
      | Inr f \<Rightarrow> (case validate_family pl f of Some e \<Rightarrow> Inl e
          | None \<Rightarrow> (case connect address of Inl e \<Rightarrow> Inl e
            | Inr c \<Rightarrow> (if authkey = Some None then Inl TypeError
                        else Inr (authenticate_listener hmac message (case authkey of None \<Rightarrow> None | Some k \<Rightarrow> k) c)))))"

section \<open>Waiting for connections\<close>

text \<open>
  \<open>wait\<close>: what each call of \<open>_poll\<close> gives, and the clock after it. Times are in
  milliseconds. The second result is the timeout passed to each call; \<open>select.poll\<close> waits without
  limit when it is negative.
\<close>

datatype poll_res = Ready "nat list" | PollErr exn

fun wait_loop :: "int option \<Rightarrow> int \<Rightarrow> (poll_res \<times> int) list \<Rightarrow> (exn + nat list) \<times> int option list" where
  "wait_loop timeout deadline [] = (Inl Blocks, [timeout])"
| "wait_loop timeout deadline ((r, now) # rs) =
     (case r of
        Ready xs \<Rightarrow> (Inr xs, [timeout])
      | PollErr e \<Rightarrow>
          if e \<noteq> OSError EINTR then (Inl e, [timeout])
          else let (res, ts) = wait_loop (map_option (\<lambda>_. deadline - now) timeout) deadline rs in (res, timeout # ts))"

definition conn_wait :: "int option \<Rightarrow> int \<Rightarrow> (poll_res \<times> int) list \<Rightarrow> (exn + nat list) \<times> int option list" where
  "conn_wait timeout now rs =
     (case timeout of
        None \<Rightarrow> wait_loop None 0 rs
      | Some t \<Rightarrow>
          if t \<le> 0 then
            (case rs of [] \<Rightarrow> (Inl Blocks, [Some 0])
             | (Ready xs, _) # _ \<Rightarrow> (Inr xs, [Some 0]) | (PollErr e, _) # _ \<Rightarrow> (Inl e, [Some 0]))
          else wait_loop (Some t) (now + t) rs)"

section \<open>Properties of the addresses\<close>

text \<open>Every family that has an address gives one of its own type.\<close>

lemma arbitrary_address_type:
  assumes "arbitrary_address temp f = Inr a" and "take 2 (temp AF_PIPE) = [CHR 0x5C, CHR 0x5C]"
    and "take 2 (temp AF_UNIX) \<noteq> [CHR 0x5C, CHR 0x5C]"
  shows "address_type a = Inr f"
  using assms by (cases f) (auto simp: arbitrary_address_def address_type_def)

lemma listener_default_valid: "validate_family pl (default_family pl) = None"
  by (simp add: validate_family_def default_family_def)

section \<open>Properties of the authentication\<close>

text \<open>The messages one side writes when it reads those of the other side.\<close>

definition conn_frames :: "bytes list \<Rightarrow> bytes" where
  "conn_frames ms = concat (map frame ms)"

text \<open>A connection that works: what it has written, what it will read, and how much of both it can still do.\<close>

definition session :: "conn \<Rightarrow> bytes \<Rightarrow> bytes \<Rightarrow> nat \<Rightarrow> nat \<Rightarrow> bool" where
  "session c out inp n k \<longleftrightarrow>
     can_read c \<and> can_write c \<and> can_send n c \<and> can_recv k c \<and> ch_out c = out \<and> ch_in c = inp"

lemma ascii_lengths [simp]: "length CHALLENGE = 11" "length WELCOME = 9" "length FAILURE = 9"
  by (simp_all add: CHALLENGE_def WELCOME_def FAILURE_def ascii_def)

lemma welcome_failure: "WELCOME \<noteq> FAILURE"
  by (simp add: WELCOME_def FAILURE_def ascii_def)

lemma length_frame: "short b \<Longrightarrow> length (frame b) = 4 + length b"
  by (rule short_pack)

lemma session_send:
  assumes "short b" "session c out inp (4 + length b + n) k"
  shows "\<exists>c'. send_bytes b 0 None c = (Inr (), c') \<and> session c' (out @ frame b) inp n k"
proof -
  from send_bytes_works [of b c n] assms obtain c' where "send_bytes b 0 None c = (Inr (), c')" "ch_out c' = ch_out c @ frame b"
    "can_send n c'" "ch_in c' = ch_in c" "ch_reads c' = ch_reads c" "chan.more c' = chan.more c"
    by (auto simp: session_def length_frame)
  then show ?thesis using assms(2) more_same [of c' c] can_recv_cong [of c' c] by (auto simp: session_def)
qed

lemma session_recv:
  assumes "length b \<le> 256" "session c out (frame b @ rest) n (4 + length b + k)"
  shows "\<exists>c'. recv_bytes (Some 256) c = (Inr b, c') \<and> session c' out rest n k"
proof -
  have b: "short b" using assms(1) by (simp add: short_def)
  from recv_bytes_works [of b c k rest "Some 256"] assms b obtain c' where "recv_bytes (Some 256) c = (Inr b, c')" "ch_in c' = rest"
    "can_recv k c'" "ch_out c' = ch_out c" "ch_writes c' = ch_writes c" "chan.more c' = chan.more c"
    by (auto simp: session_def length_frame)
  then show ?thesis using assms(2) more_same [of c' c] can_send_cong [of c' c] by (auto simp: session_def)
qed

lemma short_small: "length b \<le> 256 \<Longrightarrow> short b"
  by (simp add: short_def)

lemma deliver_works:
  assumes m: "length m \<le> 200" and r: "length r \<le> 256"
    and c: "session c out (frame r @ rest) (15 + length m + (13 + n)) (4 + length r + k)"
  shows "\<exists>c'. deliver_challenge hmac m key c = (if r = hmac key m then Inr () else Inl AuthenticationError, c') \<and>
    session c' (out @ frame (CHALLENGE @ m) @ frame (if r = hmac key m then WELCOME else FAILURE)) rest n k"
proof -
  from session_send [of "CHALLENGE @ m" c out _ "13 + n"] m c obtain c1 where c1: "send_bytes (CHALLENGE @ m) 0 None c = (Inr (), c1)"
    "session c1 (out @ frame (CHALLENGE @ m)) (frame r @ rest) (13 + n) (4 + length r + k)"
    by (auto simp: short_small add.assoc)
  from session_recv [OF r c1(2)] obtain c2 where c2: "recv_bytes (Some 256) c1 = (Inr r, c2)"
    "session c2 (out @ frame (CHALLENGE @ m)) rest (13 + n) k" by blast
  let ?w = "if r = hmac key m then WELCOME else FAILURE"
  have "session c2 (out @ frame (CHALLENGE @ m)) rest (4 + length ?w + n) k" "short ?w" using c2 by (simp_all add: short_small)
  from session_send [OF this(2,1)] obtain c3 where c3: "send_bytes ?w 0 None c2 = (Inr (), c3)"
    "session c3 (out @ frame (CHALLENGE @ m) @ frame ?w) rest n k" by auto
  then show ?thesis using c1 c2 by (cases "r = hmac key m") (auto simp: deliver_challenge_def act_defs Let_def)
qed

lemma answer_works:
  assumes m: "length m \<le> 200" and w: "length w \<le> 256" and d: "length (hmac key m) \<le> 256"
    and c: "session c out (frame (CHALLENGE @ m) @ frame w @ rest) (4 + length (hmac key m) + n) (15 + length m + (4 + length w + k))"
  shows "\<exists>c'. answer_challenge hmac key c = (if w = WELCOME then Inr () else Inl AuthenticationError, c') \<and>
    session c' (out @ frame (hmac key m)) rest n k"
proof -
  from session_recv [of "CHALLENGE @ m" c out _ _ "4 + length w + k"] m c obtain c1 where c1: "recv_bytes (Some 256) c = (Inr (CHALLENGE @ m), c1)"
    "session c1 out (frame w @ rest) (4 + length (hmac key m) + n) (4 + length w + k)" by (auto simp: add.assoc)
  from session_send [OF short_small [OF d] c1(2)] obtain c2 where c2: "send_bytes (hmac key m) 0 None c1 = (Inr (), c2)"
    "session c2 (out @ frame (hmac key m)) (frame w @ rest) n (4 + length w + k)" by blast
  from session_recv [OF w c2(2)] obtain c3 where "recv_bytes (Some 256) c2 = (Inr w, c3)"
    "session c3 (out @ frame (hmac key m)) rest n k" by blast
  then show ?thesis using c1 c2 by (auto simp: answer_challenge_def act_defs Let_def)
qed

text \<open>
  C23. The two ends of a connection authenticate each other: when each reads what the other writes,
  both succeed exactly when the digests under the two keys agree for both challenges; otherwise both
  raise \<open>AuthenticationError\<close>, and neither is left waiting. The random challenges have the length
  \<open>MESSAGE_LENGTH\<close>, and a digest is 16 bytes long, as those of \<open>md5\<close> are.
\<close>

theorem authentication:
  assumes m: "length m1 = MESSAGE_LENGTH" "length m2 = MESSAGE_LENGTH" and d: "\<And>k m. length (hmac k m) = 16"
    and k: "kl \<noteq> []"
    and l: "session l [] (conn_frames (if hmac kl m1 = hmac kc m1
        then [hmac kc m1, CHALLENGE @ m2, if hmac kl m2 = hmac kc m2 then WELCOME else FAILURE] else [hmac kc m1])) 200 200"
    and c: "session c [] (conn_frames (if hmac kl m1 = hmac kc m1
        then [CHALLENGE @ m1, WELCOME, hmac kl m2] else [CHALLENGE @ m1, FAILURE])) 200 200"
  shows "\<exists>l' c'. authenticate_client hmac m1 (Some kl) l =
      (if hmac kl m1 = hmac kc m1 \<and> hmac kl m2 = hmac kc m2 then Inr () else Inl AuthenticationError, l') \<and>
    authenticate_listener hmac m2 (Some kc) c =
      (if hmac kl m1 = hmac kc m1 \<and> hmac kl m2 = hmac kc m2 then Inr () else Inl AuthenticationError, c') \<and>
    ch_out l' = ch_in c \<and> ch_out c' = ch_in l"
proof -
  note m = m [unfolded MESSAGE_LENGTH_def]
  let ?g = "hmac kl m1 = hmac kc m1" and ?h = "hmac kl m2 = hmac kc m2"
  let ?w = "if ?h then WELCOME else FAILURE"
  have wl: "length ?w = 9" "length (if ?g then WELCOME else FAILURE) = 9" by simp_all
  have w: "(if ?g then WELCOME else FAILURE) = WELCOME \<longleftrightarrow> ?g" "?w = WELCOME \<longleftrightarrow> ?h" using welcome_failure by auto
  define rl where "rl = (if ?g then frame (CHALLENGE @ m2) @ frame ?w else [])"
  have l0: "session l [] (frame (hmac kc m1) @ rl) (15 + length m1 + (13 + 152)) (4 + length (hmac kc m1) + 180)"
    using l m d by (cases ?g) (simp_all add: conn_frames_def rl_def)
  from deliver_works [OF _ _ l0, of hmac kl] m d obtain l1 where l1: "deliver_challenge hmac m1 kl l =
      (if ?g then Inr () else Inl AuthenticationError, l1)"
    "session l1 (frame (CHALLENGE @ m1) @ frame (if ?g then WELCOME else FAILURE)) rl 152 180" by (auto simp: eq_commute)
  define rc where "rc = (if ?g then frame (hmac kl m2) else [])"
  have c0: "session c [] (frame (CHALLENGE @ m1) @ frame (if ?g then WELCOME else FAILURE) @ rc)
      (4 + length (hmac kc m1) + 180) (15 + length m1 + (4 + length (if ?g then WELCOME else FAILURE) + 152))"
    using c m d by (cases ?g) (simp_all add: conn_frames_def rc_def)
  from answer_works [where hmac = hmac and key = kc and m = m1, OF _ _ _ c0] m d wl obtain c1 where c1: "answer_challenge hmac kc c = (if ?g then Inr () else Inl AuthenticationError, c1)"
    "session c1 (frame (hmac kc m1)) rc 180 152" unfolding w by auto
  show ?thesis
  proof (cases ?g)
    case False
    then show ?thesis using l1 c1 l c k by (auto simp: authenticate_client_def authenticate_listener_def act_defs
      session_def conn_frames_def)
  next
    case True
    have "session l1 (frame (CHALLENGE @ m1) @ frame WELCOME) (frame (CHALLENGE @ m2) @ frame ?w @ [])
        (4 + length (hmac kl m2) + 132) (15 + length m2 + (4 + length ?w + 132))"
      using l1(2) True m d wl by (simp add: rl_def)
    from answer_works [where hmac = hmac and key = kl and m = m2, OF _ _ _ this] m d wl obtain l2 where l2: "answer_challenge hmac kl l1 = (if ?h then Inr () else Inl AuthenticationError, l2)"
      "ch_out l2 = frame (CHALLENGE @ m1) @ frame WELCOME @ frame (hmac kl m2)" unfolding w by (auto simp: session_def)
    have "session c1 (frame (hmac kc m1)) (frame (hmac kl m2) @ []) (15 + length m2 + (13 + 132)) (4 + length (hmac kl m2) + 132)"
      using c1(2) True m d by (simp add: rc_def)
    from deliver_works [OF _ _ this, of hmac kc] m d obtain c2 where c2: "deliver_challenge hmac m2 kc c1 =
        (if ?h then Inr () else Inl AuthenticationError, c2)"
      "ch_out c2 = frame (hmac kc m1) @ frame (CHALLENGE @ m2) @ frame ?w" by (auto simp: session_def)
    show ?thesis using l1 c1 l2 c2 l c k True by (auto simp: authenticate_client_def authenticate_listener_def act_defs
      session_def conn_frames_def)
  qed
qed

lemma ex_session: "session (ex_conn inp False n) [] inp k j \<longleftrightarrow> k \<le> n \<and> j \<le> n"
  by (simp add: session_def ex_conn_ready)

theorem authentication_witness:
  "\<exists>l' c'. authenticate_client (\<lambda>k m. take 16 (k @ m @ replicate 16 0)) (replicate 20 1) (Some [7])
      (ex_conn (conn_frames [take 16 (7 # replicate 20 1 @ replicate 16 0), CHALLENGE @ replicate 20 2, WELCOME]) False 200) = (Inr (), l') \<and>
    authenticate_listener (\<lambda>k m. take 16 (k @ m @ replicate 16 0)) (replicate 20 2) (Some [7])
      (ex_conn (conn_frames [CHALLENGE @ replicate 20 1, WELCOME, take 16 (7 # replicate 20 2 @ replicate 16 0)]) False 200) = (Inr (), c')"
proof -
  let ?h = "\<lambda>(k :: bytes) (m :: bytes). take 16 (k @ m @ replicate 16 (0 :: 8 word))"
  have m: "length (replicate 20 (1 :: 8 word)) = MESSAGE_LENGTH" "length (replicate 20 (2 :: 8 word)) = MESSAGE_LENGTH"
    by (simp_all add: MESSAGE_LENGTH_def)
  have d: "length (?h k m) = 16" for k m by simp
  let ?l = "ex_conn (conn_frames [?h [7] (replicate 20 1), CHALLENGE @ replicate 20 2, WELCOME]) False 200"
  let ?c = "ex_conn (conn_frames [CHALLENGE @ replicate 20 1, WELCOME, ?h [7] (replicate 20 2)]) False 200"
  have "session ?l [] (conn_frames (if ?h [7] (replicate 20 1) = ?h [7] (replicate 20 1)
        then [?h [7] (replicate 20 1), CHALLENGE @ replicate 20 2, if ?h [7] (replicate 20 2) = ?h [7] (replicate 20 2) then WELCOME else FAILURE]
        else [?h [7] (replicate 20 1)])) 200 200"
    "session ?c [] (conn_frames (if ?h [7] (replicate 20 1) = ?h [7] (replicate 20 1)
        then [CHALLENGE @ replicate 20 1, WELCOME, ?h [7] (replicate 20 2)] else [CHALLENGE @ replicate 20 1, FAILURE])) 200 200"
    by (simp_all only: ex_session refl if_True order_refl simp_thms)
  from authentication [where hmac = ?h and kl = "[7]" and kc = "[7]", OF m d _ this] show ?thesis
    by (simp only: refl simp_thms if_True append_Cons append_Nil list.distinct) blast
qed

text \<open>
  An empty key is no key for the listener and a key for the client: the listener accepts at once
  and writes nothing, while the client waits for a challenge.
\<close>

theorem empty_key_hangs:
  "authenticate_client hmac m1 (Some []) l = (Inr (), l) \<and>
   fst (authenticate_listener hmac m2 (Some []) (ex_conn (ch_out (ex_conn [] False n)) False 1)) = Inl Blocks"
proof -
  let ?c = "ex_conn [] False 1"
  have r: "recv_all 4 ?c = (Inl Blocks, ?c\<lparr>ch_reads := [Avail 1]\<rparr>)"
    by (simp add: recv_all_def ex_conn_def recv_loop.simps os_read_def EINTR_def)
  have "fst (recv_bytes (Some 256) ?c) = Inl Blocks"
    using r by (simp add: recv_bytes_def check_closed_def check_readable_def recv_frame_def act_defs ex_conn_def)
  then have "fst (answer_challenge hmac [] ?c) = Inl Blocks"
    by (auto simp: answer_challenge_def act_defs split: prod.split)
  then have "fst (authenticate_listener hmac m2 (Some []) ?c) = Inl Blocks"
    by (auto simp: authenticate_listener_def act_defs split: prod.split)
  then show ?thesis by (simp add: authenticate_client_def act_defs ex_conn_ready)
qed

section \<open>Properties of wait\<close>

text \<open>
  \<open>wait\<close> with a timeout goes on after interruptions with what is left of it: the \<open>i\<close>-th
  call gets the deadline less the clock after the call before. Nothing keeps that from being negative,
  and \<open>select.poll\<close> takes a negative timeout for none.
\<close>

theorem wait_timeouts:
  assumes "0 < t"
  shows "conn_wait (Some t) now (map (\<lambda>c. (PollErr (OSError EINTR), c)) clocks @ [(Ready xs, c')]) =
    (Inr xs, Some t # map (\<lambda>c. Some (now + t - c)) clocks)"
proof -
  have "wait_loop (Some u) d (map (\<lambda>c. (PollErr (OSError EINTR), c)) clocks @ [(Ready xs, c')]) =
      (Inr xs, Some u # map (\<lambda>c. Some (d - c)) clocks)" for u d
    by (induction clocks arbitrary: u) simp_all
  then show ?thesis using assms by (simp add: conn_wait_def)
qed

theorem wait_timeouts_witness:
  "conn_wait (Some 50) 1000 [(PollErr (OSError EINTR), 1020), (PollErr (OSError EINTR), 1070), (Ready [3], 2000)] =
     (Inr [3], [Some 50, Some 30, Some (- 20)])"
  using wait_timeouts [of 50 1000 "[1020, 1070]" "[3]" 2000] by simp

end
