(* ===== verification/Reduction.thy ===== *)
theory Reduction
  imports Connection
begin

text \<open>
  \<open>billiard/reduction.py\<close> (POSIX part): file descriptors sent as ancillary data of a byte over a
  UNIX socket, the table of reducers of \<open>ForkingPickler\<close>, the reducers themselves and the choice of
  \<open>DupFd\<close>. Descriptors are C ints, here 32-bit words; what the kernel does with them, which numbers it
  gives them in the receiving process, is a parameter.
\<close>

section \<open>Arrays of descriptors\<close>

type_synonym fd = "32 word"

text \<open>\<open>array.array('i', fds)\<close> as bytes: four bytes each, in the byte order of the machine (the least significant first).\<close>

definition fd_bytes :: "fd \<Rightarrow> bytes" where
  "fd_bytes w = [ucast w, ucast (drop_bit 8 w), ucast (drop_bit 16 w), ucast (drop_bit 24 w)]"

definition bytes_fd :: "8 word \<Rightarrow> 8 word \<Rightarrow> 8 word \<Rightarrow> 8 word \<Rightarrow> fd" where
  "bytes_fd a b c d = ucast a OR push_bit 8 (ucast b) OR push_bit 16 (ucast c) OR push_bit 24 (ucast d)"

text \<open>\<open>a.frombytes\<close>, which refuses a part of an item.\<close>

fun frombytes :: "bytes \<Rightarrow> exn + fd list" where
  "frombytes [] = Inr []"
| "frombytes (a # b # c # d # bs) = (case frombytes bs of Inl e \<Rightarrow> Inl e | Inr fs \<Rightarrow> Inr (bytes_fd a b c d # fs))"
| "frombytes _ = Inl ValueError"

definition tobytes :: "fd list \<Rightarrow> bytes" where
  "tobytes fds = concat (map fd_bytes fds)"

section \<open>Sending and receiving descriptors\<close>

text \<open>What \<open>sendmsg\<close> is given: the bytes and the array; what \<open>recvmsg\<close> returns: the bytes and the control messages, each
  with whether it is \<open>SOL_SOCKET\<close>/\<open>SCM_RIGHTS\<close>.\<close>

record rmsg =
  rm_msg :: bytes
  rm_anc :: "(bool \<times> bytes) list"

text \<open>
  \<open>ack\<close> is \<open>ACKNOWLEDGE\<close>, true on macOS; \<open>answer\<close> is what \<open>sock.recv(1)\<close> gives there, \<open>sent\<close> the error of
  \<open>sendmsg\<close>. The result is the message on the wire.
\<close>

definition sendfds :: "bool \<Rightarrow> exn option \<Rightarrow> bytes \<Rightarrow> fd list \<Rightarrow> (exn + unit) \<times> (bytes \<times> fd list) option" where
  "sendfds ack sent answer fds =
     (case sent of Some e \<Rightarrow> (Inl e, None)
      | None \<Rightarrow> (if ack \<and> answer \<noteq> [65] then Inl RuntimeError else Inr (), Some ([word_of_nat (length fds mod 256)], fds)))"

text \<open>What \<open>recvfds\<close> makes of the control messages. The \<open>ValueError\<close> of a length that does not fit and the
  \<open>IndexError\<close> of an empty message are caught.\<close>

definition parse_anc :: "rmsg \<Rightarrow> exn + fd list" where
  "parse_anc m =
     (case rm_anc m of
        [(rights, data)] \<Rightarrow>
          if \<not> rights then Inl RuntimeError
          else if length data mod 4 \<noteq> 0 then Inl RuntimeError
          else (case frombytes data of
              Inl e \<Rightarrow> Inl RuntimeError
            | Inr a \<Rightarrow>
                (case rm_msg m of
                   [] \<Rightarrow> Inl RuntimeError
                 | b # _ \<Rightarrow> if int (length a) mod 256 = uint b then Inr a else Inl AssertionError))
      | _ \<Rightarrow> Inl RuntimeError)"

text \<open>The result of \<open>recvfds\<close> on what \<open>recvmsg(1, CMSG_LEN(4 * size))\<close> has returned, and what it sends back; \<open>send_error\<close>
  is the error of the \<open>send\<close> of the acknowledgement.\<close>

definition recvfds_of :: "bool \<Rightarrow> exn option \<Rightarrow> rmsg \<Rightarrow> (exn + fd list) \<times> bytes" where
  "recvfds_of ack send_error m =
     (if rm_msg m = [] \<and> rm_anc m = [] then (Inl EOFError, [])
      else if ack then (case send_error of Some e \<Rightarrow> (Inl e, []) | None \<Rightarrow> (parse_anc m, [65]))
      else (parse_anc m, []))"

text \<open>
  The kernel between the two: it installs the descriptors in the receiving process under new numbers (\<open>inst\<close>), as
  many as fit in the receiver's buffer. A call without descriptors carries no control message.
\<close>

definition delivered :: "(fd \<Rightarrow> fd) \<Rightarrow> nat \<Rightarrow> bytes \<times> fd list \<Rightarrow> rmsg" where
  "delivered inst n wire =
     \<lparr>rm_msg = take 1 (fst wire), rm_anc = (if snd wire = [] then [] else [(True, tobytes (map inst (take n (snd wire))))])\<rparr>"

text \<open>\<open>wire\<close> is \<open>None\<close> when the sender has closed its end without a message.\<close>

definition recvfds :: "bool \<Rightarrow> (fd \<Rightarrow> fd) \<Rightarrow> nat \<Rightarrow> (bytes \<times> fd list) option \<Rightarrow> (exn + fd list) \<times> bytes" where
  "recvfds ack inst n wire =
     recvfds_of ack None (case wire of None \<Rightarrow> \<lparr>rm_msg = [], rm_anc = []\<rparr> | Some w \<Rightarrow> delivered inst n w)"

text \<open>\<open>send_handle\<close> and \<open>recv_handle\<close>, over a duplicate of the connection's socket.\<close>

definition send_handle :: "bool \<Rightarrow> exn option \<Rightarrow> bytes \<Rightarrow> fd \<Rightarrow> (exn + unit) \<times> (bytes \<times> fd list) option" where
  "send_handle ack sent answer h = sendfds ack sent answer [h]"

definition recv_handle :: "bool \<Rightarrow> (fd \<Rightarrow> fd) \<Rightarrow> (bytes \<times> fd list) option \<Rightarrow> exn + fd" where
  "recv_handle ack inst wire =
     (case fst (recvfds ack inst 1 wire) of Inl e \<Rightarrow> Inl e | Inr [] \<Rightarrow> Inl IndexError | Inr (h # _) \<Rightarrow> Inr h)"

lemma bytes_fd_bytes: "bytes_fd (ucast w) (ucast (drop_bit 8 w)) (ucast (drop_bit 16 w)) (ucast (drop_bit 24 w)) = w"
proof (rule bit_word_eqI)
  fix n assume n: "n < LENGTH(32)"
  consider "n < 8" | "8 \<le> n" "n < 16" | "16 \<le> n" "n < 24" | "24 \<le> n" using n by linarith
  then show "bit (bytes_fd (ucast w) (ucast (drop_bit 8 w)) (ucast (drop_bit 16 w)) (ucast (drop_bit 24 w))) n = bit w n"
    using n by cases (auto simp: bytes_fd_def bit_simps)
qed

lemma length_tobytes [simp]: "length (tobytes fds) = 4 * length fds"
  by (induction fds) (auto simp: tobytes_def fd_bytes_def)

lemma frombytes_tobytes [simp]: "frombytes (tobytes fds) = Inr fds"
  by (induction fds) (auto simp: tobytes_def fd_bytes_def bytes_fd_bytes)

lemma recvfds_sent:
  assumes "fds \<noteq> []"
  shows "recvfds ack inst n (Some ([word_of_nat (length fds mod 256)], fds)) =
    (if min n (length fds) mod 256 = length fds mod 256 then Inr (map inst (take n fds)) else Inl AssertionError,
     if ack then [65] else [])"
proof -
  have "uint (word_of_nat (length fds mod 256) :: 8 word) = int (length fds mod 256)"
    by (simp add: uint_nat unat_of_nat take_bit_eq_mod)
  moreover have "int k mod 256 = int (k mod 256)" for k by (simp add: zmod_int)
  ultimately show ?thesis using assms
    by (auto simp: recvfds_def delivered_def recvfds_of_def parse_anc_def min.commute)
qed

text \<open>
  C37. Descriptors sent with \<open>sendfds\<close> and received with \<open>recvfds\<close> arrive in order, with the acknowledgement and
  without it: the sender returns, and the receiver gets the numbers the kernel has given to all of them when its
  buffer is large enough; with a smaller one it fails, unless what is missing is a multiple of 256.
\<close>

theorem fds_arrive:
  assumes "fds \<noteq> []"
  shows "\<exists>wire. sendfds ack None (snd (recvfds ack inst n wire)) fds = (Inr (), wire) \<and>
    fst (recvfds ack inst n wire) =
      (if length fds \<le> n then Inr (map inst fds)
       else if 256 dvd length fds - n then Inr (map inst (take n fds)) else Inl AssertionError)"
proof -
  have "n mod 256 = length fds mod 256 \<longleftrightarrow> 256 dvd length fds - n" if "n < length fds"
    using that by (metis less_imp_le mod_eq_dvd_iff_nat)
  then show ?thesis using recvfds_sent [OF assms, of ack inst n]
    by (intro exI [of _ "Some ([word_of_nat (length fds mod 256)], fds)"]) (auto simp: sendfds_def min_def)
qed

theorem fds_arrive_witness:
  "\<exists>wire. sendfds True None (snd (recvfds True (\<lambda>w. w + 10) 2 wire)) [3, 5] = (Inr (), wire) \<and>
    fst (recvfds True (\<lambda>w. w + 10) 2 wire) = Inr [13, 15]"
  using fds_arrive [of "[3, 5]" True "\<lambda>w. w + 10" 2] by simp

lemma recv_handle_sent: "recv_handle ack inst (snd (send_handle ack None answer h)) = Inr (inst h)"
  using recvfds_sent [of "[h]" ack inst 1] by (simp add: recv_handle_def send_handle_def sendfds_def)

lemma recv_handle_closed: "recv_handle ack inst None = Inl EOFError"
  by (simp add: recv_handle_def recvfds_def recvfds_of_def)

section \<open>Reducers\<close>

text \<open>The class variable \<open>_extra_reducers\<close>; every pickler copies \<open>copyreg\<close>'s table and the class's when it is made.\<close>

type_synonym ('t, 'r) table = "'t \<rightharpoonup> 'r"

definition register :: "'t \<Rightarrow> 'r \<Rightarrow> ('t, 'r) table \<Rightarrow> ('t, 'r) table" where
  "register ty reduce extra = extra(ty \<mapsto> reduce)"

definition new_pickler :: "('t, 'r) table \<Rightarrow> ('t, 'r) table \<Rightarrow> ('t, 'r) table" where
  "new_pickler copyreg extra = copyreg ++ extra"

lemma pickler_finds_registered: "new_pickler copyreg (register ty r extra) ty = Some r"
  by (simp add: new_pickler_def register_def)

lemma pickler_finds_other: "ty \<noteq> ty' \<Longrightarrow> new_pickler copyreg (register ty r extra) ty' = new_pickler copyreg extra ty'"
  by (simp add: new_pickler_def register_def map_add_def)

text \<open>The objects with a reducer here, over references \<open>'o\<close>; a method has a \<open>__self__\<close> or none.\<close>

datatype 'o pobj =
    Method "'o option" 'o string               \<comment> \<open>\<open>__self__\<close>, \<open>__class__\<close>, name\<close>
  | MethodDescriptor 'o string                 \<comment> \<open>\<open>__objclass__\<close>, name\<close>
  | Partial 'o "'o list" "(string \<times> 'o) list option"
  | Socket fd nat nat nat                      \<comment> \<open>descriptor, family, type, protocol\<close>
  | Other 'o

datatype ('o, 'd) reduced =
    Getattr 'o string
  | RebuildPartial 'o "'o list" "(string \<times> 'o) list"
  | RebuildSocket 'd nat nat nat

definition reduce_method :: "'o option \<Rightarrow> 'o \<Rightarrow> string \<Rightarrow> ('o, 'd) reduced" where
  "reduce_method slf cls name = (case slf of None \<Rightarrow> Getattr cls name | Some o1 \<Rightarrow> Getattr o1 name)"

definition reduce_partial :: "'o \<Rightarrow> 'o list \<Rightarrow> (string \<times> 'o) list option \<Rightarrow> ('o, 'd) reduced" where
  "reduce_partial f args kw = RebuildPartial f args (case kw of None \<Rightarrow> [] | Some k \<Rightarrow> k)"

fun reduce :: "(fd \<Rightarrow> exn + 'd) \<Rightarrow> 'o pobj \<Rightarrow> exn + ('o, 'd) reduced" where
  "reduce dupfd (Method slf cls name) = Inr (reduce_method slf cls name)"
| "reduce dupfd (MethodDescriptor cls name) = Inr (Getattr cls name)"
| "reduce dupfd (Partial f args kw) = Inr (reduce_partial f args kw)"
| "reduce dupfd (Socket h fam ty pr) = (case dupfd h of Inl e \<Rightarrow> Inl e | Inr d \<Rightarrow> Inr (RebuildSocket d fam ty pr))"
| "reduce dupfd (Other _) = Inl TypeError"

fun rebuild :: "('o \<Rightarrow> string \<Rightarrow> exn + 'o pobj) \<Rightarrow> ('d \<Rightarrow> exn + fd) \<Rightarrow> ('o, 'd) reduced \<Rightarrow> exn + 'o pobj" where
  "rebuild getattr detach (Getattr o1 name) = getattr o1 name"
| "rebuild getattr detach (RebuildPartial f args kw) = Inr (Partial f args (Some kw))"
| "rebuild getattr detach (RebuildSocket d fam ty pr) = (case detach d of Inl e \<Rightarrow> Inl e | Inr h \<Rightarrow> Inr (Socket h fam ty pr))"

text \<open>A socket is rebuilt on the descriptor that \<open>DupFd\<close> has carried over, with its family, type and protocol.\<close>

lemma socket_rebuilt:
  assumes "dupfd h = Inr d" "detach d = Inr (inst h)"
  shows "\<exists>r. reduce dupfd (Socket h fam ty pr :: 'o pobj) = Inr r \<and> rebuild getattr detach r = Inr (Socket (inst h) fam ty pr)"
  using assms by simp

lemma partial_rebuilt:
  "\<exists>r. reduce dupfd (Partial f args (Some kw)) = Inr r \<and> rebuild getattr detach r = Inr (Partial f args (Some kw))"
  by (simp add: reduce_partial_def)

section \<open>Windows\<close>

text \<open>
  Handles: every process has a table of them, an entry is an object and the rights the handle gives. \<open>wn_opened\<close>
  counts the handles of processes that are open here. \<open>DuplicateHandle\<close> gives the rights asked for, or those of the
  source with the option \<open>DUPLICATE_SAME_ACCESS\<close>.
\<close>

record win =
  wn_table :: "nat \<Rightarrow> nat \<Rightarrow> (nat \<times> nat) option"
  wn_next :: nat
  wn_alive :: "nat list"
  wn_opened :: nat

definition DUPLICATE_CLOSE_SOURCE :: nat where "DUPLICATE_CLOSE_SOURCE = 1"
definition DUPLICATE_SAME_ACCESS :: nat where "DUPLICATE_SAME_ACCESS = 2"

definition OpenProcess :: "nat \<Rightarrow> (win, nat) act" where
  "OpenProcess pid k = (if pid \<in> set (wn_alive k) then (Inr pid, k\<lparr>wn_opened := Suc (wn_opened k)\<rparr>) else (Inl (OSError 87), k))"

definition CloseHandle :: "(win, unit) act" where
  "CloseHandle k = (Inr (), k\<lparr>wn_opened := wn_opened k - 1\<rparr>)"

definition DuplicateHandle :: "nat \<Rightarrow> nat \<Rightarrow> nat \<Rightarrow> nat \<Rightarrow> bool \<Rightarrow> bool \<Rightarrow> (win, nat) act" where
  "DuplicateHandle src h dst access same close_source k =
     (case wn_table k src h of
        None \<Rightarrow> (Inl (OSError 6), k)
      | Some (obj, rights) \<Rightarrow>
          let t = (if close_source then (wn_table k)(src := (wn_table k src)(h := None)) else wn_table k);
              n = wn_next k
          in (Inr n, k\<lparr>wn_table := t(dst := (t dst)(n \<mapsto> (obj, if same then rights else access))), wn_next := Suc n\<rparr>))"

definition duplicate :: "nat \<Rightarrow> nat \<Rightarrow> nat option \<Rightarrow> (win, nat) act" where
  "duplicate me h target = DuplicateHandle me h (case target of None \<Rightarrow> me | Some p \<Rightarrow> p) 0 True False"

definition steal_handle :: "nat \<Rightarrow> nat \<Rightarrow> nat \<Rightarrow> (win, nat) act" where
  "steal_handle me src h =
     bindA (OpenProcess src) (\<lambda>p. finallyA (DuplicateHandle p h me 0 True True) CloseHandle)"

record dup_handle =
  dh_handle :: nat
  dh_access :: nat
  dh_pid :: nat

definition DupHandle :: "nat \<Rightarrow> nat \<Rightarrow> nat \<Rightarrow> nat option \<Rightarrow> (win, dup_handle) act" where
  "DupHandle me h access pid0 =
     (let pid = (case pid0 of None \<Rightarrow> me | Some p \<Rightarrow> p) in
      bindA (OpenProcess pid) (\<lambda>proc.
      bindA (finallyA (DuplicateHandle me h proc access False False) CloseHandle) (\<lambda>n.
      ret \<lparr>dh_handle = n, dh_access = access, dh_pid = pid\<rparr>)))"

definition detach :: "nat \<Rightarrow> dup_handle \<Rightarrow> (win, nat) act" where
  "detach me d =
     (if dh_pid d = me then ret (dh_handle d)
      else bindA (OpenProcess (dh_pid d)) (\<lambda>proc.
        finallyA (DuplicateHandle proc (dh_handle d) me (dh_access d) False True) CloseHandle))"

definition win_send_handle :: "nat \<Rightarrow> nat \<Rightarrow> nat \<Rightarrow> (win, dup_handle) act" where
  "win_send_handle me h destination_pid = DupHandle me h DUPLICATE_SAME_ACCESS (Some destination_pid)"

lemma wp_OpenProcess: "wp (OpenProcess pid) Q E k =
    (if pid \<in> set (wn_alive k) then Q pid (k\<lparr>wn_opened := Suc (wn_opened k)\<rparr>) else E (OSError 87) k)"
  by (simp add: wp_def OpenProcess_def)

lemma wp_CloseHandle: "wp CloseHandle Q E k = Q () (k\<lparr>wn_opened := wn_opened k - 1\<rparr>)"
  by (simp add: wp_def CloseHandle_def)

lemma wp_DuplicateHandle: "wp (DuplicateHandle src h dst access same cs) Q E k =
    (case wn_table k src h of
        None \<Rightarrow> E (OSError 6) k
      | Some (obj, rights) \<Rightarrow>
          let t = (if cs then (wn_table k)(src := (wn_table k src)(h := None)) else wn_table k) in
          Q (wn_next k) (k\<lparr>wn_table := t(dst := (t dst)(wn_next k \<mapsto> (obj, if same then rights else access))), wn_next := Suc (wn_next k)\<rparr>))"
  by (simp add: wp_def DuplicateHandle_def Let_def split: option.split)

text \<open>The handles of an object in a process.\<close>

definition handles :: "win \<Rightarrow> nat \<Rightarrow> nat \<Rightarrow> nat set" where
  "handles k pid obj = {h. \<exists>r. wn_table k pid h = Some (obj, r)}"

text \<open>
  A handle that is wrapped in \<open>DupHandle\<close> for a process, named or not, and detached there leaves one new handle of
  the object in that process, with the rights asked for, none elsewhere besides the sender's own, and no handle of a process open.
\<close>

theorem dup_handle_moves:
  assumes "wn_table k me h = Some (obj, r)" "me \<noteq> you" "{me, you} \<subseteq> set (wn_alive k)" "pid = None \<or> pid = Some you"
    and fresh: "\<forall>p. \<forall>n \<ge> wn_next k. wn_table k p n = None"
  shows "\<exists>d k1 n k2. DupHandle me h access pid k = (Inr d, k1) \<and> detach you d k1 = (Inr n, k2) \<and>
    wn_table k2 you n = Some (obj, access) \<and> n \<notin> handles k you obj \<and>
    (\<forall>p obj'. handles k2 p obj' = (if p = you \<and> obj' = obj then insert n (handles k you obj) else handles k p obj')) \<and>
    wn_opened k2 = wn_opened k"
proof -
  let ?n = "wn_next k"
  have f: "wn_table k p ?n = None" "wn_table k p (Suc ?n) = None" for p using fresh by auto
  have ne: "h \<noteq> ?n" using assms(1) f by auto
  have p: "pid = None \<or> pid = Some you" by (rule assms(4))
  let ?post = "\<lambda>n k2. wn_table k2 you n = Some (obj, access) \<and> n \<notin> handles k you obj \<and>
    (\<forall>p obj'. handles k2 p obj' = (if p = you \<and> obj' = obj then insert n (handles k you obj) else handles k p obj')) \<and>
    wn_opened k2 = wn_opened k"
  have "wp (DupHandle me h access pid) (\<lambda>d k1. wp (detach you d) ?post (\<lambda>_ _. False) k1) (\<lambda>_ _. False) k"
    using p
  proof
    assume p: "pid = None"
    show ?thesis using assms(1-3) f ne unfolding p
      by (auto simp: DupHandle_def detach_def wp_simps wp_OpenProcess wp_CloseHandle wp_DuplicateHandle Let_def handles_def)
  next
    assume p: "pid = Some you"
    show ?thesis using assms(1-3) f ne unfolding p
      by (auto simp: DupHandle_def detach_def wp_simps wp_OpenProcess wp_CloseHandle wp_DuplicateHandle Let_def handles_def)
  qed
  then show ?thesis unfolding wp_total by blast
qed

theorem dup_handle_moves_witness:
  "\<exists>d k1 n k2. DupHandle 1 7 5 (Some 2)
      \<lparr>wn_table = (\<lambda>p h. if p = 1 \<and> h = 7 then Some (30, 6) else None), wn_next = 8, wn_alive = [1, 2], wn_opened = 0\<rparr> = (Inr d, k1) \<and>
    detach 2 d k1 = (Inr n, k2) \<and> wn_table k2 2 n = Some (30, 5) \<and> wn_opened k2 = 0"
proof -
  let ?k = "\<lparr>wn_table = (\<lambda>p h. if p = 1 \<and> h = 7 then Some (30, 6) else None), wn_next = 8, wn_alive = [1, 2], wn_opened = 0\<rparr> :: win"
  from dup_handle_moves [of ?k 1 7 30 6 2 "Some 2" 5] show ?thesis by simp blast
qed

text \<open>With \<open>send_handle\<close> the receiver's handle has the constant \<open>DUPLICATE_SAME_ACCESS\<close> for its rights, not those of the sender's.\<close>

lemma send_handle_rights:
  assumes "wn_table k me h = Some (obj, r)" "you \<in> set (wn_alive k)"
  shows "\<exists>d k1. win_send_handle me h you k = (Inr d, k1) \<and> detach you d k1 = (Inr (dh_handle d), k1) \<and>
    wn_table k1 you (dh_handle d) = Some (obj, DUPLICATE_SAME_ACCESS)"
proof -
  have "wp (win_send_handle me h you) (\<lambda>d k1. detach you d k1 = (Inr (dh_handle d), k1) \<and>
    wn_table k1 you (dh_handle d) = Some (obj, DUPLICATE_SAME_ACCESS)) (\<lambda>_ _. False) k"
    using assms by (auto simp: win_send_handle_def DupHandle_def wp_simps wp_OpenProcess wp_CloseHandle wp_DuplicateHandle
        Let_def detach_def ret_def)
  then show ?thesis unfolding wp_total by blast
qed

end
