(* ===== verification/Windows_Connection.thy ===== *)
theory Windows_Connection
  imports Reduction "HOL-Library.Sublist"
begin

text \<open>
  The parts of \<open>billiard/connection.py\<close> for Windows and above a connection: \<open>PipeConnection\<close> on a named pipe in message mode,
  \<open>wait\<close> for several objects, \<open>PipeListener\<close> and \<open>PipeClient\<close>; \<open>SocketListener\<close>; \<open>ConnectionWrapper\<close> with the
  xmlrpc variants; and the pickling of connections.

  The end of a pipe holds the messages that have arrived and not been read; the first may be the rest of one that was
  read in part. A read that finds nothing is pending: what happens while it is, is an argument (\<open>pending\<close>).
\<close>

section \<open>A message pipe\<close>

definition ERROR_BROKEN_PIPE :: int where "ERROR_BROKEN_PIPE = 109"
definition ERROR_SEM_TIMEOUT :: int where "ERROR_SEM_TIMEOUT = 121"
definition ERROR_PIPE_BUSY :: int where "ERROR_PIPE_BUSY = 231"
definition ERROR_NO_DATA :: int where "ERROR_NO_DATA = 232"
definition ERROR_MORE_DATA :: int where "ERROR_MORE_DATA = 234"

record pipe_end =
  pe_msgs :: "bytes list"
  pe_gone :: bool             \<comment> \<open>the other end is closed\<close>

definition arrive :: "bytes list \<Rightarrow> bool \<Rightarrow> 'a pipe_end_scheme \<Rightarrow> 'a pipe_end_scheme" where
  "arrive ms gone p = p\<lparr>pe_msgs := pe_msgs p @ ms, pe_gone := pe_gone p \<or> gone\<rparr>"

text \<open>\<open>ReadFile\<close> of at most \<open>n\<close> bytes where a message has arrived: the error code and what was read.\<close>

definition ReadFile :: "nat \<Rightarrow> ('a pipe_end_scheme, int \<times> bytes) act" where
  "ReadFile n = readA (\<lambda>p. case pe_msgs p of
       [] \<Rightarrow> raise Blocks
     | m # ms \<Rightarrow>
         if length m \<le> n then bindA (modifyA (\<lambda>p. p\<lparr>pe_msgs := ms\<rparr>)) (\<lambda>_. ret (0, m))
         else bindA (modifyA (\<lambda>p. p\<lparr>pe_msgs := drop n m # ms\<rparr>)) (\<lambda>_. ret (ERROR_MORE_DATA, take n m)))"

text \<open>\<open>PeekNamedPipe\<close>: the bytes in the pipe, and those left of the first message.\<close>

definition peek_total :: "'a pipe_end_scheme \<Rightarrow> nat" where
  "peek_total p = sum_list (map length (pe_msgs p))"

definition peek_left :: "'a pipe_end_scheme \<Rightarrow> nat" where
  "peek_left p = (case pe_msgs p of [] \<Rightarrow> 0 | m # ms \<Rightarrow> length m)"

section \<open>PipeConnection\<close>

record wconn = pipe_end +
  wc_handle :: "int option"
  wc_readable :: bool
  wc_writable :: bool
  wc_got_empty :: bool          \<comment> \<open>\<open>_got_empty_message\<close>\<close>

definition new_wconn :: "int \<Rightarrow> bool \<Rightarrow> bool \<Rightarrow> exn + wconn" where
  "new_wconn handle readable writable =
     (if handle < 0 then Inl ValueError
      else if \<not> readable \<and> \<not> writable then Inl ValueError
      else Inr \<lparr>pe_msgs = [], pe_gone = False, wc_handle = Some handle, wc_readable = readable, wc_writable = writable,
                wc_got_empty = False\<rparr>)"

definition wc_bad_message_length :: "(wconn, 'a) act" where
  "wc_bad_message_length = readA (\<lambda>c.
     bindA (modifyA (\<lambda>c. if wc_writable c then c\<lparr>wc_readable := False\<rparr> else c\<lparr>wc_handle := None\<rparr>)) (\<lambda>_. raise (OSError 0)))"

definition get_more_data :: "bytes \<Rightarrow> int option \<Rightarrow> (wconn, bytes) act" where
  "get_more_data buf maxsize = readA (\<lambda>c.
     let left = peek_left c in
     bindA (assertA (\<lambda>_. left > 0) AssertionError) (\<lambda>_.
     if (case maxsize of None \<Rightarrow> False | Some m \<Rightarrow> int (length buf + left) > m) then wc_bad_message_length
     else bindA (ReadFile left) (\<lambda>(err, more).
       bindA (assertA (\<lambda>_. err = 0) AssertionError) (\<lambda>_.
       bindA (assertA (\<lambda>_. length more = left) AssertionError) (\<lambda>_. ret (buf @ more))))))"

text \<open>
  What happens while a read is pending: the messages that arrive, whether the other end is closed, the exception
  \<open>WaitForMultipleObjects\<close> raises if it raises one, and whether \<open>cancel\<close> comes before a message that has arrived.
\<close>

record pending =
  pd_msgs :: "bytes list"
  pd_gone :: bool
  pd_exc :: "exn option"
  pd_cancelled :: bool

definition finish_read :: "int option \<Rightarrow> nat \<Rightarrow> (wconn, bytes) act" where
  "finish_read maxsize bsize =
     bindA (ReadFile bsize) (\<lambda>(err, buf). if err = 0 then ret buf else get_more_data buf maxsize)"

definition overlapped_result :: "int option \<Rightarrow> nat \<Rightarrow> (wconn, bytes) act" where
  "overlapped_result maxsize bsize = readA (\<lambda>c.
     if pe_msgs c \<noteq> [] then finish_read maxsize bsize
     else if pe_gone c then raise EOFError else raise Blocks)"

definition pipe_recv :: "int option \<Rightarrow> pending \<Rightarrow> (wconn, bytes) act" where
  "pipe_recv maxsize w = readA (\<lambda>c.
     if wc_got_empty c then bindA (modifyA (\<lambda>c. c\<lparr>wc_got_empty := False\<rparr>)) (\<lambda>_. ret [])
     else
       let bsize = (case maxsize of None \<Rightarrow> 128 | Some m \<Rightarrow> nat (min m 128)) in
       if pe_msgs c \<noteq> [] then finish_read maxsize bsize
       else if pe_gone c then raise EOFError
       else bindA (modifyA (arrive (pd_msgs w) (pd_gone w))) (\<lambda>_. readA (\<lambda>c.
         case pd_exc w of
           None \<Rightarrow> overlapped_result maxsize bsize
         | Some e \<Rightarrow>
             if is_Exception e
             then if pd_cancelled w \<or> pe_msgs c = [] \<and> \<not> pe_gone c then raise (if e = OSError ERROR_BROKEN_PIPE then EOFError else e) else overlapped_result maxsize bsize
             else bindA (overlapped_result maxsize bsize) (\<lambda>_. raise e))))"

definition wrecv_bytes :: "int option \<Rightarrow> pending \<Rightarrow> (wconn, bytes) act" where
  "wrecv_bytes maxlength w =
     bindA (assertA (\<lambda>c. wc_handle c \<noteq> None) (OSError 0)) (\<lambda>_.
     bindA (assertA wc_readable (OSError 0)) (\<lambda>_.
     if (case maxlength of None \<Rightarrow> False | Some m \<Rightarrow> m < 0) then raise ValueError else pipe_recv maxlength w))"

text \<open>
  \<open>_send_bytes\<close>, on the other end of the pipe: the message is written at once, or the wait for that raises an exception
  and the write is cancelled, in time or not.
\<close>

definition pipe_send :: "bytes \<Rightarrow> (exn \<times> bool) option \<Rightarrow> ('a pipe_end_scheme, unit) act" where
  "pipe_send buf r =
     (case r of
        None \<Rightarrow> modifyA (arrive [buf] False)
      | Some (e, in_time) \<Rightarrow> bindA (whenA (\<not> in_time) (modifyA (arrive [buf] False))) (\<lambda>_. raise e))"

section \<open>Waiting for several objects\<close>

datatype wobj = WPipe nat | WHandle nat

datatype hstatus = Unsignaled | Signaled | Abandoned

record wworld =
  ww_pipe :: "nat \<Rightarrow> wconn"
  ww_status :: "nat \<Rightarrow> hstatus"

definition WAIT_OBJECT_0 :: int where "WAIT_OBJECT_0 = 0"
definition WAIT_ABANDONED_0 :: int where "WAIT_ABANDONED_0 = 128"
definition WAIT_TIMEOUT :: int where "WAIT_TIMEOUT = 258"

fun first_index :: "('a \<Rightarrow> bool) \<Rightarrow> 'a list \<Rightarrow> nat option" where
  "first_index P [] = None"
| "first_index P (x # xs) = (if P x then Some 0 else map_option Suc (first_index P xs))"

text \<open>\<open>WaitForMultipleObjects\<close> for one of the handles, of which it takes at most \<open>lim\<close>.\<close>

definition wait_multiple :: "nat \<Rightarrow> ('h \<Rightarrow> hstatus) \<Rightarrow> 'h list \<Rightarrow> exn + int" where
  "wait_multiple lim st L =
     (if length L > lim then Inl ValueError
      else case first_index (\<lambda>h. st h \<noteq> Unsignaled) L of
          None \<Rightarrow> Inr WAIT_TIMEOUT
        | Some i \<Rightarrow> Inr ((if st (L ! i) = Signaled then WAIT_OBJECT_0 else WAIT_ABANDONED_0) + int i))"

function exhaustive_wait :: "nat \<Rightarrow> ('h \<Rightarrow> hstatus) \<Rightarrow> 'h list \<Rightarrow> exn + 'h list" where
  "exhaustive_wait lim st L =
     (if L = [] then Inr []
      else case wait_multiple lim st L of
          Inl e \<Rightarrow> Inl e
        | Inr res \<Rightarrow>
            if res = WAIT_TIMEOUT then Inr []
            else if WAIT_OBJECT_0 \<le> res \<and> res < WAIT_OBJECT_0 + int (length L)
            then map_sum id (Cons (L ! nat (res - WAIT_OBJECT_0)))
              (exhaustive_wait lim st (drop (nat (res - WAIT_OBJECT_0) + 1) L))
            else if WAIT_ABANDONED_0 \<le> res \<and> res < WAIT_ABANDONED_0 + int (length L)
            then map_sum id (Cons (L ! nat (res - WAIT_ABANDONED_0)))
              (exhaustive_wait lim st (drop (nat (res - WAIT_ABANDONED_0) + 1) L))
            else Inl RuntimeError)"
  by pat_completeness auto
termination by (relation "measure (\<lambda>(_, _, L). length L)") auto

declare exhaustive_wait.simps [simp del]


text \<open>
  The three parts of \<open>wait\<close>. \<open>start_reads\<close> starts a read of length zero on every connection, with the objects that
  are pending and those that are ready, and what it raises; \<open>keeps\<close> says that such a read leaves an empty message in
  the pipe when it returns at once, as the code has it. \<open>end_reads\<close> looks at the pending ones after they have been cancelled.
\<close>

definition set_pipe :: "nat \<Rightarrow> wconn \<Rightarrow> wworld \<Rightarrow> wworld" where
  "set_pipe i c w = w\<lparr>ww_pipe := (ww_pipe w)(i := c)\<rparr>"

definition read_zero :: "bool \<Rightarrow> wconn \<Rightarrow> wconn" where
  "read_zero keeps c = (case pe_msgs c of [] # ms \<Rightarrow> if keeps then c else c\<lparr>pe_msgs := ms\<rparr> | _ \<Rightarrow> c)"

fun start_reads :: "bool \<Rightarrow> wobj list \<Rightarrow> wworld \<Rightarrow> (exn option \<times> wobj list \<times> wobj list) \<times> wworld" where
  "start_reads keeps [] w = ((None, [], []), w)"
| "start_reads keeps (WHandle h # os) w =
     (case start_reads keeps os w of ((r, pend, ready), w') \<Rightarrow> ((r, WHandle h # pend, ready), w'))"
| "start_reads keeps (WPipe i # os) w =
     (let c = ww_pipe w i in
      if wc_handle c = None then ((Some (OSError 0), [], []), w)
      else if pe_msgs c = [] \<and> \<not> pe_gone c
      then (case start_reads keeps os w of ((r, pend, ready), w') \<Rightarrow> ((r, WPipe i # pend, ready), w'))
      else (case start_reads keeps os (set_pipe i (read_zero keeps c) w) of
          ((r, pend, ready), w') \<Rightarrow> ((r, pend, WPipe i # ready), w')))"

fun end_reads :: "wobj list \<Rightarrow> wworld \<Rightarrow> wobj list \<times> wworld" where
  "end_reads [] w = ([], w)"
| "end_reads (WHandle h # os) w = end_reads os w"
| "end_reads (WPipe i # os) w =
     (let c = ww_pipe w i in
      if pe_msgs c = [] \<and> \<not> pe_gone c then end_reads os w
      else
        let c' = (case pe_msgs c of [] # ms \<Rightarrow> c\<lparr>pe_msgs := ms, wc_got_empty := True\<rparr> | _ \<Rightarrow> c);
            (ready, w') = end_reads os (set_pipe i c' w)
        in (WPipe i # ready, w'))"

text \<open>What other processes do while \<open>wait\<close> waits: messages and ends of pipes, and the handles that are signalled then.\<close>

definition meanwhile :: "(nat \<Rightarrow> bytes list \<times> bool) \<Rightarrow> (nat \<Rightarrow> hstatus) \<Rightarrow> wworld \<Rightarrow> wworld" where
  "meanwhile arr st w = w\<lparr>ww_pipe := (\<lambda>i. arrive (fst (arr i)) (snd (arr i)) (ww_pipe w i)), ww_status := st\<rparr>"

fun signalled :: "wworld \<Rightarrow> wobj \<Rightarrow> hstatus" where
  "signalled w (WHandle h) = ww_status w h"
| "signalled w (WPipe i) = (if pe_msgs (ww_pipe w i) = [] \<and> \<not> pe_gone (ww_pipe w i) then Unsignaled else Signaled)"

definition win_wait :: "nat \<Rightarrow> bool \<Rightarrow> bool \<Rightarrow> (nat \<Rightarrow> bytes list \<times> bool) \<Rightarrow> (nat \<Rightarrow> hstatus) \<Rightarrow> wobj list
    \<Rightarrow> (wworld, wobj list) act" where
  "win_wait lim keeps forever arr st objs w0 =
     (case start_reads keeps objs w0 of
        ((Some e, pend, ready), w) \<Rightarrow> (Inl e, snd (end_reads pend w))
      | ((None, pend, ready), w) \<Rightarrow>
          let w = meanwhile arr st w in
          (case exhaustive_wait lim (signalled w) pend of
             Inl e \<Rightarrow> (Inl e, snd (end_reads pend w))
           | Inr signaled \<Rightarrow>
               if signaled = [] \<and> pend \<noteq> [] \<and> ready = [] \<and> forever then (Inl Blocks, w)
               else (case end_reads pend w of (ready', w') \<Rightarrow>
                 (Inr (filter (\<lambda>p. p \<in> set ready \<union> set ready' \<union> set signaled) objs), w'))))"

text \<open>\<open>wait\<close> for one connection, and \<open>_poll\<close>: what an earlier wait has found, what is in the pipe, and else such a wait.\<close>

definition wait_one :: "bool \<Rightarrow> bool \<Rightarrow> bytes list \<times> bool \<Rightarrow> (wconn, bool) act" where
  "wait_one keeps forever arr c =
     (case win_wait 1 keeps forever (\<lambda>_. arr) (\<lambda>_. Unsignaled) [WPipe 0] \<lparr>ww_pipe = (\<lambda>_. c), ww_status = (\<lambda>_. Unsignaled)\<rparr> of
          (Inl e, w) \<Rightarrow> (Inl e, ww_pipe w 0)
        | (Inr rs, w) \<Rightarrow> (Inr (rs \<noteq> []), ww_pipe w 0))"

definition pipe_poll :: "bool \<Rightarrow> bool \<Rightarrow> bytes list \<times> bool \<Rightarrow> (wconn, bool) act" where
  "pipe_poll keeps forever arr = readA (\<lambda>c.
     if wc_got_empty c then ret True
     else if pe_msgs c = [] \<and> pe_gone c then raise (OSError ERROR_BROKEN_PIPE)
     else if peek_total c \<noteq> 0 then ret True
     else wait_one keeps forever arr)"

definition wpoll :: "bool \<Rightarrow> bool \<Rightarrow> bytes list \<times> bool \<Rightarrow> (wconn, bool) act" where
  "wpoll keeps forever arr =
     bindA (assertA (\<lambda>c. wc_handle c \<noteq> None) (OSError 0)) (\<lambda>_.
     bindA (assertA wc_readable (OSError 0)) (\<lambda>_. pipe_poll keeps forever arr))"

section \<open>What \<open>wait\<close> promises\<close>

lemma first_index_None: "first_index P L = None \<longleftrightarrow> (\<forall>x \<in> set L. \<not> P x)"
  by (induction L) auto

lemma first_index_Some: "first_index P L = Some i \<Longrightarrow> i < length L \<and> P (L ! i) \<and> filter P L = L ! i # filter P (drop (Suc i) L)"
  by (induction L arbitrary: i) (auto split: if_splits)

text \<open>For at most 128 handles \<open>_exhaustive_wait\<close> gives exactly those that are signalled or abandoned, in order.\<close>

lemma exhaustive_wait_exact:
  assumes "length L \<le> lim" "lim \<le> 128"
  shows "exhaustive_wait lim st L = Inr (filter (\<lambda>h. st h \<noteq> Unsignaled) L)"
  using assms(1)
proof (induction L rule: length_induct)
  case (1 L)
  show ?case
  proof (cases "first_index (\<lambda>h. st h \<noteq> Unsignaled) L")
    case None
    then have "filter (\<lambda>h. st h \<noteq> Unsignaled) L = []" by (simp add: first_index_None filter_empty_conv)
    then show ?thesis using 1(2) None by (simp add: exhaustive_wait.simps [of lim st L] wait_multiple_def)
  next
    case (Some i)
    note i = first_index_Some [OF Some]
    have "exhaustive_wait lim st (drop (Suc i) L) = Inr (filter (\<lambda>h. st h \<noteq> Unsignaled) (drop (Suc i) L))"
      using 1 i by auto
    moreover have "int i < 128" "length L \<le> 128" using i 1(2) assms(2) by linarith+
    ultimately show ?thesis using 1(2) Some i
      by (auto simp: exhaustive_wait.simps [of lim st L] wait_multiple_def WAIT_OBJECT_0_def WAIT_ABANDONED_0_def WAIT_TIMEOUT_def
          nat_add_distrib)
  qed
qed


section \<open>A pipe is a queue of messages\<close>

text \<open>The messages a reader of the connection is still to get, and whether it can read.\<close>

definition waiting :: "wconn \<Rightarrow> bytes list" where
  "waiting c = (if wc_got_empty c then [[]] else []) @ pe_msgs c"

definition usable :: "wconn \<Rightarrow> bool" where
  "usable c \<longleftrightarrow> wc_handle c \<noteq> None \<and> wc_readable c"

definition pends :: "int option \<Rightarrow> wconn \<Rightarrow> bool" where
  "pends m c \<longleftrightarrow> usable c \<and> waiting c = [] \<and> \<not> pe_gone c \<and> (case m of None \<Rightarrow> True | Some k \<Rightarrow> 0 \<le> k)"

lemmas queue_defs = waiting_def usable_def pends_def

lemma wp_ReadFile: "wp (ReadFile n) Q E c =
    (case pe_msgs c of [] \<Rightarrow> E Blocks c
     | m # ms \<Rightarrow> if length m \<le> n then Q (0, m) (c\<lparr>pe_msgs := ms\<rparr>) else Q (ERROR_MORE_DATA, take n m) (c\<lparr>pe_msgs := drop n m # ms\<rparr>))"
  by (simp add: wp_def ReadFile_def act_defs split: list.split)

lemma finish_read_queue:
  assumes "pe_msgs c = x # xs" "usable c" "\<not> wc_got_empty c" and k: "case m of None \<Rightarrow> True | Some k \<Rightarrow> 0 \<le> k"
  shows "wp (finish_read m (case m of None \<Rightarrow> 128 | Some k \<Rightarrow> nat (min k 128)))
     (\<lambda>b c'. b = x \<and> waiting c' = xs \<and> usable c' \<and> (\<forall>k. m = Some k \<longrightarrow> int (length b) \<le> k)) (\<lambda>_ c'. \<not> usable c') c"
  using assms
  by (cases m) (auto simp: finish_read_def wp_simps wp_ReadFile get_more_data_def Let_def peek_left_def wc_bad_message_length_def
      ERROR_MORE_DATA_def queue_defs min_def)

text \<open>The four ways of \<open>_recv_bytes\<close>.\<close>

definition bufsize :: "int option \<Rightarrow> nat" where
  "bufsize m = (case m of None \<Rightarrow> 128 | Some k \<Rightarrow> nat (min k 128))"

lemma pipe_recv_cases:
  "wc_got_empty c \<Longrightarrow> pipe_recv m w c = (Inr [], c\<lparr>wc_got_empty := False\<rparr>)"
  "\<not> wc_got_empty c \<Longrightarrow> pe_msgs c \<noteq> [] \<Longrightarrow> pipe_recv m w c = overlapped_result m (bufsize m) c"
  "\<not> wc_got_empty c \<Longrightarrow> pe_msgs c = [] \<Longrightarrow> pe_gone c \<Longrightarrow> pipe_recv m w c = (Inl EOFError, c)"
  "\<not> wc_got_empty c \<Longrightarrow> pe_msgs c = [] \<Longrightarrow> \<not> pe_gone c \<Longrightarrow> pd_exc w = None \<Longrightarrow>
     pipe_recv m w c = overlapped_result m (bufsize m) (arrive (pd_msgs w) (pd_gone w) c)"
  "\<not> wc_got_empty c \<Longrightarrow> pe_msgs c = [] \<Longrightarrow> \<not> pe_gone c \<Longrightarrow> pd_exc w = Some e \<Longrightarrow> is_Exception e \<Longrightarrow>
     pipe_recv m w c = (let d = arrive (pd_msgs w) (pd_gone w) c in
       if pd_cancelled w \<or> pe_msgs d = [] \<and> \<not> pe_gone d then (Inl (if e = OSError ERROR_BROKEN_PIPE then EOFError else e), d)
       else overlapped_result m (bufsize m) d)"
  "\<not> wc_got_empty c \<Longrightarrow> pe_msgs c = [] \<Longrightarrow> \<not> pe_gone c \<Longrightarrow> pd_exc w = Some e \<Longrightarrow> \<not> is_Exception e \<Longrightarrow>
     pipe_recv m w c = bindA (overlapped_result m (bufsize m)) (\<lambda>_. raise e) (arrive (pd_msgs w) (pd_gone w) c)"
  by (simp_all add: pipe_recv_def bufsize_def overlapped_result_def act_defs Let_def)

lemma wrecv_usable:
  "usable c \<Longrightarrow> (case m of None \<Rightarrow> True | Some k \<Rightarrow> 0 \<le> k) \<Longrightarrow> wrecv_bytes m w c = pipe_recv m w c"
  "\<not> (usable c \<and> (case m of None \<Rightarrow> True | Some k \<Rightarrow> 0 \<le> k)) \<Longrightarrow> \<exists>e. wrecv_bytes m w c = (Inl e, c)"
  by (cases m; auto simp: wrecv_bytes_def usable_def act_defs)+

lemma overlapped_queue:
  assumes u: "usable d" "\<not> wc_got_empty d" and k: "case m of None \<Rightarrow> True | Some k \<Rightarrow> 0 \<le> k"
  shows "wp (overlapped_result m (bufsize m))
     (\<lambda>b c'. usable c' \<and> b # waiting c' = waiting d \<and> (\<forall>k. m = Some k \<longrightarrow> int (length b) \<le> k))
     (\<lambda>_ c'. usable c' \<longrightarrow> waiting c' = waiting d) d"
proof (cases "pe_msgs d")
  case Nil
  then show ?thesis by (simp add: overlapped_result_def wp_simps)
next
  case (Cons x xs)
  have d: "overlapped_result m (bufsize m) d = finish_read m (bufsize m) d" "waiting d = x # xs"
    using Cons u by (simp_all add: overlapped_result_def readA_def waiting_def)
  have "wp (finish_read m (bufsize m)) (\<lambda>b c'. usable c' \<and> b # waiting c' = waiting d \<and> (\<forall>k. m = Some k \<longrightarrow> int (length b) \<le> k))
    (\<lambda>_ c'. usable c' \<longrightarrow> waiting c' = waiting d) d"
    by (rule wp_mono [OF finish_read_queue [OF Cons u k, folded bufsize_def]]) (use d(2) in auto)
  then show ?thesis unfolding wp_def d(1) .
qed

text \<open>
  What a receive does with the queue: it takes the first message, whole and not longer than asked for, or it raises and takes nothing; if
  it was too long, the connection can read no more.
\<close>

definition arriving :: "int option \<Rightarrow> pending \<Rightarrow> wconn \<Rightarrow> bytes list" where
  "arriving m w c = (if pends m c then pd_msgs w else [])"

lemma recv_queue:
  assumes w: "\<And>e. pd_exc w = Some e \<Longrightarrow> is_Exception e"
  shows "wp (wrecv_bytes m w)
     (\<lambda>b c'. usable c \<and> usable c' \<and> b # waiting c' = waiting c @ arriving m w c \<and> (\<forall>k. m = Some k \<longrightarrow> int (length b) \<le> k))
     (\<lambda>_ c'. usable c' \<longrightarrow> usable c \<and> waiting c' = waiting c @ arriving m w c) c"
proof (cases "usable c \<and> (case m of None \<Rightarrow> True | Some k \<Rightarrow> 0 \<le> k)")
  case False
  then have "arriving m w c = []" by (auto simp: arriving_def pends_def)
  then show ?thesis using wrecv_usable(2) [OF False, of w] by (auto simp: wp_def)
next
  case u: True
  then have r: "wrecv_bytes m w c = pipe_recv m w c" and k: "case m of None \<Rightarrow> True | Some k \<Rightarrow> 0 \<le> k"
    using wrecv_usable(1) by auto
  note res = overlapped_queue [OF _ _ k, unfolded wp_def]
  show ?thesis
  proof (cases "wc_got_empty c \<or> pe_msgs c \<noteq> [] \<or> pe_gone c")
    case True
    then have a: "arriving m w c = []" by (auto simp: arriving_def queue_defs)
    consider "wc_got_empty c" | "\<not> wc_got_empty c" "pe_msgs c \<noteq> []" | "\<not> wc_got_empty c" "pe_msgs c = []" "pe_gone c"
      using True by blast
    then show ?thesis
    proof cases
      case 1
      then show ?thesis using u k a unfolding wp_def r pipe_recv_cases(1) [OF 1] by (auto simp: queue_defs)
    next
      case 2
      show ?thesis using res [of c] u 2 a unfolding wp_def r pipe_recv_cases(2) [OF 2] by (auto split: prod.splits sum.splits)
    next
      case 3
      show ?thesis using u a unfolding wp_def r pipe_recv_cases(3) [OF 3] by simp
    qed
  next
    case p: False
    let ?d = "arrive (pd_msgs w) (pd_gone w) c"
    have d: "usable ?d" "\<not> wc_got_empty ?d" "waiting ?d = waiting c @ arriving m w c"
      using u p by (auto simp: arrive_def arriving_def queue_defs)
    have c: "\<not> wc_got_empty c" "pe_msgs c = []" "\<not> pe_gone c" using p by auto
    note d' = res [OF d(1,2)]
    show ?thesis
    proof (cases "pd_exc w")
      case None
      show ?thesis using d' u d(3) unfolding wp_def r pipe_recv_cases(4) [OF c None] by (auto split: prod.splits sum.splits)
    next
      case (Some e)
      show ?thesis using d' u d unfolding wp_def r pipe_recv_cases(5) [OF c Some w [OF Some]] Let_def by (auto split: prod.splits sum.splits)
    qed
  qed
qed

text \<open>An interruption by something that is no \<open>Exception\<close> takes the message that ends the read, if there is one, and gives it to nobody.\<close>

lemma interrupted_queue:
  assumes e: "pd_exc w = Some e" "\<not> is_Exception e"
  shows "wp (wrecv_bytes m w)
     (\<lambda>b c'. usable c \<and> usable c' \<and> b # waiting c' = waiting c @ arriving m w c)
     (\<lambda>_ c'. usable c' \<longrightarrow> usable c \<and> (waiting c' = waiting c @ arriving m w c \<or> (\<exists>b. b # waiting c' = waiting c @ arriving m w c))) c"
proof (cases "pends m c")
  case False
  let ?w = "w\<lparr>pd_exc := None\<rparr>"
  have "wrecv_bytes m w c = wrecv_bytes m ?w c"
  proof (cases "usable c \<and> (case m of None \<Rightarrow> True | Some k \<Rightarrow> 0 \<le> k)")
    case True
    then have "waiting c \<noteq> [] \<or> pe_gone c" using False by (auto simp: pends_def)
    then show ?thesis using True wrecv_usable(1) [of c m]
      by (cases "wc_got_empty c"; cases "pe_msgs c = []") (auto simp: pipe_recv_cases(1-3) waiting_def)
  next
    case False
    then show ?thesis by (cases m; auto simp: wrecv_bytes_def usable_def act_defs)
  qed
  moreover have "arriving m ?w c = arriving m w c" by (simp add: arriving_def)
  ultimately show ?thesis using recv_queue [of ?w m c] unfolding wp_def by (auto split: prod.splits sum.splits)
next
  case True
  let ?d = "arrive (pd_msgs w) (pd_gone w) c"
  have c: "usable c" "\<not> wc_got_empty c" "pe_msgs c = []" "\<not> pe_gone c" and k: "case m of None \<Rightarrow> True | Some k \<Rightarrow> 0 \<le> k"
    using True by (auto simp: queue_defs split: if_splits)
  have d: "usable ?d" "\<not> wc_got_empty ?d" "waiting ?d = waiting c @ arriving m w c"
    using c True by (auto simp: arrive_def arriving_def queue_defs)
  show ?thesis using overlapped_queue [OF d(1,2) k, unfolded wp_def] c(1) d(3)
    unfolding wp_def wrecv_usable(1) [OF c(1) k] pipe_recv_cases(6) [OF c(2-4) e]
    by (auto simp: bindA_def raise_def split: prod.splits sum.splits)
qed

text \<open>Without a bound on its length a message that is there is read.\<close>

lemma finish_read_total:
  assumes "pe_msgs c = x # xs" "usable c" "\<not> wc_got_empty c"
  shows "wp (finish_read None (bufsize None)) (\<lambda>b c'. b = x \<and> waiting c' = xs \<and> usable c') (\<lambda>_ _. False) c"
  using assms by (auto simp: finish_read_def wp_simps wp_ReadFile get_more_data_def Let_def peek_left_def bufsize_def
      ERROR_MORE_DATA_def waiting_def usable_def)

lemma recv_next:
  assumes u: "usable c" and q: "waiting c = b # bs"
  shows "\<exists>c'. wrecv_bytes None w c = (Inr b, c') \<and> usable c' \<and> waiting c' = bs"
proof (cases "wc_got_empty c")
  case True
  then show ?thesis using u q by (auto simp: wrecv_usable(1) [OF u, of None, simplified] pipe_recv_cases(1) queue_defs)
next
  case False
  then have m: "pe_msgs c = b # bs" "pe_msgs c \<noteq> []" using q by (auto simp: waiting_def)
  have "wrecv_bytes None w c = finish_read None (bufsize None) c"
    using m False by (simp add: wrecv_usable(1) [OF u, of None, simplified] pipe_recv_cases(2) overlapped_result_def readA_def)
  then show ?thesis using finish_read_total [OF m(1) u False] by (auto simp: wp_def split: prod.splits sum.splits)
qed

text \<open>An interruption that is no \<open>Exception\<close> (\<open>KeyboardInterrupt\<close>) does not cancel the read: the message that ends it is lost.\<close>

lemma interrupted_read_loses:
  assumes "usable c" "waiting c = []" "\<not> pe_gone c" "pd_exc w = Some KeyboardInterrupt" "pd_msgs w = x # xs"
  shows "\<exists>c'. wrecv_bytes None w c = (Inl KeyboardInterrupt, c') \<and> waiting c' = xs \<and> usable c'"
proof -
  let ?d = "arrive (pd_msgs w) (pd_gone w) c"
  have c: "\<not> wc_got_empty c" "pe_msgs c = []" "\<not> pe_gone c" using assms by (auto simp: waiting_def split: if_splits)
  have d: "pe_msgs ?d = x # xs" "usable ?d" "\<not> wc_got_empty ?d" using assms c by (auto simp: arrive_def usable_def)
  have f: "overlapped_result None (bufsize None) ?d = finish_read None (bufsize None) ?d"
    using d by (simp add: overlapped_result_def readA_def)
  note finish_read_total [OF d]
  then show ?thesis
    unfolding wrecv_usable(1) [OF assms(1), of None, simplified] pipe_recv_cases(6) [OF c assms(4), simplified]
    by (auto simp: wp_def bindA_def raise_def f split: prod.splits sum.splits)
qed

text \<open>\<open>wait\<close> for a connection that no earlier wait has marked keeps the queue, and answers whether something is there.\<close>

lemma wait_one_eq:
  "wait_one keeps forever arr c =
     (if wc_handle c = None then (Inl (OSError 0), c)
      else if pe_msgs c = [] \<and> \<not> pe_gone c
      then (let d = arrive (fst arr) (snd arr) c in
        if pe_msgs d = [] \<and> \<not> pe_gone d then (if forever then Inl Blocks else Inr False, d)
        else (Inr True, case pe_msgs d of [] # ms \<Rightarrow> d\<lparr>pe_msgs := ms, wc_got_empty := True\<rparr> | _ \<Rightarrow> d))
      else (Inr True, arrive (fst arr) (snd arr) (read_zero keeps c)))"
  by (auto simp: wait_one_def win_wait_def Let_def set_pipe_def meanwhile_def exhaustive_wait_exact split: list.splits)

lemma wait_one_queue:
  assumes "\<not> wc_got_empty c"
  shows "wp (wait_one True forever arr)
     (\<lambda>b c'. wc_handle c \<noteq> None \<and> usable c' = usable c \<and> waiting c' = waiting c @ fst arr \<and> b = (waiting c' \<noteq> [] \<or> pe_gone c'))
     (\<lambda>_ c'. usable c' = usable c \<and> waiting c' = waiting c @ (if wc_handle c = None then [] else fst arr)) c"
  using assms
  by (auto simp: wp_def wait_one_eq Let_def arrive_def queue_defs read_zero_def split: list.splits)


text \<open>But a wait for a connection that an earlier wait has marked does not report it, and forgets one of two empty messages.\<close>

lemma marked_not_reported:
  assumes "wc_handle c \<noteq> None" "wc_got_empty c" "pe_msgs c = []" "\<not> pe_gone c"
  shows "wait_one keeps False ([], False) c = (Inr False, c)" "waiting c = [[]]"
  using assms by (simp_all add: wait_one_eq Let_def arrive_def waiting_def)

lemma second_empty_message_lost:
  assumes "wc_handle c \<noteq> None" "wc_got_empty c" "pe_msgs c = []" "\<not> pe_gone c"
  shows "\<exists>c'. wait_one keeps forever ([[]], False) c = (Inr True, c') \<and> waiting c' = [[]]"
  using assms by (simp add: wait_one_eq Let_def arrive_def waiting_def)

text \<open>
  A history of one direction of a pipe: the writer sends, the reader receives, polls or waits, and while it waits, messages arrive. The
  log keeps what has been written to the pipe and what the reader has been given.
\<close>

datatype pevent =
    PSend bytes "(exn \<times> bool) option"
  | PRecv "int option" pending
  | PPoll bool "bytes list"
  | PWait bool "bytes list"
  | PHangUp

record plog =
  lg_conn :: wconn
  lg_sent :: "bytes list"
  lg_got :: "bytes list"

definition sent_by :: "bytes \<Rightarrow> (exn \<times> bool) option \<Rightarrow> bytes list" where
  "sent_by buf r = (case r of None \<Rightarrow> [buf] | Some (_, in_time) \<Rightarrow> if in_time then [] else [buf])"

definition poll_waits :: "wconn \<Rightarrow> bool" where
  "poll_waits c \<longleftrightarrow> usable c \<and> \<not> wc_got_empty c \<and> \<not> (pe_msgs c = [] \<and> pe_gone c) \<and> peek_total c = 0"

fun plog_step :: "pevent \<Rightarrow> plog \<Rightarrow> plog" where
  "plog_step (PSend buf r) l =
     l\<lparr>lg_conn := snd (pipe_send buf r (lg_conn l)), lg_sent := lg_sent l @ sent_by buf r\<rparr>"
| "plog_step (PRecv m w) l =
     (let l' = l\<lparr>lg_sent := lg_sent l @ arriving m w (lg_conn l)\<rparr> in
      case wrecv_bytes m w (lg_conn l) of
        (Inl _, c) \<Rightarrow> l'\<lparr>lg_conn := c\<rparr>
      | (Inr b, c) \<Rightarrow> l'\<lparr>lg_conn := c, lg_got := lg_got l @ [b]\<rparr>)"
| "plog_step (PPoll forever ms) l =
     l\<lparr>lg_conn := snd (wpoll True forever (ms, False) (lg_conn l)), lg_sent := lg_sent l @ (if poll_waits (lg_conn l) then ms else [])\<rparr>"
| "plog_step (PWait forever ms) l =
     l\<lparr>lg_conn := snd (wait_one True forever (ms, False) (lg_conn l)), lg_sent := lg_sent l @ (if wc_handle (lg_conn l) = None then [] else ms)\<rparr>"
| "plog_step PHangUp l = l\<lparr>lg_conn := arrive [] True (lg_conn l)\<rparr>"

text \<open>
  The two events by which a message can get lost: an interruption of the reader by something that is no \<open>Exception\<close> (\<open>KeyboardInterrupt\<close>), and
  a \<open>wait\<close> for a connection on which an earlier wait has left its mark.
\<close>

fun offence :: "pevent \<Rightarrow> plog \<Rightarrow> nat" where
  "offence (PRecv m w) l = (case pd_exc w of None \<Rightarrow> 0 | Some x \<Rightarrow> if is_Exception x then 0 else 1)"
| "offence (PWait _ _) l = (if wc_got_empty (lg_conn l) then 1 else 0)"
| "offence _ l = 0"

fun offences :: "pevent list \<Rightarrow> plog \<Rightarrow> nat" where
  "offences [] l = 0"
| "offences (e # es) l = offence e l + offences es (plog_step e l)"

definition log_ok :: "nat \<Rightarrow> plog \<Rightarrow> bool" where
  "log_ok k l \<longleftrightarrow> subseq (lg_got l) (lg_sent l) \<and>
     (usable (lg_conn l) \<longrightarrow> subseq (lg_got l @ waiting (lg_conn l)) (lg_sent l) \<and>
        length (lg_sent l) \<le> length (lg_got l) + length (waiting (lg_conn l)) + k) \<and>
     (k = 0 \<longrightarrow> prefix (lg_got l) (lg_sent l) \<and> (usable (lg_conn l) \<longrightarrow> lg_sent l = lg_got l @ waiting (lg_conn l)))"

text \<open>
  What a step does with the messages \<open>arr\<close> that are sent during it: it leaves them waiting, or takes the first that waits
  and gives it to the reader, or, where there is an offence, to nobody.
\<close>

definition moves :: "plog \<Rightarrow> plog \<Rightarrow> bool \<Rightarrow> bool" where
  "moves l l' off \<longleftrightarrow> (\<exists>arr. lg_sent l' = lg_sent l @ arr \<and> (usable (lg_conn l') \<longrightarrow> usable (lg_conn l)) \<and>
     (lg_got l' = lg_got l \<and> (usable (lg_conn l') \<longrightarrow> waiting (lg_conn l') = waiting (lg_conn l) @ arr) \<or>
      (\<exists>b. lg_got l' = lg_got l @ [b] \<and> usable (lg_conn l) \<and> b # waiting (lg_conn l') = waiting (lg_conn l) @ arr) \<or>
      off \<and> lg_got l' = lg_got l \<and> (usable (lg_conn l') \<longrightarrow> (\<exists>b. b # waiting (lg_conn l') = waiting (lg_conn l) @ arr))))"

lemma moves_ok:
  assumes l: "log_ok k l" and m: "moves l l' off"
  shows "log_ok (k + (if off then 1 else 0)) l'"
proof -
  let ?c = "lg_conn l" and ?c' = "lg_conn l'"
  obtain arr where arr: "lg_sent l' = lg_sent l @ arr" "usable ?c' \<longrightarrow> usable ?c" and ways:
     "lg_got l' = lg_got l \<and> (usable ?c' \<longrightarrow> waiting ?c' = waiting ?c @ arr) \<or>
      (\<exists>b. lg_got l' = lg_got l @ [b] \<and> usable ?c \<and> b # waiting ?c' = waiting ?c @ arr) \<or>
      off \<and> lg_got l' = lg_got l \<and> (usable ?c' \<longrightarrow> (\<exists>b. b # waiting ?c' = waiting ?c @ arr))"
    using m unfolding moves_def by blast
  have got: "subseq (lg_got l) (lg_sent l')" using l arr(1) unfolding log_ok_def by (simp add: list_emb_prefix)
  have all: "subseq (lg_got l @ waiting ?c @ arr) (lg_sent l')" "length (lg_sent l') \<le> length (lg_got l) + length (waiting ?c @ arr) + k"
    if "usable ?c"
    using l arr(1) that list_emb_append_mono [of "(=)" "lg_got l @ waiting ?c" "lg_sent l" arr arr] unfolding log_ok_def by auto
  have whole: "prefix (lg_got l) (lg_sent l')" "usable ?c \<Longrightarrow> lg_sent l' = lg_got l @ waiting ?c @ arr" if "k = 0"
    using l that arr(1) unfolding log_ok_def by auto
  from ways consider (keep) "lg_got l' = lg_got l" "usable ?c' \<longrightarrow> waiting ?c' = waiting ?c @ arr"
    | (give) b where "lg_got l' = lg_got l @ [b]" "usable ?c" "b # waiting ?c' = waiting ?c @ arr"
    | (drop) "off" "lg_got l' = lg_got l" "usable ?c' \<longrightarrow> (\<exists>b. b # waiting ?c' = waiting ?c @ arr)" by blast
  then show ?thesis
  proof cases
    case keep
    then show ?thesis using got all whole arr(2) unfolding log_ok_def by auto
  next
    case give
    have s: "subseq ((lg_got l @ [b]) @ waiting ?c') (lg_sent l')" using all(1) [OF give(2)] by (simp add: give(3) [symmetric])
    have sub: "subseq (lg_got l @ [b]) (lg_sent l')"
      using s by (rule subseq_order.trans [rotated]) (rule prefix_imp_subseq, simp)
    have len: "length (lg_sent l') \<le> length (lg_got l @ [b]) + length (waiting ?c') + (k + (if off then 1 else 0))"
      using all(2) [OF give(2)] unfolding give(3) [symmetric] by simp
    have w: "lg_sent l' = (lg_got l @ [b]) @ waiting ?c'" if "k + (if off then 1 else 0) = 0"
      using whole(2) [OF _ give(2)] that unfolding give(3) [symmetric] by simp
    have pre: "prefix (lg_got l @ [b]) (lg_sent l')" if "k + (if off then 1 else 0) = 0" using w [OF that] by (rule prefixI)
    show ?thesis unfolding log_ok_def give(1) by (intro conjI impI s sub len w pre)
  next
    case drop
    have "subseq (lg_got l @ waiting ?c') (lg_sent l') \<and> length (lg_sent l') \<le> length (lg_got l) + length (waiting ?c') + (k + 1)"
      if u: "usable ?c'"
    proof -
      obtain b where b: "b # waiting ?c' = waiting ?c @ arr" using drop(3) u by blast
      have "subseq (lg_got l @ waiting ?c') (lg_got l @ b # waiting ?c')" by (rule list_emb_append_mono) auto
      then show ?thesis using all u arr(2) unfolding b [symmetric] by (auto intro: subseq_order.trans)
    qed
    then show ?thesis using drop(1,2) got unfolding log_ok_def by simp
  qed
qed

lemma wpoll_queue:
  "wp (wpoll True forever (ms, False)) (\<lambda>b c'. usable c' = usable c \<and> waiting c' = waiting c @ (if poll_waits c then ms else []) \<and>
       (b \<longleftrightarrow> waiting c' \<noteq> []))
     (\<lambda>_ c'. usable c' = usable c \<and> waiting c' = waiting c @ (if poll_waits c then ms else [])) c"
proof (cases "poll_waits c")
  case True
  then have p: "wpoll True forever (ms, False) c = wait_one True forever (ms, False) c" and n: "\<not> wc_got_empty c"
    and g: "waiting c = [] \<longrightarrow> \<not> pe_gone c"
    by (auto simp: poll_waits_def wpoll_def pipe_poll_def usable_def waiting_def act_defs)
  have "wp (wait_one True forever (ms, False)) (\<lambda>b c'. usable c' = usable c \<and> waiting c' = waiting c @ ms \<and> (b \<longleftrightarrow> waiting c' \<noteq> []))
     (\<lambda>_ c'. usable c' = usable c \<and> waiting c' = waiting c @ ms) c"
    using True g unfolding poll_waits_def
    by (auto simp: wp_def wait_one_eq Let_def arrive_def queue_defs read_zero_def split: list.splits)
  then show ?thesis using True unfolding wp_def p by simp
next
  case False
  then show ?thesis
    by (auto simp: wp_def wpoll_def pipe_poll_def act_defs poll_waits_def queue_defs peek_total_def)
qed

lemma wait_marked_queue:
  assumes "wc_got_empty c"
  shows "wp (wait_one True forever arr)
     (\<lambda>b c'. wc_handle c \<noteq> None \<and> usable c' = usable c \<and> (waiting c' = waiting c @ fst arr \<or> (\<exists>b. b # waiting c' = waiting c @ fst arr)))
     (\<lambda>_ c'. usable c' = usable c \<and> waiting c' = waiting c @ (if wc_handle c = None then [] else fst arr)) c"
  using assms
  by (auto simp: wp_def wait_one_eq Let_def arrive_def queue_defs read_zero_def split: list.splits)

lemma step_moves: "moves l (plog_step e l) (offence e l = 1) \<and> offence e l \<le> 1"
proof -
  let ?c = "lg_conn l"
  show ?thesis
  proof (cases e)
    case (PSend buf r)
    have "usable (snd (pipe_send buf r ?c)) = usable ?c" "waiting (snd (pipe_send buf r ?c)) = waiting ?c @ sent_by buf r"
      by (auto simp: pipe_send_def sent_by_def arrive_def queue_defs act_defs split: option.split)
    then show ?thesis by (simp add: PSend moves_def)
  next
    case (PRecv m w)
    show ?thesis
    proof (cases "offence e l = 0")
      case True
      then have "is_Exception x" if "pd_exc w = Some x" for x using that by (auto simp: PRecv split: if_splits)
      from recv_queue [of w m ?c, OF this] True show ?thesis
        by (auto simp: PRecv moves_def wp_def Let_def split: prod.splits sum.splits)
    next
      case False
      then obtain x where "pd_exc w = Some x" "\<not> is_Exception x" by (auto simp: PRecv split: option.splits if_splits)
      from interrupted_queue [OF this, of m ?c] this show ?thesis
        by (auto simp: PRecv moves_def wp_def Let_def split: prod.splits sum.splits)
    qed
  next
    case (PPoll f ms)
    from wpoll_queue [of f ms ?c] show ?thesis
      by (auto simp: PPoll moves_def wp_def split: prod.splits sum.splits)
  next
    case (PWait f ms)
    show ?thesis using wait_one_queue [of ?c f "(ms, False)"] wait_marked_queue [of ?c f "(ms, False)"]
      by (cases "wc_got_empty ?c") (auto simp: PWait moves_def wp_def usable_def split: prod.splits sum.splits)
  next
    case PHangUp
    then show ?thesis by (simp add: moves_def arrive_def queue_defs)
  qed
qed

lemma log_run_ok: "log_ok k l \<Longrightarrow> log_ok (k + offences es l) (fold plog_step es l)"
proof (induction es arbitrary: k l)
  case (Cons e es)
  have "log_ok (k + offence e l) (plog_step e l)"
    using moves_ok [OF Cons.prems conjunct1 [OF step_moves], of e] step_moves [of l e] by (cases "offence e l") auto
  from Cons.IH [OF this] show ?case by (simp add: add.assoc)
qed simp




section \<open>Waiting for several objects at once\<close>

definition now_ready :: "wworld \<Rightarrow> wobj \<Rightarrow> bool" where
  "now_ready w p \<longleftrightarrow> (case p of WHandle _ \<Rightarrow> False | WPipe i \<Rightarrow> pe_msgs (ww_pipe w i) \<noteq> [] \<or> pe_gone (ww_pipe w i))"

lemma now_ready_simps [simp]:
  "\<not> now_ready w (WHandle h)" "now_ready w (WPipe i) \<longleftrightarrow> pe_msgs (ww_pipe w i) \<noteq> [] \<or> pe_gone (ww_pipe w i)"
  by (simp_all add: now_ready_def)

lemma set_pipe_other: "now_ready (set_pipe i c w) p = (if p = WPipe i then pe_msgs c \<noteq> [] \<or> pe_gone c else now_ready w p)"
  by (cases p) (auto simp: set_pipe_def)

lemma set_pipe_same: "set_pipe i (ww_pipe w i) w = w"
  by (simp add: set_pipe_def)

lemma start_reads_eq:
  "(\<And>i. WPipe i \<in> set objs \<Longrightarrow> wc_handle (ww_pipe w i) \<noteq> None) \<Longrightarrow>
   start_reads True objs w = ((None, filter (\<lambda>p. \<not> now_ready w p) objs, filter (now_ready w) objs), w)"
proof (induction objs)
  case (Cons p objs)
  then have ih: "start_reads True objs w = ((None, filter (\<lambda>p. \<not> now_ready w p) objs, filter (now_ready w) objs), w)" by simp
  have "read_zero True c = c" for c by (simp add: read_zero_def split: list.split)
  then show ?case using ih Cons.prems by (cases p) (auto simp: Let_def set_pipe_same)
qed simp

text \<open>The end of the reads: the pending pipes that have something are ready, and an empty message read becomes a mark.\<close>

lemma end_reads_eq:
  "distinct pend \<Longrightarrow> fst (end_reads pend w) = filter (now_ready w) pend"
proof (induction pend arbitrary: w)
  case (Cons p pend)
  show ?case
  proof (cases p)
    case (WPipe i)
    have "filter (now_ready (set_pipe i c w)) pend = filter (now_ready w) pend" for c
      using Cons.prems WPipe by (intro filter_cong) (auto simp: set_pipe_other)
    then show ?thesis using Cons by (auto simp: WPipe Let_def split: prod.split list.split) (metis fst_conv)+
  qed (use Cons in auto)
qed simp

lemma end_reads_queue:
  "distinct pend \<Longrightarrow> (\<And>j. WPipe j \<in> set pend \<Longrightarrow> \<not> wc_got_empty (ww_pipe w j)) \<Longrightarrow>
   waiting (ww_pipe (snd (end_reads pend w)) i) = waiting (ww_pipe w i)"
proof (induction pend arbitrary: w)
  case (Cons p pend)
  show ?case
  proof (cases p)
    case (WPipe j)
    let ?c = "case pe_msgs (ww_pipe w j) of [] # ms \<Rightarrow> (ww_pipe w j)\<lparr>pe_msgs := ms, wc_got_empty := True\<rparr> | _ \<Rightarrow> ww_pipe w j"
    have n: "\<not> wc_got_empty (ww_pipe w j)" using Cons.prems(2) WPipe by simp
    have "waiting ?c = waiting (ww_pipe w j)" using n by (auto simp: waiting_def split: list.split)
    then have c: "waiting (ww_pipe (set_pipe j ?c w) i) = waiting (ww_pipe w i)" by (simp add: set_pipe_def)
    have "waiting (ww_pipe (snd (end_reads pend (set_pipe j ?c w))) i) = waiting (ww_pipe (set_pipe j ?c w) i)"
      by (rule Cons.IH) (use Cons.prems WPipe in \<open>auto simp: set_pipe_def\<close>)
    moreover have "snd (end_reads (p # pend) w) =
        snd (end_reads pend (if pe_msgs (ww_pipe w j) = [] \<and> \<not> pe_gone (ww_pipe w j) then w else set_pipe j ?c w))"
      by (simp add: WPipe Let_def split: prod.split)
    ultimately show ?thesis using Cons.IH [of w] Cons.prems c by simp
  qed (use Cons in auto)
qed simp

text \<open>
  C33. \<open>wait\<close> for several objects reports exactly those that are ready when it ends, in the order of its argument, and waits on only when
  it may wait forever and none is; and no message of any connection is lost, for connections that no earlier wait has marked.
\<close>

theorem wait_exact:
  assumes d: "distinct objs" "length objs \<le> lim" "lim \<le> 128"
    and c: "\<And>i. WPipe i \<in> set objs \<Longrightarrow> wc_handle (ww_pipe w i) \<noteq> None \<and> \<not> wc_got_empty (ww_pipe w i)"
    and m: "m = meanwhile arr st w"
  shows "\<exists>w'. win_wait lim True forever arr st objs w =
       (let rs = filter (\<lambda>p. signalled m p \<noteq> Unsignaled) objs in if rs = [] \<and> objs \<noteq> [] \<and> forever then Inl Blocks else Inr rs, w') \<and>
     (\<forall>i. waiting (ww_pipe w' i) = waiting (ww_pipe w i) @ fst (arr i))"
proof -
  let ?pend = "filter (\<lambda>p. \<not> now_ready w p) objs" and ?ready = "filter (now_ready w) objs"
  let ?sig = "\<lambda>p. signalled m p \<noteq> Unsignaled"
  have s: "start_reads True objs w = ((None, ?pend, ?ready), w)" by (rule start_reads_eq) (use c in blast)
  have "length ?pend \<le> lim" using d(2) le_trans length_filter_le by blast
  then have x: "exhaustive_wait lim (signalled m) ?pend = Inr (filter ?sig ?pend)" using d(3) by (rule exhaustive_wait_exact)
  obtain r w' where e: "end_reads ?pend m = (r, w')" by fastforce
  have r: "r = filter (now_ready m) ?pend" using end_reads_eq [of ?pend m] d(1) e by simp
  have sig: "now_ready m p \<Longrightarrow> ?sig p" "now_ready w p \<Longrightarrow> ?sig p" for p
    by (cases p; auto simp: m meanwhile_def arrive_def)+
  have res: "filter (\<lambda>p. p \<in> set ?ready \<union> set r \<union> set (filter ?sig ?pend)) objs = filter ?sig objs"
    unfolding r using sig by (intro filter_cong) auto
  have none: "filter ?sig ?pend = [] \<and> ?pend \<noteq> [] \<and> ?ready = [] \<longleftrightarrow> filter ?sig objs = [] \<and> objs \<noteq> []"
  proof (cases objs)
    case (Cons p ps)
    then show ?thesis using sig(2) by (auto simp: filter_empty_conv)
  qed simp
  have q: "waiting (ww_pipe m i) = waiting (ww_pipe w i) @ fst (arr i)" for i
    by (simp add: m meanwhile_def arrive_def waiting_def)
  have "waiting (ww_pipe (snd (end_reads ?pend m)) i) = waiting (ww_pipe m i)" for i
    by (rule end_reads_queue) (use d(1) c in \<open>auto simp: m meanwhile_def arrive_def\<close>)
  then have w': "waiting (ww_pipe w' i) = waiting (ww_pipe w i) @ fst (arr i)" for i using e q by simp
  show ?thesis
  proof (cases "filter ?sig objs = [] \<and> objs \<noteq> [] \<and> forever")
    case True
    then have "win_wait lim True forever arr st objs w = (Inl Blocks, m)"
      unfolding win_wait_def s using x none by (simp add: Let_def m [symmetric])
    then show ?thesis using True q by (auto simp: Let_def)
  next
    case False
    have f: "\<not> (filter ?sig ?pend = [] \<and> ?pend \<noteq> [] \<and> ?ready = [] \<and> forever)" using False none by blast
    have A: "win_wait lim True forever arr st objs w = (Inr (filter ?sig objs), w')"
      unfolding win_wait_def s using f
      by (simp only: prod.case option.case Let_def m [symmetric] x sum.case e res [symmetric] if_False)
    have B: "(if filter ?sig objs = [] \<and> objs \<noteq> [] \<and> forever then Inl Blocks else Inr (filter ?sig objs)) = Inr (filter ?sig objs)"
      using False by (rule if_not_P)
    show ?thesis unfolding Let_def A B by (intro exI [of _ w'] conjI refl allI w')
  qed
qed

theorem wait_exact_witness:
  "\<exists>w w'. win_wait 63 True True (\<lambda>i. if i = 1 then ([[]], False) else ([], False)) (\<lambda>_. Abandoned) [WPipe 0, WHandle 4, WPipe 1] w =
      (Inr [WHandle 4, WPipe 1], w') \<and> waiting (ww_pipe w' 1) = [[]]"
proof -
  let ?c = "\<lparr>pe_msgs = [], pe_gone = False, wc_handle = Some 5, wc_readable = True, wc_writable = False, wc_got_empty = False\<rparr>"
  let ?w = "\<lparr>ww_pipe = (\<lambda>_. ?c), ww_status = (\<lambda>_. Unsignaled)\<rparr>" and ?arr = "\<lambda>i. if i = 1 then ([[] :: bytes], False) else ([], False)"
  let ?m = "meanwhile ?arr (\<lambda>_. Abandoned) ?w"
  have f: "filter (\<lambda>p. signalled ?m p \<noteq> Unsignaled) [WPipe 0, WHandle 4, WPipe 1] = [WHandle 4, WPipe 1]"
    by (simp add: meanwhile_def arrive_def)
  obtain w' where w': "win_wait 63 True True ?arr (\<lambda>_. Abandoned) [WPipe 0, WHandle 4, WPipe 1] ?w =
     (let rs = filter (\<lambda>p. signalled ?m p \<noteq> Unsignaled) [WPipe 0, WHandle 4, WPipe 1] in
       if rs = [] \<and> [WPipe 0, WHandle 4, WPipe 1] \<noteq> [] \<and> True then Inl Blocks else Inr rs, w')"
    "\<forall>i. waiting (ww_pipe w' i) = waiting (ww_pipe ?w i) @ fst (?arr i)"
    using wait_exact [of "[WPipe 0, WHandle 4, WPipe 1]" 63 ?w ?m ?arr "\<lambda>_. Abandoned" True] by auto
  have "waiting (ww_pipe w' 1) = [[]]" using w'(2) by (simp add: waiting_def)
  with w'(1) show ?thesis unfolding f Let_def by (intro exI [of _ ?w] exI [of _ w']) simp
qed

end
