(* ===== verification/Endpoints.thy ===== *)
theory Endpoints
  imports Windows_Connection
begin

text \<open>
  Where connections come from and what is put on them, from \<open>billiard/connection.py\<close>: \<open>SocketListener\<close>, \<open>PipeListener\<close> and
  \<open>PipeClient\<close> with the handles they hold, \<open>ConnectionWrapper\<close> with the xmlrpc variants, and the pickling of connections.

  What a wrapper needs of its connection is the locale \<open>byte_channel\<close>, which a connection over a named pipe provides.
\<close>

section \<open>SocketListener\<close>

text \<open>
  A listener as the system sees it: whether its socket is open and whether its file exists (for \<open>AF_UNIX\<close>), and \<open>_unlink\<close>.
  Each call of the constructor may fail; the file is made by \<open>bind\<close>.
\<close>

datatype scall = SSetsockopt | SSetblocking | SBind | SListen | SGetsockname

record slistener =
  sl_open :: bool
  sl_file :: bool
  sl_unlink :: bool
  sl_unlinks :: nat

definition scall :: "(scall \<Rightarrow> exn option) \<Rightarrow> scall \<Rightarrow> (slistener, unit) act" where
  "scall env c = (case env c of Some e \<Rightarrow> raise e | None \<Rightarrow> ret ())"

definition SocketListener :: "bool \<Rightarrow> bool \<Rightarrow> (scall \<Rightarrow> exn option) \<Rightarrow> (slistener, unit) act" where
  "SocketListener posix unix env =
     bindA (modifyA (\<lambda>s. s\<lparr>sl_open := True\<rparr>)) (\<lambda>_.
     bindA (catchA
       (bindA (if posix then scall env SSetsockopt else ret ()) (\<lambda>_.
        bindA (scall env SSetblocking) (\<lambda>_.
        bindA (scall env SBind) (\<lambda>_.
        bindA (modifyA (\<lambda>s. if unix then s\<lparr>sl_file := True\<rparr> else s)) (\<lambda>_.
        bindA (scall env SListen) (\<lambda>_. scall env SGetsockname))))))
       (\<lambda>e. case e of OSError _ \<Rightarrow> bindA (modifyA (\<lambda>s. s\<lparr>sl_open := False\<rparr>)) (\<lambda>_. raise e) | _ \<Rightarrow> raise e)) (\<lambda>_.
     modifyA (\<lambda>s. s\<lparr>sl_unlink := unix\<rparr>)))"

definition socket_listener_close :: "exn option \<Rightarrow> (slistener, unit) act" where
  "socket_listener_close err =
     finallyA (bindA (modifyA (\<lambda>s. s\<lparr>sl_open := False\<rparr>)) (\<lambda>_. case err of None \<Rightarrow> ret () | Some e \<Rightarrow> raise e))
       (readA (\<lambda>s. whenA (sl_unlink s) (modifyA (\<lambda>s. s\<lparr>sl_unlink := False, sl_file := False, sl_unlinks := Suc (sl_unlinks s)\<rparr>))))"

text \<open>A listener that is made and closed, any number of times and whatever \<open>close\<close> of the socket does, leaves nothing, and its file is unlinked once.\<close>

lemma close_leaves_nothing:
  assumes "SocketListener posix unix env \<lparr>sl_open = False, sl_file = False, sl_unlink = False, sl_unlinks = 0\<rparr> = (Inr (), s)"
  shows "fold (\<lambda>err s. snd (socket_listener_close err s)) (err # errs) s =
    \<lparr>sl_open = False, sl_file = False, sl_unlink = False, sl_unlinks = (if unix then 1 else 0)\<rparr>"
proof -
  let ?e = "\<lparr>sl_open = False, sl_file = False, sl_unlink = False, sl_unlinks = (if unix then 1 else 0)\<rparr>"
  have "sl_unlink s = unix" "sl_file s = unix" "sl_unlinks s = 0" using assms
    by (auto simp: SocketListener_def scall_def act_defs split: option.splits if_splits exn.splits)
  then have 1: "snd (socket_listener_close err s) = ?e" for err
    by (cases s) (simp add: socket_listener_close_def act_defs split: option.split)
  have 2: "snd (socket_listener_close err ?e) = ?e" for err
    by (simp add: socket_listener_close_def act_defs split: option.split)
  have "fold (\<lambda>err s. snd (socket_listener_close err s)) errs ?e = ?e"
    by (induction errs) (use 2 in \<open>simp_all del: if_split\<close>)
  then show ?thesis using 1 by simp
qed

text \<open>When \<open>listen\<close> fails, the socket is closed, but the file \<open>bind\<close> has made stays.\<close>

lemma failed_listen_leaves_file:
  assumes "env SListen = Some (OSError n)" "\<And>c. c \<noteq> SListen \<Longrightarrow> env c = None"
  shows "SocketListener posix True env \<lparr>sl_open = False, sl_file = False, sl_unlink = False, sl_unlinks = 0\<rparr> =
    (Inl (OSError n), \<lparr>sl_open = False, sl_file = True, sl_unlink = False, sl_unlinks = 0\<rparr>)"
  using assms by (simp add: SocketListener_def scall_def act_defs)

section \<open>PipeListener and PipeClient\<close>

text \<open>The handles this process has opened on the pipe: the queue of the listener, those given to connections, and those nobody holds.\<close>

record plistener =
  pl_queue :: "nat list"       \<comment> \<open>\<open>_handle_queue\<close>\<close>
  pl_open :: "nat set"
  pl_next :: nat
  pl_given :: "nat set"
  pl_lost :: "nat set"         \<comment> \<open>no part of the code: handles that were taken from the queue and dropped\<close>
  pl_final :: bool             \<comment> \<open>the finalizer \<open>close\<close> has run\<close>

definition new_handle :: "exn option \<Rightarrow> (plistener, nat) act" where
  "new_handle err = (case err of
       Some e \<Rightarrow> raise e
     | None \<Rightarrow> readA (\<lambda>s. bindA (modifyA (\<lambda>s. s\<lparr>pl_next := Suc (pl_next s), pl_open := insert (pl_next s) (pl_open s)\<rparr>))
         (\<lambda>_. ret (pl_next s))))"

definition PipeListener :: "exn option \<Rightarrow> (plistener, unit) act" where
  "PipeListener err = bindA (new_handle err) (\<lambda>h. modifyA (\<lambda>s. s\<lparr>pl_queue := [h]\<rparr>))"

text \<open>
  What becomes of \<open>accept\<close> after the new handle is in the queue: \<open>ConnectNamedPipe\<close> fails, the wait is interrupted (and the
  client has connected before the cancel or not), or a client connects.
\<close>

datatype accepting = ConnectFails exn | Interrupted exn bool | Connected

definition close_handle :: "nat \<Rightarrow> (plistener, unit) act" where
  "close_handle h = modifyA (\<lambda>s. s\<lparr>pl_open := pl_open s - {h}\<rparr>)"

definition give :: "nat \<Rightarrow> (plistener, nat) act" where
  "give h = bindA (modifyA (\<lambda>s. s\<lparr>pl_given := insert h (pl_given s)\<rparr>)) (\<lambda>_. ret h)"

definition pipe_accept :: "exn option \<Rightarrow> accepting \<Rightarrow> (plistener, nat) act" where
  "pipe_accept err a =
     bindA (new_handle err) (\<lambda>n.
     bindA (modifyA (\<lambda>s. s\<lparr>pl_queue := pl_queue s @ [n]\<rparr>)) (\<lambda>_. readA (\<lambda>s.
     let h = hd (pl_queue s) in
     bindA (modifyA (\<lambda>s. s\<lparr>pl_queue := tl (pl_queue s)\<rparr>)) (\<lambda>_.
     case a of
       ConnectFails e \<Rightarrow>
         if e = OSError ERROR_NO_DATA then give h
         else bindA (modifyA (\<lambda>s. s\<lparr>pl_lost := insert h (pl_lost s)\<rparr>)) (\<lambda>_. raise e)
     | Interrupted e connected \<Rightarrow>
         finallyA (bindA (close_handle h) (\<lambda>_. raise e)) (assertA (\<lambda>_. connected) AssertionError)
     | Connected \<Rightarrow> give h))))"

definition finalize_pipe_listener :: "(plistener, unit) act" where
  "finalize_pipe_listener = readA (\<lambda>s. whenA (\<not> pl_final s)
     (modifyA (\<lambda>s. s\<lparr>pl_open := pl_open s - set (pl_queue s), pl_final := True\<rparr>)))"

definition pipe_listener0 :: plistener where
  "pipe_listener0 = \<lparr>pl_queue = [], pl_open = {}, pl_next = 0, pl_given = {}, pl_lost = {}, pl_final = False\<rparr>"

definition pl_ok :: "plistener \<Rightarrow> bool" where
  "pl_ok s \<longleftrightarrow> pl_open s = set (pl_queue s) \<union> pl_given s \<union> pl_lost s \<and> distinct (pl_queue s) \<and> pl_queue s \<noteq> [] \<and>
     set (pl_queue s) \<inter> (pl_given s \<union> pl_lost s) = {} \<and> pl_given s \<inter> pl_lost s = {} \<and> pl_open s \<subseteq> {..< pl_next s} \<and> \<not> pl_final s"

definition with_new :: "plistener \<Rightarrow> plistener" where
  "with_new s = s\<lparr>pl_queue := tl (pl_queue s) @ [pl_next s], pl_open := insert (pl_next s) (pl_open s), pl_next := Suc (pl_next s)\<rparr>"

lemma pipe_accept_eq:
  assumes "pl_queue s = q # qs"
  shows "pipe_accept (Some e) a s = (Inl e, s)"
    "pipe_accept None Connected s = (Inr q, (with_new s)\<lparr>pl_given := insert q (pl_given s)\<rparr>)"
    "pipe_accept None (ConnectFails e) s =
       (if e = OSError ERROR_NO_DATA then (Inr q, (with_new s)\<lparr>pl_given := insert q (pl_given s)\<rparr>)
        else (Inl e, (with_new s)\<lparr>pl_lost := insert q (pl_lost s)\<rparr>))"
    "pipe_accept None (Interrupted e b) s =
       (Inl (if b then e else AssertionError), (with_new s)\<lparr>pl_open := insert (pl_next s) (pl_open s) - {q}\<rparr>)"
  using assms by (simp_all add: pipe_accept_def new_handle_def give_def close_handle_def with_new_def act_defs Let_def)

lemma pl_ok_moves:
  assumes s: "pl_ok s" and q: "pl_queue s = q # qs"
  shows "pl_ok ((with_new s)\<lparr>pl_given := insert q (pl_given s)\<rparr>)" "pl_ok ((with_new s)\<lparr>pl_lost := insert q (pl_lost s)\<rparr>)"
    "pl_ok ((with_new s)\<lparr>pl_open := insert (pl_next s) (pl_open s) - {q}\<rparr>)"
proof -
  have o: "pl_open s = insert q (set qs) \<union> pl_given s \<union> pl_lost s" "q \<notin> set qs" "distinct qs" "pl_open s \<subseteq> {..< pl_next s}"
    "insert q (set qs) \<inter> (pl_given s \<union> pl_lost s) = {}" "pl_given s \<inter> pl_lost s = {}" "\<not> pl_final s"
    using s q by (auto simp: pl_ok_def)
  have n: "pl_next s \<notin> pl_open s" "q \<noteq> pl_next s" "pl_next s \<notin> set qs" "pl_next s \<notin> pl_given s" "pl_next s \<notin> pl_lost s"
    using o by auto
  have l: "insert (pl_next s) (pl_open s) \<subseteq> {..< Suc (pl_next s)}" using o(4) by auto
  show "pl_ok ((with_new s)\<lparr>pl_given := insert q (pl_given s)\<rparr>)" "pl_ok ((with_new s)\<lparr>pl_lost := insert q (pl_lost s)\<rparr>)"
    "pl_ok ((with_new s)\<lparr>pl_open := insert (pl_next s) (pl_open s) - {q}\<rparr>)"
    using o n l q unfolding pl_ok_def with_new_def by auto
qed

text \<open>Every \<open>accept\<close> leaves the listener with a handle to listen on; only a failing \<open>ConnectNamedPipe\<close> drops one.\<close>

lemma pipe_accept_ok:
  assumes s: "pl_ok s"
  shows "pl_ok (snd (pipe_accept err a s))"
proof -
  obtain q qs where q: "pl_queue s = q # qs" using s by (cases "pl_queue s") (auto simp: pl_ok_def)
  note m = pl_ok_moves [OF s q] and e = pipe_accept_eq [OF q]
  show ?thesis using s by (cases err; cases a) (simp_all add: e m)
qed

lemma accepts_ok: "pl_ok s \<Longrightarrow> pl_ok (fold (\<lambda>(err, a) s. snd (pipe_accept err a s)) as s)"
  by (induction as arbitrary: s) (auto dest: pipe_accept_ok)

definition drops :: "exn option \<times> accepting \<Rightarrow> bool" where
  "drops x = (case x of (None, ConnectFails e) \<Rightarrow> e \<noteq> OSError ERROR_NO_DATA | _ \<Rightarrow> False)"

lemma accept_drops:
  assumes "pl_ok s" "finite (pl_lost s)"
  shows "card (pl_lost (snd (pipe_accept err a s))) = card (pl_lost s) + (if drops (err, a) then 1 else 0) \<and>
    finite (pl_lost (snd (pipe_accept err a s)))"
proof -
  obtain q qs where q: "pl_queue s = q # qs" "q \<notin> pl_lost s" using assms(1) by (cases "pl_queue s") (auto simp: pl_ok_def)
  show ?thesis using assms(2) q(2) by (cases err; cases a) (simp_all add: pipe_accept_eq [OF q(1)] drops_def with_new_def)
qed

lemma accepts_drop:
  "pl_ok s \<Longrightarrow> finite (pl_lost s) \<Longrightarrow>
    card (pl_lost (fold (\<lambda>(err, a) s. snd (pipe_accept err a s)) as s)) = card (pl_lost s) + length (filter drops as)"
proof (induction as arbitrary: s)
  case (Cons x as)
  obtain err a where x: "x = (err, a)" by fastforce
  from accept_drops [OF Cons.prems, of err a] Cons.IH [OF pipe_accept_ok [OF Cons.prems(1)]] show ?case by (simp add: x)
qed simp

text \<open>
  C36. A pipe listener: after any history of \<open>accept\<close> it has a handle to listen on, and when it is closed, the handles that are
  open are those of the connections it has given out and those a failing \<open>ConnectNamedPipe\<close> has dropped, whose number is that of the failures.
\<close>

theorem listener_handles:
  assumes "PipeListener None pipe_listener0 = (Inr (), s0)"
    and s: "s = fold (\<lambda>(err, a) s. snd (pipe_accept err a s)) as s0"
  shows "pl_queue s \<noteq> [] \<and> set (pl_queue s) \<subseteq> pl_open s \<and> pl_open (snd (finalize_pipe_listener s)) = pl_given s \<union> pl_lost s \<and>
    pl_given s \<inter> pl_lost s = {} \<and> card (pl_lost s) = length (filter drops as)"
proof -
  have "s0 = pipe_listener0\<lparr>pl_next := 1, pl_open := {0}, pl_queue := [0]\<rparr>" using assms(1)
    by (simp add: PipeListener_def new_handle_def pipe_listener0_def act_defs)
  then have 0: "pl_ok s0" "pl_lost s0 = {}" by (simp_all add: pipe_listener0_def pl_ok_def)
  have "pl_ok s" unfolding s by (rule accepts_ok [OF 0(1)])
  then have o: "pl_open s = set (pl_queue s) \<union> pl_given s \<union> pl_lost s" "set (pl_queue s) \<inter> (pl_given s \<union> pl_lost s) = {}"
    "pl_queue s \<noteq> []" "pl_given s \<inter> pl_lost s = {}" "\<not> pl_final s" unfolding pl_ok_def by blast+
  have c: "card (pl_lost s) = length (filter drops as)" unfolding s using accepts_drop [OF 0(1)] 0(2) by simp
  have "pl_open (snd (finalize_pipe_listener s)) = pl_open s - set (pl_queue s)"
    using o(5) by (simp add: finalize_pipe_listener_def act_defs)
  then have "pl_open (snd (finalize_pipe_listener s)) = pl_given s \<union> pl_lost s" using o(1,2) by blast
  then show ?thesis using o(1,3,4) c by blast
qed

theorem listener_handles_witness:
  "\<exists>s0 s. PipeListener None pipe_listener0 = (Inr (), s0) \<and>
    s = fold (\<lambda>(err, a) s. snd (pipe_accept err a s)) [(None, Connected), (None, ConnectFails (OSError 5)), (None, Interrupted KeyboardInterrupt False)] s0 \<and>
    pl_open (snd (finalize_pipe_listener s)) = pl_given s \<union> pl_lost s \<and> card (pl_lost s) = 1"
proof -
  let ?as = "[(None, Connected), (None, ConnectFails (OSError 5)), (None, Interrupted KeyboardInterrupt False)]"
  let ?init = "pipe_listener0\<lparr>pl_next := 1, pl_open := {0}, pl_queue := [0]\<rparr>"
  let ?s = "fold (\<lambda>(err, a) s. snd (pipe_accept err a s)) ?as ?init"
  have s0: "PipeListener None pipe_listener0 = (Inr (), ?init)"
    by (simp add: PipeListener_def new_handle_def pipe_listener0_def act_defs)
  have f: "length (filter drops ?as) = 1" by (simp add: drops_def ERROR_NO_DATA_def)
  note l = listener_handles [OF s0 refl, of ?as, THEN conjunct2, THEN conjunct2]
  show ?thesis
    by (rule exI [of _ ?init], rule exI [of _ ?s]) (rule conjI [OF s0 conjI [OF refl conjI [OF l [THEN conjunct1] l [THEN conjunct2, THEN conjunct2, unfolded f]]]])
qed

text \<open>An interrupted \<open>accept\<close> raises \<open>AssertionError\<close> in place of the interruption: the cancelled operation has no result 0.\<close>

lemma interrupted_accept:
  "pl_queue s \<noteq> [] \<Longrightarrow> fst (pipe_accept None (Interrupted KeyboardInterrupt False) s) = Inl AssertionError"
  by (cases "pl_queue s") (simp_all add: pipe_accept_eq)

text \<open>\<open>PipeClient\<close> tries until it gets a handle, another error than the two it waits for, or its time is over.\<close>

fun PipeClient :: "((exn + int) \<times> bool) list \<Rightarrow> exn + wconn" where
  "PipeClient [] = Inl Blocks"
| "PipeClient ((Inr h, _) # _) = new_wconn h True True"
| "PipeClient ((Inl e, timed_out) # tries) =
     (case e of
        OSError n \<Rightarrow> if n \<notin> {ERROR_SEM_TIMEOUT, ERROR_PIPE_BUSY} \<or> timed_out then Inl e else PipeClient tries
      | _ \<Rightarrow> Inl e)"

lemma pipe_client_waits:
  "set busy \<subseteq> {(Inl (OSError ERROR_SEM_TIMEOUT), False), (Inl (OSError ERROR_PIPE_BUSY), False)} \<Longrightarrow>
   PipeClient (busy @ tries) = PipeClient tries"
proof (induction busy)
  case (Cons x busy)
  then have "x = (Inl (OSError ERROR_SEM_TIMEOUT), False) \<or> x = (Inl (OSError ERROR_PIPE_BUSY), False)" by simp
  then show ?case using Cons by (elim disjE) simp_all
qed simp


section \<open>ConnectionWrapper\<close>

text \<open>A wrapper takes over \<open>send_bytes\<close> and \<open>recv_bytes\<close> of its connection and serializes objects with its own two functions.\<close>

definition cw_send :: "(bytes \<Rightarrow> ('s, unit) act) \<Rightarrow> ('o \<Rightarrow> exn + bytes) \<Rightarrow> 'o \<Rightarrow> ('s, unit) act" where
  "cw_send put dumps obj = (case dumps obj of Inl e \<Rightarrow> raise e | Inr s \<Rightarrow> put s)"

definition cw_recv :: "('s, bytes) act \<Rightarrow> (bytes \<Rightarrow> exn + 'o) \<Rightarrow> ('s, 'o) act" where
  "cw_recv get loads = bindA get (\<lambda>s. case loads s of Inl e \<Rightarrow> raise e | Inr obj \<Rightarrow> ret obj)"

text \<open>\<open>xmlrpc.client\<close>: \<open>xd\<close> writes a tuple of parameters, \<open>xl\<close> reads the tuple and the name of the method.\<close>

definition xml_dumps :: "('o list \<Rightarrow> exn + 't) \<Rightarrow> ('t \<Rightarrow> exn + bytes) \<Rightarrow> 'o \<Rightarrow> exn + bytes" where
  "xml_dumps xd encode obj = (case xd [obj] of Inl e \<Rightarrow> Inl e | Inr t \<Rightarrow> encode t)"

definition xml_loads :: "('t \<Rightarrow> exn + ('o list \<times> 'n)) \<Rightarrow> (bytes \<Rightarrow> exn + 't) \<Rightarrow> bytes \<Rightarrow> exn + 'o" where
  "xml_loads xl decode s =
     (case decode s of Inl e \<Rightarrow> Inl e
      | Inr t \<Rightarrow> (case xl t of Inl e \<Rightarrow> Inl e | Inr ([obj], method) \<Rightarrow> Inr obj | Inr _ \<Rightarrow> Inl ValueError))"

fun each :: "('a \<Rightarrow> ('s, 'b) act) \<Rightarrow> 'a list \<Rightarrow> ('s, 'b list) act" where
  "each f [] = ret []"
| "each f (x # xs) = bindA (f x) (\<lambda>y. bindA (each f xs) (\<lambda>ys. ret (y # ys)))"

text \<open>What a wrapper needs of a connection: byte strings are received as they were sent, in order.\<close>

locale byte_channel =
  fixes queue :: "'s \<Rightarrow> bytes list" and ok :: "'s \<Rightarrow> bool"
    and put :: "bytes \<Rightarrow> ('s, unit) act" and get :: "('s, bytes) act"
  assumes put_law: "ok s \<Longrightarrow> \<exists>s'. put b s = (Inr (), s') \<and> ok s' \<and> queue s' = queue s @ [b]"
    and get_law: "ok s \<Longrightarrow> queue s = b # bs \<Longrightarrow> \<exists>s'. get s = (Inr b, s') \<and> ok s' \<and> queue s' = bs"
begin

lemma sends:
  "ok s \<Longrightarrow> \<forall>x \<in> set objs. dumps x = Inr (d x) \<Longrightarrow>
   \<exists>us s'. each (cw_send put dumps) objs s = (Inr us, s') \<and> ok s' \<and> queue s' = queue s @ map d objs"
proof (induction objs arbitrary: s)
  case (Cons x objs)
  from put_law [OF Cons.prems(1), of "d x"] obtain s1 where s1: "put (d x) s = (Inr (), s1)" "ok s1" "queue s1 = queue s @ [d x]" by blast
  from Cons.IH [OF s1(2)] Cons.prems(2) obtain us s' where
    "each (cw_send put dumps) objs s1 = (Inr us, s')" "ok s'" "queue s' = queue s1 @ map d objs" by auto
  moreover have "cw_send put dumps x s = (Inr (), s1)" using s1(1) Cons.prems(2) by (simp add: cw_send_def)
  ultimately show ?case using s1(3) by (simp add: bindA_def ret_def)
qed (simp add: ret_def)

lemma receives:
  "ok s \<Longrightarrow> queue s = map d objs @ rest \<Longrightarrow> \<forall>x \<in> set objs. loads (d x) = Inr x \<Longrightarrow>
   \<exists>s'. each (\<lambda>_. cw_recv get loads) objs s = (Inr objs, s') \<and> ok s' \<and> queue s' = rest"
proof (induction objs arbitrary: s)
  case (Cons x objs)
  then have "queue s = d x # (map d objs @ rest)" by simp
  from get_law [OF Cons.prems(1) this] obtain s1 where s1: "get s = (Inr (d x), s1)" "ok s1" "queue s1 = map d objs @ rest" by blast
  from Cons.IH [OF s1(2,3)] Cons.prems(3) obtain s' where
    "each (\<lambda>_. cw_recv get loads) objs s1 = (Inr objs, s')" "ok s'" "queue s' = rest" by auto
  moreover have "cw_recv get loads s = (Inr x, s1)" using s1(1) Cons.prems(3) by (simp add: cw_recv_def bindA_def ret_def)
  ultimately show ?case by (simp add: bindA_def ret_def)
qed (simp add: ret_def)

lemma round_trip:
  assumes "ok s" "queue s = []" and d: "\<forall>x \<in> set objs. dumps x = Inr (d x) \<and> loads (d x) = Inr x"
  shows "\<exists>us s1 s2. each (cw_send put dumps) objs s = (Inr us, s1) \<and> each (\<lambda>_. cw_recv get loads) objs s1 = (Inr objs, s2) \<and>
    ok s2 \<and> queue s2 = []"
proof -
  from sends [OF assms(1), of objs dumps d] d obtain us s1 where s1: "each (cw_send put dumps) objs s = (Inr us, s1)" "ok s1"
    "queue s1 = queue s @ map d objs" by blast
  from receives [OF s1(2), of d objs "[]" loads] s1(3) assms(2) d obtain s2 where
    "each (\<lambda>_. cw_recv get loads) objs s1 = (Inr objs, s2)" "ok s2" "queue s2 = []" by auto
  with s1(1) show ?thesis by blast
qed

end

lemma pipe_put: "usable c \<Longrightarrow> \<exists>c'. pipe_send b None c = (Inr (), c') \<and> usable c' \<and> waiting c' = waiting c @ [b]"
  by (simp add: pipe_send_def arrive_def queue_defs modifyA_def)

interpretation pc: byte_channel waiting usable "\<lambda>b. pipe_send b None" "wrecv_bytes None w" for w
proof unfold_locales
  show "\<exists>c'. pipe_send b None c = (Inr (), c') \<and> usable c' \<and> waiting c' = waiting c @ [b]" if "usable c" for c b
    using that by (rule pipe_put)
  show "\<exists>c'. wrecv_bytes None w c = (Inr b, c') \<and> usable c' \<and> waiting c' = bs" if "usable c" "waiting c = b # bs" for c b bs
    using that by (rule recv_next)
qed

text \<open>
  The xmlrpc connections: the objects sent over a named pipe are received in order, whatever their sizes, when \<open>xmlrpc.client\<close> reads
  what it has written and the encoding is undone by the decoding.
\<close>

theorem xml_objects_arrive:
  assumes c: "usable c" "waiting c = []"
    and xd: "\<forall>x \<in> set objs. \<exists>t b. xd [x] = Inr t \<and> encode t = Inr b \<and> decode b = Inr t \<and> xl t = Inr ([x], n)"
  shows "\<exists>us c1 c2. each (cw_send (\<lambda>b. pipe_send b None) (xml_dumps xd encode)) objs c = (Inr us, c1) \<and>
    each (\<lambda>_. cw_recv (wrecv_bytes None w) (xml_loads xl decode)) objs c1 = (Inr objs, c2) \<and> usable c2 \<and> waiting c2 = []"
proof -
  let ?d = "\<lambda>x. case xml_dumps xd encode x of Inr b \<Rightarrow> b | Inl _ \<Rightarrow> []"
  have "\<forall>x \<in> set objs. xml_dumps xd encode x = Inr (?d x) \<and> xml_loads xl decode (?d x) = Inr x"
    using xd by (fastforce simp: xml_dumps_def xml_loads_def)
  from pc.round_trip [OF c this] show ?thesis .
qed

theorem xml_objects_arrive_witness:
  "\<exists>us c1 c2. each (cw_send (\<lambda>b. pipe_send b None) (xml_dumps (\<lambda>xs. Inr (concat xs)) Inr)) [[1, 2], []]
      \<lparr>pe_msgs = [], pe_gone = False, wc_handle = Some 5, wc_readable = True, wc_writable = True, wc_got_empty = False\<rparr> = (Inr us, c1) \<and>
    each (\<lambda>_. cw_recv (wrecv_bytes None \<lparr>pd_msgs = [], pd_gone = False, pd_exc = None, pd_cancelled = False\<rparr>)
      (xml_loads (\<lambda>t. Inr ([t], ())) Inr)) ([[1, 2], []] :: bytes list) c1 = (Inr [[1, 2], []], c2) \<and> waiting c2 = []"
proof -
  let ?c = "\<lparr>pe_msgs = [], pe_gone = False, wc_handle = Some 5, wc_readable = True, wc_writable = True, wc_got_empty = False\<rparr>"
  let ?objs = "[[1, 2], []] :: bytes list"
  have c: "usable ?c" "waiting ?c = []" by (simp_all add: queue_defs)
  have x: "\<forall>x \<in> set ?objs. \<exists>t b. Inr (concat [x]) = (Inr t :: exn + bytes) \<and> Inr t = (Inr b :: exn + bytes) \<and> Inr b = (Inr t :: exn + bytes) \<and>
    Inr ([t], ()) = (Inr ([x], ()) :: exn + (bytes list \<times> unit))" by simp
  from xml_objects_arrive [of ?c ?objs "\<lambda>xs. Inr (concat xs)" Inr Inr "\<lambda>t. Inr ([t], ())" "()"
    "\<lparr>pd_msgs = [], pd_gone = False, pd_exc = None, pd_cancelled = False\<rparr>", OF c x] show ?thesis by blast
qed

section \<open>Pickling\<close>

text \<open>A connection is pickled as a handle that will be duplicated and the two flags; \<open>dupfd\<close> and \<open>detach_fd\<close> are those of \<open>DupFd\<close>.\<close>

definition reduce_connection :: "(int \<Rightarrow> exn + 'd) \<Rightarrow> conn \<Rightarrow> exn + ('d \<times> bool \<times> bool)" where
  "reduce_connection dupfd c =
     (case cn_handle c of None \<Rightarrow> Inl (OSError 0)
      | Some h \<Rightarrow> (case dupfd h of Inl e \<Rightarrow> Inl e | Inr df \<Rightarrow> Inr (df, cn_readable c, cn_writable c)))"

definition rebuild_connection :: "('d \<Rightarrow> exn + int) \<Rightarrow> chan \<Rightarrow> 'd \<times> bool \<times> bool \<Rightarrow> exn + conn" where
  "rebuild_connection detach_fd ch = (\<lambda>(df, readable, writable).
     case detach_fd df of Inl e \<Rightarrow> Inl e | Inr h \<Rightarrow> new_conn ch h readable writable)"

lemma connection_rebuilt:
  assumes "new_conn ch h r w = Inr c" "dupfd h = Inr df" "detach_fd df = Inr h'" "0 \<le> h'"
  shows "\<exists>p c'. reduce_connection dupfd c = Inr p \<and> rebuild_connection detach_fd ch' p = Inr c' \<and>
    cn_handle c' = Some h' \<and> cn_readable c' = r \<and> cn_writable c' = w"
  using assms by (auto simp: new_conn_def reduce_connection_def rebuild_connection_def chan.defs split: if_splits)

definition FILE_GENERIC_READ :: nat where "FILE_GENERIC_READ = 0x120089"
definition FILE_GENERIC_WRITE :: nat where "FILE_GENERIC_WRITE = 0x120116"

definition pipe_access :: "wconn \<Rightarrow> nat" where
  "pipe_access c = (if wc_readable c then FILE_GENERIC_READ else 0) OR (if wc_writable c then FILE_GENERIC_WRITE else 0)"

definition reduce_pipe_connection :: "nat \<Rightarrow> wconn \<Rightarrow> (win, dup_handle \<times> bool \<times> bool) act" where
  "reduce_pipe_connection me c =
     (case wc_handle c of None \<Rightarrow> raise (OSError 0)
      | Some h \<Rightarrow> bindA (DupHandle me (nat h) (pipe_access c) None) (\<lambda>dh. ret (dh, wc_readable c, wc_writable c)))"

definition rebuild_pipe_connection :: "nat \<Rightarrow> dup_handle \<times> bool \<times> bool \<Rightarrow> (win, wconn) act" where
  "rebuild_pipe_connection you = (\<lambda>(dh, readable, writable).
     bindA (detach you dh) (\<lambda>h. case new_wconn (int h) readable writable of Inl e \<Rightarrow> raise e | Inr c \<Rightarrow> ret c))"

text \<open>
  A pipe connection that is pickled in one process and rebuilt in another can do there what it could do here: its new handle is one of
  the same pipe with the rights of its direction and no others, and no handle of a process stays open.
\<close>

theorem pipe_connection_travels:
  assumes c: "new_wconn h r w = Inr c"
    and k: "wn_table k me (nat h) = Some (pipe, rights)" "me \<noteq> you" "{me, you} \<subseteq> set (wn_alive k)" "\<forall>p. \<forall>n \<ge> wn_next k. wn_table k p n = None"
  shows "\<exists>p k1 c' k2 n. reduce_pipe_connection me c k = (Inr p, k1) \<and> rebuild_pipe_connection you p k1 = (Inr c', k2) \<and>
    wc_handle c' = Some (int n) \<and> wn_table k2 you n = Some (pipe, pipe_access c) \<and> wc_readable c' = r \<and> wc_writable c' = w \<and>
    pipe_access c' = pipe_access c \<and> wn_opened k2 = wn_opened k"
proof -
  have f: "wc_handle c = Some h" "wc_readable c = r" "wc_writable c = w" "r \<or> w" using c by (auto simp: new_wconn_def split: if_splits)
  from dup_handle_moves [OF k(1-3), of None "pipe_access c"] k(4) obtain d k1 n k2 where
    d: "DupHandle me (nat h) (pipe_access c) None k = (Inr d, k1)" "detach you d k1 = (Inr n, k2)"
    "wn_table k2 you n = Some (pipe, pipe_access c)" "wn_opened k2 = wn_opened k" by auto
  let ?c' = "\<lparr>pe_msgs = [], pe_gone = False, wc_handle = Some (int n), wc_readable = r, wc_writable = w, wc_got_empty = False\<rparr>"
  have "reduce_pipe_connection me c k = (Inr (d, r, w), k1)" using f d by (simp add: reduce_pipe_connection_def act_defs)
  moreover have "rebuild_pipe_connection you (d, r, w) k1 = (Inr ?c', k2)"
    using d f(4) by (simp add: rebuild_pipe_connection_def new_wconn_def act_defs)
  moreover have "pipe_access ?c' = pipe_access c" using f by (simp add: pipe_access_def)
  ultimately show ?thesis using d by (intro exI [of _ "(d, r, w)"] exI [of _ k1] exI [of _ ?c'] exI [of _ k2] exI [of _ n]) simp
qed

theorem pipe_connection_travels_witness:
  "\<exists>c p k1 c' k2 n. new_wconn 4 True False = Inr c \<and>
    reduce_pipe_connection 1 c \<lparr>wn_table = (\<lambda>_ _. None)(1 := [4 \<mapsto> (9, 3)]), wn_next = 7, wn_alive = [1, 2], wn_opened = 0\<rparr> = (Inr p, k1) \<and>
    rebuild_pipe_connection 2 p k1 = (Inr c', k2) \<and> wc_handle c' = Some (int n) \<and> wn_table k2 2 n = Some (9, FILE_GENERIC_READ) \<and> wn_opened k2 = 0"
proof -
  let ?k = "\<lparr>wn_table = (\<lambda>_ _. None)(1 := [4 \<mapsto> (9, 3)]), wn_next = 7, wn_alive = [1, 2], wn_opened = 0\<rparr> :: win"
  let ?c = "\<lparr>pe_msgs = [], pe_gone = False, wc_handle = Some 4, wc_readable = True, wc_writable = False, wc_got_empty = False\<rparr>"
  have c: "new_wconn 4 True False = Inr ?c" by (simp add: new_wconn_def)
  have k: "wn_table ?k 1 (nat 4) = Some (9, 3)" "1 \<noteq> (2 :: nat)" "{1, 2} \<subseteq> set (wn_alive ?k)" "\<forall>p. \<forall>n \<ge> wn_next ?k. wn_table ?k p n = None"
    by auto
  have a: "pipe_access ?c = FILE_GENERIC_READ" by (simp add: pipe_access_def)
  from pipe_connection_travels [OF c k, unfolded a] c show ?thesis by auto
qed

end
