(* ===== verification/Queues.thy ===== *)
theory Queues
  imports Semlock Connection
begin

text \<open>
  \<open>Queue\<close>, \<open>JoinableQueue\<close> and \<open>SimpleQueue\<close> of \<open>billiard/queues.py\<close>. Every process that
  uses a queue has its own buffer and its own feeder thread; the pipe and the semaphore that bounds the
  queue are shared. The pipe is a list of messages (what \<open>Connection\<close> shows of it), each with the
  process that wrote it, which the code does not see. An operation is one step: \<open>get\<close> holds the
  reader's lock, a write the writer's lock, and \<open>put\<close> the lock of the buffer.
\<close>

section \<open>The state\<close>

datatype feeder = NoThread | Feeding | Ended

record 'o qproc =
  qp_buffer :: "'o option list"    \<comment> \<open>\<open>None\<close> is the sentinel\<close>
  qp_thread :: feeder
  qp_jointhread :: bool
  qp_joincancelled :: bool
  qp_closed :: bool
  qp_close :: bool                 \<comment> \<open>the finalizer \<open>_close\<close> is registered\<close>

record 'o queue =
  q_maxsize :: nat
  q_sem :: sem
  q_pipe :: "(nat \<times> bytes) list"
  q_opid :: nat
  q_procs :: "nat \<Rightarrow> 'o qproc"

text \<open>\<open>_after_fork\<close>: what a process starts with.\<close>

definition new_qproc :: "'o qproc" where
  "new_qproc = \<lparr>qp_buffer = [], qp_thread = NoThread, qp_jointhread = False, qp_joincancelled = False,
     qp_closed = False, qp_close = False\<rparr>"

definition queue_after_fork :: "nat \<Rightarrow> 'o queue \<Rightarrow> 'o queue" where
  "queue_after_fork p q = q\<lparr>q_procs := (q_procs q)(p := new_qproc)\<rparr>"

definition Queue :: "int \<Rightarrow> nat \<Rightarrow> 'o queue" where
  "Queue maxsize opid =
     (let m = (if maxsize \<le> 0 then nat SEM_VALUE_MAX else nat maxsize) in
      \<lparr>q_maxsize = m, q_sem = new_sem SEMAPHORE m (int m), q_pipe = [], q_opid = opid, q_procs = (\<lambda>_. new_qproc)\<rparr>)"

definition upd_proc :: "nat \<Rightarrow> ('o qproc \<Rightarrow> 'o qproc) \<Rightarrow> 'o queue \<Rightarrow> 'o queue" where
  "upd_proc p f q = q\<lparr>q_procs := (q_procs q)(p := f (q_procs q p))\<rparr>"

section \<open>Putting\<close>

definition start_thread :: "nat \<Rightarrow> 'o queue \<Rightarrow> 'o queue" where
  "start_thread p q = upd_proc p (\<lambda>w. w\<lparr>qp_buffer := [], qp_thread := Feeding,
     qp_jointhread := (if \<not> qp_joincancelled w \<and> q_opid q \<noteq> p then True else qp_jointhread w), qp_close := True\<rparr>) q"

definition slot_acquire :: "acq \<Rightarrow> nat \<Rightarrow> ('o queue, unit) act" where
  "slot_acquire m p q =
     (case sem_acquire m (p, 0) (q_sem q) of
        None \<Rightarrow> (Inl Blocks, q)
      | Some (ok, s) \<Rightarrow> (if ok then Inr () else Inl QueueFull, q\<lparr>q_sem := s\<rparr>))"

definition slot_release :: "nat \<Rightarrow> ('o queue, unit) act" where
  "slot_release p q = (let (r, s) = sem_release (p, 0) (q_sem q) in (r, q\<lparr>q_sem := s\<rparr>))"

definition append_buffer :: "nat \<Rightarrow> 'o \<Rightarrow> 'o queue \<Rightarrow> 'o queue" where
  "append_buffer p obj q =
     (let q = (if qp_thread (q_procs q p) = NoThread then start_thread p q else q)
      in upd_proc p (\<lambda>w. w\<lparr>qp_buffer := qp_buffer w @ [Some obj]\<rparr>) q)"

definition queue_put :: "acq \<Rightarrow> nat \<Rightarrow> 'o \<Rightarrow> ('o queue, unit) act" where
  "queue_put m p obj =
     bindA (assertA (\<lambda>q. \<not> qp_closed (q_procs q p)) ValueError) (\<lambda>_.
     bindA (slot_acquire m p) (\<lambda>_. modifyA (append_buffer p obj)))"

section \<open>The feeder thread\<close>

text \<open>
  One turn of \<open>_feed\<close>: the thread takes an object from the buffer, pickles it and writes it. Any
  exception ends the thread. \<open>broken\<close> is what writing raises. The result tells whether there
  was something to do.
\<close>

definition queue_feed :: "('o \<Rightarrow> exn + bytes) \<Rightarrow> exn option \<Rightarrow> nat \<Rightarrow> 'o queue \<Rightarrow> bool \<times> 'o queue" where
  "queue_feed dumps broken p q =
     (let w = q_procs q p in
      if qp_thread w \<noteq> Feeding then (False, q)
      else case qp_buffer w of
          [] \<Rightarrow> (False, q)
        | None # rest \<Rightarrow> (True, upd_proc p (\<lambda>w. w\<lparr>qp_buffer := rest, qp_thread := Ended\<rparr>) q)
        | Some obj # rest \<Rightarrow>
            (case dumps obj of
               Inl e \<Rightarrow> (True, upd_proc p (\<lambda>w. w\<lparr>qp_buffer := rest, qp_thread := Ended\<rparr>) q)
             | Inr b \<Rightarrow> (case broken of
                   Some e \<Rightarrow> (True, upd_proc p (\<lambda>w. w\<lparr>qp_buffer := rest, qp_thread := Ended\<rparr>) q)
                 | None \<Rightarrow> (True, (upd_proc p (\<lambda>w. w\<lparr>qp_buffer := rest\<rparr>) q)\<lparr>q_pipe := q_pipe q @ [(p, b)]\<rparr>))))"

section \<open>Getting\<close>

text \<open>
  How \<open>get\<close> is called, and what the waiting comes to: whether the reader's lock was acquired within
  the timeout, and whether the deadline has passed by then.
\<close>

datatype get_mode = GBlock | GNoWait bool | GTimed bool bool

text \<open>\<open>_recv_bytes\<close> of the reader, and the release of a slot.\<close>

definition take_message :: "nat \<Rightarrow> ('o queue, nat \<times> bytes) act" where
  "take_message p = readA (\<lambda>q. case q_pipe q of
      [] \<Rightarrow> raise Blocks
    | m # rest \<Rightarrow> bindA (modifyA (\<lambda>q. q\<lparr>q_pipe := rest\<rparr>)) (\<lambda>_. bindA (slot_release p) (\<lambda>_. ret m)))"

definition queue_get :: "(bytes \<Rightarrow> exn + 'o) \<Rightarrow> get_mode \<Rightarrow> nat \<Rightarrow> ('o queue, 'o) act" where
  "queue_get loads m p =
     bindA (assertA (\<lambda>q. \<not> qp_closed (q_procs q p)) ValueError) (\<lambda>_.
     bindA (case m of
         GBlock \<Rightarrow> take_message p
       | GNoWait locked \<Rightarrow>
           if \<not> locked then raise QueueEmpty
           else readA (\<lambda>q. if q_pipe q = [] then raise QueueEmpty else take_message p)
       | GTimed locked late \<Rightarrow>
           if \<not> locked then raise QueueEmpty
           else if late then raise QueueEmpty
           else readA (\<lambda>q. if q_pipe q = [] then raise QueueEmpty else take_message p)) (\<lambda>(_, b).
     case loads b of Inl e \<Rightarrow> raise e | Inr obj \<Rightarrow> ret obj))"

definition queue_qsize :: "'o queue \<Rightarrow> int" where
  "queue_qsize q = int (q_maxsize q) - int (sm_value (q_sem q))"

definition queue_empty :: "'o queue \<Rightarrow> bool" where
  "queue_empty q = (q_pipe q = [])"

definition queue_full :: "'o queue \<Rightarrow> bool" where
  "queue_full q = (sm_value (q_sem q) = 0)"

definition queue_close :: "nat \<Rightarrow> 'o queue \<Rightarrow> 'o queue" where
  "queue_close p = upd_proc p (\<lambda>w.
     let w = w\<lparr>qp_closed := True\<rparr> in
     if qp_close w then w\<lparr>qp_close := False, qp_buffer := qp_buffer w @ [None]\<rparr> else w)"

text \<open>\<open>join_thread\<close> waits for the feeder where it has to.\<close>

definition queue_join_thread :: "nat \<Rightarrow> ('o queue, unit) act" where
  "queue_join_thread p = readA (\<lambda>q. let w = q_procs q p in
     if \<not> qp_closed w then raise ValueError
     else if qp_jointhread w \<and> qp_thread w = Feeding then raise Blocks
     else ret ())"

definition queue_cancel_join_thread :: "nat \<Rightarrow> 'o queue \<Rightarrow> 'o queue" where
  "queue_cancel_join_thread p = upd_proc p (\<lambda>w. w\<lparr>qp_joincancelled := True, qp_jointhread := False\<rparr>)"

section \<open>JoinableQueue\<close>

text \<open>\<open>jq_joining\<close> are the processes that wait in \<open>join\<close>; every operation runs under \<open>_cond\<close>.\<close>

record 'o joinable =
  jq_queue :: "'o queue"
  jq_unfinished :: sem
  jq_joining :: "nat set"

definition on_queue :: "('o queue, 'a) act \<Rightarrow> ('o joinable, 'a) act" where
  "on_queue m j = (let (r, q) = m (jq_queue j) in (r, j\<lparr>jq_queue := q\<rparr>))"

definition joinable_put :: "acq \<Rightarrow> nat \<Rightarrow> 'o \<Rightarrow> ('o joinable, unit) act" where
  "joinable_put m p obj =
     bindA (on_queue (assertA (\<lambda>q. \<not> qp_closed (q_procs q p)) ValueError)) (\<lambda>_.
     bindA (on_queue (slot_acquire m p)) (\<lambda>_.
     bindA (on_queue (modifyA (append_buffer p obj))) (\<lambda>_.
     (\<lambda>j. let (r, s) = sem_release (p, 0) (jq_unfinished j) in (r, j\<lparr>jq_unfinished := s\<rparr>)))))"

definition task_done :: "nat \<Rightarrow> ('o joinable, unit) act" where
  "task_done p j =
     (case sem_acquire NoBlock (p, 0) (jq_unfinished j) of
        None \<Rightarrow> (Inl Blocks, j)
      | Some (ok, s) \<Rightarrow>
          if \<not> ok then (Inl ValueError, j\<lparr>jq_unfinished := s\<rparr>)
          else (Inr (), j\<lparr>jq_unfinished := s, jq_joining := (if sm_value s = 0 then {} else jq_joining j)\<rparr>))"

definition joinable_join :: "nat \<Rightarrow> 'o joinable \<Rightarrow> 'o joinable" where
  "joinable_join p j =
     (if sm_value (jq_unfinished j) = 0 then j else j\<lparr>jq_joining := insert p (jq_joining j)\<rparr>)"

section \<open>SimpleQueue\<close>

record simple_queue =
  sq_pipe :: "bytes list"
  sq_reader :: bool
  sq_writer :: bool

definition simple_put :: "('o \<Rightarrow> exn + bytes) \<Rightarrow> 'o \<Rightarrow> (simple_queue, unit) act" where
  "simple_put dumps obj = (case dumps obj of Inl e \<Rightarrow> raise e
     | Inr b \<Rightarrow> bindA (assertA sq_writer AttributeError) (\<lambda>_. modifyA (\<lambda>q. q\<lparr>sq_pipe := sq_pipe q @ [b]\<rparr>)))"

definition simple_get :: "(bytes \<Rightarrow> exn + 'o) \<Rightarrow> (simple_queue, 'o) act" where
  "simple_get loads =
     bindA (assertA sq_reader AttributeError) (\<lambda>_. readA (\<lambda>q.
     case sq_pipe q of
       [] \<Rightarrow> raise Blocks
     | b # rest \<Rightarrow> bindA (modifyA (\<lambda>q. q\<lparr>sq_pipe := rest\<rparr>)) (\<lambda>_. case loads b of Inl e \<Rightarrow> raise e | Inr x \<Rightarrow> ret x)))"

definition simple_close :: "simple_queue \<Rightarrow> simple_queue" where
  "simple_close q = q\<lparr>sq_reader := False, sq_writer := False\<rparr>"

section \<open>The bound\<close>

text \<open>
  One step of the queue: any process calls an operation, or its feeder takes a turn; what was put
  and what was got is logged, with the process it came from.
\<close>

datatype 'o qact = QPut acq nat 'o | QFeed "exn option" nat | QGet get_mode nat | QClose nat | QCancel nat

record 'o qlog =
  ql_queue :: "'o queue"
  ql_put :: "(nat \<times> 'o) list"
  ql_got :: "(nat \<times> 'o) list"
  ql_lost :: "nat \<Rightarrow> 'o list"    \<comment> \<open>objects a feeder has taken and not written\<close>

definition source :: "'o queue \<Rightarrow> nat" where
  "source q = (case q_pipe q of [] \<Rightarrow> 0 | (p, _) # _ \<Rightarrow> p)"

definition feed_lost :: "('o \<Rightarrow> exn + bytes) \<Rightarrow> exn option \<Rightarrow> 'o qproc \<Rightarrow> 'o list" where
  "feed_lost dumps broken w =
     (if qp_thread w \<noteq> Feeding then []
      else case qp_buffer w of
          Some x # _ \<Rightarrow> (case dumps x of Inl _ \<Rightarrow> [x] | Inr _ \<Rightarrow> if broken = None then [] else [x])
        | _ \<Rightarrow> [])"

fun queue_step :: "('o \<Rightarrow> exn + bytes) \<Rightarrow> (bytes \<Rightarrow> exn + 'o) \<Rightarrow> 'o qact \<Rightarrow> 'o qlog \<Rightarrow> 'o qlog" where
  "queue_step dumps loads (QPut m p x) l =
     (case queue_put m p x (ql_queue l) of
        (Inr _, q) \<Rightarrow> l\<lparr>ql_queue := q, ql_put := ql_put l @ [(p, x)]\<rparr>
      | (Inl _, q) \<Rightarrow> l\<lparr>ql_queue := q\<rparr>)"
| "queue_step dumps loads (QFeed e p) l =
     l\<lparr>ql_queue := snd (queue_feed dumps e p (ql_queue l)),
       ql_lost := (ql_lost l)(p := ql_lost l p @ feed_lost dumps e (q_procs (ql_queue l) p))\<rparr>"
| "queue_step dumps loads (QGet m p) l =
     (case queue_get loads m p (ql_queue l) of
        (Inr x, q) \<Rightarrow> l\<lparr>ql_queue := q, ql_got := ql_got l @ [(source (ql_queue l), x)]\<rparr>
      | (Inl _, q) \<Rightarrow> l\<lparr>ql_queue := q\<rparr>)"
| "queue_step dumps loads (QClose p) l = l\<lparr>ql_queue := queue_close p (ql_queue l)\<rparr>"
| "queue_step dumps loads (QCancel p) l = l\<lparr>ql_queue := queue_cancel_join_thread p (ql_queue l)\<rparr>"

definition new_log :: "int \<Rightarrow> nat \<Rightarrow> 'o qlog" where
  "new_log maxsize opid = \<lparr>ql_queue = Queue maxsize opid, ql_put = [], ql_got = [], ql_lost = (\<lambda>_. [])\<rparr>"

text \<open>The entries of one process, the objects in the buffer and those in the pipe.\<close>

definition of_proc :: "nat \<Rightarrow> (nat \<times> 'a) list \<Rightarrow> 'a list" where
  "of_proc p xs = map snd (filter (\<lambda>x. fst x = p) xs)"

definition buffered :: "'o qproc \<Rightarrow> 'o list" where
  "buffered w = map the (filter (\<lambda>x. x \<noteq> None) (qp_buffer w))"

definition piped :: "(bytes \<Rightarrow> exn + 'o) \<Rightarrow> 'o queue \<Rightarrow> (nat \<times> 'o) list" where
  "piped loads q = map (\<lambda>(p, b). (p, projr (loads b))) (q_pipe q)"

lemma of_proc_simps [simp]: "of_proc p [] = []" "of_proc p ((a, x) # xs) = (if a = p then x # of_proc p xs else of_proc p xs)"
  "of_proc p (xs @ ys) = of_proc p xs @ of_proc p ys"
  by (simp_all add: of_proc_def)

definition queue_inv :: "('o \<Rightarrow> exn + bytes) \<Rightarrow> (bytes \<Rightarrow> exn + 'o) \<Rightarrow> 'o qlog \<Rightarrow> bool" where
  "queue_inv dumps loads l \<longleftrightarrow> (let q = ql_queue l in
     counting (q_sem q) \<and> sm_max (q_sem q) = int (q_maxsize q) \<and>
     (\<forall>p. of_proc p (ql_put l) = of_proc p (ql_got l) @ of_proc p (piped loads q) @ ql_lost l p @ buffered (q_procs q p)) \<and>
     (\<forall>p. qp_thread (q_procs q p) = NoThread \<longrightarrow> qp_buffer (q_procs q p) = [] \<and> \<not> qp_close (q_procs q p)) \<and>
     (\<forall>p. ql_lost l p \<noteq> [] \<longrightarrow> qp_thread (q_procs q p) = Ended) \<and>
     (\<forall>(p, b) \<in> set (q_pipe q). \<exists>x. loads b = Inr x) \<and>
     sm_value (q_sem q) + length (ql_put l) = q_maxsize q + length (ql_got l))"

lemma slot_acquire_cases:
  assumes "counting (q_sem q)"
  obtains e where "slot_acquire m p q = (Inl e, q)"
  | s where "slot_acquire m p q = (Inr (), q\<lparr>q_sem := s\<rparr>)" "counting s" "sm_max s = sm_max (q_sem q)"
      "0 < sm_value (q_sem q)" "sm_value s = sm_value (q_sem q) - 1"
proof (cases "sem_acquire m (p, 0) (q_sem q)")
  case None
  then show ?thesis using that(1) [of Blocks] by (simp add: slot_acquire_def)
next
  case (Some x)
  then obtain ok s where s: "sem_acquire m (p, 0) (q_sem q) = Some (ok, s)" by (cases x) auto
  note c = counting_acquired [OF assms s]
  show ?thesis
  proof (cases ok)
    case True
    then show ?thesis using that(2) [of s] s c by (simp add: slot_acquire_def)
  next
    case False
    then have "s = q_sem q" using s assms by (auto simp: sem_acquire_def counting_def split: if_splits acq.splits)
    then show ?thesis using that(1) [of QueueFull] s False by (simp add: slot_acquire_def)
  qed
qed

text \<open>If every process has got no more than it has put, so have all together.\<close>

lemma of_proc_length:
  fixes xs ys :: "(nat \<times> 'a) list"
  assumes "\<And>p. length (of_proc p xs) \<le> length (of_proc p ys)"
  shows "length xs \<le> length ys" and "length (of_proc p xs) < length (of_proc p ys) \<Longrightarrow> length xs < length ys"
proof -
  have count: "count (mset (map fst zs)) p = length (of_proc p zs)" for zs :: "(nat \<times> 'a) list" and p
    by (induction zs) (auto simp: of_proc_def)
  have sub: "mset (map fst xs) \<subseteq># mset (map fst ys)"
  proof (rule mset_subset_eqI)
    fix p
    show "count (mset (map fst xs)) p \<le> count (mset (map fst ys)) p" unfolding count by (rule assms)
  qed
  from size_mset_mono [OF sub] show "length xs \<le> length ys" by simp
  assume l: "length (of_proc p xs) < length (of_proc p ys)"
  have "mset (map fst xs) \<noteq> mset (map fst ys)"
  proof
    assume "mset (map fst xs) = mset (map fst ys)"
    then have "count (mset (map fst xs)) p = count (mset (map fst ys)) p" by (simp only:)
    then show False using l unfolding count by simp
  qed
  with sub have "mset (map fst xs) \<subset># mset (map fst ys)" by (simp add: subset_mset.less_le)
  from mset_subset_size [OF this] show "length xs < length ys" by simp
qed

lemma inv_counts:
  assumes "queue_inv dumps loads l"
  shows "length (of_proc p (ql_got l)) + length (of_proc p (piped loads (ql_queue l))) \<le> length (of_proc p (ql_put l))"
  using assms by (auto simp: queue_inv_def Let_def)

lemma inv_bound:
  assumes "queue_inv dumps loads l"
  shows "length (ql_got l) \<le> length (ql_put l)" "q_pipe (ql_queue l) \<noteq> [] \<Longrightarrow> length (ql_got l) < length (ql_put l)"
proof -
  have le: "length (of_proc p (ql_got l)) \<le> length (of_proc p (ql_put l))" for p
    using inv_counts [OF assms, of p] by simp
  show "length (ql_got l) \<le> length (ql_put l)" by (rule of_proc_length(1)) (rule le)
  assume "q_pipe (ql_queue l) \<noteq> []"
  then obtain p b r where "q_pipe (ql_queue l) = (p, b) # r" by (cases "q_pipe (ql_queue l)") auto
  then have "length (of_proc p (ql_got l)) < length (of_proc p (ql_put l))"
    using inv_counts [OF assms, of p] by (simp add: piped_def)
  with le show "length (ql_got l) < length (ql_put l)" by (rule of_proc_length(2))
qed

text \<open>Every operation keeps the invariant; \<open>loads\<close> undoes \<open>dumps\<close>.\<close>

lemma put_keeps:
  assumes inv: "queue_inv dumps loads l"
  shows "queue_inv dumps loads (queue_step dumps loads (QPut m p x) l)"
proof (cases "qp_closed (q_procs (ql_queue l) p)")
  case True
  then show ?thesis using inv by (simp add: queue_put_def act_defs queue_inv_def Let_def)
next
  case False
  let ?q = "ql_queue l"
  have c: "counting (q_sem ?q)" using inv by (simp add: queue_inv_def Let_def)
  show ?thesis
  proof (rule slot_acquire_cases [OF c, of m p])
    fix e assume "slot_acquire m p ?q = (Inl e, ?q)"
    then show ?thesis using inv False by (simp add: queue_put_def act_defs queue_inv_def Let_def)
  next
    fix s assume s: "slot_acquire m p ?q = (Inr (), ?q\<lparr>q_sem := s\<rparr>)" "counting s" "sm_max s = sm_max (q_sem ?q)"
      "0 < sm_value (q_sem ?q)" "sm_value s = sm_value (q_sem ?q) - 1"
    have put: "queue_put m p x ?q = (Inr (), append_buffer p x (?q\<lparr>q_sem := s\<rparr>))"
      using s(1) False by (simp add: queue_put_def act_defs)
    show ?thesis
      using inv s(2-5) unfolding queue_step.simps put prod.case sum.case
      by (auto simp: queue_inv_def Let_def append_buffer_def start_thread_def upd_proc_def piped_def buffered_def)
  qed
qed

lemma feed_keeps:
  assumes inv: "queue_inv dumps loads l" and rt: "\<And>x b. dumps x = Inr b \<Longrightarrow> loads b = Inr x"
  shows "queue_inv dumps loads (queue_step dumps loads (QFeed e p) l)"
proof -
  let ?q = "ql_queue l" and ?w = "q_procs (ql_queue l) p"
  have fifo: "of_proc r (ql_put l) = of_proc r (ql_got l) @ of_proc r (piped loads ?q) @ ql_lost l r @ buffered (q_procs ?q r)" for r
    using inv by (simp add: queue_inv_def Let_def)
  have lost: "ql_lost l p = []" if "qp_thread ?w = Feeding"
    using inv that by (auto simp: queue_inv_def Let_def)
  show ?thesis
  proof (cases "qp_thread ?w = Feeding \<and> qp_buffer ?w \<noteq> []")
    case True
    then obtain x rest where b: "qp_buffer ?w = x # rest" by (cases "qp_buffer ?w") auto
    show ?thesis
    proof (cases x)
      case None
      then show ?thesis using inv True b lost
        by (auto simp: queue_inv_def Let_def queue_feed_def feed_lost_def upd_proc_def buffered_def piped_def)
    next
      case (Some y)
      show ?thesis
      proof (cases "dumps y")
        case (Inl err)
        then show ?thesis using inv True b lost Some
          by (auto simp: queue_inv_def Let_def queue_feed_def feed_lost_def upd_proc_def buffered_def piped_def)
      next
        case (Inr m)
        then show ?thesis using inv True b lost Some rt [OF Inr]
          by (cases e) (auto simp: queue_inv_def Let_def queue_feed_def feed_lost_def upd_proc_def buffered_def piped_def)
      qed
    qed
  next
    case False
    then show ?thesis using inv
      by (auto simp: queue_inv_def Let_def queue_feed_def feed_lost_def split: list.split)
  qed
qed

lemma get_keeps:
  assumes inv: "queue_inv dumps loads l"
  shows "queue_inv dumps loads (queue_step dumps loads (QGet m p) l)"
proof -
  let ?q = "ql_queue l"
  have none: ?thesis if "queue_get loads m p ?q = (Inl e, ?q)" for e
    using that inv by (simp add: queue_inv_def Let_def)
  have some: ?thesis if "q_pipe ?q = (r, b) # rest" "queue_get loads m p ?q = (let (x, q) = take_message p ?q in
      (case x of Inl e \<Rightarrow> Inl e | Inr (_, b) \<Rightarrow> (case loads b of Inl e \<Rightarrow> Inl e | Inr x \<Rightarrow> Inr x), q))" for r b rest
  proof -
    have c: "counting (q_sem ?q)" "sm_max (q_sem ?q) = int (q_maxsize ?q)" using inv by (simp_all add: queue_inv_def Let_def)
    have n: "sm_value (q_sem ?q) + length (ql_put l) = q_maxsize ?q + length (ql_got l)"
      using inv by (simp add: queue_inv_def Let_def)
    have "length (ql_got l) < length (ql_put l)" using inv_bound(2) [OF inv] that(1) by simp
    then have "int (sm_value (q_sem ?q)) < sm_max (q_sem ?q)" using n c(2) by linarith
    from counting_release_ok [OF c(1) this, of "(p, 0)"] obtain s where s: "sem_release (p, 0) (q_sem ?q) = (Inr (), s)" by blast
    note s' = counting_release [OF c(1) s]
    note pipe = that(1)
    obtain x where x: "loads b = Inr x" using inv pipe by (auto simp: queue_inv_def Let_def)
    have "queue_get loads m p ?q = (Inr x, ?q\<lparr>q_pipe := rest, q_sem := s\<rparr>)"
      unfolding that(2) using that(1) s x by (simp add: take_message_def slot_release_def act_defs Let_def)
    then show ?thesis using inv that(1) s' x by (auto simp: queue_inv_def Let_def piped_def source_def)
  qed
  show ?thesis
  proof (cases "q_pipe ?q")
    case Nil
    then have "\<exists>e. queue_get loads m p ?q = (Inl e, ?q)"
      by (cases m) (auto simp: queue_get_def take_message_def act_defs)
    then show ?thesis using none by blast
  next
    case (Cons h rest)
    obtain r b where h: "h = (r, b)" by (cases h)
    have "(\<exists>e. queue_get loads m p ?q = (Inl e, ?q)) \<or> queue_get loads m p ?q = (let (x, q) = take_message p ?q in
      (case x of Inl e \<Rightarrow> Inl e | Inr (_, b) \<Rightarrow> (case loads b of Inl e \<Rightarrow> Inl e | Inr x \<Rightarrow> Inr x), q))"
      using Cons by (cases m) (auto simp: queue_get_def act_defs split: prod.split sum.split)
    then show ?thesis using none some Cons h by blast
  qed
qed

lemma queue_inv_keeps:
  assumes "queue_inv dumps loads l" "\<And>x b. dumps x = Inr b \<Longrightarrow> loads b = Inr x"
  shows "queue_inv dumps loads (queue_step dumps loads a l)"
proof (cases a)
  case (QClose p)
  then show ?thesis using assms(1)
    by (auto simp: queue_inv_def Let_def queue_close_def upd_proc_def piped_def buffered_def)
next
  case (QCancel p)
  then show ?thesis using assms(1)
    by (auto simp: queue_inv_def Let_def queue_cancel_join_thread_def upd_proc_def piped_def buffered_def)
qed (use put_keeps feed_keeps get_keeps assms in metis)+

lemma new_log_inv: "queue_inv dumps loads (new_log maxsize opid)"
  by (simp add: queue_inv_def new_log_def Queue_def Let_def new_sem_def counting_def new_qproc_def piped_def buffered_def)

lemma run_inv:
  assumes "\<And>x b. dumps x = Inr b \<Longrightarrow> loads b = Inr x"
  shows "queue_inv dumps loads (fold (queue_step dumps loads) acts (new_log maxsize opid))"
proof -
  have "queue_inv dumps loads l \<Longrightarrow> queue_inv dumps loads (fold (queue_step dumps loads) acts l)" for l
    by (induction acts arbitrary: l) (simp_all add: queue_inv_keeps assms)
  then show ?thesis by (simp add: new_log_inv)
qed

lemma max_const: "q_maxsize (ql_queue (queue_step dumps loads a l)) = q_maxsize (ql_queue l)"
proof (cases a)
  case (QPut m p x)
  then show ?thesis
    by (auto simp: queue_put_def act_defs slot_acquire_def append_buffer_def start_thread_def upd_proc_def Let_def
      split: prod.splits sum.splits option.splits if_splits)
next
  case (QFeed e p)
  then show ?thesis by (auto simp: queue_feed_def upd_proc_def Let_def split: list.split option.split sum.split)
next
  case (QGet m p)
  then show ?thesis
    by (cases m) (auto simp: queue_get_def take_message_def slot_release_def act_defs Let_def split: prod.splits sum.splits list.splits if_splits)
qed (simp_all add: queue_close_def queue_cancel_join_thread_def upd_proc_def)

text \<open>
  A queue is a bounded FIFO for every producer: whatever the processes that share it do, in any
  order, the objects a process has put are, in their order, those that have been got from it, those in
  the pipe, those its feeder has dropped and those still in its buffer: none is lost on the way, doubled
  or overtaken; and the number of objects put and not yet got never exceeds the size of the queue.
\<close>

theorem queue_fifo:
  assumes "\<And>x b. dumps x = Inr b \<Longrightarrow> loads b = Inr x"
    and "l = fold (queue_step dumps loads) acts (new_log maxsize opid)"
  shows "of_proc p (ql_put l) = of_proc p (ql_got l) @ of_proc p (piped loads (ql_queue l)) @ ql_lost l p @
      buffered (q_procs (ql_queue l) p) \<and>
    length (ql_put l) \<le> length (ql_got l) + q_maxsize (Queue maxsize opid)"
proof -
  have inv: "queue_inv dumps loads l" unfolding assms(2) by (rule run_inv) (rule assms(1))
  have "q_maxsize (ql_queue (fold (queue_step dumps loads) acts l0)) = q_maxsize (ql_queue l0)" for l0
    by (induction acts arbitrary: l0) (simp_all add: max_const)
  then have max: "q_maxsize (ql_queue l) = q_maxsize (Queue maxsize opid :: 'a queue)"
    using assms(2) by (simp add: new_log_def Queue_def Let_def)
  show ?thesis using inv max by (simp add: queue_inv_def Let_def Queue_def)
qed

definition ex_dumps :: "nat \<Rightarrow> exn + bytes" where
  "ex_dumps n = (if n < 200 then Inr [of_nat n] else Inl TypeError)"

definition ex_loads :: "bytes \<Rightarrow> exn + nat" where
  "ex_loads b = (case b of [x] \<Rightarrow> Inr (unat x) | _ \<Rightarrow> Inl ValueError)"

lemma ex_pickle: "ex_dumps n = Inr b \<Longrightarrow> ex_loads b = Inr n"
  by (auto simp: ex_dumps_def ex_loads_def unat_of_nat split: if_splits)

theorem queue_fifo_witness:
  "of_proc 1 (ql_put (fold (queue_step ex_dumps ex_loads) [QPut Block 1 5, QPut Block 2 6, QFeed None 2, QPut NoBlock 1 7,
      QFeed None 1, QGet GBlock 3, QPut NoBlock 2 8] (new_log 2 0))) = [5 :: nat]"
  (is "of_proc 1 (ql_put ?l) = _")
proof -
  have F: "of_proc 1 (ql_got ?l) = []" "of_proc 1 (piped ex_loads (ql_queue ?l)) = [5]" "ql_lost ?l 1 = []"
    "buffered (q_procs (ql_queue ?l) 1) = []"
    by code_simp+
  from conjunct1 [OF queue_fifo [where dumps = ex_dumps and loads = ex_loads, OF ex_pickle refl, where p = 1 and maxsize = 2 and opid = 0 and
      acts = "[QPut Block 1 5, QPut Block 2 6, QFeed None 2, QPut NoBlock 1 7, QFeed None 1, QGet GBlock 3, QPut NoBlock 2 8]"]]
  show ?thesis unfolding F by (simp only: append_Nil append_Nil2)
qed

text \<open>
  What a queue promises, without its pipe, buffers and feeders: for every producer the objects that wait, in
  order, and their number. A put appends when there is room, a get takes the first object of some producer,
  and an operation may also fail and change nothing.
\<close>

record 'o bag =
  bg_wait :: "nat \<Rightarrow> 'o list"
  bg_got :: "(nat \<times> 'o) list"
  bg_count :: nat

definition bag_step :: "nat \<Rightarrow> 'o qact \<Rightarrow> 'o bag \<Rightarrow> 'o bag \<Rightarrow> bool" where
  "bag_step bound a b b' \<longleftrightarrow> b' = b \<or> (case a of
       QPut _ p x \<Rightarrow> bg_count b < bound \<and>
         b' = b\<lparr>bg_wait := (bg_wait b)(p := bg_wait b p @ [x]), bg_count := bg_count b + 1\<rparr>
     | QGet _ _ \<Rightarrow> \<exists>r x rest. bg_wait b r = x # rest \<and>
         b' = b\<lparr>bg_wait := (bg_wait b)(r := rest), bg_got := bg_got b @ [(r, x)], bg_count := bg_count b - 1\<rparr>
     | _ \<Rightarrow> False)"

definition abs_queue :: "(bytes \<Rightarrow> exn + 'o) \<Rightarrow> 'o qlog \<Rightarrow> 'o bag" where
  "abs_queue loads l = \<lparr>bg_wait = (\<lambda>p. of_proc p (piped loads (ql_queue l)) @ ql_lost l p @ buffered (q_procs (ql_queue l) p)),
     bg_got = ql_got l, bg_count = length (ql_put l) - length (ql_got l)\<rparr>"

lemma abs_queue_wait:
  "queue_inv dumps loads l \<Longrightarrow> of_proc p (ql_put l) = of_proc p (ql_got l) @ bg_wait (abs_queue loads l) p"
  by (simp add: queue_inv_def abs_queue_def Let_def)

lemma abs_queue_eqI:
  assumes "queue_inv dumps loads l" "queue_inv dumps loads l'" "ql_put l' = ql_put l" "ql_got l' = ql_got l"
  shows "abs_queue loads l' = abs_queue loads l"
proof -
  have "bg_wait (abs_queue loads l') p = bg_wait (abs_queue loads l) p" for p
    using abs_queue_wait [OF assms(1), of p] abs_queue_wait [OF assms(2), of p] assms(3,4) by simp
  then show ?thesis using assms(3,4) by (auto simp: abs_queue_def)
qed

text \<open>
  C6. Every step of the queue, its feeders' included, is a step of this bag or leaves it as it is.\<close>

theorem queue_refines_bag:
  assumes rt: "\<And>x b. dumps x = Inr b \<Longrightarrow> loads b = Inr x"
    and l: "l = fold (queue_step dumps loads) acts (new_log maxsize opid)"
  shows "bag_step (q_maxsize (ql_queue l)) a (abs_queue loads l) (abs_queue loads (queue_step dumps loads a l))"
proof -
  let ?l' = "queue_step dumps loads a l"
  have inv: "queue_inv dumps loads l" unfolding l by (rule run_inv) (rule rt)
  have inv': "queue_inv dumps loads ?l'" by (rule queue_inv_keeps [OF inv rt])
  note w = abs_queue_wait [OF inv] and w' = abs_queue_wait [OF inv']
  have same: ?thesis if "ql_put ?l' = ql_put l" "ql_got ?l' = ql_got l"
    using abs_queue_eqI [OF inv inv' that] by (simp add: bag_step_def)
  have bound: "length (ql_put ?l') \<le> length (ql_got ?l') + q_maxsize (ql_queue l)" "length (ql_got l) \<le> length (ql_put l)"
    using inv' max_const [of dumps loads a l] inv_bound(1) [OF inv] by (simp_all add: queue_inv_def Let_def)
  show ?thesis
  proof (cases a)
    case (QPut m p x)
    show ?thesis
    proof (cases "queue_put m p x (ql_queue l)")
      case (Pair r q)
      show ?thesis
      proof (cases r)
        case Inl
        then show ?thesis using Pair same by (simp add: QPut)
      next
        case Inr
        have log: "ql_put ?l' = ql_put l @ [(p, x)]" "ql_got ?l' = ql_got l" using Pair Inr by (simp_all add: QPut)
        have "bg_wait (abs_queue loads ?l') q = ((bg_wait (abs_queue loads l))(p := bg_wait (abs_queue loads l) p @ [x])) q" for q
          using w [of q] w' [of q] log by (cases "q = p") auto
        moreover have "length (ql_put l) - length (ql_got l) < q_maxsize (ql_queue l)" using bound log by simp
        moreover have "bg_got (abs_queue loads ?l') = bg_got (abs_queue loads l)"
          "bg_count (abs_queue loads ?l') = bg_count (abs_queue loads l) + 1" using log bound(2) by (simp_all add: abs_queue_def)
        ultimately show ?thesis unfolding QPut bag_step_def
          by (intro disjI2) (auto simp: abs_queue_def fun_eq_iff intro: bag.equality)
      qed
    qed
  next
    case (QGet m p)
    show ?thesis
    proof (cases "queue_get loads m p (ql_queue l)")
      case (Pair r q)
      show ?thesis
      proof (cases r)
        case Inl
        then show ?thesis using Pair same by (simp add: QGet)
      next
        case (Inr x)
        let ?s = "source (ql_queue l)"
        have log: "ql_put ?l' = ql_put l" "ql_got ?l' = ql_got l @ [(?s, x)]" using Pair Inr by (simp_all add: QGet)
        have "bg_wait (abs_queue loads l) q = (if q = ?s then x # bg_wait (abs_queue loads ?l') q else bg_wait (abs_queue loads ?l') q)" for q
          using w [of q] w' [of q] log by (cases "q = ?s") auto
        then have "bg_wait (abs_queue loads l) ?s = x # bg_wait (abs_queue loads ?l') ?s"
          "bg_wait (abs_queue loads ?l') = (bg_wait (abs_queue loads l))(?s := bg_wait (abs_queue loads ?l') ?s)"
          by (auto simp: fun_eq_iff)
        moreover have "bg_got (abs_queue loads ?l') = bg_got (abs_queue loads l) @ [(?s, x)]"
          "bg_count (abs_queue loads ?l') = bg_count (abs_queue loads l) - 1" using log bound(2) by (simp_all add: abs_queue_def)
        ultimately have "\<exists>r y rest. bg_wait (abs_queue loads l) r = y # rest \<and> abs_queue loads ?l' = (abs_queue loads l)\<lparr>
            bg_wait := (bg_wait (abs_queue loads l))(r := rest), bg_got := bg_got (abs_queue loads l) @ [(r, y)],
            bg_count := bg_count (abs_queue loads l) - 1\<rparr>"
          by (intro exI [of _ ?s] exI [of _ x] exI [of _ "bg_wait (abs_queue loads ?l') ?s"] conjI bag.equality) simp_all
        then show ?thesis unfolding bag_step_def QGet by simp
      qed
    qed
  qed (use same in simp_all)
qed

theorem queue_refines_bag_witness:
  "bag_step 2 (QGet GBlock 3) (abs_queue ex_loads (fold (queue_step ex_dumps ex_loads) [QPut Block 1 5, QFeed None 1] (new_log 2 0)))
     (abs_queue ex_loads (queue_step ex_dumps ex_loads (QGet GBlock 3) (fold (queue_step ex_dumps ex_loads) [QPut Block 1 5, QFeed None 1] (new_log 2 0))))"
proof -
  have "q_maxsize (ql_queue (fold (queue_step ex_dumps ex_loads) [QPut Block 1 5, QFeed None 1] (new_log 2 0))) = 2" by code_simp
  with queue_refines_bag [where dumps = ex_dumps and loads = ex_loads, OF ex_pickle refl, of "[QPut Block 1 5, QFeed None 1]" 2 0 "QGet GBlock 3"]
  show ?thesis by (simp only:)
qed

lemma ended_step:
  assumes e: "qp_thread (q_procs (ql_queue l) p) = Ended" and inv: "queue_inv dumps loads l"
    and l': "l' = queue_step dumps loads a l"
  shows "qp_thread (q_procs (ql_queue l') p) = Ended \<and>
    of_proc p (ql_got l') @ of_proc p (piped loads (ql_queue l')) = of_proc p (ql_got l) @ of_proc p (piped loads (ql_queue l))"
proof (cases a)
  case (QPut m r x)
  then show ?thesis using e unfolding l'
    by (auto simp: queue_put_def act_defs slot_acquire_def append_buffer_def start_thread_def upd_proc_def Let_def piped_def
      split: prod.splits sum.splits option.splits if_splits)
next
  case (QFeed err r)
  then show ?thesis using e unfolding l'
    by (auto simp: queue_feed_def upd_proc_def Let_def piped_def split: list.split option.split sum.split)
next
  case (QGet m r)
  have *: "take_message r q = (case q_pipe q of [] \<Rightarrow> (Inl Blocks, q) | h # rest \<Rightarrow>
      (let (x, s) = sem_release (r, 0) (q_sem q) in (case x of Inl e \<Rightarrow> Inl e | Inr _ \<Rightarrow> Inr h, q\<lparr>q_pipe := rest, q_sem := s\<rparr>)))" for q :: "'a queue"
    by (auto simp: take_message_def slot_release_def act_defs Let_def split: list.split prod.split sum.split)
  show ?thesis
  proof (cases "queue_get loads m r (ql_queue l)")
    case (Pair x q)
    have keep: ?thesis if "l' = queue_step dumps loads (QGet m r) l"
    proof -
      have inv': "queue_inv dumps loads l'" unfolding that by (rule get_keeps) (rule inv)
      have procs: "q_procs q = q_procs (ql_queue l)"
        using Pair by (cases m) (auto simp: queue_get_def act_defs * Let_def split: prod.splits sum.splits list.splits if_splits)
      have "ql_put l' = ql_put l" "ql_lost l' = ql_lost l" "ql_queue l' = q"
        using Pair unfolding that by (auto split: sum.split)
      then show ?thesis using inv inv' procs e by (auto simp: queue_inv_def Let_def)
    qed
    then show ?thesis using l' QGet by blast
  qed
next
  case (QClose r)
  then show ?thesis using e unfolding l' by (auto simp: queue_close_def upd_proc_def piped_def Let_def)
next
  case (QCancel r)
  then show ?thesis using e unfolding l' by (auto simp: queue_cancel_join_thread_def upd_proc_def piped_def)
qed

text \<open>
  The feeder does not survive an object it cannot pickle: from then on nothing that its process
  puts is ever written to the pipe or got by anybody, whatever all processes do.
\<close>

theorem feeder_dies:
  assumes rt: "\<And>x b. dumps x = Inr b \<Longrightarrow> loads b = Inr x"
    and l: "l = fold (queue_step dumps loads) acts0 (new_log maxsize opid)"
    and bad: "qp_thread (q_procs (ql_queue l) p) = Feeding" "qp_buffer (q_procs (ql_queue l) p) = Some x # rest" "dumps x = Inl e"
    and l': "l' = fold (queue_step dumps loads) acts (queue_step dumps loads (QFeed None p) l)"
  shows "of_proc p (ql_got l') @ of_proc p (piped loads (ql_queue l')) = of_proc p (ql_got l) @ of_proc p (piped loads (ql_queue l))"
proof -
  let ?l1 = "queue_step dumps loads (QFeed None p) l"
  have inv: "queue_inv dumps loads ?l1" unfolding l by (intro queue_inv_keeps run_inv rt)
  have 1: "qp_thread (q_procs (ql_queue ?l1) p) = Ended"
    "of_proc p (ql_got ?l1) @ of_proc p (piped loads (ql_queue ?l1)) = of_proc p (ql_got l) @ of_proc p (piped loads (ql_queue l))"
    using bad by (simp_all add: queue_feed_def Let_def upd_proc_def piped_def)
  have "queue_inv dumps loads k \<Longrightarrow> qp_thread (q_procs (ql_queue k) p) = Ended \<Longrightarrow> k' = fold (queue_step dumps loads) acts k \<Longrightarrow>
    of_proc p (ql_got k') @ of_proc p (piped loads (ql_queue k')) = of_proc p (ql_got k) @ of_proc p (piped loads (ql_queue k))" for k k'
  proof (induction acts arbitrary: k)
    case (Cons a acts)
    note s = ended_step [OF Cons.prems(2,1) refl, of a]
    have "queue_inv dumps loads (queue_step dumps loads a k)" by (rule queue_inv_keeps [OF Cons.prems(1) rt])
    from Cons.IH [OF this] s Cons.prems(3) show ?case by simp
  qed simp
  from this [OF inv 1(1) l'] show ?thesis unfolding 1(2) .
qed

theorem feeder_dies_witness:
  "of_proc 1 (ql_got (fold (queue_step ex_dumps ex_loads) [QPut Block 1 5, QFeed None 1, QGet GBlock 2]
     (queue_step ex_dumps ex_loads (QFeed None 1) (fold (queue_step ex_dumps ex_loads) [QPut Block 1 999] (new_log 9 0))))) = []"
proof -
  let ?l = "fold (queue_step ex_dumps ex_loads) [QPut Block 1 999] (new_log 9 0)"
  have F: "qp_thread (q_procs (ql_queue ?l) 1) = Feeding" "qp_buffer (q_procs (ql_queue ?l) 1) = [Some 999]"
    "ex_dumps 999 = Inl TypeError" "of_proc 1 (ql_got ?l) = []" "of_proc 1 (piped ex_loads (ql_queue ?l)) = []" by code_simp+
  from feeder_dies [where dumps = ex_dumps and loads = ex_loads, OF ex_pickle refl F(1-3) refl, of "[QPut Block 1 5, QFeed None 1, QGet GBlock 2]"]
  show ?thesis unfolding F(4,5) by (simp only: append_Nil2 append_is_Nil_conv)
qed

section \<open>Counting unfinished tasks\<close>

text \<open>
  \<open>task_done\<close> counts down what \<open>put\<close> has counted up; it fails exactly when nothing is
  unfinished, and exactly the last one wakes everybody that waits in \<open>join\<close>.
\<close>

lemma task_done_counts:
  assumes "counting (jq_unfinished j)"
  shows "task_done p j = (if sm_value (jq_unfinished j) = 0 then (Inl ValueError, j)
      else (Inr (), j\<lparr>jq_unfinished := snd (the (sem_acquire NoBlock (p, 0) (jq_unfinished j))),
        jq_joining := (if sm_value (jq_unfinished j) = 1 then {} else jq_joining j)\<rparr>)) \<and>
    sm_value (snd (the (sem_acquire NoBlock (p, 0) (jq_unfinished j)))) = sm_value (jq_unfinished j) - 1"
  using assms by (auto simp: task_done_def sem_acquire_def counting_def)

end
