(* ===== verification/Processes.thy ===== *)
theory Processes
  imports Prelude
begin

text \<open>
  \<open>BaseProcess\<close> of \<open>billiard/process.py\<close> over \<open>Popen\<close> of \<open>billiard/popen_fork.py\<close>. The state is
  what one process of the operating system sees: its process objects (by number), the set
  \<open>_children\<close>, and of the system its file descriptors and its children that nobody has waited for yet.
  The system recycles numbers: \<open>pipe\<close> may return any descriptor that is not open and \<open>fork\<close> any
  identifier that is not that of a child not waited for. What the system answers during a call is the
  argument \<open>env\<close> of the operation.
\<close>

section \<open>The state\<close>

datatype wstatus = Exited nat | Signaled nat
datatype child = Alive | Zombie wstatus

record popen =
  po_pid :: nat
  po_returncode :: "int option"
  po_sentinel :: "nat option"

record process =
  pr_identity :: "nat list"
  pr_name :: string
  pr_daemon :: "bool option"          \<comment> \<open>\<open>_config['daemon']\<close>\<close>
  pr_parent_pid :: "nat option"       \<comment> \<open>\<open>None\<close> in the main process\<close>
  pr_popen :: "popen option"
  pr_closed :: bool
  pr_sentinel :: "nat option"         \<comment> \<open>\<open>None\<close>: the attribute \<open>_sentinel\<close> is not there\<close>
  pr_controlled :: bool

record world =
  w_pid :: nat
  w_current :: nat
  w_procs :: "nat \<Rightarrow> process"
  w_next :: nat                      \<comment> \<open>number of the next object\<close>
  w_children :: "nat list"
  w_counter :: nat
  w_kids :: "nat \<Rightarrow> child option"    \<comment> \<open>children not waited for\<close>
  w_fds :: "nat \<Rightarrow> bool"             \<comment> \<open>open descriptors\<close>
  w_signals :: "(nat \<times> bool) list"    \<comment> \<open>every \<open>kill\<close>: the pid, and whether it was such a child\<close>

text \<open>What the system does during one call.\<close>

record env =
  e_eintr :: nat                     \<comment> \<open>how often a signal interrupts each \<open>waitpid\<close>\<close>
  e_ready :: bool                    \<comment> \<open>\<open>connection.wait\<close> finds the sentinel readable\<close>
  e_ends :: "wstatus option"         \<comment> \<open>how the child ends while the call waits for it\<close>
  e_kill :: "int option"             \<comment> \<open>the \<open>errno\<close> of \<open>kill\<close>\<close>
  e_pipe :: "nat \<times> nat"
  e_fork :: nat

definition EBADF :: int where "EBADF = 9"
definition ECHILD :: int where "ECHILD = 10"
definition EAGAIN :: int where "EAGAIN = 11"
definition EMFILE :: int where "EMFILE = 24"
definition ESRCH :: int where "ESRCH = 3"
definition EINTR :: int where "EINTR = 4"

definition upd_process :: "nat \<Rightarrow> (process \<Rightarrow> process) \<Rightarrow> world \<Rightarrow> world" where
  "upd_process p f w = w\<lparr>w_procs := (w_procs w)(p := f (w_procs w p))\<rparr>"

section \<open>Calls of the operating system\<close>

definition os_pipe :: "env \<Rightarrow> (world, nat \<times> nat) act" where
  "os_pipe e w = (case e_pipe e of (r, c) \<Rightarrow>
     if r = c \<or> w_fds w r \<or> w_fds w c then (Inl (OSError EMFILE), w)
     else (Inr (r, c), w\<lparr>w_fds := (w_fds w)(r := True, c := True)\<rparr>))"

definition os_close :: "nat \<Rightarrow> (world, unit) act" where
  "os_close fd w = (if w_fds w fd then (Inr (), w\<lparr>w_fds := (w_fds w)(fd := False)\<rparr>) else (Inl (OSError EBADF), w))"

definition os_fork :: "env \<Rightarrow> (world, nat) act" where
  "os_fork e w = (if w_kids w (e_fork e) \<noteq> None \<or> e_fork e = w_pid w \<or> e_fork e = 0 then (Inl (OSError EAGAIN), w)
     else (Inr (e_fork e), w\<lparr>w_kids := (w_kids w)(e_fork e \<mapsto> Alive)\<rparr>))"

text \<open>\<open>waitpid\<close> without the interruptions; the result \<open>None\<close> stands for the pid 0.\<close>

definition os_waitpid :: "bool \<Rightarrow> env \<Rightarrow> nat \<Rightarrow> (world, (nat \<times> wstatus) option) act" where
  "os_waitpid nohang e pid w =
     (let reap = w\<lparr>w_kids := (w_kids w)(pid := None)\<rparr> in
      case w_kids w pid of
        None \<Rightarrow> (Inl (OSError ECHILD), w)
      | Some (Zombie st) \<Rightarrow> (Inr (Some (pid, st)), reap)
      | Some Alive \<Rightarrow>
          if nohang then (Inr None, w)
          else (case e_ends e of None \<Rightarrow> (Inl Blocks, w) | Some st \<Rightarrow> (Inr (Some (pid, st)), reap)))"

definition os_kill :: "env \<Rightarrow> nat \<Rightarrow> (world, unit) act" where
  "os_kill e pid w = (case e_kill e of
       Some n \<Rightarrow> (Inl (OSError n), w)
     | None \<Rightarrow> (Inr (), w\<lparr>w_signals := w_signals w @ [(pid, w_kids w pid \<noteq> None)]\<rparr>))"

section \<open>Popen\<close>

text \<open>\<open>poll\<close>: the loop goes round once for every interrupted call.\<close>

fun status_code :: "wstatus \<Rightarrow> int" where
  "status_code (Signaled n) = - int n"
| "status_code (Exited n) = int n"

primrec poll_loop :: "nat \<Rightarrow> bool \<Rightarrow> env \<Rightarrow> nat \<Rightarrow> (world, (nat \<times> wstatus) option) act" where
  "poll_loop (Suc n) nohang e pid = catchA (raise (OSError EINTR))
     (\<lambda>x. if x = OSError EINTR then poll_loop n nohang e pid else ret None)"
| "poll_loop 0 nohang e pid = catchA (os_waitpid nohang e pid)
     (\<lambda>x. case x of OSError _ \<Rightarrow> ret None | _ \<Rightarrow> raise x)"

text \<open>The methods of \<open>Popen\<close>, as methods of the process that owns it; without one there is no such attribute.\<close>

definition popen_of :: "nat \<Rightarrow> (world, popen) act" where
  "popen_of p = fetchA (\<lambda>w. pr_popen (w_procs w p)) AttributeError"

definition set_popen :: "nat \<Rightarrow> (popen \<Rightarrow> popen) \<Rightarrow> (world, unit) act" where
  "set_popen p f = modifyA (upd_process p (\<lambda>x. x\<lparr>pr_popen := map_option f (pr_popen x)\<rparr>))"

definition popen_poll :: "bool \<Rightarrow> env \<Rightarrow> nat \<Rightarrow> (world, int option) act" where
  "popen_poll nohang e p =
     bindA (popen_of p) (\<lambda>o0.
     if po_returncode o0 \<noteq> None then ret (po_returncode o0)
     else bindA (poll_loop (e_eintr e) nohang e (po_pid o0)) (\<lambda>r.
       case r of
         None \<Rightarrow> ret None
       | Some (pid, sts) \<Rightarrow>
           if pid = po_pid o0 then bindA (set_popen p (\<lambda>x. x\<lparr>po_returncode := Some (status_code sts)\<rparr>)) (\<lambda>_. ret (Some (status_code sts)))
           else ret None))"

datatype timeout = NoTimeout | ZeroTimeout | PosTimeout

definition popen_wait :: "timeout \<Rightarrow> env \<Rightarrow> nat \<Rightarrow> (world, int option) act" where
  "popen_wait t e p =
     bindA (popen_of p) (\<lambda>o0.
     if po_returncode o0 \<noteq> None then ret (po_returncode o0)
     else if t \<noteq> NoTimeout \<and> po_sentinel o0 = None then raise TypeError
     else if t \<noteq> NoTimeout \<and> \<not> e_ready e then ret None
     else popen_poll (t = ZeroTimeout) e p)"

definition popen_terminate :: "env \<Rightarrow> nat \<Rightarrow> (world, unit) act" where
  "popen_terminate e p =
     bindA (popen_of p) (\<lambda>o0.
     if po_returncode o0 \<noteq> None then ret ()
     else catchA (os_kill e (po_pid o0)) (\<lambda>x.
       if x = OSError ESRCH then ret ()
       else bindA (popen_wait PosTimeout e p) (\<lambda>r. if r = None then raise x else ret ())))"

definition popen_close :: "nat \<Rightarrow> (world, unit) act" where
  "popen_close p =
     bindA (popen_of p) (\<lambda>o0.
     case po_sentinel o0 of
       None \<Rightarrow> ret ()
     | Some fd \<Rightarrow> finallyA (os_close fd) (set_popen p (\<lambda>x. x\<lparr>po_sentinel := None\<rparr>)))"

text \<open>\<open>Popen(process_obj)\<close> in the parent: \<open>_launch\<close>.\<close>

definition popen_launch :: "env \<Rightarrow> (world, popen) act" where
  "popen_launch e =
     bindA (os_pipe e) (\<lambda>(parent_r, child_w).
     bindA (os_fork e) (\<lambda>pid.
     bindA (os_close child_w) (\<lambda>_.
     ret \<lparr>po_pid = pid, po_returncode = None, po_sentinel = Some parent_r\<rparr>)))"

section \<open>BaseProcess\<close>

definition check_closed :: "nat \<Rightarrow> (world, unit) act" where
  "check_closed p = assertA (\<lambda>w. \<not> pr_closed (w_procs w p)) ValueError"

definition discard :: "nat \<Rightarrow> (world, unit) act" where
  "discard p = modifyA (\<lambda>w. w\<lparr>w_children := removeAll p (w_children w)\<rparr>)"

definition no_wait :: env where
  "no_wait = \<lparr>e_eintr = 0, e_ready = False, e_ends = None, e_kill = None, e_pipe = (0, 0), e_fork = 0\<rparr>"

primrec cleanup_each :: "env \<Rightarrow> nat list \<Rightarrow> (world, unit) act" where
  "cleanup_each e [] = ret ()"
| "cleanup_each e (p # ps) =
     bindA (popen_poll True e p) (\<lambda>r. bindA (whenA (r \<noteq> None) (discard p)) (\<lambda>_. cleanup_each e ps))"

definition cleanup :: "env \<Rightarrow> (world, unit) act" where
  "cleanup e = readA (\<lambda>w. cleanup_each e (w_children w))"

definition active_children :: "env \<Rightarrow> (world, nat list) act" where
  "active_children e = bindA (catchA (bindA (cleanup e) (\<lambda>_. ret True)) (\<lambda>x. if x = TypeError then ret False else raise x))
     (\<lambda>b. if b then getsA w_children else ret [])"

fun digits :: "nat \<Rightarrow> string" where
  "digits n = (if n < 10 then [char_of (48 + n)] else digits (n div 10) @ [char_of (48 + n mod 10)])"

definition default_name :: "string \<Rightarrow> nat list \<Rightarrow> string" where
  "default_name cls ident = cls @ ''-'' @ concat (case map digits ident of [] \<Rightarrow> [] | x # xs \<Rightarrow> x # map (Cons (CHR '':'')) xs)"

text \<open>\<open>__init__\<close>; an empty name counts as none.\<close>

definition new_process :: "string \<Rightarrow> bool \<Rightarrow> string option \<Rightarrow> bool option \<Rightarrow> (world, nat) act" where
  "new_process cls group_given name daemon w =
     (if group_given then (Inl AssertionError, w)
      else
       (let cur = w_procs w (w_current w);
            ident = pr_identity cur @ [w_counter w];
            n = w_next w;
            x = \<lparr>pr_identity = ident,
                 pr_name = (if name = None \<or> name = Some [] then default_name cls ident else the name),
                 pr_daemon = (if daemon = None then pr_daemon cur else daemon), pr_parent_pid = Some (w_pid w),
                 pr_popen = None, pr_closed = False, pr_sentinel = None, pr_controlled = False\<rparr>
        in (Inr n, w\<lparr>w_counter := w_counter w + 1, w_next := n + 1, w_procs := (w_procs w)(n := x)\<rparr>)))"

definition proc_start :: "env \<Rightarrow> nat \<Rightarrow> (world, unit) act" where
  "proc_start e p =
     bindA (check_closed p) (\<lambda>_.
     bindA (assertA (\<lambda>w. pr_popen (w_procs w p) = None) AssertionError) (\<lambda>_.
     bindA (assertA (\<lambda>w. pr_parent_pid (w_procs w p) = Some (w_pid w)) AssertionError) (\<lambda>_.
     bindA (cleanup e) (\<lambda>_.
     bindA (popen_launch e) (\<lambda>o0.
     bindA (modifyA (upd_process p (\<lambda>x. x\<lparr>pr_popen := Some o0, pr_sentinel := po_sentinel o0\<rparr>))) (\<lambda>_.
     modifyA (\<lambda>w. w\<lparr>w_children := List.insert p (w_children w)\<rparr>)))))))"

definition proc_close :: "env \<Rightarrow> nat \<Rightarrow> (world, unit) act" where
  "proc_close e p =
     bindA (readA (\<lambda>w. whenA (pr_popen (w_procs w p) \<noteq> None)
       (bindA (popen_poll True e p) (\<lambda>r.
        bindA (assertA (\<lambda>_. r \<noteq> None) ValueError) (\<lambda>_.
        bindA (popen_close p) (\<lambda>_.
        bindA (modifyA (upd_process p (\<lambda>x. x\<lparr>pr_popen := None\<rparr>))) (\<lambda>_.
        bindA (assertA (\<lambda>w. pr_sentinel (w_procs w p) \<noteq> None) AttributeError) (\<lambda>_.
        bindA (modifyA (upd_process p (\<lambda>x. x\<lparr>pr_sentinel := None\<rparr>))) (\<lambda>_.
        discard p))))))))) (\<lambda>_.
     modifyA (upd_process p (\<lambda>x. x\<lparr>pr_closed := True\<rparr>)))"

definition proc_terminate :: "env \<Rightarrow> nat \<Rightarrow> (world, unit) act" where
  "proc_terminate e p = bindA (check_closed p) (\<lambda>_. popen_terminate e p)"

definition terminate_controlled :: "env \<Rightarrow> nat \<Rightarrow> (world, unit) act" where
  "terminate_controlled e p =
     bindA (modifyA (upd_process p (\<lambda>x. x\<lparr>pr_controlled := True\<rparr>))) (\<lambda>_. proc_terminate e p)"

definition proc_join :: "timeout \<Rightarrow> env \<Rightarrow> nat \<Rightarrow> (world, unit) act" where
  "proc_join t e p =
     bindA (check_closed p) (\<lambda>_.
     bindA (assertA (\<lambda>w. pr_parent_pid (w_procs w p) = Some (w_pid w)) AssertionError) (\<lambda>_.
     bindA (assertA (\<lambda>w. pr_popen (w_procs w p) \<noteq> None) AssertionError) (\<lambda>_.
     bindA (popen_wait t e p) (\<lambda>res.
     whenA (res \<noteq> None) (bindA (discard p) (\<lambda>_. popen_close p))))))"

definition proc_is_alive :: "env \<Rightarrow> nat \<Rightarrow> (world, bool) act" where
  "proc_is_alive e p =
     bindA (check_closed p) (\<lambda>_.
     readA (\<lambda>w. if w_current w = p then ret True
       else bindA (assertA (\<lambda>w. pr_parent_pid (w_procs w p) = Some (w_pid w)) AssertionError) (\<lambda>_.
         if pr_popen (w_procs w p) = None then ret False
         else bindA (popen_poll True e p) (\<lambda>_. bindA (popen_of p) (\<lambda>o0. ret (po_returncode o0 = None))))))"

definition is_alive_unchecked :: "env \<Rightarrow> nat \<Rightarrow> (world, bool) act" where
  "is_alive_unchecked e p = readA (\<lambda>w. if pr_popen (w_procs w p) = None then ret False
     else bindA (popen_poll True e p) (\<lambda>r. ret (r = None)))"

definition set_name :: "string option \<Rightarrow> nat \<Rightarrow> (world, unit) act" where
  "set_name n p = (case n of None \<Rightarrow> raise AssertionError | Some s \<Rightarrow> modifyA (upd_process p (\<lambda>x. x\<lparr>pr_name := s\<rparr>)))"

definition daemon :: "process \<Rightarrow> bool" where
  "daemon x = (case pr_daemon x of None \<Rightarrow> False | Some b \<Rightarrow> b)"

definition set_daemon :: "bool \<Rightarrow> nat \<Rightarrow> (world, unit) act" where
  "set_daemon b p = bindA (assertA (\<lambda>w. pr_popen (w_procs w p) = None) AssertionError)
     (\<lambda>_. modifyA (upd_process p (\<lambda>x. x\<lparr>pr_daemon := Some b\<rparr>)))"

definition proc_exitcode :: "env \<Rightarrow> nat \<Rightarrow> (world, int option) act" where
  "proc_exitcode e p = bindA (check_closed p) (\<lambda>_.
     readA (\<lambda>w. if pr_popen (w_procs w p) = None then ret None else popen_poll True e p))"

definition proc_ident :: "nat \<Rightarrow> (world, nat option) act" where
  "proc_ident p = bindA (check_closed p) (\<lambda>_.
     getsA (\<lambda>w. if w_current w = p then Some (w_pid w) else map_option po_pid (pr_popen (w_procs w p))))"

definition proc_sentinel :: "nat \<Rightarrow> (world, nat) act" where
  "proc_sentinel p = bindA (check_closed p) (\<lambda>_. fetchA (\<lambda>w. pr_sentinel (w_procs w p)) ValueError)"

text \<open>The status in \<open>__repr__\<close>; the names of the signals are the parameter.\<close>

datatype status = Started | Closed | Unknown | Initial | Stopped | StoppedName string | StoppedCode int

definition repr_status :: "(int \<Rightarrow> string option) \<Rightarrow> env \<Rightarrow> nat \<Rightarrow> (world, status) act" where
  "repr_status names e p = readA (\<lambda>w.
     if w_current w = p then ret Started
     else if pr_closed (w_procs w p) then ret Closed
     else if pr_parent_pid (w_procs w p) \<noteq> Some (w_pid w) then ret Unknown
     else if pr_popen (w_procs w p) = None then ret Initial
     else bindA (popen_poll True e p) (\<lambda>r.
       if r = None then ret Started
       else bindA (proc_exitcode e p) (\<lambda>c.
         case c of
           None \<Rightarrow> ret Started
         | Some n \<Rightarrow> if n = 0 then ret Stopped
             else ret (case names n of None \<Rightarrow> StoppedCode n | Some s \<Rightarrow> StoppedName s))))"

section \<open>In the child\<close>

text \<open>
  How code of the child ends, and the exit status \<open>_bootstrap\<close> makes of it: \<open>prepare\<close> is what
  happens before \<open>run\<close>, \<open>fin\<close> is \<open>util._exit_function\<close>.
\<close>

datatype exit_arg = NoArg | IntArg int | StrArg string | OtherArg
datatype ending = Returns | Exits exit_arg | Raises exn

definition in_order :: "ending \<Rightarrow> ending \<Rightarrow> ending" where
  "in_order a b = (if a = Returns then b else a)"

definition with_finally :: "ending \<Rightarrow> ending \<Rightarrow> ending" where
  "with_finally a fin = (if fin = Returns then a else fin)"

fun bootstrap_code :: "ending \<Rightarrow> int" where
  "bootstrap_code Returns = 0"
| "bootstrap_code (Exits NoArg) = 1"
| "bootstrap_code (Exits (IntArg n)) = n"
| "bootstrap_code (Exits (StrArg _)) = 0"
| "bootstrap_code (Exits OtherArg) = 1"
| "bootstrap_code (Raises _) = 1"

definition bootstrap :: "ending \<Rightarrow> ending \<Rightarrow> ending \<Rightarrow> int" where
  "bootstrap prepare run fin = bootstrap_code (in_order prepare (with_finally run fin))"

text \<open>\<open>os._exit(code)\<close>: the system keeps the low 8 bits.\<close>

definition os_exit :: "int \<Rightarrow> wstatus" where
  "os_exit code = Exited (nat (code mod 256))"

text \<open>What the child has of its parent's state: the fork copies it, \<open>_launch\<close> closes its end
  of the pipe and \<open>_bootstrap\<close> resets the globals of the module.\<close>

definition bootstrap_world :: "nat \<Rightarrow> nat \<Rightarrow> nat \<Rightarrow> world \<Rightarrow> world" where
  "bootstrap_world parent_r pid p w = w\<lparr>w_pid := pid, w_kids := (\<lambda>_. None), w_signals := [],
     w_fds := (w_fds w)(parent_r := False), w_counter := 1, w_children := [], w_current := p\<rparr>"

text \<open>\<open>AuthenticationString.__reduce__\<close>: the key may only be pickled for a process that is being spawned.\<close>

definition auth_reduce :: "bool \<Rightarrow> 'k \<Rightarrow> exn + 'k" where
  "auth_reduce spawning key = (if spawning then Inr key else Inl TypeError)"

section \<open>Histories\<close>

definition main_process :: process where
  "main_process = \<lparr>pr_identity = [], pr_name = ''MainProcess'', pr_daemon = None, pr_parent_pid = None,
     pr_popen = None, pr_closed = False, pr_sentinel = None, pr_controlled = False\<rparr>"

definition new_world :: "nat \<Rightarrow> world" where
  "new_world pid = \<lparr>w_pid = pid, w_current = 0, w_procs = (\<lambda>_. main_process), w_next = 1, w_children = [],
     w_counter = 1, w_kids = (\<lambda>_. None), w_fds = (\<lambda>_. False), w_signals = []\<rparr>"

text \<open>
  Besides the methods: a child ends, the process opens a file, and somebody else waits for a child
  (a \<open>SIGCHLD\<close> handler with \<open>waitpid(-1)\<close>).
\<close>

datatype action =
    New string "string option" "bool option" | Start env nat | Close env nat | Terminate env nat
  | TerminateControlled env nat | Join timeout env nat | IsAlive env nat | IsAliveUnchecked env nat
  | Exitcode env nat | Repr env nat | ActiveChildren env | SetDaemon bool nat
  | ChildEnds nat wstatus | OpenFile nat | Reap nat

definition run_act :: "(world, 'a) act \<Rightarrow> world \<Rightarrow> exn option \<times> world" where
  "run_act m w = (case m w of (Inl e, w') \<Rightarrow> (Some e, w') | (Inr _, w') \<Rightarrow> (None, w'))"

fun act_step :: "action \<Rightarrow> world \<Rightarrow> exn option \<times> world" where
  "act_step (New cls n d) w = run_act (new_process cls False n d) w"
| "act_step (Start e p) w = run_act (proc_start e p) w"
| "act_step (Close e p) w = run_act (proc_close e p) w"
| "act_step (Terminate e p) w = run_act (proc_terminate e p) w"
| "act_step (TerminateControlled e p) w = run_act (terminate_controlled e p) w"
| "act_step (Join t e p) w = run_act (proc_join t e p) w"
| "act_step (IsAlive e p) w = run_act (proc_is_alive e p) w"
| "act_step (IsAliveUnchecked e p) w = run_act (is_alive_unchecked e p) w"
| "act_step (Exitcode e p) w = run_act (proc_exitcode e p) w"
| "act_step (Repr e p) w = run_act (repr_status (\<lambda>_. None) e p) w"
| "act_step (ActiveChildren e) w = run_act (active_children e) w"
| "act_step (SetDaemon b p) w = run_act (set_daemon b p) w"
| "act_step (ChildEnds pid st) w =
     (None, if w_kids w pid = Some Alive then w\<lparr>w_kids := (w_kids w)(pid \<mapsto> Zombie st)\<rparr> else w)"
| "act_step (OpenFile fd) w = (None, w\<lparr>w_fds := (w_fds w)(fd := True)\<rparr>)"
| "act_step (Reap pid) w = (None, w\<lparr>w_kids := (w_kids w)(pid := None)\<rparr>)"

definition history :: "action list \<Rightarrow> world \<Rightarrow> world" where
  "history acts w = fold (\<lambda>a w. snd (act_step a w)) acts w"

section \<open>Every method is a sequence of moves\<close>

declare digits.simps [simp del]

definition running :: "world \<Rightarrow> nat \<Rightarrow> nat \<Rightarrow> bool" where
  "running w p pid \<longleftrightarrow> (\<exists>x. pr_popen (w_procs w p) = Some x \<and> po_returncode x = None \<and> po_pid x = pid)"

definition holds_fd :: "world \<Rightarrow> nat \<Rightarrow> nat \<Rightarrow> bool" where
  "holds_fd w p fd \<longleftrightarrow> (\<exists>x. pr_popen (w_procs w p) = Some x \<and> po_sentinel x = Some fd)"

text \<open>What holds in every history, and what holds as long as nobody else waits for the children.\<close>

definition world_inv :: "world \<Rightarrow> bool" where
  "world_inv w \<longleftrightarrow>
     (\<forall>p \<in> set (w_children w). pr_popen (w_procs w p) \<noteq> None) \<and>
     (\<forall>p pid. running w p pid \<longrightarrow> p \<in> set (w_children w) \<and> (\<exists>fd. holds_fd w p fd)) \<and>
     (\<forall>p fd. holds_fd w p fd \<longrightarrow> w_fds w fd \<and> pr_sentinel (w_procs w p) = Some fd) \<and>
     (\<forall>p q fd. holds_fd w p fd \<longrightarrow> holds_fd w q fd \<longrightarrow> p = q) \<and>
     (\<forall>p. pr_popen (w_procs w p) \<noteq> None \<longrightarrow> pr_sentinel (w_procs w p) \<noteq> None \<and> \<not> pr_closed (w_procs w p) \<and>
        pr_parent_pid (w_procs w p) = Some (w_pid w)) \<and>
     (\<forall>p \<ge> w_next w. pr_parent_pid (w_procs w p) = None) \<and>
     pr_parent_pid (w_procs w (w_current w)) \<noteq> Some (w_pid w) \<and> w_current w < w_next w"

definition own_children :: "world \<Rightarrow> bool" where
  "own_children w \<longleftrightarrow>
     (\<forall>p pid. running w p pid \<longrightarrow> w_kids w pid \<noteq> None) \<and>
     (\<forall>p q pid. running w p pid \<longrightarrow> running w q pid \<longrightarrow> p = q) \<and>
     (\<forall>pid own. (pid, own) \<in> set (w_signals w) \<longrightarrow> own)"

text \<open>The updates a method is made of.\<close>

definition reaped :: "nat \<Rightarrow> wstatus \<Rightarrow> world \<Rightarrow> world" where
  "reaped p st w = upd_process p (\<lambda>x. x\<lparr>pr_popen := map_option (\<lambda>y. y\<lparr>po_returncode := Some (status_code st)\<rparr>) (pr_popen x)\<rparr>)
     (w\<lparr>w_kids := (w_kids w)(po_pid (the (pr_popen (w_procs w p))) := None)\<rparr>)"

definition sentinel_closed :: "nat \<Rightarrow> nat \<Rightarrow> world \<Rightarrow> world" where
  "sentinel_closed p fd w = upd_process p (\<lambda>x. x\<lparr>pr_popen := map_option (\<lambda>y. y\<lparr>po_sentinel := None\<rparr>) (pr_popen x)\<rparr>)
     (w\<lparr>w_fds := (w_fds w)(fd := False)\<rparr>)"

definition dropped :: "nat \<Rightarrow> world \<Rightarrow> world" where
  "dropped p w = upd_process p (\<lambda>x. x\<lparr>pr_popen := None, pr_sentinel := None, pr_closed := True\<rparr>)
     (w\<lparr>w_children := removeAll p (w_children w)\<rparr>)"

definition launched :: "nat \<Rightarrow> nat \<Rightarrow> nat \<Rightarrow> nat \<Rightarrow> world \<Rightarrow> world" where
  "launched p pid r c w = upd_process p (\<lambda>x. x\<lparr>pr_popen := Some \<lparr>po_pid = pid, po_returncode = None, po_sentinel = Some r\<rparr>,
       pr_sentinel := Some r\<rparr>)
     (w\<lparr>w_kids := (w_kids w)(pid \<mapsto> Alive), w_fds := (w_fds w)(r := True, c := False), w_children := List.insert p (w_children w)\<rparr>)"

inductive move :: "world \<Rightarrow> world \<Rightarrow> bool" where
  reap: "running w p pid \<Longrightarrow> w_kids w pid = Some Alive \<or> w_kids w pid = Some (Zombie st) \<Longrightarrow> move w (reaped p st w)"
| discarded: "pr_popen (w_procs w p) = Some x \<Longrightarrow> po_returncode x \<noteq> None \<Longrightarrow>
    move w (w\<lparr>w_children := removeAll p (w_children w)\<rparr>)"
| shut: "pr_popen (w_procs w p) = Some x \<Longrightarrow> po_returncode x \<noteq> None \<Longrightarrow> po_sentinel x = Some fd \<Longrightarrow>
    move w (sentinel_closed p fd w)"
| drop_popen: "pr_popen (w_procs w p) = Some x \<Longrightarrow> po_returncode x \<noteq> None \<Longrightarrow> po_sentinel x = None \<Longrightarrow> move w (dropped p w)"
| closed: "pr_popen (w_procs w p) = None \<Longrightarrow> move w (upd_process p (\<lambda>x. x\<lparr>pr_closed := True\<rparr>) w)"
| launch: "pr_popen (w_procs w p) = None \<Longrightarrow> \<not> pr_closed (w_procs w p) \<Longrightarrow> pr_parent_pid (w_procs w p) = Some (w_pid w) \<Longrightarrow>
    \<not> w_fds w r \<Longrightarrow> \<not> w_fds w c \<Longrightarrow> r \<noteq> c \<Longrightarrow> w_kids w pid = None \<Longrightarrow> move w (launched p pid r c w)"
| open_fd: "move w (w\<lparr>w_fds := (w_fds w)(fd := True)\<rparr>)"
| signal: "running w p pid \<Longrightarrow> move w (w\<lparr>w_signals := w_signals w @ [(pid, w_kids w pid \<noteq> None)]\<rparr>)"
| field: "f = (\<lambda>x. x\<lparr>pr_controlled := True\<rparr>) \<or> f = (\<lambda>x. x\<lparr>pr_daemon := Some b\<rparr>) \<Longrightarrow> move w (upd_process p f w)"
| create: "pr_popen x = None \<Longrightarrow> pr_parent_pid x = Some (w_pid w) \<Longrightarrow>
    move w (w\<lparr>w_counter := n, w_next := Suc (w_next w), w_procs := (w_procs w)(w_next w := x)\<rparr>)"
| child_ends: "w_kids w pid = Some Alive \<Longrightarrow> move w (w\<lparr>w_kids := (w_kids w)(pid \<mapsto> Zombie st)\<rparr>)"

lemmas upds = reaped_def sentinel_closed_def dropped_def launched_def upd_process_def

lemma world_inv_next:
  assumes "world_inv w"
  shows "pr_popen (w_procs w (w_next w)) = None"
  using assms unfolding world_inv_def by (metis le_refl option.distinct(1))

lemma running_simps [simp]:
  "running (reaped p st w) q = (\<lambda>i. running w q i \<and> q \<noteq> p)"
  "running (sentinel_closed p fd w) = running w"
  "running (dropped p w) q = (\<lambda>i. running w q i \<and> q \<noteq> p)"
  "running (launched p pid r c w) q = (\<lambda>i. if q = p then i = pid else running w q i)"
  "running (upd_process p (\<lambda>x. x\<lparr>pr_closed := True\<rparr>) w) = running w"
  "running (w\<lparr>w_children := ps\<rparr>) = running w"
  "running (w\<lparr>w_fds := fds\<rparr>) = running w"
  "running (w\<lparr>w_signals := sigs\<rparr>) = running w"
  "running (w\<lparr>w_kids := ks\<rparr>) = running w"
  by (auto simp: running_def upds fun_eq_iff)

lemma holds_fd_simps [simp]:
  "holds_fd (reaped p st w) = holds_fd w"
  "holds_fd (sentinel_closed p fd w) q = (\<lambda>i. holds_fd w q i \<and> q \<noteq> p)"
  "holds_fd (dropped p w) q = (\<lambda>i. holds_fd w q i \<and> q \<noteq> p)"
  "holds_fd (launched p pid r c w) q = (\<lambda>i. q = p \<and> i = r \<or> q \<noteq> p \<and> holds_fd w q i)"
  "holds_fd (upd_process p (\<lambda>x. x\<lparr>pr_closed := True\<rparr>) w) = holds_fd w"
  "holds_fd (w\<lparr>w_children := ps\<rparr>) = holds_fd w"
  "holds_fd (w\<lparr>w_fds := fds\<rparr>) = holds_fd w"
  "holds_fd (w\<lparr>w_signals := sigs\<rparr>) = holds_fd w"
  "holds_fd (w\<lparr>w_kids := ks\<rparr>) = holds_fd w"
  by (auto simp: holds_fd_def upds fun_eq_iff)

lemma running_field:
  assumes "f = (\<lambda>x. x\<lparr>pr_controlled := True\<rparr>) \<or> f = (\<lambda>x. x\<lparr>pr_daemon := Some b\<rparr>)"
  shows "running (upd_process p f w) q i \<longleftrightarrow> running w q i" "holds_fd (upd_process p f w) q i \<longleftrightarrow> holds_fd w q i"
  using assms by (auto simp: running_def holds_fd_def upd_process_def)

lemma running_new:
  assumes "pr_popen x = None" "pr_popen (w_procs w n) = None"
  shows "running (w\<lparr>w_counter := c, w_next := m, w_procs := (w_procs w)(n := x)\<rparr>) q i \<longleftrightarrow> running w q i"
    "holds_fd (w\<lparr>w_counter := c, w_next := m, w_procs := (w_procs w)(n := x)\<rparr>) q i \<longleftrightarrow> holds_fd w q i"
  using assms by (auto simp: running_def holds_fd_def)

lemma process_after [simp]:
  "pr_popen (w_procs (reaped p st w) q) = None \<longleftrightarrow> pr_popen (w_procs w q) = None"
  "pr_popen (w_procs (sentinel_closed p fd w) q) = None \<longleftrightarrow> pr_popen (w_procs w q) = None"
  "pr_popen (w_procs (dropped p w) q) = None \<longleftrightarrow> q = p \<or> pr_popen (w_procs w q) = None"
  "pr_popen (w_procs (launched p pid r c w) q) = None \<longleftrightarrow> q \<noteq> p \<and> pr_popen (w_procs w q) = None"
  "pr_sentinel (w_procs (reaped p st w) q) = pr_sentinel (w_procs w q)"
  "pr_sentinel (w_procs (sentinel_closed p fd w) q) = pr_sentinel (w_procs w q)"
  "pr_sentinel (w_procs (dropped p w) q) = (if q = p then None else pr_sentinel (w_procs w q))"
  "pr_sentinel (w_procs (launched p pid r c w) q) = (if q = p then Some r else pr_sentinel (w_procs w q))"
  "pr_closed (w_procs (reaped p st w) q) = pr_closed (w_procs w q)"
  "pr_closed (w_procs (sentinel_closed p fd w) q) = pr_closed (w_procs w q)"
  "pr_closed (w_procs (dropped p w) q) \<longleftrightarrow> q = p \<or> pr_closed (w_procs w q)"
  "pr_closed (w_procs (launched p pid r c w) q) = pr_closed (w_procs w q)"
  "pr_parent_pid (w_procs (reaped p st w) q) = pr_parent_pid (w_procs w q)"
  "pr_parent_pid (w_procs (sentinel_closed p fd w) q) = pr_parent_pid (w_procs w q)"
  "pr_parent_pid (w_procs (dropped p w) q) = pr_parent_pid (w_procs w q)"
  "pr_parent_pid (w_procs (launched p pid r c w) q) = pr_parent_pid (w_procs w q)"
  by (simp_all add: upds)

lemma world_after [simp]:
  "w_children (reaped p st w) = w_children w" "w_children (sentinel_closed p fd w) = w_children w"
  "w_children (dropped p w) = removeAll p (w_children w)" "w_children (launched p pid r c w) = List.insert p (w_children w)"
  "w_fds (reaped p st w) = w_fds w" "w_fds (sentinel_closed p fd w) = (w_fds w)(fd := False)"
  "w_fds (dropped p w) = w_fds w" "w_fds (launched p pid r c w) = (w_fds w)(r := True, c := False)"
  "w_kids (sentinel_closed p fd w) = w_kids w" "w_kids (dropped p w) = w_kids w"
  "w_kids (launched p pid r c w) = (w_kids w)(pid \<mapsto> Alive)"
  "w_next (reaped p st w) = w_next w" "w_next (sentinel_closed p fd w) = w_next w"
  "w_next (dropped p w) = w_next w" "w_next (launched p pid r c w) = w_next w"
  "w_pid (reaped p st w) = w_pid w" "w_pid (sentinel_closed p fd w) = w_pid w"
  "w_pid (dropped p w) = w_pid w" "w_pid (launched p pid r c w) = w_pid w"
  "w_current (reaped p st w) = w_current w" "w_current (sentinel_closed p fd w) = w_current w"
  "w_current (dropped p w) = w_current w" "w_current (launched p pid r c w) = w_current w"
  "w_signals (reaped p st w) = w_signals w" "w_signals (sentinel_closed p fd w) = w_signals w"
  "w_signals (dropped p w) = w_signals w" "w_signals (launched p pid r c w) = w_signals w"
  by (simp_all add: upds)

lemma kids_reaped: "running w p pid \<Longrightarrow> w_kids (reaped p st w) = (w_kids w)(pid := None)"
  by (auto simp: running_def upds)

lemma holds_fd_shut: "pr_popen (w_procs w p) = Some x \<Longrightarrow> po_sentinel x = Some fd \<Longrightarrow> holds_fd w p fd"
  by (simp add: holds_fd_def)

lemma not_running: "pr_popen (w_procs w p) = Some x \<Longrightarrow> po_returncode x \<noteq> None \<Longrightarrow> \<not> running w p i"
  by (simp add: running_def)

lemma move_inv: "move w w' \<Longrightarrow> world_inv w \<Longrightarrow> world_inv w'"
proof (induction rule: move.induct)
  case (create x w n)
  note r = running_new [OF create.hyps(1) world_inv_next [OF create.prems]]
  have "\<not> holds_fd w (w_next w) fd" for fd
    using world_inv_next [OF create.prems] by (simp add: holds_fd_def)
  with create show ?case unfolding world_inv_def r by auto
next
  case (field f b w p)
  note r = running_field [OF field.hyps]
  have "pr_popen (w_procs (upd_process p f w) q) = pr_popen (w_procs w q)" "pr_sentinel (w_procs (upd_process p f w) q) = pr_sentinel (w_procs w q)"
    "pr_closed (w_procs (upd_process p f w) q) = pr_closed (w_procs w q)" "pr_parent_pid (w_procs (upd_process p f w) q) = pr_parent_pid (w_procs w q)" for q
    using field.hyps by (auto simp: upd_process_def)
  with field.prems show ?case unfolding world_inv_def r by (simp add: upd_process_def)
next
  case (closed w p)
  have "pr_popen (w_procs (upd_process p (\<lambda>x. x\<lparr>pr_closed := True\<rparr>) w) q) = pr_popen (w_procs w q)"
    "pr_sentinel (w_procs (upd_process p (\<lambda>x. x\<lparr>pr_closed := True\<rparr>) w) q) = pr_sentinel (w_procs w q)"
    "pr_closed (w_procs (upd_process p (\<lambda>x. x\<lparr>pr_closed := True\<rparr>) w) q) \<longleftrightarrow> q = p \<or> pr_closed (w_procs w q)"
    "pr_parent_pid (w_procs (upd_process p (\<lambda>x. x\<lparr>pr_closed := True\<rparr>) w) q) = pr_parent_pid (w_procs w q)" for q
    by (auto simp: upd_process_def)
  note eqs = this
  have "w_children (upd_process p (\<lambda>x. x\<lparr>pr_closed := True\<rparr>) w) = w_children w" "w_fds (upd_process p (\<lambda>x. x\<lparr>pr_closed := True\<rparr>) w) = w_fds w"
    "w_next (upd_process p (\<lambda>x. x\<lparr>pr_closed := True\<rparr>) w) = w_next w" "w_pid (upd_process p (\<lambda>x. x\<lparr>pr_closed := True\<rparr>) w) = w_pid w"
    "w_current (upd_process p (\<lambda>x. x\<lparr>pr_closed := True\<rparr>) w) = w_current w"
    by (simp_all add: upd_process_def)
  with closed show ?case unfolding world_inv_def running_simps holds_fd_simps eqs by auto
next
  case (launch w p r c pid)
  have "\<not> holds_fd w q r" "\<not> holds_fd w q c" "\<not> running w p i" for q i
    using launch unfolding world_inv_def running_def by auto
  moreover have "\<exists>i. q = p \<and> i = r \<or> q \<noteq> p \<and> holds_fd w q i" if "running w q j" for q j
    using launch that unfolding world_inv_def by metis
  ultimately show ?case using launch unfolding world_inv_def by auto
next
  case (shut w p x fd)
  then show ?case using holds_fd_shut [OF shut(1,3)] not_running [OF shut(1,2)] unfolding world_inv_def by auto
next
  case (drop_popen w p x)
  then show ?case using not_running [OF drop_popen(1,2)] unfolding world_inv_def by auto
next
  case (discarded w p x)
  then show ?case using not_running [OF discarded(1,2)] unfolding world_inv_def by auto
qed (auto simp: world_inv_def)

lemma move_own: "move w w' \<Longrightarrow> world_inv w \<Longrightarrow> own_children w \<Longrightarrow> own_children w'"
proof (induction rule: move.induct)
  case (create x w n)
  note r = running_new [OF create.hyps(1) world_inv_next [OF create.prems(1)]]
  from create show ?case unfolding own_children_def r by auto
next
  case (field f b w p)
  note r = running_field [OF field.hyps]
  from field.prems show ?case unfolding own_children_def r by (auto simp: upd_process_def)
next
  case (closed w p)
  have "w_kids (upd_process p (\<lambda>x. x\<lparr>pr_closed := True\<rparr>) w) = w_kids w" "w_signals (upd_process p (\<lambda>x. x\<lparr>pr_closed := True\<rparr>) w) = w_signals w"
    by (simp_all add: upd_process_def)
  with closed show ?case unfolding own_children_def by auto
next
  case (reap w p pid st)
  then show ?case unfolding own_children_def kids_reaped [OF reap(1)] by auto
next
  case (launch w p r c pid)
  then have "\<not> running w q pid" for q unfolding own_children_def by blast
  then show ?case using launch unfolding own_children_def by (auto split: if_splits)
qed (auto simp: own_children_def)

lemma moves_inv: "move\<^sup>*\<^sup>* w w' \<Longrightarrow> world_inv w \<Longrightarrow> world_inv w'"
  by (induction rule: rtranclp_induct) (auto intro: move_inv)

lemma moves_own: "move\<^sup>*\<^sup>* w w' \<Longrightarrow> world_inv w \<Longrightarrow> own_children w \<Longrightarrow> own_children w'"
  by (induction rule: rtranclp_induct) (auto intro: move_own moves_inv)

text \<open>The postcondition of the methods: moves only, and an exception only from a given set.\<close>

definition moves :: "world \<Rightarrow> world \<Rightarrow> bool" where
  "moves w w' \<longleftrightarrow> move\<^sup>*\<^sup>* w w' \<and> world_inv w'"

lemma moves_refl: "world_inv w \<Longrightarrow> moves w w"
  by (simp add: moves_def)

lemma moves_step: "moves w w' \<Longrightarrow> move w' w'' \<Longrightarrow> moves w w''"
  by (auto simp: moves_def intro: move_inv rtranclp.rtrancl_into_rtrancl)

lemma poll_loop_eq: "poll_loop n nohang e pid = poll_loop 0 nohang e pid"
  by (induction n) (simp_all add: act_defs fun_eq_iff)

lemma popen_poll_eq:
  assumes "pr_popen (w_procs w p) = Some x"
  shows "popen_poll nohang e p w =
    (if po_returncode x \<noteq> None then (Inr (po_returncode x), w)
     else case w_kids w (po_pid x) of
       None \<Rightarrow> (Inr None, w)
     | Some Alive \<Rightarrow> if nohang then (Inr None, w)
         else (case e_ends e of None \<Rightarrow> (Inl Blocks, w) | Some st \<Rightarrow> (Inr (Some (status_code st)), reaped p st w))
     | Some (Zombie st) \<Rightarrow> (Inr (Some (status_code st)), reaped p st w))"
  using assms
  by (auto simp: popen_poll_def popen_of_def poll_loop_eq [of "e_eintr e"] act_defs os_waitpid_def set_popen_def reaped_def upd_process_def
    split: option.split child.split)

lemma wp_poll:
  assumes m: "moves w0 w" and x: "pr_popen (w_procs w p) = Some x"
    and Q: "\<And>r w' x'. moves w0 w' \<Longrightarrow> pr_popen (w_procs w' p) = Some x' \<Longrightarrow> po_returncode x' = r \<Longrightarrow>
      po_sentinel x' = po_sentinel x \<Longrightarrow> w' = w \<or> (\<exists>st. w' = reaped p st w) \<Longrightarrow> Q r w'"
    and E: "\<not> nohang \<Longrightarrow> moves w0 w \<Longrightarrow> E Blocks w"
  shows "wp (popen_poll nohang e p) Q E w"
proof -
  have R: "Q (Some (status_code st)) (reaped p st w)"
    if "po_returncode x = None" "w_kids w (po_pid x) = Some Alive \<or> w_kids w (po_pid x) = Some (Zombie st)" for st
  proof -
    have "moves w0 (reaped p st w)"
      by (rule moves_step [OF m move.reap [where pid = "po_pid x"]]) (use x that in \<open>auto simp: running_def\<close>)
    then show ?thesis
      by (rule Q [where x' = "x\<lparr>po_returncode := Some (status_code st)\<rparr>"]) (use x in \<open>auto simp: upds\<close>)
  qed
  have N: "Q (po_returncode x) w" by (rule Q [OF m x]) simp_all
  show ?thesis
  proof (cases "po_returncode x")
    case (Some c)
    then show ?thesis using N by (simp add: wp_def popen_poll_eq [OF x])
  next
    case None
    then show ?thesis using N R E [OF _ m]
      by (simp add: wp_def popen_poll_eq [OF x] split: option.split child.split)
  qed
qed

text \<open>
  The methods under \<open>world_inv\<close>: they make moves only, and raise only \<open>es\<close>.
\<close>

definition safe :: "(exn \<Rightarrow> bool) \<Rightarrow> world \<Rightarrow> (world, 'a) act \<Rightarrow> world \<Rightarrow> bool" where
  "safe es w0 m w \<longleftrightarrow> wp m (\<lambda>_. moves w0) (\<lambda>x w'. moves w0 w' \<and> es x) w"

lemma cleanup_each_safe:
  "moves w0 w \<Longrightarrow> (\<And>p. p \<in> set ps \<Longrightarrow> pr_popen (w_procs w p) \<noteq> None) \<Longrightarrow>
    wp (cleanup_each e ps) (\<lambda>_ w'. moves w0 w' \<and> (\<forall>q. pr_popen (w_procs w q) = None \<longleftrightarrow> pr_popen (w_procs w' q) = None) \<and>
        (\<forall>q. pr_closed (w_procs w' q) = pr_closed (w_procs w q) \<and> pr_parent_pid (w_procs w' q) = pr_parent_pid (w_procs w q)) \<and>
        w_pid w' = w_pid w \<and> w_fds w' = w_fds w \<and> set (w_children w') \<subseteq> set (w_children w))
      (\<lambda>_ _. False) w"
proof (induction ps arbitrary: w)
  case (Cons p ps)
  then obtain x where x: "pr_popen (w_procs w p) = Some x" by fastforce
  show ?case unfolding cleanup_each.simps wp_simps
  proof (rule wp_poll [OF Cons.prems(1) x], goal_cases)
    case (1 r w' x')
    let ?w = "if r = None then w' else w'\<lparr>w_children := removeAll p (w_children w')\<rparr>"
    have m: "moves w0 ?w" using 1 by (auto intro: moves_step move.discarded)
    have same: "pr_popen (w_procs w q) = None \<longleftrightarrow> pr_popen (w_procs ?w q) = None"
      "pr_closed (w_procs ?w q) = pr_closed (w_procs w q)" "pr_parent_pid (w_procs ?w q) = pr_parent_pid (w_procs w q)"
      "w_pid ?w = w_pid w" "w_fds ?w = w_fds w" "set (w_children ?w) \<subseteq> set (w_children w)" for q
      using 1(5) by auto
    have "wp (cleanup_each e ps) (\<lambda>_ w''. moves w0 w'' \<and> (\<forall>q. pr_popen (w_procs ?w q) = None \<longleftrightarrow> pr_popen (w_procs w'' q) = None) \<and>
        (\<forall>q. pr_closed (w_procs w'' q) = pr_closed (w_procs ?w q) \<and> pr_parent_pid (w_procs w'' q) = pr_parent_pid (w_procs ?w q)) \<and>
        w_pid w'' = w_pid ?w \<and> w_fds w'' = w_fds ?w \<and> set (w_children w'') \<subseteq> set (w_children ?w)) (\<lambda>_ _. False) ?w"
      by (rule Cons.IH [OF m]) (use Cons.prems(2) same(1) in auto)
    then have "wp (cleanup_each e ps) (\<lambda>_ w''. moves w0 w'' \<and> (\<forall>q. pr_popen (w_procs w q) = None \<longleftrightarrow> pr_popen (w_procs w'' q) = None) \<and>
        (\<forall>q. pr_closed (w_procs w'' q) = pr_closed (w_procs w q) \<and> pr_parent_pid (w_procs w'' q) = pr_parent_pid (w_procs w q)) \<and>
        w_pid w'' = w_pid w \<and> w_fds w'' = w_fds w \<and> set (w_children w'') \<subseteq> set (w_children w)) (\<lambda>_ _. False) ?w"
      by (rule wp_mono) (use same in auto)
    then show ?case by (cases "r = None") (simp_all add: discard_def wp_simps)
  qed simp
qed (simp add: wp_simps)

lemma cleanup_safe:
  assumes "moves w0 w"
  shows "wp (cleanup e) (\<lambda>_ w'. moves w0 w' \<and> (\<forall>q. pr_popen (w_procs w q) = None \<longleftrightarrow> pr_popen (w_procs w' q) = None) \<and>
        (\<forall>q. pr_closed (w_procs w' q) = pr_closed (w_procs w q) \<and> pr_parent_pid (w_procs w' q) = pr_parent_pid (w_procs w q)) \<and>
        w_pid w' = w_pid w \<and> w_fds w' = w_fds w \<and> set (w_children w') \<subseteq> set (w_children w))
      (\<lambda>_ _. False) w"
  unfolding cleanup_def wp_simps
  by (rule cleanup_each_safe [OF assms]) (use assms in \<open>auto simp: moves_def world_inv_def\<close>)

lemma wp_popen_of [wp_simps]:
  "wp (popen_of p) Q E w = (case pr_popen (w_procs w p) of None \<Rightarrow> E AttributeError w | Some x \<Rightarrow> Q x w)"
  by (simp add: popen_of_def wp_fetch)

lemma wp_bind_fun: "wp (bindA m f) Q E = wp m (\<lambda>a. wp (f a) Q E) E"
  by (rule ext) (rule wp_bind)

lemma moves_world_inv: "moves w0 w \<Longrightarrow> world_inv w"
  by (simp add: moves_def)

lemma wp_wait:
  assumes m: "moves w0 w" and x: "pr_popen (w_procs w p) = Some x"
    and Q: "\<And>r w' x'. moves w0 w' \<Longrightarrow> pr_popen (w_procs w' p) = Some x' \<Longrightarrow> po_returncode x' = r \<Longrightarrow>
      po_sentinel x' = po_sentinel x \<Longrightarrow> w' = w \<or> (\<exists>st. w' = reaped p st w) \<Longrightarrow> Q r w'"
    and E: "moves w0 w \<Longrightarrow> E Blocks w"
  shows "wp (popen_wait t e p) Q E w"
proof -
  have N: "Q (po_returncode x) w" by (rule Q [OF m x]) simp_all
  have "po_sentinel x \<noteq> None" if "po_returncode x = None"
    using moves_world_inv [OF m] x that unfolding world_inv_def running_def holds_fd_def by fastforce
  moreover have "wp (popen_poll b e p) Q E w" for b
    by (rule wp_poll [OF m x]) (use Q E in blast)+
  ultimately show ?thesis using x N by (auto simp: popen_wait_def wp_simps)
qed

lemma wp_popen_close:
  assumes m: "moves w0 w" and x: "pr_popen (w_procs w p) = Some x" "po_returncode x \<noteq> None"
    and Q: "\<And>w'. moves w0 w' \<Longrightarrow> (\<exists>fd. po_sentinel x = Some fd \<and> w' = sentinel_closed p fd w) \<or> po_sentinel x = None \<and> w' = w \<Longrightarrow> Q () w'"
  shows "wp (popen_close p) Q E w"
proof (cases "po_sentinel x")
  case None
  then show ?thesis using Q [OF m] x by (simp add: popen_close_def wp_simps)
next
  case (Some fd)
  have fd: "w_fds w fd" using moves_world_inv [OF m] x Some unfolding world_inv_def holds_fd_def by blast
  have "moves w0 (sentinel_closed p fd w)" by (rule moves_step [OF m]) (rule move.shut [OF x Some])
  then have "Q () (sentinel_closed p fd w)" by (rule Q) (use Some in blast)
  then show ?thesis
    using x Some fd by (simp add: popen_close_def popen_of_def act_defs wp_def os_close_def set_popen_def sentinel_closed_def upd_process_def)
qed

lemma start_safe:
  assumes "world_inv w"
  shows "safe (\<lambda>x. x \<in> {ValueError, AssertionError, OSError EMFILE, OSError EAGAIN}) w (proc_start e p) w"
proof (cases "pr_closed (w_procs w p) \<or> pr_popen (w_procs w p) \<noteq> None \<or> pr_parent_pid (w_procs w p) \<noteq> Some (w_pid w)")
  case True
  then show ?thesis by (auto simp: safe_def proc_start_def check_closed_def wp_simps moves_refl assms)
next
  case False
  have launch: "wp (popen_launch e) (\<lambda>a. wp (bindA (modifyA (upd_process p (\<lambda>x. x\<lparr>pr_popen := Some a, pr_sentinel := po_sentinel a\<rparr>)))
        (\<lambda>_. modifyA (\<lambda>w. w\<lparr>w_children := List.insert p (w_children w)\<rparr>))) (\<lambda>_. moves w) E)
      (\<lambda>x w'. moves w w' \<and> x \<in> {OSError EMFILE, OSError EAGAIN}) w'"
    if m: "moves w w'" and p: "pr_popen (w_procs w' p) = None" "\<not> pr_closed (w_procs w' p)"
      "pr_parent_pid (w_procs w' p) = Some (w_pid w')" for E w'
  proof -
    obtain r c where rc: "e_pipe e = (r, c)" by (cases "e_pipe e")
    show ?thesis
    proof (cases "r = c \<or> w_fds w' r \<or> w_fds w' c")
      case True
      then show ?thesis using m by (simp add: popen_launch_def act_defs wp_def os_pipe_def rc)
    next
      case False
      let ?w = "w'\<lparr>w_fds := (w_fds w')(r := True, c := True)\<rparr>"
      have "moves w (w'\<lparr>w_fds := (w_fds w')(r := True)\<rparr>)" by (rule moves_step [OF m]) (rule move.open_fd)
      from moves_step [OF this move.open_fd [where fd = c]] have leak: "moves w ?w" by simp
      show ?thesis
      proof (cases "w_kids ?w (e_fork e) \<noteq> None \<or> e_fork e = w_pid ?w \<or> e_fork e = 0")
        case True
        then show ?thesis using leak False by (auto simp: popen_launch_def act_defs wp_def os_pipe_def os_fork_def rc)
      next
        case ok: False
        have "moves w (launched p (e_fork e) r c w')"
          by (rule moves_step [OF m]) (rule move.launch, use p False ok in auto)
        moreover have "launched p (e_fork e) r c w' = (let v = upd_process p (\<lambda>x. x\<lparr>pr_popen :=
              Some \<lparr>po_pid = e_fork e, po_returncode = None, po_sentinel = Some r\<rparr>, pr_sentinel := Some r\<rparr>)
            (w'\<lparr>w_kids := (w_kids w')(e_fork e \<mapsto> Alive), w_fds := (w_fds w')(r := True, c := False)\<rparr>) in v\<lparr>w_children := List.insert p (w_children v)\<rparr>)"
          by (simp add: launched_def upd_process_def Let_def)
        ultimately show ?thesis
          using False ok by (simp add: popen_launch_def act_defs wp_def os_pipe_def os_fork_def os_close_def rc Let_def)
      qed
    qed
  qed
  have "wp (cleanup e) (\<lambda>_. wp (popen_launch e) (\<lambda>a. wp (bindA (modifyA (upd_process p (\<lambda>x. x\<lparr>pr_popen := Some a, pr_sentinel := po_sentinel a\<rparr>)))
        (\<lambda>_. modifyA (\<lambda>w. w\<lparr>w_children := List.insert p (w_children w)\<rparr>))) (\<lambda>_. moves w) (\<lambda>x w'. moves w w' \<and>
          x \<in> {ValueError, AssertionError, OSError EMFILE, OSError EAGAIN}))
      (\<lambda>x w'. moves w w' \<and> x \<in> {ValueError, AssertionError, OSError EMFILE, OSError EAGAIN})) (\<lambda>x w'. moves w w' \<and> x \<in> {ValueError, AssertionError, OSError EMFILE, OSError EAGAIN}) w"
    by (rule wp_mono [OF cleanup_safe [OF moves_refl [OF assms]]]) (use False in \<open>auto intro!: wp_mono [OF launch]\<close>)
  then show ?thesis using False unfolding safe_def proc_start_def check_closed_def wp_bind_fun by (simp add: wp_assert)
qed

lemma popen_closed_after:
  assumes m: "moves w0 w" and x: "pr_popen (w_procs w p) = Some x" "po_returncode x \<noteq> None"
  shows "wp (popen_close p) (\<lambda>_ w'. moves w0 w' \<and> (\<exists>x'. pr_popen (w_procs w' p) = Some x' \<and> po_returncode x' = po_returncode x \<and> po_sentinel x' = None) \<and>
      pr_sentinel (w_procs w' p) = pr_sentinel (w_procs w p) \<and> pr_closed (w_procs w' p) = pr_closed (w_procs w p) \<and>
      (\<forall>fd. po_sentinel x = Some fd \<longrightarrow> \<not> w_fds w' fd)) (\<lambda>_ _. False) w"
  by (rule wp_popen_close [OF m x]) (use x in \<open>auto simp: upds\<close>)

lemma close_safe:
  assumes "world_inv w"
  shows "safe (\<lambda>x. x = ValueError) w (proc_close e p) w"
proof (cases "pr_popen (w_procs w p)")
  case None
  then show ?thesis using moves_step [OF moves_refl [OF assms] move.closed]
    by (simp add: safe_def proc_close_def wp_simps)
next
  case (Some x)
  let ?rest = "bindA (popen_close p) (\<lambda>_.
        bindA (modifyA (upd_process p (\<lambda>x. x\<lparr>pr_popen := None\<rparr>))) (\<lambda>_.
        bindA (assertA (\<lambda>w. pr_sentinel (w_procs w p) \<noteq> None) AttributeError) (\<lambda>_.
        bindA (modifyA (upd_process p (\<lambda>x. x\<lparr>pr_sentinel := None\<rparr>))) (\<lambda>_. discard p))))"
  have rest: "wp ?rest (\<lambda>_ w'. moves w (upd_process p (\<lambda>x. x\<lparr>pr_closed := True\<rparr>) w')) (\<lambda>x w'. moves w w' \<and> x = ValueError) v"
    if m: "moves w v" and x: "pr_popen (w_procs v p) = Some y" "po_returncode y \<noteq> None" for v y
    unfolding wp_bind
  proof (rule wp_mono [OF popen_closed_after [OF m x]], goal_cases)
    case (1 a w')
    then obtain x' where x': "pr_popen (w_procs w' p) = Some x'" "po_returncode x' \<noteq> None" "po_sentinel x' = None"
      and m': "moves w w'" using x by auto
    have "pr_sentinel (w_procs w' p) \<noteq> None" using moves_world_inv [OF m'] x' unfolding world_inv_def by fastforce
    moreover have "moves w (dropped p w')" by (rule moves_step [OF m']) (rule move.drop_popen [OF x'])
    moreover have "dropped p w' = upd_process p (\<lambda>x. x\<lparr>pr_closed := True\<rparr>)
        (let v = upd_process p (\<lambda>x. x\<lparr>pr_sentinel := None\<rparr>) (upd_process p (\<lambda>x. x\<lparr>pr_popen := None\<rparr>) w')
         in v\<lparr>w_children := removeAll p (w_children v)\<rparr>)"
      by (simp add: dropped_def upd_process_def Let_def)
    ultimately show ?case by (simp add: wp_simps discard_def Let_def) (simp add: upd_process_def)
  qed simp
  have "wp (bindA (popen_poll True e p) (\<lambda>r. bindA (assertA (\<lambda>_. r \<noteq> None) ValueError) (\<lambda>_. ?rest)))
     (\<lambda>_. wp (modifyA (upd_process p (\<lambda>x. x\<lparr>pr_closed := True\<rparr>))) (\<lambda>_. moves w) (\<lambda>x w'. moves w w' \<and> x = ValueError))
     (\<lambda>x w'. moves w w' \<and> x = ValueError) w"
    unfolding wp_bind [of "popen_poll True e p"]
  proof (rule wp_poll [OF moves_refl [OF assms] Some], goal_cases)
    case (1 r w' x')
    show ?case unfolding wp_bind [of "assertA (\<lambda>_. r \<noteq> None) ValueError"] wp_assert wp_modify
      using rest [OF 1(1,2)] 1(1,3) by (cases r) (simp_all only: if_True if_False simp_thms option.distinct not_None_eq option.inject ex_simps)
  qed simp
  then show ?thesis unfolding safe_def proc_close_def wp_bind [of "readA _"] wp_read wp_when
    using Some by simp
qed

lemma poll_safe:
  assumes "moves w0 w" "pr_popen (w_procs w p) = Some x"
  shows "wp (popen_poll True e p) (\<lambda>_. moves w0) (\<lambda>_ _. False) w"
  by (rule wp_poll [OF assms]) auto

lemma terminate_safe:
  assumes "moves w0 w"
  shows "safe (\<lambda>x. x \<in> {ValueError, Blocks} \<or> x = AttributeError \<and> pr_popen (w_procs w p) = None \<or>
      (\<exists>n. e_kill e = Some n \<and> n \<noteq> ESRCH \<and> x = OSError n)) w0 (proc_terminate e p) w"
proof (cases "pr_popen (w_procs w p)")
  case None
  then show ?thesis using assms by (auto simp: safe_def proc_terminate_def check_closed_def popen_terminate_def wp_simps)
next
  case (Some x)
  define es where "es = (\<lambda>x. x \<in> {ValueError, Blocks} \<or> x = AttributeError \<and> pr_popen (w_procs w p) = None \<or>
      (\<exists>n. e_kill e = Some n \<and> n \<noteq> ESRCH \<and> x = OSError n))"
  have es: "es ValueError" "es Blocks" "e_kill e = Some n \<Longrightarrow> n \<noteq> ESRCH \<Longrightarrow> es (OSError n)" for n
    by (simp_all add: es_def)
  have wait: "wp (popen_wait PosTimeout e p) (\<lambda>r. wp (if r = None then raise y else ret ()) (\<lambda>_. moves w0) (\<lambda>x w'. moves w0 w' \<and> es x))
      (\<lambda>x w'. moves w0 w' \<and> es x) w" if "es y" for y
    by (rule wp_wait [OF assms Some]) (use that es in \<open>auto simp: wp_simps\<close>)
  have sig: "moves w0 (w\<lparr>w_signals := w_signals w @ [(po_pid x, w_kids w (po_pid x) \<noteq> None)]\<rparr>)" if "po_returncode x = None"
    by (rule moves_step [OF assms move.signal [where p = p]]) (use Some that in \<open>simp add: running_def\<close>)
  have kill: "wp (os_kill e (po_pid x)) (\<lambda>_. moves w0) (\<lambda>y. wp (if y = OSError ESRCH then ret ()
      else bindA (popen_wait PosTimeout e p) (\<lambda>r. if r = None then raise y else ret ())) (\<lambda>_. moves w0) (\<lambda>x w'. moves w0 w' \<and> es x)) w"
    if "po_returncode x = None"
  proof (cases "e_kill e")
    case None
    then show ?thesis using sig [OF that] by (simp add: os_kill_def wp_def)
  next
    case k: (Some n)
    have "wp (os_kill e (po_pid x)) Q F w = F (OSError n) w" for Q F by (simp add: os_kill_def wp_def k)
    moreover have "wp (bindA (popen_wait PosTimeout e p) (\<lambda>r. if r = None then raise (OSError n) else ret ())) (\<lambda>_. moves w0)
        (\<lambda>x w'. moves w0 w' \<and> es x) w" if "n \<noteq> ESRCH"
      unfolding wp_bind by (rule wait) (rule es(3) [OF k that])
    ultimately show ?thesis using assms by (cases "n = ESRCH") (simp_all add: wp_ret)
  qed
  have "safe es w0 (proc_terminate e p) w"
    unfolding safe_def proc_terminate_def check_closed_def popen_terminate_def wp_bind [of "assertA _ _"] wp_assert
      wp_bind [of "popen_of p"] wp_popen_of Some option.case
    using kill assms es by (cases "po_returncode x") (simp_all add: wp_catch wp_ret)
  then show ?thesis unfolding es_def .
qed

lemma join_safe:
  assumes "world_inv w"
  shows "safe (\<lambda>x. x \<in> {ValueError, AssertionError, Blocks}) w (proc_join t e p) w"
proof (cases "pr_popen (w_procs w p)")
  case None
  then show ?thesis using assms by (simp add: safe_def proc_join_def check_closed_def wp_simps moves_refl)
next
  case (Some x)
  have "wp (popen_wait t e p) (\<lambda>res. wp (whenA (res \<noteq> None) (bindA (discard p) (\<lambda>_. popen_close p))) (\<lambda>_. moves w) (\<lambda>x w'. moves w w' \<and>
      x \<in> {ValueError, AssertionError, Blocks})) (\<lambda>x w'. moves w w' \<and> x \<in> {ValueError, AssertionError, Blocks}) w"
  proof (rule wp_wait [OF moves_refl [OF assms] Some], goal_cases)
    case (1 r w' x')
    show ?case
    proof (cases r)
      case (Some c)
      have "moves w (w'\<lparr>w_children := removeAll p (w_children w')\<rparr>)"
        by (rule moves_step [OF 1(1)]) (rule move.discarded [OF 1(2)], use 1(3) Some in simp)
      from wp_popen_close [OF this, of p x'] show ?thesis using Some 1(2,3) by (simp add: wp_simps discard_def)
    qed (use 1(1) in \<open>simp add: wp_simps\<close>)
  qed simp
  then show ?thesis using assms unfolding safe_def proc_join_def check_closed_def wp_bind [of "assertA _ _"] wp_assert wp_bind [of "popen_wait t e p"]
    by (simp add: moves_refl)
qed

lemma is_alive_safe:
  assumes "world_inv w"
  shows "safe (\<lambda>x. x \<in> {ValueError, AssertionError}) w (proc_is_alive e p) w"
proof (cases "pr_popen (w_procs w p)")
  case None
  then show ?thesis using assms by (simp add: safe_def proc_is_alive_def check_closed_def wp_simps moves_refl)
next
  case (Some x)
  have "wp (popen_poll True e p) (\<lambda>_. wp (bindA (popen_of p) (\<lambda>y. ret (po_returncode y = None))) (\<lambda>_. moves w) E) E w" for E
    by (rule wp_poll [OF moves_refl [OF assms] Some]) (auto simp: wp_simps)
  then show ?thesis using assms Some unfolding safe_def proc_is_alive_def check_closed_def wp_bind [of "assertA _ _"] wp_assert
    by (simp add: moves_refl wp_ret wp_read wp_assert wp_bind [of "popen_poll True e p"] wp_bind [of "assertA _ _"])
qed

lemma exitcode_safe:
  assumes "moves w0 w"
  shows "safe (\<lambda>x. x = ValueError) w0 (proc_exitcode e p) w"
  using assms poll_safe [of w0 w p _ e]
  by (auto simp: safe_def proc_exitcode_def check_closed_def wp_simps intro: wp_mono)

lemma wp_exitcode:
  "pr_popen (w_procs w p) = Some x \<Longrightarrow> \<not> pr_closed (w_procs w p) \<Longrightarrow>
    wp (proc_exitcode e p) Q E w = wp (popen_poll True e p) Q E w"
  by (simp add: proc_exitcode_def check_closed_def wp_simps)

lemma repr_safe:
  assumes "world_inv w"
  shows "safe (\<lambda>x. False) w (repr_status names e p) w"
proof (cases "pr_popen (w_procs w p)")
  case None
  then show ?thesis using assms by (simp add: safe_def repr_status_def wp_simps moves_refl)
next
  case (Some x)
  have "\<not> pr_closed (w_procs w p)" using assms Some unfolding world_inv_def by auto
  then have "wp (popen_poll True e p) (\<lambda>r w'. moves w w' \<and> \<not> pr_closed (w_procs w' p) \<and> pr_popen (w_procs w' p) \<noteq> None) E w" for E
    by (intro wp_poll [OF moves_refl [OF assms] Some]) auto
  then have "wp (popen_poll True e p) (\<lambda>r. wp (if r = None then ret Started
       else bindA (proc_exitcode e p) (\<lambda>c. case c of None \<Rightarrow> ret Started
         | Some n \<Rightarrow> if n = 0 then ret Stopped else ret (case names n of None \<Rightarrow> StoppedCode n | Some s \<Rightarrow> StoppedName s)))
      (\<lambda>_. moves w) (\<lambda>x w'. moves w w' \<and> False)) (\<lambda>x w'. moves w w' \<and> False) w"
  proof (rule wp_mono, goal_cases)
    case (1 r w')
    then obtain y where y: "pr_popen (w_procs w' p) = Some y" by blast
    have "wp (popen_poll True e p) (\<lambda>c. wp (case c of None \<Rightarrow> ret Started
         | Some n \<Rightarrow> if n = 0 then ret Stopped else ret (case names n of None \<Rightarrow> StoppedCode n | Some s \<Rightarrow> StoppedName s)) (\<lambda>_. moves w)
         (\<lambda>x w'. moves w w' \<and> False)) (\<lambda>x w'. moves w w' \<and> False) w'"
      by (rule wp_poll [OF conjunct1 [OF 1] y]) (auto simp: wp_simps split: option.split)
    then show ?case using 1 y by (cases r) (simp_all add: wp_ret wp_bind [of "proc_exitcode e p"] wp_exitcode)
  qed
  then show ?thesis using assms Some unfolding safe_def repr_status_def wp_read
    by (simp add: wp_ret moves_refl wp_bind [of "popen_poll True e p"])
qed

lemma active_children_safe:
  assumes "world_inv w"
  shows "safe (\<lambda>x. False) w (active_children e) w"
proof -
  have "wp (cleanup e) (\<lambda>_. moves w) (\<lambda>_ _. False) w"
    by (rule wp_mono [OF cleanup_safe [OF moves_refl [OF assms]]]) auto
  then show ?thesis unfolding safe_def active_children_def by (auto simp: wp_simps intro: wp_mono)
qed

section \<open>Histories\<close>

text \<open>What the methods may raise.\<close>

fun may_raise :: "action \<Rightarrow> world \<Rightarrow> exn \<Rightarrow> bool" where
  "may_raise (Start e p) w x = (x \<in> {ValueError, AssertionError, OSError EMFILE, OSError EAGAIN})"
| "may_raise (Close e p) w x = (x = ValueError)"
| "may_raise (Terminate e p) w x = (x \<in> {ValueError, Blocks} \<or> x = AttributeError \<and> pr_popen (w_procs w p) = None \<or>
      (\<exists>n. e_kill e = Some n \<and> n \<noteq> ESRCH \<and> x = OSError n))"
| "may_raise (TerminateControlled e p) w x = (x \<in> {ValueError, Blocks} \<or> x = AttributeError \<and> pr_popen (w_procs w p) = None \<or>
      (\<exists>n. e_kill e = Some n \<and> n \<noteq> ESRCH \<and> x = OSError n))"
| "may_raise (Join t e p) w x = (x \<in> {ValueError, AssertionError, Blocks})"
| "may_raise (IsAlive e p) w x = (x \<in> {ValueError, AssertionError})"
| "may_raise (Exitcode e p) w x = (x = ValueError)"
| "may_raise (SetDaemon b p) w x = (x = AssertionError)"
| "may_raise _ w x = False"

lemma run_act_safe:
  "safe es w0 m w \<Longrightarrow> move\<^sup>*\<^sup>* w0 (snd (run_act m w)) \<and> (\<forall>x. fst (run_act m w) = Some x \<longrightarrow> es x)"
  by (auto simp: safe_def run_act_def wp_def moves_def split: prod.split sum.split)

lemma act_step_safe:
  assumes "world_inv w" "\<forall>pid. a \<noteq> Reap pid"
  shows "move\<^sup>*\<^sup>* w (snd (act_step a w)) \<and> (\<forall>x. fst (act_step a w) = Some x \<longrightarrow> may_raise a w x)"
proof (cases a)
  case (New cls n d)
  show ?thesis unfolding New
    by (auto simp: run_act_def new_process_def Let_def intro!: r_into_rtranclp move.create)
next
  case (TerminateControlled e p)
  let ?w = "upd_process p (\<lambda>x. x\<lparr>pr_controlled := True\<rparr>) w"
  have "moves w ?w" by (rule moves_step [OF moves_refl [OF assms(1)]]) (rule move.field, simp)
  from run_act_safe [OF terminate_safe [OF this, of p e]] show ?thesis unfolding TerminateControlled
    by (auto simp: run_act_def terminate_controlled_def bindA_def modifyA_def upd_process_def)
next
  case (SetDaemon b p)
  show ?thesis unfolding SetDaemon
    by (auto simp: run_act_def set_daemon_def act_defs intro!: r_into_rtranclp move.field)
next
  case (IsAliveUnchecked e p)
  have "safe (\<lambda>x. False) w (is_alive_unchecked e p) w"
  proof (cases "pr_popen (w_procs w p)")
    case (Some x)
    have "wp (popen_poll True e p) (\<lambda>r. wp (ret (r = None)) (\<lambda>_. moves w) E) E w" for E
      by (rule wp_poll [OF moves_refl [OF assms(1)] Some]) (auto simp: wp_ret)
    then show ?thesis using Some by (simp add: safe_def is_alive_unchecked_def wp_read wp_bind)
  qed (simp add: safe_def is_alive_unchecked_def wp_simps moves_refl assms(1))
  from run_act_safe [OF this] show ?thesis unfolding IsAliveUnchecked by simp
next
  case (ChildEnds pid st)
  show ?thesis unfolding ChildEnds by (auto intro!: r_into_rtranclp move.child_ends)
next
  case (OpenFile fd)
  show ?thesis unfolding OpenFile by (auto intro!: r_into_rtranclp move.open_fd)
next
  case (Start e p)
  from run_act_safe [OF start_safe [OF assms(1), of e p]] show ?thesis unfolding Start by simp
next
  case (Close e p)
  from run_act_safe [OF close_safe [OF assms(1), of e p]] show ?thesis unfolding Close by simp
next
  case (Terminate e p)
  from run_act_safe [OF terminate_safe [OF moves_refl [OF assms(1)], of p e]] show ?thesis unfolding Terminate by simp
next
  case (Join t e p)
  from run_act_safe [OF join_safe [OF assms(1), of t e p]] show ?thesis unfolding Join by simp
next
  case (IsAlive e p)
  from run_act_safe [OF is_alive_safe [OF assms(1), of e p]] show ?thesis unfolding IsAlive by simp
next
  case (Exitcode e p)
  from run_act_safe [OF exitcode_safe [OF moves_refl [OF assms(1)], of e p]] show ?thesis unfolding Exitcode by simp
next
  case (Repr e p)
  from run_act_safe [OF repr_safe [OF assms(1), of "\<lambda>_. None" e p]] show ?thesis unfolding Repr by simp
next
  case (ActiveChildren e)
  from run_act_safe [OF active_children_safe [OF assms(1), of e]] show ?thesis unfolding ActiveChildren by simp
next
  case (Reap pid)
  then show ?thesis using assms(2) by blast
qed

lemma reap_inv: "world_inv w \<Longrightarrow> world_inv (snd (act_step (Reap pid) w))"
  by (simp add: world_inv_def)

lemma act_step_inv: "world_inv w \<Longrightarrow> world_inv (snd (act_step a w))"
  by (cases "\<exists>pid. a = Reap pid") (use reap_inv act_step_safe moves_inv in blast)+

lemma history_inv: "world_inv w \<Longrightarrow> world_inv (history acts w)"
  unfolding history_def by (induction acts arbitrary: w) (simp_all add: act_step_inv)

lemma history_moves: "world_inv w \<Longrightarrow> \<forall>pid. Reap pid \<notin> set acts \<Longrightarrow> move\<^sup>*\<^sup>* w (history acts w)"
proof (induction acts arbitrary: w)
  case (Cons a acts)
  have "move\<^sup>*\<^sup>* w (snd (act_step a w))" using act_step_safe [OF Cons.prems(1), of a] Cons.prems(2) by auto
  moreover have "move\<^sup>*\<^sup>* (snd (act_step a w)) (history acts (snd (act_step a w)))"
    using Cons act_step_inv by simp
  ultimately show ?case by (simp add: history_def)
qed (simp add: history_def)

lemma new_world_inv: "world_inv (new_world m)" "own_children (new_world m)"
  by (simp_all add: world_inv_def own_children_def new_world_def main_process_def running_def holds_fd_def)

section \<open>Properties\<close>

text \<open>
  C21. Whatever a process does with its process objects, in any order, a method raises only what its
  guards and the system's failures give: never an error of a descriptor that is not open, and never one
  from \<open>_cleanup\<close> or of a process without a \<open>Popen\<close>, except \<open>terminate\<close> of a process that has not been started.
\<close>

theorem process_methods_raise_only:
  assumes "fst (act_step a (history acts (new_world m))) = Some x"
  shows "may_raise a (history acts (new_world m)) x"
proof (cases "\<exists>pid. a = Reap pid")
  case False
  with act_step_safe [OF history_inv [OF new_world_inv(1)], of a acts m] assms show ?thesis by blast
qed (use assms in auto)

definition ex_env :: "nat \<Rightarrow> nat \<Rightarrow> nat \<Rightarrow> env" where
  "ex_env r c pid = \<lparr>e_eintr = 1, e_ready = True, e_ends = Some (Exited 3), e_kill = None, e_pipe = (r, c), e_fork = pid\<rparr>"

theorem process_methods_raise_only_witness:
  "may_raise (Start (ex_env 5 6 70) 1) (history [New ''Process'' None None, Start (ex_env 3 4 50) 1] (new_world 9)) AssertionError"
  by (rule process_methods_raise_only) code_simp

text \<open>
  C19. As long as nobody else waits for the children, every signal \<open>terminate\<close> sends goes to
  a child that has not been waited for, so never to a process that got its pid afterwards.
\<close>

theorem signals_only_own_children:
  assumes "\<forall>pid. Reap pid \<notin> set acts"
    and "(pid, own) \<in> set (w_signals (history acts (new_world m)))"
  shows own
  using moves_own [OF history_moves [OF new_world_inv(1) assms(1)] new_world_inv] assms(2)
  unfolding own_children_def by blast

theorem signals_only_own_children_witness:
  "\<exists>own. (50, own) \<in> set (w_signals (history [New ''Process'' None None, Start (ex_env 3 4 50) 1, Terminate no_wait 1] (new_world 9))) \<and> own"
proof -
  have "(50, True) \<in> set (w_signals (history [New ''Process'' None None, Start (ex_env 3 4 50) 1, Terminate no_wait 1] (new_world 9)))"
    by code_simp
  with signals_only_own_children [OF _ this] show ?thesis by auto
qed

text \<open>The child of \<open>p\<close> has ended with \<open>st\<close>, or that has been noticed, or \<open>p\<close> has been closed since.\<close>

definition ended_with :: "nat \<Rightarrow> wstatus \<Rightarrow> world \<Rightarrow> bool" where
  "ended_with p st w \<longleftrightarrow> p < w_next w \<and> (case pr_popen (w_procs w p) of
      None \<Rightarrow> pr_closed (w_procs w p)
    | Some x \<Rightarrow> po_returncode x = Some (status_code st) \<or> po_returncode x = None \<and> w_kids w (po_pid x) = Some (Zombie st))"

lemma move_ended_with: "move w w' \<Longrightarrow> own_children w \<Longrightarrow> ended_with p st w \<Longrightarrow> ended_with p st w'"
proof (induction rule: move.induct)
  case (reap w q pid st')
  show ?case
  proof (cases "q = p")
    case True
    then show ?thesis using reap by (auto simp: ended_with_def running_def upds split: option.splits)
  next
    case False
    have "po_pid x \<noteq> pid" if "pr_popen (w_procs w p) = Some x" "po_returncode x = None" for x
      using reap that False unfolding own_children_def running_def by blast
    then show ?thesis using reap False by (auto simp: ended_with_def running_def upds split: option.splits)
  qed
qed (auto simp: ended_with_def running_def upds split: option.splits if_splits)

lemma moves_ended_with: "move\<^sup>*\<^sup>* w w' \<Longrightarrow> world_inv w \<Longrightarrow> own_children w \<Longrightarrow> ended_with p st w \<Longrightarrow> ended_with p st w'"
proof (induction rule: rtranclp_induct)
  case (step v v')
  then show ?case using move_ended_with [OF step.hyps(2)] moves_own [OF step.hyps(1)] by blast
qed

lemma ended_exitcode:
  assumes "ended_with p st w" "world_inv w"
  shows "fst (proc_exitcode e p w) = (if pr_closed (w_procs w p) then Inl ValueError else Inr (Some (status_code st)))"
proof (cases "pr_popen (w_procs w p)")
  case None
  then show ?thesis using assms(1) by (simp add: ended_with_def proc_exitcode_def check_closed_def act_defs)
next
  case (Some x)
  then have "\<not> pr_closed (w_procs w p)" using assms(2) unfolding world_inv_def by auto
  then show ?thesis using Some assms(1)
    by (auto simp: ended_with_def proc_exitcode_def check_closed_def act_defs popen_poll_eq [OF Some])
qed

lemma history_append: "history (xs @ ys) w = history ys (history xs w)"
  by (simp add: history_def)

text \<open>
  C18. The exit code is what the child has ended with: when the child of a started process ends with
  \<open>st\<close>, then from then on, whatever happens, \<open>exitcode\<close> is that status until the process object is closed,
  and a \<open>ValueError\<close> after that; for a child that ends through \<open>_bootstrap\<close> it is the code of \<open>_bootstrap\<close> modulo 256.
\<close>

theorem exitcode_of_child:
  assumes w: "w = history acts (new_world m)" "running w p pid" "w_kids w pid = Some Alive"
    and w': "w' = history (ChildEnds pid st # acts') w"
    and no_reap: "\<forall>q. Reap q \<notin> set (acts @ acts')"
  shows "fst (proc_exitcode e p w') =
      (if pr_closed (w_procs w' p) then Inl ValueError
       else Inr (Some (case st of Signaled n \<Rightarrow> - int n | Exited n \<Rightarrow> int n))) \<and>
    (st = os_exit (bootstrap prepare run fin) \<longrightarrow> status_code st = bootstrap prepare run fin mod 256)"
proof -
  let ?v = "w\<lparr>w_kids := (w_kids w)(pid \<mapsto> Zombie st)\<rparr>"
  have m: "move\<^sup>*\<^sup>* (new_world m) w" unfolding w(1) by (rule history_moves [OF new_world_inv(1)]) (use no_reap in simp)
  have I: "world_inv w" "own_children w" by (rule moves_inv [OF m new_world_inv(1)], rule moves_own [OF m new_world_inv])
  have mv: "move w ?v" using w(3) by (rule move.child_ends)
  have V: "world_inv ?v" "own_children ?v" by (rule move_inv [OF mv I(1)], rule move_own [OF mv I])
  obtain x where x: "pr_popen (w_procs w p) = Some x" "po_returncode x = None" "po_pid x = pid"
    using w(2) by (auto simp: running_def)
  have p: "p < w_next w" using I(1) x unfolding world_inv_def by (metis not_le option.distinct(1))
  have "w' = history acts' ?v" unfolding w' by (simp add: history_def w(3))
  then have "move\<^sup>*\<^sup>* ?v w'" using history_moves [OF V(1)] no_reap by simp
  moreover have "ended_with p st ?v" using x p by (simp add: ended_with_def)
  ultimately have "ended_with p st w'" "world_inv w'" using moves_ended_with V moves_inv by blast+
  then have "fst (proc_exitcode e p w') = (if pr_closed (w_procs w' p) then Inl ValueError else Inr (Some (status_code st)))"
    by (rule ended_exitcode)
  then show ?thesis by (cases st) (simp_all add: os_exit_def)
qed

theorem exitcode_of_child_witness:
  "fst (proc_exitcode no_wait 1 (history (ChildEnds 50 (Exited 3) # [Join NoTimeout no_wait 1])
     (history [New ''Process'' None None, Start (ex_env 3 4 50) 1] (new_world 9)))) = Inr (Some 3)"
proof -
  let ?w = "history [New ''Process'' None None, Start (ex_env 3 4 50) 1] (new_world 9)"
  have x: "pr_popen (w_procs ?w 1) = Some \<lparr>po_pid = 50, po_returncode = None, po_sentinel = Some 3\<rparr>" "w_kids ?w 50 = Some Alive"
    "\<not> pr_closed (w_procs (history (ChildEnds 50 (Exited 3) # [Join NoTimeout no_wait 1]) ?w) 1)" by code_simp+
  from x(1) have "running ?w 1 50" by (simp add: running_def)
  from exitcode_of_child [OF refl this x(2) refl, of "[Join NoTimeout no_wait 1]" no_wait "Exited 3"] x(3) show ?thesis by simp
qed

text \<open>The process objects whose child is still there are those \<open>active_children\<close> returns.\<close>

definition child_there :: "world \<Rightarrow> nat \<Rightarrow> bool" where
  "child_there w p \<longleftrightarrow> (\<exists>pid. running w p pid \<and> w_kids w pid = Some Alive)"

definition cleaned :: "world \<Rightarrow> nat list \<Rightarrow> world \<Rightarrow> bool" where
  "cleaned w ps w' \<longleftrightarrow> moves w w' \<and> own_children w' \<and> (\<forall>q. pr_popen (w_procs w' q) = None \<longleftrightarrow> pr_popen (w_procs w q) = None) \<and>
     child_there w' = child_there w \<and> set (w_children w') = set (w_children w) - {p \<in> set ps. \<not> child_there w p}"

lemma cleaned_trans: "cleaned w ps w' \<Longrightarrow> cleaned w' qs w'' \<Longrightarrow> cleaned w (ps @ qs) w''"
  by (auto simp: cleaned_def moves_def)

lemma cleaned_poll:
  assumes I: "world_inv w" "own_children w" and x: "pr_popen (w_procs w p) = Some x"
  shows "wp (popen_poll True e p) (\<lambda>r w'. cleaned w [p] (if r = None then w' else w'\<lparr>w_children := removeAll p (w_children w')\<rparr>)) (\<lambda>_ _. False) w"
proof (cases "po_returncode x = None \<and> w_kids w (po_pid x) = Some Alive")
  case True
  then have "child_there w p" using x by (auto simp: child_there_def running_def)
  then have "cleaned w [p] w" using I by (auto simp: cleaned_def moves_refl)
  then show ?thesis using True by (simp add: wp_def popen_poll_eq [OF x])
next
  case False
  have gone: "\<not> child_there w p" using False x by (auto simp: child_there_def running_def)
  have fin: "cleaned w [p] (w'\<lparr>w_children := removeAll p (w_children w')\<rparr>)"
    if w': "moves w w'" "own_children w'" "pr_popen (w_procs w' p) = Some y" "po_returncode y \<noteq> None"
      "\<And>q. pr_popen (w_procs w' q) = None \<longleftrightarrow> pr_popen (w_procs w q) = None"
      "child_there w' = child_there w" "w_children w' = w_children w" for w' y
  proof -
    have "moves w (w'\<lparr>w_children := removeAll p (w_children w')\<rparr>)"
      by (rule moves_step [OF w'(1)]) (rule move.discarded [OF w'(3,4)])
    moreover have "child_there (w'\<lparr>w_children := removeAll p (w_children w')\<rparr>) = child_there w"
      unfolding w'(6) [symmetric] by (simp add: child_there_def fun_eq_iff)
    ultimately show ?thesis using w' gone by (auto simp: cleaned_def own_children_def)
  qed
  show ?thesis
  proof (cases "po_returncode x")
    case (Some c)
    then show ?thesis using fin [OF moves_refl [OF I(1)] I(2) x] by (simp add: wp_def popen_poll_eq [OF x])
  next
    case None
    then have r: "running w p (po_pid x)" using x by (simp add: running_def)
    then obtain st where st: "w_kids w (po_pid x) = Some (Zombie st)"
      using I(2) None False unfolding own_children_def by (metis child.exhaust not_None_eq)
    have mv: "move w (reaped p st w)" using r st by (intro move.reap) auto
    have "q \<noteq> p \<and> pid \<noteq> po_pid x" if "running w q pid" "w_kids w pid = Some Alive" for q pid
      using gone r I(2) that unfolding child_there_def own_children_def by blast
    then have "child_there (reaped p st w) = child_there w"
      unfolding child_there_def kids_reaped [OF r] fun_eq_iff by auto
    then have "cleaned w [p] ((reaped p st w)\<lparr>w_children := removeAll p (w_children (reaped p st w))\<rparr>)"
      by (intro fin [OF moves_step [OF moves_refl [OF I(1)] mv] move_own [OF mv I], where y = "x\<lparr>po_returncode := Some (status_code st)\<rparr>"])
        (use x in \<open>auto simp: upds\<close>)
    then show ?thesis using None st by (simp add: wp_def popen_poll_eq [OF x])
  qed
qed

lemma cleanup_each_result:
  assumes "world_inv w" "own_children w" "\<forall>p \<in> set ps. pr_popen (w_procs w p) \<noteq> None"
  shows "wp (cleanup_each e ps) (\<lambda>_. cleaned w ps) (\<lambda>_ _. False) w"
  using assms
proof (induction ps arbitrary: w)
  case (Cons p ps)
  then obtain x where x: "pr_popen (w_procs w p) = Some x" by fastforce
  show ?case unfolding cleanup_each.simps wp_bind
  proof (rule wp_mono [OF cleaned_poll [OF Cons.prems(1,2) x]], goal_cases)
    case (1 r w')
    let ?v = "if r = None then w' else w'\<lparr>w_children := removeAll p (w_children w')\<rparr>"
    have "wp (cleanup_each e ps) (\<lambda>_. cleaned ?v ps) (\<lambda>_ _. False) ?v"
      by (rule Cons.IH) (use 1 Cons.prems(3) in \<open>auto simp: cleaned_def moves_def split: if_splits\<close>)
    then have "wp (cleanup_each e ps) (\<lambda>_. cleaned w (p # ps)) (\<lambda>_ _. False) ?v"
      by (rule wp_mono) (use cleaned_trans [OF 1] in auto)
    then show ?case by (cases "r = None") (simp_all add: discard_def wp_simps)
  qed
qed (simp add: wp_simps cleaned_def moves_refl)

text \<open>
  C20. As long as nobody else waits for the children, \<open>active_children\<close> returns exactly the processes
  that have been started and whose child has not ended, whatever the history.
\<close>

theorem active_children_exact:
  assumes "\<forall>pid. Reap pid \<notin> set acts" "w = history acts (new_world m)"
  shows "\<exists>ps w'. active_children e w = (Inr ps, w') \<and>
    set ps = {p. \<exists>pid. running w p pid \<and> w_kids w pid = Some Alive}"
proof -
  have m: "move\<^sup>*\<^sup>* (new_world m) w" unfolding assms(2) by (rule history_moves [OF new_world_inv(1) assms(1)])
  have I: "world_inv w" "own_children w" by (rule moves_inv [OF m new_world_inv(1)], rule moves_own [OF m new_world_inv])
  have "wp (cleanup e) (\<lambda>_. cleaned w (w_children w)) (\<lambda>_ _. False) w"
    unfolding cleanup_def wp_read by (rule cleanup_each_result [OF I]) (use I(1) in \<open>auto simp: world_inv_def\<close>)
  then obtain w' where w': "cleanup e w = (Inr (), w')" "cleaned w (w_children w) w'" by (auto simp: wp_total)
  have "{p. child_there w p} \<subseteq> set (w_children w)" using I(1) unfolding world_inv_def child_there_def by blast
  then have "set (w_children w') = {p. child_there w p}" using w'(2) by (auto simp: cleaned_def)
  then show ?thesis using w'(1) by (simp add: active_children_def act_defs child_there_def)
qed

theorem active_children_exact_witness:
  "set (case active_children no_wait (history [New ''Process'' None None, New ''Process'' None None, Start (ex_env 3 4 50) 1,
      Start (ex_env 5 6 51) 2, ChildEnds 50 (Exited 0)] (new_world 9)) of (Inr ps, _) \<Rightarrow> ps | _ \<Rightarrow> []) =
    {p. \<exists>pid. running (history [New ''Process'' None None, New ''Process'' None None, Start (ex_env 3 4 50) 1,
      Start (ex_env 5 6 51) 2, ChildEnds 50 (Exited 0)] (new_world 9)) p pid \<and> w_kids (history [New ''Process'' None None, New ''Process'' None None,
      Start (ex_env 3 4 50) 1, Start (ex_env 5 6 51) 2, ChildEnds 50 (Exited 0)] (new_world 9)) pid = Some Alive}"
  using active_children_exact [OF _ refl, of "[New ''Process'' None None, New ''Process'' None None, Start (ex_env 3 4 50) 1,
      Start (ex_env 5 6 51) 2, ChildEnds 50 (Exited 0)]" no_wait 9] by fastforce

text \<open>The child of \<open>p\<close> has been waited for by somebody else.\<close>

definition lost_child :: "nat \<Rightarrow> nat \<Rightarrow> world \<Rightarrow> bool" where
  "lost_child p pid w \<longleftrightarrow> p < w_next w \<and> running w p pid \<and> w_kids w pid = None \<and> \<not> pr_closed (w_procs w p)"

text \<open>A process whose child somebody else has waited for seems alive, and can never be closed.\<close>

theorem lost_child_never_closes:
  assumes "lost_child p pid w"
  shows "fst (act_step (Close e p) w) = Some ValueError \<and> snd (act_step (Close e p) w) = w \<and>
    proc_exitcode e p w = (Inr None, w) \<and> is_alive_unchecked e p w = (Inr True, w)"
  using assms
  by (auto simp: lost_child_def running_def run_act_def proc_close_def proc_exitcode_def is_alive_unchecked_def check_closed_def act_defs popen_poll_eq)

theorem lost_child_never_closes_witness:
  "fst (act_step (Close no_wait 1) (history [New ''Process'' None None, Start (ex_env 3 4 50) 1, ChildEnds 50 (Exited 0), Reap 50] (new_world 9))) = Some ValueError"
proof -
  let ?w = "history [New ''Process'' None None, Start (ex_env 3 4 50) 1, ChildEnds 50 (Exited 0), Reap 50] (new_world 9)"
  have x: "pr_popen (w_procs ?w 1) = Some \<lparr>po_pid = 50, po_returncode = None, po_sentinel = Some 3\<rparr>" "w_kids ?w 50 = None"
    "\<not> pr_closed (w_procs ?w 1)" "w_next ?w = 2" by code_simp+
  then have "lost_child 1 50 ?w" by (simp add: lost_child_def running_def)
  from lost_child_never_closes [OF this, of no_wait] show ?thesis by blast
qed

text \<open>
  \<open>join\<close> closes the sentinel of the \<open>Popen\<close> and leaves the attribute \<open>_sentinel\<close>: after
  a \<open>join\<close> that has waited for the child, the property \<open>sentinel\<close> is a descriptor that is not open.
\<close>

theorem sentinel_stale_after_join:
  assumes w: "w = history acts (new_world m)" "running w p pid"
    and join: "proc_join t e p w = (Inr (), w')" "\<exists>c. proc_exitcode e' p w' = (Inr (Some c), w')"
  shows "\<exists>fd. proc_sentinel p w' = (Inr fd, w') \<and> \<not> w_fds w' fd"
proof -
  have I: "world_inv w" unfolding w(1) by (rule history_inv [OF new_world_inv(1)])
  obtain x where x: "pr_popen (w_procs w p) = Some x" "po_returncode x = None" using w(2) by (auto simp: running_def)
  obtain fd where h: "holds_fd w p fd" using I w(2) unfolding world_inv_def by blast
  have fd: "po_sentinel x = Some fd" "pr_sentinel (w_procs w p) = Some fd"
    using h x(1) I unfolding world_inv_def by (auto simp: holds_fd_def)
  have open': "\<not> pr_closed (w_procs w p)" "pr_parent_pid (w_procs w p) = Some (w_pid w)" using I x unfolding world_inv_def by auto
  let ?G = "\<lambda>w'. pr_sentinel (w_procs w' p) = Some fd \<and> \<not> pr_closed (w_procs w' p) \<and>
      ((\<exists>y. pr_popen (w_procs w' p) = Some y \<and> po_returncode y = None) \<or> \<not> w_fds w' fd)"
  have "wp (popen_wait t e p) (\<lambda>res. wp (whenA (res \<noteq> None) (bindA (discard p) (\<lambda>_. popen_close p))) (\<lambda>_. ?G) (\<lambda>_ _. True)) (\<lambda>_ _. True) w"
  proof (rule wp_wait [OF moves_refl [OF I] x(1)], goal_cases)
    case (1 r v x')
    show ?case
    proof (cases r)
      case None
      then show ?thesis using 1 x fd open' by (auto simp: wp_simps upds)
    next
      case (Some c)
      let ?v = "v\<lparr>w_children := removeAll p (w_children v)\<rparr>"
      have "moves w ?v" by (rule moves_step [OF 1(1)]) (rule move.discarded [OF 1(2)], use 1(3) Some in simp)
      then have "wp (popen_close p) (\<lambda>_. ?G) (\<lambda>_ _. True) ?v"
      proof (rule wp_popen_close [where x = x'], goal_cases)
        case (3 v')
        have s: "po_sentinel x' = Some fd" using 1(4) fd(1) by simp
        with 3(2) have v': "v' = sentinel_closed p fd ?v" by auto
        have "pr_sentinel (w_procs v p) = Some fd" "\<not> pr_closed (w_procs v p)" using 1(5) fd(2) open'(1) by auto
        then show ?case unfolding v' by simp
      qed (use 1(2,3) Some in simp_all)
      then show ?thesis using Some by (simp add: wp_simps discard_def)
    qed
  qed simp
  then have "wp (proc_join t e p) (\<lambda>_. ?G) (\<lambda>_ _. True) w"
    using open' x unfolding proc_join_def check_closed_def wp_bind [of "assertA _ _"] wp_assert wp_bind [of "popen_wait t e p"] by simp
  from wp_run_Inr [OF this join(1)] have G: "?G w'" .
  have "\<not> (\<exists>y. pr_popen (w_procs w' p) = Some y \<and> po_returncode y = None)"
  proof
    assume "\<exists>y. pr_popen (w_procs w' p) = Some y \<and> po_returncode y = None"
    then obtain y where y: "pr_popen (w_procs w' p) = Some y" "po_returncode y = None" by blast
    obtain c where c: "proc_exitcode e' p w' = (Inr (Some c), w')" using join(2) by blast
    have q: "popen_poll True e' p w' = (Inr (Some c), w')" using c y G by (simp add: proc_exitcode_def check_closed_def act_defs split: if_splits)
    have "\<exists>st. reaped p st w' = w'" using q y by (auto simp: popen_poll_eq [OF y(1)] split: option.splits child.splits)
    then obtain st where "reaped p st w' = w'" by blast
    moreover have "pr_popen (w_procs (reaped p st w') p) = Some (y\<lparr>po_returncode := Some (status_code st)\<rparr>)"
      using y(1) by (simp add: upds)
    ultimately have "Some y = Some (y\<lparr>po_returncode := Some (status_code st)\<rparr>)" using y(1) by metis
    then have "po_returncode y = Some (status_code st)" by (metis option.inject popen.select_convs(2) popen.surjective popen.update_convs(2))
    then show False using y(2) by simp
  qed
  then show ?thesis using G by (auto simp: proc_sentinel_def check_closed_def act_defs)
qed

theorem sentinel_stale_after_join_witness:
  "\<exists>fd. proc_sentinel 1 (history [Join NoTimeout (ex_env 0 0 0) 1] (history [New ''Process'' None None, Start (ex_env 3 4 50) 1] (new_world 9))) =
      (Inr fd, history [Join NoTimeout (ex_env 0 0 0) 1] (history [New ''Process'' None None, Start (ex_env 3 4 50) 1] (new_world 9))) \<and>
    \<not> w_fds (history [Join NoTimeout (ex_env 0 0 0) 1] (history [New ''Process'' None None, Start (ex_env 3 4 50) 1] (new_world 9))) fd"
proof -
  let ?w = "history [New ''Process'' None None, Start (ex_env 3 4 50) 1] (new_world 9)"
  let ?w' = "history [Join NoTimeout (ex_env 0 0 0) 1] ?w"
  have x: "pr_popen (w_procs ?w 1) = Some \<lparr>po_pid = 50, po_returncode = None, po_sentinel = Some 3\<rparr>"
    "fst (proc_join NoTimeout (ex_env 0 0 0) 1 ?w) = Inr ()"
    "pr_popen (w_procs ?w' 1) = Some \<lparr>po_pid = 50, po_returncode = Some 3, po_sentinel = None\<rparr>" "\<not> pr_closed (w_procs ?w' 1)"
    by code_simp+
  have r: "running ?w 1 50" using x(1) by (simp add: running_def)
  have "proc_join t e p v = (fst (proc_join t e p v), history [Join t e p] v)" for t e p v
    by (simp add: history_def run_act_def split: prod.split sum.split)
  from this [of NoTimeout "ex_env 0 0 0" 1 ?w] have j: "proc_join NoTimeout (ex_env 0 0 0) 1 ?w = (Inr (), ?w')" unfolding x(2) .
  have "proc_exitcode no_wait 1 ?w' = (Inr (Some 3), ?w')"
    using x(3,4) by (simp add: proc_exitcode_def check_closed_def act_defs popen_poll_eq)
  with sentinel_stale_after_join [OF refl r j] show ?thesis by blast
qed

end
