(* ===== verification/Sem_Tracker.thy ===== *)
theory Sem_Tracker
  imports Prelude
begin

text \<open>
  \<open>billiard/semaphore_tracker.py\<close>: the client side (\<open>SemaphoreTracker\<close>), the loop of the tracker
  process (\<open>main\<close>), and the two places of \<open>synchronize.py\<close> that use it (\<open>SemLock.__init__\<close> after it has made
  a named semaphore, and \<open>SemLock._cleanup\<close>). What goes through the pipe are bytes, here characters.
\<close>

section \<open>Messages\<close>

definition NL :: char where "NL = CHR 0x0A"

definition is_space :: "char \<Rightarrow> bool" where
  "is_space c \<longleftrightarrow> c \<in> set [CHR '' '', CHR 0x09, NL, CHR 0x0B, CHR 0x0C, CHR 0x0D]"

definition strip :: "string \<Rightarrow> string" where
  "strip s = rev (dropWhile is_space (rev (dropWhile is_space s)))"

fun split_on :: "char \<Rightarrow> string \<Rightarrow> string list" where
  "split_on c [] = [[]]"
| "split_on c (x # xs) = (if x = c then [] # split_on c xs else (case split_on c xs of y # ys \<Rightarrow> (x # y) # ys | [] \<Rightarrow> [[x]]))"

text \<open>Iterating over a binary file: the lines with their newline, the last one as it is.\<close>

fun lines_from :: "string \<Rightarrow> string \<Rightarrow> string list" where
  "lines_from acc [] = (if acc = [] then [] else [acc])"
| "lines_from acc (c # cs) = (if c = NL then (acc @ [c]) # lines_from [] cs else lines_from (acc @ [c]) cs)"

definition ascii :: "string \<Rightarrow> bool" where
  "ascii s \<longleftrightarrow> (\<forall>c \<in> set s. of_char c < (128 :: nat))"

definition message :: "string \<Rightarrow> string \<Rightarrow> string" where
  "message cmd name = cmd @ '':'' @ name @ [NL]"

section \<open>The client\<close>

text \<open>
  One process's \<open>_semaphore_tracker\<close>: \<open>_fd\<close>, the descriptors that are open in it, how many trackers it has
  started, and the bytes in the pipe.
\<close>

record client =
  c_fd :: "nat option"
  c_open :: "nat list"
  c_started :: nat
  c_pipe :: string

text \<open>What the system does in a call: the ends of the pipe, whether the tracker can be spawned, and how many bytes are written.\<close>

record tenv =
  t_pipe :: "exn + nat \<times> nat"
  t_spawn :: "exn option"
  t_write :: "exn + nat"

definition close_fd :: "nat \<Rightarrow> client \<Rightarrow> client" where
  "close_fd fd c = c\<lparr>c_open := remove1 fd (c_open c)\<rparr>"

definition ensure_running :: "tenv \<Rightarrow> (client, unit) act" where
  "ensure_running e c =
     (if c_fd c \<noteq> None then (Inr (), c)
      else (case t_pipe e of
          Inl x \<Rightarrow> (Inl x, c)
        | Inr (r, w) \<Rightarrow>
            finallyA (catchA
                (\<lambda>c. case t_spawn e of Some x \<Rightarrow> (Inl x, c) | None \<Rightarrow> (Inr (), c\<lparr>c_started := c_started c + 1, c_fd := Some w\<rparr>))
                (\<lambda>x c. (Inl x, close_fd w c)))
              (\<lambda>c. (Inr (), close_fd r c))
              (c\<lparr>c_open := w # r # c_open c\<rparr>)))"

definition getfd :: "tenv \<Rightarrow> (client, nat option) act" where
  "getfd e = bindA (ensure_running e) (\<lambda>_. getsA c_fd)"

definition send_msg :: "tenv \<Rightarrow> string \<Rightarrow> string \<Rightarrow> (client, unit) act" where
  "send_msg e cmd name =
     bindA (ensure_running e) (\<lambda>_.
     bindA (assertA (\<lambda>_. ascii (message cmd name)) ValueError) (\<lambda>_.
     bindA (assertA (\<lambda>_. length name \<le> 512) ValueError) (\<lambda>_.
     case t_write e of
       Inl x \<Rightarrow> raise x
     | Inr n \<Rightarrow>
         bindA (modifyA (\<lambda>c. c\<lparr>c_pipe := c_pipe c @ take n (message cmd name)\<rparr>)) (\<lambda>_.
         assertA (\<lambda>_. n = length (message cmd name)) AssertionError))))"

definition register :: "tenv \<Rightarrow> string \<Rightarrow> (client, unit) act" where
  "register e name = send_msg e ''REGISTER'' name"

definition unregister :: "tenv \<Rightarrow> string \<Rightarrow> (client, unit) act" where
  "unregister e name = send_msg e ''UNREGISTER'' name"

section \<open>The tracker process\<close>

text \<open>One line of the loop: the exception is reported and the loop goes on. The cache is a set, here a list without duplicates.\<close>

definition track_line :: "string \<Rightarrow> string list \<Rightarrow> (exn + string list)" where
  "track_line line cache =
     (case split_on (CHR '':'') (strip line) of
        [cmd, name] \<Rightarrow>
          if cmd = ''REGISTER'' then Inr (List.insert name cache)
          else if cmd = ''UNREGISTER'' then (if name \<in> set cache then Inr (remove1 name cache) else Inl KeyError)
          else Inl RuntimeError
      | _ \<Rightarrow> Inl ValueError)"

definition track :: "string list \<Rightarrow> string list \<Rightarrow> string list" where
  "track ls cache = fold (\<lambda>l c. case track_line l c of Inl _ \<Rightarrow> c | Inr c' \<Rightarrow> c') ls cache"

text \<open>
  What is unlinked when all other processes have gone: a name that cannot be decoded ends the loop, an error of
  \<open>sem_unlink\<close> does not. \<open>order\<close> is the order in which the set is gone through.
\<close>

fun unlink_all :: "string list \<Rightarrow> string list" where
  "unlink_all [] = []"
| "unlink_all (name # names) = (if ascii name then name # unlink_all names else [])"

definition tracker_main :: "(string list \<Rightarrow> string list) \<Rightarrow> string \<Rightarrow> string list" where
  "tracker_main order bytes = unlink_all (order (track (lines_from [] bytes) []))"

section \<open>Named semaphores\<close>

text \<open>
  The life of a \<open>SemLock\<close> with a name: made by \<open>sem_open\<close>, registered, and in \<open>_cleanup\<close> unlinked and
  unregistered. Its process may stop anywhere in between, which is to say that no further step of it comes. Semaphores are
  numbered; \<open>name\<close> gives the name each one has been made with.
\<close>

datatype phase = NotMade | Made | Registered | Unlinked | Gone | RegisterFailed

record names =
  n_phase :: "nat \<Rightarrow> phase"
  n_exists :: "string list"
  n_pipe :: string

datatype nact = NMake nat | NRegister nat | NUnlink nat | NUnregister nat

text \<open>A message that is written as a whole; a refused one raises.\<close>

definition ok_env :: "string \<Rightarrow> string \<Rightarrow> tenv" where
  "ok_env cmd name = \<lparr>t_pipe = Inr (0, 1), t_spawn = None, t_write = Inr (length (message cmd name))\<rparr>"

definition send_to :: "string \<Rightarrow> string \<Rightarrow> string \<Rightarrow> exn + string" where
  "send_to cmd name pipe =
     (case send_msg (ok_env cmd name) cmd name \<lparr>c_fd = Some 1, c_open = [1], c_started = 0, c_pipe = pipe\<rparr> of
        (Inl x, _) \<Rightarrow> Inl x | (Inr _, c) \<Rightarrow> Inr (c_pipe c))"

fun names_step :: "(nat \<Rightarrow> string) \<Rightarrow> nact \<Rightarrow> names \<Rightarrow> names" where
  "names_step name (NMake i) s =
     (if n_phase s i = NotMade \<and> name i \<notin> set (n_exists s)
      then s\<lparr>n_phase := (n_phase s)(i := Made), n_exists := name i # n_exists s\<rparr> else s)"
| "names_step name (NRegister i) s =
     (if n_phase s i \<noteq> Made then s
      else (case send_to ''REGISTER'' (name i) (n_pipe s) of
          Inl _ \<Rightarrow> s\<lparr>n_phase := (n_phase s)(i := RegisterFailed)\<rparr>
        | Inr p \<Rightarrow> s\<lparr>n_phase := (n_phase s)(i := Registered), n_pipe := p\<rparr>))"
| "names_step name (NUnlink i) s =
     (if n_phase s i \<noteq> Registered then s
      else s\<lparr>n_phase := (n_phase s)(i := (if name i \<in> set (n_exists s) then Unlinked else Gone)),
             n_exists := removeAll (name i) (n_exists s)\<rparr>)"
| "names_step name (NUnregister i) s =
     (if n_phase s i \<noteq> Unlinked then s
      else (case send_to ''UNREGISTER'' (name i) (n_pipe s) of
          Inl _ \<Rightarrow> s\<lparr>n_phase := (n_phase s)(i := Gone)\<rparr>
        | Inr p \<Rightarrow> s\<lparr>n_phase := (n_phase s)(i := Gone), n_pipe := p\<rparr>))"

definition new_names :: names where
  "new_names = \<lparr>n_phase = (\<lambda>_. NotMade), n_exists = [], n_pipe = []\<rparr>"

definition names_run :: "(nat \<Rightarrow> string) \<Rightarrow> nact list \<Rightarrow> names" where
  "names_run name acts = fold (names_step name) acts new_names"

text \<open>The names that exist when the tracker has ended.\<close>

definition left_over :: "(string list \<Rightarrow> string list) \<Rightarrow> names \<Rightarrow> string list" where
  "left_over order s = filter (\<lambda>n. n \<notin> set (tracker_main order (n_pipe s))) (n_exists s)"

section \<open>The round trip of a message\<close>

definition good_name :: "string \<Rightarrow> bool" where
  "good_name n \<longleftrightarrow> ascii n \<and> CHR '':'' \<notin> set n \<and> NL \<notin> set n \<and> (n = [] \<or> \<not> is_space (last n)) \<and> length n \<le> 512"

lemma split_on_none: "c \<notin> set s \<Longrightarrow> split_on c s = [s]"
  by (induction s) auto

lemma split_on_append: "c \<notin> set s \<Longrightarrow> split_on c (s @ c # t) = s # split_on c t"
  by (induction s) auto

lemma lines_from_line: "NL \<notin> set m \<Longrightarrow> lines_from acc (m @ NL # rest) = (acc @ m @ [NL]) # lines_from [] rest"
  by (induction m arbitrary: acc) auto

definition whole_lines :: "string \<Rightarrow> bool" where
  "whole_lines s \<longleftrightarrow> s = [] \<or> last s = NL"

lemma lines_from_append: "whole_lines s \<or> s = [] \<and> acc = [] \<Longrightarrow> s \<noteq> [] \<or> acc = [] \<Longrightarrow> lines_from acc (s @ t) = lines_from acc s @ lines_from [] t"
proof (induction s arbitrary: acc)
  case (Cons c s)
  then show ?case by (cases s) (auto simp: whole_lines_def)
qed auto

lemma strip_message:
  assumes "cmd \<noteq> []" "\<not> is_space (hd cmd)" "\<not> is_space (last (cmd @ '':'' @ name))"
  shows "strip (message cmd name) = cmd @ '':'' @ name"
proof -
  obtain c cs where c: "cmd = c # cs" "\<not> is_space c" using assms(1,2) by (cases cmd) auto
  have "is_space NL" by (simp add: is_space_def)
  moreover have "rev (cmd @ '':'' @ name) \<noteq> []" "\<not> is_space (hd (rev (cmd @ '':'' @ name)))"
    using assms(3) unfolding hd_rev by simp_all
  then have "dropWhile is_space (rev (cmd @ '':'' @ name)) = rev (cmd @ '':'' @ name)"
    by (metis dropWhile_eq_self_iff)
  ultimately show ?thesis using c by (simp add: strip_def message_def)
qed

text \<open>A message of the client is read back by the tracker as the command and the name it was made of.\<close>

lemma track_message:
  assumes "good_name name" "cmd = ''REGISTER'' \<or> cmd = ''UNREGISTER''"
  shows "split_on (CHR '':'') (strip (message cmd name)) = [cmd, name]"
proof -
  have "\<not> is_space (CHR '':'')" by (simp add: is_space_def NL_def)
  then have "\<not> is_space (last (cmd @ '':'' @ name))" using assms(1) by (auto simp: good_name_def)
  moreover have "cmd \<noteq> []" "\<not> is_space (hd cmd)" "CHR '':'' \<notin> set cmd" using assms(2) by (auto simp: is_space_def NL_def)
  ultimately show ?thesis using strip_message [of cmd name] assms(1)
    by (simp add: good_name_def split_on_none split_on_append [where t = name, simplified])
qed

lemma send_to_good:
  assumes "good_name name" "cmd = ''REGISTER'' \<or> cmd = ''UNREGISTER''"
  shows "send_to cmd name pipe = Inr (pipe @ message cmd name)"
proof -
  have "ascii (message cmd name)" using assms by (auto simp: good_name_def ascii_def message_def NL_def)
  then show ?thesis using assms(1)
    by (simp add: send_to_def send_msg_def ensure_running_def act_defs ok_env_def good_name_def)
qed

lemma track_append:
  assumes "whole_lines pipe" "good_name name" "cmd = ''REGISTER'' \<or> cmd = ''UNREGISTER''"
  shows "track (lines_from [] (pipe @ message cmd name)) [] =
    (let c = track (lines_from [] pipe) [] in
     if cmd = ''REGISTER'' then List.insert name c else if name \<in> set c then remove1 name c else c)"
    "whole_lines (pipe @ message cmd name)"
proof -
  have "NL \<notin> set (cmd @ '':'' @ name)" using assms(2,3) by (auto simp: good_name_def NL_def)
  from lines_from_line [OF this, of "[]" "[]"] have "lines_from [] (message cmd name) = [message cmd name]"
    by (simp add: message_def)
  moreover have "lines_from [] (pipe @ message cmd name) = lines_from [] pipe @ lines_from [] (message cmd name)"
    using lines_from_append [of pipe "[]"] assms(1) by simp
  ultimately show "track (lines_from [] (pipe @ message cmd name)) [] =
    (let c = track (lines_from [] pipe) [] in
     if cmd = ''REGISTER'' then List.insert name c else if name \<in> set c then remove1 name c else c)"
    using track_message [OF assms(2,3)] assms(3) by (auto simp: track_def track_line_def Let_def)
  show "whole_lines (pipe @ message cmd name)" by (simp add: whole_lines_def message_def)
qed

section \<open>No semaphore is left behind\<close>

fun sem_of :: "nact \<Rightarrow> nat" where
  "sem_of (NMake i) = i" | "sem_of (NRegister i) = i" | "sem_of (NUnlink i) = i" | "sem_of (NUnregister i) = i"

definition named :: "(nat \<Rightarrow> string) \<Rightarrow> names \<Rightarrow> phase set \<Rightarrow> string set" where
  "named name s P = {name i | i. n_phase s i \<in> P}"

definition names_inv :: "nat \<Rightarrow> (nat \<Rightarrow> string) \<Rightarrow> names \<Rightarrow> bool" where
  "names_inv k name s \<longleftrightarrow> whole_lines (n_pipe s) \<and> distinct (track (lines_from [] (n_pipe s)) []) \<and>
     set (track (lines_from [] (n_pipe s)) []) = named name s {Registered, Unlinked} \<and>
     set (n_exists s) = named name s {Made, Registered} \<and>
     (\<forall>i. n_phase s i \<noteq> RegisterFailed) \<and> (\<forall>i \<ge> k. n_phase s i = NotMade)"

lemma named_update:
  assumes "inj_on name {..<k}" "\<forall>j \<ge> k. n_phase s j = NotMade" "i < k" "NotMade \<notin> P" "n_phase s' = (n_phase s)(i := x)"
  shows "named name s' P = (if x \<in> P then insert (name i) (named name s P) else named name s P - {name i})"
proof -
  have lt: "j < k" if "n_phase s j \<in> P" for j using assms(2,4) that by (metis not_le)
  have eq: "name j = name i \<longleftrightarrow> j = i" if "n_phase s j \<in> P" for j
    using inj_on_eq_iff [OF assms(1), of j i] lt [OF that] assms(3) by simp
  have up: "n_phase s' j = (if j = i then x else n_phase s j)" for j unfolding assms(5) by simp
  show ?thesis
  proof (rule set_eqI)
    fix n
    have "n \<in> named name s' P \<longleftrightarrow> (x \<in> P \<and> n = name i) \<or> (\<exists>j. j \<noteq> i \<and> n = name j \<and> n_phase s j \<in> P)"
      unfolding named_def up by auto
    also have "\<dots> \<longleftrightarrow> (x \<in> P \<and> n = name i) \<or> (n \<noteq> name i \<and> n \<in> named name s P)"
      using eq unfolding named_def by auto
    finally show "n \<in> named name s' P \<longleftrightarrow> n \<in> (if x \<in> P then insert (name i) (named name s P) else named name s P - {name i})"
      by auto
  qed
qed

lemma names_step_inv:
  assumes inv: "names_inv k name s" and good: "\<And>i. i < k \<Longrightarrow> good_name (name i)" and inj: "inj_on name {..<k}"
    and a: "sem_of a < k"
  shows "names_inv k name (names_step name a s)"
proof -
  let ?i = "sem_of a"
  have lines: "whole_lines (n_pipe s)" and late: "\<forall>j \<ge> k. n_phase s j = NotMade" using inv by (simp_all add: names_inv_def)
  note up = named_update [OF inj late a]
  have mem: "n_phase s ?i \<in> P \<Longrightarrow> name ?i \<in> named name s P" for P by (auto simp: named_def)
  have out: "n_phase s ?i \<notin> P \<Longrightarrow> NotMade \<notin> P \<Longrightarrow> name ?i \<notin> named name s P" for P
    using up [of P s "n_phase s ?i"] by (auto split: if_splits)
  have late': "\<forall>j \<ge> k. ((n_phase s)(?i := x)) j = NotMade" for x using late a by auto
  show ?thesis
  proof (cases a)
    case (NMake i)
    show ?thesis
    proof (cases "n_phase s i = NotMade \<and> name i \<notin> set (n_exists s)")
      case True
      let ?s = "s\<lparr>n_phase := (n_phase s)(i := Made), n_exists := name i # n_exists s\<rparr>"
      have "named name ?s {Registered, Unlinked} = named name s {Registered, Unlinked}"
        using up [of "{Registered, Unlinked}" ?s Made] out [of "{Registered, Unlinked}"] True NMake by simp
      moreover have "named name ?s {Made, Registered} = insert (name i) (named name s {Made, Registered})"
        using up [of "{Made, Registered}" ?s Made] NMake by simp
      ultimately show ?thesis using inv True late' NMake by (simp add: names_inv_def)
    qed (use inv NMake in auto)
  next
    case (NRegister i)
    show ?thesis
    proof (cases "n_phase s i = Made")
      case True
      have g: "good_name (name i)" using good a NRegister by simp
      let ?s = "s\<lparr>n_phase := (n_phase s)(i := Registered), n_pipe := n_pipe s @ message ''REGISTER'' (name i)\<rparr>"
      have "named name ?s {Registered, Unlinked} = insert (name i) (named name s {Registered, Unlinked})"
        using up [of "{Registered, Unlinked}" ?s Registered] NRegister by simp
      moreover have "named name ?s {Made, Registered} = named name s {Made, Registered}"
        using up [of "{Made, Registered}" ?s Registered] mem [of "{Made, Registered}"] True NRegister by (auto simp: insert_absorb)
      ultimately show ?thesis using inv True late' NRegister track_append [OF lines g, of "''REGISTER''"]
        by (simp add: names_inv_def send_to_good [OF g] Let_def)
    qed (simp add: NRegister inv)
  next
    case (NUnlink i)
    show ?thesis
    proof (cases "n_phase s i = Registered")
      case True
      let ?s = "s\<lparr>n_phase := (n_phase s)(i := Unlinked), n_exists := removeAll (name i) (n_exists s)\<rparr>"
      have "named name ?s {Registered, Unlinked} = named name s {Registered, Unlinked}"
        using up [of "{Registered, Unlinked}" ?s Unlinked] mem [of "{Registered, Unlinked}"] True NUnlink by (auto simp: insert_absorb)
      moreover have "named name ?s {Made, Registered} = named name s {Made, Registered} - {name i}"
        using up [of "{Made, Registered}" ?s Unlinked] NUnlink by simp
      moreover have "name i \<in> set (n_exists s)" using inv mem [of "{Made, Registered}"] True NUnlink by (simp add: names_inv_def)
      ultimately show ?thesis using inv True late' NUnlink by (simp add: names_inv_def)
    qed (simp add: NUnlink inv)
  next
    case (NUnregister i)
    show ?thesis
    proof (cases "n_phase s i = Unlinked")
      case True
      have g: "good_name (name i)" using good a NUnregister by simp
      let ?s = "s\<lparr>n_phase := (n_phase s)(i := Gone), n_pipe := n_pipe s @ message ''UNREGISTER'' (name i)\<rparr>"
      have "named name ?s {Registered, Unlinked} = named name s {Registered, Unlinked} - {name i}"
        using up [of "{Registered, Unlinked}" ?s Gone] NUnregister by simp
      moreover have "named name ?s {Made, Registered} = named name s {Made, Registered}"
        using up [of "{Made, Registered}" ?s Gone] out [of "{Made, Registered}"] True NUnregister by simp
      ultimately show ?thesis using inv True late' NUnregister track_append [OF lines g, of "''UNREGISTER''"]
        by (simp add: names_inv_def send_to_good [OF g] Let_def)
    qed (simp add: NUnregister inv)
  qed
qed

lemma names_run_inv:
  assumes "\<And>i. i < k \<Longrightarrow> good_name (name i)" "inj_on name {..<k}" "\<forall>a \<in> set acts. sem_of a < k"
  shows "names_inv k name (names_run name acts)"
proof -
  have "names_inv k name s \<Longrightarrow> \<forall>a \<in> set acts. sem_of a < k \<Longrightarrow> names_inv k name (fold (names_step name) acts s)" for s
    by (induction acts arbitrary: s) (simp_all add: names_step_inv [OF _ assms(1,2)])
  moreover have "names_inv k name new_names" by (simp add: names_inv_def new_names_def whole_lines_def track_def named_def)
  ultimately show ?thesis using assms(3) by (simp add: names_run_def)
qed

lemma unlink_all_ascii: "\<forall>n \<in> set ns. ascii n \<Longrightarrow> unlink_all ns = ns"
  by (induction ns) auto

text \<open>
  C24. However many processes make, register, unlink and unregister their semaphores, in any interleaving, and
  wherever they stop: when the tracker has ended, the only names left are those of semaphores whose process stopped
  between making the semaphore and registering it, and the tracker has unlinked exactly those registered and not unregistered.
\<close>

theorem tracker_leaves_no_registered_name:
  assumes "\<And>i. i < k \<Longrightarrow> good_name (name i)" "inj_on name {..<k}" "\<forall>a \<in> set acts. sem_of a < k"
    and "\<And>ns. set (order ns) = set ns"
    and "s = names_run name acts"
  shows "set (left_over order s) = {name i | i. n_phase s i = Made} \<and>
    set (tracker_main order (n_pipe s)) = {name i | i. n_phase s i \<in> {Registered, Unlinked}}"
proof -
  have inv: "names_inv k name s" unfolding assms(5) by (rule names_run_inv) (rule assms(1), assumption, rule assms(2), rule assms(3))
  have lt: "i < k" if "n_phase s i \<noteq> NotMade" for i using inv that unfolding names_inv_def by (metis not_le)
  have "\<forall>n \<in> set (order (track (lines_from [] (n_pipe s)) [])). ascii n"
    using inv assms(1,4) lt by (fastforce simp: names_inv_def good_name_def named_def)
  then have main: "set (tracker_main order (n_pipe s)) = named name s {Registered, Unlinked}"
    using inv assms(4) by (simp add: tracker_main_def unlink_all_ascii names_inv_def)
  have "name i = name j \<longleftrightarrow> i = j" if "n_phase s i \<noteq> NotMade" "n_phase s j \<noteq> NotMade" for i j
    using inj_on_eq_iff [OF assms(2), of i j] lt that by auto
  then have "set (left_over order s) = named name s {Made}"
    using inv unfolding left_over_def set_filter main by (fastforce simp: names_inv_def named_def)
  then show ?thesis using main by (auto simp: named_def)
qed

definition ex_name :: "nat \<Rightarrow> string" where
  "ex_name i = ''/mp-'' @ replicate i (CHR ''x'')"

theorem tracker_leaves_no_registered_name_witness:
  "set (left_over id (names_run ex_name [NMake 0, NRegister 0, NMake 1, NMake 2, NUnlink 0, NRegister 2, NUnregister 0])) = {''/mp-x''}"
proof -
  let ?acts = "[NMake 0, NRegister 0, NMake 1, NMake 2, NUnlink 0, NRegister 2, NUnregister 0]"
  have p: "n_phase (names_run ex_name ?acts) i = (if i = 0 then Gone else if i = 1 then Made else if i = 2 then Registered else NotMade)" for i
    by (simp add: names_run_def new_names_def ex_name_def send_to_def send_msg_def ensure_running_def act_defs ok_env_def
      ascii_def message_def NL_def eval_nat_numeral)
  have "set (left_over id (names_run ex_name ?acts)) = {ex_name i | i. n_phase (names_run ex_name ?acts) i = Made}"
    by (rule conjunct1 [OF tracker_leaves_no_registered_name [where k = 3 and acts = ?acts, OF _ _ _ _ refl]])
      (auto simp: good_name_def ex_name_def ascii_def NL_def is_space_def inj_on_def nth_append last_append)
  then show ?thesis unfolding p by (auto simp: ex_name_def eval_nat_numeral split: if_splits)
qed

text \<open>
  When a name is used again before its first owner has unregistered it, the late message removes the
  second owner's registration, and a semaphore that is registered survives the tracker.
\<close>

theorem reused_name_is_left_behind:
  "left_over id (names_run (\<lambda>_. ''/mp-a'') [NMake 0, NRegister 0, NUnlink 0, NMake 1, NRegister 1, NUnregister 0]) = [''/mp-a'']"
  by code_simp

text \<open>
  The length check bounds the name and not the message: a name of 512 characters is accepted although
  its message is longer than the 512 bytes up to which a write to a pipe is atomic on every system.
\<close>

theorem message_longer_than_atomic:
  "\<exists>name. length name \<le> 512 \<and> length (message ''REGISTER'' name) > 512 \<and>
     fst (send_msg (ok_env ''REGISTER'' name) ''REGISTER'' name \<lparr>c_fd = Some 1, c_open = [1], c_started = 0, c_pipe = []\<rparr>) = Inr ()"
  by (rule exI [of _ "replicate 512 (CHR ''x'')"])
    (simp add: send_msg_def ensure_running_def act_defs ok_env_def ascii_def message_def NL_def)

text \<open>
  \<open>ensure_running\<close> starts one tracker however often it is called, and leaves exactly the end for
  writing open when it succeeds, and neither when it fails.
\<close>

theorem ensure_running_once:
  assumes "ensure_running e c = (r, c')"
  shows "(c_fd c \<noteq> None \<longrightarrow> r = Inr () \<and> c' = c) \<and>
    (c_fd c = None \<longrightarrow> (case r of
        Inr _ \<Rightarrow> \<exists>w. c_fd c' = Some w \<and> mset (c_open c') = mset (w # c_open c) \<and> c_started c' = c_started c + 1
      | Inl _ \<Rightarrow> c_fd c' = None \<and> mset (c_open c') = mset (c_open c) \<and> c_started c' = c_started c))"
  using assms by (auto simp: ensure_running_def act_defs close_fd_def split: sum.splits option.splits if_splits)

theorem ensure_running_once_witness:
  "\<exists>w. c_fd (snd (ensure_running (ok_env [] []) \<lparr>c_fd = None, c_open = [], c_started = 0, c_pipe = []\<rparr>)) = Some w"
proof -
  let ?c = "\<lparr>c_fd = None, c_open = [], c_started = 0, c_pipe = []\<rparr>"
  have "ensure_running (ok_env [] []) ?c = (Inr (), ?c\<lparr>c_open := [1], c_started := 1, c_fd := Some 1\<rparr>)" by code_simp
  from ensure_running_once [OF this] this show ?thesis by simp
qed

end
