(* ===== verification/Shared_Pipe.thy ===== *)
theory Shared_Pipe
  imports Queues
begin

text \<open>
  \<open>SimpleQueue\<close> of \<open>billiard/queues.py\<close>, one pipe for all the processes of a pool, down to the bytes: each \<open>put\<close> writes its frame in pieces and
  each \<open>get\<close> reads its frame in pieces, under one lock for each end. The pipe has room for so many bytes and no more: a write waits while it is full. In every interleaving the pipe is a queue of whole messages, as
  \<open>simple_put\<close> and \<open>simple_get\<close> of theory Queues have it; without the locks (\<open>_SimpleQueue\<close>) it is not.
\<close>

section \<open>Threads that write and read\<close>

text \<open>
  What a thread is at: it has a message to send and wants the lock; it holds the lock and has these bytes left to write; it wants the lock of
  the reading end; it holds it and has read these bytes. \<open>bq_sent\<close> lists the messages in the order in which their writers got the lock, \<open>bq_got\<close> those
  that have been returned.
\<close>

datatype qpc = Idle | Puts bytes | Writing bytes | Gets | Reading bytes

record 'l bqueue =
  bq_wlock :: 'l
  bq_rlock :: 'l
  bq_room :: nat     \<comment> \<open>the bytes the pipe holds at most\<close>
  bq_atomic :: nat   \<comment> \<open>\<open>PIPE_BUF\<close>: a write of at most so many bytes is done in one piece\<close>
  bq_pipe :: bytes
  bq_pc :: "agent \<Rightarrow> qpc"
  bq_sent :: "bytes list"
  bq_got :: "bytes list"

definition SimpleQueue :: "nat \<Rightarrow> nat \<Rightarrow> 'l \<Rightarrow> 'l \<Rightarrow> 'l bqueue" where
  "SimpleQueue room at r w = \<lparr>bq_wlock = w, bq_rlock = r, bq_room = room, bq_atomic = at, bq_pipe = [], bq_pc = (\<lambda>_. Idle), bq_sent = [], bq_got = []\<rparr>"

text \<open>What the receiving loops still ask for when this much of a frame is there: first the header, then what it says.\<close>

definition wanted :: "bytes \<Rightarrow> nat" where
  "wanted b = (if length b < 4 then 4 - length b else 4 + nat (unpack_i (take 4 b)) - length b)"

abbreviation goes :: "agent \<Rightarrow> qpc \<Rightarrow> 'l bqueue \<Rightarrow> 'l bqueue" where
  "goes a c s \<equiv> s\<lparr>bq_pc := (bq_pc s)(a := c)\<rparr>"

text \<open>
  \<open>send_payload\<close> in steps: the lock, as many writes as it takes, the end of the \<open>with\<close> block. A message too long for a header raises before anything is written.
  \<open>None\<close> means that the thread cannot do this step now.
\<close>

definition send_lock :: "(agent \<Rightarrow> 'l \<Rightarrow> (bool \<times> 'l) option) \<Rightarrow> agent \<Rightarrow> 'l bqueue \<Rightarrow> 'l bqueue option" where
  "send_lock acquire a s =
     (case bq_pc s a of
        Puts m \<Rightarrow> (case acquire a (bq_wlock s) of
            Some (True, l) \<Rightarrow> Some (goes a (Writing (frame m)) (s\<lparr>bq_wlock := l, bq_sent := bq_sent s @ [m]\<rparr>))
          | _ \<Rightarrow> None)
      | _ \<Rightarrow> None)"

text \<open>
  A piece of \<open>k\<close> bytes goes into the pipe when there is room for it. A frame of at most \<open>PIPE_BUF\<close> bytes, which is that of the
  message sent last, is written as a whole or not yet.
\<close>

definition in_one_piece :: "'l bqueue \<Rightarrow> bool" where
  "in_one_piece s \<longleftrightarrow> length (frame (last (bq_sent s))) \<le> bq_atomic s"

definition send_some :: "nat \<Rightarrow> agent \<Rightarrow> 'l bqueue \<Rightarrow> 'l bqueue option" where
  "send_some k a s =
     (case bq_pc s a of
        Writing r \<Rightarrow> if 1 \<le> k \<and> k \<le> length r \<and> length (bq_pipe s) + k \<le> bq_room s \<and> (in_one_piece s \<longrightarrow> k = length r)
          then Some (goes a (Writing (drop k r)) (s\<lparr>bq_pipe := bq_pipe s @ take k r\<rparr>)) else None
      | _ \<Rightarrow> None)"

definition send_unlock :: "(agent \<Rightarrow> ('l, unit) act) \<Rightarrow> agent \<Rightarrow> 'l bqueue \<Rightarrow> 'l bqueue option" where
  "send_unlock release a s =
     (case bq_pc s a of Writing [] \<Rightarrow> Some (goes a Idle (s\<lparr>bq_wlock := snd (release a (bq_wlock s))\<rparr>)) | _ \<Rightarrow> None)"

text \<open>\<open>get_payload\<close> in steps; \<open>recv\<close> never asks for more than it still wants.\<close>

definition recv_lock :: "(agent \<Rightarrow> 'l \<Rightarrow> (bool \<times> 'l) option) \<Rightarrow> agent \<Rightarrow> 'l bqueue \<Rightarrow> 'l bqueue option" where
  "recv_lock acquire a s =
     (case bq_pc s a of
        Gets \<Rightarrow> (case acquire a (bq_rlock s) of Some (True, l) \<Rightarrow> Some (goes a (Reading []) (s\<lparr>bq_rlock := l\<rparr>)) | _ \<Rightarrow> None)
      | _ \<Rightarrow> None)"

definition recv_some :: "nat \<Rightarrow> agent \<Rightarrow> 'l bqueue \<Rightarrow> 'l bqueue option" where
  "recv_some k a s =
     (case bq_pc s a of
        Reading b \<Rightarrow> if 1 \<le> k \<and> k \<le> wanted b \<and> k \<le> length (bq_pipe s)
          then Some (goes a (Reading (b @ take k (bq_pipe s))) (s\<lparr>bq_pipe := drop k (bq_pipe s)\<rparr>)) else None
      | _ \<Rightarrow> None)"

definition recv_unlock :: "(agent \<Rightarrow> ('l, unit) act) \<Rightarrow> agent \<Rightarrow> 'l bqueue \<Rightarrow> 'l bqueue option" where
  "recv_unlock release a s =
     (case bq_pc s a of
        Reading b \<Rightarrow> if wanted b = 0 then Some (goes a Idle (s\<lparr>bq_rlock := snd (release a (bq_rlock s)), bq_got := bq_got s @ [drop 4 b]\<rparr>)) else None
      | _ \<Rightarrow> None)"

text \<open>An exception in the middle of either (from the handler of a signal): the \<open>with\<close> block releases the lock, and what has been transferred stays so.\<close>

definition transfer_raises :: "(agent \<Rightarrow> ('l, unit) act) \<Rightarrow> agent \<Rightarrow> 'l bqueue \<Rightarrow> 'l bqueue option" where
  "transfer_raises release a s =
     (case bq_pc s a of
        Writing r \<Rightarrow> Some (goes a Idle (s\<lparr>bq_wlock := snd (release a (bq_wlock s))\<rparr>))
      | Reading b \<Rightarrow> Some (goes a Idle (s\<lparr>bq_rlock := snd (release a (bq_rlock s))\<rparr>))
      | _ \<Rightarrow> None)"

datatype bqevent = SPut agent bytes | SLock agent | SWrite agent nat | SDone agent
  | SGet agent | RLocked agent | RRead agent nat | RDone agent | SRaise agent

fun bq_step :: "(agent \<Rightarrow> 'l \<Rightarrow> (bool \<times> 'l) option) \<Rightarrow> (agent \<Rightarrow> ('l, unit) act) \<Rightarrow> bqevent \<Rightarrow> 'l bqueue \<Rightarrow> 'l bqueue option" where
  "bq_step acquire release (SPut a m) s =
     (if bq_pc s a = Idle then Some (case pack_i (int (length m)) of Inl _ \<Rightarrow> s | Inr _ \<Rightarrow> goes a (Puts m) s) else None)"
| "bq_step acquire release (SLock a) s = send_lock acquire a s"
| "bq_step acquire release (SWrite a k) s = send_some k a s"
| "bq_step acquire release (SDone a) s = send_unlock release a s"
| "bq_step acquire release (SGet a) s = (if bq_pc s a = Idle then Some (goes a Gets s) else None)"
| "bq_step acquire release (RLocked a) s = recv_lock acquire a s"
| "bq_step acquire release (RRead a k) s = recv_some k a s"
| "bq_step acquire release (RDone a) s = recv_unlock release a s"
| "bq_step acquire release (SRaise a) s = transfer_raises release a s"

fun bq_run :: "(agent \<Rightarrow> 'l \<Rightarrow> (bool \<times> 'l) option) \<Rightarrow> (agent \<Rightarrow> ('l, unit) act) \<Rightarrow> bqevent list \<Rightarrow> 'l bqueue \<Rightarrow> 'l bqueue option" where
  "bq_run acquire release [] s = Some s"
| "bq_run acquire release (e # es) s = (case bq_step acquire release e s of None \<Rightarrow> None | Some s' \<Rightarrow> bq_run acquire release es s')"

text \<open>An event that begins nothing new and is no exception.\<close>

fun goes_on :: "bqevent \<Rightarrow> bool" where
  "goes_on (SPut _ _) = False" | "goes_on (SGet _) = False" | "goes_on (SRaise _) = False" | "goes_on _ = True"

lemmas bq_defs = send_lock_def send_some_def send_unlock_def recv_lock_def recv_some_def recv_unlock_def transfer_raises_def

section \<open>Frames\<close>

definition packable :: "bytes \<Rightarrow> bool" where
  "packable m \<longleftrightarrow> (\<exists>h. pack_i (int (length m)) = Inr h)"

lemma packable_frame:
  assumes "packable m"
  obtains h where "frame m = h @ m" "length h = 4" "unpack_i h = int (length m)"
  using assms unpack_pack unfolding packable_def frame_def by fastforce

definition bounded :: "bytes \<Rightarrow> bool" where
  "bounded b \<longleftrightarrow> length b \<le> 4 \<or> length b \<le> 4 + nat (unpack_i (take 4 b))"

lemma bounded_read: "bounded b \<Longrightarrow> k \<le> wanted b \<Longrightarrow> bounded (b @ take k p)"
  by (cases "length b < 4") (auto simp: bounded_def wanted_def)

text \<open>Bytes that have been read are a part of the first frame, and all of it when nothing more is wanted.\<close>

lemma first_frame:
  assumes "b @ p = frame m @ rest" "packable m" "bounded b"
  shows "length b \<le> length (frame m)" "wanted b = 0 \<longleftrightarrow> b = frame m" "wanted b = 0 \<Longrightarrow> drop 4 b = m \<and> p = rest"
proof -
  obtain h where h: "frame m = h @ m" "length h = 4" "unpack_i h = int (length m)" using packable_frame [OF assms(2)] .
  have t: "take 4 b = h" if "length b \<ge> 4"
    using arg_cong [OF assms(1), of "take 4"] that h(1,2) by simp
  show l: "length b \<le> length (frame m)"
    using assms(3) t h by (cases "length b \<ge> 4") (auto simp: bounded_def)
  have eq: "b = take (length b) (frame m)"
    using arg_cong [OF assms(1), of "take (length b)"] l by simp
  have len: "length (frame m) = 4 + length m" using h by simp
  have "wanted b = 0 \<longleftrightarrow> length b = length (frame m)"
    using t h(3) l len by (cases "length b < 4") (auto simp: wanted_def)
  then show w: "wanted b = 0 \<longleftrightarrow> b = frame m" using eq by auto
  show "drop 4 b = m \<and> p = rest" if "wanted b = 0"
    using w that h assms(1) by simp
qed

section \<open>The invariant\<close>

fun to_write :: "qpc \<Rightarrow> bytes option" where
  "to_write (Writing r) = Some r" | "to_write _ = None"

fun have_read :: "qpc \<Rightarrow> bytes option" where
  "have_read (Reading b) = Some b" | "have_read _ = None"

text \<open>What the one thread at work has, and nothing when there is none.\<close>

definition current :: "(qpc \<Rightarrow> bytes option) \<Rightarrow> ('a \<Rightarrow> qpc) \<Rightarrow> bytes \<Rightarrow> bool" where
  "current g f b \<longleftrightarrow> (\<exists>a. g (f a) = Some b) \<or> b = [] \<and> (\<forall>a. g (f a) = None)"

lemma current_new: "g c = Some b \<Longrightarrow> current g (f(a := c)) b"
  by (auto simp: current_def)

lemma current_keep: "current g f b \<Longrightarrow> g (f a) = None \<Longrightarrow> g c = None \<Longrightarrow> current g (f(a := c)) b"
  unfolding current_def by (metis fun_upd_apply option.distinct(1))

lemma current_end: "(\<And>b. b \<noteq> a \<Longrightarrow> g (f b) = None) \<Longrightarrow> g c = None \<Longrightarrow> current g (f(a := c)) []"
  unfolding current_def by simp

lemma current_this: "current g f b \<Longrightarrow> g (f a) = Some r \<Longrightarrow> (\<And>c. g (f c) \<noteq> None \<Longrightarrow> c = a) \<Longrightarrow> b = r"
  unfolding current_def by (metis option.distinct(1) option.inject)

lemma current_none: "current g f b \<Longrightarrow> (\<And>c. g (f c) = None) \<Longrightarrow> b = []"
  unfolding current_def by simp

definition flow :: "'l bqueue \<Rightarrow> bytes list \<Rightarrow> bytes \<Rightarrow> bytes \<Rightarrow> bool" where
  "flow s rest b w \<longleftrightarrow> bq_sent s = bq_got s @ rest \<and> (\<forall>m \<in> set rest. packable m) \<and>
     concat (map frame rest) = b @ bq_pipe s @ w \<and> current have_read (bq_pc s) b \<and> current to_write (bq_pc s) w \<and> bounded b"

definition sendable :: "(agent \<Rightarrow> qpc) \<Rightarrow> bool" where
  "sendable f \<longleftrightarrow> (\<forall>a m. f a = Puts m \<longrightarrow> packable m)"

lemma sendable_upd:
  assumes "sendable f"
  shows "sendable (f(a := Idle))" "sendable (f(a := Gets))" "sendable (f(a := Writing r))" "sendable (f(a := Reading b))"
    "packable m \<Longrightarrow> sendable (f(a := Puts m))"
  using assms unfolding sendable_def by simp_all

text \<open>Threads that are sending or want to, and receiving or want to; a writer that finds no room for its next piece.\<close>

definition writes :: "'l bqueue \<Rightarrow> agent \<Rightarrow> bool" where
  "writes s a \<longleftrightarrow> (\<exists>m. bq_pc s a = Puts m \<or> bq_pc s a = Writing m)"

definition reads :: "'l bqueue \<Rightarrow> agent \<Rightarrow> bool" where
  "reads s a \<longleftrightarrow> (\<exists>b. bq_pc s a = Gets \<or> bq_pc s a = Reading b)"

definition no_room :: "'l bqueue \<Rightarrow> agent \<Rightarrow> bool" where
  "no_room s a \<longleftrightarrow> (\<exists>r. bq_pc s a = Writing r \<and> r \<noteq> [] \<and>
     bq_room s < length (bq_pipe s) + (if in_one_piece s then length r else 1))"

context lock_api
begin

text \<open>A lock that is held exactly by the thread at work, once.\<close>

definition guards :: "'l \<Rightarrow> (qpc \<Rightarrow> bytes option) \<Rightarrow> (agent \<Rightarrow> qpc) \<Rightarrow> bool" where
  "guards l g f \<longleftrightarrow> ok l \<and> (\<forall>a. g (f a) \<noteq> None \<longrightarrow> holds l a 1) \<and> (free l \<or> (\<exists>a. g (f a) \<noteq> None))"

lemma guards_one: "guards l g f \<Longrightarrow> g (f a) \<noteq> None \<Longrightarrow> g (f b) \<noteq> None \<Longrightarrow> a = b"
  unfolding guards_def using holder_unique by blast

lemma guards_other: "guards l g f \<Longrightarrow> g (f a) = Some x \<Longrightarrow> b \<noteq> a \<Longrightarrow> g (f b) = None"
  using guards_one [of l g f a b] by (cases "g (f b)") auto

lemma guards_keep: "guards l g f \<Longrightarrow> (g c = None) = (g (f a) = None) \<Longrightarrow> guards l g (f(a := c))"
  unfolding guards_def by (metis fun_upd_apply)

lemma guards_take:
  assumes "guards l g f" "acquire a l = Some (r, l')" "g (f a) = None" "g c \<noteq> None"
  shows "guards l' g (f(a := c))" "g (f b) = None"
proof -
  have no: "g (f b) = None" for b
  proof (rule ccontr)
    assume b: "g (f b) \<noteq> None"
    then have "b = a" using assms(1) mutual_exclusion [OF _ assms(2)] unfolding guards_def by blast
    with b assms(3) show False by simp
  qed
  then show "g (f b) = None" .
  have "free l \<and> ok l" using assms(1) no unfolding guards_def by metis
  with acquire_free [of l a] assms(2) have "ok l'" "holds l' a 1" by auto
  with no assms(4) show "guards l' g (f(a := c))" unfolding guards_def by (metis fun_upd_apply)
qed

lemma guards_drop:
  assumes "guards l g f" "g (f a) \<noteq> None" "g c = None"
  shows "guards (snd (release a l)) g (f(a := c))"
proof -
  have "ok l" "holds l a 1" using assms(1,2) unfolding guards_def by blast+
  from release_held [OF this] have "ok (snd (release a l))" "free (snd (release a l))" by auto
  moreover have "g ((f(a := c)) b) = None" for b
    using guards_other [OF assms(1), of a _ b] assms(2,3) by (cases "b = a") auto
  ultimately show ?thesis unfolding guards_def by metis
qed

definition locked :: "'l bqueue \<Rightarrow> bool" where
  "locked s \<longleftrightarrow> guards (bq_wlock s) to_write (bq_pc s) \<and> guards (bq_rlock s) have_read (bq_pc s) \<and> sendable (bq_pc s)"

text \<open>The pipe never holds more than it has room for, and a writer has no more left than its frame.\<close>

definition roomy :: "'l bqueue \<Rightarrow> bool" where
  "roomy s \<longleftrightarrow> 1 \<le> bq_atomic s \<and> bq_atomic s \<le> bq_room s \<and> length (bq_pipe s) \<le> bq_room s \<and>
     (\<forall>a r. bq_pc s a = Writing r \<longrightarrow> length r \<le> length (frame (last (bq_sent s))))"

lemma roomy_step:
  assumes "bq_step acquire release e s = Some s'" "locked s" "roomy s"
  shows "roomy s' \<and> bq_room s' = bq_room s \<and> bq_atomic s' = bq_atomic s"
proof (cases e)
  case (SLock a)
  with assms(1) obtain m l where p: "bq_pc s a = Puts m" "acquire a (bq_wlock s) = Some (True, l)"
      "s' = goes a (Writing (frame m)) (s\<lparr>bq_wlock := l, bq_sent := bq_sent s @ [m]\<rparr>)"
    by (auto simp: bq_defs split: qpc.splits option.splits prod.splits bool.splits)
  have "to_write (bq_pc s b) = None" for b
    using assms(2) guards_take(2) [OF _ p(2), of to_write "bq_pc s" "Writing (frame m)"] p(1) by (simp add: locked_def)
  then have "bq_pc s b \<noteq> Writing r" for b r by (metis option.distinct(1) to_write.simps(1))
  with p assms(3) show ?thesis by (simp add: roomy_def)
next
  case (SWrite a k)
  with assms(1,3) show ?thesis
    by (fastforce simp: bq_defs roomy_def split: qpc.splits if_splits)
next
  case (RRead a k)
  with assms(1,3) show ?thesis
    by (fastforce simp: bq_defs roomy_def split: qpc.splits if_splits)
next
  case (SPut a m)
  with assms(1,3) show ?thesis by (auto simp: roomy_def split: if_splits sum.splits)
qed (use assms(1,3) in \<open>auto simp: bq_defs roomy_def split: qpc.splits option.splits prod.splits bool.splits if_splits list.splits\<close>)

text \<open>The bytes: nothing is lost or mixed, as long as no transfer is cut off.\<close>

lemma safe_step:
  assumes step: "bq_step acquire release e s = Some s'" and inv: "locked s" "flow s rest b w" and e: "\<And>a. e \<noteq> SRaise a"
  shows "locked s' \<and> (\<exists>rest b w. flow s' rest b w)"
proof -
  note wl = inv(1)[unfolded locked_def, THEN conjunct1]
  note rl = inv(1)[unfolded locked_def, THEN conjunct2, THEN conjunct1]
  note sd = inv(1)[unfolded locked_def, THEN conjunct2, THEN conjunct2]
  note fl = inv(2)[unfolded flow_def]
  note keep = guards_keep current_keep sendable_upd
  show ?thesis
  proof (cases e)
    case (SPut a m)
    with step have "s' = s \<or> bq_pc s a = Idle \<and> packable m \<and> s' = goes a (Puts m) s"
      by (auto simp: packable_def split: if_splits sum.splits)
    then show ?thesis
    proof (elim disjE conjE)
      assume "bq_pc s a = Idle" "packable m" "s' = goes a (Puts m) s"
      with wl rl sd fl have "locked s'" "flow s' rest b w" by (simp_all add: locked_def flow_def keep)
      then show ?thesis by blast
    qed (use inv in blast)
  next
    case (SLock a)
    with step obtain m l where p: "bq_pc s a = Puts m" "acquire a (bq_wlock s) = Some (True, l)"
        "s' = goes a (Writing (frame m)) (s\<lparr>bq_wlock := l, bq_sent := bq_sent s @ [m]\<rparr>)"
      by (auto simp: bq_defs split: qpc.splits option.splits prod.splits bool.splits)
    have "w = []" using guards_take(2) [OF wl p(2), of "Writing (frame m)"] p(1) fl current_none by fastforce
    moreover have "packable m" using sd p(1) unfolding sendable_def by blast
    ultimately have "flow s' (rest @ [m]) b (frame m)"
      using p fl by (auto simp: flow_def intro: current_new current_keep)
    moreover have "locked s'"
      using p rl sd guards_take(1) [OF wl p(2), of "Writing (frame m)"] by (simp add: locked_def keep)
    ultimately show ?thesis by blast
  next
    case (SWrite a k)
    with step obtain r where p: "bq_pc s a = Writing r" "s' = goes a (Writing (drop k r)) (s\<lparr>bq_pipe := bq_pipe s @ take k r\<rparr>)"
      by (auto simp: bq_defs split: qpc.splits if_splits)
    have "w = r" using current_this [of to_write "bq_pc s" w a r] guards_one [OF wl, of _ a] p(1) fl by auto
    with p fl have "flow s' rest b (drop k r)" by (simp add: flow_def current_new current_keep)
    moreover have "locked s'" using p wl rl sd by (simp add: locked_def keep)
    ultimately show ?thesis by blast
  next
    case (SDone a)
    with step have p: "bq_pc s a = Writing []" "s' = goes a Idle (s\<lparr>bq_wlock := snd (release a (bq_wlock s))\<rparr>)"
      by (auto simp: bq_defs split: qpc.splits list.splits)
    have "w = []" using current_this [of to_write "bq_pc s" w a "[]"] guards_one [OF wl, of _ a] p(1) fl by auto
    moreover have "to_write (bq_pc s c) = None" if "c \<noteq> a" for c using guards_other [OF wl _ that] p(1) by simp
    ultimately have "flow s' rest b []" using p fl by (simp add: flow_def current_end current_keep)
    moreover have "locked s'" using p rl sd guards_drop [OF wl, of a Idle] by (simp add: locked_def keep)
    ultimately show ?thesis by blast
  next
    case (SGet a)
    with step have "bq_pc s a = Idle" "s' = goes a Gets s" by (auto split: if_splits)
    with wl rl sd fl have "locked s'" "flow s' rest b w" by (simp_all add: locked_def flow_def keep)
    then show ?thesis by blast
  next
    case (RLocked a)
    with step obtain l where p: "bq_pc s a = Gets" "acquire a (bq_rlock s) = Some (True, l)" "s' = goes a (Reading []) (s\<lparr>bq_rlock := l\<rparr>)"
      by (auto simp: bq_defs split: qpc.splits option.splits prod.splits bool.splits)
    have "b = []" using guards_take(2) [OF rl p(2), of "Reading []"] p(1) fl current_none by fastforce
    with p fl have "flow s' rest [] w" by (auto simp: flow_def intro: current_new current_keep)
    moreover have "locked s'" using p wl sd guards_take(1) [OF rl p(2), of "Reading []"] by (simp add: locked_def keep)
    ultimately show ?thesis by blast
  next
    case (RRead a k)
    with step obtain q where p: "bq_pc s a = Reading q" "k \<le> wanted q"
        "s' = goes a (Reading (q @ take k (bq_pipe s))) (s\<lparr>bq_pipe := drop k (bq_pipe s)\<rparr>)"
      by (auto simp: bq_defs split: qpc.splits if_splits)
    have "b = q" using current_this [of have_read "bq_pc s" b a q] guards_one [OF rl, of _ a] p(1) fl by auto
    with p fl have "flow s' rest (q @ take k (bq_pipe s)) w" by (simp add: flow_def current_new current_keep bounded_read)
    moreover have "locked s'" using p wl rl sd by (simp add: locked_def keep)
    ultimately show ?thesis by blast
  next
    case (RDone a)
    with step obtain q where p: "bq_pc s a = Reading q" "wanted q = 0"
        "s' = goes a Idle (s\<lparr>bq_rlock := snd (release a (bq_rlock s)), bq_got := bq_got s @ [drop 4 q]\<rparr>)"
      by (auto simp: bq_defs split: qpc.splits if_splits)
    have no: "have_read (bq_pc s c) = None" if "c \<noteq> a" for c using guards_other [OF rl _ that] p(1) by simp
    have b: "b = q" using current_this [of have_read "bq_pc s" b a q] guards_one [OF rl, of _ a] p(1) fl by auto
    have "q \<noteq> []" using p(2) by (auto simp: wanted_def)
    with b fl obtain m rest' where r: "rest = m # rest'" by (cases rest) auto
    from fl b r have f: "q @ bq_pipe s @ w = frame m @ concat (map frame rest')" "packable m" "bounded q" by auto
    from first_frame(3) [OF f p(2)] have "drop 4 q = m" "bq_pipe s @ w = concat (map frame rest')" by simp_all
    with p no r fl have "flow s' rest' [] w" by (simp add: flow_def current_end current_keep bounded_def)
    moreover have "locked s'" using p wl sd guards_drop [OF rl, of a Idle] by (simp add: locked_def keep)
    ultimately show ?thesis by blast
  qed (use e in blast)
qed

lemma safe_run:
  "bq_run acquire release es s = Some s' \<Longrightarrow> locked s \<Longrightarrow> roomy s \<Longrightarrow> \<exists>rest b w. flow s rest b w \<Longrightarrow> \<forall>a. SRaise a \<notin> set es \<Longrightarrow>
   locked s' \<and> roomy s' \<and> bq_room s' = bq_room s \<and> bq_atomic s' = bq_atomic s \<and> (\<exists>rest b w. flow s' rest b w)"
proof (induction es arbitrary: s)
  case (Cons e es)
  then obtain t where t: "bq_step acquire release e s = Some t" "bq_run acquire release es t = Some s'" by (auto split: option.splits)
  from Cons.prems(4) obtain rest b w where f: "flow s rest b w" by blast
  from Cons.prems(5) have "\<And>a. e \<noteq> SRaise a" by auto
  from safe_step [OF t(1) Cons.prems(2) f this] roomy_step [OF t(1) Cons.prems(2,3)] Cons.IH [OF t(2)] Cons.prems(5) show ?case by auto
qed simp

text \<open>
  Whoever is at a transfer, or waits to be, gets on. Two waits remain, of the pipe itself: readers of an empty queue, and a writer
  that finds no room and has no reader.
\<close>

definition moves :: "'l bqueue \<Rightarrow> bool" where
  "moves s \<longleftrightarrow> (\<exists>e. goes_on e \<and> bq_step acquire release e s \<noteq> None)"

lemma movesI: "bq_step acquire release e s \<noteq> None \<Longrightarrow> goes_on e \<Longrightarrow> moves s"
  unfolding moves_def by blast

text \<open>The writer at work gets on when there is room, and there is room when the pipe is empty.\<close>

lemma write_moves:
  assumes "roomy s" "bq_pc s c = Writing q"
  shows "moves s \<or> no_room s c \<and> bq_pipe s \<noteq> []"
proof (cases "q = []")
  case True
  with assms(2) show ?thesis by (intro disjI1 movesI [of "SDone c"]) (simp_all add: bq_defs)
next
  case False
  let ?k = "if in_one_piece s then length q else 1"
  show ?thesis
  proof (cases "length (bq_pipe s) + ?k \<le> bq_room s")
    case True
    with assms(2) False show ?thesis by (intro disjI1 movesI [of "SWrite c ?k"]) (simp_all add: bq_defs Suc_le_eq)
  next
    case full: False
    have "length q \<le> length (frame (last (bq_sent s)))" "1 \<le> bq_atomic s" "bq_atomic s \<le> bq_room s"
      using assms unfolding roomy_def by blast+
    then have "?k \<le> bq_room s" by (simp add: in_one_piece_def)
    with full have "bq_pipe s \<noteq> []" by auto
    with assms(2) False full show ?thesis by (simp add: no_room_def)
  qed
qed

lemma writer_moves:
  assumes "locked s" "roomy s" "bq_pc s a = Puts m \<or> bq_pc s a = Writing r"
  shows "moves s \<or> (\<exists>c. no_room s c) \<and> bq_pipe s \<noteq> []"
proof (cases "\<exists>c. to_write (bq_pc s c) \<noteq> None")
  case True
  then obtain c q where q: "bq_pc s c = Writing q" by (auto elim: to_write.elims)
  with write_moves [OF assms(2) this] show ?thesis by blast
next
  case False
  then have p: "bq_pc s a = Puts m" using assms(3) by (metis option.distinct(1) to_write.simps(1))
  have "free (bq_wlock s) \<and> ok (bq_wlock s)" using False assms(1) unfolding locked_def guards_def by blast
  then obtain l where "acquire a (bq_wlock s) = Some (True, l)" using acquire_free by blast
  with p show ?thesis by (intro disjI1 movesI [of "SLock a"]) (simp_all add: bq_defs)
qed

text \<open>A reader gets on when there is something in the pipe, or a message that nobody is writing.\<close>

lemma reader_moves:
  assumes "locked s" "flow s rest b w" "bq_pc s a = Gets \<or> bq_pc s a = Reading r"
    and "bq_pipe s \<noteq> [] \<or> (\<forall>c. to_write (bq_pc s c) = None) \<and> rest \<noteq> []"
  shows "moves s"
proof (cases "\<exists>c. have_read (bq_pc s c) \<noteq> None")
  case True
  then obtain c q where q: "bq_pc s c = Reading q" by (auto elim: have_read.elims)
  have rl: "guards (bq_rlock s) have_read (bq_pc s)" using assms(1) by (simp add: locked_def)
  have fl: "concat (map frame rest) = b @ bq_pipe s @ w" "\<forall>m \<in> set rest. packable m" "current have_read (bq_pc s) b"
    "current to_write (bq_pc s) w" "bounded b"
    using assms(2) by (simp_all add: flow_def)
  have bq: "b = q" using current_this [OF fl(3), of c q] guards_one [OF rl, of _ c] q by auto
  show ?thesis
  proof (cases "wanted q = 0")
    case True
    with q show ?thesis by (intro movesI [of "RDone c"]) (simp_all add: bq_defs)
  next
    case False
    have "bq_pipe s \<noteq> []"
    proof (cases "(\<forall>c. to_write (bq_pc s c) = None) \<and> rest \<noteq> []")
      case True
      then obtain m rest' where r: "rest = m # rest'" by (cases rest) auto
      have "w = []" using current_none [OF fl(4)] True by blast
      then have ff: "q @ bq_pipe s = frame m @ concat (map frame rest')" "packable m" "bounded q" using fl r bq by auto
      show ?thesis
      proof
        assume "bq_pipe s = []"
        with ff(1) first_frame(1) [OF ff] have "q = frame m" by auto
        with first_frame(2) [OF ff] False show False by simp
      qed
    qed (use assms(4) in blast)
    with q False show ?thesis by (intro movesI [of "RRead c 1"]) (simp_all add: bq_defs Suc_le_eq)
  qed
next
  case False
  then have p: "bq_pc s a = Gets" using assms(3) by (metis option.distinct(1) have_read.simps(1))
  have "free (bq_rlock s) \<and> ok (bq_rlock s)" using False assms(1) unfolding locked_def guards_def by blast
  then obtain l where "acquire a (bq_rlock s) = Some (True, l)" using acquire_free by blast
  with p show ?thesis by (intro movesI [of "RLocked a"]) (simp_all add: bq_defs)
qed

lemma start_flow:
  assumes "ok r" "free r" "ok w" "free w"
  shows "locked (SimpleQueue room at r w)" "\<exists>rest b w'. flow (SimpleQueue room at r w) rest b w'"
  using assms by (auto simp: locked_def guards_def sendable_def SimpleQueue_def flow_def current_def bounded_def)

lemma shared_queue:
  assumes run: "bq_run acquire release es (SimpleQueue room at r w) = Some s" "\<forall>a. SRaise a \<notin> set es" and size: "1 \<le> at" "at \<le> room"
    and locks: "ok r" "free r" "ok w" "free w"
  shows "\<exists>rest. bq_sent s = bq_got s @ rest \<and> ((\<forall>a. bq_pc s a = Idle) \<longrightarrow> bq_pipe s = concat (map frame rest)) \<and> length (bq_pipe s) \<le> room \<and>
    ((\<exists>a. writes s a) \<longrightarrow> moves s \<or> (\<exists>a. no_room s a) \<and> (\<forall>a. \<not> reads s a)) \<and>
    ((\<exists>a. reads s a) \<and> rest \<noteq> [] \<longrightarrow> moves s)"
proof -
  have "roomy (SimpleQueue room at r w)" using size by (simp add: roomy_def SimpleQueue_def)
  from safe_run [OF run(1) start_flow(1) [OF locks] this start_flow(2) [OF locks] run(2)]
  obtain rest b v where l: "locked s" and ro: "roomy s" "bq_room s = room" and f: "flow s rest b v" by (auto simp: SimpleQueue_def)
  have idle: "bq_pipe s = concat (map frame rest)" if "\<forall>a. bq_pc s a = Idle"
  proof -
    have "b = []" "v = []" using f that by (auto simp: flow_def intro: current_none)
    with f show ?thesis by (simp add: flow_def)
  qed
  have reader: "moves s" if "reads s a" "bq_pipe s \<noteq> [] \<or> (\<forall>c. to_write (bq_pc s c) = None) \<and> rest \<noteq> []" for a
    using reader_moves [OF l f _ that(2)] that(1) unfolding reads_def by blast
  have writer: "moves s \<or> (\<exists>c. no_room s c) \<and> bq_pipe s \<noteq> []" if "writes s a" for a
    using writer_moves [OF l ro(1)] that unfolding writes_def by blast
  have busy: "moves s" if "reads s a" "rest \<noteq> []" for a
  proof (cases "\<exists>c. writes s c")
    case True
    with writer reader [OF that(1)] show ?thesis by blast
  next
    case False
    then have "\<forall>c. to_write (bq_pc s c) = None" unfolding writes_def by (metis to_write.elims)
    with reader [OF that(1)] that(2) show ?thesis by blast
  qed
  have "bq_sent s = bq_got s @ rest" using f by (simp add: flow_def)
  moreover have "length (bq_pipe s) \<le> room" using ro by (auto simp: roomy_def)
  ultimately show ?thesis using idle reader writer busy by (intro exI [of _ rest]) blast
qed

end

section \<open>With the locks of the package, and without\<close>

text \<open>
  C7. Any processes and threads put into a \<open>SimpleQueue\<close> and get from it, their writes and reads cut into whatever pieces and
  interleaved in any order, over a pipe that holds at most \<open>room\<close> bytes and in which a write waits while it is full (a frame of at most \<open>at\<close> bytes until it fits as a whole).
  What has been returned is, message by message and in order, what the writers have sent; what is in the pipe when nobody is at a
  transfer is the frames of the messages still to be returned, and never more than there is room for. When somebody is sending or wants to, a transfer can go on,
  except that the writer at work finds no room and nobody is receiving or wants to; when somebody receives or wants to and a message has not been returned yet, a transfer can always go on.
\<close>

theorem simple_queue_exact:
  assumes "bq_run (sem_acquire Block) sem_release es (SimpleQueue room at (new_sem SEMAPHORE 1 1) (new_sem SEMAPHORE 1 1)) = Some s" "\<forall>a. SRaise a \<notin> set es"
    and "1 \<le> at" "at \<le> room"
  shows "\<exists>rest. bq_sent s = bq_got s @ rest \<and> ((\<forall>a. bq_pc s a = Idle) \<longrightarrow> bq_pipe s = concat (map frame rest)) \<and> length (bq_pipe s) \<le> room \<and>
    ((\<exists>a. writes s a) \<longrightarrow> (\<exists>e. goes_on e \<and> bq_step (sem_acquire Block) sem_release e s \<noteq> None) \<or> (\<exists>a. no_room s a) \<and> (\<forall>a. \<not> reads s a)) \<and>
    ((\<exists>a. reads s a) \<and> rest \<noteq> [] \<longrightarrow> (\<exists>e. goes_on e \<and> bq_step (sem_acquire Block) sem_release e s \<noteq> None))"
  using lk.shared_queue [OF assms lock_ok_new lock_ok_new] unfolding lk.moves_def .

text \<open>Two writers whose pieces would mix without the lock, and a reader, over a pipe with room for six bytes, of which at most four are written at once.\<close>

definition two_writers :: "bqevent list" where
  "two_writers = [SPut (1, 0) [7, 8], SPut (2, 0) [9], SLock (1, 0), SWrite (1, 0) 5, SGet (3, 0), RLocked (3, 0), RRead (3, 0) 3, SWrite (1, 0) 1, SDone (1, 0),
     SLock (2, 0), SWrite (2, 0) 2, RRead (3, 0) 1, RRead (3, 0) 2, RDone (3, 0)]"

theorem simple_queue_exact_witness:
  "\<exists>s. bq_run (sem_acquire Block) sem_release two_writers (SimpleQueue 6 4 (new_sem SEMAPHORE 1 1) (new_sem SEMAPHORE 1 1)) = Some s \<and>
     bq_got s = [[7, 8]] \<and> bq_sent s = bq_got s @ [[9]] \<and> (\<exists>e. goes_on e \<and> bq_step (sem_acquire Block) sem_release e s \<noteq> None)"
proof -
  let ?run = "bq_run (sem_acquire Block) sem_release two_writers (SimpleQueue 6 4 (new_sem SEMAPHORE 1 1) (new_sem SEMAPHORE 1 1))"
  have "case ?run of None \<Rightarrow> False | Some s \<Rightarrow> bq_got s = [[7, 8]] \<and> bq_sent s = [[7, 8], [9]] \<and> bq_pc s (2, 0) = Writing [0, 1, 9] \<and>
      length (bq_pipe s) = 2 \<and> bq_room s = 6 \<and> \<not> in_one_piece s"
    by code_simp
  then obtain s where s: "?run = Some s" "bq_got s = [[7, 8]]" "bq_sent s = [[7, 8], [9]]" "bq_pc s (2, 0) = Writing [0, 1, 9]"
    "length (bq_pipe s) = 2" "bq_room s = 6" "\<not> in_one_piece s"
    by (auto split: option.splits)
  have "\<forall>a. SRaise a \<notin> set two_writers" "(1 :: nat) \<le> 4" "(4 :: nat) \<le> 6" by (simp_all add: two_writers_def)
  from simple_queue_exact [OF s(1) this] obtain rest where rest: "bq_sent s = bq_got s @ rest"
    "(\<exists>a. writes s a) \<longrightarrow> (\<exists>e. goes_on e \<and> bq_step (sem_acquire Block) sem_release e s \<noteq> None) \<or> (\<exists>a. no_room s a) \<and> (\<forall>a. \<not> reads s a)" by blast
  have w: "writes s (2, 0)" using s(4) unfolding writes_def by blast
  have "\<not> no_room s a" for a using s by (auto simp: no_room_def)
  with rest w s show ?thesis by auto
qed

text \<open>
  The wait for room is real: with nobody to receive, a writer stays in the middle of its message, and nothing else can go on.
\<close>

lemma full_pipe_waits:
  "case bq_run (sem_acquire Block) sem_release [SPut (1, 0) [7, 8, 9], SLock (1, 0), SWrite (1, 0) 6] (SimpleQueue 6 4 (new_sem SEMAPHORE 1 1) (new_sem SEMAPHORE 1 1)) of
    None \<Rightarrow> False | Some s \<Rightarrow> bq_pc s (1, 0) = Writing [9] \<and> send_some 1 (1, 0) s = None \<and> send_unlock sem_release (1, 0) s = None"
  by code_simp

text \<open>
  \<open>_SimpleQueue\<close> has no locks, so two writers mix their frames, and the reader gets a message that nobody has sent. An exception in the middle of a write does the
  same under the locks: the next frame is read as the rest of the broken one.
\<close>

lemma no_locks_mix:
  "case bq_run (\<lambda>a l. Some (True, l)) (\<lambda>a. ret ())
      [SPut (1, 0) [7], SPut (2, 0) [9], SLock (1, 0), SWrite (1, 0) 4, SLock (2, 0), SWrite (2, 0) 5, SGet (3, 0), RLocked (3, 0), RRead (3, 0) 4,
       RRead (3, 0) 1, RDone (3, 0)] (SimpleQueue 100 2 () ()) of
    None \<Rightarrow> False | Some s \<Rightarrow> bq_sent s = [[7], [9]] \<and> bq_got s = [[0]]"
  by code_simp

lemma cut_off_write_breaks:
  "case bq_run (sem_acquire Block) sem_release
      [SPut (1, 0) [7], SPut (2, 0) [9], SLock (1, 0), SWrite (1, 0) 4, SRaise (1, 0), SLock (2, 0), SWrite (2, 0) 5, SGet (3, 0), RLocked (3, 0), RRead (3, 0) 4,
       RRead (3, 0) 1, RDone (3, 0)] (SimpleQueue 100 2 (new_sem SEMAPHORE 1 1) (new_sem SEMAPHORE 1 1)) of
    None \<Rightarrow> False | Some s \<Rightarrow> bq_sent s = [[7], [9]] \<and> bq_got s = [[0]]"
  by code_simp

end
