(* ===== verification/Managers.thy ===== *)
theory Managers
  imports Prelude "HOL-Library.AList"
begin

text \<open>
  \<open>billiard/managers.py\<close>: the server process that hosts shared objects (\<open>Server\<close>), the proxies
  that refer to them (\<open>BaseProxy\<close> and the reference counting between the two), the methods the classes of
  proxies send, and the life cycle of \<open>BaseManager\<close>. The shared objects, their methods and what is registered for
  them are the user's: \<open>objs\<close> and the registry are parameters, over values \<open>'v\<close> (references) and a store \<open>'h\<close>.
\<close>

section \<open>The server's state\<close>

record ('v, 'h) objs =
  ob_id :: "'v \<Rightarrow> nat"                                     \<comment> \<open>\<open>id\<close>\<close>
  ob_methods :: "'v \<Rightarrow> string list"                        \<comment> \<open>\<open>all_methods\<close>: the callable names of \<open>dir\<close>\<close>
  ob_has :: "'v \<Rightarrow> string \<Rightarrow> bool"
  ob_call :: "'v \<Rightarrow> string \<Rightarrow> 'v list \<Rightarrow> ('h, 'v) act"
  ob_text :: "string \<Rightarrow> 'v \<Rightarrow> ('h, 'v) act"              \<comment> \<open>\<open>str\<close> and \<open>repr\<close>\<close>

record ('v, 'h) reg =
  rg_callable :: "('v list \<Rightarrow> ('h, 'v) act) option"
  rg_exposed :: "string list option"
  rg_typeids :: "(string \<times> string) list option"

definition public_methods :: "('v, 'h) objs \<Rightarrow> 'v \<Rightarrow> string list" where
  "public_methods ob v = filter (\<lambda>n. hd n \<noteq> CHR ''_'') (ob_methods ob v)"

text \<open>The entry \<open>'0'\<close>, here 0, is a pair; an object's entry is a triple.\<close>

datatype 'v entry = Zero | Entry 'v "string list" "(string \<times> string) list option"

record ('v, 'h) server =
  sv_objs :: "(nat \<times> 'v entry) list"
  sv_refs :: "(nat \<times> nat) list"
  sv_store :: 'h
  sv_stop :: bool

definition Server :: "'h \<Rightarrow> ('v, 'h) server" where
  "Server h = \<lparr>sv_objs = [(0, Zero)], sv_refs = [], sv_store = h, sv_stop = False\<rparr>"

type_synonym ('v, 'h) registry = "string \<Rightarrow> ('v, 'h) reg option"

text \<open>An operation on the store as an operation of the server.\<close>

definition on_store :: "('h, 'a) act \<Rightarrow> (('v, 'h) server, 'a) act" where
  "on_store m s = (case m (sv_store s) of (r, h) \<Rightarrow> (r, s\<lparr>sv_store := h\<rparr>))"

section \<open>The functions of the server\<close>

definition server_incref :: "nat \<Rightarrow> (('v, 'h) server, unit) act" where
  "server_incref ident =
     bindA (fetchA (\<lambda>s. map_of (sv_refs s) ident) KeyError) (\<lambda>n.
     modifyA (\<lambda>s. s\<lparr>sv_refs := AList.update ident (n + 1) (sv_refs s)\<rparr>))"

definition server_decref :: "nat \<Rightarrow> (('v, 'h) server, unit) act" where
  "server_decref ident =
     bindA (fetchA (\<lambda>s. map_of (sv_refs s) ident) KeyError) (\<lambda>n.
     bindA (assertA (\<lambda>_. n \<ge> 1) AssertionError) (\<lambda>_.
     bindA (modifyA (\<lambda>s. s\<lparr>sv_refs := AList.update ident (n - 1) (sv_refs s)\<rparr>)) (\<lambda>_.
     whenA (n - 1 = 0)
       (bindA (assertA (\<lambda>s. map_of (sv_objs s) ident \<noteq> None) KeyError) (\<lambda>_.
        bindA (modifyA (\<lambda>s. s\<lparr>sv_objs := AList.delete ident (sv_objs s)\<rparr>)) (\<lambda>_.
        modifyA (\<lambda>s. s\<lparr>sv_refs := AList.delete ident (sv_refs s)\<rparr>)))))))"

definition server_create :: "('v, 'h) objs \<Rightarrow> ('v, 'h) registry \<Rightarrow> string \<Rightarrow> 'v list \<Rightarrow> (('v, 'h) server, nat \<times> string list) act" where
  "server_create ob registry typeid args =
     (case registry typeid of
        None \<Rightarrow> raise KeyError
      | Some rg \<Rightarrow>
          bindA (case rg_callable rg of
              None \<Rightarrow> (case args of [obj] \<Rightarrow> ret obj | _ \<Rightarrow> raise AssertionError)
            | Some f \<Rightarrow> on_store (f args)) (\<lambda>obj.
          let exposed = (case rg_exposed rg of None \<Rightarrow> public_methods ob obj | Some xs \<Rightarrow> xs) @
                (case rg_typeids rg of None \<Rightarrow> [] | Some ms \<Rightarrow> map fst ms);
              ident = ob_id ob obj
          in
          bindA (modifyA (\<lambda>s. s\<lparr>sv_objs := AList.update ident (Entry obj exposed (rg_typeids rg)) (sv_objs s)\<rparr>)) (\<lambda>_.
          bindA (modifyA (\<lambda>s. if map_of (sv_refs s) ident = None then s\<lparr>sv_refs := AList.update ident 0 (sv_refs s)\<rparr> else s)) (\<lambda>_.
          bindA (server_incref ident) (\<lambda>_.
          ret (ident, exposed))))))"

definition number_of_objects :: "('v, 'h) server \<Rightarrow> nat" where
  "number_of_objects s = length (sv_objs s) - 1"

definition get_methods :: "nat \<Rightarrow> (('v, 'h) server, string list) act" where
  "get_methods ident =
     bindA (fetchA (\<lambda>s. map_of (sv_objs s) ident) KeyError) (\<lambda>e.
     ret (case e of Zero \<Rightarrow> [] | Entry _ exposed _ \<Rightarrow> exposed))"

text \<open>\<open>debug_info\<close>: the identities in order, with their reference counts.\<close>

fun debug_each :: "nat list \<Rightarrow> (('v, 'h) server, (nat \<times> nat) list) act" where
  "debug_each [] = ret []"
| "debug_each (k # ks) =
     (if k = 0 then debug_each ks
      else bindA (fetchA (\<lambda>s. map_of (sv_refs s) k) KeyError) (\<lambda>n.
           bindA (debug_each ks) (\<lambda>r. ret ((k, n) # r))))"

definition debug_info :: "(('v, 'h) server, (nat \<times> nat) list) act" where
  "debug_info = readA (\<lambda>s. debug_each (sort (map fst (sv_objs s))))"

section \<open>Requests\<close>

text \<open>Messages of the server. A \<open>#TRACEBACK\<close> has the text of the exception, here the exception.\<close>

datatype 'v res = ResNone | ResVal 'v | ResCreated nat "string list" | ResNames "string list" | ResCount nat | ResInfo "(nat \<times> nat) list"

datatype 'v msg = Return "'v res" | Error exn | Traceback exn | Proxy "string list" string nat | Unserializable

text \<open>What is asked of the server over a new connection: a public function, or a name that is not one.\<close>

datatype 'v sreq =
    Create string "'v list" | Incref nat | Decref nat | GetMethods nat | NumberOfObjects | DebugInfo
  | Dummy | Shutdown | NotPublic

fun server_call :: "('v, 'h) objs \<Rightarrow> ('v, 'h) registry \<Rightarrow> 'v sreq \<Rightarrow> (('v, 'h) server, 'v res) act" where
  "server_call ob registry (Create typeid args) = bindA (server_create ob registry typeid args) (\<lambda>(i, xs). ret (ResCreated i xs))"
| "server_call ob registry (Incref i) = bindA (server_incref i) (\<lambda>_. ret ResNone)"
| "server_call ob registry (Decref i) = bindA (server_decref i) (\<lambda>_. ret ResNone)"
| "server_call ob registry (GetMethods i) = bindA (get_methods i) (\<lambda>xs. ret (ResNames xs))"
| "server_call ob registry NumberOfObjects = getsA (\<lambda>s. ResCount (number_of_objects s))"
| "server_call ob registry DebugInfo = bindA debug_info (\<lambda>xs. ret (ResInfo xs))"
| "server_call ob registry Dummy = ret ResNone"
| "server_call ob registry Shutdown = bindA (modifyA (\<lambda>s. s\<lparr>sv_stop := True\<rparr>)) (\<lambda>_. ret ResNone)"
| "server_call ob registry NotPublic = raise AssertionError"

text \<open>
  \<open>handle_request\<close>: \<open>auth\<close> is how the two challenges end, \<open>request\<close> what \<open>recv\<close> gives, \<open>unsendable m\<close> whether
  sending \<open>m\<close> raises. The result is what has been sent. \<open>shutdown\<close> answers once itself.
\<close>

definition handle_request ::
  "('v, 'h) objs \<Rightarrow> ('v, 'h) registry \<Rightarrow> ('v msg \<Rightarrow> bool) \<Rightarrow> exn option \<Rightarrow> exn + 'v sreq \<Rightarrow> (('v, 'h) server, 'v msg list) act" where
  "handle_request ob registry unsendable auth request s =
     (let (m, s') = (case (auth, request) of
            (Some e, _) \<Rightarrow> (if is_Exception e then Inr (Traceback e) else Inl e, s)
          | (None, Inl e) \<Rightarrow> (if is_Exception e then Inr (Traceback e) else Inl e, s)
          | (None, Inr rq) \<Rightarrow>
              (case server_call ob registry rq s of
                 (Inl e, s') \<Rightarrow> (if is_Exception e then Inr (Traceback e) else Inl e, s')
               | (Inr r, s') \<Rightarrow> (Inr (Return r), s')));
          early = (if auth = None \<and> request = Inr Shutdown \<and> \<not> unsendable (Return ResNone) then [Return ResNone] else [])
      in case m of
           Inl e \<Rightarrow> (Inl e, s')
         | Inr msg \<Rightarrow>
             if \<not> unsendable msg then (Inr (early @ [msg]), s')
             else if \<not> unsendable (Traceback TypeError) then (Inr (early @ [Traceback TypeError]), s')
             else (Inr early, s'))"

text \<open>One request of \<open>serve_client\<close>, up to the message: \<open>Inl\<close> is an exception that leaves the thread.\<close>

datatype 'v recvd = RecvErr exn | Garbage | Req nat string "'v list"

definition fallback :: "('v, 'h) objs \<Rightarrow> string \<Rightarrow> 'v \<Rightarrow> 'v list \<Rightarrow> (('v, 'h) server, 'v res) act" where
  "fallback ob meth obj args =
     (if meth \<notin> {''__str__'', ''__repr__'', ''#GETVALUE''} then raise KeyError
      else if args \<noteq> [] then raise TypeError
      else if meth = ''#GETVALUE'' then ret (ResVal obj)
      else bindA (on_store (ob_text ob meth obj)) (\<lambda>v. ret (ResVal v)))"

definition call_method ::
  "('v, 'h) objs \<Rightarrow> ('v, 'h) registry \<Rightarrow> 'v \<Rightarrow> string list \<Rightarrow> (string \<times> string) list option \<Rightarrow> string \<Rightarrow> 'v list \<Rightarrow>
    (('v, 'h) server, 'v msg) act" where
  "call_method ob registry obj exposed typeids meth args =
     bindA (assertA (\<lambda>_. meth \<in> set exposed) AttributeError) (\<lambda>_.
     bindA (assertA (\<lambda>_. ob_has ob obj meth) AttributeError) (\<lambda>_.
     bindA (catchA (bindA (on_store (ob_call ob obj meth args)) (\<lambda>v. ret (Inr v)))
              (\<lambda>e. if is_Exception e then ret (Inl e) else raise e)) (\<lambda>r.
     case r of
       Inl e \<Rightarrow> ret (Error e)
     | Inr v \<Rightarrow>
         (case Option.bind typeids (\<lambda>ms. map_of ms meth) of
            None \<Rightarrow> ret (Return (ResVal v))
          | Some typeid \<Rightarrow>
              if typeid = [] then ret (Return (ResVal v))
              else bindA (server_create ob registry typeid [v]) (\<lambda>(rident, rexposed). ret (Proxy rexposed typeid rident))))))"

definition serve_request ::
  "('v, 'h) objs \<Rightarrow> ('v, 'h) registry \<Rightarrow> 'v recvd \<Rightarrow> (('v, 'h) server, 'v msg) act" where
  "serve_request ob registry rq =
     (let other = (\<lambda>e. if e = EOFError then raise (SystemExit 0) else if is_Exception e then ret (Traceback e) else raise e) in
      case rq of
        RecvErr e \<Rightarrow> if e = AttributeError then ret (Traceback e) else other e
      | Garbage \<Rightarrow> other ValueError
      | Req ident meth args \<Rightarrow>
          readA (\<lambda>s. case map_of (sv_objs s) ident of
              None \<Rightarrow> other KeyError
            | Some Zero \<Rightarrow> other ValueError
            | Some (Entry obj exposed typeids) \<Rightarrow>
                catchA (call_method ob registry obj exposed typeids meth args) (\<lambda>e.
                  if e = AttributeError then
                    catchA (bindA (fallback ob meth obj args) (\<lambda>r. ret (Return r)))
                      (\<lambda>x. if is_Exception x then ret (Traceback x) else raise x)
                  else other e)))"

text \<open>The loop; the script is what \<open>recv\<close> gives, and a client that sends no more closes its end.\<close>

fun serve_client ::
  "('v, 'h) objs \<Rightarrow> ('v, 'h) registry \<Rightarrow> ('v msg \<Rightarrow> bool) \<Rightarrow> 'v recvd list \<Rightarrow> ('v, 'h) server \<Rightarrow> 'v msg list \<times> exn option \<times> ('v, 'h) server" where
  "serve_client ob registry unsendable [] s = ([], if sv_stop s then None else Some (SystemExit 0), s)"
| "serve_client ob registry unsendable (rq # rqs) s =
     (if sv_stop s then ([], None, s)
      else (case serve_request ob registry rq s of
          (Inl e, s') \<Rightarrow> ([], Some e, s')
        | (Inr m, s') \<Rightarrow>
            if unsendable m \<and> unsendable Unserializable then ([], Some (SystemExit 1), s')
            else (case serve_client ob registry unsendable rqs s' of
                (ms, r) \<Rightarrow> ((if unsendable m then Unserializable else m) # ms, r))))"

section \<open>The client's side of a message\<close>

definition convert_to_error :: "'v msg \<Rightarrow> exn" where
  "convert_to_error m = (case m of Error e \<Rightarrow> e | Traceback _ \<Rightarrow> RemoteError | Unserializable \<Rightarrow> RemoteError | _ \<Rightarrow> ValueError)"

definition dispatch :: "'v msg \<Rightarrow> exn + 'v res" where
  "dispatch m = (case m of Return r \<Rightarrow> Inr r | _ \<Rightarrow> Inl (convert_to_error m))"

text \<open>\<open>_callmethod\<close> on the answer: \<open>has_manager\<close> is false for a proxy that has been unpickled or has gone through a fork.\<close>

datatype 'v called = Value "'v res" | NewProxy "string list" string nat | Fails exn

definition callmethod_result :: "bool \<Rightarrow> 'v msg \<Rightarrow> 'v called" where
  "callmethod_result has_manager m =
     (case m of
        Return r \<Rightarrow> Value r
      | Proxy exposed typeid ident \<Rightarrow> if has_manager then NewProxy exposed typeid ident else Fails AttributeError
      | _ \<Rightarrow> Fails (convert_to_error m))"

section \<open>Reference counting\<close>

text \<open>
  What the clients of a server do, together, with the references the server has counted for them: \<open>live\<close> are
  those of the proxies that exist in any process; \<open>tokens\<close> those that a \<open>create\<close> (or an answer \<open>#PROXY\<close>) has
  taken and whose client has not made its proxy yet; \<open>made\<close> those of the tokens whose proxy is made and that are now to be
  given back; \<open>lost\<close> those that nobody will give back.

  \<^item> \<open>YCreate\<close>: \<open>_create\<close>, called by the method \<open>temp\<close> that \<open>register\<close> makes;
  \<^item> \<open>YProxy\<close>: the proxy is made from the token (\<open>BaseProxy.__init__\<close>, \<open>_incref\<close>);
  \<^item> \<open>YRelease\<close>: the \<open>decref\<close> after it, which comes only when the proxy has been made;
  \<^item> \<open>YCopy\<close>: a proxy is unpickled (\<open>RebuildProxy\<close>) or goes through a fork (\<open>_after_fork\<close>), at any time, also when the
    proxy it is a copy of has gone;
  \<^item> \<open>YDrop\<close>: the finalizer of a proxy (\<open>_decref\<close>);
  \<^item> \<open>YCall\<close>: a method is called through a proxy, with its manager or without (\<open>_callmethod\<close>); also through one that has no reference.

  Every request goes over a connection of its own, which can fail before the server has got the request or
  afterwards, when the answer is to come back (\<open>fate\<close>): in \<open>temp\<close> and in \<open>_callmethod\<close> the exception leaves the
  method, and the \<open>decref\<close> is not reached any more; the finalizer swallows it. A finalizer that finds its manager shut down
  sends nothing (\<open>NotSent\<close>).
\<close>

datatype fate = Arrives | NotSent | AnswerLost

datatype 'v yact = YCreate string "'v list" fate | YProxy nat fate | YRelease nat fate | YCopy nat fate | YDrop nat fate
  | YCall nat string "'v list" bool fate

record ('v, 'h) clients =
  y_server :: "('v, 'h) server"
  y_live :: "nat multiset"
  y_tokens :: "nat multiset"
  y_made :: "nat multiset"
  y_lost :: "nat multiset"
  y_errors :: "('v yact \<times> exn) list"         \<comment> \<open>what \<open>incref\<close> and \<open>decref\<close> have raised, and for whom\<close>

definition count_call ::
  "('v, 'h) objs \<Rightarrow> ('v, 'h) registry \<Rightarrow> 'v sreq \<Rightarrow> 'v yact \<Rightarrow> (('v, 'h) clients \<Rightarrow> ('v, 'h) clients) \<Rightarrow> ('v, 'h) clients \<Rightarrow> ('v, 'h) clients" where
  "count_call ob registry rq a f y =
     (case server_call ob registry rq (y_server y) of
        (Inl e, s) \<Rightarrow> y\<lparr>y_server := s, y_errors := (a, e) # y_errors y\<rparr>
      | (Inr _, s) \<Rightarrow> f (y\<lparr>y_server := s\<rparr>))"

fun clients_step :: "('v, 'h) objs \<Rightarrow> ('v, 'h) registry \<Rightarrow> 'v yact \<Rightarrow> ('v, 'h) clients \<Rightarrow> ('v, 'h) clients" where
  "clients_step ob registry (YCreate typeid args f) y =
     (if f = NotSent then y
      else (case server_call ob registry (Create typeid args) (y_server y) of
          (Inr (ResCreated i _), s) \<Rightarrow>
            if f = Arrives then y\<lparr>y_server := s, y_tokens := add_mset i (y_tokens y)\<rparr>
            else y\<lparr>y_server := s, y_lost := add_mset i (y_lost y)\<rparr>
        | (_, s) \<Rightarrow> y\<lparr>y_server := s\<rparr>))"
| "clients_step ob registry (YProxy i f) y =
     (if i \<notin># y_tokens y then y
      else let z = y\<lparr>y_tokens := y_tokens y - {#i#}\<rparr> in
        case f of
          NotSent \<Rightarrow> z\<lparr>y_lost := add_mset i (y_lost z)\<rparr>
        | AnswerLost \<Rightarrow> count_call ob registry (Incref i) (YProxy i f) (\<lambda>z. z\<lparr>y_lost := add_mset i (y_lost z)\<rparr>) (z\<lparr>y_lost := add_mset i (y_lost z)\<rparr>)
        | Arrives \<Rightarrow> count_call ob registry (Incref i) (YProxy i f) (\<lambda>z. z\<lparr>y_live := add_mset i (y_live z)\<rparr>) (z\<lparr>y_made := add_mset i (y_made z)\<rparr>))"
| "clients_step ob registry (YRelease i f) y =
     (if i \<notin># y_made y then y
      else let z = y\<lparr>y_made := y_made y - {#i#}\<rparr> in
        if f = NotSent then z\<lparr>y_lost := add_mset i (y_lost z)\<rparr>
        else count_call ob registry (Decref i) (YRelease i f) (\<lambda>z. z) z)"
| "clients_step ob registry (YCopy i f) y =
     (case f of
        NotSent \<Rightarrow> y
      | AnswerLost \<Rightarrow> count_call ob registry (Incref i) (YCopy i f) (\<lambda>y. y\<lparr>y_lost := add_mset i (y_lost y)\<rparr>) y
      | Arrives \<Rightarrow> count_call ob registry (Incref i) (YCopy i f) (\<lambda>y. y\<lparr>y_live := add_mset i (y_live y)\<rparr>) y)"
| "clients_step ob registry (YDrop i f) y =
     (if i \<notin># y_live y then y
      else let z = y\<lparr>y_live := y_live y - {#i#}\<rparr> in
        if f = NotSent then z\<lparr>y_lost := add_mset i (y_lost z)\<rparr>
        else count_call ob registry (Decref i) (YDrop i f) (\<lambda>z. z) z)"
| "clients_step ob registry (YCall i meth args has_manager f) y =
     (if f = NotSent then y
      else (case serve_request ob registry (Req i meth args) (y_server y) of
           (Inr (Proxy _ _ r), s) \<Rightarrow>
             if f = Arrives \<and> has_manager then y\<lparr>y_server := s, y_tokens := add_mset r (y_tokens y)\<rparr>
             else y\<lparr>y_server := s, y_lost := add_mset r (y_lost y)\<rparr>
         | (_, s) \<Rightarrow> y\<lparr>y_server := s\<rparr>))"

definition new_clients :: "'h \<Rightarrow> ('v, 'h) clients" where
  "new_clients h = \<lparr>y_server = Server h, y_live = {#}, y_tokens = {#}, y_made = {#}, y_lost = {#}, y_errors = []\<rparr>"

definition clients_run :: "('v, 'h) objs \<Rightarrow> ('v, 'h) registry \<Rightarrow> 'v yact list \<Rightarrow> 'h \<Rightarrow> ('v, 'h) clients" where
  "clients_run ob registry acts h = fold (clients_step ob registry) acts (new_clients h)"

definition hosted :: "('v, 'h) server \<Rightarrow> nat \<Rightarrow> 'v entry option" where
  "hosted s = map_of (sv_objs s)"

lemma hosted_update:
  "hosted (s\<lparr>sv_objs := AList.update i e (sv_objs t)\<rparr>) = (hosted t)(i \<mapsto> e)"
  "hosted (s\<lparr>sv_objs := AList.delete i (sv_objs t)\<rparr>) = (hosted t)(i := None)"
  "hosted (s\<lparr>sv_refs := rs\<rparr>) = hosted s" "hosted (s\<lparr>sv_store := h\<rparr>) = hosted s"
  by (simp_all add: hosted_def update_conv' delete_conv')

text \<open>All references there are, and the one way in which counting fails: a copy that comes when none is left.\<close>

definition held :: "('v, 'h) clients \<Rightarrow> nat multiset" where
  "held y = y_live y + y_tokens y + y_made y + y_lost y"

definition late_copy :: "('v, 'h) clients \<Rightarrow> 'v yact \<Rightarrow> bool" where
  "late_copy y a = (case a of YCopy i f \<Rightarrow> f \<noteq> NotSent \<and> i \<notin># held y | _ \<Rightarrow> False)"

text \<open>The server counts \<open>c\<close> references to every object, and hosts those that have one.\<close>

definition hosts :: "('v, 'h) objs \<Rightarrow> (nat \<Rightarrow> nat) \<Rightarrow> ('v, 'h) server \<Rightarrow> bool" where
  "hosts ob c s \<longleftrightarrow>
     (\<forall>i. map_of (sv_refs s) i = (if c i = 0 then None else Some (c i))) \<and>
     (\<forall>i. i \<noteq> 0 \<longrightarrow> (hosted s i = None \<longleftrightarrow> c i = 0)) \<and>
     c 0 = 0 \<and> hosted s 0 = Some Zero \<and>
     (\<forall>i e. i \<noteq> 0 \<longrightarrow> hosted s i = Some e \<longrightarrow> (\<exists>v xs ts. e = Entry v xs ts \<and> ob_id ob v = i)) \<and>
     distinct (map fst (sv_objs s))"

lemma hostsD:
  assumes "hosts ob c s"
  shows "map_of (sv_refs s) i = (if c i = 0 then None else Some (c i))"
    "i \<noteq> 0 \<Longrightarrow> hosted s i = None \<longleftrightarrow> c i = 0" "c 0 = 0" "hosted s 0 = Some Zero" "distinct (map fst (sv_objs s))"
    "i \<noteq> 0 \<Longrightarrow> hosted s i = Some e \<Longrightarrow> \<exists>v xs ts. e = Entry v xs ts \<and> ob_id ob v = i"
  using assms unfolding hosts_def by simp_all

lemma hosts_store: "hosts ob c (s\<lparr>sv_store := h\<rparr>) = hosts ob c s"
  by (simp add: hosts_def hosted_update)

lemma on_store_eq: "on_store m s = (fst (m (sv_store s)), s\<lparr>sv_store := snd (m (sv_store s))\<rparr>)"
  by (simp add: on_store_def split: prod.split)

lemma incref_hosts:
  assumes "hosts ob c s" "c i \<noteq> 0"
  shows "\<exists>s'. server_incref i s = (Inr (), s') \<and> hosts ob (c(i := c i + 1)) s' \<and> sv_objs s' = sv_objs s"
proof -
  have i: "i \<noteq> 0" using assms by (cases "i = 0") (auto simp: hosts_def)
  have "map_of (sv_refs s) i = Some (c i)" using assms by (simp add: hosts_def)
  then have "server_incref i s = (Inr (), s\<lparr>sv_refs := AList.update i (c i + 1) (sv_refs s)\<rparr>)"
    by (simp add: server_incref_def act_defs)
  moreover have "hosts ob (c(i := c i + 1)) (s\<lparr>sv_refs := AList.update i (c i + 1) (sv_refs s)\<rparr>)"
    using assms i by (auto simp: hosts_def update_conv hosted_update)
  ultimately show ?thesis by auto
qed

lemma decref_hosts:
  assumes "hosts ob c s" "c i \<noteq> 0"
  shows "\<exists>s'. server_decref i s = (Inr (), s') \<and> hosts ob (c(i := c i - 1)) s'"
proof -
  have r: "map_of (sv_refs s) i = Some (c i)" and i: "i \<noteq> 0"
    using assms by (simp add: hosts_def, cases "i = 0") (auto simp: hosts_def)
  then have "hosted s i \<noteq> None" using assms by (simp add: hosts_def)
  then have o1: "map_of (sv_objs s) i \<noteq> None" by (simp add: hosted_def)
  show ?thesis
  proof (cases "c i = 1")
    case True
    let ?s = "s\<lparr>sv_refs := AList.delete i (AList.update i 0 (sv_refs s)), sv_objs := AList.delete i (sv_objs s)\<rparr>"
    have "server_decref i s = (Inr (), ?s)" using r o1 True by (simp add: server_decref_def act_defs)
    moreover have "hosts ob (c(i := c i - 1)) ?s"
      using assms True i by (auto simp: hosts_def delete_conv' update_conv distinct_delete hosted_update)
    ultimately show ?thesis by blast
  next
    case False
    have "server_decref i s = (Inr (), s\<lparr>sv_refs := AList.update i (c i - 1) (sv_refs s)\<rparr>)"
      using r False assms(2) by (simp add: server_decref_def act_defs)
    moreover have "hosts ob (c(i := c i - 1)) (s\<lparr>sv_refs := AList.update i (c i - 1) (sv_refs s)\<rparr>)"
      using assms False i by (auto simp: hosts_def update_conv hosted_update)
    ultimately show ?thesis by blast
  qed
qed

lemma create_hosts:
  assumes h: "hosts ob c s" and id: "\<And>v. ob_id ob v \<noteq> 0" and run: "server_create ob registry typeid args s = (r, s')"
  shows "case r of Inl _ \<Rightarrow> hosts ob c s' | Inr (i, xs) \<Rightarrow> hosts ob (c(i := c i + 1)) s'"
proof (cases "registry typeid")
  case None
  then show ?thesis using run h by (auto simp: server_create_def act_defs)
next
  case (Some rg)
  define made where "made = (case rg_callable rg of
              None \<Rightarrow> (case args of [obj] \<Rightarrow> ret obj | _ \<Rightarrow> raise AssertionError)
            | Some f \<Rightarrow> on_store (f args)) s"
  have made: "\<exists>st. snd made = s\<lparr>sv_store := st\<rparr>"
  proof (cases "rg_callable rg")
    case None
    then have "snd made = s" by (auto simp: made_def act_defs split: list.split)
    then show ?thesis by (metis server.surjective server.update_convs(3))
  qed (auto simp: made_def on_store_eq)
  then obtain st where st: "snd made = s\<lparr>sv_store := st\<rparr>" by blast
  show ?thesis
  proof (cases "fst made")
    case (Inl e)
    then have "r = Inl e" "s' = snd made" using run Some by (auto simp: server_create_def bindA_def made_def split: prod.splits)
    then show ?thesis using h st by (simp add: hosts_store)
  next
    case (Inr v)
    define i xs where "i = ob_id ob v" and "xs = (case rg_exposed rg of None \<Rightarrow> public_methods ob v | Some xs \<Rightarrow> xs) @
        (case rg_typeids rg of None \<Rightarrow> [] | Some ms \<Rightarrow> map fst ms)"
    have i: "i \<noteq> 0" by (simp add: i_def id)
    have m: "made = (Inr v, s\<lparr>sv_store := st\<rparr>)" using Inr st by (metis prod.collapse)
    have refs: "map_of (sv_refs s) j = (if c j = 0 then None else Some (c j))" for j using h by (simp add: hosts_def)
    let ?s = "s\<lparr>sv_store := st, sv_objs := AList.update i (Entry v xs (rg_typeids rg)) (sv_objs s),
        sv_refs := AList.update i (c i + 1) (if c i = 0 then AList.update i 0 (sv_refs s) else sv_refs s)\<rparr>"
    have "server_create ob registry typeid args s = (Inr (i, xs), ?s)"
      using m refs by (simp add: server_create_def Some made_def server_incref_def act_defs i_def xs_def Let_def update_conv)
    moreover have "hosts ob (c(i := c i + 1)) ?s"
      using h i by (auto simp: hosts_def update_conv distinct_update i_def hosted_update)
    ultimately show ?thesis using run by simp
  qed
qed

lemma call_method_hosts:
  assumes h: "hosts ob c s" and id: "\<And>v. ob_id ob v \<noteq> 0"
    and run: "call_method ob registry obj exposed typeids meth args s = (r, s')"
  shows "case r of Inr (Proxy _ _ i) \<Rightarrow> hosts ob (c(i := c i + 1)) s' | _ \<Rightarrow> hosts ob c s'"
proof -
  have stored: "hosts ob c (s\<lparr>sv_store := st\<rparr>)" for st using h by (simp add: hosts_store)
  show ?thesis
  proof (cases "meth \<in> set exposed \<and> ob_has ob obj meth")
    case False
    then show ?thesis using run h by (cases "meth \<in> set exposed") (auto simp: call_method_def act_defs)
  next
    case True
    obtain q st where q: "ob_call ob obj meth args (sv_store s) = (q, st)" by (cases "ob_call ob obj meth args (sv_store s)")
    show ?thesis
    proof (cases q)
      case (Inl e)
      then show ?thesis using run True q stored [of st] by (auto simp: call_method_def act_defs on_store_eq split: if_splits)
    next
      case (Inr v)
      show ?thesis
      proof (cases "Option.bind typeids (\<lambda>ms. map_of ms meth)")
        case None
        then show ?thesis using run True q Inr stored [of st] by (auto simp: call_method_def act_defs on_store_eq)
      next
        case (Some typeid)
        show ?thesis
        proof (cases "typeid = []")
          case True
          then show ?thesis using run \<open>meth \<in> set exposed \<and> ob_has ob obj meth\<close> q Inr Some stored [of st]
            by (auto simp: call_method_def act_defs on_store_eq)
        next
          case False
          obtain p s2 where p: "server_create ob registry typeid [v] (s\<lparr>sv_store := st\<rparr>) = (p, s2)" by fastforce
          from create_hosts [OF stored id p] show ?thesis
            using run True q Inr Some False p by (auto simp: call_method_def act_defs on_store_eq split: sum.splits)
        qed
      qed
    qed
  qed
qed

lemma fallback_hosts:
  assumes "hosts ob c s" "fallback ob meth obj args s = (r, s')"
  shows "hosts ob c s'"
  using assms by (auto simp: fallback_def act_defs on_store_eq hosts_store split: sum.splits if_splits)

lemma serve_request_hosts:
  assumes h: "hosts ob c s" and id: "\<And>v. ob_id ob v \<noteq> 0" and run: "serve_request ob registry rq s = (r, s')"
  shows "case r of Inr (Proxy _ _ i) \<Rightarrow> hosts ob (c(i := c i + 1)) s' | _ \<Rightarrow> hosts ob c s'"
proof (cases rq)
  case (RecvErr e)
  then show ?thesis using run h by (auto simp: serve_request_def act_defs Let_def split: if_splits)
next
  case Garbage
  then show ?thesis using run h by (auto simp: serve_request_def act_defs Let_def)
next
  case (Req ident meth args)
  show ?thesis
  proof (cases "map_of (sv_objs s) ident")
    case None
    then show ?thesis using run h Req by (auto simp: serve_request_def act_defs Let_def)
  next
    case (Some e)
    show ?thesis
    proof (cases e)
      case Zero
      then show ?thesis using run h Req Some by (auto simp: serve_request_def act_defs Let_def)
    next
      case (Entry obj exposed typeids)
      obtain q s1 where q: "call_method ob registry obj exposed typeids meth args s = (q, s1)" by fastforce
      note h1 = call_method_hosts [OF h id q]
      obtain f s2 where f: "fallback ob meth obj args s1 = (f, s2)" by fastforce
      show ?thesis
      proof (cases q)
        case (Inr m)
        then show ?thesis using run h1 Req Some Entry q by (auto simp: serve_request_def act_defs Let_def)
      next
        case (Inl x)
        then have "hosts ob c s1" using h1 by simp
        moreover from fallback_hosts [OF this f] have "hosts ob c s2" .
        ultimately show ?thesis using run Req Some Entry q Inl f
          by (cases f) (auto simp: serve_request_def act_defs Let_def split: if_splits)
      qed
    qed
  qed
qed

definition refs_of :: "('v, 'h) clients \<Rightarrow> nat \<Rightarrow> nat" where
  "refs_of y = count (held y)"

definition clients_inv :: "('v, 'h) objs \<Rightarrow> ('v, 'h) clients \<Rightarrow> bool" where
  "clients_inv ob y \<longleftrightarrow> hosts ob (refs_of y) (y_server y)"

lemma refs_of_pos: "i \<in># held y \<longleftrightarrow> refs_of y i \<noteq> 0"
  by (simp only: refs_of_def count_eq_zero_iff not_not)

lemma add_ref:
  assumes "hosts ob ((refs_of y)(i := refs_of y i + 1)) s" "held z = add_mset i (held y)" "y_server z = s"
  shows "clients_inv ob z"
proof -
  have "refs_of z = (refs_of y)(i := refs_of y i + 1)" unfolding refs_of_def assms(2) by auto
  then show ?thesis using assms(1,3) by (simp add: clients_inv_def)
qed

lemma same_refs:
  assumes "hosts ob (refs_of y) s" "held z = held y" "y_server z = s"
  shows "clients_inv ob z"
  using assms by (simp add: clients_inv_def refs_of_def)

text \<open>One \<open>incref\<close> and one \<open>decref\<close>: the invariant, and whether they raise.\<close>

lemma count_incref:
  assumes "clients_inv ob y" "i \<in># held y"
    and "\<And>s. held (f (y\<lparr>y_server := s\<rparr>)) = add_mset i (held y)" "\<And>s. y_server (f (y\<lparr>y_server := s\<rparr>)) = s"
    and "\<And>s. y_errors (f (y\<lparr>y_server := s\<rparr>)) = y_errors y"
  shows "clients_inv ob (count_call ob registry (Incref i) a f y) \<and> y_errors (count_call ob registry (Incref i) a f y) = y_errors y"
proof -
  from incref_hosts [of ob "refs_of y" "y_server y" i] assms(1,2) obtain s' where s': "server_incref i (y_server y) = (Inr (), s')"
    "hosts ob ((refs_of y)(i := refs_of y i + 1)) s'" by (auto simp: clients_inv_def refs_of_pos)
  from add_ref [OF s'(2) assms(3,4)] show ?thesis using s'(1) assms(5) by (simp add: count_call_def act_defs)
qed

lemma count_incref_late:
  assumes "clients_inv ob y" "i \<notin># held y"
  shows "clients_inv ob (count_call ob registry (Incref i) a f y) \<and> y_errors (count_call ob registry (Incref i) a f y) = (a, KeyError) # y_errors y"
proof -
  have "map_of (sv_refs (y_server y)) i = None" using assms hostsD(1) [of ob "refs_of y" "y_server y" i] by (simp add: clients_inv_def refs_of_pos)
  then have "server_incref i (y_server y) = (Inl KeyError, y_server y)" by (simp add: server_incref_def act_defs)
  then have "count_call ob registry (Incref i) a f y = y\<lparr>y_server := y_server y, y_errors := (a, KeyError) # y_errors y\<rparr>"
    by (simp add: count_call_def act_defs)
  then show ?thesis using assms(1) by (simp add: clients_inv_def refs_of_def held_def)
qed

lemma count_decref:
  assumes "clients_inv ob y" "held y = add_mset i (held z)" "y_server z = y_server y" "y_errors z = y_errors y"
  shows "clients_inv ob (count_call ob registry (Decref i) a (\<lambda>z. z) z) \<and> y_errors (count_call ob registry (Decref i) a (\<lambda>z. z) z) = y_errors y"
proof -
  from decref_hosts [of ob "refs_of y" "y_server y" i] assms(1,2) obtain s' where s': "server_decref i (y_server y) = (Inr (), s')"
    "hosts ob ((refs_of y)(i := refs_of y i - 1)) s'" by (auto simp: clients_inv_def refs_of_def)
  have "(refs_of y)(i := refs_of y i - 1) = refs_of (z\<lparr>y_server := s'\<rparr>)"
    unfolding refs_of_def assms(2) by (auto simp: held_def)
  then show ?thesis using s' assms(3,4) by (simp add: count_call_def act_defs clients_inv_def)
qed

lemma clients_step_ok:
  assumes inv: "clients_inv ob y" and id: "\<And>v. ob_id ob v \<noteq> 0"
  shows "clients_inv ob (clients_step ob registry a y) \<and>
    y_errors (clients_step ob registry a y) = (if late_copy y a then [(a, KeyError)] else []) @ y_errors y"
proof -
  have h: "hosts ob (refs_of y) (y_server y)" using inv by (simp add: clients_inv_def)
  show ?thesis
  proof (cases a)
    case (YCreate typeid args f)
    obtain r s' where r: "server_create ob registry typeid args (y_server y) = (r, s')" by fastforce
    note c = create_hosts [OF h id r]
    show ?thesis
    proof (cases r)
      case (Inl e)
      then show ?thesis using YCreate r c inv by (auto simp: act_defs late_copy_def intro: same_refs [of ob y] simp: held_def)
    next
      case (Inr p)
      then show ?thesis using YCreate r c inv
        by (cases f; cases p) (auto simp: act_defs late_copy_def held_def intro!: add_ref [of ob y])
    qed
  next
    case (YProxy i f)
    show ?thesis
    proof (cases "i \<in># y_tokens y")
      case True
      let ?z = "y\<lparr>y_tokens := y_tokens y - {#i#}\<rparr>"
      have l: "clients_inv ob (?z\<lparr>y_lost := add_mset i (y_lost y)\<rparr>)" and m: "clients_inv ob (?z\<lparr>y_made := add_mset i (y_made y)\<rparr>)"
        by (rule same_refs [OF h]; simp add: held_def True)+
      have "clients_inv ob (clients_step ob registry (YProxy i f) y) \<and> y_errors (clients_step ob registry (YProxy i f) y) = y_errors y"
      proof (cases f)
        case Arrives
        from count_incref [OF m, of i "\<lambda>z. z\<lparr>y_live := add_mset i (y_live z)\<rparr>"] show ?thesis using True Arrives by (simp add: held_def)
      next
        case NotSent
        then show ?thesis using True l by simp
      next
        case AnswerLost
        from count_incref [OF l, of i "\<lambda>z. z\<lparr>y_lost := add_mset i (y_lost z)\<rparr>"] show ?thesis using True AnswerLost by (simp add: held_def)
      qed
      then show ?thesis unfolding YProxy by (simp add: late_copy_def)
    qed (use YProxy inv in \<open>simp add: late_copy_def\<close>)
  next
    case (YRelease i f)
    show ?thesis
    proof (cases "i \<in># y_made y")
      case True
      let ?z = "y\<lparr>y_made := y_made y - {#i#}\<rparr>"
      have l: "clients_inv ob (?z\<lparr>y_lost := add_mset i (y_lost y)\<rparr>)" by (rule same_refs [OF h]; simp add: held_def True)
      have "held y = add_mset i (held ?z)" using True by (simp add: held_def)
      from count_decref [OF inv this, of registry "YRelease i f"] show ?thesis unfolding YRelease using True l by (simp add: late_copy_def Let_def)
    qed (use YRelease inv in \<open>simp add: late_copy_def\<close>)
  next
    case (YCopy i f)
    show ?thesis
    proof (cases "i \<in># held y")
      case True
      from count_incref [OF inv True, of "\<lambda>y. y\<lparr>y_live := add_mset i (y_live y)\<rparr>"]
        count_incref [OF inv True, of "\<lambda>y. y\<lparr>y_lost := add_mset i (y_lost y)\<rparr>"]
      show ?thesis unfolding YCopy using True inv by (cases f) (simp_all add: held_def late_copy_def)
    next
      case False
      from count_incref_late [OF inv False] show ?thesis unfolding YCopy using False inv by (cases f) (simp_all add: late_copy_def)
    qed
  next
    case (YDrop i f)
    show ?thesis
    proof (cases "i \<in># y_live y")
      case True
      let ?z = "y\<lparr>y_live := y_live y - {#i#}\<rparr>"
      have l: "clients_inv ob (?z\<lparr>y_lost := add_mset i (y_lost y)\<rparr>)" by (rule same_refs [OF h]; simp add: held_def True)
      have "held y = add_mset i (held ?z)" using True by (simp add: held_def)
      from count_decref [OF inv this, of registry "YDrop i f"] show ?thesis unfolding YDrop using True l by (simp add: late_copy_def Let_def)
    qed (use YDrop inv in \<open>simp add: late_copy_def\<close>)
  next
    case (YCall i meth args b f)
    obtain r s' where r: "serve_request ob registry (Req i meth args) (y_server y) = (r, s')" by fastforce
    note c = serve_request_hosts [OF h id r]
    show ?thesis
    proof (cases "f = NotSent \<or> (\<forall>xs t j. r \<noteq> Inr (Proxy xs t j))")
      case True
      then have "hosts ob (refs_of y) s'" if "f \<noteq> NotSent" using c that by (auto split: sum.splits msg.splits)
      then show ?thesis using YCall r inv True
        by (auto simp: late_copy_def held_def split: sum.split msg.split intro: same_refs [of ob y])
    next
      case False
      then obtain xs t j where "r = Inr (Proxy xs t j)" by blast
      then show ?thesis using YCall r c False by (auto simp: late_copy_def held_def intro!: add_ref [of ob y])
    qed
  qed
qed

section \<open>Proxies\<close>

datatype mstate = INITIAL | STARTED | SHUTDOWN
datatype mevent = Spawned | SentShutdown | JoinedProcess | TerminatedProcess

text \<open>The classes of proxies of \<open>SyncManager\<close>: their attributes \<open>_exposed_\<close> and \<open>_method_to_typeid_\<close>, and the names their methods send.\<close>

datatype proxytype = AutoProxy | IteratorProxy | AcquirerProxy | ConditionProxy | EventProxy | BarrierProxy
  | NamespaceProxy | ValueProxy | ListProxy | DictProxy | ArrayProxy | PoolProxy

definition list_attributes :: "string list" where
  "list_attributes = [''__add__'', ''__contains__'', ''__delitem__'', ''__getitem__'', ''__len__'', ''__mul__'',
     ''__reversed__'', ''__rmul__'', ''__setitem__'', ''append'', ''count'', ''extend'', ''index'', ''insert'', ''pop'',
     ''remove'', ''reverse'', ''sort'', ''__imul__'']"

definition dict_attributes :: "string list" where
  "dict_attributes = [''__contains__'', ''__delitem__'', ''__getitem__'', ''__len__'', ''__setitem__'', ''clear'', ''copy'',
     ''get'', ''has_key'', ''items'', ''keys'', ''pop'', ''popitem'', ''setdefault'', ''update'', ''values'']"

definition array_attributes :: "string list" where
  "array_attributes = [''__len__'', ''__getitem__'', ''__setitem__'']"

definition pool_attributes :: "string list" where
  "pool_attributes = [''apply'', ''apply_async'', ''close'', ''imap'', ''imap_unordered'', ''join'', ''map'', ''map_async'',
     ''starmap'', ''starmap_async'', ''terminate'']"

fun exposed_attr :: "proxytype \<Rightarrow> string list option" where
  "exposed_attr AutoProxy = None"
| "exposed_attr IteratorProxy = None"     \<comment> \<open>in Python 3 the attribute is called \<open>_exposed\<close>\<close>
| "exposed_attr AcquirerProxy = Some [''acquire'', ''release'']"
| "exposed_attr ConditionProxy = Some [''acquire'', ''release'', ''wait'', ''notify'', ''notify_all'']"
| "exposed_attr EventProxy = Some [''is_set'', ''set'', ''clear'', ''wait'']"
| "exposed_attr BarrierProxy = Some [''__getattribute__'', ''wait'', ''abort'', ''reset'']"
| "exposed_attr NamespaceProxy = Some [''__getattribute__'', ''__setattr__'', ''__delattr__'']"
| "exposed_attr ValueProxy = Some [''get'', ''set'']"
| "exposed_attr ListProxy = Some list_attributes"
| "exposed_attr DictProxy = Some dict_attributes"
| "exposed_attr ArrayProxy = Some array_attributes"
| "exposed_attr PoolProxy = Some pool_attributes"

fun method_to_typeid_attr :: "proxytype \<Rightarrow> (string \<times> string) list option" where
  "method_to_typeid_attr PoolProxy = Some [(''apply_async'', ''AsyncResult''), (''map_async'', ''AsyncResult''),
     (''starmap_async'', ''AsyncResult''), (''imap'', ''Iterator''), (''imap_unordered'', ''Iterator'')]"
| "method_to_typeid_attr _ = None"

text \<open>
  The requests of every proxy (\<open>__str__\<close>; \<open>_getvalue\<close>, \<open>__deepcopy__\<close>), and those of the methods of each class. A class that
  \<open>MakeProxyType\<close> makes has one for each name it is given: for the class of an \<open>AutoProxy\<close> the names the server has exposed.
\<close>

definition base_requests :: "string list" where
  "base_requests = [''__repr__'', ''#GETVALUE'']"

fun class_requests :: "proxytype \<Rightarrow> string list \<Rightarrow> string list" where
  "class_requests AutoProxy exposed = exposed"
| "class_requests IteratorProxy _ = [''__next__'', ''send'', ''throw'', ''close'']"
| "class_requests AcquirerProxy _ = [''acquire'', ''release'']"
| "class_requests ConditionProxy _ = [''acquire'', ''release'', ''wait'', ''notify'', ''notify_all'']"
| "class_requests EventProxy _ = [''is_set'', ''set'', ''clear'', ''wait'']"
| "class_requests BarrierProxy _ = [''wait'', ''abort'', ''reset'', ''__getattribute__'']"
| "class_requests NamespaceProxy _ = [''__getattribute__'', ''__setattr__'', ''__delattr__'']"
| "class_requests ValueProxy _ = [''get'', ''set'']"
| "class_requests ListProxy _ = list_attributes @ [''extend'', ''__imul__'']"
| "class_requests DictProxy _ = dict_attributes"
| "class_requests ArrayProxy _ = array_attributes"
| "class_requests PoolProxy _ = pool_attributes @ [''terminate'']"

definition sent_by :: "proxytype \<Rightarrow> string list \<Rightarrow> string list" where
  "sent_by k exposed = base_requests @ class_requests k exposed"

text \<open>\<open>BaseManager.register\<close>; an empty list counts as none.\<close>

definition register :: "('v list \<Rightarrow> ('h, 'v) act) option \<Rightarrow> proxytype option \<Rightarrow> string list option \<Rightarrow> (string \<times> string) list option \<Rightarrow> ('v, 'h) reg" where
  "register callable proxytype exposed typeids =
     (let k = (case proxytype of None \<Rightarrow> AutoProxy | Some k \<Rightarrow> k);
          ex = (if exposed = None \<or> exposed = Some [] then exposed_attr k else exposed);
          ts = (if typeids = None \<or> typeids = Some [] then method_to_typeid_attr k else typeids)
      in \<lparr>rg_callable = callable, rg_exposed = ex, rg_typeids = ts\<rparr>)"

text \<open>What \<open>SyncManager\<close> registers; \<open>mk\<close> is the callable of each type.\<close>

definition sync_types :: "(string \<times> proxytype option) list" where
  "sync_types = [(''Queue'', None), (''JoinableQueue'', None), (''Event'', Some EventProxy), (''Lock'', Some AcquirerProxy),
     (''RLock'', Some AcquirerProxy), (''Semaphore'', Some AcquirerProxy), (''BoundedSemaphore'', Some AcquirerProxy),
     (''Condition'', Some ConditionProxy), (''Barrier'', Some BarrierProxy), (''Pool'', Some PoolProxy),
     (''list'', Some ListProxy), (''dict'', Some DictProxy), (''Value'', Some ValueProxy), (''Array'', Some ArrayProxy),
     (''Namespace'', Some NamespaceProxy), (''Iterator'', Some IteratorProxy), (''AsyncResult'', None)]"

definition sync_registry :: "(string \<Rightarrow> 'v list \<Rightarrow> ('h, 'v) act) \<Rightarrow> ('v, 'h) registry" where
  "sync_registry mk typeid = map_option
     (\<lambda>k. register (if typeid \<in> {''Iterator'', ''AsyncResult''} then None else Some (mk typeid)) k None None) (map_of sync_types typeid)"

text \<open>
  The method that \<open>register\<close> makes for a type: create the object, make the proxy (which takes a reference of its
  own), give the reference of \<open>create\<close> back.
\<close>

definition make_proxy :: "('v, 'h) objs \<Rightarrow> ('v, 'h) registry \<Rightarrow> mstate option \<Rightarrow> string \<Rightarrow> 'v list \<Rightarrow> (('v, 'h) server, nat) act" where
  "make_proxy ob registry st typeid args =
     bindA (assertA (\<lambda>_. st = Some STARTED) AssertionError) (\<lambda>_.
     bindA (server_call ob registry (Create typeid args)) (\<lambda>r.
     case r of
       ResCreated i _ \<Rightarrow>
         bindA (server_call ob registry (Incref i)) (\<lambda>_.
         bindA (server_call ob registry (Decref i)) (\<lambda>_. ret i))
     | _ \<Rightarrow> raise TypeError))"

text \<open>\<open>RebuildProxy\<close>: in the manager's own process the object itself.\<close>

datatype rebuilt = TheObject | AProxy bool   \<comment> \<open>with \<open>incref\<close> or without\<close>

definition RebuildProxy :: "nat option \<Rightarrow> nat \<Rightarrow> bool option \<Rightarrow> bool \<Rightarrow> rebuilt" where
  "RebuildProxy own_address address incref_kwd inheriting =
     (if own_address = Some address then TheObject
      else AProxy ((case incref_kwd of None \<Rightarrow> True | Some b \<Rightarrow> b) \<and> \<not> inheriting))"

text \<open>What a process keeps for one manager: the connection of the thread and the identities of its proxies.\<close>

record tls =
  tl_conn :: bool
  tl_ids :: "nat list"

text \<open>\<open>_incref\<close> and the finalizer \<open>_decref\<close>: the requests they send, and what they leave. A failing \<open>decref\<close> is only logged.\<close>

definition proxy_incref :: "nat \<Rightarrow> exn option \<Rightarrow> (tls, 'v sreq list) act" where
  "proxy_incref i failure t = (case failure of Some e \<Rightarrow> (Inl e, t)
     | None \<Rightarrow> (Inr [Incref i], t\<lparr>tl_ids := List.insert i (tl_ids t)\<rparr>))"

definition proxy_decref :: "mstate option \<Rightarrow> nat \<Rightarrow> tls \<Rightarrow> 'v sreq list \<times> tls" where
  "proxy_decref st i t =
     (let t' = t\<lparr>tl_ids := removeAll i (tl_ids t)\<rparr> in
      (if st = None \<or> st = Some STARTED then [Decref i] else [],
       if tl_ids t' = [] \<and> tl_conn t' then t'\<lparr>tl_conn := False\<rparr> else t'))"

definition proxy_after_fork :: "nat \<Rightarrow> exn option \<Rightarrow> tls \<Rightarrow> 'v sreq list \<times> tls" where
  "proxy_after_fork i failure t = (case proxy_incref i failure t of (Inl _, t') \<Rightarrow> ([], t') | (Inr rqs, t') \<Rightarrow> (rqs, t'))"

section \<open>BaseManager\<close>

text \<open>
  The attributes \<open>_process\<close> and \<open>shutdown\<close> are there only after \<open>start\<close>; \<open>join\<close> sets \<open>_process\<close> to \<open>None\<close>. The finalizer runs once.
\<close>

datatype process_attr = NoAttribute | NoProcess | AProcess

record manager =
  m_state :: mstate
  m_process :: process_attr
  m_shutdown :: "bool option"      \<comment> \<open>whether the finalizer is still to run\<close>
  m_events :: "mevent list"

definition new_manager :: manager where
  "new_manager = \<lparr>m_state = INITIAL, m_process = NoAttribute, m_shutdown = None, m_events = []\<rparr>"

definition log_event :: "mevent \<Rightarrow> manager \<Rightarrow> manager" where
  "log_event e m = m\<lparr>m_events := m_events m @ [e]\<rparr>"

definition get_server :: "(manager, unit) act" where
  "get_server = assertA (\<lambda>m. m_state m = INITIAL) AssertionError"

text \<open>\<open>failure\<close>: what connecting, or receiving the address of the server, raises.\<close>

definition manager_connect :: "exn option \<Rightarrow> (manager, unit) act" where
  "manager_connect failure = (case failure of Some e \<Rightarrow> raise e | None \<Rightarrow> modifyA (\<lambda>m. m\<lparr>m_state := STARTED\<rparr>))"

definition manager_start :: "bool option \<Rightarrow> exn option \<Rightarrow> exn option \<Rightarrow> (manager, unit) act" where
  "manager_start initializer spawn_failure failure =
     bindA (assertA (\<lambda>m. m_state m = INITIAL) AssertionError) (\<lambda>_.
     bindA (assertA (\<lambda>_. initializer \<noteq> Some False) TypeError) (\<lambda>_.
     bindA (modifyA (\<lambda>m. m\<lparr>m_process := AProcess\<rparr>)) (\<lambda>_.
     case spawn_failure of Some e \<Rightarrow> raise e | None \<Rightarrow>
     bindA (modifyA (log_event Spawned)) (\<lambda>_.
     case failure of Some e \<Rightarrow> raise e | None \<Rightarrow>
     modifyA (\<lambda>m. m\<lparr>m_state := STARTED, m_shutdown := Some True\<rparr>)))))"

definition manager_create :: "(manager, unit) act" where
  "manager_create = assertA (\<lambda>m. m_state m = STARTED) AssertionError"

definition manager_join :: "bool \<Rightarrow> (manager, unit) act" where
  "manager_join alive =
     readA (\<lambda>m. case m_process m of
        NoAttribute \<Rightarrow> raise AttributeError
      | NoProcess \<Rightarrow> ret ()
      | AProcess \<Rightarrow> bindA (modifyA (log_event JoinedProcess)) (\<lambda>_. whenA (\<not> alive) (modifyA (\<lambda>m. m\<lparr>m_process := NoProcess\<rparr>))))"

text \<open>
  \<open>_finalize_manager\<close>: \<open>alive\<close> are the answers of \<open>is_alive\<close> before, after the shutdown message and after
  \<open>terminate\<close> (the last one is only logged), \<open>failure\<close> what sending the message raises.
\<close>

definition finalize_manager :: "bool \<times> bool \<Rightarrow> exn option \<Rightarrow> (manager, unit) act" where
  "finalize_manager alive failure =
     bindA (whenA (fst alive)
       (bindA (case failure of None \<Rightarrow> modifyA (log_event SentShutdown) | Some e \<Rightarrow> if is_Exception e then ret () else raise e) (\<lambda>_.
        bindA (modifyA (log_event JoinedProcess)) (\<lambda>_.
        whenA (snd alive) (bindA (modifyA (log_event TerminatedProcess)) (\<lambda>_. modifyA (log_event JoinedProcess))))))) (\<lambda>_.
     modifyA (\<lambda>m. m\<lparr>m_state := SHUTDOWN\<rparr>))"

definition manager_shutdown :: "bool \<times> bool \<Rightarrow> exn option \<Rightarrow> (manager, unit) act" where
  "manager_shutdown alive failure =
     readA (\<lambda>m. case m_shutdown m of
        None \<Rightarrow> raise AttributeError
      | Some False \<Rightarrow> ret ()
      | Some True \<Rightarrow> bindA (modifyA (\<lambda>m. m\<lparr>m_shutdown := Some False\<rparr>)) (\<lambda>_. finalize_manager alive failure))"

definition manager_enter :: "exn option \<Rightarrow> exn option \<Rightarrow> (manager, unit) act" where
  "manager_enter spawn_failure failure =
     bindA (readA (\<lambda>m. whenA (m_state m = INITIAL) (manager_start None spawn_failure failure))) (\<lambda>_.
     assertA (\<lambda>m. m_state m = STARTED) AssertionError)"

section \<open>Properties\<close>

lemma clients_run_inv:
  assumes "\<And>v. ob_id ob v \<noteq> 0"
  shows "clients_inv ob (clients_run ob registry acts h)"
proof -
  have "clients_inv ob y \<Longrightarrow> clients_inv ob (fold (clients_step ob registry) acts y)" for y
    by (induction acts arbitrary: y) (simp_all add: clients_step_ok [OF _ assms])
  moreover have "clients_inv ob (new_clients h)"
    by (simp add: clients_inv_def new_clients_def hosts_def refs_of_def Server_def hosted_def held_def)
  ultimately show ?thesis by (simp add: clients_run_def)
qed

text \<open>What the invariant says of the objects of the server.\<close>

lemma hosted_objects:
  assumes "clients_inv ob y"
  shows "i \<in># held y \<Longrightarrow> \<exists>v xs ts. map_of (sv_objs (y_server y)) i = Some (Entry v xs ts) \<and> ob_id ob v = i"
    "map_of (sv_refs (y_server y)) i = (if i \<in># held y then Some (count (held y) i) else None)"
    "number_of_objects (y_server y) = card (set_mset (held y))"
proof -
  have h: "hosts ob (refs_of y) (y_server y)" using assms by (simp add: clients_inv_def)
  show "\<exists>v xs ts. map_of (sv_objs (y_server y)) i = Some (Entry v xs ts) \<and> ob_id ob v = i" if "i \<in># held y"
  proof -
    have c: "refs_of y i \<noteq> 0" using that by (simp add: refs_of_pos)
    then have i: "i \<noteq> 0" using hostsD(3) [OF h] by (cases "i = 0") simp_all
    obtain e where e: "hosted (y_server y) i = Some e" using hostsD(2) [OF h i] c by fastforce
    then show ?thesis using hostsD(6) [OF h i e] by (auto simp: hosted_def)
  qed
  show "map_of (sv_refs (y_server y)) i = (if i \<in># held y then Some (count (held y) i) else None)"
    using hostsD(1) [OF h, of i] unfolding refs_of_pos by (simp only: refs_of_def if_not_P if_P cong: if_cong split: if_split) simp
  have "i \<in> set (map fst (sv_objs (y_server y))) \<longleftrightarrow> i = 0 \<or> i \<in># held y" for i
  proof -
    have "i \<in> set (map fst (sv_objs (y_server y))) \<longleftrightarrow> hosted (y_server y) i \<noteq> None"
      by (simp add: hosted_def map_of_eq_None_iff)
    also have "\<dots> \<longleftrightarrow> i = 0 \<or> refs_of y i \<noteq> 0" using hostsD(2-4) [OF h] by (cases "i = 0") simp_all
    finally show ?thesis unfolding refs_of_pos .
  qed
  then have s: "set (map fst (sv_objs (y_server y))) = insert 0 (set_mset (held y))" by blast
  have "0 \<notin># held y" using hostsD(3) [OF h] by (simp add: refs_of_pos)
  then have "card (insert 0 (set_mset (held y))) = Suc (card (set_mset (held y)))"
    by (rule card_insert_disjoint [OF finite_set_mset])
  moreover have "card (set (map fst (sv_objs (y_server y)))) = length (sv_objs (y_server y))"
    using distinct_card [OF hostsD(5) [OF h]] by simp
  ultimately show "number_of_objects (y_server y) = card (set_mset (held y))" unfolding number_of_objects_def s by simp
qed


definition ex_objs :: "(nat, nat) objs" where
  "ex_objs = \<lparr>ob_id = Suc, ob_methods = (\<lambda>_. [''__next__'', ''close'']), ob_has = (\<lambda>_ m. m \<in> {''__next__'', ''close''}),
     ob_call = (\<lambda>v m args. ret v), ob_text = (\<lambda>_ v. ret v)\<rparr>"

definition ex_registry :: "(nat, nat) registry" where
  "ex_registry = sync_registry (\<lambda>_ args. if args = [] then (\<lambda>h. (Inr h, h + 1)) else raise ValueError)"

lemmas ex_manager = clients_run_def new_clients_def Server_def count_call_def server_create_def server_incref_def server_decref_def act_defs
  ex_objs_def ex_registry_def sync_registry_def sync_types_def register_def on_store_def Let_def public_methods_def held_def

text \<open>
  A lock and a dictionary; the dictionary is never made a proxy. The copy of the lock that comes when it has gone is
  refused; the lock created then stays, because the \<open>decref\<close> of its proxy is lost.
\<close>

definition ex_acts :: "nat yact list" where
  "ex_acts = [YCreate ''Lock'' [] Arrives, YCreate ''dict'' [] Arrives, YProxy 8 Arrives, YRelease 8 Arrives, YProxy 9 NotSent,
     YCopy 8 Arrives, YDrop 8 Arrives, YDrop 8 Arrives, YCopy 8 Arrives, YCreate ''Lock'' [] Arrives, YProxy 10 Arrives, YRelease 10 Arrives,
     YDrop 10 NotSent]"


text \<open>
  A proxy that is unpickled after the last proxy it was a copy of has gone finds its object gone: the
  server's \<open>incref\<close> fails with \<open>KeyError\<close>, which the client sees as a \<open>RemoteError\<close>.
\<close>

theorem unpickled_too_late:
  assumes "\<And>v. ob_id ob v \<noteq> 0" "y = clients_run ob registry acts h" "i \<notin># held y"
  shows "handle_request ob registry (\<lambda>_. False) None (Inr (Incref i)) (y_server y) = (Inr [Traceback KeyError], y_server y) \<and>
    dispatch (Traceback KeyError) = (Inl RemoteError :: exn + 'v res)"
proof -
  have "clients_inv ob y" unfolding assms(2) by (rule clients_run_inv) (rule assms(1))
  from hosted_objects(2) [OF this, of i] have "map_of (sv_refs (y_server y)) i = None" using assms(3) by simp
  then show ?thesis by (simp add: handle_request_def server_incref_def act_defs dispatch_def convert_to_error_def)
qed

text \<open>An object as \<open>create\<close> leaves it, for each type of \<open>SyncManager\<close>: the names it exposes, and what its methods give.\<close>

lemma created_object:
  assumes "map_of sync_types typeid = Some kt" "k = (case kt of None \<Rightarrow> AutoProxy | Some k \<Rightarrow> k)"
    and "server_create ob (sync_registry mk) typeid args s = (Inr (i, xs), s')"
  shows "\<exists>obj. map_of (sv_objs s') i = Some (Entry obj xs (method_to_typeid_attr k)) \<and>
    xs = (case exposed_attr k of None \<Rightarrow> public_methods ob obj | Some es \<Rightarrow> es) @
      (case method_to_typeid_attr k of None \<Rightarrow> [] | Some ms \<Rightarrow> map fst ms)"
proof -
  have reg: "sync_registry mk typeid = Some \<lparr>rg_callable = (if typeid \<in> {''Iterator'', ''AsyncResult''} then None else Some (mk typeid)),
      rg_exposed = exposed_attr k, rg_typeids = method_to_typeid_attr k\<rparr>"
    using assms(1,2) by (simp add: sync_registry_def register_def Let_def)
  show ?thesis
    using assms(3) by (auto simp: server_create_def reg act_defs on_store_def Let_def server_incref_def update_conv
      split: prod.splits sum.splits if_splits option.splits list.splits)
qed

text \<open>Every class but \<open>IteratorProxy\<close> sends names that its objects expose.\<close>

lemma class_requests_exposed:
  assumes "meth \<in> set (class_requests k xs)" "k \<noteq> IteratorProxy"
    and "xs = (case exposed_attr k of None \<Rightarrow> public_methods ob obj | Some es \<Rightarrow> es) @
      (case method_to_typeid_attr k of None \<Rightarrow> [] | Some ms \<Rightarrow> map fst ms)"
  shows "meth \<in> set xs"
  using assms by (cases k) (auto simp: list_attributes_def pool_attributes_def)

text \<open>The object of a request: what its method gives as answer, and what the server keeps of it.\<close>

definition answered ::
  "('v, 'h) objs \<Rightarrow> ('v, 'h) registry \<Rightarrow> (string \<times> string) list option \<Rightarrow> string \<Rightarrow> exn + 'v \<Rightarrow> ('v, 'h) server \<Rightarrow> (exn + 'v msg) \<times> ('v, 'h) server \<Rightarrow> bool" where
  "answered ob registry typeids meth q s answer =
     (case (q, Option.bind typeids (\<lambda>ms. map_of ms meth)) of
        (Inl e, _) \<Rightarrow> answer = (if is_Exception e then Inr (Error e) else Inl e, s)
      | (Inr v, None) \<Rightarrow> answer = (Inr (Return (ResVal v)), s)
      | (Inr v, Some typeid) \<Rightarrow>
          (\<exists>es ts. fst answer = Inr (Proxy es typeid (ob_id ob v)) \<and>
             map_of (sv_objs (snd answer)) (ob_id ob v) = Some (Entry v es ts) \<and>
             map_of (sv_refs (snd answer)) (ob_id ob v) =
               Some (Suc (case map_of (sv_refs s) (ob_id ob v) of None \<Rightarrow> 0 | Some n \<Rightarrow> n))))"

lemma call_method_answered:
  assumes "meth \<in> set xs" "ob_has ob obj meth" "ob_call ob obj meth a (sv_store s) = (q, h)" "typeids = method_to_typeid_attr k"
    and "map_of (sv_objs s) i = Some (Entry obj xs typeids)"
  shows "answered ob (sync_registry mk) typeids meth q (s\<lparr>sv_store := h\<rparr>) (serve_request ob (sync_registry mk) (Req i meth a) s)"
proof (cases q)
  case (Inl e)
  then show ?thesis using assms(1-3,5)
    by (auto simp: answered_def serve_request_def call_method_def act_defs on_store_eq Let_def)
next
  case (Inr v)
  show ?thesis
  proof (cases "Option.bind typeids (\<lambda>ms. map_of ms meth)")
    case None
    then show ?thesis using assms(1-3,5) Inr
      by (simp add: answered_def serve_request_def call_method_def act_defs on_store_eq Let_def)
  next
    case (Some t)
    then have t: "t \<in> {''AsyncResult'', ''Iterator''}" using assms(4) by (cases k) (auto split: if_splits)
    then obtain es where reg: "sync_registry mk t = Some \<lparr>rg_callable = None, rg_exposed = es, rg_typeids = None\<rparr>"
      by (auto simp: sync_registry_def sync_types_def register_def Let_def)
    have "t \<noteq> []" using t by auto
    then show ?thesis using assms(1-3,5) Inr Some
      by (auto simp: answered_def serve_request_def call_method_def act_defs on_store_eq Let_def server_create_def reg server_incref_def
        update_conv split: option.split)
  qed
qed



text \<open>
  An iterator cannot be advanced through its proxy: \<open>IteratorProxy\<close> names its attribute \<open>_exposed\<close>, so the server
  exposes the public methods of the object, and \<open>__next__\<close> is not one: the server refuses it and the client gets a \<open>RemoteError\<close>.
\<close>

theorem iterator_proxy_cannot_iterate:
  assumes "server_create ob (sync_registry mk) ''Iterator'' [v] s = (Inr (i, xs), s')"
  shows "''__next__'' \<in> set (sent_by IteratorProxy xs) \<and>
    serve_request ob (sync_registry mk) (Req i ''__next__'' args) s' = (Inr (Traceback KeyError), s') \<and>
    callmethod_result b (Traceback KeyError :: 'v msg) = Fails RemoteError"
proof -
  have reg: "sync_registry mk ''Iterator'' = Some \<lparr>rg_callable = None, rg_exposed = None, rg_typeids = None\<rparr>"
    by (simp add: sync_registry_def sync_types_def register_def)
  have "xs = public_methods ob v" "map_of (sv_objs s') i = Some (Entry v xs None)"
    using assms by (auto simp: server_create_def reg act_defs Let_def server_incref_def update_conv split: prod.splits sum.splits if_splits)
  moreover from this(1) have "''__next__'' \<notin> set xs" by (simp add: public_methods_def)
  ultimately show ?thesis
    by (simp add: serve_request_def call_method_def fallback_def act_defs Let_def callmethod_result_def convert_to_error_def sent_by_def)
qed

theorem iterator_proxy_cannot_iterate_witness:
  "fst (serve_request ex_objs (sync_registry (\<lambda>_ _. raise ValueError)) (Req 6 ''__next__'' [])
    (snd (server_create ex_objs (sync_registry (\<lambda>_ _. raise ValueError)) ''Iterator'' [5] (Server 0)))) = Inr (Traceback KeyError)"
proof -
  have "server_create ex_objs (sync_registry (\<lambda>_ _. raise ValueError)) ''Iterator'' [5] (Server 0) = (Inr (6, [''close'']),
      snd (server_create ex_objs (sync_registry (\<lambda>_ _. raise ValueError)) ''Iterator'' [5] (Server (0 :: nat))))"
    by (simp add: Server_def server_create_def server_incref_def act_defs ex_objs_def sync_registry_def sync_types_def register_def on_store_def Let_def public_methods_def)
  from conjunct1 [OF conjunct2 [OF iterator_proxy_cannot_iterate [OF this, of "[]"]]] show ?thesis by (metis fst_conv)
qed

text \<open>
  An answer \<open>#PROXY\<close> to a proxy without its manager (one that has been unpickled) fails in the client
  after the server has taken a reference for it; nobody gives it back, and the object stays for good.
\<close>

theorem proxy_without_manager_leaks:
  assumes "\<And>v. ob_id ob v \<noteq> 0" "y = clients_run ob registry acts h"
    and "serve_request ob registry (Req i meth args) (y_server y) = (Inr (Proxy xs typeid r), s')"
  shows "callmethod_result False (Proxy xs typeid r :: 'v msg) = Fails AttributeError \<and>
    map_of (sv_objs (y_server (clients_run ob registry (acts @ YCall i meth args False Arrives # acts') h))) r \<noteq> None"
proof -
  let ?y = "clients_run ob registry (acts @ YCall i meth args False Arrives # acts') h"
  have step: "r \<in># y_lost (clients_step ob registry a z)" if "r \<in># y_lost z" for a z
    using that by (cases a) (auto simp: count_call_def Let_def split: prod.split sum.split res.split msg.split fate.split)
  have keep: "r \<in># y_lost (fold (clients_step ob registry) as z)" if "r \<in># y_lost z" for as z
    using that by (induction as arbitrary: z) (simp_all add: step)
  have "?y = fold (clients_step ob registry) acts' (clients_step ob registry (YCall i meth args False Arrives) y)"
    using assms(2) by (simp add: clients_run_def)
  moreover have "r \<in># y_lost (clients_step ob registry (YCall i meth args False Arrives) y)" using assms(3) by simp
  ultimately have "r \<in># held ?y" using keep by (simp add: held_def)
  with hosted_objects(1) [OF clients_run_inv [OF assms(1), of registry "acts @ YCall i meth args False Arrives # acts'" h]]
  have "map_of (sv_objs (y_server ?y)) r \<noteq> None" by blast
  then show ?thesis by (simp add: callmethod_result_def)
qed

section \<open>The manager object\<close>

text \<open>
  \<open>shutdown\<close> of a started manager ends in \<open>SHUTDOWN\<close> whatever the server process does, sends its
  message first when the process is alive and terminates it only when that has not ended it; a second \<open>shutdown\<close> does nothing, and
  no object can be created after it.
\<close>

theorem manager_shutdown_once:
  assumes "manager_start initializer None None m = (Inr (), m1)"
    and "\<And>e. failure = Some e \<Longrightarrow> is_Exception e"
  shows "\<exists>m2. manager_shutdown alive failure m1 = (Inr (), m2) \<and> m_state m2 = SHUTDOWN \<and>
    m_events m2 = m_events m1 @ (if fst alive then (if failure = None then [SentShutdown] else []) @ [JoinedProcess] @
      (if snd alive then [TerminatedProcess, JoinedProcess] else []) else []) \<and>
    manager_shutdown alive' failure' m2 = (Inr (), m2) \<and> manager_create m2 = (Inl AssertionError, m2)"
proof -
  have m1: "m_shutdown m1 = Some True"
    using assms(1) by (auto simp: manager_start_def act_defs log_event_def split: if_splits)
  obtain m2 where m2: "manager_shutdown alive failure m1 = (Inr (), m2)" "m_state m2 = SHUTDOWN" "m_shutdown m2 = Some False"
    "m_events m2 = m_events m1 @ (if fst alive then (if failure = None then [SentShutdown] else []) @ [JoinedProcess] @
      (if snd alive then [TerminatedProcess, JoinedProcess] else []) else [])"
  proof (cases failure)
    case None
    then show ?thesis using that m1
      by (cases "fst alive"; cases "snd alive") (auto simp: manager_shutdown_def finalize_manager_def act_defs log_event_def)
  next
    case (Some e)
    then show ?thesis using that m1 assms(2) [OF Some]
      by (cases "fst alive"; cases "snd alive") (auto simp: manager_shutdown_def finalize_manager_def act_defs log_event_def)
  qed
  have "manager_shutdown alive' failure' m2 = (Inr (), m2)" using m2(3) by (simp add: manager_shutdown_def act_defs)
  moreover have "manager_create m2 = (Inl AssertionError, m2)" using m2(2) by (simp add: manager_create_def act_defs)
  ultimately show ?thesis using m2(1,2,4) by blast
qed

theorem manager_shutdown_once_witness:
  "\<exists>m2. manager_shutdown (True, True) None (snd (manager_start None None None new_manager)) = (Inr (), m2) \<and> m_state m2 = SHUTDOWN"
proof -
  have "manager_start None None None new_manager = (Inr (), snd (manager_start None None None new_manager))" by code_simp
  from manager_shutdown_once [OF this, where failure = None and alive = "(True, True)"] show ?thesis by blast
qed

text \<open>
  A manager that has been connected to a server started elsewhere has neither the attribute \<open>_process\<close> nor
  \<open>shutdown\<close>: \<open>join\<close>, and leaving a \<open>with\<close> block, raise \<open>AttributeError\<close>.
\<close>

theorem connected_manager_cannot_join:
  "\<exists>m. manager_connect None new_manager = (Inr (), m) \<and> manager_enter None None m = (Inr (), m) \<and>
     manager_join alive m = (Inl AttributeError, m) \<and> manager_shutdown b failure m = (Inl AttributeError, m)"
  by (simp add: manager_connect_def manager_enter_def manager_join_def manager_shutdown_def new_manager_def act_defs)

end
