(* ===== verification/Proxies.thy ===== *)
theory Proxies
  imports Managers "HOL-Library.List_Lexorder" "HOL-Library.Char_ord"
begin

text \<open>
  The client side of \<open>billiard/managers.py\<close>: the connections that the proxies of all threads and processes keep to their managers, over forks;
  the making of proxy types; \<open>AutoProxy\<close>; and the attributes of \<open>Namespace\<close>, in the server and through \<open>NamespaceProxy\<close>.
\<close>

section \<open>Connections and references over forks\<close>

text \<open>
  A process, a thread of it, and the address of a manager have one thread-local connection at most, and a process and an address have
  the set of identities \<open>_idset\<close> (the two halves of \<open>_address_to_local\<close>). A proxy has the token it refers to, its manager, if it was
  made by one here, and \<open>_close\<close>, the finalizer that \<open>_incref\<close> registers and that holds the manager's state. \<open>px_refs\<close> are the references
  the servers have counted for the requests sent; connections are numbered. Who made a connection and who has sent a request over it are
  recorded for the properties only.
\<close>

type_synonym user = "nat \<times> nat \<times> nat"      \<comment> \<open>process, thread, address\<close>

record proxy =
  px_token :: "nat \<times> nat"                      \<comment> \<open>address and identity\<close>
  px_manager :: bool
  px_close :: "bool option"                      \<comment> \<open>registered, with the manager's state or with \<open>None\<close>\<close>

record proxies =
  px_tls :: "user \<Rightarrow> nat option"
  px_ids :: "nat \<times> nat \<Rightarrow> nat set"
  px_live :: "nat \<Rightarrow> proxy list"
  px_procs :: "nat list"
  px_refs :: "nat \<times> nat \<Rightarrow> nat"
  px_next :: nat
  px_maker :: "nat \<Rightarrow> user option"
  px_used :: "(nat \<times> user) list"

text \<open>\<open>_connect\<close>; \<open>failure\<close> is what making the connection or \<open>accept_connection\<close> raises.\<close>

definition connect :: "exn option \<Rightarrow> user \<Rightarrow> (proxies, unit) act" where
  "connect failure u =
     (case failure of Some e \<Rightarrow> raise e
      | None \<Rightarrow> modifyA (\<lambda>s. s\<lparr>px_tls := (px_tls s)(u := Some (px_next s)), px_maker := (px_maker s)(px_next s := Some u), px_next := Suc (px_next s)\<rparr>))"

text \<open>\<open>_callmethod\<close> up to its \<open>send\<close>.\<close>

definition callmethod_send :: "exn option \<Rightarrow> user \<Rightarrow> (proxies, nat) act" where
  "callmethod_send failure u =
     bindA (readA (\<lambda>s. whenA (px_tls s u = None) (connect failure u))) (\<lambda>_.
     bindA (fetchA (\<lambda>s. px_tls s u) AttributeError) (\<lambda>c.
     bindA (modifyA (\<lambda>s. s\<lparr>px_used := px_used s @ [(c, u)]\<rparr>)) (\<lambda>_. ret c)))"

text \<open>\<open>_incref\<close> of a proxy in process \<open>p\<close>, over a connection that is not kept: the proxy with its finalizer.\<close>

definition incref :: "exn option \<Rightarrow> nat \<Rightarrow> proxy \<Rightarrow> (proxies, proxy) act" where
  "incref failure p x =
     (case failure of Some e \<Rightarrow> raise e
      | None \<Rightarrow> (case px_token x of (a, i) \<Rightarrow>
          bindA (modifyA (\<lambda>s. s\<lparr>px_refs := (px_refs s)((a, i) := Suc (px_refs s (a, i))), px_ids := (px_ids s)((p, a) := insert i (px_ids s (p, a)))\<rparr>)) (\<lambda>_.
          ret (x\<lparr>px_close := Some (px_manager x)\<rparr>))))"

definition BaseProxy :: "exn option \<Rightarrow> nat \<Rightarrow> nat \<times> nat \<Rightarrow> bool \<Rightarrow> bool \<Rightarrow> (proxies, unit) act" where
  "BaseProxy failure p token manager incr =
     (let x = \<lparr>px_token = token, px_manager = manager, px_close = None\<rparr> in
      bindA (if incr then incref failure p x else ret x) (\<lambda>x.
      modifyA (\<lambda>s. s\<lparr>px_live := (px_live s)(p := x # px_live s p)\<rparr>)))"

text \<open>
  A proxy goes, and its finalizer \<open>_decref\<close> runs in the thread \<open>t\<close> that drops it, when there is one. \<open>started\<close> says whether the state of
  its manager is still \<open>STARTED\<close>; \<open>fails\<close> whether the request fails, which is logged. The connection of this thread
  is dropped when the set has become empty.
\<close>

definition decref :: "bool \<Rightarrow> bool \<Rightarrow> user \<Rightarrow> proxy \<Rightarrow> (proxies, unit) act" where
  "decref started fails u x =
     (case (u, px_token x) of ((p, t, _), (a, i)) \<Rightarrow>
       bindA (modifyA (\<lambda>s. s\<lparr>px_ids := (px_ids s)((p, a) := px_ids s (p, a) - {i})\<rparr>)) (\<lambda>_.
       bindA (whenA ((px_close x = Some False \<or> started) \<and> \<not> fails) (modifyA (\<lambda>s. s\<lparr>px_refs := (px_refs s)((a, i) := px_refs s (a, i) - 1)\<rparr>))) (\<lambda>_.
       modifyA (\<lambda>s. if px_ids s (p, a) = {} then s\<lparr>px_tls := (px_tls s)((p, t, a) := None)\<rparr> else s))))"

definition drop_proxy :: "bool \<Rightarrow> bool \<Rightarrow> nat \<Rightarrow> nat \<Rightarrow> proxy \<Rightarrow> (proxies, unit) act" where
  "drop_proxy started fails p t x =
     bindA (modifyA (\<lambda>s. s\<lparr>px_live := (px_live s)(p := remove1 x (px_live s p))\<rparr>)) (\<lambda>_.
     whenA (px_close x \<noteq> None) (decref started fails (p, t, fst (px_token x)) x))"

text \<open>
  A fork by thread \<open>t\<close> of \<open>p\<close> that makes process \<open>q\<close>: the child has the memory of the parent and a copy of the one thread. \<open>_bootstrap\<close>
  then clears the registry of finalizers and runs what has been registered with \<open>register_after_fork\<close>, in the order of
  registration: the thread-local objects and the sets are cleared, and \<open>_after_fork\<close> is called for each proxy.
\<close>

definition fork_memory :: "nat \<Rightarrow> nat \<Rightarrow> nat \<Rightarrow> proxies \<Rightarrow> proxies" where
  "fork_memory p t q s = s\<lparr>px_tls := (\<lambda>(p', t', a). if p' = q then (if t' = t then px_tls s (p, t, a) else None) else px_tls s (p', t', a)),
     px_ids := (\<lambda>(p', a). px_ids s (if p' = q then p else p', a)), px_live := (px_live s)(q := px_live s p), px_procs := q # px_procs s\<rparr>"

definition clear_finalizers :: "nat \<Rightarrow> proxies \<Rightarrow> proxies" where
  "clear_finalizers q s = s\<lparr>px_live := (px_live s)(q := map (\<lambda>x. x\<lparr>px_close := None\<rparr>) (px_live s q))\<rparr>"

definition clear_local :: "nat \<Rightarrow> proxies \<Rightarrow> proxies" where
  "clear_local q s = s\<lparr>px_tls := (\<lambda>(p', t', a). if p' = q then None else px_tls s (p', t', a))\<rparr>"

definition clear_ids :: "nat \<Rightarrow> proxies \<Rightarrow> proxies" where
  "clear_ids q s = s\<lparr>px_ids := (\<lambda>(p', a). if p' = q then {} else px_ids s (p', a))\<rparr>"

text \<open>\<open>_after_fork\<close> of a proxy, in which a failing \<open>_incref\<close> is only logged; and of all of them, of which the oldest is the last of the list.\<close>

definition after_fork :: "exn option \<Rightarrow> nat \<Rightarrow> proxy \<Rightarrow> (proxies, proxy) act" where
  "after_fork failure q x = (let x = x\<lparr>px_manager := False\<rparr> in catchA (incref failure q x) (\<lambda>e. if is_Exception e then ret x else raise e))"

fun after_forks :: "(nat \<Rightarrow> bool) \<Rightarrow> nat \<Rightarrow> proxy list \<Rightarrow> proxies \<Rightarrow> proxies" where
  "after_forks failure q [] s = s\<lparr>px_live := (px_live s)(q := [])\<rparr>"
| "after_forks failure q (x # xs) s =
     (let s = after_forks failure q xs s in
      case after_fork (if failure (length xs) then Some (OSError 0) else None) q x s of (r, s) \<Rightarrow>
        s\<lparr>px_live := (px_live s)(q := (case r of Inr x \<Rightarrow> x | Inl _ \<Rightarrow> x) # px_live s q)\<rparr>)"

definition fork_child :: "(nat \<Rightarrow> bool) \<Rightarrow> nat \<Rightarrow> nat \<Rightarrow> nat \<Rightarrow> proxies \<Rightarrow> proxies" where
  "fork_child failure p t q s =
     (let s = clear_ids q (clear_local q (clear_finalizers q (fork_memory p t q s))) in after_forks failure q (px_live s q) s)"

text \<open>
  The events: a proxy is made in a process (unpickled, with its count unless the process is just inheriting), a request is sent, a proxy goes, a process forks,
  a new interpreter is started, a process ends with whatever it has.
\<close>

datatype pxevent =
    PNew nat "nat \<times> nat" bool bool "exn option"
  | PCall user "exn option"
  | PDrop nat nat proxy bool bool
  | PFork nat nat nat "nat \<Rightarrow> bool"
  | PSpawn nat nat
  | PEnd nat

fun px_step :: "pxevent \<Rightarrow> proxies \<Rightarrow> proxies option" where
  "px_step (PNew p token manager incr f) s = (if p \<in> set (px_procs s) then Some (snd (BaseProxy f p token manager incr s)) else None)"
| "px_step (PCall u f) s = (if fst u \<in> set (px_procs s) then Some (snd (callmethod_send f u s)) else None)"
| "px_step (PDrop p t x started fails) s =
     (if p \<in> set (px_procs s) \<and> x \<in> set (px_live s p) then Some (snd (drop_proxy started fails p t x s)) else None)"
| "px_step (PFork p t q f) s = (if p \<in> set (px_procs s) \<and> q \<notin> set (px_procs s) then Some (fork_child f p t q s) else None)"
| "px_step (PSpawn p q) s = (if p \<in> set (px_procs s) \<and> q \<notin> set (px_procs s)
     then Some (clear_ids q (clear_local q (s\<lparr>px_live := (px_live s)(q := []), px_procs := q # px_procs s\<rparr>))) else None)"
| "px_step (PEnd p) s = (if p \<in> set (px_procs s) then Some (s\<lparr>px_procs := remove1 p (px_procs s)\<rparr>) else None)"

fun px_run :: "pxevent list \<Rightarrow> proxies \<Rightarrow> proxies option" where
  "px_run [] s = Some s"
| "px_run (e # es) s = (case px_step e s of None \<Rightarrow> None | Some s' \<Rightarrow> px_run es s')"

definition one_process :: "nat \<Rightarrow> proxies" where
  "one_process p = \<lparr>px_tls = (\<lambda>_. None), px_ids = (\<lambda>_. {}), px_live = (\<lambda>_. []), px_procs = [p], px_refs = (\<lambda>_. 0), px_next = 0, px_maker = (\<lambda>_. None), px_used = []\<rparr>"

text \<open>The proxies of all processes that will give a reference back.\<close>

definition holds_of :: "proxy list \<Rightarrow> nat \<times> nat \<Rightarrow> nat" where
  "holds_of xs k = length (filter (\<lambda>x. px_close x \<noteq> None \<and> px_token x = k) xs)"

definition holders :: "proxies \<Rightarrow> nat \<times> nat \<Rightarrow> nat" where
  "holders s k = (\<Sum>p\<leftarrow>px_procs s. holds_of (px_live s p) k)"

text \<open>No process ends with proxies it has not dropped, and every request at the end of one is sent and arrives.\<close>

fun orderly :: "pxevent \<Rightarrow> proxies \<Rightarrow> bool" where
  "orderly (PDrop p t x started fails) s \<longleftrightarrow> px_close x = None \<or> (px_close x = Some False \<or> started) \<and> \<not> fails"
| "orderly (PEnd p) s \<longleftrightarrow> px_live s p = []"
| "orderly _ s \<longleftrightarrow> True"

fun orderly_run :: "pxevent list \<Rightarrow> proxies \<Rightarrow> bool" where
  "orderly_run [] s \<longleftrightarrow> True"
| "orderly_run (e # es) s \<longleftrightarrow> orderly e s \<and> (case px_step e s of None \<Rightarrow> False | Some s' \<Rightarrow> orderly_run es s')"

section \<open>What holds in every history\<close>

text \<open>A connection belongs to the user it has been made by.\<close>

definition own_conns :: "proxies \<Rightarrow> bool" where
  "own_conns s \<longleftrightarrow> (\<forall>u c. px_tls s u = Some c \<longrightarrow> px_maker s c = Some u) \<and> (\<forall>(c, u) \<in> set (px_used s). px_maker s c = Some u) \<and>
     (\<forall>c \<ge> px_next s. px_maker s c = None)"

lemmas px_defs = connect_def callmethod_send_def incref_def BaseProxy_def decref_def drop_proxy_def act_defs Let_def

lemma connect_own: "own_conns s \<Longrightarrow> own_conns (snd (connect f u s))"
proof (cases f)
  case None
  assume s: "own_conns s"
  then have "px_maker s c = Some v \<Longrightarrow> c \<noteq> px_next s" for c v
    unfolding own_conns_def by (metis option.distinct(1) order_refl)
  with s None show ?thesis
    unfolding own_conns_def connect_def modifyA_def by (auto simp: Suc_le_eq)
qed (simp add: px_defs)

lemma log_own: "own_conns s \<Longrightarrow> px_tls s u = Some c \<Longrightarrow> own_conns (s\<lparr>px_used := px_used s @ [(c, u)]\<rparr>)"
  unfolding own_conns_def by (cases u) auto

lemma callmethod_own:
  assumes "own_conns s"
  shows "own_conns (snd (callmethod_send f u s))"
proof (cases "px_tls s u")
  case None
  show ?thesis
  proof (cases f)
    case None
    with log_own [OF connect_own [OF assms, of f u], of u "px_next s"] \<open>px_tls s u = None\<close> show ?thesis by (simp add: px_defs)
  next
    case (Some e)
    with assms \<open>px_tls s u = None\<close> show ?thesis by (simp add: px_defs)
  qed
next
  case (Some c)
  with assms show ?thesis by (auto simp: px_defs intro: log_own)
qed

lemma own_conns_same:
  "own_conns s \<Longrightarrow> \<forall>u. px_tls s' u = px_tls s u \<or> px_tls s' u = None \<Longrightarrow> px_maker s' = px_maker s \<Longrightarrow> px_next s' = px_next s \<Longrightarrow>
   px_used s' = px_used s \<Longrightarrow> own_conns s'"
  unfolding own_conns_def by (metis option.distinct(1))

lemma incref_conn:
  "px_tls (snd (incref f p x s)) = px_tls s" "px_maker (snd (incref f p x s)) = px_maker s" "px_next (snd (incref f p x s)) = px_next s"
  "px_used (snd (incref f p x s)) = px_used s" "px_live (snd (incref f p x s)) = px_live s" "px_procs (snd (incref f p x s)) = px_procs s"
  by (auto simp: px_defs split: option.splits prod.splits)

lemma after_forks_conn:
  "px_tls (after_forks f q xs s) = px_tls s" "px_maker (after_forks f q xs s) = px_maker s" "px_next (after_forks f q xs s) = px_next s"
  "px_used (after_forks f q xs s) = px_used s" "px_procs (after_forks f q xs s) = px_procs s"
  by (induction xs) (auto simp: after_fork_def px_defs split: prod.splits)

lemma drop_conn:
  "px_maker (snd (drop_proxy st fa p t x s)) = px_maker s" "px_next (snd (drop_proxy st fa p t x s)) = px_next s"
  "px_used (snd (drop_proxy st fa p t x s)) = px_used s" "px_procs (snd (drop_proxy st fa p t x s)) = px_procs s"
  "px_live (snd (drop_proxy st fa p t x s)) = (px_live s)(p := remove1 x (px_live s p))"
  "px_tls (snd (drop_proxy st fa p t x s)) u = px_tls s u \<or> px_tls (snd (drop_proxy st fa p t x s)) u = None"
  by (auto simp: px_defs split: prod.splits)

lemma step_own: "px_step e s = Some s' \<Longrightarrow> own_conns s \<Longrightarrow> own_conns s'"
proof (induction e s rule: px_step.induct)
  case (1 p token manager incr f s)
  then show ?case
    by (auto simp: px_defs split: if_splits option.splits prod.splits elim!: own_conns_same)
next
  case (2 u f s)
  then show ?case by (auto simp: callmethod_own split: if_splits)
next
  case (3 p t x started fails s)
  then have "s' = snd (drop_proxy started fails p t x s)" by (simp split: if_splits)
  with own_conns_same [OF 3(2) _ drop_conn(1-3) [of started fails p t x s]] drop_conn(6) [of started fails p t x s] show ?case by simp
next
  case (4 p t q f s)
  then show ?case
    by (auto simp: fork_child_def after_forks_conn clear_local_def clear_ids_def clear_finalizers_def fork_memory_def Let_def
      split: if_splits elim!: own_conns_same)
next
  case (5 p q s)
  then show ?case by (auto simp: clear_local_def clear_ids_def split: if_splits elim!: own_conns_same)
next
  case (6 p s)
  then show ?case by (auto split: if_splits elim!: own_conns_same)
qed

text \<open>The references.\<close>

lemma holds_of_simps [simp]:
  "holds_of [] k = 0"
  "holds_of (x # xs) k = (if px_close x \<noteq> None \<and> px_token x = k then 1 else 0) + holds_of xs k"
  by (auto simp: holds_of_def)

lemma holds_of_remove: "x \<in> set xs \<Longrightarrow> holds_of xs k = holds_of (remove1 x xs) k + holds_of [x] k"
  by (induction xs) auto

lemma holds_of_cleared: "holds_of (map (\<lambda>x. x\<lparr>px_close := None\<rparr>) xs) k = 0"
  by (induction xs) auto

lemma sum_live_out:
  fixes h :: "proxy list \<Rightarrow> nat"
  shows "p \<notin> set ps \<Longrightarrow> (\<Sum>q\<leftarrow>ps. h ((f(p := y)) q)) = (\<Sum>q\<leftarrow>ps. h (f q))"
  by (induction ps) auto

lemma sum_live_upd:
  fixes h :: "proxy list \<Rightarrow> nat"
  assumes "distinct ps" "p \<in> set ps"
  shows "(\<Sum>q\<leftarrow>ps. h ((f(p := y)) q)) + h (f p) = (\<Sum>q\<leftarrow>ps. h (f q)) + h y"
  using assms
proof (induction ps)
  case (Cons a ps)
  then show ?case by (cases "a = p") (auto simp: sum_live_out [simplified])
qed simp

text \<open>\<open>extra s k\<close>: references counted that nobody will give back.\<close>

definition extra :: "proxies \<Rightarrow> nat \<times> nat \<Rightarrow> int" where
  "extra s k = int (px_refs s k) - int (holders s k)"

lemma holders_upd:
  "distinct (px_procs s) \<Longrightarrow> p \<in> set (px_procs s) \<Longrightarrow> px_procs s' = px_procs s \<Longrightarrow> px_live s' = (px_live s)(p := xs) \<Longrightarrow>
   holders s' k + holds_of (px_live s p) k = holders s k + holds_of xs k"
  using sum_live_upd [of "px_procs s" p "\<lambda>xs. holds_of xs k" "px_live s" xs] by (simp add: holders_def)

lemma incref_refs:
  "px_refs (snd (incref f p x s)) k = px_refs s k + (case incref f p x s of (Inr y, _) \<Rightarrow> holds_of [y] k | _ \<Rightarrow> 0)"
  by (auto simp: px_defs split: option.splits prod.splits)

lemma BaseProxy_extra:
  assumes "distinct (px_procs s)" "p \<in> set (px_procs s)"
  shows "extra (snd (BaseProxy f p token manager incr s)) k = extra s k"
proof -
  let ?s' = "snd (BaseProxy f p token manager incr s)"
  define xs where "xs = px_live ?s' p"
  have live: "px_live ?s' = (px_live s)(p := xs)" "px_procs ?s' = px_procs s"
    by (auto simp: xs_def px_defs split: option.splits prod.splits)
  have "px_refs ?s' k + holds_of (px_live s p) k = px_refs s k + holds_of xs k"
    by (auto simp: xs_def px_defs split: option.splits prod.splits)
  with holders_upd [OF assms live(2,1), of k] show ?thesis by (simp add: extra_def)
qed

lemma callmethod_extra: "extra (snd (callmethod_send f u s)) k = extra s k"
  by (auto simp: extra_def holders_def px_defs split: option.splits)

lemma holds_le_holders: "p \<in> set (px_procs s) \<Longrightarrow> holds_of (px_live s p) k \<le> holders s k"
  unfolding holders_def by (rule member_le_sum_list) auto

lemma drop_extra:
  assumes "distinct (px_procs s)" "p \<in> set (px_procs s)" "x \<in> set (px_live s p)" "extra s (px_token x) \<ge> 0"
  shows "extra (snd (drop_proxy st fa p t x s)) k =
    extra s k + (if px_close x \<noteq> None \<and> px_token x = k \<and> \<not> ((px_close x = Some False \<or> st) \<and> \<not> fa) then 1 else 0)"
proof -
  let ?s' = "snd (drop_proxy st fa p t x s)"
  have h: "holders ?s' k + holds_of [x] k = holders s k"
    using holders_upd [OF assms(1,2) drop_conn(4) [of st fa p t x] drop_conn(5), of k] holds_of_remove [OF assms(3), of k] by simp
  have "px_close x \<noteq> None \<Longrightarrow> px_refs s (px_token x) \<ge> 1"
    using assms(4) holds_le_holders [OF assms(2), of "px_token x"] holds_of_remove [OF assms(3), of "px_token x"]
    by (auto simp: extra_def)
  moreover have "px_refs ?s' k = px_refs s k - (if px_close x \<noteq> None \<and> px_token x = k \<and> ((px_close x = Some False \<or> st) \<and> \<not> fa) then 1 else 0)"
    by (auto simp: px_defs split: prod.splits)
  ultimately show ?thesis using h by (cases "px_close x") (auto simp: extra_def of_nat_diff)
qed

lemma after_fork_live: "px_live (snd (after_fork f q x s)) = px_live s"
  by (auto simp: after_fork_def px_defs split: option.splits prod.splits)

lemma after_forks_refs:
  "px_refs (after_forks f q xs s) k = px_refs s k + holds_of (px_live (after_forks f q xs s) q) k"
  if "\<forall>x \<in> set xs. px_close x = None"
  using that
proof (induction xs)
  case (Cons x xs)
  then show ?case by (auto simp: after_fork_def px_defs split: prod.splits)
qed simp

lemma after_forks_live: "px_live (after_forks f q xs s) = (px_live s)(q := px_live (after_forks f q xs s) q)"
proof (induction xs)
  case (Cons x xs)
  have "px_live (after_forks f q (x # xs) s) b = px_live (after_forks f q xs s) b" if "b \<noteq> q" for b
    using after_fork_live [of "if f (length xs) then Some (OSError 0) else None" q x "after_forks f q xs s"] that
    by (cases "f (length xs)") (auto simp: Let_def split: prod.splits)
  then show ?case by (subst fun_eq_iff) (metis Cons.IH fun_upd_apply)
qed simp

lemma fork_extra:
  assumes "q \<notin> set (px_procs s)"
  shows "extra (fork_child f p t q s) k = extra s k"
proof -
  define s1 where "s1 = clear_ids q (clear_local q (clear_finalizers q (fork_memory p t q s)))"
  define s2 where "s2 = after_forks f q (px_live s1 q) s1"
  have s1: "px_refs s1 = px_refs s" "px_procs s1 = q # px_procs s" "\<forall>x \<in> set (px_live s1 q). px_close x = None" "\<exists>ys. px_live s1 = (px_live s)(q := ys)"
    by (auto simp: s1_def clear_ids_def clear_local_def clear_finalizers_def fork_memory_def)
  obtain ys zs where "px_live s1 = (px_live s)(q := ys)" "px_live s2 = (px_live s1)(q := zs)"
    using s1(4) after_forks_live unfolding s2_def by blast
  then have "px_live s2 = (px_live s)(q := zs)" by simp
  moreover have "px_refs s2 k = px_refs s k + holds_of (px_live s2 q) k" "px_procs s2 = q # px_procs s"
    using after_forks_refs [OF s1(3), of f q s1 k] s1 by (simp_all add: s2_def after_forks_conn)
  ultimately have "extra s2 k = extra s k"
    using sum_live_out [OF assms, of "\<lambda>xs. holds_of xs k" "px_live s" zs] by (simp add: extra_def holders_def)
  then show ?thesis by (simp add: fork_child_def s1_def s2_def Let_def)
qed

lemma step_procs: "px_step e s = Some s' \<Longrightarrow> distinct (px_procs s) \<Longrightarrow> distinct (px_procs s')"
  by (induction e s rule: px_step.induct)
    (auto simp: drop_conn fork_child_def after_forks_conn clear_local_def clear_ids_def clear_finalizers_def fork_memory_def px_defs
      split: if_splits option.splits prod.splits)

lemma end_extra:
  assumes "p \<in> set (px_procs s)"
  shows "extra (s\<lparr>px_procs := remove1 p (px_procs s)\<rparr>) k = extra s k + int (holds_of (px_live s p) k)"
  using sum_list_map_remove1 [OF assms, of "\<lambda>q. holds_of (px_live s q) k"] by (simp add: extra_def holders_def)

lemma spawn_extra:
  "q \<notin> set (px_procs s) \<Longrightarrow> extra (clear_ids q (clear_local q (s\<lparr>px_live := (px_live s)(q := []), px_procs := q # px_procs s\<rparr>))) k = extra s k"
  using sum_live_out [of q "px_procs s" "\<lambda>xs. holds_of xs k" "px_live s" "[]"]
  by (simp add: extra_def holders_def clear_ids_def clear_local_def)

lemma step_extra:
  assumes "px_step e s = Some s'" "distinct (px_procs s)" "\<forall>k. extra s k \<ge> 0"
  shows "extra s' k \<ge> extra s k \<and> (orderly e s \<longrightarrow> extra s' k = extra s k)"
  using assms
proof (induction e s rule: px_step.induct)
  case (3 p t x started fails s)
  then have "p \<in> set (px_procs s)" "x \<in> set (px_live s p)" "s' = snd (drop_proxy started fails p t x s)"
    by (auto split: if_splits)
  moreover have "extra s (px_token x) \<ge> 0" using 3(3) by blast
  ultimately have "extra s' k = extra s k +
      (if px_close x \<noteq> None \<and> px_token x = k \<and> \<not> ((px_close x = Some False \<or> started) \<and> \<not> fails) then 1 else 0)"
    using drop_extra [OF 3(2), of p x started fails t k] by blast
  then show ?case by auto
qed (auto simp: BaseProxy_extra callmethod_extra fork_extra end_extra spawn_extra split: if_splits)

lemma run_facts:
  "px_run es s = Some s' \<Longrightarrow> own_conns s \<Longrightarrow> distinct (px_procs s) \<Longrightarrow> \<forall>k. extra s k \<ge> 0 \<Longrightarrow>
   own_conns s' \<and> distinct (px_procs s') \<and> (\<forall>k. extra s' k \<ge> extra s k) \<and> (orderly_run es s \<longrightarrow> (\<forall>k. extra s' k = extra s k))"
proof (induction es arbitrary: s)
  case (Cons e es)
  then obtain t where t: "px_step e s = Some t" "px_run es t = Some s'" by (auto split: option.splits)
  have ext: "extra t k \<ge> extra s k" "orderly e s \<Longrightarrow> extra t k = extra s k" for k
    using step_extra [OF t(1) Cons.prems(3,4)] by auto
  have "\<forall>k. extra t k \<ge> 0" using ext(1) Cons.prems(4) by (meson order_trans)
  note ih = Cons.IH [OF t(2) step_own [OF t(1) Cons.prems(2)] step_procs [OF t(1) Cons.prems(3)] this]
  moreover have "extra s' k \<ge> extra s k" for k using ih ext(1) by (meson order_trans)
  ultimately show ?case using ext(2) t by auto
qed auto

lemma one_process_facts: "own_conns (one_process p)" "distinct (px_procs (one_process p))" "extra (one_process p) k = 0"
  by (auto simp: own_conns_def one_process_def extra_def holders_def)

text \<open>
  C17. The proxies of one process and of all that descend from it, in any history of making, using and dropping proxies in their
  threads, of forks by any thread, of new interpreters and of processes that end: a request goes out only over a connection that
  the same thread of the same process has made to the same manager, so no connection is ever shared after a fork; and a server never counts
  fewer references than there are proxies that will give one back, so its count of an object that is used stays positive; it counts exactly
  these when every process drops its proxies and the requests for it arrive.
\<close>

theorem proxies_over_forks:
  assumes "px_run es (one_process p) = Some s"
  shows "(\<forall>(c, u) \<in> set (px_used s). px_maker s c = Some u) \<and> (\<forall>k. holders s k \<le> px_refs s k) \<and>
    (orderly_run es (one_process p) \<longrightarrow> (\<forall>k. px_refs s k = holders s k))"
proof -
  have "own_conns s \<and> (\<forall>k. extra s k \<ge> 0) \<and> (orderly_run es (one_process p) \<longrightarrow> (\<forall>k. extra s k = 0))"
    using run_facts [OF assms one_process_facts(1,2)] by (simp add: one_process_facts(3))
  then show ?thesis by (auto simp: own_conns_def extra_def)
qed

text \<open>A proxy is made and used in process 1, which forks; the child uses its copy, and both drop theirs.\<close>

definition forked_history :: "pxevent list" where
  "forked_history =
     [PNew 1 (5, 7) True True None, PCall (1, 0, 5) None, PFork 1 0 2 (\<lambda>_. False), PCall (2, 0, 5) None,
      PDrop 1 0 \<lparr>px_token = (5, 7), px_manager = True, px_close = Some True\<rparr> True False]"

lemmas px_eval = forked_history_def one_process_def fork_child_def after_fork_def fork_memory_def clear_finalizers_def clear_local_def clear_ids_def
  holders_def holds_of_def px_defs

theorem proxies_over_forks_witness:
  "\<exists>s. px_run forked_history (one_process 1) = Some s \<and> px_used s = [(0, 1, 0, 5), (1, 2, 0, 5)] \<and> px_refs s (5, 7) = 1 \<and>
     (\<forall>(c, u) \<in> set (px_used s). px_maker s c = Some u) \<and> (\<forall>k. holders s k \<le> px_refs s k) \<and> (\<forall>k. px_refs s k = holders s k)"
proof -
  define s where "s = the (px_run forked_history (one_process 1))"
  have s: "px_run forked_history (one_process 1) = Some s" "px_used s = [(0, 1, 0, 5), (1, 2, 0, 5)]" "px_refs s (5, 7) = 1"
    by (simp_all add: s_def px_eval)
  have "orderly_run forked_history (one_process 1)" by (simp add: px_eval)
  with s proxies_over_forks [OF s(1)] show ?thesis by blast
qed

text \<open>
  The sets hold identities, not counts: with two proxies for one object, dropping the first makes the thread close its connection while the
  second is there; its next request makes a new one.
\<close>

lemma closed_while_used:
  "\<exists>s. px_run [PNew 1 (5, 7) False True None, PNew 1 (5, 7) False True None, PCall (1, 0, 5) None,
       PDrop 1 0 \<lparr>px_token = (5, 7), px_manager = False, px_close = Some False\<rparr> False False] (one_process 1) = Some s \<and>
     px_tls s (1, 0, 5) = None \<and> length (px_live s 1) = 1"
  by (simp add: px_eval)

end
