(* ===== verification/Manager_Sessions.thy ===== *)
theory Manager_Sessions
  imports Managers "HOL-Library.List_Lexorder" "HOL-Library.Char_ord"
begin

text \<open>
  The rest of \<open>billiard/managers.py\<close> on its two sides: the threads of the server (\<open>serve_forever\<close>, \<open>accepter\<close>, the session with a thread
  of a client from \<open>accept_connection\<close> on) and its start (\<open>_run_server\<close>), the classes of proxies (\<open>MakeProxyType\<close>, \<open>AutoProxy\<close>), and
  \<open>Namespace\<close>, in the server and through the proxies of several processes.
\<close>

section \<open>The threads of the server\<close>

text \<open>
  \<open>serve_forever\<close>: \<open>accepter_fails\<close> is what starting the thread raises; the script has, for each round, whether \<open>stop_event\<close> is
  set, or what interrupts the wait. Whatever happens, \<open>sys.exit(0)\<close> is the end of it.
\<close>

fun wait_stop :: "(exn + bool) list \<Rightarrow> exn + unit" where
  "wait_stop [] = Inl Blocks"
| "wait_stop (Inl e # rs) = Inl e"
| "wait_stop (Inr is_set # rs) = (if is_set then Inr () else wait_stop rs)"

definition serve_forever :: "exn option \<Rightarrow> (exn + bool) list \<Rightarrow> exn" where
  "serve_forever accepter_fails rounds =
     (let body = (case accepter_fails of Some e \<Rightarrow> Inl e
          | None \<Rightarrow> (case wait_stop rounds of
                Inl e \<Rightarrow> (case e of KeyboardInterrupt \<Rightarrow> Inr () | SystemExit _ \<Rightarrow> Inr () | _ \<Rightarrow> Inl e)
              | Inr u \<Rightarrow> Inr u))
      in if body = Inl Blocks then Blocks else SystemExit 0)"

text \<open>
  \<open>accepter\<close>: each \<open>accept\<close> gives a connection or raises; a thread is started for each connection, and \<open>can_start c\<close> is what
  that raises. The result are the connections that have a thread, and what has ended the accepter.
\<close>

fun accepter :: "(exn + 'c) list \<Rightarrow> ('c \<Rightarrow> exn option) \<Rightarrow> 'c list \<times> exn" where
  "accepter [] start = ([], Blocks)"
| "accepter (Inl e # rs) start = (case e of OSError _ \<Rightarrow> accepter rs start | _ \<Rightarrow> ([], e))"
| "accepter (Inr c # rs) start =
     (case start c of Some e \<Rightarrow> ([], e) | None \<Rightarrow> (case accepter rs start of (cs, e) \<Rightarrow> (c # cs, e)))"

text \<open>\<open>_run_server\<close>: what the parent has received when it ends.\<close>

definition run_server :: "exn option \<Rightarrow> exn + 'addr \<Rightarrow> exn option \<Rightarrow> exn option \<Rightarrow> (exn + bool) list \<Rightarrow> 'addr option \<times> exn" where
  "run_server initializer server sent accepter_fails rounds =
     (case initializer of Some e \<Rightarrow> (None, e)
      | None \<Rightarrow> (case server of Inl e \<Rightarrow> (None, e)
        | Inr address \<Rightarrow> (case sent of Some e \<Rightarrow> (None, e)
          | None \<Rightarrow> (Some address, serve_forever accepter_fails rounds))))"

text \<open>\<open>accept_connection\<close>: its own answer, then those of \<open>serve_client\<close>.\<close>

definition accept_connection ::
  "('v, 'h) objs \<Rightarrow> ('v, 'h) registry \<Rightarrow> ('v msg \<Rightarrow> bool) \<Rightarrow> exn option \<Rightarrow> 'v recvd list \<Rightarrow> ('v, 'h) server \<Rightarrow> 'v msg list \<times> exn option \<times> ('v, 'h) server" where
  "accept_connection ob registry unsendable sent rqs s =
     (case sent of Some e \<Rightarrow> ([], Some e, s)
      | None \<Rightarrow> (case serve_client ob registry unsendable rqs s of (ms, r, s') \<Rightarrow> (Return ResNone # ms, r, s')))"

lemma accepter_serves_all:
  assumes "\<And>e. Inl e \<in> set rs \<Longrightarrow> \<exists>n. e = OSError n" "\<And>c. start c = None"
  shows "accepter rs start = (map projr (filter (\<lambda>r. \<not> isl r) rs), Blocks)"
  using assms
proof (induction rs)
  case (Cons r rs)
  then show ?case by (cases r) (auto, fastforce)
qed simp

lemma serve_forever_exits: "serve_forever f rs \<in> {SystemExit 0, Blocks}"
  by (simp add: serve_forever_def Let_def)

text \<open>
  One answer per request, in a session whose messages can be sent. The methods of the hosted objects raise anything that is an
  \<open>Exception\<close>; the callables registered for what they return do not raise \<open>EOFError\<close>, which the server takes for the end of the connection.
\<close>

definition plain_user :: "('v, 'h) objs \<Rightarrow> ('v, 'h) registry \<Rightarrow> bool" where
  "plain_user ob registry \<longleftrightarrow>
     (\<forall>v m args h e. fst (ob_call ob v m args h) = Inl e \<longrightarrow> is_Exception e) \<and> (\<forall>m v h e. fst (ob_text ob m v h) = Inl e \<longrightarrow> is_Exception e) \<and>
     (\<forall>t r f args h e. registry t = Some r \<longrightarrow> rg_callable r = Some f \<longrightarrow> fst (f args h) = Inl e \<longrightarrow> is_Exception e \<and> e \<noteq> EOFError)"

lemma plain_userD:
  "plain_user ob registry \<Longrightarrow> fst (ob_call ob v m args h) = Inl e \<Longrightarrow> is_Exception e"
  "plain_user ob registry \<Longrightarrow> fst (ob_text ob m v h) = Inl e \<Longrightarrow> is_Exception e"
  "plain_user ob registry \<Longrightarrow> registry t = Some r \<Longrightarrow> rg_callable r = Some f \<Longrightarrow> fst (f args h) = Inl e \<Longrightarrow> is_Exception e \<and> e \<noteq> EOFError"
  unfolding plain_user_def by blast+

text \<open>An operation that leaves \<open>stop_event\<close> alone and raises only \<open>P\<close>.\<close>

definition quiet :: "(exn \<Rightarrow> bool) \<Rightarrow> (('v, 'h) server, 'a) act \<Rightarrow> bool" where
  "quiet P m \<longleftrightarrow> (\<forall>s. sv_stop (snd (m s)) = sv_stop s \<and> (\<forall>e. fst (m s) = Inl e \<longrightarrow> P e))"

abbreviation handled :: "exn \<Rightarrow> bool" where
  "handled e \<equiv> is_Exception e \<and> e \<noteq> EOFError"

named_theorems quiet_intros

lemma quiet_bind [quiet_intros]: "quiet P m \<Longrightarrow> (\<And>a. quiet P (f a)) \<Longrightarrow> quiet P (bindA m f)"
  unfolding quiet_def bindA_def by (simp split: prod.split sum.split) (metis fst_conv snd_conv)

lemma quiet_catch [quiet_intros]: "quiet is_Exception m \<Longrightarrow> (\<And>e. is_Exception e \<Longrightarrow> quiet P (h e)) \<Longrightarrow> quiet P (catchA m h)"
  unfolding quiet_def catchA_def by (simp split: prod.split sum.split) (metis fst_conv snd_conv)

lemma quiet_catch_handled: "quiet handled m \<Longrightarrow> (\<And>e. handled e \<Longrightarrow> quiet P (h e)) \<Longrightarrow> quiet P (catchA m h)"
  unfolding quiet_def catchA_def by (simp split: prod.split sum.split) (metis fst_conv snd_conv)

lemma quiet_basic [quiet_intros]:
  "quiet P (ret a)" "P e \<Longrightarrow> quiet P (raise e)" "P e \<Longrightarrow> quiet P (assertA c e)" "P e \<Longrightarrow> quiet P (fetchA g e)"
  "(\<And>t. sv_stop (u t) = sv_stop t) \<Longrightarrow> quiet P (modifyA u)" "(\<And>s. quiet P (f s)) \<Longrightarrow> quiet P (readA f)"
  "(\<And>h e. fst (k h) = Inl e \<Longrightarrow> P e) \<Longrightarrow> quiet P (on_store k)"
  unfolding quiet_def by (auto simp: act_defs on_store_def split: option.splits prod.splits) (metis fst_conv)

lemma quiet_if [quiet_intros]: "(b \<Longrightarrow> quiet P m) \<Longrightarrow> (\<not> b \<Longrightarrow> quiet P n) \<Longrightarrow> quiet P (if b then m else n)"
  by simp

lemma quiet_option [quiet_intros]: "(r = None \<Longrightarrow> quiet P m) \<Longrightarrow> (\<And>x. r = Some x \<Longrightarrow> quiet P (f x)) \<Longrightarrow> quiet P (case r of None \<Rightarrow> m | Some x \<Rightarrow> f x)"
  by (cases r) auto

lemma quiet_sum [quiet_intros]: "(\<And>x. r = Inl x \<Longrightarrow> quiet P (f x)) \<Longrightarrow> (\<And>x. r = Inr x \<Longrightarrow> quiet P (g x)) \<Longrightarrow> quiet P (case r of Inl x \<Rightarrow> f x | Inr x \<Rightarrow> g x)"
  by (cases r) auto

lemma quiet_prod [quiet_intros]: "(\<And>x y. quiet P (f x y)) \<Longrightarrow> quiet P (case p of (x, y) \<Rightarrow> f x y)"
  by (cases p) auto

lemma quiet_create: "plain_user ob registry \<Longrightarrow> quiet handled (server_create ob registry typeid args)"
  unfolding server_create_def server_incref_def Let_def
  by (intro quiet_intros) (auto dest: plain_userD split: list.split intro!: quiet_intros)

lemma quiet_call: "plain_user ob registry \<Longrightarrow> quiet handled (call_method ob registry obj exposed typeids meth args)"
  unfolding call_method_def
  by (intro quiet_intros quiet_create) (auto dest: plain_userD)

lemma quiet_fallback: "plain_user ob registry \<Longrightarrow> quiet is_Exception (fallback ob meth obj args)"
  unfolding fallback_def by (intro quiet_intros) (auto dest: plain_userD)

text \<open>Such a request is answered: what it raises is turned into a message, unless it is the end of the connection.\<close>

fun ordinary :: "'v recvd \<Rightarrow> bool" where
  "ordinary (RecvErr e) \<longleftrightarrow> handled e"
| "ordinary _ \<longleftrightarrow> True"

lemma quiet_serve_request:
  assumes "plain_user ob registry" "ordinary rq"
  shows "quiet (\<lambda>_. False) (serve_request ob registry rq)"
proof -
  have other: "quiet (\<lambda>_. False) (if e = EOFError then raise (SystemExit 0) else if is_Exception e then ret (Traceback e) else raise e)"
    if "handled e" for e
    using that by (auto intro: quiet_intros)
  show ?thesis
  proof (cases rq)
    case (RecvErr e)
    with assms(2) other show ?thesis by (auto simp: serve_request_def intro: quiet_intros)
  next
    case Garbage
    with other [of ValueError] show ?thesis by (simp add: serve_request_def)
  next
    case (Req ident meth args)
    have fb: "quiet (\<lambda>_. False) (catchA (bindA (fallback ob meth obj args) (\<lambda>r. ret (Return r))) (\<lambda>x. if is_Exception x then ret (Traceback x) else raise x))" for obj
      by (intro quiet_intros quiet_fallback [OF assms(1)]) simp_all
    have "quiet (\<lambda>_. False) (catchA (call_method ob registry obj exposed typeids meth args) (\<lambda>e.
        if e = AttributeError then catchA (bindA (fallback ob meth obj args) (\<lambda>r. ret (Return r)))
          (\<lambda>x. if is_Exception x then ret (Traceback x) else raise x)
        else if e = EOFError then raise (SystemExit 0) else if is_Exception e then ret (Traceback e) else raise e))" for obj exposed typeids
      by (rule quiet_catch_handled [OF quiet_call [OF assms(1)]], rule quiet_if, rule fb) (auto intro: quiet_basic(1))
    with Req other [of KeyError] other [of ValueError] show ?thesis
      unfolding serve_request_def Let_def by (auto intro!: quiet_intros(8) split: option.split entry.split)
  qed
qed

theorem session_answers:
  assumes "plain_user ob registry" "\<forall>rq \<in> set rqs. ordinary rq" "\<And>m. \<not> unsendable m" "\<not> sv_stop s"
  shows "\<exists>ms s'. accept_connection ob registry unsendable None rqs s = (Return ResNone # ms, Some (SystemExit 0), s') \<and> length ms = length rqs"
proof -
  have "\<exists>ms s'. serve_client ob registry unsendable rqs s = (ms, Some (SystemExit 0), s') \<and> length ms = length rqs"
    using assms(2,4)
  proof (induction rqs arbitrary: s)
    case (Cons rq rqs)
    obtain m t where m: "serve_request ob registry rq s = (Inr m, t)" "\<not> sv_stop t"
      using quiet_serve_request [OF assms(1), of rq] Cons.prems unfolding quiet_def
      by (cases "serve_request ob registry rq s"; cases "fst (serve_request ob registry rq s)") (auto, (metis fst_conv snd_conv)+)
    with Cons.IH [of t] Cons.prems assms(3) show ?case by force
  qed simp
  then show ?thesis by (auto simp: accept_connection_def)
qed

section \<open>Classes of proxies\<close>

text \<open>
  \<open>MakeProxyType\<close> with its cache; the classes it has made are numbered. \<open>compile\<close> is what \<open>exec\<close> raises for the definition of
  a method of that name. A method of the class calls \<open>_callmethod\<close> with the name it is mapped to.
\<close>

record pclass =
  pc_name :: string
  pc_exposed :: "string list"
  pc_methods :: "string \<Rightarrow> string option"

record classes =
  pc_cache :: "((string \<times> string list) \<times> nat) list"
  pc_made :: "pclass list"

fun exec_methods :: "(string \<Rightarrow> exn option) \<Rightarrow> string list \<Rightarrow> exn + (string \<Rightarrow> string option)" where
  "exec_methods compile [] = Inr (\<lambda>_. None)"
| "exec_methods compile (meth # ms) =
     (case compile meth of Some e \<Rightarrow> Inl e
      | None \<Rightarrow> (case exec_methods compile ms of Inl e \<Rightarrow> Inl e | Inr dic \<Rightarrow> Inr (dic(meth \<mapsto> meth))))"

definition MakeProxyType :: "(string \<Rightarrow> exn option) \<Rightarrow> string \<Rightarrow> string list \<Rightarrow> (classes, nat) act" where
  "MakeProxyType compile name exposed s =
     (case map_of (pc_cache s) (name, exposed) of
        Some n \<Rightarrow> (Inr n, s)
      | None \<Rightarrow> (case exec_methods compile exposed of
            Inl e \<Rightarrow> (Inl e, s)
          | Inr dic \<Rightarrow> (Inr (length (pc_made s)),
              s\<lparr>pc_cache := ((name, exposed), length (pc_made s)) # pc_cache s, pc_made := pc_made s @ [\<lparr>pc_name = name, pc_exposed = exposed, pc_methods = dic\<rparr>]\<rparr>)))"

text \<open>
  \<open>AutoProxy\<close>: \<open>methods key\<close> is what a connection made with \<open>key\<close> and the request \<open>get_methods\<close> give. The result is the
  class and the key of the proxy. The keys of the manager and of the process stand in only after that connection has been made.
\<close>

definition auto_proxy ::
  "('k option \<Rightarrow> exn + string list) \<Rightarrow> (string \<Rightarrow> exn option) \<Rightarrow> string \<Rightarrow> 'k option \<Rightarrow> 'k \<Rightarrow> 'k option \<Rightarrow> string list option \<Rightarrow> (classes, nat \<times> 'k) act" where
  "auto_proxy methods compile typeid manager_key process_key authkey exposed =
     bindA (case exposed of Some xs \<Rightarrow> ret xs
            | None \<Rightarrow> (case methods authkey of Inl e \<Rightarrow> raise e | Inr xs \<Rightarrow> ret xs)) (\<lambda>xs.
     let key = (case authkey of Some k \<Rightarrow> k | None \<Rightarrow> (case manager_key of Some k \<Rightarrow> k | None \<Rightarrow> process_key)) in
     bindA (MakeProxyType compile (''AutoProxy['' @ typeid @ '']'') xs) (\<lambda>c. ret (c, key)))"

definition classes_ok :: "classes \<Rightarrow> bool" where
  "classes_ok s \<longleftrightarrow> distinct (map snd (pc_cache s)) \<and> (\<forall>((name, exposed), n) \<in> set (pc_cache s). n < length (pc_made s) \<and>
     pc_made s ! n = \<lparr>pc_name = name, pc_exposed = exposed, pc_methods = (\<lambda>m. if m \<in> set exposed then Some m else None)\<rparr>)"

lemma exec_methods_ok:
  "exec_methods compile ms = Inr dic \<Longrightarrow> dic = (\<lambda>m. if m \<in> set ms then Some m else None)"
  by (induction ms arbitrary: dic) (auto split: option.splits sum.splits)

text \<open>
  A class of proxies has the methods that are exposed and no other, each sending its own name; asking again for
  the same gives the same class, and different ones never share one.
\<close>

lemma MakeProxyType_ok:
  assumes "MakeProxyType compile name exposed s = (Inr n, s')" "classes_ok s"
  shows "classes_ok s' \<and> map_of (pc_cache s') (name, exposed) = Some n \<and>
    pc_made s' ! n = \<lparr>pc_name = name, pc_exposed = exposed, pc_methods = (\<lambda>m. if m \<in> set exposed then Some m else None)\<rparr>"
proof (cases "map_of (pc_cache s) (name, exposed)")
  case (Some k)
  with assms show ?thesis by (auto simp: MakeProxyType_def classes_ok_def dest: map_of_SomeD)
next
  case None
  with assms(1) obtain dic where d: "exec_methods compile exposed = Inr dic" "n = length (pc_made s)"
      "s' = s\<lparr>pc_cache := ((name, exposed), n) # pc_cache s, pc_made := pc_made s @ [\<lparr>pc_name = name, pc_exposed = exposed, pc_methods = dic\<rparr>]\<rparr>"
    by (auto simp: MakeProxyType_def split: sum.splits)
  have "\<forall>((name, exposed), k) \<in> set (pc_cache s). k < n" using assms(2) d(2) unfolding classes_ok_def by fast
  then have "n \<notin> set (map snd (pc_cache s))" by auto
  with d assms(2) exec_methods_ok [OF d(1)] show ?thesis
    by (fastforce simp: classes_ok_def nth_append)
qed

lemma MakeProxyType_again:
  assumes "MakeProxyType compile name exposed s = (Inr n, s')" "classes_ok s"
  shows "MakeProxyType compile' name exposed s' = (Inr n, s')"
  using MakeProxyType_ok [OF assms] by (simp add: MakeProxyType_def)

section \<open>Namespaces\<close>

text \<open>A dictionary of attributes, in the order in which they were first set.\<close>

definition hidden :: "string \<Rightarrow> bool" where
  "hidden name \<longleftrightarrow> take 1 name = ''_''"

fun join_with :: "string \<Rightarrow> string list \<Rightarrow> string" where
  "join_with sep [] = []"
| "join_with sep [x] = x"
| "join_with sep (x # xs) = x @ sep @ join_with sep xs"

definition Namespace_repr :: "('v \<Rightarrow> string) \<Rightarrow> string \<Rightarrow> (string \<times> 'v) list \<Rightarrow> string" where
  "Namespace_repr rep class_name items =
     (let temp = map (\<lambda>(name, v). name @ ''='' @ rep v) (filter (\<lambda>(name, v). \<not> hidden name) items)
      in class_name @ ''('' @ join_with '', '' (sort temp) @ '')'')"

lemma sort_mset: "mset xs = mset ys \<Longrightarrow> sort xs = sort ys"
  by (metis properties_for_sort sorted_sort mset_sort)

lemma Namespace_repr_order:
  assumes "mset items = mset items'"
  shows "Namespace_repr rep class_name items = Namespace_repr rep class_name items'"
proof -
  have "mset (map (\<lambda>(name, v). name @ ''='' @ rep v) (filter (\<lambda>(name, v). \<not> hidden name) items)) =
      mset (map (\<lambda>(name, v). name @ ''='' @ rep v) (filter (\<lambda>(name, v). \<not> hidden name) items'))"
    using assms by simp
  from sort_mset [OF this] show ?thesis by (simp add: Namespace_repr_def)
qed

text \<open>
  A namespace in the server and its proxies: an attribute whose name starts with an underscore is the proxy's own, the others
  are asked of the server. The first character of the empty name does not exist.
\<close>

record 'v namespace =
  ns_remote :: "(string \<times> 'v) list"
  ns_local :: "nat \<Rightarrow> (string \<times> 'v) list"

definition first_char :: "string \<Rightarrow> ('s, char) act" where
  "first_char key = (case key of [] \<Rightarrow> raise IndexError | c # _ \<Rightarrow> ret c)"

definition ns_getattr :: "nat \<Rightarrow> string \<Rightarrow> ('v namespace, 'v) act" where
  "ns_getattr p key = bindA (first_char key) (\<lambda>c.
     if c = CHR ''_'' then fetchA (\<lambda>s. map_of (ns_local s p) key) AttributeError
     else fetchA (\<lambda>s. map_of (ns_remote s) key) AttributeError)"

definition ns_setattr :: "nat \<Rightarrow> string \<Rightarrow> 'v \<Rightarrow> ('v namespace, unit) act" where
  "ns_setattr p key v = bindA (first_char key) (\<lambda>c.
     if c = CHR ''_'' then modifyA (\<lambda>s. s\<lparr>ns_local := (ns_local s)(p := AList.update key v (ns_local s p))\<rparr>)
     else modifyA (\<lambda>s. s\<lparr>ns_remote := AList.update key v (ns_remote s)\<rparr>))"

definition ns_delattr :: "nat \<Rightarrow> string \<Rightarrow> ('v namespace, unit) act" where
  "ns_delattr p key = bindA (first_char key) (\<lambda>c.
     if c = CHR ''_'' then bindA (fetchA (\<lambda>s. map_of (ns_local s p) key) AttributeError) (\<lambda>_.
       modifyA (\<lambda>s. s\<lparr>ns_local := (ns_local s)(p := AList.delete key (ns_local s p))\<rparr>))
     else bindA (fetchA (\<lambda>s. map_of (ns_remote s) key) AttributeError) (\<lambda>_.
       modifyA (\<lambda>s. s\<lparr>ns_remote := AList.delete key (ns_remote s)\<rparr>)))"

text \<open>What one proxy sets every other one reads, unless the name is private; nothing else changes.\<close>

lemma ns_set_get:
  assumes "key \<noteq> []"
  shows "fst (ns_getattr q k (snd (ns_setattr p key v s))) =
    (if k = key \<and> (p = q \<or> \<not> hidden key) then Inr v else fst (ns_getattr q k s))"
  using assms
  by (cases k; cases key)
    (auto simp: ns_getattr_def ns_setattr_def first_char_def hidden_def act_defs update_conv' split: option.splits)

lemma ns_delete_get:
  assumes "fst (ns_delattr p key s) = Inr ()"
  shows "fst (ns_getattr q k (snd (ns_delattr p key s))) =
    (if k = key \<and> (p = q \<or> \<not> hidden key) then Inl AttributeError else fst (ns_getattr q k s))"
  using assms
  by (cases k; cases key)
    (auto simp: ns_getattr_def ns_delattr_def first_char_def hidden_def act_defs delete_conv' split: option.splits if_splits)

lemma ns_empty_name: "fst (ns_getattr p [] s) = Inl IndexError" "fst (ns_setattr p [] v s) = Inl IndexError"
  by (simp_all add: ns_getattr_def ns_setattr_def first_char_def act_defs)

end
