(* ===== verification/Resource_Sharer.thy ===== *)
theory Resource_Sharer
  imports Prelude
begin

text \<open>
  \<open>_ResourceSharer\<close> and \<open>DupFd\<close> of \<open>billiard/resource_sharer.py\<close> (POSIX part): descriptors that are duplicated
  and registered under a key, the thread that sends each one to the process that asks for its key, \<open>stop\<close>, and what
  a forked child does with the copy it has inherited. The state machine interleaves the callers (one at a time, under
  the lock), the clients and the steps of the thread. Descriptors are numbered in the order they have been
  opened, so that a number names one opening; \<open>stop\<close> is called without a timeout.
\<close>

section \<open>The state\<close>

text \<open>Where the thread is: not there, before \<open>accept\<close>, after \<open>pop\<close>, after \<open>send\<close> and before \<open>close\<close>.\<close>

datatype thread = NoThread | Accepting | Popped nat nat | Closing nat nat

record sharer =
  rs_key :: nat
  rs_cache :: "(nat \<times> nat) list"      \<comment> \<open>key and descriptor of the closures \<open>send\<close> and \<open>close\<close>\<close>
  rs_listening :: bool                  \<comment> \<open>\<open>_listener\<close>, \<open>_address\<close> and \<open>_thread\<close> are set\<close>
  rs_thread :: thread
  rs_stopping :: bool                   \<comment> \<open>\<open>stop\<close> has the lock and waits in \<open>join\<close>\<close>
  rs_backlog :: "nat option list"      \<comment> \<open>connections to accept, each with its message\<close>
  rs_next :: nat
  rs_open :: "nat list"
  rs_closed :: "nat list"
  rs_sent :: "(nat \<times> nat) list"
  rs_registered :: "(nat \<times> nat) list"
  rs_lost :: "nat list"                 \<comment> \<open>duplicated by a \<open>DupFd\<close> whose registration failed\<close>

definition new_sharer :: sharer where
  "new_sharer = \<lparr>rs_key = 0, rs_cache = [], rs_listening = False, rs_thread = NoThread, rs_stopping = False, rs_backlog = [],
     rs_next = 0, rs_open = [], rs_closed = [], rs_sent = [], rs_registered = [], rs_lost = []\<rparr>"

section \<open>The operations\<close>

definition os_dup :: "exn option \<Rightarrow> (sharer, nat) act" where
  "os_dup e s = (case e of Some x \<Rightarrow> (Inl x, s)
     | None \<Rightarrow> (Inr (rs_next s), s\<lparr>rs_next := Suc (rs_next s), rs_open := rs_next s # rs_open s\<rparr>))"

definition close :: "nat \<Rightarrow> (sharer, unit) act" where
  "close fd s = (if fd \<in> set (rs_open s) then (Inr (), s\<lparr>rs_open := remove1 fd (rs_open s), rs_closed := fd # rs_closed s\<rparr>)
     else (Inl (OSError 9), s\<lparr>rs_closed := fd # rs_closed s\<rparr>))"

text \<open>\<open>_start\<close>; \<open>e\<close> is the error of the listener.\<close>

definition start :: "exn option \<Rightarrow> (sharer, unit) act" where
  "start e =
     bindA (assertA (\<lambda>s. \<not> rs_listening s) AssertionError) (\<lambda>_.
     case e of Some x \<Rightarrow> raise x
     | None \<Rightarrow> modifyA (\<lambda>s. s\<lparr>rs_listening := True, rs_thread := Accepting, rs_backlog := []\<rparr>))"

definition register :: "exn option \<Rightarrow> nat \<Rightarrow> (sharer, nat) act" where
  "register e fd =
     bindA (readA (\<lambda>s. whenA (\<not> rs_listening s) (start e))) (\<lambda>_.
     bindA (modifyA (\<lambda>s. s\<lparr>rs_key := rs_key s + 1, rs_cache := (rs_key s + 1, fd) # rs_cache s,
        rs_registered := (rs_key s + 1, fd) # rs_registered s\<rparr>)) (\<lambda>_. getsA rs_key))"

text \<open>\<open>DupFd(fd)\<close>; nothing closes the duplicate when the registration fails.\<close>

definition DupFd :: "exn option \<Rightarrow> exn option \<Rightarrow> (sharer, nat) act" where
  "DupFd e1 e2 = bindA (os_dup e1) (\<lambda>fd.
     catchA (register e2 fd) (\<lambda>x. bindA (modifyA (\<lambda>s. s\<lparr>rs_lost := fd # rs_lost s\<rparr>)) (\<lambda>_. raise x)))"

text \<open>One pass of \<open>_serve\<close> up to \<open>pop\<close>: an unknown key is an exception that is reported, and the loop goes on.\<close>

definition serve_accept :: "sharer \<Rightarrow> sharer option" where
  "serve_accept s =
     (case (rs_thread s, rs_backlog s) of
        (Accepting, None # ms) \<Rightarrow> Some (s\<lparr>rs_thread := NoThread, rs_backlog := ms\<rparr>)
      | (Accepting, Some k # ms) \<Rightarrow>
          (case map_of (rs_cache s) k of
             None \<Rightarrow> Some (s\<lparr>rs_backlog := ms\<rparr>)
           | Some fd \<Rightarrow> Some (s\<lparr>rs_backlog := ms, rs_cache := filter (\<lambda>(k', _). k' \<noteq> k) (rs_cache s), rs_thread := Popped k fd\<rparr>))
      | _ \<Rightarrow> None)"

definition serve_send :: "exn option \<Rightarrow> sharer \<Rightarrow> sharer option" where
  "serve_send e s =
     (case rs_thread s of
        Popped k fd \<Rightarrow> Some (if e = None \<and> fd \<in> set (rs_open s) then s\<lparr>rs_sent := (k, fd) # rs_sent s, rs_thread := Closing k fd\<rparr>
          else s\<lparr>rs_thread := Closing k fd\<rparr>)
      | _ \<Rightarrow> None)"

definition serve_close :: "sharer \<Rightarrow> sharer option" where
  "serve_close s = (case rs_thread s of Closing k fd \<Rightarrow> Some ((snd (close fd s))\<lparr>rs_thread := Accepting\<rparr>) | _ \<Rightarrow> None)"

text \<open>\<open>stop\<close>: first the message that ends the thread, then, when \<open>join\<close> returns, the rest.\<close>

definition stop_begin :: "exn option \<Rightarrow> sharer \<Rightarrow> sharer" where
  "stop_begin e s = (if \<not> rs_listening s \<or> e \<noteq> None then s else s\<lparr>rs_backlog := rs_backlog s @ [None], rs_stopping := True\<rparr>)"

primrec close_all :: "(nat \<times> nat) list \<Rightarrow> (sharer, unit) act" where
  "close_all [] = ret ()"
| "close_all (c # cs) = bindA (close (snd c)) (\<lambda>_. close_all cs)"

definition stop_end :: "(sharer, unit) act" where
  "stop_end =
     bindA (modifyA (\<lambda>s. s\<lparr>rs_listening := False, rs_backlog := [], rs_stopping := False\<rparr>)) (\<lambda>_.
     bindA (readA (\<lambda>s. close_all (rs_cache s))) (\<lambda>_.
     modifyA (\<lambda>s. s\<lparr>rs_cache := []\<rparr>)))"

text \<open>A forked child has the descriptors and the object but neither the thread nor the caller that may be in \<open>stop\<close>.\<close>

definition forked :: "sharer \<Rightarrow> sharer" where
  "forked s = s\<lparr>rs_thread := NoThread, rs_stopping := False, rs_closed := [], rs_sent := []\<rparr>"

definition afterfork :: "(sharer, unit) act" where
  "afterfork =
     bindA (readA (\<lambda>s. close_all (rs_cache s))) (\<lambda>_.
     modifyA (\<lambda>s. s\<lparr>rs_cache := [], rs_listening := False, rs_backlog := [], rs_thread := NoThread\<rparr>))"

section \<open>The state machine\<close>

text \<open>Making a \<open>DupFd\<close>, a client that asks for a key, the steps of the thread, and the two halves of \<open>stop\<close>.\<close>

datatype event = EDup "exn option" "exn option" | EAsk nat | EAccept | ESend "exn option" | EClose | EStop "exn option" | EStopped

fun sharer_step :: "event \<Rightarrow> sharer \<Rightarrow> sharer option" where
  "sharer_step (EDup e1 e2) s = (if rs_stopping s then None else Some (snd (DupFd e1 e2 s)))"
| "sharer_step (EAsk k) s = (if rs_listening s then Some (s\<lparr>rs_backlog := rs_backlog s @ [Some k]\<rparr>) else None)"
| "sharer_step EAccept s = serve_accept s"
| "sharer_step (ESend e) s = serve_send e s"
| "sharer_step EClose s = serve_close s"
| "sharer_step (EStop e) s = (if rs_stopping s then None else Some (stop_begin e s))"
| "sharer_step EStopped s = (if rs_stopping s \<and> rs_thread s = NoThread then Some (snd (stop_end s)) else None)"

fun sharer_run :: "event list \<Rightarrow> sharer \<Rightarrow> sharer option" where
  "sharer_run [] s = Some s"
| "sharer_run (e # es) s = (case sharer_step e s of None \<Rightarrow> None | Some s' \<Rightarrow> sharer_run es s')"

section \<open>The invariant\<close>

fun served :: "thread \<Rightarrow> (nat \<times> nat) list" where
  "served (Popped k fd) = [(k, fd)]"
| "served (Closing k fd) = [(k, fd)]"
| "served _ = []"

text \<open>The registrations the sharer still holds.\<close>

definition held :: "sharer \<Rightarrow> (nat \<times> nat) list" where
  "held s = served (rs_thread s) @ rs_cache s"

text \<open>The descriptors: those held or lost are the open ones, all others have been closed, once.\<close>

definition res_ok :: "(nat \<times> nat) list \<Rightarrow> nat list \<Rightarrow> (nat \<times> nat) list \<Rightarrow> nat \<Rightarrow> nat \<Rightarrow> nat list \<Rightarrow> nat list \<Rightarrow> bool" where
  "res_ok h lost reg key next opn clo \<longleftrightarrow>
     distinct (map fst h) \<and> distinct (map snd h @ lost) \<and> set h \<subseteq> set reg \<and> distinct (map fst reg) \<and>
     (\<forall>r \<in> set reg. fst r \<le> key \<and> snd r < next) \<and> distinct opn \<and> distinct clo \<and>
     set opn = snd ` set h \<union> set lost \<and> set opn \<inter> set clo = {} \<and> set opn \<union> set clo = {..< next}"

text \<open>The keys that have been sent are registered, each at most once, and no longer in the cache.\<close>

definition sent_ok :: "(nat \<times> nat) list \<Rightarrow> (nat \<times> nat) list \<Rightarrow> (nat \<times> nat) list \<Rightarrow> thread \<Rightarrow> nat \<Rightarrow> bool" where
  "sent_ok sent reg cache th key \<longleftrightarrow>
     set sent \<subseteq> set reg \<and> distinct (map fst sent) \<and> fst ` set sent \<inter> fst ` set cache = {} \<and> fst ` set sent \<subseteq> {..key} \<and>
     (\<forall>k fd. th = Popped k fd \<longrightarrow> k \<notin> fst ` set sent)"

text \<open>The thread lives while there is a listener, up to the message of \<open>stop\<close>.\<close>

definition ctl_ok :: "bool \<Rightarrow> bool \<Rightarrow> thread \<Rightarrow> nat option list \<Rightarrow> (nat \<times> nat) list \<Rightarrow> bool" where
  "ctl_ok listening stopping th backlog cache \<longleftrightarrow>
     (\<not> listening \<longrightarrow> cache = [] \<and> \<not> stopping \<and> th = NoThread) \<and>
     (listening \<and> \<not> stopping \<longrightarrow> th \<noteq> NoThread \<and> None \<notin> set backlog) \<and>
     (stopping \<and> th \<noteq> NoThread \<longrightarrow> None \<in> set backlog)"

definition sharer_inv :: "sharer \<Rightarrow> bool" where
  "sharer_inv s \<longleftrightarrow>
     res_ok (held s) (rs_lost s) (rs_registered s) (rs_key s) (rs_next s) (rs_open s) (rs_closed s) \<and>
     sent_ok (rs_sent s) (rs_registered s) (rs_cache s) (rs_thread s) (rs_key s) \<and>
     ctl_ok (rs_listening s) (rs_stopping s) (rs_thread s) (rs_backlog s) (rs_cache s)"

lemma res_ok_perm: "res_ok h lost reg key next opn clo \<Longrightarrow> mset h = mset h' \<Longrightarrow> res_ok h' lost reg key next opn clo"
  unfolding res_ok_def by (metis (no_types, opaque_lifting) distinct_append mset_eq_imp_distinct_iff mset_eq_setD mset_map)

lemma res_ok_close: "res_ok (c # h) lost reg key next opn clo \<Longrightarrow>
    snd c \<in> set opn \<and> res_ok h lost reg key next (remove1 (snd c) opn) (snd c # clo)"
  unfolding res_ok_def by auto

lemma res_ok_dup: "res_ok h lost reg key next opn clo \<Longrightarrow>
    res_ok ((Suc key, next) # h) lost ((Suc key, next) # reg) (Suc key) (Suc next) (next # opn) clo"
proof -
  assume r: "res_ok h lost reg key next opn clo"
  have "set opn \<union> set clo = {..< next}" using r unfolding res_ok_def by blast
  then have "next \<notin> set opn \<union> set clo" by (metis lessThan_iff less_irrefl)
  then have n: "next \<notin> set opn" "next \<notin> set clo" by auto
  moreover have "next \<notin> snd ` set h" "next \<notin> set lost" using n r unfolding res_ok_def by blast+
  moreover have k: "\<forall>r \<in> set reg. fst r \<le> key" using r unfolding res_ok_def by blast
  then have "Suc key \<notin> fst ` set reg" by (metis Suc_n_not_le_n imageE)
  moreover from this have "Suc key \<notin> fst ` set h" using r unfolding res_ok_def by auto
  ultimately show ?thesis using r unfolding res_ok_def by (simp add: lessThan_Suc less_Suc_eq le_SucI) blast
qed

lemma res_ok_lost: "res_ok h lost reg key next opn clo \<Longrightarrow> res_ok h (next # lost) reg key (Suc next) (next # opn) clo"
proof -
  assume r: "res_ok h lost reg key next opn clo"
  have "set opn \<union> set clo = {..< next}" using r unfolding res_ok_def by blast
  then have "next \<notin> set opn \<union> set clo" by (metis lessThan_iff less_irrefl)
  then have n: "next \<notin> set opn" "next \<notin> set clo" by auto
  moreover have "next \<notin> snd ` set h" "next \<notin> set lost" using n r unfolding res_ok_def by blast+
  ultimately show ?thesis using r unfolding res_ok_def by (simp add: lessThan_Suc less_Suc_eq) blast
qed

lemma sent_ok_idle: "sent_ok sent reg cache th key \<Longrightarrow> (\<And>k fd. th' \<noteq> Popped k fd) \<Longrightarrow> sent_ok sent reg cache th' key"
  by (simp add: sent_ok_def)

lemma sent_ok_dup: "sent_ok sent reg cache th key \<Longrightarrow> sent_ok sent (r # reg) ((Suc key, fd) # cache) th (Suc key)"
  unfolding sent_ok_def by (simp add: subset_insertI2 disjoint_iff) (metis atMost_iff image_eqI le_SucI not_less_eq_eq subset_iff)


lemma inv_new: "sharer_inv new_sharer"
  by (simp add: sharer_inv_def new_sharer_def held_def res_ok_def sent_ok_def ctl_ok_def)

lemma inv_ask: "sharer_inv s \<Longrightarrow> sharer_step (EAsk k) s = Some s' \<Longrightarrow> sharer_inv s'"
  by (auto simp: sharer_inv_def held_def ctl_ok_def split: if_splits)

lemma inv_stop: "sharer_inv s \<Longrightarrow> sharer_step (EStop e) s = Some s' \<Longrightarrow> sharer_inv s'"
  by (auto simp: sharer_inv_def held_def stop_begin_def ctl_ok_def split: if_splits)

lemma mset_cache_pop:
  assumes "distinct (map fst c)" "map_of c k = Some fd"
  shows "mset ((k, fd) # filter (\<lambda>(k', _). k' \<noteq> k) c) = mset c"
  using assms
proof (induction c)
  case (Cons x c)
  obtain a b where x: "x = (a, b)" by (cases x)
  show ?case
  proof (cases "a = k")
    case True
    have "filter (\<lambda>(k', _). k' \<noteq> k) c = c" using Cons.prems(1) True x by (force simp: filter_id_conv)
    then show ?thesis using Cons.prems(2) True x by simp
  next
    case False
    then show ?thesis using Cons x by (simp add: add_mset_commute)
  qed
qed simp

lemma inv_accept: 
  assumes i: "sharer_inv s" and s: "sharer_step EAccept s = Some s'" 
  shows "sharer_inv s'"
proof -
  obtain m ms where m: "rs_thread s = Accepting" "rs_backlog s = m # ms"
    using s by (auto simp: serve_accept_def split: thread.splits list.splits)
  show ?thesis
  proof (cases m)
    case None
    then show ?thesis using i s m sent_ok_idle [of "rs_sent s" "rs_registered s" "rs_cache s" Accepting "rs_key s" NoThread]
      by (auto simp: sharer_inv_def held_def serve_accept_def ctl_ok_def)
  next
    case (Some k)
    show ?thesis
    proof (cases "map_of (rs_cache s) k")
      case None
      then show ?thesis using i s m Some by (auto simp: sharer_inv_def held_def serve_accept_def ctl_ok_def split: if_splits)
    next
      case fd: (Some fd)
      have s': "s' = s\<lparr>rs_backlog := ms, rs_cache := filter (\<lambda>(k', _). k' \<noteq> k) (rs_cache s), rs_thread := Popped k fd\<rparr>"
        using s m Some fd by (simp add: serve_accept_def)
      have "distinct (map fst (rs_cache s))" using i m by (simp add: sharer_inv_def res_ok_def held_def)
      from mset_cache_pop [OF this fd] res_ok_perm
      have "res_ok (held s') (rs_lost s) (rs_registered s) (rs_key s) (rs_next s) (rs_open s) (rs_closed s)"
        using i m unfolding sharer_inv_def held_def s' by fastforce
      moreover have "k \<in> fst ` set (rs_cache s)" using map_of_SomeD [OF fd] by force
      then have "sent_ok (rs_sent s) (rs_registered s) (rs_cache s') (rs_thread s') (rs_key s)"
        using i m unfolding sharer_inv_def sent_ok_def s' by auto
      ultimately show ?thesis using i m Some unfolding sharer_inv_def s' by (auto simp: ctl_ok_def)
    qed
  qed
qed

lemma sent_ok_send: "sent_ok sent reg cache (Popped k fd) key \<Longrightarrow> (k, fd) \<in> set reg \<Longrightarrow> k \<notin> fst ` set cache \<Longrightarrow> k \<le> key \<Longrightarrow>
    sent_ok ((k, fd) # sent) reg cache (Closing k fd) key"
  by (simp add: sent_ok_def)

lemma inv_send:
  assumes i: "sharer_inv s" and s: "sharer_step (ESend e) s = Some s'"
  shows "sharer_inv s'"
proof -
  obtain k fd where m: "rs_thread s = Popped k fd"
    using s by (auto simp: serve_send_def split: thread.splits)
  have "(k, fd) \<in> set (rs_registered s)" "k \<notin> fst ` set (rs_cache s)"
    using i m by (auto simp: sharer_inv_def held_def res_ok_def)
  moreover from this have "k \<le> rs_key s" using i unfolding sharer_inv_def res_ok_def by fastforce
  moreover have "sent_ok (rs_sent s) (rs_registered s) (rs_cache s) (Popped k fd) (rs_key s)"
    using i m by (simp add: sharer_inv_def)
  ultimately have "sent_ok ((k, fd) # rs_sent s) (rs_registered s) (rs_cache s) (Closing k fd) (rs_key s)"
    "sent_ok (rs_sent s) (rs_registered s) (rs_cache s) (Closing k fd) (rs_key s)"
    using sent_ok_send sent_ok_idle by blast+
  then show ?thesis using i s m
    by (auto simp: sharer_inv_def held_def serve_send_def ctl_ok_def split: if_splits)
qed

lemma inv_close: 
  assumes i: "sharer_inv s" and s: "sharer_step EClose s = Some s'" 
  shows "sharer_inv s'"
proof -
  obtain k fd where m: "rs_thread s = Closing k fd"
    using s by (auto simp: serve_close_def split: thread.splits)
  have "res_ok ((k, fd) # rs_cache s) (rs_lost s) (rs_registered s) (rs_key s) (rs_next s) (rs_open s) (rs_closed s)"
    using i m by (simp add: sharer_inv_def held_def)
  from res_ok_close [OF this] show ?thesis using i s m
      sent_ok_idle [of "rs_sent s" "rs_registered s" "rs_cache s" "Closing k fd" "rs_key s" Accepting]
    by (auto simp: sharer_inv_def held_def serve_close_def close_def ctl_ok_def)
qed

lemma close_all_ok:
  assumes "res_ok (cs @ h) (rs_lost s) (rs_registered s) (rs_key s) (rs_next s) (rs_open s) (rs_closed s)"
  shows "\<exists>s'. close_all cs s = (Inr (), s') \<and> s' = s\<lparr>rs_open := rs_open s', rs_closed := rs_closed s'\<rparr> \<and>
    res_ok h (rs_lost s) (rs_registered s) (rs_key s) (rs_next s) (rs_open s') (rs_closed s')"
  using assms
proof (induction cs arbitrary: s)
  case (Cons c cs)
  from res_ok_close [of c "cs @ h"] Cons.prems
  have c: "snd c \<in> set (rs_open s)" "res_ok (cs @ h) (rs_lost s) (rs_registered s) (rs_key s) (rs_next s)
      (remove1 (snd c) (rs_open s)) (snd c # rs_closed s)" by simp_all
  let ?s = "s\<lparr>rs_open := remove1 (snd c) (rs_open s), rs_closed := snd c # rs_closed s\<rparr>"
  from Cons.IH [of ?s] c obtain s' where "close_all cs ?s = (Inr (), s')" "s' = ?s\<lparr>rs_open := rs_open s', rs_closed := rs_closed s'\<rparr>"
    "res_ok h (rs_lost s) (rs_registered s) (rs_key s) (rs_next s) (rs_open s') (rs_closed s')" by auto
  then show ?case using c by (auto simp: close_def bindA_def)
qed (simp add: ret_def)

lemma inv_stopped: 
  assumes i: "sharer_inv s" and s: "sharer_step EStopped s = Some s'" 
  shows "sharer_inv s' \<and> rs_cache s' = [] \<and> \<not> rs_listening s' \<and> fst (stop_end s) = Inr () \<and> rs_thread s' = NoThread"
proof -
  have m: "rs_stopping s" "rs_thread s = NoThread" using s by (auto split: if_splits)
  let ?s = "s\<lparr>rs_listening := False, rs_backlog := [], rs_stopping := False\<rparr>"
  have "res_ok (rs_cache ?s @ []) (rs_lost ?s) (rs_registered ?s) (rs_key ?s) (rs_next ?s) (rs_open ?s) (rs_closed ?s)"
    using i m by (simp add: sharer_inv_def held_def)
  from close_all_ok [OF this] obtain t where t: "close_all (rs_cache s) ?s = (Inr (), t)" "t = ?s\<lparr>rs_open := rs_open t, rs_closed := rs_closed t\<rparr>"
    "res_ok [] (rs_lost s) (rs_registered s) (rs_key s) (rs_next s) (rs_open t) (rs_closed t)" by auto
  then have e: "stop_end s = (Inr (), t\<lparr>rs_cache := []\<rparr>)" by (simp add: stop_end_def act_defs)
  have f: "rs_lost t = rs_lost s" "rs_registered t = rs_registered s" "rs_key t = rs_key s" "rs_next t = rs_next s"
    "rs_sent t = rs_sent s" "rs_thread t = rs_thread s" "rs_listening t = False" "rs_stopping t = False" "rs_backlog t = []"
    by (subst t(2), simp)+
  have "s' = t\<lparr>rs_cache := []\<rparr>" using s m e by simp
  then show ?thesis using t(3) i m f e by (simp add: sharer_inv_def held_def sent_ok_def ctl_ok_def)
qed

lemma inv_dup:
  assumes i: "sharer_inv s" and s: "sharer_step (EDup e1 e2) s = Some s'" 
  shows "sharer_inv s'"
proof -
  have st: "\<not> rs_stopping s" "s' = snd (DupFd e1 e2 s)" using s by (auto split: if_splits)
  let ?n = "rs_next s" and ?k = "Suc (rs_key s)"
  have r: "res_ok (held s) (rs_lost s) (rs_registered s) (rs_key s) ?n (rs_open s) (rs_closed s)"
    and sent: "sent_ok (rs_sent s) (rs_registered s) (rs_cache s) (rs_thread s) (rs_key s)"
    using i by (auto simp: sharer_inv_def)
  have sent': "sent_ok (rs_sent s) ((?k, ?n) # rs_registered s) ((?k, ?n) # rs_cache s) (rs_thread s) ?k"
    using sent by (rule sent_ok_dup)
  have r': "res_ok (served (rs_thread s) @ (?k, ?n) # rs_cache s) (rs_lost s) ((?k, ?n) # rs_registered s) ?k (Suc ?n) (?n # rs_open s) (rs_closed s)"
    using res_ok_perm [OF res_ok_dup [OF r], of "served (rs_thread s) @ (?k, ?n) # rs_cache s"] by (simp add: held_def)
  show ?thesis
  proof (cases "e1 = None \<and> (rs_listening s \<or> e2 = None)")
    case True
    show ?thesis
    proof (cases "rs_listening s")
      case l: True
      then show ?thesis using st i True sent' r'
        by (auto simp: sharer_inv_def held_def DupFd_def register_def os_dup_def act_defs ctl_ok_def)
    next
      case l: False
      then have "rs_thread s = NoThread" using i by (simp add: sharer_inv_def ctl_ok_def)
      then show ?thesis using st i True l r' sent_ok_idle [OF sent', of Accepting]
        by (auto simp: sharer_inv_def held_def DupFd_def register_def start_def os_dup_def act_defs ctl_ok_def)
    qed
  next
    case False
    then show ?thesis using st i res_ok_lost [OF r]
      by (cases e1; cases e2) (auto simp: sharer_inv_def held_def DupFd_def register_def start_def os_dup_def act_defs ctl_ok_def)
  qed
qed

lemma sharer_step_inv: "sharer_inv s \<Longrightarrow> sharer_step e s = Some s' \<Longrightarrow> sharer_inv s'"
  using inv_dup inv_ask inv_accept inv_send inv_close inv_stop inv_stopped by (cases e) blast+

lemma inv_run: "sharer_inv s \<Longrightarrow> sharer_run es s = Some s' \<Longrightarrow> sharer_inv s'"
  by (induction es arbitrary: s) (auto split: option.splits intro: sharer_step_inv)

lemma sharer_run_append: "sharer_run (es @ fs) s = (case sharer_run es s of None \<Rightarrow> None | Some s' \<Rightarrow> sharer_run fs s')"
  by (induction es arbitrary: s) (auto split: option.splits)

lemma run_then: "sharer_run es s = Some t \<Longrightarrow> sharer_run fs t = Some u \<Longrightarrow> sharer_run (es @ fs) s = Some u"
  by (simp add: sharer_run_append)

text \<open>What the thread has popped it deals with.\<close>

lemma closing_finishes:
  assumes "rs_thread s = Closing k fd"
  shows "\<exists>t. sharer_run [EClose] s = Some t \<and> rs_thread t = Accepting \<and>
    rs_stopping t = rs_stopping s \<and> rs_backlog t = rs_backlog s \<and> rs_cache t = rs_cache s \<and> rs_sent t = rs_sent s \<and>
    rs_open t = remove1 fd (rs_open s)"
proof -
  have "sharer_run [EClose] s = Some ((snd (close fd s))\<lparr>rs_thread := Accepting\<rparr>)" using assms by (simp add: serve_close_def)
  then show ?thesis by (simp add: close_def remove1_idem)
qed

lemma popped_finishes:
  assumes p: "rs_thread s = Popped k fd"
  shows "\<exists>t. sharer_run [ESend None, EClose] s = Some t \<and> rs_thread t = Accepting \<and>
    rs_stopping t = rs_stopping s \<and> rs_backlog t = rs_backlog s \<and> rs_cache t = rs_cache s \<and>
    rs_sent t = (if fd \<in> set (rs_open s) then [(k, fd)] else []) @ rs_sent s \<and> rs_open t = remove1 fd (rs_open s)"
proof -
  define u where "u = (if fd \<in> set (rs_open s) then s\<lparr>rs_sent := (k, fd) # rs_sent s, rs_thread := Closing k fd\<rparr>
    else s\<lparr>rs_thread := Closing k fd\<rparr>)"
  have "sharer_step (ESend None) s = Some u" using p by (simp add: serve_send_def u_def)
  then have r: "sharer_run [ESend None, EClose] s = sharer_run [EClose] u" by simp
  have u: "rs_thread u = Closing k fd" "rs_stopping u = rs_stopping s" "rs_backlog u = rs_backlog s" "rs_cache u = rs_cache s"
    "rs_sent u = (if fd \<in> set (rs_open s) then [(k, fd)] else []) @ rs_sent s" "rs_open u = rs_open s"
    by (simp_all add: u_def)
  show ?thesis using closing_finishes [OF u(1)] unfolding r u(2-6) .
qed

section \<open>What the sharer promises\<close>

text \<open>
  C31. Whatever callers, clients and the thread do and in whatever order: every descriptor that has been duplicated is
  either open or has been closed exactly once; the open ones are those still registered, the one the thread is sending and
  those of a \<open>DupFd\<close> whose registration failed; and a registered descriptor is sent at most once, under its own key.
\<close>

theorem descriptors_closed_once:
  assumes "sharer_run es new_sharer = Some s"
  shows "distinct (rs_closed s) \<and> set (rs_open s) \<inter> set (rs_closed s) = {} \<and>
    set (rs_open s) \<union> set (rs_closed s) = {..< rs_next s} \<and> set (rs_open s) = snd ` set (held s) \<union> set (rs_lost s) \<and>
    distinct (map fst (rs_sent s)) \<and> set (rs_sent s) \<subseteq> set (rs_registered s)"
proof -
  have "sharer_inv s" using inv_run [OF inv_new assms] .
  then show ?thesis unfolding sharer_inv_def res_ok_def sent_ok_def by (elim conjE) (intro conjI; assumption)
qed

theorem descriptors_closed_once_witness:
  "\<exists>s. sharer_run [EDup None None, EDup None None, EAsk 1, EAccept, ESend None, EClose, EStop None, EAccept, EStopped] new_sharer = Some s \<and>
    rs_sent s = [(1, 0)] \<and> rs_closed s = [1, 0] \<and> rs_open s = [] \<and> distinct (rs_closed s)"
proof -
  let ?es = "[EDup None None, EDup None None, EAsk 1, EAccept, ESend None, EClose, EStop None, EAccept, EStopped]"
  have "case sharer_run ?es new_sharer of None \<Rightarrow> False | Some s \<Rightarrow> rs_sent s = [(1, 0)] \<and> rs_closed s = [1, 0] \<and> rs_open s = []"
    by code_simp
  then obtain s where s: "sharer_run ?es new_sharer = Some s" "rs_sent s = [(1, 0)]" "rs_closed s = [1, 0]" "rs_open s = []"
    by (cases "sharer_run ?es new_sharer") (simp_all only: option.case)
  from descriptors_closed_once [OF s(1)] s show ?thesis by blast
qed

lemma ask_once:
  assumes "sharer_inv s" "rs_thread s = Accepting" "rs_backlog s = []" "map_of (rs_cache s) k = Some fd"
  shows "\<exists>s'. sharer_run [EAsk k, EAccept, ESend None, EClose] s = Some s' \<and> rs_sent s' = (k, fd) # rs_sent s \<and>
    fd \<notin> set (rs_open s') \<and> rs_thread s' = Accepting \<and> rs_backlog s' = [] \<and> k \<notin> fst ` set (rs_cache s')"
proof -
  have l: "rs_listening s" using assms(1,2) by (auto simp: sharer_inv_def ctl_ok_def)
  have d: "fd \<in> set (rs_open s)" "distinct (rs_open s)"
  proof -
    have "fd \<in> snd ` set (held s)" using map_of_SomeD [OF assms(4)] unfolding held_def by force
    then show "fd \<in> set (rs_open s)" "distinct (rs_open s)" using assms(1) unfolding sharer_inv_def res_ok_def by blast+
  qed
  define u where "u = s\<lparr>rs_cache := filter (\<lambda>(k', _). k' \<noteq> k) (rs_cache s), rs_thread := Popped k fd\<rparr>"
  have u: "rs_thread u = Popped k fd" "rs_backlog u = []" "rs_cache u = filter (\<lambda>(k', _). k' \<noteq> k) (rs_cache s)"
    "rs_sent u = rs_sent s" "rs_open u = rs_open s" using assms(3) by (simp_all add: u_def)
  from popped_finishes [OF u(1)] obtain t where t: "sharer_run [ESend None, EClose] u = Some t" "rs_thread t = Accepting"
    "rs_backlog t = []" "rs_cache t = rs_cache u" "rs_sent t = (k, fd) # rs_sent s" "rs_open t = remove1 fd (rs_open s)"
    using d unfolding u by auto
  have "sharer_run [EAsk k, EAccept] s = Some u" using l assms(2-4) by (simp add: serve_accept_def u_def)
  from run_then [OF this t(1)] have r: "sharer_run [EAsk k, EAccept, ESend None, EClose] s = Some t" unfolding append.simps .
  have "fd \<notin> set (rs_open t)" "k \<notin> fst ` set (rs_cache t)" using t(4,6) u(3) d(2) by auto
  with r t(2,3,5) show ?thesis by blast
qed

text \<open>
  A key that is asked for again gets nothing: the first client is sent the descriptor that was registered, and
  the sharer closes its copy; for the second the sharer ends the connection without a message, and it is ready for more.
\<close>

theorem key_is_good_once:
  assumes "sharer_run es new_sharer = Some s" "rs_thread s = Accepting" "rs_backlog s = []" "(k, fd) \<in> set (rs_cache s)"
  shows "\<exists>s' s''. sharer_run [EAsk k, EAccept, ESend None, EClose] s = Some s' \<and> rs_sent s' = (k, fd) # rs_sent s \<and>
    fd \<notin> set (rs_open s') \<and> sharer_run [EAsk k, EAccept] s' = Some s'' \<and> s'' = s'"
proof -
  have i: "sharer_inv s" using inv_run [OF inv_new assms(1)] .
  then have "map_of (rs_cache s) k = Some fd" using assms(2,4) by (simp add: sharer_inv_def res_ok_def held_def)
  from ask_once [OF i assms(2,3) this] obtain s' where s': "sharer_run [EAsk k, EAccept, ESend None, EClose] s = Some s'"
    "rs_sent s' = (k, fd) # rs_sent s" "fd \<notin> set (rs_open s')" "rs_thread s' = Accepting" "rs_backlog s' = []"
    "k \<notin> fst ` set (rs_cache s')" by blast
  have "rs_listening s'" using inv_run [OF i s'(1)] s'(4) by (auto simp: sharer_inv_def ctl_ok_def)
  moreover have "map_of (rs_cache s') k = None" using s'(6) by (simp add: map_of_eq_None_iff)
  ultimately have "sharer_run [EAsk k, EAccept] s' = Some s'" using s'(4,5) by (simp add: serve_accept_def)
  then show ?thesis using s' by blast
qed

theorem key_is_good_once_witness:
  "\<exists>s s' s''. sharer_run [EDup None None] new_sharer = Some s \<and> sharer_run [EAsk 1, EAccept, ESend None, EClose] s = Some s' \<and>
    rs_sent s' = [(1, 0)] \<and> sharer_run [EAsk 1, EAccept] s' = Some s'' \<and> s'' = s'"
proof -
  have "case sharer_run [EDup None None] new_sharer of None \<Rightarrow> False
    | Some s \<Rightarrow> rs_thread s = Accepting \<and> rs_backlog s = [] \<and> rs_cache s = [(1, 0)] \<and> rs_sent s = []" by code_simp
  then obtain s where s: "sharer_run [EDup None None] new_sharer = Some s" "rs_thread s = Accepting" "rs_backlog s = []"
    "rs_cache s = [(1, 0)]" "rs_sent s = []"
    by (cases "sharer_run [EDup None None] new_sharer") (auto simp del: sharer_run.simps)
  from key_is_good_once [OF s(1-3), of 1 0] s(4,5) obtain s' s'' where
    "sharer_run [EAsk 1, EAccept, ESend None, EClose] s = Some s'" "rs_sent s' = [(1, 0)]" "sharer_run [EAsk 1, EAccept] s' = Some s''"
    "s'' = s'" by (auto simp del: sharer_run.simps)
  then show ?thesis using s(1) by blast
qed

text \<open>The thread gets through what is queued before the message of \<open>stop\<close>.\<close>

lemma thread_ends:
  assumes "sharer_inv s" "rs_stopping s" "rs_thread s = Accepting"
  shows "\<exists>es s'. set es \<subseteq> {EAccept, ESend None, EClose} \<and> sharer_run es s = Some s' \<and> rs_thread s' = NoThread \<and> rs_stopping s'"
  using assms
proof (induction "length (rs_backlog s)" arbitrary: s rule: less_induct)
  case less
  have "None \<in> set (rs_backlog s)" using less.prems by (simp add: sharer_inv_def ctl_ok_def)
  then obtain m ms where m: "rs_backlog s = m # ms" by (cases "rs_backlog s") auto
  show ?case
  proof (cases "\<exists>k fd. m = Some k \<and> map_of (rs_cache s) k = Some fd")
    case True
    then obtain k fd where k: "m = Some k" "map_of (rs_cache s) k = Some fd" by blast
    let ?t = "s\<lparr>rs_backlog := ms, rs_cache := filter (\<lambda>(k', _). k' \<noteq> k) (rs_cache s), rs_thread := Popped k fd\<rparr>"
    have a: "sharer_run [EAccept] s = Some ?t" using less.prems(3) m k by (simp add: serve_accept_def)
    obtain t where t: "sharer_run [ESend None, EClose] ?t = Some t" "rs_thread t = Accepting" "rs_stopping t" "rs_backlog t = ms"
      using popped_finishes [of ?t k fd] less.prems(2) by auto
    have t1: "sharer_run ([EAccept] @ [ESend None, EClose]) s = Some t" by (rule run_then [OF a t(1)])
    from less.hyps [OF _ inv_run [OF less.prems(1) t1] t(3,2)] t(4) m obtain es s' where
      "set es \<subseteq> {EAccept, ESend None, EClose}" "sharer_run es t = Some s'" "rs_thread s' = NoThread" "rs_stopping s'" by auto
    then show ?thesis using run_then [OF t1, of es s']
      by (intro exI [of _ "([EAccept] @ [ESend None, EClose]) @ es"] exI [of _ s']) (simp del: sharer_run.simps)
  next
    case False
    then obtain t where t: "sharer_step EAccept s = Some t" "rs_stopping t" "rs_backlog t = ms"
      "m = None \<and> rs_thread t = NoThread \<or> rs_thread t = Accepting"
      using less.prems(2,3) m by (cases m) (auto simp: serve_accept_def split: option.splits)
    show ?thesis
    proof (cases "rs_thread t = NoThread")
      case True
      then show ?thesis using t by (intro exI [of _ "[EAccept]"] exI [of _ t]) simp
    next
      case False
      from less.hyps [OF _ sharer_step_inv [OF less.prems(1) t(1)] t(2)] t(3,4) False m obtain es s' where
        "set es \<subseteq> {EAccept, ESend None, EClose}" "sharer_run es t = Some s'" "rs_thread s' = NoThread" "rs_stopping s'" by auto
      then show ?thesis using t(1) by (intro exI [of _ "EAccept # es"] exI [of _ s']) simp
    qed
  qed
qed



text \<open>
  In a forked child \<open>_afterfork\<close> closes the copies of what was registered; the copy of a descriptor that the parent's
  thread was sending at that moment stays open for good.
\<close>

lemma close_all_opens:
  assumes "distinct (map snd (cs @ h) @ lost)" "distinct (rs_open s)" "set (rs_open s) = snd ` set (cs @ h) \<union> set lost"
  shows "\<exists>t. close_all cs s = (Inr (), t) \<and> set (rs_open t) = snd ` set h \<union> set lost"
  using assms
proof (induction cs arbitrary: s)
  case (Cons c cs)
  let ?s = "s\<lparr>rs_open := remove1 (snd c) (rs_open s), rs_closed := snd c # rs_closed s\<rparr>"
  have "set (rs_open ?s) = snd ` set (cs @ h) \<union> set lost" using Cons.prems by auto
  from Cons.IH [of ?s, OF _ _ this] Cons.prems show ?case by (auto simp: close_def bindA_def)
qed (simp add: ret_def)

lemma afterfork_child:
  assumes "sharer_run es new_sharer = Some s"
  shows "\<exists>s'. afterfork (forked s) = (Inr (), s') \<and> \<not> rs_listening s' \<and> rs_cache s' = [] \<and>
    set (rs_open s') = snd ` set (served (rs_thread s)) \<union> set (rs_lost s)"
proof -
  have i: "sharer_inv s" using inv_run [OF inv_new assms] .
  have r: "res_ok (rs_cache s @ served (rs_thread s)) (rs_lost s) (rs_registered s) (rs_key s) (rs_next s) (rs_open s) (rs_closed s)"
    using i res_ok_perm [of "held s" "rs_lost s" "rs_registered s" "rs_key s" "rs_next s" "rs_open s" "rs_closed s"
        "rs_cache s @ served (rs_thread s)"] by (simp add: sharer_inv_def held_def)
  obtain t where "close_all (rs_cache s) (forked s) = (Inr (), t)" "snd ` set (served (rs_thread s)) \<union> set (rs_lost s) = set (rs_open t)"
    using close_all_opens [of "rs_cache s" "served (rs_thread s)" "rs_lost s" "forked s"] r
    by (auto simp: res_ok_def forked_def)
  then show ?thesis by (auto simp: afterfork_def act_defs forked_def)
qed

end
