(* ===== verification/Start_Methods.thy ===== *)
theory Start_Methods
  imports Reduction Sem_Tracker
begin

text \<open>
  How a process is started with the methods \<open>spawn\<close> and \<open>forkserver\<close>: \<open>billiard/forkserver.py\<close>,
  \<open>billiard/popen_forkserver.py\<close>, \<open>billiard/popen_spawn_posix.py\<close> and \<open>spawnv_passfds\<close> of \<open>billiard/compat.py\<close>.

  A call of the operating system that may fail has a name (\<open>call\<close>), and the argument \<open>env\<close> of an operation says which
  calls fail and with what. Descriptors are numbered in the order they are opened, so a number names one opening.
  What is pickled is not looked into: a dump calls \<open>duplicate_for_child\<close> for some descriptors and may fail.
\<close>

section \<open>Numbers through a pipe\<close>

text \<open>\<open>struct.Struct('Q')\<close>: eight bytes in the order of the machine (the least significant first).\<close>

definition pack_Q :: "int \<Rightarrow> exn + bytes" where
  "pack_Q n = (if 0 \<le> n \<and> n < 2 ^ 64 then Inr (map (\<lambda>i. word_of_int (n div 2 ^ (8 * i))) [0 ..< 8]) else Inl StructError)"

definition unpack_Q :: "bytes \<Rightarrow> int" where
  "unpack_Q b = foldr (\<lambda>x v. uint x + 256 * v) b 0"

function read_unsigned_loop :: "bytes \<Rightarrow> ('a chan_scheme, bytes) act" where
  "read_unsigned_loop data s =
     (if 8 \<le> length data then (Inr data, s)
      else case os_read (8 - length data) s of
        (Inl e, s') \<Rightarrow> (Inl e, s')
      | (Inr x, s') \<Rightarrow> if x = [] then (Inl EOFError, s') else read_unsigned_loop (data @ x) s')"
  by pat_completeness auto
termination
  by (relation "measure (\<lambda>(data, s). length (ch_reads s))")
    (auto simp: os_read_def Let_def split: list.splits rres.splits if_splits)

declare read_unsigned_loop.simps [simp del]

definition read_unsigned :: "('a chan_scheme, int) act" where
  "read_unsigned = bindA (read_unsigned_loop []) (\<lambda>d. ret (unpack_Q d))"

function write_unsigned_loop :: "bytes \<Rightarrow> ('a chan_scheme, unit) act" where
  "write_unsigned_loop msg s =
     (if msg = [] then (Inr (), s)
      else case os_write msg s of
        (Inl e, s') \<Rightarrow> (Inl e, s')
      | (Inr n, s') \<Rightarrow> if n = 0 then (Inl RuntimeError, s') else write_unsigned_loop (drop n msg) s')"
  by pat_completeness auto
termination
  by (relation "measure (\<lambda>(msg, s). length (ch_writes s))")
    (auto simp: os_write_def Let_def split: list.splits wres.splits)

declare write_unsigned_loop.simps [simp del]

definition write_unsigned :: "int \<Rightarrow> ('a chan_scheme, unit) act" where
  "write_unsigned n = (case pack_Q n of Inl e \<Rightarrow> raise e | Inr msg \<Rightarrow> write_unsigned_loop msg)"

section \<open>Descriptors and calls that may fail\<close>

datatype call = CSocket | CBind | CChmod | CListen | CConnect | CPipe1 | CPipe2 | CErrPipe | CForkExec | CSendfds
  | CPrepData | CDumpPrep | CDumpProcess | CWrite | CReadPid | CDjango | CPrepServer

type_synonym env = "call \<Rightarrow> exn option"

record kernel =
  k_next :: nat
  k_open :: "nat set"
  k_spawned :: "nat list list"       \<comment> \<open>the descriptors passed to each program that was started\<close>

definition may_fail :: "env \<Rightarrow> call \<Rightarrow> ('a kernel_scheme, unit) act" where
  "may_fail e c s = (case e c of Some x \<Rightarrow> (Inl x, s) | None \<Rightarrow> (Inr (), s))"

definition open_fd :: "env \<Rightarrow> call \<Rightarrow> ('a kernel_scheme, nat) act" where
  "open_fd e c = bindA (may_fail e c) (\<lambda>_ s. (Inr (k_next s), s\<lparr>k_next := Suc (k_next s), k_open := insert (k_next s) (k_open s)\<rparr>))"

definition os_pipe :: "env \<Rightarrow> call \<Rightarrow> ('a kernel_scheme, nat \<times> nat) act" where
  "os_pipe e c = bindA (may_fail e c) (\<lambda>_ s. (Inr (k_next s, Suc (k_next s)),
     s\<lparr>k_next := Suc (Suc (k_next s)), k_open := insert (k_next s) (insert (Suc (k_next s)) (k_open s))\<rparr>))"

definition os_close :: "nat \<Rightarrow> ('a kernel_scheme, unit) act" where
  "os_close fd s = (if fd \<in> k_open s then (Inr (), s\<lparr>k_open := k_open s - {fd}\<rparr>) else (Inl (OSError 9), s))"

text \<open>\<open>except: os.close(...); raise\<close>, and a \<open>with\<close> statement that closes a socket at its end.\<close>

definition on_error :: "('s, 'a) act \<Rightarrow> ('s, unit) act \<Rightarrow> ('s, 'a) act" where
  "on_error m fin = catchA m (\<lambda>x. bindA fin (\<lambda>_. raise x))"

definition with_socket :: "env \<Rightarrow> (nat \<Rightarrow> ('a kernel_scheme, 'b) act) \<Rightarrow> ('a kernel_scheme, 'b) act" where
  "with_socket e body = bindA (open_fd e CSocket) (\<lambda>s. finallyA (body s) (os_close s))"

text \<open>\<open>spawnv_passfds\<close> with \<open>_posixsubprocess\<close>.\<close>

definition spawnv_passfds :: "env \<Rightarrow> nat list \<Rightarrow> ('a kernel_scheme, unit) act" where
  "spawnv_passfds e passfds =
     bindA (os_pipe e CErrPipe) (\<lambda>(errpipe_read, errpipe_write).
     finallyA
       (bindA (may_fail e CForkExec) (\<lambda>_. modifyA (\<lambda>s. s\<lparr>k_spawned := k_spawned s @ [sort passfds]\<rparr>)))
       (bindA (os_close errpipe_read) (\<lambda>_. os_close errpipe_write)))"

section \<open>The client of the fork server\<close>

datatype modname = Str string | NotStr

record fork_server = kernel +
  fs_address :: "nat option"          \<comment> \<open>\<open>_forkserver_address\<close>: which server listens there\<close>
  fs_alive :: "nat option"            \<comment> \<open>\<open>_forkserver_alive_fd\<close>\<close>
  fs_preload :: "modname list"
  fs_tracker :: client
  fs_servers :: "(modname list \<times> (string \<times> string) list) list"  \<comment> \<open>the arguments of the servers started\<close>
  fs_requests :: "nat list list"      \<comment> \<open>what has been sent to a server\<close>

definition tracker_act :: "(client, 'b) act \<Rightarrow> (fork_server, 'b) act" where
  "tracker_act m s = (case m (fs_tracker s) of (r, c) \<Rightarrow> (r, s\<lparr>fs_tracker := c\<rparr>))"

definition set_forkserver_preload :: "modname list \<Rightarrow> (fork_server, unit) act" where
  "set_forkserver_preload names =
     bindA (assertA (\<lambda>s. NotStr \<notin> set (fs_preload s)) TypeError) (\<lambda>_. modifyA (\<lambda>s. s\<lparr>fs_preload := names\<rparr>))"

definition desired_keys :: "string list" where
  "desired_keys = [''main_path'', ''sys_path'']"

text \<open>\<open>prep\<close> is what \<open>spawn.get_preparation_data('ignore')\<close> returns.\<close>

definition ensure_running :: "env \<Rightarrow> tenv \<Rightarrow> (string \<times> string) list \<Rightarrow> (fork_server, unit) act" where
  "ensure_running e te prep =
     bindA (tracker_act (Sem_Tracker.ensure_running te)) (\<lambda>_. readA (\<lambda>s0.
     if fs_alive s0 \<noteq> None then ret ()
     else
       bindA (if fs_preload s0 \<noteq> [] then bindA (may_fail e CPrepServer) (\<lambda>_. ret (filter (\<lambda>(k, _). k \<in> set desired_keys) prep))
              else ret []) (\<lambda>data.
       with_socket e (\<lambda>listener.
         bindA (may_fail e CBind) (\<lambda>_. bindA (may_fail e CChmod) (\<lambda>_. bindA (may_fail e CListen) (\<lambda>_.
         bindA (os_pipe e CPipe1) (\<lambda>(alive_r, alive_w).
         bindA (finallyA
             (on_error (spawnv_passfds e [listener, alive_r]) (os_close alive_w))
             (os_close alive_r)) (\<lambda>_.
         modifyA (\<lambda>s. s\<lparr>fs_address := Some (length (fs_servers s)), fs_alive := Some alive_w,
           fs_servers := fs_servers s @ [(fs_preload s, data)]\<rparr>))))))))))"

definition MAXFDS_TO_SEND :: nat where "MAXFDS_TO_SEND = 256"

definition connect_to_new_process :: "env \<Rightarrow> tenv \<Rightarrow> (string \<times> string) list \<Rightarrow> nat list \<Rightarrow> (fork_server, nat \<times> nat) act" where
  "connect_to_new_process e te prep fds =
     bindA (ensure_running e te prep) (\<lambda>_.
     if length fds + 4 \<ge> MAXFDS_TO_SEND then raise ValueError
     else with_socket e (\<lambda>client.
       bindA (may_fail e CConnect) (\<lambda>_.
       bindA (os_pipe e CPipe1) (\<lambda>(parent_r, child_w).
       bindA (os_pipe e CPipe2) (\<lambda>(child_r, parent_w).
       bindA (tracker_act (getfd te)) (\<lambda>stfd. readA (\<lambda>s.
       finallyA
         (on_error
           (bindA (may_fail e CSendfds) (\<lambda>_.
            bindA (modifyA (\<lambda>s. s\<lparr>fs_requests := fs_requests s @ [[child_r, child_w, the (fs_alive s), the stfd] @ fds]\<rparr>)) (\<lambda>_.
            ret (parent_r, parent_w))))
           (bindA (os_close parent_r) (\<lambda>_. os_close parent_w)))
         (bindA (os_close child_r) (\<lambda>_. os_close child_w)))))))))"

section \<open>The server\<close>

text \<open>What importing a module does.\<close>

datatype imported = Imported | ImportFails | Raises exn

text \<open>The loop over the modules to preload: an \<open>ImportError\<close> is ignored, any other exception ends the server.\<close>

fun preload_modules :: "(modname \<Rightarrow> imported) \<Rightarrow> modname list \<Rightarrow> exn option" where
  "preload_modules imp [] = None"
| "preload_modules imp (m # ms) = (case imp m of Raises x \<Rightarrow> Some x | _ \<Rightarrow> preload_modules imp ms)"

text \<open>The first part of \<open>main\<close>; \<open>import_main\<close> runs while the current process has the attribute \<open>_inheriting\<close>.\<close>

definition server_preload :: "(modname \<Rightarrow> imported) \<Rightarrow> (string \<Rightarrow> exn option) \<Rightarrow> modname list \<Rightarrow> string option \<Rightarrow> exn option" where
  "server_preload imp import_main preload main_path =
     (if preload = [] then None
      else (case (if Str ''__main__'' \<in> set preload then main_path else None) of
          None \<Rightarrow> preload_modules imp preload
        | Some p \<Rightarrow> (case import_main p of Some x \<Rightarrow> Some x | None \<Rightarrow> preload_modules imp preload)))"

text \<open>
  The loop of \<open>main\<close>. A wake-up is what \<open>select\<close> finds ready, what the read of the alive pipe and \<open>accept\<close> then
  give, and whether \<open>fork\<close> fails; a list of them that has run out means that \<open>select\<close> waits.
\<close>

record wake =
  wk_alive :: bool
  wk_listener :: bool
  wk_read :: bytes
  wk_accept :: "exn + nat"
  wk_fork :: "exn option"

definition ECONNABORTED :: int where "ECONNABORTED = 103"

definition wake_step :: "wake \<Rightarrow> exn + nat option" where
  "wake_step w =
     (if \<not> wk_alive w \<and> \<not> wk_listener w then Inr None
      else if wk_alive w then Inl (if wk_read w = [] then SystemExit 0 else AssertionError)
      else (case wk_accept w of
          Inl x \<Rightarrow> Inl x
        | Inr c \<Rightarrow> (case wk_fork w of Some x \<Rightarrow> Inl x | None \<Rightarrow> Inr (Some c))))"

fun server_loop :: "wake list \<Rightarrow> nat list \<Rightarrow> exn option \<times> nat list" where
  "server_loop [] served = (None, served)"
| "server_loop (w # ws) served =
     (case wake_step w of
        Inr None \<Rightarrow> server_loop ws served
      | Inr (Some c) \<Rightarrow> server_loop ws (served @ [c])
      | Inl x \<Rightarrow> if x = OSError ECONNABORTED then server_loop ws served else (Some x, served))"

text \<open>The forked child: the pipe to the client, and what it keeps of the descriptors it has received.\<close>

record served = chan +
  sv_alive :: "fd option"
  sv_inherited :: "fd list option"
  sv_tracker :: "fd option"

fun unpack_fds :: "fd list \<Rightarrow> exn + fd \<times> fd \<times> fd \<times> fd \<times> fd list" where
  "unpack_fds (child_r # child_w # alive # stfd # inherited) = Inr (child_r, child_w, alive, stfd, inherited)"
| "unpack_fds _ = Inl TypeError"

text \<open>\<open>_serve_one\<close>; \<open>run\<close> is \<open>spawn._main\<close>, given the descriptor to read from and what the process has inherited.\<close>

definition serve_one :: "exn + fd list \<Rightarrow> int \<Rightarrow> (fd \<Rightarrow> fd list \<Rightarrow> exn + int) \<Rightarrow> (served, unit) act" where
  "serve_one received pid run =
     (case received of
        Inl x \<Rightarrow> raise x
      | Inr fds \<Rightarrow>
          bindA (assertA (\<lambda>_. length fds \<le> MAXFDS_TO_SEND) AssertionError) (\<lambda>_.
          case unpack_fds fds of
            Inl x \<Rightarrow> raise x
          | Inr (child_r, child_w, alive, stfd, inherited) \<Rightarrow>
              bindA (modifyA (\<lambda>s. s\<lparr>sv_alive := Some alive, sv_inherited := Some inherited, sv_tracker := Some stfd\<rparr>)) (\<lambda>_.
              bindA (write_unsigned pid) (\<lambda>_.
              case run child_r inherited of
                Inl x \<Rightarrow> raise x
              | Inr code \<Rightarrow> write_unsigned code))))"

section \<open>Popen for the fork server\<close>

text \<open>A duplicated descriptor is an index into what the child has inherited.\<close>

definition duplicate_for_child :: "fd \<Rightarrow> fd list \<Rightarrow> nat \<times> fd list" where
  "duplicate_for_child h fds = (length fds, fds @ [h])"

definition dupfd_detach :: "fd list option \<Rightarrow> nat \<Rightarrow> exn + fd" where
  "dupfd_detach inherited ind =
     (case inherited of None \<Rightarrow> Inl TypeError | Some fds \<Rightarrow> if ind < length fds then Inr (fds ! ind) else Inl IndexError)"

record fpopen = chan +
  fp_pid :: "int option"
  fp_returncode :: "int option"

text \<open>\<open>_launch\<close> as far as descriptors are concerned: it returns the sentinel. The descriptors \<open>dups\<close> are those duplicated by the dump.\<close>

definition forkserver_launch :: "env \<Rightarrow> tenv \<Rightarrow> (string \<times> string) list \<Rightarrow> nat list \<Rightarrow> (fork_server, nat) act" where
  "forkserver_launch e te prep dups =
     bindA (may_fail e CPrepData) (\<lambda>_. bindA (may_fail e CDumpPrep) (\<lambda>_. bindA (may_fail e CDumpProcess) (\<lambda>_.
     bindA (connect_to_new_process e te prep dups) (\<lambda>(sentinel, w).
     bindA (finallyA (may_fail e CWrite) (os_close w)) (\<lambda>_.
     bindA (may_fail e CReadPid) (\<lambda>_. ret sentinel))))))"

text \<open>The end of \<open>_launch\<close>, and \<open>poll\<close>; \<open>ready\<close> is whether \<open>wait\<close> finds the sentinel readable (with no timeout it waits).\<close>

definition launch_pid :: "(fpopen, unit) act" where
  "launch_pid = bindA read_unsigned (\<lambda>n. modifyA (\<lambda>p. p\<lparr>fp_pid := Some n\<rparr>))"

definition fpoll :: "bool \<Rightarrow> bool \<Rightarrow> (fpopen, int option) act" where
  "fpoll nohang ready = readA (\<lambda>p.
     if fp_returncode p \<noteq> None then ret (fp_returncode p)
     else if \<not> ready then (if nohang then ret None else raise Blocks)
     else bindA (catchA read_unsigned (\<lambda>x. case x of OSError _ \<Rightarrow> ret 255 | EOFError \<Rightarrow> ret 255 | _ \<Rightarrow> raise x)) (\<lambda>n.
          bindA (modifyA (\<lambda>p. p\<lparr>fp_returncode := Some n\<rparr>)) (\<lambda>_. ret (Some n))))"

section \<open>Popen for spawn\<close>

record spawner = kernel +
  sp_fds :: "nat list"
  sp_pid :: bool                       \<comment> \<open>\<open>pid\<close> has been set\<close>
  sp_sentinel :: "nat option"
  sp_spawning :: bool                  \<comment> \<open>\<open>context.get_spawning_popen()\<close> is this one\<close>
  sp_disabled :: bool                  \<comment> \<open>\<open>MULTIPROCESSING_FORKING_DISABLE\<close> is in the environment\<close>

text \<open>\<open>duplicate_for_child\<close> as the dump of the process object calls it.\<close>

definition dump_process :: "env \<Rightarrow> nat list \<Rightarrow> (spawner, unit) act" where
  "dump_process e dups = bindA (modifyA (\<lambda>s. s\<lparr>sp_fds := sp_fds s @ dups\<rparr>)) (\<lambda>_. may_fail e CDumpProcess)"

text \<open>The variables that are \<open>None\<close> until the pipes are there are arguments of the \<open>finally\<close> clause.\<close>

definition close_each :: "nat option list \<Rightarrow> ('a kernel_scheme, unit) act" where
  "close_each fds = foldr (\<lambda>fd m. bindA (case fd of None \<Rightarrow> ret () | Some n \<Rightarrow> os_close n) (\<lambda>_. m)) fds (ret ())"

definition spawn_launch :: "env \<Rightarrow> (spawner, nat option) act \<Rightarrow> nat list \<Rightarrow> (spawner, unit) act" where
  "spawn_launch e tracker_getfd dups =
     bindA (modifyA (\<lambda>s. s\<lparr>sp_disabled := True\<rparr>)) (\<lambda>_.
     bindA (may_fail e CDjango) (\<lambda>_.
     bindA tracker_getfd (\<lambda>tracker_fd.
     bindA (modifyA (\<lambda>s. s\<lparr>sp_fds := sp_fds s @ [the tracker_fd]\<rparr>)) (\<lambda>_.
     bindA (may_fail e CPrepData) (\<lambda>_.
     bindA (modifyA (\<lambda>s. s\<lparr>sp_spawning := True\<rparr>)) (\<lambda>_.
     bindA (finallyA (bindA (may_fail e CDumpPrep) (\<lambda>_. dump_process e dups)) (modifyA (\<lambda>s. s\<lparr>sp_spawning := False\<rparr>))) (\<lambda>_.
     bindA (on_error (os_pipe e CPipe1) (close_each [None, None, None])) (\<lambda>(parent_r, child_w).
     bindA (on_error (os_pipe e CPipe2) (close_each [None, Some child_w, None])) (\<lambda>(child_r, parent_w).
     finallyA
       (bindA (modifyA (\<lambda>s. s\<lparr>sp_fds := sp_fds s @ [child_r, child_w]\<rparr>)) (\<lambda>_.
        bindA (readA (\<lambda>s. spawnv_passfds e (sp_fds s))) (\<lambda>_.
        bindA (modifyA (\<lambda>s. s\<lparr>sp_pid := True, sp_sentinel := Some parent_r\<rparr>)) (\<lambda>_.
        may_fail e CWrite))))
       (close_each [Some child_r, Some child_w, Some parent_w]))))))))))"

section \<open>Numbers arrive\<close>

lemma unpack_bytes: "unpack_Q (map (\<lambda>i. word_of_int (n div 2 ^ (8 * i))) [0 ..< k]) = n mod 2 ^ (8 * k)"
proof (induction k arbitrary: n)
  case (Suc k)
  have "map (\<lambda>i. word_of_int (n div 2 ^ (8 * i)) :: 8 word) [0 ..< Suc k] =
      word_of_int n # map (\<lambda>i. word_of_int (n div 256 div 2 ^ (8 * i))) [0 ..< k]"
    by (simp add: upt_conv_Cons map_Suc_upt [symmetric] power_add zdiv_zmult2_eq [symmetric] mult.commute del: upt_Suc)
  then have "unpack_Q (map (\<lambda>i. word_of_int (n div 2 ^ (8 * i))) [0 ..< Suc k]) = n mod 256 + 256 * (n div 256 mod 2 ^ (8 * k))"
    using Suc.IH [of "n div 256"] by (simp add: unpack_Q_def uint_byte del: upt_Suc)
  also have "\<dots> = n mod (256 * 2 ^ (8 * k))" by (simp add: zmod_zmult2_eq)
  finally show ?case by (simp add: power_add)
qed (simp add: unpack_Q_def)

lemma pack_Q_Inr:
  assumes "0 \<le> n" "n < 2 ^ 64"
  obtains b where "pack_Q n = Inr b" "length b = 8" "unpack_Q b = n"
proof
  show "pack_Q n = Inr (map (\<lambda>i. word_of_int (n div 2 ^ (8 * i))) [0 ..< 8])" using assms by (simp add: pack_Q_def)
  have "n mod 2 ^ 64 = n" using assms by (intro mod_pos_pos_trivial)
  then show "unpack_Q (map (\<lambda>i. word_of_int (n div 2 ^ (8 * i))) [0 ..< 8]) = n" using unpack_bytes [of n 8] by simp
qed simp

text \<open>Scripts without errors.\<close>

definition takes :: "nat \<Rightarrow> 'a chan_scheme \<Rightarrow> bool" where
  "takes n s \<longleftrightarrow> (\<forall>w \<in> set (ch_writes s). case w of Accept _ \<Rightarrow> True | WErr _ \<Rightarrow> False) \<and> n \<le> length (ch_writes s)"

definition gives :: "nat \<Rightarrow> 'a chan_scheme \<Rightarrow> bool" where
  "gives n s \<longleftrightarrow> (\<forall>r \<in> set (ch_reads s). case r of Avail _ \<Rightarrow> True | RErr _ \<Rightarrow> False) \<and> n \<le> length (ch_reads s)"

lemma write_loop_ok: "takes (length msg + n) s \<Longrightarrow> \<exists>ws. write_unsigned_loop msg s = (Inr (), s\<lparr>ch_out := ch_out s @ msg, ch_writes := ws\<rparr>) \<and>
    takes n (s\<lparr>ch_out := ch_out s @ msg, ch_writes := ws\<rparr>)"
proof (induction "length msg" arbitrary: msg s rule: less_induct)
  case less
  show ?case
  proof (cases "msg = []")
    case True
    have "s\<lparr>ch_out := ch_out s, ch_writes := ch_writes s\<rparr> = s" by simp
    then show ?thesis using less.prems True by (intro exI [of _ "ch_writes s"]) (simp add: write_unsigned_loop.simps)
  next
    case False
    obtain k ws where w: "ch_writes s = Accept k # ws" using less.prems False
      by (cases "ch_writes s") (auto simp: takes_def split: wres.splits)
    define m where "m = min (Suc k) (length msg)"
    have m: "0 < m" "m \<le> length msg" using False by (auto simp: m_def)
    let ?s = "s\<lparr>ch_writes := ws, ch_out := ch_out s @ take m msg\<rparr>"
    have r: "os_write msg s = (Inr m, ?s)" using w by (simp add: os_write_def m_def Let_def)
    have t: "takes (length (drop m msg) + n) ?s" using less.prems w m by (auto simp: takes_def)
    from less.hyps [OF _ t] m obtain ws' where ws': "write_unsigned_loop (drop m msg) ?s =
        (Inr (), ?s\<lparr>ch_out := ch_out ?s @ drop m msg, ch_writes := ws'\<rparr>)" "takes n (?s\<lparr>ch_out := ch_out ?s @ drop m msg, ch_writes := ws'\<rparr>)"
      using False by auto
    have e: "?s\<lparr>ch_out := ch_out ?s @ drop m msg, ch_writes := ws'\<rparr> = s\<lparr>ch_out := ch_out s @ msg, ch_writes := ws'\<rparr>" by simp
    have "write_unsigned_loop msg s = write_unsigned_loop (drop m msg) ?s"
      using False r m by (subst write_unsigned_loop.simps) simp
    then show ?thesis using ws' unfolding e by metis
  qed
qed

lemma write_unsigned_ok:
  assumes "0 \<le> n" "n < 2 ^ 64" "takes (8 + k) s"
  obtains b ws where "write_unsigned n s = (Inr (), s\<lparr>ch_out := ch_out s @ b, ch_writes := ws\<rparr>)"
    "takes k (s\<lparr>ch_out := ch_out s @ b, ch_writes := ws\<rparr>)" "length b = 8" "unpack_Q b = n"
proof -
  obtain b where b: "pack_Q n = Inr b" "length b = 8" "unpack_Q b = n" using pack_Q_Inr [OF assms(1,2)] by blast
  then obtain ws where "write_unsigned_loop b s = (Inr (), s\<lparr>ch_out := ch_out s @ b, ch_writes := ws\<rparr>)"
    "takes k (s\<lparr>ch_out := ch_out s @ b, ch_writes := ws\<rparr>)" using write_loop_ok [of b k s] assms(3) by auto
  with b that show ?thesis by (auto simp: write_unsigned_def)
qed

lemma read_loop_ok: "ch_in s = b @ rest \<Longrightarrow> length data + length b = 8 \<Longrightarrow> gives (length b + n) s \<Longrightarrow>
    \<exists>rs. read_unsigned_loop data s = (Inr (data @ b), s\<lparr>ch_in := rest, ch_reads := rs\<rparr>) \<and> gives n (s\<lparr>ch_in := rest, ch_reads := rs\<rparr>)"
proof (induction "length b" arbitrary: b data s rule: less_induct)
  case less
  show ?case
  proof (cases "b = []")
    case True
    have "s\<lparr>ch_in := rest, ch_reads := ch_reads s\<rparr> = s" using less.prems(1) True by simp
    then show ?thesis using less.prems True by (intro exI [of _ "ch_reads s"]) (simp add: read_unsigned_loop.simps gives_def)
  next
    case False
    obtain k rs where w: "ch_reads s = Avail k # rs" using less.prems(3) False
      by (cases "ch_reads s") (auto simp: gives_def split: rres.splits)
    define m where "m = min (Suc k) (length b)"
    have m: "0 < m" "m \<le> length b" "8 - length data = length b" using less.prems(2) False by (auto simp: m_def)
    let ?s = "s\<lparr>ch_reads := rs, ch_in := drop m b @ rest\<rparr>"
    have r: "os_read (8 - length data) s = (Inr (take m b), ?s)" using w m less.prems(1) False
      by (simp add: os_read_def Let_def m_def [symmetric])
    have t: "gives (length (drop m b) + n) ?s" using less.prems(3) w m by (auto simp: gives_def)
    have l: "length (data @ take m b) + length (drop m b) = 8" "length (drop m b) < length b" using less.prems(2) m by auto
    from less.hyps [OF l(2) _ l(1) t] obtain rs' where rs': "read_unsigned_loop (data @ take m b) ?s =
        (Inr ((data @ take m b) @ drop m b), ?s\<lparr>ch_in := rest, ch_reads := rs'\<rparr>)" "gives n (?s\<lparr>ch_in := rest, ch_reads := rs'\<rparr>)" by auto
    have e: "?s\<lparr>ch_in := rest, ch_reads := rs'\<rparr> = s\<lparr>ch_in := rest, ch_reads := rs'\<rparr>" by simp
    have "0 < length b" using False by simp
    then have "take m b \<noteq> []" "\<not> 8 \<le> length data" using m less.prems(2) False by (auto simp del: length_greater_0_conv)
    then have "read_unsigned_loop data s = read_unsigned_loop (data @ take m b) ?s"
      using r by (subst read_unsigned_loop.simps) simp
    then show ?thesis using rs' unfolding e by (intro exI [of _ rs']) simp
  qed
qed

lemma read_loop_eof: "ch_in s = b \<Longrightarrow> ch_eof s \<Longrightarrow> length data + length b < 8 \<Longrightarrow> gives (Suc (length b)) s \<Longrightarrow>
    \<exists>rs. read_unsigned_loop data s = (Inl EOFError, s\<lparr>ch_in := [], ch_reads := rs\<rparr>)"
proof (induction "length b" arbitrary: b data s rule: less_induct)
  case less
  obtain k rs where w: "ch_reads s = Avail k # rs" using less.prems(4)
    by (cases "ch_reads s") (auto simp: gives_def split: rres.splits)
  define m where "m = min (Suc k) (8 - length data)"
  have m: "0 < m" using less.prems(3) by (auto simp: m_def)
  let ?s = "s\<lparr>ch_reads := rs, ch_in := drop m b\<rparr>"
  have r: "os_read (8 - length data) s = (Inr (take m b), ?s)" using w less.prems(1,2)
    by (simp add: os_read_def Let_def m_def [symmetric])
  show ?case
  proof (cases "b = []")
    case True
    then show ?thesis using r less.prems(3) by (subst read_unsigned_loop.simps) (auto intro!: exI [of _ rs])
  next
    case False
    have "length b - m < length b" using m False by simp
    then have t: "gives (Suc (length (drop m b))) ?s" using less.prems(4) w by (auto simp: gives_def)
    have l: "length (data @ take m b) + length (drop m b) < 8" "length (drop m b) < length b" using less.prems(3) m False by auto
    from less.hyps [OF l(2) _ _ l(1) t] less.prems(2) obtain rs' where rs': "read_unsigned_loop (data @ take m b) ?s =
        (Inl EOFError, ?s\<lparr>ch_in := [], ch_reads := rs'\<rparr>)" by auto
    have "take m b \<noteq> []" using m False by auto
    then have "read_unsigned_loop data s = read_unsigned_loop (data @ take m b) ?s"
      using r less.prems(3) by (subst read_unsigned_loop.simps) simp
    then show ?thesis using rs' by (intro exI [of _ rs']) simp
  qed
qed

lemma read_unsigned_ok:
  assumes "ch_in s = b @ rest" "length b = 8" "gives (8 + n) s"
  obtains rs where "read_unsigned s = (Inr (unpack_Q b), s\<lparr>ch_in := rest, ch_reads := rs\<rparr>)" "gives n (s\<lparr>ch_in := rest, ch_reads := rs\<rparr>)"
  using read_loop_ok [OF assms(1), of "[]" n] assms(2,3) that by (auto simp: read_unsigned_def act_defs)

lemma read_unsigned_eof:
  assumes "ch_in s = b" "length b < 8" "ch_eof s" "gives (Suc (length b)) s"
  obtains rs where "read_unsigned s = (Inl EOFError, s\<lparr>ch_in := [], ch_reads := rs\<rparr>)"
  using read_loop_eof [OF assms(1,3), of "[]"] assms(2,4) that by (auto simp: read_unsigned_def act_defs)

section \<open>Exit codes over the fork server\<close>

lemma mod_int_unchanged: "code mod 256 = code \<longleftrightarrow> 0 \<le> code \<and> code < (256 :: int)"
  by (metis mod_pos_pos_trivial pos_mod_bound pos_mod_sign zero_less_numeral)

lemma fpoll_again: "fpoll nohang ready (p\<lparr>fp_returncode := Some n\<rparr>) = (Inr (Some n), p\<lparr>fp_returncode := Some n\<rparr>)"
  by (simp add: fpoll_def act_defs)

text \<open>What a child writes: its pid and, when it gets that far with a code that can be packed, the code.\<close>

lemma serve_one_writes:
  assumes fds: "4 \<le> length fds" "length fds \<le> 256" and pid: "0 \<le> pid" "pid < 2 ^ 64" and w: "takes 16 s" and r: "serve_one (Inr fds) pid run s = (r, s')"
  shows "\<exists>a b. ch_out s' = ch_out s @ a @ b \<and> length a = 8 \<and> unpack_Q a = pid \<and>
    (case run (fds ! 0) (drop 4 fds) of
       Inr code \<Rightarrow> if 0 \<le> code \<and> code < 2 ^ 64 then length b = 8 \<and> unpack_Q b = code else b = []
     | Inl _ \<Rightarrow> b = [])"
proof -
  obtain cr cw al st inh where f: "fds = cr # cw # al # st # inh"
    using fds(1) by (cases fds; cases "tl fds"; cases "tl (tl fds)"; cases "tl (tl (tl fds))") auto
  let ?s = "s\<lparr>sv_alive := Some al, sv_inherited := Some inh, sv_tracker := Some st\<rparr>"
  have w': "takes (8 + 8) ?s" using w by (simp add: takes_def)
  obtain a ws where a: "write_unsigned pid ?s = (Inr (), ?s\<lparr>ch_out := ch_out ?s @ a, ch_writes := ws\<rparr>)"
    "takes 8 (?s\<lparr>ch_out := ch_out ?s @ a, ch_writes := ws\<rparr>)" "length a = 8" "unpack_Q a = pid"
    using write_unsigned_ok [OF pid w'] by blast
  let ?t = "?s\<lparr>ch_out := ch_out ?s @ a, ch_writes := ws\<rparr>"
  have e: "serve_one (Inr fds) pid run s = (case run cr inh of Inl x \<Rightarrow> (Inl x, ?t) | Inr code \<Rightarrow> write_unsigned code ?t)"
    using fds(2) a(1) unfolding f by (simp add: serve_one_def act_defs MAXFDS_TO_SEND_def split: sum.split)
  have s': "s' = snd (case run cr inh of Inl x \<Rightarrow> (Inl x, ?t) | Inr code \<Rightarrow> write_unsigned code ?t)"
    using e r by (metis snd_conv)
  have h: "fds ! 0 = cr" "drop 4 fds = inh" unfolding f by simp_all
  show ?thesis
  proof (cases "run cr inh")
    case (Inl x)
    then show ?thesis unfolding s' h using a by (auto intro!: exI [of _ a])
  next
    case (Inr code)
    show ?thesis
    proof (cases "0 \<le> code \<and> code < 2 ^ 64")
      case True
      have "takes (8 + 0) ?t" using a(2) by simp
      with True obtain b ws' where "write_unsigned code ?t = (Inr (), ?t\<lparr>ch_out := ch_out ?t @ b, ch_writes := ws'\<rparr>)"
        "length b = 8" "unpack_Q b = code" using write_unsigned_ok [of code 0 ?t] by blast
      then show ?thesis unfolding s' h using Inr True a
        by - (rule exI [of _ a], rule exI [of _ b], simp)
    next
      case False
      then have "write_unsigned code ?t = (Inl StructError, ?t)" by (auto simp: write_unsigned_def pack_Q_def raise_def)
      then show ?thesis unfolding s' h using Inr False a by (auto intro!: exI [of _ a])
    qed
  qed
qed

text \<open>
  C28. The exit code of a process started by the fork server: the parent reads the child's pid and, when the child has
  ended, \<open>poll\<close> gives its exit code when that can be packed as an unsigned number and 255 otherwise (also for a child that dies
  before it writes it), and from then on the same. It is the code a forked process would have exactly for the codes
  0 to 255 and for those outside the unsigned range that are 255 modulo 256.
\<close>

theorem forkserver_exitcode:
  assumes fds: "4 \<le> length fds" "length fds \<le> 256" and pid: "0 \<le> pid" "pid < 2 ^ 64"
    and child: "takes 16 s" "ch_out s = []" "serve_one (Inr fds) pid run s = (r, s')"
    and parent: "ch_in p = ch_out s'" "ch_eof p" "gives 17 p" "fp_returncode p = None"
  shows "\<exists>p1 p2 rc. launch_pid p = (Inr (), p1) \<and> fp_pid p1 = Some pid \<and> fpoll nohang True p1 = (Inr (Some rc), p2) \<and>
    fpoll nohang' ready p2 = (Inr (Some rc), p2) \<and>
    rc = (case run (fds ! 0) (drop 4 fds) of Inr code \<Rightarrow> if 0 \<le> code \<and> code < 2 ^ 64 then code else 255 | Inl _ \<Rightarrow> 255) \<and>
    (\<forall>code. run (fds ! 0) (drop 4 fds) = Inr code \<longrightarrow>
       (rc = code mod 256 \<longleftrightarrow> 0 \<le> code \<and> code < 256 \<or> \<not> (0 \<le> code \<and> code < 2 ^ 64) \<and> code mod 256 = 255))"
proof -
  obtain a b where w: "ch_out s' = a @ b" "length a = 8" "unpack_Q a = pid"
    and b: "case run (fds ! 0) (drop 4 fds) of
       Inr code \<Rightarrow> if 0 \<le> code \<and> code < 2 ^ 64 then length b = 8 \<and> unpack_Q b = code else b = [] | Inl _ \<Rightarrow> b = []"
    using serve_one_writes [OF fds pid child(1,3)] child(2) by auto
  have "gives (8 + 9) p" using parent(3) by simp
  from read_unsigned_ok [of p a b, OF _ w(2) this] parent(1) w(1)
  obtain rs where p1: "read_unsigned p = (Inr pid, p\<lparr>ch_in := b, ch_reads := rs\<rparr>)" "gives 9 (p\<lparr>ch_in := b, ch_reads := rs\<rparr>)"
    using w(3) by metis
  let ?p1 = "p\<lparr>ch_in := b, ch_reads := rs, fp_pid := Some pid\<rparr>"
  have l: "launch_pid p = (Inr (), ?p1)" using p1(1) by (simp add: launch_pid_def act_defs)
  have g: "gives 9 ?p1" "ch_in ?p1 = b" "ch_eof ?p1" "fp_returncode ?p1 = None" using p1(2) parent by (simp_all add: gives_def)
  let ?rc = "case run (fds ! 0) (drop 4 fds) of Inr code \<Rightarrow> if 0 \<le> code \<and> code < 2 ^ 64 then code else 255 | Inl _ \<Rightarrow> 255"
  have "\<exists>p2. fpoll nohang True ?p1 = (Inr (Some ?rc), p2\<lparr>fp_returncode := Some ?rc\<rparr>)"
  proof (cases "\<exists>code. run (fds ! 0) (drop 4 fds) = Inr code \<and> 0 \<le> code \<and> code < 2 ^ 64")
    case True
    then obtain code where c: "run (fds ! 0) (drop 4 fds) = Inr code" "0 \<le> code" "code < 2 ^ 64" by blast
    then have b': "length b = 8" "unpack_Q b = code" "?rc = code" using b by simp_all
    have "ch_in ?p1 = b @ []" "gives (8 + 1) ?p1" using g by simp_all
    from read_unsigned_ok [OF this(1) b'(1) this(2)] obtain rs' where
      "read_unsigned ?p1 = (Inr code, ?p1\<lparr>ch_in := [], ch_reads := rs'\<rparr>)" using b'(2) by metis
    then show ?thesis unfolding b'(3) using g(4) by (auto simp: fpoll_def act_defs intro!: exI)
  next
    case False
    then have b': "b = []" "?rc = 255" using b by (auto split: sum.splits if_splits)
    from read_unsigned_eof [of ?p1 "[]"] g b'(1) obtain rs' where
      "read_unsigned ?p1 = (Inl EOFError, ?p1\<lparr>ch_in := [], ch_reads := rs'\<rparr>)" by (auto simp: gives_def)
    then show ?thesis unfolding b'(2) using g(4) by (auto simp: fpoll_def act_defs intro!: exI)
  qed
  then obtain p2 where p2: "fpoll nohang True ?p1 = (Inr (Some ?rc), p2\<lparr>fp_returncode := Some ?rc\<rparr>)" by blast
  have agree: "?rc = code mod 256 \<longleftrightarrow> 0 \<le> code \<and> code < 256 \<or> \<not> (0 \<le> code \<and> code < 2 ^ 64) \<and> code mod 256 = 255"
    if "run (fds ! 0) (drop 4 fds) = Inr code" for code
  proof -
    have "code mod 256 = code \<longleftrightarrow> 0 \<le> code \<and> code < 256" by (rule mod_int_unchanged)
    then show ?thesis using that by auto
  qed
  show ?thesis
    by (intro exI [of _ ?p1] exI [of _ "p2\<lparr>fp_returncode := Some ?rc\<rparr>"] exI [of _ ?rc] conjI allI impI l p2 fpoll_again agree) simp_all
qed

definition all_accept :: served where
  "all_accept = \<lparr>ch_out = [], ch_in = [], ch_eof = False, ch_writes = replicate 16 (Accept 2), ch_reads = [],
     sv_alive = None, sv_inherited = None, sv_tracker = None\<rparr>"

theorem forkserver_exitcode_witness:
  "\<exists>s' p p1 p2. snd (serve_one (Inr [3, 4, 5, 6]) 1234 (\<lambda>_ _. Inr (- 2)) all_accept) = s' \<and> ch_in p = ch_out s' \<and>
    launch_pid p = (Inr (), p1) \<and> fp_pid p1 = Some 1234 \<and> fpoll True True p1 = (Inr (Some 255), p2) \<and> (- 2 :: int) mod 256 \<noteq> 255"
proof -
  let ?run = "\<lambda>_ _. Inr (- 2)"
  obtain r s' where s': "serve_one (Inr [3, 4, 5, 6]) 1234 ?run all_accept = (r, s')"
    by (cases "serve_one (Inr [3, 4, 5, 6]) 1234 ?run all_accept")
  let ?p = "\<lparr>ch_out = [], ch_in = ch_out s', ch_eof = True, ch_writes = [], ch_reads = replicate 20 (Avail 0), fp_pid = None, fp_returncode = None\<rparr>"
  have 1: "takes 16 all_accept" "ch_out all_accept = []" by (simp_all add: takes_def all_accept_def)
  have 2: "gives 17 ?p" by (simp add: gives_def)
  from forkserver_exitcode [OF _ _ _ _ 1 s' _ _ 2, of True True True] obtain p1 p2 where
    "launch_pid ?p = (Inr (), p1)" "fp_pid p1 = Some 1234" "fpoll True True p1 = (Inr (Some 255), p2)" by auto
  moreover have "(- 2 :: int) mod 256 \<noteq> 255" by simp
  moreover have "ch_in ?p = ch_out s'" by simp
  ultimately show ?thesis using s' by (metis snd_conv)
qed

section \<open>No descriptor is lost\<close>

text \<open>The rules of the calls.\<close>

lemma wp_may_fail: "wp (may_fail e c) Q E s = (case e c of None \<Rightarrow> Q () s | Some x \<Rightarrow> E x s)"
  by (simp add: wp_def may_fail_def split: option.split)

lemma wp_os_pipe: "wp (os_pipe e c) Q E s = (case e c of Some x \<Rightarrow> E x s
   | None \<Rightarrow> Q (k_next s, Suc (k_next s)) (s\<lparr>k_next := Suc (Suc (k_next s)), k_open := insert (k_next s) (insert (Suc (k_next s)) (k_open s))\<rparr>))"
  by (simp add: wp_def os_pipe_def may_fail_def bindA_def split: option.split)

lemma wp_open_fd: "wp (open_fd e c) Q E s = (case e c of Some x \<Rightarrow> E x s
   | None \<Rightarrow> Q (k_next s) (s\<lparr>k_next := Suc (k_next s), k_open := insert (k_next s) (k_open s)\<rparr>))"
  by (simp add: wp_def open_fd_def may_fail_def bindA_def split: option.split)

lemma wp_os_close: "wp (os_close fd) Q E s = (if fd \<in> k_open s then Q () (s\<lparr>k_open := k_open s - {fd}\<rparr>) else E (OSError 9) s)"
  by (simp add: wp_def os_close_def)

lemmas wp_calls = wp_may_fail wp_os_pipe wp_open_fd wp_os_close on_error_def with_socket_def spawnv_passfds_def close_each_def

lemma wp_tracker_getfd: "c_fd (fs_tracker s) = Some t \<Longrightarrow> wp (tracker_act (getfd te)) Q E s = Q (Some t) s"
  by (simp add: wp_def tracker_act_def getfd_def Sem_Tracker.ensure_running_def act_defs)

lemma wp_tracker_ensure: "c_fd (fs_tracker s) = Some t \<Longrightarrow> wp (tracker_act (Sem_Tracker.ensure_running te)) Q E s = Q () s"
  by (simp add: wp_def tracker_act_def Sem_Tracker.ensure_running_def)

lemma wp_ensure_running_again: "c_fd (fs_tracker s) = Some t \<Longrightarrow> fs_alive s = Some a \<Longrightarrow> wp (ensure_running e te prep) Q E s = Q () s"
  by (simp add: wp_def ensure_running_def tracker_act_def Sem_Tracker.ensure_running_def act_defs)

text \<open>
  Starting the fork server: when it is started, one descriptor is left open in the client, the write end of the alive pipe, and the
  server has been passed two; when anything fails, whatever it is, no descriptor is left and no server is recorded.
\<close>

theorem ensure_running_fds:
  assumes fresh: "k_open s \<subseteq> {..< k_next s}" and t: "c_fd (fs_tracker s) = Some t" and a: "fs_alive s = None"
  shows "case ensure_running e te prep s of
      (Inr _, s') \<Rightarrow> \<exists>a. fs_alive s' = Some a \<and> a \<notin> k_open s \<and> k_open s' = insert a (k_open s) \<and>
        fs_servers s' = fs_servers s @ [(fs_preload s, if fs_preload s = [] then [] else filter (\<lambda>(k, _). k \<in> set desired_keys) prep)] \<and>
        length (k_spawned s') = Suc (length (k_spawned s))
    | (Inl _, s') \<Rightarrow> k_open s' = k_open s \<and> fs_alive s' = None \<and> fs_servers s' = fs_servers s"
proof -
  let ?n = "k_next s"
  have n: "?n \<notin> k_open s" "Suc ?n \<notin> k_open s" "Suc (Suc ?n) \<notin> k_open s" "Suc (Suc (Suc ?n)) \<notin> k_open s"
    "Suc (Suc (Suc (Suc ?n))) \<notin> k_open s" using fresh by auto
  have "wp (ensure_running e te prep)
     (\<lambda>_ s'. \<exists>a. fs_alive s' = Some a \<and> a \<notin> k_open s \<and> k_open s' = insert a (k_open s) \<and>
        fs_servers s' = fs_servers s @ [(fs_preload s, if fs_preload s = [] then [] else filter (\<lambda>(k, _). k \<in> set desired_keys) prep)] \<and>
        length (k_spawned s') = Suc (length (k_spawned s)))
     (\<lambda>_ s'. k_open s' = k_open s \<and> fs_alive s' = None \<and> fs_servers s' = fs_servers s) s"
    using n a by (simp add: ensure_running_def wp_tracker_ensure [OF t] wp_simps wp_calls insert_Diff_if split: option.split)
  then show ?thesis unfolding wp_def .
qed

text \<open>
  Asking the fork server for a process: on success two descriptors are left open, the two that are returned, and
  the server has been sent the child's ends, the alive pipe, the tracker's pipe and the descriptors to inherit; on any failure
  nothing is left open, except that a failure of the second \<open>pipe\<close> leaves both ends of the first.
\<close>

theorem connect_fds:
  assumes fresh: "k_open s \<subseteq> {..< k_next s}" and t: "c_fd (fs_tracker s) = Some t" and a: "fs_alive s = Some a"
  shows "case connect_to_new_process e te prep fds s of
      (Inr (r, w), s') \<Rightarrow> length fds + 4 < 256 \<and> r \<noteq> w \<and> {r, w} \<inter> k_open s = {} \<and> k_open s' = k_open s \<union> {r, w} \<and>
        (\<exists>cr cw. fs_requests s' = fs_requests s @ [[cr, cw, a, t] @ fds])
    | (Inl x, s') \<Rightarrow> k_open s' = k_open s \<union>
        (if length fds + 4 < 256 \<and> e CSocket = None \<and> e CConnect = None \<and> e CPipe1 = None \<and> e CPipe2 \<noteq> None
         then {Suc (k_next s), Suc (Suc (k_next s))} else {}) \<and> fs_requests s' = fs_requests s"
proof -
  let ?n = "k_next s"
  have n: "?n \<notin> k_open s" "Suc ?n \<notin> k_open s" "Suc (Suc ?n) \<notin> k_open s" "Suc (Suc (Suc ?n)) \<notin> k_open s"
    "Suc (Suc (Suc (Suc ?n))) \<notin> k_open s" using fresh by auto
  have "wp (connect_to_new_process e te prep fds)
     (\<lambda>(r, w) s'. length fds + 4 < 256 \<and> r \<noteq> w \<and> {r, w} \<inter> k_open s = {} \<and> k_open s' = k_open s \<union> {r, w} \<and>
        (\<exists>cr cw. fs_requests s' = fs_requests s @ [[cr, cw, a, t] @ fds]))
     (\<lambda>x s'. k_open s' = k_open s \<union>
        (if length fds + 4 < 256 \<and> e CSocket = None \<and> e CConnect = None \<and> e CPipe1 = None \<and> e CPipe2 \<noteq> None
         then {Suc (k_next s), Suc (Suc (k_next s))} else {}) \<and> fs_requests s' = fs_requests s) s"
    unfolding connect_to_new_process_def MAXFDS_TO_SEND_def wp_bind wp_ensure_running_again [OF t a]
    using n t a by (auto simp: wp_simps wp_calls wp_tracker_getfd insert_Diff_if split: option.split)
  then show ?thesis unfolding wp_def by (auto split: prod.splits sum.splits)
qed

text \<open>A client before it has a fork server, with the tracker running.\<close>

definition client0 :: fork_server where
  "client0 = \<lparr>k_next = 3, k_open = {0, 1, 2}, k_spawned = [], fs_address = None, fs_alive = None, fs_preload = [Str ''__main__''],
     fs_tracker = \<lparr>c_fd = Some 9, c_open = [9], c_started = 1, c_pipe = []\<rparr>, fs_servers = [], fs_requests = []\<rparr>"

definition quiet_tenv :: tenv where
  "quiet_tenv = \<lparr>t_pipe = Inr (0, 1), t_spawn = None, t_write = Inr 0\<rparr>"

theorem ensure_running_fds_witness:
  "(case ensure_running (\<lambda>c. if c = CForkExec then Some (OSError 11) else None) quiet_tenv [(''sys_path'', ''x'')] client0 of
      (Inr _, _) \<Rightarrow> False | (Inl x, s') \<Rightarrow> x = OSError 11 \<and> k_open s' = {0, 1, 2} \<and> fs_alive s' = None)"
proof -
  let ?e = "\<lambda>c. if c = CForkExec then Some (OSError 11) else None"
  have t: "c_fd (fs_tracker client0) = Some 9" by (simp add: client0_def)
  have "wp (ensure_running ?e quiet_tenv [(''sys_path'', ''x'')]) (\<lambda>_ _. False) (\<lambda>x _. x = OSError 11) client0"
    unfolding ensure_running_def wp_bind wp_tracker_ensure [OF t] by (simp add: wp_simps wp_calls client0_def)
  moreover have "k_open client0 \<subseteq> {..< k_next client0}" "c_fd (fs_tracker client0) = Some 9" "fs_alive client0 = None"
    by (auto simp: client0_def)
  note ensure_running_fds [OF this, where e = ?e and te = quiet_tenv and prep = "[(''sys_path'', ''x'')]"]
  moreover have "k_open client0 = {0, 1, 2}" by (simp add: client0_def)
  ultimately show ?thesis by (auto simp: wp_def split: prod.splits sum.splits)
qed

theorem connect_fds_witness:
  "(case connect_to_new_process (\<lambda>c. if c = CPipe2 then Some (OSError 24) else None) quiet_tenv [] [7] (client0\<lparr>fs_alive := Some 2\<rparr>) of
      (Inr _, _) \<Rightarrow> False | (Inl x, s') \<Rightarrow> x = OSError 24 \<and> k_open s' = {0, 1, 2, 4, 5})"
proof -
  let ?e = "\<lambda>c. if c = CPipe2 then Some (OSError 24) else None"
  let ?s = "client0\<lparr>fs_alive := Some 2\<rparr>"
  have s: "k_open ?s \<subseteq> {..< k_next ?s}" "c_fd (fs_tracker ?s) = Some 9" "fs_alive ?s = Some 2" "k_open ?s = {0, 1, 2}" "k_next ?s = 3"
    by (auto simp: client0_def)
  have "wp (connect_to_new_process ?e quiet_tenv [] [7]) (\<lambda>_ _. False) (\<lambda>x _. x = OSError 24) ?s"
    unfolding connect_to_new_process_def MAXFDS_TO_SEND_def wp_bind wp_ensure_running_again [OF s(2,3)]
    by (simp add: wp_simps wp_calls client0_def)
  with connect_fds [OF s(1-3), where e = ?e and te = quiet_tenv and prep = "[]" and fds = "[7]"] s(4,5) show ?thesis by (auto simp: wp_def split: prod.splits sum.splits)
qed

text \<open>
  Starting a process with \<open>spawn\<close>: on success one descriptor is left open, the sentinel, and the program has been passed
  exactly what was duplicated for it, the tracker's pipe and its two ends; on any failure no descriptor is left open but the
  parent's end of the first pipe once that exists, and in every case the thread is no longer marked as spawning.
\<close>

theorem spawn_launch_fds:
  assumes fresh: "k_open s \<subseteq> {..< k_next s}" and fds: "sp_fds s = []" and sp: "\<not> sp_spawning s"
  shows "case spawn_launch e (ret (Some t)) dups s of
      (Inr _, s') \<Rightarrow> \<not> sp_spawning s' \<and> (\<exists>r cr cw. sp_sentinel s' = Some r \<and> r \<notin> k_open s \<and> k_open s' = insert r (k_open s) \<and>
        k_spawned s' = k_spawned s @ [sort (t # dups @ [cr, cw])] \<and> {cr, cw} \<inter> k_open s = {})
    | (Inl x, s') \<Rightarrow> \<not> sp_spawning s' \<and> k_open s' = k_open s \<union>
        (if (\<forall>c \<in> {CDjango, CPrepData, CDumpPrep, CDumpProcess, CPipe1}. e c = None) then {k_next s} else {})"
proof -
  let ?n = "k_next s"
  have n: "?n \<notin> k_open s" "Suc ?n \<notin> k_open s" "Suc (Suc ?n) \<notin> k_open s" "Suc (Suc (Suc ?n)) \<notin> k_open s"
    "Suc (Suc (Suc (Suc ?n))) \<notin> k_open s" "Suc (Suc (Suc (Suc (Suc ?n)))) \<notin> k_open s" using fresh by auto
  have "wp (spawn_launch e (ret (Some t)) dups)
     (\<lambda>_ s'. \<not> sp_spawning s' \<and> (\<exists>r cr cw. sp_sentinel s' = Some r \<and> r \<notin> k_open s \<and> k_open s' = insert r (k_open s) \<and>
        k_spawned s' = k_spawned s @ [sort (t # dups @ [cr, cw])] \<and> {cr, cw} \<inter> k_open s = {}))
     (\<lambda>x s'. \<not> sp_spawning s' \<and> k_open s' = k_open s \<union>
        (if (\<forall>c \<in> {CDjango, CPrepData, CDumpPrep, CDumpProcess, CPipe1}. e c = None) then {k_next s} else {})) s"
    using n fds sp by (auto simp: spawn_launch_def dump_process_def wp_simps wp_calls insert_Diff_if split: option.split)
  then show ?thesis unfolding wp_def by (auto split: prod.splits sum.splits)
qed

theorem spawn_launch_fds_witness:
  "(case spawn_launch (\<lambda>c. if c = CForkExec then Some (OSError 11) else None) (ret (Some 5)) [8]
      \<lparr>k_next = 10, k_open = {0, 5, 8}, k_spawned = [], sp_fds = [], sp_pid = False, sp_sentinel = None, sp_spawning = False, sp_disabled = False\<rparr> of
      (Inr _, _) \<Rightarrow> False | (Inl x, s') \<Rightarrow> \<not> sp_spawning s' \<and> k_open s' = {0, 5, 8, 10})"
proof -
  let ?e = "\<lambda>c. if c = CForkExec then Some (OSError 11) else None"
  let ?s = "\<lparr>k_next = 10, k_open = {0, 5, 8}, k_spawned = [], sp_fds = [], sp_pid = False, sp_sentinel = None, sp_spawning = False, sp_disabled = False\<rparr>"
  have "wp (spawn_launch ?e (ret (Some 5)) [8]) (\<lambda>_ _. False) (\<lambda>_ _. True) ?s"
    by (simp add: spawn_launch_def dump_process_def wp_simps wp_calls)
  moreover have "k_open ?s \<subseteq> {..< k_next ?s}" "sp_fds ?s = []" "\<not> sp_spawning ?s" by auto
  note spawn_launch_fds [OF this, where e = ?e and t = 5 and dups = "[8]"]
  ultimately show ?thesis by (auto simp: wp_def split: prod.splits sum.splits)
qed

section \<open>Inherited descriptors\<close>

primrec duplicate_all :: "fd list \<Rightarrow> fd list \<Rightarrow> nat list \<times> fd list" where
  "duplicate_all [] fds = ([], fds)"
| "duplicate_all (h # hs) fds = (case duplicate_for_child h fds of (i, fds') \<Rightarrow>
     (case duplicate_all hs fds' of (is, fds'') \<Rightarrow> (i # is, fds'')))"

lemma duplicate_all_eq: "duplicate_all hs fds = ([length fds ..< length fds + length hs], fds @ hs)"
proof (induction hs arbitrary: fds)
  case (Cons h hs)
  show ?case using upt_conv_Cons [of "length fds" "length fds + length (h # hs)"] Cons
    by (simp add: duplicate_for_child_def del: upt_Suc)
qed simp

lemma serve_one_inherited:
  assumes "4 \<le> length fds" "length fds \<le> 256" "serve_one (Inr fds) pid run s = (r, s')"
  shows "sv_inherited s' = Some (drop 4 fds)"
proof -
  obtain cr cw al st inh where f: "fds = cr # cw # al # st # inh"
    using assms(1) by (cases fds; cases "tl fds"; cases "tl (tl fds)"; cases "tl (tl (tl fds))") auto
  have w: "sv_inherited (snd (write_unsigned_loop m t)) = sv_inherited t" for m and t :: served
  proof (induction m t rule: write_unsigned_loop.induct)
    case (1 m t)
    have "sv_inherited (snd (os_write m t)) = sv_inherited t"
      by (auto simp: os_write_def Let_def split: list.split wres.split)
    then show ?case using 1 by (subst write_unsigned_loop.simps) (auto split: prod.splits sum.splits)
  qed
  have w': "sv_inherited (snd (write_unsigned n t)) = sv_inherited t" for n and t :: served
    using w by (simp add: write_unsigned_def raise_def split: sum.split)
  have "wp (serve_one (Inr fds) pid run) (\<lambda>_ s'. sv_inherited s' = Some inh) (\<lambda>_ s'. sv_inherited s' = Some inh) s"
  proof -
    have ww: "wp (write_unsigned n) Q Q' t" if "\<And>u. sv_inherited u = sv_inherited t \<Longrightarrow> Q () u \<and> (\<forall>x. Q' x u)" for n Q Q' and t :: served
      using w' [of n t] that [of "snd (write_unsigned n t)"] by (auto simp: wp_def split: prod.split sum.split)
    show ?thesis using assms(2) unfolding f
      by (auto simp: serve_one_def wp_simps MAXFDS_TO_SEND_def split: sum.split intro!: ww)
  qed
  then show ?thesis using assms(3) by (auto simp: f wp_def split: sum.splits)
qed

text \<open>
  A descriptor a process object carries into a child of the fork server: it is pickled as its index among those
  duplicated, the descriptors go through \<open>sendfds\<close> and \<open>recvfds\<close> together with the four of the start, and what the child
  gets back for the index is the number the kernel has given it for that very descriptor, whatever happens in the child later.
\<close>

theorem forkserver_inherits:
  assumes "length hs + 4 < MAXFDS_TO_SEND" "i < length hs" and d: "duplicate_all hs [] = (is, fds)"
    and child: "serve_one (fst (recvfds ack inst (MAXFDS_TO_SEND + 1) wire)) pid run s = (r, s')"
    and sent: "sendfds ack None answer ([child_r, child_w, alive, stfd] @ fds) = (res, wire)"
  shows "dupfd_detach (sv_inherited s') (is ! i) = Inr (inst (hs ! i))"
proof -
  have e: "is = [0 ..< length hs]" "fds = hs" using d unfolding duplicate_all_eq by auto
  let ?all = "[child_r, child_w, alive, stfd] @ hs"
  have "wire = Some ([word_of_nat (length ?all mod 256)], ?all)" using sent unfolding e(2) sendfds_def by simp
  then have "fst (recvfds ack inst (MAXFDS_TO_SEND + 1) wire) = Inr (map inst ?all)"
    using recvfds_sent [of ?all ack inst "MAXFDS_TO_SEND + 1"] assms(1) by (simp add: MAXFDS_TO_SEND_def min_def)
  from serve_one_inherited [OF _ _ child [unfolded this]] have "sv_inherited s' = Some (drop 4 (map inst ?all))"
    using assms(1) by (simp add: MAXFDS_TO_SEND_def)
  then show ?thesis using assms(2) e by (simp add: dupfd_detach_def)
qed

theorem forkserver_inherits_witness:
  "\<exists>r s'. serve_one (fst (recvfds False (\<lambda>h. h + 20) (MAXFDS_TO_SEND + 1) (snd (sendfds False None [] ([1, 2, 3, 4] @ [7, 8])))))
      99 (\<lambda>_ _. Inr 0) all_accept = (r, s') \<and> dupfd_detach (sv_inherited s') 1 = Inr (8 + 20)"
proof -
  let ?wire = "snd (sendfds False None [] ([1, 2, 3, 4] @ [7, 8]))"
  obtain r s' where s: "serve_one (fst (recvfds False (\<lambda>h. h + 20) (MAXFDS_TO_SEND + 1) ?wire)) 99 (\<lambda>_ _. Inr 0) all_accept = (r, s')"
    by (cases "serve_one (fst (recvfds False (\<lambda>h. h + 20) (MAXFDS_TO_SEND + 1) ?wire)) 99 (\<lambda>_ _. Inr 0) all_accept")
  have d: "duplicate_all [7, 8] [] = ([0, 1], [7, 8])" by (simp add: duplicate_all_eq upt_rec)
  from forkserver_inherits [OF _ _ d s prod.collapse [symmetric], of 1] have "dupfd_detach (sv_inherited s') 1 = Inr (8 + 20)"
    by (simp add: MAXFDS_TO_SEND_def)
  with s show ?thesis by blast
qed

section \<open>The preload list\<close>

text \<open>The check looks at the list that is replaced: a wrong list is accepted, and from then on no list is.\<close>

lemma preload_check_late:
  assumes "NotStr \<notin> set (fs_preload s)" "NotStr \<in> set names"
  shows "\<exists>s'. set_forkserver_preload names s = (Inr (), s') \<and> fs_preload s' = names \<and>
    (\<forall>names'. set_forkserver_preload names' s' = (Inl TypeError, s'))"
  using assms by (simp add: set_forkserver_preload_def act_defs)

section \<open>The server's loop\<close>

lemma server_loop_append: "server_loop ws served = (None, served') \<Longrightarrow> server_loop (ws @ ws') served = server_loop ws' served'"
  by (induction ws arbitrary: served) (auto split: sum.splits option.splits if_splits)

definition serves :: "wake \<Rightarrow> nat list" where
  "serves w = (case wake_step w of Inr (Some c) \<Rightarrow> [c] | _ \<Rightarrow> [])"

text \<open>
  The fork server starts a process for every connection it accepts, in that order, also over connections that are
  aborted before they are accepted; and it ends when the alive pipe is at its end, which is when no client is left.
\<close>

theorem server_serves_until_alone:
  assumes "\<And>w. w \<in> set ws \<Longrightarrow> \<not> wk_alive w \<and> wk_fork w = None \<and> (\<forall>x. wk_accept w = Inl x \<longrightarrow> x = OSError ECONNABORTED)"
    and "wk_alive fin" "wk_read fin = []"
  shows "server_loop (ws @ fin # later) [] = (Some (SystemExit 0), concat (map serves ws))"
proof -
  have "server_loop ws served = (None, served @ concat (map serves ws))" for served
    using assms(1)
  proof (induction ws arbitrary: served)
    case (Cons w ws)
    have "\<not> wk_alive w" "wk_fork w = None" "\<forall>x. wk_accept w = Inl x \<longrightarrow> x = OSError ECONNABORTED" using Cons.prems [of w] by simp_all
    then have "wake_step w = (if \<not> wk_listener w then Inr None else case wk_accept w of Inl x \<Rightarrow> Inl (OSError ECONNABORTED) | Inr c \<Rightarrow> Inr (Some c))"
      "serves w = (if \<not> wk_listener w then [] else case wk_accept w of Inl x \<Rightarrow> [] | Inr c \<Rightarrow> [c])"
      by (auto simp: wake_step_def serves_def split: sum.split)
    moreover have "server_loop ws served' = (None, served' @ concat (map serves ws))" for served'
      by (rule Cons.IH) (use Cons.prems in auto)
    ultimately show ?case by (simp split: sum.split)
  qed simp
  from server_loop_append [OF this [of "[]"]] show ?thesis using assms(2,3) by (simp add: wake_step_def)
qed

theorem server_serves_until_alone_witness:
  "server_loop [\<lparr>wk_alive = False, wk_listener = True, wk_read = [], wk_accept = Inr 5, wk_fork = None\<rparr>,
      \<lparr>wk_alive = False, wk_listener = True, wk_read = [], wk_accept = Inl (OSError ECONNABORTED), wk_fork = None\<rparr>,
      \<lparr>wk_alive = True, wk_listener = False, wk_read = [], wk_accept = Inr 6, wk_fork = None\<rparr>] [] = (Some (SystemExit 0), [5])"
  using server_serves_until_alone [of "[\<lparr>wk_alive = False, wk_listener = True, wk_read = [], wk_accept = Inr 5, wk_fork = None\<rparr>,
      \<lparr>wk_alive = False, wk_listener = True, wk_read = [], wk_accept = Inl (OSError ECONNABORTED), wk_fork = None\<rparr>]"
      "\<lparr>wk_alive = True, wk_listener = False, wk_read = [], wk_accept = Inr 6, wk_fork = None\<rparr>" "[]"]
  by (auto simp: serves_def wake_step_def)

end
