(* ===== verification/Spawn_Win32.thy ===== *)
theory Spawn_Win32
  imports Prelude
begin

text \<open>
  \<open>billiard/popen_spawn_win32.py\<close>: starting a process on Windows. The handles of the parent that are open after a start that succeeds or
  fails anywhere, the quoting of the command line against the way Windows programs split theirs, and the exit code. Handles are numbered
  in the order they are opened; the argument \<open>env\<close> says which calls fail and with what.
\<close>

section \<open>Starting a process\<close>

datatype wcall = WDjango | WPrepData | WCreatePipe | WOpenOsfHandle | WCommandLine | WOpen | WCreateProcess | WCloseThread | WDumpPrep | WDumpProcess

record wpopen =
  wp_open :: "nat set"
  wp_next :: nat
  wp_pid :: "int option"
  wp_handle :: "nat option"
  wp_sentinel :: "nat option"
  wp_returncode :: "int option"
  wp_spawning :: bool                \<comment> \<open>the thread is marked as spawning\<close>
  wp_commands :: "string list"       \<comment> \<open>of the processes that have been created\<close>

definition wcalls :: "(wcall \<Rightarrow> exn option) \<Rightarrow> wcall \<Rightarrow> (wpopen, unit) act" where
  "wcalls env c = (case env c of Some e \<Rightarrow> raise e | None \<Rightarrow> ret ())"

definition new_handles :: "(wpopen, nat \<times> nat) act" where
  "new_handles = readA (\<lambda>s. let n = wp_next s in
     bindA (modifyA (\<lambda>s. s\<lparr>wp_open := insert n (insert (Suc n) (wp_open s)), wp_next := Suc (Suc n)\<rparr>)) (\<lambda>_. ret (n, Suc n)))"

definition shut :: "nat \<Rightarrow> (wpopen, unit) act" where
  "shut h = modifyA (\<lambda>s. s\<lparr>wp_open := wp_open s - {h}\<rparr>)"

definition quoted :: "string list \<Rightarrow> string" where
  "quoted args = concat (case map (\<lambda>x. [CHR 0x22] @ x @ [CHR 0x22]) args of [] \<Rightarrow> [] | q # qs \<Rightarrow> q # map (Cons (CHR '' '')) qs)"

definition win_popen :: "(wcall \<Rightarrow> exn option) \<Rightarrow> (nat \<Rightarrow> string list) \<Rightarrow> int \<Rightarrow> (wpopen, unit) act" where
  "win_popen env command_line pid =
     bindA (wcalls env WDjango) (\<lambda>_.
     bindA (wcalls env WPrepData) (\<lambda>_.
     bindA (wcalls env WCreatePipe) (\<lambda>_. bindA new_handles (\<lambda>(rhandle, wfd).
     bindA (wcalls env WOpenOsfHandle) (\<lambda>_.
     bindA (wcalls env WCommandLine) (\<lambda>_.
     bindA (wcalls env WOpen) (\<lambda>_.
     finallyA
       (bindA (catchA
          (bindA (wcalls env WCreateProcess) (\<lambda>_. bindA new_handles (\<lambda>(hp, ht).
           bindA (modifyA (\<lambda>s. s\<lparr>wp_commands := wp_commands s @ [quoted (command_line rhandle)]\<rparr>)) (\<lambda>_.
           bindA (wcalls env WCloseThread) (\<lambda>_. bindA (shut ht) (\<lambda>_. ret hp))))))
          (\<lambda>e. bindA (shut rhandle) (\<lambda>_. raise e))) (\<lambda>hp.
        bindA (modifyA (\<lambda>s. s\<lparr>wp_pid := Some pid, wp_returncode := None, wp_handle := Some hp, wp_sentinel := Some hp, wp_spawning := True\<rparr>)) (\<lambda>_.
        finallyA (bindA (wcalls env WDumpPrep) (\<lambda>_. wcalls env WDumpProcess))
          (modifyA (\<lambda>s. s\<lparr>wp_spawning := False\<rparr>)))))
       (shut wfd))))))))"

definition win_close :: "exn option \<Rightarrow> (wpopen, unit) act" where
  "win_close err = readA (\<lambda>s. case wp_sentinel s of None \<Rightarrow> ret ()
     | Some h \<Rightarrow> finallyA (case err of None \<Rightarrow> shut h | Some e \<Rightarrow> raise e) (modifyA (\<lambda>s. s\<lparr>wp_sentinel := None\<rparr>)))"

text \<open>The first call that fails.\<close>

definition order :: "wcall list" where
  "order = [WDjango, WPrepData, WCreatePipe, WOpenOsfHandle, WCommandLine, WOpen, WCreateProcess, WCloseThread, WDumpPrep, WDumpProcess]"

definition failing :: "(wcall \<Rightarrow> exn option) \<Rightarrow> wcall option" where
  "failing env = find (\<lambda>c. env c \<noteq> None) order"

lemma find_first: "find Q xs = Some x \<Longrightarrow> Q x \<and> (\<forall>y \<in> set (takeWhile (\<lambda>y. y \<noteq> x) xs). \<not> Q y)"
proof (induction xs)
  case (Cons a xs)
  then show ?case by (cases "Q a"; cases "a = x"; simp)
qed simp

text \<open>What stays open when a call fails: \<open>r\<close> is the read end of the pipe, then come its write end, the process and its thread.\<close>

fun left_open :: "nat \<Rightarrow> wcall option \<Rightarrow> nat set" where
  "left_open r (Some WDjango) = {}"
| "left_open r (Some WPrepData) = {}"
| "left_open r (Some WCreatePipe) = {}"
| "left_open r (Some WOpenOsfHandle) = {r, Suc r}"
| "left_open r (Some WCommandLine) = {r, Suc r}"
| "left_open r (Some WOpen) = {r, Suc r}"
| "left_open r (Some WCreateProcess) = {}"
| "left_open r (Some WCloseThread) = {Suc (Suc r), Suc (Suc (Suc r))}"
| "left_open r _ = {r, Suc (Suc r)}"

definition created :: "wcall option \<Rightarrow> bool" where
  "created c \<longleftrightarrow> c \<in> {None, Some WCloseThread, Some WDumpPrep, Some WDumpProcess}"

text \<open>
  The handles of the parent after a start: on success the process's own, and the read end of the pipe, which the child takes out of the
  parent; and after a failure those that the failing call leaves. The process is created with the quoted command line, once.
\<close>

theorem win_popen_handles:
  assumes "wp_open s \<subseteq> {..< wp_next s}" "\<not> wp_spawning s" "win_popen env cl pid s = (r, s')"
  shows "wp_open s' = wp_open s \<union> left_open (wp_next s) (failing env) \<and> \<not> wp_spawning s' \<and>
    (r = (case failing env of None \<Rightarrow> Inr () | Some c \<Rightarrow> Inl (the (env c)))) \<and>
    (r = Inr () \<longrightarrow> wp_sentinel s' = Some (Suc (Suc (wp_next s))) \<and> wp_pid s' = Some pid) \<and>
    wp_commands s' = wp_commands s @ (if created (failing env) then [quoted (cl (wp_next s))] else [])"
proof -
  let ?n = "wp_next s"
  have n: "?n \<notin> wp_open s" "Suc ?n \<notin> wp_open s" "Suc (Suc ?n) \<notin> wp_open s" "Suc (Suc (Suc ?n)) \<notin> wp_open s" using assms(1) by auto
  have calls: "wp (wcalls env c) Q E t = (case env c of None \<Rightarrow> Q () t | Some e \<Rightarrow> E e t)" for c Q E t
    by (simp add: wcalls_def wp_def act_defs split: option.split)
  have new: "wp new_handles Q E t = Q (wp_next t, Suc (wp_next t))
      (t\<lparr>wp_open := insert (wp_next t) (insert (Suc (wp_next t)) (wp_open t)), wp_next := Suc (Suc (wp_next t))\<rparr>)" for Q E t
    by (simp add: new_handles_def wp_def act_defs Let_def)
  let ?post = "\<lambda>r s'. wp_open s' = wp_open s \<union> left_open ?n (failing env) \<and> \<not> wp_spawning s' \<and>
    (r = (case failing env of None \<Rightarrow> Inr () | Some c \<Rightarrow> Inl (the (env c)))) \<and>
    (r = Inr () \<longrightarrow> wp_sentinel s' = Some (Suc (Suc ?n)) \<and> wp_pid s' = Some pid) \<and>
    wp_commands s' = wp_commands s @ (if created (failing env) then [quoted (cl ?n)] else [])"
  have "wp (win_popen env cl pid) (\<lambda>u. ?post (Inr u)) (\<lambda>e. ?post (Inl e)) s"
  proof (cases "failing env")
    case None
    then have "env c = None" for c by (cases c) (auto simp: failing_def order_def split: if_splits)
    with None show ?thesis using assms(2) n
      by (simp add: win_popen_def wp_simps calls new shut_def created_def insert_Diff_if insert_commute)
  next
    case (Some c)
    from find_first [OF Some [unfolded failing_def]] obtain e where
      e: "env c = Some e" "\<forall>y \<in> set (takeWhile (\<lambda>y. y \<noteq> c) order). env y = None" by auto
    show ?thesis unfolding Some using e assms(2) n
      by (cases c; simp add: order_def win_popen_def wp_simps calls new shut_def created_def insert_Diff_if insert_commute)
  qed
  then show ?thesis using assms(3) by (auto simp: wp_def split: sum.splits)
qed

section \<open>The command line\<close>

text \<open>
  How a program on Windows splits its command line (\<open>CommandLineToArgvW\<close>): blanks outside of quotes separate, a quote
  after an even number of backslashes begins or ends a quoted part, and after an odd number it is a character; a pair of backslashes before a
  quote is one. The arguments: inside quotes, in an argument, pending backslashes, and the argument so far in reverse.
\<close>

abbreviation QUOTE :: char where "QUOTE \<equiv> CHR 0x22"
abbreviation BACKSLASH :: char where "BACKSLASH \<equiv> CHR 0x5C"
abbreviation BLANK :: char where "BLANK \<equiv> CHR '' ''"

fun win_split :: "bool \<Rightarrow> bool \<Rightarrow> nat \<Rightarrow> string \<Rightarrow> string \<Rightarrow> string list" where
  "win_split inq started k acc [] = (if started then [rev (replicate k BACKSLASH @ acc)] else [])"
| "win_split inq started k acc (c # cs) =
     (if c = BACKSLASH then win_split inq True (Suc k) acc cs
      else if c = QUOTE then
        (if even k then win_split (\<not> inq) True 0 (replicate (k div 2) BACKSLASH @ acc) cs
         else win_split inq True 0 (QUOTE # replicate (k div 2) BACKSLASH @ acc) cs)
      else if (c = BLANK \<or> c = CHR 0x09) \<and> \<not> inq then
        (if started then rev (replicate k BACKSLASH @ acc) # win_split False False 0 [] cs else win_split False False 0 [] cs)
      else win_split inq True 0 (c # replicate k BACKSLASH @ acc) cs)"

definition win_args :: "string \<Rightarrow> string list" where
  "win_args s = win_split False False 0 [] s"

lemma split_inside:
  assumes "QUOTE \<notin> set x" "x \<noteq> [] \<Longrightarrow> last x \<noteq> BACKSLASH" "x = [] \<Longrightarrow> k = 0"
  shows "win_split True True k acc (x @ QUOTE # rest) = win_split False True 0 (rev x @ replicate k BACKSLASH @ acc) rest"
  using assms
proof (induction x arbitrary: k acc)
  case (Cons c x)
  show ?case
  proof (cases "c = BACKSLASH")
    case True
    then have "x \<noteq> []" using Cons.prems(2) by auto
    have "win_split True True k acc ((c # x) @ QUOTE # rest) = win_split True True (Suc k) acc (x @ QUOTE # rest)" using True by simp
    also have "\<dots> = win_split False True 0 (rev x @ replicate (Suc k) BACKSLASH @ acc) rest"
      by (rule Cons.IH) (use Cons.prems \<open>x \<noteq> []\<close> in auto)
    also have "rev x @ replicate (Suc k) BACKSLASH @ acc = rev (c # x) @ replicate k BACKSLASH @ acc" using True by simp
    finally show ?thesis .
  next
    case False
    have "win_split True True k acc ((c # x) @ QUOTE # rest) = win_split True True 0 (c # replicate k BACKSLASH @ acc) (x @ QUOTE # rest)"
      using False Cons.prems(1) by auto
    also have "\<dots> = win_split False True 0 (rev x @ replicate 0 BACKSLASH @ c # replicate k BACKSLASH @ acc) rest"
      by (rule Cons.IH) (use Cons.prems in \<open>auto split: if_splits\<close>)
    finally show ?thesis by simp
  qed
qed simp

definition plain_arg :: "string \<Rightarrow> bool" where
  "plain_arg x \<longleftrightarrow> QUOTE \<notin> set x \<and> (x \<noteq> [] \<longrightarrow> last x \<noteq> BACKSLASH)"

lemma split_quoted:
  "plain_arg x \<Longrightarrow> win_split False False 0 [] ([QUOTE] @ x @ [QUOTE] @ rest) = win_split False True 0 (rev x) rest"
  using split_inside [of x 0 "[]" rest] by (simp add: plain_arg_def)

lemma split_args:
  "\<forall>x \<in> set xs. plain_arg x \<Longrightarrow>
   win_split False True 0 acc (concat (map (Cons BLANK) (map (\<lambda>x. [QUOTE] @ x @ [QUOTE]) xs))) = rev acc # xs"
proof (induction xs arbitrary: acc)
  case (Cons x xs)
  have "win_split False True 0 acc (BLANK # [QUOTE] @ x @ [QUOTE] @ concat (map (Cons BLANK) (map (\<lambda>x. [QUOTE] @ x @ [QUOTE]) xs))) =
      rev acc # win_split False True 0 (rev x) (concat (map (Cons BLANK) (map (\<lambda>x. [QUOTE] @ x @ [QUOTE]) xs)))"
    using split_quoted [of x] Cons.prems by simp
  also have "\<dots> = rev acc # x # xs" using Cons.IH [of "rev x"] Cons.prems by simp
  finally show ?case by simp
qed simp

text \<open>
  The command line of a child is split into the arguments it was made of, blanks and empty ones included, for arguments
  without a double quote and not ending in a backslash, as those of \<open>get_command_line\<close> are.
\<close>

theorem quoted_roundtrip:
  assumes "\<forall>x \<in> set args. plain_arg x"
  shows "win_args (quoted args) = args"
proof (cases args)
  case (Cons x xs)
  then show ?thesis using split_quoted [of x "concat (map (Cons BLANK) (map (\<lambda>x. [QUOTE] @ x @ [QUOTE]) xs))"] split_args [of xs "rev x"] assms
    by (simp add: win_args_def quoted_def)
qed (simp add: win_args_def quoted_def)

theorem quoted_roundtrip_witness:
  "win_args (quoted [''C:'' @ [BACKSLASH] @ ''Program Files'' @ [BACKSLASH] @ ''python.exe'', ''-c'', [], ''spawn_main(parent_pid=7)'']) =
    [''C:'' @ [BACKSLASH] @ ''Program Files'' @ [BACKSLASH] @ ''python.exe'', ''-c'', [], ''spawn_main(parent_pid=7)'']"
  by (rule quoted_roundtrip) (simp add: plain_arg_def)

text \<open>An argument that ends in a backslash takes the next one with it.\<close>

lemma backslash_swallows: "win_args (quoted [[BACKSLASH], ''a'']) = [[QUOTE] @ '' a'']"
  by (simp add: win_args_def quoted_def)

section \<open>The exit code\<close>

definition TERMINATE :: nat where "TERMINATE = 0x10000"
definition SIGTERM :: int where "SIGTERM = 15"

text \<open>\<open>ended\<close> is the exit code the process has when the wait is over, if it has ended.\<close>

definition win_wait_popen :: "nat option \<Rightarrow> (wpopen, int option) act" where
  "win_wait_popen ended = readA (\<lambda>s.
     if wp_returncode s \<noteq> None then ret (wp_returncode s)
     else case ended of None \<Rightarrow> ret None
       | Some code \<Rightarrow> let rc = (if code = TERMINATE then - SIGTERM else int code) in
           bindA (modifyA (\<lambda>s. s\<lparr>wp_returncode := Some rc\<rparr>)) (\<lambda>_. ret (Some rc)))"

definition win_terminate :: "exn option \<Rightarrow> nat option \<Rightarrow> (wpopen, bool) act" where
  "win_terminate err ended = readA (\<lambda>s.
     if wp_returncode s \<noteq> None then ret False
     else case err of None \<Rightarrow> ret True
       | Some (OSError n) \<Rightarrow> bindA (win_wait_popen ended) (\<lambda>r. if r = None then raise (OSError n) else ret False)
       | Some e \<Rightarrow> raise e)"

text \<open>
  The process over time: it runs and then has ended with a code. \<open>poll\<close> looks, \<open>wait\<close> also waits, \<open>terminate\<close> ends it when it
  can, and is refused for a process that has ended.
\<close>

datatype wop = Poll | Wait "nat option" | Terminate bool | Exits nat

fun wop_step :: "wop \<Rightarrow> wpopen \<times> nat option \<Rightarrow> wpopen \<times> nat option" where
  "wop_step Poll (s, p) = (snd (win_wait_popen p s), p)"
| "wop_step (Wait c) (s, p) = (let p' = (if p = None then c else p) in (snd (win_wait_popen p' s), p'))"
| "wop_step (Terminate refused) (s, p) =
     (let err = (if refused \<or> p \<noteq> None then Some (OSError 5) else None) in
      case win_terminate err p s of (r, s') \<Rightarrow> (s', if r = Inr True then Some TERMINATE else p))"
| "wop_step (Exits c) (s, p) = (s, if p = None then Some c else p)"

definition status :: "nat \<Rightarrow> int" where
  "status code = (if code = TERMINATE then - SIGTERM else int code)"

definition wp_ok :: "wpopen \<times> nat option \<Rightarrow> bool" where
  "wp_ok x \<longleftrightarrow> wp_returncode (fst x) = None \<or> (\<exists>c. snd x = Some c \<and> wp_returncode (fst x) = Some (status c))"

lemma wop_step_ok: "wp_ok x \<Longrightarrow> wp_ok (wop_step a x)"
  by (cases x; cases a)
    (auto simp: wp_ok_def win_wait_popen_def win_terminate_def status_def act_defs Let_def split: if_splits option.splits)

lemma wop_step_keeps:
  "snd x = Some c \<Longrightarrow> snd (wop_step a x) = Some c"
  "wp_returncode (fst x) = Some rc \<Longrightarrow> wp_returncode (fst (wop_step a x)) = Some rc"
  by (cases x; cases a; auto simp: win_wait_popen_def win_terminate_def act_defs Let_def split: if_splits option.splits)+

lemma wop_run_ok: "wp_ok x \<Longrightarrow> wp_ok (fold wop_step as x)"
  by (induction as arbitrary: x) (simp_all add: wop_step_ok)

lemma wop_run_keeps: "snd x = Some c \<Longrightarrow> snd (fold wop_step as x) = Some c"
  by (induction as arbitrary: x) (simp_all add: wop_step_keeps(1))

text \<open>
  The exit code on Windows: in every history, when the process has ended with a code, every later look gives that code for good, and
  \<open>- SIGTERM\<close> when it is the code \<open>terminate\<close> uses; before, a look gives nothing. A process that ends by itself with this
  code cannot be told from a terminated one.
\<close>

theorem win_exitcode:
  assumes "wp_returncode s = None" "x = fold wop_step as (s, None)" "y = fold wop_step bs (wop_step Poll x)"
  shows "case snd x of None \<Rightarrow> fst (win_wait_popen None (fst x)) = Inr None
    | Some c \<Rightarrow> wp_returncode (fst y) = Some (status c) \<and> fst (win_wait_popen (snd y) (fst y)) = Inr (Some (status c))"
proof -
  have x: "wp_ok x" unfolding assms(2) by (rule wop_run_ok) (simp add: wp_ok_def assms(1))
  show ?thesis
  proof (cases "snd x")
    case None
    then show ?thesis using x by (simp add: wp_ok_def win_wait_popen_def act_defs)
  next
    case (Some c)
    have p: "wp_returncode (fst (wop_step Poll x)) = Some (status c)" "snd (wop_step Poll x) = Some c"
      using x Some by (cases x; auto simp: wp_ok_def win_wait_popen_def act_defs Let_def status_def)+
    have "wp_returncode (fst (fold wop_step bs z)) = Some (status c)" if "wp_returncode (fst z) = Some (status c)" for z
      using that by (induction bs arbitrary: z) (simp_all add: wop_step_keeps(2))
    from this [OF p(1)] have y: "wp_returncode (fst y) = Some (status c)" unfolding assms(3) .
    then show ?thesis using Some by (simp add: win_wait_popen_def act_defs)
  qed
qed

definition wpopen0 :: wpopen where
  "wpopen0 = \<lparr>wp_open = {}, wp_next = 0, wp_pid = None, wp_handle = None, wp_sentinel = None, wp_returncode = None,
     wp_spawning = False, wp_commands = []\<rparr>"

theorem win_exitcode_witness:
  "wp_returncode (fst (fold wop_step [Terminate True, Exits 3] (wop_step Poll (fold wop_step [Poll, Terminate False] (wpopen0, None))))) = Some (- 15)"
proof -
  have z: "wp_returncode wpopen0 = None" by (simp add: wpopen0_def)
  have "snd (fold wop_step [Poll, Terminate False] (wpopen0, None)) = Some TERMINATE"
    by (simp add: wpopen0_def win_wait_popen_def win_terminate_def act_defs Let_def)
  with win_exitcode [OF z refl refl, of "[Poll, Terminate False]" "[Terminate True, Exits 3]"] show ?thesis
    by (simp only: option.case status_def SIGTERM_def if_True refl)
qed

theorem win_popen_handles_witness:
  "\<exists>r s'. win_popen (\<lambda>c. if c = WDumpPrep then Some RuntimeError else None) (\<lambda>_. [''python'']) 9 wpopen0 = (r, s') \<and>
    wp_open s' = {0, 2} \<and> r = Inl RuntimeError"
proof -
  let ?env = "\<lambda>c. if c = WDumpPrep then Some RuntimeError else None"
  obtain r s' where r: "win_popen ?env (\<lambda>_. [''python'']) 9 wpopen0 = (r, s')" by fastforce
  have f: "failing ?env = Some WDumpPrep" by (simp add: failing_def order_def)
  have "wp_open wpopen0 \<subseteq> {..< wp_next wpopen0}" "\<not> wp_spawning wpopen0" by (simp_all add: wpopen0_def)
  note w = win_popen_handles [OF this r, unfolded f]
  have "wp_open s' = {0, 2}" using w [THEN conjunct1] by (simp add: wpopen0_def numeral_2_eq_2)
  moreover have "r = Inl RuntimeError" using w [THEN conjunct2, THEN conjunct2, THEN conjunct1] by simp
  ultimately show ?thesis using r by blast
qed

end
