(* ===== verification/Process_Tree.thy ===== *)
theory Process_Tree
  imports Prelude "HOL-Library.AList"
begin

text \<open>
  \<open>billiard/_win.py\<close>: the descendants of a process from a snapshot of the system's processes, and the signals to all of them. The calls of the
  system are a script of their results; process numbers are \<open>DWORD\<close>s.
\<close>

type_synonym pid = "32 word"

section \<open>The snapshot\<close>

text \<open>A call of \<open>Process32First\<close> or \<open>Process32Next\<close> fills in an entry, of which the numbers of the process and its parent are read, or it fails with an error number.\<close>

definition ERROR_NO_MORE_FILES :: int where "ERROR_NO_MORE_FILES = 18"

definition INVALID_HANDLE_VALUE :: "64 word" where "INVALID_HANDLE_VALUE = - 1"

definition CreateToolhelp32Snapshot :: "64 word \<Rightarrow> int \<Rightarrow> exn + 64 word" where
  "CreateToolhelp32Snapshot hSnapshot last_error =
     (if hSnapshot = INVALID_HANDLE_VALUE then Inl (OSError last_error) else Inr hSnapshot)"

definition Process32n :: "int + pid \<times> pid \<Rightarrow> exn + (pid \<times> pid) option" where
  "Process32n call =
     (case call of Inr pe \<Rightarrow> Inr (Some pe)
      | Inl err \<Rightarrow> if err = ERROR_NO_MORE_FILES then Inr None else Inl (OSError err))"

text \<open>The loop of \<open>get_all_processes_pids\<close>; a parent of number 0 is none. The dictionary of parents is a list of pairs.\<close>

fun collect :: "(pid \<times> pid) list \<Rightarrow> (int + pid \<times> pid) list \<Rightarrow> exn + (pid \<times> pid) list" where
  "collect parents [] = Inl Blocks"
| "collect parents (call # calls) =
     (case Process32n call of
        Inl e \<Rightarrow> Inl e
      | Inr None \<Rightarrow> Inr parents
      | Inr (Some (p, parent)) \<Rightarrow> collect (if parent \<noteq> 0 then AList.update p parent parents else parents) calls)"

definition get_all_processes_pids :: "exn + 64 word \<Rightarrow> (int + pid \<times> pid) list \<Rightarrow> exn + (pid \<times> pid) list" where
  "get_all_processes_pids h calls = (case h of Inl e \<Rightarrow> Inl e | Inr _ \<Rightarrow> collect [] calls)"

section \<open>The tree\<close>

text \<open>A round adds the processes whose parent is in the set; the rounds end when one adds nothing.\<close>

definition tree_round :: "(pid \<times> pid) list \<Rightarrow> pid set \<Rightarrow> pid set" where
  "tree_round parents pids = pids \<union> set (filter (\<lambda>p. case map_of parents p of Some q \<Rightarrow> q \<in> pids | None \<Rightarrow> False) (map fst parents))"

function tree_loop :: "(pid \<times> pid) list \<Rightarrow> pid set \<Rightarrow> pid set" where
  "tree_loop parents pids =
     (let pids_new = tree_round parents pids in if pids_new = pids then pids else tree_loop parents pids_new)"
  by auto
termination
proof (relation "measure (\<lambda>(parents, pids). card (UNIV - pids))")
  fix parents pids pids_new
  assume new: "pids_new = tree_round parents pids" "pids_new \<noteq> pids"
  then have "UNIV - pids_new \<subset> UNIV - pids" unfolding tree_round_def by blast
  then show "((parents, pids_new), parents, pids) \<in> measure (\<lambda>(parents, pids). card (UNIV - pids))"
    by (simp add: psubset_card_mono)
qed simp

declare tree_loop.simps [simp del]

definition get_processtree_pids :: "(pid \<times> pid) list \<Rightarrow> pid \<Rightarrow> bool \<Rightarrow> exn + pid set" where
  "get_processtree_pids parents pid include_parent =
     (let pids = tree_loop parents {pid} in
      if include_parent then Inr pids else if pid \<in> pids then Inr (pids - {pid}) else Inl KeyError)"

text \<open>
  \<open>kill_processtree\<close>: \<open>order\<close> is the order in which the set is listed, \<open>os_kill\<close> what the system answers. The result are the processes
  that have been signalled.
\<close>

fun kill_each :: "(pid \<Rightarrow> exn option) \<Rightarrow> pid list \<Rightarrow> pid list \<times> exn option" where
  "kill_each os_kill [] = ([], None)"
| "kill_each os_kill (p # ps) =
     (case os_kill p of Some e \<Rightarrow> ([], Some e) | None \<Rightarrow> (case kill_each os_kill ps of (ks, e) \<Rightarrow> (p # ks, e)))"

definition kill_processtree :: "exn + (pid \<times> pid) list \<Rightarrow> pid \<Rightarrow> (pid set \<Rightarrow> pid list) \<Rightarrow> (pid \<Rightarrow> exn option) \<Rightarrow> pid list \<times> exn option" where
  "kill_processtree snapshot pid order os_kill =
     (case snapshot of Inl e \<Rightarrow> ([], Some e)
      | Inr parents \<Rightarrow> (case get_processtree_pids parents pid True of Inl e \<Rightarrow> ([], Some e) | Inr pids \<Rightarrow> kill_each os_kill (order pids)))"

text \<open>The child and the parent.\<close>

definition child_of :: "(pid \<times> pid) list \<Rightarrow> (pid \<times> pid) set" where
  "child_of parents = {(c, p). map_of parents c = Some p}"

definition descendants :: "(pid \<times> pid) list \<Rightarrow> pid set \<Rightarrow> pid set" where
  "descendants parents pids = {q. \<exists>p \<in> pids. (q, p) \<in> (child_of parents)\<^sup>*}"

lemma tree_round_iff: "q \<in> tree_round parents pids \<longleftrightarrow> q \<in> pids \<or> (\<exists>p \<in> pids. (q, p) \<in> child_of parents)"
  by (auto simp: tree_round_def child_of_def split: option.splits) (metis fst_conv image_eqI map_of_SomeD)

lemma round_descendants: "descendants parents (tree_round parents pids) = descendants parents pids"
proof
  show "descendants parents (tree_round parents pids) \<subseteq> descendants parents pids"
  proof
    fix q
    assume "q \<in> descendants parents (tree_round parents pids)"
    then obtain p where p: "p \<in> tree_round parents pids" "(q, p) \<in> (child_of parents)\<^sup>*" by (auto simp: descendants_def)
    then obtain r where "r \<in> pids" "(p, r) \<in> (child_of parents)\<^sup>*" unfolding tree_round_iff by blast
    with p(2) show "q \<in> descendants parents pids" unfolding descendants_def by (auto intro: rtrancl_trans)
  qed
qed (auto simp: descendants_def tree_round_iff)

lemma closed_descendants:
  assumes "tree_round parents pids = pids"
  shows "descendants parents pids = pids"
proof -
  have "q \<in> pids" if "(q, p) \<in> (child_of parents)\<^sup>*" "p \<in> pids" for q p
    using that by (induction rule: converse_rtrancl_induct) (use assms tree_round_iff in blast)+
  then show ?thesis unfolding descendants_def by auto
qed

lemma tree_loop_descendants: "tree_loop parents pids = descendants parents pids"
proof (induction parents pids rule: tree_loop.induct)
  case (1 parents pids)
  show ?case
  proof (cases "tree_round parents pids = pids")
    case True
    then show ?thesis using closed_descendants by (subst tree_loop.simps) simp
  next
    case False
    with 1 show ?thesis by (subst tree_loop.simps) (simp add: Let_def round_descendants)
  qed
qed

lemma kill_each_all: "\<forall>p \<in> set ps. os_kill p = None \<Longrightarrow> kill_each os_kill ps = (ps, None)"
  by (induction ps) auto

lemma kill_each_prefix: "\<exists>rest. ps = fst (kill_each os_kill ps) @ rest"
  by (induction ps) (auto split: option.splits prod.splits)

text \<open>The snapshot: of a complete listing every process with a parent, under its last parent.\<close>

lemma map_upd_add: "m(k \<mapsto> v) ++ n = m ++ ([k \<mapsto> v] ++ n)"
  by (simp add: map_add_def fun_eq_iff split: option.split)

lemma collect_listing:
  "\<exists>qs. collect ps (map Inr es @ Inl ERROR_NO_MORE_FILES # rest) = Inr qs \<and> map_of qs = map_of ps ++ map_of (rev (filter (\<lambda>(p, parent). parent \<noteq> 0) es))"
proof (induction es arbitrary: ps)
  case (Cons e es)
  obtain p parent where e: "e = (p, parent)" by force
  from Cons.IH [of "if parent \<noteq> 0 then AList.update p parent ps else ps"] show ?case
    by (auto simp: e Process32n_def update_conv' map_upd_add [of "map_of ps"] simp del: fun_upd_apply simp flip: map_add_assoc)
qed (simp add: Process32n_def)

lemma get_all_listing:
  "\<exists>qs. get_all_processes_pids (Inr h) (map Inr es @ Inl ERROR_NO_MORE_FILES # rest) = Inr qs \<and>
     map_of qs = map_of (rev (filter (\<lambda>(p, parent). parent \<noteq> 0) es))"
  using collect_listing [of "[]" es rest] by (simp add: get_all_processes_pids_def)

text \<open>
  C35. The loop ends for every table of parents, circular ones included (numbers are used again by the system), and gives exactly the
  reflexive transitive closure of being a child; leaving the root out never fails. A kill of the tree that no call refuses signals every
  process of it, and whatever the system answers it signals no other process.
\<close>

theorem processtree_is_closure:
  "get_processtree_pids parents pid True = Inr {q. (q, pid) \<in> (child_of parents)\<^sup>*} \<and>
   get_processtree_pids parents pid False = Inr ({q. (q, pid) \<in> (child_of parents)\<^sup>*} - {pid}) \<and>
   (set (order {q. (q, pid) \<in> (child_of parents)\<^sup>*}) = {q. (q, pid) \<in> (child_of parents)\<^sup>*} \<longrightarrow>
     set (fst (kill_processtree (Inr parents) pid order os_kill)) \<subseteq> {q. (q, pid) \<in> (child_of parents)\<^sup>*} \<and>
     ((\<forall>q. os_kill q = None) \<longrightarrow> set (fst (kill_processtree (Inr parents) pid order os_kill)) = {q. (q, pid) \<in> (child_of parents)\<^sup>*}))"
proof -
  let ?D = "{q. (q, pid) \<in> (child_of parents)\<^sup>*}"
  have d: "tree_loop parents {pid} = ?D" by (simp add: tree_loop_descendants descendants_def)
  then have t: "get_processtree_pids parents pid True = Inr ?D" by (simp add: get_processtree_pids_def)
  have k: "kill_processtree (Inr parents) pid order os_kill = kill_each os_kill (order ?D)"
    by (simp add: kill_processtree_def t)
  have "set (fst (kill_each os_kill (order ?D))) \<subseteq> set (order ?D)"
    using kill_each_prefix [of "order ?D" os_kill] by (metis set_append Un_upper1)
  with t d k show ?thesis by (auto simp: get_processtree_pids_def kill_each_all)
qed

theorem processtree_is_closure_witness:
  "kill_processtree (Inr [(11, 10), (12, 11), (10, 12), (7, 4)]) 10 (\<lambda>ps. filter (\<lambda>p. p \<in> ps) [7, 10, 11, 12]) (\<lambda>_. None) = ([10, 11, 12], None) \<and>
   set (fst (kill_processtree (Inr [(11, 10), (12, 11), (10, 12), (7, 4)]) 10 (\<lambda>ps. filter (\<lambda>p. p \<in> ps) [7, 10, 11, 12]) (\<lambda>_. None))) =
     {q. (q, 10) \<in> (child_of [(11, 10), (12, 11), (10, 12), (7, 4)])\<^sup>*}"
proof -
  let ?ps = "[(11, 10), (12, 11), (10, 12), (7, 4)] :: (pid \<times> pid) list"
  let ?order = "\<lambda>ps. filter (\<lambda>p. p \<in> ps) [7, 10, 11, 12] :: pid list"
  have r: "tree_round ?ps {10} = {10, 11}" "tree_round ?ps {10, 11} = {10, 11, 12}" "tree_round ?ps {10, 11, 12} = {10, 11, 12}"
    by (auto simp: tree_round_def)
  have "(11 :: pid) \<in> {10, 11}" "(11 :: pid) \<notin> {10}" "(12 :: pid) \<in> {10, 11, 12}" "(12 :: pid) \<notin> {10, 11}" by simp_all
  then have n: "{10, 11} \<noteq> {10 :: pid}" "{10, 11, 12} \<noteq> {10, 11 :: pid}" by metis+
  have l: "tree_loop ?ps {10} = {10, 11, 12}"
    by (subst tree_loop.simps, subst tree_loop.simps, subst tree_loop.simps) (simp add: r n Let_def)
  then have c: "{q. (q, 10) \<in> (child_of ?ps)\<^sup>*} = {10, 11, 12}"
    using tree_loop_descendants [of ?ps "{10}"] by (simp add: descendants_def)
  show ?thesis
    using processtree_is_closure [of ?ps 10 ?order "\<lambda>_. None"] l by (auto simp: c kill_processtree_def get_processtree_pids_def)
qed

end
