(* ===== verification/Dummy.thy ===== *)
theory Dummy
  imports Prelude
begin

text \<open>
  \<open>billiard/dummy\<close>, the interface of the package over threads: \<open>dummy/connection.py\<close>, whose connections are pairs of queues, and the processes of
  \<open>dummy/__init__.py\<close>, which are threads. The queues and threads of the standard library are written out as far as they are used.
\<close>

section \<open>Connections over queues\<close>

text \<open>
  The queues that have been made are numbered; a listener has a queue of bounded length of pairs of queues, which is also its address;
  closing forgets it. \<open>dq_sent\<close> and \<open>dq_got\<close> log what went into a queue and came out, for the properties only, as \<open>dc_clients\<close> and \<open>dc_accepted\<close> do the connections.
\<close>

record dconn =
  dc_in :: nat
  dc_out :: nat

record 'm dchannels =
  dq_items :: "nat \<Rightarrow> 'm list"
  dq_next :: nat
  ln_backlog :: "(nat \<times> nat) list"
  ln_limit :: int
  ln_open :: bool
  dq_sent :: "nat \<Rightarrow> 'm list"
  dq_got :: "nat \<Rightarrow> 'm list"
  dc_clients :: "dconn list"
  dc_accepted :: "dconn list"

definition new_listener :: "int \<Rightarrow> 'm dchannels" where
  "new_listener backlog = \<lparr>dq_items = (\<lambda>_. []), dq_next = 0, ln_backlog = [], ln_limit = backlog, ln_open = True,
     dq_sent = (\<lambda>_. []), dq_got = (\<lambda>_. []), dc_clients = [], dc_accepted = []\<rparr>"

definition listener_close :: "('m dchannels, unit) act" where
  "listener_close = modifyA (\<lambda>s. s\<lparr>ln_open := False\<rparr>)"

text \<open>The property \<open>address\<close> is the queue, or \<open>None\<close> after \<open>close\<close>.\<close>

definition listener_address :: "('m dchannels, bool) act" where
  "listener_address = getsA ln_open"

definition new_queues :: "('m dchannels, nat \<times> nat) act" where
  "new_queues = bindA (getsA dq_next) (\<lambda>n. bindA (modifyA (\<lambda>s. s\<lparr>dq_next := n + 2\<rparr>)) (\<lambda>_. ret (n, n + 1)))"

text \<open>\<open>Client(address)\<close>; \<open>put\<close> waits while the queue is full.\<close>

definition dClient :: "bool \<Rightarrow> ('m dchannels, dconn) act" where
  "dClient address =
     bindA new_queues (\<lambda>(i, q).
     bindA (assertA (\<lambda>_. address) AttributeError) (\<lambda>_.
     bindA (assertA (\<lambda>s. ln_limit s \<le> 0 \<or> int (length (ln_backlog s)) < ln_limit s) Blocks) (\<lambda>_.
     bindA (modifyA (\<lambda>s. s\<lparr>ln_backlog := ln_backlog s @ [(q, i)], dc_clients := dc_clients s @ [\<lparr>dc_in = i, dc_out = q\<rparr>]\<rparr>)) (\<lambda>_.
     ret \<lparr>dc_in = i, dc_out = q\<rparr>))))"

definition dAccept :: "('m dchannels, dconn) act" where
  "dAccept =
     bindA (assertA ln_open AttributeError) (\<lambda>_.
     bindA (fetchA (\<lambda>s. case ln_backlog s of [] \<Rightarrow> None | b # _ \<Rightarrow> Some b) Blocks) (\<lambda>(i, q).
     bindA (modifyA (\<lambda>s. s\<lparr>ln_backlog := tl (ln_backlog s), dc_accepted := dc_accepted s @ [\<lparr>dc_in = i, dc_out = q\<rparr>]\<rparr>)) (\<lambda>_.
     ret \<lparr>dc_in = i, dc_out = q\<rparr>)))"

definition dPipe :: "('m dchannels, dconn \<times> dconn) act" where
  "dPipe = bindA new_queues (\<lambda>(a, b). ret (\<lparr>dc_in = a, dc_out = b\<rparr>, \<lparr>dc_in = b, dc_out = a\<rparr>))"

text \<open>\<open>send\<close> and \<open>send_bytes\<close>, \<open>recv\<close> and \<open>recv_bytes\<close> are the methods of the queues.\<close>

definition dsend :: "dconn \<Rightarrow> 'm \<Rightarrow> ('m dchannels, unit) act" where
  "dsend c m = modifyA (\<lambda>s. s\<lparr>dq_items := (dq_items s)(dc_out c := dq_items s (dc_out c) @ [m]), dq_sent := (dq_sent s)(dc_out c := dq_sent s (dc_out c) @ [m])\<rparr>)"

definition drecv :: "dconn \<Rightarrow> ('m dchannels, 'm) act" where
  "drecv c =
     bindA (fetchA (\<lambda>s. case dq_items s (dc_in c) of [] \<Rightarrow> None | m # _ \<Rightarrow> Some m) Blocks) (\<lambda>m.
     bindA (modifyA (\<lambda>s. s\<lparr>dq_items := (dq_items s)(dc_in c := tl (dq_items s (dc_in c))), dq_got := (dq_got s)(dc_in c := dq_got s (dc_in c) @ [m])\<rparr>)) (\<lambda>_.
     ret m))"

text \<open>\<open>poll\<close>; \<open>None\<close> is compared with a number. \<open>later\<close> is what the others do to the queues during the wait.\<close>

definition dpoll :: "dconn \<Rightarrow> int option \<Rightarrow> ('m dchannels \<Rightarrow> 'm dchannels) \<Rightarrow> ('m dchannels, bool) act" where
  "dpoll c timeout later = readA (\<lambda>s.
     if length (dq_items s (dc_in c)) > 0 then ret True
     else (case timeout of None \<Rightarrow> raise TypeError
       | Some t \<Rightarrow> if t \<le> 0 then ret False
           else bindA (modifyA later) (\<lambda>_. getsA (\<lambda>s. length (dq_items s (dc_in c)) > 0))))"

definition dclose :: "dconn \<Rightarrow> ('m dchannels, unit) act" where
  "dclose c = ret ()"

datatype 'm devent =
    DClient bool | DAccept | DPipe | DSend dconn 'm | DRecv dconn | DClose dconn | DListenerClose

fun d_step :: "'m devent \<Rightarrow> 'm dchannels \<Rightarrow> 'm dchannels" where
  "d_step (DClient address) s = snd (dClient address s)"
| "d_step DAccept s = snd (dAccept s)"
| "d_step DPipe s = snd (dPipe s)"
| "d_step (DSend c m) s = snd (dsend c m s)"
| "d_step (DRecv c) s = snd (drecv c s)"
| "d_step (DClose c) s = snd (dclose c s)"
| "d_step DListenerClose s = snd (listener_close s)"

definition d_run :: "'m devent list \<Rightarrow> 'm dchannels \<Rightarrow> 'm dchannels" where
  "d_run es s = fold d_step es s"

text \<open>A queue gives what was put into it in that order, and the clients are accepted in the order in which they came.\<close>

definition mirror :: "dconn \<Rightarrow> dconn" where
  "mirror c = \<lparr>dc_in = dc_out c, dc_out = dc_in c\<rparr>"

definition fifo :: "'m dchannels \<Rightarrow> bool" where
  "fifo s \<longleftrightarrow> (\<forall>q. dq_sent s q = dq_got s q @ dq_items s q)"

definition matched :: "'m dchannels \<Rightarrow> bool" where
  "matched s \<longleftrightarrow> dc_clients s = map mirror (dc_accepted s) @ map (\<lambda>(i, q). \<lparr>dc_in = q, dc_out = i\<rparr>) (ln_backlog s)"

definition own_queues :: "'m dchannels \<Rightarrow> bool" where
  "own_queues s \<longleftrightarrow> distinct (map dc_in (dc_clients s) @ map dc_out (dc_clients s)) \<and> (\<forall>c \<in> set (dc_clients s). dc_in c < dq_next s \<and> dc_out c < dq_next s)"

lemmas d_defs = listener_close_def listener_address_def new_queues_def dClient_def dAccept_def dPipe_def dsend_def drecv_def dclose_def act_defs

lemma fifo_step: "fifo s \<Longrightarrow> fifo (d_step e s)"
  by (cases e) (simp_all add: fifo_def d_defs split: list.split)

lemma matched_step: "matched s \<Longrightarrow> matched (d_step e s)"
proof (cases e)
  case DAccept
  assume "matched s"
  with DAccept show ?thesis by (cases "ln_backlog s") (simp_all add: matched_def mirror_def d_defs split: prod.split)
qed (simp_all add: matched_def d_defs split: list.split)

lemma own_queues_step: "own_queues s \<Longrightarrow> own_queues (d_step e s)"
proof (cases e)
  case (DClient address)
  assume s: "own_queues s"
  then have "dq_next s \<notin> dc_in ` set (dc_clients s)" "dq_next s \<notin> dc_out ` set (dc_clients s)"
      "Suc (dq_next s) \<notin> dc_in ` set (dc_clients s)" "Suc (dq_next s) \<notin> dc_out ` set (dc_clients s)"
    unfolding own_queues_def by fastforce+
  with s DClient show ?thesis by (auto simp: own_queues_def d_defs less_SucI)
next
  case DPipe
  assume "own_queues s"
  with DPipe show ?thesis by (auto simp: own_queues_def d_defs less_SucI)
qed (simp_all add: own_queues_def d_defs split: list.split option.split prod.split)

lemma run_invs: "fifo s \<and> matched s \<and> own_queues s \<Longrightarrow> fifo (d_run es s) \<and> matched (d_run es s) \<and> own_queues (d_run es s)"
  unfolding d_run_def by (induction es arbitrary: s) (auto simp: fifo_step matched_step own_queues_step)

text \<open>
  After any history of a listener with clients, pipes and connections: the \<open>k\<close>-th accepted connection is the other end of the \<open>k\<close>-th client's,
  what is received on each side is, in order, what has been sent on the other, and no two clients share a queue.
\<close>

theorem dummy_connections:
  fixes es :: "'m devent list"
  assumes "s = d_run es (new_listener n)" "k < length (dc_accepted s)"
  shows "dc_accepted s ! k = mirror (dc_clients s ! k) \<and>
    (\<exists>rest. dq_sent s (dc_out (dc_clients s ! k)) = dq_got s (dc_in (dc_accepted s ! k)) @ rest) \<and>
    (\<exists>rest. dq_sent s (dc_out (dc_accepted s ! k)) = dq_got s (dc_in (dc_clients s ! k)) @ rest) \<and>
    distinct (map dc_in (dc_clients s) @ map dc_out (dc_clients s))"
proof -
  have "fifo (new_listener n :: 'm dchannels)" "matched (new_listener n :: 'm dchannels)" "own_queues (new_listener n :: 'm dchannels)"
    by (simp_all add: fifo_def matched_def own_queues_def new_listener_def)
  with run_invs [of "new_listener n" es] have s: "fifo s" "matched s" "own_queues s" by (simp_all add: assms(1))
  have m: "dc_clients s ! k = mirror (dc_accepted s ! k)"
    using s(2) assms(2) by (simp add: matched_def nth_append)
  with s(1,3) show ?thesis by (auto simp: fifo_def own_queues_def mirror_def)
qed

section \<open>Processes that are threads\<close>

text \<open>
  \<open>DummyProcess\<close>: the threads there are, in the order in which they were made. Only the thread that has imported the module and those made here
  have \<open>_children\<close>. \<open>th_used\<close> is the thread's own note that it has been started, \<open>th_alive\<close> its \<open>is_alive\<close>.
\<close>

record dthread =
  th_children :: "nat list option"
  th_parent :: nat
  th_start_called :: bool
  th_used :: bool
  th_alive :: bool

definition main_thread :: "dthread list" where
  "main_thread = [\<lparr>th_children = Some [], th_parent = 0, th_start_called = False, th_used = True, th_alive = True\<rparr>]"

definition DummyProcess :: "nat \<Rightarrow> (dthread list, nat) act" where
  "DummyProcess current =
     bindA (getsA length) (\<lambda>n.
     bindA (modifyA (\<lambda>ts. ts @ [\<lparr>th_children = Some [], th_parent = current, th_start_called = False, th_used = False, th_alive = False\<rparr>])) (\<lambda>_. ret n))"

definition add_child :: "nat \<Rightarrow> nat \<Rightarrow> dthread list \<Rightarrow> dthread list" where
  "add_child p n ts = ts[p := (ts ! p)\<lparr>th_children := map_option (List.insert n) (th_children (ts ! p))\<rparr>]"

definition dummy_start :: "bool \<Rightarrow> nat \<Rightarrow> nat \<Rightarrow> (dthread list, unit) act" where
  "dummy_start thread_fails current n =
     bindA (assertA (\<lambda>ts. th_parent (ts ! n) = current) AssertionError) (\<lambda>_.
     bindA (modifyA (\<lambda>ts. ts[n := (ts ! n)\<lparr>th_start_called := True\<rparr>])) (\<lambda>_.
     bindA (modifyA (\<lambda>ts. add_child (th_parent (ts ! n)) n ts)) (\<lambda>_.
     bindA (assertA (\<lambda>ts. \<not> th_used (ts ! n)) RuntimeError) (\<lambda>_.
     bindA (assertA (\<lambda>_. \<not> thread_fails) RuntimeError) (\<lambda>_.
     modifyA (\<lambda>ts. ts[n := (ts ! n)\<lparr>th_used := True, th_alive := True\<rparr>]))))))"

definition dummy_exitcode :: "dthread \<Rightarrow> int option" where
  "dummy_exitcode t = (if th_start_called t \<and> \<not> th_alive t then Some 0 else None)"

definition dummy_active_children :: "nat \<Rightarrow> (dthread list, nat list) act" where
  "dummy_active_children current =
     bindA (fetchA (\<lambda>ts. th_children (ts ! current)) AttributeError) (\<lambda>children. readA (\<lambda>ts.
     let left = filter (\<lambda>p. th_alive (ts ! p)) children in
     bindA (modifyA (\<lambda>ts. ts[current := (ts ! current)\<lparr>th_children := Some left\<rparr>])) (\<lambda>_. ret left)))"

text \<open>The events: a thread of another kind is made by the program, a thread ends by itself.\<close>

datatype tevent = TNew nat | TOther | TStart bool nat nat | TEnd nat | TActive nat

fun t_step :: "tevent \<Rightarrow> dthread list \<Rightarrow> dthread list" where
  "t_step (TNew c) ts = (if c < length ts then snd (DummyProcess c ts) else ts)"
| "t_step TOther ts = ts @ [\<lparr>th_children = None, th_parent = length ts, th_start_called = False, th_used = True, th_alive = False\<rparr>]"
| "t_step (TStart f c n) ts = (if c < length ts \<and> n < length ts \<and> th_parent (ts ! n) \<noteq> n then snd (dummy_start f c n ts) else ts)"
| "t_step (TEnd n) ts = (if 0 < n \<and> n < length ts then ts[n := (ts ! n)\<lparr>th_alive := False\<rparr>] else ts)"
| "t_step (TActive c) ts = (if c < length ts then snd (dummy_active_children c ts) else ts)"

definition children_ok :: "dthread list \<Rightarrow> bool" where
  "children_ok ts \<longleftrightarrow> (\<forall>p < length ts. \<forall>cs. th_children (ts ! p) = Some cs \<longrightarrow>
      (\<forall>n \<in> set cs. n < length ts \<and> th_parent (ts ! n) = p \<and> n \<noteq> p) \<and>
      (\<forall>n < length ts. th_alive (ts ! n) \<longrightarrow> th_parent (ts ! n) = p \<longrightarrow> n \<noteq> p \<longrightarrow> n \<in> set cs)) \<and>
    (\<forall>n < length ts. th_parent (ts ! n) < length ts)"

lemma children_okD:
  assumes "children_ok ts" "p < length ts" "th_children (ts ! p) = Some cs"
  shows "n \<in> set cs \<Longrightarrow> n < length ts \<and> th_parent (ts ! n) = p \<and> n \<noteq> p"
    "n < length ts \<Longrightarrow> th_alive (ts ! n) \<Longrightarrow> th_parent (ts ! n) = p \<Longrightarrow> n \<noteq> p \<Longrightarrow> n \<in> set cs"
  using assms unfolding children_ok_def by blast+

lemma children_ok_change:
  assumes "children_ok ts" "length ts' = length ts" "\<And>k. k < length ts \<Longrightarrow> th_parent (ts' ! k) = th_parent (ts ! k)"
    and "\<And>k cs'. k < length ts \<Longrightarrow> th_children (ts' ! k) = Some cs' \<Longrightarrow> \<exists>cs. th_children (ts ! k) = Some cs \<and>
      (\<forall>n \<in> set cs'. n \<in> set cs \<or> n < length ts \<and> th_parent (ts ! n) = k \<and> n \<noteq> k) \<and>
      (\<forall>n < length ts. th_alive (ts' ! n) \<longrightarrow> th_parent (ts ! n) = k \<longrightarrow> n \<noteq> k \<longrightarrow> (th_alive (ts ! n) \<longrightarrow> n \<in> set cs) \<longrightarrow> n \<in> set cs')"
  shows "children_ok ts'"
proof -
  have "(\<forall>n \<in> set cs'. n < length ts' \<and> th_parent (ts' ! n) = p \<and> n \<noteq> p) \<and>
      (\<forall>n < length ts'. th_alive (ts' ! n) \<longrightarrow> th_parent (ts' ! n) = p \<longrightarrow> n \<noteq> p \<longrightarrow> n \<in> set cs')"
    if p: "p < length ts'" and cs': "th_children (ts' ! p) = Some cs'" for p cs'
  proof -
    from p assms(2) have p': "p < length ts" by simp
    from assms(4) [OF p' cs'] obtain cs where cs: "th_children (ts ! p) = Some cs"
      "\<forall>n \<in> set cs'. n \<in> set cs \<or> n < length ts \<and> th_parent (ts ! n) = p \<and> n \<noteq> p"
      "\<forall>n < length ts. th_alive (ts' ! n) \<longrightarrow> th_parent (ts ! n) = p \<longrightarrow> n \<noteq> p \<longrightarrow> (th_alive (ts ! n) \<longrightarrow> n \<in> set cs) \<longrightarrow> n \<in> set cs'"
      by blast
    note old = children_okD [OF assms(1) p' cs(1)]
    show ?thesis
    proof (intro conjI ballI allI impI)
      fix n assume "n \<in> set cs'"
      with cs(2) old(1) have "n < length ts \<and> th_parent (ts ! n) = p \<and> n \<noteq> p" by blast
      with assms(2,3) show "n < length ts'" "th_parent (ts' ! n) = p" "n \<noteq> p" by simp_all
    next
      fix n assume n: "n < length ts'" "th_alive (ts' ! n)" "th_parent (ts' ! n) = p" "n \<noteq> p"
      with assms(2,3) have "n < length ts" "th_parent (ts ! n) = p" by auto
      with n cs(3) old(2) show "n \<in> set cs'" by blast
    qed
  qed
  moreover have "\<forall>n < length ts'. th_parent (ts' ! n) < length ts'"
    using assms(1-3) unfolding children_ok_def by simp
  ultimately show ?thesis unfolding children_ok_def by blast
qed

lemma start_ok:
  assumes "children_ok ts" "c < length ts" "n < length ts" "th_parent (ts ! n) \<noteq> n"
  shows "children_ok (snd (dummy_start f c n ts))"
proof (cases "th_parent (ts ! n) = c")
  case True
  define ts' where "ts' = add_child c n (ts[n := (ts ! n)\<lparr>th_start_called := True\<rparr>])"
  have fields: "length ts' = length ts" "\<And>k. k < length ts \<Longrightarrow> th_parent (ts' ! k) = th_parent (ts ! k) \<and> th_alive (ts' ! k) = th_alive (ts ! k) \<and>
      th_used (ts' ! k) = th_used (ts ! k) \<and> th_children (ts' ! k) = (if k = c then map_option (List.insert n) (th_children (ts ! k)) else th_children (ts ! k))"
    using assms True by (auto simp: ts'_def add_child_def nth_list_update)
  have ok: "children_ok ts'"
    by (rule children_ok_change [OF assms(1) fields(1)]) (use fields assms True in \<open>auto split: if_splits\<close>)
  have "children_ok (ts'[n := (ts' ! n)\<lparr>th_used := True, th_alive := True\<rparr>])"
    by (rule children_ok_change [OF assms(1)]) (use fields assms True in \<open>auto simp: nth_list_update split: if_splits\<close>)
  with ok True assms(2-4) show ?thesis by (simp add: dummy_start_def act_defs ts'_def)
qed (use assms in \<open>simp add: dummy_start_def act_defs\<close>)

lemma active_ok:
  assumes "children_ok ts" "c < length ts"
  shows "children_ok (snd (dummy_active_children c ts))"
proof (cases "th_children (ts ! c)")
  case (Some cs)
  have "children_ok (ts[c := (ts ! c)\<lparr>th_children := Some (filter (\<lambda>p. th_alive (ts ! p)) cs)\<rparr>])"
    by (rule children_ok_change [OF assms(1)]) (use Some assms in \<open>auto simp: nth_list_update split: if_splits\<close>)
  with Some show ?thesis by (simp add: dummy_active_children_def act_defs Let_def)
qed (use assms in \<open>simp add: dummy_active_children_def act_defs\<close>)

lemma children_okI:
  assumes "\<And>p cs n. p < length ts \<Longrightarrow> th_children (ts ! p) = Some cs \<Longrightarrow> n \<in> set cs \<Longrightarrow> n < length ts \<and> th_parent (ts ! n) = p \<and> n \<noteq> p"
    and "\<And>p cs n. p < length ts \<Longrightarrow> th_children (ts ! p) = Some cs \<Longrightarrow> n < length ts \<Longrightarrow> th_alive (ts ! n) \<Longrightarrow> th_parent (ts ! n) = p \<Longrightarrow> n \<noteq> p \<Longrightarrow> n \<in> set cs"
    and "\<And>n. n < length ts \<Longrightarrow> th_parent (ts ! n) < length ts"
  shows "children_ok ts"
  using assms unfolding children_ok_def by blast

lemma new_thread_ok:
  assumes "children_ok ts" "th_children t = None \<or> th_children t = Some []" "\<not> th_alive t" "th_parent t \<le> length ts"
  shows "children_ok (ts @ [t])"
proof (rule children_okI)
  have par: "th_parent (ts ! n) < length ts" if "n < length ts" for n
    using assms(1) that unfolding children_ok_def by blast
  fix p cs n
  assume p: "p < length (ts @ [t])" "th_children ((ts @ [t]) ! p) = Some cs"
  show "n < length (ts @ [t]) \<and> th_parent ((ts @ [t]) ! n) = p \<and> n \<noteq> p" if n: "n \<in> set cs"
  proof -
    from p n assms(2) have "p < length ts" "th_children (ts ! p) = Some cs" by (auto simp: nth_append split: if_splits)
    from children_okD(1) [OF assms(1) this n] show ?thesis by (simp add: nth_append)
  qed
  show "n \<in> set cs" if n: "n < length (ts @ [t])" "th_alive ((ts @ [t]) ! n)" "th_parent ((ts @ [t]) ! n) = p" "n \<noteq> p"
  proof -
    from n assms(3) have n': "n < length ts" "th_alive (ts ! n)" "th_parent (ts ! n) = p" by (auto simp: nth_append split: if_splits)
    with par have "p < length ts" by blast
    with p(2) have "th_children (ts ! p) = Some cs" by (simp add: nth_append)
    from children_okD(2) [OF assms(1) \<open>p < length ts\<close> this n' n(4)] show ?thesis .
  qed
next
  fix n assume "n < length (ts @ [t])"
  then show "th_parent ((ts @ [t]) ! n) < length (ts @ [t])"
    using assms(1,4) unfolding children_ok_def by (cases "n < length ts") (auto simp: nth_append less_SucI)
qed

lemma t_step_ok: "children_ok ts \<Longrightarrow> children_ok (t_step e ts)"
proof (cases e)
  case (TEnd n)
  assume ok: "children_ok ts"
  have "children_ok (ts[n := (ts ! n)\<lparr>th_alive := False\<rparr>])" if "n < length ts"
    by (rule children_ok_change [OF ok]) (use that in \<open>auto simp: nth_list_update split: if_splits\<close>)
  with TEnd ok show ?thesis by simp
next
  case (TNew c)
  assume ok: "children_ok ts"
  have "children_ok (ts @ [\<lparr>th_children = Some [], th_parent = c, th_start_called = False, th_used = False, th_alive = False\<rparr>])" if "c < length ts"
    by (rule new_thread_ok [OF ok]) (use that in simp_all)
  with TNew ok show ?thesis by (simp add: DummyProcess_def act_defs)
next
  case TOther
  assume ok: "children_ok ts"
  have "children_ok (ts @ [\<lparr>th_children = None, th_parent = length ts, th_start_called = False, th_used = True, th_alive = False\<rparr>])"
    by (rule new_thread_ok [OF ok]) simp_all
  with TOther show ?thesis by simp
next
  case (TStart f c n)
  assume "children_ok ts"
  with TStart start_ok show ?thesis by auto
next
  case (TActive c)
  assume "children_ok ts"
  with TActive active_ok show ?thesis by auto
qed

lemma t_run_ok: "children_ok (fold t_step es main_thread)"
proof -
  have "children_ok ts \<Longrightarrow> children_ok (fold t_step es ts)" for ts
    by (induction es arbitrary: ts) (auto simp: t_step_ok)
  moreover have "children_ok main_thread" by (simp add: children_ok_def main_thread_def)
  ultimately show ?thesis .
qed

text \<open>
  After any history \<open>active_children\<close> gives exactly the threads made by the calling one that are running; it fails in a thread that was made neither
  here nor by the import.
\<close>

lemma dummy_active_children_exact:
  assumes "ts = fold t_step es main_thread" "c < length ts"
  shows "case fst (dummy_active_children c ts) of
      Inl e \<Rightarrow> e = AttributeError \<and> th_children (ts ! c) = None
    | Inr left \<Rightarrow> set left = {n. n < length ts \<and> n \<noteq> c \<and> th_parent (ts ! n) = c \<and> th_alive (ts ! n)}"
proof (cases "th_children (ts ! c)")
  case (Some cs)
  have "children_ok ts" using t_run_ok [of es] assms(1) by simp
  from children_okD [OF this assms(2) Some]
  have "set (filter (\<lambda>p. th_alive (ts ! p)) cs) = {n. n < length ts \<and> n \<noteq> c \<and> th_parent (ts ! n) = c \<and> th_alive (ts ! n)}"
    by auto
  with Some show ?thesis by (simp add: dummy_active_children_def act_defs Let_def)
qed (simp add: dummy_active_children_def act_defs)

text \<open>A process whose thread could not be started has the exit code of one that has ended well.\<close>

lemma failed_start_exits_well:
  "fst (dummy_start True 0 1 (snd (DummyProcess 0 main_thread))) = Inl RuntimeError \<and>
   dummy_exitcode (snd (dummy_start True 0 1 (snd (DummyProcess 0 main_thread))) ! 1) = Some 0"
  by (simp add: dummy_start_def DummyProcess_def main_thread_def add_child_def dummy_exitcode_def act_defs)

end
