(* ===== verification/Contexts.thy ===== *)
theory Contexts
  imports Prelude
begin

text \<open>
  \<open>billiard/context.py\<close>: the concrete contexts (one per start method), the default context whose
  underlying context is chosen by \<open>set_start_method\<close> or by the first use, the methods that make objects for a
  context, and the marker of the thread that is spawning a process.
\<close>

section \<open>Contexts\<close>

datatype meth = ForkContext | SpawnContext | ForkServerContext

record platform =
  pl_win32 :: bool
  pl_darwin :: bool
  pl_send_handle :: bool     \<comment> \<open>\<open>reduction.HAVE_SEND_HANDLE\<close>\<close>
  pl_frozen :: bool
  pl_supports_exec :: bool   \<comment> \<open>of the C extension\<close>

fun context_name :: "meth \<Rightarrow> string" where
  "context_name ForkContext = ''fork''"
| "context_name SpawnContext = ''spawn''"
| "context_name ForkServerContext = ''forkserver''"

text \<open>\<open>_concrete_contexts\<close> and the context that \<open>_default_context\<close> is made with.\<close>

definition concrete_contexts :: "platform \<Rightarrow> string \<Rightarrow> meth option" where
  "concrete_contexts pl name =
     (if pl_win32 pl then (if name = ''spawn'' then Some SpawnContext else None)
      else if name = ''fork'' then Some ForkContext
      else if name = ''spawn'' then Some SpawnContext
      else if name = ''forkserver'' then Some ForkServerContext
      else None)"

definition initial_context :: "platform \<Rightarrow> meth" where
  "initial_context pl = (if pl_win32 pl \<or> pl_darwin pl then SpawnContext else ForkContext)"

definition check_available :: "platform \<Rightarrow> meth \<Rightarrow> exn option" where
  "check_available pl c = (if c = ForkServerContext \<and> \<not> pl_send_handle pl then Some ValueError else None)"

text \<open>The state of the module: \<open>_default_context._actual_context\<close>, and \<open>_tls\<close>: the threads that have set \<open>spawning_popen\<close>.\<close>

record 'p ctx =
  cx_actual :: "meth option"
  cx_spawning :: "nat \<Rightarrow> 'p option"

text \<open>A context as an object: a concrete one or the default one.\<close>

datatype context_obj = Concrete meth | Default

text \<open>\<open>BaseContext.get_context\<close> with a method.\<close>

definition lookup_context :: "platform \<Rightarrow> string \<Rightarrow> ('p ctx, meth) act" where
  "lookup_context pl name =
     (case concrete_contexts pl name of
        None \<Rightarrow> raise ValueError
      | Some c \<Rightarrow> (case check_available pl c of Some x \<Rightarrow> raise x | None \<Rightarrow> ret c))"

fun get_context :: "platform \<Rightarrow> context_obj \<Rightarrow> string option \<Rightarrow> ('p ctx, meth) act" where
  "get_context pl (Concrete c) None = ret c"
| "get_context pl Default None =
     bindA (modifyA (\<lambda>s. s\<lparr>cx_actual := Some (case cx_actual s of None \<Rightarrow> initial_context pl | Some c \<Rightarrow> c)\<rparr>)) (\<lambda>_.
     fetchA cx_actual AttributeError)"
| "get_context pl _ (Some name) = lookup_context pl name"

text \<open>The parameter \<open>force\<close> is there in the default context only; passing it to another is a \<open>TypeError\<close>.\<close>

fun set_start_method :: "platform \<Rightarrow> context_obj \<Rightarrow> string option \<Rightarrow> bool option \<Rightarrow> ('p ctx, unit) act" where
  "set_start_method pl (Concrete c) m force = raise (if force = None then ValueError else TypeError)"
| "set_start_method pl Default m force =
     readA (\<lambda>s.
     if cx_actual s \<noteq> None \<and> force \<noteq> Some True then raise RuntimeError
     else if m = None \<and> force = Some True then modifyA (\<lambda>s. s\<lparr>cx_actual := None\<rparr>)
     else bindA (get_context pl Default m) (\<lambda>c. modifyA (\<lambda>s. s\<lparr>cx_actual := Some c\<rparr>)))"

fun get_start_method :: "platform \<Rightarrow> context_obj \<Rightarrow> bool \<Rightarrow> ('p ctx, string option) act" where
  "get_start_method pl (Concrete c) allow_none = ret (Some (context_name c))"
| "get_start_method pl Default allow_none =
     readA (\<lambda>s.
     if cx_actual s = None \<and> allow_none then ret None
     else bindA (modifyA (\<lambda>s. s\<lparr>cx_actual := Some (case cx_actual s of None \<Rightarrow> initial_context pl | Some c \<Rightarrow> c)\<rparr>)) (\<lambda>_.
       getsA (\<lambda>s. map_option context_name (cx_actual s))))"

definition get_all_start_methods :: "platform \<Rightarrow> string list" where
  "get_all_start_methods pl =
     (if pl_win32 pl then [''spawn'']
      else if pl_send_handle pl then [''fork'', ''spawn'', ''forkserver''] else [''fork'', ''spawn''])"

definition force_start_method :: "platform \<Rightarrow> string \<Rightarrow> ('p ctx, unit) act" where
  "force_start_method pl name =
     (case concrete_contexts pl name of None \<Rightarrow> raise KeyError | Some c \<Rightarrow> modifyA (\<lambda>s. s\<lparr>cx_actual := Some c\<rparr>))"

definition forking_is_enabled :: "platform \<Rightarrow> context_obj \<Rightarrow> ('p ctx, bool) act" where
  "forking_is_enabled pl c = bindA (get_start_method pl c False) (\<lambda>m.
     ret ((case m of None \<Rightarrow> ''fork'' | Some n \<Rightarrow> if n = [] then ''fork'' else n) = ''fork''))"

definition forking_enable :: "platform \<Rightarrow> context_obj \<Rightarrow> bool \<Rightarrow> ('p ctx, unit) act" where
  "forking_enable pl c value =
     (if value then ret ()
      else if pl_supports_exec pl then set_start_method pl c (Some ''spawn'') (Some True)
      else ret ())"

text \<open>\<open>os.cpu_count()\<close>, or without it what the platform says, \<open>None\<close> when that cannot be read.\<close>

definition cpu_count :: "int option option \<Rightarrow> int option \<Rightarrow> exn + int" where
  "cpu_count os_count probe =
     (case os_count of
        Some None \<Rightarrow> Inl NotImplementedError
      | Some (Some n) \<Rightarrow> Inr n
      | None \<Rightarrow> let n = (case probe of None \<Rightarrow> 0 | Some n \<Rightarrow> n) in if n \<ge> 1 then Inr n else Inl NotImplementedError)"

text \<open>\<open>freeze_support\<close>: whether the one of \<open>spawn\<close> is called.\<close>

definition calls_freeze_support :: "platform \<Rightarrow> bool" where
  "calls_freeze_support pl \<longleftrightarrow> pl_win32 pl \<and> pl_frozen pl"

section \<open>Making objects\<close>

text \<open>What is made, with its arguments; the result has the context it is made for, when it takes one.\<close>

datatype 'v factory =
    FManager | FPipe bool bool bool | FLock | FRLock | FCondition "'v option" | FSemaphore int | FBoundedSemaphore int
  | FEvent | FBarrier int "'v option" "'v option" | FQueue int | FJoinableQueue int | FSimpleQueue
  | FPool "'v list" | FRawValue 'v "'v list" | FRawArray 'v 'v | FValue 'v "'v list" "'v option" | FArray 'v 'v "'v option"
  | FProcess 'v

definition takes_context :: "'v factory \<Rightarrow> bool" where
  "takes_context f = (case f of FPipe _ _ _ \<Rightarrow> False | FRawValue _ _ \<Rightarrow> False | FRawArray _ _ \<Rightarrow> False | _ \<Rightarrow> True)"

definition make :: "platform \<Rightarrow> context_obj \<Rightarrow> 'v factory \<Rightarrow> ('p ctx, 'v factory \<times> meth option) act" where
  "make pl c f =
     (if takes_context f then bindA (get_context pl c None) (\<lambda>m. ret (f, Some m)) else ret (f, None))"

text \<open>The parameters of \<open>Pool\<close> in the order the context's method passes them, and those of the class's constructor.\<close>

definition context_pool_params :: "string list" where
  "context_pool_params = [''processes'', ''initializer'', ''initargs'', ''maxtasksperchild'', ''timeout'', ''soft_timeout'',
     ''lost_worker_timeout'', ''max_restarts'', ''max_restart_freq'', ''on_process_up'', ''on_process_down'', ''on_timeout_set'',
     ''on_timeout_cancel'', ''threads'', ''semaphore'', ''putlocks'', ''allow_restart'']"

definition pool_params :: "string list" where
  "pool_params = [''processes'', ''initializer'', ''initargs'', ''maxtasksperchild'', ''timeout'', ''soft_timeout'',
     ''lost_worker_timeout'', ''max_restarts'', ''max_restart_freq'', ''on_process_up'', ''on_process_down'', ''on_timeout_set'',
     ''on_timeout_cancel'', ''threads'', ''semaphore'', ''putlocks'', ''allow_restart'', ''synack'', ''on_process_exit'',
     ''context'', ''max_memory_per_child'', ''enable_timeouts'']"

text \<open>The module whose \<open>Popen\<close> starts a process made with a context.\<close>

datatype popen_module = PopenFork | PopenSpawnPosix | PopenSpawnWin32 | PopenForkServer

definition concrete_Popen :: "platform \<Rightarrow> meth \<Rightarrow> popen_module" where
  "concrete_Popen pl c =
     (case c of
        ForkContext \<Rightarrow> PopenFork
      | SpawnContext \<Rightarrow> if pl_win32 pl then PopenSpawnWin32 else PopenSpawnPosix
      | ForkServerContext \<Rightarrow> PopenForkServer)"

definition Process_Popen :: "platform \<Rightarrow> context_obj \<Rightarrow> ('p ctx, popen_module) act" where
  "Process_Popen pl c =
     (case c of Concrete m \<Rightarrow> ret (concrete_Popen pl m)
      | Default \<Rightarrow> bindA (get_context pl Default None) (\<lambda>m. ret (concrete_Popen pl m)))"

section \<open>Spawning\<close>

definition get_spawning_popen :: "nat \<Rightarrow> ('p ctx, 'p option) act" where
  "get_spawning_popen th = getsA (\<lambda>s. cx_spawning s th)"

definition set_spawning_popen :: "nat \<Rightarrow> 'p option \<Rightarrow> ('p ctx, unit) act" where
  "set_spawning_popen th p = modifyA (\<lambda>s. s\<lparr>cx_spawning := (cx_spawning s)(th := p)\<rparr>)"

definition assert_spawning :: "nat \<Rightarrow> ('p ctx, unit) act" where
  "assert_spawning th = bindA (get_spawning_popen th) (\<lambda>p. if p = None then raise RuntimeError else ret ())"

section \<open>The underlying context is set once\<close>

text \<open>Everything a program may do with the default context and the concrete ones.\<close>

datatype 'v cop =
    CGet context_obj "string option" | CSet context_obj "string option" "bool option" | CName context_obj bool
  | CForce string | CForkingEnabled context_obj | CForkingEnable context_obj bool | CMake context_obj "'v factory" | CPopen context_obj

fun cstep :: "platform \<Rightarrow> 'v cop \<Rightarrow> 'p ctx \<Rightarrow> 'p ctx" where
  "cstep pl (CGet c m) s = snd (get_context pl c m s)"
| "cstep pl (CSet c m f) s = snd (set_start_method pl c m f s)"
| "cstep pl (CName c b) s = snd (get_start_method pl c b s)"
| "cstep pl (CForce n) s = snd (force_start_method pl n s)"
| "cstep pl (CForkingEnabled c) s = snd (forking_is_enabled pl c s)"
| "cstep pl (CForkingEnable c v) s = snd (forking_enable pl c v s)"
| "cstep pl (CMake c f) s = snd (make pl c f s)"
| "cstep pl (CPopen c) s = snd (Process_Popen pl c s)"

text \<open>The operations that may replace a context that has been set.\<close>

fun forces :: "platform \<Rightarrow> 'v cop \<Rightarrow> bool" where
  "forces pl (CSet Default _ (Some True)) = True"
| "forces pl (CForce _) = True"
| "forces pl (CForkingEnable Default False) = pl_supports_exec pl"
| "forces pl _ = False"

definition crun :: "platform \<Rightarrow> 'v cop list \<Rightarrow> 'p ctx \<Rightarrow> 'p ctx" where
  "crun pl ops s = fold (cstep pl) ops s"

lemma crun_append: "crun pl (ops @ ops') s = crun pl ops' (crun pl ops s)"
  by (simp add: crun_def)

lemma set_actual_same: "cx_actual s = Some c \<Longrightarrow> s\<lparr>cx_actual := Some c\<rparr> = s"
  by (cases s) simp

text \<open>Once there is an underlying context, reading it changes nothing.\<close>

lemma get_context_set: "cx_actual s = Some c \<Longrightarrow> get_context pl Default None s = (Inr c, s)"
  by (simp add: act_defs set_actual_same)

lemma get_context_keeps: "cx_actual s = Some c \<Longrightarrow> snd (get_context pl x m s) = s"
  by (cases x; cases m) (simp_all add: lookup_context_def act_defs set_actual_same split: option.split)

lemma get_start_method_set: "cx_actual s = Some c \<Longrightarrow> get_start_method pl Default b s = (Inr (Some (context_name c)), s)"
  by (simp add: act_defs set_actual_same)

lemma get_start_method_keeps: "cx_actual s = Some c \<Longrightarrow> snd (get_start_method pl x b s) = s"
  by (cases x) (simp_all add: act_defs set_actual_same)

lemma set_start_method_keeps: "cx_actual s = Some c \<Longrightarrow> x \<noteq> Default \<or> f \<noteq> Some True \<Longrightarrow> snd (set_start_method pl x m f s) = s"
  by (cases x) (simp_all add: act_defs)

lemma snd_bind_ret: "snd (bindA m (\<lambda>x. ret (f x)) s) = snd (m s)"
  by (simp add: bindA_def ret_def split: prod.split sum.split)

lemma make_keeps: "cx_actual s = Some c \<Longrightarrow> snd (make pl x f s) = s"
  by (simp add: make_def snd_bind_ret get_context_keeps) (simp add: ret_def)

lemma Process_Popen_keeps: "cx_actual s = Some c \<Longrightarrow> snd (Process_Popen pl x s) = s"
  unfolding Process_Popen_def by (cases x) (auto simp: snd_bind_ret ret_def get_context_keeps simp del: get_context.simps)

lemma forking_is_enabled_keeps: "cx_actual s = Some c \<Longrightarrow> snd (forking_is_enabled pl x s) = s"
  by (simp add: forking_is_enabled_def snd_bind_ret get_start_method_keeps)

lemma forking_enable_keeps: "cx_actual s = Some c \<Longrightarrow> x \<noteq> Default \<or> v \<or> \<not> pl_supports_exec pl \<Longrightarrow> snd (forking_enable pl x v s) = s"
  by (auto simp: forking_enable_def ret_def set_start_method_keeps simp del: set_start_method.simps)

lemmas keeps = get_context_keeps get_start_method_keeps set_start_method_keeps make_keeps Process_Popen_keeps
  forking_is_enabled_keeps forking_enable_keeps

lemma cstep_keeps:
  assumes "cx_actual s = Some c" "\<not> forces pl a"
  shows "cstep pl a s = s"
proof (cases a)
  case (CSet x m f)
  have "x \<noteq> Default \<or> f \<noteq> Some True" using assms(2) CSet by (cases x; cases f) auto
  then show ?thesis using CSet keeps [OF assms(1)] by simp
next
  case (CForkingEnable x v)
  have "x \<noteq> Default \<or> v \<or> \<not> pl_supports_exec pl" using assms(2) CForkingEnable by (cases x; cases v) auto
  then show ?thesis using CForkingEnable keeps [OF assms(1)] by simp
qed (use assms keeps [OF assms(1)] in \<open>simp_all\<close>)

lemma crun_keeps: "cx_actual s = Some c \<Longrightarrow> \<forall>a \<in> set ops. \<not> forces pl a \<Longrightarrow> crun pl ops s = s"
  unfolding crun_def by (induction ops arbitrary: s) (simp_all add: cstep_keeps)

text \<open>
  Once the default context has an underlying context, whatever has set it (\<open>set_start_method\<close> or the first use),
  every operation that does not force another one leaves it alone: everything made with the default context is made for
  that context, processes are started with its \<open>Popen\<close>, and \<open>set_start_method\<close> is refused.
\<close>

theorem context_set_once:
  assumes c: "cx_actual (crun pl ops s) = Some c" and ops: "\<forall>a \<in> set ops'. \<not> forces pl a"
  shows "cx_actual (crun pl (ops @ ops') s) = Some c \<and>
    (takes_context f \<longrightarrow> make pl Default f (crun pl (ops @ ops') s) = (Inr (f, Some c), crun pl ops s)) \<and>
    Process_Popen pl Default (crun pl (ops @ ops') s) = (Inr (concrete_Popen pl c), crun pl ops s) \<and>
    get_start_method pl Default b (crun pl (ops @ ops') s) = (Inr (Some (context_name c)), crun pl ops s) \<and>
    set_start_method pl Default m None (crun pl (ops @ ops') s) = (Inl RuntimeError, crun pl ops s)"
proof -
  have e: "crun pl (ops @ ops') s = crun pl ops s" unfolding crun_append by (rule crun_keeps [OF c ops])
  show ?thesis unfolding e make_def Process_Popen_def
    using c get_context_set [OF c] get_start_method_set [OF c] by (simp add: bindA_def ret_def readA_def raise_def)
qed

theorem context_set_once_witness:
  "\<exists>s. s = crun \<lparr>pl_win32 = False, pl_darwin = False, pl_send_handle = True, pl_frozen = False, pl_supports_exec = True\<rparr>
      ([CMake Default (FLock :: nat factory)] @ [CSet Default (Some ''spawn'') None, CGet Default (Some ''forkserver''), CForkingEnable Default True])
      \<lparr>cx_actual = None, cx_spawning = (\<lambda>_. None :: nat option)\<rparr> \<and> cx_actual s = Some ForkContext \<and>
    set_start_method \<lparr>pl_win32 = False, pl_darwin = False, pl_send_handle = True, pl_frozen = False, pl_supports_exec = True\<rparr>
      Default (Some ''spawn'') None s = (Inl RuntimeError, s)"
proof -
  let ?pl = "\<lparr>pl_win32 = False, pl_darwin = False, pl_send_handle = True, pl_frozen = False, pl_supports_exec = True\<rparr>"
  let ?s = "\<lparr>cx_actual = None, cx_spawning = (\<lambda>_. None :: nat option)\<rparr>"
  let ?ops = "[CMake Default FLock :: nat cop]" and ?ops' = "[CSet Default (Some ''spawn'') None, CGet Default (Some ''forkserver''), CForkingEnable Default True]"
  have c: "cx_actual (crun ?pl ?ops ?s) = Some ForkContext"
    by (simp add: crun_def make_def takes_context_def act_defs initial_context_def)
  have f: "\<forall>a \<in> set ?ops'. \<not> forces ?pl a" by simp
  have e: "crun ?pl (?ops @ ?ops') ?s = crun ?pl ?ops ?s" unfolding crun_append by (rule crun_keeps [OF c f])
  note set = context_set_once [OF c f, where m = "Some ''spawn''", THEN conjunct2, THEN conjunct2, THEN conjunct2, THEN conjunct2]
  show ?thesis by (intro exI [of _ "crun ?pl ?ops ?s"] conjI e [symmetric] c set [unfolded e])
qed

text \<open>What the first use chooses, and that a refused choice is no choice.\<close>

lemma first_use: "cx_actual s = None \<Longrightarrow> get_context pl Default None s = (Inr (initial_context pl), s\<lparr>cx_actual := Some (initial_context pl)\<rparr>)"
  by (simp add: act_defs)

lemma unknown_method: "cx_actual s = None \<Longrightarrow> concrete_contexts pl name = None \<Longrightarrow>
    set_start_method pl Default (Some name) f s = (Inl ValueError, s)"
  by (simp add: act_defs lookup_context_def)

text \<open>Every method that is listed can be set, on every platform, and no other.\<close>

lemma listed_methods:
  assumes "cx_actual s = None"
  shows "fst (set_start_method pl Default (Some name) None s) = Inr () \<longleftrightarrow> name \<in> set (get_all_start_methods pl)"
  using assms by (auto simp: act_defs lookup_context_def concrete_contexts_def check_available_def get_all_start_methods_def)

text \<open>Asking whether forking is enabled is a use of the default context: afterwards its method cannot be set.\<close>

lemma asking_sets_context: "cx_actual s = None \<Longrightarrow>
    fst (set_start_method pl Default m None (snd (forking_is_enabled pl Default s))) = Inl RuntimeError"
  by (simp add: forking_is_enabled_def act_defs)

text \<open>\<open>forking_enable\<close> works on the default context only: a concrete one does not know the parameter \<open>force\<close>.\<close>

lemma forking_enable_concrete: "pl_supports_exec pl \<Longrightarrow> forking_enable pl (Concrete c) False s = (Inl TypeError, s)"
  by (simp add: forking_enable_def raise_def)

lemma forking_enable_default: "pl_supports_exec pl \<Longrightarrow> cx_actual (snd (forking_enable pl Default False s)) = Some SpawnContext"
  by (simp add: forking_enable_def act_defs lookup_context_def concrete_contexts_def check_available_def)

text \<open>The arguments of the context's \<open>Pool\<close>, passed by position, reach the parameters of the same names.\<close>

lemma pool_arguments_match: "take (length context_pool_params) pool_params = context_pool_params"
  by (simp add: context_pool_params_def pool_params_def)

lemma assert_spawning_raises: "assert_spawning th s = (if cx_spawning s th = None then Inl RuntimeError else Inr (), s)"
  by (simp add: assert_spawning_def get_spawning_popen_def act_defs)

end
