(* ===== verification/Spawning.thy ===== *)
theory Spawning
  imports Contexts Sem_Tracker Processes
begin

text \<open>
  \<open>billiard/spawn.py\<close>: the command line a child is started with and how the child reads it, the preparation data of the
  parent and what the child does with them (\<open>prepare\<close>), the handling of the main module, and \<open>_main\<close>. The state is
  that of one Python process as far as these functions read and write it. Running the main module (\<open>runpy\<close>),
  unpickling and the process's \<open>_bootstrap\<close> are parameters, as operations on that state. Paths are those of POSIX.
\<close>

section \<open>The state\<close>

record pymodule =
  mo_spec :: "string option"       \<comment> \<open>\<open>__spec__.name\<close>\<close>
  mo_file :: "string option"       \<comment> \<open>\<open>__file__\<close>\<close>
  mo_name :: string                \<comment> \<open>\<open>__name__\<close>\<close>

record py =
  py_name :: string                \<comment> \<open>of the current process\<close>
  py_authkey :: string
  py_inheriting :: bool            \<comment> \<open>the current process has the attribute \<open>_inheriting\<close>\<close>
  py_log_to_stderr :: bool
  py_logger :: "int option"        \<comment> \<open>the logger, when there is one, with its own level (0: none)\<close>
  py_handlers :: nat
  py_root_level :: int
  py_path :: "string option list"  \<comment> \<open>\<open>sys.path\<close>; an entry can be \<open>None\<close>\<close>
  py_argv :: "string list"
  py_cwd :: string
  py_orig :: "string option"       \<comment> \<open>\<open>ORIGINAL_DIR\<close>\<close>
  py_ctx :: "nat ctx"
  py_main :: pymodule
  py_old_mains :: "pymodule list"
  py_environ :: "string \<Rightarrow> string option"
  py_tracker :: "int option"
  py_exe :: string                 \<comment> \<open>\<open>_python_exe\<close>\<close>

definition ctx_act :: "(nat ctx, 'a) act \<Rightarrow> (py, 'a) act" where
  "ctx_act m s = (case m (py_ctx s) of (r, c) \<Rightarrow> (r, s\<lparr>py_ctx := c\<rparr>))"

section \<open>Paths\<close>

abbreviation SLASH :: char where "SLASH \<equiv> CHR ''/''"

fun joinsep :: "string \<Rightarrow> string list \<Rightarrow> string" where
  "joinsep sep [] = []"
| "joinsep sep [x] = x"
| "joinsep sep (x # xs) = x @ sep @ joinsep sep xs"

definition isabs :: "string \<Rightarrow> bool" where
  "isabs p \<longleftrightarrow> take 1 p = [SLASH]"

definition path_join :: "string \<Rightarrow> string \<Rightarrow> string" where
  "path_join a b = (if isabs b then b else if a = [] \<or> last a = SLASH then a @ b else a @ [SLASH] @ b)"

fun norm_comps :: "bool \<Rightarrow> string list \<Rightarrow> string list \<Rightarrow> string list" where
  "norm_comps rooted acc [] = rev acc"
| "norm_comps rooted acc (c # cs) =
     (if c = [] \<or> c = ''.'' then norm_comps rooted acc cs
      else if c \<noteq> ''..'' \<or> \<not> rooted \<and> acc = [] \<or> acc \<noteq> [] \<and> hd acc = ''..'' then norm_comps rooted (c # acc) cs
      else norm_comps rooted (tl acc) cs)"

definition normpath :: "string \<Rightarrow> string" where
  "normpath p =
     (if p = [] then ''.''
      else let n = length (takeWhile ((=) SLASH) p); slashes = (if n = 2 then 2 else min n 1);
               q = replicate slashes SLASH @ joinsep [SLASH] (norm_comps (slashes > 0) [] (split_on SLASH p))
           in if q = [] then ''.'' else q)"

text \<open>\<open>os.path.split\<close>: trailing slashes of the head are dropped unless it is all slashes.\<close>

definition path_split :: "string \<Rightarrow> string \<times> string" where
  "path_split p =
     (let tail = rev (takeWhile ((\<noteq>) SLASH) (rev p)); head = take (length p - length tail) p;
          stripped = rev (dropWhile ((=) SLASH) (rev head))
      in (if stripped = [] then head else stripped, tail))"

text \<open>\<open>os.path.splitext(...)[0]\<close> of a file name: an extension starts at the last dot, unless only dots are before it.\<close>

definition stem :: "string \<Rightarrow> string" where
  "stem f = (let ext = rev (takeWhile ((\<noteq>) CHR ''.'') (rev f)); base = take (length f - length ext - 1) f in
     if length ext = length f \<or> (\<forall>c \<in> set base. c = CHR ''.'') then f else base)"

definition ends_with :: "string \<Rightarrow> string \<Rightarrow> bool" where
  "ends_with t s \<longleftrightarrow> length t \<le> length s \<and> drop (length s - length t) s = t"

fun contains :: "string \<Rightarrow> string \<Rightarrow> bool" where
  "contains t [] = (t = [])"
| "contains t (c # s) = (take (length t) (c # s) = t \<or> contains t s)"

section \<open>Old Django layouts\<close>

definition module_dir :: "string \<Rightarrow> string" where
  "module_dir f = (if contains ''__init__.py'' f then fst (path_split f) else f)"

definition module_parent_dir :: "string \<Rightarrow> string \<Rightarrow> string" where
  "module_parent_dir cwd f = (let d = fst (path_split (module_dir f)) in if d = ''.'' \<or> d = [] then cwd else d)"

text \<open>\<open>imp\<close> imports a module and gives its \<open>__file__\<close>, \<open>None\<close> when it has none.\<close>

definition django_save :: "(string \<Rightarrow> exn + string option) \<Rightarrow> (py, unit) act" where
  "django_save imp = readA (\<lambda>s.
     if py_environ s ''DJANGO_PROJECT_DIR'' \<noteq> None then ret ()
     else case py_environ s ''DJANGO_SETTINGS_MODULE'' of
         None \<Rightarrow> ret ()
       | Some settings \<Rightarrow>
           if CHR ''.'' \<notin> set settings then ret ()
           else (case imp (takeWhile ((\<noteq>) CHR ''.'') settings) of
               Inl x \<Rightarrow> raise x
             | Inr None \<Rightarrow> ret ()
             | Inr (Some f) \<Rightarrow> modifyA (\<lambda>s. s\<lparr>py_environ := (py_environ s)(''DJANGO_PROJECT_DIR'' \<mapsto> normpath (module_parent_dir (py_cwd s) f))\<rparr>)))"

definition django_load :: "(py, unit) act" where
  "django_load = modifyA (\<lambda>s. case py_environ s ''DJANGO_PROJECT_DIR'' of None \<Rightarrow> s | Some d \<Rightarrow> s\<lparr>py_path := py_path s @ [Some d]\<rparr>)"

definition set_executable :: "string \<Rightarrow> (py, unit) act" where
  "set_executable exe = modifyA (\<lambda>s. s\<lparr>py_exe := exe\<rparr>)"

definition get_executable :: "(py, string) act" where
  "get_executable = getsA py_exe"

section \<open>The command line\<close>

definition FORK_FLAG :: string where "FORK_FLAG = ''--billiard-fork''"

definition is_forking :: "string list \<Rightarrow> bool" where
  "is_forking argv \<longleftrightarrow> length argv \<ge> 2 \<and> argv ! 1 = FORK_FLAG"

text \<open>The keyword arguments are numbers or \<open>None\<close>.\<close>

definition repr_value :: "nat option \<Rightarrow> string" where
  "repr_value v = (case v of None \<Rightarrow> ''None'' | Some n \<Rightarrow> digits n)"

definition kwd_item :: "string \<times> nat option \<Rightarrow> string" where
  "kwd_item kv = fst kv @ ''='' @ repr_value (snd kv)"

definition get_command_line :: "bool \<Rightarrow> string \<Rightarrow> string \<Rightarrow> string list \<Rightarrow> (string \<times> nat option) list \<Rightarrow> string list" where
  "get_command_line frozen sys_executable python_exe opts kwds =
     (if frozen then [sys_executable, FORK_FLAG] @ map kwd_item kwds
      else [python_exe] @ opts @ [''-c'', ''from billiard.spawn import spawn_main; spawn_main('' @ joinsep '', '' (map kwd_item kwds) @ '')'', FORK_FLAG])"

text \<open>Python's \<open>int\<close> of a string: white space around it, a sign, digits, single underscores between them.\<close>

fun digit_val :: "char \<Rightarrow> nat option" where
  "digit_val c = (let n = of_char c :: nat in if 48 \<le> n \<and> n < 58 then Some (n - 48) else None)"

fun undigits :: "bool \<Rightarrow> nat \<Rightarrow> string \<Rightarrow> nat option" where
  "undigits prev acc [] = (if prev then Some acc else None)"
| "undigits prev acc (c # cs) =
     (case digit_val c of
        Some d \<Rightarrow> undigits True (acc * 10 + d) cs
      | None \<Rightarrow> if c = CHR ''_'' \<and> prev then undigits False acc cs else None)"

definition parse_int :: "string \<Rightarrow> int option" where
  "parse_int s =
     (let t = strip s in
      case t of
        [] \<Rightarrow> None
      | c # r \<Rightarrow>
          if c = CHR ''-'' then map_option (\<lambda>n. - int n) (undigits False 0 r)
          else if c = CHR ''+'' then map_option int (undigits False 0 r)
          else map_option int (undigits False 0 t))"

definition parse_kwd :: "string \<Rightarrow> exn + string \<times> int option" where
  "parse_kwd arg =
     (case split_on (CHR ''='') arg of
        [name, value] \<Rightarrow>
          if value = ''None'' then Inr (name, None)
          else (case parse_int value of None \<Rightarrow> Inl ValueError | Some n \<Rightarrow> Inr (name, Some n))
      | _ \<Rightarrow> Inl ValueError)"

fun parse_kwds :: "string list \<Rightarrow> (string \<rightharpoonup> int option) \<Rightarrow> exn + (string \<rightharpoonup> int option)" where
  "parse_kwds [] kw = Inr kw"
| "parse_kwds (a # as) kw = (case parse_kwd a of Inl x \<Rightarrow> Inl x | Inr (k, v) \<Rightarrow> parse_kwds as (kw(k \<mapsto> v)))"

text \<open>Binding the keywords to the parameters of \<open>spawn_main\<close>: \<open>pipe_handle\<close>, \<open>parent_pid=None\<close>, \<open>tracker_fd=None\<close>.\<close>

record spawn_args =
  sa_pipe :: "int option"
  sa_parent :: "int option"
  sa_tracker :: "int option"

definition bind_kwds :: "(string \<rightharpoonup> int option) \<Rightarrow> exn + spawn_args" where
  "bind_kwds kw =
     (case kw ''pipe_handle'' of
        None \<Rightarrow> Inl TypeError
      | Some p \<Rightarrow> Inr \<lparr>sa_pipe = p, sa_parent = (case kw ''parent_pid'' of None \<Rightarrow> None | Some v \<Rightarrow> v),
           sa_tracker = (case kw ''tracker_fd'' of None \<Rightarrow> None | Some v \<Rightarrow> v)\<rparr>)"

text \<open>\<open>freeze_support\<close>: \<open>None\<close> when this is not a child, otherwise the arguments \<open>spawn_main\<close> is called with.\<close>

definition freeze_support :: "string list \<Rightarrow> (exn + spawn_args) option" where
  "freeze_support argv =
     (if is_forking argv then Some (case parse_kwds (drop 2 argv) Map.empty of Inl x \<Rightarrow> Inl x | Inr kw \<Rightarrow> bind_kwds kw) else None)"

section \<open>Preparation data\<close>

record prep =
  d_log_to_stderr :: "bool option"
  d_authkey :: "string option"
  d_log_level :: "int option"
  d_name :: "string option"
  d_sys_path :: "string option list option"
  d_sys_argv :: "string list option"
  d_orig_dir :: "string option option"
  d_dir :: "string option"
  d_start_method :: "string option"
  d_main_name :: "string option"      \<comment> \<open>\<open>init_main_from_name\<close>\<close>
  d_main_path :: "string option"      \<comment> \<open>\<open>init_main_from_path\<close>\<close>

definition check_not_importing_main :: "(py, unit) act" where
  "check_not_importing_main = assertA (\<lambda>s. \<not> py_inheriting s) RuntimeError"

definition effective_level :: "py \<Rightarrow> int option" where
  "effective_level s = map_option (\<lambda>l. if l \<noteq> 0 then l else py_root_level s) (py_logger s)"

text \<open>The first empty entry of \<open>sys.path\<close> is replaced by the original directory.\<close>

fun fix_path :: "string option \<Rightarrow> string option list \<Rightarrow> string option list" where
  "fix_path d [] = []"
| "fix_path d (p # ps) = (if p = Some [] then d # ps else p # fix_path d ps)"

definition main_path :: "py \<Rightarrow> string option" where
  "main_path s = map_option (\<lambda>f. normpath (case py_orig s of Some d \<Rightarrow> if isabs f then f else path_join d f | None \<Rightarrow> f)) (mo_file (py_main s))"

definition get_preparation_data :: "platform \<Rightarrow> string \<Rightarrow> (py, prep) act" where
  "get_preparation_data pl name =
     bindA check_not_importing_main (\<lambda>_.
     bindA (ctx_act (get_start_method pl Default False)) (\<lambda>m.
     getsA (\<lambda>s. \<lparr>d_log_to_stderr = Some (py_log_to_stderr s), d_authkey = Some (py_authkey s), d_log_level = effective_level s,
       d_name = Some name, d_sys_path = Some (fix_path (py_orig s) (py_path s)), d_sys_argv = Some (py_argv s),
       d_orig_dir = Some (py_orig s), d_dir = Some (py_cwd s), d_start_method = m,
       d_main_name = mo_spec (py_main s),
       d_main_path = (if mo_spec (py_main s) = None then main_path s else None)\<rparr>)))"

text \<open>The keys of the dictionary.\<close>

definition prep_keys :: "prep \<Rightarrow> string list" where
  "prep_keys d =
     [''log_to_stderr'', ''authkey''] @ (if d_log_level d = None then [] else [''log_level'']) @
     [''name'', ''sys_path'', ''sys_argv'', ''orig_dir'', ''dir'', ''start_method''] @
     (if d_main_name d = None then [] else [''init_main_from_name'']) @ (if d_main_path d = None then [] else [''init_main_from_path''])"

section \<open>The main module in the child\<close>

text \<open>\<open>run\<close> runs the module's code as \<open>__mp_main__\<close> and gives what its globals say.\<close>

definition replace_main :: "(py, pymodule) act \<Rightarrow> (py, unit) act" where
  "replace_main run =
     bindA (modifyA (\<lambda>s. s\<lparr>py_old_mains := py_old_mains s @ [py_main s]\<rparr>)) (\<lambda>_.
     bindA run (\<lambda>m. modifyA (\<lambda>s. s\<lparr>py_main := m\<rparr>)))"

definition fixup_main_from_name :: "(string \<Rightarrow> (py, pymodule) act) \<Rightarrow> string \<Rightarrow> (py, unit) act" where
  "fixup_main_from_name run_module mod_name = readA (\<lambda>s.
     let current_main = py_main s in
     if mod_name = ''__main__'' \<or> ends_with ''.__main__'' mod_name then ret ()
     else if (case mo_spec current_main of Some n \<Rightarrow> n | None \<Rightarrow> mo_name current_main) = mod_name then ret ()
     else replace_main (run_module mod_name))"

definition fixup_main_from_path :: "(string \<Rightarrow> (py, pymodule) act) \<Rightarrow> string \<Rightarrow> (py, unit) act" where
  "fixup_main_from_path run_path path = readA (\<lambda>s.
     if stem (snd (path_split path)) = ''ipython'' then ret ()
     else if mo_file (py_main s) = Some path then ret ()
     else replace_main (run_path path))"

definition import_main_path :: "(string \<Rightarrow> (py, pymodule) act) \<Rightarrow> string \<Rightarrow> (py, unit) act" where
  "import_main_path run_path path = fixup_main_from_path run_path path"

section \<open>prepare\<close>

definition given :: "'a option \<Rightarrow> ('a \<Rightarrow> (py, unit) act) \<Rightarrow> (py, unit) act" where
  "given x f = (case x of None \<Rightarrow> ret () | Some v \<Rightarrow> f v)"

text \<open>\<open>util.get_logger\<close> and \<open>util.log_to_stderr\<close> as far as the logger is concerned.\<close>

definition get_logger :: "py \<Rightarrow> py" where
  "get_logger s = s\<lparr>py_logger := Some (case py_logger s of None \<Rightarrow> 0 | Some l \<Rightarrow> l)\<rparr>"

definition log_to_stderr :: "py \<Rightarrow> py" where
  "log_to_stderr s = (get_logger s)\<lparr>py_handlers := py_handlers s + 1, py_log_to_stderr := True\<rparr>"

text \<open>What the child runs: \<open>runpy\<close>, and \<open>os.chdir\<close>.\<close>

record runner =
  ru_module :: "string \<Rightarrow> (py, pymodule) act"
  ru_path :: "string \<Rightarrow> (py, pymodule) act"
  ru_chdir :: "string \<Rightarrow> exn option"

definition prepare :: "platform \<Rightarrow> runner \<Rightarrow> prep \<Rightarrow> (py, unit) act" where
  "prepare pl ru d =
     bindA (given (d_name d) (\<lambda>n. modifyA (\<lambda>s. s\<lparr>py_name := n\<rparr>))) (\<lambda>_.
     bindA (given (d_authkey d) (\<lambda>k. modifyA (\<lambda>s. s\<lparr>py_authkey := k\<rparr>))) (\<lambda>_.
     bindA (given (d_log_to_stderr d) (\<lambda>b. whenA b (modifyA log_to_stderr))) (\<lambda>_.
     bindA (given (d_log_level d) (\<lambda>l. modifyA (\<lambda>s. (get_logger s)\<lparr>py_logger := Some l\<rparr>))) (\<lambda>_.
     bindA (given (d_sys_path d) (\<lambda>p. modifyA (\<lambda>s. s\<lparr>py_path := p\<rparr>))) (\<lambda>_.
     bindA (given (d_sys_argv d) (\<lambda>a. modifyA (\<lambda>s. s\<lparr>py_argv := a\<rparr>))) (\<lambda>_.
     bindA (given (d_dir d) (\<lambda>c. case ru_chdir ru c of Some x \<Rightarrow> raise x | None \<Rightarrow> modifyA (\<lambda>s. s\<lparr>py_cwd := c\<rparr>))) (\<lambda>_.
     bindA (given (d_orig_dir d) (\<lambda>o1. modifyA (\<lambda>s. s\<lparr>py_orig := o1\<rparr>))) (\<lambda>_.
     bindA (given (d_start_method d) (\<lambda>m. ctx_act (set_start_method pl Default (Some m) None))) (\<lambda>_.
     case d_main_name d of
       Some n \<Rightarrow> fixup_main_from_name (ru_module ru) n
     | None \<Rightarrow> given (d_main_path d) (fixup_main_from_path (ru_path ru)))))))))))"

section \<open>The child\<close>

text \<open>\<open>_setup_logging_in_child_hack\<close>.\<close>

definition setup_logging_in_child_hack :: "(py, unit) act" where
  "setup_logging_in_child_hack =
     bindA (modifyA (\<lambda>s. case mo_file (py_main s) of None \<Rightarrow> s
       | Some f \<Rightarrow> s\<lparr>py_environ := (py_environ s)(''MP_MAIN_FILE'' \<mapsto> f)\<rparr>)) (\<lambda>_.
     readA (\<lambda>s. case py_environ s ''_MP_FORK_LOGLEVEL_'' of
       None \<Rightarrow> ret ()
     | Some level \<Rightarrow>
         whenA (level \<noteq> [])
           (bindA (modifyA get_logger) (\<lambda>_.
            case parse_int level of
              None \<Rightarrow> raise ValueError
            | Some l \<Rightarrow> modifyA (\<lambda>s. s\<lparr>py_logger := Some l, py_handlers := (if py_handlers s = 0 then 1 else py_handlers s)\<rparr>)))))"

text \<open>
  \<open>_main\<close>: \<open>load_prep\<close> and \<open>load_process\<close> are what the two loads from the pipe give, the second once the first has
  been used; \<open>boot\<close> is \<open>_bootstrap\<close>.
\<close>

definition child_main :: "platform \<Rightarrow> runner \<Rightarrow> exn + prep \<Rightarrow> (py, 'p) act \<Rightarrow> ('p \<Rightarrow> (py, int) act) \<Rightarrow> (py, int) act" where
  "child_main pl ru load_prep load_process boot =
     bindA django_load (\<lambda>_.
     bindA (modifyA (\<lambda>s. s\<lparr>py_inheriting := True\<rparr>)) (\<lambda>_.
     bindA (finallyA
         (case load_prep of Inl x \<Rightarrow> raise x
          | Inr d \<Rightarrow> bindA (prepare pl ru d) (\<lambda>_. bindA setup_logging_in_child_hack (\<lambda>_. load_process)))
         (modifyA (\<lambda>s. s\<lparr>py_inheriting := False\<rparr>))) boot))"

definition spawn_main :: "platform \<Rightarrow> runner \<Rightarrow> exn + prep \<Rightarrow> (py, 'p) act \<Rightarrow> ('p \<Rightarrow> (py, int) act) \<Rightarrow> spawn_args \<Rightarrow> (py, unit) act" where
  "spawn_main pl ru load_prep load_process boot args =
     bindA (assertA (\<lambda>s. is_forking (py_argv s)) AssertionError) (\<lambda>_.
     bindA (modifyA (\<lambda>s. s\<lparr>py_tracker := sa_tracker args\<rparr>)) (\<lambda>_.
     bindA (child_main pl ru load_prep load_process boot) (\<lambda>code. raise (SystemExit code))))"

section \<open>The command line is read back\<close>

lemma digit_val_char: "n < 10 \<Longrightarrow> digit_val (char_of (48 + n)) = Some n"
  by (simp add: Let_def)

lemma undigits_digits: "undigits prev acc (digits n @ s) = undigits True (acc * 10 ^ length (digits n) + n) s"
proof (induction n arbitrary: prev acc s rule: digits.induct)
  case (1 n)
  show ?case
  proof (cases "n < 10")
    case True
    then show ?thesis using digit_val_char [OF True] by (simp add: digits.simps [of n])
  next
    case False
    have d: "digit_val (char_of (48 + n mod 10)) = Some (n mod 10)" by (rule digit_val_char) simp
    have e: "digits n = digits (n div 10) @ [char_of (48 + n mod 10)]" using False by (simp add: digits.simps [of n])
    have "(acc * 10 ^ L + n div 10) * 10 + n mod 10 = acc * 10 ^ Suc L + n" for L by (simp add: algebra_simps)
    moreover have "length (digits n) = Suc (length (digits (n div 10)))" unfolding e by simp
    moreover have "undigits prev acc (digits n @ s) = undigits True ((acc * 10 ^ length (digits (n div 10)) + n div 10) * 10 + n mod 10) s"
      unfolding e using 1 [OF False] d by simp
    ultimately show ?thesis by (simp add: algebra_simps)
  qed
qed

lemma digits_chars: "c \<in> set (digits n) \<Longrightarrow> 48 \<le> (of_char c :: nat) \<and> of_char c < (58 :: nat)"
proof (induction n rule: digits.induct)
  case (1 n)
  then show ?case by (subst (asm) digits.simps [of n]) (auto split: if_splits)
qed

lemma digits_not: "(of_char c :: nat) < 48 \<or> 58 \<le> (of_char c :: nat) \<Longrightarrow> c \<notin> set (digits n)"
  using digits_chars by fastforce

lemma digits_no_space: "c \<in> set (digits n) \<Longrightarrow> \<not> is_space c"
  using digits_chars [of c n] by (auto simp: is_space_def NL_def)

lemma digits_nonempty: "digits n \<noteq> []"
  by (simp add: digits.simps [of n])

lemma strip_digits: "strip (digits n) = digits n"
proof -
  have "dropWhile is_space s = s" if "\<forall>c \<in> set s. \<not> is_space c" for s using that by (cases s) auto
  from this [of "digits n"] this [of "rev (digits n)"] show ?thesis using digits_no_space [of _ n] by (simp add: strip_def)
qed

lemma parse_int_digits: "parse_int (digits n) = Some (int n)"
proof -
  obtain c r where c: "digits n = c # r" using digits_nonempty [of n] by (cases "digits n") auto
  have "c \<noteq> CHR ''-''" "c \<noteq> CHR ''+''" using digits_chars [of c n] c by auto
  moreover have "undigits False 0 (digits n) = Some n" using undigits_digits [of False 0 n "[]"] by simp
  moreover have "strip (c # r) = c # r" using strip_digits [of n] c by simp
  ultimately show ?thesis unfolding parse_int_def c Let_def by simp
qed

lemma parse_kwd_item:
  assumes "CHR ''='' \<notin> set k"
  shows "parse_kwd (kwd_item (k, v)) = Inr (k, map_option int v)"
proof (cases v)
  case None
  have "split_on (CHR ''='') (k @ CHR ''='' # ''None'') = [k, ''None'']" using split_on_append [OF assms, of "''None''"] by simp
  then show ?thesis using None by (simp add: parse_kwd_def kwd_item_def repr_value_def)
next
  case (Some n)
  have "CHR ''='' \<notin> set (digits n)" by (rule digits_not) simp
  then have "split_on (CHR ''='') (k @ CHR ''='' # digits n) = [k, digits n]"
    using split_on_append [OF assms, of "digits n"] split_on_none [of "CHR ''=''" "digits n"] by simp
  moreover have "CHR ''N'' \<notin> set (digits n)" by (rule digits_not) simp
  then have "digits n \<noteq> ''None''" by auto
  ultimately show ?thesis using Some by (simp add: parse_kwd_def kwd_item_def repr_value_def parse_int_digits)
qed

lemma parse_kwds_items:
  assumes "\<forall>k \<in> fst ` set kwds. CHR ''='' \<notin> set k" "distinct (map fst kwds)"
  shows "parse_kwds (map kwd_item kwds) kw = Inr (kw ++ (\<lambda>k. map_option (map_option int) (map_of kwds k)))"
  using assms
proof (induction kwds arbitrary: kw)
  case Nil
  have "(\<lambda>k. None) = (Map.empty :: string \<Rightarrow> int option option)" by simp
  then show ?case by simp
next
  case (Cons a kwds)
  obtain k v where a: "a = (k, v)" by (cases a)
  have "map_of kwds k = None" using Cons.prems(2) a by (simp add: map_of_eq_None_iff)
  then have "kw(k \<mapsto> map_option int v) ++ (\<lambda>k. map_option (map_option int) (map_of kwds k)) =
      kw ++ (\<lambda>k. map_option (map_option int) (map_of (a # kwds) k))"
    by (auto simp: a fun_eq_iff map_add_def split: option.split)
  then show ?case using Cons a parse_kwd_item [of k v] by simp
qed

text \<open>The \<open>sys.argv\<close> of an interpreter that is started with \<open>-c\<close>.\<close>

definition argv_after_c :: "string list \<Rightarrow> string list" where
  "argv_after_c cmd = ''-c'' # drop 2 (dropWhile ((\<noteq>) ''-c'') cmd)"



section \<open>The child agrees with the parent\<close>

lemma wp_ctx_act: "wp (ctx_act m) Q E s = wp m (\<lambda>a c. Q a (s\<lparr>py_ctx := c\<rparr>)) (\<lambda>x c. E x (s\<lparr>py_ctx := c\<rparr>)) (py_ctx s)"
  by (simp add: wp_def ctx_act_def split: prod.split)

lemma wp_given: "wp (given x f) Q E s = (case x of None \<Rightarrow> Q () s | Some v \<Rightarrow> wp (f v) Q E s)"
  by (simp add: given_def wp_ret split: option.split)

text \<open>What \<open>get_preparation_data\<close> gives and leaves.\<close>

lemma get_preparation_data_eq:
  "get_preparation_data pl name s =
     (if py_inheriting s then (Inl RuntimeError, s)
      else let c = (case cx_actual (py_ctx s) of None \<Rightarrow> initial_context pl | Some c \<Rightarrow> c);
               s' = s\<lparr>py_ctx := (py_ctx s)\<lparr>cx_actual := Some c\<rparr>\<rparr> in
        (Inr \<lparr>d_log_to_stderr = Some (py_log_to_stderr s), d_authkey = Some (py_authkey s), d_log_level = effective_level s,
           d_name = Some name, d_sys_path = Some (fix_path (py_orig s) (py_path s)), d_sys_argv = Some (py_argv s),
           d_orig_dir = Some (py_orig s), d_dir = Some (py_cwd s), d_start_method = Some (context_name c),
           d_main_name = mo_spec (py_main s), d_main_path = (if mo_spec (py_main s) = None then main_path s else None)\<rparr>, s'))"
  by (simp add: get_preparation_data_def check_not_importing_main_def act_defs ctx_act_def Let_def effective_level_def main_path_def
    cong del: if_weak_cong)

text \<open>A runner whose modules leave alone what \<open>prepare\<close> has set.\<close>

definition harmless :: "runner \<Rightarrow> bool" where
  "harmless ru \<longleftrightarrow> (\<forall>n s. \<exists>m. ru_module ru n s = (Inr m, s)) \<and> (\<forall>n s. \<exists>m. ru_path ru n s = (Inr m, s)) \<and> (\<forall>c. ru_chdir ru c = None)"

lemma wp_fixup:
  assumes "harmless ru" "\<And>m os. Q () (s\<lparr>py_main := m, py_old_mains := os\<rparr>)"
  shows "wp (fixup_main_from_name (ru_module ru) n) Q E s" "wp (fixup_main_from_path (ru_path ru) n) Q E s"
proof -
  have q: "Q () s" using assms(2) [where m = "py_main s" and os = "py_old_mains s"] by simp
  obtain m where m: "ru_module ru n (s\<lparr>py_old_mains := py_old_mains s @ [py_main s]\<rparr>) =
      (Inr m, s\<lparr>py_old_mains := py_old_mains s @ [py_main s]\<rparr>)" using assms(1) unfolding harmless_def by blast
  obtain m' where m': "ru_path ru n (s\<lparr>py_old_mains := py_old_mains s @ [py_main s]\<rparr>) =
      (Inr m', s\<lparr>py_old_mains := py_old_mains s @ [py_main s]\<rparr>)" using assms(1) unfolding harmless_def by blast
  have u: "s\<lparr>py_old_mains := x, py_main := y\<rparr> = s\<lparr>py_main := y, py_old_mains := x\<rparr>" for x y by simp
  show "wp (fixup_main_from_name (ru_module ru) n) Q E s"
    using m q assms(2) by (simp add: fixup_main_from_name_def replace_main_def wp_def act_defs Let_def u)
  show "wp (fixup_main_from_path (ru_path ru) n) Q E s"
    using m' q assms(2) by (simp add: fixup_main_from_path_def replace_main_def wp_def act_defs Let_def u)
qed

lemma context_of_name: "context_name c \<in> set (get_all_start_methods pl) \<Longrightarrow> lookup_context pl (context_name c) s = (Inr c, s)"
  by (cases c) (auto simp: lookup_context_def get_all_start_methods_def concrete_contexts_def check_available_def ret_def split: if_splits)


text \<open>What \<open>prepare\<close> sets before it looks at the main module does not touch the main module or the mark.\<close>

lemma wp_seq: "wp m (\<lambda>_. I) E s \<Longrightarrow> (\<And>t. I t \<Longrightarrow> wp (f ()) Q E t) \<Longrightarrow> wp (bindA m (\<lambda>_. f ())) Q E s"
  unfolding wp_bind by (erule wp_mono) auto

lemma wp_given_I: "I s \<Longrightarrow> (\<And>v. x = Some v \<Longrightarrow> wp (f v) (\<lambda>_. I) E s) \<Longrightarrow> wp (given x f) (\<lambda>_. I) E s"
  by (simp add: wp_given split: option.split)

lemma wp_prepare_settings:
  assumes ch: "\<And>c. ru_chdir ru c = None"
    and ctx: "d_start_method d = None \<or> cx_actual (py_ctx s) = None \<and> the (d_start_method d) \<in> set (get_all_start_methods pl)"
    and Q: "\<And>t. py_main t = py_main s \<Longrightarrow> py_inheriting t = py_inheriting s \<Longrightarrow>
       wp (case d_main_name d of Some n \<Rightarrow> fixup_main_from_name (ru_module ru) n
           | None \<Rightarrow> given (d_main_path d) (fixup_main_from_path (ru_path ru))) Q E t"
  shows "wp (prepare pl ru d) Q E s"
proof -
  let ?J = "\<lambda>t. py_main t = py_main s \<and> py_inheriting t = py_inheriting s"
  let ?I = "\<lambda>t. ?J t \<and> py_ctx t = py_ctx s"
  have "fst (set_start_method pl Default (Some x) None c) = Inr ()"
    if "cx_actual c = None" "x \<in> set (get_all_start_methods pl)" for x and c :: "nat ctx"
    using listed_methods [of c pl x] that by simp
  then have set: "wp (set_start_method pl Default (Some x) None) P F c"
    if "cx_actual c = None" "x \<in> set (get_all_start_methods pl)" "\<And>c. P () c" for x P F and c :: "nat ctx"
    using that unfolding wp_def by (metis (mono_tags, lifting) case_prod_beta old.sum.simps(6))
  show ?thesis
    unfolding prepare_def
    apply (rule wp_seq [where I = ?I], rule wp_given_I, (simp; fail),
        (simp add: wp_simps log_to_stderr_def get_logger_def ch del: set_start_method.simps; fail))+
    apply (rule wp_seq [where I = ?J], rule wp_given_I, simp, unfold wp_ctx_act, rule set)
    using ctx Q by auto
qed

section \<open>The main module\<close>

text \<open>
  The main module is executed at most once in a process: asking a second time for the module or the path that has been
  run does nothing, as \<open>runpy\<close> leaves the module's name or path in its globals.
\<close>

theorem main_module_once:
  assumes "\<And>t. \<exists>m. ru_path ru path t = (Inr m, t) \<and> mo_file m = Some path"
    and "\<And>t. \<exists>m. ru_module ru n t = (Inr m, t) \<and> mo_spec m = Some n"
  shows "bindA (fixup_main_from_path (ru_path ru) path) (\<lambda>_. fixup_main_from_path (ru_path ru) path) s =
      fixup_main_from_path (ru_path ru) path s \<and>
    bindA (fixup_main_from_name (ru_module ru) n) (\<lambda>_. fixup_main_from_name (ru_module ru) n) s =
      fixup_main_from_name (ru_module ru) n s"
proof -
  obtain m where m: "ru_path ru path (s\<lparr>py_old_mains := py_old_mains s @ [py_main s]\<rparr>) =
      (Inr m, s\<lparr>py_old_mains := py_old_mains s @ [py_main s]\<rparr>)" "mo_file m = Some path" using assms(1) by blast
  obtain m' where m': "ru_module ru n (s\<lparr>py_old_mains := py_old_mains s @ [py_main s]\<rparr>) =
      (Inr m', s\<lparr>py_old_mains := py_old_mains s @ [py_main s]\<rparr>)" "mo_spec m' = Some n" using assms(2) by blast
  show ?thesis
    using m m' by (simp add: fixup_main_from_path_def fixup_main_from_name_def replace_main_def act_defs Let_def)
qed

text \<open>
  A main module that starts a process without a guard is stopped in the child: while it runs, the process is marked as
  inheriting, \<open>get_preparation_data\<close> refuses with \<open>RuntimeError\<close>, the child ends with it, and the mark is gone.
\<close>

theorem unguarded_main_refused:
  assumes d: "d_main_name d = None" "d_main_path d = Some path" "stem (snd (path_split path)) \<noteq> ''ipython''"
    and s: "mo_file (py_main s) \<noteq> Some path" and ch: "\<And>c. ru_chdir ru c = None"
    and ctx: "d_start_method d = None \<or> cx_actual (py_ctx s) = None \<and> the (d_start_method d) \<in> set (get_all_start_methods pl)"
    and run: "ru_path ru path = bindA (get_preparation_data pl name) (\<lambda>_. start)"
  shows "\<exists>s'. child_main pl ru (Inr d) load_process boot s = (Inl RuntimeError, s') \<and> \<not> py_inheriting s'"
proof -
  have refused: "wp (get_preparation_data pl name) Q E t = E RuntimeError t" if "py_inheriting t" for Q E t
    using that by (simp add: wp_def get_preparation_data_eq)
  have "wp (prepare pl ru d) (\<lambda>_ _. False) (\<lambda>x _. x = RuntimeError) t" if "py_main t = py_main s" "py_ctx t = py_ctx s" "py_inheriting t" for t
    using that d s
    by (intro wp_prepare_settings ch) (auto simp: ctx wp_given fixup_main_from_path_def replace_main_def wp_simps run refused)
  note p = wp_mono [OF this]
  have "wp (child_main pl ru (Inr d) load_process boot) (\<lambda>_ _. False) (\<lambda>x s'. x = RuntimeError \<and> \<not> py_inheriting s') s"
    by (simp add: child_main_def django_load_def wp_simps) (rule p, auto simp: wp_modify split: option.split)
  then show ?thesis by (auto simp: wp_def split: prod.splits sum.splits)
qed

section \<open>Examples\<close>

definition ex_py :: py where
  "ex_py = \<lparr>py_name = ''MainProcess'', py_authkey = ''k'', py_inheriting = False, py_log_to_stderr = True, py_logger = Some 0, py_handlers = 1,
     py_root_level = 30, py_path = [Some [], Some ''/usr/lib''], py_argv = [''run.py''], py_cwd = ''/tmp'', py_orig = Some ''/home'',
     py_ctx = \<lparr>cx_actual = Some SpawnContext, cx_spawning = (\<lambda>_. None)\<rparr>, py_main = \<lparr>mo_spec = None, mo_file = Some ''run.py'', mo_name = ''__main__''\<rparr>,
     py_old_mains = [], py_environ = (\<lambda>_. None), py_tracker = None, py_exe = ''python''\<rparr>"

definition ex_child :: py where
  "ex_child = ex_py\<lparr>py_authkey := [], py_log_to_stderr := False, py_logger := None, py_path := [], py_argv := [''-c'', FORK_FLAG], py_cwd := ''/'',
     py_orig := Some ''/'', py_ctx := \<lparr>cx_actual = None, cx_spawning = (\<lambda>_. None)\<rparr>,
     py_main := \<lparr>mo_spec = None, mo_file = None, mo_name = ''__main__''\<rparr>\<rparr>"

definition ex_linux :: platform where
  "ex_linux = \<lparr>pl_win32 = False, pl_darwin = False, pl_send_handle = True, pl_frozen = False, pl_supports_exec = True\<rparr>"

definition ex_runner :: runner where
  "ex_runner = \<lparr>ru_module = (\<lambda>n s. (Inr \<lparr>mo_spec = Some n, mo_file = None, mo_name = ''__mp_main__''\<rparr>, s)),
     ru_path = (\<lambda>p s. (Inr \<lparr>mo_spec = None, mo_file = Some p, mo_name = ''__mp_main__''\<rparr>, s)), ru_chdir = (\<lambda>_. None)\<rparr>"


theorem main_module_once_witness:
  "bindA (fixup_main_from_path (ru_path ex_runner) ''/a/b.py'') (\<lambda>_. fixup_main_from_path (ru_path ex_runner) ''/a/b.py'') ex_child =
    fixup_main_from_path (ru_path ex_runner) ''/a/b.py'' ex_child \<and> ru_path ex_runner ''/a/b.py'' ex_child \<noteq> (Inl ValueError, ex_child)"
proof -
  have 1: "\<exists>m. ru_path ex_runner ''/a/b.py'' t = (Inr m, t) \<and> mo_file m = Some ''/a/b.py''"
    "\<exists>m. ru_module ex_runner ''a.b'' t = (Inr m, t) \<and> mo_spec m = Some ''a.b''" for t by (simp_all add: ex_runner_def)
  have "ru_path ex_runner ''/a/b.py'' ex_child \<noteq> (Inl ValueError, ex_child)" by (simp add: ex_runner_def)
  with main_module_once [OF 1, of ex_child] show ?thesis by blast
qed

theorem unguarded_main_refused_witness:
  "\<exists>d s'. d_main_path d = Some ''/home/run.py'' \<and>
    child_main ex_linux (ex_runner\<lparr>ru_path := (\<lambda>p. if p = ''/home/run.py'' then bindA (get_preparation_data ex_linux ''x'') (\<lambda>_. raise ValueError) else raise KeyError)\<rparr>)
      (Inr d) (ret ()) (\<lambda>_. ret 0) ex_child = (Inl RuntimeError, s') \<and> \<not> py_inheriting s'"
proof -
  let ?ru = "ex_runner\<lparr>ru_path := (\<lambda>p. if p = ''/home/run.py'' then bindA (get_preparation_data ex_linux ''x'') (\<lambda>_. raise ValueError) else raise KeyError)\<rparr>"
  let ?d = "\<lparr>d_log_to_stderr = None, d_authkey = None, d_log_level = None, d_name = None, d_sys_path = None, d_sys_argv = None,
     d_orig_dir = None, d_dir = None, d_start_method = Some ''spawn'', d_main_name = None, d_main_path = Some ''/home/run.py''\<rparr>"
  have "stem (snd (path_split ''/home/run.py'')) \<noteq> ''ipython''" by code_simp
  from unguarded_main_refused [where d = ?d and path = "''/home/run.py''" and ru = ?ru and s = ex_child and pl = ex_linux, OF _ _ this, of "''x''" "raise ValueError"]
  obtain s' where "child_main ex_linux ?ru (Inr ?d) (ret ()) (\<lambda>_. ret 0) ex_child = (Inl RuntimeError, s')" "\<not> py_inheriting s'"
    by (fastforce simp: ex_child_def ex_runner_def ex_linux_def get_all_start_methods_def)
  then show ?thesis by (intro exI [of _ ?d]) simp
qed

section \<open>What does not reach the child\<close>

text \<open>
  A child whose default context already has a start method (a process of the fork server, when a preloaded module has
  used the default context) cannot be prepared: \<open>prepare\<close> sets the method without force and fails with \<open>RuntimeError\<close>, for every
  child of that server, after the settings before it have been made and before the main module is looked at.
\<close>

theorem prepare_needs_fresh_context:
  assumes "cx_actual (py_ctx s) = Some c" "d_start_method d = Some m" "\<And>c. ru_chdir ru c = None"
  shows "\<exists>s'. prepare pl ru d s = (Inl RuntimeError, s') \<and> py_main s' = py_main s \<and> cx_actual (py_ctx s') = Some c"
proof -
  let ?I = "\<lambda>t. py_main t = py_main s \<and> py_ctx t = py_ctx s"
  have set: "wp (set_start_method pl Default (Some m) None) Q E x = E RuntimeError x" if "cx_actual x = Some c" for Q E and x :: "nat ctx"
    using that by (simp add: wp_def act_defs)
  have "wp (prepare pl ru d) (\<lambda>_ _. False) (\<lambda>x t. x = RuntimeError \<and> ?I t) s"
    unfolding prepare_def
    apply (rule wp_seq [where I = ?I], rule wp_given_I, (simp; fail),
        (simp add: wp_simps log_to_stderr_def get_logger_def assms(3) del: set_start_method.simps; fail))+
    using assms(1,2) by (simp add: wp_bind wp_given wp_ctx_act set del: set_start_method.simps)
  then show ?thesis using assms(1) by (auto simp: wp_def split: prod.splits sum.splits)
qed

theorem prepare_needs_fresh_context_witness:
  "\<exists>d s'. d_main_path d = Some ''/home/run.py'' \<and> prepare ex_linux ex_runner d (ex_child\<lparr>py_ctx := \<lparr>cx_actual = Some ForkContext, cx_spawning = (\<lambda>_. None)\<rparr>\<rparr>) =
    (Inl RuntimeError, s') \<and> py_main s' = py_main ex_child"
proof -
  let ?d = "\<lparr>d_log_to_stderr = None, d_authkey = None, d_log_level = None, d_name = None, d_sys_path = None, d_sys_argv = None,
     d_orig_dir = None, d_dir = None, d_start_method = Some ''forkserver'', d_main_name = None, d_main_path = Some ''/home/run.py''\<rparr>"
  let ?s = "ex_child\<lparr>py_ctx := \<lparr>cx_actual = Some ForkContext, cx_spawning = (\<lambda>_. None)\<rparr>\<rparr>"
  have "cx_actual (py_ctx ?s) = Some ForkContext" "d_start_method ?d = Some ''forkserver''" "\<And>c. ru_chdir ex_runner c = None"
    by (simp_all add: ex_runner_def)
  from prepare_needs_fresh_context [OF this, of ex_linux] obtain s' where "prepare ex_linux ex_runner ?d ?s = (Inl RuntimeError, s')"
    "py_main s' = py_main ?s" by blast
  then show ?thesis by (intro exI [of _ ?d] exI [of _ s']) simp
qed

text \<open>The dictionary never has a key \<open>main_path\<close>, the one the fork server looks for to preload the main module.\<close>

lemma no_main_path_key: "''main_path'' \<notin> set (prep_keys d)"
  by (simp add: prep_keys_def)

text \<open>What \<open>_Django_old_layout_hack__load\<close> appends to the module search path is gone after \<open>prepare\<close>.\<close>

lemma django_path_lost:
  assumes "cx_actual (py_ctx s) = None" "harmless ru" "d_sys_path d = Some path" "d_start_method d = Some m" "m \<in> set (get_all_start_methods pl)"
  shows "wp (bindA django_load (\<lambda>_. prepare pl ru d)) (\<lambda>_ t. py_path t = path) (\<lambda>_ _. False) s"
proof -
  let ?J = "\<lambda>t. cx_actual (py_ctx t) = None"
  let ?I = "\<lambda>t. cx_actual (py_ctx t) = None \<and> py_path t = path"
  have ch: "ru_chdir ru c = None" for c using assms(2) by (simp add: harmless_def)
  have "fst (set_start_method pl Default (Some m) None c) = Inr ()" if "cx_actual c = None" for c :: "nat ctx"
    using listed_methods [of c pl m] that assms(5) by simp
  then have set: "wp (set_start_method pl Default (Some m) None) P F c" if "cx_actual c = None" "\<And>c. P () c" for P F and c :: "nat ctx"
    using that unfolding wp_def by (metis (mono_tags, lifting) case_prod_beta old.sum.simps(6))
  have "wp (prepare pl ru d) (\<lambda>_ t. py_path t = path) (\<lambda>_ _. False) t" if "?J t" for t
    unfolding prepare_def assms(3,4)
    apply (rule wp_seq [where I = ?J], rule wp_given_I, simp add: that,
        (simp add: that wp_simps log_to_stderr_def get_logger_def ch del: set_start_method.simps; fail))
    apply (rule wp_seq [where I = ?J], rule wp_given_I, (simp; fail),
        (simp add: wp_simps log_to_stderr_def get_logger_def ch del: set_start_method.simps; fail))
    apply (rule wp_seq [where I = ?J], rule wp_given_I, (simp; fail),
        (simp add: wp_simps log_to_stderr_def get_logger_def ch del: set_start_method.simps; fail))
    apply (rule wp_seq [where I = ?J], rule wp_given_I, (simp; fail),
        (simp add: wp_simps log_to_stderr_def get_logger_def ch del: set_start_method.simps; fail))
    apply (rule wp_seq [where I = ?I], (simp add: wp_simps wp_given; fail))
    apply (rule wp_seq [where I = ?I], rule wp_given_I, (simp; fail), (simp add: wp_simps ch; fail))+
    apply (rule wp_seq [where I = "\<lambda>t. py_path t = path"], simp only: wp_given option.case wp_ctx_act, rule set, simp, simp)
    by (auto simp: wp_given intro!: wp_fixup [OF assms(2)] split: option.split)
  then show ?thesis using assms(1) by (auto simp: django_load_def wp_simps split: option.split)
qed

end
