(* ===== verification/Compat.thy ===== *)
theory Compat
  imports Spawning Connection "HOL-Library.Sublist"
begin

text \<open>
  \<open>billiard/compat.py\<close>: the descriptors of a process and closing all of them but some, in both ways (from the directory that lists the
  open ones and from the largest possible number), \<open>spawnv_passfds\<close> where \<open>_posixsubprocess\<close> is missing, the blocking flag of a descriptor,
  and the codec of file names where \<open>os\<close> has none. What the system answers is a parameter; the open descriptors are a set.
\<close>

section \<open>File names, offsets, errors\<close>

datatype fname = FBytes bytes | FStr string | FOther

definition fsencode :: "(string \<Rightarrow> exn + bytes) \<Rightarrow> fname \<Rightarrow> exn + bytes" where
  "fsencode encode f = (case f of FBytes b \<Rightarrow> Inr b | FStr s \<Rightarrow> encode s | FOther \<Rightarrow> Inl TypeError)"

definition fsdecode :: "(bytes \<Rightarrow> exn + string) \<Rightarrow> fname \<Rightarrow> exn + string" where
  "fsdecode decode f = (case f of FStr s \<Rightarrow> Inr s | FBytes b \<Rightarrow> decode b | FOther \<Rightarrow> Inl TypeError)"

definition send_offset :: "(bytes \<Rightarrow> exn + nat) option \<Rightarrow> bytes \<Rightarrow> nat \<Rightarrow> exn + nat" where
  "send_offset write buf offset = (case write of None \<Rightarrow> Inl NotImplementedError | Some w \<Rightarrow> w (drop offset buf))"

text \<open>What may stand for a descriptor: a number, or an object whose \<open>fileno\<close> gives one or raises.\<close>

datatype fobj = Number int | HasFileno "exn + int" | NoFileno

definition maybe_fileno :: "fobj \<Rightarrow> exn + int option" where
  "maybe_fileno f =
     (case f of
        Number n \<Rightarrow> Inr (Some n)
      | NoFileno \<Rightarrow> Inr None
      | HasFileno r \<Rightarrow> (case r of Inr n \<Rightarrow> Inr (Some n)
          | Inl e \<Rightarrow> if e = AttributeError \<or> e = ValueError then Inr None else Inl e))"

definition get_errno :: "exn \<Rightarrow> int" where
  "get_errno e = (case e of OSError n \<Rightarrow> n | _ \<Rightarrow> 0)"

section \<open>The descriptors of a process\<close>

text \<open>
  \<open>sysconf\<close> is the answer of \<open>os.sysconf\<close>; \<open>limit\<close> is the hard limit, \<open>None\<close> without the module \<open>resource\<close> and
  \<open>Some None\<close> when there is no limit.
\<close>

definition get_fdmax :: "exn + int \<Rightarrow> int option option \<Rightarrow> int option \<Rightarrow> int option" where
  "get_fdmax sysconf limit dflt =
     (case sysconf of Inr n \<Rightarrow> Some n | Inl _ \<Rightarrow>
       (case limit of None \<Rightarrow> dflt | Some None \<Rightarrow> dflt | Some (Some n) \<Rightarrow> Some n))"

fun uniq_seen :: "'a set \<Rightarrow> 'a list \<Rightarrow> 'a list" where
  "uniq_seen seen [] = []"
| "uniq_seen seen (x # xs) = (if x \<in> seen then uniq_seen seen xs else x # uniq_seen (insert x seen) xs)"

definition uniq :: "'a list \<Rightarrow> 'a list" where
  "uniq xs = uniq_seen {} xs"

definition isdigits :: "string \<Rightarrow> bool" where
  "isdigits s \<longleftrightarrow> s \<noteq> [] \<and> (\<forall>c \<in> set s. digit_val c \<noteq> None)"

text \<open>\<open>_open_fds\<close>; \<open>listing\<close> is what \<open>os.listdir\<close> gives, and \<open>fdescfs\<close> whether the directory can be trusted.\<close>

definition open_fds :: "bool \<Rightarrow> exn + string list \<Rightarrow> exn + int list option" where
  "open_fds fdescfs listing =
     (if \<not> fdescfs then Inr None
      else case listing of
          Inl (OSError n) \<Rightarrow> Inr None
        | Inl e \<Rightarrow> Inl e
        | Inr names \<Rightarrow> Inr (Some (sort (map (\<lambda>s. the (parse_int s)) (filter isdigits names)))))"

text \<open>\<open>os.close\<close> and \<open>os.closerange\<close> on the set of open descriptors; an error of \<open>close\<close> is ignored.\<close>

definition closerange :: "int \<Rightarrow> int \<Rightarrow> int set \<Rightarrow> int set" where
  "closerange low high fds = fds - {low ..< high}"

fun close_gaps :: "int \<Rightarrow> int list \<Rightarrow> int set \<Rightarrow> int set" where
  "close_gaps low [] fds = fds"
| "close_gaps low (high # hs) fds = close_gaps high hs (if low + 1 \<noteq> high then closerange (low + 1) high fds else fds)"

fun filenos :: "fobj list \<Rightarrow> exn + int list" where
  "filenos [] = Inr []"
| "filenos (f # fs) =
     (case maybe_fileno f of Inl e \<Rightarrow> Inl e
      | Inr n \<Rightarrow> (case filenos fs of Inl e \<Rightarrow> Inl e | Inr ns \<Rightarrow> Inr (case n of None \<Rightarrow> ns | Some k \<Rightarrow> k # ns)))"

definition close_open_fds :: "fobj list option \<Rightarrow> exn + int list option \<Rightarrow> int \<Rightarrow> (int set, unit) act" where
  "close_open_fds keep0 fds maxfd =
     (case filenos (case keep0 of None \<Rightarrow> [] | Some ks \<Rightarrow> ks) of
        Inl e \<Rightarrow> raise e
      | Inr ks \<Rightarrow>
          let keep = uniq (sort ks) in
          (case fds of
             Inl e \<Rightarrow> raise e
           | Inr (Some open_list) \<Rightarrow> modifyA (\<lambda>s. fold (\<lambda>fd s. if fd \<in> set keep then s else s - {fd}) open_list s)
           | Inr None \<Rightarrow> modifyA (close_gaps (- 1) (keep @ [maxfd]))))"

text \<open>\<open>uniq\<close> keeps the first of equal elements, in order.\<close>

lemma uniq_seen_set: "set (uniq_seen seen xs) = set xs - seen"
  by (induction xs arbitrary: seen) auto

lemma uniq_seen_distinct: "distinct (uniq_seen seen xs)"
  by (induction xs arbitrary: seen) (auto simp: uniq_seen_set)

lemma uniq_seen_subseq: "subseq (uniq_seen seen xs) xs"
  by (induction xs arbitrary: seen) auto

lemma uniq_sorted: "sorted xs \<Longrightarrow> sorted (uniq_seen seen xs)"
  by (induction xs arbitrary: seen) (auto simp: uniq_seen_set)

lemma uniq_facts: "set (uniq xs) = set xs" "distinct (uniq xs)" "subseq (uniq xs) xs"
  by (simp_all add: uniq_def uniq_seen_set uniq_seen_distinct uniq_seen_subseq)

lemma close_listed: "fold (\<lambda>fd s. if fd \<in> K then s else s - {fd}) fds s = s - (set fds - K)"
  by (induction fds arbitrary: s) auto

text \<open>The gaps between the descriptors to keep: what is not kept is closed, up to the limit and to the last one kept.\<close>

lemma close_gaps_eq:
  "sorted (low # ks) \<Longrightarrow> distinct (low # ks) \<Longrightarrow>
   close_gaps low (ks @ [m]) s = s - {x. low < x \<and> x \<notin> set ks \<and> (x < m \<or> (\<exists>k \<in> set ks. x < k))}"
proof (induction ks arbitrary: low s)
  case Nil
  then show ?case by (auto simp: closerange_def)
next
  case (Cons h hs)
  have lh: "low < h" and hs: "\<forall>x \<in> set hs. h < x" using Cons.prems by (auto simp: order.strict_iff_order)
  have g: "(if low + 1 \<noteq> h then closerange (low + 1) h s else s) = s - {low <..< h}"
    using lh by (auto simp: closerange_def)
  have "close_gaps h (hs @ [m]) (s - {low <..< h}) =
      s - {low <..< h} - {x. h < x \<and> x \<notin> set hs \<and> (x < m \<or> (\<exists>k \<in> set hs. x < k))}"
    by (rule Cons.IH) (use Cons.prems in auto)
  also have "\<dots> = s - {x. low < x \<and> x \<notin> set (h # hs) \<and> (x < m \<or> (\<exists>k \<in> set (h # hs). x < k))}"
    using lh hs by (fastforce intro: less_trans)
  finally show ?case using g by simp
qed

lemma parse_names: "open_fds True (Inr (map digits ns)) = Inr (Some (sort (map int ns)))"
proof -
  have "digit_val c \<noteq> None" if "c \<in> set (digits n)" for c n using digits_chars [OF that] by (simp add: Let_def)
  then have "filter isdigits (map digits ns) = map digits ns" by (auto simp: isdigits_def digits_nonempty filter_id_conv)
  then show ?thesis by (simp add: open_fds_def parse_int_digits comp_def)
qed

text \<open>
  C34. The two ways of closing descriptors agree, and leave exactly those to keep: with the directory that lists the open ones and with
  the range of numbers, for any objects that stand for descriptors, in any order, with repetitions, and also above the limit.
\<close>

theorem close_ways_agree:
  assumes ks: "filenos (case keep of None \<Rightarrow> [] | Some fs \<Rightarrow> fs) = Inr ks" "\<forall>k \<in> set ks. 0 \<le> k"
    and s: "s \<subseteq> {0 ..< maxfd} \<union> set ks" "s \<subseteq> int ` set ns"
  shows "close_open_fds keep (open_fds True (Inr (map digits ns))) maxfd s = (Inr (), s \<inter> set ks) \<and>
    close_open_fds keep (open_fds False listing) maxfd s = (Inr (), s \<inter> set ks)"
proof -
  have u: "set (uniq (sort ks)) = set ks" "distinct (uniq (sort ks))" "sorted (uniq (sort ks))"
    using uniq_facts [of "sort ks"] uniq_sorted [of "sort ks" "{}"] by (simp_all add: uniq_def)
  have "close_open_fds keep (open_fds True (Inr (map digits ns))) maxfd s = (Inr (), s - (set (map int ns) - set ks))"
    unfolding parse_names close_open_fds_def ks(1) by (simp add: Let_def modifyA_def close_listed u)
  moreover have "s - (set (map int ns) - set ks) = s \<inter> set ks" using s(2) by auto
  moreover have "close_open_fds keep (open_fds False listing) maxfd s =
      (Inr (), s - {x. - 1 < x \<and> x \<notin> set ks \<and> (x < maxfd \<or> (\<exists>k \<in> set ks. x < k))})"
  proof -
    have "sorted (- 1 # uniq (sort ks))" "distinct (- 1 # uniq (sort ks))" using u ks(2) by fastforce+
    from close_gaps_eq [OF this, of maxfd s] show ?thesis
      unfolding close_open_fds_def ks(1) open_fds_def by (simp add: Let_def modifyA_def u(1))
  qed
  moreover have "s - {x. - 1 < x \<and> x \<notin> set ks \<and> (x < maxfd \<or> (\<exists>k \<in> set ks. x < k))} = s \<inter> set ks" using s(1) by auto
  ultimately show ?thesis by simp
qed

theorem close_ways_agree_witness:
  "close_open_fds (Some [Number 4, HasFileno (Inl ValueError), Number 1, Number 4]) (open_fds True (Inr (map digits [0, 1, 12, 4, 5]))) 16 {0, 1, 4, 12} =
     (Inr (), {1, 4}) \<and>
   close_open_fds (Some [Number 4, HasFileno (Inl ValueError), Number 1, Number 4]) (open_fds False (Inr [])) 16 {0, 1, 4, 12} = (Inr (), {1, 4})"
proof -
  let ?k = "Some [Number 4, HasFileno (Inl ValueError), Number 1, Number 4]"
  have k: "filenos (case ?k of None \<Rightarrow> [] | Some fs \<Rightarrow> fs) = Inr [4, 1, 4]" by (simp add: maybe_fileno_def)
  have "{0, 1, 4, 12} \<subseteq> {0 ..< 16} \<union> set [4, 1, 4 :: int]" "{0, 1, 4, 12} \<subseteq> int ` set [0, 1, 12, 4, 5]" by auto
  from close_ways_agree [OF k _ this, of "Inr []"] show ?thesis by (simp add: insert_commute Int_insert_left)
qed

section \<open>\<open>spawnv_passfds\<close> without \<open>_posixsubprocess\<close>\<close>

text \<open>\<open>out\<close> and \<open>err\<close> are \<open>sys.stdout\<close> and \<open>sys.stderr\<close>; the result is what stays open in the child when it runs the program.\<close>

definition fallback_keep :: "bool \<Rightarrow> fobj \<Rightarrow> fobj \<Rightarrow> int list \<Rightarrow> exn + int list" where
  "fallback_keep posix out err passfds =
     (case (if posix then (case maybe_fileno out of Inl e \<Rightarrow> Inl e
         | Inr o1 \<Rightarrow> (case maybe_fileno err of Inl e \<Rightarrow> Inl e | Inr e1 \<Rightarrow> Inr [o1, e1])) else Inr []) of
        Inl e \<Rightarrow> Inl e
      | Inr std \<Rightarrow> Inr (sort (map the (filter (\<lambda>f. f \<noteq> None \<and> f \<noteq> Some 0) (map Some passfds @ std)))))"

definition fallback_child :: "bool \<Rightarrow> fobj \<Rightarrow> fobj \<Rightarrow> int list \<Rightarrow> exn + int list option \<Rightarrow> int \<Rightarrow> int set \<Rightarrow> exn + int set" where
  "fallback_child posix out err passfds fds maxfd s =
     (case fallback_keep posix out err passfds of
        Inl e \<Rightarrow> Inl e
      | Inr keep \<Rightarrow> (case close_open_fds (Some (map Number keep)) fds maxfd s of (Inl e, _) \<Rightarrow> Inl e | (Inr _, s') \<Rightarrow> Inr s'))"

lemma filenos_numbers: "filenos (map Number ks) = Inr ks"
  by (induction ks) (simp_all add: maybe_fileno_def)

lemma truthy: "map the (filter (\<lambda>f. f \<noteq> None \<and> f \<noteq> Some 0) (map Some xs)) = filter (\<lambda>x. x \<noteq> (0 :: int)) xs"
  by (induction xs) auto

text \<open>The descriptor 0 is closed in the child, also when it is to be passed: the test for a missing one takes 0 for none.\<close>

lemma fallback_drops_stdin:
  assumes "\<forall>k \<in> set passfds. 0 \<le> k" "0 \<le> o1" "0 \<le> e1" "s \<subseteq> {0 ..< maxfd}"
  shows "fallback_child True (Number o1) (Number e1) passfds (open_fds False listing) maxfd s = Inr (s \<inter> (set passfds \<union> {o1, e1}) - {0})"
proof -
  let ?ks = "sort (map the (filter (\<lambda>f. f \<noteq> None \<and> f \<noteq> Some 0) (map Some passfds @ [Some o1, Some e1])))"
  have k: "fallback_keep True (Number o1) (Number e1) passfds = Inr ?ks" by (simp add: fallback_keep_def maybe_fileno_def)
  have set: "set ?ks = (set passfds \<union> {o1, e1}) - {0}" 
    using truthy [of "passfds @ [o1, e1]"] unfolding map_append list.map by (simp only: set_sort set_filter set_append list.set) auto
  have u: "set (uniq (sort ?ks)) = set ?ks" "distinct (uniq (sort ?ks))" "sorted (uniq (sort ?ks))"
    using uniq_facts [of "sort ?ks"] uniq_sorted [of "sort ?ks" "{}"] by (simp_all add: uniq_def del: set_map)
  have "sorted (- 1 # uniq (sort ?ks))" "distinct (- 1 # uniq (sort ?ks))" using u set assms(1-3) by fastforce+
  from close_gaps_eq [OF this, of maxfd s]
  have c: "close_open_fds (Some (map Number ?ks)) (open_fds False listing) maxfd s =
      (Inr (), s - {x. - 1 < x \<and> x \<notin> set ?ks \<and> (x < maxfd \<or> (\<exists>k \<in> set ?ks. x < k))})"
    unfolding close_open_fds_def option.case filenos_numbers open_fds_def by (simp only: Let_def modifyA_def u(1) sum.case option.case if_True not_False_eq_True)
  have "s - {x. - 1 < x \<and> x \<notin> set ?ks \<and> (x < maxfd \<or> (\<exists>k \<in> set ?ks. x < k))} = s \<inter> (set passfds \<union> {o1, e1}) - {0}"
    unfolding set using assms(4) by auto
  then show ?thesis unfolding fallback_child_def k c sum.case prod.case by simp
qed

section \<open>The blocking flag\<close>

text \<open>\<open>flags\<close> are the status flags of a descriptor, \<open>nb\<close> is \<open>O_NONBLOCK\<close>.\<close>

definition isblocking :: "32 word \<Rightarrow> 32 word \<Rightarrow> bool" where
  "isblocking nb flags \<longleftrightarrow> flags AND nb = 0"

definition setblocking :: "32 word \<Rightarrow> bool \<Rightarrow> 32 word \<Rightarrow> 32 word" where
  "setblocking nb blocking flags = (if blocking then flags AND NOT nb else flags OR nb)"

lemma setblocking_only:
  "nb \<noteq> 0 \<Longrightarrow> isblocking nb (setblocking nb b flags) = b"
  "setblocking nb b flags AND NOT nb = flags AND NOT nb"
  by (cases b; auto simp: isblocking_def setblocking_def bit_eq_iff bit_simps)+

end
