(* ===== verification/Barrier.thy ===== *)
theory Barrier
  imports Prelude
begin

text \<open>
  \<open>Barrier\<close> of \<open>billiard/synchronize.py\<close>: the barrier of the standard library with its two numbers \<open>_state\<close> and \<open>_count\<close> in shared memory and a
  \<open>Condition\<close> of this package. Its methods run under the lock of the condition, so a thread is seen only where it waits or has left.
\<close>

section \<open>The barrier\<close>

text \<open>
  \<open>_state\<close> is 0 (filling), 1 (draining), -1 (resetting) or -2 (broken). The threads that wait in \<open>_wait\<close>, with their index, and those
  that wait in \<open>_enter\<close> are those of the condition. \<open>b_rounds\<close> lists, for each release, who was inside, and \<open>b_passed\<close> who has returned, in which round
  and with which index: these two only the properties read.
\<close>

record barrier =
  b_parties :: int
  b_state :: int
  b_count :: int
  b_inside :: "(nat \<times> int) list"
  b_entering :: "nat list"
  b_rounds :: "nat list list"
  b_passed :: "(nat \<times> nat \<times> int) list"

definition Barrier :: "int \<Rightarrow> barrier" where
  "Barrier parties = \<lparr>b_parties = parties, b_state = 0, b_count = 0, b_inside = [], b_entering = [], b_rounds = [], b_passed = []\<rparr>"

definition b_break :: "(barrier, unit) act" where
  "b_break = modifyA (\<lambda>s. s\<lparr>b_state := - 2\<rparr>)"

definition b_exit :: "(barrier, unit) act" where
  "b_exit = readA (\<lambda>s. whenA (b_count s = 0) (whenA (b_state s = - 1 \<or> b_state s = 1) (modifyA (\<lambda>s. s\<lparr>b_state := 0\<rparr>))))"

text \<open>The \<open>finally\<close> of \<open>wait\<close>.\<close>

definition leaving :: "nat \<Rightarrow> (barrier, 'a) act \<Rightarrow> (barrier, 'a) act" where
  "leaving t m = finallyA m (bindA (modifyA (\<lambda>s. s\<lparr>b_count := b_count s - 1, b_inside := filter (\<lambda>(u, _). u \<noteq> t) (b_inside s)\<rparr>)) (\<lambda>_. b_exit))"

text \<open>\<open>_release\<close>; \<open>action\<close> is what the user's action raises.\<close>

definition b_release :: "exn option \<Rightarrow> (barrier, unit) act" where
  "b_release action =
     (case action of
        None \<Rightarrow> modifyA (\<lambda>s. s\<lparr>b_state := 1, b_rounds := b_rounds s @ [map fst (b_inside s)]\<rparr>)
      | Some e \<Rightarrow> bindA b_break (\<lambda>_. raise e))"

definition passes :: "nat \<Rightarrow> int \<Rightarrow> (barrier, int) act" where
  "passes t i = bindA (modifyA (\<lambda>s. s\<lparr>b_passed := b_passed s @ [(t, length (b_rounds s) - 1, i)]\<rparr>)) (\<lambda>_. ret i)"

text \<open>\<open>_enter\<close> and the rest of \<open>wait\<close> up to the point where the thread leaves or waits; \<open>Blocks\<close> is a thread that waits.\<close>

definition b_enter :: "nat \<Rightarrow> (barrier, unit) act" where
  "b_enter t = readA (\<lambda>s.
     if b_state s = - 1 \<or> b_state s = 1 then bindA (modifyA (\<lambda>s. s\<lparr>b_entering := List.insert t (b_entering s)\<rparr>)) (\<lambda>_. raise Blocks)
     else bindA (modifyA (\<lambda>s. s\<lparr>b_entering := removeAll t (b_entering s)\<rparr>)) (\<lambda>_.
       bindA (assertA (\<lambda>s. b_state s \<ge> 0) RuntimeError) (\<lambda>_. assertA (\<lambda>s. b_state s = 0) AssertionError)))"

definition b_wait :: "exn option \<Rightarrow> nat \<Rightarrow> (barrier, int) act" where
  "b_wait action t =
     bindA (b_enter t) (\<lambda>_. readA (\<lambda>s. let index = b_count s in
     bindA (modifyA (\<lambda>s. s\<lparr>b_count := b_count s + 1, b_inside := b_inside s @ [(t, index)]\<rparr>)) (\<lambda>_.
     if index + 1 = b_parties s then leaving t (bindA (b_release action) (\<lambda>_. passes t index))
     else raise Blocks)))"

text \<open>A thread inside is woken, or its time is up: the predicate is looked at again before the time counts.\<close>

definition b_woken :: "bool \<Rightarrow> nat \<Rightarrow> int \<Rightarrow> (barrier, int) act" where
  "b_woken timed_out t i = readA (\<lambda>s.
     if b_state s = 0 then (if timed_out then leaving t (bindA b_break (\<lambda>_. raise RuntimeError)) else raise Blocks)
     else leaving t (bindA (assertA (\<lambda>s. b_state s \<ge> 0) RuntimeError) (\<lambda>_. bindA (assertA (\<lambda>s. b_state s = 1) AssertionError) (\<lambda>_. passes t i))))"

definition b_reset :: "(barrier, unit) act" where
  "b_reset = readA (\<lambda>s.
     if b_count s > 0 then whenA (b_state s = 0 \<or> b_state s = - 2) (modifyA (\<lambda>s. s\<lparr>b_state := - 1\<rparr>))
     else modifyA (\<lambda>s. s\<lparr>b_state := 0\<rparr>))"

definition b_abort :: "(barrier, unit) act" where
  "b_abort = b_break"

datatype bevent = BWait nat "exn option" | BWoken nat bool "exn option" | BReset | BAbort

fun b_step :: "bevent \<Rightarrow> barrier \<Rightarrow> barrier" where
  "b_step (BWait t action) s = (if t \<in> set (map fst (b_inside s)) \<union> set (b_entering s) then s else snd (b_wait action t s))"
| "b_step (BWoken t timed_out action) s =
     (case map_of (b_inside s) t of
        Some i \<Rightarrow> snd (b_woken timed_out t i s)
      | None \<Rightarrow> if t \<in> set (b_entering s) then snd (b_wait action t s) else s)"
| "b_step BReset s = snd (b_reset s)"
| "b_step BAbort s = snd (b_abort s)"

lemmas b_defs = b_break_def b_exit_def leaving_def b_release_def passes_def b_enter_def b_wait_def b_woken_def b_reset_def b_abort_def

section \<open>The invariant\<close>

definition shape :: "barrier \<Rightarrow> bool" where
  "shape s \<longleftrightarrow> b_count s = int (length (b_inside s)) \<and> distinct (map fst (b_inside s)) \<and> distinct (map snd (b_inside s)) \<and>
     b_state s \<in> {0, 1, - 1, - 2} \<and> (b_state s = 0 \<longrightarrow> map snd (b_inside s) = map int [0..<length (b_inside s)])"

text \<open>While it drains: who is inside has not passed in this round, but for the threads in \<open>X\<close>, which are about to leave.\<close>

definition not_passed :: "nat \<Rightarrow> int \<Rightarrow> barrier \<Rightarrow> bool" where
  "not_passed t i s \<longleftrightarrow> (\<forall>(u, r, k) \<in> set (b_passed s). r = length (b_rounds s) - 1 \<longrightarrow> u \<noteq> t \<and> k \<noteq> i)"

definition draining :: "nat set \<Rightarrow> barrier \<Rightarrow> bool" where
  "draining X s \<longleftrightarrow> b_state s = 1 \<longrightarrow> b_rounds s \<noteq> [] \<and>
     (\<forall>(t, i) \<in> set (b_inside s). t \<in> set (last (b_rounds s)) \<and> 0 \<le> i \<and> i < b_parties s \<and> (t \<in> X \<or> not_passed t i s))"

definition record_ok :: "int \<Rightarrow> nat list list \<Rightarrow> (nat \<times> nat \<times> int) list \<Rightarrow> bool" where
  "record_ok n rounds passed \<longleftrightarrow> (\<forall>ts \<in> set rounds. int (length ts) = n \<and> distinct ts) \<and>
     (\<forall>(t, r, i) \<in> set passed. r < length rounds \<and> t \<in> set (rounds ! r) \<and> 0 \<le> i \<and> i < n) \<and>
     distinct (map (\<lambda>(t, r, i). (r, t)) passed) \<and> distinct (map (\<lambda>(t, r, i). (r, i)) passed)"

definition b_inv :: "nat set \<Rightarrow> barrier \<Rightarrow> bool" where
  "b_inv X s \<longleftrightarrow> shape s \<and> draining X s \<and> record_ok (b_parties s) (b_rounds s) (b_passed s)"

definition left :: "nat \<Rightarrow> barrier \<Rightarrow> barrier" where
  "left t s = (let s = s\<lparr>b_count := b_count s - 1, b_inside := filter (\<lambda>(u, _). u \<noteq> t) (b_inside s)\<rparr>
     in if b_count s = 0 \<and> (b_state s = - 1 \<or> b_state s = 1) then s\<lparr>b_state := 0\<rparr> else s)"

lemma leaving_eq: "leaving t m s = (fst (m s), left t (snd (m s)))"
  by (cases "m s") (simp add: leaving_def b_exit_def left_def act_defs Let_def)

lemma filter_out:
  assumes "distinct (map fst xs)" "(t, i) \<in> set xs"
  shows "length (filter (\<lambda>(u, _). u \<noteq> t) xs) = length xs - 1"
proof -
  from assms(1) have eq: "x = (t, i)" if "x \<in> set xs" "fst x = t" for x
    using that assms(2) by (auto simp: distinct_map dest: inj_onD [where x = x and y = "(t, i)"])
  then have "filter (\<lambda>(u, _). u \<noteq> t) xs = filter (\<lambda>x. x \<noteq> (t, i)) xs"
    by (intro filter_cong) auto
  also have "\<dots> = remove1 (t, i) xs"
    using assms(1) by (simp add: distinct_map distinct_remove1_removeAll removeAll_filter_not_eq eq_commute)
  finally show ?thesis using assms(2) by (simp add: length_remove1)
qed

lemma distinct_map_filter: "distinct (map g xs) \<Longrightarrow> distinct (map g (filter P xs))"
  by (simp add: distinct_map inj_on_def)

lemma left_fields:
  "b_parties (left t s) = b_parties s" "b_rounds (left t s) = b_rounds s" "b_passed (left t s) = b_passed s"
  "b_inside (left t s) = filter (\<lambda>(u, _). u \<noteq> t) (b_inside s)" "b_count (left t s) = b_count s - 1"
  "b_state (left t s) = (if b_count s = 1 \<and> (b_state s = - 1 \<or> b_state s = 1) then 0 else b_state s)"
  by (auto simp: left_def Let_def)

lemma left_inv:
  assumes inv: "b_inv {t} s" and t: "(t, i) \<in> set (b_inside s)" and state: "b_state s \<noteq> 0"
  shows "b_inv {} (left t s)"
proof -
  have sh: "shape s" and dr: "draining {t} s" and rc: "record_ok (b_parties s) (b_rounds s) (b_passed s)"
    using inv by (simp_all add: b_inv_def)
  have "length (b_inside s) \<ge> 1" using t by (cases "b_inside s") auto
  then have len: "int (length (filter (\<lambda>(u, _). u \<noteq> t) (b_inside s))) = b_count s - 1"
    using filter_out [OF _ t] sh by (simp add: shape_def)
  have empty: "filter (\<lambda>(u, _). u \<noteq> t) (b_inside s) = []" if "b_count s = 1" using that len by simp
  have "shape (left t s)"
    using sh state len empty unfolding shape_def left_fields by (auto simp: distinct_map_filter)
  moreover have "draining {} (left t s)"
    using dr unfolding draining_def left_fields not_passed_def by auto
  moreover have "record_ok (b_parties (left t s)) (b_rounds (left t s)) (b_passed (left t s))"
    using rc by (simp add: left_fields)
  ultimately show ?thesis by (simp add: b_inv_def)
qed

definition pass_log :: "nat \<Rightarrow> int \<Rightarrow> barrier \<Rightarrow> barrier" where
  "pass_log t i s = s\<lparr>b_passed := b_passed s @ [(t, length (b_rounds s) - 1, i)]\<rparr>"

lemma passes_eq: "passes t i s = (Inr i, pass_log t i s)"
  by (simp add: passes_def pass_log_def act_defs)

lemma pass_inv:
  assumes inv: "b_inv {} s" and s: "b_state s = 1" "(t, i) \<in> set (b_inside s)"
  shows "b_inv {t} (pass_log t i s)"
proof -
  have sh: "shape s" and dr: "draining {} s" and rc: "record_ok (b_parties s) (b_rounds s) (b_passed s)"
    using inv by (simp_all add: b_inv_def)
  have r: "b_rounds s \<noteq> []" and me: "t \<in> set (last (b_rounds s))" "0 \<le> i" "i < b_parties s" "not_passed t i s"
    using dr s unfolding draining_def by auto
  have other: "k \<noteq> i" if "(u, k) \<in> set (b_inside s)" "u \<noteq> t" for u k
  proof -
    have "inj_on snd (set (b_inside s))" using sh by (simp add: shape_def distinct_map)
    with that s(2) show ?thesis by (auto dest: inj_onD [where x = "(u, k)" and y = "(t, i)"])
  qed
  have "record_ok (b_parties s) (b_rounds s) (b_passed s @ [(t, length (b_rounds s) - 1, i)])"
    using rc r me by (auto simp: record_ok_def not_passed_def last_conv_nth)
  moreover have "draining {t} (pass_log t i s)"
    using dr other unfolding draining_def not_passed_def pass_log_def by auto
  moreover have "shape (pass_log t i s)" using sh by (simp add: shape_def pass_log_def)
  ultimately show ?thesis by (simp add: b_inv_def pass_log_def)
qed

lemma weaken: "b_inv {} s \<Longrightarrow> b_inv X s"
  unfolding b_inv_def draining_def by fastforce

lemma break_inv: "b_inv X s \<Longrightarrow> b_inv Y (s\<lparr>b_state := - 2\<rparr>)"
  by (simp add: b_inv_def shape_def draining_def)

lemma woken_inv:
  assumes "b_inv {} s" "(t, i) \<in> set (b_inside s)"
  shows "b_inv {} (snd (b_woken timed_out t i s))"
proof -
  consider "b_state s = 0" | "b_state s = 1" | "b_state s < 0"
    using assms(1) by (auto simp: b_inv_def shape_def)
  then show ?thesis
  proof cases
    case 1
    then show ?thesis
      using assms left_inv [OF break_inv [OF assms(1)], of t i]
      by (auto simp: b_woken_def readA_def leaving_eq b_break_def bindA_def modifyA_def raise_def)
  next
    case 2
    then show ?thesis
      using left_inv [OF pass_inv [OF assms(1) 2 assms(2)], of i] assms(2)
      by (simp add: b_woken_def readA_def leaving_eq bindA_def assertA_def passes_eq) (simp add: pass_log_def)
  next
    case 3
    then show ?thesis
      using left_inv [OF weaken [OF assms(1)] assms(2)]
      by (simp add: b_woken_def readA_def leaving_eq bindA_def assertA_def)
  qed
qed

text \<open>Who is let in finds the barrier filling.\<close>

definition let_in :: "nat \<Rightarrow> barrier \<Rightarrow> barrier" where
  "let_in t s = s\<lparr>b_count := b_count s + 1, b_inside := b_inside s @ [(t, b_count s)]\<rparr>"

lemma let_in_inv:
  assumes "b_inv {} s" "b_state s = 0" "t \<notin> fst ` set (b_inside s)"
  shows "b_inv {} (let_in t s)"
proof -
  have sh: "map snd (b_inside s) = map int [0..<length (b_inside s)]" "b_count s = int (length (b_inside s))"
    using assms(1,2) by (auto simp: b_inv_def shape_def)
  have "int (length (b_inside s)) \<notin> set (map snd (b_inside s))" unfolding sh(1) by auto
  with assms sh show ?thesis by (auto simp: b_inv_def shape_def draining_def let_in_def)
qed

lemma release_inv:
  assumes "b_inv {} s" "b_state s = 0" "int (length (b_inside s)) = b_parties s"
  shows "b_inv {} (s\<lparr>b_state := 1, b_rounds := b_rounds s @ [map fst (b_inside s)]\<rparr>)"
proof -
  have sh: "map snd (b_inside s) = map int [0..<length (b_inside s)]" using assms(1,2) by (auto simp: b_inv_def shape_def)
  have range: "0 \<le> i \<and> i < b_parties s" if "(t, i) \<in> set (b_inside s)" for t i
  proof -
    from that have "i \<in> set (map snd (b_inside s))" by force
    with sh assms(3) show ?thesis by auto
  qed
  have rc: "record_ok (b_parties s) (b_rounds s) (b_passed s)" using assms(1) by (simp add: b_inv_def)
  then have old: "r < length (b_rounds s)" if "(t, r, i) \<in> set (b_passed s)" for t r i
    using that by (auto simp: record_ok_def)
  let ?s = "s\<lparr>b_state := 1, b_rounds := b_rounds s @ [map fst (b_inside s)]\<rparr>"
  have "shape ?s" using assms(1) by (simp add: b_inv_def shape_def)
  moreover have "draining {} ?s"
    unfolding draining_def not_passed_def using range old by (force simp: image_iff)
  moreover have "record_ok (b_parties s) (b_rounds s @ [map fst (b_inside s)]) (b_passed s)"
    using rc assms(1,3) by (auto simp: record_ok_def nth_append b_inv_def shape_def)
  ultimately show ?thesis by (simp add: b_inv_def)
qed

lemma entering_inv [simp]: "b_inv X (s\<lparr>b_entering := ts\<rparr>) = b_inv X s"
  by (simp add: b_inv_def shape_def draining_def not_passed_def)

lemma enter_cases:
  obtains (out) e ts where "b_enter t s = (Inl e, s\<lparr>b_entering := ts\<rparr>)"
  | (entered) "b_enter t s = (Inr (), s\<lparr>b_entering := removeAll t (b_entering s)\<rparr>)" "b_state s = 0"
  by (cases "b_state s = - 1 \<or> b_state s = 1"; cases "b_state s \<ge> 0"; cases "b_state s = 0")
    (simp_all add: b_enter_def act_defs)

lemma wait_inv:
  assumes inv: "b_inv {} s" and t: "t \<notin> fst ` set (b_inside s)"
  shows "b_inv {} (snd (b_wait action t s))"
proof (cases rule: enter_cases [of t s])
  case (out e ts)
  then show ?thesis using inv by (simp add: b_wait_def bindA_def)
next
  case entered
  define s1 where "s1 = s\<lparr>b_entering := removeAll t (b_entering s)\<rparr>"
  define s2 where "s2 = let_in t s1"
  have s2: "b_inv {} s2" "b_state s2 = 0" and me: "(t, b_count s1) \<in> set (b_inside s2)"
    using let_in_inv [of s1 t] inv t entered(2) by (simp_all add: s1_def s2_def let_in_def)
  have count: "b_count s1 + 1 = int (length (b_inside s2))" and same: "b_parties s2 = b_parties s1"
    using s2(1) by (simp_all add: b_inv_def shape_def s2_def let_in_def)
  have w: "b_wait action t s = (if b_count s1 + 1 = b_parties s1
      then leaving t (bindA (b_release action) (\<lambda>_. passes t (b_count s1))) s2 else (Inl Blocks, s2))"
    using entered(1) by (simp add: b_wait_def bindA_def readA_def modifyA_def raise_def Let_def s1_def [symmetric] s2_def let_in_def)
  show ?thesis
  proof (cases "b_count s1 + 1 = b_parties s1")
    case full: True
    let ?r = "s2\<lparr>b_state := 1, b_rounds := b_rounds s2 @ [map fst (b_inside s2)]\<rparr>"
    show ?thesis
    proof (cases action)
      case None
      have "b_inv {} ?r" by (rule release_inv [OF s2]) (use full count same in simp)
      from left_inv [OF pass_inv [OF this], of t "b_count s1" "b_count s1"] me full None w show ?thesis
        by (simp add: leaving_eq b_release_def bindA_def modifyA_def passes_eq) (simp add: pass_log_def)
    next
      case (Some e)
      from left_inv [OF break_inv [OF s2(1)], of t "b_count s1"] me full Some w show ?thesis
        by (simp add: leaving_eq b_release_def b_break_def bindA_def modifyA_def raise_def)
    qed
  qed (use w s2(1) in simp)
qed

lemma reset_inv: "b_inv {} s \<Longrightarrow> b_inv {} (snd (b_reset s))"
  by (auto simp: b_reset_def act_defs b_inv_def shape_def draining_def)

lemma step_inv: "b_inv {} s \<Longrightarrow> b_inv {} (b_step e s)"
proof (induction e)
  case (BWait t action)
  then show ?case using wait_inv [of s t action] by simp
next
  case (BWoken t timed_out action)
  show ?case
  proof (cases "map_of (b_inside s) t")
    case None
    then have "t \<notin> fst ` set (b_inside s)" by (simp add: map_of_eq_None_iff)
    with None BWoken wait_inv [of s t action] show ?thesis by simp
  next
    case (Some i)
    with BWoken woken_inv [OF BWoken map_of_SomeD [OF Some]] show ?thesis by simp
  qed
next
  case BReset
  then show ?case using reset_inv by simp
next
  case BAbort
  then show ?case using break_inv by (simp add: b_abort_def b_break_def modifyA_def)
qed

lemma fresh_inv: "b_inv {} (Barrier n)"
  by (simp add: b_inv_def shape_def draining_def record_ok_def Barrier_def)

lemma steps_inv: "b_inv {} s \<Longrightarrow> b_inv {} (fold b_step es s)"
  by (induction es arbitrary: s) (simp_all add: step_inv)

lemma step_parties: "b_parties (b_step e s) = b_parties s"
  by (cases e) (auto simp: b_defs act_defs Let_def split: option.split)

lemma steps_parties: "b_parties (fold b_step es s) = b_parties s"
  by (induction es arbitrary: s) (simp_all add: step_parties)

section \<open>What a barrier promises\<close>

text \<open>
  Whatever the order of the calls, wakings, timeouts, failing actions, resets and aborts: who returns from \<open>wait\<close> was inside at a release of exactly \<open>parties\<close>
  different threads, no release lets a thread return twice, and no two threads return from it with the same index, each of them in \<open>range(parties)\<close>.
\<close>

theorem barrier_exact:
  "let s = fold b_step es (Barrier n); passed = b_passed s; rounds = b_rounds s in
     (\<forall>ts \<in> set rounds. int (length ts) = n \<and> distinct ts) \<and>
     (\<forall>(t, r, i) \<in> set passed. r < length rounds \<and> t \<in> set (rounds ! r) \<and> 0 \<le> i \<and> i < n) \<and>
     distinct (map (\<lambda>(t, r, i). (r, t)) passed) \<and> distinct (map (\<lambda>(t, r, i). (r, i)) passed)"
  using steps_inv [OF fresh_inv [of n], of es] steps_parties [of es "Barrier n"]
  by (simp add: b_inv_def record_ok_def Let_def) (simp add: Barrier_def)

text \<open>\<open>parties\<close> is not looked at by \<open>__init__\<close>: nobody ever passes a barrier for none.\<close>

lemma barrier_for_none: "n \<le> 0 \<Longrightarrow> b_passed (fold b_step es (Barrier n)) = []"
  using barrier_exact [of es n] by (cases "b_passed (fold b_step es (Barrier n))") (auto simp: Let_def)

text \<open>Three threads pass, and one of them waits again before the others have left.\<close>

lemma three_pass:
  "b_passed (fold b_step [BWait 1 None, BWait 2 None, BWait 3 None, BWait 3 None, BWoken 1 False None, BWoken 2 True None, BWoken 3 False None] (Barrier 3))
     = [(3, 0, 2), (1, 0, 0), (2, 0, 1)]"
  "b_inside (fold b_step [BWait 1 None, BWait 2 None, BWait 3 None, BWait 3 None, BWoken 1 False None, BWoken 2 True None, BWoken 3 False None] (Barrier 3))
     = [(3, 0)]"
  by (simp_all add: b_defs act_defs Barrier_def Let_def)

text \<open>
  A process that dies inside never leaves: its place stays counted in the shared memory, the barrier stays draining, and whoever waits from then on blocks.
\<close>

lemma never_filling:
  assumes "b_state s = 1" "map_of (b_inside s) dead = Some i" "b_inv {} s" "\<forall>e \<in> set es. e \<noteq> BAbort \<and> (\<forall>w a. e \<noteq> BWoken dead w a)"
  shows "b_state (fold b_step es s) = 1"
  using assms
proof (induction es arbitrary: s)
  case (Cons e es)
  have two: "b_count s \<ge> 1" "\<And>t. t \<noteq> dead \<Longrightarrow> t \<in> fst ` set (b_inside s) \<Longrightarrow> b_count s \<noteq> 1"
  proof -
    have len: "b_count s = int (length (b_inside s))" using Cons.prems(3) by (simp add: b_inv_def shape_def)
    from map_of_SomeD [OF Cons.prems(2)] have d: "(dead, i) \<in> set (b_inside s)" .
    then show "b_count s \<ge> 1" using len by (cases "b_inside s") auto
    fix t assume "t \<noteq> dead" "t \<in> fst ` set (b_inside s)"
    with d len show "b_count s \<noteq> 1" by (cases "b_inside s"; cases "tl (b_inside s)") auto
  qed
  have left: "map_of (filter (\<lambda>(u, _). u \<noteq> t) xs) dead = map_of xs dead" if "t \<noteq> dead" for t and xs :: "(nat \<times> int) list"
    using that by (induction xs) auto
  have "b_state (b_step e s) = 1 \<and> map_of (b_inside (b_step e s)) dead = Some i"
  proof (cases e)
    case (BWait t a)
    with Cons.prems show ?thesis by (auto simp: b_wait_def b_enter_def act_defs)
  next
    case (BWoken t w a)
    with Cons.prems(4) have t: "t \<noteq> dead" by auto
    show ?thesis
    proof (cases "map_of (b_inside s) t")
      case None
      with BWoken Cons.prems show ?thesis by (auto simp: b_wait_def b_enter_def act_defs)
    next
      case (Some k)
      then have "b_count s \<noteq> 1" using two(2) [OF t] map_of_SomeD [OF Some] by force
      moreover have "b_step e s = left t (pass_log t k s)"
        using BWoken Some Cons.prems(1) by (simp add: b_woken_def readA_def leaving_eq bindA_def assertA_def passes_eq)
      ultimately show ?thesis
        using Cons.prems(1,2) left [OF t] by (simp add: left_fields pass_log_def)
    qed
  next
    case BReset
    with Cons.prems two(1) show ?thesis by (auto simp: b_reset_def act_defs)
  next
    case BAbort
    with Cons.prems(4) show ?thesis by simp
  qed
  with Cons.IH [OF _ _ step_inv [OF Cons.prems(3)], of e] Cons.prems(4) show ?case by simp
qed simp

end
