(* ===== verification/Waiting.thy ===== *)
theory Waiting
  imports Authentication Semlock
begin

text \<open>
  Loops that wait, and the signal for the death of the parent: \<open>_poll\<close> under \<open>wait\<close> of \<open>billiard/connection.py\<close>, \<open>_eintr_retry\<close>, \<open>get_pdeathsig\<close> and
  \<open>set_pdeathsig\<close> of \<open>billiard/util.py\<close>, and \<open>ConditionProxy.wait_for\<close> of \<open>billiard/managers.py\<close>.
\<close>

section \<open>Asking poll about several objects\<close>

text \<open>
  Who waits passes numbers and objects with a \<open>fileno\<close>, told apart by an identity. What \<open>poll\<close> answers about the registered numbers is a
  parameter: a list of number and events, each with some event, at most one for a number.
\<close>

datatype wait_obj = Number int | Object nat int

fun fileno :: "wait_obj \<Rightarrow> int" where
  "fileno (Number n) = n"
| "fileno (Object _ n) = n"

definition POLLNVAL :: int where "POLLNVAL = 32"

text \<open>The table from numbers to objects, and the numbers as \<open>poll\<close> has them, each once.\<close>

definition fd_map :: "wait_obj list \<Rightarrow> int \<rightharpoonup> wait_obj" where
  "fd_map fds = fold (\<lambda>fd m. m(fileno fd \<mapsto> fd)) fds Map.empty"

definition poll_timeout :: "int option \<Rightarrow> int option" where
  "poll_timeout timeout = map_option (\<lambda>micro. if micro < 0 then - (- micro div 1000) else micro div 1000) timeout"

fun poll_events :: "(int \<rightharpoonup> wait_obj) \<Rightarrow> (int \<times> int) list \<Rightarrow> exn + wait_obj list" where
  "poll_events m [] = Inr []"
| "poll_events m ((fd, event) # es) =
     (if event AND POLLNVAL \<noteq> 0 then Inl ValueError
      else case m fd of None \<Rightarrow> Inl KeyError
      | Some ob \<Rightarrow> (case poll_events m es of Inl e \<Rightarrow> Inl e | Inr ls \<Rightarrow> Inr (ob # ls)))"

definition conn_poll :: "(int set \<Rightarrow> int option \<Rightarrow> exn + (int \<times> int) list) \<Rightarrow> wait_obj list \<Rightarrow> int option \<Rightarrow> exn + wait_obj list" where
  "conn_poll poll fds timeout =
     (case poll (fileno ` set fds) (poll_timeout timeout) of Inl e \<Rightarrow> Inl e | Inr es \<Rightarrow> poll_events (fd_map fds) es)"

text \<open>What the documentation of \<open>poll\<close> promises, with \<open>revents\<close> the events of each number.\<close>

definition polls :: "(int \<Rightarrow> int) \<Rightarrow> (int set \<Rightarrow> int option \<Rightarrow> exn + (int \<times> int) list) \<Rightarrow> bool" where
  "polls revents poll \<longleftrightarrow> (\<forall>ns t. finite ns \<longrightarrow> (\<exists>es. poll ns t = Inr es \<and> distinct (map fst es) \<and>
     set es = {(n, revents n) | n. n \<in> ns \<and> revents n \<noteq> 0}))"

lemma fd_map_some: "fd_map fds n = Some ob \<longleftrightarrow> (\<exists>before after. fds = before @ ob # after \<and> fileno ob = n \<and> n \<notin> fileno ` set after)"
proof (induction fds rule: rev_induct)
  case Nil
  then show ?case by (simp add: fd_map_def)
next
  case (snoc fd fds)
  have step: "fd_map (fds @ [fd]) = (fd_map fds)(fileno fd \<mapsto> fd)" by (simp add: fd_map_def)
  have tail: "(\<exists>before after. fds @ [fd] = before @ ob # after \<and> P ob after) \<longleftrightarrow>
      ob = fd \<and> P ob [] \<or> (\<exists>before after. fds = before @ ob # after \<and> P ob (after @ [fd]))" for P
  proof
    assume "\<exists>before after. fds @ [fd] = before @ ob # after \<and> P ob after"
    then obtain before after where *: "fds @ [fd] = before @ ob # after" "P ob after" by blast
    show "ob = fd \<and> P ob [] \<or> (\<exists>before after. fds = before @ ob # after \<and> P ob (after @ [fd]))"
      using * by (cases after rule: rev_cases) auto
  next
    assume "ob = fd \<and> P ob [] \<or> (\<exists>before after. fds = before @ ob # after \<and> P ob (after @ [fd]))"
    then show "\<exists>before after. fds @ [fd] = before @ ob # after \<and> P ob after"
    proof (elim disjE exE conjE)
      fix before after assume "fds = before @ ob # after" "P ob (after @ [fd])"
      then have "fds @ [fd] = before @ ob # (after @ [fd]) \<and> P ob (after @ [fd])" by simp
      then show ?thesis by blast
    qed auto
  qed
  show ?case
    unfolding step using tail [of "\<lambda>ob after. fileno ob = n \<and> n \<notin> fileno ` set after"] snoc.IH by auto
qed

lemma fd_map_dom: "fd_map fds n = None \<longleftrightarrow> n \<notin> fileno ` set fds"
  by (induction fds rule: rev_induct) (auto simp: fd_map_def)

lemma poll_events_ok:
  "\<forall>(n, event) \<in> set es. event AND POLLNVAL = 0 \<and> m n \<noteq> None \<Longrightarrow> poll_events m es = Inr (map (\<lambda>(n, _). the (m n)) es)"
  by (induction m es rule: poll_events.induct) auto

text \<open>
  With different numbers, \<open>_poll\<close> gives exactly the objects that are ready, each once. Of objects with one number only the last is given.
\<close>

theorem poll_exact:
  assumes "polls revents poll" "\<forall>n \<in> fileno ` set fds. revents n AND POLLNVAL = 0"
  obtains ls where "conn_poll poll fds t = Inr ls" "distinct ls"
    "\<And>ob. ob \<in> set ls \<longleftrightarrow> revents (fileno ob) \<noteq> 0 \<and> fd_map fds (fileno ob) = Some ob"
    "distinct (map fileno fds) \<Longrightarrow> set ls = {ob \<in> set fds. revents (fileno ob) \<noteq> 0}"
proof -
  obtain es where es: "poll (fileno ` set fds) (poll_timeout t) = Inr es" "distinct (map fst es)"
      "set es = {(n, revents n) | n. n \<in> fileno ` set fds \<and> revents n \<noteq> 0}"
    using assms(1) [unfolded polls_def, rule_format, of "fileno ` set fds" "poll_timeout t"] by auto
  let ?ls = "map (\<lambda>(n, _). the (fd_map fds n)) es"
  have some: "\<exists>ob. fd_map fds n = Some ob \<and> fileno ob = n" if "n \<in> fileno ` set fds" for n
  proof -
    from that fd_map_dom [of fds n] obtain ob where ob: "fd_map fds n = Some ob" by auto
    then have "fileno ob = n" unfolding fd_map_some by blast
    with ob show ?thesis by blast
  qed
  have "conn_poll poll fds t = Inr ?ls"
    unfolding conn_poll_def es(1) using es(3) assms(2) some by (simp add: fd_map_dom) (rule poll_events_ok, auto simp: fd_map_dom)
  moreover have in_ls: "ob \<in> set ?ls \<longleftrightarrow> revents (fileno ob) \<noteq> 0 \<and> fd_map fds (fileno ob) = Some ob" for ob
  proof
    assume "ob \<in> set ?ls"
    then obtain n where "n \<in> fileno ` set fds" "revents n \<noteq> 0" "ob = the (fd_map fds n)" using es(3) by auto
    with some show "revents (fileno ob) \<noteq> 0 \<and> fd_map fds (fileno ob) = Some ob" by force
  next
    assume r: "revents (fileno ob) \<noteq> 0 \<and> fd_map fds (fileno ob) = Some ob"
    then have "fileno ob \<in> fileno ` set fds" using fd_map_dom [of fds "fileno ob"] by auto
    with r es(3) have "(fileno ob, revents (fileno ob)) \<in> set es" by blast
    with r show "ob \<in> set ?ls" by force
  qed
  moreover have "map fileno ?ls = map fst es"
    using es(3) some by (auto simp: case_prod_beta) (metis imageI option.sel some)
  then have "distinct ?ls" using es(2) by (metis distinct_map)
  moreover have "set ?ls = {ob \<in> set fds. revents (fileno ob) \<noteq> 0}" if d: "distinct (map fileno fds)"
  proof -
    have "fd_map fds (fileno ob) = Some ob \<longleftrightarrow> ob \<in> set fds" for ob
    proof
      assume "ob \<in> set fds"
      then obtain before after where f: "fds = before @ ob # after" by (meson split_list)
      with d show "fd_map fds (fileno ob) = Some ob" unfolding fd_map_some by (intro exI [of _ before] exI [of _ after]) auto
    qed (auto simp: fd_map_some)
    with in_ls show ?thesis by blast
  qed
  ultimately show ?thesis using that by blast
qed

text \<open>Two connections with one number (one of them closed without the other's knowledge): only the second is ever reported.\<close>

lemma first_of_two_hidden:
  "conn_poll (\<lambda>ns t. Inr [(4, 1)]) [Object 0 4, Object 1 4] None = Inr [Object 1 4]"
  by (simp add: conn_poll_def fd_map_def POLLNVAL_def)

text \<open>One closed descriptor, and nothing is told of the others that are ready.\<close>

lemma one_invalid_hides_all:
  "conn_poll (\<lambda>ns t. Inr [(4, 1), (5, 32)]) [Object 0 4, Object 1 5] None = Inl ValueError"
  by (simp add: conn_poll_def fd_map_def POLLNVAL_def)

text \<open>A wait of less than a millisecond does not wait.\<close>

lemma short_wait: "0 \<le> micro \<Longrightarrow> micro < 1000 \<Longrightarrow> poll_timeout (Some micro) = Some 0"
  by (simp add: poll_timeout_def)

section \<open>Calling again after an interruption\<close>

partial_function (option) eintr_retry :: "('s, 'a) act \<Rightarrow> 's \<Rightarrow> ((exn + 'a) \<times> 's) option" where
  "eintr_retry f s =
     (case f s of
        (Inl (OSError errno), s') \<Rightarrow> if errno \<noteq> Connection.EINTR then Some (Inl (OSError errno), s') else eintr_retry f s'
      | (r, s') \<Rightarrow> Some (r, s'))"

definition interrupted :: "('s, 'a) act \<Rightarrow> 's \<Rightarrow> bool" where
  "interrupted f s \<longleftrightarrow> fst (f s) = Inl (OSError Connection.EINTR)"

lemma eintr_retry_step: "eintr_retry f s = (if interrupted f s then eintr_retry f (snd (f s)) else Some (f s))"
  by (subst eintr_retry.simps) (auto simp: interrupted_def split: prod.split sum.split exn.split)

definition after_call :: "('s, 'a) act \<Rightarrow> 's \<Rightarrow> 's" where
  "after_call f s = snd (f s)"

text \<open>It returns what the first call gives that is not interrupted, and calls no more.\<close>

theorem eintr_retry_result:
  assumes "\<forall>i < k. interrupted f ((after_call f ^^ i) s)" "\<not> interrupted f ((after_call f ^^ k) s)"
  shows "eintr_retry f s = Some (f ((after_call f ^^ k) s))"
  using assms
proof (induction k arbitrary: s)
  case 0
  then show ?case by (simp add: eintr_retry_step)
next
  case (Suc k)
  have "interrupted f s" using Suc.prems(1) [rule_format, of 0] by simp
  then have "eintr_retry f s = eintr_retry f (after_call f s)" by (subst eintr_retry_step) (simp add: after_call_def)
  also have "\<dots> = Some (f ((after_call f ^^ k) (after_call f s)))"
  proof (rule Suc.IH)
    show "\<forall>i < k. interrupted f ((after_call f ^^ i) (after_call f s))"
      using Suc.prems(1) by (metis Suc_less_eq comp_apply funpow_Suc_right)
    show "\<not> interrupted f ((after_call f ^^ k) (after_call f s))"
      using Suc.prems(2) by (simp add: funpow_swap1)
  qed
  finally show ?case by (simp add: funpow_swap1)
qed

text \<open>A result is never an interruption.\<close>

lemma eintr_retry_no_interruption:
  assumes "eintr_retry f s = Some y"
  shows "fst y \<noteq> Inl (OSError Connection.EINTR)"
proof (rule eintr_retry.raw_induct [where P = "\<lambda>f s y. fst y \<noteq> Inl (OSError Connection.EINTR)", OF _ assms], goal_cases)
  case (1 retry f s y)
  show ?case
  proof (cases "interrupted f s")
    case True
    with 1 show ?thesis by (cases "f s") (auto simp: interrupted_def)
  next
    case False
    obtain r s' where r: "f s = (r, s')" by (cases "f s")
    with 1(2) False have "y = (r, s')" by (auto simp: interrupted_def split: sum.splits exn.splits if_splits)
    with r False show ?thesis by (simp add: interrupted_def)
  qed
qed

section \<open>The signal for the death of the parent\<close>

text \<open>
  \<open>prctl\<close> keeps the signal of the process and refuses numbers that are no signals by its return value. Neither caller looks at that value; a call that
  raises (no \<open>libc\<close>, an argument that is no integer) is an \<open>OSError\<close>.
\<close>

definition MAXSIG :: int where "MAXSIG = 64"

definition c_int :: "int \<Rightarrow> int" where
  "c_int n = sint (word_of_int n :: 32 word)"

definition prctl_set :: "int \<Rightarrow> int \<Rightarrow> int \<times> int" where
  "prctl_set sig kept = (if 0 \<le> sig \<and> sig \<le> MAXSIG then (0, sig) else (- 1, kept))"

definition set_pdeathsig :: "bool \<Rightarrow> exn option \<Rightarrow> int \<Rightarrow> (int, unit) act" where
  "set_pdeathsig linux fails sig kept =
     (if \<not> linux then (Inl (OSError 0), kept)
      else case fails of
        Some e \<Rightarrow> (Inl (if is_Exception e then OSError 0 else e), kept)
      | None \<Rightarrow> (Inr (), snd (prctl_set (c_int sig) kept)))"

definition get_pdeathsig :: "bool \<Rightarrow> exn option \<Rightarrow> (int, int) act" where
  "get_pdeathsig linux fails kept =
     (if \<not> linux then (Inl (OSError 0), kept)
      else case fails of
        Some e \<Rightarrow> (Inl (if is_Exception e then OSError 0 else e), kept)
      | None \<Rightarrow> (Inr kept, kept))"

lemma c_int_small: "- (2 ^ 31) \<le> n \<Longrightarrow> n < 2 ^ 31 \<Longrightarrow> c_int n = n"
  by (simp add: c_int_def int_word_sint)

theorem pdeathsig_roundtrip:
  assumes "0 \<le> sig" "sig \<le> MAXSIG"
  shows "bindA (set_pdeathsig True None sig) (\<lambda>_. get_pdeathsig True None) kept = (Inr sig, sig)"
  using assms c_int_small [of sig]
  by (simp add: bindA_def set_pdeathsig_def get_pdeathsig_def prctl_set_def MAXSIG_def)

text \<open>A number that is no signal is accepted without effect, and one past 32 bits counts as its rest.\<close>

lemma no_signal_is_no_error:
  "bindA (set_pdeathsig True None 65) (\<lambda>_. get_pdeathsig True None) 15 = (Inr 15, 15)"
  "bindA (set_pdeathsig True None (2 ^ 32 + 9)) (\<lambda>_. get_pdeathsig True None) 15 = (Inr 9, 9)"
  by (simp_all add: bindA_def set_pdeathsig_def get_pdeathsig_def prctl_set_def MAXSIG_def c_int_def)

section \<open>Waiting for a predicate through a proxy\<close>

text \<open>
  \<open>ConditionProxy.wait_for\<close>: the predicate is the caller's, the waits are calls to the manager. As in \<open>Semlock.wait_for\<close> the list has the values
  of the predicate with the clock when it is read after each, and the second component of the result the timeouts of the waits.
\<close>

definition proxy_wait_for :: "int option \<Rightarrow> int \<Rightarrow> (bool \<times> int) list \<Rightarrow> bool option \<times> int option list" where
  "proxy_wait_for timeout start rs =
     (case rs of [] \<Rightarrow> (None, [])
      | (result, _) # _ \<Rightarrow> if result then (Some result, []) else wait_for_loop (map_option (\<lambda>t. start + t) timeout) rs)"

lemma proxy_waits_alike: "proxy_wait_for timeout start rs = wait_for timeout start rs"
  by (cases rs) (auto simp: proxy_wait_for_def wait_for_def)

end
