(* ===== verification/Common.thy ===== *)
theory Common
  imports Prelude
begin

text \<open>
  \<open>billiard/common.py\<close>: the restart-frequency limiter of the pool's supervisor, the naming
  of exit statuses, and the handling of terminate signals in a worker (the flag
  \<open>_should_have_exited\<close>, its handler, and \<open>reset_signals\<close>). Clock readings are integers;
  the host's signal table is a parameter.
\<close>

section \<open>restart_state\<close>

record restart_state =
  maxR :: "int option"
  maxT :: int
  R :: int
  T :: "int option"

definition restart_state_init :: "int option \<Rightarrow> int \<Rightarrow> restart_state" where
  "restart_state_init mR mT = \<lparr>maxR = mR, maxT = mT, R = 0, T = None\<rparr>"

text \<open>Python truth of an optional number: neither \<open>None\<close> nor 0.\<close>

definition truthy :: "int option \<Rightarrow> bool" where
  "truthy x \<longleftrightarrow> x \<noteq> None \<and> x \<noteq> Some 0"

definition count_restart :: "int \<Rightarrow> (restart_state, unit) act" where
  "count_restart now s = (Inr (), s\<lparr>T := (if T s = None then Some now else T s), R := R s + 1\<rparr>)"

definition restart_step :: "int \<Rightarrow> (restart_state, unit) act" where
  "restart_step now s =
     (if truthy (T s) \<and> now - the (T s) \<ge> maxT s then
        count_restart now (s\<lparr>T := Some now, R := 0\<rparr>)
      else if truthy (maxR s) \<and> R s \<ge> the (maxR s) then
        (if R s \<noteq> 0 then (Inl RestartFreqExceeded, s\<lparr>R := 0\<rparr>) else count_restart now s)
      else count_restart now s)"

fun restart_steps :: "int list \<Rightarrow> (restart_state, unit) act" where
  "restart_steps [] = ret ()"
| "restart_steps (now # rest) = bindA (restart_step now) (\<lambda>_. restart_steps rest)"

lemma restart_steps_window:
  assumes "T s = Some t0" "t0 \<noteq> 0" "\<forall>t \<in> set ts. t - t0 < maxT s" "0 \<le> R s"
    and "maxR s = Some m" "0 < m" "R s + int (length ts) \<le> m"
  shows "restart_steps ts s = (Inr (), s\<lparr>R := R s + int (length ts)\<rparr>)"
  using assms
proof (induction ts arbitrary: s)
  case Nil
  then show ?case by (simp add: ret_def)
next
  case (Cons t ts)
  let ?s = "s\<lparr>R := R s + 1\<rparr>"
  have "restart_step t s = (Inr (), ?s)"
    using Cons.prems by (simp add: restart_step_def truthy_def count_restart_def)
  moreover have "restart_steps ts ?s = (Inr (), ?s\<lparr>R := R ?s + int (length ts)\<rparr>)"
    using Cons.prems by (intro Cons.IH) auto
  ultimately show ?case by (simp add: bindA_def)
qed

lemma restart_steps_append:
  "restart_steps (xs @ ys) = bindA (restart_steps xs) (\<lambda>_. restart_steps ys)"
  by (induction xs) (auto simp: bindA_def ret_def fun_eq_iff split: prod.splits sum.splits)

text \<open>
  Inside one window of \<open>maxT\<close>, a fresh limiter with limit \<open>m\<close> lets exactly \<open>m\<close>
  restarts through; the next one raises \<open>RestartFreqExceeded\<close> and resets the count.
\<close>

theorem restart_limit:
  assumes m: "0 < m" and t0: "t0 \<noteq> 0" and n: "length ts = nat m - 1"
    and win: "\<forall>t \<in> set (ts @ [t']). t - t0 < mT" and T: "0 < mT"
  shows "(\<exists>s. restart_steps (t0 # ts) (restart_state_init (Some m) mT) = (Inr (), s) \<and> R s = m)
    \<and> (\<exists>s. restart_steps (t0 # ts @ [t']) (restart_state_init (Some m) mT) = (Inl RestartFreqExceeded, s)
         \<and> R s = 0)"
proof -
  let ?s0 = "restart_state_init (Some m) mT"
  let ?s1 = "?s0\<lparr>T := Some t0, R := 1\<rparr>"
  have 1: "restart_step t0 ?s0 = (Inr (), ?s1)"
    using m by (simp add: restart_step_def truthy_def count_restart_def restart_state_init_def)
  have 2: "restart_steps ts ?s1 = (Inr (), ?s1\<lparr>R := R ?s1 + int (length ts)\<rparr>)"
    using assms by (intro restart_steps_window [where m = m and ?t0.0 = t0]) (auto simp: restart_state_init_def)
  have 3: "restart_step t' (?s1\<lparr>R := R ?s1 + int (length ts)\<rparr>)
      = (Inl RestartFreqExceeded, ?s1\<lparr>R := 0\<rparr>)"
    using assms by (simp add: restart_step_def truthy_def restart_state_init_def)
  show ?thesis
    using 1 2 3 m n by (simp add: restart_steps_append bindA_def ret_def)
qed

theorem restart_limit_witness:
  "\<exists>s. restart_steps [5, 6, 7] (restart_state_init (Some 2) 10) = (Inl RestartFreqExceeded, s)"
  using restart_limit [of 2 5 "[6]" 7 10] by auto

text \<open>
  With no limit (\<open>None\<close> or 0), as the pool makes it when \<open>max_restarts\<close> is not given,
  no number of restarts at any times is ever refused.
\<close>

theorem restart_unlimited:
  "\<not> truthy mR \<Longrightarrow> \<exists>s. restart_steps ts (restart_state_init mR mT) = (Inr (), s)"
proof -
  assume u: "\<not> truthy mR"
  have "maxR s = mR \<Longrightarrow> \<exists>t. restart_steps ts s = (Inr (), t) \<and> maxR t = mR" for s
  proof (induction ts arbitrary: s)
    case Nil
    then show ?case by (simp add: ret_def)
  next
    case (Cons x ts)
    have "\<exists>t. restart_step x s = (Inr (), t) \<and> maxR t = mR"
      using Cons.prems u by (auto simp add: restart_step_def count_restart_def)
    then obtain t where "restart_step x s = (Inr (), t)" "maxR t = mR" by blast
    then show ?case using Cons.IH [of t] by (auto simp: bindA_def)
  qed
  from this [of "restart_state_init mR mT"] show ?thesis by (auto simp: restart_state_init_def)
qed

theorem restart_unlimited_witness:
  "\<exists>s. restart_steps [1, 1, 1] (restart_state_init None 10) = (Inr (), s)"
  using restart_unlimited [of None "[1, 1, 1]" 10] by (simp add: truthy_def)

section \<open>human_status\<close>

fun show_nat :: "nat \<Rightarrow> string" where
  "show_nat n = (if n < 10 then [char_of (48 + n)] else show_nat (n div 10) @ [char_of (48 + n mod 10)])"

declare show_nat.simps [simp del]

definition show_int :: "int \<Rightarrow> string" where
  "show_int i = (if i < 0 then CHR ''-'' # show_nat (nat (- i)) else show_nat (nat i))"

definition human_status :: "(int \<rightharpoonup> string) \<Rightarrow> int option \<Rightarrow> string" where
  "human_status SIGMAP status =
     (if (case status of None \<Rightarrow> 0 | Some x \<Rightarrow> x) < 0 then
        (case SIGMAP (- the status) of
           Some name \<Rightarrow> ''signal '' @ show_int (- the status) @ '' ('' @ name @ '')''
         | None \<Rightarrow> ''signal '' @ show_int (- the status))
      else ''exitcode '' @ (case status of None \<Rightarrow> ''None'' | Some x \<Rightarrow> show_int x))"

section \<open>Terminate signals\<close>

datatype handler = SIG_DFL | SIG_IGN | ShutdownCleanup | SoftTimeout | UserHandler nat

record sigstate =
  should_have_exited :: bool
  handlers :: "int \<Rightarrow> handler option"  \<comment> \<open>\<open>None\<close>: not installed from Python\<close>

datatype sig_outcome = HardExit int | Raised exn

definition EX_SOFTWARE :: int where
  "EX_SOFTWARE = 70"

definition terminate_handler_fired :: "sigstate \<Rightarrow> bool" where
  "terminate_handler_fired s = should_have_exited s"

definition clear_terminate_handler_fired :: "sigstate \<Rightarrow> sigstate" where
  "clear_terminate_handler_fired s = s\<lparr>should_have_exited := False\<rparr>"

text \<open>\<open>settable\<close>: the signals \<open>signal.signal\<close> accepts; it raises for the others.\<close>

definition maybe_setsignal :: "(int \<Rightarrow> bool) \<Rightarrow> int \<Rightarrow> handler \<Rightarrow> sigstate \<Rightarrow> sigstate" where
  "maybe_setsignal settable n h s =
     (if settable n then s\<lparr>handlers := (handlers s)(n := Some h)\<rparr> else s)"

definition shutdown_cleanup :: "(int \<Rightarrow> bool) \<Rightarrow> int \<Rightarrow> sigstate \<Rightarrow> sig_outcome \<times> sigstate" where
  "shutdown_cleanup settable n s =
     (if should_have_exited s then (HardExit EX_SOFTWARE, s)
      else (Raised (SystemExit (- (256 - n))),
            (maybe_setsignal settable n SIG_DFL s)\<lparr>should_have_exited := True\<rparr>))"

definition TERMSIGS_DEFAULT :: "string \<Rightarrow> string list" where
  "TERMSIGS_DEFAULT term_signame = [''SIGHUP'', ''SIGQUIT'', term_signame, ''SIGUSR1'']"

definition TERMSIGS_FULL :: "string \<Rightarrow> string list" where
  "TERMSIGS_FULL term_signame =
     [''SIGHUP'', ''SIGQUIT'', ''SIGTRAP'', ''SIGABRT'', ''SIGEMT'', ''SIGSYS'', ''SIGPIPE'',
      ''SIGALRM'', term_signame, ''SIGXCPU'', ''SIGXFSZ'', ''SIGVTALRM'', ''SIGPROF'',
      ''SIGUSR1'', ''SIGUSR2'']"

text \<open>\<open>remap\<close>: the environment variable \<open>REMAP_SIGTERM\<close>.\<close>

definition term_signame :: "string option \<Rightarrow> string" where
  "term_signame remap = (case remap of None \<Rightarrow> ''SIGTERM'' | Some n \<Rightarrow> n)"

definition TERMSIGS_IGNORE :: "string option \<Rightarrow> string list" where
  "TERMSIGS_IGNORE remap = (if remap \<noteq> None then [''SIGTERM''] else [])"

definition TERMSIGS_FORCE :: "string option \<Rightarrow> string list" where
  "TERMSIGS_FORCE remap = (if remap \<noteq> None then [''SIGQUIT''] else [])"

definition should_override_term_signal :: "string option \<Rightarrow> string \<Rightarrow> handler option \<Rightarrow> bool" where
  "should_override_term_signal remap sig current \<longleftrightarrow>
     sig \<in> set (TERMSIGS_FORCE remap) \<or> (current \<noteq> None \<and> current \<noteq> Some SIG_IGN)"

text \<open>\<open>signum\<close> names the signals of the platform; a missing one, or number 0, is skipped.\<close>

fun reset_loop :: "(string \<Rightarrow> int option) \<Rightarrow> (int \<Rightarrow> bool) \<Rightarrow> string option \<Rightarrow> handler \<Rightarrow> string list
    \<Rightarrow> sigstate \<Rightarrow> sigstate" where
  "reset_loop signum settable remap h [] s = s"
| "reset_loop signum settable remap h (sig # sigs) s =
     reset_loop signum settable remap h sigs
       (if truthy (signum sig) then
          if should_override_term_signal remap sig (handlers s (the (signum sig)))
          then maybe_setsignal settable (the (signum sig)) h s else s
        else s)"

fun ignore_loop :: "(string \<Rightarrow> int option) \<Rightarrow> (int \<Rightarrow> bool) \<Rightarrow> string list \<Rightarrow> sigstate \<Rightarrow> sigstate" where
  "ignore_loop signum settable [] s = s"
| "ignore_loop signum settable (sig # sigs) s =
     ignore_loop signum settable sigs
       (if truthy (signum sig) then maybe_setsignal settable (the (signum sig)) SIG_IGN s else s)"

definition reset_signals :: "(string \<Rightarrow> int option) \<Rightarrow> (int \<Rightarrow> bool) \<Rightarrow> string option \<Rightarrow> handler \<Rightarrow> bool
    \<Rightarrow> sigstate \<Rightarrow> sigstate" where
  "reset_signals signum settable remap h full s =
     ignore_loop signum settable (TERMSIGS_IGNORE remap)
       (reset_loop signum settable remap h
          (if full then TERMSIGS_FULL (term_signame remap) else TERMSIGS_DEFAULT (term_signame remap)) s)"

lemma reset_loop_handlers:
  "handlers (reset_loop signum settable None h sigs s) n =
     (if (\<exists>sig \<in> set sigs. signum sig = Some n) \<and> n \<noteq> 0 \<and> settable n
         \<and> handlers s n \<noteq> None \<and> handlers s n \<noteq> Some SIG_IGN
      then (if h = SIG_IGN then Some SIG_IGN else Some h) else handlers s n)"
proof (induction sigs arbitrary: s)
  case Nil
  then show ?case by simp
next
  case (Cons sig sigs)
  show ?case
    unfolding reset_loop.simps Cons.IH
    by (auto simp: should_override_term_signal_def TERMSIGS_FORCE_def maybe_setsignal_def truthy_def)
qed

text \<open>
  Without \<open>REMAP_SIGTERM\<close>, resetting the signals installs the handler exactly on the
  signals of the chosen set that exist, can be caught, and were neither ignored nor left to
  foreign code; every other signal keeps its handler.
\<close>

theorem reset_signals_exact:
  "handlers (reset_signals signum settable None ShutdownCleanup full s) n =
     (if (\<exists>sig \<in> set (if full then TERMSIGS_FULL ''SIGTERM'' else TERMSIGS_DEFAULT ''SIGTERM'').
            signum sig = Some n) \<and> n \<noteq> 0 \<and> settable n
         \<and> handlers s n \<noteq> None \<and> handlers s n \<noteq> Some SIG_IGN
      then Some ShutdownCleanup else handlers s n)"
  by (simp add: reset_signals_def TERMSIGS_IGNORE_def term_signame_def reset_loop_handlers
      del: bex_simps)

theorem reset_signals_exact_witness:
  "handlers (reset_signals (\<lambda>s. if s = ''SIGTERM'' then Some 15 else None) (\<lambda>_. True) None
     ShutdownCleanup False \<lparr>should_have_exited = False, handlers = (\<lambda>_. Some SIG_DFL)\<rparr>) 15
   = Some ShutdownCleanup"
  using reset_signals_exact [of "\<lambda>s. if s = ''SIGTERM'' then Some 15 else None" "\<lambda>_. True" False
     "\<lparr>should_have_exited = False, handlers = (\<lambda>_. Some SIG_DFL)\<rparr>" 15]
  by (simp add: TERMSIGS_DEFAULT_def)

text \<open>
  The first terminate signal raises \<open>SystemExit(signum - 256)\<close> and records that the
  handler ran; a second one, unless the record was cleared (as a fresh child does), ends
  the process at once with \<open>EX_SOFTWARE\<close>.
\<close>

theorem second_signal_hard_exit:
  assumes "\<not> terminate_handler_fired s" "shutdown_cleanup settable n s = (r, t)"
  shows "r = Raised (SystemExit (n - 256)) \<and> terminate_handler_fired t
     \<and> fst (shutdown_cleanup settable k t) = HardExit 70
     \<and> fst (shutdown_cleanup settable k (clear_terminate_handler_fired t)) = Raised (SystemExit (k - 256))"
  using assms
  by (auto simp: shutdown_cleanup_def terminate_handler_fired_def clear_terminate_handler_fired_def
      EX_SOFTWARE_def)

theorem second_signal_hard_exit_witness:
  "fst (shutdown_cleanup (\<lambda>_. True) 15 (snd (shutdown_cleanup (\<lambda>_. True) 15
     \<lparr>should_have_exited = False, handlers = (\<lambda>_. None)\<rparr>))) = HardExit 70"
  using second_signal_hard_exit [of "\<lparr>should_have_exited = False, handlers = (\<lambda>_. None)\<rparr>" "\<lambda>_. True" 15]
  by (metis (no_types, lifting) prod.collapse select_convs(1) sigstate.select_convs(1)
      terminate_handler_fired_def)

end
