(* ===== verification/Results.thy ===== *)
theory Results
  imports Common Einfo
begin

text \<open>
  \<open>ApplyResult\<close> of \<open>billiard/pool.py\<close> as a record with one definition per method, and what it
  shares with the other result objects (\<open>Map_Result\<close>, \<open>Imap_Result\<close>). A method runs on
  \<open>jstate\<close>: the object itself, the pool's cache (the numbers of the jobs in it, in order of
  insertion) and a trace of the calls made to user code.

  \<^item> A user callback is an option of a function from its arguments to the exception it
    raises, if it raises one; the call is recorded in the trace.
  \<^item> Times are integers. The mutex of an object is not modelled: a method is one step.
  \<^item> A method that waits takes as a parameter what the other threads do to the object in the
    meantime.
\<close>

section \<open>Values, events and the state a method runs on\<close>

text \<open>A value of the job, or an \<open>ExceptionInfo\<close>, of which only \<open>exception\<close> is read.\<close>

datatype pyval = PNone | PInt int | PList "pyval list" | PEinfo exn

type_synonym result_obj = "bool \<times> pyval"

datatype event =
    CallCallback nat pyval | CallErrback nat pyval | CallAccept nat int int
  | CallTimeout nat bool "int option" | CallTimeoutSet nat "int option" "int option"
  | CallTimeoutCancel nat | CallSendAck nat int nat int
  | Kill int int | CallJobReady nat | PutLockRelease | ProcessUp int | ProcessDown int

definition ACK :: nat where "ACK = 0"
definition READY :: nat where "READY = 1"
definition TASK :: nat where "TASK = 2"
definition NACK :: nat where "NACK = 3"
definition DEATH :: nat where "DEATH = 4"

record 'j jstate =
  self :: 'j
  cache :: "nat list"
  trace :: "event list"

definition updA :: "('j \<Rightarrow> 'j) \<Rightarrow> ('j jstate, unit) act" where
  "updA f = modifyA (\<lambda>s. s\<lparr>self := f (self s)\<rparr>)"

text \<open>\<open>cache.pop(job, None)\<close>, \<open>del cache[job]\<close> and \<open>cache[job] = self\<close>.\<close>

definition cache_pop :: "nat \<Rightarrow> ('j jstate, unit) act" where
  "cache_pop j = modifyA (\<lambda>s. s\<lparr>cache := remove1 j (cache s)\<rparr>)"

definition cache_del :: "nat \<Rightarrow> ('j jstate, unit) act" where
  "cache_del j s = (if j \<in> set (cache s) then (Inr (), s\<lparr>cache := remove1 j (cache s)\<rparr>)
     else (Inl KeyError, s))"

definition cache_add :: "nat \<Rightarrow> nat list \<Rightarrow> nat list" where
  "cache_add j c = (if j \<in> set c then c else c @ [j])"

definition callA :: "event \<Rightarrow> exn option \<Rightarrow> ('j jstate, unit) act" where
  "callA ev r s = (case r of None \<Rightarrow> (Inr (), s\<lparr>trace := trace s @ [ev]\<rparr>)
     | Some e \<Rightarrow> (Inl e, s\<lparr>trace := trace s @ [ev]\<rparr>))"

lemma wp_upd [wp_simps]: "wp (updA f) Q E s = Q () (s\<lparr>self := f (self s)\<rparr>)"
  by (simp add: updA_def wp_modify)

lemma wp_cache_pop [wp_simps]: "wp (cache_pop j) Q E s = Q () (s\<lparr>cache := remove1 j (cache s)\<rparr>)"
  by (simp add: cache_pop_def wp_modify)

lemma wp_cache_del [wp_simps]: "wp (cache_del j) Q E s =
    (if j \<in> set (cache s) then Q () (s\<lparr>cache := remove1 j (cache s)\<rparr>) else E KeyError s)"
  by (simp add: cache_del_def wp_def)

lemma wp_call [wp_simps]: "wp (callA ev r) Q E s =
    (case r of None \<Rightarrow> Q () (s\<lparr>trace := trace s @ [ev]\<rparr>) | Some e \<Rightarrow> E e (s\<lparr>trace := trace s @ [ev]\<rparr>))"
  by (simp add: callA_def wp_def split: option.split)

section \<open>ApplyResult\<close>

record apply_result =
  ar_job :: nat
  ar_callback :: "(pyval \<Rightarrow> exn option) option"
  ar_accept_callback :: "(int \<Rightarrow> int \<Rightarrow> exn option) option"
  ar_timeout_callback :: "(bool \<Rightarrow> int option \<Rightarrow> exn option) option"
  ar_error_callback :: "(pyval \<Rightarrow> exn option) option"
  ar_soft_timeout :: "int option"
  ar_timeout :: "int option"
  ar_lost_worker_timeout :: int
  ar_on_timeout_set :: "exn option option"
  ar_on_timeout_cancel :: "exn option option"
  ar_callbacks_propagate :: "exn list"
  ar_send_ack :: bool
  ar_event :: bool
  ar_success :: bool
  ar_value :: pyval
  ar_accepted :: bool
  ar_cancelled :: bool
  ar_worker_pid :: "int option"
  ar_time_accepted :: "int option"
  ar_terminated :: "int option"
  ar_worker_lost :: "(int \<times> int) option"
  ar_write_to :: "int option"
  ar_scheduled_for :: "int option"

text \<open>
  \<open>_success\<close> and \<open>_value\<close> are only read once the event is set; before that they have no
  value and the fields below hold any.
\<close>

definition ApplyResult :: "nat \<Rightarrow> (pyval \<Rightarrow> exn option) option \<Rightarrow> (int \<Rightarrow> int \<Rightarrow> exn option) option
    \<Rightarrow> (bool \<Rightarrow> int option \<Rightarrow> exn option) option \<Rightarrow> (pyval \<Rightarrow> exn option) option \<Rightarrow> int option
    \<Rightarrow> int option \<Rightarrow> int \<Rightarrow> exn option option \<Rightarrow> exn option option \<Rightarrow> exn list \<Rightarrow> bool \<Rightarrow> apply_result" where
  "ApplyResult job callback accept_callback timeout_callback error_callback soft_timeout timeout
     lost_worker_timeout on_timeout_set on_timeout_cancel callbacks_propagate send_ack =
     \<lparr>ar_job = job, ar_callback = callback, ar_accept_callback = accept_callback,
      ar_timeout_callback = timeout_callback, ar_error_callback = error_callback,
      ar_soft_timeout = soft_timeout, ar_timeout = timeout,
      ar_lost_worker_timeout = lost_worker_timeout, ar_on_timeout_set = on_timeout_set,
      ar_on_timeout_cancel = on_timeout_cancel, ar_callbacks_propagate = callbacks_propagate,
      ar_send_ack = send_ack, ar_event = False, ar_success = False, ar_value = PNone,
      ar_accepted = False, ar_cancelled = False, ar_worker_pid = None, ar_time_accepted = None,
      ar_terminated = None, ar_worker_lost = None, ar_write_to = None, ar_scheduled_for = None\<rparr>"

definition ar_ready :: "apply_result \<Rightarrow> bool" where
  "ar_ready j = ar_event j"

definition ar_successful :: "apply_result \<Rightarrow> exn + bool" where
  "ar_successful j = (if ar_ready j then Inr (ar_success j) else Inl AssertionError)"

definition ar_cancel :: "apply_result \<Rightarrow> apply_result" where
  "ar_cancel j = j\<lparr>ar_cancelled := True\<rparr>"

definition ar_discard :: "(apply_result jstate, unit) act" where
  "ar_discard = readA (\<lambda>s. cache_pop (ar_job (self s)))"

definition ar_terminate :: "int \<Rightarrow> apply_result \<Rightarrow> apply_result" where
  "ar_terminate signum j = j\<lparr>ar_terminated := Some signum\<rparr>"

definition ar_worker_pids :: "apply_result \<Rightarrow> int list" where
  "ar_worker_pids j = (if truthy (ar_worker_pid j) then [the (ar_worker_pid j)] else [])"

text \<open>\<open>get\<close>: \<open>env\<close> is what happens to the object while it waits.\<close>

definition ar_get :: "(apply_result \<Rightarrow> apply_result) \<Rightarrow> apply_result \<Rightarrow> (exn + pyval) \<times> apply_result" where
  "ar_get env j =
     (let j = (if ar_event j then j else env j) in
      (if \<not> ar_ready j then Inl TimeoutError
       else if ar_success j then Inr (ar_value j)
       else (case ar_value j of PEinfo e \<Rightarrow> Inl e | _ \<Rightarrow> Inl AttributeError), j))"

definition safe_apply_callback :: "exn list \<Rightarrow> event \<Rightarrow> exn option option \<Rightarrow> ('j jstate, unit) act" where
  "safe_apply_callback propagate ev fun =
     (case fun of None \<Rightarrow> ret ()
      | Some r \<Rightarrow> catchA (callA ev r)
          (\<lambda>e. if e = MemoryError then raise e
               else if e \<in> set propagate then raise e
               else if is_Exception e then ret ()
               else raise e))"

definition ar_handle_timeout :: "bool \<Rightarrow> (apply_result jstate, unit) act" where
  "ar_handle_timeout soft = readA (\<lambda>s. let j = self s in
     case ar_timeout_callback j of None \<Rightarrow> ret ()
     | Some cb \<Rightarrow>
         let t = (if soft then ar_soft_timeout j else ar_timeout j) in
         safe_apply_callback (ar_callbacks_propagate j) (CallTimeout (ar_job j) soft t) (Some (cb soft t)))"

definition ar_set :: "result_obj \<Rightarrow> (apply_result jstate, unit) act" where
  "ar_set obj = readA (\<lambda>s.
     bindA (case ar_on_timeout_cancel (self s) of None \<Rightarrow> ret ()
            | Some r \<Rightarrow> callA (CallTimeoutCancel (ar_job (self s))) r) (\<lambda>_.
     bindA (updA (\<lambda>j. j\<lparr>ar_success := fst obj, ar_value := snd obj, ar_event := True\<rparr>)) (\<lambda>_.
     readA (\<lambda>s. let j = self s in
     bindA (whenA (ar_accepted j) (cache_pop (ar_job j))) (\<lambda>_.
     bindA (whenA (ar_callback j \<noteq> None \<and> ar_success j)
              (safe_apply_callback (ar_callbacks_propagate j) (CallCallback (ar_job j) (ar_value j))
                 (map_option (\<lambda>f. f (ar_value j)) (ar_callback j)))) (\<lambda>_.
     whenA (ar_value j \<noteq> PNone \<and> ar_error_callback j \<noteq> None \<and> \<not> ar_success j)
       (safe_apply_callback (ar_callbacks_propagate j) (CallErrback (ar_job j) (ar_value j))
          (map_option (\<lambda>f. f (ar_value j)) (ar_error_callback j)))))))))"

definition ar_set_terminated :: "int option \<Rightarrow> (apply_result jstate, unit) act" where
  "ar_set_terminated signum =
     ar_set (False, PEinfo (ExceptionWithTraceback
       (Terminated (- (case signum of None \<Rightarrow> 0 | Some n \<Rightarrow> n)))))"

text \<open>
  \<open>_ack\<close>. When the accept callback raises, Python evaluates \<open>self._propagate_errors\<close> to
  see whether the first clause matches; no object has this attribute (the constructor sets
  \<open>_callbacks_propagate\<close>), so \<open>AttributeError\<close> leaves the method.
\<close>

definition ar_ack :: "int \<Rightarrow> int \<Rightarrow> int option \<Rightarrow> (apply_result jstate, unit) act" where
  "ar_ack time_accepted pid synqW_fd = readA (\<lambda>s.
     if ar_cancelled (self s) \<and> ar_send_ack (self s) then
       bindA (updA (\<lambda>j. j\<lparr>ar_accepted := True\<rparr>)) (\<lambda>_.
       whenA (truthy synqW_fd) (callA (CallSendAck NACK pid (ar_job (self s)) (the synqW_fd)) None))
     else
       bindA (updA (\<lambda>j. j\<lparr>ar_accepted := True, ar_time_accepted := Some time_accepted,
                          ar_worker_pid := Some pid\<rparr>)) (\<lambda>_.
       bindA (whenA (ar_ready (self s)) (cache_pop (ar_job (self s)))) (\<lambda>_.
       bindA (case ar_on_timeout_set (self s) of None \<Rightarrow> ret ()
              | Some r \<Rightarrow> callA (CallTimeoutSet (ar_job (self s)) (ar_soft_timeout (self s))
                              (ar_timeout (self s))) r) (\<lambda>_.
       bindA (case ar_accept_callback (self s) of None \<Rightarrow> ret ()
              | Some f \<Rightarrow> catchA (callA (CallAccept (ar_job (self s)) pid time_accepted) (f pid time_accepted))
                           (\<lambda>_. raise AttributeError)) (\<lambda>_.
       whenA (ar_send_ack (self s) \<and> truthy synqW_fd)
         (callA (CallSendAck ACK pid (ar_job (self s)) (the synqW_fd)) None))))))"

section \<open>Properties of ApplyResult\<close>

definition swallowed :: "exn list \<Rightarrow> exn \<Rightarrow> bool" where
  "swallowed propagate e \<longleftrightarrow> e \<noteq> MemoryError \<and> e \<notin> set propagate \<and> is_Exception e"

lemma wp_safe_apply [wp_simps]:
  "wp (safe_apply_callback pr ev fun) Q E s =
     (case fun of None \<Rightarrow> Q () s
      | Some None \<Rightarrow> Q () (s\<lparr>trace := trace s @ [ev]\<rparr>)
      | Some (Some e) \<Rightarrow> (if swallowed pr e then Q () else E e) (s\<lparr>trace := trace s @ [ev]\<rparr>))"
  by (auto simp: safe_apply_callback_def swallowed_def wp_simps split: option.split)

text \<open>The events of the trace that a call of \<open>_set\<close> or \<open>_ack\<close> adds for the user's callbacks.\<close>

fun is_user_callback :: "event \<Rightarrow> bool" where
  "is_user_callback (CallCallback _ _) = True"
| "is_user_callback (CallErrback _ _) = True"
| "is_user_callback _ = False"

definition outcome_calls :: "apply_result \<Rightarrow> result_obj \<Rightarrow> event list" where
  "outcome_calls j obj =
     (if fst obj then (if ar_callback j = None then [] else [CallCallback (ar_job j) (snd obj)])
      else (if ar_error_callback j = None \<or> snd obj = PNone then [] else [CallErrback (ar_job j) (snd obj)]))"

definition callbacks_swallowed :: "apply_result \<Rightarrow> result_obj \<Rightarrow> bool" where
  "callbacks_swallowed j obj \<longleftrightarrow>
     (\<forall>f e. ar_callback j = Some f \<or> ar_error_callback j = Some f \<longrightarrow> f (snd obj) = Some e \<longrightarrow>
        swallowed (ar_callbacks_propagate j) e)"

lemma ar_set_wp:
  assumes "\<forall>e. ar_on_timeout_cancel (self s) \<noteq> Some (Some e)"
  shows "wp (ar_set obj)
    (\<lambda>_ t. self t = (self s)\<lparr>ar_success := fst obj, ar_value := snd obj, ar_event := True\<rparr> \<and>
       cache t = (if ar_accepted (self s) then remove1 (ar_job (self s)) (cache s) else cache s) \<and>
       filter is_user_callback (trace t) = filter is_user_callback (trace s) @ outcome_calls (self s) obj)
    (\<lambda>e t. self t = (self s)\<lparr>ar_success := fst obj, ar_value := snd obj, ar_event := True\<rparr> \<and>
       cache t = (if ar_accepted (self s) then remove1 (ar_job (self s)) (cache s) else cache s) \<and>
       \<not> callbacks_swallowed (self s) obj) s"
proof -
  let ?P = "\<lambda>t. self t = (self s)\<lparr>ar_success := fst obj, ar_value := snd obj, ar_event := True\<rparr> \<and>
       cache t = (if ar_accepted (self s) then remove1 (ar_job (self s)) (cache s) else cache s)"
  obtain tr where tr: "filter is_user_callback tr = filter is_user_callback (trace s)"
    and pre: "wp (case ar_on_timeout_cancel (self s) of None \<Rightarrow> ret ()
            | Some r \<Rightarrow> callA (CallTimeoutCancel (ar_job (self s))) r) (\<lambda>_ t. t = s\<lparr>trace := tr\<rparr>) (\<lambda>_ _. False) s"
  proof (cases "ar_on_timeout_cancel (self s)")
    case None
    then show ?thesis using that [of "trace s"] by (simp add: wp_simps)
  next
    case (Some r)
    with assms have "r = None" by (cases r) auto
    then show ?thesis using that [of "trace s @ [CallTimeoutCancel (ar_job (self s))]"] Some
      by (simp add: wp_simps)
  qed
  show ?thesis
    unfolding ar_set_def wp_read wp_bind
    apply (rule wp_mono [OF pre])
     apply (cases "fst obj"; cases "ar_accepted (self s)"; cases "ar_callback (self s)"; cases "ar_error_callback (self s)")
    apply (simp_all add: wp_simps Let_def outcome_calls_def callbacks_swallowed_def tr split: option.split)
       apply blast+
    done
qed

definition ack_fields :: "int \<Rightarrow> int \<Rightarrow> apply_result \<Rightarrow> apply_result" where
  "ack_fields t pid j = j\<lparr>ar_accepted := True, ar_time_accepted := Some t, ar_worker_pid := Some pid\<rparr>"

definition accept_raises :: "apply_result \<Rightarrow> int \<Rightarrow> int \<Rightarrow> bool" where
  "accept_raises j pid t \<longleftrightarrow> (\<exists>f e. ar_accept_callback j = Some f \<and> f pid t = Some e)"

fun is_send_ack :: "event \<Rightarrow> bool" where
  "is_send_ack (CallSendAck _ _ _ _) = True"
| "is_send_ack _ = False"

lemma ar_ack_wp:
  assumes nc: "\<not> (ar_cancelled (self s) \<and> ar_send_ack (self s))"
    and ts: "\<forall>e. ar_on_timeout_set (self s) \<noteq> Some (Some e)"
  shows "wp (ar_ack t pid fd)
    (\<lambda>_ u. self u = ack_fields t pid (self s) \<and>
       cache u = (if ar_event (self s) then remove1 (ar_job (self s)) (cache s) else cache s) \<and>
       filter is_user_callback (trace u) = filter is_user_callback (trace s) \<and>
       \<not> accept_raises (self s) pid t \<and>
       filter is_send_ack (trace u) = filter is_send_ack (trace s) @
         (if ar_send_ack (self s) \<and> truthy fd then [CallSendAck ACK pid (ar_job (self s)) (the fd)] else []))
    (\<lambda>e u. self u = ack_fields t pid (self s) \<and>
       cache u = (if ar_event (self s) then remove1 (ar_job (self s)) (cache s) else cache s) \<and>
       filter is_user_callback (trace u) = filter is_user_callback (trace s) \<and>
       accept_raises (self s) pid t \<and> e = AttributeError \<and>
       filter is_send_ack (trace u) = filter is_send_ack (trace s)) s"
proof -
  have "ar_on_timeout_set (self s) = None \<or> ar_on_timeout_set (self s) = Some None"
    using ts by (metis not_None_eq)
  then show ?thesis
    unfolding ar_ack_def wp_read if_not_P [OF nc]
    apply (cases "ar_accept_callback (self s)"; cases "ar_send_ack (self s) \<and> truthy fd"; elim disjE)
           apply (simp_all add: wp_simps ar_ready_def accept_raises_def ack_fields_def split: option.split)
       apply blast+
    done
qed

text \<open>
  What a caller sees of a job: the value of a success, or the exception of a failure.
\<close>

definition outcome :: "result_obj \<Rightarrow> exn + pyval" where
  "outcome obj = (if fst obj then Inr (snd obj)
     else (case snd obj of PEinfo e \<Rightarrow> Inl e | _ \<Rightarrow> Inl AttributeError))"

text \<open>
  C8. The acknowledgement and the result of a job may arrive in either order: the
  final object is the same, the job has left the cache, \<open>get\<close> gives the outcome without waiting,
  and the callback or the errback has been called exactly once.
\<close>

theorem apply_either_order:
  assumes "\<not> ar_cancelled j" "\<not> ar_event j" "\<not> ar_accepted j" "ar_on_timeout_set j = None"
    "ar_on_timeout_cancel j = None" "callbacks_swallowed j obj" "\<not> accept_raises j pid t"
    and c: "distinct c" "ar_job j \<in> set c"
    and m: "m = bindA (ar_ack t pid fd) (\<lambda>_. ar_set obj) \<or> m = bindA (ar_set obj) (\<lambda>_. ar_ack t pid fd)"
  shows "\<exists>s. m \<lparr>self = j, cache = c, trace = []\<rparr> = (Inr (), s) \<and>
     self s = (ack_fields t pid j)\<lparr>ar_success := fst obj, ar_value := snd obj, ar_event := True\<rparr> \<and>
     ar_job j \<notin> set (cache s) \<and> set c - {ar_job j} = set (cache s) \<and>
     fst (ar_get env (self s)) = outcome obj \<and>
     filter is_user_callback (trace s) = outcome_calls j obj"
proof -
  let ?s = "\<lparr>self = j, cache = c, trace = []\<rparr>"
  let ?Q = "\<lambda>_ s. self s = (ack_fields t pid j)\<lparr>ar_success := fst obj, ar_value := snd obj, ar_event := True\<rparr> \<and>
     cache s = remove1 (ar_job j) c \<and> filter is_user_callback (trace s) = outcome_calls j obj"
  have keep: "callbacks_swallowed (ack_fields t pid j) obj = callbacks_swallowed j obj"
    "outcome_calls (ack_fields t pid j) obj = outcome_calls j obj"
    "accept_raises (j\<lparr>ar_success := fst obj, ar_value := snd obj, ar_event := True\<rparr>) pid t = accept_raises j pid t"
    by (simp_all add: callbacks_swallowed_def outcome_calls_def accept_raises_def ack_fields_def)
  have "wp m ?Q (\<lambda>_ _. False) ?s"
    using m
  proof
    assume m: "m = bindA (ar_ack t pid fd) (\<lambda>_. ar_set obj)"
    show ?thesis
      unfolding m wp_bind
      by (rule wp_mono [OF ar_ack_wp], use assms in simp, use assms in simp,
          rule wp_mono [OF ar_set_wp]) (use assms keep in \<open>auto simp: ack_fields_def\<close>)
  next
    assume m: "m = bindA (ar_set obj) (\<lambda>_. ar_ack t pid fd)"
    show ?thesis
      unfolding m wp_bind
      by (rule wp_mono [OF ar_set_wp], use assms in simp,
          rule wp_mono [OF ar_ack_wp]) (use assms keep in \<open>auto simp: ack_fields_def\<close>)
  qed
  then obtain s where s: "m ?s = (Inr (), s)" "?Q () s" unfolding wp_total by auto
  then show ?thesis
    using c by (auto simp: ar_get_def Let_def ar_ready_def outcome_def)
qed

theorem apply_either_order_witness:
  "\<exists>s. bindA (ar_set (True, PInt 4)) (\<lambda>_. ar_ack 7 100 (Some 3))
     \<lparr>self = ApplyResult 2 (Some (\<lambda>_. Some ValueError)) None None None None None 10 None None [] True,
      cache = [1, 2], trace = []\<rparr> = (Inr (), s) \<and> 2 \<notin> set (cache s)"
  using apply_either_order [of "ApplyResult 2 (Some (\<lambda>_. Some ValueError)) None None None None None 10 None None [] True"
      "(True, PInt 4)" 100 7 "[1, 2]" _ "Some 3" id, OF _ _ _ _ _ _ _ _ _ disjI2 [OF refl]]
  by (auto simp: ApplyResult_def callbacks_swallowed_def accept_raises_def swallowed_def)

text \<open>
  Whatever the callbacks do, \<open>_set\<close> first stores the result, sets the event and (for
  an accepted job) removes it from the cache; an exception leaves \<open>_set\<close> only from a callback
  that raised \<open>MemoryError\<close>, an exception listed in \<open>callbacks_propagate\<close>, or one that is no
  \<open>Exception\<close>.
\<close>

theorem apply_set_stores:
  assumes "ar_on_timeout_cancel (self s) = None"
  shows "\<exists>r u. ar_set obj s = (r, u) \<and>
     ar_ready (self u) \<and> fst (ar_get env (self u)) = outcome obj \<and>
     (ar_accepted (self s) \<longrightarrow> cache u = remove1 (ar_job (self s)) (cache s)) \<and>
     ((\<exists>e. r = Inl e) \<longrightarrow> \<not> callbacks_swallowed (self s) obj)"
proof -
  obtain r u where ru: "ar_set obj s = (r, u)" by fastforce
  have "wp (ar_set obj) (\<lambda>_ t. ar_ready (self t) \<and> fst (ar_get env (self t)) = outcome obj \<and>
     (ar_accepted (self s) \<longrightarrow> cache t = remove1 (ar_job (self s)) (cache s)))
    (\<lambda>_ t. ar_ready (self t) \<and> fst (ar_get env (self t)) = outcome obj \<and>
     (ar_accepted (self s) \<longrightarrow> cache t = remove1 (ar_job (self s)) (cache s)) \<and>
      \<not> callbacks_swallowed (self s) obj) s"
    by (rule wp_mono [OF ar_set_wp]) (use assms in \<open>auto simp: ar_ready_def ar_get_def Let_def outcome_def\<close>)
  then show ?thesis using ru by (cases r) (auto simp: wp_def)
qed

theorem apply_set_stores_witness:
  "\<exists>r u. ar_set (False, PEinfo ValueError) \<lparr>self = ApplyResult 2 None None None (Some (\<lambda>_. Some MemoryError)) None None 10 None None [] True,
      cache = [1, 2], trace = []\<rparr> = (r, u) \<and> ar_ready (self u) \<and> fst (ar_get id (self u)) = Inl ValueError"
  using apply_set_stores [of "\<lparr>self = ApplyResult 2 None None None (Some (\<lambda>_. Some MemoryError)) None None 10 None None [] True,
      cache = [1, 2], trace = []\<rparr>" "(False, PEinfo ValueError)" id]
  by (auto simp: ApplyResult_def outcome_def)

text \<open>
  When the accept callback raises, whatever it raises, \<open>_ack\<close> ends in \<open>AttributeError\<close> and
  sends neither \<open>ACK\<close> nor \<open>NACK\<close> to the worker; the acceptance itself is recorded.
\<close>

theorem accept_callback_error_sends_no_ack:
  assumes "\<not> ar_cancelled (self s)" "ar_on_timeout_set (self s) = None"
    "ar_accept_callback (self s) = Some f" "f pid t = Some e"
  shows "\<exists>u. ar_ack t pid fd s = (Inl AttributeError, u) \<and> ar_accepted (self u) \<and>
     filter is_send_ack (trace u) = filter is_send_ack (trace s)"
proof -
  obtain r u where ru: "ar_ack t pid fd s = (r, u)" by fastforce
  have "wp (ar_ack t pid fd) (\<lambda>_ u. False)
     (\<lambda>e u. e = AttributeError \<and> ar_accepted (self u) \<and>
        filter is_send_ack (trace u) = filter is_send_ack (trace s)) s"
    by (rule wp_mono [OF ar_ack_wp]) (use assms in \<open>auto simp: accept_raises_def ack_fields_def\<close>)
  then show ?thesis using ru by (cases r) (auto simp: wp_def)
qed

theorem accept_callback_error_sends_no_ack_witness:
  "\<exists>u. ar_ack 5 100 (Some 3) \<lparr>self = ApplyResult 2 None (Some (\<lambda>_ _. Some ValueError)) None None None None 10 None None [] True,
      cache = [2], trace = []\<rparr> = (Inl AttributeError, u)"
  using accept_callback_error_sends_no_ack [of "\<lparr>self = ApplyResult 2 None (Some (\<lambda>_ _. Some ValueError)) None None None None 10 None None [] True,
      cache = [2], trace = []\<rparr>" "\<lambda>_ _. Some ValueError" 100 5 ValueError "Some 3"]
  by (auto simp: ApplyResult_def)

end
