(* ===== verification/Map_Result.thy ===== *)
theory Map_Result
  imports Results
begin

text \<open>
  \<open>MapResult\<close> of \<open>billiard/pool.py\<close>: the object behind \<open>map_async\<close>, filled chunk by chunk.
  The lemmas show that the arrival order of the chunks does not matter and that one failure
  ends the map.
\<close>

section \<open>MapResult\<close>

text \<open>
  \<open>_value\<close> is a list of results, or an \<open>ExceptionInfo\<close> after a failure; the other lists
  have one entry per element.
\<close>

record map_result =
  mr_job :: nat
  mr_callback :: "(pyval \<Rightarrow> exn option) option"
  mr_error_callback :: "(pyval \<Rightarrow> exn option) option"
  mr_event :: bool
  mr_success :: bool
  mr_length :: nat
  mr_value :: pyval
  mr_accepted :: "bool list"
  mr_worker_pid :: "int option list"
  mr_time_accepted :: "int option list"
  mr_chunksize :: int
  mr_number_left :: int
  mr_worker_lost :: "(int \<times> int) option"

definition MapResult :: "nat \<Rightarrow> nat list \<Rightarrow> int \<Rightarrow> nat \<Rightarrow> (pyval \<Rightarrow> exn option) option
    \<Rightarrow> (pyval \<Rightarrow> exn option) option \<Rightarrow> map_result \<times> nat list" where
  "MapResult job c chunksize n callback error_callback =
     (\<lparr>mr_job = job, mr_callback = callback, mr_error_callback = error_callback,
       mr_event = (chunksize \<le> 0), mr_success = True, mr_length = n,
       mr_value = PList (replicate n PNone), mr_accepted = replicate n False,
       mr_worker_pid = replicate n None, mr_time_accepted = replicate n None,
       mr_chunksize = chunksize,
       mr_number_left = (if chunksize \<le> 0 then 0
          else int n div chunksize + (if int n mod chunksize \<noteq> 0 then 1 else 0)),
       mr_worker_lost = None\<rparr>,
      if chunksize \<le> 0 then remove1 job (cache_add job c) else cache_add job c)"

text \<open>\<open>xs[i:j] = ys\<close> for \<open>0 \<le> i \<le> j\<close>: the ends are cut to the length of the list.\<close>

definition slice_assign :: "'a list \<Rightarrow> nat \<Rightarrow> nat \<Rightarrow> 'a list \<Rightarrow> 'a list" where
  "slice_assign xs i j ys = take i xs @ ys @ drop (max i j) xs"

text \<open>
  \<open>_set\<close>. On the success branch the slice assignment needs \<open>_value\<close> to be a list and the
  result to be one; on an \<open>ExceptionInfo\<close>, or with \<open>i = None\<close>, Python raises \<open>TypeError\<close>.
\<close>

definition mr_set :: "nat option \<Rightarrow> result_obj \<Rightarrow> (map_result jstate, unit) act" where
  "mr_set i obj =
     (if fst obj then readA (\<lambda>s.
        case (i, mr_value (self s), snd obj) of
          (Some i, PList vs, PList rs) \<Rightarrow>
            let c = nat (mr_chunksize (self s)) in
            bindA (updA (\<lambda>j. j\<lparr>mr_value := PList (slice_assign vs (i * c) ((i + 1) * c) rs),
                               mr_number_left := mr_number_left j - 1\<rparr>)) (\<lambda>_.
            readA (\<lambda>s. let j = self s in
            whenA (mr_number_left j = 0)
              (bindA (case mr_callback j of None \<Rightarrow> ret ()
                      | Some f \<Rightarrow> callA (CallCallback (mr_job j) (mr_value j)) (f (mr_value j))) (\<lambda>_.
               bindA (whenA (mr_accepted j \<noteq> []) (cache_pop (mr_job j))) (\<lambda>_.
               updA (\<lambda>j. j\<lparr>mr_event := True\<rparr>))))))
        | _ \<Rightarrow> raise TypeError)
      else
        bindA (updA (\<lambda>j. j\<lparr>mr_success := False, mr_value := snd obj\<rparr>)) (\<lambda>_.
        readA (\<lambda>s. let j = self s in
        bindA (case mr_error_callback j of None \<Rightarrow> ret ()
               | Some f \<Rightarrow> callA (CallErrback (mr_job j) (mr_value j)) (f (mr_value j))) (\<lambda>_.
        bindA (whenA (mr_accepted j \<noteq> []) (cache_pop (mr_job j))) (\<lambda>_.
        updA (\<lambda>j. j\<lparr>mr_event := True\<rparr>))))))"

fun fill_range :: "'a \<Rightarrow> nat list \<Rightarrow> 'a list \<Rightarrow> 'a list" where
  "fill_range v [] xs = xs"
| "fill_range v (k # ks) xs = fill_range v ks (xs[k := v])"

definition mr_ack :: "nat \<Rightarrow> int \<Rightarrow> int \<Rightarrow> (map_result jstate, unit) act" where
  "mr_ack i time_accepted pid = readA (\<lambda>s.
     let c = nat (mr_chunksize (self s));
         ks = [i * c ..< min ((i + 1) * c) (mr_length (self s))]
     in bindA (updA (\<lambda>j. j\<lparr>mr_accepted := fill_range True ks (mr_accepted j),
                          mr_worker_pid := fill_range (Some pid) ks (mr_worker_pid j),
                          mr_time_accepted := fill_range (Some time_accepted) ks (mr_time_accepted j)\<rparr>)) (\<lambda>_.
        readA (\<lambda>s. whenA (mr_event (self s)) (cache_pop (mr_job (self s))))))"

definition mr_all_accepted :: "map_result \<Rightarrow> bool" where
  "mr_all_accepted j = list_all id (mr_accepted j)"

definition mr_worker_pids :: "map_result \<Rightarrow> int list" where
  "mr_worker_pids j = map the (filter truthy (mr_worker_pid j))"

section \<open>Properties of MapResult\<close>

text \<open>\<open>get\<close>, inherited from \<open>ApplyResult\<close>.\<close>

definition mr_get :: "(map_result \<Rightarrow> map_result) \<Rightarrow> map_result \<Rightarrow> (exn + pyval) \<times> map_result" where
  "mr_get env j =
     (let j = (if mr_event j then j else env j) in
      (if \<not> mr_event j then Inl TimeoutError
       else if mr_success j then Inr (mr_value j)
       else (case mr_value j of PEinfo e \<Rightarrow> Inl e | _ \<Rightarrow> Inl AttributeError), j))"

text \<open>The messages about a map job in the order the result handler reads them.\<close>

datatype map_msg = MapSet nat "pyval list" | MapAck nat int int

fun map_run :: "map_msg list \<Rightarrow> (map_result jstate, unit) act" where
  "map_run [] = ret ()"
| "map_run (MapSet i rs # ms) = bindA (mr_set (Some i) (True, PList rs)) (\<lambda>_. map_run ms)"
| "map_run (MapAck i t pid # ms) = bindA (mr_ack i t pid) (\<lambda>_. map_run ms)"

fun map_sets :: "map_msg list \<Rightarrow> nat list" where
  "map_sets [] = []"
| "map_sets (MapSet i _ # ms) = i # map_sets ms"
| "map_sets (MapAck _ _ _ # ms) = map_sets ms"

text \<open>Chunk \<open>i\<close> of a list cut in chunks of \<open>c\<close>, as \<open>_get_tasks\<close> cuts it, and the number of chunks.\<close>

definition chunk :: "nat \<Rightarrow> 'a list \<Rightarrow> nat \<Rightarrow> 'a list" where
  "chunk c xs i = take c (drop (i * c) xs)"

definition nchunks :: "nat \<Rightarrow> nat \<Rightarrow> nat" where
  "nchunks c n = n div c + (if n mod c \<noteq> 0 then 1 else 0)"

lemma nchunks_iff:
  assumes "0 < c"
  shows "i < nchunks c n \<longleftrightarrow> i * c < n"
proof -
  define q r where "q = n div c" and "r = n mod c"
  have n: "n = q * c + r" "r < c" using assms by (simp_all add: q_def r_def)
  have "i < q + (if r \<noteq> 0 then 1 else 0) \<longleftrightarrow> i * c < q * c + r"
  proof (cases "i \<le> q")
    case True
    show ?thesis
    proof (cases "i < q")
      case True
      then show ?thesis using trans_less_add1 [OF mult_less_mono1 [OF True assms], of r] by simp
    next
      case False
      with True show ?thesis by auto
    qed
  next
    case False
    then have "Suc q * c \<le> i * c" by (intro mult_le_mono1) simp
    then show ?thesis using False n by simp
  qed
  then show ?thesis unfolding nchunks_def q_def [symmetric] r_def [symmetric] using n(1) by simp
qed

lemma div_less_nchunks: "0 < c \<Longrightarrow> p < n \<Longrightarrow> p div c < nchunks c n"
  by (simp add: nchunks_iff) (metis div_times_less_eq_dividend order_le_less_trans)

lemma div_eq_iff_bounds:
  assumes "0 < (c :: nat)"
  shows "p div c = i \<longleftrightarrow> i * c \<le> p \<and> p < i * c + c"
proof
  assume "p div c = i"
  then show "i * c \<le> p \<and> p < i * c + c"
    using div_mult_mod_eq [of p c] mod_less_divisor [OF assms, of p] by auto
next
  assume "i * c \<le> p \<and> p < i * c + c"
  then show "p div c = i" by (intro div_nat_eqI) (simp_all add: mult.commute)
qed

lemma slice_chunk:
  assumes "0 < c" "length cur = length vs" "i * c < length vs"
  shows "length (slice_assign cur (i * c) ((i + 1) * c) (chunk c vs i)) = length vs"
    and "p < length vs \<Longrightarrow> slice_assign cur (i * c) ((i + 1) * c) (chunk c vs i) ! p =
      (if p div c = i then vs ! p else cur ! p)"
proof -
  have le: "i * c \<le> i * c + c" by simp
  show "length (slice_assign cur (i * c) ((i + 1) * c) (chunk c vs i)) = length vs"
    using assms by (auto simp: slice_assign_def chunk_def algebra_simps)
  assume p: "p < length vs"
  consider "p < i * c" | "i * c \<le> p" "p < i * c + c" | "i * c + c \<le> p" by linarith
  then show "slice_assign cur (i * c) ((i + 1) * c) (chunk c vs i) ! p =
      (if p div c = i then vs ! p else cur ! p)"
    unfolding div_eq_iff_bounds [OF assms(1)] using assms p
    by cases (auto simp: slice_assign_def chunk_def nth_append algebra_simps min_def)
qed

text \<open>
  The state after the chunks in \<open>D\<close> have arrived, of a map over a list whose results are \<open>vs\<close>.
\<close>

definition map_inv :: "nat \<Rightarrow> nat \<Rightarrow> pyval list \<Rightarrow> (pyval \<Rightarrow> exn option) option \<Rightarrow> nat set \<Rightarrow> map_result jstate \<Rightarrow> bool" where
  "map_inv job c vs cb D s \<longleftrightarrow>
     (let j = self s; n = length vs; left = nchunks c n - card D in
      mr_job j = job \<and> mr_chunksize j = int c \<and> mr_length j = n \<and> mr_success j \<and>
      mr_callback j = cb \<and> length (mr_accepted j) = n \<and>
      (\<exists>cur. mr_value j = PList cur \<and> length cur = n \<and> (\<forall>p < n. p div c \<in> D \<longrightarrow> cur ! p = vs ! p)) \<and>
      D \<subseteq> {..< nchunks c n} \<and> mr_number_left j = int left \<and> mr_event j = (left = 0) \<and>
      distinct (cache s) \<and> (left = 0 \<longrightarrow> job \<notin> set (cache s)) \<and>
      filter is_user_callback (trace s) =
        (if left = 0 \<and> cb \<noteq> None then [CallCallback job (PList vs)] else []))"

lemma map_inv_set:
  assumes inv: "map_inv job c vs cb D s" and c: "0 < c" and i: "i < nchunks c (length vs)" "i \<notin> D"
    and cb: "\<forall>f. cb = Some f \<longrightarrow> f (PList vs) = None"
  shows "wp (mr_set (Some i) (True, PList (chunk c vs i))) (\<lambda>_. map_inv job c vs cb (insert i D)) (\<lambda>_ _. False) s"
proof -
  let ?n = "length vs"
  let ?k = "nchunks c ?n"
  let ?j = "self s"
  from inv obtain cur where cur: "mr_value ?j = PList cur" "length cur = ?n"
    "\<forall>p < ?n. p div c \<in> D \<longrightarrow> cur ! p = vs ! p"
    and D: "D \<subseteq> {..< ?k}"
    and j: "mr_job ?j = job" "mr_chunksize ?j = int c" "mr_length ?j = ?n" "mr_success ?j" "mr_callback ?j = cb"
      "length (mr_accepted ?j) = ?n" "mr_number_left ?j = int (?k - card D)" "mr_event ?j = (?k - card D = 0)"
    and s: "distinct (cache s)" "?k - card D = 0 \<longrightarrow> job \<notin> set (cache s)"
      "filter is_user_callback (trace s) = (if ?k - card D = 0 \<and> cb \<noteq> None then [CallCallback job (PList vs)] else [])"
    unfolding map_inv_def Let_def by (elim conjE exE) (rule that)
  let ?cur = "slice_assign cur (i * c) ((i + 1) * c) (chunk c vs i)"
  have ic: "i * c < ?n" using i(1) c by (simp add: nchunks_iff)
  then have ne: "mr_accepted ?j \<noteq> []" using j(6) by auto
  have cur': "length ?cur = ?n" "\<forall>p < ?n. p div c \<in> insert i D \<longrightarrow> ?cur ! p = vs ! p"
    using slice_chunk [OF c cur(2) ic] cur(3) by auto
  have fin: "finite D" and D': "insert i D \<subseteq> {..< ?k}" using D i(1) finite_subset by auto
  have cardI: "card (insert i D) = Suc (card D)" using fin i(2) by simp
  have "card (insert i D) \<le> ?k" using card_mono [OF _ D'] by simp
  then have lt: "card D < ?k" using cardI by simp
  have all: "?cur = vs" if "Suc (card D) = ?k"
  proof -
    have "insert i D = {..< ?k}" using card_subset_eq [OF _ D'] cardI that by simp
    moreover have "p div c < ?k" if "p < ?n" for p using div_less_nchunks [OF c that] .
    ultimately show ?thesis using cur' by (intro nth_equalityI) auto
  qed
  have left: "int (?k - card D) - 1 = int (?k - Suc (card D))" using lt by simp
  have ev: "\<not> mr_event ?j" "filter is_user_callback (trace s) = []" using j(8) s(3) lt by auto
  show ?thesis
    unfolding mr_set_def using c cb j s cur cur' D' cardI lt left ev ne all
    by (cases cb; cases "Suc (card D) = ?k") (auto simp: wp_simps map_inv_def Let_def)
qed

lemma length_fill_range [simp]: "length (fill_range v ks xs) = length xs"
  by (induction v ks xs rule: fill_range.induct) auto

lemma map_inv_ack:
  "map_inv job c vs cb D s \<Longrightarrow> wp (mr_ack i t pid) (\<lambda>_. map_inv job c vs cb D) (\<lambda>_ _. False) s"
  by (auto simp: mr_ack_def wp_simps map_inv_def Let_def)

lemma map_inv_run:
  assumes c: "0 < c" and cb: "\<forall>f. cb = Some f \<longrightarrow> f (PList vs) = None"
  shows "map_inv job c vs cb D s \<Longrightarrow> distinct (map_sets ms) \<Longrightarrow> set (map_sets ms) \<inter> D = {} \<Longrightarrow>
    (\<And>i rs. MapSet i rs \<in> set ms \<Longrightarrow> i < nchunks c (length vs) \<and> rs = chunk c vs i) \<Longrightarrow>
    wp (map_run ms) (\<lambda>_. map_inv job c vs cb (D \<union> set (map_sets ms))) (\<lambda>_ _. False) s"
proof (induction ms arbitrary: D s rule: map_run.induct)
  case 1
  then show ?case by (simp add: wp_simps)
next
  case (2 i rs ms)
  have i: "i < nchunks c (length vs)" "rs = chunk c vs i" "i \<notin> D" using 2(5) [of i rs] 2(4) by auto
  show ?case
    unfolding map_run.simps wp_bind i(2)
    by (rule wp_mono [OF map_inv_set [OF 2(2) c i(1,3) cb]])
      (use 2(1) [of "insert i D"] 2(3-5) in \<open>auto\<close>)
next
  case (3 i t pid ms)
  show ?case
    unfolding map_run.simps wp_bind
    by (rule wp_mono [OF map_inv_ack [OF 3(2)]]) (use 3(1) [of D] 3(3-5) in \<open>auto\<close>)
qed

lemma map_run_collects:
  assumes "0 < c" "vs \<noteq> []" "distinct cc" "\<forall>f. cb = Some f \<longrightarrow> f (PList vs) = None"
    and ms: "distinct (map_sets ms)"
      "\<And>i rs. MapSet i rs \<in> set ms \<Longrightarrow> i < nchunks c (length vs) \<and> rs = chunk c vs i"
    and init: "MapResult job cc (int c) (length vs) cb ecb = (j, cc')"
  shows "\<exists>s. map_run ms \<lparr>self = j, cache = cc', trace = []\<rparr> = (Inr (), s) \<and>
    mr_event (self s) = (set (map_sets ms) = {..< nchunks c (length vs)}) \<and>
    (mr_event (self s) \<longrightarrow> fst (mr_get env (self s)) = Inr (PList vs) \<and> job \<notin> set (cache s) \<and>
       filter is_user_callback (trace s) = (if cb = None then [] else [CallCallback job (PList vs)]))"
proof -
  let ?s = "\<lparr>self = j, cache = cc', trace = []\<rparr>"
  let ?k = "nchunks c (length vs)"
  have k: "0 < ?k" using nchunks_iff [of c 0 "length vs"] assms(1,2) by simp
  have left: "int (length vs) div int c + (if int (length vs) mod int c \<noteq> 0 then 1 else 0) = int ?k"
    unfolding nchunks_def by (simp flip: of_nat_div of_nat_mod)
  have j: "j = \<lparr>mr_job = job, mr_callback = cb, mr_error_callback = ecb, mr_event = False, mr_success = True,
      mr_length = length vs, mr_value = PList (replicate (length vs) PNone),
      mr_accepted = replicate (length vs) False, mr_worker_pid = replicate (length vs) None,
      mr_time_accepted = replicate (length vs) None, mr_chunksize = int c, mr_number_left = int ?k,
      mr_worker_lost = None\<rparr>" and cc': "cc' = cache_add job cc"
    using init assms(1) unfolding MapResult_def left [symmetric] by simp_all
  have inv: "map_inv job c vs cb {} ?s"
    unfolding map_inv_def Let_def j cc' using k assms(3) by (simp add: cache_add_def)
  have run: "wp (map_run ms) (\<lambda>_. map_inv job c vs cb ({} \<union> set (map_sets ms))) (\<lambda>_ _. False) ?s"
    by (rule map_inv_run [OF assms(1,4) inv ms(1)], simp, erule ms(2))
  then obtain s where s: "map_run ms ?s = (Inr (), s)" and inv': "map_inv job c vs cb (set (map_sets ms)) s"
    unfolding wp_total by auto
  have all: "?k - card (set (map_sets ms)) = 0 \<longleftrightarrow> set (map_sets ms) = {..< ?k}"
    if "set (map_sets ms) \<subseteq> {..< ?k}"
    using card_seteq [OF finite_lessThan that] card_lessThan [of ?k] by (metis diff_is_0_eq order_refl)
  have vals: "cur = vs" if "length cur = length vs" "\<forall>p < length vs. p div c < ?k \<longrightarrow> cur ! p = vs ! p" for cur
  proof (rule nth_equalityI [OF that(1)])
    fix p assume "p < length cur"
    then show "cur ! p = vs ! p" using that div_less_nchunks [OF assms(1), of p "length vs"] by metis
  qed
  from inv' obtain cur where cur: "mr_value (self s) = PList cur" "length cur = length vs"
      "\<forall>p < length vs. p div c \<in> set (map_sets ms) \<longrightarrow> cur ! p = vs ! p"
    and D: "set (map_sets ms) \<subseteq> {..< ?k}" and ok: "mr_success (self s)"
    and ev: "mr_event (self s) = (?k - card (set (map_sets ms)) = 0)"
    and gone: "?k - card (set (map_sets ms)) = 0 \<longrightarrow> job \<notin> set (cache s)"
    and tr: "filter is_user_callback (trace s) =
        (if ?k - card (set (map_sets ms)) = 0 \<and> cb \<noteq> None then [CallCallback job (PList vs)] else [])"
    unfolding map_inv_def Let_def by (elim conjE exE) (rule that)
  have "mr_event (self s) = (set (map_sets ms) = {..< ?k})" using ev all [OF D] by simp
  moreover have "fst (mr_get env (self s)) = Inr (PList vs) \<and> job \<notin> set (cache s) \<and>
       filter is_user_callback (trace s) = (if cb = None then [] else [CallCallback job (PList vs)])"
    if e: "mr_event (self s)"
  proof -
    have "cur = vs" using vals [OF cur(2)] cur(3) e ev all [OF D] by auto
    then show ?thesis using cur(1) ok gone tr e ev by (simp add: mr_get_def)
  qed
  ultimately show ?thesis using s by blast
qed

text \<open>
  A map over a list whose results are \<open>vs\<close>, cut in chunks of \<open>c\<close>: whatever the order
  in which the results of the chunks arrive, and however acknowledgements are mixed with them, no
  step raises; the job is ready exactly when all the chunks are there, and then \<open>get\<close> gives \<open>vs\<close>,
  the job has left the cache and the callback has been called once, with \<open>vs\<close>.
\<close>

theorem map_collects_in_order:
  assumes "0 < c" "vs \<noteq> []" "distinct cc" "\<forall>f. cb = Some f \<longrightarrow> f (PList vs) = None"
    and ms: "distinct (map_sets ms)"
      "\<And>i rs. MapSet i rs \<in> set ms \<Longrightarrow> i < nchunks c (length vs) \<and> rs = chunk c vs i"
    and init: "MapResult job cc (int c) (length vs) cb ecb = (j, cc')"
  shows "\<exists>s. map_run ms \<lparr>self = j, cache = cc', trace = []\<rparr> = (Inr (), s) \<and>
    mr_event (self s) = (set (map_sets ms) = {..< nchunks c (length vs)}) \<and>
    (mr_event (self s) \<longrightarrow> fst (mr_get env (self s)) = Inr (PList vs) \<and> job \<notin> set (cache s) \<and>
       filter is_user_callback (trace s) = (if cb = None then [] else [CallCallback job (PList vs)]))"
  by (rule map_run_collects [OF assms(1-4) ms init])

theorem map_collects_in_order_witness:
  "\<exists>s. map_run [MapSet 1 [PInt 7], MapAck 0 3 50, MapSet 0 [PInt 5, PInt 6]]
      \<lparr>self = fst (MapResult 9 [1] 2 3 None None), cache = snd (MapResult 9 [1] 2 3 None None), trace = []\<rparr> = (Inr (), s) \<and>
     fst (mr_get id (self s)) = Inr (PList [PInt 5, PInt 6, PInt 7]) \<and> 9 \<notin> set (cache s)"
proof -
  let ?m = "MapResult 9 [1] 2 3 None None"
  let ?ms = "[MapSet 1 [PInt 7], MapAck 0 3 50, MapSet 0 [PInt 5, PInt 6]]"
  have all: "set (map_sets ?ms) = {..< nchunks 2 3}" by (auto simp: nchunks_def)
  have sets: "i < nchunks 2 (length [PInt 5, PInt 6, PInt 7]) \<and> rs = chunk 2 [PInt 5, PInt 6, PInt 7] i"
    if "MapSet i rs \<in> set ?ms" for i rs
    using that by (auto simp: nchunks_def chunk_def)
  have init: "MapResult 9 [1] (int 2) (length [PInt 5, PInt 6, PInt 7]) None None = (fst ?m, snd ?m)"
    by (simp add: eval_nat_numeral)
  have ms: "distinct (map_sets ?ms)" by simp
  have all': "{..< nchunks 2 (length [PInt 5, PInt 6, PInt 7])} = set (map_sets ?ms)"
    using all by (simp add: eval_nat_numeral)
  have "\<exists>s. map_run ?ms \<lparr>self = fst ?m, cache = snd ?m, trace = []\<rparr> = (Inr (), s) \<and>
    mr_event (self s) = (set (map_sets ?ms) = {..< nchunks 2 (length [PInt 5, PInt 6, PInt 7])}) \<and>
    (mr_event (self s) \<longrightarrow> fst (mr_get id (self s)) = Inr (PList [PInt 5, PInt 6, PInt 7]) \<and>
       9 \<notin> set (cache s) \<and> filter is_user_callback (trace s) =
         (if None = (None :: (pyval \<Rightarrow> exn option) option) then [] else [CallCallback 9 (PList [PInt 5, PInt 6, PInt 7])]))"
    by (rule map_collects_in_order [OF _ _ _ _ ms sets init]) simp_all
  then show ?thesis unfolding all' by blast
qed

text \<open>
  The failure of one chunk ends the whole map: the job is ready, \<open>get\<close> raises the
  chunk's exception, the job leaves the cache (so the pool drops the later messages about it), and
  a success given to the object afterwards is refused with \<open>TypeError\<close>.
\<close>

theorem map_chunk_failure:
  assumes "mr_length (self s) = length (mr_accepted (self s))" "mr_accepted (self s) \<noteq> []"
    "distinct (cache s)" "\<forall>f. mr_error_callback (self s) = Some f \<longrightarrow> f (PEinfo e) = None"
  shows "\<exists>u. mr_set i (False, PEinfo e) s = (Inr (), u) \<and> mr_event (self u) \<and>
    fst (mr_get env (self u)) = Inl e \<and> set (cache u) = set (cache s) - {mr_job (self s)} \<and>
    mr_set i' (True, v) u = (Inl TypeError, u)"
proof -
  have "wp (mr_set i (False, PEinfo e)) (\<lambda>_ u. mr_event (self u) \<and> fst (mr_get env (self u)) = Inl e \<and>
     set (cache u) = set (cache s) - {mr_job (self s)} \<and> mr_set i' (True, v) u = (Inl TypeError, u))
    (\<lambda>_ _. False) s"
    using assms unfolding mr_set_def
    by (cases i') (auto simp: wp_simps Let_def mr_get_def readA_def raise_def split: option.split)
  then show ?thesis unfolding wp_total by auto
qed

theorem map_chunk_failure_witness:
  "\<exists>u. mr_set (Some 0) (False, PEinfo ValueError)
      \<lparr>self = fst (MapResult 9 [1] 2 3 None None), cache = [1, 9], trace = []\<rparr> = (Inr (), u) \<and>
     fst (mr_get id (self u)) = Inl ValueError"
  using map_chunk_failure [of "\<lparr>self = fst (MapResult 9 [1] 2 3 None None), cache = [1, 9], trace = []\<rparr>"
    ValueError "Some 0" id None PNone]
  by (auto simp: MapResult_def)

end
