(* ===== verification/Imap_Result.thy ===== *)
theory Imap_Result
  imports Results "HOL-Library.AList"
begin

text \<open>
  \<open>IMapIterator\<close> and \<open>IMapUnorderedIterator\<close> of \<open>billiard/pool.py\<close>, which hand out the results
  of \<open>imap\<close> while they arrive. The lemmas show that \<open>IMapIterator\<close> restores the order of the
  input from any arrival order.
\<close>

section \<open>IMapIterator and IMapUnorderedIterator\<close>

text \<open>
  The dict \<open>_unsorted\<close> is an association list; its keys are the indices given to \<open>_set\<close>,
  which may be \<open>None\<close>.
\<close>

record imap_iter =
  im_job :: nat
  im_items :: "result_obj list"
  im_index :: nat
  im_len :: "nat option"
  im_ready :: bool
  im_unsorted :: "(nat option \<times> result_obj) list"
  im_worker_pids :: "int list"
  im_lost_worker_timeout :: int
  im_worker_lost :: "(int \<times> int) option"

definition IMapIterator :: "nat \<Rightarrow> int \<Rightarrow> imap_iter" where
  "IMapIterator job lost_worker_timeout =
     \<lparr>im_job = job, im_items = [], im_index = 0, im_len = None, im_ready = False,
      im_unsorted = [], im_worker_pids = [], im_lost_worker_timeout = lost_worker_timeout,
      im_worker_lost = None\<rparr>"

text \<open>
  \<open>next\<close>: the items in hand first, then the end of the sequence, and only then waiting;
  \<open>env\<close> is what the other threads do to the object during the wait.
\<close>

definition raise_item :: "result_obj \<Rightarrow> exn + pyval" where
  "raise_item item = (if fst item then Inr (snd item)
     else (case snd item of PEinfo e \<Rightarrow> Inl e | _ \<Rightarrow> Inl AttributeError))"

definition im_next :: "(imap_iter \<Rightarrow> imap_iter) \<Rightarrow> imap_iter \<Rightarrow> (exn + pyval) \<times> imap_iter" where
  "im_next env j =
     (case im_items j of
        item # rest \<Rightarrow> (raise_item item, j\<lparr>im_items := rest\<rparr>)
      | [] \<Rightarrow>
          if Some (im_index j) = im_len j then (Inl StopIteration, j\<lparr>im_ready := True\<rparr>)
          else
            let j = env j in
            (case im_items j of
               item # rest \<Rightarrow> (raise_item item, j\<lparr>im_items := rest\<rparr>)
             | [] \<Rightarrow>
                 if Some (im_index j) = im_len j then (Inl StopIteration, j\<lparr>im_ready := True\<rparr>)
                 else (Inl TimeoutError, j)))"

text \<open>The loop that moves the results waiting in \<open>_unsorted\<close>: at most one round per entry.\<close>

fun im_flush :: "nat \<Rightarrow> imap_iter \<Rightarrow> imap_iter" where
  "im_flush 0 j = j"
| "im_flush (Suc fuel) j =
     (case map_of (im_unsorted j) (Some (im_index j)) of
        None \<Rightarrow> j
      | Some obj \<Rightarrow> im_flush fuel
          (j\<lparr>im_unsorted := AList.delete (Some (im_index j)) (im_unsorted j),
             im_items := im_items j @ [obj], im_index := im_index j + 1\<rparr>))"

definition im_finish :: "(imap_iter jstate, unit) act" where
  "im_finish = readA (\<lambda>s. let j = self s in
     whenA (Some (im_index j) = im_len j)
       (bindA (updA (\<lambda>j. j\<lparr>im_ready := True\<rparr>)) (\<lambda>_. cache_del (im_job j))))"

definition im_set :: "nat option \<Rightarrow> result_obj \<Rightarrow> (imap_iter jstate, unit) act" where
  "im_set i obj =
     bindA (updA (\<lambda>j.
       if i = Some (im_index j) then
         im_flush (length (im_unsorted j))
           (j\<lparr>im_items := im_items j @ [obj], im_index := im_index j + 1\<rparr>)
       else j\<lparr>im_unsorted := AList.update i obj (im_unsorted j)\<rparr>))
     (\<lambda>_. im_finish)"

definition im_set_length :: "nat \<Rightarrow> (imap_iter jstate, unit) act" where
  "im_set_length n = bindA (updA (\<lambda>j. j\<lparr>im_len := Some n\<rparr>)) (\<lambda>_. im_finish)"

definition im_ack :: "int \<Rightarrow> imap_iter \<Rightarrow> imap_iter" where
  "im_ack pid j = j\<lparr>im_worker_pids := im_worker_pids j @ [pid]\<rparr>"

definition imu_set :: "nat option \<Rightarrow> result_obj \<Rightarrow> (imap_iter jstate, unit) act" where
  "imu_set i obj =
     bindA (updA (\<lambda>j. j\<lparr>im_items := im_items j @ [obj], im_index := im_index j + 1\<rparr>)) (\<lambda>_. im_finish)"

section \<open>Properties\<close>

text \<open>
  What happens to an iterator: a result arrives, the number of tasks becomes known, or the
  consumer asks for the next item (here without waiting, so an empty iterator gives nothing).
  The run collects what the consumer was given.
\<close>

datatype im_event = ImSet nat result_obj | ImLen nat | ImNext

definition im_take :: "(imap_iter jstate, (exn + pyval) list) act" where
  "im_take s = (let (r, j) = im_next id (self s) in
     (Inr (if im_items (self s) = [] then [] else [r]), s\<lparr>self := j\<rparr>))"

fun im_run :: "im_event list \<Rightarrow> (imap_iter jstate, (exn + pyval) list) act" where
  "im_run [] = ret []"
| "im_run (ImSet i obj # es) = bindA (im_set (Some i) obj) (\<lambda>_. im_run es)"
| "im_run (ImLen n # es) = bindA (im_set_length n) (\<lambda>_. im_run es)"
| "im_run (ImNext # es) = bindA im_take (\<lambda>out. bindA (im_run es) (\<lambda>out'. ret (out @ out')))"

fun im_sets :: "im_event list \<Rightarrow> (nat \<times> result_obj) list" where
  "im_sets [] = []"
| "im_sets (ImSet i obj # es) = (i, obj) # im_sets es"
| "im_sets (_ # es) = im_sets es"

fun im_lens :: "im_event list \<Rightarrow> nat list" where
  "im_lens [] = []"
| "im_lens (ImLen n # es) = n # im_lens es"
| "im_lens (_ # es) = im_lens es"

text \<open>
  The reference: \<open>f\<close> gives the results that have arrived. The iterator has taken the results
  \<open>0 .. index - 1\<close>, of which the first \<open>k\<close> were given out, and waits for \<open>index\<close>; the others
  are in \<open>_unsorted\<close>. The job leaves the cache when the index reaches the length.
\<close>

definition im_inv :: "nat \<Rightarrow> nat list \<Rightarrow> (nat \<rightharpoonup> result_obj) \<Rightarrow> nat option \<Rightarrow> nat \<Rightarrow> imap_iter jstate \<Rightarrow> bool" where
  "im_inv job c f len k s \<longleftrightarrow>
     (let j = self s; n = im_index j in
      im_job j = job \<and> im_len j = len \<and> k \<le> n \<and>
      im_items j = map (\<lambda>i. the (f i)) [k ..< n] \<and>
      {..< n} \<subseteq> dom f \<and> f n = None \<and>
      (\<forall>i. map_of (im_unsorted j) i = (case i of None \<Rightarrow> None | Some i \<Rightarrow> if i < n then None else f i)) \<and>
      cache s = (if len = Some n then remove1 job c else c) \<and> (len = Some n \<longrightarrow> im_ready j))"

text \<open>The loop of \<open>_set\<close> restores the part of the invariant that the new result broke.\<close>

definition flush_inv :: "nat \<Rightarrow> (nat \<rightharpoonup> result_obj) \<Rightarrow> nat option \<Rightarrow> nat \<Rightarrow> imap_iter \<Rightarrow> bool" where
  "flush_inv job f len k j \<longleftrightarrow>
     (let n = im_index j in
      im_job j = job \<and> im_len j = len \<and> k \<le> n \<and>
      im_items j = map (\<lambda>i. the (f i)) [k ..< n] \<and> {..< n} \<subseteq> dom f \<and>
      (\<forall>i. map_of (im_unsorted j) i = (case i of None \<Rightarrow> None | Some i \<Rightarrow> if i < n then None else f i)))"

lemma flush_step:
  assumes "flush_inv job f len k j" "map_of (im_unsorted j) (Some (im_index j)) = Some obj"
  shows "flush_inv job f len k (j\<lparr>im_unsorted := AList.delete (Some (im_index j)) (im_unsorted j),
             im_items := im_items j @ [obj], im_index := im_index j + 1\<rparr>)"
proof -
  have f: "f (im_index j) = Some obj" using assms by (simp add: flush_inv_def Let_def)
  have m: "map_of (AList.delete (Some (im_index j)) (im_unsorted j)) = (map_of (im_unsorted j))(Some (im_index j) := None)"
    by (simp add: delete_conv')
  have "{..< Suc (im_index j)} \<subseteq> dom f"
    using assms(1) f by (auto simp: flush_inv_def Let_def lessThan_Suc)
  then show ?thesis
    using assms(1) f unfolding flush_inv_def Let_def
    by (simp add: m split: option.split)
qed

lemma flush_head: "flush_inv job f len k j \<Longrightarrow> map_of (im_unsorted j) (Some (im_index j)) = f (im_index j)"
  unfolding flush_inv_def Let_def by simp

lemma flush_done:
  "flush_inv job f len k j \<Longrightarrow> length (im_unsorted j) \<le> fuel \<Longrightarrow>
   flush_inv job f len k (im_flush fuel j) \<and> f (im_index (im_flush fuel j)) = None"
proof (induction fuel arbitrary: j)
  case 0
  then show ?case using flush_head [OF 0(1)] by simp
next
  case (Suc fuel)
  show ?case
  proof (cases "map_of (im_unsorted j) (Some (im_index j))")
    case None
    then show ?thesis using Suc.prems flush_head [OF Suc.prems(1)] by simp
  next
    case (Some obj)
    have "length (AList.delete (Some (im_index j)) (im_unsorted j)) < length (im_unsorted j)"
      unfolding AList.delete_eq using map_of_SomeD [OF Some] by (intro length_filter_less) auto
    then show ?thesis using Suc.IH [OF flush_step [OF Suc.prems(1) Some]] Suc.prems(2) Some by simp
  qed
qed

lemma im_inv_flush: "im_inv job c f len k s \<longleftrightarrow> flush_inv job f len k (self s) \<and> f (im_index (self s)) = None \<and>
    cache s = (if len = Some (im_index (self s)) then remove1 job c else c) \<and>
    (len = Some (im_index (self s)) \<longrightarrow> im_ready (self s))"
  by (auto simp: im_inv_def flush_inv_def Let_def)

lemma flush_inv_ready [simp]: "flush_inv job f len k (j\<lparr>im_ready := b\<rparr>) = flush_inv job f len k j"
  by (simp add: flush_inv_def Let_def)

lemma im_finish_wp:
  assumes "flush_inv job f len k (self s)" "f (im_index (self s)) = None" "cache s = c" "job \<in> set c"
  shows "wp im_finish (\<lambda>_. im_inv job c f len k) (\<lambda>_ _. False) s"
proof -
  have j: "im_job (self s) = job" "im_len (self s) = len" using assms(1) by (simp_all add: flush_inv_def Let_def)
  show ?thesis
    using assms j
    by (cases "len = Some (im_index (self s))")
       (simp_all add: im_finish_def wp_simps im_inv_flush Let_def)
qed

lemma im_inv_set:
  assumes inv: "im_inv job c f len k s" and i: "f i = None" and c: "job \<in> set c"
    and len: "\<forall>n. len = Some n \<longrightarrow> i < n"
  shows "wp (im_set (Some i) obj) (\<lambda>_. im_inv job c (f(i \<mapsto> obj)) len k) (\<lambda>_ _. False) s"
proof -
  let ?j = "self s" and ?f = "f(i \<mapsto> obj)"
  let ?n = "im_index ?j"
  have fl: "flush_inv job f len k ?j" and n: "f ?n = None" and ca: "len \<noteq> Some ?n \<Longrightarrow> cache s = c"
    using inv by (auto simp: im_inv_flush)
  have le: "?n \<le> i"
    using fl i by (auto simp: flush_inv_def Let_def domIff) (metis domIff lessThan_iff not_le subset_iff)
  then have "len \<noteq> Some ?n" using len by auto
  then have ca: "cache s = c" by (rule ca)
  show ?thesis
  proof (cases "i = ?n")
    case True
    let ?j' = "?j\<lparr>im_items := im_items ?j @ [obj], im_index := ?n + 1\<rparr>"
    have "flush_inv job ?f len k ?j'"
      using fl n True unfolding flush_inv_def Let_def
      by (auto simp: lessThan_Suc less_Suc_eq split: option.splits)
    from flush_done [OF this order_refl] show ?thesis
      unfolding im_set_def using True ca c by (simp add: wp_simps im_finish_wp)
  next
    case False
    let ?j' = "?j\<lparr>im_unsorted := AList.update (Some i) obj (im_unsorted ?j)\<rparr>"
    have "flush_inv job ?f len k ?j'"
      using fl False le unfolding flush_inv_def Let_def
      by (auto simp: update_conv' split: option.splits)
    then show ?thesis
      unfolding im_set_def using False ca c n by (simp add: wp_simps im_finish_wp)
  qed
qed

lemma im_inv_set_length:
  assumes inv: "im_inv job c f None k s" and c: "job \<in> set c"
  shows "wp (im_set_length n) (\<lambda>_. im_inv job c f (Some n) k) (\<lambda>_ _. False) s"
proof -
  have "flush_inv job f (Some n) k ((self s)\<lparr>im_len := Some n\<rparr>)" "f (im_index (self s)) = None" "cache s = c"
    using inv by (auto simp: im_inv_flush flush_inv_def Let_def)
  then show ?thesis unfolding im_set_length_def using c by (simp add: wp_simps im_finish_wp)
qed

lemma im_inv_take:
  assumes inv: "im_inv job c f len k s"
  shows "wp im_take (\<lambda>out t. \<exists>k'. im_inv job c f len k' t \<and> k \<le> k' \<and>
      out = map (\<lambda>i. raise_item (the (f i))) [k ..< k']) (\<lambda>_ _. False) s"
proof (cases "im_items (self s)")
  case Nil
  then have "wp im_take (\<lambda>out t. im_inv job c f len k t \<and> out = []) (\<lambda>_ _. False) s"
    using inv by (auto simp: im_take_def im_next_def wp_def im_inv_flush Let_def)
  then show ?thesis by (rule wp_mono) auto
next
  case (Cons item rest)
  let ?n = "im_index (self s)"
  have it: "item # rest = map (\<lambda>i. the (f i)) [k ..< ?n]" "k \<le> ?n"
    using inv Cons by (simp_all add: im_inv_def Let_def)
  then have k: "k < ?n" by (metis list.distinct(1) list.simps(8) upt_rec)
  then have it': "item = the (f k)" "rest = map (\<lambda>i. the (f i)) [Suc k ..< ?n]" using it(1) by (simp_all add: upt_rec)
  have take: "im_take s = (Inr [raise_item item], s\<lparr>self := (self s)\<lparr>im_items := rest\<rparr>\<rparr>)"
    using Cons by (simp add: im_take_def im_next_def)
  have "im_inv job c f len (Suc k) (s\<lparr>self := (self s)\<lparr>im_items := rest\<rparr>\<rparr>)"
    using inv k unfolding im_inv_def Let_def by (simp add: it'(2) cong: option.case_cong)
  then show ?thesis unfolding wp_def take by (auto intro!: exI [of _ "Suc k"] simp: it'(1))
qed


lemma im_inv_run:
  "im_inv job c f len k s \<Longrightarrow> job \<in> set c \<Longrightarrow> distinct (map fst (im_sets es)) \<Longrightarrow>
   fst ` set (im_sets es) \<inter> dom f = {} \<Longrightarrow> fst ` set (im_sets es) \<subseteq> {..< n} \<Longrightarrow>
   (len = None \<and> (im_lens es = [n] \<or> im_lens es = [])) \<or> (len = Some n \<and> im_lens es = []) \<Longrightarrow>
   wp (im_run es) (\<lambda>out t. \<exists>k'. k \<le> k' \<and>
       im_inv job c (f ++ map_of (im_sets es)) (if im_lens es = [] then len else Some n) k' t \<and>
       out = map (\<lambda>i. raise_item (the ((f ++ map_of (im_sets es)) i))) [k ..< k']) (\<lambda>_ _. False) s"
proof (induction es arbitrary: f len k s rule: im_run.induct)
  case 1
  then show ?case by (auto simp: wp_simps)
next
  case (2 i obj es)
  have new: "f i = None" "\<forall>m. len = Some m \<longrightarrow> i < m" "i \<notin> fst ` set (im_sets es)" using 2(4-7) by auto
  have eq: "f(i \<mapsto> obj) ++ map_of (im_sets es) = f ++ map_of (im_sets (ImSet i obj # es))"
  proof -
    have "map_of (im_sets es) i = None" using new(3) by (simp add: map_of_eq_None_iff)
    then show ?thesis by (auto simp: fun_eq_iff map_add_def split: option.split)
  qed
  show ?case
    unfolding im_run.simps wp_bind eq [symmetric]
  proof (rule wp_mono [OF im_inv_set [OF 2(2) new(1) 2(3) new(2)]], goal_cases)
    case (1 a t)
    have lens: "im_lens (ImSet i obj # es) = im_lens es" by simp
    show ?case
      unfolding lens by (rule 2(1) [OF 1 2(3)]) (use 2(4-7) new(3) in \<open>auto simp del: fun_upd_apply\<close>)
  qed simp
next
  case (3 m es)
  then have m: "m = n" "len = None" "im_lens es = []" by auto
  have inv: "im_inv job c f None k s" using 3(2) m by simp
  show ?case
    unfolding im_run.simps wp_bind
    by (rule wp_mono [OF im_inv_set_length [OF inv 3(3)]])
       (use 3(1) [of f "Some n" k] 3(3-6) m in \<open>auto\<close>)
next
  case (4 es)
  let ?g = "f ++ map_of (im_sets es)"
  have keep: "the (f i) = the (?g i)" if "i \<in> dom f" for i
    using that 4(5) by (auto simp: map_add_def dom_def map_of_eq_None_iff split: option.split dest!: map_of_SomeD)
  have below: "i \<in> dom f" if "im_inv job c f len k' t" "i < k'" for k' i t
  proof -
    have "{..< im_index (self t)} \<subseteq> dom f" "k' \<le> im_index (self t)"
      using that(1) by (simp_all add: im_inv_def Let_def)
    then show ?thesis using that(2) by (metis lessThan_iff order_less_le_trans subsetD)
  qed
  show ?case
    unfolding im_run.simps wp_bind
  proof (rule wp_mono [OF im_inv_take [OF 4(2)]], goal_cases)
    case (1 out t)
    then obtain k' where k': "im_inv job c f len k' t" "k \<le> k'" and out: "out = map (\<lambda>i. raise_item (the (f i))) [k ..< k']"
      by blast
    have out: "out = map (\<lambda>i. raise_item (the (?g i))) [k ..< k']" unfolding out using keep below [OF k'(1)] by simp
    have lens: "im_lens (ImNext # es) = im_lens es" "im_sets (ImNext # es) = im_sets es" by simp_all
    have ih: "wp (im_run es) (\<lambda>out t. \<exists>k''. k' \<le> k'' \<and>
       im_inv job c ?g (if im_lens es = [] then len else Some n) k'' t \<and>
       out = map (\<lambda>i. raise_item (the (?g i))) [k' ..< k'']) (\<lambda>_ _. False) t"
      by (rule 4(1) [OF k'(1)]) (use 4(3-7) in auto)
    show ?case
      unfolding wp_ret lens
    proof (rule wp_mono [OF ih], goal_cases)
      case (1 out' u)
      then obtain k'' where k'': "k' \<le> k''" "im_inv job c ?g (if im_lens es = [] then len else Some n) k'' u"
        "out' = map (\<lambda>i. raise_item (the (?g i))) [k' ..< k'']" by blast
      have "[k ..< k''] = [k ..< k'] @ [k' ..< k'']" using k'(2) k''(1) by (metis le_add_diff_inverse upt_add_eq_append)
      then show ?case using k'' k'(2) out by (intro exI [of _ k'']) simp
    qed simp
  qed simp
qed

text \<open>
  C9. Whatever the order in which the results of \<open>imap\<close> arrive and in which the number of
  tasks becomes known, and wherever the consumer's calls of \<open>next\<close> fall, no message is refused and
  the consumer is given the results in the order of the input, without a gap; when all \<open>n\<close> results
  and the length have arrived, everything not yet given out is in hand and the job has left the
  cache.
\<close>

theorem imap_in_order:
  assumes c: "job \<in> set c" "distinct c"
    and sets: "distinct (map fst (im_sets es))" "fst ` set (im_sets es) \<subseteq> {..< n}" and lens: "im_lens es = [n] \<or> im_lens es = []"
  shows "\<exists>out s k. im_run es \<lparr>self = IMapIterator job lwt, cache = c, trace = []\<rparr> = (Inr out, s) \<and>
    out @ map raise_item (im_items (self s)) = map (\<lambda>i. raise_item (the (map_of (im_sets es) i))) [0 ..< k] \<and>
    k = im_index (self s) \<and>
    (fst ` set (im_sets es) = {..< n} \<longrightarrow> k = n \<and> (im_lens es = [n] \<longrightarrow> job \<notin> set (cache s) \<and> im_ready (self s)))"
proof -
  let ?s = "\<lparr>self = IMapIterator job lwt, cache = c, trace = []\<rparr>"
  let ?f = "map_of (im_sets es)"
  have inv: "im_inv job c Map.empty None 0 ?s"
    by (auto simp: im_inv_def IMapIterator_def Let_def split: option.split)
  from im_inv_run [OF inv c(1) sets(1) _ sets(2)] lens sets(2)
  have "wp (im_run es) (\<lambda>out t. \<exists>k'. 0 \<le> k' \<and>
       im_inv job c ?f (if im_lens es = [] then None else Some n) k' t \<and>
       out = map (\<lambda>i. raise_item (the (?f i))) [0 ..< k']) (\<lambda>_ _. False) ?s"
    by simp
  then obtain out s k where run: "im_run es ?s = (Inr out, s)"
    and inv: "im_inv job c ?f (if im_lens es = [] then None else Some n) k s"
    and out: "out = map (\<lambda>i. raise_item (the (?f i))) [0 ..< k]"
    unfolding wp_total by blast
  let ?n = "im_index (self s)"
  have s: "k \<le> ?n" "im_items (self s) = map (\<lambda>i. the (?f i)) [k ..< ?n]" "{..< ?n} \<subseteq> dom ?f" "?f ?n = None"
    and fin: "im_lens es \<noteq> [] \<Longrightarrow> n = ?n \<Longrightarrow> cache s = remove1 job c \<and> im_ready (self s)"
    using inv by (auto simp: im_inv_def Let_def)
  have "[0 ..< ?n] = [0 ..< k] @ [k ..< ?n]" using s(1) upt_add_eq_append [of 0 k "?n - k"] by simp
  then have items: "out @ map raise_item (im_items (self s)) = map (\<lambda>i. raise_item (the (?f i))) [0 ..< ?n]"
    unfolding out s(2) by simp
  have all: "?n = n" if all: "fst ` set (im_sets es) = {..< n}"
  proof -
    have "dom ?f = {..< n}" using all by (simp add: dom_map_of_conv_image_fst)
    then show ?thesis using s(3,4) by (metis domIff lessThan_iff lessThan_subset_iff nat_neq_iff not_le)
  qed
  have gone: "job \<notin> set (remove1 job c)" using c(2) by simp
  have "?n = n \<and> (im_lens es = [n] \<longrightarrow> job \<notin> set (cache s) \<and> im_ready (self s))"
    if "fst ` set (im_sets es) = {..< n}"
    using all [OF that] fin gone by simp
  then show ?thesis using run items by blast
qed

theorem imap_in_order_witness:
  "\<exists>out s. im_run [ImSet 1 (True, PInt 6), ImNext, ImSet 0 (True, PInt 5), ImNext, ImLen 2]
      \<lparr>self = IMapIterator 4 10, cache = [4], trace = []\<rparr> = (Inr out, s) \<and>
     out @ map raise_item (im_items (self s)) = [Inr (PInt 5), Inr (PInt 6)] \<and> 4 \<notin> set (cache s)"
  using imap_in_order [of 4 "[4]" "[ImSet 1 (True, PInt 6), ImNext, ImSet 0 (True, PInt 5), ImNext, ImLen 2]" 2 10]
  by (auto simp: eval_nat_numeral raise_item_def lessThan_Suc)

text \<open>
  The result the pool stores for a lost worker, \<open>_set(None, ...)\<close>, is never delivered: the
  index \<open>None\<close> matches no position, so the items, the index, the readiness and the cache are
  unchanged, and a consumer waiting for the lost task goes on waiting.
\<close>

theorem imap_lost_result_not_delivered:
  assumes "Some (im_index (self s)) \<noteq> im_len (self s)"
  shows "\<exists>t. im_set None obj s = (Inr (), t) \<and> im_items (self t) = im_items (self s) \<and>
    im_index (self t) = im_index (self s) \<and> im_ready (self t) = im_ready (self s) \<and> cache t = cache s \<and>
    (im_items (self s) = [] \<longrightarrow> fst (im_next id (self t)) = Inl TimeoutError)"
proof -
  have "wp (im_set None obj) (\<lambda>_ t. im_items (self t) = im_items (self s) \<and>
    im_index (self t) = im_index (self s) \<and> im_ready (self t) = im_ready (self s) \<and> cache t = cache s \<and>
    (im_items (self s) = [] \<longrightarrow> fst (im_next id (self t)) = Inl TimeoutError)) (\<lambda>_ _. False) s"
    using assms by (simp add: im_set_def im_finish_def im_next_def wp_simps Let_def)
  then show ?thesis unfolding wp_total by auto
qed

theorem imap_lost_result_not_delivered_witness:
  "\<exists>t. im_set None (False, PEinfo (WorkerLostError 9))
      \<lparr>self = (IMapIterator 4 10)\<lparr>im_len := Some 1\<rparr>, cache = [4], trace = []\<rparr> = (Inr (), t) \<and>
     fst (im_next id (self t)) = Inl TimeoutError"
  using imap_lost_result_not_delivered [of "\<lparr>self = (IMapIterator 4 10)\<lparr>im_len := Some 1\<rparr>, cache = [4], trace = []\<rparr>"
    "(False, PEinfo (WorkerLostError 9))"]
  by (auto simp: IMapIterator_def)

end
