(* ===== verification/Worker.thy ===== *)
theory Worker
  imports Results
begin

text \<open>
  \<open>Worker\<close> of \<open>billiard/pool.py\<close>: the loop a worker process runs.

  \<^item> What the input queues give is a script: one entry per call of the receive function,
    with the clock reading that follows. A run of the loop over a script ends when it returns or
    raises, or with \<open>None\<close> when it is waiting for an entry the script does not have.
  \<^item> \<open>wenv\<close> holds what the loop calls: the job's function (its result, whether a terminate
    signal was handled meanwhile, and what it passed to the patched \<open>sys.exit\<close>), the encoding of a
    result, and the memory reading.
  \<^item> A failed job's \<open>ExceptionInfo\<close> is written as the exception the parent reads from it.
\<close>

section \<open>Messages and the state of the loop\<close>

text \<open>
  What a task calls: a user's function (named by a number) on its argument, or \<open>mapstar\<close> or
  \<open>starmapstar\<close> on a function and a chunk of the input.
\<close>

datatype work = Call nat pyval | Mapstar nat "pyval list" | Starmapstar nat "pyval list"

datatype job_req = JobReq nat nat "nat option" work  \<comment> \<open>type, job, i, function and arguments\<close>

text \<open>\<open>list(map(f, xs))\<close>: the first exception ends it.\<close>

fun mapstar :: "(pyval \<Rightarrow> exn + pyval) \<Rightarrow> pyval list \<Rightarrow> exn + pyval list" where
  "mapstar f [] = Inr []"
| "mapstar f (x # xs) =
     (case f x of Inl e \<Rightarrow> Inl e
      | Inr y \<Rightarrow> (case mapstar f xs of Inl e \<Rightarrow> Inl e | Inr ys \<Rightarrow> Inr (y # ys)))"

definition starmapstar :: "(pyval list \<Rightarrow> exn + pyval) \<Rightarrow> pyval list \<Rightarrow> exn + pyval list" where
  "starmapstar f = mapstar (\<lambda>x. case x of PList args \<Rightarrow> f args | _ \<Rightarrow> Inl TypeError)"

text \<open>\<open>uf\<close> gives the user's functions; a starred call passes the list of its arguments.\<close>

fun run_work :: "(nat \<Rightarrow> pyval \<Rightarrow> exn + pyval) \<Rightarrow> work \<Rightarrow> exn + pyval" where
  "run_work uf (Call f x) = uf f x"
| "run_work uf (Mapstar f xs) = (case mapstar (uf f) xs of Inl e \<Rightarrow> Inl e | Inr ys \<Rightarrow> Inr (PList ys))"
| "run_work uf (Starmapstar f xs) =
     (case starmapstar (\<lambda>args. uf f (PList args)) xs of Inl e \<Rightarrow> Inl e | Inr ys \<Rightarrow> Inr (PList ys))"

datatype 'm recv =
    Shutdown            \<comment> \<open>the sentinel event is set\<close>
  | NotReady            \<comment> \<open>no message within the poll's timeout\<close>
  | Got 'm
  | RecvError int       \<comment> \<open>\<open>EOFError\<close> or \<open>OSError\<close>, with the number \<open>get_errno\<close> gives\<close>

datatype wmsg =
    MAck nat "nat option" int int "int option"      \<comment> \<open>job, i, time, pid, synqW_fd\<close>
  | MReady nat "nat option" result_obj int          \<comment> \<open>job, i, result, inqW_fd\<close>
  | MDeath int int                                  \<comment> \<open>pid, exitcode\<close>

record worker =
  wk_out :: "wmsg list"
  wk_completed :: nat
  wk_fired :: bool               \<comment> \<open>\<open>terminate_handler_fired()\<close>\<close>
  wk_exitcode :: "int option"    \<comment> \<open>\<open>_exitcode[0]\<close>\<close>
  wk_consumed :: "bool option"   \<comment> \<open>what \<open>_ensure_messages_consumed\<close> returned\<close>

record wconf =
  wc_pid :: int
  wc_maxtasks :: "int option"
  wc_max_memory :: "int option"
  wc_inqW_fd :: int
  wc_synqW_fd :: "int option"
  wc_synq :: bool
  wc_counter :: "(nat \<Rightarrow> nat) option"  \<comment> \<open>the readings of \<open>on_ready_counter.value\<close>\<close>
  wc_on_exit :: "exn option option"

record wenv =
  we_fun :: "work \<Rightarrow> (exn + pyval) \<times> bool \<times> int option"
  we_encode :: "result_obj \<Rightarrow> exn option"
  we_rss :: "nat \<Rightarrow> int"

definition EINTR :: int where "EINTR = 4"
definition EX_OK :: int where "EX_OK = 0"
definition EX_FAILURE :: int where "EX_FAILURE = 1"
definition EX_RECYCLE :: int where "EX_RECYCLE = 155"
definition RETRY_LIMIT :: nat where "RETRY_LIMIT = 300"

definition worker_init :: "int option \<Rightarrow> exn + worker" where
  "worker_init maxtasks =
     (if (case maxtasks of None \<Rightarrow> True | Some n \<Rightarrow> n > 0) then
        Inr \<lparr>wk_out = [], wk_completed = 0, wk_fired = False, wk_exitcode = None, wk_consumed = None\<rparr>
      else Inl AssertionError)"

section \<open>Receiving\<close>

text \<open>The function \<open>_make_protected_receive\<close> makes; \<open>Got None\<close> is the sentinel.\<close>

fun protected_receive :: "'m option recv \<Rightarrow> exn + 'm option" where
  "protected_receive Shutdown = Inl (SystemExit EX_OK)"
| "protected_receive NotReady = Inr None"
| "protected_receive (RecvError e) = (if e = EINTR then Inr None else Inl (SystemExit EX_FAILURE))"
| "protected_receive (Got None) = Inl (SystemExit EX_FAILURE)"
| "protected_receive (Got (Some req)) = Inr (Some req)"

text \<open>
  \<open>wait_for_syn\<close> over the entries of the syn queue, each the type of a message; it
  gives the answer and the entries left, or \<open>None\<close> when it is still waiting. The count of the
  tries only leads to a log message.
\<close>

fun wait_for_syn :: "nat option recv list \<Rightarrow> exn + (bool \<times> nat option recv list) option" where
  "wait_for_syn [] = Inr None"
| "wait_for_syn (r # rest) =
     (case protected_receive r of
        Inl e \<Rightarrow> Inl e
      | Inr None \<Rightarrow> wait_for_syn rest
      | Inr (Some ty) \<Rightarrow>
          if ty = NACK then Inr (Some (False, rest))
          else if ty \<noteq> ACK then Inl AssertionError
          else Inr (Some (True, rest)))"

section \<open>The loop\<close>

definition wput :: "wenv \<Rightarrow> wmsg \<Rightarrow> (worker, unit) act" where
  "wput env m w =
     (case (case m of MReady _ _ res _ \<Rightarrow> we_encode env res | _ \<Rightarrow> None) of
        Some e \<Rightarrow> (Inl e, w)
      | None \<Rightarrow> (Inr (), w\<lparr>wk_out := wk_out w @ [m]\<rparr>))"

datatype step = Again | Return int | Waiting

definition memory_check :: "wconf \<Rightarrow> wenv \<Rightarrow> (worker, step) act" where
  "memory_check c env = readA (\<lambda>w.
     let limit = (case wc_max_memory c of None \<Rightarrow> 0 | Some n \<Rightarrow> n);
         used = we_rss env (wk_completed w)
     in if limit > 0 \<and> used > 0 \<and> used > limit then ret (Return EX_RECYCLE) else ret Again)"

definition report :: "wconf \<Rightarrow> wenv \<Rightarrow> nat \<Rightarrow> nat option \<Rightarrow> result_obj \<Rightarrow> exn option \<Rightarrow> (worker, step) act" where
  "report c env job i result exit_exc =
     bindA (catchA (wput env (MReady job i result (wc_inqW_fd c)))
              (\<lambda>e. if is_Exception e
                   then wput env (MReady job i (False, PEinfo MaybeEncodingError) (wc_inqW_fd c))
                   else raise e)) (\<lambda>_.
     bindA (modifyA (\<lambda>w. w\<lparr>wk_completed := wk_completed w + 1\<rparr>)) (\<lambda>_.
     case exit_exc of Some e \<Rightarrow> raise e | None \<Rightarrow> memory_check c env))"

fun is_exit_exc :: "exn \<Rightarrow> bool" where
  "is_exit_exc (SystemExit _) = True"
| "is_exit_exc KeyboardInterrupt = True"
| "is_exit_exc _ = False"

definition run_job :: "wconf \<Rightarrow> wenv \<Rightarrow> nat \<Rightarrow> nat option \<Rightarrow> work \<Rightarrow> (worker, step) act" where
  "run_job c env job i f =
     (let (result, fired, status) = we_fun env f in
      bindA (modifyA (\<lambda>w. w\<lparr>wk_fired := wk_fired w \<or> fired,
                           wk_exitcode := (case status of None \<Rightarrow> wk_exitcode w | _ \<Rightarrow> status)\<rparr>)) (\<lambda>_.
      readA (\<lambda>w. case result of
          Inr v \<Rightarrow> report c env job i (True, v) None
        | Inl e \<Rightarrow>
            if wk_fired w then raise e
            else report c env job i (False, PEinfo e) (if is_exit_exc e then Some e else None))))"

definition handle_task :: "wconf \<Rightarrow> wenv \<Rightarrow> nat option recv list \<Rightarrow> int \<Rightarrow> job_req
    \<Rightarrow> (worker, step \<times> nat option recv list) act" where
  "handle_task c env syn now req =
     (case req of JobReq ty job i f \<Rightarrow>
      if ty \<noteq> TASK then raise AssertionError
      else
        bindA (wput env (MAck job i now (wc_pid c) (wc_synqW_fd c))) (\<lambda>_.
        case (if wc_synq c then wait_for_syn syn else Inr (Some (True, syn))) of
          Inl e \<Rightarrow> raise e
        | Inr None \<Rightarrow> ret (Waiting, [])
        | Inr (Some (False, rest)) \<Rightarrow> ret (Again, rest)
        | Inr (Some (True, rest)) \<Rightarrow> bindA (run_job c env job i f) (\<lambda>st. ret (st, rest))))"

definition loop_goes_on :: "wconf \<Rightarrow> worker \<Rightarrow> bool" where
  "loop_goes_on c w =
     (case wc_maxtasks c of None \<Rightarrow> True | Some m \<Rightarrow> m \<noteq> 0 \<and> int (wk_completed w) < m)"

definition loop_status :: "wconf \<Rightarrow> worker \<Rightarrow> int" where
  "loop_status c w =
     (if truthy (wc_maxtasks c)
      then (if int (wk_completed w) = the (wc_maxtasks c) then EX_RECYCLE else EX_FAILURE)
      else EX_OK)"

fun work_loop :: "wconf \<Rightarrow> wenv \<Rightarrow> nat option recv list \<Rightarrow> (job_req option recv \<times> int) list
    \<Rightarrow> (worker, int option) act" where
  "work_loop c env syn [] = readA (\<lambda>w.
     if loop_goes_on c w then ret None else ret (Some (loop_status c w)))"
| "work_loop c env syn ((r, now) # rest) = readA (\<lambda>w.
     if \<not> loop_goes_on c w then ret (Some (loop_status c w))
     else case protected_receive r of
         Inl e \<Rightarrow> raise e
       | Inr None \<Rightarrow> work_loop c env syn rest
       | Inr (Some req) \<Rightarrow>
           bindA (handle_task c env syn now req) (\<lambda>(st, syn').
           case st of Again \<Rightarrow> work_loop c env syn' rest
             | Return code \<Rightarrow> ret (Some code)
             | Waiting \<Rightarrow> ret None))"

text \<open>The retry loop: \<open>readings k\<close> is the counter's value at retry \<open>k\<close>.\<close>

definition ensure_messages_consumed :: "(nat \<Rightarrow> nat) option \<Rightarrow> nat \<Rightarrow> bool" where
  "ensure_messages_consumed counter completed =
     (case counter of None \<Rightarrow> False
      | Some readings \<Rightarrow> list_ex (\<lambda>k. readings k \<ge> completed) [0 ..< RETRY_LIMIT])"

text \<open>\<open>workloop\<close>: the \<open>finally\<close> clause runs when the loop is left, not while it waits.\<close>

definition workloop :: "wconf \<Rightarrow> wenv \<Rightarrow> nat option recv list \<Rightarrow> (job_req option recv \<times> int) list
    \<Rightarrow> (worker, int option) act" where
  "workloop c env syn ins w =
     (case work_loop c env syn ins w of
        (Inr None, w') \<Rightarrow> (Inr None, w')
      | (r, w') \<Rightarrow>
          (r, w'\<lparr>wk_consumed := Some (ensure_messages_consumed (wc_counter c) (wk_completed w'))\<rparr>))"

section \<open>Leaving the process\<close>

text \<open>\<open>_do_exit\<close>: the result is the status given to \<open>os._exit\<close>.\<close>

definition do_exit :: "wconf \<Rightarrow> int option \<Rightarrow> exn option \<Rightarrow> (worker, int) act" where
  "do_exit c exitcode exc =
     (let code = (case exitcode of Some n \<Rightarrow> n | None \<Rightarrow> if exc \<noteq> None then EX_FAILURE else EX_OK) in
      bindA (case wc_on_exit c of Some (Some e) \<Rightarrow> raise e | _ \<Rightarrow> ret ()) (\<lambda>_.
      bindA (modifyA (\<lambda>w. w\<lparr>wk_out := wk_out w @ [MDeath (wc_pid c) code]\<rparr>)) (\<lambda>_. ret code)))"

text \<open>
  \<open>__call__\<close> after the callbacks that precede the loop. \<open>sys.exit\<close> records the status and
  raises \<open>SystemExit\<close>, which no clause catches; every exit runs the \<open>finally\<close> clause unless the
  process has already left through \<open>os._exit\<close>.
\<close>

definition worker_call :: "wconf \<Rightarrow> wenv \<Rightarrow> nat option recv list \<Rightarrow> (job_req option recv \<times> int) list
    \<Rightarrow> (worker, int option) act" where
  "worker_call c env syn ins w =
     (case workloop c env syn ins w of
        (Inr None, w') \<Rightarrow> (Inr None, w')
      | (Inr (Some st), w') \<Rightarrow>
          bindA (do_exit c (Some st) None) (\<lambda>code. ret (Some code)) (w'\<lparr>wk_exitcode := Some st\<rparr>)
      | (Inl e, w') \<Rightarrow>
          if is_Exception e then
            catchA (bindA (do_exit c (wk_exitcode w') (Some e)) (\<lambda>code. ret (Some code)))
              (\<lambda>_. bindA (do_exit c (wk_exitcode w') None) (\<lambda>code. ret (Some code))) w'
          else bindA (do_exit c (wk_exitcode w') None) (\<lambda>code. ret (Some code)) w')"

text \<open>
  \<open>after_fork\<close> on the signal table: the inherited flag is cleared first, then the user's
  initializer runs, then the signals are set. Closing the unused queue ends is not modelled.
\<close>

definition worker_after_fork :: "(sigstate, unit) act option \<Rightarrow> (string \<Rightarrow> int option) \<Rightarrow> (int \<Rightarrow> bool)
    \<Rightarrow> string option \<Rightarrow> bool \<Rightarrow> int option \<Rightarrow> int \<Rightarrow> (sigstate, unit) act" where
  "worker_after_fork initializer signum settable remap sigprotection soft_timeout sigint =
     bindA (modifyA clear_terminate_handler_fired) (\<lambda>_.
     bindA (case initializer of None \<Rightarrow> ret () | Some m \<Rightarrow> m) (\<lambda>_.
     bindA (modifyA (reset_signals signum settable remap ShutdownCleanup sigprotection)) (\<lambda>_.
     bindA (case soft_timeout of None \<Rightarrow> ret ()
            | Some n \<Rightarrow> modifyA (\<lambda>s. s\<lparr>handlers := (handlers s)(n := Some SoftTimeout)\<rparr>)) (\<lambda>_.
     modifyA (\<lambda>s. s\<lparr>handlers := (handlers s)(sigint := Some SIG_IGN)\<rparr>)))))"

section \<open>Properties\<close>

lemma wp_wput_ack [wp_simps]:
  "wp (wput env (MAck job i now pid fd)) Q E w = Q () (w\<lparr>wk_out := wk_out w @ [MAck job i now pid fd]\<rparr>)"
  by (simp add: wp_def wput_def)

text \<open>The reference: the messages about the jobs \<open>ts\<close> that were run and reported.\<close>

fun reports :: "wconf \<Rightarrow> (nat \<times> nat option \<times> int \<times> result_obj) list \<Rightarrow> wmsg list" where
  "reports c [] = []"
| "reports c ((job, i, now, res) # ts) =
     MAck job i now (wc_pid c) (wc_synqW_fd c) # MReady job i res (wc_inqW_fd c) # reports c ts"

lemma reports_append: "reports c (ts @ us) = reports c ts @ reports c us"
  by (induction c ts rule: reports.induct) auto

text \<open>No acknowledgement queue, no terminate signal, and a report of a failure can be sent.\<close>

definition calm :: "wconf \<Rightarrow> wenv \<Rightarrow> bool" where
  "calm c env \<longleftrightarrow> \<not> wc_synq c \<and> (\<forall>f. \<not> fst (snd (we_fun env f))) \<and>
     (\<forall>res e. we_encode env res = Some e \<longrightarrow> is_Exception e) \<and>
     we_encode env (False, PEinfo MaybeEncodingError) = None"

text \<open>The result a worker sends for a job that no signal interrupts.\<close>

definition sent_result :: "wenv \<Rightarrow> work \<Rightarrow> result_obj" where
  "sent_result env w =
     (let res = (case fst (we_fun env w) of Inr v \<Rightarrow> (True, v) | Inl e \<Rightarrow> (False, PEinfo e)) in
      if we_encode env res = None then res else (False, PEinfo MaybeEncodingError))"

text \<open>The jobs among the entries of the script, with the time each is acknowledged at, and what is sent for one of them.\<close>

fun jobs_in :: "(job_req option recv \<times> int) list \<Rightarrow> (nat \<times> nat option \<times> int \<times> work) list" where
  "jobs_in [] = []"
| "jobs_in ((Got (Some (JobReq ty job i f)), now) # ins) =
     (if ty = TASK then (job, i, now, f) # jobs_in ins else jobs_in ins)"
| "jobs_in (_ # ins) = jobs_in ins"

fun answer :: "wenv \<Rightarrow> nat \<times> nat option \<times> int \<times> work \<Rightarrow> nat \<times> nat option \<times> int \<times> result_obj" where
  "answer env (job, i, now, f) = (job, i, now, sent_result env f)"

text \<open>The worker has used more memory than it may after \<open>n\<close> jobs.\<close>

definition over_memory :: "wconf \<Rightarrow> wenv \<Rightarrow> nat \<Rightarrow> bool" where
  "over_memory c env n = (case wc_max_memory c of None \<Rightarrow> False | Some m \<Rightarrow> 0 < m \<and> m < we_rss env n)"

text \<open>The exceptions an entry ends the loop with: of the receive function, of a message of another type, of a job that exits.\<close>

definition ends_with :: "wenv \<Rightarrow> job_req option recv \<Rightarrow> exn \<Rightarrow> bool" where
  "ends_with env r e \<longleftrightarrow> protected_receive r = Inl e \<or>
     (\<exists>ty job i f. r = Got (Some (JobReq ty job i f)) \<and>
        (if ty = TASK then fst (we_fun env f) = Inl e \<and> is_exit_exc e else e = AssertionError))"

text \<open>
  Why a loop that began with \<open>n\<close> jobs completed has read \<open>k\<close> entries of the script and no more.
\<close>

definition why_ended :: "wconf \<Rightarrow> wenv \<Rightarrow> nat \<Rightarrow> (job_req option recv \<times> int) list \<Rightarrow> nat \<Rightarrow> exn + int option \<Rightarrow> bool" where
  "why_ended c env n ins k r =
     (let done = n + length (jobs_in (take k ins)) in
      case r of
        Inr None \<Rightarrow> k = length ins
      | Inr (Some code) \<Rightarrow> code = EX_RECYCLE \<and>
          (wc_maxtasks c = Some (int done) \<or> jobs_in (take k ins) \<noteq> [] \<and> over_memory c env done)
      | Inl e \<Rightarrow> 0 < k \<and> ends_with env (fst (ins ! (k - 1))) e)"

lemma memory_check_eq:
  "memory_check c env w = (Inr (if over_memory c env (wk_completed w) then Return EX_RECYCLE else Again), w)"
  by (auto simp: memory_check_def over_memory_def readA_def ret_def Let_def split: option.split)

lemma report_eq:
  assumes "calm c env"
  shows "report c env job i res ex w =
    (let w' = w\<lparr>wk_out := wk_out w @ [MReady job i (if we_encode env res = None then res else (False, PEinfo MaybeEncodingError))
        (wc_inqW_fd c)], wk_completed := wk_completed w + 1\<rparr> in
     (case ex of Some e \<Rightarrow> Inl e
      | None \<Rightarrow> Inr (if over_memory c env (wk_completed w + 1) then Return EX_RECYCLE else Again), w'))"
proof -
  have put: "catchA (wput env (MReady job i res (wc_inqW_fd c)))
              (\<lambda>e. if is_Exception e
                   then wput env (MReady job i (False, PEinfo MaybeEncodingError) (wc_inqW_fd c))
                   else raise e) w = (Inr (), w\<lparr>wk_out := wk_out w @ [MReady job i
                     (if we_encode env res = None then res else (False, PEinfo MaybeEncodingError)) (wc_inqW_fd c)]\<rparr>)"
  proof (cases "we_encode env res")
    case None
    then show ?thesis by (simp add: catchA_def wput_def)
  next
    case (Some e)
    then have "is_Exception e" "we_encode env (False, PEinfo MaybeEncodingError) = None"
      using assms unfolding calm_def by blast+
    with Some show ?thesis by (simp add: catchA_def wput_def)
  qed
  then show ?thesis
    by (cases ex) (simp_all add: report_def bindA_def modifyA_def memory_check_eq raise_def Let_def)
qed

text \<open>A worker that takes a job answers it at once, and counts it.\<close>

lemma handle_task_eq:
  assumes "calm c env" "\<not> wk_fired w"
  shows "\<exists>x w'. handle_task c env syn now (JobReq TASK job i f) w = (x, w') \<and> \<not> wk_fired w' \<and>
    wk_out w' = wk_out w @ reports c [answer env (job, i, now, f)] \<and> wk_completed w' = wk_completed w + 1 \<and>
    (case x of Inl e \<Rightarrow> fst (we_fun env f) = Inl e \<and> is_exit_exc e
     | Inr (st, syn') \<Rightarrow> syn' = syn \<and>
         (if over_memory c env (wk_completed w + 1) then st = Return EX_RECYCLE else st = Again))"
proof -
  obtain r fired st where f: "we_fun env f = (r, fired, st)" by (cases "we_fun env f") auto
  have nf: "\<not> fired" "\<not> wc_synq c" using assms(1) f by (auto simp: calm_def dest: spec [of _ f])
  show ?thesis
    using nf assms(2) f
    by (cases r) (auto simp: handle_task_def run_job_def bindA_def wput_def modifyA_def readA_def report_eq [OF assms(1)]
        ret_def Let_def sent_result_def)
qed

lemma not_a_job:
  assumes "ty \<noteq> TASK"
  shows "handle_task c env syn now (JobReq ty job i f) w = (Inl AssertionError, w)"
  using assms by (simp add: handle_task_def raise_def)

lemma jobs_in_single: "jobs_in ((r, now) # ins) = jobs_in [(r, now)] @ jobs_in ins"
  by (cases "((r, now) # ins)" rule: jobs_in.cases) auto

text \<open>What the loop has done when it ends, or waits, after \<open>k\<close> entries.\<close>

definition loop_did :: "wconf \<Rightarrow> wenv \<Rightarrow> (job_req option recv \<times> int) list \<Rightarrow> worker \<Rightarrow> exn + int option \<Rightarrow> worker \<Rightarrow> bool" where
  "loop_did c env ins w r w' \<longleftrightarrow> (\<exists>k \<le> length ins. why_ended c env (wk_completed w) ins k r \<and>
     wk_out w' = wk_out w @ reports c (map (answer env) (jobs_in (take k ins))) \<and>
     wk_completed w' = wk_completed w + length (jobs_in (take k ins)) \<and>
     (\<forall>m. wc_maxtasks c = Some m \<longrightarrow> int (wk_completed w') \<le> m))"


lemma did_cons:
  assumes "loop_did c env rest w1 x w'" "wk_out w1 = wk_out w @ reports c (map (answer env) (jobs_in [(r, now)]))"
    "wk_completed w1 = wk_completed w + length (jobs_in [(r, now)])"
  shows "loop_did c env ((r, now) # rest) w x w'"
proof -
  from assms(1) obtain k where k: "k \<le> length rest" "why_ended c env (wk_completed w1) rest k x"
    "wk_out w' = wk_out w1 @ reports c (map (answer env) (jobs_in (take k rest)))"
    "wk_completed w' = wk_completed w1 + length (jobs_in (take k rest))"
    "\<forall>m. wc_maxtasks c = Some m \<longrightarrow> int (wk_completed w') \<le> m"
    unfolding loop_did_def by blast
  have j: "jobs_in (take (Suc k) ((r, now) # rest)) = jobs_in [(r, now)] @ jobs_in (take k rest)"
    by (metis take_Suc_Cons jobs_in_single)
  have "why_ended c env (wk_completed w) ((r, now) # rest) (Suc k) x"
    using k(2) assms(3) unfolding why_ended_def j
    by (auto simp: Let_def nth_Cons add.assoc split: sum.splits option.splits nat.splits)
  with k assms(2,3) show ?thesis
    unfolding loop_did_def by (intro exI [of _ "Suc k"]) (simp only: j, simp add: reports_append)
qed

lemma did_last:
  assumes "wk_out w' = wk_out w @ reports c (map (answer env) (jobs_in [(r, now)]))"
    "wk_completed w' = wk_completed w + length (jobs_in [(r, now)])"
    "why_ended c env (wk_completed w) ((r, now) # rest) 1 x"
    "\<forall>m. wc_maxtasks c = Some m \<longrightarrow> int (wk_completed w') \<le> m"
  shows "loop_did c env ((r, now) # rest) w x w'"
  using assms unfolding loop_did_def by (intro exI [of _ 1]) simp

lemma did_stop:
  assumes "\<not> loop_goes_on c w" "\<forall>m. wc_maxtasks c = Some m \<longrightarrow> 0 < m \<and> int (wk_completed w) \<le> m"
  shows "loop_did c env ins w (Inr (Some (loop_status c w))) w"
  using assms unfolding loop_did_def
  by (intro exI [of _ 0]) (auto simp: loop_goes_on_def loop_status_def truthy_def why_ended_def split: option.splits)

lemma work_loop_did:
  assumes "calm c env" "\<not> wk_fired w" "\<forall>m. wc_maxtasks c = Some m \<longrightarrow> 0 < m \<and> int (wk_completed w) \<le> m"
  shows "\<exists>r w'. work_loop c env syn ins w = (r, w') \<and> loop_did c env ins w r w'"
  using assms
proof (induction c env syn ins arbitrary: w rule: work_loop.induct)
  case (1 c env syn)
  show ?case
  proof (cases "loop_goes_on c w")
    case True
    then show ?thesis using 1 by (auto simp: readA_def ret_def loop_did_def why_ended_def)
  next
    case False
    then show ?thesis using did_stop [of c w env "[]"] 1 by (simp add: readA_def ret_def)
  qed
next
  case (2 c env syn r now rest)
  show ?case
  proof (cases "loop_goes_on c w")
    case False
    then show ?thesis using did_stop [of c w env] 2 by (simp add: readA_def ret_def)
  next
    case on: True
    show ?thesis
    proof (cases "protected_receive r")
      case (Inl e)
      then have no: "jobs_in [(r, now)] = []" by (cases "[(r, now)]" rule: jobs_in.cases) auto
      have "loop_did c env ((r, now) # rest) w (Inl e) w"
        using 2(5) Inl no by (intro did_last) (auto simp: why_ended_def ends_with_def)
      then show ?thesis using on Inl by (simp add: readA_def raise_def)
    next
      case (Inr q)
      show ?thesis
      proof (cases q)
        case None
        then have no: "jobs_in [(r, now)] = []" using Inr by (cases "[(r, now)]" rule: jobs_in.cases) auto
        from 2(1) [OF _ Inr None 2(3-5)] on
        obtain x w' where "work_loop c env syn rest w = (x, w')" "loop_did c env rest w x w'" by blast
        with did_cons [of c env rest w x w' w r now] no show ?thesis using on Inr None by (simp add: readA_def)
      next
        case (Some req)
        have r: "r = Got (Some req)" using Inr Some by (cases r rule: protected_receive.cases) (auto split: if_splits)
        obtain ty job i f where req: "req = JobReq ty job i f" by (cases req)
        show ?thesis
        proof (cases "ty = TASK")
          case False
          have "loop_did c env ((r, now) # rest) w (Inl AssertionError) w"
            using 2(5) r req False by (intro did_last) (auto simp: why_ended_def ends_with_def)
          then show ?thesis using on Inr Some req not_a_job [OF False] by (simp add: readA_def bindA_def)
        next
          case True
          have one: "jobs_in [(r, now)] = [(job, i, now, f)]" using r req True by simp
          from handle_task_eq [OF 2(3,4), of syn now job i f] obtain x w1 where
            h: "handle_task c env syn now req w = (x, w1)" "\<not> wk_fired w1"
              "wk_out w1 = wk_out w @ reports c (map (answer env) (jobs_in [(r, now)]))"
              "wk_completed w1 = wk_completed w + length (jobs_in [(r, now)])" and
            x: "case x of Inl e \<Rightarrow> fst (we_fun env f) = Inl e \<and> is_exit_exc e
              | Inr (st, syn') \<Rightarrow> syn' = syn \<and> (if over_memory c env (wk_completed w + 1) then st = Return EX_RECYCLE else st = Again)"
            unfolding one req True by auto
          have lim: "\<forall>m. wc_maxtasks c = Some m \<longrightarrow> 0 < m \<and> int (wk_completed w1) \<le> m"
            using h(4) one on 2(5) by (auto simp: loop_goes_on_def)
          consider e where "x = Inl e" | "x = Inr (Return EX_RECYCLE, syn)" "over_memory c env (wk_completed w + 1)" | "x = Inr (Again, syn)"
            using x by (auto split: sum.splits if_splits)
          then show ?thesis
          proof cases
            case (1 e)
            then have "loop_did c env ((r, now) # rest) w (Inl e) w1"
              using h lim x r req True by (intro did_last) (auto simp: why_ended_def ends_with_def)
            then show ?thesis using on Inr Some h 1 by (simp add: readA_def bindA_def)
          next
            case 2
            then have "loop_did c env ((r, now) # rest) w (Inr (Some EX_RECYCLE)) w1"
              using h lim one r req True by (intro did_last) (auto simp: why_ended_def)
            then show ?thesis using on Inr Some h 2 by (simp add: readA_def bindA_def ret_def)
          next
            case 3
            from 2(2) [OF _ Inr Some refl 2(3) h(2) lim] on
            obtain y w' where "work_loop c env syn rest w1 = (y, w')" "loop_did c env rest w1 y w'" by blast
            with did_cons [OF _ h(3,4)] show ?thesis using on Inr Some h 3 by (auto simp: readA_def bindA_def)
          qed
        qed
      qed
    qed
  qed
qed

text \<open>
  C10. A worker with no acknowledgement queue that handles no terminate signal answers exactly
  the jobs it takes. Over any script of its input queue there is a number of entries it has read, and what it has sent is
  one \<open>ACK\<close> and right after it one \<open>READY\<close> for every job among these entries, in their order, with the value the job's
  function returned, the exception it raised, also one that exits the process, or \<open>MaybeEncodingError\<close> when the result cannot be sent;
  \<open>completed\<close> counts these jobs and never passes \<open>maxtasks\<close>. It has stopped reading for a reason: the script is at its
  end and the worker waits for more; or it leaves with \<open>EX_RECYCLE\<close> since \<open>maxtasks\<close> jobs are
  done or the memory in use after its last job is above the limit; or the last entry read is a sentinel, a broken queue,
  a message that is not a task, or a job that exits, with that exception.
\<close>

theorem worker_reports_every_job:
  assumes "calm c env" "worker_init (wc_maxtasks c) = Inr w"
  shows "\<exists>r w' k. workloop c env syn ins w = (r, w') \<and> k \<le> length ins \<and>
    wk_out w' = reports c (map (answer env) (jobs_in (take k ins))) \<and>
    wk_completed w' = length (jobs_in (take k ins)) \<and>
    (\<forall>m. wc_maxtasks c = Some m \<longrightarrow> int (wk_completed w') \<le> m) \<and>
    (case r of
       Inr None \<Rightarrow> k = length ins
     | Inr (Some code) \<Rightarrow> code = EX_RECYCLE \<and>
         (wc_maxtasks c = Some (int (wk_completed w')) \<or> jobs_in (take k ins) \<noteq> [] \<and> over_memory c env (wk_completed w'))
     | Inl e \<Rightarrow> 0 < k \<and> ends_with env (fst (ins ! (k - 1))) e)"
proof -
  have w: "\<not> wk_fired w" "\<forall>m. wc_maxtasks c = Some m \<longrightarrow> 0 < m \<and> int (wk_completed w) \<le> m"
    "wk_out w = []" "wk_completed w = 0"
    using assms(2) by (auto simp: worker_init_def split: if_splits option.splits)
  from work_loop_did [OF assms(1) w(1,2), of syn ins]
  obtain r w' k where l: "work_loop c env syn ins w = (r, w')" "k \<le> length ins" "why_ended c env 0 ins k r"
    "wk_out w' = reports c (map (answer env) (jobs_in (take k ins)))" "wk_completed w' = length (jobs_in (take k ins))"
    "\<forall>m. wc_maxtasks c = Some m \<longrightarrow> int (wk_completed w') \<le> m"
    unfolding loop_did_def w(3,4) by auto
  have "\<exists>w''. workloop c env syn ins w = (r, w'') \<and> wk_out w'' = wk_out w' \<and> wk_completed w'' = wk_completed w'"
    using l(1) by (auto simp: workloop_def split: sum.split option.split)
  then obtain w'' where "workloop c env syn ins w = (r, w'')" "wk_out w'' = wk_out w'" "wk_completed w'' = wk_completed w'" by blast
  with l show ?thesis
    by (intro exI [of _ r] exI [of _ w''] exI [of _ k]) (simp add: why_ended_def Let_def cong: sum.case_cong option.case_cong)
qed

definition ex_conf :: "int option \<Rightarrow> wconf" where
  "ex_conf maxtasks = \<lparr>wc_pid = 50, wc_maxtasks = maxtasks, wc_max_memory = None, wc_inqW_fd = 4,
     wc_synqW_fd = None, wc_synq = False, wc_counter = None, wc_on_exit = None\<rparr>"

definition ex_env :: wenv where
  "ex_env = \<lparr>we_fun = (\<lambda>f. (if f = Call 0 PNone then Inr (PInt 1) else Inl ValueError, False, None)),
     we_encode = (\<lambda>res. if fst res then Some TypeError else None), we_rss = (\<lambda>_. 0)\<rparr>"

lemma ex_calm: "calm (ex_conf m) ex_env"
proof -
  have "is_Exception e" if "(if b then Some TypeError else None) = Some e" for b e
    using that by (cases b) auto
  then show ?thesis by (auto simp: calm_def ex_conf_def ex_env_def)
qed

theorem worker_reports_every_job_witness:
  "wk_out (snd (workloop (ex_conf (Some 2)) ex_env [] [(Got (Some (JobReq TASK 7 None (Call 0 PNone))), 3), (NotReady, 4),
       (Got (Some (JobReq TASK 8 None (Call 1 PNone))), 5), (Got (Some (JobReq TASK 9 None (Call 1 PNone))), 6)]
     \<lparr>wk_out = [], wk_completed = 0, wk_fired = False, wk_exitcode = None, wk_consumed = None\<rparr>)) =
   [MAck 7 None 3 50 None, MReady 7 None (False, PEinfo MaybeEncodingError) 4,
    MAck 8 None 5 50 None, MReady 8 None (False, PEinfo ValueError) 4]"
proof -
  let ?w = "\<lparr>wk_out = [], wk_completed = 0, wk_fired = False, wk_exitcode = None, wk_consumed = None\<rparr>"
  let ?ins = "[(Got (Some (JobReq TASK 7 None (Call 0 PNone))), 3), (NotReady, 4),
       (Got (Some (JobReq TASK 8 None (Call 1 PNone))), 5), (Got (Some (JobReq TASK 9 None (Call 1 PNone))), 6)] :: (job_req option recv \<times> int) list"
  have "worker_init (wc_maxtasks (ex_conf (Some 2))) = Inr ?w"
    by (simp add: worker_init_def ex_conf_def)
  from worker_reports_every_job [OF ex_calm this, of "[]" ?ins] obtain r w' k where
    k: "workloop (ex_conf (Some 2)) ex_env [] ?ins ?w = (r, w')" "k \<le> length ?ins"
      "wk_out w' = reports (ex_conf (Some 2)) (map (answer ex_env) (jobs_in (take k ?ins)))"
      "wk_completed w' = length (jobs_in (take k ?ins))"
      "\<forall>m. wc_maxtasks (ex_conf (Some 2)) = Some m \<longrightarrow> int (wk_completed w') \<le> m"
      "case r of Inr None \<Rightarrow> k = length ?ins
       | Inr (Some code) \<Rightarrow> code = EX_RECYCLE \<and> (wc_maxtasks (ex_conf (Some 2)) = Some (int (wk_completed w')) \<or>
           jobs_in (take k ?ins) \<noteq> [] \<and> over_memory (ex_conf (Some 2)) ex_env (wk_completed w'))
       | Inl e \<Rightarrow> 0 < k \<and> ends_with ex_env (fst (?ins ! (k - 1))) e"
    by (elim exE conjE) (rule that; assumption)
  have four: "k = 0 \<or> k = 1 \<or> k = 2 \<or> k = 3 \<or> k = 4" using k(2) by auto
  have "k = 3"
    using four k(4-6) by (elim disjE) (auto simp: ends_with_def ex_env_def ex_conf_def over_memory_def
        split: sum.splits option.splits if_splits)
  then show ?thesis using k(1,3) by (simp add: sent_result_def ex_env_def ex_conf_def)
qed

text \<open>
  A job interrupted by the worker's terminate handler is acknowledged but never
  reported: no \<open>READY\<close> leaves the worker, the exception unwinds out of the task, whatever its type,
  and the count of completed jobs stays, so the parent can only account for the job as lost.
\<close>

theorem interrupted_job_not_reported:
  assumes "we_fun env f = (Inl e, True, st)" "\<not> wc_synq c"
  shows "\<exists>w'. handle_task c env syn now (JobReq TASK job i f) w = (Inl e, w') \<and>
    wk_out w' = wk_out w @ [MAck job i now (wc_pid c) (wc_synqW_fd c)] \<and> wk_completed w' = wk_completed w"
proof -
  have "wp (handle_task c env syn now (JobReq TASK job i f)) (\<lambda>_ _. False) (\<lambda>e' w'. e' = e \<and>
      wk_out w' = wk_out w @ [MAck job i now (wc_pid c) (wc_synqW_fd c)] \<and> wk_completed w' = wk_completed w) w"
    using assms by (simp add: handle_task_def run_job_def wp_simps)
  then show ?thesis by (auto simp: wp_def split: prod.splits sum.splits)
qed

theorem interrupted_job_not_reported_witness:
  "\<exists>w'. handle_task (ex_conf None) (ex_env\<lparr>we_fun := (\<lambda>_. (Inl ValueError, True, None))\<rparr>) [] 3 (JobReq TASK 7 None (Call 0 PNone))
      \<lparr>wk_out = [], wk_completed = 0, wk_fired = False, wk_exitcode = None, wk_consumed = None\<rparr> = (Inl ValueError, w') \<and>
     wk_out w' = [MAck 7 None 3 50 None]"
  using interrupted_job_not_reported [of "ex_env\<lparr>we_fun := (\<lambda>_. (Inl ValueError, True, None))\<rparr>" "Call 0 PNone" ValueError None "ex_conf None"
      "[]" 3 7 None "\<lparr>wk_out = [], wk_completed = 0, wk_fired = False, wk_exitcode = None, wk_consumed = None\<rparr>"]
  by (auto simp: ex_conf_def ex_env_def)

text \<open>
  Every run of a worker whose exit callback does not raise, if it leaves the loop at all,
  ends with one \<open>DEATH\<close> message that carries the process's exit code as the last message; a job
  limit reached gives the recycle code; and a sentinel, or a broken queue, gives \<open>EX_OK\<close>, since the
  status of \<open>raise SystemExit(EX_FAILURE)\<close> in the receive function is not recorded.
\<close>

theorem worker_exit_codes:
  assumes "\<forall>e. wc_on_exit c \<noteq> Some (Some e)" "work_loop c env syn ins w = (r, w1)"
    "worker_call c env syn ins w = (r', w2)"
  shows "(r = Inr None \<and> r' = Inr None) \<or>
    (\<exists>code. r' = Inr (Some code) \<and> wk_out w2 = wk_out w1 @ [MDeath (wc_pid c) code] \<and>
      code = (case r of Inr (Some st) \<Rightarrow> st | Inr None \<Rightarrow> EX_OK
        | Inl e \<Rightarrow> (case wk_exitcode w1 of Some st \<Rightarrow> st
                   | None \<Rightarrow> if is_Exception e then EX_FAILURE else EX_OK)))"
proof -
  have on_exit: "(case wc_on_exit c of Some (Some e) \<Rightarrow> raise e | _ \<Rightarrow> ret ()) = (ret () :: (worker, unit) act)"
    using assms(1) by (auto split: option.split)
  show ?thesis
    using assms(2,3)
    by (cases r; cases "r = Inr None")
       (auto simp: worker_call_def workloop_def do_exit_def on_exit bindA_def ret_def modifyA_def catchA_def Let_def
          split: option.splits if_splits)
qed

theorem worker_exit_codes_witness:
  "\<exists>w'. worker_call (ex_conf None) ex_env [] [(Got None, 3)]
      \<lparr>wk_out = [], wk_completed = 0, wk_fired = False, wk_exitcode = None, wk_consumed = None\<rparr> = (Inr (Some EX_OK), w')
     \<and> wk_out w' = [MDeath 50 0]"
  using worker_exit_codes [of "ex_conf None" ex_env "[]" "[(Got None, 3)]"
      "\<lparr>wk_out = [], wk_completed = 0, wk_fired = False, wk_exitcode = None, wk_consumed = None\<rparr>", OF _ surjective_pairing surjective_pairing]
  by (auto simp: ex_conf_def readA_def raise_def loop_goes_on_def EX_OK_def surjective_pairing [symmetric] intro!: prod_eqI)

end
