(* ===== verification/Pool_State.thy ===== *)
theory Pool_State
  imports Map_Result Imap_Result Lax_Semaphore Worker
begin

text \<open>
  The state the threads of a pool share, and the calls of the result objects on it.

  \<^item> \<open>objs\<close> holds every result object ever made, by job number; \<open>pcache\<close> is the pool's cache, the
    job numbers in it in order of insertion. The caller keeps its object after the job has left
    the cache, so an object is reached through \<open>objs\<close> whoever holds it.
  \<^item> \<open>worker_procs\<close> is \<open>_pool\<close>, with what the pool reads of each worker process.
  \<^item> \<open>limiters\<close> holds the two \<open>restart_state\<close> objects a pool may have, the one made by the
    constructor (\<open>False\<close>) and the one of the supervisor's start-up burst (\<open>True\<close>);
    \<open>cur_limiter\<close> says which one the pool refers to and \<open>rh_limiter\<close> which one the result
    handler took over when it was made.
\<close>

section \<open>Result objects\<close>

datatype job = AR apply_result | MR map_result | IM imap_iter | IMU imap_iter

fun job_ready :: "job \<Rightarrow> bool" where
  "job_ready (AR j) = ar_ready j"
| "job_ready (MR j) = mr_event j"
| "job_ready (IM j) = im_ready j"
| "job_ready (IMU j) = im_ready j"

fun job_worker_pids :: "job \<Rightarrow> int list" where
  "job_worker_pids (AR j) = ar_worker_pids j"
| "job_worker_pids (MR j) = Map_Result.mr_worker_pids j"
| "job_worker_pids (IM j) = im_worker_pids j"
| "job_worker_pids (IMU j) = im_worker_pids j"

fun job_worker_lost :: "job \<Rightarrow> (int \<times> int) option" where
  "job_worker_lost (AR j) = ar_worker_lost j"
| "job_worker_lost (MR j) = mr_worker_lost j"
| "job_worker_lost (IM j) = im_worker_lost j"
| "job_worker_lost (IMU j) = im_worker_lost j"

fun set_worker_lost :: "int \<times> int \<Rightarrow> job \<Rightarrow> job" where
  "set_worker_lost l (AR j) = AR (j\<lparr>ar_worker_lost := Some l\<rparr>)"
| "set_worker_lost l (MR j) = MR (j\<lparr>mr_worker_lost := Some l\<rparr>)"
| "set_worker_lost l (IM j) = IM (j\<lparr>im_worker_lost := Some l\<rparr>)"
| "set_worker_lost l (IMU j) = IMU (j\<lparr>im_worker_lost := Some l\<rparr>)"

section \<open>The pool\<close>

datatype task = Task job_req | Sentinel

record proc =
  pr_pid :: int
  pr_index :: int
  pr_started :: bool              \<comment> \<open>\<open>_popen is not None\<close>\<close>
  pr_exitcode :: "int option"
  pr_controlled :: bool           \<comment> \<open>\<open>_controlled_termination\<close>\<close>
  pr_job_terminated :: bool

definition RUN :: nat where "RUN = 0"
definition CLOSE :: nat where "CLOSE = 1"
definition TERMINATE :: nat where "TERMINATE = 2"

record pool =
  objs :: "nat \<rightharpoonup> job"
  pcache :: "nat list"
  ptrace :: "event list"
  job_counter :: nat
  worker_procs :: "proc list"
  processes :: int
  poolctrl :: "(int \<times> bool option) list"   \<comment> \<open>pid, and its sentinel event (set or not) if any\<close>
  counters :: "int \<rightharpoonup> nat"                   \<comment> \<open>\<open>_on_ready_counters\<close>\<close>
  worker_tasks :: "int \<rightharpoonup> nat \<times> nat option"
  task_workers :: "nat \<times> nat option \<rightharpoonup> int"
  putlock :: lax_sem
  limiters :: "bool \<Rightarrow> restart_state"
  cur_limiter :: bool
  rh_limiter :: bool
  pstatus :: nat
  sv_state :: nat                          \<comment> \<open>state of the supervisor thread\<close>
  th_state :: nat                          \<comment> \<open>of the task handler\<close>
  rh_state :: nat                          \<comment> \<open>of the result handler\<close>
  to_state :: nat                          \<comment> \<open>of the timeout handler\<close>
  rh_iter :: "bool option"                 \<comment> \<open>the handler's generator, and if it can go on\<close>
  taskqueue :: "(task list \<times> exn option \<times> nat option) option list"
  inqueue :: "task list"
  outq_sentinels :: nat

section \<open>Calls of a result object\<close>

definition with_obj :: "nat \<Rightarrow> ('j \<Rightarrow> job) \<Rightarrow> 'j \<Rightarrow> ('j jstate, 'a) act \<Rightarrow> (pool, 'a) act" where
  "with_obj k C j m p =
     (let (r, t) = m \<lparr>self = j, cache = pcache p, trace = ptrace p\<rparr> in
      (r, p\<lparr>objs := (objs p)(k \<mapsto> C (self t)), pcache := cache t, ptrace := trace t\<rparr>))"

definition job_set :: "nat \<Rightarrow> nat option \<Rightarrow> result_obj \<Rightarrow> (pool, unit) act" where
  "job_set k i obj = readA (\<lambda>p.
     case objs p k of
       None \<Rightarrow> raise KeyError
     | Some (AR j) \<Rightarrow> with_obj k AR j (ar_set obj)
     | Some (MR j) \<Rightarrow> with_obj k MR j (mr_set i obj)
     | Some (IM j) \<Rightarrow> with_obj k IM j (im_set i obj)
     | Some (IMU j) \<Rightarrow> with_obj k IMU j (imu_set i obj))"

definition job_ack :: "nat \<Rightarrow> nat option \<Rightarrow> int \<Rightarrow> int \<Rightarrow> int option \<Rightarrow> (pool, unit) act" where
  "job_ack k i time_accepted pid fd = readA (\<lambda>p.
     case objs p k of
       None \<Rightarrow> raise KeyError
     | Some (AR j) \<Rightarrow> with_obj k AR j (ar_ack time_accepted pid fd)
     | Some (MR j) \<Rightarrow> (case i of None \<Rightarrow> raise TypeError | Some i \<Rightarrow> with_obj k MR j (mr_ack i time_accepted pid))
     | Some (IM j) \<Rightarrow> with_obj k IM j (updA (im_ack pid))
     | Some (IMU j) \<Rightarrow> with_obj k IMU j (updA (im_ack pid)))"

definition cached :: "pool \<Rightarrow> nat \<Rightarrow> job option" where
  "cached p k = (if k \<in> set (pcache p) then objs p k else None)"

lemma wp_with_obj [wp_simps]:
  "wp (with_obj k C j m) Q E p = wp m
     (\<lambda>a t. Q a (p\<lparr>objs := (objs p)(k \<mapsto> C (self t)), pcache := cache t, ptrace := trace t\<rparr>))
     (\<lambda>e t. E e (p\<lparr>objs := (objs p)(k \<mapsto> C (self t)), pcache := cache t, ptrace := trace t\<rparr>))
     \<lparr>self = j, cache = pcache p, trace = ptrace p\<rparr>"
  by (simp add: wp_def with_obj_def Let_def split: prod.split sum.split)

text \<open>A call of a result object changes only the object, the cache and the trace.\<close>

definition same_rest :: "pool \<Rightarrow> pool \<Rightarrow> bool" where
  "same_rest p p' \<longleftrightarrow> p' = p\<lparr>objs := objs p', pcache := pcache p', ptrace := ptrace p'\<rparr>"

lemma same_rest_refl [simp]: "same_rest p p"
  by (simp add: same_rest_def)

lemma job_set_frame:
  "wp (job_set k i obj) (\<lambda>_ p'. same_rest p p' \<and> (\<forall>k'. k' \<noteq> k \<longrightarrow> objs p' k' = objs p k'))
     (\<lambda>_ p'. same_rest p p' \<and> (\<forall>k'. k' \<noteq> k \<longrightarrow> objs p' k' = objs p k')) p"
proof -
  have triv: "wp m (\<lambda>_ _. True) (\<lambda>_ _. True) s" for m :: "('s, 'a) act" and s
    by (simp add: wp_def split: prod.split sum.split)
  show ?thesis
    by (cases "objs p k") (auto simp: job_set_def wp_simps same_rest_def triv split: job.split)
qed

lemma job_ack_frame:
  "wp (job_ack k i t pid fd) (\<lambda>_ p'. same_rest p p' \<and> (\<forall>k'. k' \<noteq> k \<longrightarrow> objs p' k' = objs p k'))
     (\<lambda>_ p'. same_rest p p' \<and> (\<forall>k'. k' \<noteq> k \<longrightarrow> objs p' k' = objs p k')) p"
proof -
  have triv: "wp m (\<lambda>_ _. True) (\<lambda>_ _. True) s" for m :: "('s, 'a) act" and s
    by (simp add: wp_def split: prod.split sum.split)
  show ?thesis
    by (cases "objs p k") (auto simp: job_ack_def wp_simps same_rest_def triv split: job.split option.split)
qed

end
