(* ===== verification/Result_Handler.thy ===== *)
theory Result_Handler
  imports Pool_State
begin

text \<open>
  \<open>ResultHandler\<close> of \<open>billiard/pool.py\<close>: what the parent does with the messages of the workers
  (\<open>on_ack\<close>, \<open>on_ready\<close>, \<open>on_death\<close>), the generator \<open>_process_result\<close> that takes them from the
  queue, the thread's body and the draining of the queue at shutdown. A poll of the queue is an
  entry of a script; \<open>killf pid sig\<close> is the errno of \<open>os.kill\<close> when it fails; \<open>join\<close> is the pool's
  \<open>_join_exited_workers\<close> and \<open>check\<close> its \<open>check_timeouts\<close>.
\<close>

section \<open>The handlers of the messages\<close>

definition ESRCH :: int where "ESRCH = 3"
definition TERM_SIGNAL :: int where "TERM_SIGNAL = 15"

definition limiter_reset :: "pool \<Rightarrow> pool" where
  "limiter_reset p = p\<lparr>limiters := (limiters p)(rh_limiter p := (limiters p (rh_limiter p))\<lparr>R := 0\<rparr>)\<rparr>"

text \<open>\<open>task_workers.pop(worker_tasks.pop(pid, None), None)\<close>\<close>

definition forget_worker :: "int \<Rightarrow> pool \<Rightarrow> pool" where
  "forget_worker pid p =
     p\<lparr>task_workers := (case worker_tasks p pid of None \<Rightarrow> task_workers p
                       | Some tk \<Rightarrow> (task_workers p)(tk := None)),
       worker_tasks := (worker_tasks p)(pid := None)\<rparr>"

definition on_ack :: "nat \<Rightarrow> nat option \<Rightarrow> int \<Rightarrow> int \<Rightarrow> int option \<Rightarrow> (pool, unit) act" where
  "on_ack job i time_accepted pid synqW_fd =
     bindA (modifyA limiter_reset) (\<lambda>_.
     bindA (modifyA (forget_worker pid)) (\<lambda>_.
     bindA (modifyA (\<lambda>p. p\<lparr>worker_tasks := (worker_tasks p)(pid \<mapsto> (job, i)),
                           task_workers := (task_workers p)((job, i) \<mapsto> pid)\<rparr>)) (\<lambda>_.
     catchA
       (bindA (fetchA (\<lambda>p. cached p job) KeyError) (\<lambda>_. job_ack job i time_accepted pid synqW_fd))
       (\<lambda>e. if e = KeyError \<or> e = AttributeError then ret () else raise e))))"

text \<open>The part of \<open>on_ready\<close> that credits the worker which sent the message.\<close>

definition credit :: "nat \<Rightarrow> nat option \<Rightarrow> pool \<Rightarrow> pool" where
  "credit job i p =
     (case task_workers p (job, i) of
        None \<Rightarrow> p
      | Some pid \<Rightarrow>
          p\<lparr>task_workers := (task_workers p)((job, i) := None),
            worker_tasks := (worker_tasks p)(pid := None),
            counters := (case counters p pid of None \<Rightarrow> counters p
                         | Some n \<Rightarrow> (counters p)(pid \<mapsto> n + 1))\<rparr>)"

definition release_slot :: "pool \<Rightarrow> pool" where
  "release_slot p = p\<lparr>putlock := ls_release (putlock p)\<rparr>"

text \<open>\<open>on_ready\<close> of a pool that was given no \<open>on_job_ready\<close> (the callback, when there is one, runs before all this and its exception leaves the handler).\<close>

definition on_ready :: "nat \<Rightarrow> nat option \<Rightarrow> result_obj \<Rightarrow> (pool, unit) act" where
  "on_ready job i obj =
     bindA (modifyA (credit job i)) (\<lambda>_.
     readA (\<lambda>p. case cached p job of
         None \<Rightarrow> ret ()
       | Some item \<Rightarrow>
           bindA (whenA (\<not> job_ready item) (modifyA release_slot)) (\<lambda>_.
           catchA (job_set job i obj) (\<lambda>e. if e = KeyError then ret () else raise e))))"

definition on_death :: "(int \<Rightarrow> int \<Rightarrow> int option) \<Rightarrow> int \<Rightarrow> (pool, unit) act" where
  "on_death killf pid =
     bindA (modifyA (\<lambda>p. p\<lparr>ptrace := ptrace p @ [Kill pid TERM_SIGNAL]\<rparr>)) (\<lambda>_.
     case killf pid TERM_SIGNAL of None \<Rightarrow> ret ()
     | Some e \<Rightarrow> if e = ESRCH then ret () else raise (OSError e))"

definition on_worker_exit :: "int \<Rightarrow> pool \<Rightarrow> pool" where
  "on_worker_exit pid p = forget_worker pid p"

datatype rmsg = Msg wmsg | Unknown nat   \<comment> \<open>a state that has no handler\<close>

fun run_handler :: "(int \<Rightarrow> int \<Rightarrow> int option) \<Rightarrow> rmsg \<Rightarrow> (pool, unit) act" where
  "run_handler killf (Msg (MAck job i t pid fd)) = on_ack job i t pid fd"
| "run_handler killf (Msg (MReady job i obj fd)) = on_ready job i obj"
| "run_handler killf (Msg (MDeath pid code)) = on_death killf pid"
| "run_handler killf (Unknown st) = raise KeyError"

definition on_state_change :: "(int \<Rightarrow> int \<Rightarrow> int option) \<Rightarrow> rmsg \<Rightarrow> (pool, unit) act" where
  "on_state_change killf m =
     catchA (run_handler killf m) (\<lambda>e. if e = KeyError then ret () else raise e)"

section \<open>The thread\<close>

text \<open>
  One resumption of the generator \<open>_process_result\<close>: it reads the queue once and then yields
  (\<open>True\<close>), ends (\<open>False\<close>) or raises. \<open>Got None\<close> is the sentinel.
\<close>

definition process_result :: "(int \<Rightarrow> int \<Rightarrow> int option) \<Rightarrow> bool \<Rightarrow> rmsg option recv \<Rightarrow> (pool, bool) act" where
  "process_result killf blocking r =
     (case r of
        RecvError e \<Rightarrow> raise CoroStop
      | _ \<Rightarrow> readA (\<lambda>p.
          if rh_state p \<noteq> RUN then
            bindA (assertA (\<lambda>p. rh_state p = TERMINATE) AssertionError) (\<lambda>_. raise CoroStop)
          else (case r of
              Got None \<Rightarrow> raise CoroStop
            | Got (Some m) \<Rightarrow> bindA (on_state_change killf m) (\<lambda>_. ret (\<not> blocking))
            | _ \<Rightarrow> ret False)))"

text \<open>
  \<open>handle_event\<close>: a generator left by another exception stays as a dead generator, and the
  next call only clears it.
\<close>

definition handle_event :: "(int \<Rightarrow> int \<Rightarrow> int option) \<Rightarrow> rmsg option recv \<Rightarrow> (pool, unit) act" where
  "handle_event killf r = readA (\<lambda>p.
     if rh_state p \<noteq> RUN then ret ()
     else if rh_iter p = Some False then modifyA (\<lambda>p. p\<lparr>rh_iter := None\<rparr>)
     else
       catchA (bindA (process_result killf False r) (\<lambda>more.
                 modifyA (\<lambda>p. p\<lparr>rh_iter := (if more then Some True else None)\<rparr>)))
         (\<lambda>e. if e = CoroStop then modifyA (\<lambda>p. p\<lparr>rh_iter := None\<rparr>)
              else bindA (modifyA (\<lambda>p. p\<lparr>rh_iter := Some False\<rparr>)) (\<lambda>_. raise e)))"

text \<open>
  \<open>finish_at_shutdown\<close> over a script of rounds: what other processes did to the pool before the
  round, the poll, and the clock. \<open>None\<close>: the script ended first. \<open>started\<close> is
  \<open>time_terminate\<close>, which Python takes for unset when it is 0.
\<close>

type_synonym round = "(pool \<Rightarrow> pool) \<times> rmsg option recv \<times> int"

definition after_join :: "(int \<Rightarrow> (pool, 'a) act) \<Rightarrow> int \<Rightarrow> int option \<Rightarrow> (pool, int option option) act" where
  "after_join join now started =
     catchA (bindA (join now) (\<lambda>_. ret (Some started)))
       (\<lambda>e. if e = WorkersJoined then
              (if \<not> truthy started then ret (Some (Some now))
               else if now - the started > 5 then ret None
               else ret (Some started))
            else raise e)"

fun shutdown_rounds :: "(int \<Rightarrow> int \<Rightarrow> int option) \<Rightarrow> (int \<Rightarrow> (pool, 'a) act) \<Rightarrow> (pool, unit) act option
    \<Rightarrow> int option \<Rightarrow> round list \<Rightarrow> (pool, unit option) act" where
  "shutdown_rounds killf join check started rounds = readA (\<lambda>p.
     if pcache p = [] \<or> rh_state p = TERMINATE then ret (Some ())
     else (case rounds of
         [] \<Rightarrow> ret None
       | (env, r, now) # rest \<Rightarrow>
           bindA (modifyA env) (\<lambda>_.
           bindA (case check of None \<Rightarrow> ret () | Some c \<Rightarrow> c) (\<lambda>_.
           case r of
             RecvError e \<Rightarrow> ret (Some ())
           | Got None \<Rightarrow> shutdown_rounds killf join check started rest
           | _ \<Rightarrow>
               bindA (case r of Got (Some m) \<Rightarrow> on_state_change killf m | _ \<Rightarrow> ret ()) (\<lambda>_.
               bindA (after_join join now started) (\<lambda>st. case st of
                   None \<Rightarrow> ret (Some ())
                 | Some started' \<Rightarrow> shutdown_rounds killf join check started' rest))))))"

text \<open>The thread's body over a script of polls, each with the rounds that would follow it.\<close>

fun rh_body :: "(int \<Rightarrow> int \<Rightarrow> int option) \<Rightarrow> (int \<Rightarrow> (pool, 'a) act) \<Rightarrow> (pool, unit) act option
    \<Rightarrow> round list \<Rightarrow> (pool, unit option) act" where
  "rh_body killf join check rounds = readA (\<lambda>p.
     if rh_state p \<noteq> RUN then shutdown_rounds killf join check None rounds
     else (case rounds of
         [] \<Rightarrow> ret None
       | (env, r, now) # rest \<Rightarrow>
           bindA (modifyA env) (\<lambda>_. (\<lambda>p.
             (case process_result killf True r p of
                (Inr _, p') \<Rightarrow> rh_body killf join check rest p'
              | (Inl e, p') \<Rightarrow>
                  (if e = CoroStop then shutdown_rounds killf join check None rest
                   else bindA (shutdown_rounds killf join check None rest)
                          (\<lambda>res. case res of None \<Rightarrow> ret None | Some _ \<Rightarrow> raise e)) p')))))"

section \<open>Crediting the workers\<close>

text \<open>
  What the handler is told, each message with the worker that sent it. \<open>busy\<close> gives the task a
  worker has acknowledged and not reported; two workers never have the same task. A worker may
  acknowledge a new task without reporting the old one (it was told not to run it), or exit.
\<close>

datatype rh_event = AckFrom int nat "nat option" int "int option" | ReadyFrom int nat "nat option" result_obj
  | Exited int

fun stream_ok :: "(int \<rightharpoonup> nat \<times> nat option) \<Rightarrow> rh_event list \<Rightarrow> bool" where
  "stream_ok busy [] = True"
| "stream_ok busy (AckFrom pid job i t fd # es) =
     ((job, i) \<notin> ran (busy(pid := None)) \<and> stream_ok (busy(pid \<mapsto> (job, i))) es)"
| "stream_ok busy (ReadyFrom pid job i obj # es) =
     (busy pid = Some (job, i) \<and> stream_ok (busy(pid := None)) es)"
| "stream_ok busy (Exited pid # es) = stream_ok (busy(pid := None)) es"

fun rh_step :: "(int \<Rightarrow> int \<Rightarrow> int option) \<Rightarrow> rh_event \<Rightarrow> pool \<Rightarrow> pool" where
  "rh_step killf (AckFrom pid job i t fd) p = snd (on_state_change killf (Msg (MAck job i t pid fd)) p)"
| "rh_step killf (ReadyFrom pid job i obj) p = snd (on_state_change killf (Msg (MReady job i obj 0)) p)"
| "rh_step killf (Exited pid) p = on_worker_exit pid p"

fun ready_count :: "int \<Rightarrow> rh_event list \<Rightarrow> nat" where
  "ready_count pid [] = 0"
| "ready_count pid (ReadyFrom pid' _ _ _ # es) = (if pid' = pid then 1 else 0) + ready_count pid es"
| "ready_count pid (_ # es) = ready_count pid es"

definition tracks :: "(int \<rightharpoonup> nat \<times> nat option) \<Rightarrow> pool \<Rightarrow> bool" where
  "tracks busy p \<longleftrightarrow> worker_tasks p = busy \<and> (\<forall>tk pid. task_workers p tk = Some pid \<longleftrightarrow> busy pid = Some tk)"

definition books :: "pool \<Rightarrow> (int \<rightharpoonup> nat \<times> nat option) \<times> (nat \<times> nat option \<rightharpoonup> int) \<times> (int \<rightharpoonup> nat)" where
  "books p = (worker_tasks p, task_workers p, counters p)"

lemma tracks_books: "books p = books q \<Longrightarrow> tracks busy p = tracks busy q"
  by (simp add: tracks_def books_def)

lemma same_rest_books: "same_rest p p' \<Longrightarrow> books p' = books p"
  unfolding same_rest_def books_def by (metis pool.select_convs pool.surjective pool.update_convs)

text \<open>After the books are written, a handler leaves them alone, whatever it raises.\<close>

lemma on_ready_books: "books (snd (on_state_change killf (Msg (MReady job i obj fd)) p)) = books (credit job i p)"
proof -
  have frame: "wp (job_set job i obj) (\<lambda>_ p'. books p' = books q) (\<lambda>_ p'. books p' = books q) q" for q
    by (rule wp_mono [OF job_set_frame]) (auto dest: same_rest_books)
  have rel: "books (release_slot q) = books q" for q by (simp add: books_def release_slot_def)
  have "wp (on_state_change killf (Msg (MReady job i obj fd)))
      (\<lambda>_ p'. books p' = books (credit job i p)) (\<lambda>_ p'. books p' = books (credit job i p)) p"
    by (auto simp: on_state_change_def on_ready_def wp_simps rel split: option.split
        intro!: wp_mono [OF frame])
  then show ?thesis by (auto simp: wp_def split: prod.splits sum.splits)
qed

definition book_ack :: "int \<Rightarrow> nat \<Rightarrow> nat option \<Rightarrow> pool \<Rightarrow> pool" where
  "book_ack pid job i p = (let p = forget_worker pid p in
     p\<lparr>worker_tasks := (worker_tasks p)(pid \<mapsto> (job, i)), task_workers := (task_workers p)((job, i) \<mapsto> pid)\<rparr>)"

lemma on_ack_books: "books (snd (on_state_change killf (Msg (MAck job i t pid fd)) p)) = books (book_ack pid job i p)"
proof -
  have frame: "wp (job_ack job i t pid fd) (\<lambda>_ p'. books p' = books q) (\<lambda>_ p'. books p' = books q) q" for q
    by (rule wp_mono [OF job_ack_frame]) (auto dest: same_rest_books)
  have lim: "books (book_ack pid job i (limiter_reset q)) = books (book_ack pid job i q)" for q
    by (cases "worker_tasks q pid") (simp_all add: books_def book_ack_def limiter_reset_def forget_worker_def Let_def)
  have fold: "p\<lparr>worker_tasks := (worker_tasks p)(pid \<mapsto> (job, i)), task_workers := (task_workers p)((job, i) \<mapsto> pid)\<rparr>
      = book_ack pid job i q" if "p = forget_worker pid q" for p q
    using that by (simp add: book_ack_def Let_def)
  have "wp (on_state_change killf (Msg (MAck job i t pid fd)))
      (\<lambda>_ p'. books p' = books (book_ack pid job i p)) (\<lambda>_ p'. books p' = books (book_ack pid job i p)) p"
    by (auto simp: on_state_change_def on_ack_def wp_simps fold lim split: option.split
        intro!: wp_mono [OF frame])
  then show ?thesis by (auto simp: wp_def split: prod.splits sum.splits)
qed

lemma tracks_inj: "tracks busy p \<Longrightarrow> busy q = Some tk \<Longrightarrow> busy q' = Some tk \<Longrightarrow> q = q'"
  unfolding tracks_def by (metis option.inject)

lemma tracks_forget:
  assumes "tracks busy p"
  shows "tracks (busy(pid := None)) (forget_worker pid p)"
proof -
  have wt: "worker_tasks p = busy" and tw: "task_workers p tk = Some q \<longleftrightarrow> busy q = Some tk" for tk q
    using assms by (simp_all add: tracks_def del: split_paired_All)
  have "task_workers (forget_worker pid p) tk = Some q \<longleftrightarrow> (busy(pid := None)) q = Some tk" for tk q
  proof (cases "busy pid")
    case None
    then have "task_workers (forget_worker pid p) = task_workers p" using wt by (simp add: forget_worker_def)
    then show ?thesis using tw None by (cases "q = pid") simp_all
  next
    case (Some tk')
    then have f: "task_workers (forget_worker pid p) = (task_workers p)(tk' := None)"
      using wt by (simp add: forget_worker_def)
    have "tk = tk' \<Longrightarrow> busy q = Some tk \<Longrightarrow> q = pid" by (rule tracks_inj [OF assms _ Some]) blast
    then show ?thesis unfolding f fun_upd_apply using tw [of tk q] Some by (metis option.inject option.distinct(1))
  qed
  then show ?thesis using wt by (simp add: tracks_def forget_worker_def del: split_paired_All)
qed

lemma tracks_ack:
  assumes "tracks busy p" "(job, i) \<notin> ran (busy(pid := None))"
  shows "tracks (busy(pid \<mapsto> (job, i))) (book_ack pid job i p)"
proof -
  let ?f = "forget_worker pid p"
  have wt: "worker_tasks ?f = busy(pid := None)"
    and tw: "task_workers ?f tk = Some q \<longleftrightarrow> (busy(pid := None)) q = Some tk" for tk q
    using tracks_forget [OF assms(1), of pid] by (simp_all add: tracks_def del: split_paired_All)
  have no: "(busy(pid := None)) q \<noteq> Some (job, i)" for q using assms(2) by (auto simp: ran_def)
  have "task_workers (book_ack pid job i p) tk = Some q \<longleftrightarrow> (busy(pid \<mapsto> (job, i))) q = Some tk" for tk q
    using tw [of tk q] no [of q] by (cases "q = pid"; cases "tk = (job, i)") (auto simp: book_ack_def Let_def)
  then show ?thesis by (simp add: tracks_def book_ack_def Let_def wt del: split_paired_All)
qed

lemma tracks_ready:
  assumes "tracks busy p" "busy pid = Some (job, i)"
  shows "tracks (busy(pid := None)) (credit job i p)"
    and "counters (credit job i p) =
      (case counters p pid of None \<Rightarrow> counters p | Some n \<Rightarrow> (counters p)(pid \<mapsto> n + 1))"
proof -
  have wt: "worker_tasks p = busy" and tw: "task_workers p tk = Some q \<longleftrightarrow> busy q = Some tk" for tk q
    using assms(1) by (simp_all add: tracks_def del: split_paired_All)
  have here: "task_workers p (job, i) = Some pid" using tw assms(2) by simp
  have "task_workers (credit job i p) tk = Some q \<longleftrightarrow> (busy(pid := None)) q = Some tk" for tk q
  proof -
    have f: "task_workers (credit job i p) = (task_workers p)((job, i) := None)" using here by (simp add: credit_def)
    have "tk = (job, i) \<Longrightarrow> busy q = Some tk \<Longrightarrow> q = pid" by (rule tracks_inj [OF assms(1) _ assms(2)]) blast
    then show ?thesis unfolding f fun_upd_apply using tw [of tk q] assms(2) by (metis option.inject option.distinct(1))
  qed
  then show "tracks (busy(pid := None)) (credit job i p)"
    using here wt by (simp add: tracks_def credit_def del: split_paired_All)
  show "counters (credit job i p) =
      (case counters p pid of None \<Rightarrow> counters p | Some n \<Rightarrow> (counters p)(pid \<mapsto> n + 1))"
    using here by (simp add: credit_def)
qed

lemma fold_rh_step:
  "tracks busy p \<Longrightarrow> stream_ok busy es \<Longrightarrow>
   counters (fold (rh_step killf) es p) pid = map_option (\<lambda>n. n + ready_count pid es) (counters p pid)"
proof (induction busy es arbitrary: p rule: stream_ok.induct)
  case (1 busy)
  then show ?case by (simp add: option.map_id0 [unfolded id_def])
next
  case (2 busy q job i t fd es)
  let ?p = "rh_step killf (AckFrom q job i t fd) p"
  have b: "books ?p = books (book_ack q job i p)" by (simp add: on_ack_books)
  have "tracks (busy(q \<mapsto> (job, i))) ?p"
    using tracks_books [OF b] tracks_ack [OF 2(2)] 2(3) by simp
  moreover have "counters ?p = counters p"
    using b by (simp add: books_def book_ack_def forget_worker_def Let_def)
  ultimately show ?case using 2(1) [of ?p] 2(3) by (simp del: fun_upd_apply)
next
  case (3 busy q job i obj es)
  let ?p = "rh_step killf (ReadyFrom q job i obj) p"
  have busy: "busy q = Some (job, i)" using 3(3) by simp
  have b: "books ?p = books (credit job i p)" by (simp add: on_ready_books)
  have "tracks (busy(q := None)) ?p"
    using tracks_books [OF b] tracks_ready(1) [OF 3(2) busy] by simp
  moreover have "counters ?p = (case counters p q of None \<Rightarrow> counters p | Some n \<Rightarrow> (counters p)(q \<mapsto> n + 1))"
    using b tracks_ready(2) [OF 3(2) busy] by (simp add: books_def)
  ultimately show ?case
    using 3(1) [of ?p] 3(3) by (cases "counters p q"; cases "q = pid") (simp_all del: fun_upd_apply, simp_all)
next
  case (4 busy q es)
  have "tracks (busy(q := None)) (rh_step killf (Exited q) p)"
    using tracks_forget [OF 4(2)] by (simp add: on_worker_exit_def)
  moreover have "counters (rh_step killf (Exited q) p) = counters p"
    by (simp add: on_worker_exit_def forget_worker_def)
  ultimately show ?case using 4(1) [of "rh_step killf (Exited q) p"] 4(3) by (simp del: fun_upd_apply)
qed

text \<open>
  The counter a worker waits for before it exits goes up by exactly the number of
  \<open>READY\<close> messages it sent, for any interleaving of the messages and exits of any number of
  workers: whether the job is still in the cache, whatever the callbacks raise, and also for a worker
  that acknowledged tasks it never reported.
\<close>

theorem ready_credited_to_sender:
  assumes "stream_ok Map.empty es" "worker_tasks p = Map.empty" "task_workers p = Map.empty"
  shows "counters (fold (rh_step killf) es p) pid = map_option (\<lambda>n. n + ready_count pid es) (counters p pid)"
proof (rule fold_rh_step [OF _ assms(1)])
  show "tracks Map.empty p" using assms(2,3) by (simp add: tracks_def)
qed

definition pool0 :: pool where
  "pool0 = \<lparr>objs = Map.empty, pcache = [], ptrace = [], job_counter = 0, worker_procs = [], processes = 2,
     poolctrl = [], counters = [50 \<mapsto> 0, 51 \<mapsto> 0], worker_tasks = Map.empty, task_workers = Map.empty,
     putlock = \<lparr>ls_value = 2, ls_initial = 2\<rparr>, limiters = (\<lambda>_. restart_state_init None 1), cur_limiter = False,
     rh_limiter = False, pstatus = RUN, sv_state = RUN, th_state = RUN, rh_state = RUN, to_state = RUN,
     rh_iter = None, taskqueue = [], inqueue = [], outq_sentinels = 0\<rparr>"

theorem ready_credited_to_sender_witness:
  "counters (fold (rh_step (\<lambda>_ _. None)) [AckFrom 50 1 None 5 None, AckFrom 51 2 None 6 None,
     ReadyFrom 51 2 None (True, PNone), ReadyFrom 50 1 None (True, PNone), AckFrom 51 3 None 7 None, Exited 51] pool0) 51 = Some 1"
proof -
  have "stream_ok Map.empty [AckFrom 50 1 None 5 None, AckFrom 51 2 None 6 None,
     ReadyFrom 51 2 None (True, PNone), ReadyFrom 50 1 None (True, PNone), AckFrom 51 3 None 7 None, Exited 51]"
    by (simp add: ran_def)
  from ready_credited_to_sender [OF this, of pool0 "\<lambda>_ _. None" 51] show ?thesis
    by (simp add: pool0_def)
qed

end
