(* ===== verification/Supervision.thy ===== *)
theory Supervision
  imports Result_Handler
begin

text \<open>
  How a pool keeps its workers: \<open>_join_exited_workers\<close> (reaping, and the jobs of lost workers),
  \<open>_repopulate_pool\<close>, \<open>grow\<close> and \<open>shrink\<close>, \<open>maintain_pool\<close>, the supervisor thread and
  \<open>PoolThread.run\<close>, all from \<open>billiard/pool.py\<close>.

  \<^item> \<open>pconf\<close> holds the pool's options and what the operating system does: \<open>pc_fork p\<close> is the
    process id of a worker started in state \<open>p\<close>, or the exception of \<open>start\<close>.
  \<^item> \<open>now\<close> is the clock reading of the call. The hooks that do nothing here
    (\<open>on_job_process_down\<close>, \<open>process_flush_queues\<close>, \<open>on_grow\<close>, ...) are left out.
\<close>

record pconf =
  pc_fork :: "pool \<Rightarrow> exn + int"
  pc_allow_restart :: bool
  pc_on_process_up :: "(int \<Rightarrow> exn option) option"
  pc_on_process_down :: "(int \<Rightarrow> exn option) option"

definition LOST_WORKER_TIMEOUT :: int where "LOST_WORKER_TIMEOUT = 10"

fun job_lost_timeout :: "job \<Rightarrow> int" where
  "job_lost_timeout (AR j) = ar_lost_worker_timeout j"
| "job_lost_timeout (MR j) = LOST_WORKER_TIMEOUT"
| "job_lost_timeout (IM j) = im_lost_worker_timeout j"
| "job_lost_timeout (IMU j) = im_lost_worker_timeout j"

text \<open>A loop over a list, and the call of a user's callback.\<close>

fun forA :: "'a list \<Rightarrow> ('a \<Rightarrow> ('s, unit) act) \<Rightarrow> ('s, unit) act" where
  "forA [] f = ret ()"
| "forA (x # xs) f = bindA (f x) (\<lambda>_. forA xs f)"

definition hook :: "event \<Rightarrow> exn option \<Rightarrow> (pool, unit) act" where
  "hook ev r = bindA (modifyA (\<lambda>p. p\<lparr>ptrace := ptrace p @ [ev]\<rparr>))
     (\<lambda>_. case r of None \<Rightarrow> ret () | Some e \<Rightarrow> raise e)"

section \<open>Starting a worker\<close>

definition create_worker_process :: "pconf \<Rightarrow> int \<Rightarrow> (pool, unit) act" where
  "create_worker_process c i =
     bindA (modifyA (\<lambda>p. p\<lparr>worker_procs := worker_procs p @
              [\<lparr>pr_pid = 0, pr_index = i, pr_started = False, pr_exitcode = None,
                pr_controlled = False, pr_job_terminated = False\<rparr>]\<rparr>)) (\<lambda>_.
     readA (\<lambda>p. case pc_fork c p of
         Inl e \<Rightarrow> raise e
       | Inr pid \<Rightarrow>
           bindA (modifyA (\<lambda>p. p\<lparr>
                    worker_procs := butlast (worker_procs p) @
                      [(last (worker_procs p))\<lparr>pr_pid := pid, pr_started := True\<rparr>],
                    poolctrl := filter (\<lambda>(q, _). q \<noteq> pid) (poolctrl p) @
                      [(pid, if pc_allow_restart c then Some False else None)],
                    counters := (counters p)(pid \<mapsto> 0)\<rparr>)) (\<lambda>_.
           case pc_on_process_up c of None \<Rightarrow> ret () | Some f \<Rightarrow> hook (ProcessUp pid) (f pid))))"

text \<open>The smallest index below \<open>processes\<close> that no worker has.\<close>

definition avail_index :: "pool \<Rightarrow> exn + int" where
  "avail_index p =
     (if \<not> int (length (worker_procs p)) < processes p then Inl AssertionError
      else (case filter (\<lambda>i. i \<notin> pr_index ` set (worker_procs p)) (map int [0 ..< nat (processes p)]) of
          [] \<Rightarrow> Inl StopIteration
        | i # _ \<Rightarrow> Inr i))"

definition limiter_step :: "int \<Rightarrow> (pool, unit) act" where
  "limiter_step now p =
     (let (r, l) = restart_step now (limiters p (cur_limiter p)) in
      (r, p\<lparr>limiters := (limiters p)(cur_limiter p := l)\<rparr>))"

text \<open>One round of \<open>_repopulate_pool\<close>; \<open>Inr False\<close> is its early return.\<close>

definition repopulate_round :: "pconf \<Rightarrow> int \<Rightarrow> int list \<Rightarrow> nat \<Rightarrow> (pool, bool) act" where
  "repopulate_round c now exitcodes i = readA (\<lambda>p.
     if pstatus p \<noteq> RUN then ret False
     else
       bindA (if exitcodes = [] then ret ()
              else if i < length exitcodes
                then whenA (exitcodes ! i \<noteq> EX_OK \<and> exitcodes ! i \<noteq> EX_RECYCLE) (limiter_step now)
              else limiter_step now) (\<lambda>_.
       readA (\<lambda>p. case avail_index p of
           Inl e \<Rightarrow> raise e
         | Inr k \<Rightarrow> bindA (create_worker_process c k) (\<lambda>_. ret True))))"

fun repopulate_rounds :: "pconf \<Rightarrow> int \<Rightarrow> int list \<Rightarrow> nat list \<Rightarrow> (pool, unit) act" where
  "repopulate_rounds c now exitcodes [] = ret ()"
| "repopulate_rounds c now exitcodes (i # is) =
     bindA (repopulate_round c now exitcodes i) (\<lambda>more.
       if more then repopulate_rounds c now exitcodes is else ret ())"

definition repopulate_pool :: "pconf \<Rightarrow> int \<Rightarrow> int list \<Rightarrow> (pool, unit) act" where
  "repopulate_pool c now exitcodes = readA (\<lambda>p.
     repopulate_rounds c now exitcodes [0 ..< nat (processes p - int (length (worker_procs p)))])"

section \<open>Reaping\<close>

definition mark_as_worker_lost :: "nat \<Rightarrow> int \<Rightarrow> (pool, unit) act" where
  "mark_as_worker_lost k exitcode =
     job_set k None (False, PEinfo (ExceptionWithTraceback (WorkerLostError exitcode)))"

definition on_job_process_lost :: "nat \<Rightarrow> int \<Rightarrow> int \<Rightarrow> pool \<Rightarrow> pool" where
  "on_job_process_lost k now exitcode p =
     p\<lparr>objs := (objs p)(k := map_option (set_worker_lost (now, exitcode)) (objs p k))\<rparr>"

text \<open>The first loop: jobs whose worker was lost long enough ago.\<close>

definition is_lost :: "pool \<Rightarrow> nat \<Rightarrow> bool" where
  "is_lost p k = (case objs p k of None \<Rightarrow> False
     | Some j \<Rightarrow> \<not> job_ready j \<and> job_worker_lost j \<noteq> None)"

definition expire_lost :: "int \<Rightarrow> nat \<Rightarrow> (pool, unit) act" where
  "expire_lost now k = readA (\<lambda>p.
     case objs p k of None \<Rightarrow> ret ()
     | Some j \<Rightarrow> (case job_worker_lost j of None \<Rightarrow> ret ()
         | Some (lost_time, lost_ret) \<Rightarrow>
             whenA (now - lost_time > job_lost_timeout j) (mark_as_worker_lost k lost_ret)))"

text \<open>
  The loop over the workers, from the last to the first. A worker that was never started has no
  process id, and \<open>del self._poolctrl[None]\<close> raises. The result lists the workers removed.
\<close>

definition exited :: "proc \<Rightarrow> bool" where
  "exited w \<longleftrightarrow> \<not> pr_started w \<or> pr_exitcode w \<noteq> None"

definition reap_worker :: "nat \<Rightarrow> (pool, unit) act" where
  "reap_worker i = readA (\<lambda>p. let w = worker_procs p ! i; pid = pr_pid w in
     bindA (modifyA (\<lambda>p. p\<lparr>worker_procs := del_nth i (worker_procs p)\<rparr>)) (\<lambda>_.
     bindA (assertA (\<lambda>p. pr_started w \<and> pid \<in> fst ` set (poolctrl p)) KeyError) (\<lambda>_.
     bindA (modifyA (\<lambda>p. p\<lparr>poolctrl := filter (\<lambda>(q, _). q \<noteq> pid) (poolctrl p)\<rparr>)) (\<lambda>_.
     bindA (assertA (\<lambda>p. pid \<in> dom (counters p)) KeyError) (\<lambda>_.
     bindA (modifyA (\<lambda>p. p\<lparr>counters := (counters p)(pid := None)\<rparr>)) (\<lambda>_.
     modifyA (on_worker_exit pid)))))))"

fun reap_from :: "nat \<Rightarrow> (pool, proc list) act" where
  "reap_from 0 = ret []"
| "reap_from (Suc i) = readA (\<lambda>p.
     if exited (worker_procs p ! i)
     then bindA (reap_worker i) (\<lambda>_. bindA (reap_from i) (\<lambda>ws. ret (worker_procs p ! i # ws)))
     else reap_from i)"

definition exitcode_of :: "proc list \<Rightarrow> int \<Rightarrow> int" where
  "exitcode_of cleaned pid =
     (case find (\<lambda>w. pr_pid w = pid) cleaned of None \<Rightarrow> 0
      | Some w \<Rightarrow> (case pr_exitcode w of None \<Rightarrow> 0 | Some e \<Rightarrow> e))"

definition job_terminated :: "proc list \<Rightarrow> int \<Rightarrow> bool" where
  "job_terminated cleaned pid =
     (case find (\<lambda>w. pr_pid w = pid) cleaned of None \<Rightarrow> False | Some w \<Rightarrow> pr_job_terminated w)"

text \<open>
  What happens to one job of the cache after workers were reaped. \<open>IMapIterator\<close> has neither
  \<open>_set_terminated\<close> nor \<open>_write_to\<close>; for the others \<open>_write_to\<close> and \<open>_scheduled_for\<close> only lead
  to the empty hook.
\<close>

definition job_set_terminated :: "nat \<Rightarrow> int \<Rightarrow> (pool, unit) act" where
  "job_set_terminated k signum = readA (\<lambda>p.
     case objs p k of
       Some (AR j) \<Rightarrow> with_obj k AR j (ar_set_terminated (Some signum))
     | Some (MR j) \<Rightarrow> with_obj k MR j
         (mr_set None (False, PEinfo (ExceptionWithTraceback (Terminated (- signum)))))
     | _ \<Rightarrow> raise AttributeError)"

definition job_of_gone_worker :: "int \<Rightarrow> proc list \<Rightarrow> nat \<Rightarrow> (pool, unit) act" where
  "job_of_gone_worker now cleaned k = readA (\<lambda>p.
     case objs p k of None \<Rightarrow> ret ()
     | Some j \<Rightarrow>
        (case find (\<lambda>pid. pid \<in> pr_pid ` set cleaned \<or> pid \<notin> pr_pid ` set (worker_procs p)) (job_worker_pids j) of
           Some pid \<Rightarrow>
             if pid \<noteq> 0 then
               whenA (\<not> job_ready j)
                 (if job_terminated cleaned pid then job_set_terminated k (exitcode_of cleaned pid)
                  else modifyA (on_job_process_lost k now (exitcode_of cleaned pid)))
             else (case j of IM _ \<Rightarrow> raise AttributeError | IMU _ \<Rightarrow> raise AttributeError | _ \<Rightarrow> ret ())
         | None \<Rightarrow> (case j of IM _ \<Rightarrow> raise AttributeError | IMU _ \<Rightarrow> raise AttributeError | _ \<Rightarrow> ret ())))"

definition join_exited_workers :: "pconf \<Rightarrow> bool \<Rightarrow> int \<Rightarrow> (pool, int list) act" where
  "join_exited_workers c shutdown now = readA (\<lambda>p.
     bindA (forA (filter (is_lost p) (pcache p)) (expire_lost now)) (\<lambda>_.
     readA (\<lambda>p. if shutdown \<and> worker_procs p = [] then raise WorkersJoined else
     bindA (reap_from (length (worker_procs p))) (\<lambda>cleaned.
       if cleaned = [] then ret []
       else
         bindA (readA (\<lambda>p. forA (pcache p) (job_of_gone_worker now cleaned))) (\<lambda>_.
         bindA (case pc_on_process_down c of None \<Rightarrow> ret ()
                | Some f \<Rightarrow> forA cleaned (\<lambda>w. hook (ProcessDown (pr_pid w)) (f (pr_pid w)))) (\<lambda>_.
         ret (map (\<lambda>w. exitcode_of [w] (pr_pid w)) cleaned)))))))"

definition did_start_ok :: "pconf \<Rightarrow> int \<Rightarrow> (pool, bool) act" where
  "did_start_ok c now = bindA (join_exited_workers c False now) (\<lambda>codes. ret (codes = []))"

section \<open>Maintaining, growing and shrinking\<close>

definition maintain_once :: "pconf \<Rightarrow> int \<Rightarrow> (pool, unit) act" where
  "maintain_once c now =
     bindA (join_exited_workers c False now) (\<lambda>joined.
     bindA (repopulate_pool c now joined) (\<lambda>_.
     forA joined (\<lambda>_. modifyA release_slot)))"

text \<open>\<open>close\<close> and \<open>join\<close>; waiting for the threads changes nothing here.\<close>

definition pool_close :: "pool \<Rightarrow> pool" where
  "pool_close p =
     (if pstatus p = RUN then
        p\<lparr>pstatus := CLOSE, putlock := ls_clear (putlock p), sv_state := CLOSE, taskqueue := taskqueue p @ [None]\<rparr>
      else p)"

definition pool_join :: "(pool, unit) act" where
  "pool_join = assertA (\<lambda>p. pstatus p = CLOSE \<or> pstatus p = TERMINATE) AssertionError"

definition ENOMEM :: int where "ENOMEM = 12"

definition maintain_pool :: "pconf \<Rightarrow> int \<Rightarrow> (pool, unit) act" where
  "maintain_pool c now = readA (\<lambda>p.
     if sv_state p = RUN \<and> pstatus p = RUN then
       catchA (maintain_once c now) (\<lambda>e.
         if e = RestartFreqExceeded then bindA (modifyA pool_close) (\<lambda>_. bindA pool_join (\<lambda>_. raise e))
         else if e = OSError ENOMEM then raise MemoryError
         else raise e)
     else ret ())"

definition worker_active :: "pool \<Rightarrow> proc \<Rightarrow> bool" where
  "worker_active p w = list_ex (\<lambda>k. case objs p k of None \<Rightarrow> False
     | Some j \<Rightarrow> pr_pid w \<in> set (job_worker_pids j)) (pcache p)"

definition pool_grow :: "int \<Rightarrow> pool \<Rightarrow> pool" where
  "pool_grow n p = ((\<lambda>p. p\<lparr>processes := processes p + 1, putlock := ls_grow (putlock p)\<rparr>) ^^ nat n) p"

definition putlock_shrink :: "(pool, unit) act" where
  "putlock_shrink p = (let (r, l) = ls_shrink (putlock p) in (r, p\<lparr>putlock := l\<rparr>))"

definition terminate_controlled :: "nat \<Rightarrow> (pool, unit) act" where
  "terminate_controlled k = readA (\<lambda>p. let w = worker_procs p ! k in
     bindA (modifyA (\<lambda>p. p\<lparr>worker_procs := (worker_procs p)[k := w\<lparr>pr_controlled := True\<rparr>]\<rparr>)) (\<lambda>_.
     if pr_started w then modifyA (\<lambda>p. p\<lparr>ptrace := ptrace p @ [Kill (pr_pid w) TERM_SIGNAL]\<rparr>)
     else raise AttributeError))"

text \<open>\<open>shrink\<close>: \<open>ks\<close> are the positions still to be visited, \<open>i\<close> counts the idle workers met.\<close>

fun shrink_loop :: "int \<Rightarrow> int \<Rightarrow> nat list \<Rightarrow> (pool, unit) act" where
  "shrink_loop n i [] = raise ValueError"
| "shrink_loop n i (k # ks) = readA (\<lambda>p.
     if worker_active p (worker_procs p ! k) then shrink_loop n i ks
     else
       bindA (modifyA (\<lambda>p. p\<lparr>processes := processes p - 1\<rparr>)) (\<lambda>_.
       bindA putlock_shrink (\<lambda>_.
       bindA (terminate_controlled k) (\<lambda>_.
       if i \<ge> n - 1 then ret () else shrink_loop n (i + 1) ks))))"

definition pool_shrink :: "int \<Rightarrow> (pool, unit) act" where
  "pool_shrink n = readA (\<lambda>p. shrink_loop n 0 [0 ..< length (worker_procs p)])"

definition terminate_job :: "(int \<Rightarrow> int \<Rightarrow> int option) \<Rightarrow> int \<Rightarrow> int option \<Rightarrow> (pool, unit) act" where
  "terminate_job killf pid sig = readA (\<lambda>p.
     let s = (case sig of None \<Rightarrow> TERM_SIGNAL | Some n \<Rightarrow> if n = 0 then TERM_SIGNAL else n);
         k = length (takeWhile (\<lambda>w. pr_pid w \<noteq> pid) (worker_procs p)) in
     if k < length (worker_procs p) then
       bindA (modifyA (\<lambda>p. p\<lparr>ptrace := ptrace p @ [Kill pid s]\<rparr>)) (\<lambda>_.
       case killf pid s of
         Some e \<Rightarrow> if e = ESRCH then ret () else raise (OSError e)
       | None \<Rightarrow> modifyA (\<lambda>p. p\<lparr>worker_procs := (worker_procs p)
                   [k := (worker_procs p ! k)\<lparr>pr_controlled := True, pr_job_terminated := True\<rparr>]\<rparr>))
     else ret ())"

text \<open>\<open>restart\<close> sets the sentinel of each worker; without \<open>allow_restart\<close> the entry is \<open>None\<close>.\<close>

fun set_sentinels :: "(int \<times> bool option) list \<Rightarrow> (int \<times> bool option) list \<times> exn option" where
  "set_sentinels [] = ([], None)"
| "set_sentinels ((q, None) # es) = ((q, None) # es, Some AttributeError)"
| "set_sentinels ((q, Some _) # es) = (let (es', r) = set_sentinels es in ((q, Some True) # es', r))"

definition pool_restart :: "(pool, unit) act" where
  "pool_restart p = (let (es, r) = set_sentinels (poolctrl p) in
     (case r of None \<Rightarrow> Inr () | Some e \<Rightarrow> Inl e, p\<lparr>poolctrl := es\<rparr>))"

section \<open>The supervisor thread\<close>

text \<open>
  \<open>Supervisor.body\<close> over a script of rounds: what happened to the pool before the round, and
  the clock. The first ten rounds are the start-up burst, with a limiter of its own.
\<close>

definition sv_running :: "pool \<Rightarrow> bool" where
  "sv_running p \<longleftrightarrow> sv_state p = RUN \<and> pstatus p = RUN"

definition burst_begin :: "pool \<Rightarrow> pool" where
  "burst_begin p = p\<lparr>limiters := (limiters p)(True := restart_state_init (Some (10 * processes p)) 1), cur_limiter := True\<rparr>"

definition burst_end :: "pool \<Rightarrow> pool" where
  "burst_end p = p\<lparr>cur_limiter := False\<rparr>"

fun burst :: "pconf \<Rightarrow> ((pool \<Rightarrow> pool) \<times> int) list \<Rightarrow> (pool, unit) act" where
  "burst c [] = ret ()"
| "burst c ((env, now) # rest) =
     bindA (modifyA env) (\<lambda>_.
     bindA (readA (\<lambda>p. whenA (sv_running p) (maintain_once c now))) (\<lambda>_. burst c rest))"

fun supervise :: "pconf \<Rightarrow> ((pool \<Rightarrow> pool) \<times> int) list \<Rightarrow> (pool, unit option) act" where
  "supervise c [] = readA (\<lambda>p. if sv_running p then ret None else ret (Some ()))"
| "supervise c ((env, now) # rest) =
     bindA (modifyA env) (\<lambda>_. readA (\<lambda>p.
       if sv_running p then bindA (maintain_once c now) (\<lambda>_. supervise c rest) else ret (Some ())))"

definition supervisor_body :: "pconf \<Rightarrow> ((pool \<Rightarrow> pool) \<times> int) list \<Rightarrow> (pool, unit option) act" where
  "supervisor_body c rounds =
     catchA
       (bindA (modifyA burst_begin) (\<lambda>_.
        bindA (burst c (take 10 rounds)) (\<lambda>_.
        bindA (modifyA burst_end) (\<lambda>_. supervise c (drop 10 rounds)))))
       (\<lambda>e. if e = RestartFreqExceeded
            then bindA (modifyA pool_close) (\<lambda>_. bindA pool_join (\<lambda>_. raise e))
            else raise e)"

text \<open>\<open>PoolThread.run\<close>: what the end of a thread's body does to the process.\<close>

datatype thread_end = Returned | KilledSelf int | ExitedProcess int | Propagated exn

definition pool_thread_run :: "exn + 'a \<Rightarrow> thread_end" where
  "pool_thread_run r =
     (case r of Inr _ \<Rightarrow> Returned
      | Inl e \<Rightarrow> if e = RestartFreqExceeded then KilledSelf TERM_SIGNAL
               else if is_Exception e then ExitedProcess 1
               else Propagated e)"

section \<open>The crew invariant\<close>

definition pids :: "pool \<Rightarrow> int set" where
  "pids p = pr_pid ` set (worker_procs p)"

text \<open>
  Each worker has its own process id and index, and the tables keyed by process id hold
  exactly the workers.
\<close>

definition staffed :: "pool \<Rightarrow> bool" where
  "staffed p \<longleftrightarrow> distinct (map pr_pid (worker_procs p)) \<and> distinct (map pr_index (worker_procs p)) \<and>
     (\<forall>w \<in> set (worker_procs p). pr_started w \<and> pr_pid w > 0) \<and>
     distinct (map fst (poolctrl p)) \<and> fst ` set (poolctrl p) = pids p \<and> dom (counters p) = pids p"

text \<open>What the calls of result objects leave alone.\<close>

definition crew :: "pool \<Rightarrow> proc list \<times> int \<times> (int \<times> bool option) list \<times> (int \<rightharpoonup> nat) \<times> nat \<times> (bool \<Rightarrow> restart_state) \<times> bool" where
  "crew p = (worker_procs p, processes p, poolctrl p, counters p, pstatus p, limiters p, cur_limiter p)"

lemma staffed_crew: "crew p = crew q \<Longrightarrow> staffed p = staffed q"
  by (simp add: staffed_def crew_def pids_def)

lemma same_rest_crew: "same_rest p p' \<Longrightarrow> crew p' = crew p"
  unfolding same_rest_def by (erule ssubst) (simp add: crew_def)

lemma avail_index_ok:
  assumes "int (length (worker_procs p)) < processes p"
  shows "\<exists>i. avail_index p = Inr i \<and> i \<notin> pr_index ` set (worker_procs p) \<and> 0 \<le> i \<and> i < processes p"
proof -
  let ?used = "pr_index ` set (worker_procs p)"
  let ?free = "filter (\<lambda>i. i \<notin> ?used) (map int [0 ..< nat (processes p)])"
  have "?free \<noteq> []"
  proof
    assume "?free = []"
    then have "int ` {0 ..< nat (processes p)} \<subseteq> ?used" by (auto simp: filter_empty_conv)
    then have "card (int ` {0 ..< nat (processes p)}) \<le> card ?used" by (intro card_mono) auto
    also have "card ?used \<le> length (worker_procs p)"
      using card_image_le [of "set (worker_procs p)" pr_index] card_length [of "worker_procs p"] by simp
    finally show False using assms by (simp add: card_image)
  qed
  then obtain i rest where f: "?free = i # rest" by (cases ?free) auto
  then have "i \<in> set ?free" by simp
  then have "i \<notin> ?used" "0 \<le> i" "i < processes p" by auto
  moreover have "avail_index p = Inr i"
    using assms f unfolding avail_index_def by simp
  ultimately show ?thesis by blast
qed

definition good_conf :: "pconf \<Rightarrow> bool" where
  "good_conf c \<longleftrightarrow> (\<forall>p. \<exists>pid. pc_fork c p = Inr pid \<and> pid > 0 \<and> pid \<notin> pids p) \<and>
     (\<forall>f q. pc_on_process_up c = Some f \<longrightarrow> f q = None) \<and> (\<forall>f q. pc_on_process_down c = Some f \<longrightarrow> f q = None)"

lemma create_worker_ok:
  assumes c: "good_conf c" and p: "staffed p" and i: "i \<notin> pr_index ` set (worker_procs p)"
  shows "wp (create_worker_process c i) (\<lambda>_ p'. staffed p' \<and> pstatus p' = pstatus p \<and> processes p' = processes p \<and>
      limiters p' = limiters p \<and> cur_limiter p' = cur_limiter p \<and>
      (\<exists>w. worker_procs p' = worker_procs p @ [w] \<and> pr_index w = i \<and> \<not> exited w)) (\<lambda>_ _. False) p"
proof -
  let ?w = "\<lparr>pr_pid = 0, pr_index = i, pr_started = False, pr_exitcode = None, pr_controlled = False,
      pr_job_terminated = False\<rparr>"
  let ?p = "p\<lparr>worker_procs := worker_procs p @ [?w]\<rparr>"
  obtain pid where pid: "pc_fork c ?p = Inr pid" "pid > 0" "pid \<notin> pids ?p"
    using c unfolding good_conf_def by blast
  have new: "pid \<notin> pids p" using pid(3) by (simp add: pids_def)
  let ?p' = "p\<lparr>worker_procs := worker_procs p @ [?w\<lparr>pr_pid := pid, pr_started := True\<rparr>],
      poolctrl := filter (\<lambda>(q, _). q \<noteq> pid) (poolctrl p) @ [(pid, if pc_allow_restart c then Some False else None)],
      counters := (counters p)(pid \<mapsto> 0)\<rparr>"
  have keep: "filter (\<lambda>(q, _). q \<noteq> pid) (poolctrl p) = poolctrl p"
  proof (intro filter_True ballI)
    fix x assume "x \<in> set (poolctrl p)"
    then have "fst x \<in> pids p" using p by (auto simp: staffed_def)
    then show "case x of (q, _) \<Rightarrow> q \<noteq> pid" using new by (cases x) auto
  qed
  have st: "staffed ?p'"
    using p new i pid(2) unfolding staffed_def keep by (auto simp: pids_def)
  have st': "staffed (?p'\<lparr>ptrace := tr\<rparr>)" for tr
    using st staffed_crew [of "?p'\<lparr>ptrace := tr\<rparr>" ?p'] by (simp add: crew_def)
  show ?thesis
    using st st' pid(1) c
    by (cases "pc_on_process_up c")
      (auto simp: create_worker_process_def wp_simps hook_def exited_def good_conf_def split: option.split)
qed

definition unlimited :: "pool \<Rightarrow> bool" where
  "unlimited p \<longleftrightarrow> \<not> truthy (maxR (limiters p (cur_limiter p)))"

lemma limiter_step_ok:
  assumes "unlimited p"
  shows "wp (limiter_step now) (\<lambda>_ p'. unlimited p' \<and> worker_procs p' = worker_procs p \<and> staffed p' = staffed p \<and>
     pstatus p' = pstatus p \<and> processes p' = processes p) (\<lambda>_ _. False) p"
proof -
  let ?l = "limiters p (cur_limiter p)"
  obtain l where l: "restart_step now ?l = (Inr (), l)" "maxR l = maxR ?l"
    using assms by (cases "truthy (T ?l) \<and> now - the (T ?l) \<ge> maxT ?l") (auto simp: restart_step_def count_restart_def unlimited_def)
  have "staffed (p\<lparr>limiters := x\<rparr>) = staffed p" for x by (simp add: staffed_def pids_def)
  then show ?thesis using l assms by (simp add: limiter_step_def wp_def unlimited_def)
qed

definition grown :: "pool \<Rightarrow> pool \<Rightarrow> nat \<Rightarrow> bool" where
  "grown p p' n \<longleftrightarrow> staffed p' \<and> unlimited p' \<and> pstatus p' = RUN \<and> processes p' = processes p \<and>
     (\<exists>ws. worker_procs p' = worker_procs p @ ws \<and> length ws = n \<and> (\<forall>w \<in> set ws. \<not> exited w))"

lemma repopulate_round_ok:
  assumes c: "good_conf c" and p: "staffed p" "unlimited p" "pstatus p = RUN"
    and room: "int (length (worker_procs p)) < processes p"
  shows "wp (repopulate_round c now codes i) (\<lambda>more p'. more \<and> grown p p' 1) (\<lambda>_ _. False) p"
proof -
  let ?lim = "if codes = [] then ret ()
        else if i < length codes then whenA (codes ! i \<noteq> EX_OK \<and> codes ! i \<noteq> EX_RECYCLE) (limiter_step now)
        else limiter_step now"
  have lim: "wp ?lim (\<lambda>_ p'. unlimited p' \<and> worker_procs p' = worker_procs p \<and> staffed p' \<and>
     pstatus p' = RUN \<and> processes p' = processes p) (\<lambda>_ _. False) p"
    using p by (auto simp: wp_simps intro!: wp_mono [OF limiter_step_ok])
  have "wp (readA (\<lambda>p. case avail_index p of Inl e \<Rightarrow> raise e | Inr k \<Rightarrow> bindA (create_worker_process c k) (\<lambda>_. ret True)))
     (\<lambda>more p'. more \<and> grown p p' 1) (\<lambda>_ _. False) q"
    if q: "unlimited q" "worker_procs q = worker_procs p" "staffed q" "pstatus q = RUN" "processes q = processes p" for q
  proof -
    obtain k where k: "avail_index q = Inr k" "k \<notin> pr_index ` set (worker_procs q)"
      using avail_index_ok [of q] room q by auto
    have "wp (create_worker_process c k) (\<lambda>_ p'. grown p p' 1) (\<lambda>_ _. False) q"
      by (rule wp_mono [OF create_worker_ok [OF c q(3) k(2)]]) (use q in \<open>auto simp: grown_def unlimited_def\<close>)
    then show ?thesis using k(1) by (simp add: wp_simps)
  qed
  note step = this
  show ?thesis
    unfolding repopulate_round_def wp_read using p(3)
    by (simp only: wp_bind if_False simp_thms) (rule wp_mono [OF lim], use step in auto)
qed

lemma repopulate_rounds_ok:
  "good_conf c \<Longrightarrow> staffed p \<Longrightarrow> unlimited p \<Longrightarrow> pstatus p = RUN \<Longrightarrow>
   int (length (worker_procs p)) + int (length is) \<le> processes p \<Longrightarrow>
   wp (repopulate_rounds c now codes is) (\<lambda>_ p'. grown p p' (length is)) (\<lambda>_ _. False) p"
proof (induction "is" arbitrary: p)
  case Nil
  then show ?case by (simp add: wp_simps grown_def)
next
  case (Cons i "is")
  show ?case
    unfolding repopulate_rounds.simps wp_bind
  proof (rule wp_mono [OF repopulate_round_ok [OF Cons.prems(1-4)]], goal_cases)
    case 1
    then show ?case using Cons.prems(5) by simp
  next
    case (2 more q)
    then have g: "more" "grown p q 1" by auto
    then have "wp (repopulate_rounds c now codes is) (\<lambda>_ p'. grown q p' (length is)) (\<lambda>_ _. False) q"
      using Cons.prems by (intro Cons.IH) (auto simp: grown_def)
    then show ?case using g(1) by (auto elim!: wp_mono) (use g(2) in \<open>force simp: grown_def\<close>)
  qed simp
qed
section \<open>Reaping and refilling\<close>

definition others :: "pool \<Rightarrow> (nat \<rightharpoonup> job) \<times> nat list \<times> event list \<times> int \<times> nat \<times> (bool \<Rightarrow> restart_state) \<times> bool" where
  "others p = (objs p, pcache p, ptrace p, processes p, pstatus p, limiters p, cur_limiter p)"

lemma map_del_nth: "map f (del_nth i xs) = del_nth i (map f xs)"
  by (simp add: del_nth_def take_map drop_map)

lemma fst_filter_neq: "fst ` set (filter (\<lambda>(q, _). q \<noteq> k) xs) = fst ` set xs - {k}"
  by (induction xs) auto

lemma reap_worker_ok:
  assumes p: "staffed p" and i: "i < length (worker_procs p)"
  shows "wp (reap_worker i) (\<lambda>_ p'. staffed p' \<and> worker_procs p' = del_nth i (worker_procs p) \<and> others p' = others p)
     (\<lambda>_ _. False) p"
proof -
  let ?ws = "worker_procs p" and ?pid = "pr_pid (worker_procs p ! i)"
  have mem: "?ws ! i \<in> set ?ws" using i by simp
  have pid: "?pid \<in> pids p" "pr_started (?ws ! i)" using mem p by (auto simp: pids_def staffed_def)
  have pids': "pr_pid ` set (del_nth i ?ws) = pids p - {?pid}"
    using del_nth_props(1) [of i "map pr_pid ?ws"] i p
    by (simp add: map_del_nth [symmetric] staffed_def pids_def)
  have dist: "distinct (map pr_pid (del_nth i ?ws))" "distinct (map pr_index (del_nth i ?ws))"
    unfolding map_del_nth using p i by (auto simp: staffed_def intro!: del_nth_props(2))
  have sub: "set (del_nth i ?ws) \<subseteq> set ?ws" unfolding del_nth_def using set_take_subset set_drop_subset by fastforce
  have ctl: "fst ` set (filter (\<lambda>(q, _). q \<noteq> ?pid) (poolctrl p)) = pids p - {?pid}"
    unfolding fst_filter_neq using p by (simp add: staffed_def)
  have dctl: "distinct (map fst (filter (\<lambda>(q, _). q \<noteq> ?pid) (poolctrl p)))"
    using p by (simp add: staffed_def distinct_map_filter)
  let ?q = "on_worker_exit ?pid (p\<lparr>worker_procs := del_nth i ?ws, poolctrl := filter (\<lambda>(q, _). q \<noteq> ?pid) (poolctrl p),
      counters := (counters p)(?pid := None)\<rparr>)"
  have cond: "?pid \<in> fst ` set (poolctrl p)" "?pid \<in> dom (counters p)" using pid p by (auto simp: staffed_def)
  have run: "reap_worker i p = (Inr (), ?q)"
    using pid(2) cond by (simp add: reap_worker_def act_defs Let_def)
  have fields: "worker_procs ?q = del_nth i ?ws" "poolctrl ?q = filter (\<lambda>(q, _). q \<noteq> ?pid) (poolctrl p)"
    "counters ?q = (counters p)(?pid := None)" "others ?q = others p"
    by (simp_all add: on_worker_exit_def forget_worker_def others_def)
  have "dom ((counters p)(?pid := None)) = pids p - {?pid}" using p by (simp add: staffed_def)
  then have "staffed ?q"
    unfolding staffed_def fields pids_def [of ?q] pids' using dist ctl dctl sub p
    by (auto simp: staffed_def)
  then show ?thesis unfolding wp_def run using fields by simp
qed

lemma reap_from_ok:
  "staffed p \<Longrightarrow> i \<le> length (worker_procs p) \<Longrightarrow>
   wp (reap_from i) (\<lambda>cleaned p'. staffed p' \<and> others p' = others p \<and>
       cleaned = rev (filter exited (take i (worker_procs p))) \<and>
       worker_procs p' = filter (\<lambda>w. \<not> exited w) (take i (worker_procs p)) @ drop i (worker_procs p)) (\<lambda>_ _. False) p"
proof (induction i arbitrary: p)
  case 0
  then show ?case by (simp add: wp_simps)
next
  case (Suc i)
  let ?ws = "worker_procs p"
  have i: "i < length ?ws" using Suc.prems by simp
  have take: "take (Suc i) ?ws = take i ?ws @ [?ws ! i]" by (rule take_Suc_conv_app_nth [OF i])
  have drop: "drop i ?ws = ?ws ! i # drop (Suc i) ?ws" by (rule Cons_nth_drop_Suc [OF i, symmetric])
  show ?case
  proof (cases "exited (?ws ! i)")
    case False
    show ?thesis
      unfolding reap_from.simps wp_read if_not_P [OF False]
      by (rule wp_mono [OF Suc.IH [OF Suc.prems(1)]]) (use Suc.prems False take drop in auto)
  next
    case True
    have ws': "take i (del_nth i ?ws) = take i ?ws" "drop i (del_nth i ?ws) = drop (Suc i) ?ws"
      "i \<le> length (del_nth i ?ws)"
      using i by (simp_all add: del_nth_def)
    show ?thesis
      unfolding reap_from.simps wp_read if_P [OF True] wp_bind
    proof (rule wp_mono [OF reap_worker_ok [OF Suc.prems(1) i]], goal_cases)
      case (1 a q)
      then have q: "staffed q" "worker_procs q = del_nth i ?ws" "others q = others p" by auto
      show ?case
        by (rule wp_mono [OF Suc.IH [OF q(1)]]) (use q ws' take True in \<open>auto simp: wp_ret\<close>)
    qed simp
  qed
qed

text \<open>Only jobs of \<open>apply_async\<close> that run no user callback when they are set.\<close>

definition plain :: "pool \<Rightarrow> bool" where
  "plain p \<longleftrightarrow> (\<forall>k j. objs p k = Some j \<longrightarrow> (\<exists>a. j = AR a \<and> ar_callback a = None \<and>
     ar_error_callback a = None \<and> ar_on_timeout_cancel a = None))"

lemma plain_ar:
  assumes "ar_callback j = None" "ar_error_callback j = None" "ar_on_timeout_cancel j = None"
  shows "with_obj k AR j (ar_set obj) p = (Inr (), p\<lparr>
      objs := (objs p)(k \<mapsto> AR (j\<lparr>ar_success := fst obj, ar_value := snd obj, ar_event := True\<rparr>)),
      pcache := (if ar_accepted j then remove1 (ar_job j) (pcache p) else pcache p)\<rparr>)"
  using assms by (simp add: with_obj_def ar_set_def act_defs updA_def cache_pop_def Let_def)

lemma plain_with_obj:
  assumes "plain p" "objs p k = Some (AR j)"
  shows "wp (with_obj k AR j (ar_set obj)) (\<lambda>_ p'. plain p' \<and> crew p' = crew p) (\<lambda>_ _. False) p"
proof -
  have j: "ar_callback j = None" "ar_error_callback j = None" "ar_on_timeout_cancel j = None"
    using assms by (auto simp: plain_def)
  show ?thesis unfolding wp_def plain_ar [OF j] using assms(1) j by (auto simp: plain_def crew_def)
qed

lemma plain_expire: "plain p \<Longrightarrow> wp (expire_lost now k) (\<lambda>_ p'. plain p' \<and> crew p' = crew p) (\<lambda>_ _. False) p"
proof (cases "objs p k")
  case None
  then show "plain p \<Longrightarrow> ?thesis" by (simp add: expire_lost_def wp_simps)
next
  case (Some j)
  assume p: "plain p"
  then obtain a where "j = AR a" using Some by (auto simp: plain_def)
  then show ?thesis
    using p Some
    by (auto simp: expire_lost_def mark_as_worker_lost_def job_set_def wp_simps plain_with_obj
        simp del: wp_with_obj split: option.split)
qed

lemma plain_gone: "plain p \<Longrightarrow> wp (job_of_gone_worker now ws k) (\<lambda>_ p'. plain p' \<and> crew p' = crew p) (\<lambda>_ _. False) p"
proof (cases "objs p k")
  case None
  then show "plain p \<Longrightarrow> ?thesis" by (simp add: job_of_gone_worker_def wp_simps)
next
  case (Some j)
  assume p: "plain p"
  then obtain a where a: "j = AR a" using Some by (auto simp: plain_def)
  have lost: "plain (on_job_process_lost k now e p)" "crew (on_job_process_lost k now e p) = crew p" for e
    using p Some a by (auto simp: plain_def on_job_process_lost_def crew_def)
  show ?thesis
    using p Some a lost
    by (auto simp: job_of_gone_worker_def job_set_terminated_def ar_set_terminated_def wp_simps plain_with_obj
        simp del: wp_with_obj split: option.split)
qed

lemma forA_wp:
  assumes "\<And>x s. I s \<Longrightarrow> wp (f x) (\<lambda>_. I) (\<lambda>_ _. False) s"
  shows "I s \<Longrightarrow> wp (forA xs f) (\<lambda>_. I) (\<lambda>_ _. False) s"
proof (induction xs arbitrary: s)
  case Nil
  then show ?case by (simp add: wp_simps)
next
  case (Cons x xs)
  show ?case
    unfolding forA.simps wp_bind by (rule wp_mono [OF assms [OF Cons.prems]]) (auto intro: Cons.IH)
qed

lemma plain_forA_expire:
  assumes "plain p"
  shows "wp (forA ks (expire_lost now)) (\<lambda>_ p'. plain p' \<and> crew p' = crew p) (\<lambda>_ _. False) p"
  by (rule forA_wp [where I = "\<lambda>q. plain q \<and> crew q = crew p"]) (use assms in \<open>auto intro: wp_mono [OF plain_expire]\<close>)

lemma plain_forA_gone:
  assumes "plain p"
  shows "wp (forA ks (job_of_gone_worker now ws)) (\<lambda>_ p'. plain p' \<and> crew p' = crew p) (\<lambda>_ _. False) p"
  by (rule forA_wp [where I = "\<lambda>q. plain q \<and> crew q = crew p"]) (use assms in \<open>auto intro: wp_mono [OF plain_gone]\<close>)

text \<open>The state \<open>join_exited_workers\<close> leaves when no job makes it raise.\<close>

lemma join_ok:
  assumes c: "good_conf c" and p: "staffed p" "plain p"
  shows "wp (join_exited_workers c False now) (\<lambda>codes p'. staffed p' \<and> plain p' \<and>
      worker_procs p' = filter (\<lambda>w. \<not> exited w) (worker_procs p) \<and>
      length codes = length (filter exited (worker_procs p)) \<and>
      processes p' = processes p \<and> pstatus p' = pstatus p \<and> limiters p' = limiters p \<and> cur_limiter p' = cur_limiter p)
    (\<lambda>_ _. False) p"
proof -
  have down: "wp (case pc_on_process_down c of None \<Rightarrow> ret ()
                | Some f \<Rightarrow> forA ws (\<lambda>w. hook (ProcessDown (pr_pid w)) (f (pr_pid w))))
      (\<lambda>_ p'. plain p' \<and> crew p' = crew q) (\<lambda>_ _. False) q" if "plain q" for ws q
  proof (cases "pc_on_process_down c")
    case None
    then show ?thesis using that by (simp add: wp_simps)
  next
    case (Some f)
    have "wp (forA ws (\<lambda>w. hook (ProcessDown (pr_pid w)) (f (pr_pid w)))) (\<lambda>_ p'. plain p' \<and> crew p' = crew q) (\<lambda>_ _. False) q"
      by (rule forA_wp [where I = "\<lambda>r. plain r \<and> crew r = crew q"])
        (use that Some c in \<open>auto simp: hook_def wp_simps good_conf_def plain_def crew_def\<close>)
    then show ?thesis using Some by simp
  qed
  show ?thesis
    unfolding join_exited_workers_def wp_read wp_bind
  proof (rule wp_mono [OF plain_forA_expire [OF p(2)]], goal_cases)
    case (1 a q)
    then have q: "plain q" "crew q = crew p" by auto
    then have sq: "staffed q" using p(1) staffed_crew by metis
    have wq: "worker_procs q = worker_procs p" using q by (simp add: crew_def)
    have "wp (reap_from (length (worker_procs q)))
       (\<lambda>cleaned r. staffed r \<and> plain r \<and> length cleaned = length (filter exited (worker_procs p)) \<and>
          worker_procs r = filter (\<lambda>w. \<not> exited w) (worker_procs p) \<and> others r = others q) (\<lambda>_ _. False) q"
      by (rule wp_mono [OF reap_from_ok [OF sq order_refl]]) (use q(1) wq in \<open>auto simp: plain_def others_def\<close>)
    then have reap: "wp (reap_from (length (worker_procs q)))
       (\<lambda>cleaned r. staffed r \<and> plain r \<and> length cleaned = length (filter exited (worker_procs p)) \<and>
          worker_procs r = filter (\<lambda>w. \<not> exited w) (worker_procs p) \<and> others r = others q) (\<lambda>_ _. False) q" .
    have post: "staffed u \<and> plain u \<and> worker_procs u = filter (\<lambda>w. \<not> exited w) (worker_procs p) \<and>
        processes u = processes p \<and> pstatus u = pstatus p \<and> limiters u = limiters p \<and> cur_limiter u = cur_limiter p"
      if "staffed r" "worker_procs r = filter (\<lambda>w. \<not> exited w) (worker_procs p)" "others r = others q"
        "plain u" "crew u = crew r" for r u
      using that q(2) staffed_crew [of u r] by (auto simp: crew_def others_def)
    show ?case
      unfolding wp_if wp_bind
    proof (simp, rule wp_mono [OF reap], goal_cases)
      case (1 cleaned r)
      then have r: "staffed r" "plain r" "length cleaned = length (filter exited (worker_procs p))"
        "worker_procs r = filter (\<lambda>w. \<not> exited w) (worker_procs p)" "others r = others q" by auto
      show ?case
      proof (cases "cleaned = []")
        case True
        then show ?thesis using r post [OF r(1,4,5) r(2) refl] by (simp add: wp_ret)
      next
        case False
        show ?thesis
        proof (simp add: False wp_read, rule wp_mono [OF plain_forA_gone [OF r(2)]], goal_cases)
          case (1 a u)
          then have u: "plain u" "crew u = crew r" by auto
          show ?case
            by (rule wp_mono [OF down [OF u(1)]]) (use post [OF r(1,4,5)] u r(3) in \<open>auto simp: wp_ret\<close>)
        qed simp
      qed
    qed simp
  qed simp
qed

lemma release_slots_crew: "wp (forA xs (\<lambda>_. modifyA release_slot)) (\<lambda>_ p'. crew p' = crew p) (\<lambda>_ _. False) p"
  by (rule forA_wp [where I = "\<lambda>q. crew q = crew p"]) (auto simp: wp_simps release_slot_def crew_def)

text \<open>
  C11. One round of \<open>_maintain_pool\<close> on a running pool whose limiter has no limit restores
  the crew: exactly the exited workers are removed, the live ones stay, and new ones are started until
  there are \<open>processes\<close> again (none when a shrunk pool still has too many); every worker has its own
  process id and its own index, and the tables by process id match the workers.
\<close>

theorem maintain_restores_crew:
  assumes "good_conf c" "staffed p" "plain p" "unlimited p" "pstatus p = RUN"
  shows "\<exists>p' new. maintain_once c now p = (Inr (), p') \<and> staffed p' \<and>
    worker_procs p' = filter (\<lambda>w. \<not> exited w) (worker_procs p) @ new \<and> (\<forall>w \<in> set new. \<not> exited w) \<and>
    int (length (worker_procs p')) =
      max (processes p) (int (length (filter (\<lambda>w. \<not> exited w) (worker_procs p))))"
proof -
  let ?alive = "filter (\<lambda>w. \<not> exited w) (worker_procs p)"
  let ?n = "nat (processes p - int (length ?alive))"
  have "wp (maintain_once c now) (\<lambda>_ p'. staffed p' \<and> (\<exists>new. worker_procs p' = ?alive @ new \<and>
      length new = ?n \<and> (\<forall>w \<in> set new. \<not> exited w))) (\<lambda>_ _. False) p"
    unfolding maintain_once_def wp_bind
  proof (rule wp_mono [OF join_ok [OF assms(1-3)]], goal_cases)
    case (1 codes q)
    then have q: "staffed q" "worker_procs q = ?alive" "processes q = processes p" "pstatus q = RUN" "unlimited q"
      using assms by (auto simp: unlimited_def)
    have n: "[0 ..< nat (processes q - int (length (worker_procs q)))] = [0 ..< ?n]" using q by simp
    have rep: "wp (repopulate_pool c now codes) (\<lambda>_ r. grown q r ?n) (\<lambda>_ _. False) q"
    proof (cases "int (length ?alive) \<le> processes p")
      case True
      show ?thesis
        unfolding repopulate_pool_def wp_read n
        using repopulate_rounds_ok [OF assms(1) q(1,5,4), of "[0 ..< ?n]" now codes] q True by simp
    next
      case False
      then show ?thesis using q by (simp add: repopulate_pool_def wp_read wp_ret grown_def)
    qed
    show ?case
    proof (rule wp_mono [OF rep], goal_cases)
      case (1 a r)
      obtain new where r: "staffed r" "worker_procs r = ?alive @ new" "length new = ?n" "\<forall>w \<in> set new. \<not> exited w"
        using 1 q(2) unfolding grown_def by auto
      have "staffed u \<and> worker_procs u = ?alive @ new" if "crew u = crew r" for u
        using staffed_crew [OF that] that r(1,2) by (simp add: crew_def)
      then show ?case
        by (intro wp_mono [OF release_slots_crew]) (use r(3,4) in blast)+
    qed simp
  qed simp
  then obtain p' new where run: "maintain_once c now p = (Inr (), p')" and p': "staffed p'"
    "worker_procs p' = ?alive @ new" "length new = ?n" "\<forall>w \<in> set new. \<not> exited w"
    unfolding wp_total by auto
  then show ?thesis by (intro exI [of _ p'] exI [of _ new]) auto
qed

definition ex_pconf :: pconf where
  "ex_pconf = \<lparr>pc_fork = (\<lambda>p. Inr (1 + fold max (map pr_pid (worker_procs p)) 100)), pc_allow_restart = False,
     pc_on_process_up = None, pc_on_process_down = None\<rparr>"

definition ex_proc :: "int \<Rightarrow> int \<Rightarrow> int option \<Rightarrow> proc" where
  "ex_proc pid i code = \<lparr>pr_pid = pid, pr_index = i, pr_started = True, pr_exitcode = code, pr_controlled = False,
     pr_job_terminated = False\<rparr>"

definition ex_pool :: "proc list \<Rightarrow> pool" where
  "ex_pool ws = pool0\<lparr>worker_procs := ws, poolctrl := map (\<lambda>w. (pr_pid w, None)) ws,
     counters := map_of (map (\<lambda>w. (pr_pid w, 0)) ws)\<rparr>"

lemma fold_max_ge: "(m :: int) \<le> fold max xs m \<and> (\<forall>x \<in> set xs. x \<le> fold max xs m)"
proof (induction xs arbitrary: m)
  case Nil
  then show ?case by simp
next
  case (Cons x xs)
  have "max x m \<le> fold max xs (max x m)" "\<forall>y \<in> set xs. y \<le> fold max xs (max x m)" using Cons by auto
  then show ?case by auto
qed

lemma ex_pconf_good: "good_conf ex_pconf"
proof -
  have "(\<lambda>pid. pid > 0 \<and> pid \<notin> pids p) (1 + fold max (map pr_pid (worker_procs p)) 100)" for p
    using fold_max_ge [of 100 "map pr_pid (worker_procs p)"] by (force simp: pids_def)
  then show ?thesis by (simp add: good_conf_def ex_pconf_def)
qed

lemma ex_pool_staffed:
  "distinct (map pr_pid ws) \<Longrightarrow> distinct (map pr_index ws) \<Longrightarrow> \<forall>w \<in> set ws. pr_started w \<and> pr_pid w > 0 \<Longrightarrow> staffed (ex_pool ws)"
  by (simp add: staffed_def ex_pool_def pool0_def pids_def dom_map_of_conv_image_fst image_image comp_def)

theorem maintain_restores_crew_witness:
  "\<exists>p'. maintain_once ex_pconf 5 (ex_pool [ex_proc 7 0 (Some 155), ex_proc 8 1 None]) = (Inr (), p') \<and>
    length (worker_procs p') = 2 \<and> staffed p'"
proof -
  let ?p = "ex_pool [ex_proc 7 0 (Some 155), ex_proc 8 1 None]"
  have s: "staffed ?p" by (rule ex_pool_staffed) (simp_all add: ex_proc_def)
  have "plain ?p" "unlimited ?p" "pstatus ?p = RUN" "processes ?p = 2"
    "filter (\<lambda>w. \<not> exited w) (worker_procs ?p) = [ex_proc 8 1 None]"
    by (simp_all add: plain_def ex_pool_def pool0_def unlimited_def restart_state_init_def truthy_def exited_def ex_proc_def)
  with maintain_restores_crew [OF ex_pconf_good s, of 5] show ?thesis by auto
qed
section \<open>Lost workers\<close>

lemma find_distinct: "distinct (map f xs) \<Longrightarrow> w \<in> set xs \<Longrightarrow> find (\<lambda>v. f v = f w) xs = Some w"
  by (induction xs) (auto simp: image_iff)

lemma reap_run:
  assumes "staffed p"
  shows "\<exists>p'. reap_from (length (worker_procs p)) p = (Inr (rev (filter exited (worker_procs p))), p') \<and>
    staffed p' \<and> others p' = others p \<and> worker_procs p' = filter (\<lambda>w. \<not> exited w) (worker_procs p)"
  using reap_from_ok [OF assms order_refl] unfolding wp_total by auto

definition ex_job :: apply_result where
  "ex_job = (ApplyResult 3 None None None None None None 10 None None [] False)
     \<lparr>ar_accepted := True, ar_worker_pid := Some 7, ar_time_accepted := Some 1\<rparr>"

text \<open>
  When a worker exits while an \<open>imap\<close> is under way that no gone worker had acknowledged,
  reaping raises \<open>AttributeError\<close> (the iterator has no \<open>_write_to\<close>), and in the supervisor thread this
  ends the whole process with \<open>os._exit(1)\<close>.
\<close>

theorem imap_crashes_supervisor:
  assumes st: "staffed p" and w: "\<exists>w \<in> set (worker_procs p). exited w"
    and k: "pcache p = [k]" "objs p k = Some (IM j)" "im_worker_pids j = []" "im_worker_lost j = None"
  shows "\<exists>p'. maintain_once c now p = (Inl AttributeError, p') \<and>
     pool_thread_run (fst (maintain_once c now p)) = ExitedProcess 1"
proof -
  obtain p1 where p1: "reap_from (length (worker_procs p)) p = (Inr (rev (filter exited (worker_procs p))), p1)"
    "others p1 = others p" using reap_run [OF st] by blast
  have ne: "rev (filter exited (worker_procs p)) \<noteq> []" using w by (auto simp: filter_empty_conv)
  have "filter (is_lost p) (pcache p) = []" using k by (simp add: is_lost_def)
  moreover have "pcache p1 = [k]" "objs p1 k = Some (IM j)" using p1(2) k by (simp_all add: others_def)
  ultimately have "maintain_once c now p = (Inl AttributeError, p1)"
    unfolding maintain_once_def join_exited_workers_def using p1(1) ne k(3)
    by (simp add: act_defs job_of_gone_worker_def)
  then show ?thesis by (simp add: pool_thread_run_def)
qed

theorem imap_crashes_supervisor_witness:
  "\<exists>p'. maintain_once ex_pconf 5 ((ex_pool [ex_proc 7 0 (Some 0), ex_proc 8 1 None])
      \<lparr>pcache := [3], objs := [3 \<mapsto> IM (IMapIterator 3 10)]\<rparr>) = (Inl AttributeError, p')"
proof -
  let ?ws = "[ex_proc 7 0 (Some 0), ex_proc 8 1 None]"
  let ?p = "(ex_pool ?ws)\<lparr>pcache := [3], objs := [3 \<mapsto> IM (IMapIterator 3 10)]\<rparr>"
  have "staffed (ex_pool ?ws)" by (rule ex_pool_staffed) (simp_all add: ex_proc_def)
  then have "staffed ?p" using staffed_crew [of ?p "ex_pool ?ws"] by (simp add: crew_def)
  moreover have "\<exists>w \<in> set (worker_procs ?p). exited w"
    by (simp add: ex_pool_def exited_def ex_proc_def)
  ultimately show ?thesis
    using imap_crashes_supervisor [of ?p 3 "IMapIterator 3 10" ex_pconf 5] by (simp add: IMapIterator_def)
qed

section \<open>Shrinking\<close>

text \<open>The workers a call of \<open>shrink\<close> told to stop, by their position.\<close>

definition stopped :: "pool \<Rightarrow> pool \<Rightarrow> nat set" where
  "stopped p p' = {k. k < length (worker_procs p) \<and> worker_procs p' ! k \<noteq> worker_procs p ! k}"

definition shrink_rel :: "pool \<Rightarrow> nat set \<Rightarrow> pool \<Rightarrow> bool" where
  "shrink_rel p K p' \<longleftrightarrow> objs p' = objs p \<and> pcache p' = pcache p \<and> length (worker_procs p') = length (worker_procs p) \<and>
     (\<forall>k < length (worker_procs p). worker_procs p' ! k =
        (if k \<in> K then (worker_procs p ! k)\<lparr>pr_controlled := True\<rparr> else worker_procs p ! k)) \<and>
     processes p' = processes p - int (card K) \<and> K \<subseteq> {..< length (worker_procs p)} \<and>
     (\<forall>k \<in> K. \<not> worker_active p (worker_procs p ! k)) \<and>
     ls_value (putlock p') = ls_value (putlock p) - int (card K) \<and> ls_initial (putlock p') = ls_initial (putlock p) - int (card K)"

definition idle :: "pool \<Rightarrow> nat set" where
  "idle p = {k. k < length (worker_procs p) \<and> \<not> worker_active p (worker_procs p ! k)}"

lemma worker_active_pid:
  "pr_pid v = pr_pid w \<Longrightarrow> objs q = objs p \<Longrightarrow> pcache q = pcache p \<Longrightarrow> worker_active q v = worker_active p w"
  unfolding worker_active_def by (simp cong: option.case_cong)

lemma shrink_rel_active:
  assumes "shrink_rel p K q" "k < length (worker_procs p)"
  shows "worker_active q (worker_procs q ! k) = worker_active p (worker_procs p ! k)"
  using assms by (intro worker_active_pid) (simp_all add: shrink_rel_def)

lemma shrink_one:
  assumes rel: "shrink_rel p K q" and k: "k < length (worker_procs p)" "k \<notin> K" "k \<in> idle p"
    and st: "\<forall>w \<in> set (worker_procs p). pr_started w" and room: "ls_value (putlock q) > 0"
  shows "\<exists>q'. shrink_rel p (insert k K) q' \<and>
    (\<forall>f :: unit \<Rightarrow> (pool, unit) act. bindA (modifyA (\<lambda>p. p\<lparr>processes := processes p - 1\<rparr>)) (\<lambda>_.
       bindA putlock_shrink (\<lambda>_. bindA (terminate_controlled k) f)) q = f () q')"
proof -
  let ?w = "worker_procs q ! k"
  have w: "?w = worker_procs p ! k" "k < length (worker_procs q)" using rel k by (simp_all add: shrink_rel_def)
  have started: "pr_started ?w" using st k(1) w(1) by simp
  have fin: "finite K" using rel finite_subset by (auto simp: shrink_rel_def)
  let ?q = "q\<lparr>processes := processes q - 1,
     putlock := \<lparr>ls_value = ls_value (putlock q) - 1, ls_initial = ls_initial (putlock q) - 1\<rparr>,
     worker_procs := (worker_procs q)[k := ?w\<lparr>pr_controlled := True\<rparr>],
     ptrace := ptrace q @ [Kill (pr_pid ?w) TERM_SIGNAL]\<rparr>"
  have run: "bindA (modifyA (\<lambda>p. p\<lparr>processes := processes p - 1\<rparr>)) (\<lambda>_.
       bindA putlock_shrink (\<lambda>_. bindA (terminate_controlled k) f)) q = f () ?q" for f :: "unit \<Rightarrow> (pool, unit) act"
    using room started
    by (cases "putlock q") (simp add: act_defs putlock_shrink_def ls_shrink_def ls_acquire_def terminate_controlled_def Let_def)
  have "shrink_rel p (insert k K) ?q"
    using rel k w fin unfolding shrink_rel_def idle_def by (auto simp: nth_list_update)
  then show ?thesis using run by blast
qed

lemma shrink_loop_ok:
  assumes st: "\<forall>w \<in> set (worker_procs p). pr_started w" and room: "int (card (idle p)) \<le> ls_value (putlock p)"
  shows "shrink_rel p K q \<Longrightarrow> i = int (card K) \<Longrightarrow> distinct ks \<Longrightarrow> set ks \<inter> K = {} \<Longrightarrow>
    set ks \<subseteq> {..< length (worker_procs p)} \<Longrightarrow>
    wp (shrink_loop n i ks) (\<lambda>_ q'. \<exists>K'. shrink_rel p K' q' \<and> int (card K') = max n (i + 1))
      (\<lambda>e q'. e = ValueError \<and> (\<exists>K'. shrink_rel p K' q' \<and> K \<union> (set ks \<inter> idle p) \<subseteq> K' \<and> int (card K') < max n (i + 1))) q"
proof (induction ks arbitrary: K q i)
  case Nil
  then show ?case by (auto simp: wp_simps intro!: exI [of _ K])
next
  case (Cons k ks)
  have k: "k < length (worker_procs p)" "k \<notin> K" using Cons.prems by auto
  show ?case
  proof (cases "worker_active q (worker_procs q ! k)")
    case True
    have "k \<notin> idle p" using True shrink_rel_active [OF Cons.prems(1) k(1)] by (simp add: idle_def)
    then have "set (k # ks) \<inter> idle p = set ks \<inter> idle p" by auto
    then show ?thesis using True Cons by (simp add: wp_simps)
  next
    case False
    then have ki: "k \<in> idle p" using shrink_rel_active [OF Cons.prems(1) k(1)] k(1) by (simp add: idle_def)
    have fin: "finite (idle p)" by (simp add: idle_def)
    have sub: "insert k K \<subseteq> idle p"
      using Cons.prems(1) ki by (auto simp: shrink_rel_def idle_def)
    have finK: "finite K" using sub fin finite_subset by auto
    have "card (insert k K) \<le> card (idle p)" by (rule card_mono [OF fin sub])
    then have "ls_value (putlock q) > 0" using room k(2) finK Cons.prems(1) by (simp add: shrink_rel_def)
    then obtain q1 where q1: "shrink_rel p (insert k K) q1"
      and run: "bindA (modifyA (\<lambda>p. p\<lparr>processes := processes p - 1\<rparr>)) (\<lambda>_.
         bindA putlock_shrink (\<lambda>_. bindA (terminate_controlled k) f)) q = f () q1" for f :: "unit \<Rightarrow> (pool, unit) act"
      using shrink_one [OF Cons.prems(1) k ki st] by blast
    have card: "int (card (insert k K)) = i + 1" using Cons.prems(2) k(2) finK by simp
    have rest: "wp (if i \<ge> n - 1 then ret () else shrink_loop n (i + 1) ks)
       (\<lambda>_ q'. \<exists>K'. shrink_rel p K' q' \<and> int (card K') = max n (i + 1))
       (\<lambda>e q'. e = ValueError \<and> (\<exists>K'. shrink_rel p K' q' \<and> K \<union> (set (k # ks) \<inter> idle p) \<subseteq> K' \<and> int (card K') < max n (i + 1))) q'"
      if rel: "shrink_rel p (insert k K) q'" for q'
    proof (cases "i \<ge> n - 1")
      case True
      then show ?thesis using rel card by (auto simp: wp_ret intro!: exI [of _ "insert k K"])
    next
      case False
      have m: "max n (i + 1) = max n (i + 1 + 1)" using False by simp
      have u: "K \<union> (set (k # ks) \<inter> idle p) = insert k K \<union> (set ks \<inter> idle p)" using ki by auto
      show ?thesis
        unfolding if_not_P [OF False] m u by (rule Cons.IH [OF rel]) (use Cons.prems card in auto)
    qed
    show ?thesis
      unfolding shrink_loop.simps wp_read if_not_P [OF False]
      using rest [OF q1] unfolding wp_def run .
  qed
qed

text \<open>
  \<open>shrink(n)\<close>, for a pool whose semaphore has a free slot for each idle worker: the
  workers told to stop are idle ones only, and the size and the slots go down by their number. It
  succeeds with exactly \<open>max(n, 1)\<close> of them; when there are fewer idle workers it raises \<open>ValueError\<close>,
  but not before it has stopped every one of them.
\<close>

theorem shrink_stops_idle_workers:
  assumes "\<forall>w \<in> set (worker_procs p). pr_started w" "int (card (idle p)) \<le> ls_value (putlock p)"
  shows "\<exists>r q K. pool_shrink n p = (r, q) \<and> shrink_rel p K q \<and> K \<subseteq> idle p \<and>
    (case r of Inr _ \<Rightarrow> int (card K) = max n 1
     | Inl e \<Rightarrow> e = ValueError \<and> K = idle p \<and> int (card (idle p)) < max n 1)"
proof -
  have rel: "shrink_rel p {} p" by (simp add: shrink_rel_def)
  have range: "set [0 ..< length (worker_procs p)] \<inter> idle p = idle p" by (auto simp: idle_def)
  have sub: "shrink_rel p K q \<Longrightarrow> K \<subseteq> idle p" for K q by (auto simp: shrink_rel_def idle_def)
  obtain r q where run: "pool_shrink n p = (r, q)" by fastforce
  have "wp (pool_shrink n) (\<lambda>_ q'. \<exists>K'. shrink_rel p K' q' \<and> int (card K') = max n (0 + 1))
      (\<lambda>e q'. e = ValueError \<and> (\<exists>K'. shrink_rel p K' q' \<and>
         {} \<union> (set [0 ..< length (worker_procs p)] \<inter> idle p) \<subseteq> K' \<and> int (card K') < max n (0 + 1))) p"
    unfolding pool_shrink_def wp_read by (rule shrink_loop_ok [OF assms rel]) auto
  then have w: "wp (pool_shrink n) (\<lambda>_ q'. \<exists>K'. shrink_rel p K' q' \<and> int (card K') = max n 1)
      (\<lambda>e q'. e = ValueError \<and> (\<exists>K'. shrink_rel p K' q' \<and> idle p \<subseteq> K' \<and> int (card K') < max n 1)) p"
    unfolding range by simp
  show ?thesis
  proof (cases r)
    case (Inr b)
    then obtain K where "shrink_rel p K q" "int (card K) = max n 1" using w run by (auto simp: wp_def)
    then show ?thesis using run Inr sub by auto
  next
    case (Inl e)
    then obtain K where K: "e = ValueError" "shrink_rel p K q" "idle p \<subseteq> K" "int (card K) < max n 1"
      using w run by (auto simp: wp_def)
    then have "K = idle p" using sub by blast
    then show ?thesis using run Inl K by auto
  qed
qed

theorem shrink_stops_idle_workers_witness:
  "\<exists>q K. pool_shrink 3 (ex_pool [ex_proc 7 0 None, ex_proc 8 1 None]) = (Inl ValueError, q) \<and>
    K = {0, 1} \<and> processes q = 0"
proof -
  let ?p = "ex_pool [ex_proc 7 0 None, ex_proc 8 1 None]"
  have idle: "idle ?p = {0, 1}"
    by (auto simp: idle_def ex_pool_def pool0_def worker_active_def less_Suc_eq)
  have "\<forall>w \<in> set (worker_procs ?p). pr_started w" "ls_value (putlock ?p) = 2" "processes ?p = 2"
    by (simp_all add: ex_pool_def pool0_def ex_proc_def)
  then obtain r q K where rq: "pool_shrink 3 ?p = (r, q)" "shrink_rel ?p K q" "K \<subseteq> idle ?p"
    "case r of Inr _ \<Rightarrow> int (card K) = max 3 1
     | Inl e \<Rightarrow> e = ValueError \<and> K = idle ?p \<and> int (card (idle ?p)) < max 3 1"
    using shrink_stops_idle_workers [of ?p 3] idle by auto
  have "card K \<le> 2" using card_mono [OF _ rq(3)] idle by simp
  then have "r = Inl ValueError" "K = {0, 1}" using rq(4) idle by (auto split: sum.splits)
  moreover have "processes q = 0" using rq(2) calculation(2) \<open>processes ?p = 2\<close> by (simp add: shrink_rel_def)
  ultimately show ?thesis using rq(1) by auto
qed

end
