(* ===== verification/Timeout_Handler.thy ===== *)
theory Timeout_Handler
  imports Supervision
begin

text \<open>
  \<open>TimeoutHandler\<close> of \<open>billiard/pool.py\<close>: the thread that watches the time limits of the
  acknowledged jobs. A sweep is one round of the generator \<open>handle_timeouts\<close>; \<open>dirty\<close> lists the jobs
  whose soft limit was signalled. What the operating system answers is in \<open>tenv\<close>; a signal to a process
  group is recorded with the negative process id, as \<open>kill(2)\<close> takes it.
\<close>

record tenv =
  te_kill :: "int \<Rightarrow> int \<Rightarrow> int option"      \<comment> \<open>errno of a failed \<open>kill\<close>, \<open>killpg\<close> or \<open>terminate\<close>\<close>
  te_leader :: "int \<Rightarrow> int + bool"           \<comment> \<open>is the process a group leader; errno of \<open>getpgid\<close>\<close>
  te_wait :: "int \<Rightarrow> int option"             \<comment> \<open>what \<open>_popen.wait(timeout=0.1)\<close> returns\<close>

definition SIG_SOFT_TIMEOUT :: int where "SIG_SOFT_TIMEOUT = 10"
definition SIGKILL :: int where "SIGKILL = 9"

definition has_process :: "pool \<Rightarrow> int option \<Rightarrow> bool" where
  "has_process p pid = (case pid of None \<Rightarrow> False | Some q \<Rightarrow> q \<in> pr_pid ` set (worker_procs p))"

definition kill_event :: "tenv \<Rightarrow> int \<Rightarrow> int \<Rightarrow> (pool, unit) act" where
  "kill_event te pid sig = bindA (modifyA (\<lambda>p. p\<lparr>ptrace := ptrace p @ [Kill pid sig]\<rparr>))
     (\<lambda>_. case te_kill te pid sig of None \<Rightarrow> ret () | Some e \<Rightarrow> raise (OSError e))"

text \<open>
  One of the two attempts of \<open>_trywaitkill\<close>: the whole group when the worker leads one. For another worker the first attempt is
  \<open>worker.terminate()\<close>, here of a worker that has not been waited for yet, and whose failure to take the signal is not followed by its end
  (\<open>popen_terminate\<close> of theory Processes has these two cases).
\<close>

definition signal_worker :: "tenv \<Rightarrow> int \<Rightarrow> int \<Rightarrow> (pool, unit) act" where
  "signal_worker te pid sig =
     (case te_leader te pid of
        Inl e \<Rightarrow> raise (OSError e)
      | Inr leader \<Rightarrow> kill_event te (if leader then - pid else pid) sig)"

definition trywaitkill :: "tenv \<Rightarrow> int \<Rightarrow> (pool, unit) act" where
  "trywaitkill te pid =
     bindA (catchA (bindA (signal_worker te pid TERM_SIGNAL) (\<lambda>_. ret (truthy (te_wait te pid))))
              (\<lambda>e. case e of OSError _ \<Rightarrow> ret False | _ \<Rightarrow> raise e)) (\<lambda>gone.
     if gone then ret ()
     else catchA (signal_worker te pid SIGKILL) (\<lambda>e. case e of OSError _ \<Rightarrow> ret () | _ \<Rightarrow> raise e))"

definition job_handle_timeout :: "nat \<Rightarrow> bool \<Rightarrow> (pool, unit) act" where
  "job_handle_timeout k soft = readA (\<lambda>p. case objs p k of
      Some (AR j) \<Rightarrow> with_obj k AR j (ar_handle_timeout soft)
    | Some (MR j) \<Rightarrow> ret ()
    | _ \<Rightarrow> raise AttributeError)"

definition on_soft_timeout :: "tenv \<Rightarrow> nat \<Rightarrow> apply_result \<Rightarrow> (pool, unit) act" where
  "on_soft_timeout te k j = readA (\<lambda>p.
     if \<not> has_process p (ar_worker_pid j) then ret ()
     else
       bindA (job_handle_timeout k True) (\<lambda>_.
       catchA (kill_event te (the (ar_worker_pid j)) SIG_SOFT_TIMEOUT)
         (\<lambda>e. if e = OSError ESRCH then ret () else raise e)))"

definition on_hard_timeout :: "tenv \<Rightarrow> nat \<Rightarrow> apply_result \<Rightarrow> (pool, unit) act" where
  "on_hard_timeout te k j =
     (if ar_ready j then ret ()
      else
        bindA (job_set k (Some (ar_job j)) (False, PEinfo (ExceptionWithTraceback TimeLimitExceeded))) (\<lambda>_.
        readA (\<lambda>p.
        bindA (job_handle_timeout k False) (\<lambda>_.
        whenA (has_process p (ar_worker_pid j)) (trywaitkill te (the (ar_worker_pid j)))))))"

definition timed_out :: "int \<Rightarrow> int option \<Rightarrow> int option \<Rightarrow> bool" where
  "timed_out now start timeout \<longleftrightarrow> truthy start \<and> truthy timeout \<and> now \<ge> the start + the timeout"

definition or_default :: "int option \<Rightarrow> int option \<Rightarrow> int option" where
  "or_default x d = (case x of None \<Rightarrow> d | Some _ \<Rightarrow> x)"

text \<open>
  One job of a sweep. \<open>MapResult\<close> keeps a list in \<open>_time_accepted\<close>, to which no number can be
  added; \<open>IMapIterator\<close> has no such attribute.
\<close>

definition check_job :: "tenv \<Rightarrow> int option \<Rightarrow> int option \<Rightarrow> int \<Rightarrow> nat list \<Rightarrow> nat \<Rightarrow> (pool, nat list) act" where
  "check_job te t_soft t_hard now dirty k = readA (\<lambda>p.
     case objs p k of
       None \<Rightarrow> ret dirty
     | Some (AR j) \<Rightarrow>
         if timed_out now (ar_time_accepted j) (or_default (ar_timeout j) t_hard)
         then bindA (on_hard_timeout te k j) (\<lambda>_. ret dirty)
         else if k \<notin> set dirty \<and> timed_out now (ar_time_accepted j) (or_default (ar_soft_timeout j) t_soft)
         then bindA (on_soft_timeout te k j) (\<lambda>_. ret (k # dirty))
         else ret dirty
     | Some (MR j) \<Rightarrow>
         if mr_time_accepted j \<noteq> [] \<and> (truthy t_hard \<or> (k \<notin> set dirty \<and> truthy t_soft))
         then raise TypeError else ret dirty
     | _ \<Rightarrow> raise AttributeError)"

fun check_jobs :: "tenv \<Rightarrow> int option \<Rightarrow> int option \<Rightarrow> int \<Rightarrow> nat list \<Rightarrow> nat list \<Rightarrow> (pool, nat list) act" where
  "check_jobs te t_soft t_hard now dirty [] = ret dirty"
| "check_jobs te t_soft t_hard now dirty (k # ks) =
     bindA (check_job te t_soft t_hard now dirty k) (\<lambda>dirty. check_jobs te t_soft t_hard now dirty ks)"

definition sweep :: "tenv \<Rightarrow> int option \<Rightarrow> int option \<Rightarrow> int \<Rightarrow> nat list \<Rightarrow> (pool, nat list) act" where
  "sweep te t_soft t_hard now dirty = readA (\<lambda>p.
     check_jobs te t_soft t_hard now (filter (\<lambda>k. k \<in> set (pcache p)) dirty) (pcache p))"

text \<open>The thread's body over the clock readings of its sweeps; \<open>None\<close>: still running.\<close>

fun sweeps :: "tenv \<Rightarrow> int option \<Rightarrow> int option \<Rightarrow> nat list \<Rightarrow> ((pool \<Rightarrow> pool) \<times> int) list \<Rightarrow> (pool, nat list option) act" where
  "sweeps te t_soft t_hard dirty [] = readA (\<lambda>p. if to_state p = RUN then ret (Some dirty) else ret None)"
| "sweeps te t_soft t_hard dirty ((env, now) # rest) =
     bindA (modifyA env) (\<lambda>_. readA (\<lambda>p.
       if to_state p \<noteq> RUN then ret None
       else bindA (sweep te t_soft t_hard now dirty) (\<lambda>dirty. sweeps te t_soft t_hard dirty rest)))"

section \<open>Properties\<close>

lemma hard_timeout_step:
  assumes k: "objs p k = Some (AR j)" "pcache p = [k]" "ar_job j = k" "ar_accepted j" "\<not> ar_event j"
    and cb: "ar_callback j = None" "ar_error_callback j = None" "ar_on_timeout_cancel j = None" "ar_timeout_callback j = None"
    and pid: "ar_worker_pid j = Some pid" "pid \<in> pr_pid ` set (worker_procs p)"
    and os: "te_leader te pid = Inr False" "\<forall>s. te_kill te pid s = None"
  shows "\<exists>p'. on_hard_timeout te k j p = (Inr (), p') \<and> pcache p' = [] \<and>
    (\<exists>j'. objs p' k = Some (AR j') \<and> fst (ar_get env j') = Inl (ExceptionWithTraceback TimeLimitExceeded)) \<and>
    ptrace p' = ptrace p @ [Kill pid TERM_SIGNAL] @ (if truthy (te_wait te pid) then [] else [Kill pid SIGKILL])"
proof -
  let ?j = "j\<lparr>ar_success := False, ar_value := PEinfo (ExceptionWithTraceback TimeLimitExceeded), ar_event := True\<rparr>"
  let ?q = "p\<lparr>objs := (objs p)(k \<mapsto> AR ?j), pcache := []\<rparr>"
  have set: "job_set k i (False, PEinfo (ExceptionWithTraceback TimeLimitExceeded)) p = (Inr (), ?q)" for i
    using k by (simp add: job_set_def readA_def plain_ar [OF cb(1-3)])
  have handle: "job_handle_timeout k False ?q = (Inr (), ?q)"
    using cb(4) by (simp add: job_handle_timeout_def readA_def with_obj_def ar_handle_timeout_def Let_def ret_def)
  have killed: "trywaitkill te pid ?q = (Inr (), ?q\<lparr>ptrace := ptrace p @ [Kill pid TERM_SIGNAL] @
      (if truthy (te_wait te pid) then [] else [Kill pid SIGKILL])\<rparr>)"
    using os by (simp add: trywaitkill_def signal_worker_def kill_event_def act_defs)
  have "on_hard_timeout te k j p = (Inr (), ?q\<lparr>ptrace := ptrace p @ [Kill pid TERM_SIGNAL] @
      (if truthy (te_wait te pid) then [] else [Kill pid SIGKILL])\<rparr>)"
    using set handle killed k(5) pid by (simp add: on_hard_timeout_def act_defs ar_ready_def has_process_def)
  then show ?thesis by (simp add: ar_get_def ar_ready_def)
qed

text \<open>
  A job accepted at \<open>t0\<close> with a hard limit \<open>h\<close> is untouched by a sweep before \<open>t0 + h\<close>
  (when it has no soft limit); the first sweep from then on fails it with \<open>TimeLimitExceeded\<close>, removes
  it from the cache and sends its worker \<open>SIGTERM\<close>, and \<open>SIGKILL\<close> unless the wait gave a nonzero status.
\<close>

theorem hard_time_limit:
  assumes k: "objs p k = Some (AR j)" "pcache p = [k]" "ar_job j = k" "ar_accepted j" "\<not> ar_event j"
    and cb: "ar_callback j = None" "ar_error_callback j = None" "ar_on_timeout_cancel j = None" "ar_timeout_callback j = None"
    and pid: "ar_worker_pid j = Some pid" "pid \<in> pr_pid ` set (worker_procs p)"
    and os: "te_leader te pid = Inr False" "\<forall>s. te_kill te pid s = None"
    and lim: "ar_time_accepted j = Some t0" "t0 \<noteq> 0" "or_default (ar_timeout j) t_hard = Some h" "h \<noteq> 0"
      "or_default (ar_soft_timeout j) t_soft = None"
  shows "if now < t0 + h then sweep te t_soft t_hard now dirty p = (Inr (filter (\<lambda>x. x \<in> {k}) dirty), p)
    else (\<exists>d p'. sweep te t_soft t_hard now dirty p = (Inr d, p') \<and> pcache p' = [] \<and>
      (\<exists>j'. objs p' k = Some (AR j') \<and> fst (ar_get env j') = Inl (ExceptionWithTraceback TimeLimitExceeded)) \<and>
      ptrace p' = ptrace p @ [Kill pid TERM_SIGNAL] @ (if truthy (te_wait te pid) then [] else [Kill pid SIGKILL]))"
  using hard_timeout_step [OF k cb pid os, of env] lim k(1,2)
  by (auto simp: sweep_def check_job_def act_defs timed_out_def truthy_def)

definition ex_tenv :: tenv where
  "ex_tenv = \<lparr>te_kill = (\<lambda>_ _. None), te_leader = (\<lambda>_. Inr False), te_wait = (\<lambda>_. Some (-15))\<rparr>"

theorem hard_time_limit_witness:
  "\<exists>d p'. sweep ex_tenv None (Some 20) 21 [] ((ex_pool [ex_proc 7 0 None])\<lparr>pcache := [3], objs := [3 \<mapsto> AR ex_job]\<rparr>) = (Inr d, p') \<and>
    pcache p' = [] \<and> ptrace p' = [Kill 7 15]"
  using hard_time_limit [of "(ex_pool [ex_proc 7 0 None])\<lparr>pcache := [3], objs := [3 \<mapsto> AR ex_job]\<rparr>" 3 ex_job 7 ex_tenv 1 "Some 20" 20
      None 21 "[]" id]
  by (auto simp: ex_pool_def pool0_def ex_job_def ApplyResult_def ex_proc_def ex_tenv_def or_default_def truthy_def TERM_SIGNAL_def)

text \<open>
  The soft limit is signalled once: of any number of sweeps that all find the job past
  its soft limit (and not past a hard one) and its worker alive, only the first sends \<open>SIGUSR1\<close>.
\<close>

theorem soft_time_limit_once:
  assumes k: "objs p k = Some (AR j)" "pcache p = [k]" "to_state p = RUN" "ar_timeout_callback j = None"
    and pid: "ar_worker_pid j = Some pid" "pid \<in> pr_pid ` set (worker_procs p)" "te_kill te pid SIG_SOFT_TIMEOUT = None"
    and lim: "ar_time_accepted j = Some t0" "t0 \<noteq> 0" "or_default (ar_timeout j) t_hard = None"
      "or_default (ar_soft_timeout j) t_soft = Some s" "s \<noteq> 0" "\<forall>t \<in> set (now # ts). t \<ge> t0 + s"
  shows "\<exists>p'. sweeps te t_soft t_hard [] (map (\<lambda>t. (id, t)) (now # ts)) p = (Inr (Some [k]), p') \<and>
    ptrace p' = ptrace p @ [Kill pid SIG_SOFT_TIMEOUT]"
proof -
  have objs_upd: "(objs p)(k \<mapsto> AR j) = objs p" using k(1) by (simp add: fun_upd_idem)
  let ?q = "p\<lparr>ptrace := ptrace p @ [Kill pid SIG_SOFT_TIMEOUT]\<rparr>"
  have first: "sweep te t_soft t_hard now [] p = (Inr [k], ?q)"
    using k pid lim objs_upd
    by (simp add: sweep_def check_job_def act_defs timed_out_def truthy_def on_soft_timeout_def has_process_def
        job_handle_timeout_def with_obj_def ar_handle_timeout_def kill_event_def Let_def)
  have later: "sweep te t_soft t_hard t [k] ?q = (Inr [k], ?q)" for t
    using k lim by (simp add: sweep_def check_job_def act_defs timed_out_def truthy_def)
  have "sweeps te t_soft t_hard [k] (map (\<lambda>t. (id, t)) ts) ?q = (Inr (Some [k]), ?q)"
    using k(3) later by (induction ts) (simp_all add: act_defs)
  then show ?thesis using first k(3) by (simp add: act_defs)
qed

theorem soft_time_limit_once_witness:
  "\<exists>p'. sweeps ex_tenv (Some 5) None [] [(id, 6), (id, 7), (id, 8)]
     ((ex_pool [ex_proc 7 0 None])\<lparr>pcache := [3], objs := [3 \<mapsto> AR ex_job]\<rparr>) = (Inr (Some [3]), p') \<and> ptrace p' = [Kill 7 10]"
  using soft_time_limit_once [of "(ex_pool [ex_proc 7 0 None])\<lparr>pcache := [3], objs := [3 \<mapsto> AR ex_job]\<rparr>" 3 ex_job 7 ex_tenv 1 None
      "Some 5" 5 6 "[7, 8]"]
  by (simp add: ex_pool_def pool0_def ex_job_def ApplyResult_def ex_proc_def ex_tenv_def or_default_def SIG_SOFT_TIMEOUT_def)

text \<open>
  A pool-wide time limit does not fit \<open>map\<close>: the first sweep that meets a map job in the
  cache raises \<open>TypeError\<close>, and the thread then ends the whole process with \<open>os._exit(1)\<close>.
\<close>

theorem map_breaks_timeout_handler:
  assumes "objs p k = Some (MR j)" "pcache p = k # ks" "mr_time_accepted j \<noteq> []" "truthy t_hard"
  shows "sweep te t_soft t_hard now dirty p = (Inl TypeError, p) \<and>
    pool_thread_run (fst (sweep te t_soft t_hard now dirty p)) = ExitedProcess 1"
  using assms by (simp add: sweep_def check_job_def act_defs pool_thread_run_def)

theorem map_breaks_timeout_handler_witness:
  "pool_thread_run (fst (sweep ex_tenv None (Some 60) 5 []
     (pool0\<lparr>pcache := [4], objs := [4 \<mapsto> MR (fst (MapResult 4 [] 1 2 None None))]\<rparr>))) = ExitedProcess 1"
  using map_breaks_timeout_handler [of "pool0\<lparr>pcache := [4], objs := [4 \<mapsto> MR (fst (MapResult 4 [] 1 2 None None))]\<rparr>" 4
      "fst (MapResult 4 [] 1 2 None None)" "[]" "Some 60" ex_tenv None 5 "[]"]
  by (simp add: MapResult_def truthy_def pool_thread_run_def)

end
