(* ===== verification/Timeout_Sweep.thy ===== *)
theory Timeout_Sweep
  imports Timeout_Handler
begin

text \<open>
  A sweep of the timeout handler over a cache with any number of jobs, and the generator that \<open>TimeoutHandler.handle_event\<close> keeps between the events
  of a program that has no thread for it.
\<close>

section \<open>Any number of jobs\<close>

text \<open>Jobs of \<open>apply_async\<close> without callbacks, each in the cache under its number.\<close>

definition plain_job :: "nat \<Rightarrow> apply_result \<Rightarrow> bool" where
  "plain_job k j \<longleftrightarrow> ar_job j = k \<and> (ar_time_accepted j \<noteq> None \<longrightarrow> ar_accepted j) \<and> ar_callback j = None \<and> ar_error_callback j = None \<and>
     ar_on_timeout_cancel j = None \<and> ar_timeout_callback j = None"

definition plain_cache :: "pool \<Rightarrow> bool" where
  "plain_cache p \<longleftrightarrow> distinct (pcache p) \<and> (\<forall>k \<in> set (pcache p). \<exists>j. objs p k = Some (AR j) \<and> plain_job k j)"

definition past_hard :: "int option \<Rightarrow> int \<Rightarrow> apply_result \<Rightarrow> bool" where
  "past_hard t_hard now j \<longleftrightarrow> timed_out now (ar_time_accepted j) (or_default (ar_timeout j) t_hard)"

definition past_soft :: "int option \<Rightarrow> int \<Rightarrow> apply_result \<Rightarrow> bool" where
  "past_soft t_soft now j \<longleftrightarrow> timed_out now (ar_time_accepted j) (or_default (ar_soft_timeout j) t_soft)"

definition failed_job :: "apply_result \<Rightarrow> apply_result" where
  "failed_job j = j\<lparr>ar_success := False, ar_value := PEinfo (ExceptionWithTraceback TimeLimitExceeded), ar_event := True\<rparr>"

text \<open>The signals to a worker, directly or as a group.\<close>

definition signals_to :: "int option \<Rightarrow> event list \<Rightarrow> bool" where
  "signals_to pid es \<longleftrightarrow> (\<forall>e \<in> set es. \<exists>q sig. e = Kill q sig \<and> (pid = Some q \<or> pid = Some (- q)))"

definition kill_signals :: "tenv \<Rightarrow> int \<Rightarrow> event list" where
  "kill_signals te pid = (case te_leader te pid of Inl _ \<Rightarrow> []
     | Inr leader \<Rightarrow> (let q = (if leader then - pid else pid) in
         Kill q TERM_SIGNAL # (if te_kill te q TERM_SIGNAL = None \<and> truthy (te_wait te pid) then [] else [Kill q SIGKILL])))"

lemma trywaitkill_eq: "trywaitkill te pid p = (Inr (), p\<lparr>ptrace := ptrace p @ kill_signals te pid\<rparr>)"
proof (cases "te_leader te pid")
  case (Inr leader)
  show ?thesis
    by (cases "te_kill te (if leader then - pid else pid) TERM_SIGNAL"; cases "te_kill te (if leader then - pid else pid) SIGKILL")
      (simp_all add: Inr trywaitkill_def signal_worker_def kill_event_def act_defs kill_signals_def Let_def)
qed (simp add: trywaitkill_def signal_worker_def act_defs kill_signals_def)

lemma kill_signals_to: "signals_to (Some pid) (kill_signals te pid)"
  by (cases "te_leader te pid") (simp_all add: kill_signals_def signals_to_def Let_def)

text \<open>What a sweep does to one job.\<close>

definition job_signals :: "tenv \<Rightarrow> int option \<Rightarrow> int option \<Rightarrow> int \<Rightarrow> int set \<Rightarrow> nat list \<Rightarrow> nat \<Rightarrow> apply_result \<Rightarrow> event list" where
  "job_signals te t_soft t_hard now crewpids dirty k j =
     (case ar_worker_pid j of None \<Rightarrow> [] | Some pid \<Rightarrow>
        if pid \<notin> crewpids then []
        else if past_hard t_hard now j then (if ar_event j then [] else kill_signals te pid)
        else if k \<notin> set dirty \<and> past_soft t_soft now j then [Kill pid SIG_SOFT_TIMEOUT] else [])"

lemma check_job_effect:
  assumes k: "objs p k = Some (AR j)" "plain_job k j"
    and soft: "\<forall>pid. te_kill te pid SIG_SOFT_TIMEOUT = None \<or> te_kill te pid SIG_SOFT_TIMEOUT = Some ESRCH"
  shows "check_job te t_soft t_hard now dirty k p =
    (Inr (if \<not> past_hard t_hard now j \<and> k \<notin> set dirty \<and> past_soft t_soft now j then k # dirty else dirty),
     p\<lparr>objs := (if past_hard t_hard now j \<and> \<not> ar_event j then (objs p)(k \<mapsto> AR (failed_job j)) else objs p),
       pcache := (if past_hard t_hard now j \<and> \<not> ar_event j then remove1 k (pcache p) else pcache p),
       ptrace := ptrace p @ job_signals te t_soft t_hard now (pr_pid ` set (worker_procs p)) dirty k j\<rparr>)"
proof (cases "past_hard t_hard now j")
  case True
  then have acc: "ar_accepted j" using k(2) by (auto simp: past_hard_def timed_out_def truthy_def plain_job_def)
  show ?thesis
  proof (cases "ar_event j")
    case False
    let ?q = "p\<lparr>objs := (objs p)(k \<mapsto> AR (failed_job j)), pcache := remove1 k (pcache p)\<rparr>"
    have set: "job_set k i (False, PEinfo (ExceptionWithTraceback TimeLimitExceeded)) p = (Inr (), ?q)" for i
      using k acc by (simp add: job_set_def readA_def plain_ar plain_job_def failed_job_def)
    have handle: "job_handle_timeout k False ?q = (Inr (), ?q)"
      using k(2) by (simp add: job_handle_timeout_def readA_def with_obj_def ar_handle_timeout_def Let_def ret_def failed_job_def plain_job_def)
    from True False k(1) set handle show ?thesis
      by (cases "ar_worker_pid j")
        (simp_all add: check_job_def past_hard_def on_hard_timeout_def ar_ready_def act_defs has_process_def job_signals_def trywaitkill_eq)
  next
    case ready: True
    with True k(1) show ?thesis
      by (simp add: check_job_def past_hard_def on_hard_timeout_def ar_ready_def act_defs job_signals_def split: option.split)
  qed
next
  case False
  have same: "(objs p)(k \<mapsto> AR j) = objs p" using k(1) by (simp add: fun_upd_idem)
  have "on_soft_timeout te k j p = (Inr (), p\<lparr>ptrace := ptrace p @
      (case ar_worker_pid j of None \<Rightarrow> [] | Some pid \<Rightarrow> if pid \<notin> pr_pid ` set (worker_procs p) then [] else [Kill pid SIG_SOFT_TIMEOUT])\<rparr>)"
  proof (cases "ar_worker_pid j")
    case (Some pid)
    from soft have "te_kill te pid SIG_SOFT_TIMEOUT = None \<or> te_kill te pid SIG_SOFT_TIMEOUT = Some ESRCH" by blast
    with Some k same show ?thesis
      by (auto simp: on_soft_timeout_def has_process_def job_handle_timeout_def with_obj_def ar_handle_timeout_def kill_event_def plain_job_def act_defs Let_def)
  qed (simp add: on_soft_timeout_def has_process_def act_defs)
  with False k(1) show ?thesis
    by (simp add: check_job_def past_hard_def past_soft_def act_defs job_signals_def split: option.split)
qed

definition the_job :: "pool \<Rightarrow> nat \<Rightarrow> apply_result" where
  "the_job p k = (case objs p k of Some (AR j) \<Rightarrow> j | _ \<Rightarrow> undefined)"

definition overdue :: "int option \<Rightarrow> int \<Rightarrow> pool \<Rightarrow> nat \<Rightarrow> bool" where
  "overdue t_hard now p k \<longleftrightarrow> past_hard t_hard now (the_job p k) \<and> \<not> ar_event (the_job p k)"

definition softly :: "int option \<Rightarrow> int option \<Rightarrow> int \<Rightarrow> nat list \<Rightarrow> pool \<Rightarrow> nat \<Rightarrow> bool" where
  "softly t_soft t_hard now dirty p k \<longleftrightarrow> \<not> past_hard t_hard now (the_job p k) \<and> k \<notin> set dirty \<and> past_soft t_soft now (the_job p k)"

lemma remove_all: "distinct xs \<Longrightarrow> fold remove1 ys xs = filter (\<lambda>x. x \<notin> set ys) xs"
proof (induction ys arbitrary: xs)
  case (Cons y ys)
  then have "fold remove1 (y # ys) xs = filter (\<lambda>x. x \<notin> set ys) (remove1 y xs)" by simp
  also have "remove1 y xs = filter (\<lambda>x. x \<noteq> y) xs"
    using Cons.prems by (simp add: distinct_remove1_removeAll removeAll_filter_not_eq eq_commute)
  also have "filter (\<lambda>x. x \<notin> set ys) (filter (\<lambda>x. x \<noteq> y) xs) = filter (\<lambda>x. x \<notin> set (y # ys)) xs"
    by (auto intro!: filter_cong)
  finally show ?case .
qed simp

lemma check_jobs_effect:
  assumes "\<forall>k \<in> set ks. \<exists>j. objs p k = Some (AR j) \<and> plain_job k j" "distinct ks"
    and soft: "\<forall>pid. te_kill te pid SIG_SOFT_TIMEOUT = None \<or> te_kill te pid SIG_SOFT_TIMEOUT = Some ESRCH"
  shows "check_jobs te t_soft t_hard now dirty ks p =
    (Inr (rev (filter (softly t_soft t_hard now dirty p) ks) @ dirty),
     p\<lparr>objs := (\<lambda>k. if k \<in> set ks \<and> overdue t_hard now p k then Some (AR (failed_job (the_job p k))) else objs p k),
       pcache := fold remove1 (filter (overdue t_hard now p) ks) (pcache p),
       ptrace := ptrace p @ concat (map (\<lambda>k. job_signals te t_soft t_hard now (pr_pid ` set (worker_procs p)) dirty k (the_job p k)) ks)\<rparr>)"
  using assms(1,2)
proof (induction ks arbitrary: p dirty)
  case Nil
  then show ?case by (simp add: ret_def)
next
  case (Cons k ks)
  then obtain j where j: "objs p k = Some (AR j)" "plain_job k j" by auto
  then have the: "the_job p k = j" by (simp add: the_job_def)
  define dirty' where "dirty' = (if \<not> past_hard t_hard now j \<and> k \<notin> set dirty \<and> past_soft t_soft now j then k # dirty else dirty)"
  define p' where "p' = p\<lparr>objs := (if past_hard t_hard now j \<and> \<not> ar_event j then (objs p)(k \<mapsto> AR (failed_job j)) else objs p),
       pcache := (if past_hard t_hard now j \<and> \<not> ar_event j then remove1 k (pcache p) else pcache p),
       ptrace := ptrace p @ job_signals te t_soft t_hard now (pr_pid ` set (worker_procs p)) dirty k j\<rparr>"
  have step: "check_job te t_soft t_hard now dirty k p = (Inr dirty', p')"
    using check_job_effect [OF j soft] unfolding dirty'_def p'_def .
  have other: "objs p' i = objs p i" "the_job p' i = the_job p i" "overdue t_hard now p' i = overdue t_hard now p i" if "i \<noteq> k" for i
    using that by (auto simp: p'_def the_job_def overdue_def)
  have ks: "i \<noteq> k" if "i \<in> set ks" for i using that Cons.prems(2) by auto
  have sd: "softly t_soft t_hard now dirty' p' i = softly t_soft t_hard now dirty p i" if "i \<in> set ks" for i
    using other(2) [OF ks [OF that]] ks [OF that] by (simp add: softly_def dirty'_def)
  have sg: "job_signals te t_soft t_hard now (pr_pid ` set (worker_procs p')) dirty' i (the_job p' i) =
      job_signals te t_soft t_hard now (pr_pid ` set (worker_procs p)) dirty i (the_job p i)" if "i \<in> set ks" for i
    using other(2) [OF ks [OF that]] ks [OF that] by (simp add: job_signals_def dirty'_def p'_def split: option.split)
  have "\<forall>i \<in> set ks. \<exists>j. objs p' i = Some (AR j) \<and> plain_job i j" using Cons.prems(1) other(1) ks by auto
  note ih = Cons.IH [OF this, of dirty'] 
  have "check_jobs te t_soft t_hard now dirty (k # ks) p = check_jobs te t_soft t_hard now dirty' ks p'"
    by (simp add: bindA_def step)
  also have "\<dots> = (Inr (rev (filter (softly t_soft t_hard now dirty' p') ks) @ dirty'),
     p'\<lparr>objs := (\<lambda>k. if k \<in> set ks \<and> overdue t_hard now p' k then Some (AR (failed_job (the_job p' k))) else objs p' k),
       pcache := fold remove1 (filter (overdue t_hard now p') ks) (pcache p'),
       ptrace := ptrace p' @ concat (map (\<lambda>k. job_signals te t_soft t_hard now (pr_pid ` set (worker_procs p')) dirty' k (the_job p' k)) ks)\<rparr>)"
    using ih Cons.prems(2) by simp
  also have "filter (softly t_soft t_hard now dirty' p') ks = filter (softly t_soft t_hard now dirty p) ks" using sd by (rule filter_cong [OF refl])
  also have "filter (overdue t_hard now p') ks = filter (overdue t_hard now p) ks" using other(3) ks by (intro filter_cong) auto
  also have "map (\<lambda>k. job_signals te t_soft t_hard now (pr_pid ` set (worker_procs p')) dirty' k (the_job p' k)) ks =
      map (\<lambda>k. job_signals te t_soft t_hard now (pr_pid ` set (worker_procs p)) dirty k (the_job p k)) ks" using sg by (rule map_cong [OF refl])
  also have "(\<lambda>i. if i \<in> set ks \<and> overdue t_hard now p' i then Some (AR (failed_job (the_job p' i))) else objs p' i) =
      (\<lambda>i. if i \<in> set (k # ks) \<and> overdue t_hard now p i then Some (AR (failed_job (the_job p i))) else objs p i)"
  proof
    fix i
    show "(if i \<in> set ks \<and> overdue t_hard now p' i then Some (AR (failed_job (the_job p' i))) else objs p' i) =
        (if i \<in> set (k # ks) \<and> overdue t_hard now p i then Some (AR (failed_job (the_job p i))) else objs p i)"
      using other [of i] Cons.prems(2) by (cases "i = k") (auto simp: p'_def overdue_def the)
  qed
  finally show ?case
    using Cons.prems(2) by (auto simp: p'_def dirty'_def overdue_def softly_def the)
qed

text \<open>Who is signalled for a job, and the termination of its worker.\<close>

lemma job_signals_only:
  assumes "e \<in> set (job_signals te t_soft t_hard now crewpids old k j)"
  shows "\<exists>pid \<in> crewpids. \<exists>sig. ar_worker_pid j = Some pid \<and> (past_hard t_hard now j \<or> past_soft t_soft now j) \<and> (e = Kill pid sig \<or> e = Kill (- pid) sig)"
proof -
  obtain pid where pid: "ar_worker_pid j = Some pid" "pid \<in> crewpids"
    using assms by (cases "ar_worker_pid j"; cases "the (ar_worker_pid j) \<in> crewpids") (simp_all add: job_signals_def)
  with assms have "past_hard t_hard now j \<and> e \<in> set (kill_signals te pid) \<or> past_soft t_soft now j \<and> e = Kill pid SIG_SOFT_TIMEOUT"
    by (auto simp: job_signals_def split: if_splits)
  then have "(past_hard t_hard now j \<or> past_soft t_soft now j) \<and> (\<exists>sig. e = Kill pid sig \<or> e = Kill (- pid) sig)"
    by (auto simp: kill_signals_def Let_def split: sum.splits if_splits)
  with pid show ?thesis by blast
qed

lemma job_signals_term:
  assumes "past_hard t_hard now j" "\<not> ar_event j" "ar_worker_pid j = Some pid" "pid \<in> crewpids" "te_leader te pid = Inr leader"
  shows "Kill (if leader then - pid else pid) TERM_SIGNAL \<in> set (job_signals te t_soft t_hard now crewpids old k j)"
  using assms by (simp add: job_signals_def kill_signals_def Let_def)

lemma failed_job_get: "fst (ar_get env (failed_job j)) = Inl (ExceptionWithTraceback TimeLimitExceeded)"
  by (simp add: ar_get_def ar_ready_def failed_job_def)

text \<open>
  C38. A sweep over a cache with any number of plain jobs. Exactly the jobs past their hard limit and without a result fail with
  \<open>TimeLimitExceeded\<close> and leave the cache, all others and their places in it are as before; a worker of the pool whose job fails so is sent \<open>SIGTERM\<close>
  (its group if it leads one); and no signal goes to anything but a worker of the pool, or its group, whose job in the cache is past a limit.
\<close>

theorem sweep_exact:
  assumes "plain_cache p" and soft: "\<forall>pid. te_kill te pid SIG_SOFT_TIMEOUT = None \<or> te_kill te pid SIG_SOFT_TIMEOUT = Some ESRCH"
  shows "\<exists>d p' es. sweep te t_soft t_hard now dirty p = (Inr d, p') \<and> ptrace p' = ptrace p @ es \<and>
    pcache p' = filter (\<lambda>k. \<not> overdue t_hard now p k) (pcache p) \<and>
    (\<forall>k. if k \<in> set (pcache p) \<and> overdue t_hard now p k
         then \<exists>j. objs p' k = Some (AR j) \<and> fst (ar_get env j) = Inl (ExceptionWithTraceback TimeLimitExceeded)
         else objs p' k = objs p k) \<and>
    (\<forall>k \<in> set (pcache p). \<forall>pid leader. overdue t_hard now p k \<longrightarrow> ar_worker_pid (the_job p k) = Some pid \<longrightarrow>
       pid \<in> pr_pid ` set (worker_procs p) \<longrightarrow> te_leader te pid = Inr leader \<longrightarrow> Kill (if leader then - pid else pid) TERM_SIGNAL \<in> set es) \<and>
    (\<forall>e \<in> set es. \<exists>k \<in> set (pcache p). \<exists>pid \<in> pr_pid ` set (worker_procs p). \<exists>sig. ar_worker_pid (the_job p k) = Some pid \<and>
       (past_hard t_hard now (the_job p k) \<or> past_soft t_soft now (the_job p k)) \<and> (e = Kill pid sig \<or> e = Kill (- pid) sig))"
proof -
  let ?pids = "pr_pid ` set (worker_procs p)"
  define old where "old = filter (\<lambda>k. k \<in> set (pcache p)) dirty"
  define es where "es = concat (map (\<lambda>k. job_signals te t_soft t_hard now ?pids old k (the_job p k)) (pcache p))"
  define p' where "p' = p\<lparr>objs := (\<lambda>k. if k \<in> set (pcache p) \<and> overdue t_hard now p k then Some (AR (failed_job (the_job p k))) else objs p k),
       pcache := fold remove1 (filter (overdue t_hard now p) (pcache p)) (pcache p), ptrace := ptrace p @ es\<rparr>"
  from assms(1) have pl: "\<forall>k \<in> set (pcache p). \<exists>j. objs p k = Some (AR j) \<and> plain_job k j" and d: "distinct (pcache p)"
    by (simp_all add: plain_cache_def)
  have s: "sweep te t_soft t_hard now dirty p = (Inr (rev (filter (softly t_soft t_hard now old p) (pcache p)) @ old), p')"
    using check_jobs_effect [OF pl d soft, of t_soft t_hard now old] by (simp add: sweep_def readA_def old_def es_def p'_def)
  have c: "pcache p' = filter (\<lambda>k. \<not> overdue t_hard now p k) (pcache p)"
    using remove_all [OF d] by (auto simp: p'_def intro: filter_cong)
  have only: "\<forall>e \<in> set es. \<exists>k \<in> set (pcache p). \<exists>pid \<in> ?pids. \<exists>sig. ar_worker_pid (the_job p k) = Some pid \<and>
       (past_hard t_hard now (the_job p k) \<or> past_soft t_soft now (the_job p k)) \<and> (e = Kill pid sig \<or> e = Kill (- pid) sig)"
  proof
    fix e assume "e \<in> set es"
    then obtain k where "k \<in> set (pcache p)" "e \<in> set (job_signals te t_soft t_hard now ?pids old k (the_job p k))" by (auto simp: es_def)
    with job_signals_only [OF this(2)]
    show "\<exists>k \<in> set (pcache p). \<exists>pid \<in> ?pids. \<exists>sig. ar_worker_pid (the_job p k) = Some pid \<and>
       (past_hard t_hard now (the_job p k) \<or> past_soft t_soft now (the_job p k)) \<and> (e = Kill pid sig \<or> e = Kill (- pid) sig)" by blast
  qed
  have all: "\<forall>k \<in> set (pcache p). \<forall>pid leader. overdue t_hard now p k \<longrightarrow> ar_worker_pid (the_job p k) = Some pid \<longrightarrow>
       pid \<in> ?pids \<longrightarrow> te_leader te pid = Inr leader \<longrightarrow> Kill (if leader then - pid else pid) TERM_SIGNAL \<in> set es"
  proof (intro ballI allI impI)
    fix k pid leader
    assume k: "k \<in> set (pcache p)" "overdue t_hard now p k" "ar_worker_pid (the_job p k) = Some pid" "pid \<in> ?pids" "te_leader te pid = Inr leader"
    then have "Kill (if leader then - pid else pid) TERM_SIGNAL \<in> set (job_signals te t_soft t_hard now ?pids old k (the_job p k))"
      by (intro job_signals_term) (simp_all add: overdue_def)
    with k(1) show "Kill (if leader then - pid else pid) TERM_SIGNAL \<in> set es" unfolding es_def set_concat set_map by blast
  qed
  have others: "\<forall>k. if k \<in> set (pcache p) \<and> overdue t_hard now p k
         then \<exists>j. objs p' k = Some (AR j) \<and> fst (ar_get env j) = Inl (ExceptionWithTraceback TimeLimitExceeded)
         else objs p' k = objs p k"
    using failed_job_get by (simp add: p'_def)
  have e: "ptrace p' = ptrace p @ es" by (simp add: p'_def)
  show ?thesis by (intro exI conjI) (rule s, rule e, rule c, rule others, rule all, rule only)
qed

text \<open>Two jobs, one of them past its limit.\<close>

definition two_jobs :: pool where
  "two_jobs = (ex_pool [ex_proc 7 0 None, ex_proc 8 1 None])\<lparr>pcache := [3, 5],
     objs := [3 \<mapsto> AR ex_job, 5 \<mapsto> AR (ex_job\<lparr>ar_job := 5, ar_worker_pid := Some 8, ar_time_accepted := Some 15\<rparr>)]\<rparr>"

theorem sweep_exact_witness:
  "\<exists>d p'. sweep ex_tenv None (Some 20) 21 [] two_jobs = (Inr d, p') \<and> pcache p' = [5] \<and> Kill 7 TERM_SIGNAL \<in> set (ptrace p')"
proof -
  have plain: "plain_cache two_jobs" by (simp add: plain_cache_def plain_job_def two_jobs_def ex_pool_def pool0_def ex_job_def ApplyResult_def)
  have kill: "\<forall>pid. te_kill ex_tenv pid SIG_SOFT_TIMEOUT = None \<or> te_kill ex_tenv pid SIG_SOFT_TIMEOUT = Some ESRCH" by (simp add: ex_tenv_def)
  have late: "overdue (Some 20) 21 two_jobs 3" "\<not> overdue (Some 20) 21 two_jobs 5"
    by (simp_all add: overdue_def past_hard_def timed_out_def truthy_def or_default_def the_job_def two_jobs_def ex_pool_def pool0_def ex_job_def ApplyResult_def)
  have fields: "pcache two_jobs = [3, 5]" "ar_worker_pid (the_job two_jobs 3) = Some 7" "7 \<in> pr_pid ` set (worker_procs two_jobs)"
      "te_leader ex_tenv 7 = Inr False" "ptrace two_jobs = []"
    by (simp_all add: the_job_def two_jobs_def ex_pool_def pool0_def ex_job_def ApplyResult_def ex_proc_def ex_tenv_def)
  obtain d p' es where r: "sweep ex_tenv None (Some 20) 21 [] two_jobs = (Inr d, p')" "ptrace p' = ptrace two_jobs @ es"
    "pcache p' = filter (\<lambda>k. \<not> overdue (Some 20) 21 two_jobs k) (pcache two_jobs)"
    and k: "\<forall>k \<in> set (pcache two_jobs). \<forall>pid leader. overdue (Some 20) 21 two_jobs k \<longrightarrow> ar_worker_pid (the_job two_jobs k) = Some pid \<longrightarrow>
       pid \<in> pr_pid ` set (worker_procs two_jobs) \<longrightarrow> te_leader ex_tenv pid = Inr leader \<longrightarrow> Kill (if leader then - pid else pid) TERM_SIGNAL \<in> set es"
    using sweep_exact [OF plain kill, of None "Some 20" 21 "[]" id] by (elim exE conjE) (rule that)
  have "Kill (if False then - 7 else 7) TERM_SIGNAL \<in> set es"
    using k [rule_format, of 3 7 False] late(1) fields(1-4) by simp
  with r late fields(1,5) show ?thesis by simp
qed

section \<open>The generator between events\<close>

text \<open>
  \<open>_it\<close>: none, suspended in its loop with the jobs that have been signalled, or ended by an exception.
\<close>

datatype timeouts_it = NoIt | Suspended "nat list" | Ended

definition timeout_handle_event :: "tenv \<Rightarrow> int option \<Rightarrow> int option \<Rightarrow> int \<Rightarrow> timeouts_it \<Rightarrow> pool \<Rightarrow> (exn + unit) \<times> timeouts_it \<times> pool" where
  "timeout_handle_event te t_soft t_hard now it p =
     (if it = Ended then (Inr (), NoIt, p)
      else if to_state p \<noteq> RUN then (Inr (), NoIt, p)
      else (case sweep te t_soft t_hard now (case it of Suspended dirty \<Rightarrow> dirty | _ \<Rightarrow> []) p of
          (Inr dirty, p') \<Rightarrow> (Inr (), Suspended dirty, p')
        | (Inl e, p') \<Rightarrow> (Inl e, Ended, p')))"

text \<open>
  An exception in a sweep (here a map job, to whose list of times no number can be added) ends the generator and with it what it remembers: a worker that has been sent
  the signal for its soft limit is sent it again.
\<close>

lemma soft_limit_again:
  "let p = (ex_pool [ex_proc 7 0 None])\<lparr>pcache := [3, 4], objs := [3 \<mapsto> AR ex_job, 4 \<mapsto> MR ((fst (MapResult 4 [] 1 2 None None))\<lparr>mr_time_accepted := [Some 1]\<rparr>)]\<rparr>;
       (r1, it1, p1) = timeout_handle_event ex_tenv (Some 5) None 6 NoIt p;
       (r2, it2, p2) = timeout_handle_event ex_tenv (Some 5) None 7 it1 p1;
       (r3, it3, p3) = timeout_handle_event ex_tenv (Some 5) None 8 it2 p2
   in ptrace p3 = [Kill 7 SIG_SOFT_TIMEOUT, Kill 7 SIG_SOFT_TIMEOUT]"
  by (simp add: timeout_handle_event_def sweep_def check_job_def act_defs timed_out_def truthy_def on_soft_timeout_def has_process_def
    job_handle_timeout_def with_obj_def ar_handle_timeout_def kill_event_def ex_pool_def pool0_def ex_proc_def ex_job_def ApplyResult_def ex_tenv_def
    or_default_def MapResult_def Let_def)

end
