(* ===== verification/Lost_Workers.thy ===== *)
theory Lost_Workers
  imports Timeout_Sweep
begin

text \<open>
  What becomes of the jobs of workers that have gone, for a cache with any number of jobs: a round of \<open>_join_exited_workers\<close> job by job, the
  grace time over any number of rounds, and the draining at shutdown, when \<open>finish_at_shutdown\<close> calls \<open>_join_exited_workers\<close> with no worker left.
\<close>

section \<open>Rounds over the cache\<close>

text \<open>Jobs of \<open>apply_async\<close> without callbacks, each in the cache under its number; the worker's process id is set by \<open>_ack\<close>.\<close>

definition waiting_job :: "nat \<Rightarrow> apply_result \<Rightarrow> bool" where
  "waiting_job k j \<longleftrightarrow> ar_job j = k \<and> (ar_worker_pid j \<noteq> None \<or> ar_worker_lost j \<noteq> None \<longrightarrow> ar_accepted j) \<and>
     ar_callback j = None \<and> ar_error_callback j = None \<and> ar_on_timeout_cancel j = None"

definition waiting_cache :: "pool \<Rightarrow> bool" where
  "waiting_cache p \<longleftrightarrow> distinct (pcache p) \<and> (\<forall>k \<in> set (pcache p). \<exists>j. objs p k = Some (AR j) \<and> waiting_job k j)"

lemma waiting_cacheD: "waiting_cache p \<Longrightarrow> k \<in> set (pcache p) \<Longrightarrow> objs p k = Some (AR (the_job p k)) \<and> waiting_job k (the_job p k)"
  by (force simp: waiting_cache_def the_job_def)

definition failed_with :: "exn \<Rightarrow> apply_result \<Rightarrow> apply_result" where
  "failed_with e j = j\<lparr>ar_success := False, ar_value := PEinfo (ExceptionWithTraceback e), ar_event := True\<rparr>"

lemma failed_with_get: "fst (ar_get env (failed_with e j)) = Inl (ExceptionWithTraceback e)"
  by (simp add: ar_get_def ar_ready_def failed_with_def)

text \<open>A loop whose round for a job changes only this job, and takes it out of the cache or not.\<close>

definition one_job :: "(nat \<Rightarrow> (pool, unit) act) \<Rightarrow> (apply_result \<Rightarrow> apply_result) \<Rightarrow> (apply_result \<Rightarrow> bool) \<Rightarrow> proc list \<Rightarrow> bool" where
  "one_job f g out ws \<longleftrightarrow> (\<forall>p k j. worker_procs p = ws \<longrightarrow> objs p k = Some (AR j) \<longrightarrow> waiting_job k j \<longrightarrow>
     f k p = (Inr (), p\<lparr>objs := (objs p)(k \<mapsto> AR (g j)), pcache := (if out j then remove1 k (pcache p) else pcache p)\<rparr>))"

lemma one_job_loop:
  assumes "one_job f g out (worker_procs p)" "\<forall>k \<in> set ks. objs p k = Some (AR (the_job p k)) \<and> waiting_job k (the_job p k)" "distinct ks"
  shows "forA ks f p = (Inr (), p\<lparr>
    objs := (\<lambda>k. if k \<in> set ks then Some (AR (g (the_job p k))) else objs p k),
    pcache := fold remove1 (filter (\<lambda>k. out (the_job p k)) ks) (pcache p)\<rparr>)"
  using assms
proof (induction ks arbitrary: p)
  case Nil
  then show ?case by (simp add: ret_def)
next
  case (Cons k ks)
  let ?j = "the_job p k"
  let ?q = "p\<lparr>objs := (objs p)(k \<mapsto> AR (g ?j)), pcache := (if out ?j then remove1 k (pcache p) else pcache p)\<rparr>"
  have step: "f k p = (Inr (), ?q)" using Cons.prems(1,2) unfolding one_job_def by simp
  have other: "the_job ?q i = the_job p i" "objs ?q i = objs p i" if "i \<in> set ks" for i
    using that Cons.prems(3) by (auto simp: the_job_def)
  have "forA ks f ?q = (Inr (), ?q\<lparr>
      objs := (\<lambda>i. if i \<in> set ks then Some (AR (g (the_job ?q i))) else objs ?q i),
      pcache := fold remove1 (filter (\<lambda>i. out (the_job ?q i)) ks) (pcache ?q)\<rparr>)"
    using Cons.prems other by (intro Cons.IH) auto
  moreover have "filter (\<lambda>i. out (the_job ?q i)) ks = filter (\<lambda>i. out (the_job p i)) ks" using other(1) by (intro filter_cong) auto
  moreover have "(\<lambda>i. if i \<in> set ks then Some (AR (g (the_job ?q i))) else objs ?q i) =
      (\<lambda>i. if i \<in> set (k # ks) then Some (AR (g (the_job p i))) else objs p i)"
    using other Cons.prems(3) by (auto simp: fun_eq_iff)
  ultimately show ?case by (simp add: bindA_def step)
qed

section \<open>One round, job by job\<close>

text \<open>The job's worker was lost, and longer ago than the grace time.\<close>

definition late :: "int \<Rightarrow> apply_result \<Rightarrow> bool" where
  "late now j \<longleftrightarrow> (case ar_worker_lost j of None \<Rightarrow> False | Some (t, _) \<Rightarrow> now - t > ar_lost_worker_timeout j)"

definition out_of_grace :: "int \<Rightarrow> apply_result \<Rightarrow> bool" where
  "out_of_grace now j \<longleftrightarrow> \<not> ar_event j \<and> late now j"

definition lost_status :: "apply_result \<Rightarrow> int" where
  "lost_status j = snd (the (ar_worker_lost j))"

text \<open>The worker with this process id that is reaped in this round, and its exit status.\<close>

definition reaped :: "pool \<Rightarrow> int \<Rightarrow> proc option" where
  "reaped p pid = find (\<lambda>w. pr_pid w = pid) (filter exited (worker_procs p))"

definition reaped_status :: "pool \<Rightarrow> int \<Rightarrow> int" where
  "reaped_status p pid = (case reaped p pid of None \<Rightarrow> 0 | Some w \<Rightarrow> (case pr_exitcode w of None \<Rightarrow> 0 | Some e \<Rightarrow> e))"

text \<open>Workers are reaped, and the one that has accepted this unfinished job is not among those left.\<close>

definition orphaned :: "pool \<Rightarrow> apply_result \<Rightarrow> bool" where
  "orphaned p j \<longleftrightarrow> (\<exists>w \<in> set (worker_procs p). exited w) \<and> \<not> ar_event j \<and>
     (case ar_worker_pid j of None \<Rightarrow> False
      | Some pid \<Rightarrow> pid \<noteq> 0 \<and> pid \<notin> pr_pid ` set (filter (\<lambda>w. \<not> exited w) (worker_procs p)))"

text \<open>\<open>terminate_job\<close> ended the worker.\<close>

definition ended_by_terminate :: "pool \<Rightarrow> apply_result \<Rightarrow> bool" where
  "ended_by_terminate p j \<longleftrightarrow> orphaned p j \<and> (case reaped p (the (ar_worker_pid j)) of None \<Rightarrow> False | Some w \<Rightarrow> pr_job_terminated w)"

definition fate :: "int \<Rightarrow> pool \<Rightarrow> apply_result \<Rightarrow> apply_result" where
  "fate now p j =
     (if out_of_grace now j then failed_with (WorkerLostError (lost_status j)) j
      else if ended_by_terminate p j then failed_with (Terminated (- reaped_status p (the (ar_worker_pid j)))) j
      else if orphaned p j then j\<lparr>ar_worker_lost := Some (now, reaped_status p (the (ar_worker_pid j)))\<rparr>
      else j)"

lemma expire_one:
  "one_job (expire_lost now) (\<lambda>j. if late now j then failed_with (WorkerLostError (lost_status j)) j else j) (late now) ws"
  unfolding one_job_def
proof (intro allI impI)
  fix p :: pool and k j
  assume k: "objs p k = Some (AR j)" "waiting_job k j"
  show "expire_lost now k p = (Inr (), p\<lparr>objs := (objs p)(k \<mapsto> AR (if late now j then failed_with (WorkerLostError (lost_status j)) j else j)),
      pcache := (if late now j then remove1 k (pcache p) else pcache p)\<rparr>)"
  proof (cases "late now j")
    case True
    then obtain t r where l: "ar_worker_lost j = Some (t, r)" "now - t > ar_lost_worker_timeout j"
      by (auto simp: late_def split: option.splits)
    with k True show ?thesis
      by (simp add: expire_lost_def act_defs mark_as_worker_lost_def job_set_def plain_ar waiting_job_def failed_with_def lost_status_def)
  next
    case False
    with k show ?thesis
      by (auto simp: expire_lost_def act_defs late_def fun_upd_idem split: option.split)
  qed
qed

definition expired :: "int \<Rightarrow> pool \<Rightarrow> pool" where
  "expired now p = p\<lparr>
     objs := (\<lambda>k. if k \<in> set (pcache p) \<and> out_of_grace now (the_job p k)
                  then Some (AR (failed_with (WorkerLostError (lost_status (the_job p k))) (the_job p k))) else objs p k),
     pcache := filter (\<lambda>k. \<not> out_of_grace now (the_job p k)) (pcache p)\<rparr>"

lemma expire_loop:
  assumes "waiting_cache p"
  shows "forA (filter (is_lost p) (pcache p)) (expire_lost now) p = (Inr (), expired now p)"
proof -
  let ?ks = "filter (is_lost p) (pcache p)"
  have lost: "is_lost p k \<and> late now (the_job p k) \<longleftrightarrow> out_of_grace now (the_job p k)" if "k \<in> set (pcache p)" for k
    using waiting_cacheD [OF assms that] by (auto simp: is_lost_def late_def out_of_grace_def ar_ready_def split: option.splits)
  have d: "distinct (pcache p)" using assms by (simp add: waiting_cache_def)
  have w: "\<forall>k \<in> set ?ks. objs p k = Some (AR (the_job p k)) \<and> waiting_job k (the_job p k)"
    using waiting_cacheD [OF assms] by auto
  have c: "fold remove1 (filter (\<lambda>k. late now (the_job p k)) ?ks) (pcache p) = filter (\<lambda>k. \<not> out_of_grace now (the_job p k)) (pcache p)"
    unfolding remove_all [OF d] by (rule filter_cong [OF refl]) (use lost in auto)
  have o: "(\<lambda>k. if k \<in> set ?ks then Some (AR (if late now (the_job p k) then failed_with (WorkerLostError (lost_status (the_job p k))) (the_job p k)
        else the_job p k)) else objs p k) =
      (\<lambda>k. if k \<in> set (pcache p) \<and> out_of_grace now (the_job p k)
           then Some (AR (failed_with (WorkerLostError (lost_status (the_job p k))) (the_job p k))) else objs p k)"
    using lost waiting_cacheD [OF assms] by (auto simp: fun_eq_iff)
  show ?thesis
    unfolding one_job_loop [OF expire_one w distinct_filter [OF d]] expired_def c o ..
qed

lemma gone_one:
  assumes "\<And>pid. find (\<lambda>w. pr_pid w = pid) cleaned = reaped p0 pid"
    and "\<exists>w \<in> set (worker_procs p0). exited w"
    and "\<And>pid. pid \<in> pr_pid ` set cleaned \<or> pid \<notin> pr_pid ` set ws \<longleftrightarrow> pid \<notin> pr_pid ` set (filter (\<lambda>w. \<not> exited w) (worker_procs p0))"
  shows "one_job (job_of_gone_worker now cleaned) (\<lambda>j. if ended_by_terminate p0 j then failed_with (Terminated (- reaped_status p0 (the (ar_worker_pid j)))) j
      else if orphaned p0 j then j\<lparr>ar_worker_lost := Some (now, reaped_status p0 (the (ar_worker_pid j)))\<rparr> else j) (ended_by_terminate p0) ws"
  unfolding one_job_def
proof (intro allI impI)
  fix p :: pool and k j
  assume k: "worker_procs p = ws" "objs p k = Some (AR j)" "waiting_job k j"
  have status: "exitcode_of cleaned pid = reaped_status p0 pid" for pid
    by (simp add: exitcode_of_def reaped_status_def assms(1))
  have ended: "job_terminated cleaned pid = (case reaped p0 pid of None \<Rightarrow> False | Some w \<Rightarrow> pr_job_terminated w)" for pid
    by (simp add: job_terminated_def assms(1))
  show "job_of_gone_worker now cleaned k p = (Inr (), p\<lparr>objs := (objs p)(k \<mapsto> AR (
      if ended_by_terminate p0 j then failed_with (Terminated (- reaped_status p0 (the (ar_worker_pid j)))) j
      else if orphaned p0 j then j\<lparr>ar_worker_lost := Some (now, reaped_status p0 (the (ar_worker_pid j)))\<rparr> else j)),
      pcache := (if ended_by_terminate p0 j then remove1 k (pcache p) else pcache p)\<rparr>)"
  proof (cases "orphaned p0 j")
    case False
    then have "\<not> ended_by_terminate p0 j" by (simp add: ended_by_terminate_def)
    with False k assms(2,3) show ?thesis
      by (cases "ar_worker_pid j")
        (auto simp: job_of_gone_worker_def act_defs ar_worker_pids_def truthy_def orphaned_def ar_ready_def fun_upd_idem)
  next
    case True
    then obtain pid where pid: "ar_worker_pid j = Some pid" "pid \<noteq> 0" "\<not> ar_event j"
      "pid \<notin> pr_pid ` set (filter (\<lambda>w. \<not> exited w) (worker_procs p0))" by (auto simp: orphaned_def split: option.splits)
    then have f: "find (\<lambda>pid. pid \<in> pr_pid ` set cleaned \<or> pid \<notin> pr_pid ` set (worker_procs p)) (job_worker_pids (AR j)) = Some pid"
      using k(1) assms(3) by (auto simp: ar_worker_pids_def truthy_def)
    have run: "job_of_gone_worker now cleaned k p = (if job_terminated cleaned pid then job_set_terminated k (exitcode_of cleaned pid)
        else modifyA (on_job_process_lost k now (exitcode_of cleaned pid))) p"
      using k(2) f pid by (simp add: job_of_gone_worker_def act_defs ar_ready_def)
    show ?thesis
    proof (cases "job_terminated cleaned pid")
      case True
      with \<open>orphaned p0 j\<close> have "ended_by_terminate p0 j" using pid ended by (simp add: ended_by_terminate_def)
      with True run k pid show ?thesis
        by (simp add: job_set_terminated_def readA_def ar_set_terminated_def plain_ar waiting_job_def failed_with_def status)
    next
      case False
      with \<open>orphaned p0 j\<close> have "\<not> ended_by_terminate p0 j" using pid ended by (simp add: ended_by_terminate_def)
      with False run k pid \<open>orphaned p0 j\<close> show ?thesis
        by (simp add: modifyA_def on_job_process_lost_def status)
    qed
  qed
qed

text \<open>The hooks for the workers that went only leave their trace.\<close>

lemma down_hooks:
  assumes "\<forall>f q. pc_on_process_down c = Some f \<longrightarrow> f q = None"
  shows "\<exists>es. (case pc_on_process_down c of None \<Rightarrow> ret ()
      | Some f \<Rightarrow> forA ws (\<lambda>w. hook (ProcessDown (pr_pid w)) (f (pr_pid w)))) p = (Inr (), p\<lparr>ptrace := ptrace p @ es\<rparr>)"
proof (cases "pc_on_process_down c")
  case None
  then show ?thesis by (intro exI [of _ "[]"]) (simp add: ret_def)
next
  case (Some f)
  have "\<exists>es. forA ws (\<lambda>w. hook (ProcessDown (pr_pid w)) (f (pr_pid w))) p = (Inr (), p\<lparr>ptrace := ptrace p @ es\<rparr>)"
  proof (induction ws arbitrary: p)
    case Nil
    then show ?case by (intro exI [of _ "[]"]) (simp add: ret_def)
  next
    case (Cons w ws)
    have "hook (ProcessDown (pr_pid w)) (f (pr_pid w)) p = (Inr (), p\<lparr>ptrace := ptrace p @ [ProcessDown (pr_pid w)]\<rparr>)"
      using assms Some by (simp add: hook_def act_defs)
    moreover obtain es where "forA ws (\<lambda>w. hook (ProcessDown (pr_pid w)) (f (pr_pid w))) (p\<lparr>ptrace := ptrace p @ [ProcessDown (pr_pid w)]\<rparr>) =
        (Inr (), p\<lparr>ptrace := ptrace p @ [ProcessDown (pr_pid w)], ptrace := ptrace p @ [ProcessDown (pr_pid w)] @ es\<rparr>)"
      using Cons.IH [of "p\<lparr>ptrace := ptrace p @ [ProcessDown (pr_pid w)]\<rparr>"] by auto
    ultimately show ?case
      by (intro exI [of _ "ProcessDown (pr_pid w) # es"]) (simp add: bindA_def)
  qed
  then show ?thesis by (simp add: Some)
qed

lemma find_rev:
  assumes "distinct (map f xs)"
  shows "find (\<lambda>w. f w = a) (rev xs) = find (\<lambda>w. f w = a) xs"
proof (cases "\<exists>w \<in> set xs. f w = a")
  case True
  then obtain w where "w \<in> set xs" "f w = a" by blast
  with find_distinct [of f xs w] find_distinct [of f "rev xs" w] assms show ?thesis by (simp add: rev_map [symmetric])
next
  case False
  then show ?thesis by (simp add: find_None_iff [THEN iffD2])
qed

definition leaves :: "int \<Rightarrow> pool \<Rightarrow> apply_result \<Rightarrow> bool" where
  "leaves now p j \<longleftrightarrow> out_of_grace now j \<or> ended_by_terminate p j"

text \<open>A round on a pool that is staffed, with what it makes of every object and of the cache.\<close>

lemma join_round:
  assumes st: "staffed p" and w: "waiting_cache p" and c: "\<forall>f q. pc_on_process_down c = Some f \<longrightarrow> f q = None"
  shows "\<exists>p'. join_exited_workers c False now p =
      (Inr (map (\<lambda>w. exitcode_of [w] (pr_pid w)) (rev (filter exited (worker_procs p)))), p') \<and> staffed p' \<and>
    worker_procs p' = filter (\<lambda>w. \<not> exited w) (worker_procs p) \<and>
    pcache p' = filter (\<lambda>k. \<not> leaves now p (the_job p k)) (pcache p) \<and>
    objs p' = (\<lambda>k. if k \<in> set (pcache p) then Some (AR (fate now p (the_job p k))) else objs p k)"
proof -
  let ?q = "expired now p" and ?ws = "worker_procs p"
  let ?cl = "rev (filter exited ?ws)" and ?alive = "filter (\<lambda>w. \<not> exited w) ?ws"
  note wD = waiting_cacheD [OF w]
  have d: "distinct (pcache p)" using w by (simp add: waiting_cache_def)
  have cq: "crew ?q = crew p" by (simp add: crew_def expired_def)
  have sq: "staffed ?q" "worker_procs ?q = ?ws" using st staffed_crew [OF cq] cq by (simp_all add: crew_def)
  obtain p1 where p1: "reap_from (length ?ws) ?q = (Inr ?cl, p1)" "staffed p1" "others p1 = others ?q" "worker_procs p1 = ?alive"
    using reap_run [OF sq(1)] unfolding sq(2) by blast
  have o1: "objs p1 = objs ?q" "pcache p1 = pcache ?q" using p1(3) by (simp_all add: others_def)
  have dp: "distinct (map pr_pid ?ws)" using st by (simp add: staffed_def)
  show ?thesis
  proof (cases "?cl = []")
    case True
    then have none: "\<not> orphaned p j" "\<not> ended_by_terminate p j" for j
      by (auto simp: orphaned_def ended_by_terminate_def filter_empty_conv)
    have "join_exited_workers c False now p = (Inr [], p1)"
      unfolding join_exited_workers_def using True p1(1) by (simp add: act_defs expire_loop [OF w] sq(2))
    moreover have "objs p1 = (\<lambda>k. if k \<in> set (pcache p) then Some (AR (fate now p (the_job p k))) else objs p k)"
      unfolding o1 using wD by (auto simp: expired_def fate_def none fun_eq_iff)
    moreover have "pcache p1 = filter (\<lambda>k. \<not> leaves now p (the_job p k)) (pcache p)"
      unfolding o1 by (simp add: expired_def leaves_def none)
    ultimately show ?thesis using p1(2,4) True by (intro exI [of _ p1]) simp
  next
    case False
    then have ex: "\<exists>w \<in> set ?ws. exited w" by (auto simp: filter_empty_conv)
    have f: "find (\<lambda>w. pr_pid w = pid) ?cl = reaped p pid" for pid
      unfolding reaped_def using dp by (intro find_rev) (simp add: distinct_map_filter)
    have g: "pid \<in> pr_pid ` set ?cl \<or> pid \<notin> pr_pid ` set ?alive \<longleftrightarrow> pid \<notin> pr_pid ` set ?alive" for pid
      using dp by (auto simp: distinct_map inj_on_def)
    have j1: "objs p1 k = objs p k" "the_job p1 k = the_job p k" if "k \<in> set (pcache p1)" for k
      using that unfolding the_job_def o1 by (auto simp: expired_def)
    have w1: "\<forall>k \<in> set (pcache p1). objs p1 k = Some (AR (the_job p1 k)) \<and> waiting_job k (the_job p1 k)"
      using j1 wD unfolding o1(2) by (auto simp: expired_def)
    have d1: "distinct (pcache p1)" using d unfolding o1 by (simp add: expired_def)
    let ?p2 = "p1\<lparr>objs := (\<lambda>k. if k \<in> set (pcache p) then Some (AR (fate now p (the_job p k))) else objs p k),
      pcache := filter (\<lambda>k. \<not> leaves now p (the_job p k)) (pcache p)\<rparr>"
    have c2: "fold remove1 (filter (\<lambda>k. ended_by_terminate p (the_job p1 k)) (pcache p1)) (pcache p1) =
        filter (\<lambda>k. \<not> leaves now p (the_job p k)) (pcache p)"
      unfolding remove_all [OF d1] using j1(2) by (auto simp: o1 expired_def leaves_def intro!: filter_cong)
    have "forA (pcache p1) (job_of_gone_worker now ?cl) p1 = (Inr (), ?p2)"
      unfolding one_job_loop [OF gone_one [OF f ex g, unfolded p1(4) [symmetric]] w1 d1] c2
      using wD j1(2) by (auto simp: o1 expired_def fate_def fun_eq_iff)
    moreover obtain es where "(case pc_on_process_down c of None \<Rightarrow> ret ()
        | Some f \<Rightarrow> forA ?cl (\<lambda>w. hook (ProcessDown (pr_pid w)) (f (pr_pid w)))) ?p2 = (Inr (), ?p2\<lparr>ptrace := ptrace ?p2 @ es\<rparr>)"
      using down_hooks [OF c] by blast
    ultimately have run: "join_exited_workers c False now p =
        (Inr (map (\<lambda>w. exitcode_of [w] (pr_pid w)) ?cl), ?p2\<lparr>ptrace := ptrace ?p2 @ es\<rparr>)"
      unfolding join_exited_workers_def using False p1(1) by (simp add: act_defs expire_loop [OF w] sq(2))
    have "staffed (?p2\<lparr>ptrace := ptrace ?p2 @ es\<rparr>)"
      using p1(2) staffed_crew [of "?p2\<lparr>ptrace := ptrace ?p2 @ es\<rparr>" p1] by (simp add: crew_def)
    then show ?thesis using run p1(4) by (intro exI [of _ "?p2\<lparr>ptrace := ptrace ?p2 @ es\<rparr>"]) simp
  qed
qed

text \<open>
  C12. A round of \<open>_join_exited_workers\<close> over a cache with any number of jobs of \<open>apply_async\<close> without callbacks, job by job. A job that was lost
  longer ago than its grace time fails with \<open>WorkerLostError\<close> and the status noted for its worker, and leaves the cache. Of the other unfinished jobs, those that a worker
  has accepted which is now reaped, or which is not in the pool any more, when workers are reaped at all, are noted as lost now, with the worker's exit status (0 for a worker that
  is not among the reaped), and stay in the cache; only when \<open>terminate_job\<close> has ended the worker, the job fails with \<open>Terminated\<close> at once. Every other job,
  and above all a job of a worker that lives, is as it was, as is what is not in the cache.
\<close>

theorem lost_jobs_exact:
  assumes "staffed p" "waiting_cache p" "\<forall>f q. pc_on_process_down c = Some f \<longrightarrow> f q = None"
  shows "\<exists>codes p'. join_exited_workers c False now p = (Inr codes, p') \<and> staffed p' \<and>
    worker_procs p' = filter (\<lambda>w. \<not> exited w) (worker_procs p) \<and>
    pcache p' = filter (\<lambda>k. \<not> out_of_grace now (the_job p k) \<and> \<not> ended_by_terminate p (the_job p k)) (pcache p) \<and>
    (\<forall>k \<in> set (pcache p). let j = the_job p k; pid = the (ar_worker_pid j) in \<exists>j'. objs p' k = Some (AR j') \<and>
       (if out_of_grace now j then fst (ar_get env j') = Inl (ExceptionWithTraceback (WorkerLostError (lost_status j)))
        else if ended_by_terminate p j then fst (ar_get env j') = Inl (ExceptionWithTraceback (Terminated (- reaped_status p pid)))
        else if orphaned p j then j' = j\<lparr>ar_worker_lost := Some (now, reaped_status p pid)\<rparr>
        else j' = j)) \<and>
    (\<forall>k. k \<notin> set (pcache p) \<longrightarrow> objs p' k = objs p k)"
proof -
  obtain codes p' where r: "join_exited_workers c False now p = (Inr codes, p')" "staffed p'"
    "worker_procs p' = filter (\<lambda>w. \<not> exited w) (worker_procs p)"
    "pcache p' = filter (\<lambda>k. \<not> leaves now p (the_job p k)) (pcache p)"
    "objs p' = (\<lambda>k. if k \<in> set (pcache p) then Some (AR (fate now p (the_job p k))) else objs p k)"
    using join_round [OF assms] by blast
  then show ?thesis
    by (intro exI [of _ codes] exI [of _ p']) (auto simp: leaves_def fate_def failed_with_get Let_def)
qed

text \<open>Two workers go, one of them by \<open>terminate_job\<close>; a third stays with its job, and an earlier one has gone long ago.\<close>

definition lost_job :: "nat \<Rightarrow> int \<Rightarrow> (int \<times> int) option \<Rightarrow> job" where
  "lost_job k pid lost = AR (ex_job\<lparr>ar_job := k, ar_worker_pid := Some pid, ar_worker_lost := lost\<rparr>)"

definition losses :: pool where
  "losses = (ex_pool [ex_proc 7 0 (Some 9), (ex_proc 8 1 (Some (-15)))\<lparr>pr_job_terminated := True\<rparr>, ex_proc 9 2 None])
     \<lparr>pcache := [11, 12, 13, 14], objs := [11 \<mapsto> lost_job 11 7 None, 12 \<mapsto> lost_job 12 8 None, 13 \<mapsto> lost_job 13 9 None, 14 \<mapsto> lost_job 14 6 (Some (80, 11))]\<rparr>"

lemma losses_staffed: "staffed losses" "waiting_cache losses"
proof -
  let ?p = "ex_pool [ex_proc 7 0 (Some 9), (ex_proc 8 1 (Some (-15)))\<lparr>pr_job_terminated := True\<rparr>, ex_proc 9 2 None]"
  have "staffed ?p" by (rule ex_pool_staffed) (simp_all add: ex_proc_def)
  then show "staffed losses" using staffed_crew [of losses ?p] by (simp add: crew_def losses_def)
  show "waiting_cache losses"
    by (simp add: waiting_cache_def losses_def waiting_job_def lost_job_def ex_job_def ApplyResult_def)
qed

theorem lost_jobs_exact_witness:
  "\<exists>codes p'. join_exited_workers ex_pconf False 100 losses = (Inr codes, p') \<and> pcache p' = [11, 13] \<and>
     objs p' 11 = Some (lost_job 11 7 (Some (100, 9))) \<and> objs p' 13 = objs losses 13 \<and>
     (\<exists>j. objs p' 12 = Some (AR j) \<and> fst (ar_get id j) = Inl (ExceptionWithTraceback (Terminated 15))) \<and>
     (\<exists>j. objs p' 14 = Some (AR j) \<and> fst (ar_get id j) = Inl (ExceptionWithTraceback (WorkerLostError 11)))"
proof -
  have c: "\<forall>f q. pc_on_process_down ex_pconf = Some f \<longrightarrow> f q = None" by (simp add: ex_pconf_def)
  have jobs: "the_job losses 11 = ex_job\<lparr>ar_job := 11, ar_worker_pid := Some 7, ar_worker_lost := None\<rparr>"
    "the_job losses 12 = ex_job\<lparr>ar_job := 12, ar_worker_pid := Some 8, ar_worker_lost := None\<rparr>"
    "the_job losses 13 = ex_job\<lparr>ar_job := 13, ar_worker_pid := Some 9, ar_worker_lost := None\<rparr>"
    "the_job losses 14 = ex_job\<lparr>ar_job := 14, ar_worker_pid := Some 6, ar_worker_lost := Some (80, 11)\<rparr>"
    by (simp_all add: the_job_def losses_def lost_job_def)
  note ev = out_of_grace_def late_def ended_by_terminate_def orphaned_def reaped_def reaped_status_def lost_status_def exited_def
    ex_job_def ApplyResult_def ex_pool_def ex_proc_def losses_def
  have f: "out_of_grace 100 (the_job losses 14)" "\<not> out_of_grace 100 (the_job losses 11)" "\<not> out_of_grace 100 (the_job losses 12)"
    "\<not> out_of_grace 100 (the_job losses 13)" "orphaned losses (the_job losses 11)" "\<not> orphaned losses (the_job losses 13)"
    "ended_by_terminate losses (the_job losses 12)" "\<not> ended_by_terminate losses (the_job losses 11)"
    "\<not> ended_by_terminate losses (the_job losses 13)" "reaped_status losses 7 = 9" "reaped_status losses 8 = -15" "lost_status (the_job losses 14) = 11"
    unfolding jobs by (simp_all add: ev)
  obtain codes p' where r: "join_exited_workers ex_pconf False 100 losses = (Inr codes, p')"
    "pcache p' = filter (\<lambda>k. \<not> out_of_grace 100 (the_job losses k) \<and> \<not> ended_by_terminate losses (the_job losses k)) (pcache losses)"
    and k: "\<forall>k \<in> set (pcache losses). let j = the_job losses k; pid = the (ar_worker_pid j) in \<exists>j'. objs p' k = Some (AR j') \<and>
       (if out_of_grace 100 j then fst (ar_get id j') = Inl (ExceptionWithTraceback (WorkerLostError (lost_status j)))
        else if ended_by_terminate losses j then fst (ar_get id j') = Inl (ExceptionWithTraceback (Terminated (- reaped_status losses pid)))
        else if orphaned losses j then j' = j\<lparr>ar_worker_lost := Some (100, reaped_status losses pid)\<rparr>
        else j' = j)"
    using lost_jobs_exact [OF losses_staffed c, of 100 id] by (elim exE conjE) (rule that)
  have c: "pcache losses = [11, 12, 13, 14]" by (simp add: losses_def)
  have "pcache p' = [11, 13]" using r(2) f unfolding c by simp
  moreover have "objs losses 13 = Some (AR (the_job losses 13))" by (simp add: losses_def lost_job_def the_job_def)
  moreover have "\<exists>j'. objs p' 11 = Some (AR j') \<and> j' = (the_job losses 11)\<lparr>ar_worker_lost := Some (100, 9)\<rparr>"
    using k [rule_format, of 11] f unfolding c by (simp add: Let_def jobs)
  moreover have "\<exists>j'. objs p' 12 = Some (AR j') \<and> fst (ar_get id j') = Inl (ExceptionWithTraceback (Terminated 15))"
    using k [rule_format, of 12] f unfolding c by (simp add: Let_def jobs)
  moreover have "\<exists>j'. objs p' 13 = Some (AR j') \<and> j' = the_job losses 13"
    using k [rule_format, of 13] f unfolding c by (simp add: Let_def)
  moreover have "\<exists>j'. objs p' 14 = Some (AR j') \<and> fst (ar_get id j') = Inl (ExceptionWithTraceback (WorkerLostError 11))"
    using k [rule_format, of 14] f unfolding c by (simp add: Let_def)
  ultimately show ?thesis using r(1) by (auto simp: jobs(1) lost_job_def)
qed

section \<open>Rounds that follow\<close>

lemma waiting_fate: "waiting_job k j \<Longrightarrow> waiting_job k (fate now p j)"
  by (auto simp: fate_def waiting_job_def failed_with_def orphaned_def split: option.splits)

lemma waiting_kept:
  assumes "waiting_cache p" "pcache p' = filter out (pcache p)"
    "\<And>k. k \<in> set (pcache p') \<Longrightarrow> \<exists>j. objs p' k = Some (AR j) \<and> waiting_job k j"
  shows "waiting_cache p'"
  using assms by (auto simp: waiting_cache_def)

text \<open>
  The grace time. A job that is noted as lost in one round fails in the next, with the status of its worker, exactly when its grace time has passed by then;
  otherwise it waits on, as it was.
\<close>

theorem lost_job_fails_after_grace:
  assumes "staffed p" "waiting_cache p" "\<forall>f q. pc_on_process_down c = Some f \<longrightarrow> f q = None"
    and k: "k \<in> set (pcache p)" "orphaned p (the_job p k)" "\<not> ended_by_terminate p (the_job p k)" "\<not> out_of_grace t (the_job p k)"
  shows "\<exists>codes p1. join_exited_workers c False t p = (Inr codes, p1) \<and> k \<in> set (pcache p1) \<and>
    (\<exists>p2. join_exited_workers c False t' p1 = (Inr [], p2) \<and>
      (if t' - t > ar_lost_worker_timeout (the_job p k)
       then k \<notin> set (pcache p2) \<and> (\<exists>j. objs p2 k = Some (AR j) \<and> fst (ar_get env j) =
         Inl (ExceptionWithTraceback (WorkerLostError (reaped_status p (the (ar_worker_pid (the_job p k)))))))
       else k \<in> set (pcache p2) \<and> objs p2 k = objs p1 k))"
proof -
  let ?j = "the_job p k"
  let ?j1 = "?j\<lparr>ar_worker_lost := Some (t, reaped_status p (the (ar_worker_pid ?j)))\<rparr>"
  obtain codes p1 where p1: "join_exited_workers c False t p = (Inr codes, p1)" "staffed p1"
    "worker_procs p1 = filter (\<lambda>w. \<not> exited w) (worker_procs p)"
    "pcache p1 = filter (\<lambda>k. \<not> leaves t p (the_job p k)) (pcache p)"
    "objs p1 = (\<lambda>k. if k \<in> set (pcache p) then Some (AR (fate t p (the_job p k))) else objs p k)"
    using join_round [OF assms(1-3)] by blast
  have w1: "waiting_cache p1"
    by (rule waiting_kept [OF assms(2) p1(4)]) (use waiting_cacheD [OF assms(2)] p1(4,5) waiting_fate in auto)
  have k1: "k \<in> set (pcache p1)" "the_job p1 k = ?j1" using k p1(4,5) by (auto simp: leaves_def the_job_def fate_def)
  have none: "filter exited (worker_procs p1) = []" "\<not> orphaned p1 j" "\<not> ended_by_terminate p1 j" for j
    unfolding p1(3) by (auto simp: orphaned_def ended_by_terminate_def filter_empty_conv p1(3))
  obtain p2 where p2: "join_exited_workers c False t' p1 = (Inr [], p2)"
    "pcache p2 = filter (\<lambda>k. \<not> leaves t' p1 (the_job p1 k)) (pcache p1)"
    "objs p2 = (\<lambda>k. if k \<in> set (pcache p1) then Some (AR (fate t' p1 (the_job p1 k))) else objs p1 k)"
    using join_round [OF p1(2) w1 assms(3), of t'] none(1) by auto
  have out: "out_of_grace t' ?j1 \<longleftrightarrow> t' - t > ar_lost_worker_timeout ?j"
    using k(2) by (auto simp: out_of_grace_def late_def orphaned_def)
  have "objs p1 k = Some (AR ?j1)" using k1 waiting_cacheD [OF w1] by metis
  then show ?thesis
    using p1(1) p2 k1 out none by (auto simp: leaves_def fate_def failed_with_get lost_status_def)
qed

text \<open>
  The grace time starts again, and the status is lost, whenever another worker is reaped: a job whose worker went earlier is noted as lost once more, with
  the time of this round and the status 0.
\<close>

lemma grace_starts_again:
  assumes "staffed p" "waiting_cache p" "\<forall>f q. pc_on_process_down c = Some f \<longrightarrow> f q = None"
    and k: "k \<in> set (pcache p)" "ar_worker_lost (the_job p k) = Some (t, e)" "now - t \<le> ar_lost_worker_timeout (the_job p k)"
      "\<not> ar_event (the_job p k)" "ar_worker_pid (the_job p k) = Some pid" "pid \<noteq> 0" "pid \<notin> pids p"
    and other: "\<exists>w \<in> set (worker_procs p). exited w"
  shows "\<exists>codes p'. join_exited_workers c False now p = (Inr codes, p') \<and>
    objs p' k = Some (AR ((the_job p k)\<lparr>ar_worker_lost := Some (now, 0)\<rparr>))"
proof -
  have "reaped p pid = None" using k(7) by (auto simp: reaped_def find_None_iff pids_def)
  then have "fate now p (the_job p k) = (the_job p k)\<lparr>ar_worker_lost := Some (now, 0)\<rparr>"
    using k other by (auto simp: fate_def out_of_grace_def late_def orphaned_def ended_by_terminate_def reaped_status_def pids_def)
  then show ?thesis using join_round [OF assms(1-3), of now] k(1) by auto
qed

section \<open>Draining at shutdown\<close>

lemma expired_waiting:
  assumes "waiting_cache p"
  shows "waiting_cache (expired t p)" "k \<in> set (pcache (expired t p)) \<Longrightarrow> the_job (expired t p) k = the_job p k"
proof -
  show "waiting_cache (expired t p)"
    by (rule waiting_kept [OF assms]) (use waiting_cacheD [OF assms] in \<open>auto simp: expired_def\<close>)
qed (simp add: expired_def the_job_def)

lemma expired_same: "worker_procs (expired t p) = worker_procs p" "rh_state (expired t p) = rh_state p"
  by (simp_all add: expired_def)

lemma expired_empty: "pcache p = [] \<Longrightarrow> expired t p = p"
  by (simp add: expired_def)

lemma expired_all_empty: "pcache p = [] \<Longrightarrow> fold expired ts p = p"
  by (induction ts) (simp_all add: expired_empty)

lemma expired_all:
  "waiting_cache p \<Longrightarrow> pcache (fold expired ts p) = filter (\<lambda>k. \<forall>t \<in> set ts. \<not> out_of_grace t (the_job p k)) (pcache p) \<and>
   (\<forall>k. if k \<in> set (pcache p) \<and> (\<exists>t \<in> set ts. out_of_grace t (the_job p k))
        then objs (fold expired ts p) k = Some (AR (failed_with (WorkerLostError (lost_status (the_job p k))) (the_job p k)))
        else objs (fold expired ts p) k = objs p k)"
proof (induction ts arbitrary: p)
  case (Cons t ts)
  have c: "pcache (expired t p) = filter (\<lambda>k. \<not> out_of_grace t (the_job p k)) (pcache p)"
    "objs (expired t p) k = (if k \<in> set (pcache p) \<and> out_of_grace t (the_job p k)
       then Some (AR (failed_with (WorkerLostError (lost_status (the_job p k))) (the_job p k))) else objs p k)" for k
    by (simp_all add: expired_def)
  have j: "the_job (expired t p) k = the_job p k" if "k \<in> set (pcache p)" "\<not> out_of_grace t (the_job p k)" for k
    using that expired_waiting(2) [OF Cons.prems, of k t] c(1) by auto
  have f: "filter (\<lambda>k. \<forall>t' \<in> set ts. \<not> out_of_grace t' (the_job (expired t p) k)) (pcache (expired t p)) =
      filter (\<lambda>k. \<forall>t' \<in> set (t # ts). \<not> out_of_grace t' (the_job p k)) (pcache p)"
    unfolding c(1) filter_filter using j by (intro filter_cong) auto
  note ih = Cons.IH [OF expired_waiting(1) [OF Cons.prems, of t]]
  show ?case
    using ih f c(2) j unfolding c(1) by (auto split: if_splits)
qed simp

text \<open>With no worker left, \<open>_join_exited_workers\<close> fails the jobs whose grace time has passed, and raises \<open>WorkersJoined\<close>.\<close>

lemma join_no_workers:
  assumes "waiting_cache p" "worker_procs p = []"
  shows "join_exited_workers c True now p = (Inl WorkersJoined, expired now p)"
  unfolding join_exited_workers_def using assms by (simp add: act_defs expire_loop expired_same)

abbreviation quiet :: "int list \<Rightarrow> round list" where
  "quiet ts \<equiv> map (\<lambda>t. (id, NotReady, t)) ts"

text \<open>The rounds that begin in the five seconds after \<open>t0\<close>, and the first that does not.\<close>

definition rounds_used :: "int \<Rightarrow> int list \<Rightarrow> int list" where
  "rounds_used t0 ts = take (Suc (length (takeWhile (\<lambda>t. t - t0 \<le> 5) ts))) ts"

lemma quiet_rounds:
  assumes "waiting_cache p" "worker_procs p = []" "rh_state p \<noteq> TERMINATE" "t0 \<noteq> 0"
  shows "shutdown_rounds killf (join_exited_workers c True) None (Some t0) (quiet ts) p =
    (Inr (if (\<exists>t \<in> set ts. t - t0 > 5) \<or> pcache (fold expired (rounds_used t0 ts) p) = [] then Some () else None),
     fold expired (rounds_used t0 ts) p)"
  using assms(1-3)
proof (induction ts arbitrary: p)
  case Nil
  then show ?case by (simp add: act_defs rounds_used_def)
next
  case (Cons t ts)
  show ?case
  proof (cases "pcache p = []")
    case True
    then show ?thesis by (simp add: act_defs expired_all_empty)
  next
    case False
    note join = join_no_workers [OF Cons.prems(1,2), of c t]
    show ?thesis
    proof (cases "t - t0 > 5")
      case True
      then show ?thesis using False Cons.prems(3) assms(4) join
        by (simp add: act_defs after_join_def truthy_def rounds_used_def)
    next
      case early: False
      have "shutdown_rounds killf (join_exited_workers c True) None (Some t0) (quiet (t # ts)) p =
          shutdown_rounds killf (join_exited_workers c True) None (Some t0) (quiet ts) (expired t p)"
        using early False Cons.prems(3) assms(4) join by (simp add: act_defs after_join_def truthy_def)
      also note Cons.IH [OF expired_waiting(1) [OF Cons.prems(1)] Cons.prems(2,3) [folded expired_same [of t p]]]
      also have "(\<exists>x \<in> set ts. x - t0 > 5) = (\<exists>x \<in> set (t # ts). x - t0 > 5)" using early by simp
      also have "fold expired (rounds_used t0 ts) (expired t p) = fold expired (rounds_used t0 (t # ts)) p" using early by (simp add: rounds_used_def)
      finally show ?thesis .
    qed
  qed
qed

text \<open>
  C40. When all workers are gone and no message comes, draining the queue at shutdown ends, and does not end early. The first round, at \<open>t0\<close>, finds the workers
  gone; the rounds go on as long as jobs are left and no more than five seconds have passed, and with the first round past them the result handler gives up, whatever is still in the cache.
  Meanwhile every job whose grace time passes fails with \<open>WorkerLostError\<close> and leaves the cache, and the other jobs stay as they were: when none is left, the
  handler returns without waiting on.
\<close>

theorem shutdown_gives_up:
  assumes "worker_procs p = []" "waiting_cache p" "rh_state p \<noteq> TERMINATE" "t0 \<noteq> 0"
  shows "\<exists>p'. shutdown_rounds killf (join_exited_workers c True) None None (quiet (t0 # ts)) p =
      (Inr (if (\<exists>t \<in> set ts. t - t0 > 5) \<or> pcache p' = [] then Some () else None), p') \<and>
    pcache p' = filter (\<lambda>k. \<forall>t \<in> set (t0 # rounds_used t0 ts). \<not> out_of_grace t (the_job p k)) (pcache p) \<and>
    (\<forall>k. if k \<in> set (pcache p) \<and> k \<notin> set (pcache p')
         then \<exists>j. objs p' k = Some (AR j) \<and> fst (ar_get env j) = Inl (ExceptionWithTraceback (WorkerLostError (lost_status (the_job p k))))
         else objs p' k = objs p k)"
proof -
  let ?p' = "fold expired (t0 # rounds_used t0 ts) p"
  have run: "shutdown_rounds killf (join_exited_workers c True) None None (quiet (t0 # ts)) p =
      (Inr (if (\<exists>t \<in> set ts. t - t0 > 5) \<or> pcache ?p' = [] then Some () else None), ?p')"
  proof (cases "pcache p = []")
    case True
    then show ?thesis by (simp add: act_defs expired_all_empty expired_empty)
  next
    case False
    have "shutdown_rounds killf (join_exited_workers c True) None None (quiet (t0 # ts)) p =
        shutdown_rounds killf (join_exited_workers c True) None (Some t0) (quiet ts) (expired t0 p)"
      using False assms(3,4) join_no_workers [OF assms(2,1), of c t0] by (simp add: act_defs after_join_def truthy_def)
    also note quiet_rounds [OF expired_waiting(1) [OF assms(2)] assms(1) [folded expired_same(1) [of t0 p]] assms(3) [folded expired_same(2) [of t0 p]] assms(4)]
    finally show ?thesis by (simp del: shutdown_rounds.simps)
  qed
  from expired_all [OF assms(2), of "t0 # rounds_used t0 ts"]
  have all: "pcache ?p' = filter (\<lambda>k. \<forall>t \<in> set (t0 # rounds_used t0 ts). \<not> out_of_grace t (the_job p k)) (pcache p)"
    "\<And>k. if k \<in> set (pcache p) \<and> (\<exists>t \<in> set (t0 # rounds_used t0 ts). out_of_grace t (the_job p k))
        then objs ?p' k = Some (AR (failed_with (WorkerLostError (lost_status (the_job p k))) (the_job p k)))
        else objs ?p' k = objs p k" by blast+
  show ?thesis
  proof (intro exI [of _ ?p'] conjI run all(1) allI)
    fix k
    show "if k \<in> set (pcache p) \<and> k \<notin> set (pcache ?p')
         then \<exists>j. objs ?p' k = Some (AR j) \<and> fst (ar_get env j) = Inl (ExceptionWithTraceback (WorkerLostError (lost_status (the_job p k))))
         else objs ?p' k = objs p k"
      using all(2) [of k] failed_with_get unfolding all(1) by (auto split: if_splits)
  qed
qed

text \<open>A job that no worker ever took keeps the handler waiting until the five seconds are over; one that was lost at 99 fails at 110.\<close>

definition drained :: pool where
  "drained = (ex_pool [])\<lparr>pcache := [11, 14], objs := [11 \<mapsto> AR (ex_job\<lparr>ar_job := 11, ar_worker_pid := None\<rparr>), 14 \<mapsto> lost_job 14 6 (Some (99, 11))]\<rparr>"

theorem shutdown_gives_up_witness:
  "\<exists>p'. shutdown_rounds (\<lambda>_ _. None) (join_exited_workers ex_pconf True) None None (quiet [105, 108, 110, 112, 130]) drained = (Inr (Some ()), p') \<and> pcache p' = [11] \<and>
   (\<exists>p'. shutdown_rounds (\<lambda>_ _. None) (join_exited_workers ex_pconf True) None None (quiet [105, 108]) drained = (Inr None, p') \<and> pcache p' = [11, 14])"
proof -
  have w: "worker_procs drained = []" "waiting_cache drained" "rh_state drained \<noteq> TERMINATE" "(105 :: int) \<noteq> 0"
    by (simp_all add: drained_def ex_pool_def pool0_def waiting_cache_def waiting_job_def lost_job_def ex_job_def ApplyResult_def RUN_def TERMINATE_def)
  have g: "out_of_grace t (the_job drained 14) \<longleftrightarrow> t > 109" "\<not> out_of_grace t (the_job drained 11)" "pcache drained = [11, 14]" for t
    by (auto simp: out_of_grace_def late_def the_job_def drained_def lost_job_def ex_job_def ApplyResult_def)
  note run = shutdown_gives_up [OF w, of "\<lambda>_ _. None" ex_pconf _ id]
  obtain p' where a: "shutdown_rounds (\<lambda>_ _. None) (join_exited_workers ex_pconf True) None None (quiet [105, 108, 110, 112, 130]) drained = (Inr (Some ()), p')"
    "pcache p' = [11]" using run [of "[108, 110, 112, 130]"] by (auto simp: rounds_used_def g simp del: shutdown_rounds.simps)
  obtain p'' where "shutdown_rounds (\<lambda>_ _. None) (join_exited_workers ex_pconf True) None None (quiet [105, 108]) drained = (Inr None, p'')"
    "pcache p'' = [11, 14]" using run [of "[108]"] by (auto simp: rounds_used_def g simp del: shutdown_rounds.simps split: if_splits)
  with a show ?thesis by blast
qed

end
