(* ===== verification/Sem_Names.thy ===== *)
theory Sem_Names
  imports Semlock
begin

text \<open>
  How a \<open>SemLock\<close> of \<open>billiard/synchronize.py\<close> reaches other processes: its name and its unlinking, \<open>__getstate__\<close>, \<open>__setstate__\<close>
  with \<open>_rebuild\<close> of \<open>Modules/_billiard/semaphore.c\<close>, and forks. A semaphore is used through a handle, which means something in one process only.
\<close>

section \<open>Names, handles and objects\<close>

definition ENOENT :: int where "ENOENT = 2"
definition ERROR_INVALID_HANDLE :: int where "ERROR_INVALID_HANDLE = 6"

record semlock =
  sl_handle :: nat
  sl_kind :: kind
  sl_max :: int
  sl_name :: "nat option"

text \<open>
  The system: the names of semaphores, and for each process what its handles (on POSIX addresses) stand for. \<open>ss_registered\<close> is the
  cache of the semaphore tracker.
\<close>

record semsys =
  ss_win :: bool
  ss_names :: "nat \<rightharpoonup> nat"
  ss_mem :: "nat \<Rightarrow> nat \<rightharpoonup> nat"
  ss_next :: nat
  ss_registered :: "nat list"

definition map_handle :: "nat \<Rightarrow> nat \<Rightarrow> nat \<Rightarrow> (semsys, unit) act" where
  "map_handle p a g = modifyA (\<lambda>s. s\<lparr>ss_mem := (ss_mem s)(p := (ss_mem s p)(a \<mapsto> g))\<rparr>)"

text \<open>
  \<open>SemLock.__init__\<close> in process \<open>p\<close>: \<open>fork\<close> tells whether the start method of the context is \<open>fork\<close>, \<open>names\<close> are the names that \<open>_make_name\<close>
  makes and \<open>a\<close> the handle the system gives.
\<close>

definition make_semlock :: "nat \<Rightarrow> bool \<Rightarrow> kind \<Rightarrow> int \<Rightarrow> (nat \<Rightarrow> nat) \<Rightarrow> nat \<Rightarrow> (semsys, semlock) act" where
  "make_semlock p fork k m names a = readA (\<lambda>s.
     case (if ss_win s then Inr 0 else try_names (\<lambda>i. if names i \<in> dom (ss_names s) then Some (OSError EEXIST) else None) 0 100) of
       Inl e \<Rightarrow> raise e
     | Inr i \<Rightarrow>
         let g = ss_next s; unlink_now = (ss_win s \<or> fork)
         in bindA (modifyA (\<lambda>s. s\<lparr>ss_next := Suc g\<rparr>)) (\<lambda>_.
            bindA (map_handle p a g) (\<lambda>_.
            bindA (whenA (\<not> unlink_now) (modifyA (\<lambda>s. s\<lparr>ss_names := (ss_names s)(names i \<mapsto> g), ss_registered := ss_registered s @ [names i]\<rparr>))) (\<lambda>_.
            ret \<lparr>sl_handle = a, sl_kind = k, sl_max = m, sl_name = (if unlink_now then None else Some (names i))\<rparr>))))"

definition sem_cleanup :: "nat \<Rightarrow> (semsys, unit) act" where
  "sem_cleanup name =
     bindA (assertA (\<lambda>s. name \<in> dom (ss_names s)) (OSError ENOENT)) (\<lambda>_.
     modifyA (\<lambda>s. s\<lparr>ss_names := (ss_names s)(name := None), ss_registered := remove1 name (ss_registered s)\<rparr>))"

text \<open>\<open>__getstate__\<close> in process \<open>p\<close> while \<open>spawning\<close> is the process being spawned; on Windows \<open>dup\<close> is the handle it gets.\<close>

type_synonym sem_state = "nat \<times> kind \<times> int \<times> nat option"

definition sem_getstate :: "nat \<Rightarrow> nat option \<Rightarrow> nat \<Rightarrow> semlock \<Rightarrow> (semsys, sem_state) act" where
  "sem_getstate p spawning dup sl =
     (case spawning of
        None \<Rightarrow> raise RuntimeError
      | Some q \<Rightarrow> readA (\<lambda>s.
          if ss_win s
          then bindA (fetchA (\<lambda>s. ss_mem s p (sl_handle sl)) (OSError ERROR_INVALID_HANDLE)) (\<lambda>g.
            bindA (map_handle q dup g) (\<lambda>_. ret (dup, sl_kind sl, sl_max sl, sl_name sl)))
          else ret (sl_handle sl, sl_kind sl, sl_max sl, sl_name sl)))"

text \<open>\<open>__setstate__\<close> in process \<open>q\<close>; \<open>a\<close> is the handle that opening the name gives.\<close>

definition sem_setstate :: "nat \<Rightarrow> nat \<Rightarrow> sem_state \<Rightarrow> (semsys, semlock) act" where
  "sem_setstate q a st =
     (case st of (h, k, m, name) \<Rightarrow> readA (\<lambda>s.
        case name of
          Some n \<Rightarrow>
            if ss_win s then ret \<lparr>sl_handle = h, sl_kind = k, sl_max = m, sl_name = name\<rparr>
            else bindA (fetchA (\<lambda>s. ss_names s n) (OSError ENOENT)) (\<lambda>g.
              bindA (map_handle q a g) (\<lambda>_. ret \<lparr>sl_handle = a, sl_kind = k, sl_max = m, sl_name = name\<rparr>))
        | None \<Rightarrow> ret \<lparr>sl_handle = h, sl_kind = k, sl_max = m, sl_name = None\<rparr>))"

lemmas sem_name_defs = make_semlock_def map_handle_def sem_cleanup_def sem_getstate_def sem_setstate_def

section \<open>Histories\<close>

text \<open>
  The objects of all processes and the pickled states under way. \<open>so_sem\<close> and \<open>pk_sem\<close> are the semaphore an object was made for, which only the properties
  read; \<open>so_final\<close> marks the object that has the finalizer. \<open>so_stray\<close>, which also only the properties read, marks what has been rebuilt on POSIX from a state without a name
  (and what such objects become in forked processes): nothing keeps a lock of the context \<open>fork\<close> from being given to a process that is spawned.
\<close>

record semobj =
  so_proc :: nat
  so_lock :: semlock
  so_sem :: nat
  so_final :: bool
  so_stray :: bool

record pickled =
  pk_target :: nat
  pk_state :: sem_state
  pk_sem :: nat
  pk_stray :: bool

record world =
  w_sys :: semsys
  w_objs :: "semobj list"
  w_pickles :: "pickled list"
  w_used :: "nat set"
  w_procs :: "nat set"

datatype sevent =
    SCreate nat bool kind int "nat \<Rightarrow> nat" nat
  | SPickle nat "nat option" nat
  | SRebuild nat nat
  | SFork nat nat
  | SCollect nat

fun s_step :: "sevent \<Rightarrow> world \<Rightarrow> world" where
  "s_step (SCreate p fork k m names a) w =
     (case make_semlock p fork k m names a (w_sys w) of
        (Inl _, s) \<Rightarrow> w\<lparr>w_sys := s\<rparr>
      | (Inr sl, s) \<Rightarrow> w\<lparr>w_sys := s, w_procs := insert p (w_procs w), w_used := w_used w \<union> set_option (sl_name sl),
            w_objs := w_objs w @ [\<lparr>so_proc = p, so_lock = sl, so_sem = ss_next (w_sys w), so_final = (sl_name sl \<noteq> None), so_stray = False\<rparr>]\<rparr>)"
| "s_step (SPickle i spawning dup) w =
     (let ob = w_objs w ! i in
      case sem_getstate (so_proc ob) spawning dup (so_lock ob) (w_sys w) of
        (Inl _, s) \<Rightarrow> w\<lparr>w_sys := s\<rparr>
      | (Inr st, s) \<Rightarrow> w\<lparr>w_sys := s, w_procs := w_procs w \<union> set_option spawning,
            w_pickles := w_pickles w @ [\<lparr>pk_target = the spawning, pk_state = st, pk_sem = so_sem ob,
              pk_stray = (\<not> ss_win (w_sys w) \<and> sl_name (so_lock ob) = None)\<rparr>]\<rparr>)"
| "s_step (SRebuild j a) w =
     (let pk = w_pickles w ! j in
      case sem_setstate (pk_target pk) a (pk_state pk) (w_sys w) of
        (Inl _, s) \<Rightarrow> w\<lparr>w_sys := s\<rparr>
      | (Inr sl, s) \<Rightarrow> w\<lparr>w_sys := s, w_objs := w_objs w @ [\<lparr>so_proc = pk_target pk, so_lock = sl, so_sem = pk_sem pk, so_final = False,
            so_stray = pk_stray pk\<rparr>]\<rparr>)"
| "s_step (SFork p q) w =
     w\<lparr>w_sys := (w_sys w)\<lparr>ss_mem := (ss_mem (w_sys w))(q := ss_mem (w_sys w) p)\<rparr>, w_procs := insert q (w_procs w),
       w_objs := w_objs w @ map (\<lambda>ob. ob\<lparr>so_proc := q, so_final := False\<rparr>) (filter (\<lambda>ob. so_proc ob = p) (w_objs w))\<rparr>"
| "s_step (SCollect i) w =
     (let ob = w_objs w ! i; rest = take i (w_objs w) @ drop (Suc i) (w_objs w) in
      w\<lparr>w_objs := rest, w_sys := (if so_final ob then snd (sem_cleanup (the (sl_name (so_lock ob))) (w_sys w)) else w_sys w)\<rparr>)"

text \<open>
  What is taken for granted of a step: it names an object or a state that is there, the system gives handles that are free, a forked process is new, and
  \<open>_make_name\<close>, which draws at random, does not come upon a name that has been unlinked.
\<close>

definition free_handle :: "nat \<Rightarrow> nat \<Rightarrow> world \<Rightarrow> bool" where
  "free_handle p a w \<longleftrightarrow> ss_mem (w_sys w) p a = None"

fun allowed :: "sevent \<Rightarrow> world \<Rightarrow> bool" where
  "allowed (SCreate p fork k m names a) w \<longleftrightarrow> free_handle p a w \<and> (\<forall>i. names i \<in> w_used w \<longrightarrow> names i \<in> dom (ss_names (w_sys w)))"
| "allowed (SPickle i spawning dup) w \<longleftrightarrow> i < length (w_objs w) \<and> (\<forall>q. spawning = Some q \<longrightarrow> free_handle q dup w)"
| "allowed (SRebuild j a) w \<longleftrightarrow> j < length (w_pickles w) \<and> free_handle (pk_target (w_pickles w ! j)) a w"
| "allowed (SFork p q) w \<longleftrightarrow> q \<notin> w_procs w"
| "allowed (SCollect i) w \<longleftrightarrow> i < length (w_objs w)"

inductive world_reach :: "world \<Rightarrow> bool" where
  start: "world_reach \<lparr>w_sys = \<lparr>ss_win = win, ss_names = Map.empty, ss_mem = (\<lambda>_. Map.empty), ss_next = 0, ss_registered = []\<rparr>,
     w_objs = [], w_pickles = [], w_used = {}, w_procs = {}\<rparr>"
| step: "world_reach w \<Longrightarrow> allowed e w \<Longrightarrow> world_reach (s_step e w)"

section \<open>The invariant\<close>

definition agrees :: "semsys \<Rightarrow> nat set \<Rightarrow> nat option \<Rightarrow> nat \<Rightarrow> bool" where
  "agrees s used name g \<longleftrightarrow> (\<forall>n. name = Some n \<longrightarrow> \<not> ss_win s \<and> n \<in> used \<and> (\<forall>g'. ss_names s n = Some g' \<longrightarrow> g' = g))"

definition obj_ok :: "world \<Rightarrow> semobj \<Rightarrow> bool" where
  "obj_ok w ob \<longleftrightarrow> (\<not> so_stray ob \<longrightarrow> ss_mem (w_sys w) (so_proc ob) (sl_handle (so_lock ob)) = Some (so_sem ob)) \<and>
     (so_stray ob \<longrightarrow> \<not> ss_win (w_sys w) \<and> sl_name (so_lock ob) = None \<and> \<not> so_final ob) \<and> so_proc ob \<in> w_procs w \<and>
     agrees (w_sys w) (w_used w) (sl_name (so_lock ob)) (so_sem ob)"

definition pickle_ok :: "world \<Rightarrow> pickled \<Rightarrow> bool" where
  "pickle_ok w pk \<longleftrightarrow> pk_target pk \<in> w_procs w \<and> (case pk_state pk of (h, k, m, name) \<Rightarrow>
     agrees (w_sys w) (w_used w) name (pk_sem pk) \<and> (pk_stray pk \<longleftrightarrow> \<not> ss_win (w_sys w) \<and> name = None) \<and>
     (name = None \<longrightarrow> \<not> pk_stray pk \<longrightarrow> ss_mem (w_sys w) (pk_target pk) h = Some (pk_sem pk)))"

definition final_names :: "semobj list \<Rightarrow> nat option list" where
  "final_names obs = map (\<lambda>ob. sl_name (so_lock ob)) (filter so_final obs)"

definition names_ok :: "world \<Rightarrow> bool" where
  "names_ok w \<longleftrightarrow> dom (ss_names (w_sys w)) \<subseteq> w_used w \<and> set (ss_registered (w_sys w)) = dom (ss_names (w_sys w)) \<and>
     distinct (ss_registered (w_sys w)) \<and> mset (final_names (w_objs w)) = mset (map Some (ss_registered (w_sys w)))"

definition world_inv :: "world \<Rightarrow> bool" where
  "world_inv w \<longleftrightarrow> (\<forall>ob \<in> set (w_objs w). obj_ok w ob) \<and> (\<forall>pk \<in> set (w_pickles w). pickle_ok w pk) \<and> names_ok w"

text \<open>What stays true when handles and names are added and when names are removed.\<close>

definition grows :: "world \<Rightarrow> world \<Rightarrow> bool" where
  "grows w w' \<longleftrightarrow> ss_win (w_sys w') = ss_win (w_sys w) \<and> w_procs w \<subseteq> w_procs w' \<and> w_used w \<subseteq> w_used w' \<and>
     (\<forall>p \<in> w_procs w. ss_mem (w_sys w) p \<subseteq>\<^sub>m ss_mem (w_sys w') p) \<and>
     (\<forall>n \<in> w_used w. \<forall>g. ss_names (w_sys w') n = Some g \<longrightarrow> ss_names (w_sys w) n = Some g)"

lemma grows_agrees: "grows w w' \<Longrightarrow> agrees (w_sys w) (w_used w) name g \<Longrightarrow> agrees (w_sys w') (w_used w') name g"
  unfolding grows_def agrees_def by (metis subsetD)

lemma grows_mem:
  assumes "grows w w'" "p \<in> w_procs w" "ss_mem (w_sys w) p h = Some g"
  shows "ss_mem (w_sys w') p h = Some g"
proof -
  have "ss_mem (w_sys w) p \<subseteq>\<^sub>m ss_mem (w_sys w') p" using assms(1,2) by (simp add: grows_def)
  with assms(3) show ?thesis unfolding map_le_def by (metis domI)
qed

lemma grows_procs: "grows w w' \<Longrightarrow> p \<in> w_procs w \<Longrightarrow> p \<in> w_procs w'"
  by (auto simp: grows_def)

lemma grows_obj: "grows w w' \<Longrightarrow> obj_ok w ob \<Longrightarrow> obj_ok w' ob"
  unfolding obj_ok_def by (auto simp: grows_agrees grows_mem grows_procs) (simp_all add: grows_def)

lemma grows_pickle: "grows w w' \<Longrightarrow> pickle_ok w pk \<Longrightarrow> pickle_ok w' pk"
  unfolding pickle_ok_def by (cases "pk_state pk") (auto simp: grows_agrees grows_mem grows_procs, simp_all add: grows_def)

lemma grows_refl [simp]: "grows w w"
  by (simp add: grows_def)

lemma inv_grows:
  assumes "world_inv w" "grows w w'" "names_ok w'"
    "\<forall>ob \<in> set (w_objs w'). ob \<in> set (w_objs w) \<or> obj_ok w' ob" "\<forall>pk \<in> set (w_pickles w'). pk \<in> set (w_pickles w) \<or> pickle_ok w' pk"
  shows "world_inv w'"
  using assms grows_obj [OF assms(2)] grows_pickle [OF assms(2)] unfolding world_inv_def by blast

lemma try_names_free: "try_names create i n = Inr j \<Longrightarrow> create j = None"
  by (induction create i n rule: try_names.induct) (auto split: option.splits if_splits)

lemma make_semlock_cases:
  obtains (fails) e where "make_semlock p fork k m names a s = (Inl e, s)"
  | (unnamed) "ss_win s \<or> fork" "make_semlock p fork k m names a s =
      (Inr \<lparr>sl_handle = a, sl_kind = k, sl_max = m, sl_name = None\<rparr>, s\<lparr>ss_mem := (ss_mem s)(p := (ss_mem s p)(a \<mapsto> ss_next s)), ss_next := Suc (ss_next s)\<rparr>)"
  | (named) i where "\<not> ss_win s" "names i \<notin> dom (ss_names s)" "make_semlock p fork k m names a s =
      (Inr \<lparr>sl_handle = a, sl_kind = k, sl_max = m, sl_name = Some (names i)\<rparr>,
       s\<lparr>ss_next := Suc (ss_next s), ss_mem := (ss_mem s)(p := (ss_mem s p)(a \<mapsto> ss_next s)), ss_names := (ss_names s)(names i \<mapsto> ss_next s),
         ss_registered := ss_registered s @ [names i]\<rparr>)"
proof -
  let ?t = "if ss_win s then Inr 0 else try_names (\<lambda>i. if names i \<in> dom (ss_names s) then Some (OSError EEXIST) else None) 0 100"
  show thesis
  proof (cases ?t)
    case (Inl e)
    then show thesis by (intro fails [of e]) (simp add: make_semlock_def act_defs)
  next
    case (Inr i)
    show thesis
    proof (cases "ss_win s \<or> fork")
      case True
      with Inr show thesis by (intro unnamed) (simp_all add: make_semlock_def map_handle_def act_defs Let_def)
    next
      case False
      with Inr have "try_names (\<lambda>i. if names i \<in> dom (ss_names s) then Some (OSError EEXIST) else None) 0 100 = Inr i" by simp
      from try_names_free [OF this] have "names i \<notin> dom (ss_names s)" by (simp split: if_splits)
      with Inr False show thesis by (intro named) (simp_all add: make_semlock_def map_handle_def act_defs Let_def)
    qed
  qed
qed

lemma final_names_append [simp]: "final_names (xs @ ys) = final_names xs @ final_names ys"
  by (simp add: final_names_def)

lemma create_inv:
  assumes inv: "world_inv w" and ok: "allowed (SCreate p fork k m names a) w"
  shows "world_inv (s_step (SCreate p fork k m names a) w)"
proof (cases rule: make_semlock_cases [of p fork k m names a "w_sys w"])
  case (fails e)
  then show ?thesis using inv by simp
next
  case unnamed
  show ?thesis
  proof (rule inv_grows [OF inv])
    show "grows w (s_step (SCreate p fork k m names a) w)"
      using unnamed ok by (auto simp: grows_def map_le_def free_handle_def)
    show "names_ok (s_step (SCreate p fork k m names a) w)"
      using unnamed inv by (simp add: world_inv_def names_ok_def final_names_def)
  qed (use unnamed in \<open>auto simp: obj_ok_def agrees_def\<close>)
next
  case (named i)
  have n: "names i \<notin> w_used w" using named(2) ok by auto
  show ?thesis
  proof (rule inv_grows [OF inv])
    show "grows w (s_step (SCreate p fork k m names a) w)"
      using named ok n by (auto simp: grows_def map_le_def free_handle_def)
    have "names_ok w" using inv by (simp add: world_inv_def)
    then show "names_ok (s_step (SCreate p fork k m names a) w)"
      using named n by (auto simp: names_ok_def final_names_def)
  qed (use named in \<open>auto simp: obj_ok_def agrees_def\<close>)
qed

lemma pickle_inv:
  assumes inv: "world_inv w" and ok: "allowed (SPickle i spawning dup) w"
  shows "world_inv (s_step (SPickle i spawning dup) w)"
proof (cases spawning)
  case None
  then show ?thesis using inv by (simp add: sem_getstate_def raise_def Let_def)
next
  case (Some q)
  let ?ob = "w_objs w ! i"
  have ob: "obj_ok w ?ob" using inv ok by (simp add: world_inv_def)
  have names: "names_ok w" using inv by (simp add: world_inv_def)
  show ?thesis
  proof (rule inv_grows [OF inv])
    show "grows w (s_step (SPickle i spawning dup) w)"
      using ob ok Some by (auto simp: grows_def sem_getstate_def act_defs map_handle_def Let_def obj_ok_def map_le_def free_handle_def)
    show "names_ok (s_step (SPickle i spawning dup) w)"
      using names Some by (cases "ss_win (w_sys w)"; cases "ss_mem (w_sys w) (so_proc ?ob) (sl_handle (so_lock ?ob))")
        (simp_all add: names_ok_def sem_getstate_def act_defs map_handle_def Let_def)
  qed (use ob ok Some in \<open>auto simp: sem_getstate_def act_defs map_handle_def Let_def obj_ok_def pickle_ok_def agrees_def\<close>)
qed

lemma rebuild_inv:
  assumes inv: "world_inv w" and ok: "allowed (SRebuild j a) w"
  shows "world_inv (s_step (SRebuild j a) w)"
proof -
  let ?pk = "w_pickles w ! j"
  obtain h k m name where st: "pk_state ?pk = (h, k, m, name)" by (cases "pk_state ?pk")
  have pk: "pickle_ok w ?pk" using inv ok by (simp add: world_inv_def)
  have names: "names_ok w" using inv by (simp add: world_inv_def)
  show ?thesis
  proof (cases "name = None \<or> (\<exists>n g. name = Some n \<and> ss_names (w_sys w) n = Some g)")
    case False
    with st pk inv show ?thesis
      by (cases name) (simp_all add: sem_setstate_def act_defs Let_def pickle_ok_def agrees_def)
  next
    case True
    show ?thesis
    proof (rule inv_grows [OF inv])
      show "grows w (s_step (SRebuild j a) w)"
        using True pk ok st by (auto simp: grows_def sem_setstate_def act_defs map_handle_def Let_def map_le_def free_handle_def pickle_ok_def agrees_def)
      show "names_ok (s_step (SRebuild j a) w)"
        using True names st pk
        by (elim disjE exE conjE) (simp_all add: names_ok_def sem_setstate_def act_defs map_handle_def Let_def final_names_def pickle_ok_def agrees_def)
    qed (use True pk st in \<open>auto simp: sem_setstate_def act_defs map_handle_def Let_def obj_ok_def pickle_ok_def agrees_def\<close>)
  qed
qed

lemma fork_inv:
  assumes inv: "world_inv w" and ok: "allowed (SFork p q) w"
  shows "world_inv (s_step (SFork p q) w)"
proof (rule inv_grows [OF inv])
  show "grows w (s_step (SFork p q) w)" using ok by (auto simp: grows_def)
  have "filter so_final (map (\<lambda>ob. ob\<lparr>so_proc := q, so_final := False\<rparr>) obs) = []" for obs by (induction obs) auto
  then show "names_ok (s_step (SFork p q) w)" using inv by (simp add: world_inv_def names_ok_def final_names_def)
qed (use inv in \<open>auto simp: world_inv_def obj_ok_def agrees_def\<close>)

lemma final_names_drop:
  assumes "i < length obs"
  shows "mset (final_names obs) = mset (final_names (take i obs @ drop (Suc i) obs)) +
    (if so_final (obs ! i) then {#sl_name (so_lock (obs ! i))#} else {#})"
proof -
  have "final_names obs = final_names (take i obs @ obs ! i # drop (Suc i) obs)" using assms by (simp add: id_take_nth_drop [symmetric])
  then show ?thesis by (simp add: final_names_def)
qed

text \<open>The finalizer finds the name it unlinks.\<close>

lemma final_has_name:
  assumes "names_ok w" "ob \<in> set (w_objs w)" "so_final ob"
  obtains n where "sl_name (so_lock ob) = Some n" "n \<in> dom (ss_names (w_sys w))"
proof -
  have "sl_name (so_lock ob) \<in># mset (final_names (w_objs w))" using assms(2,3) by (auto simp: final_names_def)
  with assms(1) show thesis using that by (auto simp: names_ok_def)
qed

lemma collect_inv:
  assumes inv: "world_inv w" and ok: "allowed (SCollect i) w"
  shows "world_inv (s_step (SCollect i) w)"
proof -
  let ?ob = "w_objs w ! i"
  have names: "names_ok w" and mem: "?ob \<in> set (w_objs w)" using inv ok by (simp_all add: world_inv_def)
  have sub: "set (take i (w_objs w) @ drop (Suc i) (w_objs w)) \<subseteq> set (w_objs w)" by (auto dest: in_set_takeD in_set_dropD)
  show ?thesis
  proof (cases "so_final ?ob")
    case False
    show ?thesis
    proof (rule inv_grows [OF inv])
      show "names_ok (s_step (SCollect i) w)"
        using names False final_names_drop [of i "w_objs w"] ok by (simp add: names_ok_def Let_def)
      show "\<forall>ob \<in> set (w_objs (s_step (SCollect i) w)). ob \<in> set (w_objs w) \<or> obj_ok (s_step (SCollect i) w) ob" using sub by (auto simp: Let_def)
    qed (use False in \<open>simp_all add: grows_def Let_def\<close>)
  next
    case True
    obtain n where n: "sl_name (so_lock ?ob) = Some n" "n \<in> dom (ss_names (w_sys w))"
      using final_has_name [OF names mem True] .
    show ?thesis
    proof (rule inv_grows [OF inv])
      show "grows w (s_step (SCollect i) w)"
        using n True by (auto simp: grows_def Let_def sem_cleanup_def act_defs split: if_splits)
      show "names_ok (s_step (SCollect i) w)"
        using names True n final_names_drop [of i "w_objs w"] ok
        by (auto simp: names_ok_def Let_def sem_cleanup_def act_defs mset_remove1 image_mset_Diff)
      show "\<forall>ob \<in> set (w_objs (s_step (SCollect i) w)). ob \<in> set (w_objs w) \<or> obj_ok (s_step (SCollect i) w) ob" using sub by (auto simp: Let_def)
    qed (simp add: Let_def)
  qed
qed

lemma reach_inv: "world_reach w \<Longrightarrow> world_inv w"
proof (induction rule: world_reach.induct)
  case (start win)
  then show ?case by (simp add: world_inv_def names_ok_def final_names_def)
next
  case (step w e)
  then show ?case
    by (cases e) (blast intro: create_inv pickle_inv rebuild_inv fork_inv collect_inv)+
qed

section \<open>What the users get\<close>

definition w0 :: world where
  "w0 = \<lparr>w_sys = \<lparr>ss_win = False, ss_names = Map.empty, ss_mem = (\<lambda>_. Map.empty), ss_next = 0, ss_registered = []\<rparr>,
     w_objs = [], w_pickles = [], w_used = {}, w_procs = {}\<rparr>"

lemma first_name: "try_names (\<lambda>_. None) 0 100 = Inr 0"
  by (simp add: numeral_eq_Suc)



text \<open>Rebuilding keeps kind, maximum and name, and fails only where the name has been unlinked in the meantime: pickling a lock does not keep it alive.\<close>

lemma rebuild_exact:
  "fst (sem_setstate q a (h, k, m, name) s) =
     (if \<not> ss_win s \<and> (\<exists>n. name = Some n \<and> ss_names s n = None) then Inl (OSError ENOENT)
      else Inr \<lparr>sl_handle = (if \<not> ss_win s \<and> name \<noteq> None then a else h), sl_kind = k, sl_max = m, sl_name = name\<rparr>)"
  by (cases name) (auto simp: sem_setstate_def map_handle_def act_defs)

lemma collected_too_early:
  "let w = fold s_step [SCreate 0 False SEMAPHORE 1 (\<lambda>i. i) 7, SPickle 0 (Some 1) 0, SCollect 0] w0
   in fst (sem_setstate 1 9 (pk_state (w_pickles w ! 0)) (w_sys w)) = Inl (OSError ENOENT)"
  by (simp add: w0_def sem_name_defs act_defs Let_def first_name)

text \<open>
  A lock of the context \<open>fork\<close> has no name: given to a process that is spawned, its address is taken over as it is, and stands for nothing there, or for another semaphore.
\<close>

lemma nameless_lock_spawned:
  "let w = fold s_step [SCreate 0 True SEMAPHORE 1 (\<lambda>i. i) 7, SPickle 0 (Some 1) 0, SRebuild 0 9] w0; ob = w_objs w ! 1
   in so_stray ob \<and> so_proc ob = 1 \<and> ss_mem (w_sys w) 1 (sl_handle (so_lock ob)) = None"
  "let w = fold s_step [SCreate 0 True SEMAPHORE 1 (\<lambda>i. i) 7, SCreate 1 True SEMAPHORE 1 (\<lambda>i. i) 7, SPickle 0 (Some 1) 0, SRebuild 0 9] w0; ob = w_objs w ! 2
   in so_stray ob \<and> so_proc ob = 1 \<and> so_sem ob = 0 \<and> ss_mem (w_sys w) 1 (sl_handle (so_lock ob)) = Some 1"
  by (simp_all add: w0_def sem_name_defs act_defs Let_def first_name)

end
