(* ===== verification/Windows_Pipe.thy ===== *)
theory Windows_Pipe
  imports Windows_Connection
begin

text \<open>
  \<open>Pipe\<close> of \<open>billiard/connection.py\<close> for Windows: the two ends of a named pipe, what their handles may do, and the handles that stay open when a call fails.
\<close>

section \<open>Named pipes\<close>

text \<open>
  The handles of this process that are open, each with its rights to read and to write, and the mode with which the pipe was made. A call of the system may
  fail; \<open>CreateFile\<close> is refused a right to which the other end has no counterpart.
\<close>

definition PIPE_ACCESS_INBOUND :: nat where "PIPE_ACCESS_INBOUND = 1"
definition PIPE_ACCESS_OUTBOUND :: nat where "PIPE_ACCESS_OUTBOUND = 2"
definition PIPE_ACCESS_DUPLEX :: nat where "PIPE_ACCESS_DUPLEX = 3"
definition FILE_FLAG_OVERLAPPED :: nat where "FILE_FLAG_OVERLAPPED = 0x40000000"
definition FILE_FLAG_FIRST_PIPE_INSTANCE :: nat where "FILE_FLAG_FIRST_PIPE_INSTANCE = 0x80000"
definition GENERIC_READ :: nat where "GENERIC_READ = 0x80000000"
definition GENERIC_WRITE :: nat where "GENERIC_WRITE = 0x40000000"
definition ERROR_ACCESS_DENIED :: int where "ERROR_ACCESS_DENIED = 5"

lemmas pipe_constants = PIPE_ACCESS_INBOUND_def PIPE_ACCESS_OUTBOUND_def PIPE_ACCESS_DUPLEX_def FILE_FLAG_OVERLAPPED_def
  FILE_FLAG_FIRST_PIPE_INSTANCE_def GENERIC_READ_def GENERIC_WRITE_def

datatype pcall = PCreate | POpen | PSetState | PConnect | PResult

record wpipes =
  wp_open :: "nat \<rightharpoonup> bool \<times> bool"
  wp_next :: nat
  wp_mode :: nat

definition pcall :: "(pcall \<Rightarrow> exn option) \<Rightarrow> pcall \<Rightarrow> (wpipes, unit) act" where
  "pcall env c = (case env c of Some e \<Rightarrow> raise e | None \<Rightarrow> ret ())"

definition open_handle :: "bool \<Rightarrow> bool \<Rightarrow> (wpipes, nat) act" where
  "open_handle r w = readA (\<lambda>s.
     bindA (modifyA (\<lambda>s. s\<lparr>wp_open := (wp_open s)(wp_next s \<mapsto> (r, w)), wp_next := Suc (wp_next s)\<rparr>)) (\<lambda>_. ret (wp_next s)))"

definition CreateNamedPipe :: "(pcall \<Rightarrow> exn option) \<Rightarrow> nat \<Rightarrow> (wpipes, nat) act" where
  "CreateNamedPipe env mode =
     bindA (pcall env PCreate) (\<lambda>_. bindA (modifyA (\<lambda>s. s\<lparr>wp_mode := mode\<rparr>)) (\<lambda>_.
       open_handle (mode AND PIPE_ACCESS_INBOUND \<noteq> 0) (mode AND PIPE_ACCESS_OUTBOUND \<noteq> 0)))"

definition CreateFile :: "(pcall \<Rightarrow> exn option) \<Rightarrow> nat \<Rightarrow> (wpipes, nat) act" where
  "CreateFile env access =
     bindA (pcall env POpen) (\<lambda>_.
     bindA (assertA (\<lambda>s. (access AND GENERIC_READ = 0 \<or> wp_mode s AND PIPE_ACCESS_OUTBOUND \<noteq> 0) \<and>
         (access AND GENERIC_WRITE = 0 \<or> wp_mode s AND PIPE_ACCESS_INBOUND \<noteq> 0)) (OSError ERROR_ACCESS_DENIED)) (\<lambda>_.
       open_handle (access AND GENERIC_READ \<noteq> 0) (access AND GENERIC_WRITE \<noteq> 0)))"

definition connection_of :: "nat \<Rightarrow> bool \<Rightarrow> bool \<Rightarrow> (wpipes, wconn) act" where
  "connection_of h readable writable = (case new_wconn (int h) readable writable of Inl e \<Rightarrow> raise e | Inr c \<Rightarrow> ret c)"

section \<open>Pipe\<close>

text \<open>\<open>err\<close> is the second result of \<open>GetOverlappedResult\<close>.\<close>

definition win_Pipe :: "(pcall \<Rightarrow> exn option) \<Rightarrow> int \<Rightarrow> bool \<Rightarrow> bool \<Rightarrow> bool \<Rightarrow> (wpipes, wconn \<times> wconn) act" where
  "win_Pipe env err duplex rnonblock wnonblock =
     bindA (assertA (\<lambda>_. \<not> rnonblock) AssertionError) (\<lambda>_.
     bindA (assertA (\<lambda>_. \<not> wnonblock) AssertionError) (\<lambda>_.
     let openmode = (if duplex then PIPE_ACCESS_DUPLEX else PIPE_ACCESS_INBOUND);
         access = (if duplex then GENERIC_READ OR GENERIC_WRITE else GENERIC_WRITE)
     in bindA (CreateNamedPipe env (openmode OR FILE_FLAG_OVERLAPPED OR FILE_FLAG_FIRST_PIPE_INSTANCE)) (\<lambda>h1.
        bindA (CreateFile env access) (\<lambda>h2.
        bindA (pcall env PSetState) (\<lambda>_.
        bindA (pcall env PConnect) (\<lambda>_.
        bindA (pcall env PResult) (\<lambda>_.
        bindA (assertA (\<lambda>_. err = 0) AssertionError) (\<lambda>_.
        bindA (connection_of h1 True duplex) (\<lambda>c1.
        bindA (connection_of h2 duplex True) (\<lambda>c2. ret (c1, c2)))))))))))"

text \<open>What the system allows of the two ends.\<close>

lemma mode_rights:
  "((if duplex then PIPE_ACCESS_DUPLEX else PIPE_ACCESS_INBOUND) OR FILE_FLAG_OVERLAPPED OR FILE_FLAG_FIRST_PIPE_INSTANCE) AND PIPE_ACCESS_INBOUND \<noteq> 0"
  "(((if duplex then PIPE_ACCESS_DUPLEX else PIPE_ACCESS_INBOUND) OR FILE_FLAG_OVERLAPPED OR FILE_FLAG_FIRST_PIPE_INSTANCE) AND PIPE_ACCESS_OUTBOUND \<noteq> 0) = duplex"
  by (cases duplex; simp add: pipe_constants)+

lemma access_rights:
  "((if duplex then GENERIC_READ OR GENERIC_WRITE else GENERIC_WRITE) AND GENERIC_READ \<noteq> 0) = duplex"
  "(if duplex then GENERIC_READ OR GENERIC_WRITE else GENERIC_WRITE) AND GENERIC_WRITE \<noteq> 0"
  by (cases duplex; simp add: pipe_constants)+

text \<open>
  When no call fails, each connection may be read and written exactly as its handle may: what one end can send the other can receive, and only a duplex pipe
  has the second direction.
\<close>

theorem pipe_ends_match:
  assumes "\<And>c. env c = None"
  obtains c1 c2 h1 h2 s' where "win_Pipe env 0 duplex False False s = (Inr (c1, c2), s')"
    "wc_handle c1 = Some (int h1)" "wc_handle c2 = Some (int h2)" "h1 \<noteq> h2"
    "wp_open s' h1 = Some (wc_readable c1, wc_writable c1)" "wp_open s' h2 = Some (wc_readable c2, wc_writable c2)"
    "wc_readable c1" "wc_writable c2" "wc_writable c1 \<longleftrightarrow> duplex" "wc_readable c2 \<longleftrightarrow> duplex"
    "\<And>h. h \<noteq> h1 \<Longrightarrow> h \<noteq> h2 \<Longrightarrow> wp_open s' h = wp_open s h"
proof -
  let ?h1 = "wp_next s" and ?h2 = "Suc (wp_next s)"
  let ?c = "\<lambda>h r w. \<lparr>pe_msgs = [], pe_gone = False, wc_handle = Some (int h), wc_readable = r, wc_writable = w, wc_got_empty = False\<rparr>"
  show thesis
  proof (rule that [of "?c ?h1 True duplex" "?c ?h2 duplex True" "s\<lparr>wp_open := (wp_open s)(?h1 \<mapsto> (True, duplex), ?h2 \<mapsto> (duplex, True)),
      wp_next := Suc ?h2, wp_mode := (if duplex then PIPE_ACCESS_DUPLEX else PIPE_ACCESS_INBOUND) OR FILE_FLAG_OVERLAPPED OR FILE_FLAG_FIRST_PIPE_INSTANCE\<rparr>" ?h1 ?h2])
    show "win_Pipe env 0 duplex False False s = (Inr (?c ?h1 True duplex, ?c ?h2 duplex True),
        s\<lparr>wp_open := (wp_open s)(?h1 \<mapsto> (True, duplex), ?h2 \<mapsto> (duplex, True)), wp_next := Suc ?h2,
          wp_mode := (if duplex then PIPE_ACCESS_DUPLEX else PIPE_ACCESS_INBOUND) OR FILE_FLAG_OVERLAPPED OR FILE_FLAG_FIRST_PIPE_INSTANCE\<rparr>)"
      using mode_rights [of duplex] access_rights [of duplex]
      by (simp add: win_Pipe_def CreateNamedPipe_def CreateFile_def open_handle_def pcall_def connection_of_def new_wconn_def act_defs Let_def assms)
  qed auto
qed

text \<open>The handles that a failing call leaves open: nobody closes them.\<close>

lemma failed_pipe_leaves:
  assumes "wp_open s = Map.empty" "env PCreate = None"
  shows "env POpen = Some e \<Longrightarrow> fst (win_Pipe env err duplex False False s) = Inl e \<and> dom (wp_open (snd (win_Pipe env err duplex False False s))) = {wp_next s}"
    "env POpen = None \<Longrightarrow> env PSetState = Some e \<or> env PSetState = None \<and> (env PConnect = Some e \<or> env PConnect = None \<and> env PResult = Some e) \<Longrightarrow>
      fst (win_Pipe env err duplex False False s) = Inl e \<and> dom (wp_open (snd (win_Pipe env err duplex False False s))) = {wp_next s, Suc (wp_next s)}"
  using assms mode_rights [of duplex] access_rights [of duplex]
  by (auto simp: win_Pipe_def CreateNamedPipe_def CreateFile_def open_handle_def pcall_def act_defs Let_def split: if_splits)

end
