(* ===== verification/Dispatch.thy ===== *)
theory Dispatch
  imports Timeout_Handler
begin

text \<open>
  How work enters a pool, from \<open>billiard/pool.py\<close>: the constructor, \<open>apply_async\<close>, \<open>map_async\<close>,
  \<open>imap\<close> and \<open>imap_unordered\<close>, the cutting of the input in chunks, and the task handler thread.

  \<^item> An entry of the task queue is a sequence of tasks, the exception its generator raises after
    them if any, and the job that is told the number of tasks (\<open>set_length\<close>).
  \<^item> An iterable is the list of its elements and the exception it raises after them, if any.
  \<^item> \<open>putf t\<close> is the exception of writing task \<open>t\<close> to the pipe (\<open>OSError\<close> for \<open>IOError\<close>).
\<close>

section \<open>The constructor\<close>

datatype parg = ANone | ABool bool | AInt int | AFloat int

record popts =
  po_processes :: parg
  po_maxtasksperchild :: parg
  po_timeout :: parg
  po_soft_timeout :: parg
  po_lost_worker_timeout :: parg
  po_max_memory_per_child :: parg
  po_max_restarts :: parg
  po_max_restart_freq :: parg
  po_initializer_ok :: bool      \<comment> \<open>\<open>initializer\<close> is \<open>None\<close> or callable\<close>
  po_on_exit_ok :: bool

fun is_bool :: "parg \<Rightarrow> bool" where
  "is_bool (ABool _) = True"
| "is_bool _ = False"

definition parg_int :: "parg \<Rightarrow> int option" where
  "parg_int a = (case a of AInt n \<Rightarrow> Some n | _ \<Rightarrow> None)"

definition negative :: "parg \<Rightarrow> bool" where
  "negative a = (case a of AInt n \<Rightarrow> n < 0 | AFloat n \<Rightarrow> n < 0 | _ \<Rightarrow> False)"

definition check_options :: "popts \<Rightarrow> exn option" where
  "check_options po =
     (if list_ex is_bool [po_processes po, po_maxtasksperchild po, po_timeout po, po_soft_timeout po,
           po_lost_worker_timeout po, po_max_memory_per_child po, po_max_restarts po, po_max_restart_freq po]
        then Some TypeError
      else if negative (po_processes po) then Some ValueError
      else if po_maxtasksperchild po \<noteq> ANone \<and>
              (case po_maxtasksperchild po of AInt n \<Rightarrow> n < 1 | _ \<Rightarrow> True) then Some ValueError
      else None)"

definition blank_pool :: "int \<Rightarrow> restart_state \<Rightarrow> pool" where
  "blank_pool n lim = \<lparr>objs = Map.empty, pcache = [], ptrace = [], job_counter = 0, worker_procs = [], processes = n,
     poolctrl = [], counters = Map.empty, worker_tasks = Map.empty, task_workers = Map.empty,
     putlock = \<lparr>ls_value = n, ls_initial = n\<rparr>, limiters = (\<lambda>_. lim), cur_limiter = False, rh_limiter = False,
     pstatus = RUN, sv_state = RUN, th_state = RUN, rh_state = RUN, to_state = RUN, rh_iter = None,
     taskqueue = [], inqueue = [], outq_sentinels = 0\<rparr>"

text \<open>
  The constructor up to the start of the workers; \<open>cpus\<close> is \<open>os.cpu_count()\<close>, or \<open>None\<close> when it is
  not implemented. The attribute \<open>max_restarts\<close> gets a default, the limiter does not.
\<close>

definition pool_processes :: "popts \<Rightarrow> int option \<Rightarrow> int" where
  "pool_processes po cpus = (case po_processes po of AInt n \<Rightarrow> n | _ \<Rightarrow> (case cpus of None \<Rightarrow> 1 | Some n \<Rightarrow> n))"

definition pool_limiter :: "popts \<Rightarrow> restart_state" where
  "pool_limiter po = restart_state_init (parg_int (po_max_restarts po))
     (case parg_int (po_max_restart_freq po) of None \<Rightarrow> 1 | Some n \<Rightarrow> if n = 0 then 1 else n)"

definition pool_max_restarts :: "popts \<Rightarrow> int option \<Rightarrow> int" where
  "pool_max_restarts po cpus =
     (if truthy (parg_int (po_max_restarts po)) then the (parg_int (po_max_restarts po))
      else pool_processes po cpus * 100)"

definition pool_init :: "pconf \<Rightarrow> popts \<Rightarrow> int option \<Rightarrow> exn + pool" where
  "pool_init c po cpus =
     (case check_options po of Some e \<Rightarrow> Inl e
      | None \<Rightarrow>
         if \<not> po_initializer_ok po \<or> \<not> po_on_exit_ok po then Inl TypeError
         else
           (case forA (map int [0 ..< nat (pool_processes po cpus)]) (create_worker_process c)
                   (blank_pool (pool_processes po cpus) (pool_limiter po)) of
              (Inl e, _) \<Rightarrow> Inl e | (Inr _, p) \<Rightarrow> Inr p))"

section \<open>Cutting the input\<close>

text \<open>
  \<open>_get_tasks\<close>: \<open>tuple(islice(it, size))\<close> until it is empty. A chunk during which the iterable
  raises is lost.
\<close>

function chunks_of :: "nat \<Rightarrow> 'a list \<Rightarrow> 'a list list" where
  "chunks_of c xs = (if c = 0 \<or> xs = [] then [] else take c xs # chunks_of c (drop c xs))"
  by pat_completeness auto
termination by (relation "measure (\<lambda>(c, xs). length xs)") auto

declare chunks_of.simps [simp del]

definition get_tasks :: "int \<Rightarrow> 'a list \<Rightarrow> exn option \<Rightarrow> 'a list list \<times> exn option" where
  "get_tasks sz it err =
     (if sz < 0 then ([], Some ValueError)
      else if sz = 0 then ([], None)
      else (case err of
          None \<Rightarrow> (chunks_of (nat sz) it, None)
        | Some e \<Rightarrow> (filter (\<lambda>x. length x = nat sz) (chunks_of (nat sz) it), Some e)))"

section \<open>Submitting jobs\<close>

record dconf =
  dc_timeout :: "int option"
  dc_soft_timeout :: "int option"
  dc_lost_worker_timeout :: int
  dc_threads :: bool
  dc_putlocks :: bool
  dc_synack :: bool
  dc_on_timeout_set :: "exn option option"
  dc_on_timeout_cancel :: "exn option option"

record apply_args =
  aa_work :: work
  aa_callback :: "(pyval \<Rightarrow> exn option) option"
  aa_error_callback :: "(pyval \<Rightarrow> exn option) option"
  aa_accept_callback :: "(int \<Rightarrow> int \<Rightarrow> exn option) option"
  aa_timeout_callback :: "(bool \<Rightarrow> int option \<Rightarrow> exn option) option"
  aa_waitforslot :: "bool option"
  aa_soft_timeout :: "int option"
  aa_timeout :: "int option"
  aa_lost_worker_timeout :: "int option"
  aa_callbacks_propagate :: "exn list"

definition or_else :: "int option \<Rightarrow> int option \<Rightarrow> int option" where
  "or_else x d = (if truthy x then x else d)"

definition new_job :: "(nat \<Rightarrow> job) \<Rightarrow> (pool, nat) act" where
  "new_job mk p = (let k = job_counter p in
     (Inr k, p\<lparr>job_counter := k + 1, objs := (objs p)(k \<mapsto> mk k), pcache := cache_add k (pcache p)\<rparr>))"

definition put_tasks :: "task list \<Rightarrow> exn option \<Rightarrow> nat option \<Rightarrow> (pool, unit) act" where
  "put_tasks ts err set_length = modifyA (\<lambda>p. p\<lparr>taskqueue := taskqueue p @ [Some (ts, err, set_length)]\<rparr>)"

definition acquire_slot :: "(pool, unit) act" where
  "acquire_slot p = (let (r, l) = ls_acquire (putlock p) in (r, p\<lparr>putlock := l\<rparr>))"

definition put_task :: "(task \<Rightarrow> exn option) \<Rightarrow> task \<Rightarrow> (pool, unit) act" where
  "put_task putf t = (case putf t of Some e \<Rightarrow> raise e | None \<Rightarrow> modifyA (\<lambda>p. p\<lparr>inqueue := inqueue p @ [t]\<rparr>))"

definition apply_async :: "dconf \<Rightarrow> (task \<Rightarrow> exn option) \<Rightarrow> apply_args \<Rightarrow> (pool, nat option) act" where
  "apply_async d putf a = readA (\<lambda>p.
     if pstatus p \<noteq> RUN then ret None
     else
       bindA (whenA (case aa_waitforslot a of None \<Rightarrow> dc_putlocks d | Some b \<Rightarrow> b) acquire_slot) (\<lambda>_.
       bindA (new_job (\<lambda>k. AR (ApplyResult k (aa_callback a) (aa_accept_callback a) (aa_timeout_callback a)
                (aa_error_callback a) (or_else (aa_soft_timeout a) (dc_soft_timeout d))
                (or_else (aa_timeout a) (dc_timeout d))
                (the (or_else (aa_lost_worker_timeout a) (Some (dc_lost_worker_timeout d))))
                (dc_on_timeout_set d) (dc_on_timeout_cancel d) (aa_callbacks_propagate a) (dc_synack d)))) (\<lambda>k.
       bindA (if dc_threads d then put_tasks [Task (JobReq TASK k None (aa_work a))] None None
              else put_task putf (Task (JobReq TASK k None (aa_work a)))) (\<lambda>_.
       ret (Some k)))))"

fun numbered :: "nat \<Rightarrow> nat \<Rightarrow> work list \<Rightarrow> task list" where
  "numbered k i [] = []"
| "numbered k i (w # ws) = Task (JobReq TASK k (Some i) w) # numbered k (i + 1) ws"

text \<open>
  \<open>_map_async\<close> over the elements \<open>xs\<close>, the iterable already turned into a list; \<open>mapper f c\<close> is
  \<open>Mapstar\<close> or \<open>Starmapstar\<close>. The default chunk size divides by four times the number of workers
  there are at the moment.
\<close>

definition default_chunksize :: "nat \<Rightarrow> nat \<Rightarrow> exn + int" where
  "default_chunksize n workers =
     (if workers = 0 then Inl ZeroDivisionError
      else Inr (int (n div (workers * 4) + (if n mod (workers * 4) \<noteq> 0 then 1 else 0))))"

definition map_async :: "(pyval list \<Rightarrow> work) \<Rightarrow> pyval list \<Rightarrow> exn option \<Rightarrow> int option
    \<Rightarrow> (pyval \<Rightarrow> exn option) option \<Rightarrow> (pyval \<Rightarrow> exn option) option \<Rightarrow> (pool, nat option) act" where
  "map_async mapper xs err chunksize callback error_callback = readA (\<lambda>p.
     if pstatus p \<noteq> RUN then ret None
     else (case err of Some e \<Rightarrow> raise e | None \<Rightarrow>
       (case (case chunksize of Some c \<Rightarrow> Inr c | None \<Rightarrow> default_chunksize (length xs) (length (worker_procs p))) of
          Inl e \<Rightarrow> raise e
        | Inr c0 \<Rightarrow>
           let c = (if xs = [] then 0 else c0);
               k = job_counter p;
               (r, cache') = MapResult k (pcache p) c (length xs) callback error_callback;
               (cs, e) = get_tasks c xs None
           in bindA (modifyA (\<lambda>p. p\<lparr>job_counter := k + 1, objs := (objs p)(k \<mapsto> MR r), pcache := cache'\<rparr>)) (\<lambda>_.
              bindA (put_tasks (numbered k 0 (map mapper cs)) e None) (\<lambda>_. ret (Some k))))))"

definition imap :: "bool \<Rightarrow> dconf \<Rightarrow> nat \<Rightarrow> pyval list \<Rightarrow> exn option \<Rightarrow> int \<Rightarrow> int option \<Rightarrow> (pool, nat option) act" where
  "imap unordered d f xs err chunksize lost_worker_timeout = readA (\<lambda>p.
     if pstatus p \<noteq> RUN then ret None
     else if chunksize < 1 then raise ValueError
     else
       let lwt = the (or_else lost_worker_timeout (Some (dc_lost_worker_timeout d)));
           (ws, e) = (if chunksize = 1 then (map (Call f) xs, err)
                      else (case get_tasks chunksize xs err of (cs, e) \<Rightarrow> (map (Mapstar f) cs, e)))
       in bindA (new_job (\<lambda>k. (if unordered then IMU else IM) (IMapIterator k lwt))) (\<lambda>k.
          bindA (put_tasks (numbered k 0 ws) e (Some k)) (\<lambda>_. ret (Some k))))"

section \<open>The task handler\<close>

definition call_set_length :: "nat option \<Rightarrow> nat \<Rightarrow> (pool, unit) act" where
  "call_set_length sl n = (case sl of None \<Rightarrow> ret ()
     | Some k \<Rightarrow> readA (\<lambda>p. case objs p k of
           Some (IM j) \<Rightarrow> with_obj k IM j (im_set_length n)
         | Some (IMU j) \<Rightarrow> with_obj k IMU j (im_set_length n)
         | _ \<Rightarrow> raise AttributeError))"

text \<open>
  A task that cannot be written. The code unpacks \<open>job, ind = task[:2]\<close> from \<open>(TASK, args)\<close>, so
  \<open>job\<close> is the constant \<open>TASK\<close> and \<open>ind\<close> the tuple of the arguments: the job of that number
  is failed if it is in the cache. A tuple equals no index, as \<open>None\<close> does here.
\<close>

definition fail_task :: "exn \<Rightarrow> (pool, unit) act" where
  "fail_task e = catchA
     (bindA (fetchA (\<lambda>p. cached p TASK) KeyError) (\<lambda>_.
        job_set TASK None (False, PEinfo (ExceptionWithTraceback e))))
     (\<lambda>x. if x = KeyError then ret () else raise x)"

text \<open>
  The loop over one sequence, with \<open>n\<close> tasks read before: it ends after all tasks, at a
  \<open>break\<close>, or with an exception in the \<open>try\<close> block when so many tasks had been read.
\<close>

datatype seq_end = Complete nat | Broken | Failed nat exn

fun put_seq :: "(task \<Rightarrow> exn option) \<Rightarrow> nat \<Rightarrow> task list \<Rightarrow> exn option \<Rightarrow> (pool, seq_end) act" where
  "put_seq putf n [] err = (case err of None \<Rightarrow> ret (Complete n) | Some e \<Rightarrow> if is_Exception e then ret (Failed n e) else raise e)"
| "put_seq putf n (t # ts) err = readA (\<lambda>p.
     if th_state p \<noteq> RUN then ret Broken
     else (case put_task putf t p of
         (Inr _, p') \<Rightarrow> (\<lambda>_. put_seq putf (n + 1) ts err p')
       | (Inl e, p') \<Rightarrow>
           (case e of OSError _ \<Rightarrow> ret Broken
            | _ \<Rightarrow> if \<not> is_Exception e then raise e
                 else (\<lambda>_. case fail_task e p' of
                     (Inr _, p'') \<Rightarrow> put_seq putf (n + 1) ts err p''
                   | (Inl x, p'') \<Rightarrow> (if is_Exception x then ret (Failed (n + 1) x) else raise x) p''))))"

text \<open>
  The outer \<open>except\<close> clause: with no task read yet it looks at job 0; otherwise the index is a
  tuple, to which 1 cannot be added. \<open>n\<close> is the number of tasks read.
\<close>

definition seq_failed :: "nat \<Rightarrow> nat option \<Rightarrow> exn \<Rightarrow> (pool, unit) act" where
  "seq_failed n sl e = readA (\<lambda>p.
     bindA (if n = 0 then whenA (0 \<in> set (pcache p)) (job_set 0 (Some 1) (False, PEinfo (ExceptionWithTraceback e)))
            else if TASK \<in> set (pcache p) then raise TypeError else ret ()) (\<lambda>_.
     call_set_length sl n))"

fun tell_workers :: "(task \<Rightarrow> exn option) \<Rightarrow> nat \<Rightarrow> (pool, unit) act" where
  "tell_workers putf 0 = ret ()"
| "tell_workers putf (Suc n) = bindA (put_task putf Sentinel) (\<lambda>_. tell_workers putf n)"

definition tell_others :: "(task \<Rightarrow> exn option) \<Rightarrow> (pool, unit) act" where
  "tell_others putf = catchA
     (bindA (modifyA (\<lambda>p. p\<lparr>outq_sentinels := outq_sentinels p + 1\<rparr>)) (\<lambda>_.
      readA (\<lambda>p. tell_workers putf (length (worker_procs p)))))
     (\<lambda>e. case e of OSError _ \<Rightarrow> ret () | _ \<Rightarrow> raise e)"

text \<open>
  The body over the entries of the task queue; \<open>False\<close>: the thread waits for the next entry.
\<close>

definition end_entry :: "nat option \<Rightarrow> seq_end \<Rightarrow> (pool, bool) act" where
  "end_entry sl r =
     (case r of
        Broken \<Rightarrow> ret False
      | Complete n \<Rightarrow>
          bindA (catchA (call_set_length sl n) (\<lambda>e. if is_Exception e then seq_failed n sl e else raise e)) (\<lambda>_. ret True)
      | Failed n e \<Rightarrow> bindA (seq_failed n sl e) (\<lambda>_. ret True))"

fun th_entries :: "(task \<Rightarrow> exn option) \<Rightarrow> (task list \<times> exn option \<times> nat option) option list \<Rightarrow> (pool, bool) act" where
  "th_entries putf [] = ret False"
| "th_entries putf (None # es) = bindA (tell_others putf) (\<lambda>_. ret True)"
| "th_entries putf (Some (ts, err, sl) # es) =
     bindA (put_seq putf 0 ts err) (\<lambda>r.
     bindA (end_entry sl r) (\<lambda>more.
       if more then th_entries putf es else bindA (tell_others putf) (\<lambda>_. ret True)))"

definition task_handler :: "(task \<Rightarrow> exn option) \<Rightarrow> (pool, bool) act" where
  "task_handler putf = readA (\<lambda>p. let es = taskqueue p in
     bindA (modifyA (\<lambda>p. p\<lparr>taskqueue := []\<rparr>)) (\<lambda>_. th_entries putf es))"

section \<open>Properties\<close>

text \<open>The chunks a pool cuts are the ones \<open>Map_Result\<close> puts back together.\<close>

lemma nchunks_step:
  assumes "0 < c" "0 < n"
  shows "nchunks c n = Suc (nchunks c (n - c))"
proof -
  have step: "i < nchunks c n \<longleftrightarrow> i < Suc (nchunks c (n - c))" for i
  proof (cases i)
    case 0
    then show ?thesis using assms by (simp add: nchunks_iff)
  next
    case (Suc m)
    have "Suc m * c < n \<longleftrightarrow> m * c < n - c" by (simp add: less_diff_conv add.commute)
    then show ?thesis using Suc assms by (simp add: nchunks_iff)
  qed
  from step [of "nchunks c n"] step [of "Suc (nchunks c (n - c))"] show ?thesis by simp
qed

lemma chunks_of_eq: "0 < c \<Longrightarrow> chunks_of c xs = map (chunk c xs) [0 ..< nchunks c (length xs)]"
proof (induction c xs rule: chunks_of.induct)
  case (1 c xs)
  show ?case
  proof (cases "xs = []")
    case True
    then show ?thesis using 1(2) by (simp add: chunks_of.simps nchunks_def)
  next
    case False
    let ?k = "nchunks c (length xs - c)"
    have len: "nchunks c (length xs) = Suc ?k" using 1(2) False by (simp add: nchunks_step)
    have shift: "chunk c (drop c xs) i = chunk c xs (Suc i)" for i by (simp add: chunk_def add.commute)
    have "chunks_of c xs = take c xs # chunks_of c (drop c xs)" using 1(2) False by (subst chunks_of.simps) simp
    also have "chunks_of c (drop c xs) = map (chunk c (drop c xs)) [0 ..< ?k]"
      using 1(1) [OF _ 1(2)] 1(2) False by simp
    also have "\<dots> = map (chunk c xs) [1 ..< Suc ?k]"
      unfolding shift by (simp add: map_Suc_upt [symmetric] comp_def del: upt_Suc)
    also have "take c xs # map (chunk c xs) [1 ..< Suc ?k] = map (chunk c xs) [0 ..< Suc ?k]"
      by (simp add: chunk_def upt_rec [of 0] del: upt_Suc)
    finally show ?thesis using len by simp
  qed
qed

lemma concat_chunks_of: "0 < c \<Longrightarrow> concat (chunks_of c xs) = xs"
proof (induction c xs rule: chunks_of.induct)
  case (1 c xs)
  then show ?case by (subst chunks_of.simps) auto
qed

lemma numbered_eq: "numbered k i ws = map (\<lambda>(j, w). Task (JobReq TASK k (Some j) w)) (zip [i ..< i + length ws] ws)"
  by (induction k i ws rule: numbered.induct) (auto simp: upt_rec)

text \<open>
  \<open>map_async\<close> with a chunk size \<open>c > 0\<close> on a nonempty list queues, in order, one task per
  chunk: the chunks put together are the list, none is empty or longer than \<open>c\<close>, and the new job waits
  for exactly as many of them as were queued, so it neither ends early nor waits for ever.
\<close>

theorem map_async_queues_what_it_waits_for:
  assumes "pstatus p = RUN" "xs \<noteq> []" "0 < c"
  shows "\<exists>p' j cs. map_async mapper xs None (Some (int c)) cb ecb p = (Inr (Some (job_counter p)), p') \<and>
    taskqueue p' = taskqueue p @ [Some (numbered (job_counter p) 0 (map mapper cs), None, None)] \<and>
    concat cs = xs \<and> (\<forall>x \<in> set cs. x \<noteq> [] \<and> length x \<le> c) \<and>
    objs p' (job_counter p) = Some (MR j) \<and> mr_number_left j = int (length cs) \<and> \<not> mr_event j \<and>
    job_counter p \<in> set (pcache p')"
proof -
  let ?k = "job_counter p" and ?cs = "chunks_of c xs"
  obtain j cc where r: "MapResult ?k (pcache p) (int c) (length xs) cb ecb = (j, cc)" by fastforce
  have j: "mr_number_left j = int (nchunks c (length xs))" "\<not> mr_event j" "?k \<in> set cc"
    using r assms(3) by (auto simp: MapResult_def nchunks_def cache_add_def simp flip: of_nat_div of_nat_mod split: if_splits)
  have len: "length ?cs = nchunks c (length xs)" using assms(3) by (simp add: chunks_of_eq)
  have small: "x \<noteq> [] \<and> length x \<le> c" if "x \<in> set ?cs" for x
    using that assms(3) by (auto simp: chunks_of_eq chunk_def nchunks_iff)
  have run: "map_async mapper xs None (Some (int c)) cb ecb p = (Inr (Some ?k),
     p\<lparr>job_counter := ?k + 1, objs := (objs p)(?k \<mapsto> MR j), pcache := cc,
       taskqueue := taskqueue p @ [Some (numbered ?k 0 (map mapper ?cs), None, None)]\<rparr>)"
    using assms r by (simp add: map_async_def act_defs get_tasks_def put_tasks_def Let_def)
  show ?thesis
    using run j len small concat_chunks_of [OF assms(3), of xs]
    by (intro exI [of _ "p\<lparr>job_counter := ?k + 1, objs := (objs p)(?k \<mapsto> MR j), pcache := cc,
       taskqueue := taskqueue p @ [Some (numbered ?k 0 (map mapper ?cs), None, None)]\<rparr>"] exI [of _ j] exI [of _ ?cs]) simp
qed

theorem map_async_queues_what_it_waits_for_witness:
  "\<exists>p' cs. map_async (Mapstar 0) [PInt 1, PInt 2, PInt 3] None (Some 2) None None pool0 = (Inr (Some 0), p') \<and>
    concat cs = [PInt 1, PInt 2, PInt 3]"
  using map_async_queues_what_it_waits_for [of pool0 "[PInt 1, PInt 2, PInt 3]" 2 "Mapstar 0" None None]
  by (auto simp: pool0_def)

lemma put_seq_ok:
  assumes "\<forall>t. putf t = None"
  shows "th_state p = RUN \<Longrightarrow> put_seq putf n ts None p = (Inr (Complete (n + length ts)), p\<lparr>inqueue := inqueue p @ ts\<rparr>)"
  using assms
  by (induction ts arbitrary: n p) (simp_all add: act_defs put_task_def)

lemma tell_workers_ok:
  assumes "\<forall>t. putf t = None"
  shows "tell_workers putf n p = (Inr (), p\<lparr>inqueue := inqueue p @ replicate n Sentinel\<rparr>)"
  using assms by (induction n arbitrary: p) (simp_all add: act_defs put_task_def replicate_app_Cons_same)

text \<open>
  With a working pipe the task handler moves every queued task to the workers' queue
  in the order of submission, none lost and none twice; when it meets the sentinel of \<open>close\<close>, after
  all of them it sends one sentinel per worker and one to the result handler.
\<close>

theorem task_handler_moves_all:
  assumes "\<forall>t. putf t = None" "th_state p = RUN"
    "taskqueue p = map (\<lambda>ts. Some (ts, None, None)) tss @ [None]"
  shows "\<exists>p'. task_handler putf p = (Inr True, p') \<and> taskqueue p' = [] \<and>
    inqueue p' = inqueue p @ concat tss @ replicate (length (worker_procs p)) Sentinel \<and>
    outq_sentinels p' = outq_sentinels p + 1"
proof -
  have run: "th_state q = RUN \<Longrightarrow> th_entries putf (map (\<lambda>ts. Some (ts, None, None)) tss @ [None]) q =
      (Inr True, q\<lparr>inqueue := inqueue q @ concat tss @ replicate (length (worker_procs q)) Sentinel,
         outq_sentinels := outq_sentinels q + 1\<rparr>)" for q
  proof (induction tss arbitrary: q)
    case Nil
    then show ?case using tell_workers_ok [OF assms(1)] by (simp add: act_defs tell_others_def)
  next
    case (Cons ts tss)
    then show ?case
      using put_seq_ok [OF assms(1) Cons.prems] by (simp add: act_defs end_entry_def call_set_length_def)
  qed
  show ?thesis using run [of "p\<lparr>taskqueue := []\<rparr>"] assms(2,3) by (simp add: task_handler_def act_defs Let_def)
qed

theorem task_handler_moves_all_witness:
  "\<exists>p'. task_handler (\<lambda>_. None) (pool0\<lparr>taskqueue := [Some ([Task (JobReq TASK 4 None (Call 0 PNone))], None, None), None]\<rparr>)
     = (Inr True, p') \<and> inqueue p' = [Task (JobReq TASK 4 None (Call 0 PNone))]"
  using task_handler_moves_all [of "\<lambda>_. None" "pool0\<lparr>taskqueue := [Some ([Task (JobReq TASK 4 None (Call 0 PNone))], None, None), None]\<rparr>"
     "[[Task (JobReq TASK 4 None (Call 0 PNone))]]"]
  by (auto simp: pool0_def)

text \<open>
  A task that cannot be pickled fails the wrong job: the job that submitted it stays in
  the cache, unready and untouched, while the job whose number happens to be \<open>TASK\<close> (2), if it is in
  the cache, is failed with that exception.
\<close>

theorem unpicklable_task_fails_job_2:
  assumes t: "t = Task (JobReq TASK k None w)" "putf t = Some e" "is_Exception e" "\<forall>n. e \<noteq> OSError n"
    and k: "k \<noteq> TASK" "k \<in> set (pcache p)" and th: "th_state p = RUN"
    and two: "objs p TASK = Some (AR j)" "TASK \<in> set (pcache p)" "ar_job j = TASK"
      "ar_callback j = None" "ar_error_callback j = None" "ar_on_timeout_cancel j = None"
  shows "\<exists>p'. th_entries putf [Some ([t], None, None)] p = (Inr False, p') \<and>
    objs p' k = objs p k \<and> k \<in> set (pcache p') \<and>
    (\<exists>j'. objs p' TASK = Some (AR j') \<and> ar_ready j' \<and> fst (ar_get env j') = Inl (ExceptionWithTraceback e))"
proof -
  let ?j = "j\<lparr>ar_success := False, ar_value := PEinfo (ExceptionWithTraceback e), ar_event := True\<rparr>"
  let ?q = "p\<lparr>objs := (objs p)(TASK \<mapsto> AR ?j), pcache := if ar_accepted j then remove1 TASK (pcache p) else pcache p\<rparr>"
  have set: "job_set TASK None (False, PEinfo (ExceptionWithTraceback e)) p = (Inr (), ?q)"
    using two by (simp add: job_set_def readA_def plain_ar [OF two(4-6)])
  have fail: "fail_task e p = (Inr (), ?q)" using set two by (simp add: fail_task_def act_defs cached_def)
  have os: "(case e of OSError n \<Rightarrow> f n | _ \<Rightarrow> g) = g" for f :: "int \<Rightarrow> (pool, seq_end) act" and g
    using t(4) by (cases e) auto
  have th': "th_state ?q = RUN" using th by simp
  have "put_seq putf 0 [t] None p = (Inr (Complete 1), ?q)"
    using t(2,3) th fail by (simp add: readA_def put_task_def raise_def os ret_def)
  then have "th_entries putf [Some ([t], None, None)] p = (Inr False, ?q)"
    by (simp add: act_defs end_entry_def call_set_length_def)
  then show ?thesis using k by (auto simp: ar_ready_def ar_get_def)
qed

theorem unpicklable_task_fails_job_2_witness:
  "\<exists>p'. th_entries (\<lambda>_. Some TypeError) [Some ([Task (JobReq TASK 5 None (Call 0 PNone))], None, None)]
      (pool0\<lparr>pcache := [2, 5], objs := [2 \<mapsto> AR (ex_job\<lparr>ar_job := 2\<rparr>), 5 \<mapsto> AR (ex_job\<lparr>ar_job := 5\<rparr>)]\<rparr>) = (Inr False, p') \<and>
    5 \<in> set (pcache p')"
proof -
  let ?p = "pool0\<lparr>pcache := [2, 5], objs := [2 \<mapsto> AR (ex_job\<lparr>ar_job := 2\<rparr>), 5 \<mapsto> AR (ex_job\<lparr>ar_job := 5\<rparr>)]\<rparr>"
  have "5 \<in> set (pcache ?p)" "th_state ?p = RUN" "objs ?p TASK = Some (AR (ex_job\<lparr>ar_job := 2\<rparr>))" "TASK \<in> set (pcache ?p)"
    by (simp_all add: pool0_def TASK_def)
  from unpicklable_task_fails_job_2 [OF refl _ _ _ _ this,
    where putf = "\<lambda>_. Some TypeError" and w = "Call 0 PNone" and e = TypeError and env = id]
  show ?thesis by (auto simp: TASK_def ex_job_def ApplyResult_def)
qed

lemma forA_create_ok:
  "good_conf c \<Longrightarrow> staffed p \<Longrightarrow> pr_index ` set (worker_procs p) \<inter> set is = {} \<Longrightarrow> distinct is \<Longrightarrow>
   wp (forA is (create_worker_process c)) (\<lambda>_ p'. staffed p' \<and> processes p' = processes p \<and> limiters p' = limiters p \<and>
      map pr_index (worker_procs p') = map pr_index (worker_procs p) @ is) (\<lambda>_ _. False) p"
proof (induction "is" arbitrary: p)
  case Nil
  then show ?case by (simp add: wp_simps)
next
  case (Cons i "is")
  have i: "i \<notin> pr_index ` set (worker_procs p)" using Cons.prems by auto
  show ?case
    unfolding forA.simps wp_bind
  proof (rule wp_mono [OF create_worker_ok [OF Cons.prems(1,2) i]], goal_cases)
    case (1 a q)
    then obtain w where q: "staffed q" "processes q = processes p" "limiters q = limiters p"
      "worker_procs q = worker_procs p @ [w]" "pr_index w = i" by auto
    have "wp (forA is (create_worker_process c)) (\<lambda>_ p'. staffed p' \<and> processes p' = processes q \<and> limiters p' = limiters q \<and>
      map pr_index (worker_procs p') = map pr_index (worker_procs q) @ is) (\<lambda>_ _. False) q"
      using Cons.prems q by (intro Cons.IH) auto
    then show ?case by (rule wp_mono) (use q in auto)
  qed simp
qed

text \<open>
  A pool made from valid options starts \<open>processes\<close> workers with the indices
  \<open>0 .. processes - 1\<close>, its tables match them, and as many slots are free. Without \<open>max_restarts\<close> the
  limiter has no limit, although the attribute \<open>max_restarts\<close> says 100 restarts per process.
\<close>

theorem pool_init_staffs:
  assumes "good_conf c" "check_options po = None" "po_initializer_ok po" "po_on_exit_ok po"
    "0 \<le> pool_processes po cpus"
  shows "\<exists>p. pool_init c po cpus = Inr p \<and> staffed p \<and>
    map pr_index (worker_procs p) = map int [0 ..< nat (pool_processes po cpus)] \<and>
    processes p = pool_processes po cpus \<and> (\<not> truthy (parg_int (po_max_restarts po)) \<longrightarrow> unlimited p)"
proof -
  let ?b = "blank_pool (pool_processes po cpus) (pool_limiter po)"
  have b: "staffed ?b" "worker_procs ?b = []" "processes ?b = pool_processes po cpus" "limiters ?b = (\<lambda>_. pool_limiter po)"
    by (simp_all add: blank_pool_def staffed_def pids_def)
  have "wp (forA (map int [0 ..< nat (pool_processes po cpus)]) (create_worker_process c))
     (\<lambda>_ p'. staffed p' \<and> processes p' = processes ?b \<and> limiters p' = limiters ?b \<and>
      map pr_index (worker_procs p') = map pr_index (worker_procs ?b) @ map int [0 ..< nat (pool_processes po cpus)]) (\<lambda>_ _. False) ?b"
    by (rule forA_create_ok [OF assms(1) b(1)]) (use b in \<open>auto simp: distinct_map\<close>)
  then obtain p where p: "forA (map int [0 ..< nat (pool_processes po cpus)]) (create_worker_process c) ?b = (Inr (), p)"
    "staffed p" "processes p = pool_processes po cpus" "limiters p = (\<lambda>_. pool_limiter po)"
    "map pr_index (worker_procs p) = map int [0 ..< nat (pool_processes po cpus)]"
    using b unfolding wp_total by auto
  then show ?thesis
    using assms by (intro exI [of _ p])
      (auto simp: pool_init_def unlimited_def pool_limiter_def restart_state_init_def)
qed

theorem pool_init_staffs_witness:
  "\<exists>p. pool_init ex_pconf \<lparr>po_processes = AInt 3, po_maxtasksperchild = ANone, po_timeout = ANone, po_soft_timeout = ANone,
      po_lost_worker_timeout = ANone, po_max_memory_per_child = ANone, po_max_restarts = ANone, po_max_restart_freq = ANone,
      po_initializer_ok = True, po_on_exit_ok = True\<rparr> None = Inr p \<and> length (worker_procs p) = 3 \<and> unlimited p"
proof -
  let ?po = "\<lparr>po_processes = AInt 3, po_maxtasksperchild = ANone, po_timeout = ANone, po_soft_timeout = ANone,
      po_lost_worker_timeout = ANone, po_max_memory_per_child = ANone, po_max_restarts = ANone, po_max_restart_freq = ANone,
      po_initializer_ok = True, po_on_exit_ok = True\<rparr>"
  have "check_options ?po = None" by (simp add: check_options_def negative_def)
  from pool_init_staffs [OF ex_pconf_good this, of None] show ?thesis
    by (auto simp: pool_processes_def parg_int_def truthy_def dest!: arg_cong [where f = length])
qed

end
