(* ===== verification/Shutdown.thy ===== *)
theory Shutdown
  imports Dispatch
begin

text \<open>
  How a pool ends, from \<open>billiard/pool.py\<close>: \<open>terminate\<close> and \<open>_terminate_pool\<close> with its helpers.
  Joining a thread or a process changes no modelled state; \<open>alive\<close> lists what
  \<open>task_handler.is_alive()\<close> answers while the task queue's pipe is drained.
\<close>

definition TASK_handler_stops :: "pool \<Rightarrow> pool" where
  "TASK_handler_stops p = p\<lparr>th_state := TERMINATE\<rparr>"

fun drain :: "bool list \<Rightarrow> task list \<Rightarrow> task list" where
  "drain (True # alive) (t # ts) = drain alive ts"
| "drain _ ts = ts"

definition help_stuff_finish :: "bool list \<Rightarrow> pool \<Rightarrow> pool" where
  "help_stuff_finish alive p = p\<lparr>inqueue := drain alive (inqueue p)\<rparr>"

definition set_result_sentinel :: "pool \<Rightarrow> pool" where
  "set_result_sentinel p = p\<lparr>outq_sentinels := outq_sentinels p + 1\<rparr>"

definition terminate_workers :: "pool \<Rightarrow> pool" where
  "terminate_workers p = p\<lparr>ptrace := ptrace p @
     map (\<lambda>w. Kill (pr_pid w) TERM_SIGNAL) (filter (\<lambda>w. \<not> exited w) (worker_procs p))\<rparr>"

definition terminate_pool :: "bool \<Rightarrow> bool list \<Rightarrow> pool \<Rightarrow> pool" where
  "terminate_pool timeouts alive p =
     (let p = p\<lparr>sv_state := TERMINATE\<rparr>;
          p = TASK_handler_stops p;
          p = p\<lparr>taskqueue := taskqueue p @ [None]\<rparr>;
          p = help_stuff_finish alive p;
          p = set_result_sentinel p;
          p = (if timeouts then p\<lparr>to_state := TERMINATE\<rparr> else p)
      in terminate_workers p)"

text \<open>\<open>terminate\<close>; \<open>called\<close> tells that the finalizer has run before, in which case it does nothing.\<close>

definition pool_terminate :: "bool \<Rightarrow> bool list \<Rightarrow> bool \<Rightarrow> pool \<Rightarrow> pool" where
  "pool_terminate timeouts alive called p =
     (let p = p\<lparr>pstatus := TERMINATE, sv_state := TERMINATE\<rparr> in
      if called then p else terminate_pool timeouts alive p)"

text \<open>
  \<open>terminate\<close> signals exactly the workers that are alive, stops every thread but the
  result handler, lets \<open>join\<close> pass, and makes every later submission return \<open>None\<close> without a job; what
  the caller already holds, and the cache the result handler goes on draining, are untouched.
\<close>

theorem terminate_stops_pool:
  "filter (\<lambda>e. case e of Kill _ _ \<Rightarrow> True | _ \<Rightarrow> False) (drop (length (ptrace p)) (ptrace (pool_terminate timeouts alive False p))) =
      map (\<lambda>w. Kill (pr_pid w) TERM_SIGNAL) (filter (\<lambda>w. \<not> exited w) (worker_procs p)) \<and>
    th_state (pool_terminate timeouts alive False p) = TERMINATE \<and> sv_state (pool_terminate timeouts alive False p) = TERMINATE \<and>
    rh_state (pool_terminate timeouts alive False p) = rh_state p \<and>
    objs (pool_terminate timeouts alive False p) = objs p \<and> pcache (pool_terminate timeouts alive False p) = pcache p \<and>
    pool_join (pool_terminate timeouts alive False p) = (Inr (), pool_terminate timeouts alive False p) \<and>
    apply_async d putf a (pool_terminate timeouts alive False p) = (Inr None, pool_terminate timeouts alive False p) \<and>
    map_async mapper xs err cs cb ecb (pool_terminate timeouts alive False p) = (Inr None, pool_terminate timeouts alive False p) \<and>
    imap unordered d f xs err n lwt (pool_terminate timeouts alive False p) = (Inr None, pool_terminate timeouts alive False p)"
proof -
  have kills: "filter (\<lambda>e. case e of Kill _ _ \<Rightarrow> True | _ \<Rightarrow> False) (map (\<lambda>w. Kill (pr_pid w) TERM_SIGNAL) ws)
      = map (\<lambda>w. Kill (pr_pid w) TERM_SIGNAL) ws" for ws
    by (induction ws) auto
  have st: "pstatus (pool_terminate timeouts alive False p) = TERMINATE" "TERMINATE \<noteq> RUN"
    by (simp_all add: pool_terminate_def terminate_pool_def TASK_handler_stops_def help_stuff_finish_def
        set_result_sentinel_def terminate_workers_def Let_def TERMINATE_def RUN_def)
  show ?thesis
    using st kills
    by (simp add: apply_async_def map_async_def imap_def readA_def ret_def pool_join_def assertA_def)
      (simp add: pool_terminate_def terminate_pool_def TASK_handler_stops_def help_stuff_finish_def
        set_result_sentinel_def terminate_workers_def Let_def)
qed

end
