(* ===== verification/Pool_Wiring.thy ===== *)
theory Pool_Wiring
  imports Shutdown
begin

text \<open>
  How \<open>Pool\<close> of \<open>billiard/pool.py\<close> puts its parts together: the threads its constructor makes and starts
  (\<open>PoolThread\<close>), the queues and what a worker process is told about them, the receive functions, the methods that wait
  for the result, the order of the steps of \<open>_terminate_pool\<close>, and \<open>ThreadPool\<close>. The threads' bodies are in the other
  theories; here a thread is its state, whether it has been started, and what is done to it.
\<close>

section \<open>Threads\<close>

datatype tid = TSupervisor | TTask | TTimeout | TResult

datatype pevent =
    TStart tid | TJoin tid | TNotStarted tid          \<comment> \<open>the last: \<open>on_stop_not_started\<close>\<close>
  | QueueSentinel | HelpFinish | ResultSentinel
  | SignalWorker int | JoinWorker int | CloseIn | CloseOut

record wiring =
  wr_exists :: "tid \<Rightarrow> bool"
  wr_started :: "tid \<Rightarrow> bool"           \<comment> \<open>\<open>_was_started\<close>\<close>
  wr_state :: "tid \<Rightarrow> nat"              \<comment> \<open>\<open>_state\<close>\<close>
  wr_timeout_started :: bool             \<comment> \<open>\<open>_timeout_handler_started\<close>\<close>
  wr_check_timeouts :: bool
  wr_events :: "pevent list"

definition event :: "pevent \<Rightarrow> wiring \<Rightarrow> wiring" where
  "event e w = w\<lparr>wr_events := wr_events w @ [e]\<rparr>"

definition new_thread :: "tid \<Rightarrow> wiring \<Rightarrow> wiring" where
  "new_thread t w = w\<lparr>wr_exists := (wr_exists w)(t := True), wr_started := (wr_started w)(t := False), wr_state := (wr_state w)(t := RUN)\<rparr>"

definition thread_start :: "tid \<Rightarrow> wiring \<Rightarrow> wiring" where
  "thread_start t w = event (TStart t) (w\<lparr>wr_started := (wr_started w)(t := True)\<rparr>)"

definition thread_stop :: "tid \<Rightarrow> wiring \<Rightarrow> wiring" where
  "thread_stop t w = event (if wr_started w t then TJoin t else TNotStarted t) w"

definition stop_if_not_current :: "tid option \<Rightarrow> tid \<Rightarrow> wiring \<Rightarrow> wiring" where
  "stop_if_not_current current t w = (if current = Some t then w else thread_stop t w)"

definition thread_terminate :: "tid \<Rightarrow> wiring \<Rightarrow> wiring" where
  "thread_terminate t w = w\<lparr>wr_state := (wr_state w)(t := TERMINATE)\<rparr>"

definition thread_close :: "tid \<Rightarrow> wiring \<Rightarrow> wiring" where
  "thread_close t w = w\<lparr>wr_state := (wr_state w)(t := CLOSE)\<rparr>"

text \<open>\<open>PoolThread.run\<close>: what becomes of the process when the body raises.\<close>

datatype run_end = Finished | KillsPool | ExitsProcess | Escapes exn

definition thread_run :: "exn option \<Rightarrow> run_end" where
  "thread_run r =
     (case r of None \<Rightarrow> Finished
      | Some e \<Rightarrow> if e = RestartFreqExceeded then KillsPool else if is_Exception e then ExitsProcess else Escapes e)"

section \<open>The constructor\<close>

definition enable_timeouts :: "bool \<Rightarrow> int option \<Rightarrow> int option \<Rightarrow> bool" where
  "enable_timeouts enable timeout soft_timeout \<longleftrightarrow> enable \<or> timeout \<noteq> None \<or> soft_timeout \<noteq> None"

definition start_timeout_handler :: "bool \<Rightarrow> wiring \<Rightarrow> wiring" where
  "start_timeout_handler threads w =
     (if threads \<and> wr_exists w TTimeout \<and> \<not> wr_timeout_started w
      then thread_start TTimeout (w\<lparr>wr_timeout_started := True\<rparr>) else w)"

definition wire :: "bool \<Rightarrow> bool \<Rightarrow> wiring" where
  "wire threads timeouts =
     (let w = \<lparr>wr_exists = (\<lambda>_. False), wr_started = (\<lambda>_. False), wr_state = (\<lambda>_. RUN), wr_timeout_started = False,
                wr_check_timeouts = False, wr_events = []\<rparr>;
          w = new_thread TSupervisor w;
          w = (if threads then thread_start TSupervisor w else w);
          w = new_thread TTask w;
          w = (if threads then thread_start TTask w else w);
          w = (if timeouts
               then (let w = start_timeout_handler threads (new_thread TTimeout w) in w\<lparr>wr_check_timeouts := \<not> threads\<rparr>)
               else w);
          w = new_thread TResult w
      in if threads then thread_start TResult w else w)"

section \<open>Termination in order\<close>

text \<open>A worker as \<open>_terminate_pool\<close> sees it: its pid, whether it is alive at the signal, and at the join whether it still is and has a \<open>_popen\<close>.\<close>

record wview =
  wv_pid :: int
  wv_alive :: bool
  wv_still :: bool
  wv_popen :: bool

definition terminate_order :: "tid option \<Rightarrow> wview list \<Rightarrow> wiring \<Rightarrow> wiring" where
  "terminate_order current workers w =
     (let w = thread_terminate TSupervisor w;                   \<comment> \<open>in \<open>Pool.terminate\<close>, and again\<close>
          w = thread_terminate TSupervisor w;
          w = thread_terminate TTask w;
          w = event QueueSentinel w;
          w = event HelpFinish w;
          w = event ResultSentinel w;
          w = (if wr_exists w TTimeout then thread_terminate TTimeout w else w);
          w = stop_if_not_current current TSupervisor w;
          w = fold (\<lambda>p. event (SignalWorker (wv_pid p))) (filter wv_alive workers) w;
          w = stop_if_not_current current TTask w;
          w = thread_stop TResult w;
          w = (if wr_exists w TTimeout then thread_stop TTimeout w else w);
          w = fold (\<lambda>p. event (JoinWorker (wv_pid p))) (filter (\<lambda>p. wv_still p \<and> wv_popen p) workers) w;
          w = event CloseIn w
      in event CloseOut w)"

definition pool_join_order :: "tid option \<Rightarrow> wview list \<Rightarrow> wiring \<Rightarrow> wiring" where
  "pool_join_order current workers w =
     (let w = stop_if_not_current current TSupervisor w;
          w = stop_if_not_current current TTask w;
          w = stop_if_not_current current TResult w
      in fold (\<lambda>p. event (JoinWorker (wv_pid p))) (filter wv_popen workers) w)"

section \<open>Queues and workers\<close>

text \<open>What the pool uses as queues: \<open>SimpleQueue\<close> of a context, with a reader and a writer, or \<open>queue.Queue\<close>.\<close>

datatype pool_queue = PipeQueue int int | ThreadQueue

definition writer_fileno :: "pool_queue \<Rightarrow> exn + int" where
  "writer_fileno q = (case q of PipeQueue r w \<Rightarrow> Inr w | ThreadQueue \<Rightarrow> Inl AttributeError)"

definition reader_fileno :: "pool_queue \<Rightarrow> exn + int" where
  "reader_fileno q = (case q of PipeQueue r w \<Rightarrow> Inr r | ThreadQueue \<Rightarrow> Inl AttributeError)"

text \<open>The send function with an offset: the connection's own method, or \<open>compat.send_offset\<close> on its descriptor.\<close>

datatype send_fun = NativeSend | PartialSend int

definition get_send_offset :: "bool \<Rightarrow> int \<Rightarrow> send_fun" where
  "get_send_offset native fd = (if native then NativeSend else PartialSend fd)"

record worker_attrs =
  wa_inqW_fd :: int
  wa_outqR_fd :: int
  wa_synqR_fd :: "int option"
  wa_synqW_fd :: "int option"
  wa_send_job_offset :: send_fun
  wa_send_syn_offset :: "send_fun option"  \<comment> \<open>\<open>None\<close>: there is no attribute of this name\<close>
  wa_underscore_syn :: bool                \<comment> \<open>the attribute \<open>_send_syn_offset\<close> is there\<close>

definition contribute_to_object :: "bool \<Rightarrow> pool_queue \<Rightarrow> pool_queue \<Rightarrow> pool_queue option \<Rightarrow> exn + worker_attrs" where
  "contribute_to_object native inq outq synq =
     (case writer_fileno inq of Inl e \<Rightarrow> Inl e
      | Inr iw \<Rightarrow> (case reader_fileno outq of Inl e \<Rightarrow> Inl e
      | Inr outr \<Rightarrow> (case synq of
            None \<Rightarrow> Inr \<lparr>wa_inqW_fd = iw, wa_outqR_fd = outr, wa_synqR_fd = None, wa_synqW_fd = None,
              wa_send_job_offset = get_send_offset native iw, wa_send_syn_offset = None, wa_underscore_syn = True\<rparr>
          | Some q \<Rightarrow> (case reader_fileno q of Inl e \<Rightarrow> Inl e
              | Inr sr \<Rightarrow> (case writer_fileno q of Inl e \<Rightarrow> Inl e
              | Inr sw \<Rightarrow> Inr \<lparr>wa_inqW_fd = iw, wa_outqR_fd = outr, wa_synqR_fd = Some sr, wa_synqW_fd = Some sw, wa_send_job_offset = get_send_offset native iw,
                  wa_send_syn_offset = Some (get_send_offset native sw), wa_underscore_syn = False\<rparr>)))))"

text \<open>\<open>_setup_queues\<close> of the two pools, and the part of the constructor that makes the workers.\<close>

definition setup_queues :: "int \<Rightarrow> int \<Rightarrow> int \<Rightarrow> int \<Rightarrow> pool_queue \<times> pool_queue" where
  "setup_queues r1 w1 r2 w2 = (PipeQueue r1 w1, PipeQueue r2 w2)"

definition setup_thread_queues :: "pool_queue \<times> pool_queue" where
  "setup_thread_queues = (ThreadQueue, ThreadQueue)"

fun make_workers :: "nat \<Rightarrow> pool_queue \<times> pool_queue \<Rightarrow> exn + worker_attrs list" where
  "make_workers 0 qs = Inr []"
| "make_workers (Suc n) qs =
     (case contribute_to_object True (fst qs) (snd qs) None of Inl e \<Rightarrow> Inl e
      | Inr a \<Rightarrow> (case make_workers n qs of Inl e \<Rightarrow> Inl e | Inr as \<Rightarrow> Inr (a # as)))"

definition ThreadPool :: "nat \<Rightarrow> exn + worker_attrs list" where
  "ThreadPool n = make_workers n setup_thread_queues"

text \<open>\<open>_poll_result\<close>: of a pipe, polled and then read, or of a \<open>queue.Queue\<close>, read with a timeout.\<close>

definition poll_result :: "exn + bool \<Rightarrow> exn + 'm \<Rightarrow> exn + (bool \<times> 'm option)" where
  "poll_result polled got =
     (case polled of Inl e \<Rightarrow> Inl e | Inr False \<Rightarrow> Inr (False, None)
      | Inr True \<Rightarrow> (case got of Inl e \<Rightarrow> Inl e | Inr m \<Rightarrow> Inr (True, Some m)))"

definition poll_thread_result :: "exn + 'm \<Rightarrow> exn + (bool \<times> 'm option)" where
  "poll_thread_result got = (case got of Inr m \<Rightarrow> Inr (True, Some m) | Inl e \<Rightarrow> if e = QueueEmpty then Inr (False, None) else Inl e)"

text \<open>
  \<open>_make_recv_method\<close>: a queue with a reader is polled, unless it has \<open>get_payload\<close>; any other is read with a timeout,
  and there the handler names \<open>Queue.Empty\<close>, which the class \<open>Queue\<close> does not have.
\<close>

datatype conn_kind = WithPayload | WithReader | WithoutReader

definition recv_method :: "conn_kind \<Rightarrow> exn + bool \<Rightarrow> exn + 'm \<Rightarrow> exn + (bool \<times> 'm option)" where
  "recv_method kind polled got =
     (case kind of
        WithPayload \<Rightarrow> (case got of Inl e \<Rightarrow> Inl e | Inr m \<Rightarrow> Inr (True, Some m))
      | WithReader \<Rightarrow> poll_result polled got
      | WithoutReader \<Rightarrow> (case got of Inr m \<Rightarrow> Inr (True, Some m) | Inl _ \<Rightarrow> Inl AttributeError))"

text \<open>\<open>receive\<close> as the code has it: the shutdown event, then the receive method; \<open>get_errno\<close> of an exception without a number is 0.\<close>

definition receive :: "bool \<Rightarrow> exn + (bool \<times> 'm option option) \<Rightarrow> exn + 'm option" where
  "receive shutdown r =
     (if shutdown then Inl (SystemExit EX_OK)
      else (case r of
          Inr (False, _) \<Rightarrow> Inr None
        | Inr (True, Some (Some req)) \<Rightarrow> Inr (Some req)
        | Inr (True, _) \<Rightarrow> Inl (SystemExit EX_FAILURE)
        | Inl (OSError n) \<Rightarrow> if n = EINTR then Inr None else Inl (SystemExit EX_FAILURE)
        | Inl EOFError \<Rightarrow> Inl (SystemExit EX_FAILURE)
        | Inl e \<Rightarrow> Inl e))"

section \<open>Methods that wait\<close>

text \<open>\<open>get\<close> on the object of a job; \<open>env\<close> is what the other threads do to the pool meanwhile.\<close>

definition get_job :: "nat \<Rightarrow> (pool, pyval) act" where
  "get_job k = readA (\<lambda>p. case objs p k of
       Some (AR j) \<Rightarrow> (\<lambda>_. (fst (ar_get id j), p))
     | Some (MR j) \<Rightarrow> (\<lambda>_. (fst (mr_get id j), p))
     | _ \<Rightarrow> raise AttributeError)"

definition then_get :: "(pool \<Rightarrow> pool) \<Rightarrow> (pool, nat option) act \<Rightarrow> (pool, pyval option) act" where
  "then_get env m = bindA m (\<lambda>r. case r of None \<Rightarrow> raise AttributeError
     | Some k \<Rightarrow> bindA (modifyA env) (\<lambda>_. bindA (get_job k) (\<lambda>v. ret (Some v))))"

definition if_running :: "(pool, 'a option) act \<Rightarrow> (pool, 'a option) act" where
  "if_running m = readA (\<lambda>p. if pstatus p = RUN then m else ret None)"

definition pool_apply :: "dconf \<Rightarrow> (task \<Rightarrow> exn option) \<Rightarrow> (pool \<Rightarrow> pool) \<Rightarrow> work \<Rightarrow> (pool, pyval option) act" where
  "pool_apply d putf env w = if_running (then_get env (apply_async d putf
     \<lparr>aa_work = w, aa_callback = None, aa_error_callback = None, aa_accept_callback = None, aa_timeout_callback = None,
      aa_waitforslot = None, aa_soft_timeout = None, aa_timeout = None, aa_lost_worker_timeout = None, aa_callbacks_propagate = []\<rparr>))"

definition pool_map :: "(pool \<Rightarrow> pool) \<Rightarrow> nat \<Rightarrow> pyval list \<Rightarrow> exn option \<Rightarrow> int option \<Rightarrow> (pool, pyval option) act" where
  "pool_map env f xs err chunksize = if_running (then_get env (map_async (Mapstar f) xs err chunksize None None))"

definition starmap :: "(pool \<Rightarrow> pool) \<Rightarrow> nat \<Rightarrow> pyval list \<Rightarrow> exn option \<Rightarrow> int option \<Rightarrow> (pool, pyval option) act" where
  "starmap env f xs err chunksize = if_running (then_get env (map_async (Starmapstar f) xs err chunksize None None))"

definition starmap_async :: "nat \<Rightarrow> pyval list \<Rightarrow> exn option \<Rightarrow> int option
    \<Rightarrow> (pyval \<Rightarrow> exn option) option \<Rightarrow> (pyval \<Rightarrow> exn option) option \<Rightarrow> (pool, nat option) act" where
  "starmap_async f xs err chunksize cb ecb = if_running (map_async (Starmapstar f) xs err chunksize cb ecb)"

definition process_by_pid :: "int \<Rightarrow> proc list \<Rightarrow> (proc \<times> nat) option" where
  "process_by_pid pid ps = find (\<lambda>(w, _). pr_pid w = pid) (zip ps [0 ..< length ps])"

text \<open>The end of \<open>finish_at_shutdown\<close>: up to ten messages are read and dropped; an error of the pipe ends it.\<close>

fun make_room :: "nat \<Rightarrow> (exn + bool) list \<Rightarrow> exn + nat" where
  "make_room 0 polls = Inr 0"
| "make_room (Suc n) polls =
     (case polls of
        Inr True # rest \<Rightarrow> (case make_room n rest of Inl e \<Rightarrow> Inl e | Inr k \<Rightarrow> Inr (Suc k))
      | Inl e # _ \<Rightarrow> (case e of OSError _ \<Rightarrow> Inr 0 | EOFError \<Rightarrow> Inr 0 | _ \<Rightarrow> Inl e)
      | _ \<Rightarrow> Inr 0)"

section \<open>Properties\<close>

text \<open>What a worker receives is what \<open>Worker\<close> is modelled on.\<close>

definition outcome_of :: "bool \<Rightarrow> exn + bool \<Rightarrow> exn + 'm option \<Rightarrow> 'm option recv option" where
  "outcome_of shutdown polled got =
     (if shutdown then Some Shutdown
      else (case polled of Inl (OSError n) \<Rightarrow> Some (RecvError n) | Inl EOFError \<Rightarrow> Some (RecvError 0) | Inl _ \<Rightarrow> None
        | Inr False \<Rightarrow> Some NotReady
        | Inr True \<Rightarrow> (case got of Inr m \<Rightarrow> Some (Got m) | Inl (OSError n) \<Rightarrow> Some (RecvError n)
            | Inl EOFError \<Rightarrow> Some (RecvError 0) | Inl _ \<Rightarrow> None)))"

lemma receive_refines:
  "outcome_of shutdown polled got = Some r \<Longrightarrow> receive shutdown (recv_method WithReader polled got) = protected_receive r"
  by (auto simp: outcome_of_def receive_def recv_method_def poll_result_def EINTR_def
      split: if_splits sum.splits exn.splits bool.splits option.splits)

text \<open>Every poll that finds nothing on a queue without a reader is an error instead.\<close>

lemma no_message_is_error: "recv_method WithoutReader polled (Inl QueueEmpty) = Inl AttributeError"
  by (simp add: recv_method_def)

text \<open>
  A \<open>ThreadPool\<close> with a worker cannot be made: its queues are \<open>queue.Queue\<close> objects, and \<open>contribute_to_object\<close>
  asks them for the descriptors of a pipe; an ordinary pool with the same number of workers is made.
\<close>

theorem thread_pool_cannot_start:
  "ThreadPool (Suc n) = Inl AttributeError \<and> (\<exists>as. make_workers (Suc n) (setup_queues r1 w1 r2 w2) = Inr as \<and> length as = Suc n)"
proof -
  have P: "\<exists>as. make_workers m (setup_queues r1 w1 r2 w2) = Inr as \<and> length as = m" for m
    by (induction m) (auto simp: setup_queues_def contribute_to_object_def writer_fileno_def reader_fileno_def)
  have T: "ThreadPool (Suc n) = Inl AttributeError"
    by (simp add: ThreadPool_def setup_thread_queues_def contribute_to_object_def writer_fileno_def)
  show ?thesis by (rule conjI [OF T P])
qed

lemma fold_event: "fold (\<lambda>p. event (f p)) ps w = w\<lparr>wr_events := wr_events w @ map f ps\<rparr>"
  by (induction ps arbitrary: w) (simp_all add: event_def)

text \<open>What each step does to the three things the order depends on.\<close>

definition stop_event :: "wiring \<Rightarrow> tid \<Rightarrow> pevent" where
  "stop_event w t = (if wr_started w t then TJoin t else TNotStarted t)"

lemma step_simps:
  "wr_events (event e w) = wr_events w @ [e]" "wr_started (event e w) = wr_started w" "wr_exists (event e w) = wr_exists w"
  "wr_events (thread_terminate t w) = wr_events w" "wr_started (thread_terminate t w) = wr_started w"
  "wr_exists (thread_terminate t w) = wr_exists w"
  "wr_events (thread_stop t w) = wr_events w @ [stop_event w t]" "wr_started (thread_stop t w) = wr_started w"
  "wr_exists (thread_stop t w) = wr_exists w"
  "wr_events (stop_if_not_current c t w) = wr_events w @ (if c = Some t then [] else [stop_event w t])"
  "wr_started (stop_if_not_current c t w) = wr_started w" "wr_exists (stop_if_not_current c t w) = wr_exists w"
  by (simp_all add: event_def thread_terminate_def thread_stop_def stop_if_not_current_def stop_event_def)

lemma fold_simps:
  "wr_events (fold (\<lambda>p. event (f p)) ps w) = wr_events w @ map f ps"
  "wr_started (fold (\<lambda>p. event (f p)) ps w) = wr_started w" "wr_exists (fold (\<lambda>p. event (f p)) ps w) = wr_exists w"
  by (simp_all add: fold_event)

lemma stop_event_cong: "wr_started w = wr_started w' \<Longrightarrow> stop_event w t = stop_event w' t"
  by (simp add: stop_event_def)

lemma if_wiring:
  "wr_events (if b then x else y) = (if b then wr_events x else wr_events y)"
  "wr_started (if b then x else y) = (if b then wr_started x else wr_started y)"
  "wr_exists (if b then x else y) = (if b then wr_exists x else wr_exists y)"
  by simp_all

lemma terminate_order_events:
  "wr_events (terminate_order current workers w) =
     wr_events w @ [QueueSentinel, HelpFinish, ResultSentinel] @ (if current = Some TSupervisor then [] else [stop_event w TSupervisor]) @
     map (\<lambda>p. SignalWorker (wv_pid p)) (filter wv_alive workers) @ (if current = Some TTask then [] else [stop_event w TTask]) @
     [stop_event w TResult] @ (if wr_exists w TTimeout then [stop_event w TTimeout] else []) @
     map (\<lambda>p. JoinWorker (wv_pid p)) (filter (\<lambda>p. wv_still p \<and> wv_popen p) workers) @ [CloseIn, CloseOut]"
  unfolding terminate_order_def Let_def
  by (cases "wr_exists w TTimeout"; simp add: step_simps fold_simps if_wiring stop_event_def)

lemma wire_fields:
  "wr_started (wire threads timeouts) t \<longleftrightarrow> threads \<and> (t = TTimeout \<longrightarrow> timeouts)"
  "wr_exists (wire threads timeouts) t \<longleftrightarrow> (t = TTimeout \<longrightarrow> timeouts)"
  "wr_check_timeouts (wire threads timeouts) = (timeouts \<and> \<not> threads)"
  by (cases threads; cases timeouts; cases t; simp add: wire_def Let_def new_thread_def thread_start_def start_timeout_handler_def event_def)+

definition stops :: "bool \<Rightarrow> tid option \<Rightarrow> tid \<Rightarrow> pevent list" where
  "stops threads current t = (if current = Some t then [] else [if threads then TJoin t else TNotStarted t])"

text \<open>
  The order in which a pool ends, for every pool the constructor makes and whichever thread terminates it: the workers
  are signalled only after the supervisor, which could add one, has been waited for (unless it is the one that terminates
  the pool); then the task handler, the result handler and the timeout handler are waited for, or do their last work here when
  they were never started; then the workers are waited for; and the queues are closed last.
\<close>

theorem termination_order:
  "wr_events (terminate_order current workers (wire threads timeouts)) =
     wr_events (wire threads timeouts) @ [QueueSentinel, HelpFinish, ResultSentinel] @ stops threads current TSupervisor @
     map (\<lambda>p. SignalWorker (wv_pid p)) (filter wv_alive workers) @ stops threads current TTask @ stops threads None TResult @
     (if timeouts then stops threads None TTimeout else []) @
     map (\<lambda>p. JoinWorker (wv_pid p)) (filter (\<lambda>p. wv_still p \<and> wv_popen p) workers) @ [CloseIn, CloseOut]"
  unfolding terminate_order_events by (cases timeouts; simp add: stop_event_def wire_fields stops_def)

text \<open>What the constructor starts, and when timeouts are checked without threads.\<close>

lemma wire_threads:
  "{t. wr_started (wire threads timeouts) t} = (if threads then {TSupervisor, TTask, TResult} \<union> (if timeouts then {TTimeout} else {}) else {})"
  "{t. wr_exists (wire threads timeouts) t} = {TSupervisor, TTask, TResult} \<union> (if timeouts then {TTimeout} else {})"
  using tid.exhaust by (auto simp: wire_fields)

lemma start_timeout_handler_once: "start_timeout_handler threads (start_timeout_handler threads w) = start_timeout_handler threads w"
  by (simp add: start_timeout_handler_def thread_start_def event_def)

text \<open>After \<open>close\<close> or \<open>terminate\<close> the methods that wait return \<open>None\<close> at once.\<close>

lemma closed_returns_None:
  assumes "pstatus p \<noteq> RUN"
  shows "pool_apply d putf env w p = (Inr None, p)" "pool_map env f xs err c p = (Inr None, p)"
    "starmap env f xs err c p = (Inr None, p)" "starmap_async f xs err c cb ecb p = (Inr None, p)"
  using assms by (simp_all add: pool_apply_def pool_map_def starmap_def starmap_async_def if_running_def readA_def ret_def)

text \<open>\<open>apply\<close> gives the value of the job it has submitted, or raises its exception.\<close>

lemma apply_returns:
  assumes "pstatus p = RUN" "taskqueue p = []" "dc_threads d" "\<not> dc_putlocks d"
    and env: "\<And>q j. objs q (job_counter p) = Some (AR j) \<Longrightarrow> objs (env q) (job_counter p) = Some (AR (j\<lparr>ar_event := True, ar_success := ok, ar_value := v\<rparr>))"
  shows "fst (pool_apply d putf env w p) = (if ok then Inr (Some v) else case v of PEinfo e \<Rightarrow> Inl e | _ \<Rightarrow> Inl AttributeError)"
  using assms(1-4)
  by (simp add: pool_apply_def if_running_def then_get_def apply_async_def act_defs new_job_def put_tasks_def Let_def get_job_def
      env ar_get_def ar_ready_def split: pyval.split)

lemma make_room_bound: "make_room n polls = Inr k \<Longrightarrow> k \<le> n"
  by (induction n polls arbitrary: k rule: make_room.induct) (auto split: list.splits sum.splits bool.splits exn.splits)

end
