(* ===== verification/Spec2Isabelle.thy ===== *)
theory Spec2Isabelle
  imports Heap_Interleaving Einfo Lax_Semaphore Condition_Properties Shared_Ctypes Authentication Endpoints Queues Processes Sem_Tracker
    Shared_Pipe Proxies Manager_Sessions Resource_Sharer Start_Methods Spawn_Win32 Process_Tree Dummy Compat Barrier Waiting
    Lost_Workers Sem_Names Windows_Pipe Pool_Wiring
begin

text \<open>
  A verification of billiard, the multiprocessing library of celery (\<open>src/billiard\<close>).

  The program. A \<open>Pool\<close> keeps a crew of worker processes. Work enters through \<open>apply_async\<close>, \<open>map_async\<close> and \<open>imap\<close>, which
  make a result object, put it into the pool's cache and its tasks on a queue inside the process; the task handler thread writes the
  tasks to a pipe, the workers take them from it, run them and answer with ACK and READY messages on a second pipe; the
  result handler thread reads these and fills the result objects; the supervisor thread replaces workers that have exited and fails the
  jobs that were lost with them; the timeout thread watches the time limits; \<open>terminate\<close> and \<open>close\<close> end all of it. Below the pool
  are processes with their start methods (fork, spawn, forkserver), connections with their message framing and authentication, queues,
  locks, conditions and events, the shared-memory heap, the semaphore tracker, the passing of descriptors between processes, and, on
  the side, managers that host objects in a server process.

  The model. Operations that change state and can raise are functions from a state to a result (an exception or a value) and the new
  state (\<open>act\<close> of theory Prelude, with a weakest-precondition calculus for the proofs); what the operating system or
  the user's code answers is an argument, mostly a script with one entry per call, or a function of the call. Where threads or
  processes interleave, the component is a state machine whose events are the points at which the code can be interrupted, and the
  properties hold for every sequence of events.

  \<^item> Prelude: exceptions, operations that may raise, \<open>bisect\<close>, facts on lists and maps.
  \<^item> Common: \<open>common.py\<close>, the limiter of restarts and the signals. Einfo: \<open>einfo.py\<close>, exceptions and tracebacks as they are sent.
  \<^item> Lax_Semaphore, Results, Map_Result, Imap_Result: the slots and the four result classes of \<open>pool.py\<close> (\<open>ApplyResult\<close>,
    \<open>MapResult\<close>, \<open>IMapIterator\<close>, \<open>IMapUnorderedIterator\<close>): any order of acknowledgements and results gives the same outcome.
  \<^item> Worker: \<open>Worker.__call__\<close>, \<open>workloop\<close> and what they call; it answers exactly the jobs it reads. Pool_State: the fields of \<open>Pool\<close> its threads share.
  \<^item> Result_Handler, Supervision, Timeout_Handler, Timeout_Sweep, Dispatch, Shutdown: the four threads of \<open>Pool\<close>, its constructor and the
    ways work enters, and its end; a sweep for time limits over any number of jobs fails exactly those past their limit. Lost_Workers: what a round of
    the supervisor makes of every job whose worker has gone, and the draining at shutdown. Pool_Wiring: how the constructor puts them together and in which order \<open>_terminate_pool\<close> takes them
    apart, the receive functions, the methods that wait, \<open>ThreadPool\<close>.
  \<^item> Shm_Heap: \<open>Heap\<close> of \<open>heap.py\<close> with its three indices of free blocks; blocks tile the arenas and never overlap.
    Heap_Interleaving: the same in single operations on the indices, taken by any threads and finalizers in any order.
  \<^item> Semlock, Condition, Condition_Properties: the semaphore of \<open>Modules/_billiard/semaphore.c\<close> and \<open>synchronize.py\<close> over it.
    Sem_Names: how semaphores reach other processes, by name, duplicated handle or fork: every object stands for the semaphore it was made for.
    Barrier: its \<open>Barrier\<close>, the methods of the class of the standard library over two numbers in shared memory: who passes was inside with exactly the number asked for.
  \<^item> Waiting: \<open>poll\<close> under the \<open>wait\<close> of \<open>connection.py\<close>, \<open>_eintr_retry\<close> and the death signal of \<open>util.py\<close>, \<open>wait_for\<close> of a condition's proxy.
  \<^item> Connection, Authentication: \<open>connection.py\<close>, framing over partial reads and writes, \<open>Listener\<close>, \<open>Client\<close>, the challenge, \<open>wait\<close>.
    Windows_Connection, Endpoints: its classes for Windows (a connection over a named pipe is a queue of messages; \<open>wait\<close> for several
    objects; the handles of a listener), \<open>SocketListener\<close>, \<open>ConnectionWrapper\<close> and the pickling of connections.
    Windows_Pipe: \<open>Pipe\<close> for Windows, the rights of the two ends and the handles that a failure leaves open.
  \<^item> Shared_Ctypes: \<open>sharedctypes.py\<close>, objects in shared memory and the accesses to them under their lock, in every interleaving.
  \<^item> Compat: \<open>compat.py\<close>, closing the descriptors of a process in two ways that agree.
  \<^item> Process_Tree: \<open>_win.py\<close>, the descendants of a process on Windows. Dummy: \<open>dummy\<close>, connections that are queues and processes that are threads.
  \<^item> Queues: \<open>queues.py\<close>, with a feeder thread per process; it refines a bounded bag with an order per producer.
    Shared_Pipe: its \<open>SimpleQueue\<close>, over which a pool's processes talk, down to the pieces in which many processes write and read frames under two locks.
  \<^item> Managers: \<open>managers.py\<close>, the server's reference counts against the proxies and tokens that exist.
    Proxies: the connections and references that the proxies of all processes hold over forks. Manager_Sessions: the threads of the server and its answers in a session, the
    classes of proxies, namespaces.
  \<^item> Processes: \<open>process.py\<close> and \<open>popen_fork.py\<close> over children and descriptors of the system, whose numbers are recycled.
  \<^item> Start_Methods: \<open>forkserver.py\<close>, \<open>popen_forkserver.py\<close>, \<open>popen_spawn_posix.py\<close>: pids and exit codes through the pipe, and which
    descriptors are left open when any call fails; Spawn_Win32: \<open>popen_spawn_win32.py\<close>, the same for handles. Spawning: \<open>spawn.py\<close>, what a new interpreter is told and what becomes of it.
    Contexts: \<open>context.py\<close>, the choice of the start method.
  \<^item> Sem_Tracker: \<open>semaphore_tracker.py\<close>, the client and the process that unlinks what is left.
  \<^item> Reduction, Resource_Sharer: \<open>reduction.py\<close> and \<open>resource_sharer.py\<close>, descriptors and handles that go to other processes.
  \<^item> This theory: the life of one job through \<open>apply_async\<close>, task handler, worker and result handler to \<open>get\<close>, and of a map.

  Names in the model are those of the code; a name that is taken has a prefix (\<open>ar_set\<close> for \<open>ApplyResult._set\<close>, \<open>proc_start\<close> for
  \<open>BaseProcess.start\<close>). The fields of a class are those of a record with the same prefix.

  Interfaces. The locale \<open>free_index\<close> is what \<open>malloc\<close> and \<open>free\<close> need from the indices of free blocks; \<open>stream\<close> is what the framing
  of messages needs from the loops over partial transfers; \<open>lock_api\<close> is what conditions, events, shared values and shared pipes need from a lock, and the counting of Shared_Ctypes and the
  whole messages of Shared_Pipe are proved in it; \<open>byte_channel\<close> is what \<open>ConnectionWrapper\<close> needs from a connection. Each is interpreted on the code's own definitions
  in the theory that has them.

  Bounds and fuel. The heap's numbers are unbounded integers with \<open>sys.maxsize\<close> as a parameter that is compared where the code compares
  it; message headers, descriptors, counts of descriptors and packed numbers have their widths (32, 64 and 8 bits). Loops over input are recursive
  over a script of what the calls return and end with it: the end of a script is a call that waits (\<open>Blocks\<close>, or \<open>None\<close> for a loop).
  Loops over data are functions whose termination is proved. The loop that moves results out of order to the output (\<open>im_flush\<close>) has
  one unit of fuel per result held back, and each round takes one of these away; the rounds of the result handler at shutdown have
  one clock reading each, and the property says at which of them it has ended.

  Not modelled. The pickling of objects and the text of tracebacks (parameters); logging; the conversions of \<open>ctypes\<close>;
  the socket and handle functions of the C extension, which are calls of the operating system. Time is what the
  clock answers, and nothing is said about how long a call takes.
\<close>

section \<open>The life of a job across the components\<close>

lemma mapstar_total: "\<forall>x \<in> set xs. f x = Inr (g x) \<Longrightarrow> mapstar f xs = Inr (map g xs)"
  by (induction xs) auto

lemma chunk_map: "chunk c (map g xs) i = map g (chunk c xs i)"
  by (simp add: chunk_def take_map drop_map)

text \<open>
  C2. From \<open>map_async\<close> to its result: the chunks that are queued are run by \<open>mapstar\<close> in
  whatever workers take them, and their results come back in whatever order, mixed with
  acknowledgements; the caller gets the list of the function's values in the order of the input.
\<close>

theorem map_async_maps:
  assumes c: "0 < c" and ne: "xs \<noteq> []" and cache: "distinct cc"
    and uf: "\<forall>x \<in> set xs. uf f x = Inr (g x)"
    and ms: "distinct (map_sets ms)" "set (map_sets ms) = {..< length (chunks_of c xs)}"
      "\<And>i rs. MapSet i rs \<in> set ms \<Longrightarrow> run_work uf (Mapstar f (chunks_of c xs ! i)) = Inr (PList rs)"
    and init: "MapResult job cc (int c) (length xs) None None = (j, cc')"
  shows "\<exists>s. map_run ms \<lparr>self = j, cache = cc', trace = []\<rparr> = (Inr (), s) \<and>
    fst (mr_get env (self s)) = Inr (PList (map g xs)) \<and> job \<notin> set (cache s)"
proof -
  have sets: "i \<in> set (map_sets ms)" if "MapSet i rs \<in> set ms" for i rs
    using that by (induction ms rule: map_sets.induct) auto
  have len: "length (chunks_of c xs) = nchunks c (length xs)" using c by (simp add: chunks_of_eq)
  have chunk: "i < nchunks c (length (map g xs)) \<and> rs = chunk c (map g xs) i" if m: "MapSet i rs \<in> set ms" for i rs
  proof -
    have i: "i < nchunks c (length xs)" using sets [OF m] ms(2) len by simp
    have sub: "set (chunk c xs i) \<subseteq> set xs"
      unfolding chunk_def using set_take_subset set_drop_subset by (metis subset_trans)
    have "mapstar (uf f) (chunk c xs i) = Inr (map g (chunk c xs i))"
      using uf sub by (intro mapstar_total) auto
    then have "run_work uf (Mapstar f (chunks_of c xs ! i)) = Inr (PList (map g (chunk c xs i)))"
      using i c by (simp add: chunks_of_eq)
    then show ?thesis using ms(3) [OF m] i by (simp add: chunk_map)
  qed
  have init': "MapResult job cc (int c) (length (map g xs)) None None = (j, cc')" using init by simp
  have "map g xs \<noteq> []" using ne by simp
  from map_run_collects [OF c this cache _ ms(1) chunk init', of env]
  obtain s where s: "map_run ms \<lparr>self = j, cache = cc', trace = []\<rparr> = (Inr (), s)"
    "mr_event (self s) = (set (map_sets ms) = {..< nchunks c (length (map g xs))})"
    "mr_event (self s) \<longrightarrow> fst (mr_get env (self s)) = Inr (PList (map g xs)) \<and> job \<notin> set (cache s)"
    by auto
  moreover have "mr_event (self s)" using s(2) ms(2) len by simp
  ultimately show ?thesis by blast
qed

theorem map_async_maps_witness:
  "\<exists>s. map_run [MapSet 1 [PInt 3], MapAck 0 7 50, MapSet 0 [PInt 1, PInt 2]]
      \<lparr>self = fst (MapResult 0 [] 2 3 None None), cache = [0], trace = []\<rparr> = (Inr (), s) \<and>
    fst (mr_get id (self s)) = Inr (PList [PInt 1, PInt 2, PInt 3]) \<and> 0 \<notin> set (cache s)"
proof -
  let ?ms = "[MapSet 1 [PInt 3], MapAck 0 7 50, MapSet 0 [PInt 1, PInt 2]]" and ?xs = "[PInt 1, PInt 2, PInt 3]"
  have cs: "chunks_of 2 ?xs = [[PInt 1, PInt 2], [PInt 3]]" by (simp add: chunks_of.simps)
  have sets: "distinct (map_sets ?ms)" "set (map_sets ?ms) = {..< length (chunks_of 2 ?xs)}"
    unfolding cs by auto
  have run: "run_work (\<lambda>_. Inr) (Mapstar 0 (chunks_of 2 ?xs ! i)) = Inr (PList rs)" if "MapSet i rs \<in> set ?ms" for i rs
    using that unfolding cs by auto
  have init: "MapResult 0 [] (int 2) (length ?xs) None None = (fst (MapResult 0 [] 2 3 None None), [0])"
    by (simp add: MapResult_def cache_add_def numeral_3_eq_3)
  from map_async_maps [OF _ _ _ _ sets run init, where g = id and env = id] show ?thesis by simp
qed

lemma cache_add_new: "k \<notin> set c \<Longrightarrow> cache_add k c = c @ [k]"
  by (simp add: cache_add_def)

lemma remove1_last: "k \<notin> set c \<Longrightarrow> remove1 k (c @ [k]) = c"
  by (simp add: remove1_append)

lemma worker_sends:
  assumes "calm c env" "\<not> wk_fired s"
  shows "\<exists>r s'. handle_task c env syn now (JobReq TASK k None w) s = (r, s') \<and>
     wk_out s' = wk_out s @ [MAck k None now (wc_pid c) (wc_synqW_fd c), MReady k None (sent_result env w) (wc_inqW_fd c)]"
  using handle_task_eq [OF assms, of syn now k None w] by auto

text \<open>
  C1. The life of a job through all components: \<open>apply_async\<close> on a running pool makes a job
  and queues its task; the task handler passes the task on; a worker that takes it sends an
  acknowledgement and a result; and when the result handler has read both, the job has left the
  cache, nothing else in the cache has changed, and the caller's \<open>get\<close> gives the function's value or
  raises its exception (or \<open>MaybeEncodingError\<close> for a value that cannot be sent).
\<close>

theorem apply_async_end_to_end:
  assumes p: "pstatus p = RUN" "th_state p = RUN" "taskqueue p = []" "job_counter p \<notin> set (pcache p)"
    and d: "dc_threads d" "\<not> dc_putlocks d" "dc_on_timeout_set d = None" "dc_on_timeout_cancel d = None" "\<not> dc_synack d"
    and a: "aa_waitforslot a = None" "aa_callback a = None" "aa_error_callback a = None" "aa_accept_callback a = None"
    and putf: "\<forall>t. putf t = None" and w: "calm c env" "\<not> wk_fired s"
  shows "\<exists>p1 p2 r s' p3 p4 j.
    apply_async d putf a p = (Inr (Some (job_counter p)), p1) \<and>
    task_handler putf p1 = (Inr False, p2) \<and>
    inqueue p2 = inqueue p @ [Task (JobReq TASK (job_counter p) None (aa_work a))] \<and>
    handle_task c env syn now (JobReq TASK (job_counter p) None (aa_work a)) s = (r, s') \<and>
    wk_out s' = wk_out s @ [MAck (job_counter p) None now (wc_pid c) (wc_synqW_fd c),
      MReady (job_counter p) None (sent_result env (aa_work a)) (wc_inqW_fd c)] \<and>
    on_state_change killf (Msg (MAck (job_counter p) None now (wc_pid c) (wc_synqW_fd c))) p2 = (Inr (), p3) \<and>
    on_state_change killf (Msg (MReady (job_counter p) None (sent_result env (aa_work a)) (wc_inqW_fd c))) p3 = (Inr (), p4) \<and>
    pcache p4 = pcache p \<and> objs p4 (job_counter p) = Some (AR j) \<and>
    fst (ar_get wait j) = outcome (sent_result env (aa_work a))"
proof -
  let ?k = "job_counter p"
  let ?t = "Task (JobReq TASK ?k None (aa_work a))"
  let ?res = "sent_result env (aa_work a)"
  let ?j = "ApplyResult ?k None None (aa_timeout_callback a) None (or_else (aa_soft_timeout a) (dc_soft_timeout d))
      (or_else (aa_timeout a) (dc_timeout d)) (the (or_else (aa_lost_worker_timeout a) (Some (dc_lost_worker_timeout d))))
      None None (aa_callbacks_propagate a) False"
  let ?p1 = "p\<lparr>job_counter := ?k + 1, objs := (objs p)(?k \<mapsto> AR ?j), pcache := pcache p @ [?k],
      taskqueue := [Some ([?t], None, None)]\<rparr>"
  have p1: "apply_async d putf a p = (Inr (Some ?k), ?p1)"
    using p d a by (simp add: apply_async_def act_defs new_job_def put_tasks_def Let_def cache_add_new)
  let ?p2 = "?p1\<lparr>taskqueue := [], inqueue := inqueue p @ [?t]\<rparr>"
  have p2: "task_handler putf ?p1 = (Inr False, ?p2)"
    using p putf by (simp add: task_handler_def act_defs Let_def put_task_def end_entry_def call_set_length_def)
  obtain r s' where s': "handle_task c env syn now (JobReq TASK ?k None (aa_work a)) s = (r, s')"
    "wk_out s' = wk_out s @ [MAck ?k None now (wc_pid c) (wc_synqW_fd c), MReady ?k None ?res (wc_inqW_fd c)]"
    using worker_sends [OF w] by blast
  let ?j' = "ack_fields now (wc_pid c) ?j"
  have ack: "wp (on_state_change killf (Msg (MAck ?k None now (wc_pid c) (wc_synqW_fd c))))
     (\<lambda>_ q. pcache q = pcache p @ [?k] \<and> objs q ?k = Some (AR ?j')) (\<lambda>_ _. False) ?p2"
    by (simp add: on_state_change_def on_ack_def wp_simps limiter_reset_def forget_worker_def cached_def job_ack_def
        ar_ack_def ar_ready_def ApplyResult_def ack_fields_def)
  then obtain p3 where p3: "on_state_change killf (Msg (MAck ?k None now (wc_pid c) (wc_synqW_fd c))) ?p2 = (Inr (), p3)"
    "pcache p3 = pcache p @ [?k]" "objs p3 ?k = Some (AR ?j')" unfolding wp_total by auto
  let ?f = "?j'\<lparr>ar_success := fst ?res, ar_value := snd ?res, ar_event := True\<rparr>"
  have keep: "objs (credit ?k None q) = objs q" "pcache (credit ?k None q) = pcache q"
    "objs (release_slot q) = objs q" "pcache (release_slot q) = pcache q" for q
    by (simp_all add: credit_def release_slot_def split: option.split)
  have set: "job_set ?k None ?res q = (Inr (), q\<lparr>objs := (objs q)(?k \<mapsto> AR ?f), pcache := pcache p\<rparr>)"
    if "objs q ?k = Some (AR ?j')" "pcache q = pcache p @ [?k]" for q
    using that p(4) by (simp add: job_set_def readA_def plain_ar ack_fields_def ApplyResult_def remove1_last)
  have ready: "wp (on_state_change killf (Msg (MReady ?k None ?res (wc_inqW_fd c))))
     (\<lambda>_ q. pcache q = pcache p \<and> objs q ?k = Some (AR ?f)) (\<lambda>_ _. False) p3"
  proof -
    have "wp (job_set ?k None ?res) (\<lambda>_ q. pcache q = pcache p \<and> objs q ?k = Some (AR ?f)) (\<lambda>_ _. False)
        (release_slot (credit ?k None p3))"
      unfolding wp_def using set [of "release_slot (credit ?k None p3)"] p3 keep by simp
    then have "wp (job_set ?k None ?res) (\<lambda>_ q. pcache q = pcache p \<and> objs q ?k = Some (AR ?f)) E
        (release_slot (credit ?k None p3))" for E
      by (rule wp_mono) auto
    moreover have "\<not> ar_ready ?j'" by (simp add: ar_ready_def ack_fields_def ApplyResult_def)
    moreover have "cached (credit ?k None p3) ?k = Some (AR ?j')" using p3 keep by (simp add: cached_def)
    ultimately show ?thesis
      by (simp add: on_state_change_def on_ready_def wp_simps)
  qed
  then obtain p4 where p4: "on_state_change killf (Msg (MReady ?k None ?res (wc_inqW_fd c))) p3 = (Inr (), p4)"
    "pcache p4 = pcache p" "objs p4 ?k = Some (AR ?f)" unfolding wp_total by auto
  have "fst (ar_get wait ?f) = outcome ?res" by (simp add: ar_get_def ar_ready_def outcome_def)
  moreover have "inqueue ?p2 = inqueue p @ [?t]" by simp
  ultimately show ?thesis using p1 p2 s' p3(1) p4 by blast
qed

theorem apply_async_end_to_end_witness:
  "\<exists>p1 p2 p3 p4 j. apply_async \<lparr>dc_timeout = None, dc_soft_timeout = None, dc_lost_worker_timeout = 10, dc_threads = True,
      dc_putlocks = False, dc_synack = False, dc_on_timeout_set = None, dc_on_timeout_cancel = None\<rparr> (\<lambda>_. None)
     \<lparr>aa_work = Call 1 PNone, aa_callback = None, aa_error_callback = None, aa_accept_callback = None, aa_timeout_callback = None,
      aa_waitforslot = None, aa_soft_timeout = None, aa_timeout = None, aa_lost_worker_timeout = None, aa_callbacks_propagate = []\<rparr> pool0
      = (Inr (Some 0), p1) \<and> on_state_change (\<lambda>_ _. None) (Msg (MAck 0 None 5 50 None)) p2 = (Inr (), p3) \<and>
    on_state_change (\<lambda>_ _. None) (Msg (MReady 0 None (False, PEinfo ValueError) 4)) p3 = (Inr (), p4) \<and>
    objs p4 0 = Some (AR j) \<and> fst (ar_get id j) = Inl ValueError"
proof -
  let ?w = "\<lparr>wk_out = [], wk_completed = 0, wk_fired = False, wk_exitcode = None, wk_consumed = None\<rparr>"
  have pool: "pstatus pool0 = RUN" "th_state pool0 = RUN" "taskqueue pool0 = []" "job_counter pool0 \<notin> set (pcache pool0)"
    "job_counter pool0 = 0" by (simp_all add: pool0_def)
  have res: "sent_result ex_env (Call 1 PNone) = (False, PEinfo ValueError)" "outcome (False, PEinfo ValueError) = Inl ValueError"
    by (simp_all add: sent_result_def ex_env_def outcome_def)
  from apply_async_end_to_end [OF pool(1-4), of "\<lparr>dc_timeout = None, dc_soft_timeout = None, dc_lost_worker_timeout = 10, dc_threads = True,
      dc_putlocks = False, dc_synack = False, dc_on_timeout_set = None, dc_on_timeout_cancel = None\<rparr>"
     "\<lparr>aa_work = Call 1 PNone, aa_callback = None, aa_error_callback = None, aa_accept_callback = None, aa_timeout_callback = None,
      aa_waitforslot = None, aa_soft_timeout = None, aa_timeout = None, aa_lost_worker_timeout = None, aa_callbacks_propagate = []\<rparr>"
     "\<lambda>_. None" "ex_conf None" ex_env ?w "[]" 5 "\<lambda>_ _. None" id, OF _ _ _ _ _ _ _ _ _ _ ex_calm]
  show ?thesis unfolding pool(5) using res by (simp add: ex_conf_def) blast
qed

end
